(* ===== verification/Prelude.thy ===== *)
theory Prelude
  imports Main "HOL-Library.Word"
begin

text \<open>
  What the component theories share: the faults a C++ statement can end in, the sequencing of
  fallible steps, and generic lemmas on lists and maps that are declared to the simplifier or
  collected so that the component proofs stay short.

  The model is of the release build: \<^verbatim>\<open>assert\<close> is compiled out, so it has no branch of its own.
  What an assertion protects (a null dereference, an index past the end of an array) is a
  \<open>fault\<close> of the model, and the asserted conditions are lemmas of the component theories.
\<close>

unbundle bit_operations_syntax

named_theorems inv_intros \<open>introduction rules for component invariants\<close>
named_theorems step_simps \<open>defining equations of the operations a component exports\<close>

subsection \<open>Faults and the sequencing of fallible steps\<close>

text \<open>
  The ways an operation of the source can fail to return: an exception, with its message, a null
  pointer that is dereferenced, an index outside the container, an access to memory that has been
  freed, \<open>value()\<close> of an empty optional.
\<close>

datatype fault =
    RuntimeError string
  | NullDeref
  | OutOfBounds
  | UseAfterFree
  | BadOptional

definition and_then :: "'e + 'a \<Rightarrow> ('a \<Rightarrow> 'e + 'b) \<Rightarrow> 'e + 'b" where
  "and_then m f = (case m of Inl e \<Rightarrow> Inl e | Inr x \<Rightarrow> f x)"

lemma and_then_simps [simp]:
  "and_then (Inl e) f = Inl e"
  "and_then (Inr x) f = f x"
  by (simp_all add: and_then_def)

lemma and_then_Inr_iff:
  "and_then m f = Inr y \<longleftrightarrow> (\<exists>x. m = Inr x \<and> f x = Inr y)"
  by (cases m) simp_all

lemma and_then_assoc:
  "and_then (and_then m f) g = and_then m (\<lambda>x. and_then (f x) g)"
  by (cases m) simp_all

text \<open>A dereference: reading a container through a pointer, represented by the key it points to.\<close>

definition deref :: "('k \<rightharpoonup> 'v) \<Rightarrow> 'k option \<Rightarrow> fault + 'v" where
  "deref m p =
     (case p of None \<Rightarrow> Inl NullDeref
      | Some k \<Rightarrow> (case m k of None \<Rightarrow> Inl UseAfterFree | Some v \<Rightarrow> Inr v))"

lemma deref_Inr_iff: "deref m p = Inr v \<longleftrightarrow> (\<exists>k. p = Some k \<and> m k = Some v)"
  by (auto simp: deref_def split: option.splits)

subsection \<open>Lists\<close>

lemma distinct_snoc [simp]: "distinct (xs @ [x]) \<longleftrightarrow> distinct xs \<and> x \<notin> set xs"
  by auto

lemma sorted_wrt_snoc:
  "sorted_wrt P (xs @ [x]) \<longleftrightarrow> sorted_wrt P xs \<and> (\<forall>y \<in> set xs. P y x)"
  by (simp add: sorted_wrt_append)

lemma sum_list_map_update:
  fixes f :: "'a \<Rightarrow> int"
  assumes "i < length xs"
  shows "(\<Sum>x\<leftarrow>xs[i := y]. f x) = (\<Sum>x\<leftarrow>xs. f x) - f (xs ! i) + f y"
  using assms
proof (induction xs arbitrary: i)
  case (Cons x xs)
  then show ?case by (cases i) simp_all
qed simp

text \<open>The pointers of an array of pointers are distinct as soon as no two positions share one.\<close>

lemma distinct_pointers:
  assumes "\<And>i j k. i < length ps \<Longrightarrow> j < length ps \<Longrightarrow> ps ! i = Some k \<Longrightarrow> ps ! j = Some k \<Longrightarrow> i = j"
  shows "distinct (filter (\<lambda>x. x \<noteq> None) ps)"
  using assms
proof (induction ps)
  case (Cons p ps)
  have "distinct (filter (\<lambda>x. x \<noteq> None) ps)"
    using Cons.prems [of "Suc _" "Suc _"] by (intro Cons.IH) auto
  moreover have "p \<notin> set ps" if "p = Some k" for k
    using Cons.prems [of 0 "Suc _" k] that by (auto simp: in_set_conv_nth)
  ultimately show ?case by (cases p) auto
qed simp

subsection \<open>Bit fields\<close>

text \<open>A field of \<open>n\<close> bits below another is an addition, as long as the value fits.\<close>

lemma push_bit_or_nat:
  fixes a b :: nat
  assumes "b < 2 ^ n"
  shows "push_bit n a OR b = a * 2 ^ n + b"
proof -
  have b: "take_bit n b = b" using assms by (simp add: take_bit_nat_eq_self_iff)
  have "push_bit n a AND take_bit n b = 0"
    by (rule bit_eqI) (auto simp: bit_simps)
  then have "push_bit n a AND b = 0" by (simp only: b)
  then have "push_bit n a + b = push_bit n a OR b"
    by (rule disjunctive_add_eq_or)
  then show ?thesis by (simp add: push_bit_eq_mult)
qed

lemma unat_push_bit_small:
  fixes w :: "'a::len word"
  assumes "unat w * 2 ^ n < 2 ^ LENGTH('a)"
  shows "unat (push_bit n w) = unat w * 2 ^ n"
proof -
  have "unat (push_bit n w) = take_bit LENGTH('a) (push_bit n (unat w))"
    by (rule unsigned_push_bit_eq)
  also have "\<dots> = unat w * 2 ^ n"
    using assms by (simp add: push_bit_eq_mult take_bit_nat_eq_self_iff)
  finally show ?thesis .
qed

lemma unat_and_mask:
  fixes w :: "'a::len word"
  shows "unat (w AND mask n) = unat w mod 2 ^ n"
proof -
  have "unat (w AND mask n) = unat (take_bit n w)" by (simp only: take_bit_eq_mask)
  also have "\<dots> = take_bit n (unat w)" by (rule unsigned_take_bit_eq)
  finally show ?thesis by (simp add: take_bit_eq_mod)
qed

end
