(* ===== verification/Snowflake.thy ===== *)
theory Snowflake
  imports Prelude
begin

text \<open>
  \<^verbatim>\<open>shared/snowflake/snowflake.h\<close>: the generator of 64-bit unique ids (a time stamp in
  milliseconds, a data-centre and a machine number of five bits each, a sequence number of twelve
  bits). The clock is not under the program's control: its successive readings are a list that
  each call consumes from the front.

  The theory proves that under a clock that does not go backwards the ids of one generator
  strictly increase, that generators of different keys never produce the same id, and that a call
  returns as soon as the clock advances.
\<close>

type_synonym u64 = "64 word"

definition SEQUENCE_BIT :: nat where "SEQUENCE_BIT = 12"
definition MACHINE_BIT :: nat where "MACHINE_BIT = 5"
definition DATACENTER_BIT :: nat where "DATACENTER_BIT = 5"

definition MAX_SEQUENCE_MASK :: u64 where
  "MAX_SEQUENCE_MASK = (-1) XOR (push_bit SEQUENCE_BIT (-1))"

lemmas bit_widths = SEQUENCE_BIT_def MACHINE_BIT_def DATACENTER_BIT_def

record snowflake =
  machineId :: u64
  dataCenterId :: u64
  sequence :: u64
  lastTimePoint :: u64

definition snowflake_new :: "u64 \<Rightarrow> u64 \<Rightarrow> snowflake" where
  "snowflake_new machine datacenter =
     \<lparr>machineId = machine, dataCenterId = datacenter, sequence = 0, lastTimePoint = 0\<rparr>"

definition snowflake_of_key :: "u64 \<Rightarrow> snowflake" where
  "snowflake_of_key uniqueID =
     snowflake_new (uniqueID AND 31) (drop_bit MACHINE_BIT uniqueID AND 31)"

text \<open>
  The inner \<^verbatim>\<open>do ... while\<close> of \<^verbatim>\<open>Generate\<close>: it reads the clock until the reading
  exceeds the last time point. \<open>None\<close> is a loop that is still spinning when the readings end.
\<close>

fun wait_next_tick :: "u64 \<Rightarrow> u64 list \<Rightarrow> (u64 \<times> u64 list) option" where
  "wait_next_tick lst [] = None"
| "wait_next_tick lst (t # ts) = (if t \<le> lst then wait_next_tick lst ts else Some (t, ts))"

definition compose_id :: "u64 \<Rightarrow> u64 \<Rightarrow> u64 \<Rightarrow> u64 \<Rightarrow> u64 \<Rightarrow> u64" where
  "compose_id epoch timePoint datacenter machine sq =
     push_bit (SEQUENCE_BIT + MACHINE_BIT + DATACENTER_BIT) (timePoint - epoch)
     OR push_bit (SEQUENCE_BIT + MACHINE_BIT) datacenter
     OR push_bit SEQUENCE_BIT machine
     OR sq"

fun generate :: "u64 \<Rightarrow> snowflake \<Rightarrow> u64 list \<Rightarrow> (u64 \<times> snowflake \<times> u64 list) option" where
  "generate epoch s [] = None"
| "generate epoch s (t # ts) =
     (let next =
        (if t = lastTimePoint s
         then (let sq = (sequence s + 1) AND MAX_SEQUENCE_MASK
               in if sq = 0
                  then map_option (\<lambda>(t', ts'). (sq, t', ts')) (wait_next_tick (lastTimePoint s) ts)
                  else Some (sq, t, ts))
         else Some (0, t, ts))
      in case next of
           None \<Rightarrow> None
         | Some (sq, t', ts') \<Rightarrow>
             Some (compose_id epoch t' (dataCenterId s) (machineId s) sq,
                   s\<lparr>sequence := sq, lastTimePoint := t'\<rparr>, ts'))"

subsection \<open>The value of an id\<close>

lemma MAX_SEQUENCE_MASK_eq: "MAX_SEQUENCE_MASK = mask 12"
  by (simp add: MAX_SEQUENCE_MASK_def SEQUENCE_BIT_def mask_eq_exp_minus_1)

definition id_value :: "nat \<Rightarrow> nat \<Rightarrow> nat \<Rightarrow> nat \<Rightarrow> nat" where
  "id_value tick datacenter machine sq = ((tick * 32 + datacenter) * 32 + machine) * 4096 + sq"

lemma id_value_nested:
  assumes "d < 32" and "m < 32" and "q < 4096"
  shows "push_bit 22 t OR (push_bit 17 d OR (push_bit 12 m OR q)) = id_value t d m q"
proof -
  have q: "push_bit 12 m OR q = m * 2 ^ 12 + q"
    using assms(3) by (intro push_bit_or_nat) simp
  have m: "push_bit 17 d OR (m * 2 ^ 12 + q) = d * 2 ^ 17 + (m * 2 ^ 12 + q)"
    using assms(2,3) by (intro push_bit_or_nat) simp
  have d: "push_bit 22 t OR (d * 2 ^ 17 + (m * 2 ^ 12 + q)) = t * 2 ^ 22 + (d * 2 ^ 17 + (m * 2 ^ 12 + q))"
    using assms by (intro push_bit_or_nat) simp
  show ?thesis unfolding q m d by (simp add: id_value_def)
qed

lemma unat_push_bit_u64:
  fixes w :: u64
  assumes "unat w < 2 ^ k" and "k + n \<le> 64"
  shows "unat (push_bit n w) = push_bit n (unat w)"
proof -
  have "unat w * 2 ^ n < 2 ^ k * 2 ^ n" using assms(1) by simp
  also have "\<dots> \<le> (2::nat) ^ 64" using assms(2) by (metis power_add power_increasing one_le_numeral)
  finally have "unat (push_bit n w) = unat w * 2 ^ n"
    by (intro unat_push_bit_small) simp
  then show ?thesis by (simp only: push_bit_eq_mult)
qed

text \<open>
  With a tick of at most 42 bits, two numbers of five bits and a sequence number of twelve, no
  field of the composed id reaches into another.
\<close>

lemma unat_compose_id:
  assumes "unat (t - epoch) < 2 ^ 42" and "unat d < 32" and "unat m < 32" and "unat q < 4096"
  shows "unat (compose_id epoch t d m q) = id_value (unat (t - epoch)) (unat d) (unat m) (unat q)"
proof -
  have t: "unat (push_bit 22 (t - epoch)) = push_bit 22 (unat (t - epoch))"
    using assms(1) by (intro unat_push_bit_u64 [where k = 42]) simp_all
  have d: "unat (push_bit 17 d) = push_bit 17 (unat d)"
    using assms(2) by (intro unat_push_bit_u64 [where k = 5]) simp_all
  have m: "unat (push_bit 12 m) = push_bit 12 (unat m)"
    using assms(3) by (intro unat_push_bit_u64 [where k = 5]) simp_all
  have "compose_id epoch t d m q =
      push_bit 22 (t - epoch) OR (push_bit 17 d OR (push_bit 12 m OR q))"
    by (simp add: compose_id_def bit_widths or.assoc)
  then show ?thesis
    by (simp only: unsigned_or_eq t d m id_value_nested [OF assms(2-4)])
qed

lemma id_value_less:
  assumes "t < t'" and "d < 32" and "m < 32" and "q < 4096"
  shows "id_value t d m q < id_value t' d m q'"
  using assms by (simp add: id_value_def)

subsection \<open>One call of Generate\<close>

definition snowflake_wf :: "snowflake \<Rightarrow> bool" where
  "snowflake_wf s \<longleftrightarrow>
     unat (machineId s) < 32 \<and> unat (dataCenterId s) < 32 \<and> unat (sequence s) < 4096"

text \<open>
  The clock does not go backwards (the assertion of \<^verbatim>\<open>Generate\<close>), starts at the epoch and stays
  within the 42 bits of the tick field.
\<close>

definition clock_ok :: "u64 \<Rightarrow> snowflake \<Rightarrow> u64 list \<Rightarrow> bool" where
  "clock_ok epoch s ts \<longleftrightarrow>
     sorted ts \<and> (\<forall>t \<in> set ts. lastTimePoint s \<le> t \<and> epoch \<le> t \<and> unat (t - epoch) < 2 ^ 42)"

definition ready :: "u64 \<Rightarrow> snowflake \<Rightarrow> u64 list \<Rightarrow> bool" where
  "ready epoch s ts \<longleftrightarrow> snowflake_wf s \<and> clock_ok epoch s ts"

text \<open>A lower bound of every id the generator can still produce.\<close>

definition id_floor :: "u64 \<Rightarrow> snowflake \<Rightarrow> nat" where
  "id_floor epoch s =
     (if lastTimePoint s < epoch then 0
      else Suc (id_value (unat (lastTimePoint s - epoch)) (unat (dataCenterId s))
                  (unat (machineId s)) (unat (sequence s))))"

lemma wait_next_tick_Some:
  "wait_next_tick l ts = Some (t', ts') \<Longrightarrow> l < t' \<and> (\<exists>pre. ts = pre @ t' # ts')"
proof (induction ts)
  case (Cons t ts)
  then show ?case
    by (cases "t \<le> l") (auto intro: exI [of _ "t # _"])
qed simp

lemma wait_next_tick_None: "wait_next_tick l ts = None \<longleftrightarrow> (\<forall>t \<in> set ts. t \<le> l)"
  by (induction ts) auto

lemma next_sequence:
  assumes "unat q < 4096"
  shows "unat ((q + 1) AND MAX_SEQUENCE_MASK) < 4096"
    and "(q + 1) AND MAX_SEQUENCE_MASK \<noteq> 0 \<Longrightarrow> unat ((q + 1) AND MAX_SEQUENCE_MASK) = Suc (unat q)"
proof -
  have q1: "unat (q + 1) = Suc (unat q)"
    using assms by (simp add: unat_word_ariths)
  have u: "unat ((q + 1) AND MAX_SEQUENCE_MASK) = Suc (unat q) mod 4096"
    unfolding MAX_SEQUENCE_MASK_eq unat_and_mask q1 by simp
  show "unat ((q + 1) AND MAX_SEQUENCE_MASK) < 4096" unfolding u by simp
  assume "(q + 1) AND MAX_SEQUENCE_MASK \<noteq> 0"
  then have "unat ((q + 1) AND MAX_SEQUENCE_MASK) \<noteq> 0" by (simp add: unat_eq_zero)
  then show "unat ((q + 1) AND MAX_SEQUENCE_MASK) = Suc (unat q)"
    using assms unfolding u by (cases "Suc (unat q) = 4096") auto
qed

lemma generate_cases:
  assumes "generate epoch s ts = Some (i, s', ts')"
  obtains (same) "ts = lastTimePoint s # ts'" "lastTimePoint s' = lastTimePoint s"
      "sequence s' = (sequence s + 1) AND MAX_SEQUENCE_MASK" "sequence s' \<noteq> 0"
      "i = compose_id epoch (lastTimePoint s') (dataCenterId s') (machineId s') (sequence s')"
      "machineId s' = machineId s" "dataCenterId s' = dataCenterId s"
  | (later) pre where "ts = pre @ lastTimePoint s' # ts'" "lastTimePoint s' \<noteq> lastTimePoint s"
      "sequence s' = 0"
      "i = compose_id epoch (lastTimePoint s') (dataCenterId s') (machineId s') (sequence s')"
      "machineId s' = machineId s" "dataCenterId s' = dataCenterId s"
proof (cases ts)
  case Nil
  with assms show thesis by simp
next
  case (Cons t rest)
  let ?sq = "(sequence s + 1) AND MAX_SEQUENCE_MASK"
  consider "t = lastTimePoint s \<and> ?sq \<noteq> 0" | "t = lastTimePoint s \<and> ?sq = 0" | "t \<noteq> lastTimePoint s"
    by blast
  then show thesis
  proof cases
    case 1
    then show thesis using assms Cons by (intro same) auto
  next
    case 2
    with assms Cons obtain t' where
      w: "wait_next_tick (lastTimePoint s) rest = Some (t', ts')" and t': "lastTimePoint s' = t'"
      by (auto split: option.splits)
    from wait_next_tick_Some [OF w] obtain pre where "rest = pre @ t' # ts'" "lastTimePoint s < t'"
      by blast
    moreover from 2 w assms Cons have "s' = s\<lparr>sequence := 0, lastTimePoint := t'\<rparr>"
      and "i = compose_id epoch t' (dataCenterId s) (machineId s) 0"
      by auto
    ultimately show thesis using Cons by (intro later [of "t # pre"]) auto
  next
    case 3
    then show thesis using assms Cons by (intro later [of "[]"]) auto
  qed
qed

text \<open>The call fails to return only while the clock stands still on an exhausted sequence.\<close>

lemma generate_None_iff:
  "generate epoch s ts = None \<longleftrightarrow>
     ts = [] \<or> (hd ts = lastTimePoint s \<and> (sequence s + 1) AND MAX_SEQUENCE_MASK = 0
               \<and> (\<forall>t \<in> set (tl ts). t \<le> lastTimePoint s))"
proof (cases ts)
  case (Cons t rest)
  show ?thesis
  proof (cases "wait_next_tick (lastTimePoint s) rest")
    case None
    then have "\<forall>u \<in> set rest. u \<le> lastTimePoint s" by (simp add: wait_next_tick_None)
    with Cons None show ?thesis by (simp add: Let_def)
  next
    case (Some x)
    then have "\<not> (\<forall>u \<in> set rest. u \<le> lastTimePoint s)"
      by (simp flip: wait_next_tick_None)
    with Cons Some show ?thesis by (auto simp: Let_def split: prod.splits)
  qed
qed simp

lemma generate_keeps_ready:
  assumes "ready epoch s ts" and "generate epoch s ts = Some (i, s', ts')"
  shows "ready epoch s' ts'"
  using assms(2)
proof (cases rule: generate_cases)
  case same
  with assms(1) next_sequence(1) [of "sequence s"] show ?thesis
    by (auto simp: ready_def snowflake_wf_def clock_ok_def)
next
  case (later pre)
  with assms(1) show ?thesis
    by (auto simp: ready_def snowflake_wf_def clock_ok_def sorted_append)
qed

lemma generate_value:
  assumes "ready epoch s ts" and "generate epoch s ts = Some (i, s', ts')"
  shows "epoch \<le> lastTimePoint s'"
    and "unat i = id_value (unat (lastTimePoint s' - epoch)) (unat (dataCenterId s'))
                    (unat (machineId s')) (unat (sequence s'))"
proof -
  have t: "lastTimePoint s' \<in> set ts"
    using assms(2) by (cases rule: generate_cases) auto
  with assms(1) show "epoch \<le> lastTimePoint s'" by (auto simp: ready_def clock_ok_def)
  have "snowflake_wf s'" using generate_keeps_ready [OF assms] by (simp add: ready_def)
  moreover have "i = compose_id epoch (lastTimePoint s') (dataCenterId s') (machineId s') (sequence s')"
    using assms(2) by (cases rule: generate_cases) auto
  ultimately show "unat i = id_value (unat (lastTimePoint s' - epoch)) (unat (dataCenterId s'))
                    (unat (machineId s')) (unat (sequence s'))"
    using assms(1) t by (auto simp: snowflake_wf_def ready_def clock_ok_def intro!: unat_compose_id)
qed

lemma unat_diff_mono:
  fixes e a b :: u64
  assumes "e \<le> a" and "a < b"
  shows "unat (a - e) < unat (b - e)"
  using assms by unat_arith

lemma generate_above_floor:
  assumes "ready epoch s ts" and "generate epoch s ts = Some (i, s', ts')"
  shows "id_floor epoch s \<le> unat i"
proof (cases "lastTimePoint s < epoch")
  case False
  note v = generate_value [OF assms]
  from assms(2) show ?thesis
  proof (cases rule: generate_cases)
    case same
    with assms(1) have "unat (sequence s') = Suc (unat (sequence s))"
      using next_sequence(2) [of "sequence s"] by (auto simp: ready_def snowflake_wf_def)
    with same v False show ?thesis by (simp add: id_floor_def id_value_def)
  next
    case (later pre)
    with assms(1) have "lastTimePoint s < lastTimePoint s'"
      by (auto simp: ready_def clock_ok_def)
    with False have "unat (lastTimePoint s - epoch) < unat (lastTimePoint s' - epoch)"
      by (intro unat_diff_mono) auto
    with assms(1) later v False show ?thesis
      by (auto simp: id_floor_def ready_def snowflake_wf_def Suc_le_eq intro!: id_value_less)
  qed
qed (simp add: id_floor_def)

lemma generate_below_next_floor:
  assumes "ready epoch s ts" and "generate epoch s ts = Some (i, s', ts')"
  shows "unat i < id_floor epoch s'"
  using generate_value [OF assms] by (simp add: id_floor_def not_less)

subsection \<open>The interface IUniqueIDGenerator\<close>

text \<open>
  What the clients of \<^verbatim>\<open>IUniqueIDGenerator\<close> (the repository that numbers items, the session ids
  of the servers) rely on: every id is above all earlier ones. \<open>generate_many\<close> is a client that asks for
  \<open>n\<close> ids.
\<close>

fun generate_many ::
  "nat \<Rightarrow> ('s \<Rightarrow> 'c \<Rightarrow> (u64 \<times> 's \<times> 'c) option) \<Rightarrow> 's \<Rightarrow> 'c \<Rightarrow> (u64 list \<times> 's \<times> 'c) option" where
  "generate_many 0 gen s c = Some ([], s, c)"
| "generate_many (Suc n) gen s c =
     (case gen s c of
        None \<Rightarrow> None
      | Some (i, s', c') \<Rightarrow>
          (case generate_many n gen s' c' of
             None \<Rightarrow> None
           | Some (is, s'', c'') \<Rightarrow> Some (i # is, s'', c'')))"

locale unique_id_generator =
  fixes gen :: "'s \<Rightarrow> 'c \<Rightarrow> (u64 \<times> 's \<times> 'c) option"
    and usable :: "'s \<Rightarrow> 'c \<Rightarrow> bool"
    and floor_of :: "'s \<Rightarrow> nat"
  assumes gen_usable: "usable s c \<Longrightarrow> gen s c = Some (i, s', c') \<Longrightarrow> usable s' c'"
    and gen_ge_floor: "usable s c \<Longrightarrow> gen s c = Some (i, s', c') \<Longrightarrow> floor_of s \<le> unat i"
    and gen_raises_floor: "usable s c \<Longrightarrow> gen s c = Some (i, s', c') \<Longrightarrow> unat i < floor_of s'"
begin

lemma many_increasing:
  assumes "usable s c" and "generate_many n gen s c = Some (is, s', c')"
  shows "sorted_wrt (<) is \<and> (\<forall>i \<in> set is. floor_of s \<le> unat i) \<and> usable s' c'"
  using assms
proof (induction n arbitrary: s c "is")
  case 0
  then show ?case by simp
next
  case (Suc n)
  from Suc.prems(2) obtain i s1 c1 is1 where
    g: "gen s c = Some (i, s1, c1)" and r: "generate_many n gen s1 c1 = Some (is1, s', c')"
    and "is": "is = i # is1"
    by (auto split: option.splits prod.splits)
  have IH: "sorted_wrt (<) is1" "\<forall>i \<in> set is1. floor_of s1 \<le> unat i" "usable s' c'"
    using Suc.IH [OF gen_usable [OF Suc.prems(1) g] r] by auto
  have i: "floor_of s \<le> unat i" "unat i < floor_of s1"
    using gen_ge_floor gen_raises_floor Suc.prems(1) g by blast+
  have "\<forall>j \<in> set is1. i < j"
    using IH(2) i(2) by (meson less_le_trans word_less_nat_alt)
  moreover have "\<forall>j \<in> set is1. floor_of s \<le> unat j"
    using IH(2) i by (meson le_trans less_imp_le)
  ultimately show ?case using IH i(1) "is" by simp
qed

lemma many_distinct:
  assumes "usable s c" and "generate_many n gen s c = Some (is, s', c')"
  shows "distinct is"
  using many_increasing [OF assms] by (auto simp: strict_sorted_iff)

end

interpretation snowflake_gen: unique_id_generator "generate epoch" "ready epoch" "id_floor epoch"
  for epoch
  by unfold_locales
    (rule generate_keeps_ready generate_above_floor generate_below_next_floor; assumption)+

text \<open>
  The 22 low bits of an id hold the numbers of the generator and the sequence number whatever the clock reads: a tick of
  more than 42 bits, and one that wraps because the clock is before the epoch, lose their high bits.
\<close>

lemma low_bits_compose_id:
  assumes "unat d < 32" and "unat m < 32" and "unat q < 4096"
  shows "take_bit 22 (unat (compose_id epoch t d m q)) = id_value 0 (unat d) (unat m) (unat q)"
proof -
  let ?x = "push_bit 17 d OR (push_bit 12 m OR q)"
  have d: "unat (push_bit 17 d) = push_bit 17 (unat d)"
    using assms(1) by (intro unat_push_bit_u64 [where k = 5]) simp_all
  have m: "unat (push_bit 12 m) = push_bit 12 (unat m)"
    using assms(2) by (intro unat_push_bit_u64 [where k = 5]) simp_all
  have x: "unat ?x = id_value 0 (unat d) (unat m) (unat q)"
    using id_value_nested [OF assms, of 0] by (simp only: unsigned_or_eq d m push_bit_of_0 or.left_neutral)
  have "id_value 0 (unat d) (unat m) (unat q) < 2 ^ 22" using assms by (simp add: id_value_def)
  then have "take_bit 22 (unat ?x) = id_value 0 (unat d) (unat m) (unat q)"
    unfolding x by (simp add: take_bit_nat_eq_self_iff)
  moreover have "take_bit 22 (unat (push_bit 22 (t - epoch))) = 0"
    by (simp add: unsigned_push_bit_eq take_bit_push_bit)
  moreover have "compose_id epoch t d m q = push_bit 22 (t - epoch) OR ?x"
    by (simp add: compose_id_def bit_widths or.assoc)
  ultimately show ?thesis by (simp only: unsigned_or_eq take_bit_or or.left_neutral)
qed

lemma generate_keeps_wf:
  assumes "snowflake_wf s" and "generate epoch s ts = Some (i, s', ts')"
  shows "snowflake_wf s'"
  using assms(2)
proof (cases rule: generate_cases)
  case same
  with assms(1) next_sequence(1) [of "sequence s"] show ?thesis by (simp add: snowflake_wf_def)
next
  case later
  with assms(1) show ?thesis by (simp add: snowflake_wf_def)
qed

lemma generate_many_fields:
  assumes "snowflake_wf s" and "generate_many n (generate epoch) s ts = Some (is, s', ts')" and "i \<in> set is"
  shows "\<exists>sq < 4096. take_bit 22 (unat i) = id_value 0 (unat (dataCenterId s)) (unat (machineId s)) sq"
  using assms
proof (induction n arbitrary: s ts "is")
  case (Suc n)
  from Suc.prems(2) obtain j s1 ts1 is1 where
    g: "generate epoch s ts = Some (j, s1, ts1)"
    and r: "generate_many n (generate epoch) s1 ts1 = Some (is1, s', ts')" and "is": "is = j # is1"
    by (auto split: option.splits prod.splits)
  have same: "machineId s1 = machineId s" "dataCenterId s1 = dataCenterId s"
    "j = compose_id epoch (lastTimePoint s1) (dataCenterId s1) (machineId s1) (sequence s1)"
    using g by (cases rule: generate_cases; simp)+
  note wf = generate_keeps_wf [OF Suc.prems(1) g]
  show ?case
  proof (cases "i = j")
    case True
    with wf same show ?thesis by (auto simp: snowflake_wf_def intro!: low_bits_compose_id)
  next
    case False
    with Suc.prems(3) "is" have "i \<in> set is1" by simp
    from Suc.IH [OF wf r this] same show ?thesis by simp
  qed
qed simp

subsection \<open>The numbers a key stands for\<close>

lemma key_fields:
  "unat (machineId (snowflake_of_key k)) = unat k mod 32"
  "unat (dataCenterId (snowflake_of_key k)) = unat k div 32 mod 32"
proof -
  have m: "(31 :: u64) = mask 5" by (simp add: mask_eq_exp_minus_1)
  show "unat (machineId (snowflake_of_key k)) = unat k mod 32"
    by (simp add: snowflake_of_key_def snowflake_new_def m unat_and_mask del: mask_numeral)
  have "unat (drop_bit 5 k) = unat k div 32"
  proof -
    have "unat k < 2 ^ 64" using unsigned_less [of k] by simp
    then have "take_bit 64 (unat k) = unat k" by (simp add: take_bit_eq_mod)
    then show ?thesis by (simp add: drop_bit_eq_div unat_div)
  qed
  then show "unat (dataCenterId (snowflake_of_key k)) = unat k div 32 mod 32"
    by (simp add: snowflake_of_key_def snowflake_new_def m bit_widths unat_and_mask del: mask_numeral)
qed

lemma key_wf: "snowflake_wf (snowflake_of_key k)"
  unfolding snowflake_wf_def key_fields by (simp add: snowflake_of_key_def snowflake_new_def)

lemma id_value_inject_fields:
  assumes "id_value t d m q = id_value t' d' m' q'"
    and "d < 32" "m < 32" "q < 4096" "d' < 32" "m' < 32" "q' < 4096"
  shows "d = d' \<and> m = m'"
proof -
  have "id_value t d m q div 4096 = (t * 32 + d) * 32 + m"
    and "id_value t' d' m' q' div 4096 = (t' * 32 + d') * 32 + m'"
    using assms(4,7) by (simp_all add: id_value_def)
  with assms(1) have e: "(t * 32 + d) * 32 + m = (t' * 32 + d') * 32 + m'" by simp
  have m: "m = m'" using arg_cong [OF e, of "\<lambda>x. x mod 32"] assms(3,6)
    unfolding mod_mult_self3 by simp
  with e have "t * 32 + d = t' * 32 + d'" by simp
  then have "d = d'" using assms(2,5)
    by (metis mod_less mod_mult_self3)
  with m show ?thesis by simp
qed

subsection \<open>Properties\<close>

text \<open>
  C24: under a clock that does not go backwards, starts at the epoch and stays within the 42 bits of
  the tick field, the ids one generator hands out strictly increase, across ticks and across the
  wrap of the twelve-bit sequence, so they are pairwise distinct.
\<close>

theorem snowflake_ids_increase:
  assumes "ready epoch s ts" and "generate_many n (generate epoch) s ts = Some (is, s', ts')"
  shows "sorted_wrt (<) is \<and> distinct is"
  using snowflake_gen.many_increasing [OF assms] snowflake_gen.many_distinct [OF assms] by simp

theorem snowflake_ids_increase_witness:
  "\<exists>is s' ts'. generate_many 3 (generate 1000) (snowflake_of_key 7) [1005, 1005, 1006] = Some (is, s', ts')
     \<and> length is = 3 \<and> sorted_wrt (<) is \<and> distinct is"
proof -
  have r: "ready 1000 (snowflake_of_key 7) [1005, 1005, 1006]"
    by (simp add: ready_def snowflake_wf_def clock_ok_def snowflake_of_key_def snowflake_new_def bit_widths)
  have "\<exists>is s' ts'. generate_many 3 (generate 1000) (snowflake_of_key 7) [1005, 1005, 1006] = Some (is, s', ts')
     \<and> length is = 3"
    by (simp add: numeral_3_eq_3 Let_def snowflake_of_key_def snowflake_new_def bit_widths
        MAX_SEQUENCE_MASK_eq mask_eq_exp_minus_1)
  with snowflake_ids_increase [OF r] show ?thesis by blast
qed

text \<open>
  C25: two generators made from different keys below \<open>2 ^ 10\<close> never hand out the same id, however
  their clocks run, also backwards, before the epoch and beyond the 42 bits of the tick field: the
  data-centre and machine fields keep them apart. (Ids of one generator need such a clock, see C24.)
\<close>

theorem snowflake_keys_disjoint:
  assumes "unat k < 1024" and "unat k' < 1024" and "k \<noteq> k'"
    and "generate_many n (generate epoch) (snowflake_of_key k) ts = Some (is, s1, ts1)"
    and "generate_many m (generate epoch) (snowflake_of_key k') us = Some (js, s2, us1)"
  shows "set is \<inter> set js = {}"
proof (rule ccontr)
  assume "set is \<inter> set js \<noteq> {}"
  then obtain i where "i \<in> set is" and "i \<in> set js" by blast
  then obtain q q' where
      "take_bit 22 (unat i) = id_value 0 (unat k div 32 mod 32) (unat k mod 32) q" "q < 4096"
    and "take_bit 22 (unat i) = id_value 0 (unat k' div 32 mod 32) (unat k' mod 32) q'" "q' < 4096"
    using generate_many_fields [OF key_wf assms(4)] generate_many_fields [OF key_wf assms(5)]
    unfolding key_fields by blast
  then have "unat k div 32 mod 32 = unat k' div 32 mod 32 \<and> unat k mod 32 = unat k' mod 32"
    by (intro id_value_inject_fields [of 0 _ _ q 0 _ _ q']) simp_all
  moreover have "unat k div 32 < 32" and "unat k' div 32 < 32"
    using assms(1,2) by linarith+
  ultimately have "unat k div 32 = unat k' div 32" and "unat k mod 32 = unat k' mod 32"
    by simp_all
  then have "unat k = unat k'" by (metis div_mult_mod_eq)
  with assms(3) show False by (simp add: word_unat_eq_iff)
qed

theorem snowflake_keys_disjoint_witness:
  "\<exists>is js s1 s2 ts1 us1. generate_many 1 (generate 1000) (snowflake_of_key 7) [1005] = Some (is, s1, ts1)
     \<and> generate_many (Suc (Suc 0)) (generate 1000) (snowflake_of_key 8) [1005, 990] = Some (js, s2, us1)
     \<and> is \<noteq> [] \<and> set is \<inter> set js = {}"
proof -
  obtain is1 s1 t1 where g1: "generate_many 1 (generate 1000) (snowflake_of_key 7) [1005] = Some (is1, s1, t1)" "is1 \<noteq> []"
    by (simp add: Let_def snowflake_of_key_def snowflake_new_def)
  obtain is2 s2 t2 where g2: "generate_many (Suc (Suc 0)) (generate 1000) (snowflake_of_key 8) [1005, 990] = Some (is2, s2, t2)"
    by (simp add: Let_def snowflake_of_key_def snowflake_new_def)
  have k: "unat (7 :: u64) < 1024" "unat (8 :: u64) < 1024" "(7 :: u64) \<noteq> 8" by simp_all
  from snowflake_keys_disjoint [OF k g1(1) g2] g1 g2 show ?thesis by blast
qed

end
