(* ===== verification/Inventory.thy ===== *)
theory Inventory
  imports Prelude
begin

text \<open>
  \<^verbatim>\<open>xr/server/game/instance/entity/component/inventory_component.cpp\<close>: the items of one
  character, in thirty inventory slots and four equipment positions, with a log of the changes
  that the repository sends to the database.

  \<^verbatim>\<open>_items\<close> is a node-based map, so a pointer to an item stays valid until the node is erased; a
  pointer is modelled by the key of its node, and reading through a pointer whose node is gone is
  \<open>UseAfterFree\<close>. The two arrays of pointers are lists of optional keys. 32-bit and 64-bit integers
  are \<open>int\<close>: no operation of the component computes beyond the range of a stack.
\<close>

subsection \<open>Items, change logs, the component\<close>

datatype slot_type = SlotInventory | SlotEquipment

record inventory_item =
  itemId :: int
  itemDataId :: int
  quantity :: int
  slot :: int
  slotType :: slot_type
  attack :: "int option"
  defence :: "int option"
  str :: "int option"
  dex :: "int option"
  intell :: "int option"

definition inventory_item_default :: inventory_item where
  "inventory_item_default =
     \<lparr>itemId = 0, itemDataId = 0, quantity = 0, slot = 0, slotType = SlotInventory,
      attack = None, defence = None, str = None, dex = None, intell = None\<rparr>"

datatype change_log =
    EquipItemLog int int int  \<comment> \<open>character, item, position\<close>
  | UnequipItemLog int int  \<comment> \<open>item, slot\<close>
  | ShiftItemLog int int  \<comment> \<open>item, slot\<close>
  | AddItemLog int int int int int  \<comment> \<open>item, character, data, quantity, slot\<close>
  | RemoveItemLog int
  | ChangeItemQuantityLog int int

definition inventory_size :: int where "inventory_size = 30"
definition stackable_item_max_quantity :: int where "stackable_item_max_quantity = 30"

record inventory =
  characterId :: int
  items :: "int \<rightharpoonup> inventory_item"
  inventory_slots :: "int option list"
  equipments :: "int option list"
  itemLogs :: "change_log list"

definition inventory_new :: inventory where
  "inventory_new =
     \<lparr>characterId = 0, items = Map.empty, inventory_slots = replicate 30 None,
      equipments = replicate 4 None, itemLogs = []\<rparr>"

subsection \<open>Guards and logs\<close>

text \<open>
  \<^verbatim>\<open>IsValid\<close> of \<^verbatim>\<open>ENUM_CLASS\<close> answers true for every enumerator that is listed, and
  \<^verbatim>\<open>EquipPosition\<close> lists \<^verbatim>\<open>Count\<close> after the four positions.
\<close>

definition EquipPosition_Count :: int where "EquipPosition_Count = 4"

definition is_valid_equip_position :: "int \<Rightarrow> bool" where
  "is_valid_equip_position p \<longleftrightarrow>
     p = 0 \<or> p = 1 \<or> p = 2 \<or> p = 3 \<or> p = EquipPosition_Count"

definition is_valid_slot :: "int \<Rightarrow> bool" where
  "is_valid_slot s \<longleftrightarrow> 0 \<le> s \<and> s < inventory_size"

definition append_log :: "change_log \<Rightarrow> inventory \<Rightarrow> inventory" where
  "append_log l v = v\<lparr>itemLogs := itemLogs v @ [l]\<rparr>"

definition log_equip :: "int \<Rightarrow> int \<Rightarrow> inventory \<Rightarrow> inventory" where
  "log_equip item position v = append_log (EquipItemLog (characterId v) item position) v"

definition log_unequip :: "int \<Rightarrow> int \<Rightarrow> inventory \<Rightarrow> inventory" where
  "log_unequip item s v = append_log (UnequipItemLog item s) v"

definition log_shift_item :: "int \<Rightarrow> int \<Rightarrow> inventory \<Rightarrow> inventory" where
  "log_shift_item item s v = append_log (ShiftItemLog item s) v"

definition log_add_item :: "int \<Rightarrow> int \<Rightarrow> int \<Rightarrow> int \<Rightarrow> inventory \<Rightarrow> inventory" where
  "log_add_item item dataId q s v = append_log (AddItemLog item (characterId v) dataId q s) v"

definition log_remove_item :: "int \<Rightarrow> inventory \<Rightarrow> inventory" where
  "log_remove_item item v = append_log (RemoveItemLog item) v"

definition log_change_item_quantity :: "int \<Rightarrow> int \<Rightarrow> inventory \<Rightarrow> inventory" where
  "log_change_item_quantity item q v = append_log (ChangeItemQuantityLog item q) v"

definition clear_change_logs :: "inventory \<Rightarrow> inventory" where
  "clear_change_logs v = v\<lparr>itemLogs := []\<rparr>"

lemmas log_defs =
  append_log_def log_equip_def log_unequip_def log_shift_item_def log_add_item_def
  log_remove_item_def log_change_item_quantity_def

subsection \<open>Moving items\<close>

text \<open>\<^verbatim>\<open>std::swap(std::tie(a.slot, a.slotType), std::tie(b.slot, b.slotType))\<close>.\<close>

definition set_position :: "int \<Rightarrow> slot_type \<Rightarrow> inventory_item \<Rightarrow> inventory_item" where
  "set_position s ty it = it\<lparr>slot := s, slotType := ty\<rparr>"

definition swap_positions :: "int \<Rightarrow> inventory_item \<Rightarrow> int \<Rightarrow> inventory_item \<Rightarrow> inventory \<Rightarrow> inventory" where
  "swap_positions i a j b v =
     v\<lparr>items := (items v)(i \<mapsto> set_position (slot b) (slotType b) a,
                        j \<mapsto> set_position (slot a) (slotType a) b)\<rparr>"

definition equip :: "int \<Rightarrow> int \<Rightarrow> inventory \<Rightarrow> fault + (bool \<times> inventory)" where
  "equip destPosition srcPosition v =
     (if \<not> is_valid_equip_position destPosition \<or> \<not> is_valid_slot srcPosition then Inr (False, v)
      else case inventory_slots v ! nat srcPosition of
        None \<Rightarrow> Inr (False, v)
      | Some i \<Rightarrow>
          (if length (equipments v) \<le> nat destPosition then Inl OutOfBounds
           else and_then (deref (items v) (Some i)) (\<lambda>item.
             and_then
               (case equipments v ! nat destPosition of
                  Some j \<Rightarrow>
                    and_then (deref (items v) (Some j)) (\<lambda>destPosItem.
                      Inr (swap_positions i item j destPosItem
                            (log_unequip (itemId destPosItem) srcPosition
                              (log_equip (itemId item) destPosition v))))
                | None \<Rightarrow>
                    (let v1 = log_equip (itemId item) destPosition v
                     in Inr (v1\<lparr>items := (items v1)(i \<mapsto> set_position destPosition SlotEquipment item)\<rparr>)))
               (\<lambda>v1. Inr (True,
                  v1\<lparr>inventory_slots := (inventory_slots v)[nat srcPosition := equipments v ! nat destPosition],
                     equipments := (equipments v)[nat destPosition := inventory_slots v ! nat srcPosition]\<rparr>)))))"

definition unequip :: "int \<Rightarrow> int \<Rightarrow> inventory \<Rightarrow> fault + (bool \<times> inventory)" where
  "unequip srcPosition destPosition v =
     (if \<not> is_valid_equip_position srcPosition \<or> \<not> is_valid_slot destPosition then Inr (False, v)
      else if length (equipments v) \<le> nat srcPosition then Inl OutOfBounds
      else case equipments v ! nat srcPosition of
        None \<Rightarrow> Inr (False, v)
      | Some i \<Rightarrow>
          and_then (deref (items v) (Some i)) (\<lambda>item.
             and_then
               (case inventory_slots v ! nat destPosition of
                  Some j \<Rightarrow>
                    and_then (deref (items v) (Some j)) (\<lambda>destPosItem.
                      Inr (swap_positions j destPosItem i item
                            (log_equip (itemId destPosItem) srcPosition
                              (log_unequip (itemId item) destPosition v))))
                | None \<Rightarrow>
                    (let v1 = log_unequip (itemId item) destPosition v
                     in Inr (v1\<lparr>items := (items v1)(i \<mapsto> set_position destPosition SlotInventory item)\<rparr>)))
               (\<lambda>v1. Inr (True,
                  v1\<lparr>equipments := (equipments v)[nat srcPosition := inventory_slots v ! nat destPosition],
                     inventory_slots := (inventory_slots v)[nat destPosition := equipments v ! nat srcPosition]\<rparr>))))"

definition shift_item :: "int \<Rightarrow> int \<Rightarrow> inventory \<Rightarrow> fault + (bool \<times> inventory)" where
  "shift_item srcPosition destPosition v =
     (if \<not> is_valid_slot srcPosition \<or> \<not> is_valid_slot destPosition then Inr (False, v)
      else case inventory_slots v ! nat srcPosition of
        None \<Rightarrow> Inr (False, v)
      | Some i \<Rightarrow>
          and_then (deref (items v) (Some i)) (\<lambda>item.
             and_then
               (case inventory_slots v ! nat destPosition of
                  Some j \<Rightarrow>
                    and_then (deref (items v) (Some j)) (\<lambda>destPosItem.
                      Inr (swap_positions j destPosItem i item
                            (log_shift_item (itemId destPosItem) srcPosition
                              (log_shift_item (itemId item) destPosition v))))
                | None \<Rightarrow>
                    (let v1 = log_shift_item (itemId item) destPosition v
                     in Inr (v1\<lparr>items := (items v1)(i \<mapsto> item\<lparr>slot := destPosition\<rparr>)\<rparr>)))
               (\<lambda>v1. Inr (True,
                  v1\<lparr>inventory_slots :=
                       (inventory_slots v)[nat srcPosition := inventory_slots v ! nat destPosition,
                                           nat destPosition := inventory_slots v ! nat srcPosition]\<rparr>))))"

subsection \<open>Stacking, adding, removing\<close>

definition stackable_items :: "int list" where
  "stackable_items = [2000001, 2000002, 2000003]"

text \<open>The loop of \<^verbatim>\<open>CanStackItem\<close>: the free room in the stacks of one kind, until it is enough.\<close>

fun stackable_size ::
  "int \<Rightarrow> int \<Rightarrow> (int \<rightharpoonup> inventory_item) \<Rightarrow> int option list \<Rightarrow> int \<Rightarrow> fault + int" where
  "stackable_size d q m [] room = Inr room"
| "stackable_size d q m (None # ps) room = stackable_size d q m ps room"
| "stackable_size d q m (Some k # ps) room =
     and_then (deref m (Some k)) (\<lambda>it.
       if itemDataId it \<noteq> d then stackable_size d q m ps room
       else
         let diff = stackable_item_max_quantity - quantity it;
             room' = (if diff > 0 then room + diff else room)
         in if room' \<ge> q then Inr room' else stackable_size d q m ps room')"

definition can_stack_item :: "int \<Rightarrow> int \<Rightarrow> int \<Rightarrow> inventory \<Rightarrow> fault + (bool \<times> int)" where
  "can_stack_item d q resultQuantity v =
     (if d \<notin> set stackable_items then Inr (False, resultQuantity)
      else and_then (stackable_size d q (items v) (inventory_slots v) 0) (\<lambda>room.
        Inr (room > 0, min room q)))"

definition has_empty_slot :: "inventory \<Rightarrow> bool" where
  "has_empty_slot v \<longleftrightarrow> None \<in> set (inventory_slots v)"

text \<open>
  The first loop of \<^verbatim>\<open>StackItem\<close>: the new quantities, in slot order, and what remains unplaced. The
  second loop writes and logs them.
\<close>

fun stack_changes ::
  "int \<Rightarrow> (int \<rightharpoonup> inventory_item) \<Rightarrow> int option list \<Rightarrow> int \<Rightarrow> fault + ((int \<times> int) list \<times> int)" where
  "stack_changes d m [] remain = Inr ([], remain)"
| "stack_changes d m (None # ps) remain = stack_changes d m ps remain"
| "stack_changes d m (Some k # ps) remain =
     and_then (deref m (Some k)) (\<lambda>it.
       if itemDataId it \<noteq> d then stack_changes d m ps remain
       else if remain \<le> 0 then Inr ([], remain)
       else
         let diff = stackable_item_max_quantity - quantity it
         in if diff \<le> 0 then stack_changes d m ps remain
            else
              let addQuantity = min diff remain
              in and_then (stack_changes d m ps (remain - addQuantity)) (\<lambda>(changes, remain').
                   Inr ((k, quantity it + addQuantity) # changes, remain')))"

fun apply_changes :: "(int \<times> int) list \<Rightarrow> inventory \<Rightarrow> fault + inventory" where
  "apply_changes [] v = Inr v"
| "apply_changes ((k, newQuantity) # cs) v =
     and_then (deref (items v) (Some k)) (\<lambda>it.
       apply_changes cs
         (log_change_item_quantity (itemId it) newQuantity
           (v\<lparr>items := (items v)(k \<mapsto> it\<lparr>quantity := newQuantity\<rparr>)\<rparr>)))"

definition stack_item :: "int \<Rightarrow> int \<Rightarrow> inventory \<Rightarrow> fault + (bool \<times> inventory)" where
  "stack_item d q v =
     and_then (stack_changes d (items v) (inventory_slots v) q) (\<lambda>(changes, remain).
       if changes = [] \<or> remain > 0 then Inr (False, v)
       else and_then (apply_changes changes v) (\<lambda>v'. Inr (True, v')))"

fun first_empty :: "nat \<Rightarrow> int option list \<Rightarrow> nat option" where
  "first_empty i [] = None"
| "first_empty i (None # ps) = Some i"
| "first_empty i (Some k # ps) = first_empty (Suc i) ps"

definition add_item :: "int \<Rightarrow> int \<Rightarrow> int \<Rightarrow> inventory \<Rightarrow> bool \<times> inventory" where
  "add_item itemUid dataId q v =
     (case first_empty 0 (inventory_slots v) of
        None \<Rightarrow> (False, v)
      | Some i \<Rightarrow>
          let item = (case items v itemUid of None \<Rightarrow> inventory_item_default | Some it \<Rightarrow> it);
              item' = item\<lparr>itemDataId := dataId, itemId := itemUid, slot := int i, quantity := q\<rparr>;
              v1 = v\<lparr>items := (items v)(itemUid \<mapsto> item'),
                     inventory_slots := (inventory_slots v)[i := Some itemUid]\<rparr>
          in (True, log_add_item itemUid dataId q (int i) v1))"

definition remove_item :: "int \<Rightarrow> inventory \<Rightarrow> fault + (bool \<times> inventory)" where
  "remove_item s v =
     (if \<not> is_valid_slot s then Inr (False, v)
      else case inventory_slots v ! nat s of
        None \<Rightarrow> Inr (False, v)
      | Some k \<Rightarrow>
          and_then (deref (items v) (Some k)) (\<lambda>item.
            Inr (True,
              log_remove_item (itemId item)
                (v\<lparr>items := (items v)(itemId item := None),
                   inventory_slots := (inventory_slots v)[nat s := None]\<rparr>))))"

subsection \<open>Lookups\<close>

definition find_item :: "int \<Rightarrow> inventory \<Rightarrow> inventory_item option" where
  "find_item k v = items v k"

definition find_item_by_slot :: "slot_type \<Rightarrow> int \<Rightarrow> inventory \<Rightarrow> fault + inventory_item option" where
  "find_item_by_slot ty s v =
     (case ty of
        SlotInventory \<Rightarrow>
          if \<not> is_valid_slot s then Inr None
          else (case inventory_slots v ! nat s of
                  None \<Rightarrow> Inr None
                | Some k \<Rightarrow> and_then (deref (items v) (Some k)) (\<lambda>it. Inr (Some it)))
      | SlotEquipment \<Rightarrow>
          if \<not> is_valid_equip_position s then Inr None
          else if length (equipments v) \<le> nat s then Inl OutOfBounds
          else (case equipments v ! nat s of
                  None \<Rightarrow> Inr None
                | Some k \<Rightarrow> and_then (deref (items v) (Some k)) (\<lambda>it. Inr (Some it))))"

fun has_equip_item :: "int \<Rightarrow> (int \<rightharpoonup> inventory_item) \<Rightarrow> int option list \<Rightarrow> fault + bool" where
  "has_equip_item k m [] = Inr False"
| "has_equip_item k m (None # ps) = has_equip_item k m ps"
| "has_equip_item k m (Some p # ps) =
     and_then (deref m (Some p)) (\<lambda>it. if itemId it = k then Inr True else has_equip_item k m ps)"

subsection \<open>Loading a character\<close>

record dto_item =
  dto_itemId :: int
  dto_itemDataId :: int
  dto_quantity :: int
  dto_slot :: "int option"
  dto_attack :: "int option"
  dto_defence :: "int option"
  dto_str :: "int option"
  dto_dex :: "int option"
  dto_intell :: "int option"

record dto_equipment =
  dto_equip_itemId :: int
  equipPosition :: int

definition add_inventory :: "int \<Rightarrow> int \<Rightarrow> inventory \<Rightarrow> bool \<times> inventory" where
  "add_inventory k s v =
     (if \<not> is_valid_slot s then (False, v)
      else if inventory_slots v ! nat s \<noteq> None then (False, v)
      else (True, v\<lparr>inventory_slots := (inventory_slots v)[nat s := Some k]\<rparr>))"

definition add_equipment :: "int \<Rightarrow> int \<Rightarrow> inventory \<Rightarrow> fault + (bool \<times> inventory)" where
  "add_equipment k position v =
     (if \<not> is_valid_equip_position position then Inr (False, v)
      else if length (equipments v) \<le> nat position then Inl OutOfBounds
      else if equipments v ! nat position \<noteq> None then Inr (False, v)
      else Inr (True, v\<lparr>equipments := (equipments v)[nat position := Some k]\<rparr>))"

definition load_item :: "dto_item \<Rightarrow> inventory \<Rightarrow> bool \<times> inventory" where
  "load_item dto v =
     (let k = dto_itemId dto;
          inserted = (items v k = None);
          item = (case items v k of None \<Rightarrow> inventory_item_default | Some it \<Rightarrow> it);
          item' = item\<lparr>itemId := k, itemDataId := dto_itemDataId dto, quantity := dto_quantity dto,
                       slot := (case dto_slot dto of None \<Rightarrow> -1 | Some s \<Rightarrow> s),
                       attack := dto_attack dto, defence := dto_defence dto, str := dto_str dto,
                       dex := dto_dex dto, intell := dto_intell dto\<rparr>;
          v1 = v\<lparr>items := (items v)(k \<mapsto> item')\<rparr>
      in case dto_slot dto of
           None \<Rightarrow> (inserted, v1)
         | Some s \<Rightarrow> (let (added, v2) = add_inventory k s v1 in (inserted \<and> added, v2)))"

definition load_equipment :: "dto_equipment \<Rightarrow> inventory \<Rightarrow> fault + (bool \<times> inventory)" where
  "load_equipment e v =
     (case items v (dto_equip_itemId e) of
        None \<Rightarrow> Inr (False, v)
      | Some item \<Rightarrow>
          add_equipment (dto_equip_itemId e) (equipPosition e)
            (v\<lparr>items := (items v)(dto_equip_itemId e \<mapsto> set_position (equipPosition e) SlotEquipment item)\<rparr>))"

fun load_items :: "dto_item list \<Rightarrow> bool \<times> inventory \<Rightarrow> bool \<times> inventory" where
  "load_items [] (success, v) = (success, v)"
| "load_items (d # ds) (success, v) =
     (let (ok, v') = load_item d v in load_items ds (success \<and> ok, v'))"

fun load_equipments :: "dto_equipment list \<Rightarrow> bool \<times> inventory \<Rightarrow> fault + (bool \<times> inventory)" where
  "load_equipments [] (success, v) = Inr (success, v)"
| "load_equipments (e # es) (success, v) =
     and_then (load_equipment e v) (\<lambda>(ok, v'). load_equipments es (success \<and> ok, v'))"

definition initialize ::
  "int \<Rightarrow> dto_item list \<Rightarrow> dto_equipment list \<Rightarrow> inventory \<Rightarrow> fault + (bool \<times> inventory)" where
  "initialize cid ds es v = load_equipments es (load_items ds (True, v\<lparr>characterId := cid\<rparr>))"

subsection \<open>Places and the well-formedness invariant\<close>

text \<open>
  A place is a slot of the inventory or an equipment position. In a well-formed component the two
  arrays have their sizes, every item is stored under its own id, the item a place points to exists
  and records that place, and an item that no place points to has the slot \<open>-1\<close> it was loaded with.
\<close>

type_synonym place = "slot_type \<times> nat"

fun at_place :: "inventory \<Rightarrow> place \<Rightarrow> int option" where
  "at_place v (SlotInventory, n) = inventory_slots v ! n"
| "at_place v (SlotEquipment, n) = equipments v ! n"

fun valid_place :: "place \<Rightarrow> bool" where
  "valid_place (SlotInventory, n) = (n < 30)"
| "valid_place (SlotEquipment, n) = (n < 4)"

definition recorded_at :: "inventory_item \<Rightarrow> place \<Rightarrow> bool" where
  "recorded_at it p \<longleftrightarrow> slotType it = fst p \<and> slot it = int (snd p)"

definition inventory_wf :: "inventory \<Rightarrow> bool" where
  "inventory_wf v \<longleftrightarrow>
     length (inventory_slots v) = 30 \<and> length (equipments v) = 4
     \<and> (\<forall>k it. items v k = Some it \<longrightarrow> itemId it = k)
     \<and> (\<forall>p k. valid_place p \<longrightarrow> at_place v p = Some k \<longrightarrow>
           (\<exists>it. items v k = Some it \<and> recorded_at it p))
     \<and> (\<forall>k it. items v k = Some it \<longrightarrow>
           (\<exists>p. valid_place p \<and> at_place v p = Some k) \<or> (slotType it = SlotInventory \<and> slot it = -1))"

lemma inventory_wf_lengths [simp]:
  assumes "inventory_wf v"
  shows "length (inventory_slots v) = 30" and "length (equipments v) = 4"
  using assms unfolding inventory_wf_def by blast+

lemma inventory_wf_id: "inventory_wf v \<Longrightarrow> items v k = Some it \<Longrightarrow> itemId it = k"
  unfolding inventory_wf_def by blast

lemma inventory_wf_at:
  assumes "inventory_wf v" and "valid_place p" and "at_place v p = Some k"
  obtains it where "items v k = Some it" and "recorded_at it p"
  using assms unfolding inventory_wf_def by blast

lemma inventory_wf_unplaced:
  assumes "inventory_wf v" and "items v k = Some it"
    and "\<not> (\<exists>p. valid_place p \<and> at_place v p = Some k)"
  shows "slotType it = SlotInventory" and "slot it = -1"
  using assms unfolding inventory_wf_def by blast+

lemma recorded_at_unique: "recorded_at it p \<Longrightarrow> recorded_at it q \<Longrightarrow> p = q"
  by (simp add: recorded_at_def prod_eq_iff)

text \<open>No item is in two places.\<close>

lemma place_unique:
  assumes "inventory_wf v" and "valid_place p" and "valid_place q"
    and "at_place v p = Some k" and "at_place v q = Some k"
  shows "p = q"
proof -
  obtain it where it: "items v k = Some it" "recorded_at it p"
    using assms(1,2,4) by (rule inventory_wf_at)
  obtain it' where "items v k = Some it'" "recorded_at it' q"
    using assms(1,3,5) by (rule inventory_wf_at)
  with it have "recorded_at it q" by simp
  with it show ?thesis by (blast intro: recorded_at_unique)
qed

lemma valid_slot_place: "is_valid_slot s \<Longrightarrow> valid_place (SlotInventory, nat s) \<and> int (nat s) = s"
  by (auto simp: is_valid_slot_def inventory_size_def)

lemma valid_equip_place:
  "is_valid_equip_position p \<Longrightarrow> p \<noteq> EquipPosition_Count \<Longrightarrow>
     valid_place (SlotEquipment, nat p) \<and> int (nat p) = p"
  by (auto simp: is_valid_equip_position_def EquipPosition_Count_def)

lemma at_place_frame [simp]:
  "at_place (v\<lparr>itemLogs := ls\<rparr>) p = at_place v p"
  "at_place (v\<lparr>items := m\<rparr>) p = at_place v p"
  by (induction v p rule: at_place.induct) simp_all

lemma inventory_wf_itemLogs [simp]: "inventory_wf (v\<lparr>itemLogs := ls\<rparr>) = inventory_wf v"
proof -
  have "inventory_slots (v\<lparr>itemLogs := ls\<rparr>) = inventory_slots v"
    and "equipments (v\<lparr>itemLogs := ls\<rparr>) = equipments v"
    and "items (v\<lparr>itemLogs := ls\<rparr>) = items v"
    by simp_all
  then show ?thesis by (simp only: inventory_wf_def at_place_frame)
qed

subsection \<open>Exchanging two places\<close>

definition relocate :: "int option \<Rightarrow> place \<Rightarrow> (int \<rightharpoonup> inventory_item) \<Rightarrow> (int \<rightharpoonup> inventory_item)" where
  "relocate x p m =
     (case x of None \<Rightarrow> m
      | Some k \<Rightarrow> m(k := map_option (set_position (int (snd p)) (fst p)) (m k)))"

fun put_place :: "place \<Rightarrow> int option \<Rightarrow> inventory \<Rightarrow> inventory" where
  "put_place (SlotInventory, n) x v = v\<lparr>inventory_slots := (inventory_slots v)[n := x]\<rparr>"
| "put_place (SlotEquipment, n) x v = v\<lparr>equipments := (equipments v)[n := x]\<rparr>"

definition swap_places :: "place \<Rightarrow> place \<Rightarrow> inventory \<Rightarrow> inventory" where
  "swap_places p q v =
     (put_place q (at_place v p) (put_place p (at_place v q) v))
       \<lparr>items := relocate (at_place v q) p (relocate (at_place v p) q (items v))\<rparr>"

lemma at_place_put:
  assumes "inventory_wf v" and "valid_place p"
  shows "at_place (put_place p x v) r = (if r = p then x else at_place v r)"
  using assms
  by (cases p; cases "fst p"; cases r; cases "fst r") (auto simp: nth_list_update)

lemma put_place_frame [simp]:
  "items (put_place p x v) = items v"
  "itemLogs (put_place p x v) = itemLogs v"
  "characterId (put_place p x v) = characterId v"
  "length (inventory_slots (put_place p x v)) = length (inventory_slots v)"
  "length (equipments (put_place p x v)) = length (equipments v)"
  by (induction p x v rule: put_place.induct) simp_all

lemma swap_places_frame [simp]:
  "itemLogs (swap_places p q v) = itemLogs v"
  "characterId (swap_places p q v) = characterId v"
  "length (inventory_slots (swap_places p q v)) = length (inventory_slots v)"
  "length (equipments (swap_places p q v)) = length (equipments v)"
  by (simp_all add: swap_places_def)

lemma at_place_put_put:
  assumes "inventory_wf v" and "valid_place p" and "valid_place q"
  shows "at_place (put_place q y (put_place p x v)) r =
           (if r = q then y else if r = p then x else at_place v r)"
  using assms
  by (cases p; cases "fst p"; cases q; cases "fst q"; cases r; cases "fst r")
    (auto simp: nth_list_update)

lemma at_swap_places:
  assumes "inventory_wf v" and "valid_place p" and "valid_place q"
  shows "at_place (swap_places p q v) r =
           (if r = q then at_place v p else if r = p then at_place v q else at_place v r)"
  using at_place_put_put [OF assms] by (simp add: swap_places_def)

lemma items_swap_places:
  assumes "inventory_wf v" and "valid_place p" and "valid_place q"
  shows "items (swap_places p q v) k =
           (if at_place v p = Some k then map_option (set_position (int (snd q)) (fst q)) (items v k)
            else if at_place v q = Some k then map_option (set_position (int (snd p)) (fst p)) (items v k)
            else items v k)"
proof (cases "at_place v p = Some k \<and> at_place v q = Some k")
  case True
  with assms have "p = q" by (blast intro: place_unique)
  with True show ?thesis
    by (cases "items v k") (simp_all add: swap_places_def relocate_def set_position_def)
next
  case False
  then show ?thesis
    by (auto simp: swap_places_def relocate_def split: option.splits)
qed

lemma recorded_at_set_position [simp]: "recorded_at (set_position (int (snd p)) (fst p) it) p"
  by (simp add: recorded_at_def set_position_def)

lemma set_position_itemId [simp]: "itemId (set_position s ty it) = itemId it"
  by (simp add: set_position_def)

lemma inventory_wf_swap_places [inv_intros]:
  assumes wf: "inventory_wf v" and p: "valid_place p" and q: "valid_place q"
  shows "inventory_wf (swap_places p q v)"
proof -
  let ?w = "swap_places p q v"
  note at = at_swap_places [OF wf p q] and itm = items_swap_places [OF wf p q]
  have ids: "itemId it = k" if "items ?w k = Some it" for k it
    using that inventory_wf_id [OF wf] by (auto simp: itm split: if_splits)
  have placed: "\<exists>it. items ?w k = Some it \<and> recorded_at it r"
    if r: "valid_place r" and k: "at_place ?w r = Some k" for r k
  proof -
    consider "r = q" | "r = p" "r \<noteq> q" | "r \<noteq> p" "r \<noteq> q" by blast
    then show ?thesis
    proof cases
      case 1
      with k have "at_place v p = Some k" by (simp add: at)
      with 1 inventory_wf_at [OF wf p] show ?thesis by (fastforce simp: itm)
    next
      case 2
      with k have kq: "at_place v q = Some k" by (simp add: at)
      with 2 place_unique [OF wf p q] have "at_place v p \<noteq> Some k" by auto
      with 2 kq inventory_wf_at [OF wf q kq] show ?thesis by (fastforce simp: itm)
    next
      case 3
      with k have kr: "at_place v r = Some k" by (simp add: at)
      with 3 place_unique [OF wf r p] place_unique [OF wf r q]
      have "at_place v p \<noteq> Some k" and "at_place v q \<noteq> Some k" by auto
      with inventory_wf_at [OF wf r kr] show ?thesis by (auto simp: itm)
    qed
  qed
  have unplaced: "(\<exists>r. valid_place r \<and> at_place ?w r = Some k) \<or> (slotType it = SlotInventory \<and> slot it = -1)"
    if k: "items ?w k = Some it" for k it
  proof (cases "at_place v p = Some k \<or> at_place v q = Some k")
    case True
    then have "at_place ?w q = Some k \<or> at_place ?w p = Some k" by (auto simp: at)
    with p q show ?thesis by blast
  next
    case False
    with k have "items v k = Some it" by (simp add: itm)
    with wf consider r where "valid_place r" "at_place v r = Some k"
      | "slotType it = SlotInventory" "slot it = -1"
      unfolding inventory_wf_def by blast
    then show ?thesis using False by cases (auto simp: at)
  qed
  show ?thesis
    unfolding inventory_wf_def using wf ids placed unplaced by simp
qed

subsection \<open>What the moving operations compute\<close>

text \<open>
  In a well-formed component every move is the exchange of two places, together with the log
  entries of the items that moved. \<open>equip\<close> and \<open>unequip\<close> reach the four equipment positions only, but
  their guard also lets the position \<open>Count\<close> through.
\<close>

definition extend_log :: "change_log list \<Rightarrow> inventory \<Rightarrow> inventory" where
  "extend_log ls v = v\<lparr>itemLogs := itemLogs v @ ls\<rparr>"

lemma extend_log_simps [simp]:
  "inventory_wf (extend_log ls v) = inventory_wf v"
  "at_place (extend_log ls v) p = at_place v p"
  "items (extend_log ls v) = items v"
  "characterId (extend_log ls v) = characterId v"
  "itemLogs (extend_log ls v) = itemLogs v @ ls"
  "inventory_slots (extend_log ls v) = inventory_slots v"
  "equipments (extend_log ls v) = equipments v"
  by (simp_all add: extend_log_def)

definition log_of_occupant :: "(int \<Rightarrow> change_log) \<Rightarrow> int option \<Rightarrow> change_log list" where
  "log_of_occupant f x = (case x of None \<Rightarrow> [] | Some k \<Rightarrow> [f k])"

lemma deref_Some [simp]: "m k = Some v \<Longrightarrow> deref m (Some k) = Inr v"
  by (simp add: deref_def)

lemma exchange_items:
  assumes wf: "inventory_wf v" and p: "valid_place p" and q: "valid_place q"
    and i: "at_place v p = Some i" "items v i = Some a"
    and j: "at_place v q = Some j" "items v j = Some b"
  shows "(items v)(i \<mapsto> set_position (slot b) (slotType b) a, j \<mapsto> set_position (slot a) (slotType a) b)
           = relocate (Some j) p (relocate (Some i) q (items v))" (is "?l = ?r")
    and "(items v)(j \<mapsto> set_position (slot a) (slotType a) b, i \<mapsto> set_position (slot b) (slotType b) a)
           = relocate (Some j) p (relocate (Some i) q (items v))" (is "?l' = ?r")
proof -
  have a: "recorded_at a p" using inventory_wf_at [OF wf p i(1)] i(2) by auto
  have b: "recorded_at b q" using inventory_wf_at [OF wf q j(1)] j(2) by auto
  have "?l = ?r \<and> ?l' = ?r"
  proof (cases "i = j")
    case True
    with i j a b have "p = q" "a = b" by (auto intro: recorded_at_unique)
    with True i a show ?thesis
      by (simp add: relocate_def recorded_at_def set_position_def)
  next
    case False
    with i j a b show ?thesis
      by (simp add: relocate_def recorded_at_def fun_upd_twist [of i j])
  qed
  then show "?l = ?r" and "?l' = ?r" by blast+
qed

lemma occupant:
  assumes wf: "inventory_wf v" and p: "valid_place p" and k: "at_place v p = Some k"
  obtains it where "items v k = Some it" "itemId it = k" "recorded_at it p" "deref (items v) (Some k) = Inr it"
  using inventory_wf_at [OF assms] inventory_wf_id [OF wf] by (metis deref_Some)

theorem equip_eq:
  assumes wf: "inventory_wf v"
  shows "equip d s v =
    (if \<not> is_valid_equip_position d \<or> \<not> is_valid_slot s then Inr (False, v)
     else case inventory_slots v ! nat s of
       None \<Rightarrow> Inr (False, v)
     | Some i \<Rightarrow>
         if d = EquipPosition_Count then Inl OutOfBounds
         else Inr (True,
           extend_log (EquipItemLog (characterId v) i d #
                       log_of_occupant (\<lambda>j. UnequipItemLog j s) (equipments v ! nat d))
             (swap_places (SlotInventory, nat s) (SlotEquipment, nat d) v)))"
proof (cases "is_valid_equip_position d \<and> is_valid_slot s \<and> d \<noteq> EquipPosition_Count
    \<and> inventory_slots v ! nat s \<noteq> None")
  case False
  then show ?thesis using wf
    by (auto simp: equip_def EquipPosition_Count_def split: option.splits)
next
  case True
  then obtain i where i: "at_place v (SlotInventory, nat s) = Some i" by auto
  from True have p: "valid_place (SlotInventory, nat s)" "int (nat s) = s"
    and q: "valid_place (SlotEquipment, nat d)" "int (nat d) = d"
    using valid_slot_place valid_equip_place by blast+
  obtain a where a: "items v i = Some a" "itemId a = i" "deref (items v) (Some i) = Inr a"
    using occupant [OF wf p(1) i] by blast
  show ?thesis
  proof (cases "equipments v ! nat d")
    case None
    with True i a p(2) q wf show ?thesis
      by (simp add: equip_def log_defs extend_log_def log_of_occupant_def swap_places_def relocate_def)
  next
    case (Some j)
    then have j: "at_place v (SlotEquipment, nat d) = Some j" by simp
    obtain b where b: "items v j = Some b" "itemId b = j" "deref (items v) (Some j) = Inr b"
      using occupant [OF wf q(1) j] by blast
    note x = exchange_items(1) [OF wf p(1) q(1) i a(1) j b(1)]
    from True i j a(2,3) b(2,3) q wf x show ?thesis
      by (simp add: equip_def log_defs extend_log_def log_of_occupant_def swap_places_def
          swap_positions_def)
  qed
qed

theorem unequip_eq:
  assumes wf: "inventory_wf v"
  shows "unequip s d v =
    (if \<not> is_valid_equip_position s \<or> \<not> is_valid_slot d then Inr (False, v)
     else if s = EquipPosition_Count then Inl OutOfBounds
     else case equipments v ! nat s of
       None \<Rightarrow> Inr (False, v)
     | Some i \<Rightarrow>
         Inr (True,
           extend_log (UnequipItemLog i d #
                       log_of_occupant (\<lambda>j. EquipItemLog (characterId v) j s) (inventory_slots v ! nat d))
             (swap_places (SlotEquipment, nat s) (SlotInventory, nat d) v)))"
proof (cases "is_valid_equip_position s \<and> is_valid_slot d \<and> s \<noteq> EquipPosition_Count
    \<and> equipments v ! nat s \<noteq> None")
  case False
  then show ?thesis using wf
    by (auto simp: unequip_def EquipPosition_Count_def is_valid_equip_position_def split: option.splits)
next
  case True
  then obtain i where i: "at_place v (SlotEquipment, nat s) = Some i" by auto
  from True have p: "valid_place (SlotEquipment, nat s)" "int (nat s) = s"
    and q: "valid_place (SlotInventory, nat d)" "int (nat d) = d"
    using valid_slot_place valid_equip_place by blast+
  obtain a where a: "items v i = Some a" "itemId a = i" "deref (items v) (Some i) = Inr a"
    using occupant [OF wf p(1) i] by blast
  show ?thesis
  proof (cases "inventory_slots v ! nat d")
    case None
    with True i a p q(2) wf show ?thesis
      by (simp add: unequip_def log_defs extend_log_def log_of_occupant_def swap_places_def relocate_def)
  next
    case (Some j)
    then have j: "at_place v (SlotInventory, nat d) = Some j" by simp
    obtain b where b: "items v j = Some b" "itemId b = j" "deref (items v) (Some j) = Inr b"
      using occupant [OF wf q(1) j] by blast
    note x = exchange_items(2) [OF wf p(1) q(1) i a(1) j b(1)]
    from True i j a(2,3) b(2,3) p wf x show ?thesis
      by (simp add: unequip_def log_defs extend_log_def log_of_occupant_def swap_places_def
          swap_positions_def)
  qed
qed

theorem shift_item_eq:
  assumes wf: "inventory_wf v"
  shows "shift_item s d v =
    (if \<not> is_valid_slot s \<or> \<not> is_valid_slot d then Inr (False, v)
     else case inventory_slots v ! nat s of
       None \<Rightarrow> Inr (False, v)
     | Some i \<Rightarrow>
         Inr (True,
           extend_log (ShiftItemLog i d #
                       log_of_occupant (\<lambda>j. ShiftItemLog j s) (inventory_slots v ! nat d))
             (swap_places (SlotInventory, nat s) (SlotInventory, nat d) v)))"
proof (cases "is_valid_slot s \<and> is_valid_slot d \<and> inventory_slots v ! nat s \<noteq> None")
  case False
  then show ?thesis using wf by (auto simp: shift_item_def split: option.splits)
next
  case True
  then obtain i where i: "at_place v (SlotInventory, nat s) = Some i" by auto
  from True have p: "valid_place (SlotInventory, nat s)" "int (nat s) = s"
    and q: "valid_place (SlotInventory, nat d)" "int (nat d) = d"
    using valid_slot_place by blast+
  obtain a where a: "items v i = Some a" "itemId a = i" "deref (items v) (Some i) = Inr a"
      "recorded_at a (SlotInventory, nat s)"
    using occupant [OF wf p(1) i] by blast
  show ?thesis
  proof (cases "inventory_slots v ! nat d")
    case None
    have "a\<lparr>slot := d\<rparr> = set_position d SlotInventory a"
      using a(4) by (simp add: set_position_def recorded_at_def)
    with None True i a(1-3) p q(2) wf show ?thesis
      by (simp add: shift_item_def log_defs extend_log_def log_of_occupant_def swap_places_def relocate_def)
  next
    case (Some j)
    then have j: "at_place v (SlotInventory, nat d) = Some j" by simp
    obtain b where b: "items v j = Some b" "itemId b = j" "deref (items v) (Some j) = Inr b"
      using occupant [OF wf q(1) j] by blast
    note x = exchange_items(2) [OF wf p(1) q(1) i a(1) j b(1)]
    from True i j a(2,3) b(2,3) p wf x show ?thesis
      by (simp add: shift_item_def log_defs extend_log_def log_of_occupant_def swap_places_def
          swap_positions_def)
  qed
qed

lemmas move_eqs = equip_eq unequip_eq shift_item_eq

text \<open>A move never fails halfway: it is refused and changes nothing, or it is done.\<close>

lemma equip_wf:
  "inventory_wf v \<Longrightarrow> equip d s v = Inr (ok, v') \<Longrightarrow> inventory_wf v' \<and> (\<not> ok \<longrightarrow> v' = v)"
  using valid_slot_place [of s] valid_equip_place [of d]
  by (auto simp: equip_eq split: if_splits option.splits intro!: inventory_wf_swap_places)

lemma unequip_wf:
  "inventory_wf v \<Longrightarrow> unequip s d v = Inr (ok, v') \<Longrightarrow> inventory_wf v' \<and> (\<not> ok \<longrightarrow> v' = v)"
  using valid_slot_place [of d] valid_equip_place [of s]
  by (auto simp: unequip_eq split: if_splits option.splits intro!: inventory_wf_swap_places)

lemma shift_item_wf:
  "inventory_wf v \<Longrightarrow> shift_item s d v = Inr (ok, v') \<Longrightarrow> inventory_wf v' \<and> (\<not> ok \<longrightarrow> v' = v)"
  using valid_slot_place [of d] valid_slot_place [of s]
  by (auto simp: shift_item_eq split: if_splits option.splits intro!: inventory_wf_swap_places)

subsection \<open>Adding and removing\<close>

lemma first_empty_Some:
  "first_empty i ps = Some j \<Longrightarrow> i \<le> j \<and> j - i < length ps \<and> ps ! (j - i) = None"
proof (induction i ps rule: first_empty.induct)
  case (3 i k ps)
  then have "Suc i \<le> j \<and> j - Suc i < length ps \<and> ps ! (j - Suc i) = None" by simp
  moreover from this have "j - i = Suc (j - Suc i)" by arith
  ultimately show ?case by simp
qed auto

lemma first_empty_None: "first_empty i ps = None \<longleftrightarrow> None \<notin> set ps"
  by (induction i ps rule: first_empty.induct) auto

lemma add_item_iff: "fst (add_item u d q v) \<longleftrightarrow> has_empty_slot v"
  using first_empty_None [of 0 "inventory_slots v"]
  by (cases "first_empty 0 (inventory_slots v)") (simp_all add: add_item_def has_empty_slot_def Let_def)

lemma add_item_refused: "\<not> fst (add_item u d q v) \<Longrightarrow> snd (add_item u d q v) = v"
  by (auto simp: add_item_def Let_def split: option.split)

definition new_item :: "int \<Rightarrow> int \<Rightarrow> int \<Rightarrow> nat \<Rightarrow> inventory_item" where
  "new_item u d q i =
     inventory_item_default\<lparr>itemDataId := d, itemId := u, slot := int i, quantity := q\<rparr>"

lemma add_item_cases:
  assumes "inventory_wf v" and "items v u = None" and "add_item u d q v = (True, v')"
  obtains i where "i < 30" and "inventory_slots v ! i = None"
    and "v' = extend_log [AddItemLog u (characterId v) d q (int i)]
          (v\<lparr>items := (items v)(u \<mapsto> new_item u d q i),
             inventory_slots := (inventory_slots v)[i := Some u]\<rparr>)"
proof -
  from assms(3) obtain i where i: "first_empty 0 (inventory_slots v) = Some i"
    by (auto simp: add_item_def split: option.splits)
  have "i < 30" "inventory_slots v ! i = None"
    using first_empty_Some [OF i] assms(1) by simp_all
  then show thesis
    using i assms(2,3)
    by (intro that [of i]) (auto simp: add_item_def log_defs extend_log_def new_item_def)
qed

lemma at_place_set_slot:
  assumes "inventory_wf v" and "i < 30"
  shows "at_place (v\<lparr>items := m, inventory_slots := (inventory_slots v)[i := x]\<rparr>) p =
           (if p = (SlotInventory, i) then x else at_place v p)"
  using assms by (cases p; cases "fst p") (auto simp: nth_list_update)

lemma add_item_wf:
  assumes wf: "inventory_wf v" and u: "items v u = None" and a: "add_item u d q v = (True, v')"
  shows "inventory_wf v'"
proof -
  from add_item_cases [OF assms] obtain i where
    i: "i < 30" "inventory_slots v ! i = None"
    and v': "v' = extend_log [AddItemLog u (characterId v) d q (int i)]
          (v\<lparr>items := (items v)(u \<mapsto> new_item u d q i),
             inventory_slots := (inventory_slots v)[i := Some u]\<rparr>)" .
  let ?w = "v\<lparr>items := (items v)(u \<mapsto> new_item u d q i), inventory_slots := (inventory_slots v)[i := Some u]\<rparr>"
  note at = at_place_set_slot [OF wf i(1)]
  have free: "at_place v p \<noteq> Some u" if "valid_place p" for p
    using inventory_wf_at [OF wf that] u by force
  have ids: "\<forall>k it. items ?w k = Some it \<longrightarrow> itemId it = k"
    using inventory_wf_id [OF wf] by (auto simp: new_item_def)
  have placed: "\<exists>it. items ?w k = Some it \<and> recorded_at it p"
    if "valid_place p" "at_place ?w p = Some k" for p k
  proof (cases "p = (SlotInventory, i)")
    case True
    with that(2) have "k = u" unfolding at by simp
    with True show ?thesis
      by (simp add: new_item_def recorded_at_def inventory_item_default_def)
  next
    case False
    with that have at_v: "at_place v p = Some k" by (simp only: at if_False)
    from free [OF that(1)] have "k \<noteq> u" using at_v by auto
    moreover from inventory_wf_at [OF wf that(1) at_v]
    obtain it where "items v k = Some it" "recorded_at it p" by blast
    ultimately show ?thesis by simp
  qed
  have unplaced: "(\<exists>p. valid_place p \<and> at_place ?w p = Some k) \<or> (slotType it = SlotInventory \<and> slot it = -1)"
    if k: "items ?w k = Some it" for k it
  proof (cases "k = u")
    case True
    then have "at_place ?w (SlotInventory, i) = Some k" by (simp only: at) simp
    with i(1) show ?thesis by (metis valid_place.simps(1))
  next
    case False
    with k have "items v k = Some it" by simp
    with wf consider p where "valid_place p" "at_place v p = Some k"
      | "slotType it = SlotInventory" "slot it = -1"
      unfolding inventory_wf_def by blast
    then show ?thesis
    proof cases
      case 1
      with i(2) have "p \<noteq> (SlotInventory, i)" by auto
      with 1 have "at_place ?w p = Some k" by (simp only: at if_False)
      with 1 show ?thesis by blast
    qed blast
  qed
  have "inventory_wf ?w"
    unfolding inventory_wf_def using wf ids placed unplaced by simp
  then show ?thesis by (simp add: v')
qed

theorem remove_item_eq:
  assumes wf: "inventory_wf v"
  shows "remove_item s v =
    (if \<not> is_valid_slot s then Inr (False, v)
     else case inventory_slots v ! nat s of
       None \<Rightarrow> Inr (False, v)
     | Some k \<Rightarrow>
         Inr (True, extend_log [RemoveItemLog k]
           (v\<lparr>items := (items v)(k := None), inventory_slots := (inventory_slots v)[nat s := None]\<rparr>)))"
proof (cases "is_valid_slot s \<and> inventory_slots v ! nat s \<noteq> None")
  case True
  then obtain k where k: "at_place v (SlotInventory, nat s) = Some k" by auto
  from True have "valid_place (SlotInventory, nat s)" using valid_slot_place by blast
  with k obtain it where "items v k = Some it" "itemId it = k" "deref (items v) (Some k) = Inr it"
    using occupant [OF wf] by blast
  with True k show ?thesis by (simp add: remove_item_def log_defs extend_log_def)
qed (auto simp: remove_item_def split: option.splits)

lemma remove_item_wf:
  assumes wf: "inventory_wf v" and r: "remove_item s v = Inr (ok, v')"
  shows "inventory_wf v' \<and> (\<not> ok \<longrightarrow> v' = v)"
proof (cases "is_valid_slot s \<and> inventory_slots v ! nat s \<noteq> None")
  case False
  then show ?thesis using r wf by (auto simp: remove_item_eq split: option.splits)
next
  case True
  then obtain k where k: "inventory_slots v ! nat s = Some k" by auto
  have s: "nat s < 30" and vp: "valid_place (SlotInventory, nat s)" using True valid_slot_place by auto
  let ?w = "v\<lparr>items := (items v)(k := None), inventory_slots := (inventory_slots v)[nat s := None]\<rparr>"
  note at = at_place_set_slot [OF wf s]
  have ids: "\<forall>j it. items ?w j = Some it \<longrightarrow> itemId it = j"
    using inventory_wf_id [OF wf] by auto
  have placed: "\<exists>it. items ?w j = Some it \<and> recorded_at it p"
    if "valid_place p" "at_place ?w p = Some j" for p j
  proof -
    from that(2) have p: "p \<noteq> (SlotInventory, nat s)" and j: "at_place v p = Some j"
      unfolding at by (auto split: if_splits)
    have "j \<noteq> k" using place_unique [OF wf that(1) vp j] k p by auto
    with inventory_wf_at [OF wf that(1) j] show ?thesis by auto
  qed
  have unplaced: "(\<exists>p. valid_place p \<and> at_place ?w p = Some j) \<or> (slotType it = SlotInventory \<and> slot it = -1)"
    if j: "items ?w j = Some it" for j it
  proof -
    from j have jk: "j \<noteq> k" and "items v j = Some it" by (auto split: if_splits)
    with wf consider p where "valid_place p" "at_place v p = Some j"
      | "slotType it = SlotInventory" "slot it = -1"
      unfolding inventory_wf_def by blast
    then show ?thesis
    proof cases
      case 1
      with k jk have "p \<noteq> (SlotInventory, nat s)" by auto
      with 1 have "at_place ?w p = Some j" by (simp only: at if_False)
      with 1 show ?thesis by blast
    qed blast
  qed
  have "inventory_wf ?w"
    unfolding inventory_wf_def using wf ids placed unplaced by simp
  with True k r show ?thesis by (auto simp: remove_item_eq [OF wf])
qed

end
