(* ===== verification/InventoryStacking.thy ===== *)
theory InventoryStacking
  imports Inventory
begin

text \<open>
  What the stacking of an inventory achieves: \<open>can_stack_item\<close> tells exactly how many pieces the stacks of
  a kind can still take, and \<open>stack_item\<close> places exactly that many, never above the maximum of a stack,
  changing nothing but quantities.
\<close>

subsection \<open>Stacking\<close>

text \<open>
  The specification side: the pointers of the slots that hold one kind of item, how many pieces
  they hold and how much room they have left.
\<close>

definition amount_at :: "int \<Rightarrow> (int \<rightharpoonup> inventory_item) \<Rightarrow> int option \<Rightarrow> int" where
  "amount_at d m x =
     (case Option.bind x m of None \<Rightarrow> 0 | Some it \<Rightarrow> if itemDataId it = d then quantity it else 0)"

definition room_at :: "int \<Rightarrow> (int \<rightharpoonup> inventory_item) \<Rightarrow> int option \<Rightarrow> int" where
  "room_at d m x =
     (case Option.bind x m of None \<Rightarrow> 0
      | Some it \<Rightarrow> if itemDataId it = d then max 0 (stackable_item_max_quantity - quantity it) else 0)"

definition held :: "int \<Rightarrow> inventory \<Rightarrow> int" where
  "held d v = (\<Sum>x\<leftarrow>inventory_slots v. amount_at d (items v) x)"

definition room :: "int \<Rightarrow> inventory \<Rightarrow> int" where
  "room d v = (\<Sum>x\<leftarrow>inventory_slots v. room_at d (items v) x)"

definition live :: "(int \<rightharpoonup> inventory_item) \<Rightarrow> int option list \<Rightarrow> bool" where
  "live m ps \<longleftrightarrow> (\<forall>k. Some k \<in> set ps \<longrightarrow> m k \<noteq> None)"

lemma live_simps [simp]:
  "live m []"
  "live m (None # ps) = live m ps"
  "live m (Some k # ps) \<longleftrightarrow> m k \<noteq> None \<and> live m ps"
  by (auto simp: live_def)

lemma at_None [simp]: "amount_at d m None = 0" "room_at d m None = 0"
  by (simp_all add: amount_at_def room_at_def)

lemma room_at_nonneg [simp]: "0 \<le> room_at d m x"
  by (auto simp: room_at_def split: option.split)

lemma room_list_nonneg [simp]: "0 \<le> (\<Sum>x\<leftarrow>ps. room_at d m x)"
  by (induction ps) auto

lemma stackable_size_room:
  assumes "live m ps" and "acc < q"
  shows "\<exists>r. stackable_size d q m ps acc = Inr r \<and> acc \<le> r
           \<and> min r q = min (acc + (\<Sum>x\<leftarrow>ps. room_at d m x)) q"
  using assms
proof (induction d q m ps acc rule: stackable_size.induct)
  case (3 d q m k ps acc)
  then obtain it where it: "m k = Some it" by auto
  let ?t = "\<Sum>x\<leftarrow>ps. room_at d m x"
  let ?acc = "if stackable_item_max_quantity - quantity it > 0
              then acc + (stackable_item_max_quantity - quantity it) else acc"
  show ?case
  proof (cases "itemDataId it = d")
    case False
    with it 3 show ?thesis by (auto simp: room_at_def)
  next
    case True
    then have acc: "acc + room_at d m (Some k) = ?acc" using it by (simp add: room_at_def)
    show ?thesis
    proof (cases "?acc \<ge> q")
      case full: True
      have "stackable_size d q m (Some k # ps) acc = Inr ?acc"
        using it True full by (simp add: Let_def)
      moreover have "acc \<le> ?acc" by simp
      moreover have "min ?acc q = min (acc + (\<Sum>x\<leftarrow>Some k # ps. room_at d m x)) q"
      proof -
        have "acc + (\<Sum>x\<leftarrow>Some k # ps. room_at d m x) = ?acc + ?t"
          using acc by (simp only: list.map sum_list.Cons add.assoc [symmetric])
        moreover have "0 \<le> ?t" by simp
        moreover have "min y q = min (y + t) q" if "q \<le> y" "0 \<le> t" for y t :: int
          using that by simp
        ultimately show ?thesis using full by presburger
      qed
      ultimately show ?thesis by blast
    next
      case False
      have "live m ps" using "3.prems" by simp
      then have "\<exists>r. stackable_size d q m ps ?acc = Inr r \<and> ?acc \<le> r \<and> min r q = min (?acc + ?t) q"
        by (intro 3(2) [OF _ refl refl]) (use True False in simp_all)
      then obtain r where "stackable_size d q m ps ?acc = Inr r" "?acc \<le> r"
          "min r q = min (?acc + ?t) q"
        by blast
      moreover have "stackable_size d q m (Some k # ps) acc = stackable_size d q m ps ?acc"
        using it True False by (simp add: Let_def)
      ultimately show ?thesis using acc by (auto simp: algebra_simps)
    qed
  qed
qed auto

text \<open>What the second loop of \<^verbatim>\<open>StackItem\<close> does to the items.\<close>

definition set_quantities :: "(int \<times> int) list \<Rightarrow> (int \<rightharpoonup> inventory_item) \<Rightarrow> (int \<rightharpoonup> inventory_item)" where
  "set_quantities cs m =
     (\<lambda>k. case map_of cs k of None \<Rightarrow> m k | Some n \<Rightarrow> map_option (\<lambda>it. it\<lparr>quantity := n\<rparr>) (m k))"

definition quantity_logs :: "(int \<times> int) list \<Rightarrow> change_log list" where
  "quantity_logs cs = map (\<lambda>(k, n). ChangeItemQuantityLog k n) cs"

lemma set_quantities_Nil [simp]: "set_quantities [] m = m"
  by (simp add: set_quantities_def)

lemma set_quantities_Cons:
  assumes "k \<notin> fst ` set cs" and "m k = Some it"
  shows "set_quantities ((k, n) # cs) m = set_quantities cs (m(k \<mapsto> it\<lparr>quantity := n\<rparr>))"
proof
  fix j
  have "map_of cs k = None" using assms(1) by (simp add: map_of_eq_None_iff)
  with assms(2) show "set_quantities ((k, n) # cs) m j = set_quantities cs (m(k \<mapsto> it\<lparr>quantity := n\<rparr>)) j"
    by (cases "j = k") (simp_all add: set_quantities_def split: option.split)
qed

lemma apply_changes_eq:
  assumes "distinct (map fst cs)" and "\<forall>k \<in> fst ` set cs. \<exists>it. items v k = Some it \<and> itemId it = k"
  shows "apply_changes cs v =
           Inr (extend_log (quantity_logs cs) (v\<lparr>items := set_quantities cs (items v)\<rparr>))"
  using assms
proof (induction cs arbitrary: v)
  case Nil
  then show ?case by (simp add: extend_log_def quantity_logs_def)
next
  case (Cons c cs)
  obtain k n where c: "c = (k, n)" by (cases c)
  with Cons.prems obtain it where it: "items v k = Some it" "itemId it = k" by auto
  let ?v = "log_change_item_quantity k n (v\<lparr>items := (items v)(k \<mapsto> it\<lparr>quantity := n\<rparr>)\<rparr>)"
  have "apply_changes (c # cs) v = apply_changes cs ?v"
    using c it by simp
  also have "\<dots> = Inr (extend_log (quantity_logs cs) (?v\<lparr>items := set_quantities cs (items ?v)\<rparr>))"
    using Cons.prems c it by (intro Cons.IH) (auto simp: log_defs)
  also have "set_quantities cs (items ?v) = set_quantities (c # cs) (items v)"
    using Cons.prems c it by (subst c, subst set_quantities_Cons) (auto simp: log_defs)
  finally show ?case
    using c by (simp add: extend_log_def log_defs quantity_logs_def)
qed

lemma stack_changes_spec:
  assumes "live m ps" and "distinct (filter (\<lambda>x. x \<noteq> None) ps)" and "0 \<le> remain"
  shows "\<exists>cs r. stack_changes d m ps remain = Inr (cs, r)
     \<and> r = remain - min remain (\<Sum>x\<leftarrow>ps. room_at d m x)
     \<and> distinct (map fst cs) \<and> Some ` fst ` set cs \<subseteq> set ps
     \<and> (\<forall>(k, n) \<in> set cs. n \<le> stackable_item_max_quantity)
     \<and> (cs = [] \<longleftrightarrow> r = remain)
     \<and> (\<Sum>x\<leftarrow>ps. amount_at d (set_quantities cs m) x) = (\<Sum>x\<leftarrow>ps. amount_at d m x) + (remain - r)
     \<and> (\<Sum>x\<leftarrow>ps. room_at d (set_quantities cs m) x) = (\<Sum>x\<leftarrow>ps. room_at d m x) - (remain - r)"
  using assms
proof (induction d m ps remain rule: stack_changes.induct)
  case (1 d m remain)
  then show ?case by simp
next
  case (2 d m ps remain)
  then obtain cs r where "stack_changes d m ps remain = Inr (cs, r)"
     "r = remain - min remain (\<Sum>x\<leftarrow>ps. room_at d m x)"
     "distinct (map fst cs)" "Some ` fst ` set cs \<subseteq> set ps"
     "\<forall>(k, n) \<in> set cs. n \<le> stackable_item_max_quantity" "cs = [] \<longleftrightarrow> r = remain"
     "(\<Sum>x\<leftarrow>ps. amount_at d (set_quantities cs m) x) = (\<Sum>x\<leftarrow>ps. amount_at d m x) + (remain - r)"
     "(\<Sum>x\<leftarrow>ps. room_at d (set_quantities cs m) x) = (\<Sum>x\<leftarrow>ps. room_at d m x) - (remain - r)"
    by auto
  then show ?case
    by (intro exI [of _ cs] exI [of _ r]) (auto simp: room_at_def amount_at_def)
next
  case (3 d m k ps remain)
  then obtain it where it: "m k = Some it" by auto
  have k: "Some k \<notin> set ps" using "3.prems"(2) by auto
  have live: "live m ps" and dist: "distinct (filter (\<lambda>x. x \<noteq> None) ps)"
    using "3.prems" by auto
  have other: "amount_at d (set_quantities cs m) x = amount_at d m x"
    if "map_of cs j = None" "x = Some j" for cs x j
    using that by (simp add: amount_at_def set_quantities_def)
  show ?case
  proof (cases "itemDataId it = d \<and> remain > 0 \<and> quantity it < stackable_item_max_quantity")
    case False
    show ?thesis
    proof (cases "itemDataId it = d \<and> remain \<le> 0")
      case True
      with it "3.prems"(3) show ?thesis by simp
    next
      case skip: False
      have e: "stack_changes d m (Some k # ps) remain = stack_changes d m ps remain"
        using it False skip by (auto simp: Let_def)
      have IH: "\<exists>cs r. stack_changes d m ps remain = Inr (cs, r)
         \<and> r = remain - min remain (\<Sum>x\<leftarrow>ps. room_at d m x)
         \<and> distinct (map fst cs) \<and> Some ` fst ` set cs \<subseteq> set ps
         \<and> (\<forall>(k, n) \<in> set cs. n \<le> stackable_item_max_quantity)
         \<and> (cs = [] \<longleftrightarrow> r = remain)
         \<and> (\<Sum>x\<leftarrow>ps. amount_at d (set_quantities cs m) x) = (\<Sum>x\<leftarrow>ps. amount_at d m x) + (remain - r)
     \<and> (\<Sum>x\<leftarrow>ps. room_at d (set_quantities cs m) x) = (\<Sum>x\<leftarrow>ps. room_at d m x) - (remain - r)"
      proof (cases "itemDataId it = d")
        case True
        with skip False 3(2) [of it] live dist "3.prems"(3) show ?thesis by auto
      next
        case False
        with 3(1) [of it] live dist "3.prems"(3) show ?thesis by auto
      qed
      then obtain cs r where cs: "stack_changes d m ps remain = Inr (cs, r)"
         "r = remain - min remain (\<Sum>x\<leftarrow>ps. room_at d m x)"
         "distinct (map fst cs)" "Some ` fst ` set cs \<subseteq> set ps"
         "\<forall>(k, n) \<in> set cs. n \<le> stackable_item_max_quantity" "cs = [] \<longleftrightarrow> r = remain"
         "(\<Sum>x\<leftarrow>ps. amount_at d (set_quantities cs m) x) = (\<Sum>x\<leftarrow>ps. amount_at d m x) + (remain - r)"
     "(\<Sum>x\<leftarrow>ps. room_at d (set_quantities cs m) x) = (\<Sum>x\<leftarrow>ps. room_at d m x) - (remain - r)"
        by blast
      have "map_of cs k = None" using cs(4) k by (auto simp: map_of_eq_None_iff)
      then have "amount_at d (set_quantities cs m) (Some k) = amount_at d m (Some k)"
        by (rule other) simp
      moreover have "room_at d (set_quantities cs m) (Some k) = room_at d m (Some k)"
        using \<open>map_of cs k = None\<close> by (simp add: room_at_def set_quantities_def)
      moreover have "room_at d m (Some k) = 0" using it False skip by (auto simp: room_at_def)
      ultimately show ?thesis
        using cs e by (intro exI [of _ cs] exI [of _ r]) auto
    qed
  next
    case True
    let ?diff = "stackable_item_max_quantity - quantity it"
    let ?add = "min ?diff remain"
    have nonneg: "0 \<le> remain - ?add" by simp
    have guards: "\<not> itemDataId it \<noteq> d" "\<not> remain \<le> 0" "\<not> ?diff \<le> 0" using True by auto
    have IH: "\<exists>cs r. stack_changes d m ps (remain - ?add) = Inr (cs, r)
       \<and> r = remain - ?add - min (remain - ?add) (\<Sum>x\<leftarrow>ps. room_at d m x)
       \<and> distinct (map fst cs) \<and> Some ` fst ` set cs \<subseteq> set ps
       \<and> (\<forall>(k, n) \<in> set cs. n \<le> stackable_item_max_quantity)
       \<and> (cs = [] \<longleftrightarrow> r = remain - ?add)
       \<and> (\<Sum>x\<leftarrow>ps. amount_at d (set_quantities cs m) x) = (\<Sum>x\<leftarrow>ps. amount_at d m x) + (remain - ?add - r)
       \<and> (\<Sum>x\<leftarrow>ps. room_at d (set_quantities cs m) x) = (\<Sum>x\<leftarrow>ps. room_at d m x) - (remain - ?add - r)"
      by (rule 3(3)) (use guards live dist nonneg in simp_all)
    then obtain cs r where cs:
       "stack_changes d m ps (remain - ?add) = Inr (cs, r)"
       "r = remain - ?add - min (remain - ?add) (\<Sum>x\<leftarrow>ps. room_at d m x)"
       "distinct (map fst cs)" "Some ` fst ` set cs \<subseteq> set ps"
       "\<forall>(k, n) \<in> set cs. n \<le> stackable_item_max_quantity" "cs = [] \<longleftrightarrow> r = remain - ?add"
       "(\<Sum>x\<leftarrow>ps. amount_at d (set_quantities cs m) x) = (\<Sum>x\<leftarrow>ps. amount_at d m x) + (remain - ?add - r)"
       "(\<Sum>x\<leftarrow>ps. room_at d (set_quantities cs m) x) = (\<Sum>x\<leftarrow>ps. room_at d m x) - (remain - ?add - r)"
      by blast
    let ?cs = "(k, quantity it + ?add) # cs"
    have kc: "k \<notin> fst ` set cs" using cs(4) k by auto
    have e: "stack_changes d m (Some k # ps) remain = Inr (?cs, r)"
      using it True cs(1) by (simp add: Let_def)
    have same: "amount_at d (set_quantities ?cs m) x = amount_at d (set_quantities cs m) x
        \<and> room_at d (set_quantities ?cs m) x = room_at d (set_quantities cs m) x"
      if "x \<in> set ps" for x
    proof (cases x)
      case (Some j)
      with that k have "j \<noteq> k" by auto
      with Some show ?thesis by (simp add: amount_at_def room_at_def set_quantities_def)
    qed (simp add: amount_at_def)
    have sum: "(\<Sum>x\<leftarrow>ps. amount_at d (set_quantities ?cs m) x) = (\<Sum>x\<leftarrow>ps. amount_at d (set_quantities cs m) x)"
      and sumr: "(\<Sum>x\<leftarrow>ps. room_at d (set_quantities ?cs m) x) = (\<Sum>x\<leftarrow>ps. room_at d (set_quantities cs m) x)"
      using same by (intro arg_cong [where f = sum_list] map_cong; simp)+
    have kq: "amount_at d (set_quantities ?cs m) (Some k) = amount_at d m (Some k) + ?add"
      using it True by (simp add: amount_at_def set_quantities_def)
    have rk': "room_at d (set_quantities ?cs m) (Some k) = ?diff - ?add"
      using it True by (simp add: room_at_def set_quantities_def)
    have rk: "room_at d m (Some k) = ?diff" using it True by (simp add: room_at_def)
    have t: "0 \<le> (\<Sum>x\<leftarrow>ps. room_at d m x)" by simp
    have r: "r = remain - min remain (?diff + (\<Sum>x\<leftarrow>ps. room_at d m x))"
      using cs(2) t unfolding min_def by presburger
    have less: "r < remain"
    proof -
      have "0 < ?diff" using True by simp
      then show ?thesis using r True t unfolding min_def by presburger
    qed
    show ?thesis
    proof (intro exI [of _ ?cs] exI [of _ r] conjI)
      show "stack_changes d m (Some k # ps) remain = Inr (?cs, r)" by (fact e)
      show "r = remain - min remain (\<Sum>x\<leftarrow>Some k # ps. room_at d m x)"
        unfolding list.map sum_list.Cons rk by (fact r)
      show "distinct (map fst ?cs)" using cs(3) kc by simp
      show "Some ` fst ` set ?cs \<subseteq> set (Some k # ps)" using cs(4) by auto
      show "\<forall>(k, n) \<in> set ?cs. n \<le> stackable_item_max_quantity" using cs(5) by simp
      show "?cs = [] \<longleftrightarrow> r = remain" using less by simp
      show "(\<Sum>x\<leftarrow>Some k # ps. amount_at d (set_quantities ?cs m) x)
          = (\<Sum>x\<leftarrow>Some k # ps. amount_at d m x) + (remain - r)"
        unfolding list.map sum_list.Cons kq sum cs(7) by linarith
      show "(\<Sum>x\<leftarrow>Some k # ps. room_at d (set_quantities ?cs m) x)
          = (\<Sum>x\<leftarrow>Some k # ps. room_at d m x) - (remain - r)"
        unfolding list.map sum_list.Cons rk rk' sumr cs(8) by linarith
    qed
  qed
qed

subsection \<open>Stacking in a well-formed inventory\<close>

lemma inventory_wf_slots:
  assumes "inventory_wf v"
  shows "live (items v) (inventory_slots v)"
    and "distinct (filter (\<lambda>x. x \<noteq> None) (inventory_slots v))"
    and "\<And>k. Some k \<in> set (inventory_slots v) \<Longrightarrow> \<exists>it. items v k = Some it \<and> itemId it = k"
proof -
  have at: "at_place v (SlotInventory, n) = inventory_slots v ! n" for n by simp
  have len: "length (inventory_slots v) = 30" using assms by simp
  show occ: "\<exists>it. items v k = Some it \<and> itemId it = k" if "Some k \<in> set (inventory_slots v)" for k
  proof -
    from that len obtain n where "n < 30" "at_place v (SlotInventory, n) = Some k"
      by (auto simp: in_set_conv_nth)
    then show ?thesis using occupant [OF assms, of "(SlotInventory, n)" k] by auto
  qed
  then show "live (items v) (inventory_slots v)" by (fastforce simp: live_def)
  show "distinct (filter (\<lambda>x. x \<noteq> None) (inventory_slots v))"
    by (rule distinct_pointers)
      (use len place_unique [OF assms, of "(SlotInventory, _)" "(SlotInventory, _)"] in auto)
qed

lemma can_stack_item_eq:
  assumes "inventory_wf v" and "0 < q"
  shows "can_stack_item d q r v =
           Inr (if d \<in> set stackable_items then (0 < room d v, min (room d v) q) else (False, r))"
proof -
  obtain z where "stackable_size d q (items v) (inventory_slots v) 0 = Inr z" "0 \<le> z"
      "min z q = min (room d v) q"
    using stackable_size_room [OF inventory_wf_slots(1) [OF assms(1)] assms(2), of d]
    by (auto simp: room_def)
  then show ?thesis using assms(2) by (auto simp: can_stack_item_def min_def split: if_splits)
qed

text \<open>Changing quantities keeps every place.\<close>

lemma inventory_wf_set_quantities [inv_intros]:
  assumes "inventory_wf v"
  shows "inventory_wf (v\<lparr>items := set_quantities cs (items v)\<rparr>)" (is "inventory_wf ?w")
proof -
  have itm: "items ?w k = Some it \<longleftrightarrow>
      (\<exists>it0. items v k = Some it0 \<and> it = (case map_of cs k of None \<Rightarrow> it0 | Some n \<Rightarrow> it0\<lparr>quantity := n\<rparr>))"
    for k it
    by (auto simp: set_quantities_def split: option.split)
  have same: "itemId (case x of None \<Rightarrow> it0 | Some n \<Rightarrow> it0\<lparr>quantity := n\<rparr>) = itemId it0"
    "slot (case x of None \<Rightarrow> it0 | Some n \<Rightarrow> it0\<lparr>quantity := n\<rparr>) = slot it0"
    "slotType (case x of None \<Rightarrow> it0 | Some n \<Rightarrow> it0\<lparr>quantity := n\<rparr>) = slotType it0" for x it0
    by (simp_all split: option.split)
  have ids: "itemId it = k" if "items ?w k = Some it" for k it
    using that inventory_wf_id [OF assms] unfolding itm by (auto simp: same)
  have placed: "\<exists>it. items ?w k = Some it \<and> recorded_at it p"
    if p: "valid_place p" and k: "at_place ?w p = Some k" for p k
  proof -
    from k have "at_place v p = Some k" by simp
    from inventory_wf_at [OF assms p this] obtain it where "items v k = Some it" "recorded_at it p" .
    then show ?thesis unfolding itm by (auto simp: recorded_at_def same)
  qed
  have unplaced: "(\<exists>p. valid_place p \<and> at_place ?w p = Some k) \<or> (slotType it = SlotInventory \<and> slot it = -1)"
    if k: "items ?w k = Some it" for k it
  proof -
    from k obtain it0 where it0: "items v k = Some it0"
      "it = (case map_of cs k of None \<Rightarrow> it0 | Some n \<Rightarrow> it0\<lparr>quantity := n\<rparr>)"
      unfolding itm by blast
    from assms it0(1) have "(\<exists>p. valid_place p \<and> at_place v p = Some k) \<or> (slotType it0 = SlotInventory \<and> slot it0 = -1)"
      unfolding inventory_wf_def by blast
    then show ?thesis using it0(2) by (simp add: same)
  qed
  show ?thesis
    unfolding inventory_wf_def using assms ids placed unplaced by simp
qed

lemma stack_item_refused:
  assumes wf: "inventory_wf v" and q: "0 \<le> q" and no: "q = 0 \<or> room d v < q"
  shows "stack_item d q v = Inr (False, v)"
proof -
  note slots = inventory_wf_slots [OF wf]
  from stack_changes_spec [OF slots(1,2) q, of d] obtain cs r where
    s: "stack_changes d (items v) (inventory_slots v) q = Inr (cs, r)"
    and r: "r = q - min q (room d v)" and nil: "cs = [] \<longleftrightarrow> r = q"
    unfolding room_def by blast
  have "cs = [] \<or> 0 < r" using r nil no q by linarith
  then show ?thesis by (auto simp: stack_item_def s)
qed

lemma stack_item_done:
  assumes wf: "inventory_wf v" and q: "0 < q" "q \<le> room d v"
  obtains cs where
    "stack_item d q v =
       Inr (True, extend_log (quantity_logs cs) (v\<lparr>items := set_quantities cs (items v)\<rparr>))"
    and "distinct (map fst cs)" and "Some ` fst ` set cs \<subseteq> set (inventory_slots v)"
    and "\<forall>(k, n) \<in> set cs. n \<le> stackable_item_max_quantity"
    and "held d (v\<lparr>items := set_quantities cs (items v)\<rparr>) = held d v + q"
    and "room d (v\<lparr>items := set_quantities cs (items v)\<rparr>) = room d v - q"
proof -
  note slots = inventory_wf_slots [OF wf]
  have q0: "0 \<le> q" using q by simp
  from stack_changes_spec [OF slots(1,2) q0, of d] obtain cs r where
    s: "stack_changes d (items v) (inventory_slots v) q = Inr (cs, r)"
    and r: "r = q - min q (room d v)" and dist: "distinct (map fst cs)"
    and sub: "Some ` fst ` set cs \<subseteq> set (inventory_slots v)"
    and le: "\<forall>(k, n) \<in> set cs. n \<le> stackable_item_max_quantity" and nil: "cs = [] \<longleftrightarrow> r = q"
    and sum: "(\<Sum>x\<leftarrow>inventory_slots v. amount_at d (set_quantities cs (items v)) x)
       = (\<Sum>x\<leftarrow>inventory_slots v. amount_at d (items v) x) + (q - r)"
    and sumr: "(\<Sum>x\<leftarrow>inventory_slots v. room_at d (set_quantities cs (items v)) x)
       = (\<Sum>x\<leftarrow>inventory_slots v. room_at d (items v) x) - (q - r)"
    unfolding room_def by blast
  have r0: "r = 0" using r q by simp
  have "\<forall>k \<in> fst ` set cs. \<exists>it. items v k = Some it \<and> itemId it = k"
    using sub slots(3) by blast
  from apply_changes_eq [OF dist this] s r0 nil q
  have "stack_item d q v =
       Inr (True, extend_log (quantity_logs cs) (v\<lparr>items := set_quantities cs (items v)\<rparr>))"
    by (simp add: stack_item_def)
  then show thesis
    using dist sub le sum sumr r0 by (intro that [of cs]) (simp_all add: held_def room_def)
qed

lemma stack_item_wf:
  assumes wf: "inventory_wf v" and q: "0 \<le> q" and s: "stack_item d q v = Inr (ok, v')"
  shows "inventory_wf v' \<and> (\<not> ok \<longrightarrow> v' = v)"
proof (cases "0 < q \<and> q \<le> room d v")
  case True
  then have "0 < q" and "q \<le> room d v" by simp_all
  from wf this obtain cs where
    "stack_item d q v =
       Inr (True, extend_log (quantity_logs cs) (v\<lparr>items := set_quantities cs (items v)\<rparr>))"
    by (rule stack_item_done)
  then have "ok" and v': "v' = extend_log (quantity_logs cs) (v\<lparr>items := set_quantities cs (items v)\<rparr>)"
    using s by simp_all
  then show ?thesis using inventory_wf_set_quantities [OF wf, of cs] by simp
next
  case False
  with q have "q = 0 \<or> room d v < q" by auto
  from stack_item_refused [OF wf q this] s wf show ?thesis by simp
qed

end
