(* ===== verification/ItemDatabase.thy ===== *)
theory ItemDatabase
  imports InventoryStacking "HOL-Library.Multiset"
begin

text \<open>
  The tables \<^verbatim>\<open>items\<close> and \<^verbatim>\<open>characters_equipment\<close> and the stored procedures that write and read them
  (\<^verbatim>\<open>xr/service/database/sql\<close>). The procedure \<^verbatim>\<open>items_update\<close> replays the change log of an inventory.

  The theory proves that the log is a faithful journal: replaying the log of any sequence of inventory
  operations takes the database from the old inventory to the new one, and loading a character from
  the database gives back the inventory that was saved. It also shows what the handler of
  \<^verbatim>\<open>items_update\<close> does on an error: it rolls back and goes on.
\<close>

subsection \<open>Tables and statements\<close>

record item_row =
  row_cid :: int
  row_data_id :: int
  row_quantity :: int
  row_slot :: "int option"
  row_attack :: "int option"
  row_defence :: "int option"
  row_str :: "int option"
  row_dex :: "int option"
  row_intell :: "int option"

text \<open>
  \<^verbatim>\<open>items\<close> is keyed by \<^verbatim>\<open>iid\<close>. \<^verbatim>\<open>characters_equipment\<close> has no key of its own: it is a bag of rows
  (character, item, position). Both refer to other tables by foreign keys.
\<close>

record database =
  characters :: "int set"
  item_rows :: "int \<rightharpoonup> item_row"
  equipment_rows :: "(int \<times> int \<times> int) list"

datatype statement =
    InsertEquipment int int int
  | DeleteEquipment int
  | SetSlot int "int option"
  | InsertItem int int int int int
  | DeleteItem int
  | SetQuantity int int

definition update_item :: "int \<Rightarrow> (item_row \<Rightarrow> item_row) \<Rightarrow> database \<Rightarrow> database" where
  "update_item k f db = db\<lparr>item_rows := (item_rows db)(k := map_option f (item_rows db k))\<rparr>"

fun exec_statement :: "statement \<Rightarrow> database \<Rightarrow> database option" where
  "exec_statement (InsertEquipment c k p) db =
     (if c \<in> characters db \<and> item_rows db k \<noteq> None
      then Some (db\<lparr>equipment_rows := equipment_rows db @ [(c, k, p)]\<rparr>) else None)"
| "exec_statement (DeleteEquipment k) db =
     Some (db\<lparr>equipment_rows := filter (\<lambda>(_, k', _). k' \<noteq> k) (equipment_rows db)\<rparr>)"
| "exec_statement (SetSlot k s) db = Some (update_item k (\<lambda>r. r\<lparr>row_slot := s\<rparr>) db)"
| "exec_statement (InsertItem k c d q s) db =
     (if c \<in> characters db \<and> item_rows db k = None
      then Some (db\<lparr>item_rows := (item_rows db)(k \<mapsto>
             \<lparr>row_cid = c, row_data_id = d, row_quantity = q, row_slot = Some s,
              row_attack = None, row_defence = None, row_str = None, row_dex = None, row_intell = None\<rparr>)\<rparr>)
      else None)"
| "exec_statement (DeleteItem k) db =
     Some (db\<lparr>item_rows := (item_rows db)(k := None),
              equipment_rows := filter (\<lambda>(_, k', _). k' \<noteq> k) (equipment_rows db)\<rparr>)"
| "exec_statement (SetQuantity k q) db = Some (update_item k (\<lambda>r. r\<lparr>row_quantity := q\<rparr>) db)"

text \<open>The branches of the \<^verbatim>\<open>CASE\<close> of \<^verbatim>\<open>items_update\<close>.\<close>

fun log_statements :: "change_log \<Rightarrow> statement list" where
  "log_statements (EquipItemLog c k p) = [InsertEquipment c k p, SetSlot k None]"
| "log_statements (UnequipItemLog k s) = [DeleteEquipment k, SetSlot k (Some s)]"
| "log_statements (ShiftItemLog k s) = [SetSlot k (Some s)]"
| "log_statements (AddItemLog k c d q s) = [InsertItem k c d q s]"
| "log_statements (RemoveItemLog k) = [DeleteItem k]"
| "log_statements (ChangeItemQuantityLog k q) = [SetQuantity k q]"

text \<open>
  The connection while the procedure runs: what is committed, what the connection sees, whether
  the transaction is open. The handler is a \<^verbatim>\<open>CONTINUE HANDLER\<close>: after its \<^verbatim>\<open>ROLLBACK\<close> the procedure goes on
  with the next statement, outside the transaction, where every statement commits by itself.
\<close>

record connection =
  committed :: database
  working :: database
  in_transaction :: bool

fun run_statements :: "statement list \<Rightarrow> connection \<Rightarrow> connection" where
  "run_statements [] c = c"
| "run_statements (s # ss) c =
     (case exec_statement s (working c) of
        Some db \<Rightarrow>
          run_statements ss
            (if in_transaction c then c\<lparr>working := db\<rparr> else c\<lparr>committed := db, working := db\<rparr>)
      | None \<Rightarrow> run_statements ss (c\<lparr>working := committed c, in_transaction := False\<rparr>))"

definition sql_items_update :: "change_log list \<Rightarrow> database \<Rightarrow> database" where
  "sql_items_update logs db =
     working (run_statements (concat (map log_statements logs))
                \<lparr>committed = db, working = db, in_transaction = True\<rparr>)"

subsection \<open>Statements that all succeed\<close>

fun exec_all :: "statement list \<Rightarrow> database \<Rightarrow> database option" where
  "exec_all [] db = Some db"
| "exec_all (s # ss) db = Option.bind (exec_statement s db) (exec_all ss)"

lemma exec_all_append: "exec_all (ss @ ts) db = Option.bind (exec_all ss db) (exec_all ts)"
  by (induction ss arbitrary: db) (auto split: Option.bind_split)

lemma run_statements_ok:
  "exec_all ss (working c) = Some db \<Longrightarrow> in_transaction c \<Longrightarrow>
     run_statements ss c = c\<lparr>working := db\<rparr>"
proof (induction ss arbitrary: c)
  case (Cons s ss)
  then obtain db1 where s: "exec_statement s (working c) = Some db1" "exec_all ss db1 = Some db"
    by (auto simp: Option.bind_eq_Some_conv)
  with Cons.IH [of "c\<lparr>working := db1\<rparr>"] Cons.prems show ?case by simp
qed simp

lemma run_statements_append:
  "run_statements (ss @ ts) c = run_statements ts (run_statements ss c)"
  by (induction ss c rule: run_statements.induct) (simp_all split: option.split)

lemma run_statements_autocommit:
  "exec_all ss (working c) = Some db \<Longrightarrow> committed c = working c \<Longrightarrow> \<not> in_transaction c \<Longrightarrow>
     working (run_statements ss c) = db"
proof (induction ss arbitrary: c)
  case (Cons s ss)
  then obtain db1 where s: "exec_statement s (working c) = Some db1" "exec_all ss db1 = Some db"
    by (auto simp: Option.bind_eq_Some_conv)
  with Cons.IH [of "c\<lparr>committed := db1, working := db1\<rparr>"] Cons.prems show ?case by simp
qed simp

lemma items_update_ok:
  "exec_all (concat (map log_statements logs)) db = Some db' \<Longrightarrow> sql_items_update logs db = db'"
  by (simp add: sql_items_update_def run_statements_ok)

subsection \<open>Journaled stores\<close>

text \<open>
  A memory that describes its changes by journal entries, and a store that executes them: if every
  allowed entry is carried out by the store the way it changes the memory, the whole journal is.
\<close>

fun apply_entries :: "('l \<Rightarrow> 'm \<Rightarrow> 'm) \<Rightarrow> 'l list \<Rightarrow> 'm \<Rightarrow> 'm" where
  "apply_entries f [] m = m"
| "apply_entries f (l # ls) m = apply_entries f ls (f l m)"

fun entries_ok :: "('l \<Rightarrow> 'm \<Rightarrow> 'm) \<Rightarrow> ('l \<Rightarrow> 'm \<Rightarrow> bool) \<Rightarrow> 'l list \<Rightarrow> 'm \<Rightarrow> bool" where
  "entries_ok f P [] m \<longleftrightarrow> True"
| "entries_ok f P (l # ls) m \<longleftrightarrow> P l m \<and> entries_ok f P ls (f l m)"

lemma apply_entries_append: "apply_entries f (ls @ ks) m = apply_entries f ks (apply_entries f ls m)"
  by (induction ls arbitrary: m) auto

lemma entries_ok_append:
  "entries_ok f P (ls @ ks) m \<longleftrightarrow> entries_ok f P ls m \<and> entries_ok f P ks (apply_entries f ls m)"
  by (induction ls arbitrary: m) auto

locale journaled_store =
  fixes apply_entry :: "'l \<Rightarrow> 'm \<Rightarrow> 'm"
    and allowed :: "'l \<Rightarrow> 'm \<Rightarrow> bool"
    and statements_of :: "'l \<Rightarrow> 's list"
    and exec :: "'s list \<Rightarrow> 'd \<Rightarrow> 'd option"
    and rep :: "'m \<Rightarrow> 'd \<Rightarrow> bool"
  assumes exec_nil: "exec [] db = Some db"
    and exec_append: "exec (ss @ ts) db = Option.bind (exec ss db) (exec ts)"
    and entry_done: "rep m db \<Longrightarrow> allowed l m \<Longrightarrow>
      \<exists>db'. exec (statements_of l) db = Some db' \<and> rep (apply_entry l m) db'"
begin

lemma journal_done:
  assumes "rep m db" and "entries_ok apply_entry allowed ls m"
  shows "\<exists>db'. exec (concat (map statements_of ls)) db = Some db' \<and> rep (apply_entries apply_entry ls m) db'"
  using assms
proof (induction ls arbitrary: m db)
  case Nil
  then show ?case by (simp add: exec_nil)
next
  case (Cons l ls)
  then obtain db1 where l: "exec (statements_of l) db = Some db1" "rep (apply_entry l m) db1"
    using entry_done by (metis entries_ok.simps(2))
  moreover obtain db2 where "exec (concat (map statements_of ls)) db1 = Some db2"
      "rep (apply_entries apply_entry ls (apply_entry l m)) db2"
    using Cons.IH [OF l(2)] Cons.prems(2) by auto
  ultimately show ?case by (simp add: exec_append)
qed

end

subsection \<open>The inventory as the journaled memory\<close>

text \<open>
  The memory is the map of items with the set of the unique ids that have not been used yet. An
  entry of the log stands for a change of one item.
\<close>

type_synonym item_memory = "(int \<rightharpoonup> inventory_item) \<times> int set"

fun apply_log :: "change_log \<Rightarrow> item_memory \<Rightarrow> item_memory" where
  "apply_log (EquipItemLog c k p) (m, F) = (m(k := map_option (set_position p SlotEquipment) (m k)), F)"
| "apply_log (UnequipItemLog k s) (m, F) = (m(k := map_option (set_position s SlotInventory) (m k)), F)"
| "apply_log (ShiftItemLog k s) (m, F) = (m(k := map_option (set_position s SlotInventory) (m k)), F)"
| "apply_log (AddItemLog k c d q s) (m, F) = (m(k \<mapsto> new_item k d q (nat s)), F - {k})"
| "apply_log (RemoveItemLog k) (m, F) = (m(k := None), F)"
| "apply_log (ChangeItemQuantityLog k q) (m, F) = (m(k := map_option (\<lambda>it. it\<lparr>quantity := q\<rparr>) (m k)), F)"

definition in_inventory :: "(int \<rightharpoonup> inventory_item) \<Rightarrow> int \<Rightarrow> bool" where
  "in_inventory m k \<longleftrightarrow> (\<exists>it. m k = Some it \<and> slotType it = SlotInventory)"

fun log_allowed :: "int \<Rightarrow> change_log \<Rightarrow> item_memory \<Rightarrow> bool" where
  "log_allowed cid (EquipItemLog c k p) (m, F) \<longleftrightarrow> c = cid \<and> in_inventory m k"
| "log_allowed cid (UnequipItemLog k s) (m, F) \<longleftrightarrow> m k \<noteq> None \<and> 0 \<le> s"
| "log_allowed cid (ShiftItemLog k s) (m, F) \<longleftrightarrow> in_inventory m k \<and> 0 \<le> s"
| "log_allowed cid (AddItemLog k c d q s) (m, F) \<longleftrightarrow> c = cid \<and> k \<in> F \<and> 0 \<le> s"
| "log_allowed cid (RemoveItemLog k) (m, F) \<longleftrightarrow> m k \<noteq> None"
| "log_allowed cid (ChangeItemQuantityLog k q) (m, F) \<longleftrightarrow> m k \<noteq> None"

definition row_of :: "int \<Rightarrow> inventory_item \<Rightarrow> item_row" where
  "row_of cid it =
     \<lparr>row_cid = cid, row_data_id = itemDataId it, row_quantity = quantity it,
      row_slot = (if slotType it = SlotInventory \<and> 0 \<le> slot it then Some (slot it) else None),
      row_attack = attack it, row_defence = defence it, row_str = str it, row_dex = dex it,
      row_intell = intell it\<rparr>"

definition equipped_rows :: "int \<Rightarrow> (int \<rightharpoonup> inventory_item) \<Rightarrow> (int \<times> int \<times> int) set" where
  "equipped_rows cid m =
     {(cid, k, slot it) | k it. m k = Some it \<and> slotType it = SlotEquipment}"

text \<open>
  The database holds the items of one character: a row for each item and no other row of that
  character, exactly one equipment row for each equipped item, and nothing under a fresh id.
\<close>

definition equipment_rep :: "int \<Rightarrow> (int \<rightharpoonup> inventory_item) \<Rightarrow> (int \<times> int \<times> int) list \<Rightarrow> bool" where
  "equipment_rep cid m rows \<longleftrightarrow>
     distinct (filter (\<lambda>r. fst r = cid) rows)
     \<and> (\<forall>c k p. (c, k, p) \<in> set rows \<longrightarrow> m k \<noteq> None \<longrightarrow> c = cid)
     \<and> (\<forall>k p. (cid, k, p) \<in> set rows \<longleftrightarrow>
            (\<exists>it. m k = Some it \<and> slotType it = SlotEquipment \<and> slot it = p))"

definition items_rep :: "int \<Rightarrow> (int \<rightharpoonup> inventory_item) \<Rightarrow> (int \<rightharpoonup> item_row) \<Rightarrow> bool" where
  "items_rep cid m rows \<longleftrightarrow>
     (\<forall>k it. m k = Some it \<longrightarrow> rows k = Some (row_of cid it))
     \<and> (\<forall>k r. m k = None \<longrightarrow> rows k = Some r \<longrightarrow> row_cid r \<noteq> cid)"

definition fresh_in :: "int set \<Rightarrow> database \<Rightarrow> bool" where
  "fresh_in F db \<longleftrightarrow>
     (\<forall>k \<in> F. item_rows db k = None \<and> (\<forall>c p. (c, k, p) \<notin> set (equipment_rows db)))"

fun db_rep :: "int \<Rightarrow> item_memory \<Rightarrow> database \<Rightarrow> bool" where
  "db_rep cid (m, F) db \<longleftrightarrow>
     cid \<in> characters db \<and> items_rep cid m (item_rows db) \<and> equipment_rep cid m (equipment_rows db)
     \<and> fresh_in F db"

lemma items_rep_update:
  assumes "items_rep cid m rows" and "m k \<noteq> None" and "\<And>it. f (row_of cid it) = row_of cid (g it)"
  shows "items_rep cid (m(k := map_option g (m k))) (rows(k := map_option f (rows k)))"
  using assms by (auto simp: items_rep_def)

lemma equipment_rep_update:
  assumes "equipment_rep cid m rows"
    and "\<And>it. m k = Some it \<Longrightarrow> slotType (g it) = slotType it \<and> (slotType it = SlotEquipment \<longrightarrow> slot (g it) = slot it)"
  shows "equipment_rep cid (m(k := map_option g (m k))) rows"
  using assms unfolding equipment_rep_def by (auto split: if_splits)

lemma equipment_rep_insert:
  assumes "equipment_rep cid m rows" and "in_inventory m k"
  shows "equipment_rep cid (m(k := map_option (set_position p SlotEquipment) (m k))) (rows @ [(cid, k, p)])"
  using assms unfolding equipment_rep_def in_inventory_def set_position_def by (fastforce split: if_splits)

lemma equipment_rep_delete:
  assumes "equipment_rep cid m rows"
    and "\<And>it. x = Some it \<Longrightarrow> slotType it = SlotInventory"
  shows "equipment_rep cid (m(k := x)) (filter (\<lambda>(_, k', _). k' \<noteq> k) rows)"
proof -
  have "filter (\<lambda>r. fst r = cid) (filter (\<lambda>(_, k', _). k' \<noteq> k) rows)
      = filter (\<lambda>(_, k', _). k' \<noteq> k) (filter (\<lambda>r. fst r = cid) rows)"
    unfolding filter_filter by (rule filter_cong) auto
  then have "distinct (filter (\<lambda>r. fst r = cid) (filter (\<lambda>(_, k', _). k' \<noteq> k) rows))"
    using assms(1) by (simp only: equipment_rep_def distinct_filter)
  then show ?thesis
    using assms unfolding equipment_rep_def by (auto split: if_splits)
qed

lemma fresh_in_rows:
  "fresh_in F db \<Longrightarrow> \<forall>k \<in> F. item_rows db' k = None \<or> item_rows db k \<noteq> None \<Longrightarrow>
     set (equipment_rows db') \<subseteq> set (equipment_rows db) \<Longrightarrow> fresh_in F db'"
  by (auto simp: fresh_in_def)

lemma log_done:
  assumes "db_rep cid mF db" and "log_allowed cid l mF"
  shows "\<exists>db'. exec_all (log_statements l) db = Some db' \<and> db_rep cid (apply_log l mF) db'"
proof -
  obtain m F where mF: "mF = (m, F)" by (cases mF)
  with assms have c: "cid \<in> characters db" and i: "items_rep cid m (item_rows db)"
    and e: "equipment_rep cid m (equipment_rows db)" and f: "fresh_in F db"
    by auto
  have present: "item_rows db k \<noteq> None" "k \<notin> F" if "m k \<noteq> None" for k
    using i f that by (auto simp: items_rep_def fresh_in_def)
  show ?thesis
  proof (cases l)
    case (EquipItemLog c' k p)
    with assms mF have k: "in_inventory m k" "m k \<noteq> None" "c' = cid"
      by (auto simp: in_inventory_def)
    let ?db = "update_item k (\<lambda>r. r\<lparr>row_slot := None\<rparr>) (db\<lparr>equipment_rows := equipment_rows db @ [(cid, k, p)]\<rparr>)"
    have "exec_all (log_statements l) db = Some ?db"
      using EquipItemLog k c present(1) by simp
    moreover have "fresh_in F ?db"
      using f present(2) [OF k(2)] by (auto simp: fresh_in_def update_item_def)
    moreover have "items_rep cid (m(k := map_option (set_position p SlotEquipment) (m k))) (item_rows ?db)"
      using items_rep_update [OF i k(2), of "\<lambda>r. r\<lparr>row_slot := None\<rparr>" "set_position p SlotEquipment"]
      by (simp add: update_item_def row_of_def set_position_def)
    ultimately show ?thesis
      using EquipItemLog mF c equipment_rep_insert [OF e k(1), of p] by (simp add: update_item_def)
  next
    case (UnequipItemLog k s)
    with assms mF have k: "m k \<noteq> None" "0 \<le> s" by auto
    let ?db = "update_item k (\<lambda>r. r\<lparr>row_slot := Some s\<rparr>)
      (db\<lparr>equipment_rows := filter (\<lambda>(_, k', _). k' \<noteq> k) (equipment_rows db)\<rparr>)"
    have "items_rep cid (m(k := map_option (set_position s SlotInventory) (m k))) (item_rows ?db)"
      using items_rep_update [OF i k(1), of "\<lambda>r. r\<lparr>row_slot := Some s\<rparr>" "set_position s SlotInventory"] k(2)
      by (simp add: update_item_def row_of_def set_position_def)
    moreover have "equipment_rep cid (m(k := map_option (set_position s SlotInventory) (m k))) (equipment_rows ?db)"
      by (simp add: update_item_def, rule equipment_rep_delete [OF e]) (auto simp: set_position_def)
    moreover have "fresh_in F ?db"
      using f present(2) [OF k(1)] by (auto simp: fresh_in_def update_item_def)
    ultimately show ?thesis using UnequipItemLog mF c by (simp add: update_item_def)
  next
    case (ShiftItemLog k s)
    with assms mF have k: "in_inventory m k" "m k \<noteq> None" "0 \<le> s"
      by (auto simp: in_inventory_def)
    let ?db = "update_item k (\<lambda>r. r\<lparr>row_slot := Some s\<rparr>) db"
    have "items_rep cid (m(k := map_option (set_position s SlotInventory) (m k))) (item_rows ?db)"
      using items_rep_update [OF i k(2), of "\<lambda>r. r\<lparr>row_slot := Some s\<rparr>" "set_position s SlotInventory"] k(3)
      by (simp add: update_item_def row_of_def set_position_def)
    moreover have "equipment_rep cid (m(k := map_option (set_position s SlotInventory) (m k))) (equipment_rows ?db)"
      using equipment_rep_update [OF e, of k "set_position s SlotInventory"] k(1)
      by (auto simp: update_item_def set_position_def in_inventory_def)
    moreover have "fresh_in F ?db"
      using f present(2) [OF k(2)] by (auto simp: fresh_in_def update_item_def)
    ultimately show ?thesis using ShiftItemLog mF c by (simp add: update_item_def)
  next
    case (AddItemLog k c' d q s)
    with assms mF have k: "k \<in> F" "c' = cid" "0 \<le> s" by auto
    with f have none: "item_rows db k = None" and rows: "\<And>c p. (c, k, p) \<notin> set (equipment_rows db)"
      by (auto simp: fresh_in_def)
    then have "m k = None" using present(1) by blast
    have row: "row_of cid (new_item k d q (nat s)) =
        \<lparr>row_cid = cid, row_data_id = d, row_quantity = q, row_slot = Some s,
         row_attack = None, row_defence = None, row_str = None, row_dex = None, row_intell = None\<rparr>"
      using k(3) by (simp add: row_of_def new_item_def inventory_item_default_def)
    have "items_rep cid (m(k \<mapsto> new_item k d q (nat s)))
        ((item_rows db)(k \<mapsto> row_of cid (new_item k d q (nat s))))"
      using i by (auto simp: items_rep_def)
    moreover have "equipment_rep cid (m(k \<mapsto> new_item k d q (nat s))) (equipment_rows db)"
      using e rows \<open>m k = None\<close>
      unfolding equipment_rep_def by (auto simp: new_item_def inventory_item_default_def split: if_splits)
    moreover have "fresh_in (F - {k}) (db\<lparr>item_rows := (item_rows db)(k \<mapsto> row_of cid (new_item k d q (nat s)))\<rparr>)"
      using f by (auto simp: fresh_in_def)
    ultimately show ?thesis using AddItemLog mF c k none by (simp add: row)
  next
    case (RemoveItemLog k)
    with assms mF have k: "m k \<noteq> None" by auto
    have "items_rep cid (m(k := None)) ((item_rows db)(k := None))"
      using i by (auto simp: items_rep_def)
    moreover have "equipment_rep cid (m(k := None)) (filter (\<lambda>(_, k', _). k' \<noteq> k) (equipment_rows db))"
      by (rule equipment_rep_delete [OF e]) simp
    ultimately show ?thesis
      using RemoveItemLog mF c f by (auto simp: fresh_in_def)
  next
    case (ChangeItemQuantityLog k q)
    with assms mF have k: "m k \<noteq> None" by auto
    let ?g = "\<lambda>it. it\<lparr>quantity := q\<rparr>" and ?db = "update_item k (\<lambda>r. r\<lparr>row_quantity := q\<rparr>) db"
    have "items_rep cid (m(k := map_option ?g (m k))) (item_rows ?db)"
      using items_rep_update [OF i k, of "\<lambda>r. r\<lparr>row_quantity := q\<rparr>" ?g]
      by (simp add: update_item_def row_of_def)
    moreover have "equipment_rep cid (m(k := map_option ?g (m k))) (equipment_rows ?db)"
      using equipment_rep_update [OF e, of k ?g] by (simp add: update_item_def)
    moreover have "fresh_in F ?db"
      using f present(2) [OF k] by (auto simp: fresh_in_def update_item_def)
    ultimately show ?thesis using ChangeItemQuantityLog mF c by (simp add: update_item_def)
  qed
qed

interpretation item_log: journaled_store apply_log "log_allowed cid" log_statements exec_all "db_rep cid"
  for cid
  by unfold_locales (simp_all add: exec_all_append log_done)

subsection \<open>Sequences of inventory operations\<close>

datatype inventory_op =
    OpEquip int int
  | OpUnequip int int
  | OpShift int int
  | OpAdd int int int
  | OpRemove int
  | OpStack int int

fun run_op :: "inventory_op \<Rightarrow> inventory \<Rightarrow> fault + (bool \<times> inventory)" where
  "run_op (OpEquip d s) v = equip d s v"
| "run_op (OpUnequip s d) v = unequip s d v"
| "run_op (OpShift s d) v = shift_item s d v"
| "run_op (OpAdd u d q) v = Inr (add_item u d q v)"
| "run_op (OpRemove s) v = remove_item s v"
| "run_op (OpStack d q) v = stack_item d q v"

fun run_ops :: "inventory_op list \<Rightarrow> inventory \<Rightarrow> fault + inventory" where
  "run_ops [] v = Inr v"
| "run_ops (p # ps) v = and_then (run_op p v) (\<lambda>(_, v'). run_ops ps v')"

text \<open>The callers add items under fresh unique ids and stack amounts that are not negative.\<close>

fun op_allowed :: "inventory_op \<Rightarrow> int set \<Rightarrow> bool" where
  "op_allowed (OpAdd u d q) F \<longleftrightarrow> u \<in> F"
| "op_allowed (OpStack d q) F \<longleftrightarrow> 0 \<le> q"
| "op_allowed _ F \<longleftrightarrow> True"

fun used_id :: "inventory_op \<Rightarrow> int set" where
  "used_id (OpAdd u d q) = {u}"
| "used_id _ = {}"

fun ops_allowed :: "inventory_op list \<Rightarrow> int set \<Rightarrow> bool" where
  "ops_allowed [] F \<longleftrightarrow> True"
| "ops_allowed (p # ps) F \<longleftrightarrow> op_allowed p F \<and> ops_allowed ps (F - used_id p)"

text \<open>What the log says of a step from one inventory to the next.\<close>

definition journaled :: "int set \<Rightarrow> inventory \<Rightarrow> change_log list \<Rightarrow> inventory \<Rightarrow> int set \<Rightarrow> bool" where
  "journaled F v ls v' F' \<longleftrightarrow>
     itemLogs v' = itemLogs v @ ls \<and> characterId v' = characterId v
     \<and> entries_ok apply_log (log_allowed (characterId v)) ls (items v, F)
     \<and> fst (apply_entries apply_log ls (items v, F)) = items v'
     \<and> F' \<subseteq> snd (apply_entries apply_log ls (items v, F))"

lemma journaled_refl: "journaled F v [] v F"
  by (simp add: journaled_def)

lemma apply_log_mono:
  "F \<subseteq> G \<Longrightarrow> fst (apply_log l (m, F)) = fst (apply_log l (m, G))
     \<and> snd (apply_log l (m, F)) \<subseteq> snd (apply_log l (m, G))"
  by (cases l) auto

lemma log_allowed_mono: "F \<subseteq> G \<Longrightarrow> log_allowed c l (m, F) \<Longrightarrow> log_allowed c l (m, G)"
  by (cases l) auto

lemma entries_mono:
  assumes "F \<subseteq> G" and "entries_ok apply_log (log_allowed c) ls (m, F)"
  shows "entries_ok apply_log (log_allowed c) ls (m, G)
    \<and> fst (apply_entries apply_log ls (m, F)) = fst (apply_entries apply_log ls (m, G))
    \<and> snd (apply_entries apply_log ls (m, F)) \<subseteq> snd (apply_entries apply_log ls (m, G))"
  using assms
proof (induction ls arbitrary: m F G)
  case (Cons l ls)
  obtain m1 F1 where f: "apply_log l (m, F) = (m1, F1)" by fastforce
  obtain G1 where g: "apply_log l (m, G) = (m1, G1)" "F1 \<subseteq> G1"
    using apply_log_mono [OF Cons.prems(1), of l m] f by (cases "apply_log l (m, G)") auto
  show ?case
    using Cons.IH [OF g(2)] Cons.prems f g(1) log_allowed_mono [OF Cons.prems(1)] by simp
qed simp

lemma journaled_trans:
  assumes "journaled F v ls v' F'" and "journaled F' v' ks v'' F''"
  shows "journaled F v (ls @ ks) v'' F''"
proof -
  obtain m G where a: "apply_entries apply_log ls (items v, F) = (m, G)" by fastforce
  with assms(1) have m: "m = items v'" and G: "F' \<subseteq> G" by (auto simp: journaled_def)
  have "entries_ok apply_log (log_allowed (characterId v)) ks (items v', F')"
    using assms by (simp add: journaled_def)
  from entries_mono [OF G this] assms show ?thesis
    by (auto simp: journaled_def entries_ok_append apply_entries_append a m)
qed

lemma apply_entries_fresh:
  assumes "\<forall>k \<in> snd mF. fst mF k = None"
  shows "\<forall>k \<in> snd (apply_entries apply_log ls mF). fst (apply_entries apply_log ls mF) k = None"
  using assms
proof (induction ls arbitrary: mF)
  case (Cons l ls)
  have "\<forall>k \<in> snd (apply_log l mF). fst (apply_log l mF) k = None"
    using Cons.prems by (cases mF; cases l) auto
  with Cons.IH show ?case by simp
qed simp

lemma journaled_fresh:
  assumes "journaled F v ls v' F'" and "\<forall>k \<in> F. items v k = None"
  shows "\<forall>k \<in> F'. items v' k = None"
  using apply_entries_fresh [of "(items v, F)" ls] assms unfolding journaled_def by fastforce

text \<open>An exchange of two places is the relocation of what is in the first and then of what is in the second.\<close>

lemma wf_in_inventory:
  assumes "inventory_wf v" and "valid_place (SlotInventory, n)" and "inventory_slots v ! n = Some k"
  shows "in_inventory (items v) k" and "items v k \<noteq> None"
proof -
  from inventory_wf_at [OF assms(1,2)] assms(3) obtain it where
    "items v k = Some it" "recorded_at it (SlotInventory, n)" by auto
  then show "in_inventory (items v) k" and "items v k \<noteq> None"
    by (auto simp: in_inventory_def recorded_at_def)
qed

lemma wf_equipped:
  assumes "inventory_wf v" and "valid_place (SlotEquipment, n)" and "equipments v ! n = Some k"
  shows "items v k \<noteq> None" and "\<not> in_inventory (items v) k"
proof -
  from inventory_wf_at [OF assms(1,2)] assms(3) obtain it where
    "items v k = Some it" "recorded_at it (SlotEquipment, n)" by auto
  then show "items v k \<noteq> None" and "\<not> in_inventory (items v) k"
    by (auto simp: in_inventory_def recorded_at_def)
qed

lemma equip_journaled:
  assumes wf: "inventory_wf v" and r: "equip d s v = Inr (b, v')"
  shows "\<exists>ls. journaled F v ls v' F"
proof (cases b)
  case False
  with equip_wf [OF wf r] show ?thesis using journaled_refl by blast
next
  case True
  with r obtain i where g: "is_valid_equip_position d" "is_valid_slot s" "d \<noteq> EquipPosition_Count"
    and i: "inventory_slots v ! nat s = Some i"
    and v': "v' = extend_log (EquipItemLog (characterId v) i d #
                       log_of_occupant (\<lambda>j. UnequipItemLog j s) (equipments v ! nat d))
             (swap_places (SlotInventory, nat s) (SlotEquipment, nat d) v)"
    by (auto simp: equip_eq [OF wf] split: if_splits option.splits)
  have s: "valid_place (SlotInventory, nat s)" "int (nat s) = s" "0 \<le> s"
    and d: "valid_place (SlotEquipment, nat d)" "int (nat d) = d"
    using g valid_slot_place valid_equip_place by (auto simp: is_valid_slot_def)
  note ii = wf_in_inventory [OF wf s(1) i]
  show ?thesis
  proof (cases "equipments v ! nat d")
    case None
    then show ?thesis
      using v' i ii d s by (auto simp: journaled_def log_of_occupant_def swap_places_def relocate_def)
  next
    case (Some j)
    note jj = wf_equipped [OF wf d(1) Some]
    with ii have "i \<noteq> j" by auto
    then show ?thesis
      using v' i ii d s Some jj by (auto simp: journaled_def log_of_occupant_def swap_places_def relocate_def)
  qed
qed

lemma unequip_journaled:
  assumes wf: "inventory_wf v" and r: "unequip s d v = Inr (b, v')"
  shows "\<exists>ls. journaled F v ls v' F"
proof (cases b)
  case False
  with unequip_wf [OF wf r] show ?thesis using journaled_refl by blast
next
  case True
  with r obtain i where g: "is_valid_equip_position s" "is_valid_slot d" "s \<noteq> EquipPosition_Count"
    and i: "equipments v ! nat s = Some i"
    and v': "v' = extend_log (UnequipItemLog i d #
                       log_of_occupant (\<lambda>j. EquipItemLog (characterId v) j s) (inventory_slots v ! nat d))
             (swap_places (SlotEquipment, nat s) (SlotInventory, nat d) v)"
    by (auto simp: unequip_eq [OF wf] split: if_splits option.splits)
  have d: "valid_place (SlotInventory, nat d)" "int (nat d) = d" "0 \<le> d"
    and s: "valid_place (SlotEquipment, nat s)" "int (nat s) = s"
    using g valid_slot_place valid_equip_place by (auto simp: is_valid_slot_def)
  note ii = wf_equipped [OF wf s(1) i]
  show ?thesis
  proof (cases "inventory_slots v ! nat d")
    case None
    then show ?thesis
      using v' i ii d s by (auto simp: journaled_def log_of_occupant_def swap_places_def relocate_def)
  next
    case (Some j)
    note jj = wf_in_inventory [OF wf d(1) Some]
    with ii have "i \<noteq> j" by auto
    then show ?thesis
      using v' i ii(1) d s Some jj
      by (auto simp: journaled_def log_of_occupant_def swap_places_def relocate_def in_inventory_def)
  qed
qed

lemma shift_item_journaled:
  assumes wf: "inventory_wf v" and r: "shift_item s d v = Inr (b, v')"
  shows "\<exists>ls. journaled F v ls v' F"
proof (cases b)
  case False
  with shift_item_wf [OF wf r] show ?thesis using journaled_refl by blast
next
  case True
  with r obtain i where g: "is_valid_slot s" "is_valid_slot d" 
    and i: "inventory_slots v ! nat s = Some i"
    and v': "v' = extend_log (ShiftItemLog i d #
                       log_of_occupant (\<lambda>j. ShiftItemLog j s) (inventory_slots v ! nat d))
             (swap_places (SlotInventory, nat s) (SlotInventory, nat d) v)"
    by (auto simp: shift_item_eq [OF wf] split: if_splits option.splits)
  have d: "valid_place (SlotInventory, nat d)" "int (nat d) = d" "0 \<le> d"
    and s: "valid_place (SlotInventory, nat s)" "int (nat s) = s" "0 \<le> s"
    using g valid_slot_place by (auto simp: is_valid_slot_def)
  note ii = wf_in_inventory [OF wf s(1) i]
  show ?thesis
  proof (cases "inventory_slots v ! nat d")
    case None
    then show ?thesis
      using v' i ii d s by (auto simp: journaled_def log_of_occupant_def swap_places_def relocate_def)
  next
    case (Some j)
    note jj = wf_in_inventory [OF wf d(1) Some]
    then show ?thesis
      using v' i ii d s Some
      by (auto simp: journaled_def log_of_occupant_def swap_places_def relocate_def in_inventory_def
          set_position_def)
  qed
qed

lemma quantity_logs_entries:
  assumes "distinct (map fst cs)" and "\<forall>k \<in> fst ` set cs. m k \<noteq> None"
  shows "entries_ok apply_log (log_allowed c) (quantity_logs cs) (m, F)
     \<and> apply_entries apply_log (quantity_logs cs) (m, F) = (set_quantities cs m, F)"
  using assms
proof (induction cs arbitrary: m)
  case Nil
  then show ?case by (simp add: quantity_logs_def)
next
  case (Cons x cs)
  obtain k n where x: "x = (k, n)" by (cases x)
  with Cons.prems obtain it where it: "m k = Some it" by auto
  let ?m = "m(k \<mapsto> it\<lparr>quantity := n\<rparr>)"
  have "entries_ok apply_log (log_allowed c) (quantity_logs cs) (?m, F)
     \<and> apply_entries apply_log (quantity_logs cs) (?m, F) = (set_quantities cs ?m, F)"
    using Cons.prems x by (intro Cons.IH) auto
  moreover have "set_quantities (x # cs) m = set_quantities cs ?m"
    using Cons.prems x it by (simp add: set_quantities_Cons)
  ultimately show ?case using x it by (simp add: quantity_logs_def)
qed

lemma stack_item_journaled:
  assumes wf: "inventory_wf v" and q: "0 \<le> q" and r: "stack_item d q v = Inr (b, v')"
  shows "\<exists>ls. journaled F v ls v' F"
proof (cases "0 < q \<and> q \<le> room d v")
  case False
  with q have "q = 0 \<or> room d v < q" by auto
  from stack_item_refused [OF wf q this] r have "v' = v" by simp
  then show ?thesis using journaled_refl by blast
next
  case True
  then have "0 < q" "q \<le> room d v" by simp_all
  from wf this obtain cs where
    s: "stack_item d q v =
       Inr (True, extend_log (quantity_logs cs) (v\<lparr>items := set_quantities cs (items v)\<rparr>))"
    and cs: "distinct (map fst cs)" "Some ` fst ` set cs \<subseteq> set (inventory_slots v)"
    by (rule stack_item_done)
  have present: "\<forall>k \<in> fst ` set cs. items v k \<noteq> None"
  proof
    fix k assume "k \<in> fst ` set cs"
    with cs(2) have "Some k \<in> set (inventory_slots v)" by blast
    from inventory_wf_slots(3) [OF wf this] show "items v k \<noteq> None" by auto
  qed
  have "v' = extend_log (quantity_logs cs) (v\<lparr>items := set_quantities cs (items v)\<rparr>)"
    using s r by simp
  then have "journaled F v (quantity_logs cs) v' F"
    using quantity_logs_entries [OF cs(1) present] by (simp add: journaled_def)
  then show ?thesis by blast
qed

lemma run_op_journaled:
  assumes wf: "inventory_wf v" and "op_allowed p F" and fresh: "\<forall>k \<in> F. items v k = None"
    and r: "run_op p v = Inr (b, v')"
  shows "inventory_wf v' \<and> (\<exists>ls. journaled F v ls v' (F - used_id p))"
proof (cases p)
  case (OpEquip d s)
  with r have "equip d s v = Inr (b, v')" by simp
  from equip_wf [OF wf this] equip_journaled [OF wf this] OpEquip show ?thesis by simp
next
  case (OpUnequip s d)
  with r have "unequip s d v = Inr (b, v')" by simp
  from unequip_wf [OF wf this] unequip_journaled [OF wf this] OpUnequip show ?thesis by simp
next
  case (OpShift s d)
  with r have "shift_item s d v = Inr (b, v')" by simp
  from shift_item_wf [OF wf this] shift_item_journaled [OF wf this] OpShift show ?thesis by simp
next
  case (OpAdd u d q)
  with assms(2) fresh have u: "items v u = None" "u \<in> F" by auto
  show ?thesis
  proof (cases b)
    case True
    with r OpAdd have a: "add_item u d q v = (True, v')" by simp
    from wf u(1) a obtain i where
      v': "v' = extend_log [AddItemLog u (characterId v) d q (int i)]
          (v\<lparr>items := (items v)(u \<mapsto> new_item u d q i),
             inventory_slots := (inventory_slots v)[i := Some u]\<rparr>)"
      by (rule add_item_cases)
    have "journaled F v [AddItemLog u (characterId v) d q (int i)] v' (F - {u})"
      using u by (simp add: journaled_def v')
    with add_item_wf [OF wf u(1) a] OpAdd show ?thesis by auto
  next
    case False
    with r OpAdd have "v' = v" using add_item_refused [of u d q v] by (cases "add_item u d q v") auto
    moreover have "journaled F v [] v (F - {u})" by (auto simp: journaled_def)
    ultimately show ?thesis using wf OpAdd by auto
  qed
next
  case (OpRemove s)
  with r have e: "remove_item s v = Inr (b, v')" by simp
  have "\<exists>ls. journaled F v ls v' F"
  proof (cases b)
    case False
    with remove_item_wf [OF wf e] show ?thesis using journaled_refl by blast
  next
    case True
    with e obtain k where g: "is_valid_slot s" "inventory_slots v ! nat s = Some k"
      "v' = extend_log [RemoveItemLog k]
           (v\<lparr>items := (items v)(k := None), inventory_slots := (inventory_slots v)[nat s := None]\<rparr>)"
      by (auto simp: remove_item_eq [OF wf] split: if_splits option.splits)
    have "items v k \<noteq> None"
      using wf_in_inventory(2) [OF wf _ g(2)] valid_slot_place [OF g(1)] by blast
    then have "journaled F v [RemoveItemLog k] v' F" by (simp add: journaled_def g(3))
    then show ?thesis by blast
  qed
  with remove_item_wf [OF wf e] OpRemove show ?thesis by simp
next
  case (OpStack d q)
  with r assms(2) have "0 \<le> q" "stack_item d q v = Inr (b, v')" by simp_all
  from stack_item_wf [OF wf this] stack_item_journaled [OF wf this] OpStack show ?thesis by simp
qed

lemma run_ops_journaled:
  assumes "inventory_wf v" and "ops_allowed ps F" and "\<forall>k \<in> F. items v k = None"
    and "run_ops ps v = Inr v'"
  shows "inventory_wf v' \<and> (\<exists>ls F'. journaled F v ls v' F')"
  using assms
proof (induction ps arbitrary: v F)
  case Nil
  then show ?case using journaled_refl [of F v] by auto
next
  case (Cons p ps)
  then obtain b v1 where p: "run_op p v = Inr (b, v1)" "run_ops ps v1 = Inr v'"
    by (auto simp: and_then_Inr_iff)
  with Cons.prems run_op_journaled obtain ls where
    wf1: "inventory_wf v1" and j: "journaled F v ls v1 (F - used_id p)"
    by (metis ops_allowed.simps(2))
  have "inventory_wf v' \<and> (\<exists>ks F'. journaled (F - used_id p) v1 ks v' F')"
    using Cons.IH [OF wf1 _ journaled_fresh [OF j Cons.prems(3)] p(2)] Cons.prems(2) by simp
  with journaled_trans [OF j] show ?case by blast
qed

lemma db_rep_fresh:
  assumes "db_rep cid (m, F) db"
  shows "\<forall>k \<in> F. m k = None"
proof
  fix k assume "k \<in> F"
  with assms have "item_rows db k = None" by (simp add: fresh_in_def)
  with assms show "m k = None" by (cases "m k") (auto simp: items_rep_def)
qed

lemma db_rep_subset: "db_rep cid (m, F) db \<Longrightarrow> G \<subseteq> F \<Longrightarrow> db_rep cid (m, G) db"
  by (auto simp: fresh_in_def)

lemma change_log_reproduces:
  assumes "inventory_wf v" and "itemLogs v = []" and "db_rep (characterId v) (items v, F) db"
    and "ops_allowed ps F" and "run_ops ps v = Inr v'"
  shows "inventory_wf v' \<and>
    (\<exists>F'. db_rep (characterId v) (items v', F') (sql_items_update (itemLogs v') db))"
proof -
  from run_ops_journaled [OF assms(1,4) db_rep_fresh [OF assms(3)] assms(5)] assms(2)
  obtain F' where wf: "inventory_wf v'" and j: "journaled F v (itemLogs v') v' F'"
    by (auto simp: journaled_def)
  obtain m G where a: "apply_entries apply_log (itemLogs v') (items v, F) = (m, G)" by fastforce
  from j item_log.journal_done [OF assms(3)] obtain db' where
    "exec_all (concat (map log_statements (itemLogs v'))) db = Some db'"
    "db_rep (characterId v) (m, G) db'"
    unfolding journaled_def a by (metis a)
  with j a wf show ?thesis by (auto simp: journaled_def items_update_ok)
qed

text \<open>
  C1: whatever sequence of equips, unequips, shifts, additions, removals and stackings a character's
  inventory goes through, replaying its change log with \<^verbatim>\<open>items_update\<close> brings the database
  from the old items to the new ones: every statement succeeds, every item has its row, every
  equipped item its one equipment row, and no row is left over.
\<close>

theorem change_log_reproduces_inventory:
  assumes "inventory_wf v" and "itemLogs v = []" and "db_rep (characterId v) (items v, F) db"
    and "ops_allowed ps F" and "run_ops ps v = Inr v'"
  shows "inventory_wf v' \<and>
    (\<exists>F'. db_rep (characterId v) (items v', F') (sql_items_update (itemLogs v') db))"
  using assms by (rule change_log_reproduces)

theorem change_log_reproduces_inventory_witness:
  "\<exists>v' F'. run_ops [OpAdd 7 2000001 12, OpStack 2000001 3, OpAdd 8 5 1, OpEquip 1 1, OpShift 0 4]
        (inventory_new\<lparr>characterId := 9\<rparr>) = Inr v'
     \<and> db_rep 9 (items v', F') (sql_items_update (itemLogs v')
           \<lparr>characters = {9}, item_rows = Map.empty, equipment_rows = []\<rparr>)"
proof -
  let ?v = "inventory_new\<lparr>characterId := 9\<rparr>"
    and ?db = "\<lparr>characters = {9 :: int}, item_rows = Map.empty, equipment_rows = []\<rparr>"
    and ?ps = "[OpAdd 7 2000001 12, OpStack 2000001 3, OpAdd 8 5 1, OpEquip 1 1, OpShift 0 4]"
  have at: "at_place ?v p = None" if "valid_place p" for p
    using that by (cases p; cases "fst p") (auto simp: inventory_new_def)
  have wf: "inventory_wf ?v"
    unfolding inventory_wf_def using at by (auto simp: inventory_new_def)
  have rep: "db_rep (characterId ?v) (items ?v, {7, 8}) ?db"
    by (auto simp: inventory_new_def items_rep_def equipment_rep_def fresh_in_def)
  have "\<not> isl (run_ops ?ps ?v)" by code_simp
  then obtain v' where "run_ops ?ps ?v = Inr v'" by (cases "run_ops ?ps ?v") auto
  with change_log_reproduces_inventory [OF wf _ rep _ this] show ?thesis
    by (simp add: inventory_new_def)
qed

text \<open>
  an error does not leave the database as it was. When the statement of one entry fails, the
  handler of \<^verbatim>\<open>items_update\<close> rolls back and the procedure goes on: the entries before the failing one
  are undone, those after it are executed and committed one by one.
\<close>

theorem items_update_continues_after_error:
  assumes "exec_all (concat (map log_statements before)) db = Some db1"
    and "exec_statement s db1 = None" and "log_statements l = [s]"
    and "exec_all (concat (map log_statements behind)) db = Some db2"
  shows "sql_items_update (before @ l # behind) db = db2"
proof -
  have "run_statements (concat (map log_statements before)) \<lparr>committed = db, working = db, in_transaction = True\<rparr>
      = \<lparr>committed = db, working = db1, in_transaction = True\<rparr>"
    using assms(1) by (simp add: run_statements_ok)
  then show ?thesis
    using assms(2-4) by (simp add: sql_items_update_def run_statements_append run_statements_autocommit)
qed

text \<open>Here a duplicate key undoes the removal before it, and the removal after it is committed.\<close>

theorem items_update_continues_after_error_witness:
  "\<exists>db db'. sql_items_update ([RemoveItemLog 1] @ AddItemLog 2 9 5 1 0 # [RemoveItemLog 3]) db = db'
     \<and> item_rows db 1 \<noteq> None \<and> item_rows db' 1 \<noteq> None \<and> item_rows db 3 \<noteq> None \<and> item_rows db' 3 = None"
proof -
  let ?r = "row_of 9 inventory_item_default"
  let ?db = "\<lparr>characters = {9 :: int}, item_rows = [1 \<mapsto> ?r, 2 \<mapsto> ?r, 3 \<mapsto> ?r], equipment_rows = []\<rparr>"
  let ?rm = "\<lambda>k. ?db\<lparr>item_rows := (item_rows ?db)(k := None)\<rparr>"
  have "sql_items_update ([RemoveItemLog 1] @ AddItemLog 2 9 5 1 0 # [RemoveItemLog 3]) ?db = ?rm 3"
    by (rule items_update_continues_after_error [where ?db1.0 = "?rm 1" and s = "InsertItem 2 9 5 1 0"]) simp_all
  then show ?thesis by (intro exI [of _ ?db] exI [of _ "?rm 3"]) simp
qed

subsection \<open>Loading what was saved\<close>

text \<open>
  \<^verbatim>\<open>characters_get\<close> selects the rows of one character, in an order of the server's choice; the
  repository hands them to \<^verbatim>\<open>InventoryComponent::Initialize\<close>.
\<close>

definition dto_of_row :: "int \<Rightarrow> item_row \<Rightarrow> dto_item" where
  "dto_of_row k r =
     \<lparr>dto_itemId = k, dto_itemDataId = row_data_id r, dto_quantity = row_quantity r, dto_slot = row_slot r,
      dto_attack = row_attack r, dto_defence = row_defence r, dto_str = row_str r, dto_dex = row_dex r,
      dto_intell = row_intell r\<rparr>"

definition dto_of_equipment :: "int \<times> int \<times> int \<Rightarrow> dto_equipment" where
  "dto_of_equipment r = \<lparr>dto_equip_itemId = fst (snd r), equipPosition = snd (snd r)\<rparr>"

definition characters_get :: "int \<Rightarrow> database \<Rightarrow> dto_item list \<Rightarrow> dto_equipment list \<Rightarrow> bool" where
  "characters_get cid db ds es \<longleftrightarrow>
     distinct (map dto_itemId ds)
     \<and> set ds = {dto_of_row k r | k r. item_rows db k = Some r \<and> row_cid r = cid}
     \<and> mset es = mset (map dto_of_equipment (filter (\<lambda>r. fst r = cid) (equipment_rows db)))"

definition loaded_item :: "dto_item \<Rightarrow> inventory_item" where
  "loaded_item dto = inventory_item_default
     \<lparr>itemId := dto_itemId dto, itemDataId := dto_itemDataId dto, quantity := dto_quantity dto,
      slot := (case dto_slot dto of None \<Rightarrow> -1 | Some s \<Rightarrow> s),
      attack := dto_attack dto, defence := dto_defence dto, str := dto_str dto,
      dex := dto_dex dto, intell := dto_intell dto\<rparr>"

text \<open>Items with distinct ids and distinct free slots are all taken over.\<close>

lemma load_items_eq:
  assumes "distinct (map dto_itemId ds)" and "length (inventory_slots v) = 30"
    and "\<forall>d \<in> set ds. items v (dto_itemId d) = None"
    and "\<forall>d \<in> set ds. \<forall>s. dto_slot d = Some s \<longrightarrow> is_valid_slot s \<and> inventory_slots v ! nat s = None"
    and "\<forall>d \<in> set ds. \<forall>e \<in> set ds. dto_slot d = dto_slot e \<longrightarrow> dto_slot d \<noteq> None \<longrightarrow> d = e"
  shows "\<exists>v'. load_items ds (b, v) = (b, v') \<and> length (inventory_slots v') = 30
     \<and> equipments v' = equipments v \<and> characterId v' = characterId v \<and> itemLogs v' = itemLogs v
     \<and> (\<forall>k. items v' k = (case map_of (map (\<lambda>d. (dto_itemId d, loaded_item d)) ds) k of
                              None \<Rightarrow> items v k | Some it \<Rightarrow> Some it))
     \<and> (\<forall>n < 30. \<forall>k. inventory_slots v' ! n = Some k \<longleftrightarrow>
           inventory_slots v ! n = Some k
           \<or> (\<exists>d \<in> set ds. dto_slot d = Some (int n) \<and> dto_itemId d = k))"
  using assms
proof (induction ds arbitrary: v b)
  case Nil
  then show ?case by simp
next
  case (Cons d ds)
  let ?k = "dto_itemId d"
  let ?slots = "case dto_slot d of None \<Rightarrow> inventory_slots v | Some s \<Rightarrow> (inventory_slots v)[nat s := Some ?k]"
  let ?v = "v\<lparr>items := (items v)(?k \<mapsto> loaded_item d), inventory_slots := ?slots\<rparr>"
  have d: "load_item d v = (True, ?v)"
    using Cons.prems(3,4)
    by (cases "dto_slot d") (auto simp: load_item_def add_inventory_def loaded_item_def Let_def)
  have slots: "?slots ! n = (if dto_slot d = Some (int n) then Some ?k else inventory_slots v ! n)" if "n < 30" for n
    using Cons.prems(2,4) that
    by (cases "dto_slot d") (auto simp: is_valid_slot_def inventory_size_def nth_list_update)
  have other: "dto_slot e \<noteq> dto_slot d" if "e \<in> set ds" "dto_slot e \<noteq> None" for e
  proof
    assume "dto_slot e = dto_slot d"
    with that Cons.prems(5) have "e = d" by (metis list.set_intros(1,2))
    with that(1) Cons.prems(1) show False by auto
  qed
  have free: "is_valid_slot s \<and> ?slots ! nat s = None" if "e \<in> set ds" "dto_slot e = Some s" for e s
  proof -
    from that Cons.prems(4) have s: "is_valid_slot s" "inventory_slots v ! nat s = None" by auto
    then have "nat s < 30" "int (nat s) = s" using valid_slot_place [of s] by auto
    with slots [of "nat s"] other [of e] that s show ?thesis by auto
  qed
  have "\<exists>v'. load_items ds (b, ?v) = (b, v') \<and> length (inventory_slots v') = 30
     \<and> equipments v' = equipments ?v \<and> characterId v' = characterId ?v \<and> itemLogs v' = itemLogs ?v
     \<and> (\<forall>k. items v' k = (case map_of (map (\<lambda>d. (dto_itemId d, loaded_item d)) ds) k of
                              None \<Rightarrow> items ?v k | Some it \<Rightarrow> Some it))
     \<and> (\<forall>n < 30. \<forall>k. inventory_slots v' ! n = Some k \<longleftrightarrow>
           inventory_slots ?v ! n = Some k
           \<or> (\<exists>d \<in> set ds. dto_slot d = Some (int n) \<and> dto_itemId d = k))"
  proof (rule Cons.IH)
    show "distinct (map dto_itemId ds)" using Cons.prems(1) by simp
    show "length (inventory_slots ?v) = 30" using Cons.prems(2) by (simp split: option.split)
    show "\<forall>e \<in> set ds. items ?v (dto_itemId e) = None"
    proof
      fix e assume e: "e \<in> set ds"
      then have "dto_itemId e \<noteq> ?k"
        using Cons.prems(1) by (metis distinct.simps(2) image_eqI list.set_map list.simps(9))
      with e Cons.prems(3) show "items ?v (dto_itemId e) = None" by simp
    qed
    show "\<forall>e \<in> set ds. \<forall>s. dto_slot e = Some s \<longrightarrow> is_valid_slot s \<and> inventory_slots ?v ! nat s = None"
      using free by simp
    show "\<forall>d \<in> set ds. \<forall>e \<in> set ds. dto_slot d = dto_slot e \<longrightarrow> dto_slot d \<noteq> None \<longrightarrow> d = e"
      using Cons.prems(5) by auto
  qed
  then obtain v' where v': "load_items ds (b, ?v) = (b, v')" "length (inventory_slots v') = 30"
     "equipments v' = equipments v" "characterId v' = characterId v" "itemLogs v' = itemLogs v"
     "\<forall>k. items v' k = (case map_of (map (\<lambda>d. (dto_itemId d, loaded_item d)) ds) k of
                              None \<Rightarrow> items ?v k | Some it \<Rightarrow> Some it)"
     "\<forall>n < 30. \<forall>k. inventory_slots v' ! n = Some k \<longleftrightarrow> ?slots ! n = Some k
           \<or> (\<exists>d \<in> set ds. dto_slot d = Some (int n) \<and> dto_itemId d = k)"
    by auto
  have "map_of (map (\<lambda>d. (dto_itemId d, loaded_item d)) ds) ?k = None"
    using Cons.prems(1) by (auto simp: map_of_eq_None_iff)
  then have itm: "items v' k = (case map_of (map (\<lambda>d. (dto_itemId d, loaded_item d)) (d # ds)) k of
                              None \<Rightarrow> items v k | Some it \<Rightarrow> Some it)" for k
    using v'(6) by (auto split: option.split)
  have "inventory_slots v' ! n = Some k \<longleftrightarrow> inventory_slots v ! n = Some k
           \<or> (\<exists>e \<in> set (d # ds). dto_slot e = Some (int n) \<and> dto_itemId e = k)" if n: "n < 30" for n k
  proof -
    have "inventory_slots v ! n = None" if "dto_slot d = Some (int n)"
      using Cons.prems(4) that by fastforce
    then show ?thesis using v'(7) n slots [OF n] by auto
  qed
  with itm v'(1-5) d show ?case by simp
qed

lemma load_equipments_eq:
  assumes "distinct (map dto_equip_itemId es)" and "length (equipments v) = 4"
    and "\<forall>e \<in> set es. items v (dto_equip_itemId e) \<noteq> None"
    and "\<forall>e \<in> set es. 0 \<le> equipPosition e \<and> equipPosition e < 4 \<and> equipments v ! nat (equipPosition e) = None"
    and "distinct (map equipPosition es)"
  shows "\<exists>v'. load_equipments es (b, v) = Inr (b, v') \<and> length (equipments v') = 4
     \<and> inventory_slots v' = inventory_slots v \<and> characterId v' = characterId v \<and> itemLogs v' = itemLogs v
     \<and> (\<forall>k. items v' k = (case map_of (map (\<lambda>e. (dto_equip_itemId e, equipPosition e)) es) k of
                              None \<Rightarrow> items v k
                            | Some p \<Rightarrow> map_option (set_position p SlotEquipment) (items v k)))
     \<and> (\<forall>n < 4. \<forall>k. equipments v' ! n = Some k \<longleftrightarrow>
           equipments v ! n = Some k
           \<or> (\<exists>e \<in> set es. equipPosition e = int n \<and> dto_equip_itemId e = k))"
  using assms
proof (induction es arbitrary: v b)
  case Nil
  then show ?case by simp
next
  case (Cons e es)
  let ?k = "dto_equip_itemId e" and ?p = "equipPosition e"
  let ?v = "v\<lparr>items := (items v)(?k := map_option (set_position ?p SlotEquipment) (items v ?k)),
              equipments := (equipments v)[nat ?p := Some ?k]\<rparr>"
  have p: "0 \<le> ?p" "?p < 4" "equipments v ! nat ?p = None" using Cons.prems(4) by auto
  have "is_valid_equip_position ?p" using p(1,2) by (auto simp: is_valid_equip_position_def)
  then have e: "load_equipment e v = Inr (True, ?v)"
    using Cons.prems(2,3) p by (auto simp: load_equipment_def add_equipment_def)
  have "\<exists>v'. load_equipments es (b, ?v) = Inr (b, v') \<and> length (equipments v') = 4
     \<and> inventory_slots v' = inventory_slots ?v \<and> characterId v' = characterId ?v \<and> itemLogs v' = itemLogs ?v
     \<and> (\<forall>k. items v' k = (case map_of (map (\<lambda>e. (dto_equip_itemId e, equipPosition e)) es) k of
                              None \<Rightarrow> items ?v k
                            | Some p \<Rightarrow> map_option (set_position p SlotEquipment) (items ?v k)))
     \<and> (\<forall>n < 4. \<forall>k. equipments v' ! n = Some k \<longleftrightarrow>
           equipments ?v ! n = Some k
           \<or> (\<exists>e \<in> set es. equipPosition e = int n \<and> dto_equip_itemId e = k))"
  proof (rule Cons.IH)
    show "\<forall>f \<in> set es. 0 \<le> equipPosition f \<and> equipPosition f < 4 \<and> equipments ?v ! nat (equipPosition f) = None"
    proof
      fix f assume f: "f \<in> set es"
      with Cons.prems(4) have q: "0 \<le> equipPosition f" "equipPosition f < 4"
        "equipments v ! nat (equipPosition f) = None" by auto
      have "equipPosition f \<noteq> ?p" using f Cons.prems(5) by (metis distinct.simps(2) image_eqI list.set_map list.simps(9))
      then have "nat (equipPosition f) \<noteq> nat ?p" using p(1) q(1) by simp
      with q show "0 \<le> equipPosition f \<and> equipPosition f < 4 \<and> equipments ?v ! nat (equipPosition f) = None"
        by simp
    qed
  qed (use Cons.prems in auto)
  then obtain v' where v': "load_equipments es (b, ?v) = Inr (b, v')" "length (equipments v') = 4"
     "inventory_slots v' = inventory_slots v" "characterId v' = characterId v" "itemLogs v' = itemLogs v"
     "\<And>k. items v' k = (case map_of (map (\<lambda>e. (dto_equip_itemId e, equipPosition e)) es) k of
                              None \<Rightarrow> items ?v k
                            | Some p \<Rightarrow> map_option (set_position p SlotEquipment) (items ?v k))"
     "\<And>n k. n < 4 \<Longrightarrow> equipments v' ! n = Some k \<longleftrightarrow> equipments ?v ! n = Some k
           \<or> (\<exists>e \<in> set es. equipPosition e = int n \<and> dto_equip_itemId e = k)"
    by auto
  have "map_of (map (\<lambda>e. (dto_equip_itemId e, equipPosition e)) es) ?k = None"
    using Cons.prems(1) by (auto simp: map_of_eq_None_iff)
  then have itm: "items v' k = (case map_of (map (\<lambda>e. (dto_equip_itemId e, equipPosition e)) (e # es)) k of
                              None \<Rightarrow> items v k
                            | Some p \<Rightarrow> map_option (set_position p SlotEquipment) (items v k))" for k
    using v'(6) [of k] by (cases "k = ?k") (auto split: option.split)
  have "equipments v' ! n = Some k \<longleftrightarrow> equipments v ! n = Some k
           \<or> (\<exists>f \<in> set (e # es). equipPosition f = int n \<and> dto_equip_itemId f = k)" if n: "n < 4" for n k
  proof (cases "n = nat ?p")
    case True
    with p Cons.prems(2) show ?thesis unfolding v'(7) [OF n] by auto
  next
    case False
    with p(1) have "?p \<noteq> int n" by auto
    with False show ?thesis unfolding v'(7) [OF n] by auto
  qed
  with itm v'(1-5) e show ?case by simp
qed

lemma option_list_eqI:
  assumes "length xs = length ys"
    and "\<And>n k. n < length ys \<Longrightarrow> xs ! n = Some k \<longleftrightarrow> ys ! n = Some k"
  shows "xs = ys"
proof (rule nth_equalityI [OF assms(1)])
  fix n assume "n < length xs"
  then have "\<And>k. xs ! n = Some k \<longleftrightarrow> ys ! n = Some k" using assms by simp
  then show "xs ! n = ys ! n" by (metis not_None_eq)
qed

text \<open>Where an item of a well-formed inventory is, by what it records.\<close>

lemma wf_item_place:
  assumes wf: "inventory_wf v" and it: "items v k = Some it"
  shows "slotType it = SlotInventory \<Longrightarrow> slot it = -1 \<or> (\<exists>n < 30. slot it = int n \<and> inventory_slots v ! n = Some k)"
    and "slotType it = SlotEquipment \<Longrightarrow> \<exists>n < 4. slot it = int n \<and> equipments v ! n = Some k"
proof -
  have "(slotType it = SlotInventory \<and> slot it = -1) \<or> (\<exists>p. valid_place p \<and> at_place v p = Some k \<and> recorded_at it p)"
  proof (cases "\<exists>p. valid_place p \<and> at_place v p = Some k")
    case True
    then obtain p where p: "valid_place p" "at_place v p = Some k" by blast
    from inventory_wf_at [OF wf this] it have "recorded_at it p" by auto
    with p show ?thesis by blast
  next
    case False
    from inventory_wf_unplaced [OF wf it False] show ?thesis by blast
  qed
  then show "slotType it = SlotInventory \<Longrightarrow> slot it = -1 \<or> (\<exists>n < 30. slot it = int n \<and> inventory_slots v ! n = Some k)"
    and "slotType it = SlotEquipment \<Longrightarrow> \<exists>n < 4. slot it = int n \<and> equipments v ! n = Some k"
    by (auto simp: recorded_at_def)
qed

text \<open>What the first loop of \<^verbatim>\<open>Initialize\<close> makes of a saved item.\<close>

lemma loaded_row_of:
  "itemId it = k \<Longrightarrow> loaded_item (dto_of_row k (row_of cid it)) =
     set_position (if slotType it = SlotInventory \<and> 0 \<le> slot it then slot it else -1) SlotInventory it"
  by (simp add: loaded_item_def dto_of_row_def row_of_def set_position_def inventory_item_default_def)

lemma distinct_equipment:
  assumes wf: "inventory_wf v" and er: "equipment_rep cid (items v) rows"
    and es: "mset es = mset (map dto_of_equipment (filter (\<lambda>r. fst r = cid) rows))"
  shows "distinct (map dto_equip_itemId es)" and "distinct (map equipPosition es)"
proof -
  let ?eq = "filter (\<lambda>r. fst r = cid) rows"
  have eqs: "\<exists>it. items v k = Some it \<and> slotType it = SlotEquipment \<and> slot it = p" if "(cid, k, p) \<in> set rows" for k p
    using er that by (simp add: equipment_rep_def)
  have id: "inj_on (\<lambda>r. dto_equip_itemId (dto_of_equipment r)) (set ?eq)"
  proof (rule inj_onI, goal_cases)
    case (1 x y)
    obtain c k p where x: "x = (c, k, p)" by (cases x)
    obtain c' k' p' where y: "y = (c', k', p')" by (cases y)
    from 1 x y have "k' = k" and c: "c = cid" "c' = cid" by (simp_all add: dto_of_equipment_def)
    with eqs [of k p] eqs [of k p'] 1 x y have "p = p'" by auto
    with x y c \<open>k' = k\<close> show ?case by simp
  qed
  have pos: "inj_on (\<lambda>r. equipPosition (dto_of_equipment r)) (set ?eq)"
  proof (rule inj_onI, goal_cases)
    case (1 x y)
    obtain c k p where x: "x = (c, k, p)" by (cases x)
    obtain c' k' p' where y: "y = (c', k', p')" by (cases y)
    from 1 x y have p: "p' = p" and c: "c = cid" "c' = cid" by (simp_all add: dto_of_equipment_def)
    from eqs [of k p] eqs [of k' p] 1 x y p c obtain it it' where
      "items v k = Some it" "slotType it = SlotEquipment" "slot it = p"
      "items v k' = Some it'" "slotType it' = SlotEquipment" "slot it' = p" by auto
    with wf_item_place(2) [OF wf, of k it] wf_item_place(2) [OF wf, of k' it'] have "k = k'" by auto
    with x y p c show ?case by simp
  qed
  have d: "distinct ?eq" using er by (simp add: equipment_rep_def)
  have "distinct (map dto_equip_itemId (map dto_of_equipment ?eq))"
    and "distinct (map equipPosition (map dto_of_equipment ?eq))"
    using d id pos by (simp_all add: distinct_map comp_def)
  moreover have "mset (map f es) = mset (map f (map dto_of_equipment ?eq))" for f :: "dto_equipment \<Rightarrow> int"
    using arg_cong [OF es, of "image_mset f"] by (simp add: image_mset.compositionality)
  ultimately show "distinct (map dto_equip_itemId es)" and "distinct (map equipPosition es)"
    by (metis mset_eq_imp_distinct_iff)+
qed

text \<open>The rows the two queries of \<^verbatim>\<open>characters_get\<close> select for a saved inventory.\<close>

definition rows_of_items :: "int \<Rightarrow> (int \<rightharpoonup> inventory_item) \<Rightarrow> dto_item list \<Rightarrow> bool" where
  "rows_of_items cid m ds \<longleftrightarrow> distinct (map dto_itemId ds)
     \<and> (\<forall>d. d \<in> set ds \<longleftrightarrow> (\<exists>k it. m k = Some it \<and> d = dto_of_row k (row_of cid it)))"

definition rows_of_equipment :: "(int \<rightharpoonup> inventory_item) \<Rightarrow> dto_equipment list \<Rightarrow> bool" where
  "rows_of_equipment m es \<longleftrightarrow> distinct (map dto_equip_itemId es) \<and> distinct (map equipPosition es)
     \<and> (\<forall>e. e \<in> set es \<longleftrightarrow> (\<exists>k it. m k = Some it \<and> slotType it = SlotEquipment
          \<and> e = \<lparr>dto_equip_itemId = k, equipPosition = slot it\<rparr>))"

lemma characters_get_rows:
  assumes wf: "inventory_wf v" and rep: "db_rep cid (items v, F) db" and get: "characters_get cid db ds es"
  shows "rows_of_items cid (items v) ds" and "rows_of_equipment (items v) es"
proof -
  have ir: "items_rep cid (items v) (item_rows db)" and er: "equipment_rep cid (items v) (equipment_rows db)"
    using rep by simp_all
  have "(item_rows db k = Some r \<and> row_cid r = cid) \<longleftrightarrow> (\<exists>it. items v k = Some it \<and> r = row_of cid it)" for k r
    using ir unfolding items_rep_def by (cases "items v k") (auto simp: row_of_def)
  moreover have "d \<in> set ds \<longleftrightarrow> (\<exists>k r. (item_rows db k = Some r \<and> row_cid r = cid) \<and> d = dto_of_row k r)" for d
    using get unfolding characters_get_def by blast
  ultimately have "d \<in> set ds \<longleftrightarrow> (\<exists>k it. items v k = Some it \<and> d = dto_of_row k (row_of cid it))" for d
    by metis
  with get show "rows_of_items cid (items v) ds" by (simp add: rows_of_items_def characters_get_def)
  let ?eq = "filter (\<lambda>r. fst r = cid) (equipment_rows db)"
  have es: "mset es = mset (map dto_of_equipment ?eq)" using get by (simp add: characters_get_def)
  have "(c, k, p) \<in> set ?eq \<longleftrightarrow> c = cid \<and> (\<exists>it. items v k = Some it \<and> slotType it = SlotEquipment \<and> slot it = p)" for c k p
    using er by (auto simp: equipment_rep_def)
  moreover have "set es = dto_of_equipment ` set ?eq" using mset_eq_setD [OF es] by simp
  ultimately have "e \<in> set es \<longleftrightarrow> (\<exists>k it. items v k = Some it \<and> slotType it = SlotEquipment
      \<and> e = \<lparr>dto_equip_itemId = k, equipPosition = slot it\<rparr>)" for e
    by (force simp: dto_of_equipment_def image_iff)
  with distinct_equipment [OF wf er es] show "rows_of_equipment (items v) es"
    by (simp add: rows_of_equipment_def)
qed

definition unplaced :: "inventory_item \<Rightarrow> inventory_item" where
  "unplaced it = set_position (if slotType it = SlotInventory \<and> 0 \<le> slot it then slot it else -1) SlotInventory it"

lemma load_items_saved:
  assumes wf: "inventory_wf v" and rows: "rows_of_items cid (items v) ds"
  shows "\<exists>v1. load_items ds (True, inventory_new\<lparr>characterId := cid\<rparr>) = (True, v1)
    \<and> inventory_slots v1 = inventory_slots v \<and> equipments v1 = replicate 4 None \<and> characterId v1 = cid
    \<and> (\<forall>k. items v1 k = map_option unplaced (items v k))"
proof -
  note place = wf_item_place [OF wf] and id = inventory_wf_id [OF wf]
  have ids: "distinct (map dto_itemId ds)"
    and ds: "\<And>d. d \<in> set ds \<longleftrightarrow> (\<exists>k it. items v k = Some it \<and> d = dto_of_row k (row_of cid it))"
    using rows by (simp_all add: rows_of_items_def)
  have ds_ex: "(\<exists>d \<in> set ds. P d) \<longleftrightarrow> (\<exists>k it. items v k = Some it \<and> P (dto_of_row k (row_of cid it)))" for P
    using ds by metis
  let ?v0 = "inventory_new\<lparr>characterId := cid\<rparr>"
  have dslot: "dto_slot (dto_of_row k (row_of cid it)) =
      (if slotType it = SlotInventory \<and> 0 \<le> slot it then Some (slot it) else None)" for k it
    by (simp add: dto_of_row_def row_of_def)
  have did: "dto_itemId (dto_of_row k r) = k" for k r by (simp add: dto_of_row_def)
  have dslot_iff: "dto_slot (dto_of_row k (row_of cid it)) = Some (int n) \<longleftrightarrow>
      slotType it = SlotInventory \<and> slot it = int n" for k it n
    unfolding dslot by (cases "slotType it"; cases "0 \<le> slot it") simp_all
  have at: "\<exists>k it n. items v k = Some it \<and> d = dto_of_row k (row_of cid it) \<and> n < 30 \<and> s = int n
      \<and> inventory_slots v ! n = Some k" if "d \<in> set ds" "dto_slot d = Some s" for d s
    using that place(1) unfolding ds by (fastforce simp: dslot split: if_splits)
  have "\<exists>v1. load_items ds (True, ?v0) = (True, v1) \<and> length (inventory_slots v1) = 30
     \<and> equipments v1 = equipments ?v0 \<and> characterId v1 = characterId ?v0 \<and> itemLogs v1 = itemLogs ?v0
     \<and> (\<forall>k. items v1 k = (case map_of (map (\<lambda>d. (dto_itemId d, loaded_item d)) ds) k of
                              None \<Rightarrow> items ?v0 k | Some it \<Rightarrow> Some it))
     \<and> (\<forall>n < 30. \<forall>k. inventory_slots v1 ! n = Some k \<longleftrightarrow>
           inventory_slots ?v0 ! n = Some k
           \<or> (\<exists>d \<in> set ds. dto_slot d = Some (int n) \<and> dto_itemId d = k))"
  proof (rule load_items_eq [OF ids])
    show "\<forall>d \<in> set ds. \<forall>s. dto_slot d = Some s \<longrightarrow> is_valid_slot s \<and> inventory_slots ?v0 ! nat s = None"
      using at by (fastforce simp: is_valid_slot_def inventory_size_def inventory_new_def)
    show "\<forall>d \<in> set ds. \<forall>e \<in> set ds. dto_slot d = dto_slot e \<longrightarrow> dto_slot d \<noteq> None \<longrightarrow> d = e"
      using at by (metis not_None_eq of_nat_eq_iff option.inject)
  qed (simp_all add: inventory_new_def)
  then obtain v1 where v1: "load_items ds (True, ?v0) = (True, v1)" "length (inventory_slots v1) = 30"
     "equipments v1 = replicate 4 None" "characterId v1 = cid"
     "\<And>k. items v1 k = (case map_of (map (\<lambda>d. (dto_itemId d, loaded_item d)) ds) k of
                              None \<Rightarrow> None | Some it \<Rightarrow> Some it)"
     "\<And>n k. n < 30 \<Longrightarrow> inventory_slots v1 ! n = Some k \<longleftrightarrow>
        (\<exists>d \<in> set ds. dto_slot d = Some (int n) \<and> dto_itemId d = k)"
    by (auto simp: inventory_new_def cong: option.case_cong)
  have "items v1 k = map_option unplaced (items v k)" for k
  proof (cases "items v k")
    case None
    then have "k \<notin> dto_itemId ` set ds" using ds did by auto
    then have "map_of (map (\<lambda>d. (dto_itemId d, loaded_item d)) ds) k = None"
      by (auto simp: map_of_eq_None_iff image_image)
    with None show ?thesis by (simp add: v1(5))
  next
    case (Some it)
    then have "dto_of_row k (row_of cid it) \<in> set ds" using ds by blast
    then have "map_of (map (\<lambda>d. (dto_itemId d, loaded_item d)) ds) k = Some (loaded_item (dto_of_row k (row_of cid it)))"
      using ids by (intro map_of_is_SomeI) (auto simp: comp_def did image_iff intro!: bexI)
    with Some loaded_row_of [OF id [OF Some]] show ?thesis by (simp add: v1(5) unplaced_def)
  qed
  moreover have "inventory_slots v1 = inventory_slots v"
  proof (rule option_list_eqI)
    show "length (inventory_slots v1) = length (inventory_slots v)" using wf v1(2) by simp
    fix n k assume "n < length (inventory_slots v)"
    with wf have n: "n < 30" by simp
    have "inventory_slots v1 ! n = Some k \<longleftrightarrow>
        (\<exists>it. items v k = Some it \<and> slotType it = SlotInventory \<and> slot it = int n)"
      unfolding v1(6) [OF n] ds_ex did dslot_iff by blast
    also have "\<dots> \<longleftrightarrow> inventory_slots v ! n = Some k"
      using place(1) [of k] inventory_wf_at [OF wf, of "(SlotInventory, n)" k] n
      by (fastforce simp: recorded_at_def)
    finally show "inventory_slots v1 ! n = Some k \<longleftrightarrow> inventory_slots v ! n = Some k" .
  qed
  ultimately show ?thesis using v1(1,3,4) by blast
qed

lemma load_equipments_saved:
  assumes wf: "inventory_wf v" and rows: "rows_of_equipment (items v) es"
    and items1: "\<And>k. items v1 k = map_option unplaced (items v k)" and none: "equipments v1 = replicate 4 None"
  shows "\<exists>v2. load_equipments es (True, v1) = Inr (True, v2) \<and> items v2 = items v
    \<and> inventory_slots v2 = inventory_slots v1 \<and> equipments v2 = equipments v \<and> characterId v2 = characterId v1"
proof -
  note place = wf_item_place [OF wf]
  have es_distinct: "distinct (map dto_equip_itemId es)" "distinct (map equipPosition es)"
    and es: "\<And>e. e \<in> set es \<longleftrightarrow> (\<exists>k it. items v k = Some it \<and> slotType it = SlotEquipment
          \<and> e = \<lparr>dto_equip_itemId = k, equipPosition = slot it\<rparr>)"
    using rows by (simp_all add: rows_of_equipment_def)
  have es_ex: "(\<exists>e \<in> set es. P e) \<longleftrightarrow> (\<exists>k it. items v k = Some it \<and> slotType it = SlotEquipment
      \<and> P \<lparr>dto_equip_itemId = k, equipPosition = slot it\<rparr>)" for P
    using es by metis
  have "\<exists>v2. load_equipments es (True, v1) = Inr (True, v2) \<and> length (equipments v2) = 4
     \<and> inventory_slots v2 = inventory_slots v1 \<and> characterId v2 = characterId v1 \<and> itemLogs v2 = itemLogs v1
     \<and> (\<forall>k. items v2 k = (case map_of (map (\<lambda>e. (dto_equip_itemId e, equipPosition e)) es) k of
                              None \<Rightarrow> items v1 k
                            | Some p \<Rightarrow> map_option (set_position p SlotEquipment) (items v1 k)))
     \<and> (\<forall>n < 4. \<forall>k. equipments v2 ! n = Some k \<longleftrightarrow>
           equipments v1 ! n = Some k
           \<or> (\<exists>e \<in> set es. equipPosition e = int n \<and> dto_equip_itemId e = k))"
  proof (rule load_equipments_eq [OF es_distinct(1) _ _ _ es_distinct(2)])
    show "\<forall>e \<in> set es. items v1 (dto_equip_itemId e) \<noteq> None"
      by (auto simp: items1 es)
    show "\<forall>e \<in> set es. 0 \<le> equipPosition e \<and> equipPosition e < 4 \<and> equipments v1 ! nat (equipPosition e) = None"
      using place(2) by (fastforce simp: none es)
  qed (simp add: none)
  then obtain v2 where v2: "load_equipments es (True, v1) = Inr (True, v2)" "length (equipments v2) = 4"
     "inventory_slots v2 = inventory_slots v1" "characterId v2 = characterId v1"
     "\<And>k. items v2 k = (case map_of (map (\<lambda>e. (dto_equip_itemId e, equipPosition e)) es) k of
                              None \<Rightarrow> items v1 k
                            | Some p \<Rightarrow> map_option (set_position p SlotEquipment) (items v1 k))"
     "\<And>n k. n < 4 \<Longrightarrow> equipments v2 ! n = Some k \<longleftrightarrow>
        (\<exists>e \<in> set es. equipPosition e = int n \<and> dto_equip_itemId e = k)"
    by (auto simp: none)
  have "items v2 k = items v k" for k
  proof (cases "items v k")
    case None
    then show ?thesis by (simp add: v2(5) items1 split: option.split)
  next
    case (Some it)
    show ?thesis
    proof (cases "slotType it")
      case SlotInventory
      with Some have "k \<notin> dto_equip_itemId ` set es" using es by auto
      then have "map_of (map (\<lambda>e. (dto_equip_itemId e, equipPosition e)) es) k = None"
        by (auto simp: map_of_eq_None_iff image_image)
      with Some SlotInventory place(1) [OF Some] show ?thesis
        by (auto simp: v2(5) items1 set_position_def unplaced_def)
    next
      case SlotEquipment
      with Some have "\<lparr>dto_equip_itemId = k, equipPosition = slot it\<rparr> \<in> set es" using es by auto
      then have "map_of (map (\<lambda>e. (dto_equip_itemId e, equipPosition e)) es) k = Some (slot it)"
        using es_distinct(1) by (intro map_of_is_SomeI) (force simp: comp_def image_iff)+
      with Some SlotEquipment show ?thesis by (simp add: v2(5) items1 set_position_def unplaced_def)
    qed
  qed
  moreover have "equipments v2 = equipments v"
  proof (rule option_list_eqI)
    show "length (equipments v2) = length (equipments v)" using wf v2(2) by simp
    fix n k assume "n < length (equipments v)"
    with wf have n: "n < 4" by simp
    have "equipments v2 ! n = Some k \<longleftrightarrow>
        (\<exists>it. items v k = Some it \<and> slotType it = SlotEquipment \<and> slot it = int n)"
      unfolding v2(6) [OF n] es_ex by auto
    also have "\<dots> \<longleftrightarrow> equipments v ! n = Some k"
      using place(2) [of k] inventory_wf_at [OF wf, of "(SlotEquipment, n)" k] n
      by (fastforce simp: recorded_at_def)
    finally show "equipments v2 ! n = Some k \<longleftrightarrow> equipments v ! n = Some k" .
  qed
  ultimately show ?thesis using v2(1,3,4) by blast
qed

text \<open>
  C27: a character that is loaded from the database has the inventory that was saved: \<^verbatim>\<open>Initialize\<close>
  accepts the rows \<^verbatim>\<open>characters_get\<close> selects, in any order, and every item is back in its slot or its
  equipment position with its quantity and statistics.
\<close>

theorem load_saved_inventory:
  assumes wf: "inventory_wf v" and rep: "db_rep cid (items v, F) db" and get: "characters_get cid db ds es"
  shows "\<exists>v'. initialize cid ds es inventory_new = Inr (True, v') \<and> characterId v' = cid
    \<and> items v' = items v \<and> inventory_slots v' = inventory_slots v \<and> equipments v' = equipments v"
proof -
  note rows = characters_get_rows [OF assms]
  obtain v1 where v1: "load_items ds (True, inventory_new\<lparr>characterId := cid\<rparr>) = (True, v1)"
    "inventory_slots v1 = inventory_slots v" "equipments v1 = replicate 4 None" "characterId v1 = cid"
    "\<And>k. items v1 k = map_option unplaced (items v k)"
    using load_items_saved [OF wf rows(1)] by blast
  with load_equipments_saved [OF wf rows(2) v1(5,3)] show ?thesis by (auto simp: initialize_def)
qed

lemma inventory_new_wf: "inventory_wf (inventory_new\<lparr>characterId := c\<rparr>)"
proof -
  have "at_place (inventory_new\<lparr>characterId := c\<rparr>) p = None" if "valid_place p" for p
    using that by (cases p; cases "fst p") (auto simp: inventory_new_def)
  then show ?thesis unfolding inventory_wf_def by (auto simp: inventory_new_def)
qed

text \<open>A sample: one item, number 7, in the first slot of character 9, and the database that holds it.\<close>

definition sample_inventory :: inventory where
  "sample_inventory = clear_change_logs (snd (add_item 7 5 1 (inventory_new\<lparr>characterId := 9\<rparr>)))"

definition sample_database :: database where
  "sample_database =
     \<lparr>characters = {9}, item_rows = [7 \<mapsto> row_of 9 (new_item 7 5 1 0)], equipment_rows = []\<rparr>"

lemma sample_eq:
  "sample_inventory = inventory_new\<lparr>characterId := 9, items := [7 \<mapsto> new_item 7 5 1 0],
     inventory_slots := (replicate 30 None)[0 := Some 7]\<rparr>"
  by (simp add: sample_inventory_def clear_change_logs_def add_item_def inventory_new_def log_defs
      new_item_def Let_def numeral_eq_Suc)

lemma sample_facts:
  "inventory_wf sample_inventory" "itemLogs sample_inventory = []" "characterId sample_inventory = 9"
  "db_rep 9 (items sample_inventory, {8}) sample_database"
proof -
  have "add_item 7 5 1 (inventory_new\<lparr>characterId := 9\<rparr>) = (True, snd (add_item 7 5 1 (inventory_new\<lparr>characterId := 9\<rparr>)))"
    by (simp add: add_item_def inventory_new_def Let_def numeral_eq_Suc)
  from add_item_wf [OF inventory_new_wf _ this] show "inventory_wf sample_inventory"
    by (simp add: sample_inventory_def clear_change_logs_def inventory_new_def)
  show "itemLogs sample_inventory = []" and "characterId sample_inventory = 9"
    by (simp_all add: sample_eq inventory_new_def)
  show "db_rep 9 (items sample_inventory, {8}) sample_database"
    by (auto simp: sample_eq sample_database_def items_rep_def equipment_rep_def fresh_in_def new_item_def
        inventory_item_default_def)
qed

theorem load_saved_inventory_witness:
  "\<exists>(v' :: inventory) ds es. characters_get 9 sample_database ds es
     \<and> initialize 9 ds es inventory_new = Inr (True, v') \<and> items v' = items sample_inventory
     \<and> inventory_slots v' = inventory_slots sample_inventory \<and> inventory_slots v' ! 0 = Some 7"
proof -
  have "characters_get 9 sample_database [dto_of_row 7 (row_of 9 (new_item 7 5 1 0))] []"
    by (auto simp: characters_get_def row_of_def sample_database_def)
  moreover have "inventory_slots sample_inventory ! 0 = Some 7" by (simp add: sample_eq)
  ultimately show ?thesis using load_saved_inventory [OF sample_facts(1,4)] by metis
qed

end
