(* ===== verification/ItemTasks.thy ===== *)
theory ItemTasks
  imports ItemDatabase
begin

text \<open>
  The two game tasks that change inventories: \<^verbatim>\<open>task/impl/player_item_swap.cpp\<close>, a client's request to
  move an item, and \<^verbatim>\<open>task/impl/player_item_change.cpp\<close>, items added to and removed from players by
  the game. Each hands the change log to the repository as a transaction.
\<close>

record inventory_transaction =
  transaction_characterId :: int
  transaction_logs :: "change_log list"

definition transaction_new :: "int \<Rightarrow> inventory_transaction" where
  "transaction_new cid = \<lparr>transaction_characterId = cid, transaction_logs = []\<rparr>"

definition insert_range :: "change_log list \<Rightarrow> inventory_transaction \<Rightarrow> inventory_transaction" where
  "insert_range ls t = t\<lparr>transaction_logs := transaction_logs t @ ls\<rparr>"

subsection \<open>Swapping items\<close>

record swap_param =
  destEquipped :: bool
  destPosition :: int
  srcEquipped :: bool
  srcPosition :: int

text \<open>What the task keeps for \<^verbatim>\<open>OnComplete\<close>: the packet it sends and the equipment change it announces.\<close>

record swap_task =
  sync_srcEquipment :: bool
  sync_destEquipment :: bool
  sync_srcItem :: "inventory_item option"
  sync_destItem :: "inventory_item option"
  equip_position :: "int option"
  newEquipment :: "inventory_item option"

definition swap_task_new :: swap_task where
  "swap_task_new =
     \<lparr>sync_srcEquipment = False, sync_destEquipment = False, sync_srcItem = None, sync_destItem = None,
      equip_position = None, newEquipment = None\<rparr>"

text \<open>The branches up to the common tail; the flag tells whether the move was done.\<close>

definition swap_move :: "swap_param \<Rightarrow> swap_task \<Rightarrow> inventory \<Rightarrow> fault + (bool \<times> swap_task \<times> inventory)" where
  "swap_move p t v =
     (if srcEquipped p \<and> destEquipped p then Inr (False, t, v)
      else
        let t1 = t\<lparr>sync_srcEquipment := srcEquipped p, sync_destEquipment := destEquipped p\<rparr>
        in if srcEquipped p then
             let t2 = t1\<lparr>equip_position := Some (srcPosition p)\<rparr>
             in and_then (unequip (srcPosition p) (destPosition p) v) (\<lambda>(ok, v').
                  if \<not> ok then Inr (False, t2, v')
                  else and_then (find_item_by_slot SlotEquipment (srcPosition p) v') (\<lambda>item.
                    Inr (True, t2\<lparr>newEquipment := item\<rparr>, v')))
           else and_then (find_item_by_slot SlotInventory (srcPosition p) v) (\<lambda>src.
             if src = None then Inr (False, t1, v)
             else if destEquipped p then
               let t2 = t1\<lparr>equip_position := Some (destPosition p)\<rparr>
               in and_then (equip (destPosition p) (srcPosition p) v) (\<lambda>(ok, v').
                    if \<not> ok then Inr (False, t2, v')
                    else and_then (find_item_by_slot SlotEquipment (destPosition p) v') (\<lambda>item.
                      Inr (True, t2\<lparr>newEquipment := item\<rparr>, v')))
             else and_then (shift_item (srcPosition p) (destPosition p) v) (\<lambda>(ok, v').
                    Inr (ok, t1, v'))))"

definition swap_execute ::
  "swap_param \<Rightarrow> inventory \<Rightarrow> fault + (swap_task \<times> inventory \<times> inventory_transaction option)" where
  "swap_execute p v =
     and_then (swap_move p swap_task_new v) (\<lambda>(ok, t, v1).
       if \<not> ok then Inr (t, v1, None)
       else
         and_then (find_item_by_slot (if sync_srcEquipment t then SlotEquipment else SlotInventory) (srcPosition p) v1) (\<lambda>src.
         and_then (find_item_by_slot (if sync_destEquipment t then SlotEquipment else SlotInventory) (destPosition p) v1) (\<lambda>dest.
           Inr (t\<lparr>sync_srcItem := src, sync_destItem := dest\<rparr>, clear_change_logs v1,
                Some (insert_range (itemLogs v1) (transaction_new (characterId v1)))))))"

text \<open>\<^verbatim>\<open>OnComplete\<close>: the equipment change the other players are told, if any.\<close>

definition swap_announced :: "swap_task \<Rightarrow> (int \<times> inventory_item option) option" where
  "swap_announced t = map_option (\<lambda>p. (p, newEquipment t)) (equip_position t)"

subsection \<open>Adding and removing items\<close>

datatype item_change = ItemAdd int int | ItemRemove int

text \<open>
  The \<^verbatim>\<open>while (remain > 0)\<close> loop of \<^verbatim>\<open>ItemAdd\<close>. \<open>uid\<close> is what \<^verbatim>\<open>PublishItemUniqueId\<close> answers: the loop asks for it
  at most once. \<open>None\<close> is a loop that does not end.
\<close>

partial_function (option) item_add_loop ::
  "int \<Rightarrow> int \<Rightarrow> int \<Rightarrow> inventory \<Rightarrow> (fault + inventory) option" where
  "item_add_loop uid d remain v =
     (if remain \<le> 0 then Some (Inr v)
      else case can_stack_item d remain 0 v of
        Inl e \<Rightarrow> Some (Inl e)
      | Inr r \<Rightarrow>
          (if fst r then
             case stack_item d (snd r) v of
               Inl e \<Rightarrow> Some (Inl e)
             | Inr s \<Rightarrow> item_add_loop uid d (remain - snd r) (snd s)
           else if has_empty_slot v then Some (Inr (snd (add_item uid d remain v)))
           else item_add_loop uid d remain v))"

definition item_change_apply :: "int \<Rightarrow> item_change \<Rightarrow> inventory \<Rightarrow> (fault + inventory) option" where
  "item_change_apply uid c v =
     (case c of
        ItemAdd d q \<Rightarrow> item_add_loop uid d q v
      | ItemRemove s \<Rightarrow>
          Some (case remove_item s v of Inl e \<Rightarrow> Inl e | Inr r \<Rightarrow> Inr (snd r)))"

record player =
  player_characterId :: int
  player_inventory :: inventory

record change_state =
  targeted :: "int \<rightharpoonup> player"
  current :: "int option"
  transactions :: "inventory_transaction list"

text \<open>
  One round of the loop over the changes: a change of a player who is not among the targets is
  skipped, the first change of a player opens a transaction, and the log of the inventory moves to
  the transaction opened last. \<open>uids\<close> gives the unique id published in each round.
\<close>

definition change_round :: "int \<Rightarrow> int \<times> item_change \<Rightarrow> change_state \<Rightarrow> (fault + change_state) option" where
  "change_round uid pc s =
     (case (if current s = Some (fst pc) then Some s
            else map_option (\<lambda>p. s\<lparr>current := Some (fst pc),
                                   transactions := transactions s @ [transaction_new (player_characterId p)]\<rparr>)
                   (targeted s (fst pc))) of
        None \<Rightarrow> Some (Inr s)
      | Some s1 \<Rightarrow>
          (case targeted s1 (fst pc) of
             None \<Rightarrow> Some (Inl NullDeref)
           | Some p \<Rightarrow>
               map_option (\<lambda>r. case r of
                   Inl e \<Rightarrow> Inl e
                 | Inr v \<Rightarrow>
                     Inr (s1\<lparr>targeted := (targeted s1)(fst pc \<mapsto> p\<lparr>player_inventory := clear_change_logs v\<rparr>),
                             transactions := butlast (transactions s1)
                               @ [insert_range (itemLogs v) (last (transactions s1))]\<rparr>))
                 (item_change_apply uid (snd pc) (player_inventory p))))"

fun change_rounds :: "int list \<Rightarrow> (int \<times> item_change) list \<Rightarrow> change_state \<Rightarrow> (fault + change_state) option" where
  "change_rounds us [] s = Some (Inr s)"
| "change_rounds us (pc # pcs) s =
     Option.bind (change_round (hd us) pc s)
       (\<lambda>r. case r of Inl e \<Rightarrow> Some (Inl e) | Inr s' \<Rightarrow> change_rounds (tl us) pcs s')"

text \<open>
  \<^verbatim>\<open>Execute\<close> sorts the changes by player and runs the rounds. \<^verbatim>\<open>std::ranges::sort\<close> is not stable; the
  stable order modelled here is one it may produce.
\<close>

definition change_execute ::
  "int list \<Rightarrow> (int \<times> item_change) list \<Rightarrow> (int \<rightharpoonup> player) \<Rightarrow>
     (fault + ((int \<rightharpoonup> player) \<times> inventory_transaction list)) option" where
  "change_execute us pcs targets =
     map_option (\<lambda>r. case r of Inl e \<Rightarrow> Inl e | Inr s \<Rightarrow> Inr (targeted s, transactions s))
       (change_rounds us (sort_key fst pcs)
          \<lparr>targeted = targets, current = None, transactions = []\<rparr>)"

subsection \<open>Lookups in a well-formed inventory\<close>

lemma find_item_by_slot_inventory:
  assumes wf: "inventory_wf v"
  shows "find_item_by_slot SlotInventory s v =
    Inr (if is_valid_slot s then Option.bind (inventory_slots v ! nat s) (items v) else None)"
proof (cases "is_valid_slot s \<and> inventory_slots v ! nat s \<noteq> None")
  case True
  then obtain k where k: "at_place v (SlotInventory, nat s) = Some k" by auto
  from True have "valid_place (SlotInventory, nat s)" using valid_slot_place by blast
  with k obtain it where "items v k = Some it" "deref (items v) (Some k) = Inr it"
    using occupant [OF wf] by blast
  with True k show ?thesis by (simp add: find_item_by_slot_def)
qed (auto simp: find_item_by_slot_def split: option.split)

lemma find_item_by_slot_equipment:
  assumes wf: "inventory_wf v"
  shows "find_item_by_slot SlotEquipment s v =
    (if \<not> is_valid_equip_position s then Inr None
     else if s = EquipPosition_Count then Inl OutOfBounds
     else Inr (Option.bind (equipments v ! nat s) (items v)))"
proof (cases "is_valid_equip_position s \<and> s \<noteq> EquipPosition_Count \<and> equipments v ! nat s \<noteq> None")
  case True
  then obtain k where k: "at_place v (SlotEquipment, nat s) = Some k" by auto
  from True have p: "valid_place (SlotEquipment, nat s)" using valid_equip_place by blast
  with k obtain it where "items v k = Some it" "deref (items v) (Some k) = Inr it"
    using occupant [OF wf] by blast
  with True k p wf show ?thesis by (auto simp: find_item_by_slot_def)
qed (use wf in \<open>auto simp: find_item_by_slot_def EquipPosition_Count_def is_valid_equip_position_def
    split: option.split\<close>)

subsection \<open>What a swap does\<close>

text \<open>The one inventory operation a request stands for.\<close>

definition swap_op :: "swap_param \<Rightarrow> inventory_op" where
  "swap_op p =
     (if srcEquipped p then OpUnequip (srcPosition p) (destPosition p)
      else if destEquipped p then OpEquip (destPosition p) (srcPosition p)
      else OpShift (srcPosition p) (destPosition p))"

lemma refused_source:
  assumes "inventory_wf v" and "find_item_by_slot SlotInventory s v = Inr None"
  shows "equip d s v = Inr (False, v)" and "shift_item s d v = Inr (False, v)"
proof -
  have "\<not> is_valid_slot s \<or> inventory_slots v ! nat s = None"
  proof (rule ccontr)
    assume "\<not> ?thesis"
    with assms find_item_by_slot_inventory [OF assms(1), of s] wf_in_inventory(2) [OF assms(1), of "nat s"]
      valid_slot_place [of s]
    show False by auto
  qed
  then show "equip d s v = Inr (False, v)" and "shift_item s d v = Inr (False, v)"
    using assms(1) by (auto simp: equip_eq shift_item_eq)
qed

lemma swap_move_eq:
  assumes wf: "inventory_wf v" and m: "swap_move p t v = Inr (ok, t', v')"
  shows "(if srcEquipped p \<and> destEquipped p then \<not> ok \<and> v' = v
          else run_op (swap_op p) v = Inr (ok, v'))"
proof (cases "srcEquipped p")
  case True
  with m show ?thesis
    by (auto simp: swap_move_def swap_op_def and_then_Inr_iff Let_def split: if_splits prod.splits)
next
  case False
  with m obtain src where src: "find_item_by_slot SlotInventory (srcPosition p) v = Inr src"
    by (auto simp: swap_move_def Let_def and_then_Inr_iff)
  with False m refused_source [OF wf] show ?thesis
    by (cases "src = None")
      (auto simp: swap_move_def swap_op_def and_then_Inr_iff Let_def split: if_splits prod.splits)
qed

lemma swap_execute_done:
  assumes wf: "inventory_wf v" and x: "swap_execute p v = Inr (t, v', Some tr)"
  shows "\<exists>w. run_op (swap_op p) v = Inr (True, w) \<and> v' = clear_change_logs w
     \<and> tr = \<lparr>transaction_characterId = characterId w, transaction_logs = itemLogs w\<rparr>"
proof -
  from x obtain t1 w where m: "swap_move p swap_task_new v = Inr (True, t1, w)"
    and "v' = clear_change_logs w"
    and "tr = insert_range (itemLogs w) (transaction_new (characterId w))"
    by (auto simp: swap_execute_def and_then_Inr_iff split: if_splits)
  with swap_move_eq [OF wf m] show ?thesis
    by (auto simp: insert_range_def transaction_new_def split: if_splits)
qed

text \<open>
  A swap request that is carried out moves exactly the items it names, as one inventory
  operation; its transaction holds exactly the log of that operation, replaying the transaction
  takes the database from the old inventory to the new one, and the log is empty again.
\<close>

theorem swap_saves_what_it_moved:
  assumes wf: "inventory_wf v" and logs: "itemLogs v = []"
    and rep: "db_rep (characterId v) (items v, F) db"
    and x: "swap_execute p v = Inr (t, v', Some tr)"
  shows "\<exists>w. run_op (swap_op p) v = Inr (True, w) \<and> v' = clear_change_logs w
    \<and> inventory_wf v' \<and> itemLogs v' = []
    \<and> transaction_characterId tr = characterId v
    \<and> (\<exists>F'. db_rep (characterId v) (items v', F') (sql_items_update (transaction_logs tr) db))"
proof -
  from swap_execute_done [OF wf x] obtain w where
    w: "run_op (swap_op p) v = Inr (True, w)" "v' = clear_change_logs w"
    and tr: "tr = \<lparr>transaction_characterId = characterId w, transaction_logs = itemLogs w\<rparr>" by blast
  have al: "op_allowed (swap_op p) F" "ops_allowed [swap_op p] F" by (simp_all add: swap_op_def)
  from run_op_journaled [OF wf al(1) db_rep_fresh [OF rep] w(1)]
  have wfw: "inventory_wf w" and cid: "characterId w = characterId v" by (auto simp: journaled_def)
  have "run_ops [swap_op p] v = Inr w" by (simp add: w(1))
  with change_log_reproduces [OF wf logs rep al(2)] wfw cid w tr show ?thesis
    by (auto simp: clear_change_logs_def)
qed

theorem swap_saves_what_it_moved_witness:
  "\<exists>t v' tr w. swap_execute \<lparr>destEquipped = False, destPosition = 4, srcEquipped = False, srcPosition = 0\<rparr>
        sample_inventory = Inr (t, v', Some tr)
     \<and> run_op (OpShift 0 4) sample_inventory = Inr (True, w) \<and> v' = clear_change_logs w"
proof -
  let ?p = "\<lparr>destEquipped = False, destPosition = 4, srcEquipped = False, srcPosition = 0\<rparr>"
  have "case swap_execute ?p sample_inventory of Inr (_, _, Some _) \<Rightarrow> True | _ \<Rightarrow> False"
    by code_simp
  then obtain t v' tr where x: "swap_execute ?p sample_inventory = Inr (t, v', Some tr)"
    by (auto split: sum.splits prod.splits option.splits)
  have "db_rep (characterId sample_inventory) (items sample_inventory, {8}) sample_database"
    using sample_facts(3,4) by simp
  from swap_saves_what_it_moved [OF sample_facts(1,2) this x] x show ?thesis
    by (auto simp: swap_op_def)
qed

text \<open>
  a refused swap changes nothing, but it may still announce a change: when the destination of an
  unequip request is no inventory slot, the request is refused, the item stays equipped, and
  \<^verbatim>\<open>OnComplete\<close> announces to the other players that the position is now empty.
\<close>

theorem refused_swap_announces_removal:
  assumes wf: "inventory_wf v" and "srcEquipped p" and "\<not> destEquipped p"
    and "is_valid_equip_position (srcPosition p)" and "\<not> is_valid_slot (destPosition p)"
  shows "\<exists>t. swap_execute p v = Inr (t, v, None) \<and> swap_announced t = Some (srcPosition p, None)"
  using assms
  by (auto simp: swap_execute_def swap_move_def unequip_eq [OF wf] Let_def swap_announced_def swap_task_new_def)

theorem refused_swap_announces_removal_witness:
  "\<exists>t. swap_execute \<lparr>destEquipped = False, destPosition = -1, srcEquipped = True, srcPosition = 2\<rparr>
      sample_inventory = Inr (t, sample_inventory, None) \<and> swap_announced t = Some (2, None)"
  using refused_swap_announces_removal [OF sample_facts(1),
      of "\<lparr>destEquipped = False, destPosition = -1, srcEquipped = True, srcPosition = 2\<rparr>"]
  by (simp add: is_valid_equip_position_def is_valid_slot_def)

text \<open>
  A request that names the equipment position \<^verbatim>\<open>Count\<close> passes the validity check of the
  position and reads past the end of the array of equipments, whatever the inventory holds.
\<close>

theorem swap_count_position_out_of_bounds:
  assumes wf: "inventory_wf v" and "srcEquipped p" and "\<not> destEquipped p"
    and "srcPosition p = EquipPosition_Count" and "is_valid_slot (destPosition p)"
  shows "swap_execute p v = Inl OutOfBounds"
  using assms
  by (simp add: swap_execute_def swap_move_def unequip_eq [OF wf] Let_def is_valid_equip_position_def)

theorem swap_count_position_out_of_bounds_witness:
  "swap_execute \<lparr>destEquipped = False, destPosition = 0, srcEquipped = True, srcPosition = 4\<rparr> sample_inventory
     = Inl OutOfBounds"
  using swap_count_position_out_of_bounds [OF sample_facts(1),
      of "\<lparr>destEquipped = False, destPosition = 0, srcEquipped = True, srcPosition = 4\<rparr>"]
  by (simp add: EquipPosition_Count_def is_valid_slot_def inventory_size_def)

subsection \<open>What adding an item does\<close>

definition stackable_room :: "int \<Rightarrow> inventory \<Rightarrow> int" where
  "stackable_room d v = (if d \<in> set stackable_items then room d v else 0)"

lemma stackable_room_nonneg [simp]: "0 \<le> stackable_room d v"
  by (simp add: stackable_room_def room_def)

lemma can_stack_item_room:
  assumes "inventory_wf v" and "0 < q"
  shows "\<exists>r. can_stack_item d q 0 v = Inr (0 < stackable_room d v, r)
     \<and> (0 < stackable_room d v \<longrightarrow> r = min (stackable_room d v) q)"
  using can_stack_item_eq [OF assms, of d 0] by (auto simp: stackable_room_def)

text \<open>One stacking round of the loop fills the stacks as far as they and the amount go.\<close>

lemma stack_round:
  assumes wf: "inventory_wf v" and q: "0 < q" and r: "0 < stackable_room d v"
  obtains w where "stack_item d (min (stackable_room d v) q) v = Inr (True, w)"
    and "inventory_wf w" and "has_empty_slot w = has_empty_slot v" and "items w u = None \<longleftrightarrow> items v u = None"
    and "held d w = held d v + min (stackable_room d v) q"
    and "stackable_room d w = stackable_room d v - min (stackable_room d v) q"
proof -
  let ?q = "min (stackable_room d v) q"
  have d: "d \<in> set stackable_items" "stackable_room d v = room d v"
    using r by (auto simp: stackable_room_def split: if_splits)
  have "0 < ?q" and "?q \<le> room d v" using q r d by auto
  from wf this obtain cs where
    s: "stack_item d ?q v = Inr (True, extend_log (quantity_logs cs) (v\<lparr>items := set_quantities cs (items v)\<rparr>))"
    and h: "held d (v\<lparr>items := set_quantities cs (items v)\<rparr>) = held d v + ?q"
      "room d (v\<lparr>items := set_quantities cs (items v)\<rparr>) = room d v - ?q"
    by (rule stack_item_done)
  show thesis
    by (rule that [OF s])
      (use inventory_wf_set_quantities [OF wf, of cs] h d in
        \<open>auto simp: has_empty_slot_def set_quantities_def held_def room_def stackable_room_def split: option.split\<close>)
qed

lemma add_item_held:
  assumes wf: "inventory_wf v" and u: "items v u = None" and e: "has_empty_slot v"
  shows "inventory_wf (snd (add_item u d q v)) \<and> held d (snd (add_item u d q v)) = held d v + q"
proof -
  from e obtain v' where a: "add_item u d q v = (True, v')"
    using add_item_iff [of u d q v] by (cases "add_item u d q v") auto
  from wf u a obtain i where i: "i < 30" "inventory_slots v ! i = None"
    and v': "v' = extend_log [AddItemLog u (characterId v) d q (int i)]
          (v\<lparr>items := (items v)(u \<mapsto> new_item u d q i),
             inventory_slots := (inventory_slots v)[i := Some u]\<rparr>)"
    by (rule add_item_cases)
  let ?m = "(items v)(u \<mapsto> new_item u d q i)"
  have "Some u \<notin> set (inventory_slots v)" using inventory_wf_slots(3) [OF wf] u by force
  then have old: "(\<Sum>x\<leftarrow>inventory_slots v. amount_at d ?m x) = held d v"
    unfolding held_def
    by (intro arg_cong [where f = sum_list] map_cong refl) (auto simp: amount_at_def split: bind_split)
  have "held d v' = (\<Sum>x\<leftarrow>(inventory_slots v)[i := Some u]. amount_at d ?m x)"
    by (simp add: held_def v')
  also have "\<dots> = held d v - amount_at d ?m None + amount_at d ?m (Some u)"
    using i wf by (simp add: sum_list_map_update old)
  also have "\<dots> = held d v + q" by (simp add: amount_at_def new_item_def)
  finally show ?thesis using add_item_wf [OF wf u a] a by simp
qed

text \<open>
  Adding an item ends with exactly the amount added, whenever the stacks have room for all of it
  or a slot is free.
\<close>

theorem item_add_adds_everything:
  assumes wf: "inventory_wf v" and q: "0 < q" and u: "items v u = None"
    and room: "q \<le> stackable_room d v \<or> has_empty_slot v"
  shows "\<exists>w. item_add_loop u d q v = Some (Inr w) \<and> inventory_wf w \<and> held d w = held d v + q"
proof -
  have finished: "item_add_loop u d 0 w = Some (Inr w)" for w
    by (simp add: item_add_loop.simps)
  have no_room: "\<exists>w. item_add_loop u d q v = Some (Inr w) \<and> inventory_wf w \<and> held d w = held d v + q"
    if "inventory_wf v" "0 < q" "items v u = None" "stackable_room d v = 0" "has_empty_slot v" for v q
    using can_stack_item_room [OF that(1,2), of d] add_item_held [OF that(1,3,5), of d q] that
    by (subst item_add_loop.simps) auto
  show ?thesis
  proof (cases "0 < stackable_room d v")
    case False
    then have "stackable_room d v = 0" using stackable_room_nonneg [of d v] by linarith
    with room q no_room [OF wf q u] show ?thesis by simp
  next
    case True
    let ?r = "min (stackable_room d v) q"
    from stack_round [OF wf q True, of u] obtain w where
      s: "stack_item d ?r v = Inr (True, w)" and w: "inventory_wf w" "has_empty_slot w = has_empty_slot v"
        "items w u = None" "held d w = held d v + ?r" "stackable_room d w = stackable_room d v - ?r"
      using u by metis
    have step: "item_add_loop u d q v = item_add_loop u d (q - ?r) w"
      using can_stack_item_room [OF wf q, of d] True q s by (subst item_add_loop.simps) auto
    show ?thesis
    proof (cases "q \<le> stackable_room d v")
      case True
      then show ?thesis using step w finished by simp
    next
      case False
      with room no_room [of w "q - ?r"] w step show ?thesis by auto
    qed
  qed
qed

theorem item_add_adds_everything_witness:
  "\<exists>w. item_add_loop 8 2000001 40 sample_inventory = Some (Inr w) \<and> held 2000001 w = held 2000001 sample_inventory + 40"
proof -
  have "has_empty_slot sample_inventory" by code_simp
  moreover have "items sample_inventory 8 = None" by (simp add: sample_eq)
  ultimately show ?thesis
    using item_add_adds_everything [OF sample_facts(1), of 40 8 2000001] by auto
qed

text \<open>
  C38: with no free slot and too little room in the stacks the loop of \<^verbatim>\<open>ItemAdd\<close> never ends.
\<close>

theorem item_add_diverges_when_full:
  assumes "inventory_wf v" and "stackable_room d v < q" and "\<not> has_empty_slot v"
  shows "item_add_loop u d q v = None"
proof -
  have "\<not> (inventory_wf v \<and> stackable_room d v < q \<and> \<not> has_empty_slot v)"
    if "item_add_loop u d q v = Some r" for r
  proof (rule item_add_loop.raw_induct
      [where P = "\<lambda>_ d q v _. \<not> (inventory_wf v \<and> stackable_room d v < q \<and> \<not> has_empty_slot v)",
       OF _ that], goal_cases)
    case (1 loop uid d q v r)
    show ?case
    proof
      assume stuck: "inventory_wf v \<and> stackable_room d v < q \<and> \<not> has_empty_slot v"
      then have wf: "inventory_wf v" and q: "0 < q" using stackable_room_nonneg [of d v] by linarith+
      note c = can_stack_item_room [OF wf q, of d]
      show False
      proof (cases "0 < stackable_room d v")
        case True
        then have "min (stackable_room d v) q = stackable_room d v" using stuck by simp
        with stack_round [OF wf q True, of uid] obtain w where
          s: "stack_item d (stackable_room d v) v = Inr (True, w)" and w: "inventory_wf w"
            "has_empty_slot w = has_empty_slot v" "stackable_room d w = 0"
          by (metis diff_self)
        with 1(2) c q True stuck have "loop uid d (q - stackable_room d v) w = Some r" by auto
        from 1(1) [OF this] w stuck show False by simp
      next
        case False
        with 1(2) c q stuck have "loop uid d q v = Some r" by auto
        from 1(1) [OF this] stuck show False by simp
      qed
    qed
  qed
  with assms show ?thesis by (cases "item_add_loop u d q v") auto
qed

lemma ops_allowed_adds:
  "ops_allowed (map (\<lambda>u. OpAdd u d q) us) F \<longleftrightarrow> distinct us \<and> set us \<subseteq> F"
  by (induction us arbitrary: F) auto

theorem item_add_diverges_when_full_witness:
  "\<exists>v. run_ops (map (\<lambda>u. OpAdd u 5 1) [1..30]) (inventory_new\<lparr>characterId := 9\<rparr>) = Inr v
     \<and> item_add_loop 99 5 1 v = None"
proof -
  let ?ops = "map (\<lambda>u. OpAdd u 5 1) [1..30]" and ?v0 = "inventory_new\<lparr>characterId := 9\<rparr>"
  have "case run_ops ?ops ?v0 of Inr v \<Rightarrow> \<not> has_empty_slot v | Inl _ \<Rightarrow> False" by code_simp
  then obtain v where v: "run_ops ?ops ?v0 = Inr v" "\<not> has_empty_slot v"
    by (cases "run_ops ?ops ?v0") auto
  have "ops_allowed ?ops {1..30}" by (simp add: ops_allowed_adds)
  moreover have "\<forall>k \<in> {1..30 :: int}. items ?v0 k = None" by (simp add: inventory_new_def)
  ultimately have "inventory_wf v" using run_ops_journaled [OF inventory_new_wf _ _ v(1)] by blast
  from item_add_diverges_when_full [OF this _ v(2), of 5 1 99] v(1) show ?thesis
    by (simp add: stackable_room_def stackable_items_def)
qed

end
