(* ===== verification/Repository.thy ===== *)
theory Repository
  imports ItemTasks
begin

text \<open>
  \<^verbatim>\<open>xr/server/game/repository/game_repository.cpp\<close>: the queue of transactions of each character.
  One strand runs everything about a character, so its operations are steps on a state: a request
  to save, the completion of a save, the end of a character's saves. The database service is outside the
  state; what is sent to it is recorded in order.

  The theory proves that the transactions of a character are sent one at a time and in the order they
  were made, that none is forgotten, and what goes wrong when \<^verbatim>\<open>FinalizeSaves\<close> has to wait: the coroutine that is
  resumed uses a node that is gone, and that is the only step that fails.
\<close>

subsection \<open>State and operations\<close>

text \<open>
  A node of the map \<^verbatim>\<open>saves\<close> has an identity: completion callbacks and suspended coroutines hold a
  pointer to the node, not the key. \<open>posted\<close> holds the coroutines of \<^verbatim>\<open>FinalizeSaves\<close> that the promises have
  woken and that the strand will resume.
\<close>

record character_save =
  node :: nat
  shutdown :: bool
  finalizeSignals :: nat
  pending :: bool
  waits :: "inventory_transaction list"

record repository =
  saves :: "int \<rightharpoonup> character_save"
  next_node :: nat
  sent :: "(int \<times> inventory_transaction) list"
  posted :: "(int \<times> nat) list"

definition repository_new :: repository where
  "repository_new = \<lparr>saves = Map.empty, next_node = 0, sent = [], posted = []\<rparr>"

definition find_or_insert :: "int \<Rightarrow> repository \<Rightarrow> character_save \<times> repository" where
  "find_or_insert c s =
     (case saves s c of
        Some sv \<Rightarrow> (sv, s)
      | None \<Rightarrow>
          (let sv = \<lparr>node = next_node s, shutdown = False, finalizeSignals = 0, pending = False, waits = []\<rparr>
           in (sv, s\<lparr>saves := (saves s)(c \<mapsto> sv), next_node := Suc (next_node s)\<rparr>)))"

text \<open>\<^verbatim>\<open>Start\<close> and the assignment of its future to \<^verbatim>\<open>pending\<close>.\<close>

definition start_save :: "int \<Rightarrow> character_save \<Rightarrow> repository \<Rightarrow> character_save \<times> repository" where
  "start_save c sv s =
     (case waits sv of
        [] \<Rightarrow> (sv, s)
      | t # ts \<Rightarrow> (sv\<lparr>waits := ts, pending := True\<rparr>, s\<lparr>sent := sent s @ [(c, t)]\<rparr>))"

definition put_save :: "int \<Rightarrow> character_save \<times> repository \<Rightarrow> repository" where
  "put_save c r = (snd r)\<lparr>saves := (saves (snd r))(c \<mapsto> fst r)\<rparr>"

definition save_changes :: "int \<Rightarrow> inventory_transaction \<Rightarrow> repository \<Rightarrow> repository" where
  "save_changes c t s =
     (let (sv, s1) = find_or_insert c s
      in if shutdown sv then s1
         else
           let sv1 = sv\<lparr>waits := waits sv @ [t]\<rparr>
           in put_save c (if \<not> pending sv1 then start_save c sv1 s1 else (sv1, s1)))"

definition has_node :: "int \<Rightarrow> nat \<Rightarrow> repository \<Rightarrow> bool" where
  "has_node c n s \<longleftrightarrow> (case saves s c of None \<Rightarrow> False | Some sv \<Rightarrow> node sv = n)"

definition on_complete_save_changes :: "int \<Rightarrow> nat \<Rightarrow> repository \<Rightarrow> fault + repository" where
  "on_complete_save_changes c n s =
     (if \<not> has_node c n s then Inl UseAfterFree
      else
        let sv = the (saves s c);
            sv1 = sv\<lparr>pending := False\<rparr>;
            (sv2, s2) = (if waits sv1 \<noteq> [] then start_save c sv1 s else (sv1, s))
        in if shutdown sv2 \<and> \<not> pending sv2 \<and> waits sv2 = []
           then Inr (s2\<lparr>posted := posted s2 @ replicate (finalizeSignals sv2) (c, node sv2),
                        saves := (saves s2)(c := None)\<rparr>)
           else Inr (put_save c (sv2, s2)))"

text \<open>\<^verbatim>\<open>FinalizeSaves\<close> up to its end or to the point where it waits; the flag tells whether it ended.\<close>

definition finalize_saves :: "int \<Rightarrow> repository \<Rightarrow> bool \<times> repository" where
  "finalize_saves c s =
     (case saves s c of
        None \<Rightarrow> (True, s)
      | Some sv \<Rightarrow>
          let sv1 = sv\<lparr>shutdown := True\<rparr>
          in if waits sv1 \<noteq> [] \<or> pending sv1
             then (False, s\<lparr>saves := (saves s)(c \<mapsto> sv1\<lparr>finalizeSignals := Suc (finalizeSignals sv1)\<rparr>)\<rparr>)
             else (True, s\<lparr>saves := (saves s)(c := None)\<rparr>))"

text \<open>The strand resumes the first coroutine that was woken: \<^verbatim>\<open>context.saves.erase(iter)\<close>.\<close>

definition resume_finalize :: "repository \<Rightarrow> fault + repository" where
  "resume_finalize s =
     (case posted s of
        [] \<Rightarrow> Inr s
      | (c, n) # ps \<Rightarrow>
          if has_node c n s then Inr (s\<lparr>saves := (saves s)(c := None), posted := ps\<rparr>)
          else Inl UseAfterFree)"

subsection \<open>Runs of the strand\<close>

datatype repo_event =
    Save int inventory_transaction
  | Complete int
  | Finalize int
  | Resume

definition repo_step :: "repo_event \<Rightarrow> repository \<Rightarrow> fault + repository" where
  "repo_step e s =
     (case e of
        Save c t \<Rightarrow> Inr (save_changes c t s)
      | Complete c \<Rightarrow>
          (case saves s c of
             Some sv \<Rightarrow> if pending sv then on_complete_save_changes c (node sv) s else Inr s
           | None \<Rightarrow> Inr s)
      | Finalize c \<Rightarrow> Inr (snd (finalize_saves c s))
      | Resume \<Rightarrow> resume_finalize s)"

fun repo_run :: "repo_event list \<Rightarrow> repository \<Rightarrow> fault + repository" where
  "repo_run [] s = Inr s"
| "repo_run (e # es) s = and_then (repo_step e s) (repo_run es)"

text \<open>
  What has been accepted for a character: the transactions that arrive while its saves are not shut
  down. This is the specification the queue is measured against.
\<close>

definition shut :: "int \<Rightarrow> repository \<Rightarrow> bool" where
  "shut c s \<longleftrightarrow> (case saves s c of None \<Rightarrow> False | Some sv \<Rightarrow> shutdown sv)"

fun accepted :: "int \<Rightarrow> repo_event list \<Rightarrow> repository \<Rightarrow> inventory_transaction list" where
  "accepted c [] s = []"
| "accepted c (e # es) s =
     (case e of Save c' t \<Rightarrow> if c' = c \<and> \<not> shut c s then [t] else [] | _ \<Rightarrow> [])
     @ (case repo_step e s of Inl _ \<Rightarrow> [] | Inr s' \<Rightarrow> accepted c es s')"

definition sent_of :: "int \<Rightarrow> repository \<Rightarrow> inventory_transaction list" where
  "sent_of c s = map snd (filter (\<lambda>x. fst x = c) (sent s))"

definition waiting :: "int \<Rightarrow> repository \<Rightarrow> inventory_transaction list" where
  "waiting c s = (case saves s c of None \<Rightarrow> [] | Some sv \<Rightarrow> waits sv)"

text \<open>A queue with something in it has a save under way.\<close>

definition repo_inv :: "repository \<Rightarrow> bool" where
  "repo_inv s \<longleftrightarrow> (\<forall>c sv. saves s c = Some sv \<longrightarrow> \<not> pending sv \<longrightarrow> waits sv = [])"

lemmas repo_defs =
  save_changes_def find_or_insert_def start_save_def put_save_def on_complete_save_changes_def
  finalize_saves_def has_node_def

text \<open>The nodes of woken coroutines have been erased, and numbers of nodes are not used again.\<close>

definition stale_posts :: "repository \<Rightarrow> bool" where
  "stale_posts s \<longleftrightarrow>
     (\<forall>c sv. saves s c = Some sv \<longrightarrow> node sv < next_node s)
     \<and> (\<forall>c n. (c, n) \<in> set (posted s) \<longrightarrow> n < next_node s \<and> \<not> has_node c n s)"

text \<open>So a coroutine that is resumed finds its node gone, always.\<close>

lemma resume_finalize_eq:
  "stale_posts s \<Longrightarrow> resume_finalize s = (if posted s = [] then Inr s else Inl UseAfterFree)"
  by (auto simp: resume_finalize_def stale_posts_def split: list.splits)

lemma repo_step_inv:
  assumes "repo_inv s" and "stale_posts s" and "repo_step e s = Inr s'"
  shows "repo_inv s'"
  using assms resume_finalize_eq [OF assms(2)]
  by (cases e)
    (auto simp: repo_step_def repo_inv_def repo_defs Let_def
      split: option.splits if_splits list.splits prod.splits)

text \<open>No step loses, duplicates or reorders a transaction, and none but the resumption fails.\<close>

lemma repo_step_fifo:
  assumes "repo_inv s" and "stale_posts s" and "repo_step e s = Inr s'"
  shows "sent_of c s' @ waiting c s' = (sent_of c s @ waiting c s)
     @ (case e of Save c' t \<Rightarrow> if c' = c \<and> \<not> shut c s then [t] else [] | _ \<Rightarrow> [])"
  using assms resume_finalize_eq [OF assms(2)]
  by (cases e)
    (auto simp: repo_step_def repo_inv_def repo_defs sent_of_def waiting_def shut_def Let_def
      split: option.splits if_splits list.splits prod.splits)

lemma repo_step_ok:
  assumes "stale_posts s"
  shows "repo_step e s = Inl f \<longleftrightarrow> e = Resume \<and> posted s \<noteq> [] \<and> f = UseAfterFree"
  using resume_finalize_eq [OF assms]
  by (cases e) (auto simp: repo_step_def repo_defs Let_def split: option.splits list.splits)

lemma has_node_iff: "has_node c n s \<longleftrightarrow> (\<exists>sv. saves s c = Some sv \<and> node sv = n)"
  by (simp add: has_node_def split: option.split)

lemma stale_sent [simp]: "stale_posts (s\<lparr>sent := x\<rparr>) = stale_posts s"
  by (simp add: stale_posts_def has_node_def)

lemma stale_update:
  assumes "stale_posts s" and "saves s c = Some sv" and "node sv' = node sv"
  shows "stale_posts (s\<lparr>saves := (saves s)(c \<mapsto> sv')\<rparr>)"
  using assms by (fastforce simp: stale_posts_def has_node_iff)

lemma stale_insert:
  assumes "stale_posts s" and "saves s c = None" and "node sv = next_node s"
  shows "stale_posts (s\<lparr>saves := (saves s)(c \<mapsto> sv), next_node := Suc (next_node s)\<rparr>)"
  using assms by (auto simp: stale_posts_def has_node_def less_Suc_eq)

lemma stale_remove:
  assumes "stale_posts s" and "saves s c = Some sv"
  shows "stale_posts (s\<lparr>posted := posted s @ replicate k (c, node sv), saves := (saves s)(c := None)\<rparr>)"
  using assms by (auto simp: stale_posts_def has_node_def)

lemma start_save_frame:
  assumes "start_save c sv s = (sv', s')"
  shows "node sv' = node sv" and "\<exists>x. s' = s\<lparr>sent := x\<rparr>"
  using assms by (auto simp: start_save_def split: list.splits intro: exI [of _ "sent s"])

lemma stale_start:
  assumes "stale_posts (s\<lparr>saves := (saves s)(c \<mapsto> sv1)\<rparr>)" and "node sv1 = node sv"
    and "start_save c sv s = (sv', s')"
  shows "stale_posts (s'\<lparr>saves := (saves s')(c \<mapsto> sv')\<rparr>)"
proof -
  from start_save_frame [OF assms(3)] obtain x where s': "s' = s\<lparr>sent := x\<rparr>" and n: "node sv' = node sv1"
    using assms(2) by auto
  have "stale_posts ((s\<lparr>saves := (saves s)(c \<mapsto> sv1)\<rparr>)\<lparr>saves := (saves s)(c \<mapsto> sv')\<rparr>)"
    using stale_update [OF assms(1), of c sv1 sv'] n by simp
  then show ?thesis by (simp add: s' stale_posts_def has_node_iff)
qed

lemma save_changes_stale:
  assumes "stale_posts s"
  shows "stale_posts (save_changes c t s)"
proof -
  obtain sv s1 where f: "find_or_insert c s = (sv, s1)" by fastforce
  have s1: "stale_posts s1" "saves s1 c = Some sv"
    using f assms stale_insert [OF assms, of c]
    by (auto simp: find_or_insert_def Let_def split: option.splits)
  then have upd: "stale_posts (s1\<lparr>saves := (saves s1)(c \<mapsto> sv\<lparr>waits := waits sv @ [t]\<rparr>)\<rparr>)"
    by (intro stale_update) simp_all
  obtain sv2 s2 where st: "start_save c (sv\<lparr>waits := waits sv @ [t]\<rparr>) s1 = (sv2, s2)" by fastforce
  show ?thesis
    using f s1 upd stale_start [OF upd _ st] st by (simp add: save_changes_def put_save_def Let_def)
qed

lemma on_complete_stale:
  assumes "stale_posts s" and "on_complete_save_changes c n s = Inr s'"
  shows "stale_posts s'"
proof -
  from assms(2) obtain sv where sv: "saves s c = Some sv"
    by (auto simp: on_complete_save_changes_def has_node_def split: if_splits option.splits)
  let ?sv = "sv\<lparr>pending := False\<rparr>"
  have upd: "stale_posts (s\<lparr>saves := (saves s)(c \<mapsto> ?sv)\<rparr>)"
    using assms(1) sv by (rule stale_update) simp
  obtain sv2 s2 where st: "start_save c ?sv s = (sv2, s2)" by fastforce
  from assms(2) sv st have
    "s' = s2\<lparr>saves := (saves s2)(c \<mapsto> sv2)\<rparr> \<or> s' = s\<lparr>saves := (saves s)(c \<mapsto> ?sv)\<rparr>
     \<or> s' = s\<lparr>posted := posted s @ replicate (finalizeSignals sv) (c, node sv), saves := (saves s)(c := None)\<rparr>"
    by (auto simp: on_complete_save_changes_def put_save_def start_save_def Let_def
        split: if_splits list.splits)
  then show ?thesis using stale_start [OF upd _ st] upd stale_remove [OF assms(1) sv] by auto
qed

lemma finalize_stale:
  assumes "stale_posts s"
  shows "stale_posts (snd (finalize_saves c s))"
proof (cases "saves s c")
  case None
  with assms show ?thesis by (simp add: finalize_saves_def)
next
  case (Some sv)
  from stale_remove [OF assms Some, of 0] stale_update [OF assms Some] Some show ?thesis
    by (simp add: finalize_saves_def Let_def)
qed

lemma repo_step_stale:
  assumes "stale_posts s" and "repo_step e s = Inr s'"
  shows "stale_posts s'"
  using assms save_changes_stale [OF assms(1)] finalize_stale [OF assms(1)] on_complete_stale [OF assms(1)]
    resume_finalize_eq [OF assms(1)]
  by (cases e) (auto simp: repo_step_def split: option.splits if_splits)

lemma repository_new_inv: "repo_inv repository_new" "stale_posts repository_new"
  by (simp_all add: repo_inv_def stale_posts_def repository_new_def)

lemma repo_run_inv:
  "repo_run es s = Inr s' \<Longrightarrow> repo_inv s \<Longrightarrow> stale_posts s \<Longrightarrow> repo_inv s' \<and> stale_posts s'"
  by (induction es arbitrary: s) (auto simp: and_then_Inr_iff dest: repo_step_inv repo_step_stale)

text \<open>Where a run fails: at a resumption, with a coroutine to resume.\<close>

lemma repo_run_fails:
  "repo_run es s = Inl f \<Longrightarrow> repo_inv s \<Longrightarrow> stale_posts s
    \<Longrightarrow> f = UseAfterFree \<and> (\<exists>es1 es2 s1. es = es1 @ Resume # es2 \<and> repo_run es1 s = Inr s1 \<and> posted s1 \<noteq> [])"
proof (induction es arbitrary: s)
  case (Cons e es)
  show ?case
  proof (cases "repo_step e s")
    case (Inl g)
    with repo_step_ok [OF Cons.prems(3), of e g] Cons.prems(1)
    have "f = UseAfterFree" "e # es = [] @ Resume # es" "repo_run [] s = Inr s" "posted s \<noteq> []" by simp_all
    then show ?thesis by blast
  next
    case (Inr s1)
    with Cons.prems Cons.IH [of s1] obtain es1 es2 s2 where
      *: "f = UseAfterFree" "es = es1 @ Resume # es2" "repo_run es1 s1 = Inr s2" "posted s2 \<noteq> []"
      using repo_step_inv [OF Cons.prems(2,3) Inr] repo_step_stale [OF Cons.prems(3) Inr] by auto
    then have "e # es = (e # es1) @ Resume # es2" "repo_run (e # es1) s = Inr s2" using Inr by simp_all
    with * show ?thesis by blast
  qed
qed simp

lemma repo_run_fifo:
  "repo_run es s = Inr s' \<Longrightarrow> repo_inv s \<Longrightarrow> stale_posts s
    \<Longrightarrow> sent_of c s' @ waiting c s' = sent_of c s @ waiting c s @ accepted c es s"
proof (induction es arbitrary: s)
  case (Cons e es)
  from Cons.prems(1) obtain s1 where s1: "repo_step e s = Inr s1" "repo_run es s1 = Inr s'"
    by (auto simp: and_then_Inr_iff)
  from Cons.IH [OF s1(2) repo_step_inv [OF Cons.prems(2,3) s1(1)] repo_step_stale [OF Cons.prems(3) s1(1)]]
    repo_step_fifo [OF Cons.prems(2,3) s1(1), of c] s1(1)
  show ?case by (simp split: repo_event.split)
qed simp

lemma complete_sends_next:
  assumes "repo_inv s" and "waiting c s = t # ts"
  shows "\<exists>s'. repo_step (Complete c) s = Inr s' \<and> waiting c s' = ts"
proof -
  from assms(2) obtain sv where sv: "saves s c = Some sv" "waits sv = t # ts"
    by (auto simp: waiting_def split: option.splits)
  moreover from assms(1) sv have "pending sv" by (fastforce simp: repo_inv_def)
  ultimately show ?thesis
    by (auto simp: repo_step_def on_complete_save_changes_def has_node_def start_save_def put_save_def
        waiting_def Let_def)
qed

lemma completions_drain:
  assumes "repo_inv s" and "stale_posts s"
  shows "\<exists>s'. repo_run (replicate (length (waiting c s)) (Complete c)) s = Inr s' \<and> waiting c s' = []"
  using assms
proof (induction "waiting c s" arbitrary: s)
  case Nil
  then show ?case by simp
next
  case (Cons t ts)
  from complete_sends_next [OF Cons.prems(1)] Cons.hyps(2) [symmetric] obtain s1 where
    s1: "repo_step (Complete c) s = Inr s1" "waiting c s1 = ts" by blast
  from Cons.hyps(1) [OF s1(2) [symmetric] repo_step_inv [OF Cons.prems s1(1)] repo_step_stale [OF Cons.prems(2) s1(1)]]
    s1 Cons.hyps(2) [symmetric]
  show ?case by simp
qed

lemma accepted_completions: "accepted c (replicate n (Complete c)) s = []"
  by (induction n arbitrary: s) (auto split: sum.split)

subsection \<open>Properties\<close>

lemma saves_sent:
  assumes "repo_run es repository_new = Inr s"
  shows "sent_of c s @ waiting c s = accepted c es repository_new"
  using repo_run_fifo [OF assms repository_new_inv, of c] by (simp add: sent_of_def waiting_def repository_new_def)

text \<open>
  C31: whatever the requests, the completions, the ends of characters and the resumptions of \<^verbatim>\<open>FinalizeSaves\<close> interleave
  to, the transactions of a character reach the database service in the order they were accepted, each once:
  those sent, followed by those waiting, are exactly those accepted. This holds up to where a run fails, and it fails
  nowhere but where a \<^verbatim>\<open>FinalizeSaves\<close> that had to wait is resumed, which erases a node of the map that is gone.
\<close>

theorem saves_in_order:
  "case repo_run es repository_new of
     Inr s \<Rightarrow> sent_of c s @ waiting c s = accepted c es repository_new
   | Inl f \<Rightarrow> f = UseAfterFree
       \<and> (\<exists>es1 es2 s. es = es1 @ Resume # es2 \<and> repo_run es1 repository_new = Inr s \<and> posted s \<noteq> [])"
  using saves_sent [of es _ c] repo_run_fails [OF _ repository_new_inv, of es]
  by (cases "repo_run es repository_new") simp_all

text \<open>
  None of them is forgotten: once the saves under way complete, one after the other, every
  accepted transaction has been sent.
\<close>

theorem saves_all_sent:
  assumes "repo_run es repository_new = Inr s"
  shows "\<exists>s'. repo_run (replicate (length (waiting c s)) (Complete c)) s = Inr s'
     \<and> sent_of c s' = accepted c es repository_new"
proof -
  have inv: "repo_inv s" "stale_posts s" using repo_run_inv [OF assms] repository_new_inv by blast+
  have old: "sent_of c s @ waiting c s = accepted c es repository_new"
    by (rule saves_sent [OF assms])
  from completions_drain [OF inv] obtain s' where
    s': "repo_run (replicate (length (waiting c s)) (Complete c)) s = Inr s'" "waiting c s' = []"
    by blast
  with repo_run_fifo [OF s'(1) inv, of c] old
  show ?thesis by (simp add: accepted_completions)
qed

theorem saves_all_sent_witness:
  "\<exists>s s'. repo_run [Save 9 (transaction_new 9), Save 9 (transaction_new 9)] repository_new = Inr s
     \<and> waiting 9 s \<noteq> [] \<and> repo_run [Complete 9] s = Inr s'
     \<and> sent_of 9 s' = [transaction_new 9, transaction_new 9]"
proof -
  let ?es = "[Save 9 (transaction_new 9), Save 9 (transaction_new 9)]"
  obtain s where s: "repo_run ?es repository_new = Inr s" "waiting 9 s = [transaction_new 9]"
    by (simp add: repo_step_def repo_defs repository_new_def waiting_def Let_def)
  from saves_all_sent [OF s(1), of 9] s show ?thesis
    by (auto simp: repo_step_def repo_defs repository_new_def shut_def Let_def)
qed

text \<open>
  \<^verbatim>\<open>FinalizeSaves\<close> that had to wait erases a node of the map that is gone: the completion that woke it
  has already removed the character's saves.
\<close>

theorem resumed_finalize_uses_freed_save:
  assumes "repo_run es repository_new = Inr s" and "posted s \<noteq> []"
  shows "resume_finalize s = Inl UseAfterFree"
  using repo_run_inv [OF assms(1) repository_new_inv] assms(2) by (simp add: resume_finalize_eq)

theorem resumed_finalize_uses_freed_save_witness:
  "\<exists>s. repo_run [Save 9 (transaction_new 9), Finalize 9, Complete 9] repository_new = Inr s
     \<and> posted s = [(9, 0)] \<and> resume_finalize s = Inl UseAfterFree"
proof -
  obtain s where s: "repo_run [Save 9 (transaction_new 9), Finalize 9, Complete 9] repository_new = Inr s"
    "posted s = [(9, 0)]"
    by (simp add: repo_step_def repo_defs repository_new_def Let_def)
  with resumed_finalize_uses_freed_save [OF s(1)] show ?thesis by auto
qed

end
