(* ===== verification/Strand.thy ===== *)
theory Strand
  imports Prelude
begin

text \<open>
  \<^verbatim>\<open>shared/execution/executor/strand.cpp\<close>: the executor that runs one task at a time on a pool of
  threads. The steps of the model are the critical sections of the spin lock and the operations on the
  concurrent queue, and the threads interleave freely between them.

  The theory proves mutual exclusion, that tasks run in the order in which they entered the queue, that
  the counter \<^verbatim>\<open>_taskCount\<close> never goes below what is queued, and that no posted task is forgotten: while one is
  left, a flush of the queue is under way or the thread that holds the strand will post one.
\<close>

subsection \<open>State\<close>

text \<open>
  What a thread is doing inside the strand, as a stack, the innermost call first. \<open>Emplacing a b\<close> is
  \<^verbatim>\<open>Post\<close> after its critical section, \<open>PostingFlush\<close> is a call of \<^verbatim>\<open>PostFlushTask\<close>, \<open>Flushing n k\<close> is the loop of
  \<^verbatim>\<open>FlushTasks\<close> with \<open>k\<close> of \<open>n\<close> tasks taken, \<open>Running n k\<close> is that loop inside a task,
  \<open>Dispatched\<close> is a task run by \<^verbatim>\<open>Dispatch\<close> itself, \<open>Locked\<close> is code between \<^verbatim>\<open>try_lock\<close> and \<^verbatim>\<open>release\<close>.
\<close>

type_synonym thread = nat

datatype 'a frame =
    Emplacing 'a bool
  | PostingFlush
  | Flushing int int
  | Running int int
  | Dispatched
  | Locked

text \<open>
  \<open>owner\<close> is \<^verbatim>\<open>_owner\<close> with its back first; \<open>flushes\<close> counts the calls of \<^verbatim>\<open>FlushTasks\<close> in the queue of
  the underlying executor. \<open>entered\<close> and \<open>executed\<close> record the order in which tasks entered the queue and
  in which they were run from it.
\<close>

record 'a strand =
  owner :: "thread list"
  taskCount :: int
  posted :: bool
  tasks :: "'a list"
  flushes :: nat
  stacks :: "thread \<Rightarrow> 'a frame list"
  entered :: "'a list"
  executed :: "'a list"

definition strand_new :: "'a strand" where
  "strand_new = \<lparr>owner = [], taskCount = 0, posted = False, tasks = [], flushes = 0,
     stacks = (\<lambda>_. []), entered = [], executed = []\<rparr>"

text \<open>Code that is not inside an operation of the strand.\<close>

fun user_code :: "'a frame list \<Rightarrow> bool" where
  "user_code [] = True"
| "user_code (Emplacing _ _ # _) = False"
| "user_code (PostingFlush # _) = False"
| "user_code (Flushing _ _ # _) = False"
| "user_code (Running _ _ # _) = True"
| "user_code (Dispatched # _) = True"
| "user_code (Locked # _) = True"

subsection \<open>Operations\<close>

definition set_stack :: "thread \<Rightarrow> 'a frame list \<Rightarrow> 'a strand \<Rightarrow> 'a strand" where
  "set_stack t fs s = s\<lparr>stacks := (stacks s)(t := fs)\<rparr>"

text \<open>The critical section of \<^verbatim>\<open>Post\<close>.\<close>

definition strand_post :: "thread \<Rightarrow> 'a \<Rightarrow> 'a strand \<Rightarrow> 'a strand" where
  "strand_post t a s =
     set_stack t (Emplacing a (\<not> posted s) # stacks s t)
       (s\<lparr>taskCount := taskCount s + 1, posted := True\<rparr>)"

text \<open>\<^verbatim>\<open>_tasks.emplace\<close> and what follows it.\<close>

definition strand_emplace :: "thread \<Rightarrow> 'a \<Rightarrow> bool \<Rightarrow> 'a frame list \<Rightarrow> 'a strand \<Rightarrow> 'a strand" where
  "strand_emplace t a shouldPostTask fs s =
     set_stack t (if shouldPostTask then PostingFlush # fs else fs)
       (s\<lparr>tasks := tasks s @ [a], entered := entered s @ [a]\<rparr>)"

definition post_flush_task :: "thread \<Rightarrow> 'a frame list \<Rightarrow> 'a strand \<Rightarrow> 'a strand" where
  "post_flush_task t fs s = set_stack t fs (s\<lparr>flushes := Suc (flushes s)\<rparr>)"

text \<open>\<^verbatim>\<open>Dispatch\<close>; \<open>inContext\<close> is \<^verbatim>\<open>ExecutionContext::GetExecutor() == this\<close>.\<close>

definition strand_dispatch :: "thread \<Rightarrow> bool \<Rightarrow> 'a \<Rightarrow> 'a strand \<Rightarrow> 'a strand" where
  "strand_dispatch t inContext a s =
     (if inContext \<and> (owner s = [] \<or> hd (owner s) = t)
      then set_stack t (Dispatched # stacks s t) (s\<lparr>owner := t # owner s\<rparr>)
      else strand_post t a s)"

text \<open>Giving the strand up, in \<^verbatim>\<open>Dispatch\<close> and in \<^verbatim>\<open>release\<close>.\<close>

definition strand_leave :: "thread \<Rightarrow> 'a frame list \<Rightarrow> 'a strand \<Rightarrow> 'a strand" where
  "strand_leave t fs s =
     set_stack t (if taskCount s > 0 then PostingFlush # fs else fs) (s\<lparr>owner := tl (owner s)\<rparr>)"

definition strand_try_lock :: "thread \<Rightarrow> 'a strand \<Rightarrow> bool \<times> 'a strand" where
  "strand_try_lock t s =
     (if owner s = [] then (True, set_stack t (Locked # stacks s t) (s\<lparr>owner := [t]\<rparr>))
      else (False, s))"

text \<open>\<^verbatim>\<open>FlushTasks\<close>: its first critical section, a round of its loop, its last critical section.\<close>

definition flush_begin :: "thread \<Rightarrow> 'a strand \<Rightarrow> 'a strand" where
  "flush_begin t s =
     (let s1 = s\<lparr>flushes := flushes s - 1\<rparr>
      in if owner s \<noteq> [] \<and> hd (owner s) \<noteq> t then s1
         else set_stack t (Flushing (taskCount s) 0 # stacks s t) (s1\<lparr>owner := t # owner s\<rparr>))"

definition flush_round :: "thread \<Rightarrow> int \<Rightarrow> int \<Rightarrow> 'a frame list \<Rightarrow> 'a strand \<Rightarrow> 'a strand" where
  "flush_round t n k fs s =
     (case tasks s of
        [] \<Rightarrow> s
      | a # as \<Rightarrow>
          set_stack t (Running n (k + 1) # fs) (s\<lparr>tasks := as, executed := executed s @ [a]\<rparr>))"

definition flush_end :: "thread \<Rightarrow> int \<Rightarrow> 'a frame list \<Rightarrow> 'a strand \<Rightarrow> 'a strand" where
  "flush_end t n fs s =
     (let count = taskCount s - n;
          s1 = s\<lparr>owner := tl (owner s), taskCount := count\<rparr>
      in if count > 0 then set_stack t (PostingFlush # fs) s1
         else set_stack t fs (s1\<lparr>posted := False\<rparr>))"

subsection \<open>Steps of the threads\<close>

datatype 'a action =
    APost 'a
  | ADispatch bool 'a
  | ATryLock
  | ARelease
  | AFlush
  | AReturn
  | AContinue

text \<open>
  One step of thread \<open>t\<close>; \<open>None\<close> where the thread cannot take the action. A flush is started by a
  worker of the executor, a thread with nothing on its stack.
\<close>

fun strand_step :: "thread \<Rightarrow> 'a action \<Rightarrow> 'a strand \<Rightarrow> 'a strand option" where
  "strand_step t (APost a) s = (if user_code (stacks s t) then Some (strand_post t a s) else None)"
| "strand_step t (ADispatch c a) s =
     (if user_code (stacks s t) then Some (strand_dispatch t c a s) else None)"
| "strand_step t ATryLock s = (if user_code (stacks s t) then Some (snd (strand_try_lock t s)) else None)"
| "strand_step t ARelease s =
     (case stacks s t of Locked # fs \<Rightarrow> Some (strand_leave t fs s) | _ \<Rightarrow> None)"
| "strand_step t AFlush s =
     (if stacks s t = [] \<and> flushes s > 0 then Some (flush_begin t s) else None)"
| "strand_step t AReturn s =
     (case stacks s t of
        Running n k # fs \<Rightarrow> Some (set_stack t (Flushing n k # fs) s)
      | Dispatched # fs \<Rightarrow> Some (strand_leave t fs s)
      | _ \<Rightarrow> None)"
| "strand_step t AContinue s =
     (case stacks s t of
        Emplacing a b # fs \<Rightarrow> Some (strand_emplace t a b fs s)
      | PostingFlush # fs \<Rightarrow> Some (post_flush_task t fs s)
      | Flushing n k # fs \<Rightarrow> Some (if k < n then flush_round t n k fs s else flush_end t n fs s)
      | _ \<Rightarrow> None)"

inductive strand_reach :: "nat \<Rightarrow> 'a strand \<Rightarrow> bool" for N where
  init: "strand_reach N strand_new"
| step: "strand_reach N s \<Longrightarrow> t < N \<Longrightarrow> strand_step t act s = Some s' \<Longrightarrow> strand_reach N s'"

subsection \<open>The invariant\<close>

fun owning :: "'a frame \<Rightarrow> bool" where
  "owning (Emplacing _ _) = False"
| "owning PostingFlush = False"
| "owning (Flushing _ _) = True"
| "owning (Running _ _) = True"
| "owning Dispatched = True"
| "owning Locked = True"

fun taken :: "'a frame \<Rightarrow> int" where
  "taken (Flushing n k) = k"
| "taken (Running n k) = k"
| "taken (Emplacing _ _) = 1"
| "taken _ = 0"

fun frame_ok :: "int \<Rightarrow> 'a frame \<Rightarrow> bool" where
  "frame_ok c (Flushing n k) \<longleftrightarrow> 0 \<le> k \<and> k \<le> n \<and> n \<le> c"
| "frame_ok c (Running n k) \<longleftrightarrow> 0 \<le> k \<and> k \<le> n \<and> n \<le> c"
| "frame_ok c _ \<longleftrightarrow> True"

fun will_flush :: "'a frame \<Rightarrow> bool" where
  "will_flush (Emplacing _ b) = b"
| "will_flush PostingFlush = True"
| "will_flush _ = False"

fun is_flush :: "'a frame \<Rightarrow> bool" where
  "is_flush (Flushing _ _) = True"
| "is_flush (Running _ _) = True"
| "is_flush _ = False"

text \<open>The tasks that are counted but not in the queue: being entered, or taken by the flush under way.\<close>

definition outside :: "'a frame list \<Rightarrow> int" where
  "outside fs = (\<Sum>f\<leftarrow>fs. taken f)"

definition owns :: "'a frame list \<Rightarrow> nat" where
  "owns fs = length (filter owning fs)"

text \<open>Something will look at the queue again.\<close>

definition attended :: "'a strand \<Rightarrow> bool" where
  "attended s \<longleftrightarrow> flushes s > 0 \<or> owner s \<noteq> [] \<or> (\<exists>t. \<exists>f \<in> set (stacks s t). will_flush f)"

text \<open>Every entry of \<^verbatim>\<open>_owner\<close> is the same thread, once for each call that owns the strand.\<close>

definition owner_ok :: "thread list \<Rightarrow> (thread \<Rightarrow> nat) \<Rightarrow> bool" where
  "owner_ok os c \<longleftrightarrow> (\<exists>u. os = replicate (c u) u \<and> (\<forall>t. t \<noteq> u \<longrightarrow> c t = 0))"

definition strand_inv :: "nat \<Rightarrow> 'a strand \<Rightarrow> bool" where
  "strand_inv N s \<longleftrightarrow>
     (\<forall>t. t \<ge> N \<longrightarrow> stacks s t = [])
     \<and> owner_ok (owner s) (\<lambda>t. owns (stacks s t))
     \<and> (\<forall>t. length (filter is_flush (stacks s t)) \<le> 1)
     \<and> (\<forall>t. \<forall>f \<in> set (stacks s t). frame_ok (taskCount s) f)
     \<and> taskCount s = int (length (tasks s)) + (\<Sum>t<N. outside (stacks s t))
     \<and> posted s = (taskCount s > 0)
     \<and> (taskCount s > 0 \<longrightarrow> attended s)
     \<and> entered s = executed s @ tasks s"

lemma owns_simps [simp]:
  "owns [] = 0" "owns (f # fs) = (if owning f then Suc (owns fs) else owns fs)"
  by (simp_all add: owns_def)

lemma outside_simps [simp]: "outside [] = 0" "outside (f # fs) = taken f + outside fs"
  by (simp_all add: outside_def)

lemma frame_ok_mono: "frame_ok c f \<Longrightarrow> c \<le> c' \<Longrightarrow> frame_ok c' f"
  by (cases f) auto

lemma frame_ok_other: "\<not> is_flush f \<Longrightarrow> frame_ok c f"
  by (cases f) auto

lemma flush_owns: "is_flush f \<Longrightarrow> f \<in> set fs \<Longrightarrow> 0 < owns fs"
proof (induction fs)
  case (Cons g fs)
  then show ?case by (cases f) auto
qed simp

lemma owner_ok_same: "owner_ok os c \<Longrightarrow> n = c t \<Longrightarrow> owner_ok os (c(t := n))"
  by simp

lemma owner_ok_push:
  assumes "owner_ok os c" and "os = [] \<or> hd os = t"
  shows "owner_ok (t # os) (c(t := Suc (c t)))"
proof -
  from assms(1) obtain u where u: "os = replicate (c u) u" "\<forall>v. v \<noteq> u \<longrightarrow> c v = 0"
    by (auto simp: owner_ok_def)
  show ?thesis
  proof (cases "os = []")
    case True
    with u have "\<forall>v. c v = 0" by (metis length_replicate list.size(3))
    with True show ?thesis by (auto simp: owner_ok_def intro!: exI [of _ t])
  next
    case False
    with u assms(2) have "u = t" by (cases "c u") auto
    with u show ?thesis by (auto simp: owner_ok_def intro!: exI [of _ t])
  qed
qed

lemma owner_ok_pop:
  assumes "owner_ok os c" and "c t = Suc n"
  shows "owner_ok (tl os) (c(t := n))"
proof -
  from assms obtain u where u: "os = replicate (c u) u" "\<forall>v. v \<noteq> u \<longrightarrow> c v = 0"
    by (auto simp: owner_ok_def)
  with assms(2) have "u = t" by (metis Zero_not_Suc)
  with u assms(2) show ?thesis by (auto simp: owner_ok_def intro!: exI [of _ t])
qed

lemma owner_ok_unique: "owner_ok os c \<Longrightarrow> 0 < c t \<Longrightarrow> 0 < c u \<Longrightarrow> t = u"
  unfolding owner_ok_def by (metis less_not_refl)

lemma owner_unique:
  assumes "strand_inv N s" and "0 < owns (stacks s t)" and "0 < owns (stacks s u)"
  shows "t = u"
proof -
  have "owner_ok (owner s) (\<lambda>t. owns (stacks s t))" using assms(1) by (simp add: strand_inv_def)
  from owner_ok_unique [OF this assms(2,3)] show ?thesis .
qed

text \<open>A step changes the stack of one thread, and either keeps, takes or gives up one ownership.\<close>

lemma strand_inv_change:
  assumes inv: "strand_inv N s" and t: "t < N" and st: "stacks s' = (stacks s)(t := fs)"
    and own: "(owner s' = owner s \<and> owns fs = owns (stacks s t))
      \<or> (owner s' = t # owner s \<and> (owner s = [] \<or> hd (owner s) = t) \<and> owns fs = Suc (owns (stacks s t)))
      \<or> (owner s' = tl (owner s) \<and> owns (stacks s t) = Suc (owns fs))"
    and fl: "length (filter is_flush fs) \<le> 1" and ok: "\<forall>f \<in> set fs. frame_ok (taskCount s') f"
    and le: "taskCount s \<le> taskCount s' \<or> 0 < owns (stacks s t)"
    and cnt: "taskCount s' - taskCount s
      = int (length (tasks s')) - int (length (tasks s)) + outside fs - outside (stacks s t)"
    and "posted s' = (taskCount s' > 0)" and "taskCount s' > 0 \<Longrightarrow> attended s'"
    and "entered s' = executed s' @ tasks s'"
  shows "strand_inv N s'"
proof -
  have oo: "owner_ok (owner s) (\<lambda>u. owns (stacks s u))" using inv by (simp add: strand_inv_def)
  have upd: "(\<lambda>u. owns (stacks s' u)) = (\<lambda>u. owns (stacks s u))(t := owns fs)"
    by (auto simp: st)
  have "owner_ok (owner s') (\<lambda>u. owns (stacks s' u))"
    unfolding upd using own owner_ok_same [OF oo, of "owns fs" t] owner_ok_push [OF oo, of t]
      owner_ok_pop [OF oo, of t "owns fs"]
    by auto
  moreover have "frame_ok (taskCount s') f" if f: "f \<in> set (stacks s' u)" for u f
  proof (cases "u = t")
    case True
    with f ok st show ?thesis by simp
  next
    case False
    with f st have fu: "f \<in> set (stacks s u)" by simp
    with inv have fok: "frame_ok (taskCount s) f" by (auto simp: strand_inv_def)
    show ?thesis
    proof (cases "taskCount s \<le> taskCount s'")
      case True
      with fok show ?thesis by (rule frame_ok_mono)
    next
      case False
      with le have "0 < owns (stacks s t)" by simp
      with owner_unique [OF inv this] \<open>u \<noteq> t\<close> have "\<not> is_flush f" using flush_owns [OF _ fu] by blast
      then show ?thesis by (rule frame_ok_other)
    qed
  qed
  moreover have "(\<Sum>u<N. outside (stacks s' u)) = (\<Sum>u<N. outside (stacks s u)) + outside fs - outside (stacks s t)"
  proof -
    have "(\<Sum>u<N. outside (stacks s' u)) = outside fs + (\<Sum>u \<in> {..<N} - {t}. outside (stacks s u))"
      using t by (simp add: st sum.remove [of "{..<N}" t])
    moreover have "(\<Sum>u<N. outside (stacks s u)) = outside (stacks s t) + (\<Sum>u \<in> {..<N} - {t}. outside (stacks s u))"
      using t by (simp add: sum.remove [of "{..<N}" t])
    ultimately show ?thesis by simp
  qed
  moreover have "taskCount s = int (length (tasks s)) + (\<Sum>u<N. outside (stacks s u))"
    and "\<forall>u. length (filter is_flush (stacks s u)) \<le> 1" and "\<forall>u. u \<ge> N \<longrightarrow> stacks s u = []"
    using inv by (simp_all add: strand_inv_def)
  ultimately show ?thesis
    unfolding strand_inv_def using assms(9-11) cnt fl t by (simp add: st)
qed

subsection \<open>Every step keeps the invariant\<close>

lemma strand_invD:
  assumes "strand_inv N s"
  shows "\<And>f t. f \<in> set (stacks s t) \<Longrightarrow> frame_ok (taskCount s) f"
    and "posted s = (taskCount s > 0)" and "taskCount s > 0 \<Longrightarrow> attended s"
    and "entered s = executed s @ tasks s"
    and "taskCount s = int (length (tasks s)) + (\<Sum>t<N. outside (stacks s t))"
    and "owner_ok (owner s) (\<lambda>t. owns (stacks s t))"
    and "\<And>t. length (filter is_flush (stacks s t)) \<le> 1"
    and "\<And>t. t \<ge> N \<Longrightarrow> stacks s t = []"
  using assms by (auto simp: strand_inv_def)

lemma taken_nonneg: "frame_ok c f \<Longrightarrow> 0 \<le> taken f"
  by (cases f) auto

lemma outside_nonneg:
  assumes "strand_inv N s"
  shows "0 \<le> outside (stacks s t)"
  unfolding outside_def using strand_invD(1) [OF assms, of _ t] taken_nonneg
  by (intro sum_list_nonneg) auto

lemma taskCount_nonneg:
  assumes "strand_inv N s"
  shows "0 \<le> taskCount s"
  using strand_invD(5) [OF assms] outside_nonneg [OF assms] by (simp add: sum_nonneg)

lemma owner_nonempty:
  assumes "strand_inv N s" and "0 < owns (stacks s t)"
  shows "owner s \<noteq> []"
  using strand_invD(6) [OF assms(1)] assms(2) unfolding owner_ok_def by (metis length_0_conv length_replicate less_not_refl)

lemma attended_other:
  assumes "attended s" and "stacks s' = (stacks s)(t := fs)" and "flushes s \<le> flushes s'"
    and "owner s = [] \<or> owner s' \<noteq> []"
    and "\<And>f. f \<in> set (stacks s t) \<Longrightarrow> will_flush f \<Longrightarrow> f \<in> set fs"
  shows "attended s'"
  using assms unfolding attended_def by (metis fun_upd_apply less_le_trans)

lemma strand_post_inv:
  assumes inv: "strand_inv N s" and t: "t < N"
  shows "strand_inv N (strand_post t a s)"
proof (rule strand_inv_change [OF inv t, where fs = "Emplacing a (\<not> posted s) # stacks s t"])
  let ?s = "strand_post t a s"
  show "length (filter is_flush (Emplacing a (\<not> posted s) # stacks s t)) \<le> 1"
    using strand_invD(7) [OF inv] by simp
  show "\<forall>f \<in> set (Emplacing a (\<not> posted s) # stacks s t). frame_ok (taskCount ?s) f"
    using strand_invD(1) [OF inv, of _ t] frame_ok_mono [of "taskCount s" _ "taskCount s + 1"]
    by (auto simp: strand_post_def set_stack_def)
  show "attended ?s"
  proof (cases "posted s")
    case True
    with strand_invD(2,3) [OF inv] have "attended s" by simp
    then show ?thesis
      by (rule attended_other [where t = t and fs = "Emplacing a (\<not> posted s) # stacks s t"])
        (auto simp: strand_post_def set_stack_def)
  next
    case False
    then show ?thesis by (auto simp: attended_def strand_post_def set_stack_def intro!: exI [of _ t])
  qed
qed (use taskCount_nonneg [OF inv] strand_invD(4) [OF inv] in \<open>auto simp: strand_post_def set_stack_def\<close>)

lemma strand_emplace_inv:
  assumes inv: "strand_inv N s" and t: "t < N" and st: "stacks s t = Emplacing a b # fs"
  shows "strand_inv N (strand_emplace t a b fs s)"
proof (rule strand_inv_change [OF inv t, where fs = "if b then PostingFlush # fs else fs"])
  let ?s = "strand_emplace t a b fs s"
  show "length (filter is_flush (if b then PostingFlush # fs else fs)) \<le> 1"
    using strand_invD(7) [OF inv, of t] st by simp
  show "\<forall>f \<in> set (if b then PostingFlush # fs else fs). frame_ok (taskCount ?s) f"
    using strand_invD(1) [OF inv, of _ t] st by (auto simp: strand_emplace_def set_stack_def)
  show "attended ?s" if "taskCount ?s > 0"
  proof (cases b)
    case True
    then show ?thesis by (auto simp: attended_def strand_emplace_def set_stack_def intro!: exI [of _ t])
  next
    case False
    with that have "attended s" using strand_invD(3) [OF inv] by (simp add: strand_emplace_def set_stack_def)
    then show ?thesis
      by (rule attended_other [where t = t]) (use st False in \<open>auto simp: strand_emplace_def set_stack_def\<close>)
  qed
qed (use strand_invD(2,4) [OF inv] st in \<open>auto simp: strand_emplace_def set_stack_def\<close>)

lemma post_flush_task_inv:
  assumes inv: "strand_inv N s" and t: "t < N" and st: "stacks s t = PostingFlush # fs"
  shows "strand_inv N (post_flush_task t fs s)"
  by (rule strand_inv_change [OF inv t, where fs = fs])
    (use strand_invD(1) [OF inv, of _ t] strand_invD(2,4) [OF inv] strand_invD(7) [OF inv, of t] st in
      \<open>auto simp: post_flush_task_def set_stack_def attended_def\<close>)

lemma strand_leave_inv:
  assumes inv: "strand_inv N s" and t: "t < N" and st: "stacks s t = f # fs" and f: "f = Dispatched \<or> f = Locked"
  shows "strand_inv N (strand_leave t fs s)"
proof (rule strand_inv_change [OF inv t, where fs = "if taskCount s > 0 then PostingFlush # fs else fs"])
  let ?s = "strand_leave t fs s" and ?fs = "if taskCount s > 0 then PostingFlush # fs else fs"
  show "length (filter is_flush ?fs) \<le> 1"
    using strand_invD(7) [OF inv, of t] st f by auto
  show "\<forall>g \<in> set ?fs. frame_ok (taskCount ?s) g"
    using strand_invD(1) [OF inv, of _ t] st by (auto simp: strand_leave_def set_stack_def)
  show "attended ?s" if "taskCount ?s > 0"
    using that by (auto simp: attended_def strand_leave_def set_stack_def intro!: exI [of _ t])
qed (use strand_invD(2,4) [OF inv] st f in \<open>auto simp: strand_leave_def set_stack_def\<close>)

lemma take_ownership_inv:
  assumes inv: "strand_inv N s" and t: "t < N" and own: "owner s = [] \<or> hd (owner s) = t"
    and f: "f = Dispatched \<or> f = Locked \<or> (f = Flushing (taskCount s) 0 \<and> stacks s t = [])"
    and s': "s' = set_stack t (f # stacks s t) (s\<lparr>flushes := n, owner := t # owner s\<rparr>)"
  shows "strand_inv N s'"
proof (rule strand_inv_change [OF inv t, where fs = "f # stacks s t"])
  show "length (filter is_flush (f # stacks s t)) \<le> 1"
    using strand_invD(7) [OF inv, of t] f by auto
  show "\<forall>g \<in> set (f # stacks s t). frame_ok (taskCount s') g"
    using strand_invD(1) [OF inv, of _ t] taskCount_nonneg [OF inv] f by (auto simp: s' set_stack_def)
qed (use strand_invD(2,4) [OF inv] own f in \<open>auto simp: s' set_stack_def attended_def\<close>)

lemma flush_round_inv:
  assumes inv: "strand_inv N s" and t: "t < N" and st: "stacks s t = Flushing n k # fs" and k: "k < n"
  shows "strand_inv N (flush_round t n k fs s)"
proof (cases "tasks s")
  case Nil
  with inv show ?thesis by (simp add: flush_round_def)
next
  case (Cons a as)
  let ?s = "flush_round t n k fs s"
  have own: "owner s \<noteq> []" by (rule owner_nonempty [OF inv, of t]) (simp add: st)
  show ?thesis
  proof (rule strand_inv_change [OF inv t, where fs = "Running n (k + 1) # fs"])
    show "length (filter is_flush (Running n (k + 1) # fs)) \<le> 1"
      using strand_invD(7) [OF inv, of t] st by simp
    show "\<forall>g \<in> set (Running n (k + 1) # fs). frame_ok (taskCount ?s) g"
      using strand_invD(1) [OF inv, of _ t] strand_invD(1) [OF inv, of "Flushing n k" t] st k Cons
      by (auto simp: flush_round_def set_stack_def)
  qed (use strand_invD(2,4) [OF inv] st Cons own in \<open>auto simp: flush_round_def set_stack_def attended_def\<close>)
qed

lemma flush_end_inv:
  assumes inv: "strand_inv N s" and t: "t < N" and st: "stacks s t = Flushing n k # fs" and k: "\<not> k < n"
  shows "strand_inv N (flush_end t n fs s)"
proof (rule strand_inv_change [OF inv t, where fs = "if taskCount s - n > 0 then PostingFlush # fs else fs"])
  let ?s = "flush_end t n fs s" and ?fs = "if taskCount s - n > 0 then PostingFlush # fs else fs"
  have fl: "filter is_flush fs = []" using strand_invD(7) [OF inv, of t] st by simp
  have nk: "n = k" "n \<le> taskCount s" using strand_invD(1) [OF inv, of "Flushing n k" t] st k by auto
  show "length (filter is_flush ?fs) \<le> 1" using fl by simp
  show "\<forall>g \<in> set ?fs. frame_ok (taskCount ?s) g"
    using fl frame_ok_other by (auto simp: filter_empty_conv)
  show "taskCount ?s - taskCount s = int (length (tasks ?s)) - int (length (tasks s)) + outside ?fs - outside (stacks s t)"
    using nk st by (simp add: flush_end_def set_stack_def Let_def)
  show "attended ?s" if "taskCount ?s > 0"
    using that by (auto simp: attended_def flush_end_def set_stack_def Let_def intro!: exI [of _ t])
qed (use strand_invD(2,4) [OF inv] strand_invD(1) [OF inv, of "Flushing n k" t] st k in
    \<open>auto simp: flush_end_def set_stack_def Let_def\<close>)

lemma flush_begin_inv:
  assumes inv: "strand_inv N s" and t: "t < N" and st: "stacks s t = []" and n: "flushes s > 0"
  shows "strand_inv N (flush_begin t s)"
proof (cases "owner s \<noteq> [] \<and> hd (owner s) \<noteq> t")
  case False
  with take_ownership_inv [OF inv t, of "Flushing (taskCount s) 0" _ "flushes s - 1"] st show ?thesis
    by (auto simp: flush_begin_def Let_def set_stack_def)
next
  case True
  let ?s = "s\<lparr>flushes := flushes s - 1\<rparr>"
  have "strand_inv N ?s"
    by (rule strand_inv_change [OF inv t, where fs = "[]"])
      (use True st strand_invD(2,4) [OF inv] in \<open>auto simp: attended_def\<close>)
  with True show ?thesis by (simp add: flush_begin_def)
qed

lemma flush_return_inv:
  assumes inv: "strand_inv N s" and t: "t < N" and st: "stacks s t = Running n k # fs"
  shows "strand_inv N (set_stack t (Flushing n k # fs) s)"
proof (rule strand_inv_change [OF inv t, where fs = "Flushing n k # fs"])
  have own: "owner s \<noteq> []" by (rule owner_nonempty [OF inv, of t]) (simp add: st)
  then show "attended (set_stack t (Flushing n k # fs) s)" by (simp add: attended_def set_stack_def)
  show "\<forall>f \<in> set (Flushing n k # fs). frame_ok (taskCount (set_stack t (Flushing n k # fs) s)) f"
    using strand_invD(1) [OF inv, of _ t] strand_invD(1) [OF inv, of "Running n k" t] st
    by (auto simp: set_stack_def)
qed (use strand_invD(2,4) [OF inv] strand_invD(7) [OF inv, of t] st in \<open>auto simp: set_stack_def\<close>)

lemma strand_step_inv:
  assumes inv: "strand_inv N s" and t: "t < N" and step: "strand_step t act s = Some s'"
  shows "strand_inv N s'"
proof (cases act)
  case (APost a)
  with step strand_post_inv [OF inv t] show ?thesis by (auto split: if_splits)
next
  case (ADispatch c a)
  with step have s': "s' = strand_dispatch t c a s" by (auto split: if_splits)
  show ?thesis
  proof (cases "c \<and> (owner s = [] \<or> hd (owner s) = t)")
    case True
    with take_ownership_inv [OF inv t, of Dispatched s' "flushes s"] s' show ?thesis
      by (auto simp: strand_dispatch_def set_stack_def)
  next
    case False
    with strand_post_inv [OF inv t] s' show ?thesis by (auto simp: strand_dispatch_def)
  qed
next
  case ATryLock
  with step have s': "s' = snd (strand_try_lock t s)" by (auto split: if_splits)
  with inv take_ownership_inv [OF inv t, of Locked s' "flushes s"] show ?thesis
    by (auto simp: strand_try_lock_def set_stack_def)
next
  case ARelease
  with step obtain fs where "stacks s t = Locked # fs" "s' = strand_leave t fs s"
    by (auto split: list.splits frame.splits)
  with strand_leave_inv [OF inv t] show ?thesis by blast
next
  case AFlush
  with step flush_begin_inv [OF inv t] show ?thesis by (auto split: if_splits)
next
  case AReturn
  with step consider n k fs where "stacks s t = Running n k # fs" "s' = set_stack t (Flushing n k # fs) s"
    | fs where "stacks s t = Dispatched # fs" "s' = strand_leave t fs s"
    by (auto split: list.splits frame.splits)
  then show ?thesis using flush_return_inv [OF inv t] strand_leave_inv [OF inv t] by cases blast+
next
  case AContinue
  with step consider a b fs where "stacks s t = Emplacing a b # fs" "s' = strand_emplace t a b fs s"
    | fs where "stacks s t = PostingFlush # fs" "s' = post_flush_task t fs s"
    | n k fs where "stacks s t = Flushing n k # fs" "k < n" "s' = flush_round t n k fs s"
    | n k fs where "stacks s t = Flushing n k # fs" "\<not> k < n" "s' = flush_end t n fs s"
    by (auto split: list.splits frame.splits if_splits)
  then show ?thesis
    using strand_emplace_inv [OF inv t] post_flush_task_inv [OF inv t] flush_round_inv [OF inv t]
      flush_end_inv [OF inv t]
    by cases blast+
qed

lemma strand_new_inv: "strand_inv N strand_new"
  by (simp add: strand_inv_def strand_new_def owner_ok_def)

lemma strand_reach_inv: "strand_reach N s \<Longrightarrow> strand_inv N s"
  by (induction rule: strand_reach.induct) (blast intro: strand_new_inv strand_step_inv)+

subsection \<open>Properties\<close>

text \<open>
  C3: at most one thread at a time is inside the strand: whatever the threads post, dispatch, lock and
  flush, a task run by a flush, a dispatched task and a holder of the lock are always the same thread.
\<close>

theorem strand_mutual_exclusion:
  assumes "strand_reach N s" and "f \<in> set (stacks s t)" and "owning f"
    and "g \<in> set (stacks s u)" and "owning g"
  shows "t = u"
proof -
  have "0 < owns fs" if "h \<in> set fs" "owning h" for h :: "'a frame" and fs
    using that by (induction fs) auto
  with owner_unique [OF strand_reach_inv [OF assms(1)]] assms(2-5) show ?thesis by metis
qed

text \<open>
  C4: no posted task is forgotten and none overtakes another: tasks are run in the order in which
  they entered the queue, and once every thread has left the strand and the executor has no flush
  left, all of them have been run and the counter is back to zero.
\<close>

theorem strand_runs_everything_in_order:
  assumes "strand_reach N s"
  shows "entered s = executed s @ tasks s
    \<and> ((\<forall>t. stacks s t = []) \<longrightarrow> flushes s = 0 \<longrightarrow> executed s = entered s \<and> taskCount s = 0 \<and> \<not> posted s)"
proof -
  note inv = strand_reach_inv [OF assms]
  have "executed s = entered s \<and> taskCount s = 0 \<and> \<not> posted s"
    if idle: "\<forall>t. stacks s t = []" and "flushes s = 0"
  proof -
    have "owner_ok (owner s) (\<lambda>_. 0)" using strand_invD(6) [OF inv] idle by simp
    then have "owner s = []" by (simp add: owner_ok_def)
    with that have "\<not> attended s" by (simp add: attended_def)
    with strand_invD(3) [OF inv] taskCount_nonneg [OF inv] have "taskCount s = 0" by force
    with strand_invD(5) [OF inv] idle have "tasks s = []" by simp
    with \<open>taskCount s = 0\<close> strand_invD(2,4) [OF inv] show ?thesis by simp
  qed
  with strand_invD(4) [OF inv] show ?thesis by blast
qed

text \<open>Two threads, one posting while the other flushes.\<close>

fun strand_run :: "(thread \<times> 'a action) list \<Rightarrow> 'a strand \<Rightarrow> 'a strand option" where
  "strand_run [] s = Some s"
| "strand_run ((t, act) # as) s = Option.bind (strand_step t act s) (strand_run as)"

lemma strand_run_reach:
  "strand_run as s = Some s' \<Longrightarrow> strand_reach N s \<Longrightarrow> \<forall>a \<in> set as. fst a < N \<Longrightarrow> strand_reach N s'"
  by (induction as s rule: strand_run.induct)
    (auto simp: Option.bind_eq_Some_conv intro: strand_reach.step)

definition sample_run :: "(thread \<times> nat action) list" where
  "sample_run =
     [(0, APost 1), (0, AContinue), (0, AContinue), (1, AFlush), (1, AContinue), (0, APost 2), (1, AReturn),
      (0, AContinue), (1, AContinue)]"

lemma sample_reach: "\<exists>s. strand_run sample_run strand_new = Some s \<and> strand_reach 2 s"
proof -
  have "strand_run sample_run strand_new \<noteq> None"
    by (simp add: sample_run_def strand_new_def strand_post_def strand_emplace_def post_flush_task_def
        set_stack_def flush_begin_def flush_round_def flush_end_def Let_def)
  then obtain s where "strand_run sample_run strand_new = Some s" by blast
  moreover from strand_run_reach [OF this strand_reach.init, of 2] have "strand_reach 2 s"
    by (simp add: sample_run_def)
  ultimately show ?thesis by blast
qed

theorem strand_mutual_exclusion_witness:
  "\<exists>s :: nat strand. strand_reach 2 s \<and> Running 1 1 \<in> set (stacks s 1)
     \<and> (\<forall>u. \<forall>g \<in> set (stacks s u). owning g \<longrightarrow> u = 1)"
proof -
  let ?run = "take 6 sample_run"
  have "strand_run ?run strand_new \<noteq> None
      \<and> Running 1 1 \<in> set (stacks (the (strand_run ?run strand_new)) 1)"
    by (simp add: sample_run_def strand_new_def strand_post_def strand_emplace_def post_flush_task_def
        set_stack_def flush_begin_def flush_round_def Let_def)
  then obtain s where s: "strand_run ?run strand_new = Some s" "Running 1 1 \<in> set (stacks s 1)" by auto
  have r: "strand_reach 2 s" by (rule strand_run_reach [OF s(1) strand_reach.init]) (simp add: sample_run_def)
  have "owning (Running 1 1 :: nat frame)" by simp
  from strand_mutual_exclusion [OF r s(2) this] r s(2) show ?thesis by metis
qed

theorem strand_runs_everything_in_order_witness:
  "\<exists>s :: nat strand. strand_reach 2 s \<and> entered s = [1, 2] \<and> entered s = executed s @ tasks s"
proof -
  have "strand_run sample_run strand_new \<noteq> None
      \<and> entered (the (strand_run sample_run strand_new)) = [1, 2]"
    by (simp add: sample_run_def strand_new_def strand_post_def strand_emplace_def post_flush_task_def
        set_stack_def flush_begin_def flush_round_def flush_end_def Let_def)
  then obtain s where s: "strand_run sample_run strand_new = Some s" "entered s = [1, 2]" by auto
  with sample_reach have r: "strand_reach 2 s" by simp
  from strand_runs_everything_in_order [OF r] have "entered s = executed s @ tasks s" by blast
  with r s(2) show ?thesis by blast
qed

text \<open>
  The flush loop, which spins while the queue is empty, only ever waits for a thread that is between
  the two halves of \<^verbatim>\<open>Post\<close>: it never spins on a task that nobody is about to enter.
\<close>

theorem strand_flush_waits_for_post:
  assumes "strand_reach N s" and "stacks s t = Flushing n k # fs" and "k < n" and "tasks s = []"
  shows "\<exists>u a b. Emplacing a b \<in> set (stacks s u)"
proof (rule ccontr)
  assume no: "\<not> ?thesis"
  note inv = strand_reach_inv [OF assms(1)]
  have flush_only: "taken f = 0" if "f \<in> set (stacks s u)" "\<not> is_flush f" for f u
  proof (cases f)
    case (Emplacing a b)
    with no that(1) show ?thesis by blast
  qed (use that(2) in simp_all)
  have mine: "outside (stacks s t) = k"
  proof -
    have "filter is_flush fs = []" using strand_invD(7) [OF inv, of t] assms(2) by simp
    then have "\<forall>f \<in> set fs. taken f = 0"
      using flush_only [of _ t] assms(2) by (auto simp: filter_empty_conv)
    then have "outside fs = 0" by (simp add: outside_def cong: map_cong)
    with assms(2) show ?thesis by simp
  qed
  have other: "outside (stacks s u) = 0" if "u \<noteq> t" for u
  proof -
    have "\<not> is_flush f" if "f \<in> set (stacks s u)" for f
      using owner_unique [OF inv, of t u] flush_owns [OF _ that] \<open>u \<noteq> t\<close> assms(2) by auto
    then have "\<forall>f \<in> set (stacks s u). taken f = 0" using flush_only by blast
    then show ?thesis by (simp add: outside_def cong: map_cong)
  qed
  have "t < N" using strand_invD(8) [OF inv, of t] assms(2) by (cases "t < N") auto
  then have "(\<Sum>u<N. outside (stacks s u)) = k"
    using mine other by (simp add: sum.remove [of "{..<N}" t])
  moreover have "n \<le> taskCount s"
    using strand_invD(1) [OF inv, of "Flushing n k" t] assms(2) by simp
  ultimately show False using strand_invD(5) [OF inv] assms(3,4) by simp
qed

theorem strand_flush_waits_for_post_witness:
  "\<exists>s :: nat strand. strand_reach 2 s \<and> stacks s 1 = [Flushing 1 0] \<and> tasks s = []
     \<and> (\<exists>u a b. Emplacing a b \<in> set (stacks s u))"
proof -
  let ?run = "[(0, APost 1), (0, AContinue), (0, AContinue), (1, AFlush), (1, AContinue), (1, AReturn),
    (0, APost 2), (1, AContinue), (1, AContinue), (1, AFlush)] :: (thread \<times> nat action) list"
  have "strand_run ?run strand_new \<noteq> None"
    by (simp add: strand_new_def strand_post_def strand_emplace_def post_flush_task_def
        set_stack_def flush_begin_def flush_round_def flush_end_def Let_def)
  then obtain s where s: "strand_run ?run strand_new = Some s" by blast
  then have "stacks s 1 = [Flushing 1 0]" and "tasks s = []"
    by (auto simp: strand_new_def strand_post_def strand_emplace_def post_flush_task_def
        set_stack_def flush_begin_def flush_round_def flush_end_def Let_def)
  moreover have r: "strand_reach 2 s" by (rule strand_run_reach [OF s strand_reach.init]) simp
  moreover have "(0 :: int) < 1" by simp
  ultimately show ?thesis using strand_flush_waits_for_post [OF r] by blast
qed

end
