(* ===== verification/Future.thy ===== *)
theory Future
  imports Prelude
begin

text \<open>
  \<^verbatim>\<open>shared/execution/future\<close>: the context a future and its promise share, the continuations of
  \<^verbatim>\<open>Then\<close> and \<^verbatim>\<open>ContinuationWith\<close>, and \<^verbatim>\<open>WaitAll\<close> and \<^verbatim>\<open>WaitAny\<close>. Every operation of the context is one critical
  section of its mutex, followed at most by the call of the continuation, so an interleaving of threads is a
  sequence of operations.

  The theory proves that a context settles once, that its continuation is called exactly once in
  whichever order it is registered and the context settles, that a value is handed out once, and that
  \<^verbatim>\<open>WaitAll\<close> completes with the last of its futures and \<^verbatim>\<open>WaitAny\<close> with the first.
\<close>

subsection \<open>The shared context\<close>

datatype future_status = Pending | Complete | Canceled

text \<open>\<open>called\<close> records the continuations that have been called, in order.\<close>

record ('a, 'k) shared_context =
  status :: future_status
  future_value :: "'a option"
  exception :: "fault option"
  continuation :: "'k option"
  called :: "'k list"

definition shared_context_new :: "('a, 'k) shared_context" where
  "shared_context_new =
     \<lparr>status = Pending, future_value = None, exception = None, continuation = None, called = []\<rparr>"

definition is_pending :: "('a, 'k) shared_context \<Rightarrow> bool" where
  "is_pending c \<longleftrightarrow> status c = Pending"

text \<open>\<^verbatim>\<open>_continuation.swap(continuation)\<close> and the call after the critical section.\<close>

definition call_continuation :: "('a, 'k) shared_context \<Rightarrow> ('a, 'k) shared_context" where
  "call_continuation c =
     (case continuation c of
        None \<Rightarrow> c
      | Some k \<Rightarrow> c\<lparr>continuation := None, called := called c @ [k]\<rparr>)"

definition on_success :: "'a \<Rightarrow> ('a, 'k) shared_context \<Rightarrow> ('a, 'k) shared_context" where
  "on_success v c =
     (if status c \<noteq> Pending then c
      else call_continuation (c\<lparr>status := Complete, future_value := Some v\<rparr>))"

definition on_failure :: "fault \<Rightarrow> ('a, 'k) shared_context \<Rightarrow> ('a, 'k) shared_context" where
  "on_failure e c =
     (if status c \<noteq> Pending then c
      else call_continuation (c\<lparr>status := Complete, exception := Some e\<rparr>))"

definition cancel :: "('a, 'k) shared_context \<Rightarrow> bool \<times> ('a, 'k) shared_context" where
  "cancel c =
     (if status c \<noteq> Pending then (False, c)
      else (True, call_continuation (c\<lparr>status := Canceled\<rparr>)))"

definition set_continuation :: "'k \<Rightarrow> ('a, 'k) shared_context \<Rightarrow> ('a, 'k) shared_context" where
  "set_continuation k c =
     (if status c = Pending then c\<lparr>continuation := Some k\<rparr>
      else c\<lparr>called := called c @ [k]\<rparr>)"

text \<open>\<^verbatim>\<open>Get\<close>: \<open>None\<close> where the caller waits.\<close>

definition get :: "('a, 'k) shared_context \<Rightarrow> ((fault + 'a) \<times> ('a, 'k) shared_context) option" where
  "get c =
     (case status c of
        Pending \<Rightarrow> None
      | Complete \<Rightarrow>
          (case exception c of
             Some e \<Rightarrow> Some (Inl e, c\<lparr>exception := None\<rparr>)
           | None \<Rightarrow>
               (case future_value c of
                  Some v \<Rightarrow> Some (Inr v, c\<lparr>future_value := None\<rparr>)
                | None \<Rightarrow> Some (Inl (RuntimeError ''value is already used''), c)))
      | Canceled \<Rightarrow> Some (Inl (RuntimeError ''operation aborted''), c))"

definition reset :: "('a, 'k) shared_context \<Rightarrow> ('a, 'k) shared_context" where
  "reset c = c\<lparr>continuation := None, exception := None, status := Pending, future_value := None\<rparr>"

subsection \<open>Sequences of operations\<close>

datatype ('a, 'k) context_op =
    OnSuccess 'a
  | OnFailure fault
  | Cancel
  | SetContinuation 'k
  | Get

fun context_step :: "('a, 'k) context_op \<Rightarrow> ('a, 'k) shared_context \<Rightarrow> ('a, 'k) shared_context" where
  "context_step (OnSuccess v) c = on_success v c"
| "context_step (OnFailure e) c = on_failure e c"
| "context_step Cancel c = snd (cancel c)"
| "context_step (SetContinuation k) c = set_continuation k c"
| "context_step Get c = (case get c of None \<Rightarrow> c | Some (_, c') \<Rightarrow> c')"

definition context_run :: "('a, 'k) context_op list \<Rightarrow> ('a, 'k) shared_context \<Rightarrow> ('a, 'k) shared_context" where
  "context_run ps c = fold context_step ps c"

fun settles :: "('a, 'k) context_op \<Rightarrow> bool" where
  "settles (OnSuccess _) = True"
| "settles (OnFailure _) = True"
| "settles Cancel = True"
| "settles _ = False"

fun registered :: "('a, 'k) context_op \<Rightarrow> 'k list" where
  "registered (SetContinuation k) = [k]"
| "registered _ = []"

lemmas context_defs =
  on_success_def on_failure_def cancel_def set_continuation_def get_def call_continuation_def

text \<open>
  With at most one registration, what has been called and what is still held are together what has
  been registered, and nothing is held once the context has settled.
\<close>

definition continuation_inv :: "'k list \<Rightarrow> ('a, 'k) shared_context \<Rightarrow> bool" where
  "continuation_inv ks c \<longleftrightarrow>
     (if status c = Pending then called c = [] \<and> continuation c = (case ks of [] \<Rightarrow> None | k # _ \<Rightarrow> Some k)
      else called c = ks \<and> continuation c = None)"

lemma continuation_step:
  assumes "continuation_inv ks c" and "length (ks @ registered p) \<le> 1"
  shows "continuation_inv (ks @ registered p) (context_step p c)"
  using assms
  by (cases p; cases ks; cases "status c")
    (auto simp: continuation_inv_def context_defs split: option.splits)

lemma context_step_status:
  "status (context_step p c) = Pending \<longleftrightarrow> status c = Pending \<and> \<not> settles p"
  by (cases p; cases "status c") (auto simp: context_defs split: option.splits)

lemma continuation_run:
  assumes "continuation_inv ks c" and "length (ks @ concat (map registered ps)) \<le> 1"
  shows "continuation_inv (ks @ concat (map registered ps)) (context_run ps c)
    \<and> (status (context_run ps c) = Pending \<longleftrightarrow> status c = Pending \<and> \<not> list_ex settles ps)"
  using assms
proof (induction ps arbitrary: ks c)
  case (Cons p ps)
  have "continuation_inv (ks @ registered p) (context_step p c)"
    using Cons.prems by (intro continuation_step) auto
  from Cons.IH [OF this] Cons.prems(2) context_step_status [of p c] show ?case
    by (auto simp: context_run_def)
qed (simp add: context_run_def)

subsection \<open>Continuations\<close>

text \<open>
  The task that \<^verbatim>\<open>Then\<close> posts when its source has settled: it takes the result of the source and settles the
  context of the future that \<^verbatim>\<open>Then\<close> returned. \<open>callable\<close> is the program's function.
\<close>

definition then_task ::
  "('a \<Rightarrow> fault + 'b) \<Rightarrow> ('a, 'k) shared_context \<Rightarrow> ('b, 'm) shared_context
     \<Rightarrow> (('a, 'k) shared_context \<times> ('b, 'm) shared_context) option" where
  "then_task callable source then_context =
     (case get source of
        None \<Rightarrow> None
      | Some (r, source') \<Rightarrow>
          Some (source',
            (case and_then r callable of
               Inr w \<Rightarrow> on_success w then_context
             | Inl e \<Rightarrow> on_failure e then_context)))"

text \<open>The task of \<^verbatim>\<open>ContinuationWith\<close> hands the settled source itself to the function.\<close>

definition continuation_with_task ::
  "(('a, 'k) shared_context \<Rightarrow> (fault + 'b) \<times> ('a, 'k) shared_context) \<Rightarrow> ('a, 'k) shared_context
     \<Rightarrow> ('b, 'm) shared_context \<Rightarrow> ('a, 'k) shared_context \<times> ('b, 'm) shared_context" where
  "continuation_with_task callable source cont =
     (let (r, source') = callable source
      in (source', (case r of Inr w \<Rightarrow> on_success w cont | Inl e \<Rightarrow> on_failure e cont)))"

text \<open>\<^verbatim>\<open>StartAsync\<close> settles its context with what the function returns or throws.\<close>

definition start_async_task :: "(fault + 'b) \<Rightarrow> ('b, 'm) shared_context \<Rightarrow> ('b, 'm) shared_context" where
  "start_async_task r c = (case r of Inr w \<Rightarrow> on_success w c | Inl e \<Rightarrow> on_failure e c)"

text \<open>
  A continuation of \<^verbatim>\<open>WaitAll\<close> or \<^verbatim>\<open>WaitAny\<close>: \<^verbatim>\<open>counter->fetch_add(1) + 1\<close> against the number that completes
  the wait.
\<close>

definition wait_task :: "nat \<Rightarrow> nat \<times> (unit, 'k) shared_context \<Rightarrow> nat \<times> (unit, 'k) shared_context" where
  "wait_task wanted s =
     (let current_count = fst s + 1
      in (current_count, if current_count = wanted then on_success () (snd s) else snd s))"

definition wait_all_task :: "nat \<Rightarrow> nat \<times> (unit, 'k) shared_context \<Rightarrow> nat \<times> (unit, 'k) shared_context" where
  "wait_all_task operationCount s = wait_task operationCount s"

definition wait_any_task :: "nat \<times> (unit, 'k) shared_context \<Rightarrow> nat \<times> (unit, 'k) shared_context" where
  "wait_any_task s = wait_task 1 s"

lemma wait_task_run:
  assumes "0 < wanted"
  shows "fst ((wait_task wanted ^^ n) (0, c)) = n
    \<and> snd ((wait_task wanted ^^ n) (0, c)) = (if wanted \<le> n then on_success () c else c)"
  using assms
proof (induction n)
  case (Suc n)
  then show ?case by (auto simp: wait_task_def Let_def le_Suc_eq)
qed simp

subsection \<open>Properties\<close>

text \<open>
  A continuation is called exactly once, and only when the future has settled, in whichever order the
  threads register it and settle, fail or cancel the future.
\<close>

theorem continuation_called_once:
  assumes "concat (map registered ps) = [k]"
  shows "called (context_run ps shared_context_new) = (if list_ex settles ps then [k] else [])"
proof -
  have "continuation_inv [] (shared_context_new :: ('b, 'a) shared_context)"
    by (simp add: continuation_inv_def shared_context_new_def)
  from continuation_run [OF this, of ps] assms show ?thesis
    by (auto simp: continuation_inv_def shared_context_new_def split: if_splits)
qed

theorem continuation_called_once_witness:
  "called (context_run [SetContinuation (7 :: nat), OnFailure NullDeref, OnSuccess (3 :: nat)] shared_context_new) = [7]
   \<and> called (context_run [Cancel, SetContinuation (7 :: nat), OnSuccess (3 :: nat)] shared_context_new) = [7]"
  using continuation_called_once [of "[SetContinuation (7 :: nat), OnFailure NullDeref, OnSuccess (3 :: nat)]"]
    continuation_called_once [of "[Cancel, SetContinuation (7 :: nat), OnSuccess (3 :: nat)]"]
  by simp

text \<open>What a settled context answers, once.\<close>

fun outcome :: "('a, 'k) context_op \<Rightarrow> fault + 'a" where
  "outcome (OnSuccess v) = Inr v"
| "outcome (OnFailure e) = Inl e"
| "outcome _ = Inl (RuntimeError ''operation aborted'')"

fun outcome_status :: "('a, 'k) context_op \<Rightarrow> future_status" where
  "outcome_status Cancel = Canceled"
| "outcome_status _ = Complete"

definition settled_with :: "('a, 'k) context_op \<Rightarrow> ('a, 'k) shared_context \<Rightarrow> bool" where
  "settled_with p c \<longleftrightarrow> status c = outcome_status p
     \<and> future_value c = (case p of OnSuccess v \<Rightarrow> Some v | _ \<Rightarrow> None)
     \<and> exception c = (case p of OnFailure e \<Rightarrow> Some e | _ \<Rightarrow> None)"

lemma settled_with_step:
  "settled_with p c \<Longrightarrow> settles p \<Longrightarrow> q \<noteq> Get \<Longrightarrow> settled_with p (context_step q c)"
  by (cases q; cases p) (auto simp: settled_with_def context_defs split: option.splits)

lemma settled_with_run:
  "settled_with p c \<Longrightarrow> settles p \<Longrightarrow> Get \<notin> set ps \<Longrightarrow> settled_with p (context_run ps c)"
  by (induction ps arbitrary: c) (auto simp: context_run_def settled_with_step)

lemma unsettled_run:
  assumes "\<not> list_ex settles ps" and "status c = Pending" "future_value c = None" "exception c = None"
  shows "status (context_run ps c) = Pending \<and> future_value (context_run ps c) = None
    \<and> exception (context_run ps c) = None"
  using assms
proof (induction ps arbitrary: c)
  case (Cons p ps)
  then show ?case by (cases p) (auto simp: context_run_def context_defs)
qed (simp add: context_run_def)

text \<open>
  The first operation that settles a future decides its result: later successes, failures and
  cancellations change nothing, and the first \<^verbatim>\<open>Get\<close> answers the value, the exception or the
  cancellation of that operation.
\<close>

theorem first_settlement_decides:
  assumes "\<not> list_ex settles ps" and "settles p" and "Get \<notin> set qs"
  shows "\<exists>c'. get (context_run (ps @ p # qs) shared_context_new) = Some (outcome p, c')"
proof -
  let ?c = "context_run ps shared_context_new :: ('a, 'b) shared_context"
  have "status ?c = Pending" "future_value ?c = None" "exception ?c = None"
    using unsettled_run [OF assms(1), of shared_context_new] by (simp_all add: shared_context_new_def)
  then have "settled_with p (context_step p ?c)"
    using assms(2) by (cases p) (auto simp: settled_with_def context_defs split: option.splits)
  then have "settled_with p (context_run qs (context_step p ?c))"
    using assms(2,3) by (rule settled_with_run)
  moreover have "context_run (ps @ p # qs) shared_context_new = context_run qs (context_step p ?c)"
    by (simp add: context_run_def)
  ultimately show ?thesis
    using assms(2) by (cases p) (auto simp: settled_with_def get_def)
qed

theorem first_settlement_decides_witness:
  "\<exists>c'. get (context_run ([SetContinuation (0 :: nat), Get] @ OnSuccess (5 :: nat) # [Cancel, OnFailure NullDeref])
       shared_context_new) = Some (Inr 5, c')"
  using first_settlement_decides [of "[SetContinuation (0 :: nat), Get]" "OnSuccess (5 :: nat)" "[Cancel, OnFailure NullDeref]"]
  by simp

text \<open>
  A value or an exception is handed out once: after it was taken, \<^verbatim>\<open>Get\<close> throws.
\<close>

theorem value_taken_once:
  assumes "status c = Complete" and "future_value c = None \<or> exception c = None" and "get c = Some (r, c')"
  shows "get c' = Some (Inl (RuntimeError ''value is already used''), c')"
  using assms by (auto simp: get_def split: option.splits)

theorem value_taken_once_witness:
  "\<exists>c' :: (nat, nat) shared_context. get (on_success 5 shared_context_new) = Some (Inr 5, c')
     \<and> get c' = Some (Inl (RuntimeError ''value is already used''), c')"
proof -
  let ?c = "on_success 5 shared_context_new :: (nat, nat) shared_context"
  have "get ?c = Some (Inr 5, ?c\<lparr>future_value := None\<rparr>)" and "status ?c = Complete" and "exception ?c = None"
    by (simp_all add: on_success_def shared_context_new_def call_continuation_def get_def)
  with value_taken_once [of ?c] show ?thesis by blast
qed

text \<open>
  \<^verbatim>\<open>WaitAll\<close> completes exactly when the last of its futures has settled, and \<^verbatim>\<open>WaitAny\<close> exactly when
  the first has, each once however many settle afterwards.
\<close>

theorem wait_completes:
  "snd ((wait_all_task (Suc m) ^^ n) (0, c)) = (if Suc m \<le> n then on_success () c else c)
   \<and> snd ((wait_any_task ^^ n) (0, c)) = (if 1 \<le> n then on_success () c else c)"
  using wait_task_run [of "Suc m" n c] wait_task_run [of 1 n c]
  by (simp_all add: wait_all_task_def [abs_def] wait_any_task_def [abs_def])

end
