(* ===== verification/Channel.thy ===== *)
theory Channel
  imports Prelude
begin

text \<open>
  \<^verbatim>\<open>shared/execution/channel\<close>: the queue with signal handlers (\<^verbatim>\<open>impl/mpmc_channel.h\<close>) and the
  coroutine that produces into it and the one that consumes from it (\<^verbatim>\<open>async_enumerable.h\<close>). The steps of the
  model are the critical sections of the mutex and the reads and writes of the atomic status; the
  producer and the consumer interleave freely between them.

  The theory proves that items come out in the order they were sent, that a consumer never waits
  for an item that is there or for a channel that is closed, and that the check for the closed
  channel can overtake the last item.
\<close>

subsection \<open>The channel\<close>

datatype channel_status = Open | Closed
datatype channel_signal = NoSignal | NotifyOne | NotifyAll
datatype 'a item = Value 'a | Exception fault

text \<open>A signal handler is named by the consumer it resumes.\<close>

record ('a, 'h) channel =
  channel_status :: channel_status
  channel_items :: "'a item list"
  signalHandlers :: "'h list"

definition channel_new :: "('a, 'h) channel" where
  "channel_new = \<lparr>channel_status = Open, channel_items = [], signalHandlers = []\<rparr>"

definition channel_is_open :: "('a, 'h) channel \<Rightarrow> bool" where
  "channel_is_open c \<longleftrightarrow> channel_status c = Open"

definition channel_is_closed :: "('a, 'h) channel \<Rightarrow> bool" where
  "channel_is_closed c \<longleftrightarrow> channel_status c = Closed"

definition channel_empty :: "('a, 'h) channel \<Rightarrow> bool" where
  "channel_empty c \<longleftrightarrow> channel_items c = []"

text \<open>The notifications return the handlers that are called once the lock is released.\<close>

definition notify_one :: "('a, 'h) channel \<Rightarrow> 'h list \<times> ('a, 'h) channel" where
  "notify_one c =
     (case signalHandlers c of
        [] \<Rightarrow> ([], c)
      | h # hs \<Rightarrow> ([h], c\<lparr>signalHandlers := hs\<rparr>))"

definition notify_all :: "('a, 'h) channel \<Rightarrow> 'h list \<times> ('a, 'h) channel" where
  "notify_all c = (signalHandlers c, c\<lparr>signalHandlers := []\<rparr>)"

definition notify :: "channel_signal \<Rightarrow> ('a, 'h) channel \<Rightarrow> 'h list \<times> ('a, 'h) channel" where
  "notify sg c = (case sg of NoSignal \<Rightarrow> ([], c) | NotifyOne \<Rightarrow> notify_one c | NotifyAll \<Rightarrow> notify_all c)"

definition send_range :: "'a item list \<Rightarrow> channel_signal \<Rightarrow> ('a, 'h) channel \<Rightarrow> 'h list \<times> ('a, 'h) channel" where
  "send_range xs sg c = notify sg (c\<lparr>channel_items := channel_items c @ xs\<rparr>)"

definition send_item :: "'a item \<Rightarrow> channel_signal \<Rightarrow> ('a, 'h) channel \<Rightarrow> 'h list \<times> ('a, 'h) channel" where
  "send_item x sg c = notify sg (c\<lparr>channel_items := channel_items c @ [x]\<rparr>)"

text \<open>The two halves of \<^verbatim>\<open>Close\<close>.\<close>

definition close_exchange :: "('a, 'h) channel \<Rightarrow> bool \<times> ('a, 'h) channel" where
  "close_exchange c =
     (if channel_status c = Open then (True, c\<lparr>channel_status := Closed\<rparr>) else (False, c))"

definition close_notify :: "('a, 'h) channel \<Rightarrow> 'h list \<times> ('a, 'h) channel" where
  "close_notify c = notify_all c"

definition try_pop :: "('a, 'h) channel \<Rightarrow> 'a item option \<times> ('a, 'h) channel" where
  "try_pop c =
     (case channel_items c of
        [] \<Rightarrow> (None, c)
      | x # xs \<Rightarrow> (Some x, c\<lparr>channel_items := xs\<rparr>))"

definition receive :: "('a, 'h) channel \<Rightarrow> (fault + 'a option) \<times> ('a, 'h) channel" where
  "receive c =
     (case try_pop c of
        (None, c') \<Rightarrow> (Inr None, c')
      | (Some (Exception e), c') \<Rightarrow> (Inl e, c')
      | (Some (Value v), c') \<Rightarrow> (Inr (Some v), c'))"

text \<open>The flag tells whether the handler is to be called at once.\<close>

definition add_or_execute :: "'h \<Rightarrow> ('a, 'h) channel \<Rightarrow> bool \<times> ('a, 'h) channel" where
  "add_or_execute h c =
     (if channel_is_open c \<and> channel_items c = [] then (False, c\<lparr>signalHandlers := signalHandlers c @ [h]\<rparr>)
      else (True, c))"

subsection \<open>Producer and consumer\<close>

text \<open>
  The producer coroutine yields, then returns or throws. The consumer is an \<^verbatim>\<open>Enumerator\<close>: between two
  awaits, after a failed \<^verbatim>\<open>TrySetCurrent\<close>, about to register its handler, waiting for it to be called, dispatched by
  it, after a failed \<^verbatim>\<open>TrySetCurrent\<close> of the dispatched handler, resumed.
\<close>

datatype producer_pc = Producing | Thrown | Closing | Done

datatype 'a consumer_pc =
    Between
  | Checking
  | Registering
  | Waiting
  | Dispatched
  | Rechecking
  | Resumed "'a item option"

record 'a stream_state =
  chan :: "('a, unit) channel"
  producer :: producer_pc
  consumer :: "'a consumer_pc"
  all_sent :: "'a item list"
  all_popped :: "'a item list"

definition stream_new :: "'a stream_state" where
  "stream_new = \<lparr>chan = channel_new, producer = Producing, consumer = Between, all_sent = [], all_popped = []\<rparr>"

definition call_handlers :: "unit list \<times> ('a, unit) channel \<Rightarrow> 'a stream_state \<Rightarrow> 'a stream_state" where
  "call_handlers r s = s\<lparr>chan := snd r, consumer := (if fst r = [] then consumer s else Dispatched)\<rparr>"

definition yield_range :: "'a item list \<Rightarrow> 'a stream_state \<Rightarrow> 'a stream_state" where
  "yield_range xs s =
     call_handlers (send_range xs NotifyOne (chan s)) (s\<lparr>all_sent := all_sent s @ xs\<rparr>)"

definition yield_value :: "'a item \<Rightarrow> 'a stream_state \<Rightarrow> 'a stream_state" where
  "yield_value x s = call_handlers (send_item x NotifyOne (chan s)) (s\<lparr>all_sent := all_sent s @ [x]\<rparr>)"

text \<open>\<^verbatim>\<open>TrySetCurrent\<close>, with where the consumer goes when it fails.\<close>

definition try_set_current :: "'a consumer_pc \<Rightarrow> 'a stream_state \<Rightarrow> 'a stream_state" where
  "try_set_current otherwise s =
     (case try_pop (chan s) of
        (None, c) \<Rightarrow> s\<lparr>chan := c, consumer := otherwise\<rparr>
      | (Some x, c) \<Rightarrow> s\<lparr>chan := c, consumer := Resumed (Some x), all_popped := all_popped s @ [x]\<rparr>)"

datatype 'a stream_action =
    Yield 'a
  | YieldRange "'a item list"
  | Throw fault
  | CloseChannel
  | NotifyClosed
  | Consume

fun stream_step :: "'a stream_action \<Rightarrow> 'a stream_state \<Rightarrow> 'a stream_state option" where
  "stream_step (Yield v) s = (if producer s = Producing then Some (yield_value (Value v) s) else None)"
| "stream_step (YieldRange xs) s = (if producer s = Producing then Some (yield_range xs s) else None)"
| "stream_step (Throw e) s =
     (if producer s = Producing
      then Some (call_handlers (send_item (Exception e) NoSignal (chan s))
                   (s\<lparr>all_sent := all_sent s @ [Exception e], producer := Thrown\<rparr>))
      else None)"
| "stream_step CloseChannel s =
     (if producer s = Producing \<or> producer s = Thrown
      then Some (s\<lparr>chan := snd (close_exchange (chan s)), producer := Closing\<rparr>) else None)"
| "stream_step NotifyClosed s =
     (if producer s = Closing then Some (call_handlers (close_notify (chan s)) (s\<lparr>producer := Done\<rparr>)) else None)"
| "stream_step Consume s =
     (case consumer s of
        Between \<Rightarrow> Some (try_set_current Checking s)
      | Checking \<Rightarrow>
          Some (s\<lparr>consumer := (if channel_is_closed (chan s) then Resumed None else Registering)\<rparr>)
      | Registering \<Rightarrow>
          (let (now, c) = add_or_execute () (chan s)
           in Some (s\<lparr>chan := c, consumer := (if now then Dispatched else Waiting)\<rparr>))
      | Waiting \<Rightarrow> None
      | Dispatched \<Rightarrow> Some (try_set_current Rechecking s)
      | Rechecking \<Rightarrow>
          Some (s\<lparr>consumer := (if channel_is_closed (chan s) then Resumed None else Registering)\<rparr>)
      | Resumed x \<Rightarrow> Some (s\<lparr>consumer := Between\<rparr>))"

text \<open>What \<^verbatim>\<open>await_resume\<close> answers.\<close>

definition await_resume :: "'a item option \<Rightarrow> fault + 'a" where
  "await_resume x =
     (case x of
        None \<Rightarrow> Inl (RuntimeError ''channel is closed by producer'')
      | Some (Exception e) \<Rightarrow> Inl e
      | Some (Value v) \<Rightarrow> Inr v)"

definition has_next :: "('a, 'h) channel \<Rightarrow> bool" where
  "has_next c \<longleftrightarrow> channel_is_open c \<or> \<not> channel_empty c"

inductive stream_reach :: "'a stream_state \<Rightarrow> bool" where
  init: "stream_reach stream_new"
| step: "stream_reach s \<Longrightarrow> stream_step act s = Some s' \<Longrightarrow> stream_reach s'"

fun stream_run :: "'a stream_action list \<Rightarrow> 'a stream_state \<Rightarrow> 'a stream_state option" where
  "stream_run [] s = Some s"
| "stream_run (a # as) s = Option.bind (stream_step a s) (stream_run as)"

lemma stream_run_reach: "stream_run as s = Some s' \<Longrightarrow> stream_reach s \<Longrightarrow> stream_reach s'"
  by (induction as arbitrary: s) (auto simp: Option.bind_eq_Some_conv intro: stream_reach.step)

subsection \<open>Invariant\<close>

definition stream_inv :: "'a stream_state \<Rightarrow> bool" where
  "stream_inv s \<longleftrightarrow>
     all_sent s = all_popped s @ channel_items (chan s)
     \<and> (channel_status (chan s) = Closed \<longleftrightarrow> producer s = Closing \<or> producer s = Done)
     \<and> signalHandlers (chan s) = (if consumer s = Waiting then [()] else [])
     \<and> (consumer s = Waiting \<longrightarrow> producer s \<noteq> Done
          \<and> (channel_items (chan s) = [] \<or> producer s = Thrown \<or> producer s = Closing))"

lemmas channel_defs =
  notify_def notify_one_def notify_all_def send_range_def send_item_def close_exchange_def
  close_notify_def try_pop_def add_or_execute_def channel_is_open_def channel_is_closed_def
  call_handlers_def yield_range_def yield_value_def try_set_current_def

lemma try_set_current_inv:
  assumes "stream_inv s" and "consumer s \<noteq> Waiting" and "pc \<noteq> Waiting"
  shows "stream_inv (try_set_current pc s)"
  using assms by (cases "channel_items (chan s)") (auto simp: stream_inv_def try_set_current_def try_pop_def)

lemma consumer_inv:
  assumes "stream_inv s" and "consumer s \<noteq> Waiting" and "pc \<noteq> Waiting"
  shows "stream_inv (s\<lparr>consumer := pc\<rparr>)"
  using assms by (auto simp: stream_inv_def)

lemma registering_inv:
  assumes "stream_inv s" and "consumer s = Registering" and "add_or_execute () (chan s) = (now, c)"
  shows "stream_inv (s\<lparr>chan := c, consumer := (if now then Dispatched else Waiting)\<rparr>)"
  using assms by (auto simp: stream_inv_def add_or_execute_def channel_is_open_def split: if_splits)

lemma consume_inv:
  assumes "stream_inv s" and "stream_step Consume s = Some s'"
  shows "stream_inv s'"
  using assms try_set_current_inv [OF assms(1)] consumer_inv [OF assms(1)] registering_inv [OF assms(1)]
  by (cases "consumer s") (auto split: prod.splits)

lemma produce_inv:
  assumes inv: "stream_inv s" and "producer s = Producing"
    and c: "channel_items c = channel_items (chan s) @ xs" "channel_status c = channel_status (chan s)"
      "signalHandlers c = signalHandlers (chan s)"
  shows "stream_inv (call_handlers (notify NotifyOne c) (s\<lparr>all_sent := all_sent s @ xs\<rparr>))"
  using assms
  by (auto simp: stream_inv_def call_handlers_def notify_def notify_one_def split: list.splits if_splits)

lemma stream_step_inv:
  assumes inv: "stream_inv s" and step: "stream_step act s = Some s'"
  shows "stream_inv s'"
proof (cases act)
  case (Yield v)
  with step have "producer s = Producing" "s' = yield_value (Value v) s" by (auto split: if_splits)
  with produce_inv [OF inv, of "chan s\<lparr>channel_items := channel_items (chan s) @ [Value v]\<rparr>" "[Value v]"]
  show ?thesis by (simp add: yield_value_def send_item_def)
next
  case (YieldRange xs)
  with step have "producer s = Producing" "s' = yield_range xs s" by (auto split: if_splits)
  with produce_inv [OF inv, of "chan s\<lparr>channel_items := channel_items (chan s) @ xs\<rparr>" xs]
  show ?thesis by (simp add: yield_range_def send_range_def)
next
  case (Throw e)
  with inv step show ?thesis
    by (auto simp: stream_inv_def call_handlers_def send_item_def notify_def split: if_splits)
next
  case CloseChannel
  with step have p: "producer s = Producing \<or> producer s = Thrown"
    and s': "s' = s\<lparr>chan := snd (close_exchange (chan s)), producer := Closing\<rparr>"
    by (simp_all split: if_splits)
  have "channel_status (chan s) \<noteq> Closed" using inv p unfolding stream_inv_def by auto
  then have "channel_status (chan s) = Open" by (cases "channel_status (chan s)") auto
  with inv show ?thesis unfolding s' stream_inv_def by (simp add: close_exchange_def)
next
  case NotifyClosed
  with inv step show ?thesis
    by (auto simp: stream_inv_def call_handlers_def close_notify_def notify_all_def split: if_splits)
next
  case Consume
  with consume_inv [OF inv] step show ?thesis by simp
qed

lemma stream_reach_inv: "stream_reach s \<Longrightarrow> stream_inv s"
proof (induction rule: stream_reach.induct)
  case init
  show ?case by (simp add: stream_inv_def stream_new_def channel_new_def)
qed (rule stream_step_inv)

subsection \<open>Properties\<close>

text \<open>
  C30: the items a consumer takes are the items sent, in the order they were sent, none lost and none
  twice: what was taken followed by what is still queued is what was sent.
\<close>

theorem channel_fifo:
  assumes "stream_reach s"
  shows "all_sent s = all_popped s @ channel_items (chan s)"
  using stream_reach_inv [OF assms] by (simp add: stream_inv_def)

text \<open>
  No wake-up is lost: a consumer that waits for its handler has nothing to wait for only while the
  producer is on its way to close the channel, and once the producer is done no consumer waits.
\<close>

theorem channel_no_lost_wakeup:
  assumes "stream_reach s" and "consumer s = Waiting"
  shows "producer s \<noteq> Done \<and> (channel_empty (chan s) \<and> channel_is_open (chan s)
    \<or> producer s = Thrown \<or> producer s = Closing)"
  using stream_reach_inv [OF assms(1)] assms(2)
  by (cases "channel_status (chan s)"; cases "producer s")
    (auto simp: stream_inv_def channel_empty_def channel_is_open_def)

text \<open>A run in which the consumer waits, is woken by an item and takes it.\<close>

definition sample_stream :: "nat stream_action list" where
  "sample_stream = [Consume, Consume, Consume, Yield 5, Consume]"

theorem channel_fifo_witness:
  "\<exists>s. stream_run sample_stream stream_new = Some s \<and> all_popped s = [Value 5]
     \<and> all_sent s = all_popped s @ channel_items (chan s)"
proof -
  have "stream_run sample_stream stream_new \<noteq> None
      \<and> all_popped (the (stream_run sample_stream stream_new)) = [Value 5]"
    by code_simp
  then obtain s where s: "stream_run sample_stream stream_new = Some s" "all_popped s = [Value 5]" by auto
  with channel_fifo [OF stream_run_reach [OF s(1) stream_reach.init]] show ?thesis by blast
qed

theorem channel_no_lost_wakeup_witness:
  "\<exists>s. stream_run (take 3 sample_stream) stream_new = Some s \<and> consumer s = Waiting \<and> producer s \<noteq> Done"
proof -
  have "stream_run (take 3 sample_stream) stream_new \<noteq> None
      \<and> consumer (the (stream_run (take 3 sample_stream) stream_new)) = Waiting"
    by code_simp
  then obtain s where s: "stream_run (take 3 sample_stream) stream_new = Some s" "consumer s = Waiting"
    by auto
  with channel_no_lost_wakeup [OF stream_run_reach [OF s(1) stream_reach.init]] show ?thesis by blast
qed

text \<open>
  The consumer's check that the channel is closed is not made together with its look into the
  queue. When the producer sends its last item and closes between the two, the consumer is told that the
  channel is closed, although the item is there and \<^verbatim>\<open>HasNext\<close> still answers true.
\<close>

theorem channel_close_overtakes_item:
  "\<exists>s. stream_run [Consume, Yield v, CloseChannel, Consume] stream_new = Some s
     \<and> consumer s = Resumed None
     \<and> await_resume (None :: nat item option) = Inl (RuntimeError ''channel is closed by producer'')
     \<and> channel_items (chan s) = [Value v] \<and> has_next (chan s)"
  by (simp add: stream_new_def channel_new_def channel_defs await_resume_def has_next_def channel_empty_def)

end
