(* ===== verification/Fragment.thy ===== *)
theory Fragment
  imports Prelude
begin

text \<open>
  \<^verbatim>\<open>shared/network/buffer/fragment.cpp\<close>: a piece of a reference-counted block of memory. The heap is
  explicit: a block has a counter and bytes, a fragment is a handle with a pointer to a block, an offset
  and a size.

  The theory proves that the counter of a block is the number of its handles, so that no operation
  touches freed memory and nothing stays allocated without a handle, and that slicing splits the bytes
  a fragment shows and leaves those of every other fragment alone.
\<close>

type_synonym byte = "8 word"

record block =
  refCount :: int
  bytes :: "byte list"

record heap =
  blocks :: "nat \<rightharpoonup> block"
  next_block :: nat

definition heap_new :: heap where
  "heap_new = \<lparr>blocks = Map.empty, next_block = 0\<rparr>"

record fragment =
  impl :: "nat option"
  startOffset :: int
  frag_size :: int

definition fragment_new :: fragment where
  "fragment_new = \<lparr>impl = None, startOffset = 0, frag_size = 0\<rparr>"

subsection \<open>Operations\<close>

definition fragment_valid :: "fragment \<Rightarrow> bool" where
  "fragment_valid f \<longleftrightarrow> impl f \<noteq> None \<and> frag_size f > 0"

definition set_block :: "nat \<Rightarrow> block option \<Rightarrow> heap \<Rightarrow> heap" where
  "set_block b x h = h\<lparr>blocks := (blocks h)(b := x)\<rparr>"

text \<open>\<^verbatim>\<open>Create\<close>: the memory is not initialised; its bytes are the argument \<open>junk\<close> of the allocation.\<close>

definition fragment_create :: "int \<Rightarrow> byte list \<Rightarrow> heap \<Rightarrow> fragment \<times> heap" where
  "fragment_create sz junk h =
     (\<lparr>impl = Some (next_block h), startOffset = 0, frag_size = sz\<rparr>,
      (set_block (next_block h) (Some \<lparr>refCount = 1, bytes = junk\<rparr>) h)\<lparr>next_block := Suc (next_block h)\<rparr>)"

definition overwrite :: "nat \<Rightarrow> byte list \<Rightarrow> byte list \<Rightarrow> byte list" where
  "overwrite n bs xs = take n xs @ bs @ drop (n + length bs) xs"

definition fragment_write :: "fragment \<Rightarrow> byte list \<Rightarrow> heap \<Rightarrow> fault + heap" where
  "fragment_write f bs h =
     and_then (deref (blocks h) (impl f)) (\<lambda>blk.
       if length (bytes blk) < nat (startOffset f) + length bs then Inl OutOfBounds
       else Inr (set_block (the (impl f)) (Some (blk\<lparr>bytes := overwrite (nat (startOffset f)) bs (bytes blk)\<rparr>)) h))"

definition fragment_create_from :: "byte list \<Rightarrow> byte list \<Rightarrow> heap \<Rightarrow> fault + (fragment \<times> heap)" where
  "fragment_create_from span junk h =
     (let (f, h1) = fragment_create (int (length span)) junk h
      in and_then (fragment_write f span h1) (\<lambda>h2. Inr (f, h2)))"

text \<open>\<^verbatim>\<open>fetch_add\<close> on the counter of a block.\<close>

definition add_ref :: "nat option \<Rightarrow> heap \<Rightarrow> fault + heap" where
  "add_ref p h =
     and_then (deref (blocks h) p) (\<lambda>blk.
       Inr (set_block (the p) (Some (blk\<lparr>refCount := refCount blk + 1\<rparr>)) h))"

definition fragment_destroy :: "fragment \<Rightarrow> heap \<Rightarrow> fault + heap" where
  "fragment_destroy f h =
     (case impl f of
        None \<Rightarrow> Inr h
      | Some b \<Rightarrow>
          and_then (deref (blocks h) (Some b)) (\<lambda>blk.
            if refCount blk = 1 then Inr (set_block b None h)
            else Inr (set_block b (Some (blk\<lparr>refCount := refCount blk - 1\<rparr>)) h)))"

text \<open>\<^verbatim>\<open>operator=\<close> of a fragment to be moved: the value left in the target, the value left in the source.\<close>

definition fragment_move_assign :: "fragment \<Rightarrow> fragment \<Rightarrow> heap \<Rightarrow> fault + (fragment \<times> fragment \<times> heap)" where
  "fragment_move_assign target source h =
     and_then (if impl target \<noteq> None then fragment_destroy target h else Inr h) (\<lambda>h1.
       Inr (source, fragment_new, h1))"

definition fragment_slice_front :: "int \<Rightarrow> fragment \<Rightarrow> heap \<Rightarrow> fault + (fragment option \<times> fragment \<times> heap)" where
  "fragment_slice_front sz f h =
     (if sz \<ge> frag_size f then Inr (None, f, h)
      else and_then (add_ref (impl f) h) (\<lambda>h1.
        Inr (Some \<lparr>impl = impl f, startOffset = startOffset f, frag_size = sz\<rparr>,
             f\<lparr>startOffset := startOffset f + sz, frag_size := frag_size f - sz\<rparr>, h1)))"

definition fragment_shallow_copy :: "fragment \<Rightarrow> heap \<Rightarrow> fault + (fragment \<times> heap)" where
  "fragment_shallow_copy f h =
     (if \<not> fragment_valid f then Inr (fragment_new, h)
      else and_then (add_ref (impl f) h) (\<lambda>h1.
        Inr (\<lparr>impl = impl f, startOffset = startOffset f, frag_size = frag_size f\<rparr>, h1)))"

definition fragment_get_ref_count :: "fragment \<Rightarrow> heap \<Rightarrow> fault + int" where
  "fragment_get_ref_count f h =
     (case impl f of None \<Rightarrow> Inr 0 | Some b \<Rightarrow> and_then (deref (blocks h) (Some b)) (\<lambda>blk. Inr (refCount blk)))"

text \<open>The bytes between \<^verbatim>\<open>GetData()\<close> and \<^verbatim>\<open>GetData() + GetSize()\<close>.\<close>

definition fragment_span :: "heap \<Rightarrow> fragment \<Rightarrow> byte list" where
  "fragment_span h f =
     (case impl f of
        None \<Rightarrow> []
      | Some b \<Rightarrow>
          (case blocks h b of
             None \<Rightarrow> []
           | Some blk \<Rightarrow> take (nat (frag_size f)) (drop (nat (startOffset f)) (bytes blk))))"

subsection \<open>Ownership\<close>

text \<open>A handle lies within its block.\<close>

definition handle_ok :: "heap \<Rightarrow> fragment \<Rightarrow> bool" where
  "handle_ok h f \<longleftrightarrow> 0 \<le> startOffset f \<and> 0 \<le> frag_size f
     \<and> (case impl f of
          None \<Rightarrow> frag_size f = 0
        | Some b \<Rightarrow> (\<exists>blk. blocks h b = Some blk \<and> startOffset f + frag_size f \<le> int (length (bytes blk))))"

definition handles_of :: "nat \<Rightarrow> fragment list \<Rightarrow> nat" where
  "handles_of b fs = length (filter (\<lambda>f. impl f = Some b) fs)"

text \<open>The handles in existence own the heap.\<close>

definition owned :: "heap \<Rightarrow> fragment list \<Rightarrow> bool" where
  "owned h fs \<longleftrightarrow>
     (\<forall>b. blocks h b = None \<longrightarrow> handles_of b fs = 0)
     \<and> (\<forall>b blk. blocks h b = Some blk \<longrightarrow>
            b < next_block h \<and> refCount blk = int (handles_of b fs) \<and> 0 < handles_of b fs)
     \<and> (\<forall>f \<in> set fs. handle_ok h f)"

lemma handles_of_simps [simp]:
  "handles_of b [] = 0"
  "handles_of b (f # fs) = (if impl f = Some b then 1 else 0) + handles_of b fs"
  "handles_of b (fs @ gs) = handles_of b fs + handles_of b gs"
  by (simp_all add: handles_of_def)

lemma ownedD:
  assumes "owned h fs"
  shows "blocks h b = None \<Longrightarrow> handles_of b fs = 0"
    and "blocks h b = Some blk \<Longrightarrow> b < next_block h \<and> refCount blk = int (handles_of b fs) \<and> 0 < handles_of b fs"
    and "f \<in> set fs \<Longrightarrow> handle_ok h f"
  using assms unfolding owned_def by blast+

lemma ownedI:
  assumes "\<And>b. blocks h b = None \<Longrightarrow> handles_of b fs = 0"
    and "\<And>b blk. blocks h b = Some blk \<Longrightarrow> b < next_block h \<and> refCount blk = int (handles_of b fs) \<and> 0 < handles_of b fs"
    and "\<And>f. f \<in> set fs \<Longrightarrow> handle_ok h f"
  shows "owned h fs"
  using assms unfolding owned_def by blast

lemma owned_permute:
  assumes "owned h fs" and "\<And>b. handles_of b gs = handles_of b fs" and "set gs \<subseteq> set fs"
  shows "owned h gs"
  using assms(1,3) unfolding owned_def assms(2) by blast

lemma owned_new [simp]: "owned heap_new []"
  by (simp add: owned_def heap_new_def)

text \<open>Without a handle there is no block: nothing leaks.\<close>

lemma owned_nil: "owned h [] \<Longrightarrow> blocks h = Map.empty"
  by (rule ext) (metis ownedD(2) handles_of_simps(1) less_irrefl not_None_eq)

lemma handle_block:
  assumes "owned h fs" and "f \<in> set fs" and "impl f = Some b"
  obtains blk where "blocks h b = Some blk" and "deref (blocks h) (impl f) = Inr blk"
    and "0 \<le> startOffset f" and "0 \<le> frag_size f"
    and "startOffset f + frag_size f \<le> int (length (bytes blk))"
    and "refCount blk = int (handles_of b fs)" and "b < next_block h"
proof -
  from ownedD(3) [OF assms(1,2)] assms(3) obtain blk where
    blk: "blocks h b = Some blk" "startOffset f + frag_size f \<le> int (length (bytes blk))"
    and "0 \<le> startOffset f" "0 \<le> frag_size f"
    by (auto simp: handle_ok_def)
  moreover have "deref (blocks h) (impl f) = Inr blk" using blk assms(3) by (simp add: deref_def)
  ultimately show thesis using that ownedD(2) [OF assms(1) blk(1)] by blast
qed

subsection \<open>Changing the counter of one block\<close>

text \<open>Fragments of the heap after a change of counters show what they showed before.\<close>

definition same_bytes :: "heap \<Rightarrow> heap \<Rightarrow> bool" where
  "same_bytes h h' \<longleftrightarrow>
     (\<forall>b blk'. blocks h' b = Some blk' \<longrightarrow> (\<exists>blk. blocks h b = Some blk \<and> bytes blk' = bytes blk))"

lemma span_same_bytes:
  assumes "same_bytes h h'" and "handle_ok h' f"
  shows "fragment_span h' f = fragment_span h f"
proof (cases "impl f")
  case None
  then show ?thesis by (simp add: fragment_span_def)
next
  case (Some b)
  with assms(2) obtain blk' where "blocks h' b = Some blk'" by (auto simp: handle_ok_def)
  moreover from assms(1) this obtain blk where "blocks h b = Some blk" "bytes blk' = bytes blk"
    by (auto simp: same_bytes_def)
  ultimately show ?thesis using Some by (simp add: fragment_span_def)
qed

lemma add_ref_owned:
  assumes own: "owned h fs" and f: "f \<in> set fs" and b: "impl f = Some b"
    and g: "impl g = Some b" "handle_ok h g"
  obtains h' where "add_ref (impl f) h = Inr h'" and "owned h' (g # fs)" and "same_bytes h h'"
    and "\<forall>k. handle_ok h k \<longrightarrow> handle_ok h' k"
proof -
  from own f b obtain blk where blk: "blocks h b = Some blk" "deref (blocks h) (impl f) = Inr blk"
    "refCount blk = int (handles_of b fs)" "b < next_block h"
    by (rule handle_block)
  let ?h = "set_block b (Some (blk\<lparr>refCount := refCount blk + 1\<rparr>)) h"
  have ok: "handle_ok ?h k" if "handle_ok h k" for k
    using that blk(1) by (auto simp: handle_ok_def set_block_def split: option.splits)
  have "owned ?h (g # fs)"
  proof (rule ownedI)
    fix c assume "blocks ?h c = None"
    then have "blocks h c = None" "c \<noteq> b" by (auto simp: set_block_def split: if_splits)
    with ownedD(1) [OF own] g(1) show "handles_of c (g # fs) = 0" by simp
  next
    fix c blk' assume "blocks ?h c = Some blk'"
    then show "c < next_block ?h \<and> refCount blk' = int (handles_of c (g # fs)) \<and> 0 < handles_of c (g # fs)"
      using ownedD(2) [OF own, of c] blk g(1) by (cases "c = b") (auto simp: set_block_def)
  next
    fix k assume "k \<in> set (g # fs)"
    with g(2) ownedD(3) [OF own] show "handle_ok ?h k" by (auto intro: ok)
  qed
  moreover have "same_bytes h ?h" using blk(1) by (auto simp: same_bytes_def set_block_def)
  moreover have "add_ref (impl f) h = Inr ?h" using blk(2) b by (simp add: add_ref_def)
  ultimately show thesis using ok by (intro that [of ?h]) simp_all
qed

subsection \<open>What the operations do to an owned heap\<close>

lemma same_bytes_refl [simp]: "same_bytes h h"
  by (auto simp: same_bytes_def)

lemma same_bytes_trans: "same_bytes h h' \<Longrightarrow> same_bytes h' h'' \<Longrightarrow> same_bytes h h''"
  unfolding same_bytes_def by metis

lemma fragment_create_owned:
  assumes own: "owned h fs" and c: "fragment_create sz junk h = (f, h')"
    and sz: "0 \<le> sz" "length junk = nat sz"
  shows "owned h' (f # fs)" and "fragment_span h' f = junk" and "frag_size f = sz"
    and "\<And>g. g \<in> set fs \<Longrightarrow> fragment_span h' g = fragment_span h g"
proof -
  let ?b = "next_block h"
  have f: "f = \<lparr>impl = Some ?b, startOffset = 0, frag_size = sz\<rparr>"
    and h': "blocks h' = (blocks h)(?b \<mapsto> \<lparr>refCount = 1, bytes = junk\<rparr>)" "next_block h' = Suc ?b"
    using c by (auto simp: fragment_create_def set_block_def)
  have free: "blocks h ?b = None" using ownedD(2) [OF own, of ?b] by (cases "blocks h ?b") auto
  then have none: "handles_of ?b fs = 0" by (rule ownedD(1) [OF own])
  have old: "handle_ok h' g" if "handle_ok h g" for g
    using that free by (auto simp: handle_ok_def h' split: option.splits)
  show "owned h' (f # fs)"
  proof (rule ownedI)
    fix b assume "blocks h' b = None"
    then show "handles_of b (f # fs) = 0"
      using ownedD(1) [OF own, of b] by (auto simp: h' f split: if_splits)
  next
    fix b blk assume "blocks h' b = Some blk"
    then show "b < next_block h' \<and> refCount blk = int (handles_of b (f # fs)) \<and> 0 < handles_of b (f # fs)"
      using ownedD(2) [OF own, of b blk] none by (cases "b = ?b") (auto simp: h' f)
  next
    fix g assume "g \<in> set (f # fs)"
    then show "handle_ok h' g"
      using ownedD(3) [OF own] sz old by (auto simp: handle_ok_def h' f)
  qed
  show "fragment_span h' f = junk" and "frag_size f = sz" using sz by (simp_all add: fragment_span_def f h')
  fix g assume g: "g \<in> set fs"
  have "impl g \<noteq> Some ?b"
    using ownedD(3) [OF own g] free by (auto simp: handle_ok_def)
  then show "fragment_span h' g = fragment_span h g"
    by (auto simp: fragment_span_def h' split: option.splits)
qed

lemma fragment_destroy_owned:
  assumes own: "owned h (f # fs)"
  shows "\<exists>h'. fragment_destroy f h = Inr h' \<and> owned h' fs \<and> same_bytes h h'"
proof (cases "impl f")
  case None
  then have "owned h fs" using own by (auto simp: owned_def)
  with None show ?thesis by (simp add: fragment_destroy_def)
next
  case (Some b)
  from own have "f \<in> set (f # fs)" by simp
  from own this Some obtain blk where blk: "blocks h b = Some blk" "deref (blocks h) (impl f) = Inr blk"
    "refCount blk = int (handles_of b (f # fs))" "b < next_block h"
    by (rule handle_block)
  then have count: "refCount blk = 1 + int (handles_of b fs)" using Some by simp
  let ?x = "if refCount blk = 1 then None else Some (blk\<lparr>refCount := refCount blk - 1\<rparr>)"
  let ?h = "set_block b ?x h"
  have "fragment_destroy f h = Inr ?h"
    using Some blk(2) by (simp add: fragment_destroy_def)
  moreover have "owned ?h fs"
  proof (rule ownedI)
    fix c assume "blocks ?h c = None"
    then show "handles_of c fs = 0"
      using ownedD(1) [OF own, of c] count Some by (auto simp: set_block_def split: if_splits)
  next
    fix c blk' assume "blocks ?h c = Some blk'"
    then show "c < next_block ?h \<and> refCount blk' = int (handles_of c fs) \<and> 0 < handles_of c fs"
      using ownedD(2) [OF own, of c blk'] count Some blk(4)
      by (cases "c = b") (auto simp: set_block_def split: if_splits)
  next
    fix g assume g: "g \<in> set fs"
    with ownedD(3) [OF own] have ok: "handle_ok h g" by simp
    show "handle_ok ?h g"
    proof (cases "impl g = Some b")
      case True
      with g have "0 < handles_of b fs" by (auto simp: handles_of_def filter_empty_conv)
      with count True ok blk(1) show ?thesis by (simp add: handle_ok_def set_block_def)
    next
      case False
      with ok show ?thesis by (auto simp: handle_ok_def set_block_def split: option.splits)
    qed
  qed
  moreover have "same_bytes h ?h" using blk(1) by (auto simp: same_bytes_def set_block_def)
  ultimately show ?thesis by blast
qed

lemma fragment_slice_front_owned:
  assumes own: "owned h (f # fs)" and sz: "0 < sz" "sz < frag_size f"
  obtains g f' h' where "fragment_slice_front sz f h = Inr (Some g, f', h')" and "owned h' (g # f' # fs)"
    and "same_bytes h h'" and "frag_size g = sz" and "frag_size f' = frag_size f - sz"
    and "impl g \<noteq> None" and "impl f' \<noteq> None"
    and "fragment_span h' g @ fragment_span h' f' = fragment_span h f"
    and "fragment_span h' g = take (nat sz) (fragment_span h f)"
proof -
  have okf: "handle_ok h f" using ownedD(3) [OF own] by simp
  with sz obtain b where b: "impl f = Some b" by (cases "impl f") (auto simp: handle_ok_def)
  let ?g = "\<lparr>impl = impl f, startOffset = startOffset f, frag_size = sz\<rparr>"
  let ?f = "f\<lparr>startOffset := startOffset f + sz, frag_size := frag_size f - sz\<rparr>"
  have ok: "handle_ok h ?g" "handle_ok h ?f" using okf sz b by (auto simp: handle_ok_def)
  have "f \<in> set (f # fs)" and "impl ?g = Some b" by (simp_all add: b)
  from own this(1) b this(2) ok(1) obtain h' where h': "add_ref (impl f) h = Inr h'" "owned h' (?g # f # fs)"
    "same_bytes h h'" "\<forall>k. handle_ok h k \<longrightarrow> handle_ok h' k"
    by (rule add_ref_owned)
  have own': "owned h' (?g # ?f # fs)"
  proof (rule ownedI)
    show "handles_of c (?g # ?f # fs) = 0" if "blocks h' c = None" for c
      using ownedD(1) [OF h'(2) that] by simp
    show "c < next_block h' \<and> refCount blk = int (handles_of c (?g # ?f # fs)) \<and> 0 < handles_of c (?g # ?f # fs)"
      if "blocks h' c = Some blk" for c blk
      using ownedD(2) [OF h'(2) that] by simp
    show "handle_ok h' k" if "k \<in> set (?g # ?f # fs)" for k
      using that ownedD(3) [OF h'(2)] h'(4) ok by auto
  qed
  obtain blk where blk: "blocks h b = Some blk" using okf b by (auto simp: handle_ok_def)
  have span: "fragment_span h' k = fragment_span h k" if "k \<in> set (?g # ?f # fs)" for k
    using span_same_bytes [OF h'(3)] ownedD(3) [OF own'] that by blast
  let ?m = "nat sz" and ?n = "nat (frag_size f)" and ?d = "drop (nat (startOffset f)) (bytes blk)"
  have g: "fragment_span h ?g = take ?m ?d" by (simp add: fragment_span_def b blk)
  have "nat (startOffset f + sz) = ?m + nat (startOffset f)" using sz okf by (simp add: handle_ok_def nat_add_distrib)
  then have f': "fragment_span h ?f = take (?n - ?m) (drop ?m ?d)"
    using sz by (simp add: fragment_span_def b blk nat_diff_distrib)
  have f: "fragment_span h f = take ?n ?d" by (simp add: fragment_span_def b blk)
  have le: "?m \<le> ?n" using sz by simp
  then have "take ?m ?d @ take (?n - ?m) (drop ?m ?d) = take ?n ?d"
    by (metis le_add_diff_inverse take_add)
  with g f f' span have "fragment_span h' ?g @ fragment_span h' ?f = fragment_span h f" by simp
  moreover have "fragment_span h' ?g = take ?m (fragment_span h f)"
    using span g f le by (simp add: min_def)
  ultimately show thesis
    using h' own' sz b by (intro that [of ?g ?f h']) (simp_all add: fragment_slice_front_def)
qed

lemma fragment_shallow_copy_owned:
  assumes own: "owned h (f # fs)" and v: "fragment_valid f"
  obtains g h' where "fragment_shallow_copy f h = Inr (g, h')" and "owned h' (g # f # fs)"
    and "same_bytes h h'" and "frag_size g = frag_size f" and "impl g \<noteq> None"
    and "fragment_span h' g = fragment_span h f"
proof -
  from v obtain b where b: "impl f = Some b" by (auto simp: fragment_valid_def)
  have f: "f \<in> set (f # fs)" and ok: "handle_ok h f" using ownedD(3) [OF own] by simp_all
  from own f b b ok obtain h' where h': "add_ref (impl f) h = Inr h'" "owned h' (f # f # fs)" "same_bytes h h'"
    by (rule add_ref_owned)
  moreover have "fragment_span h' f = fragment_span h f"
    using span_same_bytes [OF h'(3)] ownedD(3) [OF h'(2), of f] by simp
  moreover have "\<lparr>impl = impl f, startOffset = startOffset f, frag_size = frag_size f\<rparr> = f" by simp
  ultimately show thesis
    using v b by (intro that [of f h']) (simp_all add: fragment_shallow_copy_def)
qed

lemma fragment_create_from_eq:
  assumes "length junk = length span"
  shows "fragment_create_from span junk h = Inr (fragment_create (int (length span)) span h)"
  using assms
  by (simp add: fragment_create_from_def fragment_create_def fragment_write_def set_block_def deref_def
      overwrite_def)

subsection \<open>Properties\<close>

text \<open>The operations of a program that creates, copies, slices and drops fragments, on its list of handles.\<close>

datatype fragment_op =
    FragCreate "byte list"
  | FragSlice int
  | FragCopy
  | FragDestroy
  | FragRotate

fun fragment_step :: "fragment_op \<Rightarrow> heap \<times> fragment list \<Rightarrow> fault + (heap \<times> fragment list)" where
  "fragment_step (FragCreate bs) (h, fs) =
     (if bs = [] then Inr (h, fs)
      else and_then (fragment_create_from bs bs h) (\<lambda>(f, h'). Inr (h', f # fs)))"
| "fragment_step (FragSlice sz) (h, f # fs) =
     (if sz \<le> 0 then Inr (h, f # fs)
      else and_then (fragment_slice_front sz f h) (\<lambda>(r, f', h').
        Inr (h', (case r of None \<Rightarrow> f' # fs | Some g \<Rightarrow> g # f' # fs))))"
| "fragment_step FragCopy (h, f # fs) =
     and_then (fragment_shallow_copy f h) (\<lambda>(g, h'). Inr (h', g # f # fs))"
| "fragment_step FragDestroy (h, f # fs) = and_then (fragment_destroy f h) (\<lambda>h'. Inr (h', fs))"
| "fragment_step FragRotate (h, f # fs) = Inr (h, fs @ [f])"
| "fragment_step _ (h, []) = Inr (h, [])"

fun fragment_run :: "fragment_op list \<Rightarrow> heap \<times> fragment list \<Rightarrow> fault + (heap \<times> fragment list)" where
  "fragment_run [] s = Inr s"
| "fragment_run (p # ps) s = and_then (fragment_step p s) (fragment_run ps)"

lemma owned_fragment_new: "owned h fs \<Longrightarrow> owned h (fragment_new # fs)"
  by (auto simp: owned_def fragment_new_def handle_ok_def)

lemma fragment_step_owned:
  assumes "owned h fs"
  shows "\<exists>h' fs'. fragment_step p (h, fs) = Inr (h', fs') \<and> owned h' fs'"
proof (cases "(p, h, fs)" rule: prod_cases3)
  case (fields q k gs)
  show ?thesis
  proof (cases p)
    case (FragCreate bs)
    obtain f h' where c: "fragment_create (int (length bs)) bs h = (f, h')" by fastforce
    from fragment_create_owned(1) [OF assms c] have "owned h' (f # fs)" by simp
    with FragCreate assms c show ?thesis by (simp add: fragment_create_from_eq)
  next
    case (FragSlice sz)
    show ?thesis
    proof (cases fs)
      case (Cons f fs')
      show ?thesis
      proof (cases "0 < sz \<and> sz < frag_size f")
        case True
        from fragment_slice_front_owned [of h f fs' sz] assms Cons True obtain g f' h' where
          "fragment_slice_front sz f h = Inr (Some g, f', h')" "owned h' (g # f' # fs')" by blast
        with FragSlice Cons True show ?thesis by simp
      next
        case False
        with FragSlice Cons assms show ?thesis by (auto simp: fragment_slice_front_def)
      qed
    qed (use FragSlice assms in simp)
  next
    case FragCopy
    show ?thesis
    proof (cases fs)
      case (Cons f fs')
      show ?thesis
      proof (cases "fragment_valid f")
        case True
        from fragment_shallow_copy_owned [of h f fs'] assms Cons True obtain g h' where
          "fragment_shallow_copy f h = Inr (g, h')" "owned h' (g # f # fs')" by blast
        with FragCopy Cons show ?thesis by simp
      next
        case False
        with FragCopy Cons owned_fragment_new [OF assms] show ?thesis
          by (simp add: fragment_shallow_copy_def)
      qed
    qed (use FragCopy assms in simp)
  next
    case FragDestroy
    show ?thesis
    proof (cases fs)
      case (Cons f fs')
      with fragment_destroy_owned [of h f fs'] assms FragDestroy show ?thesis by auto
    qed (use FragDestroy assms in simp)
  next
    case FragRotate
    show ?thesis
    proof (cases fs)
      case (Cons f fs')
      with owned_permute [OF assms, of "fs' @ [f]"] FragRotate show ?thesis by auto
    qed (use FragRotate assms in simp)
  qed
qed

lemma fragment_run_owned:
  "owned h fs \<Longrightarrow> \<exists>h' fs'. fragment_run ps (h, fs) = Inr (h', fs') \<and> owned h' fs'"
proof (induction ps arbitrary: h fs)
  case (Cons p ps)
  from fragment_step_owned [OF Cons.prems, of p] obtain h1 fs1 where
    "fragment_step p (h, fs) = Inr (h1, fs1)" "owned h1 fs1" by blast
  with Cons.IH show ?case by simp
qed simp

text \<open>
  However a program creates, slices, copies and drops fragments, no operation touches freed
  memory, and a block is allocated exactly while some fragment points to it, with a counter that is
  the number of those fragments.
\<close>

theorem fragments_count_references:
  "\<exists>h fs. fragment_run ps (heap_new, []) = Inr (h, fs)
     \<and> (\<forall>b. map_option refCount (blocks h b) =
            (if handles_of b fs = 0 then None else Some (int (handles_of b fs))))"
proof -
  from fragment_run_owned [OF owned_new, of ps] obtain h fs where
    r: "fragment_run ps (heap_new, []) = Inr (h, fs)" and own: "owned h fs" by blast
  have "map_option refCount (blocks h b) = (if handles_of b fs = 0 then None else Some (int (handles_of b fs)))" for b
    using ownedD(1,2) [OF own, of b] by (cases "blocks h b") auto
  with r show ?thesis by blast
qed

end
