(* ===== verification/Buffer.thy ===== *)
theory Buffer
  imports Fragment
begin

text \<open>
  \<^verbatim>\<open>shared/network/buffer/buffer.cpp\<close>: a sequence of fragments read as one sequence of bytes, its
  slicing at the front and merging at the back, and its iterators.

  The theory proves that slicing splits the bytes of a buffer exactly, that merging joins them and a
  shallow copy shows them, each without copying or leaking a block, and that the iterators enumerate
  them.
\<close>

record buffer =
  buf_size :: int
  fragments :: "fragment list"

definition buffer_new :: buffer where
  "buffer_new = \<lparr>buf_size = 0, fragments = []\<rparr>"

subsection \<open>Operations\<close>

definition calculate_size :: "fragment list \<Rightarrow> int" where
  "calculate_size fs = fold (\<lambda>f s. s + frag_size f) fs 0"

definition buffer_empty :: "buffer \<Rightarrow> bool" where
  "buffer_empty b \<longleftrightarrow> buf_size b = 0 \<and> fragments b = []"

text \<open>Destroying a container of fragments.\<close>

fun destroy_all :: "fragment list \<Rightarrow> heap \<Rightarrow> fault + heap" where
  "destroy_all [] h = Inr h"
| "destroy_all (f # fs) h = and_then (fragment_destroy f h) (destroy_all fs)"

definition buffer_clear :: "buffer \<Rightarrow> heap \<Rightarrow> fault + (buffer \<times> heap)" where
  "buffer_clear b h = and_then (destroy_all (fragments b) h) (\<lambda>h'. Inr (buffer_new, h'))"

text \<open>\<^verbatim>\<open>Add\<close> takes its fragment by value: a fragment it refuses is destroyed.\<close>

definition buffer_add :: "fragment \<Rightarrow> buffer \<Rightarrow> heap \<Rightarrow> fault + (buffer \<times> heap)" where
  "buffer_add f b h =
     (if \<not> fragment_valid f then and_then (fragment_destroy f h) (\<lambda>h'. Inr (b, h'))
      else Inr (b\<lparr>buf_size := buf_size b + frag_size f, fragments := fragments b @ [f]\<rparr>, h))"

text \<open>
  The loop of \<^verbatim>\<open>SliceFront\<close>: what goes to the new buffer and what stays. \<open>None\<close> as the size is a loop that
  found no place to cut.
\<close>

fun slice_loop ::
  "fragment list \<Rightarrow> int \<Rightarrow> int \<Rightarrow> heap \<Rightarrow> fault + (int option \<times> fragment list \<times> fragment list \<times> heap)" where
  "slice_loop [] acc sz h = Inr (None, [], [], h)"
| "slice_loop (f # fs) acc sz h =
     (let newSum = acc + frag_size f
      in if newSum > sz then
           and_then (fragment_slice_front (sz - acc) f h) (\<lambda>(r, f', h').
             case r of
               None \<Rightarrow> Inl BadOptional
             | Some g \<Rightarrow> Inr (Some sz, [g], f' # fs, h'))
         else if newSum = sz then Inr (Some sz, [f], fs, h)
         else and_then (slice_loop fs newSum sz h) (\<lambda>(s, taken, rest, h').
           case s of
             None \<Rightarrow> Inr (None, [], f # rest, h')
           | Some _ \<Rightarrow> Inr (s, f # taken, rest, h')))"

definition buffer_slice_front ::
  "buffer \<Rightarrow> int \<Rightarrow> buffer \<Rightarrow> heap \<Rightarrow> fault + (bool \<times> buffer \<times> buffer \<times> heap)" where
  "buffer_slice_front result sz b h =
     (if sz \<le> 0 \<or> buf_size b < sz then Inr (False, result, b, h)
      else and_then (slice_loop (fragments b) 0 sz h) (\<lambda>(s, taken, rest, h1).
        and_then (destroy_all (fragments result) h1) (\<lambda>h2.
          Inr (True,
               \<lparr>buf_size = (case s of None \<Rightarrow> 0 | Some n \<Rightarrow> n), fragments = taken\<rparr>,
               \<lparr>buf_size = buf_size b - sz, fragments = rest\<rparr>, h2))))"

text \<open>\<^verbatim>\<open>MergeBack\<close>; the second component is the buffer that was merged, cleared.\<close>

definition buffer_merge_back :: "buffer \<Rightarrow> buffer \<Rightarrow> buffer \<times> buffer" where
  "buffer_merge_back other b =
     (\<lparr>buf_size = buf_size b + buf_size other, fragments = fragments b @ fragments other\<rparr>, buffer_new)"

fun copy_all :: "fragment list \<Rightarrow> heap \<Rightarrow> fault + (fragment list \<times> heap)" where
  "copy_all [] h = Inr ([], h)"
| "copy_all (f # fs) h =
     and_then (fragment_shallow_copy f h) (\<lambda>(g, h1).
       and_then (copy_all fs h1) (\<lambda>(gs, h2). Inr (g # gs, h2)))"

definition buffer_shallow_copy :: "buffer \<Rightarrow> heap \<Rightarrow> fault + (buffer \<times> heap)" where
  "buffer_shallow_copy b h =
     and_then (copy_all (fragments b) h) (\<lambda>(gs, h'). Inr (\<lparr>buf_size = buf_size b, fragments = gs\<rparr>, h'))"

subsection \<open>Iterators\<close>

text \<open>
  An iterator is a position among the fragments, held as the fragments from it to the end, and an index into
  the first of them.
\<close>

record buffer_iterator =
  it_frags :: "fragment list"
  it_index :: int

text \<open>The inner loop of \<^verbatim>\<open>operator++\<close>: on to the next fragment that is not empty.\<close>

fun next_fragment :: "fragment list \<Rightarrow> fragment list" where
  "next_fragment [] = []"
| "next_fragment (f # fs) = (if frag_size f > 0 then f # fs else next_fragment fs)"

definition iterator_next :: "buffer_iterator \<Rightarrow> fault + buffer_iterator" where
  "iterator_next i =
     (case it_frags i of
        [] \<Rightarrow> Inl OutOfBounds
      | f # fs \<Rightarrow>
          if it_index i + 1 \<ge> frag_size f then Inr \<lparr>it_frags = next_fragment fs, it_index = 0\<rparr>
          else Inr (i\<lparr>it_index := it_index i + 1\<rparr>))"

definition iterator_new :: "fragment list \<Rightarrow> int \<Rightarrow> fault + buffer_iterator" where
  "iterator_new fs index =
     (case fs of
        [] \<Rightarrow> Inr \<lparr>it_frags = fs, it_index = index\<rparr>
      | f # _ \<Rightarrow>
          if index \<ge> frag_size f then iterator_next \<lparr>it_frags = fs, it_index = index\<rparr>
          else Inr \<lparr>it_frags = fs, it_index = index\<rparr>)"

definition buffer_begin :: "buffer \<Rightarrow> fault + buffer_iterator" where
  "buffer_begin b = iterator_new (fragments b) 0"

definition buffer_end :: buffer_iterator where
  "buffer_end = \<lparr>it_frags = [], it_index = 0\<rparr>"

definition iterator_deref :: "heap \<Rightarrow> buffer_iterator \<Rightarrow> fault + byte" where
  "iterator_deref h i =
     (case it_frags i of
        [] \<Rightarrow> Inl OutOfBounds
      | f # _ \<Rightarrow>
          and_then (deref (blocks h) (impl f)) (\<lambda>blk.
            if startOffset f + it_index i < 0 \<or> int (length (bytes blk)) \<le> startOffset f + it_index i
            then Inl OutOfBounds
            else Inr (bytes blk ! nat (startOffset f + it_index i))))"

definition iterator_eq :: "buffer_iterator \<Rightarrow> buffer_iterator \<Rightarrow> bool" where
  "iterator_eq i j \<longleftrightarrow> length (it_frags i) = length (it_frags j) \<and> it_index i = it_index j"

subsection \<open>Contents\<close>

definition buffer_contents :: "heap \<Rightarrow> buffer \<Rightarrow> byte list" where
  "buffer_contents h b = concat (map (fragment_span h) (fragments b))"

text \<open>What the assertions of the class say: the size is the sum of the sizes, every fragment is valid.\<close>

definition buffer_ok :: "heap \<Rightarrow> buffer \<Rightarrow> bool" where
  "buffer_ok h b \<longleftrightarrow>
     buf_size b = calculate_size (fragments b) \<and> (\<forall>f \<in> set (fragments b). fragment_valid f \<and> handle_ok h f)"

lemma calculate_size_eq: "calculate_size fs = (\<Sum>f\<leftarrow>fs. frag_size f)"
proof -
  have "fold (\<lambda>f s. s + frag_size f) fs a = a + (\<Sum>f\<leftarrow>fs. frag_size f)" for a
    by (induction fs arbitrary: a) auto
  then show ?thesis by (simp add: calculate_size_def)
qed

lemma span_length:
  assumes "handle_ok h f"
  shows "int (length (fragment_span h f)) = frag_size f"
  using assms by (cases "impl f") (auto simp: handle_ok_def fragment_span_def min_def)

lemma spans_length:
  "(\<forall>f \<in> set fs. handle_ok h f) \<Longrightarrow>
     int (length (concat (map (fragment_span h) fs))) = (\<Sum>f\<leftarrow>fs. frag_size f)"
  by (induction fs) (auto simp: span_length)

lemma buffer_contents_length: "buffer_ok h b \<Longrightarrow> int (length (buffer_contents h b)) = buf_size b"
  using spans_length [of "fragments b" h] by (auto simp: buffer_ok_def buffer_contents_def calculate_size_eq)

lemma sizes_nonneg: "(\<forall>f \<in> set fs. handle_ok h f) \<Longrightarrow> 0 \<le> (\<Sum>f\<leftarrow>fs. frag_size f)"
  by (induction fs) (auto simp: handle_ok_def)

lemma spans_same_bytes:
  assumes "same_bytes h h'" and "\<forall>f \<in> set fs. handle_ok h' f"
  shows "concat (map (fragment_span h') fs) = concat (map (fragment_span h) fs)"
  using assms span_same_bytes by (induction fs) auto

subsection \<open>Destroying, slicing, copying\<close>

lemma destroy_all_owned:
  "owned h (fs @ gs) \<Longrightarrow> \<exists>h'. destroy_all fs h = Inr h' \<and> owned h' gs \<and> same_bytes h h'"
proof (induction fs arbitrary: h)
  case (Cons f fs)
  then have "owned h (f # fs @ gs)" by simp
  from fragment_destroy_owned [OF this] obtain h1 where
    h1: "fragment_destroy f h = Inr h1" "owned h1 (fs @ gs)" "same_bytes h h1" by blast
  with Cons.IH [OF h1(2)] show ?case using same_bytes_trans by fastforce
qed simp

lemma slice_loop_owned:
  assumes "owned h (fs @ gs)" and "\<forall>f \<in> set fs. fragment_valid f"
    and "acc < sz" and "sz \<le> acc + (\<Sum>f\<leftarrow>fs. frag_size f)"
  shows "\<exists>taken rest h'. slice_loop fs acc sz h = Inr (Some sz, taken, rest, h')
    \<and> owned h' (taken @ rest @ gs) \<and> same_bytes h h'
    \<and> (\<forall>f \<in> set taken \<union> set rest. fragment_valid f)
    \<and> (\<Sum>f\<leftarrow>taken. frag_size f) = sz - acc
    \<and> (\<Sum>f\<leftarrow>rest. frag_size f) = (\<Sum>f\<leftarrow>fs. frag_size f) - (sz - acc)
    \<and> concat (map (fragment_span h') taken) @ concat (map (fragment_span h') rest)
        = concat (map (fragment_span h) fs)"
  using assms
proof (induction fs arbitrary: acc gs)
  case Nil
  then show ?case by simp
next
  case (Cons f fs)
  have f: "0 < frag_size f" "fragment_valid f" using Cons.prems(2) by (auto simp: fragment_valid_def)
  have own: "owned h (f # fs @ gs)" using Cons.prems(1) by simp
  consider "acc + frag_size f > sz" | "acc + frag_size f = sz" | "acc + frag_size f < sz" by linarith
  then show ?case
  proof cases
    case 1
    from own have "owned h (f # fs @ gs)" .
    moreover have "0 < sz - acc" "sz - acc < frag_size f" using 1 Cons.prems(3) by simp_all
    ultimately obtain g f' h' where
      g: "fragment_slice_front (sz - acc) f h = Inr (Some g, f', h')" "owned h' (g # f' # fs @ gs)"
        "same_bytes h h'" "frag_size g = sz - acc" "frag_size f' = frag_size f - (sz - acc)"
        "impl g \<noteq> None" "impl f' \<noteq> None"
        "fragment_span h' g @ fragment_span h' f' = fragment_span h f"
      by (rule fragment_slice_front_owned)
    have "\<forall>k \<in> set fs. handle_ok h' k" using ownedD(3) [OF g(2)] by simp
    from spans_same_bytes [OF g(3) this] g 1 Cons.prems(2,3) show ?thesis
      by (intro exI [of _ "[g]"] exI [of _ "f' # fs"] exI [of _ h']) (auto simp: fragment_valid_def)
  next
    case 2
    with Cons.prems f show ?thesis
      by (intro exI [of _ "[f]"] exI [of _ fs] exI [of _ h]) auto
  next
    case 3
    have "\<forall>b. handles_of b (fs @ f # gs) = handles_of b (f # fs @ gs)" by simp
    then have own': "owned h (fs @ f # gs)" using owned_permute [OF own] by auto
    have valid: "\<forall>k \<in> set fs. fragment_valid k" and le: "sz \<le> acc + frag_size f + (\<Sum>k\<leftarrow>fs. frag_size k)"
      using Cons.prems by simp_all
    from Cons.IH [OF own' valid 3 le]
    obtain taken rest h' where IH: "slice_loop fs (acc + frag_size f) sz h = Inr (Some sz, taken, rest, h')"
      "owned h' (taken @ rest @ f # gs)" "same_bytes h h'"
      "\<forall>f \<in> set taken \<union> set rest. fragment_valid f"
      "(\<Sum>f\<leftarrow>taken. frag_size f) = sz - (acc + frag_size f)"
      "(\<Sum>f\<leftarrow>rest. frag_size f) = (\<Sum>f\<leftarrow>fs. frag_size f) - (sz - (acc + frag_size f))"
      "concat (map (fragment_span h') taken) @ concat (map (fragment_span h') rest)
        = concat (map (fragment_span h) fs)"
      by blast
    have "owned h' ((f # taken) @ rest @ gs)"
      by (rule owned_permute [OF IH(2)]) auto
    moreover have "fragment_span h' f = fragment_span h f"
      using span_same_bytes [OF IH(3)] ownedD(3) [OF IH(2)] by simp
    ultimately show ?thesis using IH 3 f
      by (intro exI [of _ "f # taken"] exI [of _ rest] exI [of _ h']) auto
  qed
qed

lemma copy_all_owned:
  assumes "owned h (fs @ gs)" and "\<forall>f \<in> set fs. fragment_valid f"
  shows "\<exists>cs h'. copy_all fs h = Inr (cs, h') \<and> owned h' (cs @ fs @ gs) \<and> same_bytes h h'
    \<and> map frag_size cs = map frag_size fs \<and> (\<forall>c \<in> set cs. impl c \<noteq> None)
    \<and> concat (map (fragment_span h') cs) = concat (map (fragment_span h) fs)"
  using assms
proof (induction fs arbitrary: h gs)
  case (Cons f fs)
  have own: "owned h (f # fs @ gs)" using Cons.prems(1) by simp
  have "fragment_valid f" using Cons.prems(2) by simp
  with own obtain g h1 where g: "fragment_shallow_copy f h = Inr (g, h1)" "owned h1 (g # f # fs @ gs)"
    "same_bytes h h1" "frag_size g = frag_size f" "impl g \<noteq> None" "fragment_span h1 g = fragment_span h f"
    by (rule fragment_shallow_copy_owned)
  have own1: "owned h1 (fs @ g # f # gs)" by (rule owned_permute [OF g(2)]) auto
  obtain cs h' where cs: "copy_all fs h1 = Inr (cs, h')" "owned h' (cs @ fs @ g # f # gs)" "same_bytes h1 h'"
    "map frag_size cs = map frag_size fs" "\<forall>c \<in> set cs. impl c \<noteq> None"
    "concat (map (fragment_span h') cs) = concat (map (fragment_span h1) fs)"
    using Cons.IH [OF own1] Cons.prems(2) by auto
  have "owned h' ((g # cs) @ (f # fs) @ gs)" by (rule owned_permute [OF cs(2)]) auto
  moreover have "fragment_span h' g = fragment_span h1 g"
    using span_same_bytes [OF cs(3)] ownedD(3) [OF cs(2)] by simp
  moreover have "concat (map (fragment_span h1) fs) = concat (map (fragment_span h) fs)"
    using ownedD(3) [OF own1] by (intro spans_same_bytes [OF g(3)]) auto
  ultimately show ?case using g cs same_bytes_trans [OF g(3) cs(3)]
    by (intro exI [of _ "g # cs"] exI [of _ h']) auto
qed auto

subsection \<open>What an iterator still has to visit\<close>

definition iterator_rest :: "heap \<Rightarrow> buffer_iterator \<Rightarrow> byte list" where
  "iterator_rest h i = drop (nat (it_index i)) (concat (map (fragment_span h) (it_frags i)))"

definition iterator_ok :: "heap \<Rightarrow> buffer_iterator \<Rightarrow> bool" where
  "iterator_ok h i \<longleftrightarrow>
     (\<forall>f \<in> set (it_frags i). handle_ok h f)
     \<and> (case it_frags i of [] \<Rightarrow> it_index i = 0 | f # _ \<Rightarrow> 0 \<le> it_index i \<and> it_index i < frag_size f)"

lemma next_fragment_rest:
  "(\<forall>f \<in> set fs. handle_ok h f) \<Longrightarrow>
     concat (map (fragment_span h) (next_fragment fs)) = concat (map (fragment_span h) fs)"
proof (induction fs)
  case (Cons f fs)
  have "fragment_span h f = []" if "\<not> 0 < frag_size f"
    using Cons.prems span_length [of h f] that by (cases "fragment_span h f") auto
  with Cons show ?case by simp
qed simp

lemma next_fragment_ok:
  "(\<forall>f \<in> set fs. handle_ok h f) \<Longrightarrow> iterator_ok h \<lparr>it_frags = next_fragment fs, it_index = 0\<rparr>"
proof (induction fs)
  case (Cons f fs)
  then show ?case by (auto simp: iterator_ok_def)
qed (simp add: iterator_ok_def)

lemma iterator_ok_cases:
  assumes "iterator_ok h i"
  obtains (at_end) "i = buffer_end" "iterator_rest h i = []"
  | (inside) f fs where "it_frags i = f # fs" "handle_ok h f" "\<forall>g \<in> set fs. handle_ok h g"
      "0 \<le> it_index i" "it_index i < frag_size f" "iterator_rest h i \<noteq> []"
proof (cases "it_frags i")
  case Nil
  with assms have "i = buffer_end" by (simp add: iterator_ok_def buffer_end_def)
  then show thesis by (intro at_end) (simp_all add: iterator_rest_def buffer_end_def)
next
  case (Cons f fs)
  with assms have f: "handle_ok h f" "\<forall>g \<in> set fs. handle_ok h g" "0 \<le> it_index i" "it_index i < frag_size f"
    by (auto simp: iterator_ok_def)
  with span_length [OF f(1)] have "iterator_rest h i \<noteq> []" by (auto simp: iterator_rest_def Cons)
  with Cons f show thesis by (intro inside) auto
qed

lemma iterator_deref_rest:
  assumes "iterator_ok h i" and "iterator_rest h i = c # cs"
  shows "iterator_deref h i = Inr c"
  using assms(1)
proof (cases rule: iterator_ok_cases)
  case at_end
  with assms(2) show ?thesis by simp
next
  case (inside f fs)
  have len: "int (length (fragment_span h f)) = frag_size f" by (rule span_length [OF inside(2)])
  let ?n = "nat (it_index i)"
  have n: "?n < length (fragment_span h f)" using inside len by linarith
  from inside obtain b blk where b: "impl f = Some b" "blocks h b = Some blk"
    "startOffset f + frag_size f \<le> int (length (bytes blk))" "0 \<le> startOffset f"
    by (cases "impl f") (auto simp: handle_ok_def)
  have "c = (fragment_span h f @ concat (map (fragment_span h) fs)) ! ?n"
    using assms(2) n unfolding iterator_rest_def inside(1) by (metis Cons_nth_drop_Suc concat.simps(2)
      length_append list.inject list.map(2) trans_less_add1)
  also have "\<dots> = fragment_span h f ! ?n" using n by (simp add: nth_append)
  also have "\<dots> = bytes blk ! (nat (startOffset f) + ?n)"
  proof -
    have "nat (startOffset f) \<le> length (bytes blk)" using b inside by linarith
    then show ?thesis using n b by (simp add: fragment_span_def nth_drop)
  qed
  also have "nat (startOffset f) + ?n = nat (startOffset f + it_index i)"
    using b inside by (simp add: nat_add_distrib)
  finally show ?thesis using inside b by (simp add: iterator_deref_def deref_def)
qed

lemma iterator_next_rest:
  assumes "iterator_ok h i" and "iterator_rest h i = c # cs"
  shows "\<exists>j. iterator_next i = Inr j \<and> iterator_ok h j \<and> iterator_rest h j = cs"
  using assms(1)
proof (cases rule: iterator_ok_cases)
  case at_end
  with assms(2) show ?thesis by simp
next
  case (inside f fs)
  have len: "int (length (fragment_span h f)) = frag_size f" by (rule span_length [OF inside(2)])
  let ?n = "nat (it_index i)"
  have cs: "cs = drop (Suc ?n) (fragment_span h f @ concat (map (fragment_span h) fs))"
    using assms(2) unfolding iterator_rest_def inside(1) by (metis concat.simps(2) drop_Suc list.map(2) list.sel(3) tl_drop)
  show ?thesis
  proof (cases "it_index i + 1 \<ge> frag_size f")
    case True
    with inside len have "Suc ?n = length (fragment_span h f)" by linarith
    with cs have "cs = concat (map (fragment_span h) fs)" by simp
    with True inside next_fragment_rest [of fs h] next_fragment_ok [of fs h] show ?thesis
      by (simp add: iterator_next_def iterator_rest_def)
  next
    case False
    with inside have "Suc ?n = nat (it_index i + 1)" by simp
    with False inside cs show ?thesis
      by (simp add: iterator_next_def iterator_rest_def iterator_ok_def)
  qed
qed

lemma buffer_begin_rest:
  assumes "\<forall>f \<in> set (fragments b). handle_ok h f"
  shows "\<exists>i. buffer_begin b = Inr i \<and> iterator_ok h i \<and> iterator_rest h i = buffer_contents h b"
proof (cases "fragments b")
  case Nil
  then show ?thesis
    by (simp add: buffer_begin_def iterator_new_def iterator_ok_def iterator_rest_def buffer_contents_def)
next
  case (Cons f fs)
  with assms have f: "handle_ok h f" "\<forall>g \<in> set fs. handle_ok h g" by auto
  show ?thesis
  proof (cases "frag_size f \<le> 0")
    case True
    with f span_length [OF f(1)] have "fragment_span h f = []" by (cases "fragment_span h f") auto
    with True Cons next_fragment_rest [OF f(2)] next_fragment_ok [OF f(2)] show ?thesis
      by (simp add: buffer_begin_def iterator_new_def iterator_next_def iterator_rest_def buffer_contents_def)
  next
    case False
    with Cons f show ?thesis
      by (auto simp: buffer_begin_def iterator_new_def iterator_ok_def iterator_rest_def buffer_contents_def)
  qed
qed

lemma buffer_slice_front_owned:
  assumes "owned h (fragments result @ fragments b @ others)" and "buffer_ok h b" and "0 < sz" and "sz \<le> buf_size b"
  shows "\<exists>b1 b2 h'. buffer_slice_front result sz b h = Inr (True, b1, b2, h')
    \<and> buffer_contents h' b1 = take (nat sz) (buffer_contents h b)
    \<and> buffer_contents h' b2 = drop (nat sz) (buffer_contents h b)
    \<and> buf_size b1 = sz \<and> buffer_ok h' b1 \<and> buffer_ok h' b2 \<and> owned h' (fragments b1 @ fragments b2 @ others)
    \<and> same_bytes h h'"
proof -
  have own: "owned h (fragments b @ fragments result @ others)" by (rule owned_permute [OF assms(1)]) auto
  have v: "\<forall>f \<in> set (fragments b). fragment_valid f" and size: "buf_size b = (\<Sum>f\<leftarrow>fragments b. frag_size f)"
    using assms(2) by (auto simp: buffer_ok_def calculate_size_eq)
  obtain taken rest h1 where s: "slice_loop (fragments b) 0 sz h = Inr (Some sz, taken, rest, h1)"
    "owned h1 (taken @ rest @ fragments result @ others)" "same_bytes h h1"
    "\<forall>f \<in> set taken \<union> set rest. fragment_valid f"
    "(\<Sum>f\<leftarrow>taken. frag_size f) = sz - 0" "(\<Sum>f\<leftarrow>rest. frag_size f) = (\<Sum>f\<leftarrow>fragments b. frag_size f) - (sz - 0)"
    "concat (map (fragment_span h1) taken) @ concat (map (fragment_span h1) rest) = buffer_contents h b"
    using slice_loop_owned [OF own v, of 0 sz] assms(3,4) size unfolding buffer_contents_def by auto
  have own1: "owned h1 (fragments result @ taken @ rest @ others)" by (rule owned_permute [OF s(2)]) auto
  from destroy_all_owned [OF own1] obtain h2 where d: "destroy_all (fragments result) h1 = Inr h2"
    "owned h2 (taken @ rest @ others)" "same_bytes h1 h2" by blast
  let ?b1 = "\<lparr>buf_size = sz, fragments = taken\<rparr>" and ?b2 = "\<lparr>buf_size = buf_size b - sz, fragments = rest\<rparr>"
  have ok2: "\<forall>f \<in> set taken. handle_ok h2 f" "\<forall>f \<in> set rest. handle_ok h2 f"
    using ownedD(3) [OF d(2)] by auto
  have c: "buffer_contents h2 ?b1 @ buffer_contents h2 ?b2 = buffer_contents h b"
    using s(7) spans_same_bytes [OF d(3) ok2(1)] spans_same_bytes [OF d(3) ok2(2)]
    by (simp add: buffer_contents_def)
  have ok: "buffer_ok h2 ?b1" "buffer_ok h2 ?b2"
    using s(4-6) ok2 size by (auto simp: buffer_ok_def calculate_size_eq)
  have "length (buffer_contents h2 ?b1) = nat sz" using buffer_contents_length [OF ok(1)] by simp
  with c have "buffer_contents h2 ?b1 = take (nat sz) (buffer_contents h b)"
    and "buffer_contents h2 ?b2 = drop (nat sz) (buffer_contents h b)"
    by (metis append_eq_conv_conj)+
  moreover have "same_bytes h h2" by (rule same_bytes_trans [OF s(3) d(3)])
  ultimately show ?thesis using s(1) d assms(3,4) ok by (simp add: buffer_slice_front_def)
qed

subsection \<open>Properties\<close>

text \<open>
  \<^verbatim>\<open>SliceFront\<close> with a size between one and the size of the buffer always succeeds: the result shows
  exactly the first bytes and the buffer the rest, both with a size that is the sum of their fragments; no
  byte is copied, no block leaks, and what the result held before is released.
\<close>

theorem slice_front_splits:
  assumes "owned h (fragments result @ fragments b @ others)" and "buffer_ok h b" and "0 < sz" and "sz \<le> buf_size b"
  shows "\<exists>b1 b2 h'. buffer_slice_front result sz b h = Inr (True, b1, b2, h')
    \<and> buffer_contents h' b1 = take (nat sz) (buffer_contents h b)
    \<and> buffer_contents h' b2 = drop (nat sz) (buffer_contents h b)
    \<and> buf_size b1 = sz \<and> buffer_ok h' b1 \<and> buffer_ok h' b2 \<and> owned h' (fragments b1 @ fragments b2 @ others)"
  using buffer_slice_front_owned [OF assms] by blast

text \<open>
  A shallow copy shows the same bytes as its source, and merging it at the back of another buffer
  joins their bytes and leaves the copy empty: the blocks are shared, none is leaked and none freed.
\<close>

theorem copy_and_merge_contents:
  assumes "owned h (fragments b @ fragments c @ others)" and "buffer_ok h b" and "buffer_ok h c"
  shows "\<exists>b' m h'. buffer_shallow_copy b h = Inr (b', h') \<and> buffer_ok h' b'
    \<and> buffer_contents h' b' = buffer_contents h b
    \<and> buffer_merge_back b' c = (m, buffer_new) \<and> buffer_ok h' m
    \<and> buffer_contents h' m = buffer_contents h c @ buffer_contents h b
    \<and> owned h' (fragments m @ fragments b @ others)"
proof -
  have v: "\<forall>f \<in> set (fragments b). fragment_valid f" using assms(2) by (simp add: buffer_ok_def)
  from copy_all_owned [OF assms(1) v] obtain cs h' where
    cs: "copy_all (fragments b) h = Inr (cs, h')" "owned h' (cs @ fragments b @ fragments c @ others)"
      "same_bytes h h'" "map frag_size cs = map frag_size (fragments b)" "\<forall>c \<in> set cs. impl c \<noteq> None"
      "concat (map (fragment_span h') cs) = concat (map (fragment_span h) (fragments b))"
    by blast
  let ?b' = "\<lparr>buf_size = buf_size b, fragments = cs\<rparr>"
  let ?m = "\<lparr>buf_size = buf_size c + buf_size b, fragments = fragments c @ cs\<rparr>"
  have hok: "\<forall>f \<in> set cs. handle_ok h' f" "\<forall>f \<in> set (fragments c). handle_ok h' f"
    using ownedD(3) [OF cs(2)] by auto
  have "0 < frag_size g" if "g \<in> set cs" for g
  proof -
    from that have "frag_size g \<in> set (map frag_size (fragments b))" by (simp flip: cs(4))
    with v show ?thesis by (auto simp: fragment_valid_def)
  qed
  with cs(5) have vc: "\<forall>g \<in> set cs. fragment_valid g" by (simp add: fragment_valid_def)
  have sizes: "(\<Sum>f\<leftarrow>cs. frag_size f) = (\<Sum>f\<leftarrow>fragments b. frag_size f)" by (simp only: cs(4))
  have ok': "buffer_ok h' ?b'" "buffer_ok h' ?m"
    using assms(2,3) hok vc sizes by (auto simp: buffer_ok_def calculate_size_eq)
  have cc: "concat (map (fragment_span h') (fragments c)) = concat (map (fragment_span h) (fragments c))"
    by (rule spans_same_bytes [OF cs(3) hok(2)])
  have "owned h' (fragments ?m @ fragments b @ others)" by (rule owned_permute [OF cs(2)]) auto
  moreover have "buffer_shallow_copy b h = Inr (?b', h')" by (simp add: buffer_shallow_copy_def cs(1))
  moreover have "buffer_merge_back ?b' c = (?m, buffer_new)" by (simp add: buffer_merge_back_def)
  moreover have "buffer_contents h' ?b' = buffer_contents h b"
    and "buffer_contents h' ?m = buffer_contents h c @ buffer_contents h b"
    using cs(6) cc by (simp_all add: buffer_contents_def)
  ultimately show ?thesis using ok' by blast
qed

text \<open>A sample buffer of two fragments, five bytes.\<close>

definition sample_heap :: heap where
  "sample_heap =
     \<lparr>blocks = [0 \<mapsto> \<lparr>refCount = 1, bytes = [1, 2]\<rparr>, 1 \<mapsto> \<lparr>refCount = 1, bytes = [3, 4, 5]\<rparr>], next_block = 2\<rparr>"

definition sample_buffer :: buffer where
  "sample_buffer =
     \<lparr>buf_size = 5,
      fragments = [\<lparr>impl = Some 0, startOffset = 0, frag_size = 2\<rparr>, \<lparr>impl = Some 1, startOffset = 0, frag_size = 3\<rparr>]\<rparr>"

lemma sample_buffer_facts:
  "owned sample_heap (fragments sample_buffer)" "buffer_ok sample_heap sample_buffer"
  "buffer_contents sample_heap sample_buffer = [1, 2, 3, 4, 5]"
  by (auto simp: owned_def sample_heap_def sample_buffer_def handle_ok_def buffer_ok_def
      calculate_size_def fragment_valid_def buffer_contents_def fragment_span_def)

theorem slice_front_splits_witness:
  "\<exists>b1 b2 h'. buffer_slice_front buffer_new 4 sample_buffer sample_heap = Inr (True, b1, b2, h')
     \<and> buffer_contents h' b1 = [1, 2, 3, 4] \<and> buffer_contents h' b2 = [5]"
proof -
  have "owned sample_heap (fragments buffer_new @ fragments sample_buffer @ [])"
    using sample_buffer_facts(1) by (simp add: buffer_new_def)
  from slice_front_splits [OF this sample_buffer_facts(2), of 4] sample_buffer_facts(3) show ?thesis
    by (auto simp: sample_buffer_def)
qed

theorem copy_and_merge_contents_witness:
  "\<exists>b' m h'. buffer_shallow_copy sample_buffer sample_heap = Inr (b', h')
     \<and> buffer_merge_back b' buffer_new = (m, buffer_new) \<and> buffer_contents h' m = [1, 2, 3, 4, 5]"
proof -
  have "owned sample_heap (fragments sample_buffer @ fragments buffer_new @ [])"
    using sample_buffer_facts(1) by (simp add: buffer_new_def)
  moreover have "buffer_ok sample_heap buffer_new" by (simp add: buffer_ok_def buffer_new_def calculate_size_def)
  moreover have "buffer_contents sample_heap buffer_new = []" by (simp add: buffer_contents_def buffer_new_def)
  ultimately show ?thesis
    using copy_and_merge_contents [OF _ sample_buffer_facts(2), of buffer_new "[]"] sample_buffer_facts(3)
    by fastforce
qed

end
