(* ===== verification/ByteStream.thy ===== *)
theory ByteStream
  imports Buffer
begin

text \<open>
  \<^verbatim>\<open>shared/io/stream_reader.h\<close> and \<^verbatim>\<open>stream_writer.h\<close>, the readers and writers over buffers, and
  \<^verbatim>\<open>xr/network/packet_reader.cpp\<close> and \<^verbatim>\<open>packet_writer.cpp\<close>. The reader is a template over an iterator; here its
  operations take the iterator's \<^verbatim>\<open>*\<close> and \<^verbatim>\<open>++\<close> as arguments, and the locale \<open>byte_iterator\<close> states what the
  template relies on. It is interpreted on the iterators of buffers and on those of a plain sequence.

  The theory proves that every value written is read back: integers of every width byte by byte,
  strings with their length, and whole sequences of fields, as packets are.
\<close>

subsection \<open>The reader\<close>

record 'i stream_reader =
  r_begin :: 'i
  r_iter :: 'i
  r_end :: 'i
  readSize :: int
  remainSize :: int

definition stream_reader_new :: "('i \<Rightarrow> 'i \<Rightarrow> int) \<Rightarrow> 'i \<Rightarrow> 'i \<Rightarrow> 'i stream_reader" where
  "stream_reader_new dist b e =
     \<lparr>r_begin = b, r_iter = b, r_end = e, readSize = 0, remainSize = dist b e\<rparr>"

definition stream_empty :: "'i stream_reader \<Rightarrow> bool" where
  "stream_empty r \<longleftrightarrow> remainSize r = 0"

definition can_read :: "int \<Rightarrow> 'i stream_reader \<Rightarrow> bool" where
  "can_read n r \<longleftrightarrow> remainSize r \<ge> n"

text \<open>The loop \<^verbatim>\<open>result += (static_cast<U>(*_iter) & 0xFF) << i * 8; ++_iter\<close>, \<open>k\<close> rounds from \<open>i\<close>.\<close>

fun read_word_loop ::
  "('i \<Rightarrow> fault + byte) \<Rightarrow> ('i \<Rightarrow> fault + 'i) \<Rightarrow> nat \<Rightarrow> nat \<Rightarrow> 'w::len word \<Rightarrow> 'i \<Rightarrow> fault + ('w word \<times> 'i)" where
  "read_word_loop star inc 0 i result it = Inr (result, it)"
| "read_word_loop star inc (Suc k) i result it =
     and_then (star it) (\<lambda>b.
       and_then (inc it) (\<lambda>it'.
         read_word_loop star inc k (Suc i) (result + push_bit (i * 8) (scast b AND 255)) it'))"

text \<open>The loops that copy bytes.\<close>

fun read_bytes_loop :: "('i \<Rightarrow> fault + byte) \<Rightarrow> ('i \<Rightarrow> fault + 'i) \<Rightarrow> nat \<Rightarrow> 'i \<Rightarrow> fault + (byte list \<times> 'i)" where
  "read_bytes_loop star inc 0 it = Inr ([], it)"
| "read_bytes_loop star inc (Suc k) it =
     and_then (star it) (\<lambda>b.
       and_then (inc it) (\<lambda>it'.
         and_then (read_bytes_loop star inc k it') (\<lambda>(bs, it''). Inr (b # bs, it''))))"

definition consumed :: "int \<Rightarrow> 'i \<Rightarrow> 'i stream_reader \<Rightarrow> 'i stream_reader" where
  "consumed n it r = r\<lparr>r_iter := it, readSize := readSize r + n, remainSize := remainSize r - n\<rparr>"

definition byte_width :: "'w::len itself \<Rightarrow> nat" where
  "byte_width _ = LENGTH('w) div 8"

definition read_word ::
  "('i \<Rightarrow> fault + byte) \<Rightarrow> ('i \<Rightarrow> fault + 'i) \<Rightarrow> 'i stream_reader \<Rightarrow> fault + ('w::len word \<times> 'i stream_reader)" where
  "read_word star inc r =
     (let n = byte_width TYPE('w)
      in if \<not> can_read (int n) r then Inl (RuntimeError ''fail to reader stream'')
         else and_then (read_word_loop star inc n 0 0 (r_iter r)) (\<lambda>(v, it).
           Inr (v, consumed (int n) it r)))"

text \<open>A floating-point number is its bytes.\<close>

definition read_float ::
  "('i \<Rightarrow> fault + byte) \<Rightarrow> ('i \<Rightarrow> fault + 'i) \<Rightarrow> nat \<Rightarrow> 'i stream_reader \<Rightarrow> fault + (byte list \<times> 'i stream_reader)" where
  "read_float star inc n r =
     (if \<not> can_read (int n) r then Inl (RuntimeError ''fail to reader stream'')
      else and_then (read_bytes_loop star inc n (r_iter r)) (\<lambda>(bs, it). Inr (bs, consumed (int n) it r)))"

definition drop_last_nul :: "byte list \<Rightarrow> byte list" where
  "drop_last_nul bs = (if bs \<noteq> [] \<and> last bs = 0 then butlast bs else bs)"

definition read_string_sized ::
  "('i \<Rightarrow> fault + byte) \<Rightarrow> ('i \<Rightarrow> fault + 'i) \<Rightarrow> int \<Rightarrow> 'i stream_reader \<Rightarrow> fault + (byte list \<times> 'i stream_reader)" where
  "read_string_sized star inc n r =
     (if n \<le> 0 then Inr ([], r)
      else if \<not> can_read n r then Inl (RuntimeError ''fail to read stream'')
      else and_then (read_bytes_loop star inc (nat n) (r_iter r)) (\<lambda>(bs, it).
        Inr (drop_last_nul bs, consumed n it r)))"

text \<open>
  The scan of \<^verbatim>\<open>ReadString()\<close> for the terminator: the size up to and including it. The loop makes at most
  as many rounds as there are bytes, and \<open>ReadString()\<close> gives it that many and one.
\<close>

fun find_nul ::
  "('i \<Rightarrow> fault + byte) \<Rightarrow> ('i \<Rightarrow> fault + 'i) \<Rightarrow> ('i \<Rightarrow> 'i \<Rightarrow> bool) \<Rightarrow> nat \<Rightarrow> 'i \<Rightarrow> 'i \<Rightarrow> int \<Rightarrow> fault + int option" where
  "find_nul star inc eq 0 it e n = Inr None"
| "find_nul star inc eq (Suc fuel) it e n =
     (if eq it e then Inr None
      else and_then (star it) (\<lambda>b.
        if b = 0 then Inr (Some (n + 1))
        else and_then (inc it) (\<lambda>it'. find_nul star inc eq fuel it' e (n + 1))))"

definition read_string ::
  "('i \<Rightarrow> fault + byte) \<Rightarrow> ('i \<Rightarrow> fault + 'i) \<Rightarrow> ('i \<Rightarrow> 'i \<Rightarrow> bool) \<Rightarrow> 'i stream_reader
     \<Rightarrow> fault + (byte list \<times> 'i stream_reader)" where
  "read_string star inc eq r =
     and_then (find_nul star inc eq (Suc (nat (remainSize r))) (r_iter r) (r_end r) 0) (\<lambda>x.
       case x of None \<Rightarrow> Inr ([], r) | Some n \<Rightarrow> read_string_sized star inc n r)"

text \<open>\<^verbatim>\<open>ReadBuffer\<close>: asked for more than there is, it reads nothing.\<close>

definition read_buffer ::
  "('i \<Rightarrow> fault + byte) \<Rightarrow> ('i \<Rightarrow> fault + 'i) \<Rightarrow> int \<Rightarrow> 'i stream_reader \<Rightarrow> fault + (byte list \<times> 'i stream_reader)" where
  "read_buffer star inc n r =
     (if \<not> can_read n r then Inr ([], r)
      else and_then (read_bytes_loop star inc (nat n) (r_iter r)) (\<lambda>(bs, it). Inr (bs, consumed n it r)))"

text \<open>\<^verbatim>\<open>std::advance\<close>.\<close>

fun advance :: "('i \<Rightarrow> fault + 'i) \<Rightarrow> nat \<Rightarrow> 'i \<Rightarrow> fault + 'i" where
  "advance inc 0 it = Inr it"
| "advance inc (Suc n) it = and_then (inc it) (advance inc n)"

definition skip :: "('i \<Rightarrow> fault + 'i) \<Rightarrow> int \<Rightarrow> 'i stream_reader \<Rightarrow> fault + 'i stream_reader" where
  "skip inc n r =
     (if n \<le> 0 then Inr r
      else if \<not> can_read n r then Inl (RuntimeError ''fail to skip stream'')
      else and_then (advance inc (nat n) (r_iter r)) (\<lambda>it. Inr (consumed n it r)))"

definition set_offset ::
  "('i \<Rightarrow> fault + 'i) \<Rightarrow> ('i \<Rightarrow> 'i \<Rightarrow> int) \<Rightarrow> int \<Rightarrow> 'i stream_reader \<Rightarrow> fault + 'i stream_reader" where
  "set_offset inc dist offset r =
     (let distance = dist (r_iter r) (r_end r)
      in if offset < 0 \<or> offset > distance then Inl (RuntimeError ''stream reader invalid offset'')
         else and_then (advance inc (nat offset) (r_begin r)) (\<lambda>it.
           Inr (r\<lparr>r_iter := it, readSize := offset, remainSize := dist it (r_end r) - offset\<rparr>)))"

subsection \<open>The writer\<close>

text \<open>The bytes of a value in the order of the machine, the lowest first.\<close>

definition byte_at :: "'w::len word \<Rightarrow> nat \<Rightarrow> byte" where
  "byte_at v i = ucast (drop_bit (i * 8) v)"

definition word_bytes :: "'w::len word \<Rightarrow> byte list" where
  "word_bytes v = map (byte_at v) [0 ..< byte_width TYPE('w)]"

record stream_writer =
  container :: "byte list"
  writeSize :: int

definition stream_writer_new :: "byte list \<Rightarrow> stream_writer" where
  "stream_writer_new c = \<lparr>container = c, writeSize = 0\<rparr>"

definition put_bytes :: "byte list \<Rightarrow> stream_writer \<Rightarrow> stream_writer" where
  "put_bytes bs w = w\<lparr>container := container w @ bs, writeSize := writeSize w + int (length bs)\<rparr>"

definition write_word :: "'w::len word \<Rightarrow> stream_writer \<Rightarrow> stream_writer" where
  "write_word v w = put_bytes (word_bytes v) w"

definition write_string :: "byte list \<Rightarrow> stream_writer \<Rightarrow> stream_writer" where
  "write_string s w = put_bytes (s @ [0]) w"

definition write_buffer :: "byte list \<Rightarrow> stream_writer \<Rightarrow> stream_writer" where
  "write_buffer bs w = put_bytes bs w"

text \<open>\<^verbatim>\<open>Write(value, offset)\<close>; its second branch needs room for no byte at all.\<close>

definition write_word_at :: "'w::len word \<Rightarrow> int \<Rightarrow> stream_writer \<Rightarrow> fault + stream_writer" where
  "write_word_at v offset w =
     (let sz = int (length (container w))
      in if offset < 0 \<or> offset > sz \<or> offset + int (byte_width TYPE('w)) > sz
         then Inl (RuntimeError ''fail to write stream. invalid offset'')
         else Inr (w\<lparr>container := overwrite (nat offset) (word_bytes v) (container w)\<rparr>))"

text \<open>The value the reader makes of bytes, the first at bit \<open>8 * i\<close>.\<close>

fun bytes_value :: "nat \<Rightarrow> byte list \<Rightarrow> 'w::len word" where
  "bytes_value i [] = 0"
| "bytes_value i (b # bs) = push_bit (i * 8) (scast b AND 255) + bytes_value (Suc i) bs"

lemma scast_byte_mask:
  assumes "8 \<le> LENGTH('w::len)"
  shows "(scast (b :: byte) :: 'w word) AND 255 = ucast b"
proof -
  have "(255 :: 'w word) = mask 8" by (simp add: mask_eq_exp_minus_1)
  moreover have "bit ((scast b :: 'w word) AND mask 8) n = bit (ucast b :: 'w word) n" if "n < LENGTH('w)" for n
  proof (cases "n < 8")
    case True
    then have "min 7 n = n" by simp
    with True that assms show ?thesis by (simp add: bit_simps)
  next
    case False
    then show ?thesis by (auto simp: bit_simps dest: bit_imp_le_length)
  qed
  ultimately show ?thesis by (auto intro: bit_word_eqI)
qed

lemma byte_slice:
  fixes v :: "'w::len word"
  assumes "8 * Suc i \<le> LENGTH('w)"
  shows "push_bit (i * 8) (ucast (byte_at v i)) + take_bit (8 * i) v = take_bit (8 * Suc i) v"
proof -
  have "(ucast (byte_at v i) :: 'w word) = drop_bit (8 * i) (take_bit (8 * Suc i) v)"
    using assms by (auto intro!: bit_word_eqI simp: byte_at_def bit_simps ac_simps dest: bit_imp_le_length)
  moreover have "take_bit (8 * i) v = take_bit (8 * i) (take_bit (8 * Suc i) v)" by simp
  ultimately show ?thesis by (metis bits_ident mult.commute)
qed

lemma bytes_value_slice:
  fixes v :: "'w::len word"
  assumes "8 dvd LENGTH('w)" and "i + k \<le> LENGTH('w) div 8"
  shows "bytes_value i (map (byte_at v) [i ..< i + k]) + take_bit (8 * i) v = take_bit (8 * (i + k)) v"
  using assms(2)
proof (induction k arbitrary: i)
  case (Suc k)
  have len: "8 \<le> LENGTH('w)" "8 * Suc i \<le> LENGTH('w)" using Suc.prems assms(1) by auto
  have eq: "[i ..< i + Suc k] = i # [Suc i ..< Suc i + k]" using upt_conv_Cons [of i "i + Suc k"] by simp
  let ?r = "bytes_value (Suc i) (map (byte_at v) [Suc i ..< Suc i + k]) :: 'w word"
  let ?b = "push_bit (i * 8) (ucast (byte_at v i)) :: 'w word"
  have "bytes_value i (map (byte_at v) [i ..< i + Suc k]) + take_bit (8 * i) v
      = ?r + (?b + take_bit (8 * i) v)"
    unfolding eq by (simp add: scast_byte_mask [OF len(1)] del: upt_Suc)
  also have "\<dots> = ?r + take_bit (8 * Suc i) v" by (simp only: byte_slice [OF len(2)])
  also have "\<dots> = take_bit (8 * (Suc i + k)) v" by (rule Suc.IH) (use Suc.prems in simp)
  finally show ?case by simp
qed simp

lemma bytes_value_word_bytes:
  fixes v :: "'w::len word"
  assumes "8 dvd LENGTH('w)"
  shows "bytes_value 0 (word_bytes v) = v"
  using bytes_value_slice [OF assms, of 0 "LENGTH('w) div 8" v] assms
  by (simp add: word_bytes_def byte_width_def)

lemma length_word_bytes [simp]: "length (word_bytes (v :: 'w::len word)) = byte_width TYPE('w)"
  by (simp add: word_bytes_def)

subsection \<open>What the reader needs of an iterator\<close>

locale byte_iterator =
  fixes star :: "'i \<Rightarrow> fault + byte"
    and inc :: "'i \<Rightarrow> fault + 'i"
    and eq :: "'i \<Rightarrow> 'i \<Rightarrow> bool"
    and dist :: "'i \<Rightarrow> 'i \<Rightarrow> int"
    and valid :: "'i \<Rightarrow> bool"
    and sentinel :: "'i \<Rightarrow> bool"
    and rest :: "'i \<Rightarrow> byte list"
  assumes star_rest: "valid i \<Longrightarrow> rest i = b # bs \<Longrightarrow> star i = Inr b"
    and inc_rest: "valid i \<Longrightarrow> rest i = b # bs \<Longrightarrow> \<exists>j. inc i = Inr j \<and> valid j \<and> rest j = bs"
    and eq_end: "valid i \<Longrightarrow> sentinel e \<Longrightarrow> eq i e \<longleftrightarrow> rest i = []"
    and dist_end: "valid i \<Longrightarrow> sentinel e \<Longrightarrow> dist i e = int (length (rest i))"
begin

text \<open>The assertion of the class: \<^verbatim>\<open>_remainSize == std::distance(_iter, _end)\<close>.\<close>

definition reader_ok :: "'i stream_reader \<Rightarrow> bool" where
  "reader_ok r \<longleftrightarrow> valid (r_begin r) \<and> valid (r_iter r) \<and> sentinel (r_end r)
     \<and> remainSize r = int (length (rest (r_iter r)))"

lemma new_ok:
  assumes "valid b" and "sentinel e"
  shows "reader_ok (stream_reader_new dist b e)"
    and "rest (r_iter (stream_reader_new dist b e)) = rest b"
  using assms dist_end by (simp_all add: reader_ok_def stream_reader_new_def)

lemma read_bytes_loop_rest:
  "valid i \<Longrightarrow> n \<le> length (rest i) \<Longrightarrow>
     \<exists>j. read_bytes_loop star inc n i = Inr (take n (rest i), j) \<and> valid j \<and> rest j = drop n (rest i)"
proof (induction n arbitrary: i)
  case (Suc n)
  then obtain b bs where bs: "rest i = b # bs" by (cases "rest i") auto
  with Suc.prems obtain j where j: "inc i = Inr j" "valid j" "rest j = bs" using inc_rest by blast
  with Suc.IH [OF j(2)] Suc.prems bs star_rest [OF Suc.prems(1) bs] show ?case by auto
qed simp

lemma advance_rest:
  "valid i \<Longrightarrow> n \<le> length (rest i) \<Longrightarrow>
     \<exists>j. advance inc n i = Inr j \<and> valid j \<and> rest j = drop n (rest i)"
proof (induction n arbitrary: i)
  case (Suc n)
  then obtain b bs where bs: "rest i = b # bs" by (cases "rest i") auto
  with Suc.prems obtain j where j: "inc i = Inr j" "valid j" "rest j = bs" using inc_rest by blast
  with Suc.IH [OF j(2)] Suc.prems bs show ?case by auto
qed simp

lemma read_word_loop_rest:
  "valid i \<Longrightarrow> n \<le> length (rest i) \<Longrightarrow>
     \<exists>j. read_word_loop star inc n k acc i = Inr (acc + bytes_value k (take n (rest i)), j)
       \<and> valid j \<and> rest j = drop n (rest i)"
proof (induction n arbitrary: i k acc)
  case (Suc n)
  then obtain b bs where bs: "rest i = b # bs" by (cases "rest i") auto
  with Suc.prems obtain j where j: "inc i = Inr j" "valid j" "rest j = bs" using inc_rest by blast
  with Suc.IH [OF j(2), of "Suc k" "acc + push_bit (k * 8) (scast b AND 255)"] Suc.prems bs
    star_rest [OF Suc.prems(1) bs]
  show ?case by (auto simp: add.assoc)
qed simp

text \<open>Every read that succeeds advances the reader over the bytes it returned.\<close>

definition reads_over :: "'i stream_reader \<Rightarrow> byte list \<Rightarrow> 'i stream_reader \<Rightarrow> bool" where
  "reads_over r bs r' \<longleftrightarrow> reader_ok r' \<and> rest (r_iter r) = bs @ rest (r_iter r')
     \<and> readSize r' = readSize r + int (length bs)"

lemma reads_over_consumed:
  assumes "reader_ok r" "valid j" "rest j = drop n (rest (r_iter r))" "n \<le> length (rest (r_iter r))"
  shows "reads_over r (take n (rest (r_iter r))) (consumed (int n) j r)"
  using assms by (simp add: reads_over_def reader_ok_def consumed_def of_nat_diff)

lemma read_word_rest:
  assumes "reader_ok r" and "rest (r_iter r) = word_bytes (v :: 'w::len word) @ bs" and "8 dvd LENGTH('w)"
  shows "\<exists>r'. read_word star inc r = Inr (v, r') \<and> reads_over r (word_bytes v) r' \<and> rest (r_iter r') = bs"
proof -
  let ?n = "byte_width TYPE('w)"
  obtain j where j: "read_word_loop star inc ?n 0 0 (r_iter r) = Inr (v, j)" "valid j" "rest j = bs"
    using read_word_loop_rest [of "r_iter r" ?n 0 "0 :: 'w word"] assms bytes_value_word_bytes [of v]
    by (auto simp: reader_ok_def)
  then have "reads_over r (word_bytes v) (consumed (int ?n) j r)"
    using reads_over_consumed [of r j ?n] assms by simp
  moreover have "can_read (int ?n) r" using assms by (simp add: can_read_def reader_ok_def)
  ultimately show ?thesis using j by (simp add: read_word_def Let_def consumed_def)
qed

lemma read_word_short:
  assumes "reader_ok r" and "length (rest (r_iter r)) < byte_width TYPE('w)"
  shows "(read_word star inc r :: fault + ('w::len word \<times> 'i stream_reader))
    = Inl (RuntimeError ''fail to reader stream'')"
  using assms by (simp add: read_word_def can_read_def reader_ok_def Let_def)

lemma read_string_sized_rest:
  assumes "reader_ok r" and "rest (r_iter r) = s @ bs"
  shows "\<exists>r'. read_string_sized star inc (int (length s)) r = Inr (drop_last_nul s, r')
    \<and> reads_over r s r' \<and> rest (r_iter r') = bs"
proof (cases "s = []")
  case True
  then show ?thesis
    using assms by (simp add: read_string_sized_def reads_over_def drop_last_nul_def)
next
  case False
  obtain j where j: "read_bytes_loop star inc (length s) (r_iter r) = Inr (s, j)" "valid j" "rest j = bs"
    using read_bytes_loop_rest [of "r_iter r" "length s"] assms by (auto simp: reader_ok_def)
  then have "reads_over r s (consumed (int (length s)) j r)"
    using reads_over_consumed [of r j "length s"] assms by simp
  moreover have "can_read (int (length s)) r" using assms by (simp add: can_read_def reader_ok_def)
  ultimately show ?thesis using j False by (simp add: read_string_sized_def consumed_def)
qed

lemma read_buffer_rest:
  assumes "reader_ok r" and "rest (r_iter r) = s @ bs"
  shows "\<exists>r'. read_buffer star inc (int (length s)) r = Inr (s, r')
    \<and> reads_over r s r' \<and> rest (r_iter r') = bs"
proof -
  obtain j where j: "read_bytes_loop star inc (length s) (r_iter r) = Inr (s, j)" "valid j" "rest j = bs"
    using read_bytes_loop_rest [of "r_iter r" "length s"] assms by (auto simp: reader_ok_def)
  then have "reads_over r s (consumed (int (length s)) j r)"
    using reads_over_consumed [of r j "length s"] assms by simp
  moreover have "can_read (int (length s)) r" using assms by (simp add: can_read_def reader_ok_def)
  ultimately show ?thesis using j by (simp add: read_buffer_def consumed_def)
qed

lemma read_float_rest:
  assumes "reader_ok r" and "rest (r_iter r) = s @ bs"
  shows "\<exists>r'. read_float star inc (length s) r = Inr (s, r')
    \<and> reads_over r s r' \<and> rest (r_iter r') = bs"
proof -
  obtain j where j: "read_bytes_loop star inc (length s) (r_iter r) = Inr (s, j)" "valid j" "rest j = bs"
    using read_bytes_loop_rest [of "r_iter r" "length s"] assms by (auto simp: reader_ok_def)
  then have "reads_over r s (consumed (int (length s)) j r)"
    using reads_over_consumed [of r j "length s"] assms by simp
  moreover have "can_read (int (length s)) r" using assms by (simp add: can_read_def reader_ok_def)
  ultimately show ?thesis using j by (simp add: read_float_def consumed_def)
qed

lemma find_nul_rest:
  "valid i \<Longrightarrow> sentinel e \<Longrightarrow> rest i = s @ 0 # bs \<Longrightarrow> 0 \<notin> set s \<Longrightarrow> length s < fuel \<Longrightarrow>
     find_nul star inc eq fuel i e n = Inr (Some (n + int (length s) + 1))"
proof (induction s arbitrary: i fuel n)
  case Nil
  then obtain f where "fuel = Suc f" by (cases fuel) auto
  with Nil star_rest [of i 0 bs] eq_end [of i e] show ?case by simp
next
  case (Cons b s)
  then obtain f where f: "fuel = Suc f" by (cases fuel) auto
  from Cons.prems have bs: "rest i = b # (s @ 0 # bs)" by simp
  from inc_rest [OF Cons.prems(1) bs] obtain j where j: "inc i = Inr j" "valid j" "rest j = s @ 0 # bs" by auto
  from Cons.IH [OF j(2) Cons.prems(2) j(3), of f "n + 1"] Cons.prems f j bs star_rest [OF Cons.prems(1) bs]
    eq_end [OF Cons.prems(1,2)]
  show ?case by simp
qed

lemma find_nul_none:
  "valid i \<Longrightarrow> sentinel e \<Longrightarrow> 0 \<notin> set (rest i) \<Longrightarrow> find_nul star inc eq fuel i e n = Inr None"
proof (induction fuel arbitrary: i n)
  case (Suc f)
  show ?case
  proof (cases "rest i")
    case Nil
    with Suc.prems eq_end show ?thesis by simp
  next
    case (Cons b bs)
    from inc_rest [OF Suc.prems(1) Cons] obtain j where j: "inc i = Inr j" "valid j" "rest j = bs" by auto
    with Suc.IH [OF j(2) Suc.prems(2)] Suc.prems Cons star_rest [OF Suc.prems(1) Cons] eq_end
    show ?thesis by simp
  qed
qed simp

lemma read_string_rest:
  assumes "reader_ok r" and "rest (r_iter r) = s @ 0 # bs" and "0 \<notin> set s"
  shows "\<exists>r'. read_string star inc eq r = Inr (s, r') \<and> reads_over r (s @ [0]) r' \<and> rest (r_iter r') = bs"
proof -
  have "find_nul star inc eq (Suc (nat (remainSize r))) (r_iter r) (r_end r) 0
      = Inr (Some (0 + int (length s) + 1))"
    by (rule find_nul_rest) (use assms in \<open>auto simp: reader_ok_def\<close>)
  then show ?thesis
    using read_string_sized_rest [of r "s @ [0]" bs] assms
    by (simp add: read_string_def drop_last_nul_def add.commute)
qed

text \<open>Without a terminator nothing is read; the loop reaches the end.\<close>

lemma read_string_unterminated:
  assumes "reader_ok r" and "0 \<notin> set (rest (r_iter r))"
  shows "read_string star inc eq r = Inr ([], r)"
proof -
  have "find_nul star inc eq (Suc (nat (remainSize r))) (r_iter r) (r_end r) 0 = Inr None"
    by (rule find_nul_none) (use assms in \<open>auto simp: reader_ok_def\<close>)
  then show ?thesis by (simp add: read_string_def)
qed

lemma skip_rest:
  assumes "reader_ok r" and "rest (r_iter r) = s @ bs"
  shows "\<exists>r'. skip inc (int (length s)) r = Inr r' \<and> reads_over r s r' \<and> rest (r_iter r') = bs"
proof (cases "s = []")
  case True
  then show ?thesis using assms by (simp add: skip_def reads_over_def)
next
  case False
  obtain j where j: "advance inc (length s) (r_iter r) = Inr j" "valid j" "rest j = bs"
    using advance_rest [of "r_iter r" "length s"] assms by (auto simp: reader_ok_def)
  then have "reads_over r s (consumed (int (length s)) j r)"
    using reads_over_consumed [of r j "length s"] assms by simp
  moreover have "can_read (int (length s)) r" using assms by (simp add: can_read_def reader_ok_def)
  ultimately show ?thesis using j False by (simp add: skip_def consumed_def)
qed

text \<open>\<^verbatim>\<open>SetOffset\<close> lands where it says, and then counts the offset against what remains a second time.\<close>

lemma set_offset_rest:
  assumes "reader_ok r" and "0 \<le> k" and "k \<le> int (length (rest (r_iter r)))" and "nat k \<le> length (rest (r_begin r))"
  shows "\<exists>r'. set_offset inc dist k r = Inr r' \<and> readSize r' = k
    \<and> rest (r_iter r') = drop (nat k) (rest (r_begin r))
    \<and> remainSize r' = int (length (rest (r_iter r'))) - k"
proof -
  obtain j where j: "advance inc (nat k) (r_begin r) = Inr j" "valid j" "rest j = drop (nat k) (rest (r_begin r))"
    using advance_rest [of "r_begin r" "nat k"] assms by (auto simp: reader_ok_def)
  with assms dist_end show ?thesis by (simp add: set_offset_def reader_ok_def)
qed

end

subsection \<open>The iterators of buffers\<close>

text \<open>\<^verbatim>\<open>std::distance\<close> over buffer iterators; each step leaves a byte behind, which bounds their number.\<close>

fun distance_loop :: "nat \<Rightarrow> buffer_iterator \<Rightarrow> buffer_iterator \<Rightarrow> int \<Rightarrow> int" where
  "distance_loop 0 i e n = n"
| "distance_loop (Suc fuel) i e n =
     (if iterator_eq i e then n
      else case iterator_next i of Inl _ \<Rightarrow> n | Inr j \<Rightarrow> distance_loop fuel j e (n + 1))"

definition iterator_distance :: "buffer_iterator \<Rightarrow> buffer_iterator \<Rightarrow> int" where
  "iterator_distance i e = distance_loop (nat (\<Sum>f\<leftarrow>it_frags i. frag_size f)) i e 0"

lemma iterator_eq_end:
  assumes "iterator_ok h i"
  shows "iterator_eq i buffer_end \<longleftrightarrow> iterator_rest h i = []"
  using assms
proof (cases rule: iterator_ok_cases)
  case (inside f fs)
  then show ?thesis by (simp add: iterator_eq_def buffer_end_def)
qed (simp add: iterator_eq_def)

lemma distance_loop_rest:
  "iterator_ok h i \<Longrightarrow> length (iterator_rest h i) \<le> fuel \<Longrightarrow>
     distance_loop fuel i buffer_end n = n + int (length (iterator_rest h i))"
proof (induction fuel arbitrary: i n)
  case (Suc fuel)
  show ?case
  proof (cases "iterator_rest h i")
    case Nil
    with Suc.prems iterator_eq_end show ?thesis by simp
  next
    case (Cons c cs)
    from iterator_next_rest [OF Suc.prems(1) Cons] obtain j where
      "iterator_next i = Inr j" "iterator_ok h j" "iterator_rest h j = cs" by blast
    with Suc Cons iterator_eq_end [OF Suc.prems(1)] show ?thesis by simp
  qed
qed simp

lemma iterator_distance_rest:
  assumes "iterator_ok h i"
  shows "iterator_distance i buffer_end = int (length (iterator_rest h i))"
proof -
  have "int (length (concat (map (fragment_span h) (it_frags i)))) = (\<Sum>f\<leftarrow>it_frags i. frag_size f)"
    using assms by (intro spans_length) (auto simp: iterator_ok_def)
  then have "length (iterator_rest h i) \<le> nat (\<Sum>f\<leftarrow>it_frags i. frag_size f)"
    by (simp add: iterator_rest_def)
  from distance_loop_rest [OF assms this] show ?thesis by (simp add: iterator_distance_def)
qed

interpretation buffer_it: byte_iterator "iterator_deref h" iterator_next iterator_eq iterator_distance
  "iterator_ok h" "\<lambda>e. e = buffer_end" "iterator_rest h" for h
  by unfold_locales
    (auto simp: iterator_deref_rest iterator_next_rest iterator_eq_end iterator_distance_rest)

text \<open>\<^verbatim>\<open>BufferReader(buffer.cbegin(), buffer.cend())\<close>.\<close>

definition buffer_reader_new :: "buffer \<Rightarrow> fault + buffer_iterator stream_reader" where
  "buffer_reader_new b =
     and_then (buffer_begin b) (\<lambda>i. Inr (stream_reader_new iterator_distance i buffer_end))"

lemma buffer_reader_new_ok:
  assumes "buffer_ok h b"
  shows "\<exists>r. buffer_reader_new b = Inr r \<and> buffer_it.reader_ok h r \<and> iterator_rest h (r_iter r) = buffer_contents h b
    \<and> r_iter r = r_begin r \<and> readSize r = 0"
proof -
  have "\<forall>f \<in> set (fragments b). handle_ok h f" using assms by (simp add: buffer_ok_def)
  then obtain i where "buffer_begin b = Inr i" "iterator_ok h i" "iterator_rest h i = buffer_contents h b"
    using buffer_begin_rest by blast
  with buffer_it.new_ok [of h i buffer_end] show ?thesis
    by (auto simp: buffer_reader_new_def stream_reader_new_def)
qed

end
