(* ===== verification/Packets.thy ===== *)
theory Packets
  imports ByteStream
begin

text \<open>
  \<^verbatim>\<open>xr/network/packet_writer.cpp\<close>, \<^verbatim>\<open>packet_reader.cpp\<close> and \<^verbatim>\<open>packet.cpp\<close>, and the messages of the login and
  lobby protocols, \<^verbatim>\<open>xr/network/model/generated/{login,lobby}_*_message.cpp\<close>. Integers are words of their
  width, a \<^verbatim>\<open>float\<close> is the 32 bits of its representation, a string its bytes.

  The readers are written in a monad over the stream reader; \<open>parses P v bs\<close> says that the reader \<open>P\<close>, over an
  iterator that shows the bytes \<open>bs\<close> and any more, returns \<open>v\<close> and has consumed exactly \<open>bs\<close>. The theory
  proves that every message is read back from a buffer that shows its bytes.
\<close>

subsection \<open>The packet writer\<close>

definition packet_write_word :: "'w::len word \<Rightarrow> byte list \<Rightarrow> byte list" where
  "packet_write_word v buf = buf @ word_bytes v"

definition packet_write_bool :: "bool \<Rightarrow> byte list \<Rightarrow> byte list" where
  "packet_write_bool b buf = buf @ [if b then 1 else 0]"

definition packet_write_bytes :: "byte list \<Rightarrow> byte list \<Rightarrow> byte list" where
  "packet_write_bytes bs buf = (if bs = [] then buf else buf @ bs)"

definition packet_write_string :: "byte list \<Rightarrow> byte list \<Rightarrow> byte list" where
  "packet_write_string s buf =
     (let buf1 = packet_write_word (word_of_nat (length s) :: 16 word) buf
      in if s = [] then buf1 else packet_write_bytes s buf1)"

text \<open>\<^verbatim>\<open>WriteObject\<close>: what the object writes through a \<^verbatim>\<open>BufferWriter\<close> of its own.\<close>

definition packet_write_object :: "(stream_writer \<Rightarrow> stream_writer) \<Rightarrow> byte list \<Rightarrow> byte list" where
  "packet_write_object serialize buf =
     (let w = serialize (stream_writer_new []) in buf @ take (nat (writeSize w)) (container w))"

definition packet_to_buffer :: "'m \<Rightarrow> ('m \<Rightarrow> 32 word) \<Rightarrow> ('m \<Rightarrow> byte list \<Rightarrow> byte list) \<Rightarrow> byte list" where
  "packet_to_buffer m opcode serialize =
     (let payload = serialize m [];
          writeSize = int (length payload);
          packetSize = 4 + 2 + writeSize
      in container
          (write_buffer payload
            (write_word (ucast (opcode m) :: 16 word)
              (write_word (word_of_int packetSize :: 32 word) (stream_writer_new [])))))"

subsection \<open>The packet reader\<close>

definition read_then ::
  "('r \<Rightarrow> fault + ('a \<times> 'r)) \<Rightarrow> ('a \<Rightarrow> 'r \<Rightarrow> fault + ('b \<times> 'r)) \<Rightarrow> 'r \<Rightarrow> fault + ('b \<times> 'r)" where
  "read_then P Q r = and_then (P r) (\<lambda>(x, r'). Q x r')"

definition read_return :: "'a \<Rightarrow> 'r \<Rightarrow> fault + ('a \<times> 'r)" where
  "read_return x r = Inr (x, r)"

definition read_float32 ::
  "('i \<Rightarrow> fault + byte) \<Rightarrow> ('i \<Rightarrow> fault + 'i) \<Rightarrow> 'i stream_reader \<Rightarrow> fault + (32 word \<times> 'i stream_reader)" where
  "read_float32 star inc = read_then (read_float star inc 4) (\<lambda>bs. read_return (bytes_value 0 bs))"

definition read_bool ::
  "('i \<Rightarrow> fault + byte) \<Rightarrow> ('i \<Rightarrow> fault + 'i) \<Rightarrow> 'i stream_reader \<Rightarrow> fault + (bool \<times> 'i stream_reader)" where
  "read_bool star inc = read_then (read_word star inc) (\<lambda>b :: byte. read_return (b \<noteq> 0))"

definition packet_read_string ::
  "('i \<Rightarrow> fault + byte) \<Rightarrow> ('i \<Rightarrow> fault + 'i) \<Rightarrow> 'i stream_reader \<Rightarrow> fault + (byte list \<times> 'i stream_reader)" where
  "packet_read_string star inc =
     read_then (read_word star inc) (\<lambda>n :: 16 word.
       if n = 0 then read_return [] else read_string_sized star inc (sint n))"

text \<open>The rule of \<^verbatim>\<open>LobbyCharacter\<close> for strings: \<^verbatim>\<open>reader.ReadString(reader.Read<int16_t>())\<close>.\<close>

definition read_name ::
  "('i \<Rightarrow> fault + byte) \<Rightarrow> ('i \<Rightarrow> fault + 'i) \<Rightarrow> 'i stream_reader \<Rightarrow> fault + (byte list \<times> 'i stream_reader)" where
  "read_name star inc =
     read_then (read_word star inc) (\<lambda>n :: 16 word. read_string_sized star inc (sint n))"

definition write_name :: "byte list \<Rightarrow> stream_writer \<Rightarrow> stream_writer" where
  "write_name s w = write_string s (write_word (word_of_nat (length s) + 1 :: 16 word) w)"

lemma packet_write_string_append: "packet_write_string s buf = buf @ packet_write_string s []"
  by (simp add: packet_write_string_def packet_write_word_def packet_write_bytes_def Let_def)

definition string_ok :: "byte list \<Rightarrow> bool" where
  "string_ok s \<longleftrightarrow> length s < 2 ^ 15 \<and> drop_last_nul s = s"

context byte_iterator
begin

definition parses ::
  "('i stream_reader \<Rightarrow> fault + ('a \<times> 'i stream_reader)) \<Rightarrow> 'a \<Rightarrow> byte list \<Rightarrow> bool" where
  "parses P v bs \<longleftrightarrow> (\<forall>r tl. reader_ok r \<and> rest (r_iter r) = bs @ tl \<longrightarrow>
     (\<exists>r'. P r = Inr (v, r') \<and> reads_over r bs r' \<and> rest (r_iter r') = tl))"

lemma parses_return [intro]: "parses (read_return v) v []"
  by (auto simp: parses_def read_return_def reads_over_def)

lemma parses_then:
  assumes "parses P v bs" and "parses (Q v) w cs"
  shows "parses (read_then P Q) w (bs @ cs)"
  unfolding parses_def
proof (intro allI impI, elim conjE)
  fix r tl
  assume "reader_ok r" "rest (r_iter r) = (bs @ cs) @ tl"
  with assms(1) obtain r1 where r1: "P r = Inr (v, r1)" "reads_over r bs r1" "rest (r_iter r1) = cs @ tl"
    unfolding parses_def by fastforce
  with assms(2) obtain r2 where r2: "Q v r1 = Inr (w, r2)" "reads_over r1 cs r2" "rest (r_iter r2) = tl"
    unfolding parses_def reads_over_def by blast
  with r1 have "reads_over r (bs @ cs) r2" by (simp add: reads_over_def)
  with r1 r2 show "\<exists>r'. read_then P Q r = Inr (w, r') \<and> reads_over r (bs @ cs) r' \<and> rest (r_iter r') = tl"
    by (simp add: read_then_def)
qed

text \<open>The last step of a chain of reads.\<close>

lemma parses_map:
  assumes "parses P v bs"
  shows "parses (read_then P (\<lambda>x. read_return (f x))) (f v) bs"
  using parses_then [OF assms parses_return, of "\<lambda>x. f x"] by simp

lemma parses_two:
  assumes "parses P v bs" and "parses Q w cs"
  shows "parses (read_then P (\<lambda>x. read_then Q (\<lambda>y. read_return (f x y)))) (f v w) (bs @ cs)"
  by (rule parses_then [OF assms(1) parses_map [OF assms(2)]])

lemma parses_word:
  "8 dvd LENGTH('w) \<Longrightarrow> parses (read_word star inc) (v :: 'w::len word) (word_bytes v)"
  by (simp add: parses_def read_word_rest)

lemma parses_int [intro]:
  "parses (read_word star inc) (a :: 16 word) (word_bytes a)"
  "parses (read_word star inc) (b :: 32 word) (word_bytes b)"
  "parses (read_word star inc) (c :: 64 word) (word_bytes c)"
  "parses (read_word star inc) (d :: byte) (word_bytes d)"
  by (rule parses_word, simp)+

lemma parses_bool [intro]: "parses (read_bool star inc) b [if b then 1 else 0]"
proof -
  have "word_bytes (if b then 1 else 0 :: byte) = [if b then 1 else 0]"
    by (simp add: word_bytes_def byte_width_def byte_at_def)
  with parses_map [OF parses_int(4), of "\<lambda>x. x \<noteq> 0" "if b then 1 else 0"] show ?thesis
    by (auto simp: read_bool_def split: if_splits)
qed

lemma parses_float [intro]: "parses (read_float32 star inc) v (word_bytes (v :: 32 word))"
proof -
  have "parses (read_float star inc 4) (word_bytes v) (word_bytes v)"
    using read_float_rest [of _ "word_bytes v"] by (auto simp: parses_def byte_width_def)
  from parses_map [OF this, of "\<lambda>bs. bytes_value 0 bs :: 32 word"] show ?thesis
    by (simp add: read_float32_def bytes_value_word_bytes)
qed

lemma parses_sized:
  "parses (read_string_sized star inc (int (length s))) (drop_last_nul s) s"
  by (simp add: parses_def read_string_sized_rest)

lemma parses_name:
  assumes "length s + 1 < 2 ^ 15"
  shows "parses (read_name star inc) s (word_bytes (word_of_nat (length s) + 1 :: 16 word) @ s @ [0])"
proof -
  have "sint (word_of_nat (length s) + 1 :: 16 word) = int (length (s @ [0]))"
  proof -
    have "(word_of_nat (length s) + 1 :: 16 word) = word_of_nat (length s + 1)" by simp
    also have "sint \<dots> = int (length s + 1)"
      using assms by (simp add: signed_of_nat signed_take_bit_int_eq_self del: of_nat_Suc of_nat_add)
    finally show ?thesis by simp
  qed
  then show ?thesis
    unfolding read_name_def
    using parses_then [OF parses_int(1), of "\<lambda>n. read_string_sized star inc (sint n)"]
      parses_sized [of "s @ [0]"]
    by (simp add: drop_last_nul_def)
qed

text \<open>What \<^verbatim>\<open>Write(std::string_view)\<close> makes of a string, and which strings it keeps.\<close>

lemma parses_string:
  assumes "string_ok s"
  shows "parses (packet_read_string star inc) s (packet_write_string s [])"
proof (cases "s = []")
  case True
  then show ?thesis
    unfolding packet_read_string_def packet_write_string_def packet_write_word_def
    using parses_then [OF parses_int(1), of
        "\<lambda>n. if n = 0 then read_return [] else read_string_sized star inc (sint n)" 0 "[]" "[]"] parses_return [of "[]"] True
    by simp
next
  case False
  let ?n = "word_of_nat (length s) :: 16 word"
  have n: "sint ?n = int (length s)"
    using assms by (simp add: string_ok_def signed_of_nat signed_take_bit_int_eq_self)
  with False have "?n \<noteq> 0" by (metis length_0_conv of_nat_eq_0_iff sint_0)
  with n False parses_sized [of s] assms
    parses_then [OF parses_int(1), of
      "\<lambda>n. if n = 0 then read_return [] else read_string_sized star inc (sint n)" ?n s s]
  show ?thesis
    by (simp add: packet_read_string_def packet_write_string_def packet_write_word_def packet_write_bytes_def
        string_ok_def)
qed

end

subsection \<open>The messages of the lobby protocol\<close>

record lobby_character =
  lc_slot :: "32 word"
  lc_name :: "byte list"
  lc_level :: "32 word"
  lc_str :: "32 word"
  lc_dex :: "32 word"
  lc_intell :: "32 word"
  lc_job :: "32 word"
  lc_faceId :: "32 word"
  lc_hairId :: "32 word"
  lc_gold :: "32 word"
  lc_zoneId :: "32 word"
  lc_x :: "32 word"
  lc_y :: "32 word"
  lc_z :: "32 word"
  lc_armorId :: "32 word"
  lc_glovesId :: "32 word"
  lc_shoesId :: "32 word"
  lc_weaponId :: "32 word"
  lc_gender :: "32 word"

definition write_lobby_character :: "lobby_character \<Rightarrow> stream_writer \<Rightarrow> stream_writer" where
  "write_lobby_character c w =
     (let w = write_word (lc_slot c) w; w = write_name (lc_name c) w;
          w = write_word (lc_level c) w; w = write_word (lc_str c) w;
          w = write_word (lc_dex c) w; w = write_word (lc_intell c) w;
          w = write_word (lc_job c) w; w = write_word (lc_faceId c) w;
          w = write_word (lc_hairId c) w; w = write_word (lc_gold c) w;
          w = write_word (lc_zoneId c) w; w = write_word (lc_x c) w;
          w = write_word (lc_y c) w; w = write_word (lc_z c) w;
          w = write_word (lc_armorId c) w; w = write_word (lc_glovesId c) w;
          w = write_word (lc_shoesId c) w; w = write_word (lc_weaponId c) w;
          w = write_word (lc_gender c) w
      in w)"

definition read_lobby_character ::
  "('i \<Rightarrow> fault + byte) \<Rightarrow> ('i \<Rightarrow> fault + 'i) \<Rightarrow> 'i stream_reader
     \<Rightarrow> fault + (lobby_character \<times> 'i stream_reader)" where
  "read_lobby_character star inc =
     read_then (read_word star inc) (\<lambda>slot.
     read_then (read_name star inc) (\<lambda>name.
     read_then (read_word star inc) (\<lambda>level.
     read_then (read_word star inc) (\<lambda>str.
     read_then (read_word star inc) (\<lambda>dex.
     read_then (read_word star inc) (\<lambda>intell.
     read_then (read_word star inc) (\<lambda>job.
     read_then (read_word star inc) (\<lambda>faceId.
     read_then (read_word star inc) (\<lambda>hairId.
     read_then (read_word star inc) (\<lambda>gold.
     read_then (read_word star inc) (\<lambda>zoneId.
     read_then (read_float32 star inc) (\<lambda>x.
     read_then (read_float32 star inc) (\<lambda>y.
     read_then (read_float32 star inc) (\<lambda>z.
     read_then (read_word star inc) (\<lambda>armorId.
     read_then (read_word star inc) (\<lambda>glovesId.
     read_then (read_word star inc) (\<lambda>shoesId.
     read_then (read_word star inc) (\<lambda>weaponId.
     read_then (read_word star inc) (\<lambda>gender.
     read_return
       \<lparr>lc_slot = slot, lc_name = name, lc_level = level, lc_str = str,
        lc_dex = dex, lc_intell = intell, lc_job = job, lc_faceId = faceId,
        lc_hairId = hairId, lc_gold = gold, lc_zoneId = zoneId, lc_x = x,
        lc_y = y, lc_z = z, lc_armorId = armorId, lc_glovesId = glovesId,
        lc_shoesId = shoesId, lc_weaponId = weaponId, lc_gender = gender\<rparr>)))))))))))))))))))"

definition character_ok :: "lobby_character \<Rightarrow> bool" where
  "character_ok c \<longleftrightarrow> length (lc_name c) + 1 < 2 ^ 15"

definition character_bytes :: "lobby_character \<Rightarrow> byte list" where
  "character_bytes c = container (write_lobby_character c (stream_writer_new []))"

lemma write_lobby_character_eq:
  "write_lobby_character c w =
     w\<lparr>container := container w @ character_bytes c,
        writeSize := writeSize w + int (length (character_bytes c))\<rparr>"
  by (simp add: write_lobby_character_def character_bytes_def write_word_def write_name_def write_string_def
      put_bytes_def stream_writer_new_def Let_def)

lemma packet_write_character [simp]:
  "packet_write_object (write_lobby_character c) buf = buf @ character_bytes c"
  by (simp add: packet_write_object_def write_lobby_character_eq stream_writer_new_def Let_def)

lemma fold_append_bytes:
  "fold (\<lambda>c. packet_write_object (write_lobby_character c)) cs buf = buf @ concat (map character_bytes cs)"
  by (induction cs arbitrary: buf) simp_all

datatype lobby_cs =
    Authenticate "byte list"
  | CreateCharacter lobby_character
  | DeleteCharacter "32 word"
  | SelectCharacter "32 word"

fun lobby_cs_opcode :: "lobby_cs \<Rightarrow> 32 word" where
  "lobby_cs_opcode (Authenticate _) = 100"
| "lobby_cs_opcode (CreateCharacter _) = 102"
| "lobby_cs_opcode (DeleteCharacter _) = 103"
| "lobby_cs_opcode (SelectCharacter _) = 104"

fun lobby_cs_serialize :: "lobby_cs \<Rightarrow> byte list \<Rightarrow> byte list" where
  "lobby_cs_serialize (Authenticate token) buf = packet_write_string token buf"
| "lobby_cs_serialize (CreateCharacter c) buf = packet_write_object (write_lobby_character c) buf"
| "lobby_cs_serialize (DeleteCharacter slot) buf = packet_write_word slot buf"
| "lobby_cs_serialize (SelectCharacter slot) buf = packet_write_word slot buf"

text \<open>\<^verbatim>\<open>CreateFrom\<close>: the opcode decides which message is read; an unknown one gives none.\<close>

definition lobby_cs_create_from ::
  "('i \<Rightarrow> fault + byte) \<Rightarrow> ('i \<Rightarrow> fault + 'i) \<Rightarrow> 'i stream_reader
     \<Rightarrow> fault + (lobby_cs option \<times> 'i stream_reader)" where
  "lobby_cs_create_from star inc =
     read_then (read_word star inc) (\<lambda>opcode :: 16 word.
       if opcode = 100 then read_then (packet_read_string star inc) (\<lambda>x. read_return (Some (Authenticate x)))
       else if opcode = 102 then read_then (read_lobby_character star inc) (\<lambda>x. read_return (Some (CreateCharacter x)))
       else if opcode = 103 then read_then (read_word star inc) (\<lambda>x. read_return (Some (DeleteCharacter x)))
       else if opcode = 104 then read_then (read_word star inc) (\<lambda>x. read_return (Some (SelectCharacter x)))
       else read_return None)"

datatype lobby_sc =
    FailAuthenticate
  | ResultCreateCharacter bool lobby_character
  | SuccessDeleteCharacter "32 word"
  | NotifyCharacterList "32 word" "lobby_character list"
  | SuccessSelectCharacter "byte list" "32 word"

fun lobby_sc_opcode :: "lobby_sc \<Rightarrow> 32 word" where
  "lobby_sc_opcode FailAuthenticate = 100"
| "lobby_sc_opcode (ResultCreateCharacter _ _) = 101"
| "lobby_sc_opcode (SuccessDeleteCharacter _) = 102"
| "lobby_sc_opcode (NotifyCharacterList _ _) = 103"
| "lobby_sc_opcode (SuccessSelectCharacter _ _) = 104"

fun lobby_sc_serialize :: "lobby_sc \<Rightarrow> byte list \<Rightarrow> byte list" where
  "lobby_sc_serialize FailAuthenticate buf = buf"
| "lobby_sc_serialize (ResultCreateCharacter success c) buf =
     packet_write_object (write_lobby_character c) (packet_write_bool success buf)"
| "lobby_sc_serialize (SuccessDeleteCharacter slot) buf = packet_write_word slot buf"
| "lobby_sc_serialize (NotifyCharacterList count cs) buf =
     fold (\<lambda>c buf. packet_write_object (write_lobby_character c) buf) cs (packet_write_word count buf)"
| "lobby_sc_serialize (SuccessSelectCharacter ip port) buf = packet_write_word port (packet_write_string ip buf)"

text \<open>The loop of \<^verbatim>\<open>NotifyCharacterList::Deserialize\<close>, \<open>n\<close> rounds.\<close>

fun read_characters ::
  "('i \<Rightarrow> fault + byte) \<Rightarrow> ('i \<Rightarrow> fault + 'i) \<Rightarrow> nat \<Rightarrow> 'i stream_reader
     \<Rightarrow> fault + (lobby_character list \<times> 'i stream_reader)" where
  "read_characters star inc 0 = read_return []"
| "read_characters star inc (Suc n) =
     read_then (read_lobby_character star inc) (\<lambda>c.
       read_then (read_characters star inc n) (\<lambda>cs. read_return (c # cs)))"

definition lobby_sc_create_from ::
  "('i \<Rightarrow> fault + byte) \<Rightarrow> ('i \<Rightarrow> fault + 'i) \<Rightarrow> 'i stream_reader
     \<Rightarrow> fault + (lobby_sc option \<times> 'i stream_reader)" where
  "lobby_sc_create_from star inc =
     read_then (read_word star inc) (\<lambda>opcode :: 16 word.
       if opcode = 100 then read_return (Some FailAuthenticate)
       else if opcode = 101 then
         read_then (read_bool star inc) (\<lambda>success.
         read_then (read_lobby_character star inc) (\<lambda>c. read_return (Some (ResultCreateCharacter success c))))
       else if opcode = 102 then read_then (read_word star inc) (\<lambda>x. read_return (Some (SuccessDeleteCharacter x)))
       else if opcode = 103 then
         read_then (read_word star inc) (\<lambda>count.
         read_then (read_characters star inc (nat (sint count))) (\<lambda>cs.
           read_return (Some (NotifyCharacterList count cs))))
       else if opcode = 104 then
         read_then (packet_read_string star inc) (\<lambda>ip.
         read_then (read_word star inc) (\<lambda>port. read_return (Some (SuccessSelectCharacter ip port))))
       else read_return None)"

subsection \<open>The messages of the login protocol\<close>

datatype login_cs = CreateAccount "byte list" "byte list" | Login "byte list" "byte list"

fun login_cs_opcode :: "login_cs \<Rightarrow> 32 word" where
  "login_cs_opcode (CreateAccount _ _) = 0"
| "login_cs_opcode (Login _ _) = 1"

fun login_cs_serialize :: "login_cs \<Rightarrow> byte list \<Rightarrow> byte list" where
  "login_cs_serialize (CreateAccount account password) buf =
     packet_write_string password (packet_write_string account buf)"
| "login_cs_serialize (Login account password) buf =
     packet_write_string password (packet_write_string account buf)"

definition login_cs_create_from ::
  "('i \<Rightarrow> fault + byte) \<Rightarrow> ('i \<Rightarrow> fault + 'i) \<Rightarrow> 'i stream_reader
     \<Rightarrow> fault + (login_cs option \<times> 'i stream_reader)" where
  "login_cs_create_from star inc =
     read_then (read_word star inc) (\<lambda>opcode :: 16 word.
       if opcode = 0 then
         read_then (packet_read_string star inc) (\<lambda>account.
         read_then (packet_read_string star inc) (\<lambda>password. read_return (Some (CreateAccount account password))))
       else if opcode = 1 then
         read_then (packet_read_string star inc) (\<lambda>account.
         read_then (packet_read_string star inc) (\<lambda>password. read_return (Some (Login account password))))
       else read_return None)"

datatype login_sc = CreateAccountResult bool | LoginResult bool "byte list" "byte list" "32 word"

fun login_sc_opcode :: "login_sc \<Rightarrow> 32 word" where
  "login_sc_opcode (CreateAccountResult _) = 0"
| "login_sc_opcode (LoginResult _ _ _ _) = 1"

fun login_sc_serialize :: "login_sc \<Rightarrow> byte list \<Rightarrow> byte list" where
  "login_sc_serialize (CreateAccountResult success) buf = packet_write_bool success buf"
| "login_sc_serialize (LoginResult success token ip port) buf =
     packet_write_word port (packet_write_string ip (packet_write_string token (packet_write_bool success buf)))"

definition login_sc_create_from ::
  "('i \<Rightarrow> fault + byte) \<Rightarrow> ('i \<Rightarrow> fault + 'i) \<Rightarrow> 'i stream_reader
     \<Rightarrow> fault + (login_sc option \<times> 'i stream_reader)" where
  "login_sc_create_from star inc =
     read_then (read_word star inc) (\<lambda>opcode :: 16 word.
       if opcode = 0 then read_then (read_bool star inc) (\<lambda>x. read_return (Some (CreateAccountResult x)))
       else if opcode = 1 then
         read_then (read_bool star inc) (\<lambda>success.
         read_then (packet_read_string star inc) (\<lambda>token.
         read_then (packet_read_string star inc) (\<lambda>ip.
         read_then (read_word star inc) (\<lambda>port. read_return (Some (LoginResult success token ip port))))))
       else read_return None)"

subsection \<open>Reading back\<close>

text \<open>The messages whose strings the wire keeps.\<close>

fun lobby_cs_ok :: "lobby_cs \<Rightarrow> bool" where
  "lobby_cs_ok (Authenticate token) \<longleftrightarrow> string_ok token"
| "lobby_cs_ok (CreateCharacter c) \<longleftrightarrow> character_ok c"
| "lobby_cs_ok _ \<longleftrightarrow> True"

fun lobby_sc_ok :: "lobby_sc \<Rightarrow> bool" where
  "lobby_sc_ok (ResultCreateCharacter _ c) \<longleftrightarrow> character_ok c"
| "lobby_sc_ok (NotifyCharacterList count cs) \<longleftrightarrow> sint count = int (length cs) \<and> (\<forall>c \<in> set cs. character_ok c)"
| "lobby_sc_ok (SuccessSelectCharacter ip _) \<longleftrightarrow> string_ok ip"
| "lobby_sc_ok _ \<longleftrightarrow> True"

fun login_cs_ok :: "login_cs \<Rightarrow> bool" where
  "login_cs_ok (CreateAccount account password) \<longleftrightarrow> string_ok account \<and> string_ok password"
| "login_cs_ok (Login account password) \<longleftrightarrow> string_ok account \<and> string_ok password"

fun login_sc_ok :: "login_sc \<Rightarrow> bool" where
  "login_sc_ok (CreateAccountResult _) \<longleftrightarrow> True"
| "login_sc_ok (LoginResult _ token ip _) \<longleftrightarrow> string_ok token \<and> string_ok ip"

context byte_iterator
begin

lemma parses_character:
  assumes "character_ok c"
  shows "parses (read_lobby_character star inc) c (character_bytes c)"
proof -
  have "length (lc_name c) + 1 < 2 ^ 15" using assms by (simp add: character_ok_def)
  note name = parses_name [OF this]
  have "character_bytes c =
      word_bytes (lc_slot c) @ (word_bytes (word_of_nat (length (lc_name c)) + 1 :: 16 word) @ lc_name c @ [0])
      @ word_bytes (lc_level c) @ word_bytes (lc_str c) @ word_bytes (lc_dex c) @ word_bytes (lc_intell c)
      @ word_bytes (lc_job c) @ word_bytes (lc_faceId c) @ word_bytes (lc_hairId c) @ word_bytes (lc_gold c)
      @ word_bytes (lc_zoneId c) @ word_bytes (lc_x c) @ word_bytes (lc_y c) @ word_bytes (lc_z c)
      @ word_bytes (lc_armorId c) @ word_bytes (lc_glovesId c) @ word_bytes (lc_shoesId c)
      @ word_bytes (lc_weaponId c) @ word_bytes (lc_gender c) @ []"
    by (simp add: character_bytes_def write_lobby_character_def write_word_def write_name_def write_string_def
        put_bytes_def stream_writer_new_def Let_def)
  moreover have "parses (read_lobby_character star inc)
      \<lparr>lc_slot = lc_slot c, lc_name = lc_name c, lc_level = lc_level c, lc_str = lc_str c,
        lc_dex = lc_dex c, lc_intell = lc_intell c, lc_job = lc_job c, lc_faceId = lc_faceId c,
        lc_hairId = lc_hairId c, lc_gold = lc_gold c, lc_zoneId = lc_zoneId c, lc_x = lc_x c,
        lc_y = lc_y c, lc_z = lc_z c, lc_armorId = lc_armorId c, lc_glovesId = lc_glovesId c,
        lc_shoesId = lc_shoesId c, lc_weaponId = lc_weaponId c, lc_gender = lc_gender c\<rparr> \<dots>"
    unfolding read_lobby_character_def
    by (rule parses_then, (rule parses_int parses_float name))+ (rule parses_return)
  ultimately show ?thesis by (cases c) simp
qed

lemma parses_characters:
  "(\<forall>c \<in> set cs. character_ok c) \<Longrightarrow>
     parses (read_characters star inc (length cs)) cs (concat (map character_bytes cs))"
proof (induction cs)
  case (Cons c cs)
  then have "parses (read_lobby_character star inc) c (character_bytes c)"
    and "parses (read_characters star inc (length cs)) cs (concat (map character_bytes cs))"
    by (simp_all add: parses_character)
  from parses_then [OF this(1) parses_map [OF this(2)], of "(#)"] show ?case by simp
qed (simp add: parses_return)

text \<open>The reader of a message behind its opcode.\<close>

lemma lobby_cs_parses:
  assumes "lobby_cs_ok m"
  shows "parses (lobby_cs_create_from star inc) (Some m)
    (word_bytes (ucast (lobby_cs_opcode m) :: 16 word) @ lobby_cs_serialize m [])"
  unfolding lobby_cs_create_from_def
proof (rule parses_then [OF parses_int(1)], goal_cases)
  case 1
  show ?case
    using assms parses_map [OF parses_string] parses_map [OF parses_character] parses_map [OF parses_int(2)]
    by (cases m) (simp_all add: packet_write_word_def)
qed

lemma lobby_sc_parses:
  assumes "lobby_sc_ok m"
  shows "parses (lobby_sc_create_from star inc) (Some m)
    (word_bytes (ucast (lobby_sc_opcode m) :: 16 word) @ lobby_sc_serialize m [])"
  unfolding lobby_sc_create_from_def
proof (rule parses_then [OF parses_int(1)], goal_cases)
  case 1
  show ?case
  proof (cases m)
    case FailAuthenticate
    then show ?thesis by (simp add: parses_return)
  next
    case (ResultCreateCharacter success c)
    with assms have "character_ok c" by simp
    with ResultCreateCharacter
      parses_two [OF parses_bool parses_character, of c "\<lambda>s c. Some (ResultCreateCharacter s c)" success]
    show ?thesis by (simp add: packet_write_bool_def)
  next
    case (SuccessDeleteCharacter slot)
    with parses_map [OF parses_int(2)] show ?thesis by (simp add: packet_write_word_def)
  next
    case (NotifyCharacterList count cs)
    with assms have "nat (sint count) = length cs" "\<forall>c \<in> set cs. character_ok c" by auto
    with parses_then [OF parses_int(2), of
        "\<lambda>count. read_then (read_characters star inc (nat (sint count))) (\<lambda>cs. read_return (Some (NotifyCharacterList count cs)))"
        count "Some (NotifyCharacterList count cs)" "concat (map character_bytes cs)"]
      parses_map [OF parses_characters, of cs "\<lambda>cs. Some (NotifyCharacterList count cs)"]
    show ?thesis by (simp add: NotifyCharacterList packet_write_word_def fold_append_bytes)
  next
    case (SuccessSelectCharacter ip port)
    with assms have "string_ok ip" by simp
    with SuccessSelectCharacter
      parses_two [OF parses_string parses_int(2), of ip "\<lambda>ip port. Some (SuccessSelectCharacter ip port)" port]
    show ?thesis by (simp add: packet_write_word_def)
  qed
qed

lemma login_cs_parses:
  assumes "login_cs_ok m"
  shows "parses (login_cs_create_from star inc) (Some m)
    (word_bytes (ucast (login_cs_opcode m) :: 16 word) @ login_cs_serialize m [])"
  unfolding login_cs_create_from_def
proof (rule parses_then [OF parses_int(1)], goal_cases)
  case 1
  note two = parses_two [OF parses_string parses_string]
  show ?case
  proof (cases m)
    case (CreateAccount a p)
    with assms two [of a p "\<lambda>a p. Some (CreateAccount a p)"] show ?thesis
      by (simp add: packet_write_string_append [of p "packet_write_string a []"])
  next
    case (Login a p)
    with assms two [of a p "\<lambda>a p. Some (Login a p)"] show ?thesis
      by (simp add: packet_write_string_append [of p "packet_write_string a []"])
  qed
qed

lemma login_sc_parses:
  assumes "login_sc_ok m"
  shows "parses (login_sc_create_from star inc) (Some m)
    (word_bytes (ucast (login_sc_opcode m) :: 16 word) @ login_sc_serialize m [])"
  unfolding login_sc_create_from_def
proof (rule parses_then [OF parses_int(1)], goal_cases)
  case 1
  show ?case
  proof (cases m)
    case (CreateAccountResult success)
    with parses_map [OF parses_bool, of "\<lambda>x. Some (CreateAccountResult x)"] show ?thesis
      by (simp add: packet_write_bool_def)
  next
    case (LoginResult success token ip port)
    with assms have "string_ok token" "string_ok ip" by auto
    with parses_then [OF parses_bool parses_then [OF parses_string parses_two [OF parses_string parses_int(2)]],
        of token ip "\<lambda>success token ip port. Some (LoginResult success token ip port)" success port]
    show ?thesis
      by (simp add: LoginResult packet_write_word_def packet_write_bool_def
          packet_write_string_append [of token "[_]"] packet_write_string_append [of ip "_ # _"])
  qed
qed

text \<open>A framed packet: its size, and the message behind it.\<close>

lemma framed_packet_parses:
  assumes "parses create_from answer (word_bytes (ucast (opcode m) :: 16 word) @ serialize m [])"
    and "length (packet_to_buffer m opcode serialize) < 2 ^ 31"
  shows "\<exists>n :: 32 word. sint n = int (length (packet_to_buffer m opcode serialize))
    \<and> parses (read_then (read_word star inc) (\<lambda>n :: 32 word. read_then create_from (\<lambda>p. read_return (n, p))))
        (n, answer) (packet_to_buffer m opcode serialize)"
proof -
  let ?n = "word_of_int (6 + int (length (serialize m []))) :: 32 word"
  have eq: "packet_to_buffer m opcode serialize
      = word_bytes ?n @ word_bytes (ucast (opcode m) :: 16 word) @ serialize m []"
    by (simp add: packet_to_buffer_def Let_def write_buffer_def write_word_def put_bytes_def stream_writer_new_def)
  then have len: "length (packet_to_buffer m opcode serialize) = 6 + length (serialize m [])"
    by (simp add: byte_width_def)
  then have "sint ?n = int (length (packet_to_buffer m opcode serialize))"
    using assms(2) signed_of_int [where 'a = int and 'b = 32, of "6 + int (length (serialize m []))"]
    by (simp add: signed_take_bit_int_eq_self del: of_int_add of_int_of_nat_eq)
  moreover have "parses (read_then (read_word star inc) (\<lambda>n :: 32 word. read_then create_from (\<lambda>p. read_return (n, p))))
        (?n, answer) (word_bytes ?n @ (word_bytes (ucast (opcode m) :: 16 word) @ serialize m []))"
    by (rule parses_two [OF parses_int(2) assms(1)])
  ultimately show ?thesis unfolding eq by blast
qed

text \<open>The same from a reader at hand: the session reads the size first and the message after it.\<close>

lemma framed_packet_read:
  assumes "parses create_from answer (word_bytes (ucast (opcode m) :: 16 word) @ serialize m [])"
    and "length (packet_to_buffer m opcode serialize) < 2 ^ 31"
    and "reader_ok r" and "rest (r_iter r) = packet_to_buffer m opcode serialize @ after"
  shows "\<exists>(n :: 32 word) r1 r2. read_word star inc r = Inr (n, r1)
    \<and> sint n = int (length (packet_to_buffer m opcode serialize))
    \<and> create_from r1 = Inr (answer, r2) \<and> readSize r2 = readSize r + sint n"
proof -
  from framed_packet_parses [OF assms(1,2)] assms(3,4) obtain n :: "32 word" and r2 where
    n: "sint n = int (length (packet_to_buffer m opcode serialize))"
    and p: "read_then (read_word star inc) (\<lambda>n :: 32 word. read_then create_from (\<lambda>p. read_return (n, p))) r
        = Inr ((n, answer), r2)" "reads_over r (packet_to_buffer m opcode serialize) r2"
    unfolding parses_def by blast
  then show ?thesis
    by (auto simp: read_then_def read_return_def reads_over_def and_then_def split: sum.splits)
qed

end

subsection \<open>Properties\<close>

text \<open>
  The round trip of the lobby's incoming protocol. Whatever fragments a buffer is made of: if it shows the
  bytes of \<^verbatim>\<open>Packet::ToBuffer\<close> of a message, and any bytes after them, the reader of the buffer reads the
  number of those bytes as the packet size, and \<^verbatim>\<open>CreateFrom\<close> the same message, and has then consumed exactly
  the packet.
\<close>

theorem lobby_request_read_back:
  assumes "buffer_ok h b" and "lobby_cs_ok m"
    and "buffer_contents h b = packet_to_buffer m lobby_cs_opcode lobby_cs_serialize @ after"
    and "length (packet_to_buffer m lobby_cs_opcode lobby_cs_serialize) < 2 ^ 31"
  shows "\<exists>r (n :: 32 word) r1 r2. buffer_reader_new b = Inr r
    \<and> read_word (iterator_deref h) iterator_next r = Inr (n, r1)
    \<and> sint n = int (length (packet_to_buffer m lobby_cs_opcode lobby_cs_serialize))
    \<and> lobby_cs_create_from (iterator_deref h) iterator_next r1 = Inr (Some m, r2) \<and> readSize r2 = sint n"
proof -
  from buffer_reader_new_ok [OF assms(1)] obtain r where r: "buffer_reader_new b = Inr r"
    "buffer_it.reader_ok h r" "iterator_rest h (r_iter r) = buffer_contents h b" "readSize r = 0"
    by blast
  from buffer_it.framed_packet_read [OF buffer_it.lobby_cs_parses [OF assms(2)] assms(4) r(2), of after] r assms(3)
  show ?thesis by auto
qed

text \<open>
  The round trip of the lobby's answers, the character list among them: every message is read back as it
  was sent.
\<close>

theorem lobby_response_read_back:
  assumes "buffer_ok h b" and "lobby_sc_ok m"
    and "buffer_contents h b = packet_to_buffer m lobby_sc_opcode lobby_sc_serialize @ after"
    and "length (packet_to_buffer m lobby_sc_opcode lobby_sc_serialize) < 2 ^ 31"
  shows "\<exists>r (n :: 32 word) r1 r2. buffer_reader_new b = Inr r
    \<and> read_word (iterator_deref h) iterator_next r = Inr (n, r1)
    \<and> sint n = int (length (packet_to_buffer m lobby_sc_opcode lobby_sc_serialize))
    \<and> lobby_sc_create_from (iterator_deref h) iterator_next r1 = Inr (Some m, r2) \<and> readSize r2 = sint n"
proof -
  from buffer_reader_new_ok [OF assms(1)] obtain r where r: "buffer_reader_new b = Inr r"
    "buffer_it.reader_ok h r" "iterator_rest h (r_iter r) = buffer_contents h b" "readSize r = 0"
    by blast
  from buffer_it.framed_packet_read [OF buffer_it.lobby_sc_parses [OF assms(2)] assms(4) r(2), of after] r assms(3)
  show ?thesis by auto
qed

text \<open>
  \<^verbatim>\<open>SetOffset\<close> moves the reader to the byte it names, and then subtracts the offset a second time from
  what remains, so that the last bytes can no longer be read.
\<close>

theorem set_offset_hides_bytes:
  assumes "buffer_ok h b" and "buffer_reader_new b = Inr r" and "0 < k" and "k \<le> buf_size b"
  shows "\<exists>r'. set_offset iterator_next iterator_distance k r = Inr r'
    \<and> iterator_rest h (r_iter r') = drop (nat k) (buffer_contents h b)
    \<and> remainSize r' < int (length (iterator_rest h (r_iter r')))
    \<and> \<not> can_read (int (length (iterator_rest h (r_iter r')))) r'"
proof -
  from buffer_reader_new_ok [OF assms(1)] assms(2) have r: "buffer_it.reader_ok h r"
    "iterator_rest h (r_iter r) = buffer_contents h b" "r_iter r = r_begin r"
    by auto
  have "int (length (buffer_contents h b)) = buf_size b" by (rule buffer_contents_length [OF assms(1)])
  then have "nat k \<le> length (buffer_contents h b)" "k \<le> int (length (buffer_contents h b))"
    using assms(4) by auto
  then obtain r' where "set_offset iterator_next iterator_distance k r = Inr r'"
    "iterator_rest h (r_iter r') = drop (nat k) (buffer_contents h b)"
    "remainSize r' = int (length (iterator_rest h (r_iter r'))) - k"
    using buffer_it.set_offset_rest [OF r(1), of k] r(2) assms(3) by (auto simp flip: r(3))
  with assms(3) show ?thesis by (auto simp: can_read_def)
qed

text \<open>A buffer of two fragments that splits a request in the middle of its token.\<close>

definition sample_request :: lobby_cs where
  "sample_request = Authenticate [65, 66, 67]"

definition sample_request_heap :: heap where
  "sample_request_heap =
     \<lparr>blocks = [0 \<mapsto> \<lparr>refCount = 1, bytes = [11, 0, 0, 0, 100, 0, 3, 0, 65]\<rparr>, 1 \<mapsto> \<lparr>refCount = 1, bytes = [66, 67, 7]\<rparr>],
      next_block = 2\<rparr>"

definition sample_request_buffer :: buffer where
  "sample_request_buffer =
     \<lparr>buf_size = 12,
      fragments = [\<lparr>impl = Some 0, startOffset = 0, frag_size = 9\<rparr>, \<lparr>impl = Some 1, startOffset = 0, frag_size = 3\<rparr>]\<rparr>"

lemma sample_request_facts:
  "buffer_ok sample_request_heap sample_request_buffer"
  "packet_to_buffer sample_request lobby_cs_opcode lobby_cs_serialize = [11, 0, 0, 0, 100, 0, 3, 0, 65, 66, 67]"
  "buffer_contents sample_request_heap sample_request_buffer = [11, 0, 0, 0, 100, 0, 3, 0, 65, 66, 67, 7]"
  by (simp_all add: sample_request_heap_def sample_request_buffer_def handle_ok_def buffer_ok_def
      calculate_size_def fragment_valid_def buffer_contents_def fragment_span_def sample_request_def)
    code_simp

theorem lobby_request_read_back_witness:
  "\<exists>r (n :: 32 word) r1 r2. buffer_reader_new sample_request_buffer = Inr r
    \<and> read_word (iterator_deref sample_request_heap) iterator_next r = Inr (n, r1) \<and> sint n = 11
    \<and> lobby_cs_create_from (iterator_deref sample_request_heap) iterator_next r1 = Inr (Some sample_request, r2)
    \<and> readSize r2 = sint n"
proof -
  have "lobby_cs_ok sample_request"
    by (simp add: sample_request_def string_ok_def drop_last_nul_def)
  with lobby_request_read_back [OF sample_request_facts(1), of sample_request "[7]"] show ?thesis
    by (simp add: sample_request_facts)
qed

definition sample_response :: lobby_sc where
  "sample_response = SuccessSelectCharacter [49] 7"

definition sample_response_heap :: heap where
  "sample_response_heap =
     \<lparr>blocks = [0 \<mapsto> \<lparr>refCount = 1, bytes = [13, 0, 0, 0, 104, 0, 1, 0, 49, 7, 0, 0, 0]\<rparr>], next_block = 1\<rparr>"

definition sample_response_buffer :: buffer where
  "sample_response_buffer =
     \<lparr>buf_size = 13, fragments = [\<lparr>impl = Some 0, startOffset = 0, frag_size = 13\<rparr>]\<rparr>"

lemma sample_response_facts:
  "buffer_ok sample_response_heap sample_response_buffer"
  "packet_to_buffer sample_response lobby_sc_opcode lobby_sc_serialize = [13, 0, 0, 0, 104, 0, 1, 0, 49, 7, 0, 0, 0]"
  "buffer_contents sample_response_heap sample_response_buffer = [13, 0, 0, 0, 104, 0, 1, 0, 49, 7, 0, 0, 0]"
  by (simp_all add: sample_response_heap_def sample_response_buffer_def handle_ok_def buffer_ok_def
      calculate_size_def fragment_valid_def buffer_contents_def fragment_span_def sample_response_def)
    code_simp

theorem lobby_response_read_back_witness:
  "\<exists>r (n :: 32 word) r1 r2. buffer_reader_new sample_response_buffer = Inr r
    \<and> read_word (iterator_deref sample_response_heap) iterator_next r = Inr (n, r1) \<and> sint n = 13
    \<and> lobby_sc_create_from (iterator_deref sample_response_heap) iterator_next r1 = Inr (Some sample_response, r2)
    \<and> readSize r2 = sint n"
proof -
  have "lobby_sc_ok sample_response"
    by (simp add: sample_response_def string_ok_def drop_last_nul_def)
  with lobby_response_read_back [OF sample_response_facts(1), of sample_response "[]"] show ?thesis
    by (simp add: sample_response_facts)
qed

theorem set_offset_hides_bytes_witness:
  "\<exists>r r'. buffer_reader_new sample_response_buffer = Inr r
    \<and> set_offset iterator_next iterator_distance 4 r = Inr r'
    \<and> iterator_rest sample_response_heap (r_iter r') = [104, 0, 1, 0, 49, 7, 0, 0, 0] \<and> \<not> can_read 9 r'"
proof -
  from buffer_reader_new_ok [OF sample_response_facts(1)] obtain r where
    r: "buffer_reader_new sample_response_buffer = Inr r" by blast
  have "4 \<le> buf_size sample_response_buffer" by (simp add: sample_response_buffer_def)
  with set_offset_hides_bytes [OF sample_response_facts(1) r, of 4] r show ?thesis
    by (auto simp: sample_response_facts)
qed

end
