(* ===== verification/Framing.thy ===== *)
theory Framing
  imports Packets
begin

text \<open>
  The receive loop of a session, \<^verbatim>\<open>LobbySessionStateMachine::Run\<close> and \<^verbatim>\<open>LoginSessionStateMachine::Run\<close>
  (\<^verbatim>\<open>xr/server/lobby/lobby_session_state_machine.cpp\<close>, \<^verbatim>\<open>xr/server/login/login_session_state_machine.cpp\<close>):
  what arrives is merged into one buffer, and packets are cut off its front as they become complete. The two
  differ in the packets they know and in what they do with one, which are arguments here.

  The locale \<open>packet_protocol\<close> states what the loop needs of a protocol. In it: however the stream is
  divided on its way, every packet sent is handled once and in order.
\<close>

text \<open>
  How the loop comes to rest: it awaits the next buffer, it returns, an exception leaves it, or the fuel
  given to the model is spent. A round that consumes its packet removes at least a byte, so that one round
  more than there are bytes is enough fuel if every round does.
\<close>

datatype frame_outcome = AwaitMore | Exited | Threw fault | OutOfFuel

fun receive_loop ::
  "(heap \<Rightarrow> buffer_iterator stream_reader \<Rightarrow> fault + ('m option \<times> buffer_iterator stream_reader))
     \<Rightarrow> ('m \<Rightarrow> 's \<Rightarrow> bool \<times> 's) \<Rightarrow> ('s \<Rightarrow> 's) \<Rightarrow> nat \<Rightarrow> buffer \<Rightarrow> heap \<Rightarrow> 's
     \<Rightarrow> frame_outcome \<times> buffer \<times> heap \<times> 's" where
  "receive_loop create_from on_event on_unknown 0 b h s = (OutOfFuel, b, h, s)"
| "receive_loop create_from on_event on_unknown (Suc fuel) b h s =
     (if buf_size b < 4 then (AwaitMore, b, h, s)
      else case and_then (buffer_reader_new b) (read_word (iterator_deref h) iterator_next) of
        Inl e \<Rightarrow> (Threw e, b, h, s)
      | Inr (n :: 32 word, reader) \<Rightarrow>
          if buf_size b < sint n then (AwaitMore, b, h, s)
          else case create_from h reader of
            Inl e \<Rightarrow> (Threw e, b, h, s)
          | Inr (packet, _) \<Rightarrow>
              (case buffer_slice_front buffer_new (sint n) b h of
                 Inl e \<Rightarrow> (Threw e, b, h, s)
               | Inr (sliced, temp, b1, h1) \<Rightarrow>
                   (case destroy_all (fragments temp) h1 of
                      Inl e \<Rightarrow> (Threw e, b1, h1, s)
                    | Inr h2 \<Rightarrow>
                        (case packet of
                           None \<Rightarrow> (Exited, b1, h2, on_unknown s)
                         | Some m \<Rightarrow>
                             (case on_event m s of (continue, s1) \<Rightarrow>
                                if continue then receive_loop create_from on_event on_unknown fuel b1 h2 s1
                                else (Exited, b1, h2, s1))))))"

text \<open>
  The outer loop over what the channel yields; with each buffer, whether \<^verbatim>\<open>_shutdown\<close> is set or the session is
  gone by the time it is taken.
\<close>

fun receive_run ::
  "(heap \<Rightarrow> buffer_iterator stream_reader \<Rightarrow> fault + ('m option \<times> buffer_iterator stream_reader))
     \<Rightarrow> ('m \<Rightarrow> 's \<Rightarrow> bool \<times> 's) \<Rightarrow> ('s \<Rightarrow> 's) \<Rightarrow> (bool \<times> buffer) list \<Rightarrow> buffer \<Rightarrow> heap \<Rightarrow> 's
     \<Rightarrow> frame_outcome \<times> buffer \<times> heap \<times> 's" where
  "receive_run create_from on_event on_unknown [] b h s = (AwaitMore, b, h, s)"
| "receive_run create_from on_event on_unknown ((stopped, c) # cs) b h s =
     (if stopped then (Exited, b, h, s)
      else let b1 = fst (buffer_merge_back c b)
           in case receive_loop create_from on_event on_unknown (Suc (nat (buf_size b1))) b1 h s of
                (AwaitMore, b2, h2, s2) \<Rightarrow> receive_run create_from on_event on_unknown cs b2 h2 s2
              | stop \<Rightarrow> stop)"

lemma empty_buffer_fragments:
  assumes "buffer_ok h b" and "buffer_contents h b = []"
  shows "fragments b = []"
proof (rule ccontr)
  assume "fragments b \<noteq> []"
  then obtain f where f: "f \<in> set (fragments b)" by (cases "fragments b") auto
  with assms have "fragment_span h f = []" "handle_ok h f" "fragment_valid f"
    by (auto simp: buffer_contents_def buffer_ok_def)
  with span_length [of h f] show False by (simp add: fragment_valid_def)
qed

subsection \<open>What the loop needs of a protocol\<close>

locale packet_protocol =
  fixes create_from :: "heap \<Rightarrow> buffer_iterator stream_reader \<Rightarrow> fault + ('m option \<times> buffer_iterator stream_reader)"
    and packet :: "'m \<Rightarrow> byte list"
    and ok :: "'m \<Rightarrow> bool"
  assumes header: "ok m \<Longrightarrow> \<exists>(n :: 32 word) bs. packet m = word_bytes n @ bs \<and> sint n = int (length (packet m))"
    and message: "ok m \<Longrightarrow> buffer_it.reader_ok h r \<Longrightarrow> iterator_rest h (r_iter r) = drop 4 (packet m) @ after
      \<Longrightarrow> \<exists>r'. create_from h r = Inr (Some m, r')"
begin

lemma read_header:
  assumes "buffer_ok h b" and "buffer_contents h b = word_bytes (n :: 32 word) @ bs"
  shows "\<exists>r. and_then (buffer_reader_new b) (read_word (iterator_deref h) iterator_next) = Inr (n, r)
    \<and> buffer_it.reader_ok h r \<and> iterator_rest h (r_iter r) = bs"
proof -
  from buffer_reader_new_ok [OF assms(1)] obtain r where r: "buffer_reader_new b = Inr r"
    "buffer_it.reader_ok h r" "iterator_rest h (r_iter r) = buffer_contents h b"
    by blast
  from buffer_it.read_word_rest [OF r(2), of n bs] r assms(2) show ?thesis
    by (auto simp: buffer_it.reads_over_def)
qed

lemma packet_length: "ok m \<Longrightarrow> 4 \<le> length (packet m)"
  using header [of m] by (auto simp: byte_width_def)

text \<open>One round takes the packet at the front and leaves what is behind it.\<close>

lemma loop_packet:
  assumes "ok m" and "buffer_contents h b = packet m @ after" and "buffer_ok h b"
    and "owned h (fragments b @ others)" and "fst (on_event m s)"
  shows "\<exists>b1 h1. receive_loop create_from on_event on_unknown (Suc fuel) b h s
      = receive_loop create_from on_event on_unknown fuel b1 h1 (snd (on_event m s))
    \<and> owned h1 (fragments b1 @ others) \<and> buffer_ok h1 b1 \<and> buffer_contents h1 b1 = after \<and> same_bytes h h1"
proof -
  have size: "buf_size b = int (length (packet m)) + int (length after)"
    using buffer_contents_length [OF assms(3)] assms(2) by simp
  from header [OF assms(1)] obtain n :: "32 word" and bs where
    n: "packet m = word_bytes n @ bs" "sint n = int (length (packet m))" by blast
  then have bs: "bs = drop 4 (packet m)" by (simp add: byte_width_def)
  have "buffer_contents h b = word_bytes n @ (bs @ after)" using n(1) assms(2) by simp
  from read_header [OF assms(3) this] obtain r where
    r: "and_then (buffer_reader_new b) (read_word (iterator_deref h) iterator_next) = Inr (n, r)"
      "buffer_it.reader_ok h r" "iterator_rest h (r_iter r) = drop 4 (packet m) @ after"
    unfolding bs [symmetric] append_assoc by blast
  from message [OF assms(1) r(2,3)] obtain r' where c: "create_from h r = Inr (Some m, r')" by blast
  have "owned h (fragments buffer_new @ fragments b @ others)" using assms(4) by (simp add: buffer_new_def)
  moreover have "0 < sint n" "sint n \<le> buf_size b" using n(2) packet_length [OF assms(1)] size by auto
  ultimately obtain b1 b2 h1 where sl: "buffer_slice_front buffer_new (sint n) b h = Inr (True, b1, b2, h1)"
    "buffer_contents h1 b2 = drop (nat (sint n)) (buffer_contents h b)" "buffer_ok h1 b2"
    "owned h1 (fragments b1 @ fragments b2 @ others)" "same_bytes h h1"
    using buffer_slice_front_owned [OF _ assms(3)] by blast
  from destroy_all_owned [OF sl(4)] obtain h2 where
    d: "destroy_all (fragments b1) h1 = Inr h2" "owned h2 (fragments b2 @ others)" "same_bytes h1 h2" by blast
  have ok2: "\<forall>f \<in> set (fragments b2). handle_ok h2 f" using ownedD(3) [OF d(2)] by auto
  have "buffer_contents h2 b2 = after"
    using spans_same_bytes [OF d(3) ok2] sl(2) n(2) assms(2) by (simp add: buffer_contents_def)
  moreover have "buffer_ok h2 b2" using sl(3) ok2 by (simp add: buffer_ok_def)
  moreover have "receive_loop create_from on_event on_unknown (Suc fuel) b h s
      = receive_loop create_from on_event on_unknown fuel b2 h2 (snd (on_event m s))"
    using r(1) c sl(1) d(1) assms(5) size n(2) packet_length [OF assms(1)] by (simp add: split_beta)
  ultimately show ?thesis using d(2) same_bytes_trans [OF sl(5) d(3)] by blast
qed

text \<open>The front of a packet that is not yet all there, or nothing.\<close>

definition incomplete :: "byte list \<Rightarrow> bool" where
  "incomplete bs \<longleftrightarrow> bs = [] \<or> (\<exists>m rem. ok m \<and> packet m = bs @ rem \<and> rem \<noteq> [])"

lemma loop_wait:
  assumes "incomplete (buffer_contents h b)" and "buffer_ok h b"
  shows "receive_loop create_from on_event on_unknown (Suc fuel) b h s = (AwaitMore, b, h, s)"
proof (cases "buf_size b < 4")
  case False
  have size: "buf_size b = int (length (buffer_contents h b))"
    using buffer_contents_length [OF assms(2)] by simp
  with False have "buffer_contents h b \<noteq> []" by auto
  with assms(1) obtain m rem where m: "ok m" "packet m = buffer_contents h b @ rem" "rem \<noteq> []"
    by (auto simp: incomplete_def)
  from header [OF m(1)] obtain n :: "32 word" and bs where
    n: "packet m = word_bytes n @ bs" "sint n = int (length (packet m))" by blast
  have "buffer_contents h b = word_bytes n @ drop 4 (buffer_contents h b)"
  proof -
    have "take 4 (packet m) = word_bytes n" using n(1) by (simp add: byte_width_def)
    moreover have "take 4 (packet m) = take 4 (buffer_contents h b)" using False size m(2) by simp
    ultimately show ?thesis by (metis append_take_drop_id)
  qed
  from read_header [OF assms(2) this] obtain r where
    "and_then (buffer_reader_new b) (read_word (iterator_deref h) iterator_next) = Inr (n, r)" by blast
  moreover have "buf_size b < sint n" using size n(2) m(2,3) by simp
  ultimately show ?thesis using False by simp
qed simp

lemma loop_packets:
  assumes "\<forall>m s. fst (on_event m s)"
  shows "\<forall>m \<in> set ms. ok m \<Longrightarrow> buffer_contents h b = concat (map packet ms) @ after \<Longrightarrow> incomplete after
    \<Longrightarrow> buffer_ok h b \<Longrightarrow> owned h (fragments b @ others) \<Longrightarrow> length ms < fuel
    \<Longrightarrow> \<exists>b1 h1. receive_loop create_from on_event on_unknown fuel b h s
        = (AwaitMore, b1, h1, fold (\<lambda>m s. snd (on_event m s)) ms s)
      \<and> owned h1 (fragments b1 @ others) \<and> buffer_ok h1 b1 \<and> buffer_contents h1 b1 = after \<and> same_bytes h h1"
proof (induction ms arbitrary: b h s fuel)
  case Nil
  then obtain f where "fuel = Suc f" by (cases fuel) auto
  with Nil loop_wait [of h b on_event on_unknown f s] show ?case by auto
next
  case (Cons m ms)
  then obtain f where f: "fuel = Suc f" "length ms < f" by (cases fuel) auto
  from loop_packet [of m h b "concat (map packet ms) @ after" others on_event s on_unknown f] Cons.prems assms
  obtain b1 h1 where step: "receive_loop create_from on_event on_unknown (Suc f) b h s
      = receive_loop create_from on_event on_unknown f b1 h1 (snd (on_event m s))"
    "owned h1 (fragments b1 @ others)" "buffer_ok h1 b1" "buffer_contents h1 b1 = concat (map packet ms) @ after"
    "same_bytes h h1"
    by auto
  from Cons.IH [OF _ step(4) Cons.prems(3) step(3,2) f(2), of "snd (on_event m s)"] Cons.prems(1)
  obtain b2 h2 where "receive_loop create_from on_event on_unknown f b1 h1 (snd (on_event m s))
      = (AwaitMore, b2, h2, fold (\<lambda>m s. snd (on_event m s)) ms (snd (on_event m s)))"
    "owned h2 (fragments b2 @ others)" "buffer_ok h2 b2" "buffer_contents h2 b2 = after" "same_bytes h1 h2"
    by auto
  with step f(1) same_bytes_trans [OF step(5)] show ?case by auto
qed

text \<open>A front of a stream of packets is some packets and the front of the next.\<close>

lemma stream_front:
  "\<forall>m \<in> set ms. ok m \<Longrightarrow> bs @ rem = concat (map packet ms) \<Longrightarrow>
     \<exists>ms1 ms2 after. ms = ms1 @ ms2 \<and> bs = concat (map packet ms1) @ after
       \<and> after @ rem = concat (map packet ms2) \<and> incomplete after
       \<and> (ms2 = [] \<or> length after < length (packet (hd ms2)))"
proof (induction ms arbitrary: bs)
  case Nil
  then show ?case by (auto simp: incomplete_def)
next
  case (Cons m ms)
  show ?case
  proof (cases "length bs < length (packet m)")
    case True
    have "take (length bs) (bs @ rem) = take (length bs) (packet m @ concat (map packet ms))"
      using Cons.prems(2) by simp
    with True have "take (length bs) (packet m) = bs" by simp
    then have "packet m = bs @ drop (length bs) (packet m)" by (metis append_take_drop_id)
    moreover have "drop (length bs) (packet m) \<noteq> []" and "ok m" using True Cons.prems(1) by simp_all
    ultimately have "incomplete bs" unfolding incomplete_def by blast
    with Cons.prems(2) True show ?thesis by (intro exI [of _ "[]"] exI [of _ "m # ms"] exI [of _ bs]) simp
  next
    case False
    have "take (length (packet m)) (bs @ rem) = packet m" using Cons.prems(2) by simp
    with False have "bs = packet m @ drop (length (packet m)) bs"
      by (metis append_take_drop_id diff_is_0_eq' not_less take_0 take_append append_Nil2)
    then obtain bs' where bs': "bs = packet m @ bs'" by blast
    with Cons.prems(2) have bs'': "bs' @ rem = concat (map packet ms)" by simp
    from Cons.IH [OF _ bs''] Cons.prems(1) obtain ms1 ms2 after where
      "ms = ms1 @ ms2" "bs' = concat (map packet ms1) @ after"
      "after @ rem = concat (map packet ms2)" "incomplete after"
      "ms2 = [] \<or> length after < length (packet (hd ms2))"
      by auto
    with bs' show ?thesis by (intro exI [of _ "m # ms1"] exI [of _ ms2] exI [of _ after]) simp
  qed
qed

text \<open>However the stream is divided, the messages in it are handled once each and in order.\<close>

lemma run_packets:
  assumes cont: "\<forall>m s. fst (on_event m s)"
  shows "\<forall>m \<in> set ms. ok m
    \<Longrightarrow> buffer_contents h b @ concat (map (buffer_contents h) cs) = concat (map packet ms)
    \<Longrightarrow> ms = [] \<or> length (buffer_contents h b) < length (packet (hd ms))
    \<Longrightarrow> buffer_ok h b \<Longrightarrow> \<forall>c \<in> set cs. buffer_ok h c
    \<Longrightarrow> owned h (fragments b @ concat (map fragments cs) @ others)
    \<Longrightarrow> \<exists>b' h'. receive_run create_from on_event on_unknown (map (Pair False) cs) b h s
        = (AwaitMore, b', h', fold (\<lambda>m s. snd (on_event m s)) ms s)
      \<and> buffer_contents h' b' = [] \<and> buffer_ok h' b' \<and> owned h' (fragments b' @ others)"
proof (induction cs arbitrary: b h s ms)
  case Nil
  have "ms = []"
  proof (cases ms)
    case (Cons m ms')
    with Nil.prems(2,3) show ?thesis by simp
  qed simp
  with Nil show ?case by auto
next
  case (Cons c cs)
  let ?b = "fst (buffer_merge_back c b)"
  have fr: "fragments ?b = fragments b @ fragments c" by (simp add: buffer_merge_back_def)
  have ok_b: "buffer_ok h ?b"
    using Cons.prems(4,5) by (auto simp: buffer_ok_def buffer_merge_back_def calculate_size_eq)
  have "buffer_contents h ?b = buffer_contents h b @ buffer_contents h c"
    by (simp add: buffer_contents_def fr)
  with Cons.prems(2) have "buffer_contents h ?b @ concat (map (buffer_contents h) cs) = concat (map packet ms)"
    by simp
  from stream_front [OF Cons.prems(1) this] obtain ms1 ms2 after where
    front: "ms = ms1 @ ms2" "buffer_contents h ?b = concat (map packet ms1) @ after"
      "after @ concat (map (buffer_contents h) cs) = concat (map packet ms2)" "incomplete after"
      "ms2 = [] \<or> length after < length (packet (hd ms2))"
    by blast
  have fuel: "length ms1 < Suc (nat (buf_size ?b))"
  proof -
    have "length ms1 \<le> length (concat (map packet ms1))" if "\<forall>m \<in> set ms1. ok m"
      using that by (induction ms1) (auto dest: packet_length)
    moreover have "\<forall>m \<in> set ms1. ok m" using Cons.prems(1) front(1) by simp
    ultimately have "length ms1 \<le> length (buffer_contents h ?b)" using front(2) by simp
    then show ?thesis using buffer_contents_length [OF ok_b] by linarith
  qed
  have own: "owned h (fragments ?b @ concat (map fragments cs) @ others)" using Cons.prems(6) by (simp add: fr)
  have "\<forall>m \<in> set ms1. ok m" using Cons.prems(1) front(1) by simp
  from loop_packets [OF cont this front(2,4) ok_b own fuel, of on_unknown s] obtain b1 h1 where
    step: "receive_loop create_from on_event on_unknown (Suc (nat (buf_size ?b))) ?b h s
        = (AwaitMore, b1, h1, fold (\<lambda>m s. snd (on_event m s)) ms1 s)"
      "owned h1 (fragments b1 @ concat (map fragments cs) @ others)" "buffer_ok h1 b1"
      "buffer_contents h1 b1 = after" "same_bytes h h1"
    by blast
  have hok: "\<forall>c \<in> set cs. \<forall>f \<in> set (fragments c). handle_ok h1 f" using ownedD(3) [OF step(2)] by auto
  then have "\<forall>c \<in> set cs. buffer_contents h1 c = buffer_contents h c"
    using spans_same_bytes [OF step(5)] by (simp add: buffer_contents_def)
  then have eq: "map (buffer_contents h1) cs = map (buffer_contents h) cs" by simp
  have ok_cs: "\<forall>c \<in> set cs. buffer_ok h1 c" using Cons.prems(5) hok by (auto simp: buffer_ok_def)
  from Cons.IH [OF _ _ _ step(3) ok_cs step(2), of ms2 "fold (\<lambda>m s. snd (on_event m s)) ms1 s"]
    Cons.prems(1) front step(4) eq
  show ?case using step(1) by (simp add: Let_def)
qed

text \<open>A stream of whole packets, from the start of a session: all of it is handled and all memory freed.\<close>

lemma run_stream:
  assumes "\<forall>m s. fst (on_event m s)" and "\<forall>m \<in> set ms. ok m"
    and "concat (map (buffer_contents h) chunks) = concat (map packet ms)"
    and "\<forall>c \<in> set chunks. buffer_ok h c" and "owned h (concat (map fragments chunks))"
  shows "\<exists>h'. receive_run create_from on_event on_unknown (map (Pair False) chunks) buffer_new h s
      = (AwaitMore, buffer_new, h', fold (\<lambda>m s. snd (on_event m s)) ms s)
    \<and> blocks h' = Map.empty"
proof -
  have new: "buffer_contents h buffer_new = []" "fragments buffer_new = []" "buffer_ok h buffer_new"
    by (simp_all add: buffer_contents_def buffer_new_def buffer_ok_def calculate_size_def)
  have len: "ms = [] \<or> length (buffer_contents h buffer_new) < length (packet (hd ms))"
    using assms(2) packet_length [of "hd ms"] new by (cases ms) auto
  from run_packets [OF assms(1,2) _ len new(3) assms(4), of "[]" on_unknown s] assms(3,5) new
  obtain b' h' where r: "receive_run create_from on_event on_unknown (map (Pair False) chunks) buffer_new h s
      = (AwaitMore, b', h', fold (\<lambda>m s. snd (on_event m s)) ms s)"
    "buffer_contents h' b' = []" "buffer_ok h' b'" "owned h' (fragments b' @ [])"
    by auto
  from empty_buffer_fragments [OF r(3,2)] have "fragments b' = []" .
  moreover from this r(3) have "b' = buffer_new" by (simp add: buffer_ok_def buffer_new_def calculate_size_def)
  ultimately show ?thesis using r owned_nil [of h'] by simp
qed

end

subsection \<open>The two protocols\<close>

lemma packet_header:
  assumes "length (packet_to_buffer m opcode serialize) < 2 ^ 31"
  shows "\<exists>(n :: 32 word) bs. packet_to_buffer m opcode serialize = word_bytes n @ bs
    \<and> sint n = int (length (packet_to_buffer m opcode serialize))"
    and "drop 4 (packet_to_buffer m opcode serialize)
      = word_bytes (ucast (opcode m) :: 16 word) @ serialize m []"
proof -
  let ?n = "word_of_int (6 + int (length (serialize m []))) :: 32 word"
  have eq: "packet_to_buffer m opcode serialize
      = word_bytes ?n @ word_bytes (ucast (opcode m) :: 16 word) @ serialize m []"
    by (simp add: packet_to_buffer_def Let_def write_buffer_def write_word_def put_bytes_def stream_writer_new_def)
  then have len: "length (packet_to_buffer m opcode serialize) = 6 + length (serialize m [])"
    by (simp add: byte_width_def)
  then have "sint ?n = int (length (packet_to_buffer m opcode serialize))"
    using assms signed_of_int [where 'a = int and 'b = 32, of "6 + int (length (serialize m []))"]
    by (simp add: signed_take_bit_int_eq_self del: of_int_add of_int_of_nat_eq)
  with eq show "\<exists>(n :: 32 word) bs. packet_to_buffer m opcode serialize = word_bytes n @ bs
      \<and> sint n = int (length (packet_to_buffer m opcode serialize))"
    by blast
  show "drop 4 (packet_to_buffer m opcode serialize)
      = word_bytes (ucast (opcode m) :: 16 word) @ serialize m []"
    unfolding eq by (simp add: byte_width_def)
qed

abbreviation lobby_request :: "lobby_cs \<Rightarrow> byte list" where
  "lobby_request m \<equiv> packet_to_buffer m lobby_cs_opcode lobby_cs_serialize"

abbreviation login_request :: "login_cs \<Rightarrow> byte list" where
  "login_request m \<equiv> packet_to_buffer m login_cs_opcode login_cs_serialize"

text \<open>\<^verbatim>\<open>CreateFrom\<close> over the iterators of a buffer.\<close>

definition lobby_create ::
  "heap \<Rightarrow> buffer_iterator stream_reader \<Rightarrow> fault + (lobby_cs option \<times> buffer_iterator stream_reader)" where
  "lobby_create h = lobby_cs_create_from (iterator_deref h) iterator_next"

definition login_create ::
  "heap \<Rightarrow> buffer_iterator stream_reader \<Rightarrow> fault + (login_cs option \<times> buffer_iterator stream_reader)" where
  "login_create h = login_cs_create_from (iterator_deref h) iterator_next"

interpretation lobby_packets: packet_protocol lobby_create lobby_request
  "\<lambda>m. lobby_cs_ok m \<and> length (lobby_request m) < 2 ^ 31"
proof (unfold_locales, goal_cases)
  case (1 m)
  then show ?case by (intro packet_header(1)) simp
next
  case (2 m h r after)
  then have "lobby_cs_ok m" and "iterator_rest h (r_iter r)
      = (word_bytes (ucast (lobby_cs_opcode m) :: 16 word) @ lobby_cs_serialize m []) @ after"
    using packet_header(2) [of m lobby_cs_opcode lobby_cs_serialize] by simp_all
  with buffer_it.lobby_cs_parses [of m h] 2(2) show ?case
    unfolding buffer_it.parses_def lobby_create_def by blast
qed

interpretation login_packets: packet_protocol login_create login_request
  "\<lambda>m. login_cs_ok m \<and> length (login_request m) < 2 ^ 31"
proof (unfold_locales, goal_cases)
  case (1 m)
  then show ?case by (intro packet_header(1)) simp
next
  case (2 m h r after)
  then have "login_cs_ok m" and "iterator_rest h (r_iter r)
      = (word_bytes (ucast (login_cs_opcode m) :: 16 word) @ login_cs_serialize m []) @ after"
    using packet_header(2) [of m login_cs_opcode login_cs_serialize] by simp_all
  with buffer_it.login_cs_parses [of m h] 2(2) show ?case
    unfolding buffer_it.parses_def login_create_def by blast
qed

subsection \<open>A size that is not positive\<close>

text \<open>
  \<^verbatim>\<open>SliceFront\<close> refuses such a size and the result is only asserted, so the round leaves the buffer as it was
  and the packet is handled again, and so on.
\<close>

lemma loop_never_consumes:
  assumes "and_then (buffer_reader_new b) (read_word (iterator_deref h) iterator_next) = Inr (n :: 32 word, r)"
    and "sint n \<le> 0" and "4 \<le> buf_size b" and "create_from h r = Inr (Some m, r')"
    and "\<forall>s. fst (on_event m s)"
  shows "receive_loop create_from on_event on_unknown fuel b h s
    = (OutOfFuel, b, h, ((\<lambda>s. snd (on_event m s)) ^^ fuel) s)"
proof (induction fuel arbitrary: s)
  case (Suc fuel)
  have "receive_loop create_from on_event on_unknown (Suc fuel) b h s
      = receive_loop create_from on_event on_unknown fuel b h (snd (on_event m s))"
    using assms by (simp add: buffer_slice_front_def buffer_new_def split_beta)
  then show ?case by (simp only: Suc.IH funpow_Suc_right o_apply)
qed simp

end
