(* ===== verification/LobbySession.thy ===== *)
theory LobbySession
  imports Framing
begin

text \<open>
  \<^verbatim>\<open>shared/state_machine/state_machine.h\<close>, and the sessions of the lobby and of the login server over it:
  \<^verbatim>\<open>xr/server/lobby/lobby_session_state.cpp\<close> and \<^verbatim>\<open>lobby_session_state_machine.cpp\<close>,
  \<^verbatim>\<open>xr/server/login/login_session_state.cpp\<close> and \<^verbatim>\<open>login_session_state_machine.cpp\<close>. The services a session
  calls (login, database, coordination, gateway) are other processes: what they answer is an argument of
  the step, and what they are asked is recorded in the session.
\<close>

subsection \<open>The state machine\<close>

text \<open>
  States in the order they were added, the transitions of each, and the current one; \<^verbatim>\<open>_currentTransition\<close>
  points at the entry of a state in \<^verbatim>\<open>_transitions\<close>.
\<close>

record 's state_machine =
  sm_states :: "'s list"
  sm_transitions :: "'s \<rightharpoonup> 's list"
  currentState :: "'s option"
  currentTransition :: "'s option"

definition state_machine_new :: "'s state_machine" where
  "state_machine_new =
     \<lparr>sm_states = [], sm_transitions = Map.empty, currentState = None, currentTransition = None\<rparr>"

text \<open>\<^verbatim>\<open>AddState(setCurrent, ...)\<close> followed by the calls of \<^verbatim>\<open>Add\<close> on what it returns.\<close>

definition add_state :: "bool \<Rightarrow> 's \<Rightarrow> 's list \<Rightarrow> 's state_machine \<Rightarrow> 's state_machine" where
  "add_state setCurrent st targets m =
     (let m1 = m\<lparr>sm_states := sm_states m @ [st],
                 sm_transitions := (case sm_transitions m st of
                     None \<Rightarrow> (sm_transitions m)(st \<mapsto> targets)
                   | Some old \<Rightarrow> (sm_transitions m)(st \<mapsto> old @ targets))\<rparr>
      in if setCurrent then m1\<lparr>currentState := Some st, currentTransition := Some st\<rparr> else m1)"

definition sm_find :: "'s \<Rightarrow> 's state_machine \<Rightarrow> 's option \<times> 's option" where
  "sm_find st m =
     (find (\<lambda>x. x = st) (sm_states m), if sm_transitions m st = None then None else Some st)"

text \<open>
  \<^verbatim>\<open>Transition\<close>. The result says whether it was made, and then the state left, whose \<^verbatim>\<open>OnExit\<close> runs, and the
  state entered, whose \<^verbatim>\<open>OnEnter\<close> runs.
\<close>

definition sm_transition :: "'s \<Rightarrow> 's state_machine \<Rightarrow> fault + (('s \<times> 's) option \<times> 's state_machine)" where
  "sm_transition st m =
     and_then (deref (sm_transitions m) (currentTransition m)) (\<lambda>targets.
       if st \<notin> set targets then Inr (None, m)
       else case sm_find st m of
         (None, _) \<Rightarrow> Inr (None, m)
       | (Some new, transition) \<Rightarrow>
           (case currentState m of
              None \<Rightarrow> Inl NullDeref
            | Some old \<Rightarrow>
                Inr (Some (old, new), m\<lparr>currentState := Some new, currentTransition := transition\<rparr>)))"

text \<open>What a well-formed machine is, and that transitions keep it.\<close>

definition sm_wf :: "'s state_machine \<Rightarrow> bool" where
  "sm_wf m \<longleftrightarrow> dom (sm_transitions m) = set (sm_states m)
     \<and> (\<exists>st. currentState m = Some st \<and> currentTransition m = Some st \<and> st \<in> set (sm_states m))"

definition sm_can :: "'s \<Rightarrow> 's state_machine \<Rightarrow> bool" where
  "sm_can st m \<longleftrightarrow> st \<in> set (sm_states m)
     \<and> (\<exists>c targets. currentState m = Some c \<and> sm_transitions m c = Some targets \<and> st \<in> set targets)"

lemma find_eq_Some: "find (\<lambda>x. x = y) xs = (if y \<in> set xs then Some y else None)"
  by (induction xs) auto

lemma sm_transition_eq:
  assumes "sm_wf m"
  shows "sm_transition st m =
    (if sm_can st m
     then Inr (Some (the (currentState m), st), m\<lparr>currentState := Some st, currentTransition := Some st\<rparr>)
     else Inr (None, m))"
proof -
  from assms obtain c where c: "currentState m = Some c" "currentTransition m = Some c" "c \<in> set (sm_states m)"
    and d: "dom (sm_transitions m) = set (sm_states m)"
    by (auto simp: sm_wf_def)
  then obtain targets where t: "sm_transitions m c = Some targets" by blast
  have "sm_transitions m st = None \<longleftrightarrow> st \<notin> set (sm_states m)" using d by blast
  with c t show ?thesis
    by (auto simp: sm_transition_def deref_def sm_can_def sm_find_def find_eq_Some)
qed

lemma sm_transition_wf:
  assumes "sm_wf m" and "sm_transition st m = Inr (x, m')"
  shows "sm_wf m'"
proof (cases "sm_can st m")
  case True
  then have "st \<in> set (sm_states m)" by (simp add: sm_can_def)
  moreover have "m' = m\<lparr>currentState := Some st, currentTransition := Some st\<rparr>"
    using True assms(2) by (simp add: sm_transition_eq [OF assms(1)])
  ultimately show ?thesis using assms(1) by (simp add: sm_wf_def)
next
  case False
  with assms show ?thesis unfolding sm_transition_eq [OF assms(1)] by simp
qed

subsection \<open>The session of the lobby\<close>

datatype lobby_state = Connected | Authenticated | TransitionToGame

record character_cache =
  cc_characterId :: "64 word"
  cc_name :: "byte list"
  cc_zoneId :: "32 word"

text \<open>The messages of the services, \<^verbatim>\<open>xr/service/model/generated/data_transfer_object_message.h\<close>.\<close>

record dto_lobby_item =
  li_itemDataId :: "32 word"
  li_equipPosition :: "32 word"

record dto_lobby_character =
  dl_characterId :: "64 word"
  dl_slot :: "32 word"
  dl_name :: "byte list"
  dl_level :: "32 word"
  dl_str :: "32 word"
  dl_dex :: "32 word"
  dl_intell :: "32 word"
  dl_job :: "32 word"
  dl_faceId :: "32 word"
  dl_hairId :: "32 word"
  dl_zoneId :: "32 word"
  dl_items :: "dto_lobby_item list"

record dto_character_add =
  ca_accountId :: "64 word"
  ca_slot :: "32 word"
  ca_name :: "byte list"
  ca_level :: "32 word"
  ca_str :: "32 word"
  ca_dex :: "32 word"
  ca_intell :: "32 word"
  ca_job :: "32 word"
  ca_faceId :: "32 word"
  ca_hairId :: "32 word"
  ca_gold :: "32 word"
  ca_zoneId :: "32 word"

record dto_equip_item =
  ei_itemId :: "64 word"
  ei_itemDataId :: "32 word"
  ei_quantity :: "32 word"
  ei_equipPosition :: "32 word"

text \<open>What a session asks of the services, and what one event gets for an answer; the flags say no error.\<close>

datatype service_call =
    AuthenticateCall "byte list"
  | RemoveAuthCall "byte list"
  | GetLobbyCharactersCall "64 word"
  | AddCharacterCall dto_character_add "dto_equip_item list"
  | RemoveCharacterCall "64 word"
  | AddPlayerCall "byte list" "64 word" "64 word" "32 word"

record service_answers =
  authenticate_answer :: "bool \<times> 64 word"
  characters_answer :: "bool \<times> dto_lobby_character list"
  add_answer :: "bool \<times> 64 word"
  remove_answer :: bool
  player_answer :: "bool \<times> byte list \<times> 32 word"
  new_item_ids :: "64 word list"

record lobby_session =
  ls_machine :: "lobby_state state_machine"
  ls_accountId :: "64 word"
  ls_token :: "byte list"
  ls_characters :: "32 word \<rightharpoonup> character_cache"
  ls_pending :: bool
  ls_alive :: bool
  ls_closed :: bool
  ls_close_scheduled :: bool
  ls_sent :: "lobby_sc list"
  ls_calls :: "service_call list"

definition lobby_machine :: "lobby_state state_machine" where
  "lobby_machine =
     add_state False TransitionToGame []
       (add_state False Authenticated [TransitionToGame]
         (add_state True Connected [Authenticated] state_machine_new))"

definition lobby_session_new :: lobby_session where
  "lobby_session_new =
     \<lparr>ls_machine = lobby_machine, ls_accountId = 0, ls_token = [], ls_characters = Map.empty,
      ls_pending = False, ls_alive = True, ls_closed = False, ls_close_scheduled = False,
      ls_sent = [], ls_calls = []\<rparr>"

definition session_close :: "lobby_session \<Rightarrow> lobby_session" where
  "session_close s = s\<lparr>ls_closed := True\<rparr>"

definition session_send :: "lobby_sc \<Rightarrow> lobby_session \<Rightarrow> lobby_session" where
  "session_send m s = s\<lparr>ls_sent := ls_sent s @ [m]\<rparr>"

definition session_call :: "service_call \<Rightarrow> lobby_session \<Rightarrow> lobby_session" where
  "session_call c s = s\<lparr>ls_calls := ls_calls s @ [c]\<rparr>"

definition add_character :: "32 word \<Rightarrow> character_cache \<Rightarrow> lobby_session \<Rightarrow> lobby_session" where
  "add_character slot c s =
     (case ls_characters s slot of
        None \<Rightarrow> s\<lparr>ls_characters := (ls_characters s)(slot \<mapsto> c)\<rparr>
      | Some _ \<Rightarrow> s)"

definition remove_character :: "32 word \<Rightarrow> lobby_session \<Rightarrow> lobby_session" where
  "remove_character slot s = s\<lparr>ls_characters := (ls_characters s)(slot := None)\<rparr>"

text \<open>\<^verbatim>\<open>OnEnter\<close> of the states; the last schedules the end of the session in three seconds.\<close>

definition on_enter :: "lobby_state \<Rightarrow> lobby_session \<Rightarrow> lobby_session" where
  "on_enter st s =
     (case st of
        Connected \<Rightarrow> s
      | Authenticated \<Rightarrow>
          if \<not> ls_alive s then s
          else session_call (GetLobbyCharactersCall (ls_accountId s)) (s\<lparr>ls_pending := True\<rparr>)
      | TransitionToGame \<Rightarrow> s\<lparr>ls_close_scheduled := True\<rparr>)"

definition session_transition :: "lobby_state \<Rightarrow> lobby_session \<Rightarrow> fault + lobby_session" where
  "session_transition st s =
     and_then (sm_transition st (ls_machine s)) (\<lambda>(r, m).
       let s1 = s\<lparr>ls_machine := m\<rparr>
       in Inr (case r of None \<Rightarrow> s1 | Some (_, new) \<Rightarrow> on_enter new s1))"

definition character_zero :: lobby_character where
  "character_zero =
     \<lparr>lc_slot = 0, lc_name = [], lc_level = 0, lc_str = 0, lc_dex = 0, lc_intell = 0, lc_job = 0,
      lc_faceId = 0, lc_hairId = 0, lc_gold = 0, lc_zoneId = 0, lc_x = 0, lc_y = 0, lc_z = 0,
      lc_armorId = 0, lc_glovesId = 0, lc_shoesId = 0, lc_weaponId = 0, lc_gender = 0\<rparr>"

definition show_item :: "dto_lobby_item \<Rightarrow> lobby_character \<Rightarrow> lobby_character" where
  "show_item i c =
     (if li_equipPosition i = 0 then c\<lparr>lc_armorId := li_itemDataId i\<rparr>
      else if li_equipPosition i = 1 then c\<lparr>lc_glovesId := li_itemDataId i\<rparr>
      else if li_equipPosition i = 2 then c\<lparr>lc_shoesId := li_itemDataId i\<rparr>
      else if li_equipPosition i = 3 then c\<lparr>lc_weaponId := li_itemDataId i\<rparr>
      else c)"

definition show_character :: "dto_lobby_character \<Rightarrow> lobby_character" where
  "show_character dto =
     fold show_item (dl_items dto)
       (character_zero\<lparr>lc_slot := dl_slot dto, lc_name := dl_name dto, lc_level := dl_level dto,
          lc_str := dl_str dto, lc_dex := dl_dex dto, lc_intell := dl_intell dto, lc_job := dl_job dto,
          lc_faceId := dl_faceId dto, lc_hairId := dl_hairId dto, lc_zoneId := dl_zoneId dto\<rparr>)"

text \<open>The continuation of \<^verbatim>\<open>GetLobbyCharactersAsync\<close>.\<close>

definition characters_reply :: "bool \<times> dto_lobby_character list \<Rightarrow> lobby_session \<Rightarrow> lobby_session" where
  "characters_reply answer s =
     (case answer of (ok, dtos) \<Rightarrow>
        let s1 =
          (if ok then
             session_send (NotifyCharacterList (word_of_nat (length dtos)) (map show_character dtos))
               (fold (\<lambda>dto. add_character (dl_slot dto)
                   \<lparr>cc_characterId = dl_characterId dto, cc_name = [], cc_zoneId = dl_zoneId dto\<rparr>) dtos s)
           else session_close s)
        in s1\<lparr>ls_pending := False\<rparr>)"

text \<open>The three handlers of the authenticated state.\<close>

definition add_param :: "64 word \<Rightarrow> lobby_character \<Rightarrow> dto_character_add" where
  "add_param account request =
     \<lparr>ca_accountId = account, ca_slot = lc_slot request, ca_name = lc_name request, ca_level = 1,
      ca_str = 10, ca_dex = 10, ca_intell = 10, ca_job = lc_job request, ca_faceId = lc_faceId request,
      ca_hairId = lc_hairId request, ca_gold = 0, ca_zoneId = 100\<rparr>"

text \<open>The four items of a new character, each with the next identifier of the generator.\<close>

definition equip_items :: "64 word list \<Rightarrow> dto_equip_item list" where
  "equip_items ids =
     map (\<lambda>(i, itemId, position).
         \<lparr>ei_itemId = i, ei_itemDataId = itemId, ei_quantity = 1, ei_equipPosition = position\<rparr>)
       (zip ids [(3000001, 0), (3100001, 1), (3200001, 2), (3300001, 3)])"

definition handle_create :: "service_answers \<Rightarrow> lobby_character \<Rightarrow> lobby_session \<Rightarrow> lobby_session" where
  "handle_create a request s =
     (if ls_characters s (lc_slot request) \<noteq> None
      then session_send (ResultCreateCharacter False character_zero) s
      else
        let param = add_param (ls_accountId s) request;
            s1 = session_call (AddCharacterCall param (equip_items (new_item_ids a))) s
        in case add_answer a of (success, characterId) \<Rightarrow>
          if success then
            session_send
              (ResultCreateCharacter True
                (character_zero\<lparr>lc_slot := ca_slot param, lc_name := ca_name param, lc_level := ca_level param,
                   lc_str := ca_str param, lc_dex := ca_dex param, lc_intell := ca_intell param,
                   lc_job := ca_job param, lc_faceId := ca_faceId param, lc_hairId := ca_hairId param,
                   lc_gold := ca_gold param, lc_zoneId := ca_zoneId param, lc_x := 0, lc_y := 0, lc_z := 0\<rparr>))
              (add_character (ca_slot param)
                \<lparr>cc_characterId = characterId, cc_name = [], cc_zoneId = ca_zoneId param\<rparr> s1)
          else session_send (ResultCreateCharacter False character_zero) s1)"

definition handle_delete :: "service_answers \<Rightarrow> 32 word \<Rightarrow> lobby_session \<Rightarrow> lobby_session" where
  "handle_delete a slot s =
     (case ls_characters s slot of
        None \<Rightarrow> s
      | Some c \<Rightarrow>
          let s1 = session_call (RemoveCharacterCall (cc_characterId c)) s
          in if remove_answer a then session_send (SuccessDeleteCharacter slot) (remove_character slot s1)
             else s1)"

definition handle_select :: "service_answers \<Rightarrow> 32 word \<Rightarrow> lobby_session \<Rightarrow> fault + lobby_session" where
  "handle_select a slot s =
     (case ls_characters s slot of
        None \<Rightarrow> Inr s
      | Some c \<Rightarrow>
          let s1 = session_call (AddPlayerCall (ls_token s) (ls_accountId s) (cc_characterId c) (cc_zoneId c)) s
          in case player_answer a of (ok, ip, port) \<Rightarrow>
            if ok then session_transition TransitionToGame (session_send (SuccessSelectCharacter ip port) s1)
            else Inr s1)"

text \<open>\<^verbatim>\<open>OnEvent\<close> of the states.\<close>

definition connected_on_event :: "service_answers \<Rightarrow> lobby_cs \<Rightarrow> lobby_session \<Rightarrow> fault + lobby_session" where
  "connected_on_event a m s =
     (if \<not> ls_alive s then Inr s
      else case m of
        Authenticate token \<Rightarrow>
          let s1 = session_call (AuthenticateCall token) s;
              (ok, account) = authenticate_answer a;
              s2 = (if ok then s1 else session_close s1);
              s3 = s2\<lparr>ls_accountId := account, ls_token := token\<rparr>
          in session_transition Authenticated s3
      | _ \<Rightarrow> Inl (RuntimeError ''unhandled packet''))"

definition authenticated_on_event :: "service_answers \<Rightarrow> lobby_cs \<Rightarrow> lobby_session \<Rightarrow> fault + lobby_session" where
  "authenticated_on_event a m s =
     (let s = (if ls_pending s then characters_reply (characters_answer a) s else s)
      in if \<not> ls_alive s then Inr s
         else case m of
           CreateCharacter c \<Rightarrow> Inr (handle_create a c s)
         | DeleteCharacter slot \<Rightarrow> Inr (handle_delete a slot s)
         | SelectCharacter slot \<Rightarrow> handle_select a slot s
         | Authenticate _ \<Rightarrow> Inr s)"

definition lobby_on_event :: "service_answers \<Rightarrow> lobby_cs \<Rightarrow> lobby_session \<Rightarrow> fault + lobby_session" where
  "lobby_on_event a m s =
     (case currentState (ls_machine s) of
        None \<Rightarrow> Inl NullDeref
      | Some Connected \<Rightarrow> connected_on_event a m s
      | Some Authenticated \<Rightarrow> authenticated_on_event a m s
      | Some TransitionToGame \<Rightarrow> Inr s)"

text \<open>
  The call of \<^verbatim>\<open>OnEvent\<close> in \<^verbatim>\<open>Run\<close>, which catches what it throws and goes on. The answers of the services are
  a function of the calls made so far.
\<close>

definition lobby_handler ::
  "(service_call list \<Rightarrow> service_answers) \<Rightarrow> lobby_cs \<Rightarrow> lobby_session \<Rightarrow> bool \<times> lobby_session" where
  "lobby_handler env m s =
     (case lobby_on_event (env (ls_calls s)) m s of
        Inl _ \<Rightarrow> (True, s)
      | Inr s' \<Rightarrow> (True, s'))"


text \<open>The end of \<^verbatim>\<open>Start\<close>: when \<^verbatim>\<open>Run\<close> returns or throws, the session is closed.\<close>

definition lobby_start_end :: "frame_outcome \<times> buffer \<times> heap \<times> lobby_session \<Rightarrow> lobby_session" where
  "lobby_start_end r =
     (case r of (outcome, _, _, s) \<Rightarrow>
        case outcome of AwaitMore \<Rightarrow> s | OutOfFuel \<Rightarrow> s | _ \<Rightarrow> session_close s)"

definition handle_session_close :: "lobby_session \<Rightarrow> lobby_session" where
  "handle_session_close s =
     (if ls_alive s \<and> currentState (ls_machine s) = Some Authenticated
      then session_call (RemoveAuthCall (ls_token s)) s else s)"

subsection \<open>What a session knows\<close>

text \<open>The identifiers of characters that the services named to the session.\<close>

definition offered :: "service_answers \<Rightarrow> 64 word \<Rightarrow> bool" where
  "offered a cid \<longleftrightarrow> (\<exists>dto \<in> set (snd (characters_answer a)). dl_characterId dto = cid)
     \<or> (fst (add_answer a) \<and> snd (add_answer a) = cid)"

definition seen :: "(service_call list \<Rightarrow> service_answers) \<Rightarrow> service_call list \<Rightarrow> 64 word \<Rightarrow> bool" where
  "seen env calls cid \<longleftrightarrow> (\<exists>k \<le> length calls. offered (env (take k calls)) cid)"

lemma seen_append: "seen env calls cid \<Longrightarrow> seen env (calls @ more_calls) cid"
proof -
  assume "seen env calls cid"
  then obtain k where "k \<le> length calls" "offered (env (take k calls)) cid" by (auto simp: seen_def)
  then have "k \<le> length (calls @ more_calls)" "offered (env (take k (calls @ more_calls))) cid" by simp_all
  then show ?thesis unfolding seen_def by blast
qed

lemma seen_now: "offered (env calls) cid \<Longrightarrow> seen env calls cid"
  unfolding seen_def by (rule exI [of _ "length calls"]) simp

text \<open>The call concerns only a character that was named before.\<close>

fun call_known :: "(64 word \<Rightarrow> bool) \<Rightarrow> service_call \<Rightarrow> bool" where
  "call_known P (RemoveCharacterCall cid) \<longleftrightarrow> P cid"
| "call_known P (AddPlayerCall _ _ cid _) \<longleftrightarrow> P cid"
| "call_known P _ \<longleftrightarrow> True"

lemma call_known_mono: "call_known P c \<Longrightarrow> (\<And>cid. P cid \<Longrightarrow> Q cid) \<Longrightarrow> call_known Q c"
  by (cases c) auto

definition knows :: "(64 word \<Rightarrow> bool) \<Rightarrow> lobby_session \<Rightarrow> bool" where
  "knows P s \<longleftrightarrow> (\<forall>slot c. ls_characters s slot = Some c \<longrightarrow> P (cc_characterId c))
     \<and> (\<forall>c \<in> set (ls_calls s). call_known P c)"

lemma knows_mono: "knows P s \<Longrightarrow> (\<And>cid. P cid \<Longrightarrow> Q cid) \<Longrightarrow> knows Q s"
  unfolding knows_def using call_known_mono [of P _ Q] by blast

named_theorems knows_intros \<open>the operations of a session keep what it knows\<close>

lemma knows_close [knows_intros]: "knows P s \<Longrightarrow> knows P (session_close s)"
  by (simp add: knows_def session_close_def)

lemma knows_send [knows_intros]: "knows P s \<Longrightarrow> knows P (session_send m s)"
  by (simp add: knows_def session_send_def)

lemma knows_call [knows_intros]: "knows P s \<Longrightarrow> call_known P c \<Longrightarrow> knows P (session_call c s)"
  by (auto simp: knows_def session_call_def)

lemma knows_add [knows_intros]: "knows P s \<Longrightarrow> P (cc_characterId c) \<Longrightarrow> knows P (add_character slot c s)"
  by (auto simp: knows_def add_character_def split: option.splits)

lemma knows_remove [knows_intros]: "knows P s \<Longrightarrow> knows P (remove_character slot s)"
  by (auto simp: knows_def remove_character_def)

lemma knows_fields [knows_intros]:
  "knows P s \<Longrightarrow> knows P (s\<lparr>ls_machine := m\<rparr>)"
  "knows P s \<Longrightarrow> knows P (s\<lparr>ls_accountId := acc, ls_token := t\<rparr>)"
  "knows P s \<Longrightarrow> knows P (s\<lparr>ls_pending := p\<rparr>)"
  "knows P s \<Longrightarrow> knows P (s\<lparr>ls_close_scheduled := p\<rparr>)"
  by (simp_all add: knows_def)

lemma knows_enter [knows_intros]: "knows P s \<Longrightarrow> knows P (on_enter st s)"
  by (auto simp: on_enter_def split: lobby_state.splits intro!: knows_intros)

lemma knows_transition:
  "session_transition st s = Inr s' \<Longrightarrow> knows P s \<Longrightarrow> knows P s'"
  by (auto simp: session_transition_def and_then_Inr_iff Let_def split: option.splits intro!: knows_intros)

lemma knows_reply [knows_intros]:
  assumes "knows P s" and "\<And>cid. (\<exists>dto \<in> set (snd answer). dl_characterId dto = cid) \<Longrightarrow> P cid"
  shows "knows P (characters_reply answer s)"
proof -
  have "knows P (fold (\<lambda>dto. add_character (dl_slot dto)
      \<lparr>cc_characterId = dl_characterId dto, cc_name = [], cc_zoneId = dl_zoneId dto\<rparr>) dtos s)"
    if "\<forall>dto \<in> set dtos. P (dl_characterId dto)" "knows P s" for dtos s
    using that
  proof (induction dtos arbitrary: s)
    case (Cons d dtos)
    then have "knows P (add_character (dl_slot d)
        \<lparr>cc_characterId = dl_characterId d, cc_name = [], cc_zoneId = dl_zoneId d\<rparr> s)"
      by (intro knows_add) simp_all
    with Cons show ?case by simp
  qed simp
  from this [OF _ assms(1), of "snd answer"] assms show ?thesis
    by (fastforce simp: characters_reply_def Let_def split: prod.splits intro!: knows_intros)
qed

lemma knows_characterD: "knows P s \<Longrightarrow> ls_characters s slot = Some c \<Longrightarrow> P (cc_characterId c)"
  by (auto simp: knows_def)

lemma knows_create:
  assumes "knows P s" and "fst (add_answer a) \<Longrightarrow> P (snd (add_answer a))"
  shows "knows P (handle_create a c s)"
  using assms by (auto simp: handle_create_def Let_def split: prod.splits intro!: knows_intros)

lemma knows_delete: "knows P s \<Longrightarrow> knows P (handle_delete a slot s)"
  by (auto simp: handle_delete_def Let_def split: option.splits intro!: knows_intros elim: knows_characterD)

lemma knows_select: "handle_select a slot s = Inr t \<Longrightarrow> knows P s \<Longrightarrow> knows P t"
  by (auto simp: handle_select_def Let_def split: option.splits prod.splits if_splits
      intro!: knows_intros elim!: knows_transition elim: knows_characterD)

lemma knows_connected: "connected_on_event a m s = Inr t \<Longrightarrow> knows P s \<Longrightarrow> knows P t"
  by (auto simp: connected_on_event_def Let_def split: lobby_cs.splits prod.splits if_splits
      intro!: knows_intros elim!: knows_transition)

lemma knows_authenticated:
  assumes "authenticated_on_event a m s = Inr t" and "knows P s" and "\<And>cid. offered a cid \<Longrightarrow> P cid"
  shows "knows P t"
proof -
  define s1 where "s1 = (if ls_pending s then characters_reply (characters_answer a) s else s)"
  have "knows P s1"
    using assms(2) knows_reply [OF assms(2), of "characters_answer a"] assms(3)
    by (simp add: s1_def offered_def)
  with assms(1,3) show ?thesis
    unfolding authenticated_on_event_def s1_def [symmetric] Let_def
    by (auto split: lobby_cs.splits if_splits intro: knows_create knows_delete knows_select simp: offered_def)
qed

lemma knows_event:
  assumes "lobby_on_event a m s = Inr s'" and "knows P s" and "\<And>cid. offered a cid \<Longrightarrow> P cid"
  shows "knows P s'"
  using assms(1,2) knows_authenticated [OF _ assms(2,3)]
  by (auto simp: lobby_on_event_def split: option.splits lobby_state.splits intro: knows_connected)

text \<open>The calls only grow.\<close>

definition extends :: "lobby_session \<Rightarrow> lobby_session \<Rightarrow> bool" where
  "extends s s' \<longleftrightarrow> (\<exists>cs. ls_calls s' = ls_calls s @ cs)"

named_theorems extends_intros \<open>the operations of a session only add calls\<close>

lemma extends_step [extends_intros]:
  "extends s t \<Longrightarrow> extends s (session_close t)"
  "extends s t \<Longrightarrow> extends s (session_send m t)"
  "extends s t \<Longrightarrow> extends s (session_call c t)"
  "extends s t \<Longrightarrow> extends s (add_character slot cc t)"
  "extends s t \<Longrightarrow> extends s (remove_character slot t)"
  "extends s t \<Longrightarrow> extends s (t\<lparr>ls_machine := mm\<rparr>)"
  "extends s t \<Longrightarrow> extends s (t\<lparr>ls_accountId := acc, ls_token := tk\<rparr>)"
  "extends s t \<Longrightarrow> extends s (t\<lparr>ls_pending := p\<rparr>)"
  "extends s t \<Longrightarrow> extends s (t\<lparr>ls_close_scheduled := p\<rparr>)"
  "extends s s"
  by (auto simp: extends_def session_close_def session_send_def session_call_def add_character_def
      remove_character_def split: option.splits)

lemma extends_enter [extends_intros]: "extends s t \<Longrightarrow> extends s (on_enter st t)"
  by (auto simp: on_enter_def split: lobby_state.splits intro!: extends_intros)

lemma extends_transition: "session_transition st t = Inr u \<Longrightarrow> extends s t \<Longrightarrow> extends s u"
  by (auto simp: session_transition_def and_then_Inr_iff Let_def split: option.splits intro!: extends_intros)

lemma extends_reply [extends_intros]: "extends s t \<Longrightarrow> extends s (characters_reply answer t)"
proof -
  have "extends s (fold (\<lambda>dto. add_character (f dto) (g dto)) dtos t)" if "extends s t" for f g t
    and dtos :: "dto_lobby_character list"
    using that by (induction dtos arbitrary: t) (auto intro: extends_intros)
  then show "extends s t \<Longrightarrow> ?thesis"
    by (auto simp: characters_reply_def Let_def split: prod.splits intro!: extends_intros)
qed

lemma extends_authenticated:
  assumes "authenticated_on_event a m s = Inr t"
  shows "extends s t"
proof -
  define s1 where "s1 = (if ls_pending s then characters_reply (characters_answer a) s else s)"
  have s1: "extends s s1" by (auto simp: s1_def intro!: extends_intros)
  have "extends s (handle_create a c s1)" for c
    using s1 by (auto simp: handle_create_def Let_def split: prod.splits intro!: extends_intros)
  moreover have "extends s (handle_delete a slot s1)" for slot
    using s1 by (auto simp: handle_delete_def Let_def split: option.splits intro!: extends_intros)
  moreover have "handle_select a slot s1 = Inr t \<Longrightarrow> extends s t" for slot
    using s1 by (auto simp: handle_select_def Let_def split: option.splits prod.splits if_splits
        intro!: extends_intros elim!: extends_transition)
  ultimately show ?thesis
    using assms s1 unfolding authenticated_on_event_def s1_def [symmetric] Let_def
    by (auto split: lobby_cs.splits if_splits)
qed

lemma extends_event:
  assumes "lobby_on_event a m s = Inr t"
  shows "extends s t"
  using assms extends_authenticated [of a m s t]
  by (auto simp: lobby_on_event_def connected_on_event_def Let_def split: option.splits lobby_state.splits
      lobby_cs.splits prod.splits if_splits intro!: extends_intros elim!: extends_transition)

lemma handler_knows:
  assumes "knows (seen env (ls_calls s)) s"
  shows "knows (seen env (ls_calls (snd (lobby_handler env m s)))) (snd (lobby_handler env m s))"
proof (cases "lobby_on_event (env (ls_calls s)) m s")
  case (Inr t)
  have "extends s t" by (rule extends_event [OF Inr])
  then obtain cs where cs: "ls_calls t = ls_calls s @ cs" by (auto simp: extends_def)
  have "knows (seen env (ls_calls s)) t" by (rule knows_event [OF Inr assms seen_now])
  then show ?thesis using Inr by (auto simp: lobby_handler_def cs intro: knows_mono seen_append)
qed (use assms in \<open>simp add: lobby_handler_def\<close>)

subsection \<open>Properties\<close>

lemma handler_continues: "\<forall>m s. fst (lobby_handler env m s)"
  by (simp add: lobby_handler_def split: sum.splits)


text \<open>
  A request that announces a size that is not positive is never consumed: \<^verbatim>\<open>SliceFront\<close> refuses it, the
  refusal is only asserted, and the session handles the same request again for as long as it runs, so
  that the loop never gets back to awaiting a buffer or seeing a shutdown.
\<close>

theorem request_of_no_size_handled_forever:
  assumes "buffer_ok h b" and "lobby_cs_ok m" and "sint (n :: 32 word) \<le> 0"
    and "buffer_contents h b
      = word_bytes n @ word_bytes (ucast (lobby_cs_opcode m) :: 16 word) @ lobby_cs_serialize m [] @ after"
  shows "receive_loop lobby_create (lobby_handler env) session_close fuel b h s
    = (OutOfFuel, b, h, ((\<lambda>s. snd (lobby_handler env m s)) ^^ fuel) s)"
proof -
  from lobby_packets.read_header [OF assms(1,4)] obtain r where
    r: "and_then (buffer_reader_new b) (read_word (iterator_deref h) iterator_next) = Inr (n, r)"
      "buffer_it.reader_ok h r"
      "iterator_rest h (r_iter r) = (word_bytes (ucast (lobby_cs_opcode m) :: 16 word) @ lobby_cs_serialize m []) @ after"
    by auto
  with buffer_it.lobby_cs_parses [OF assms(2), of h] obtain r' where "lobby_create h r = Inr (Some m, r')"
    unfolding buffer_it.parses_def lobby_create_def by blast
  moreover have "4 \<le> buf_size b"
    using buffer_contents_length [OF assms(1)] assms(4) by (simp add: byte_width_def)
  ultimately show ?thesis
    by (intro loop_never_consumes [OF r(1) assms(3)]) (simp_all add: handler_continues)
qed

text \<open>
  C39: whatever the services answer and the client sends, the lobby deletes and enters the game with only those
  characters that the database has listed to this session or has just created for it.
\<close>

theorem lobby_touches_known_characters_only:
  "let s = fold (\<lambda>m s. snd (lobby_handler env m s)) ms lobby_session_new
   in list_all (call_known (seen env (ls_calls s))) (ls_calls s)"
proof -
  let ?ok = "\<lambda>s. knows (seen env (ls_calls s)) s"
  have "?ok (fold (\<lambda>m s. snd (lobby_handler env m s)) ms s)" if "?ok s" for s
    using that
  proof (induction ms arbitrary: s)
    case (Cons m ms)
    from Cons.IH [OF handler_knows [OF Cons.prems]] show ?case by simp
  qed simp
  moreover have "?ok lobby_session_new" by (simp add: knows_def lobby_session_new_def)
  ultimately show ?thesis by (simp add: knows_def Let_def list_all_iff)
qed

text \<open>
  a token that the login service rejects closes the session, and then authenticates it all the same, since
  the branch does not return: a request that is already in the receive buffer is carried out for the
  account in the rejection.
\<close>

theorem rejected_token_authenticates:
  assumes "authenticate_answer (env []) = (False, account)"
    and "\<forall>calls. snd (characters_answer (env calls)) = []"
  shows "let s1 = snd (lobby_handler env (Authenticate token) lobby_session_new);
             s2 = snd (lobby_handler env (CreateCharacter c) s1)
    in ls_closed s1 \<and> currentState (ls_machine s1) = Some Authenticated \<and> ls_accountId s1 = account
      \<and> (\<exists>items. AddCharacterCall (add_param account c) items \<in> set (ls_calls s2))"
proof -
  let ?s1 = "snd (lobby_handler env (Authenticate token) lobby_session_new)"
  have cur: "currentState lobby_machine = Some Connected" and
    tr: "sm_transition Authenticated lobby_machine
      = Inr (Some (Connected, Authenticated),
          lobby_machine\<lparr>currentState := Some Authenticated, currentTransition := Some Authenticated\<rparr>)"
    by (simp_all add: lobby_machine_def add_state_def state_machine_new_def sm_transition_def deref_def
        sm_find_def Let_def)
  obtain s1 where s1: "lobby_handler env (Authenticate token) lobby_session_new = (True, s1)"
    "currentState (ls_machine s1) = Some Authenticated" "ls_accountId s1 = account" "ls_pending s1" "ls_alive s1"
    "ls_closed s1" "ls_characters s1 = Map.empty"
    using assms(1)
    by (simp add: lobby_handler_def lobby_on_event_def connected_on_event_def lobby_session_new_def cur Let_def
        session_transition_def tr on_enter_def session_call_def session_close_def)
  obtain ok where ans: "characters_answer (env (ls_calls s1)) = (ok, [])"
    using assms(2) by (metis prod.collapse)
  let ?s = "characters_reply (ok, []) s1"
  have s: "ls_characters ?s = Map.empty" "ls_alive ?s" "ls_accountId ?s = account"
    using s1 by (simp_all add: characters_reply_def session_send_def session_close_def)
  have "lobby_handler env (CreateCharacter c) s1 = (True, handle_create (env (ls_calls s1)) c ?s)"
    using s1(2,4) s(2) ans by (simp add: lobby_handler_def lobby_on_event_def authenticated_on_event_def Let_def)
  moreover have "\<exists>items. AddCharacterCall (add_param account c) items \<in> set (ls_calls (handle_create a c ?s))" for a
    using s(1,3)
    by (auto simp: handle_create_def session_call_def session_send_def add_character_def Let_def
        split: prod.splits option.splits)
  ultimately show ?thesis using s1 by (simp add: Let_def)
qed

text \<open>Concrete runs.\<close>

definition sample_env :: "service_call list \<Rightarrow> service_answers" where
  "sample_env calls =
     \<lparr>authenticate_answer = (False, 0), characters_answer = (True, []), add_answer = (True, 5),
      remove_answer = True, player_answer = (True, [], 0), new_item_ids = [1, 2, 3, 4]\<rparr>"





definition sample_zero_heap :: heap where
  "sample_zero_heap =
     \<lparr>blocks = [0 \<mapsto> \<lparr>refCount = 1, bytes = [0, 0, 0, 0, 103, 0, 0, 0, 0, 0]\<rparr>], next_block = 1\<rparr>"

definition sample_zero_buffer :: buffer where
  "sample_zero_buffer = \<lparr>buf_size = 10, fragments = [\<lparr>impl = Some 0, startOffset = 0, frag_size = 10\<rparr>]\<rparr>"

lemma sample_zero_bytes:
  "word_bytes (0 :: 32 word) = [0, 0, 0, 0]" "word_bytes (103 :: 16 word) = [103, 0]"
  by (code_simp, code_simp)

lemma sample_zero_facts:
  "buffer_ok sample_zero_heap sample_zero_buffer"
  "buffer_contents sample_zero_heap sample_zero_buffer
    = word_bytes (0 :: 32 word) @ word_bytes (ucast (lobby_cs_opcode (DeleteCharacter 0)) :: 16 word)
      @ lobby_cs_serialize (DeleteCharacter 0) [] @ []"
  by (simp_all add: sample_zero_heap_def sample_zero_buffer_def handle_ok_def buffer_ok_def sample_zero_bytes
      calculate_size_def fragment_valid_def buffer_contents_def fragment_span_def packet_write_word_def)


theorem request_of_no_size_handled_forever_witness:
  "receive_loop lobby_create (lobby_handler sample_env) session_close 1000 sample_zero_buffer sample_zero_heap
      lobby_session_new
    = (OutOfFuel, sample_zero_buffer, sample_zero_heap,
        ((\<lambda>s. snd (lobby_handler sample_env (DeleteCharacter 0) s)) ^^ 1000) lobby_session_new)"
proof (rule request_of_no_size_handled_forever)
  show "buffer_ok sample_zero_heap sample_zero_buffer" by (rule sample_zero_facts)
  show "buffer_contents sample_zero_heap sample_zero_buffer
    = word_bytes (0 :: 32 word) @ word_bytes (ucast (lobby_cs_opcode (DeleteCharacter 0)) :: 16 word)
      @ lobby_cs_serialize (DeleteCharacter 0) [] @ []"
    by (rule sample_zero_facts)
qed simp_all

theorem rejected_token_authenticates_witness:
  "let s1 = snd (lobby_handler sample_env (Authenticate []) lobby_session_new);
       s2 = snd (lobby_handler sample_env (CreateCharacter character_zero) s1)
   in ls_closed s1 \<and> currentState (ls_machine s1) = Some Authenticated
     \<and> (\<exists>items. AddCharacterCall (add_param 0 character_zero) items \<in> set (ls_calls s2))"
  using rejected_token_authenticates [of sample_env 0 "[]" character_zero]
  by (simp add: sample_env_def Let_def)

end
