(* ===== verification/LoginSession.thy ===== *)
theory LoginSession
  imports LobbySession
begin

text \<open>
  The session of the login server, \<^verbatim>\<open>xr/server/login/login_session_state.cpp\<close> and
  \<^verbatim>\<open>login_session_state_machine.cpp\<close>. What the login and the gateway service answer is an argument of the
  step; a handler returns the session and what it throws, because it throws after it has sent.
\<close>

datatype login_state = LoginConnected | LoginAuthenticated

record login_answers =
  login_answer :: "bool \<times> byte list"
  addresses_answer :: "(byte list \<times> 32 word) list"
  create_answer :: bool

record login_session =
  lg_machine :: "login_state state_machine"
  lg_alive :: bool
  lg_closed :: bool
  lg_close_scheduled :: bool
  lg_sent :: "login_sc list"

definition login_machine :: "login_state state_machine" where
  "login_machine =
     add_state False LoginAuthenticated []
       (add_state True LoginConnected [LoginAuthenticated] state_machine_new)"

definition login_session_new :: login_session where
  "login_session_new =
     \<lparr>lg_machine = login_machine, lg_alive = True, lg_closed = False, lg_close_scheduled = False, lg_sent = []\<rparr>"

definition login_close :: "login_session \<Rightarrow> login_session" where
  "login_close s = s\<lparr>lg_closed := True\<rparr>"

definition login_send :: "login_sc \<Rightarrow> login_session \<Rightarrow> login_session" where
  "login_send m s = s\<lparr>lg_sent := lg_sent s @ [m]\<rparr>"

text \<open>The destructor of \<^verbatim>\<open>TransitionGuard\<close>; entering the authenticated state schedules the end of the session.\<close>

definition login_transition :: "login_session \<Rightarrow> login_session \<times> fault option" where
  "login_transition s =
     (case sm_transition LoginAuthenticated (lg_machine s) of
        Inl e \<Rightarrow> (s, Some e)
      | Inr (None, m) \<Rightarrow> (s\<lparr>lg_machine := m\<rparr>, None)
      | Inr (Some _, m) \<Rightarrow> (s\<lparr>lg_machine := m, lg_close_scheduled := True\<rparr>, None))"

text \<open>
  \<^verbatim>\<open>ConnectedState::OnEvent\<close>: every way out but that of a complete login and that of \<^verbatim>\<open>CreateAccount\<close> ends in the
  \<^verbatim>\<open>throw\<close> at its end.
\<close>

definition login_connected_on_event :: "login_answers \<Rightarrow> login_cs \<Rightarrow> login_session \<Rightarrow> login_session \<times> fault option" where
  "login_connected_on_event a m s =
     (if \<not> lg_alive s then (s, None)
      else case m of
        Login account password \<Rightarrow>
          (case login_answer a of (success, token) \<Rightarrow>
             if success then
               (case addresses_answer a of
                  (ip, port) # _ \<Rightarrow> login_transition (login_send (LoginResult True token ip port) s)
                | [] \<Rightarrow>
                    (login_send (LoginResult True [] [] 0) s, Some (RuntimeError ''unhandled packet'')))
             else (login_send (LoginResult False [] [] 0) s, Some (RuntimeError ''unhandled packet'')))
      | CreateAccount account password \<Rightarrow> (login_send (CreateAccountResult (create_answer a)) s, None))"

definition login_on_event :: "login_answers \<Rightarrow> login_cs \<Rightarrow> login_session \<Rightarrow> login_session \<times> fault option" where
  "login_on_event a m s =
     (case currentState (lg_machine s) of
        None \<Rightarrow> (s, Some NullDeref)
      | Some LoginConnected \<Rightarrow> login_connected_on_event a m s
      | Some LoginAuthenticated \<Rightarrow> (s, None))"

text \<open>The call in \<^verbatim>\<open>Run\<close>: what it throws is logged, the session is closed and the loop left.\<close>

definition login_handler :: "(login_sc list \<Rightarrow> login_answers) \<Rightarrow> login_cs \<Rightarrow> login_session \<Rightarrow> bool \<times> login_session" where
  "login_handler env m s =
     (case login_on_event (env (lg_sent s)) m s of
        (s', None) \<Rightarrow> (True, s')
      | (s', Some _) \<Rightarrow> (False, login_close s'))"

definition login_run ::
  "(login_sc list \<Rightarrow> login_answers) \<Rightarrow> (bool \<times> buffer) list \<Rightarrow> heap
     \<Rightarrow> frame_outcome \<times> buffer \<times> heap \<times> login_session" where
  "login_run env chunks h =
     receive_run login_create (login_handler env) login_close chunks buffer_new h login_session_new"

subsection \<open>Properties\<close>

text \<open>What the handlers preserve: the machine is in one of its two states, and a connected session is not closed by a \<open>CreateAccount\<close>.\<close>

definition login_wf :: "login_session \<Rightarrow> bool" where
  "login_wf s \<longleftrightarrow> sm_states (lg_machine s) = [LoginConnected, LoginAuthenticated]
     \<and> sm_transitions (lg_machine s) = [LoginConnected \<mapsto> [LoginAuthenticated], LoginAuthenticated \<mapsto> []]
     \<and> (\<exists>c. currentState (lg_machine s) = Some c \<and> currentTransition (lg_machine s) = Some c)"

lemma login_new_wf: "login_wf login_session_new"
  by (auto simp: login_wf_def login_session_new_def login_machine_def add_state_def state_machine_new_def Let_def)

lemma login_transition_eq:
  assumes "login_wf s" and "currentState (lg_machine s) = Some LoginConnected"
  shows "login_transition s =
    (s\<lparr>lg_machine := (lg_machine s)\<lparr>currentState := Some LoginAuthenticated, currentTransition := Some LoginAuthenticated\<rparr>,
       lg_close_scheduled := True\<rparr>, None)"
  using assms by (auto simp: login_transition_def sm_transition_def login_wf_def deref_def sm_find_def)

lemma login_handler_wf:
  assumes "login_wf s"
  shows "login_wf (snd (login_handler env m s))"
proof -
  have keep: "login_wf (login_close t)" "login_wf (login_send x t)" if "login_wf t" for x t
    using that by (simp_all add: login_wf_def login_close_def login_send_def)
  show ?thesis
  proof (cases "currentState (lg_machine s)")
    case None
    with assms show ?thesis by (simp add: login_wf_def)
  next
    case (Some st)
    show ?thesis
    proof (cases st)
      case LoginConnected
      have "login_wf (fst (login_transition (login_send x s)))" for x
        using login_transition_eq [of "login_send x s"] keep(2) [OF assms] assms Some LoginConnected
        by (simp add: login_wf_def login_send_def)
      with assms keep show ?thesis
        using Some LoginConnected
        by (auto simp: login_handler_def login_on_event_def login_connected_on_event_def
            split: prod.splits option.splits login_cs.splits list.splits) (metis fst_conv)+
    next
      case LoginAuthenticated
      with assms Some show ?thesis by (simp add: login_handler_def login_on_event_def)
    qed
  qed
qed

text \<open>
  the fate of a login. A connected session answers a login exactly once and repeats the verdict of the login
  service; it goes on, in the authenticated state, exactly if the verdict is good and the gateway knows a
  lobby, and otherwise it is closed, also after a mere wrong password.
\<close>

theorem login_answered_once:
  assumes "login_wf s" and "currentState (lg_machine s) = Some LoginConnected" and "lg_alive s"
  shows "\<exists>token ip port. case login_handler env (Login account password) s of (continue, s') \<Rightarrow>
    lg_sent s' = lg_sent s @ [LoginResult (fst (login_answer (env (lg_sent s)))) token ip port]
    \<and> (continue \<longleftrightarrow> fst (login_answer (env (lg_sent s))) \<and> addresses_answer (env (lg_sent s)) \<noteq> [])
    \<and> (currentState (lg_machine s') = Some LoginAuthenticated \<longleftrightarrow> continue)
    \<and> (lg_closed s' \<longleftrightarrow> \<not> continue \<or> lg_closed s)"
proof -
  obtain success token where a: "login_answer (env (lg_sent s)) = (success, token)" by fastforce
  have t: "login_transition (login_send x s) =
    ((login_send x s)\<lparr>lg_machine := (lg_machine s)\<lparr>currentState := Some LoginAuthenticated,
       currentTransition := Some LoginAuthenticated\<rparr>, lg_close_scheduled := True\<rparr>, None)" for x
    using login_transition_eq [of "login_send x s"] assms by (simp add: login_wf_def login_send_def)
  show ?thesis
  proof (cases "success \<and> addresses_answer (env (lg_sent s)) \<noteq> []")
    case True
    then obtain ip port rest where "addresses_answer (env (lg_sent s)) = (ip, port) # rest"
      by (metis list.exhaust surj_pair)
    with True a assms t show ?thesis
      by (intro exI [of _ token] exI [of _ ip] exI [of _ port])
        (simp add: login_handler_def login_on_event_def login_connected_on_event_def login_send_def)
  next
    case False
    with a assms show ?thesis
      by (intro exI [of _ "[]"] exI [of _ "[]"] exI [of _ 0])
        (auto simp: login_handler_def login_on_event_def login_connected_on_event_def login_send_def
          login_close_def split: list.splits)
  qed
qed

definition sample_login_env :: "login_sc list \<Rightarrow> login_answers" where
  "sample_login_env sent = \<lparr>login_answer = (True, [7]), addresses_answer = [([49], 8)], create_answer = True\<rparr>"

theorem login_answered_once_witness:
  "fst (login_handler sample_login_env (Login [] []) login_session_new)
   \<and> currentState (lg_machine (snd (login_handler sample_login_env (Login [] []) login_session_new)))
     = Some LoginAuthenticated"
proof -
  have "currentState (lg_machine login_session_new) = Some LoginConnected" "lg_alive login_session_new"
    by (simp_all add: login_session_new_def login_machine_def add_state_def state_machine_new_def Let_def)
  from login_answered_once [OF login_new_wf this, of sample_login_env "[]" "[]"]
  show ?thesis by (auto simp: sample_login_env_def)
qed

end
