(* ===== verification/Scheduler.thy ===== *)
theory Scheduler
  imports Prelude "HOL-Library.Product_Lexorder"
begin

text \<open>
  \<^verbatim>\<open>xr/server/game/instance/task/game_task_scheduler.cpp\<close>: the scheduler that runs the tasks of a game
  instance on a pool of threads. A task locks the entities it names, its resources; every controller (a player, a
  monster) is a process with a queue of tasks of which one runs at a time; a task without a controller
  gets a process of its own. Everything here runs on the strand of the instance; a task itself runs elsewhere between
  \<^verbatim>\<open>Start\<close> and the event \<open>Finish\<close>.

  The theory proves that two tasks that run at the same time never share an entity, that the tasks of a
  controller start in the order they were scheduled, that no operation fails (the functions in flight find the process and
  the task they were posted with), that the loop that starts tasks leaves no task behind that
  could be started, and that a controller that is removed while it has a reservation blocks the entity.
\<close>

subsection \<open>State\<close>

text \<open>A task: its name, \<^verbatim>\<open>GetCreationTimePoint\<close> and \<^verbatim>\<open>GetTargetIds\<close>.\<close>

record game_task =
  taskName :: nat
  creationTime :: int
  targetIds :: "int list"

datatype proc_state = Running | Ready | Waiting

record process =
  processId :: int
  proc_task :: "game_task option"
  taskQueueId :: "int option"
  priority :: int
  proc_state :: proc_state
  starvationCount :: int
  terminateReserved :: bool

record resource =
  assigned :: bool
  acquired :: "nat option"
  reserved :: "nat set"

text \<open>
  A pointer to a process is an address; \<open>memory\<close> holds the processes, \<open>recycled\<close> the addresses of
  \<^verbatim>\<open>_processesRecycleBuffer\<close>. The sets of \<^verbatim>\<open>_states\<close> are ordered by priority and address and kept here as
  lists in that order. The other recycle buffer only keeps nodes of those sets from being allocated again.

  \<open>posted\<close> holds the functions that \<^verbatim>\<open>Start\<close> has posted and that have not come back to the strand, each by the pointer
  to a process it has captured; \<open>completing\<close> those that are back and are in \<^verbatim>\<open>task->Complete\<close>, with \<^verbatim>\<open>OnComplete\<close> to follow.

  \<open>accepted_tasks\<close> and \<open>started_tasks\<close> are not in the program: they record, for each process, what was scheduled
  and what was started since it was made.
\<close>

record scheduler =
  sched_shutdown :: bool
  joinPromise :: "bool option"
  totalTaskCount :: int
  completeTaskCount :: int
  nextTempProcessId :: int
  nextRecycleProcessId :: int
  resources :: "int \<rightharpoonup> resource"
  taskQueues :: "int \<rightharpoonup> game_task list"
  processes :: "int \<rightharpoonup> nat"
  memory :: "nat \<Rightarrow> process"
  recycled :: "nat list"
  stateSets :: "proc_state \<Rightarrow> nat list"
  posted :: "nat list"
  completing :: "nat list"
  accepted_tasks :: "int \<Rightarrow> game_task list"
  started_tasks :: "int \<Rightarrow> game_task list"

definition process_new :: "int \<Rightarrow> process" where
  "process_new i =
     \<lparr>processId = i, proc_task = None, taskQueueId = None, priority = 0, proc_state = Waiting,
      starvationCount = 0, terminateReserved = False\<rparr>"

definition resource_new :: resource where
  "resource_new = \<lparr>assigned = False, acquired = None, reserved = {}\<rparr>"

definition scheduler_new :: scheduler where
  "scheduler_new =
     \<lparr>sched_shutdown = False, joinPromise = None, totalTaskCount = 0, completeTaskCount = 0,
      nextTempProcessId = -1, nextRecycleProcessId = 0, resources = Map.empty, taskQueues = Map.empty,
      processes = Map.empty, memory = (\<lambda>_. process_new 0), recycled = [], stateSets = (\<lambda>_. []),
      posted = [], completing = [], accepted_tasks = (\<lambda>_. []), started_tasks = (\<lambda>_. [])\<rparr>"

abbreviation set_process :: "nat \<Rightarrow> process \<Rightarrow> scheduler \<Rightarrow> scheduler" where
  "set_process a p s \<equiv> s\<lparr>memory := (memory s)(a := p)\<rparr>"

text \<open>\<^verbatim>\<open>Process::Compare\<close> as the key of an ordered insertion, and \<^verbatim>\<open>extract\<close>.\<close>

definition state_insert :: "proc_state \<Rightarrow> nat \<Rightarrow> scheduler \<Rightarrow> scheduler" where
  "state_insert st a s =
     s\<lparr>stateSets := (stateSets s)(st := insort_key (\<lambda>b. (priority (memory s b), b)) a (stateSets s st))\<rparr>"

definition state_extract :: "proc_state \<Rightarrow> nat \<Rightarrow> scheduler \<Rightarrow> scheduler" where
  "state_extract st a s = s\<lparr>stateSets := (stateSets s)(st := remove1 a (stateSets s st))\<rparr>"

definition change_process_state :: "nat \<Rightarrow> proc_state \<Rightarrow> bool \<Rightarrow> game_task option \<Rightarrow> scheduler \<Rightarrow> scheduler" where
  "change_process_state a newState setTask t s =
     (let s1 = state_extract (proc_state (memory s a)) a s;
          p = memory s1 a;
          p1 = (if setTask
                then p\<lparr>proc_task := t,
                       priority := (case t of None \<Rightarrow> priority p | Some x \<Rightarrow> creationTime x)\<rparr>
                else p);
          s2 = state_insert newState a (set_process a p1 s1)
      in set_process a (p1\<lparr>proc_state := newState, starvationCount := 0\<rparr>) s2)"

subsection \<open>Resources\<close>

definition can_acquire :: "nat \<Rightarrow> resource option \<Rightarrow> bool" where
  "can_acquire a r =
     (case r of
        None \<Rightarrow> True
      | Some x \<Rightarrow> \<not> assigned x \<and> (reserved x = {} \<or> a \<in> reserved x))"

definition can_start :: "nat \<Rightarrow> scheduler \<Rightarrow> bool" where
  "can_start a s =
     (case proc_task (memory s a) of
        None \<Rightarrow> False
      | Some t \<Rightarrow> list_all (\<lambda>i. can_acquire a (resources s i)) (targetIds t))"

definition on_resource :: "(resource \<Rightarrow> resource) \<Rightarrow> int \<Rightarrow> (int \<rightharpoonup> resource) \<Rightarrow> (int \<rightharpoonup> resource)" where
  "on_resource f i m = (case m i of None \<Rightarrow> m | Some r \<Rightarrow> m(i \<mapsto> f r))"

definition targets_of :: "nat \<Rightarrow> scheduler \<Rightarrow> int list" where
  "targets_of a s = (case proc_task (memory s a) of None \<Rightarrow> [] | Some t \<Rightarrow> targetIds t)"

definition reserve_resource :: "nat \<Rightarrow> scheduler \<Rightarrow> scheduler" where
  "reserve_resource a s =
     s\<lparr>resources := fold (on_resource (\<lambda>r. r\<lparr>reserved := insert a (reserved r)\<rparr>)) (targets_of a s) (resources s)\<rparr>"

definition allocate_resource :: "nat \<Rightarrow> scheduler \<Rightarrow> scheduler" where
  "allocate_resource a s =
     s\<lparr>resources := fold (on_resource (\<lambda>r. r\<lparr>assigned := True, acquired := Some a, reserved := reserved r - {a}\<rparr>))
        (targets_of a s) (resources s)\<rparr>"

definition deallocate_resource :: "game_task \<Rightarrow> scheduler \<Rightarrow> scheduler" where
  "deallocate_resource t s =
     s\<lparr>resources := fold (on_resource (\<lambda>r. r\<lparr>assigned := False, acquired := None\<rparr>)) (targetIds t) (resources s)\<rparr>"

subsection \<open>Processes\<close>

text \<open>\<^verbatim>\<open>CreateProcess\<close>: the address is the one of a recycled process if there is any, else a new one.\<close>

definition address_ok :: "nat \<Rightarrow> scheduler \<Rightarrow> bool" where
  "address_ok a s \<longleftrightarrow>
     (if recycled s = [] then list_all (\<lambda>st. a \<notin> set (stateSets s st)) [Running, Ready, Waiting]
      else a \<in> set (recycled s))"

definition create_process :: "int \<Rightarrow> nat \<Rightarrow> scheduler \<Rightarrow> scheduler" where
  "create_process i a s =
     (let s1 = s\<lparr>recycled := remove1 a (recycled s), processes := (processes s)(i \<mapsto> a),
                 accepted_tasks := (accepted_tasks s)(i := []), started_tasks := (started_tasks s)(i := [])\<rparr>
      in state_insert Waiting a (set_process a (process_new i) s1))"

definition exit_process :: "nat \<Rightarrow> scheduler \<Rightarrow> scheduler" where
  "exit_process a s =
     (let i = nextRecycleProcessId s + 1;
          p = memory s a;
          s1 = state_extract (proc_state p) a (s\<lparr>nextRecycleProcessId := i\<rparr>);
          s2 = (case taskQueueId p of None \<Rightarrow> s1 | Some q \<Rightarrow> s1\<lparr>taskQueues := (taskQueues s1)(q := None)\<rparr>)
      in set_process a (p\<lparr>processId := i\<rparr>)
           (s2\<lparr>processes := (processes s2)(processId p := None), recycled := recycled s2 @ [a]\<rparr>))"

text \<open>\<^verbatim>\<open>Start\<close>, up to the task itself, which runs on the pool: the function that runs it is posted with the process.\<close>

definition start_process :: "nat \<Rightarrow> scheduler \<Rightarrow> scheduler" where
  "start_process a s =
     (let i = processId (memory s a)
      in (allocate_resource a s)\<lparr>posted := posted s @ [a], started_tasks := (started_tasks s)
            (i := started_tasks s i @ (case proc_task (memory s a) of None \<Rightarrow> [] | Some t \<Rightarrow> [t]))\<rparr>)"

text \<open>
  The loop of \<^verbatim>\<open>TryStartAll\<close>. Starting a process takes it out of the ready set and nothing else is put in or taken
  out, so the loop visits the processes that were ready when it began, in order.
\<close>

fun try_start_loop :: "int \<Rightarrow> int \<Rightarrow> nat list \<Rightarrow> scheduler \<Rightarrow> scheduler" where
  "try_start_loop maxConcurrency concurrency [] s = s"
| "try_start_loop maxConcurrency concurrency (a # as) s =
     (if concurrency \<ge> maxConcurrency then s
      else if can_start a s
      then try_start_loop maxConcurrency (concurrency + 1) as
             (start_process a (change_process_state a Running False None s))
      else
        let p = memory s a;
            s1 = set_process a (p\<lparr>starvationCount := starvationCount p + 1\<rparr>) s
        in try_start_loop maxConcurrency concurrency as
             (if starvationCount p + 1 > 10 then reserve_resource a s1 else s1))"

definition try_start_all :: "int \<Rightarrow> scheduler \<Rightarrow> scheduler" where
  "try_start_all executors s =
     try_start_loop (max 1 executors) (int (length (stateSets s Running))) (stateSets s Ready) s"

text \<open>\<^verbatim>\<open>Schedule\<close>; \<open>prepared\<close> is what \<^verbatim>\<open>Prepare\<close> answers, the address that of a process it may create.\<close>

definition schedule_ready :: "nat \<Rightarrow> game_task \<Rightarrow> scheduler \<Rightarrow> scheduler" where
  "schedule_ready a t s =
     (let s1 = change_process_state a Ready True (Some t) s
      in if can_start a s1 then start_process a (change_process_state a Running False None s1) else s1)"

definition schedule_on :: "nat \<Rightarrow> game_task \<Rightarrow> scheduler \<Rightarrow> fault + scheduler" where
  "schedule_on a t s =
     (let i = processId (memory s a);
          s1 = s\<lparr>totalTaskCount := totalTaskCount s + 1,
                 accepted_tasks := (accepted_tasks s)(i := accepted_tasks s i @ [t])\<rparr>
      in case proc_state (memory s a) of
           Waiting \<Rightarrow> Inr (schedule_ready a t s1)
         | _ \<Rightarrow>
             (case taskQueues s1 i of
                None \<Rightarrow> Inl UseAfterFree
              | Some q \<Rightarrow> Inr (s1\<lparr>taskQueues := (taskQueues s1)(i \<mapsto> q @ [t])\<rparr>)))"

definition schedule_task ::
  "game_task \<Rightarrow> int option \<Rightarrow> bool \<Rightarrow> nat \<Rightarrow> scheduler \<Rightarrow> fault + scheduler" where
  "schedule_task t controllerId prepared a s =
     (if sched_shutdown s \<or> \<not> prepared then Inr s
      else case controllerId of
        Some c \<Rightarrow>
          (case processes s c of
             Some p \<Rightarrow> schedule_on p t s
           | None \<Rightarrow> Inr s)
      | None \<Rightarrow>
          (let i = nextTempProcessId s - 1
           in schedule_on a t (create_process i a (s\<lparr>nextTempProcessId := i\<rparr>))))"

definition add_controller :: "int \<Rightarrow> nat \<Rightarrow> scheduler \<Rightarrow> scheduler" where
  "add_controller c a s =
     (case taskQueues s c of
        Some _ \<Rightarrow> s
      | None \<Rightarrow>
          let s1 = create_process c a (s\<lparr>taskQueues := (taskQueues s)(c \<mapsto> [])\<rparr>)
          in set_process a ((memory s1 a)\<lparr>taskQueueId := Some c\<rparr>) s1)"

definition remove_controller :: "int \<Rightarrow> scheduler \<Rightarrow> scheduler" where
  "remove_controller c s =
     (case processes s c of
        None \<Rightarrow> s
      | Some a \<Rightarrow>
          if proc_state (memory s a) = Running
          then set_process a ((memory s a)\<lparr>terminateReserved := True\<rparr>) s
          else exit_process a s)"

definition add_entity :: "int \<Rightarrow> scheduler \<Rightarrow> scheduler" where
  "add_entity i s =
     (case resources s i of None \<Rightarrow> s\<lparr>resources := (resources s)(i \<mapsto> resource_new)\<rparr> | Some _ \<Rightarrow> s)"

definition remove_entity :: "int \<Rightarrow> scheduler \<Rightarrow> scheduler" where
  "remove_entity i s = s\<lparr>resources := (resources s)(i := None)\<rparr>"

text \<open>What runs on the strand when a task has ended: \<^verbatim>\<open>ReleaseTask\<close>, \<^verbatim>\<open>DeallocateResource\<close>; then the task completes, which
  may call the scheduler, and then \<^verbatim>\<open>OnComplete\<close>.\<close>

definition finish_task :: "nat \<Rightarrow> scheduler \<Rightarrow> fault + scheduler" where
  "finish_task a s =
     (case proc_task (memory s a) of
        None \<Rightarrow> Inl NullDeref
      | Some t \<Rightarrow> Inr (deallocate_resource t (set_process a ((memory s a)\<lparr>proc_task := None\<rparr>) s)))"

definition on_complete :: "int \<Rightarrow> nat \<Rightarrow> scheduler \<Rightarrow> scheduler" where
  "on_complete executors a s =
     (let p = memory s a;
          s1 = s\<lparr>totalTaskCount := totalTaskCount s - 1, completeTaskCount := completeTaskCount s + 1\<rparr>;
          queue = (case taskQueueId p of None \<Rightarrow> None | Some q \<Rightarrow> map_option (Pair q) (taskQueues s1 q));
          s2 = (case (queue, terminateReserved p) of
                  (Some (q, []), False) \<Rightarrow> change_process_state a Waiting True None s1
                | (Some (q, t # ts), False) \<Rightarrow>
                    change_process_state a Ready True (Some t) (s1\<lparr>taskQueues := (taskQueues s1)(q \<mapsto> ts)\<rparr>)
                | _ \<Rightarrow> exit_process a s1)
      in if sched_shutdown s2
         then (if stateSets s2 Running = [] \<and> joinPromise s2 \<noteq> None then s2\<lparr>joinPromise := Some True\<rparr> else s2)
         else try_start_all executors s2)"

text \<open>\<^verbatim>\<open>OnComplete\<close> with what it asserts.\<close>

definition complete_task :: "int \<Rightarrow> nat \<Rightarrow> scheduler \<Rightarrow> fault + scheduler" where
  "complete_task executors a s =
     (if proc_state (memory s a) = Running \<and> proc_task (memory s a) = None then Inr (on_complete executors a s)
      else Inl (RuntimeError ''assertion failed''))"

text \<open>\<^verbatim>\<open>Join\<close> up to where it waits; the flag tells whether it returned.\<close>

definition join_scheduler :: "scheduler \<Rightarrow> bool \<times> scheduler" where
  "join_scheduler s =
     (if stateSets s Running = [] then (True, s) else (False, s\<lparr>joinPromise := Some False\<rparr>))"

subsection \<open>Runs\<close>

datatype sched_event =
    AddController int nat
  | RemoveController int
  | AddEntity int
  | RemoveEntity int
  | Schedule game_task "int option" bool nat
  | Finish nat
  | Completed nat
  | ShutdownScheduler
  | JoinScheduler

fun sched_step :: "int \<Rightarrow> sched_event \<Rightarrow> scheduler \<Rightarrow> fault + scheduler" where
  "sched_step executors (AddController c a) s = Inr (add_controller c a s)"
| "sched_step executors (RemoveController c) s = Inr (remove_controller c s)"
| "sched_step executors (AddEntity i) s = Inr (add_entity i s)"
| "sched_step executors (RemoveEntity i) s = Inr (remove_entity i s)"
| "sched_step executors (Schedule t c prepared a) s = schedule_task t c prepared a s"
| "sched_step executors (Finish a) s =
     finish_task a (s\<lparr>posted := remove1 a (posted s), completing := a # completing s\<rparr>)"
| "sched_step executors (Completed a) s =
     complete_task executors a (s\<lparr>completing := remove1 a (completing s)\<rparr>)"
| "sched_step executors ShutdownScheduler s = Inr (s\<lparr>sched_shutdown := True\<rparr>)"
| "sched_step executors JoinScheduler s = Inr (snd (join_scheduler s))"

text \<open>
  What the surroundings keep to: identifiers of controllers are not negative, the identifier of a new entity is not
  named by a task that is running (entities are numbered by the generator of unique ids), a new process is not where
  another one is. The end of a task is that of a function that was posted, once, and \<^verbatim>\<open>OnComplete\<close> is called
  by such a function: whether the process it has captured is still there, runs and has its task is not asked.
\<close>

fun sched_allowed :: "sched_event \<Rightarrow> scheduler \<Rightarrow> bool" where
  "sched_allowed (AddController c a) s \<longleftrightarrow> 0 \<le> c \<and> address_ok a s"
| "sched_allowed (RemoveController c) s \<longleftrightarrow> 0 \<le> c"
| "sched_allowed (AddEntity i) s \<longleftrightarrow> list_all (\<lambda>a. i \<notin> set (targets_of a s)) (stateSets s Running)"
| "sched_allowed (Schedule t c prepared a) s \<longleftrightarrow> (case c of None \<Rightarrow> address_ok a s | Some k \<Rightarrow> 0 \<le> k)"
| "sched_allowed (Finish a) s \<longleftrightarrow> a \<in> set (posted s)"
| "sched_allowed (Completed a) s \<longleftrightarrow> a \<in> set (completing s)"
| "sched_allowed _ s \<longleftrightarrow> True"

inductive sched_reach :: "int \<Rightarrow> scheduler \<Rightarrow> bool" for executors where
  init: "sched_reach executors scheduler_new"
| step: "sched_reach executors s \<Longrightarrow> sched_allowed e s \<Longrightarrow> sched_step executors e s = Inr s' \<Longrightarrow> sched_reach executors s'"

fun sched_run :: "int \<Rightarrow> sched_event list \<Rightarrow> scheduler \<Rightarrow> fault + scheduler" where
  "sched_run executors [] s = Inr s"
| "sched_run executors (e # es) s =
     (if sched_allowed e s then and_then (sched_step executors e s) (sched_run executors es)
      else Inl (RuntimeError ''not allowed''))"

subsection \<open>The invariant\<close>

definition alive :: "scheduler \<Rightarrow> nat \<Rightarrow> bool" where
  "alive s a \<longleftrightarrow> (\<exists>i. processes s i = Some a)"

text \<open>Processes, their states and their tasks.\<close>

definition proc_wf :: "scheduler \<Rightarrow> bool" where
  "proc_wf s \<longleftrightarrow>
     (\<forall>i a. processes s i = Some a \<longrightarrow> processId (memory s a) = i)
     \<and> (\<forall>st. distinct (stateSets s st))
     \<and> (\<forall>st a. a \<in> set (stateSets s st) \<longleftrightarrow> alive s a \<and> proc_state (memory s a) = st)
     \<and> (\<forall>a. alive s a \<longrightarrow> (proc_state (memory s a) = Ready \<longrightarrow> proc_task (memory s a) \<noteq> None)
          \<and> (proc_state (memory s a) = Waiting \<longrightarrow> proc_task (memory s a) = None))
     \<and> (\<forall>a \<in> set (recycled s). \<not> alive s a) \<and> distinct (recycled s)"

text \<open>The processes of controllers, with their queues, and those made for a single task.\<close>

definition queue_wf :: "scheduler \<Rightarrow> bool" where
  "queue_wf s \<longleftrightarrow> nextTempProcessId s < 0
     \<and> (\<forall>i a. processes s i = Some a \<longrightarrow>
          (0 \<le> i \<longrightarrow> taskQueueId (memory s a) = Some i \<and> taskQueues s i \<noteq> None)
          \<and> (i < 0 \<longrightarrow> taskQueueId (memory s a) = None \<and> nextTempProcessId s \<le> i))
     \<and> (\<forall>q. taskQueues s q \<noteq> None \<longrightarrow> 0 \<le> q \<and> processes s q \<noteq> None)"

text \<open>An entity is assigned to the running process whose task names it, and to no other.\<close>

definition resource_wf :: "scheduler \<Rightarrow> bool" where
  "resource_wf s \<longleftrightarrow> (\<forall>i r. resources s i = Some r \<longrightarrow>
     (assigned r \<longleftrightarrow> acquired r \<noteq> None)
     \<and> (\<forall>a. acquired r = Some a \<longleftrightarrow> a \<in> set (stateSets s Running) \<and> i \<in> set (targets_of a s)))"

text \<open>What was scheduled for a controller was started, is ready, or waits in the queue, in that order.\<close>

definition waiting_tasks :: "scheduler \<Rightarrow> int \<Rightarrow> nat \<Rightarrow> game_task list" where
  "waiting_tasks s i a =
     (if proc_state (memory s a) = Ready then (case proc_task (memory s a) of None \<Rightarrow> [] | Some t \<Rightarrow> [t]) else [])
     @ (case taskQueues s i of None \<Rightarrow> [] | Some q \<Rightarrow> q)"

definition order_wf :: "scheduler \<Rightarrow> bool" where
  "order_wf s \<longleftrightarrow> (\<forall>i a. processes s i = Some a \<longrightarrow>
     accepted_tasks s i = started_tasks s i @ waiting_tasks s i a
     \<and> (proc_state (memory s a) = Waiting \<longrightarrow> waiting_tasks s i a = []))"

definition sched_inv :: "scheduler \<Rightarrow> bool" where
  "sched_inv s \<longleftrightarrow> proc_wf s \<and> queue_wf s \<and> resource_wf s \<and> order_wf s"

lemma sched_inv_new: "sched_inv scheduler_new"
  by (simp add: sched_inv_def proc_wf_def queue_wf_def resource_wf_def order_wf_def scheduler_new_def alive_def)

subsection \<open>Single operations\<close>

lemma proc_wfD:
  assumes "proc_wf s"
  shows "processes s i = Some a \<Longrightarrow> processId (memory s a) = i"
    and "distinct (stateSets s st)"
    and "a \<in> set (stateSets s st) \<longleftrightarrow> alive s a \<and> proc_state (memory s a) = st"
    and "alive s a \<Longrightarrow> proc_state (memory s a) = Ready \<Longrightarrow> proc_task (memory s a) \<noteq> None"
    and "alive s a \<Longrightarrow> proc_state (memory s a) = Waiting \<Longrightarrow> proc_task (memory s a) = None"
    and "a \<in> set (recycled s) \<Longrightarrow> \<not> alive s a"
    and "distinct (recycled s)"
  using assms unfolding proc_wf_def by blast+

lemma live_process: "proc_wf s \<Longrightarrow> alive s a \<Longrightarrow> processes s (processId (memory s a)) = Some a"
  by (auto simp: alive_def dest: proc_wfD(1))

lemma processes_inj: "proc_wf s \<Longrightarrow> processes s i = Some a \<Longrightarrow> processes s j = Some a \<Longrightarrow> i = j"
  by (metis proc_wfD(1))

text \<open>The effect of \<^verbatim>\<open>ChangeState\<close>.\<close>

lemma change_process_fields [simp]:
  "processes (change_process_state a st setTask t s) = processes s"
  "resources (change_process_state a st setTask t s) = resources s"
  "taskQueues (change_process_state a st setTask t s) = taskQueues s"
  "recycled (change_process_state a st setTask t s) = recycled s"
  "accepted_tasks (change_process_state a st setTask t s) = accepted_tasks s"
  "started_tasks (change_process_state a st setTask t s) = started_tasks s"
  "nextTempProcessId (change_process_state a st setTask t s) = nextTempProcessId s"
  "sched_shutdown (change_process_state a st setTask t s) = sched_shutdown s"
  by (simp_all add: change_process_state_def state_extract_def state_insert_def Let_def)

lemma change_process_memory [simp]:
  "b \<noteq> a \<Longrightarrow> memory (change_process_state a st setTask t s) b = memory s b"
  "processId (memory (change_process_state a st setTask t s) a) = processId (memory s a)"
  "taskQueueId (memory (change_process_state a st setTask t s) a) = taskQueueId (memory s a)"
  "terminateReserved (memory (change_process_state a st setTask t s) a) = terminateReserved (memory s a)"
  "proc_task (memory (change_process_state a st setTask t s) a) = (if setTask then t else proc_task (memory s a))"
  "proc_state (memory (change_process_state a st setTask t s) a) = st"
  by (simp_all add: change_process_state_def state_extract_def state_insert_def Let_def)

lemma change_process_sets:
  assumes "proc_wf s" and "alive s a" and "proc_state (memory s a) \<noteq> st"
  shows "b \<in> set (stateSets (change_process_state a st setTask t s) x) \<longleftrightarrow>
      (if b = a then x = st else b \<in> set (stateSets s x))"
    and "distinct (stateSets (change_process_state a st setTask t s) x)"
  using assms proc_wfD(2,3) [OF assms(1)]
  by (auto simp: change_process_state_def state_extract_def state_insert_def Let_def set_insort_key
      distinct_insort distinct_remove1)

lemma change_process_live [simp]: "alive (change_process_state a st setTask t s) b \<longleftrightarrow> alive s b"
  by (simp add: alive_def)

lemma change_process_wf:
  assumes "proc_wf s" and "alive s a" and "proc_state (memory s a) \<noteq> st"
    and "st = Ready \<Longrightarrow> setTask \<and> t \<noteq> None" and "st = Waiting \<Longrightarrow> setTask \<and> t = None"
  shows "proc_wf (change_process_state a st setTask t s)"
  unfolding proc_wf_def
proof (intro conjI allI impI ballI)
  let ?s = "change_process_state a st setTask t s"
  show "processId (memory ?s b) = i" if "processes ?s i = Some b" for i b
    using that proc_wfD(1) [OF assms(1)] by (cases "b = a") auto
  show "distinct (stateSets ?s x)" for x by (rule change_process_sets(2) [OF assms(1-3)])
  show "b \<in> set (stateSets ?s x) \<longleftrightarrow> alive ?s b \<and> proc_state (memory ?s b) = x" for x b
    using change_process_sets(1) [OF assms(1-3)] proc_wfD(3) [OF assms(1)] assms(2) by (cases "b = a") auto
  show "proc_task (memory ?s b) \<noteq> None" if "alive ?s b" "proc_state (memory ?s b) = Ready" for b
    using that assms(4) proc_wfD(4) [OF assms(1)] by (cases "b = a") auto
  show "proc_task (memory ?s b) = None" if "alive ?s b" "proc_state (memory ?s b) = Waiting" for b
    using that assms(5) proc_wfD(5) [OF assms(1)] by (cases "b = a") auto
  show "\<not> alive ?s b" if "b \<in> set (recycled ?s)" for b
    using that proc_wfD(6) [OF assms(1)] by simp
  show "distinct (recycled ?s)" using proc_wfD(7) [OF assms(1)] by simp
qed

lemma change_process_queue_wf:
  assumes "queue_wf s"
  shows "queue_wf (change_process_state a st setTask t s)"
proof -
  have "taskQueueId (memory (change_process_state a st setTask t s) b) = taskQueueId (memory s b)" for b
    by (cases "b = a") auto
  with assms show ?thesis by (simp add: queue_wf_def)
qed

lemma fold_on_resource:
  assumes "\<And>r. f (f r) = f r"
  shows "fold (on_resource f) ids m i = (if i \<in> set ids then map_option f (m i) else m i)"
proof (induction ids arbitrary: m)
  case (Cons j ids)
  have one: "on_resource f j m k = (if k = j then map_option f (m k) else m k)" for k
    by (simp add: on_resource_def split: option.splits)
  have "map_option f (map_option f x) = map_option f x" for x
    using assms by (cases x) simp_all
  then show ?case by (simp add: Cons.IH one)
qed simp

lemma allocate_resource_eq:
  "resources (allocate_resource a s) i =
     (if i \<in> set (targets_of a s)
      then map_option (\<lambda>r. r\<lparr>assigned := True, acquired := Some a, reserved := reserved r - {a}\<rparr>) (resources s i)
      else resources s i)"
  by (simp add: allocate_resource_def fold_on_resource)

lemma deallocate_resource_eq:
  "resources (deallocate_resource t s) i =
     (if i \<in> set (targetIds t) then map_option (\<lambda>r. r\<lparr>assigned := False, acquired := None\<rparr>) (resources s i)
      else resources s i)"
  by (simp add: deallocate_resource_def fold_on_resource)

lemma reserve_resource_eq:
  "resources (reserve_resource a s) i =
     (if i \<in> set (targets_of a s) then map_option (\<lambda>r. r\<lparr>reserved := insert a (reserved r)\<rparr>) (resources s i)
      else resources s i)"
  by (simp add: reserve_resource_def fold_on_resource)

lemma allocate_fields [simp]:
  "memory (allocate_resource a s) = memory s" "processes (allocate_resource a s) = processes s"
  "stateSets (allocate_resource a s) = stateSets s" "taskQueues (allocate_resource a s) = taskQueues s"
  "recycled (allocate_resource a s) = recycled s" "accepted_tasks (allocate_resource a s) = accepted_tasks s"
  "started_tasks (allocate_resource a s) = started_tasks s"
  "nextTempProcessId (allocate_resource a s) = nextTempProcessId s"
  by (simp_all add: allocate_resource_def)

lemma start_process_fields [simp]:
  "memory (start_process a s) = memory s" "processes (start_process a s) = processes s"
  "stateSets (start_process a s) = stateSets s" "taskQueues (start_process a s) = taskQueues s"
  "recycled (start_process a s) = recycled s" "accepted_tasks (start_process a s) = accepted_tasks s"
  "nextTempProcessId (start_process a s) = nextTempProcessId s"
  "resources (start_process a s) = resources (allocate_resource a s)"
  by (simp_all add: start_process_def Let_def)

lemma resource_wfD:
  assumes "resource_wf s" and "resources s i = Some r"
  shows "assigned r \<longleftrightarrow> acquired r \<noteq> None"
    and "acquired r = Some a \<longleftrightarrow> a \<in> set (stateSets s Running) \<and> i \<in> set (targets_of a s)"
  using assms by (auto simp: resource_wf_def)

lemma order_wfD:
  assumes "order_wf s" and "processes s i = Some a"
  shows "accepted_tasks s i = started_tasks s i @ waiting_tasks s i a"
    and "proc_state (memory s a) = Waiting \<Longrightarrow> waiting_tasks s i a = []"
  using assms by (auto simp: order_wf_def)

text \<open>A ready process that can start does start.\<close>

abbreviation started :: "nat \<Rightarrow> scheduler \<Rightarrow> scheduler" where
  "started a s \<equiv> start_process a (change_process_state a Running False None s)"

lemma started_targets [simp]: "targets_of b (started a s) = targets_of b s"
  by (cases "b = a") (simp_all add: targets_of_def)

lemma started_resource_wf:
  assumes "sched_inv s" and "a \<in> set (stateSets s Ready)" and "can_start a s"
  shows "resource_wf (started a s)"
  unfolding resource_wf_def
proof (intro allI impI)
  fix i r assume r: "resources (started a s) i = Some r"
  have wf: "proc_wf s" and res: "resource_wf s" using assms(1) by (simp_all add: sched_inv_def)
  have a: "alive s a" "proc_state (memory s a) = Ready" using assms(2) proc_wfD(3) [OF wf] by auto
  then have notin: "a \<notin> set (stateSets s Running)" using proc_wfD(3) [OF wf] by auto
  have sets: "b \<in> set (stateSets (change_process_state a Running False None s) Running)
      \<longleftrightarrow> b = a \<or> b \<in> set (stateSets s Running)" for b
    using change_process_sets(1) [OF wf a(1), of Running b False None Running] a(2) by simp
  have t: "targets_of a (change_process_state a Running False None s) = targets_of a s" by (simp add: targets_of_def)
  show "(assigned r \<longleftrightarrow> acquired r \<noteq> None)
    \<and> (\<forall>b. acquired r = Some b \<longleftrightarrow> b \<in> set (stateSets (started a s) Running) \<and> i \<in> set (targets_of b (started a s)))"
  proof (cases "i \<in> set (targets_of a s)")
    case True
    with r t obtain r0 where r0: "resources s i = Some r0" "assigned r" "acquired r = Some a"
      by (auto simp: allocate_resource_eq)
    from assms(3) True r0(1) have "\<not> assigned r0"
      by (auto simp: can_start_def targets_of_def list_all_iff can_acquire_def split: option.splits)
    with resource_wfD [OF res r0(1)] have "b \<in> set (stateSets s Running) \<Longrightarrow> i \<notin> set (targets_of b s)" for b by auto
    with True r0 show ?thesis by (auto simp: sets)
  next
    case False
    with r t have r0: "resources s i = Some r" by (simp add: allocate_resource_eq)
    from resource_wfD [OF res r0] False notin show ?thesis by (auto simp: sets)
  qed
qed

lemma proc_wf_cong:
  "processes s' = processes s \<Longrightarrow> memory s' = memory s \<Longrightarrow> stateSets s' = stateSets s \<Longrightarrow> recycled s' = recycled s
    \<Longrightarrow> proc_wf s \<Longrightarrow> proc_wf s'"
  by (simp add: proc_wf_def alive_def)

lemma queue_wf_cong:
  "processes s' = processes s \<Longrightarrow> (\<And>b. taskQueueId (memory s' b) = taskQueueId (memory s b))
    \<Longrightarrow> taskQueues s' = taskQueues s \<Longrightarrow> nextTempProcessId s' = nextTempProcessId s \<Longrightarrow> queue_wf s \<Longrightarrow> queue_wf s'"
  by (simp add: queue_wf_def)

lemma started_inv:
  assumes "sched_inv s" and "a \<in> set (stateSets s Ready)" and "can_start a s"
  shows "sched_inv (started a s)"
proof -
  let ?s = "change_process_state a Running False None s"
  have wf: "proc_wf s" "queue_wf s" "order_wf s" using assms(1) by (simp_all add: sched_inv_def)
  have a: "alive s a" "proc_state (memory s a) = Ready" using assms(2) proc_wfD(3) [OF wf(1)] by auto
  then obtain t where t: "proc_task (memory s a) = Some t" using proc_wfD(4) [OF wf(1)] by blast
  have "proc_wf ?s" by (rule change_process_wf [OF wf(1) a(1)]) (simp_all add: a)
  then have "proc_wf (started a s)" by (rule proc_wf_cong [rotated -1]) simp_all
  moreover have "queue_wf (started a s)"
    by (rule queue_wf_cong [OF _ _ _ _ change_process_queue_wf [OF wf(2)]]) simp_all
  moreover have "order_wf (started a s)"
    unfolding order_wf_def
  proof (intro allI impI)
    fix i b assume b: "processes (started a s) i = Some b"
    then have b': "processes s i = Some b" by simp
    note o = order_wfD [OF wf(3) b']
    show "accepted_tasks (started a s) i = started_tasks (started a s) i @ waiting_tasks (started a s) i b
      \<and> (proc_state (memory (started a s) b) = Waiting \<longrightarrow> waiting_tasks (started a s) i b = [])"
    proof (cases "b = a")
      case True
      with b' have "processId (memory s a) = i" using proc_wfD(1) [OF wf(1)] by simp
      with o True a t show ?thesis by (simp add: waiting_tasks_def start_process_def Let_def)
    next
      case False
      with b' have "processId (memory s a) \<noteq> i" using live_process [OF wf(1) a(1)] by auto
      with o False show ?thesis by (simp add: waiting_tasks_def start_process_def Let_def)
    qed
  qed
  ultimately show ?thesis using started_resource_wf [OF assms] by (simp add: sched_inv_def)
qed

text \<open>Counting starvation and reserving change nothing the invariant speaks of.\<close>

definition same_but_reserved :: "scheduler \<Rightarrow> scheduler \<Rightarrow> bool" where
  "same_but_reserved s s' \<longleftrightarrow>
     processes s' = processes s \<and> stateSets s' = stateSets s \<and> recycled s' = recycled s
     \<and> taskQueues s' = taskQueues s \<and> accepted_tasks s' = accepted_tasks s \<and> started_tasks s' = started_tasks s
     \<and> nextTempProcessId s' = nextTempProcessId s
     \<and> (\<forall>b. processId (memory s' b) = processId (memory s b) \<and> proc_task (memory s' b) = proc_task (memory s b)
          \<and> taskQueueId (memory s' b) = taskQueueId (memory s b) \<and> proc_state (memory s' b) = proc_state (memory s b))
     \<and> (\<forall>i. map_option assigned (resources s' i) = map_option assigned (resources s i)
          \<and> map_option acquired (resources s' i) = map_option acquired (resources s i))"

lemma same_but_reserved_inv:
  assumes "sched_inv s" and "same_but_reserved s s'"
  shows "sched_inv s'"
proof -
  have t: "targets_of b s' = targets_of b s" for b using assms(2) by (simp add: same_but_reserved_def targets_of_def)
  have w: "waiting_tasks s' i b = waiting_tasks s i b" for i b
    using assms(2) by (simp add: same_but_reserved_def waiting_tasks_def)
  have "resource_wf s'"
    unfolding resource_wf_def
  proof (intro allI impI)
    fix i r assume r: "resources s' i = Some r"
    with assms(2) obtain r0 where r0: "resources s i = Some r0" "assigned r0 = assigned r" "acquired r0 = acquired r"
      unfolding same_but_reserved_def by (metis map_option_eq_Some option.map(2) option.sel)
    have "resource_wf s" using assms(1) by (simp add: sched_inv_def)
    from resource_wfD [OF this r0(1)] r0 assms(2) t show "(assigned r \<longleftrightarrow> acquired r \<noteq> None)
        \<and> (\<forall>a. acquired r = Some a \<longleftrightarrow> a \<in> set (stateSets s' Running) \<and> i \<in> set (targets_of a s'))"
      by (simp add: same_but_reserved_def)
  qed
  moreover have "proc_wf s'"
    using assms by (simp add: sched_inv_def proc_wf_def same_but_reserved_def alive_def)
  moreover have "queue_wf s'" using assms by (simp add: sched_inv_def queue_wf_def same_but_reserved_def)
  moreover have "order_wf s'" using assms w by (simp add: sched_inv_def order_wf_def same_but_reserved_def)
  ultimately show ?thesis by (simp add: sched_inv_def)
qed

lemma same_but_reserved_starve:
  "same_but_reserved s (set_process a ((memory s a)\<lparr>starvationCount := n\<rparr>) s)"
  by (simp add: same_but_reserved_def)

lemma same_but_reserved_reserve: "same_but_reserved s (reserve_resource a s)"
proof -
  have "map_option assigned (resources (reserve_resource a s) i) = map_option assigned (resources s i)
    \<and> map_option acquired (resources (reserve_resource a s) i) = map_option acquired (resources s i)" for i
    by (cases "resources s i") (simp_all add: reserve_resource_eq)
  then show ?thesis by (simp add: same_but_reserved_def reserve_resource_def)
qed


lemma same_but_reserved_trans: "same_but_reserved s s1 \<Longrightarrow> same_but_reserved s1 s2 \<Longrightarrow> same_but_reserved s s2"
  by (simp add: same_but_reserved_def)

lemma same_but_reserved_sets: "same_but_reserved s s' \<Longrightarrow> stateSets s' = stateSets s"
  by (simp add: same_but_reserved_def)

subsection \<open>Starting what can start\<close>

definition passed_over :: "nat \<Rightarrow> scheduler \<Rightarrow> scheduler" where
  "passed_over a s =
     (let p = memory s a; s1 = set_process a (p\<lparr>starvationCount := starvationCount p + 1\<rparr>) s
      in if starvationCount p + 1 > 10 then reserve_resource a s1 else s1)"

lemma try_start_loop_Cons:
  "try_start_loop maxConcurrency concurrency (a # as) s =
     (if concurrency \<ge> maxConcurrency then s
      else if can_start a s then try_start_loop maxConcurrency (concurrency + 1) as (started a s)
      else try_start_loop maxConcurrency concurrency as (passed_over a s))"
  by (simp add: passed_over_def Let_def)

lemma passed_over_same: "same_but_reserved s (passed_over a s)"
proof -
  let ?s1 = "set_process a ((memory s a)\<lparr>starvationCount := starvationCount (memory s a) + 1\<rparr>) s"
  have "same_but_reserved s ?s1" by (rule same_but_reserved_starve)
  moreover from this have "same_but_reserved s (reserve_resource a ?s1)"
    by (rule same_but_reserved_trans) (rule same_but_reserved_reserve)
  ultimately show ?thesis by (simp add: passed_over_def Let_def)
qed

lemma started_sets:
  assumes "sched_inv s" and "a \<in> set (stateSets s Ready)"
  shows "set (stateSets (started a s) Ready) = set (stateSets s Ready) - {a}"
    and "length (stateSets (started a s) Running) = Suc (length (stateSets s Running))"
proof -
  have wf: "proc_wf s" using assms(1) by (simp add: sched_inv_def)
  have a: "alive s a" "proc_state (memory s a) = Ready" using assms(2) proc_wfD(3) [OF wf] by auto
  have "b \<in> set (stateSets (started a s) Ready) \<longleftrightarrow> b \<noteq> a \<and> b \<in> set (stateSets s Ready)" for b
    using change_process_sets(1) [OF wf a(1), of Running b False None Ready] a(2) by simp
  then show "set (stateSets (started a s) Ready) = set (stateSets s Ready) - {a}" by blast
  show "length (stateSets (started a s) Running) = Suc (length (stateSets s Running))"
    using a(2) by (simp add: change_process_state_def state_extract_def state_insert_def Let_def)
qed

lemma try_start_loop_inv:
  "sched_inv s \<Longrightarrow> distinct as \<Longrightarrow> set as \<subseteq> set (stateSets s Ready)
    \<Longrightarrow> sched_inv (try_start_loop maxConcurrency concurrency as s)"
proof (induction as arbitrary: concurrency s)
  case (Cons a as)
  then have a: "a \<in> set (stateSets s Ready)" "distinct as" "a \<notin> set as" "set as \<subseteq> set (stateSets s Ready)" by auto
  have "sched_inv (try_start_loop maxConcurrency (concurrency + 1) as (started a s))" if "can_start a s"
  proof (rule Cons.IH)
    show "sched_inv (started a s)" by (rule started_inv [OF Cons.prems(1) a(1) that])
    show "set as \<subseteq> set (stateSets (started a s) Ready)" using started_sets(1) [OF Cons.prems(1) a(1)] a by auto
  qed (rule a(2))
  moreover have "sched_inv (try_start_loop maxConcurrency concurrency as (passed_over a s))"
  proof (rule Cons.IH)
    show "sched_inv (passed_over a s)" by (rule same_but_reserved_inv [OF Cons.prems(1) passed_over_same])
    show "set as \<subseteq> set (stateSets (passed_over a s) Ready)"
      using a(4) same_but_reserved_sets [OF passed_over_same] by simp
  qed (rule a(2))
  ultimately show ?case
    using Cons.prems(1) by (cases "can_start a s") (simp_all only: try_start_loop_Cons if_True if_False split: if_split, simp_all)
qed simp

lemma try_start_all_inv: "sched_inv s \<Longrightarrow> sched_inv (try_start_all executors s)"
  unfolding try_start_all_def by (rule try_start_loop_inv) (auto simp: sched_inv_def dest: proc_wfD(2))

text \<open>A process that was passed over stays unable to start while others start or make reservations.\<close>

definition blocks :: "nat \<Rightarrow> resource \<Rightarrow> bool" where
  "blocks a r \<longleftrightarrow> assigned r \<or> reserved r \<noteq> {} \<and> a \<notin> reserved r"

lemma can_start_iff:
  "can_start a s \<longleftrightarrow> proc_task (memory s a) \<noteq> None
    \<and> (\<forall>i \<in> set (targets_of a s). \<forall>r. resources s i = Some r \<longrightarrow> \<not> blocks a r)"
  by (auto simp: can_start_def can_acquire_def targets_of_def blocks_def list_all_iff split: option.splits)

lemma cannot_start_mono:
  assumes "\<not> can_start d s" and "proc_task (memory s' d) = proc_task (memory s d)"
    and "\<And>i r. resources s i = Some r \<Longrightarrow> blocks d r \<Longrightarrow> \<exists>r'. resources s' i = Some r' \<and> blocks d r'"
  shows "\<not> can_start d s'"
proof -
  have "targets_of d s' = targets_of d s" using assms(2) by (simp add: targets_of_def)
  with assms show ?thesis unfolding can_start_iff by metis
qed

lemma cannot_start_started:
  assumes "\<not> can_start d s" and "d \<noteq> a"
  shows "\<not> can_start d (started a s)"
proof (rule cannot_start_mono [OF assms(1)])
  show "proc_task (memory (started a s) d) = proc_task (memory s d)" using assms(2) by simp
  show "\<exists>r'. resources (started a s) i = Some r' \<and> blocks d r'" if "resources s i = Some r" "blocks d r" for i r
    using that by (cases "i \<in> set (targets_of a (change_process_state a Running False None s))")
      (auto simp: allocate_resource_eq blocks_def)
qed

lemma passed_over_process:
  "proc_task (memory (passed_over a s) d) = proc_task (memory s d)"
  "d \<noteq> a \<Longrightarrow> starvationCount (memory (passed_over a s) d) = starvationCount (memory s d)"
  "starvationCount (memory (passed_over a s) a) = starvationCount (memory s a) + 1"
  by (simp_all add: passed_over_def Let_def reserve_resource_def)

lemma passed_over_resources:
  "resources (passed_over a s) i =
     (if 10 \<le> starvationCount (memory s a) \<and> i \<in> set (targets_of a s)
      then map_option (\<lambda>r. r\<lparr>reserved := insert a (reserved r)\<rparr>) (resources s i) else resources s i)"
proof -
  have "targets_of a (set_process a ((memory s a)\<lparr>starvationCount := n\<rparr>) s) = targets_of a s" for n
    by (simp add: targets_of_def)
  then show ?thesis by (simp add: passed_over_def Let_def reserve_resource_eq)
qed

lemma cannot_start_passed_over:
  assumes "\<not> can_start d s" and "d \<noteq> a \<or> starvationCount (memory s a) < 10"
  shows "\<not> can_start d (passed_over a s)"
proof (rule cannot_start_mono [OF assms(1) passed_over_process(1)])
  show "\<exists>r'. resources (passed_over a s) i = Some r' \<and> blocks d r'" if "resources s i = Some r" "blocks d r" for i r
    using that assms(2) by (auto simp: passed_over_resources blocks_def)
qed

text \<open>A process that can start although it was passed over has starved and reserved its entities just then.\<close>

definition left_behind :: "nat \<Rightarrow> scheduler \<Rightarrow> bool" where
  "left_behind d s \<longleftrightarrow> can_start d s \<and> starvationCount (memory s d) \<le> 10"

lemma left_behind_mono:
  assumes "\<not> left_behind d s" and "d \<noteq> a"
  shows "\<not> left_behind d (started a s)" and "\<not> left_behind d (passed_over a s)"
proof -
  have "memory (started a s) d = memory s d" using assms(2) by simp
  then show "\<not> left_behind d (started a s)"
    using assms cannot_start_started [OF _ assms(2)] by (auto simp: left_behind_def)
  show "\<not> left_behind d (passed_over a s)"
    using assms cannot_start_passed_over [of d s a] by (auto simp: left_behind_def passed_over_process)
qed

lemma passed_over_not_left_behind: "\<not> can_start a s \<Longrightarrow> \<not> left_behind a (passed_over a s)"
  using cannot_start_passed_over [of a s a] by (auto simp: left_behind_def passed_over_process)

lemma try_start_loop_leaves_nothing:
  assumes "sched_inv s" and "distinct as" and "set as \<subseteq> set (stateSets s Ready)"
    and "concurrency = int (length (stateSets s Running))"
    and "\<And>d. d \<in> set (stateSets s Ready) \<Longrightarrow> d \<notin> set as \<Longrightarrow> \<not> left_behind d s"
    and "s' = try_start_loop maxConcurrency concurrency as s"
  shows "maxConcurrency \<le> int (length (stateSets s' Running))
    \<or> list_all (\<lambda>d. \<not> left_behind d s') (stateSets s' Ready)"
  using assms
proof (induction as arbitrary: concurrency s)
  case Nil
  then show ?case by (simp add: list_all_iff)
next
  case (Cons a as)
  then have a: "a \<in> set (stateSets s Ready)" "distinct as" "a \<notin> set as" "set as \<subseteq> set (stateSets s Ready)" by auto
  consider (full) "maxConcurrency \<le> concurrency" | (start) "\<not> maxConcurrency \<le> concurrency" "can_start a s"
    | (pass) "\<not> maxConcurrency \<le> concurrency" "\<not> can_start a s" by blast
  then show ?case
  proof cases
    case full
    with Cons.prems(4,6) show ?thesis by simp
  next
    case start
    note sets = started_sets [OF Cons.prems(1) a(1)]
    show ?thesis
    proof (rule Cons.IH)
      show "sched_inv (started a s)" by (rule started_inv [OF Cons.prems(1) a(1) start(2)])
      show "set as \<subseteq> set (stateSets (started a s) Ready)" using sets a by auto
      show "concurrency + 1 = int (length (stateSets (started a s) Running))" using sets(2) Cons.prems(4) by simp
      show "s' = try_start_loop maxConcurrency (concurrency + 1) as (started a s)"
        using start Cons.prems(6) by (simp only: try_start_loop_Cons if_True if_False)
      show "\<not> left_behind d (started a s)" if "d \<in> set (stateSets (started a s) Ready)" "d \<notin> set as" for d
        using that sets(1) Cons.prems(5) [of d] left_behind_mono(1) [of d s a] by auto
    qed (rule a(2))
  next
    case pass
    note sets = same_but_reserved_sets [OF passed_over_same]
    show ?thesis
    proof (rule Cons.IH)
      show "sched_inv (passed_over a s)" by (rule same_but_reserved_inv [OF Cons.prems(1) passed_over_same])
      show "set as \<subseteq> set (stateSets (passed_over a s) Ready)" using sets a by simp
      show "concurrency = int (length (stateSets (passed_over a s) Running))" using sets Cons.prems(4) by simp
      show "s' = try_start_loop maxConcurrency concurrency as (passed_over a s)"
        using pass Cons.prems(6) by (simp only: try_start_loop_Cons if_True if_False)
      show "\<not> left_behind d (passed_over a s)" if "d \<in> set (stateSets (passed_over a s) Ready)" "d \<notin> set as" for d
        using that sets Cons.prems(5) [of d] left_behind_mono(2) [of d s a]
          passed_over_not_left_behind [OF pass(2)] by (cases "d = a") auto
    qed (rule a(2))
  qed
qed


subsection \<open>The end of a task\<close>

lemma set_process_proc_wf:
  assumes "proc_wf s" and "processId p = processId (memory s a)" and "proc_state p = proc_state (memory s a)"
    and "proc_state p = Running \<or> proc_task p = proc_task (memory s a)"
  shows "proc_wf (set_process a p s)"
proof -
  have "processId (memory (set_process a p s) b) = processId (memory s b)"
    "proc_state (memory (set_process a p s) b) = proc_state (memory s b)" for b using assms(2,3) by simp_all
  moreover have "proc_state (memory s b) \<noteq> Running
      \<Longrightarrow> proc_task (memory (set_process a p s) b) = proc_task (memory s b)" for b
    using assms(3,4) by (cases "b = a") auto
  ultimately show ?thesis
    using assms(1) unfolding proc_wf_def alive_def by (simp del: fun_upd_apply)
qed

lemma finish_task_inv:
  assumes "sched_inv s" and "a \<in> set (stateSets s Running)" and "finish_task a s = Inr s'"
  shows "sched_inv s'"
proof -
  from assms(3) obtain t where t: "proc_task (memory s a) = Some t"
    and s': "s' = deallocate_resource t (set_process a ((memory s a)\<lparr>proc_task := None\<rparr>) s)"
    by (auto simp: finish_task_def split: option.splits)
  let ?s1 = "set_process a ((memory s a)\<lparr>proc_task := None\<rparr>) s"
  have wf: "proc_wf s" "queue_wf s" "resource_wf s" "order_wf s" using assms(1) by (simp_all add: sched_inv_def)
  have st: "proc_state (memory s a) = Running" using assms(2) proc_wfD(3) [OF wf(1)] by simp
  have eq: "processes s' = processes s" "memory s' = memory ?s1" "stateSets s' = stateSets s" "recycled s' = recycled s"
    "taskQueues s' = taskQueues s" "nextTempProcessId s' = nextTempProcessId s"
    "accepted_tasks s' = accepted_tasks s" "started_tasks s' = started_tasks s"
    by (simp_all add: s' deallocate_resource_def)
  have "proc_wf s'"
    by (rule proc_wf_cong [OF _ _ _ _ set_process_proc_wf [OF wf(1), of "(memory s a)\<lparr>proc_task := None\<rparr>" a]])
      (simp_all add: eq st)
  moreover have "queue_wf s'"
    by (rule queue_wf_cong [OF _ _ _ _ wf(2)]) (simp_all add: eq)
  moreover have "order_wf s'"
  proof -
    have "waiting_tasks s' i b = waiting_tasks s i b" "proc_state (memory s' b) = proc_state (memory s b)" for i b
      using st by (simp_all add: waiting_tasks_def eq)
    with wf(4) show ?thesis by (simp add: order_wf_def eq)
  qed
  moreover have "resource_wf s'"
    unfolding resource_wf_def
  proof (intro allI impI)
    fix i r assume r: "resources s' i = Some r"
    have res: "resources s' i = (if i \<in> set (targetIds t)
        then map_option (\<lambda>r. r\<lparr>assigned := False, acquired := None\<rparr>) (resources s i) else resources s i)"
      by (simp add: s' deallocate_resource_eq)
    have ta: "targets_of a s = targetIds t" "targets_of a s' = []" by (simp_all add: targets_of_def t eq)
    have tb: "b \<noteq> a \<Longrightarrow> targets_of b s' = targets_of b s" for b by (simp add: targets_of_def eq)
    show "(assigned r \<longleftrightarrow> acquired r \<noteq> None)
      \<and> (\<forall>b. acquired r = Some b \<longleftrightarrow> b \<in> set (stateSets s' Running) \<and> i \<in> set (targets_of b s'))"
    proof (cases "i \<in> set (targetIds t)")
      case True
      with r res obtain r0 where r0: "resources s i = Some r0" "\<not> assigned r" "acquired r = None" by auto
      from resource_wfD(2) [OF wf(3) r0(1), of a] assms(2) ta True have "acquired r0 = Some a" by simp
      then have "b \<noteq> a \<Longrightarrow> b \<in> set (stateSets s Running) \<Longrightarrow> i \<notin> set (targets_of b s)" for b
        using resource_wfD(2) [OF wf(3) r0(1), of b] by auto
      then have "\<not> (b \<in> set (stateSets s' Running) \<and> i \<in> set (targets_of b s'))" for b
        using ta tb [of b] by (cases "b = a") (auto simp: eq(3))
      with r0 show ?thesis by simp
    next
      case False
      with r res have r0: "resources s i = Some r" by simp
      have "b \<in> set (stateSets s' Running) \<and> i \<in> set (targets_of b s')
          \<longleftrightarrow> b \<in> set (stateSets s Running) \<and> i \<in> set (targets_of b s)" for b
        using False ta tb [of b] by (cases "b = a") (auto simp: eq(3))
      with resource_wfD [OF wf(3) r0] show ?thesis by simp
    qed
  qed
  ultimately show ?thesis by (simp add: sched_inv_def)
qed


text \<open>A process leaves the running ones, or never was one of them, without holding an entity.\<close>

definition holds_nothing :: "nat \<Rightarrow> scheduler \<Rightarrow> bool" where
  "holds_nothing a s \<longleftrightarrow> proc_state (memory s a) \<noteq> Running \<or> proc_task (memory s a) = None"

lemma change_process_resource_wf:
  assumes "resource_wf s" and "proc_wf s" and "alive s a" and "proc_state (memory s a) \<noteq> st" and "st \<noteq> Running"
    and "holds_nothing a s"
  shows "resource_wf (change_process_state a st setTask t s)"
  unfolding resource_wf_def
proof (intro allI impI)
  let ?s = "change_process_state a st setTask t s"
  fix i r assume "resources ?s i = Some r"
  then have r: "resources s i = Some r" by simp
  have "b \<in> set (stateSets ?s Running) \<and> i \<in> set (targets_of b ?s)
      \<longleftrightarrow> b \<in> set (stateSets s Running) \<and> i \<in> set (targets_of b s)" for b
    using change_process_sets(1) [OF assms(2-4), of b setTask t Running] assms(5,6) proc_wfD(3) [OF assms(2), of a Running]
    by (cases "b = a") (auto simp: targets_of_def holds_nothing_def)
  with resource_wfD [OF assms(1) r] show "(assigned r \<longleftrightarrow> acquired r \<noteq> None)
      \<and> (\<forall>b. acquired r = Some b \<longleftrightarrow> b \<in> set (stateSets ?s Running) \<and> i \<in> set (targets_of b ?s))"
    by simp
qed

lemma exit_process_eq:
  "processes (exit_process a s) = (processes s)(processId (memory s a) := None)"
  "memory (exit_process a s) = (memory s)(a := (memory s a)\<lparr>processId := nextRecycleProcessId s + 1\<rparr>)"
  "stateSets (exit_process a s) =
     (stateSets s)(proc_state (memory s a) := remove1 a (stateSets s (proc_state (memory s a))))"
  "recycled (exit_process a s) = recycled s @ [a]"
  "taskQueues (exit_process a s) =
     (case taskQueueId (memory s a) of None \<Rightarrow> taskQueues s | Some q \<Rightarrow> (taskQueues s)(q := None))"
  "resources (exit_process a s) = resources s" "accepted_tasks (exit_process a s) = accepted_tasks s"
  "started_tasks (exit_process a s) = started_tasks s" "nextTempProcessId (exit_process a s) = nextTempProcessId s"
  "sched_shutdown (exit_process a s) = sched_shutdown s"
  by (simp_all add: exit_process_def state_extract_def Let_def split: option.splits)

lemma exit_process_live:
  assumes "proc_wf s" and "alive s a"
  shows "alive (exit_process a s) b \<longleftrightarrow> alive s b \<and> b \<noteq> a"
proof -
  note live_process [OF assms]
  then show ?thesis
    using processes_inj [OF assms(1)] unfolding alive_def exit_process_eq(1)
    by (metis fun_upd_apply option.distinct(1) option.inject)
qed

lemma exit_process_wf:
  assumes "proc_wf s" and "alive s a"
  shows "proc_wf (exit_process a s)"
  unfolding proc_wf_def
proof (intro conjI allI impI ballI)
  let ?s = "exit_process a s"
  note alive = exit_process_live [OF assms]
  show "processId (memory ?s b) = i" if "processes ?s i = Some b" for i b
  proof -
    from that have "alive ?s b" by (auto simp: alive_def)
    then have "b \<noteq> a" by (simp add: alive)
    with that proc_wfD(1) [OF assms(1)] show ?thesis by (simp add: exit_process_eq split: if_splits)
  qed
  show "distinct (stateSets ?s x)" for x
    using proc_wfD(2) [OF assms(1)] by (simp add: exit_process_eq distinct_remove1)
  show "b \<in> set (stateSets ?s x) \<longleftrightarrow> alive ?s b \<and> proc_state (memory ?s b) = x" for x b
    using proc_wfD(2,3) [OF assms(1)] assms(2) by (auto simp: exit_process_eq(2,3) alive)
  show "proc_task (memory ?s b) \<noteq> None" if "alive ?s b" "proc_state (memory ?s b) = Ready" for b
    using that proc_wfD(4) [OF assms(1), of b] by (cases "b = a") (simp_all add: alive exit_process_eq(2))
  show "proc_task (memory ?s b) = None" if "alive ?s b" "proc_state (memory ?s b) = Waiting" for b
    using that proc_wfD(5) [OF assms(1), of b] by (cases "b = a") (simp_all add: alive exit_process_eq(2))
  show "\<not> alive ?s b" if "b \<in> set (recycled ?s)" for b
    using that proc_wfD(6) [OF assms(1)] by (auto simp: alive exit_process_eq(4))
  show "distinct (recycled ?s)" using proc_wfD(6,7) [OF assms(1)] assms(2) by (auto simp: exit_process_eq(4))
qed

lemma queue_wfD:
  assumes "queue_wf s" and "processes s i = Some a"
  shows "0 \<le> i \<Longrightarrow> taskQueueId (memory s a) = Some i \<and> taskQueues s i \<noteq> None"
    and "i < 0 \<Longrightarrow> taskQueueId (memory s a) = None \<and> nextTempProcessId s \<le> i"
  using assms unfolding queue_wf_def by blast+

lemma exit_process_queue_wf:
  assumes "proc_wf s" and "queue_wf s" and "alive s a"
  shows "queue_wf (exit_process a s)"
proof -
  let ?i = "processId (memory s a)"
  have a: "processes s ?i = Some a" by (rule live_process [OF assms(1,3)])
  have q: "taskQueues (exit_process a s) = (if 0 \<le> ?i then (taskQueues s)(?i := None) else taskQueues s)"
    using queue_wfD [OF assms(2) a] by (auto simp: exit_process_eq)
  have id: "taskQueueId (memory (exit_process a s) b) = taskQueueId (memory s b)" for b
    by (simp add: exit_process_eq)
  from assms(2) show ?thesis by (auto simp: queue_wf_def q id exit_process_eq(1,9))
qed

lemma exit_process_inv:
  assumes "sched_inv s" and "alive s a" and "holds_nothing a s"
  shows "sched_inv (exit_process a s)"
proof -
  let ?s = "exit_process a s" and ?i = "processId (memory s a)"
  have wf: "proc_wf s" "queue_wf s" "resource_wf s" "order_wf s" using assms(1) by (simp_all add: sched_inv_def)
  have a: "processes s ?i = Some a" by (rule live_process [OF wf(1) assms(2)])
  have pw: "proc_wf ?s" by (rule exit_process_wf [OF wf(1) assms(2)])
  moreover have "resource_wf ?s"
    unfolding resource_wf_def
  proof (intro allI impI)
    fix i r assume "resources ?s i = Some r"
    then have r: "resources s i = Some r" by (simp add: exit_process_eq)
    have "b \<in> set (stateSets ?s Running) \<and> i \<in> set (targets_of b ?s)
        \<longleftrightarrow> b \<in> set (stateSets s Running) \<and> i \<in> set (targets_of b s)" for b
      using assms(3) proc_wfD(3) [OF pw] proc_wfD(3) [OF wf(1)] exit_process_live [OF wf(1) assms(2)]
      by (cases "b = a") (auto simp: targets_of_def holds_nothing_def exit_process_eq(2))
    with resource_wfD [OF wf(3) r] show "(assigned r \<longleftrightarrow> acquired r \<noteq> None)
        \<and> (\<forall>b. acquired r = Some b \<longleftrightarrow> b \<in> set (stateSets ?s Running) \<and> i \<in> set (targets_of b ?s))"
      by simp
  qed
  moreover have "order_wf ?s"
    unfolding order_wf_def
  proof (intro allI impI)
    fix i b assume b: "processes ?s i = Some b"
    then have b': "processes s i = Some b" "i \<noteq> ?i" by (simp_all add: exit_process_eq split: if_splits)
    have ne: "b \<noteq> a" using b' a processes_inj [OF wf(1)] by auto
    have "taskQueueId (memory s a) = Some q \<Longrightarrow> q = ?i" for q
      using queue_wfD [OF wf(2) a] by (cases "0 \<le> ?i") auto
    then have "waiting_tasks ?s i b = waiting_tasks s i b" "memory ?s b = memory s b"
      using ne b'(2) by (auto simp: waiting_tasks_def exit_process_eq split: option.splits)
    with order_wfD [OF wf(4) b'(1)] show "accepted_tasks ?s i = started_tasks ?s i @ waiting_tasks ?s i b
        \<and> (proc_state (memory ?s b) = Waiting \<longrightarrow> waiting_tasks ?s i b = [])"
      by (simp add: exit_process_eq)
  qed
  ultimately show ?thesis using exit_process_queue_wf [OF wf(1,2) assms(2)] by (simp add: sched_inv_def)
qed


subsection \<open>The other operations\<close>

text \<open>The order of the tasks of every process but one.\<close>

definition order_but :: "nat \<Rightarrow> scheduler \<Rightarrow> bool" where
  "order_but a s \<longleftrightarrow> (\<forall>i b. processes s i = Some b \<longrightarrow> b \<noteq> a \<longrightarrow>
     accepted_tasks s i = started_tasks s i @ waiting_tasks s i b
     \<and> (proc_state (memory s b) = Waiting \<longrightarrow> waiting_tasks s i b = []))"

lemma order_wf_split:
  assumes "proc_wf s" and "alive s a"
  shows "order_wf s \<longleftrightarrow> order_but a s
    \<and> accepted_tasks s (processId (memory s a)) =
        started_tasks s (processId (memory s a)) @ waiting_tasks s (processId (memory s a)) a
    \<and> (proc_state (memory s a) = Waiting \<longrightarrow> waiting_tasks s (processId (memory s a)) a = [])"
proof -
  note a = live_process [OF assms]
  have "processes s i = Some a \<Longrightarrow> i = processId (memory s a)" for i using proc_wfD(1) [OF assms(1)] by simp
  with a have "(\<forall>i b. processes s i = Some b \<longrightarrow> Q i b)
      \<longleftrightarrow> (\<forall>i b. processes s i = Some b \<longrightarrow> b \<noteq> a \<longrightarrow> Q i b) \<and> Q (processId (memory s a)) a" for Q by blast
  then show ?thesis unfolding order_wf_def order_but_def .
qed

lemma order_but_change:
  "order_but a (change_process_state a st setTask t s) \<longleftrightarrow> order_but a s"
proof -
  have "b \<noteq> a \<Longrightarrow> waiting_tasks (change_process_state a st setTask t s) i b = waiting_tasks s i b" for i b
    by (simp add: waiting_tasks_def)
  then show ?thesis unfolding order_but_def by (simp cong: conj_cong imp_cong)
qed

lemma order_butI:
  assumes "order_but a s" and "processes s' = processes s" and "memory s' = memory s" and "proc_wf s" and "alive s a"
    and "\<And>i. i \<noteq> processId (memory s a) \<Longrightarrow> taskQueues s' i = taskQueues s i
      \<and> accepted_tasks s' i = accepted_tasks s i \<and> started_tasks s' i = started_tasks s i"
  shows "order_but a s'"
  unfolding order_but_def
proof (intro allI impI)
  fix i b assume b: "processes s' i = Some b" "b \<noteq> a"
  then have i: "processes s i = Some b" "i \<noteq> processId (memory s a)"
    using assms(2) live_process [OF assms(4,5)] by auto
  with assms(1) b(2) have "accepted_tasks s i = started_tasks s i @ waiting_tasks s i b
     \<and> (proc_state (memory s b) = Waiting \<longrightarrow> waiting_tasks s i b = [])" by (simp add: order_but_def)
  with assms(3) assms(6) [OF i(2)] show "accepted_tasks s' i = started_tasks s' i @ waiting_tasks s' i b
     \<and> (proc_state (memory s' b) = Waiting \<longrightarrow> waiting_tasks s' i b = [])" by (simp add: waiting_tasks_def)
qed

lemma change_process_inv:
  assumes "proc_wf s" and "queue_wf s" and "resource_wf s" and "order_but a s" and "alive s a"
    and "proc_state (memory s a) \<noteq> st" and "st \<noteq> Running" and "holds_nothing a s"
    and "st = Ready \<Longrightarrow> t \<noteq> None" and "st = Waiting \<Longrightarrow> t = None"
    and "q = (case taskQueues s (processId (memory s a)) of None \<Rightarrow> [] | Some q \<Rightarrow> q)"
    and "accepted_tasks s (processId (memory s a)) =
      started_tasks s (processId (memory s a)) @ (case t of None \<Rightarrow> [] | Some x \<Rightarrow> [x]) @ q"
    and "st = Waiting \<Longrightarrow> q = []"
  shows "sched_inv (change_process_state a st True t s)"
proof -
  let ?s = "change_process_state a st True t s" and ?i = "processId (memory s a)"
  have pw: "proc_wf ?s" using assms(9,10) by (intro change_process_wf [OF assms(1,5,6)]) auto
  have w: "waiting_tasks ?s ?i a = (case t of None \<Rightarrow> [] | Some x \<Rightarrow> [x]) @ q"
  proof (cases "st = Ready")
    case True
    then show ?thesis by (simp add: waiting_tasks_def assms(11))
  next
    case False
    with assms(7,10) have "t = None" by (cases st) simp_all
    with False show ?thesis by (simp add: waiting_tasks_def assms(11))
  qed
  have "waiting_tasks ?s ?i a = []" if "st = Waiting" using that w assms(10,13) by simp
  moreover have "alive ?s a" using assms(5) by simp
  ultimately have "order_wf ?s"
    unfolding order_wf_split [OF pw \<open>alive ?s a\<close>] order_but_change change_process_memory change_process_fields
    using assms(4,12) w by simp
  then show ?thesis
    using pw change_process_queue_wf [OF assms(2)] change_process_resource_wf [OF assms(3,1,5-8)]
    by (simp add: sched_inv_def)
qed

text \<open>\<^verbatim>\<open>OnComplete\<close> up to where it looks at \<^verbatim>\<open>_shutdown\<close>.\<close>

definition settle_process :: "nat \<Rightarrow> scheduler \<Rightarrow> scheduler" where
  "settle_process a s =
     (let s1 = s\<lparr>totalTaskCount := totalTaskCount s - 1, completeTaskCount := completeTaskCount s + 1\<rparr>
      in case (case taskQueueId (memory s a) of None \<Rightarrow> None
                | Some q \<Rightarrow> map_option (Pair q) (taskQueues s1 q), terminateReserved (memory s a)) of
           (Some (q, []), False) \<Rightarrow> change_process_state a Waiting True None s1
         | (Some (q, t # ts), False) \<Rightarrow>
             change_process_state a Ready True (Some t) (s1\<lparr>taskQueues := (taskQueues s1)(q \<mapsto> ts)\<rparr>)
         | _ \<Rightarrow> exit_process a s1)"

lemma on_complete_settle:
  "on_complete executors a s =
     (let s2 = settle_process a s
      in if sched_shutdown s2
         then (if stateSets s2 Running = [] \<and> joinPromise s2 \<noteq> None then s2\<lparr>joinPromise := Some True\<rparr> else s2)
         else try_start_all executors s2)"
  unfolding on_complete_def settle_process_def Let_def by simp

lemma settle_process_inv:
  assumes "sched_inv s" and "a \<in> set (stateSets s Running)" and "proc_task (memory s a) = None"
  shows "sched_inv (settle_process a s)"
proof -
  let ?i = "processId (memory s a)"
  define s1 where "s1 = s\<lparr>totalTaskCount := totalTaskCount s - 1, completeTaskCount := completeTaskCount s + 1\<rparr>"
  have m: "memory s1 = memory s" "processes s1 = processes s" "taskQueues s1 = taskQueues s" "stateSets s1 = stateSets s"
    "accepted_tasks s1 = accepted_tasks s" "started_tasks s1 = started_tasks s"
    by (simp_all add: s1_def)
  have inv1: "sched_inv s1"
    by (rule same_but_reserved_inv [OF assms(1)]) (simp add: same_but_reserved_def s1_def)
  then have wf: "proc_wf s1" "queue_wf s1" "resource_wf s1" "order_wf s1" by (simp_all add: sched_inv_def)
  have a: "alive s1 a" "proc_state (memory s1 a) = Running"
    using assms(2) proc_wfD(3) [OF wf(1), of a Running] by (simp_all add: m)
  have ob: "order_but a s1" and order: "accepted_tasks s1 ?i = started_tasks s1 ?i @ waiting_tasks s1 ?i a"
    using wf(4) unfolding order_wf_split [OF wf(1) a(1)] by (simp_all add: m)
  have q: "taskQueueId (memory s1 a) = Some i \<Longrightarrow> i = ?i" for i
    using queue_wfD [OF wf(2) live_process [OF wf(1) a(1)]] by (cases "0 \<le> ?i") (auto simp: m)
  have hold: "holds_nothing a s1" using assms(3) by (simp add: holds_nothing_def m)
  have exit: "sched_inv (exit_process a s1)" by (rule exit_process_inv [OF inv1 a(1) hold])
  have wait: "sched_inv (change_process_state a Waiting True None s1)" if "taskQueues s ?i = Some []"
    using that order a(2)
    by (intro change_process_inv [OF wf(1-3) ob a(1) _ _ hold, where q = "[]"]) (simp_all add: waiting_tasks_def m)
  have ready: "sched_inv (change_process_state a Ready True (Some t) (s1\<lparr>taskQueues := (taskQueues s1)(?i \<mapsto> ts)\<rparr>))"
    if ts: "taskQueues s ?i = Some (t # ts)" for t ts
  proof (rule change_process_inv [where q = ts])
    let ?s = "s1\<lparr>taskQueues := (taskQueues s1)(?i \<mapsto> ts)\<rparr>"
    show "proc_wf ?s" by (rule proc_wf_cong [OF _ _ _ _ wf(1)]) simp_all
    show "queue_wf ?s" using wf(2) ts by (auto simp: queue_wf_def m)
    show "resource_wf ?s" using wf(3) by (simp add: resource_wf_def targets_of_def)
    show "order_but a ?s" by (rule order_butI [OF ob _ _ wf(1) a(1)]) (simp_all add: m)
    show "alive ?s a" using a(1) by (simp add: alive_def)
    show "holds_nothing a ?s" using hold by (simp add: holds_nothing_def)
    show "accepted_tasks ?s (processId (memory ?s a)) =
        started_tasks ?s (processId (memory ?s a)) @ (case Some t of None \<Rightarrow> [] | Some x \<Rightarrow> [x]) @ ts"
      using order a(2) ts by (simp add: waiting_tasks_def m)
  qed (use a(2) in \<open>simp_all add: m\<close>)
  show ?thesis
  proof (cases "taskQueueId (memory s a)")
    case (Some i)
    then have i: "i = ?i" using q by (simp add: m)
    show ?thesis
    proof (cases "terminateReserved (memory s a)")
      case False
      with Some i exit wait ready show ?thesis
        by (auto simp: settle_process_def Let_def s1_def [symmetric] m split: option.splits list.splits)
    qed (simp add: settle_process_def Let_def s1_def [symmetric] exit split: option.splits list.splits prod.splits)
  qed (simp add: settle_process_def Let_def s1_def [symmetric] exit)
qed

lemma on_complete_inv:
  assumes "sched_inv s" and "a \<in> set (stateSets s Running)" and "proc_task (memory s a) = None"
  shows "sched_inv (on_complete executors a s)"
proof -
  note inv = settle_process_inv [OF assms]
  have "sched_inv ((settle_process a s)\<lparr>joinPromise := Some True\<rparr>)"
    by (rule same_but_reserved_inv [OF inv]) (simp add: same_but_reserved_def)
  with inv try_start_all_inv [OF inv] show ?thesis by (simp add: on_complete_settle Let_def)
qed

text \<open>A new process.\<close>

lemma create_process_eq:
  "processes (create_process i a s) = (processes s)(i \<mapsto> a)"
  "memory (create_process i a s) = (memory s)(a := process_new i)"
  "recycled (create_process i a s) = remove1 a (recycled s)"
  "taskQueues (create_process i a s) = taskQueues s"
  "resources (create_process i a s) = resources s"
  "accepted_tasks (create_process i a s) = (accepted_tasks s)(i := [])"
  "started_tasks (create_process i a s) = (started_tasks s)(i := [])"
  "nextTempProcessId (create_process i a s) = nextTempProcessId s"
  by (simp_all add: create_process_def state_insert_def Let_def)

lemma create_process_sets:
  "b \<in> set (stateSets (create_process i a s) x) \<longleftrightarrow> b = a \<and> x = Waiting \<or> b \<in> set (stateSets s x)"
  "a \<notin> set (stateSets s Waiting) \<Longrightarrow> distinct (stateSets s x) \<Longrightarrow> distinct (stateSets (create_process i a s) x)"
  by (auto simp: create_process_def state_insert_def Let_def set_insort_key distinct_insort)

lemma create_process_live:
  "processes s i = None \<Longrightarrow> alive (create_process i a s) b \<longleftrightarrow> b = a \<or> alive s b"
  unfolding alive_def create_process_eq by (metis fun_upd_apply option.distinct(1) option.inject)

lemma create_process_wf:
  assumes "proc_wf s" and "\<not> alive s a" and "processes s i = None"
  shows "proc_wf (create_process i a s)"
  unfolding proc_wf_def
proof (intro conjI allI impI ballI)
  let ?s = "create_process i a s"
  note alive = create_process_live [OF assms(3)]
  have notin: "a \<notin> set (stateSets s x)" for x using proc_wfD(3) [OF assms(1)] assms(2) by simp
  show "processId (memory ?s b) = j" if "processes ?s j = Some b" for j b
  proof (cases "j = i")
    case False
    with that have b: "processes s j = Some b" by (simp add: create_process_eq)
    with assms(2) have "b \<noteq> a" by (auto simp: alive_def)
    with b proc_wfD(1) [OF assms(1)] show ?thesis by (simp add: create_process_eq)
  qed (use that in \<open>simp add: create_process_eq process_new_def\<close>)
  show "distinct (stateSets ?s x)" for x
    by (rule create_process_sets(2) [OF notin proc_wfD(2) [OF assms(1)]])
  show "b \<in> set (stateSets ?s x) \<longleftrightarrow> alive ?s b \<and> proc_state (memory ?s b) = x" for x b
    using proc_wfD(3) [OF assms(1)] assms(2)
    by (cases "b = a") (auto simp: create_process_sets(1) alive create_process_eq(2) process_new_def)
  show "proc_task (memory ?s b) \<noteq> None" if "alive ?s b" "proc_state (memory ?s b) = Ready" for b
    using that proc_wfD(4) [OF assms(1), of b] by (cases "b = a") (simp_all add: alive create_process_eq(2) process_new_def)
  show "proc_task (memory ?s b) = None" if "alive ?s b" "proc_state (memory ?s b) = Waiting" for b
    using that proc_wfD(5) [OF assms(1), of b] by (cases "b = a") (simp_all add: alive create_process_eq(2) process_new_def)
  show "\<not> alive ?s b" if "b \<in> set (recycled ?s)" for b
    using that proc_wfD(6,7) [OF assms(1)] by (auto simp: alive create_process_eq(3))
  show "distinct (recycled ?s)" using proc_wfD(7) [OF assms(1)] by (simp add: create_process_eq(3))
qed

lemma address_ok_not_live: "proc_wf s \<Longrightarrow> address_ok a s \<Longrightarrow> \<not> alive s a"
  using proc_wfD(3) [of s a "proc_state (memory s a)"] proc_wfD(6) [of s a]
  by (cases "proc_state (memory s a)") (auto simp: address_ok_def split: if_splits)

lemma create_process_resource_wf:
  assumes "proc_wf s" and "resource_wf s" and "\<not> alive s a"
  shows "resource_wf (create_process i a s)"
proof -
  have notin: "a \<notin> set (stateSets s Running)" using proc_wfD(3) [OF assms(1)] assms(3) by simp
  have "b \<in> set (stateSets (create_process i a s) Running) \<and> j \<in> set (targets_of b (create_process i a s))
      \<longleftrightarrow> b \<in> set (stateSets s Running) \<and> j \<in> set (targets_of b s)" for b j
    using notin by (cases "b = a") (auto simp: create_process_sets(1) create_process_eq targets_of_def)
  with assms(2) show ?thesis by (simp add: resource_wf_def create_process_eq)
qed

lemma create_process_order:
  assumes "order_wf s" and "processes s i = None" and "\<not> alive s a"
  shows "order_but a (create_process i a s)"
  unfolding order_but_def
proof (intro allI impI)
  let ?s = "create_process i a s"
  fix j b assume "processes ?s j = Some b" "b \<noteq> a"
  then have j: "processes s j = Some b" "j \<noteq> i" by (auto simp: create_process_eq split: if_splits)
  have "waiting_tasks ?s j b = waiting_tasks s j b"
    using \<open>b \<noteq> a\<close> by (simp add: waiting_tasks_def create_process_eq)
  with order_wfD [OF assms(1) j(1)] j(2) \<open>b \<noteq> a\<close>
  show "accepted_tasks ?s j = started_tasks ?s j @ waiting_tasks ?s j b
      \<and> (proc_state (memory ?s b) = Waiting \<longrightarrow> waiting_tasks ?s j b = [])"
    by (simp add: create_process_eq)
qed

lemma sched_invI:
  assumes "proc_wf s" and "queue_wf s" and "resource_wf s" and "order_but a s" and "alive s a"
    and "accepted_tasks s (processId (memory s a)) =
        started_tasks s (processId (memory s a)) @ waiting_tasks s (processId (memory s a)) a"
    and "proc_state (memory s a) = Waiting \<Longrightarrow> waiting_tasks s (processId (memory s a)) a = []"
  shows "sched_inv s"
  using assms order_wf_split [OF assms(1,5)] by (simp add: sched_inv_def)

lemma add_controller_inv:
  assumes "sched_inv s" and "0 \<le> c" and "address_ok a s"
  shows "sched_inv (add_controller c a s)"
proof (cases "taskQueues s c")
  case None
  have wf: "proc_wf s" "queue_wf s" "resource_wf s" "order_wf s" using assms(1) by (simp_all add: sched_inv_def)
  have dead: "\<not> alive s a" by (rule address_ok_not_live [OF wf(1) assms(3)])
  have c: "processes s c = None" using queue_wfD(1) [OF wf(2), of c] None assms(2) by (cases "processes s c") auto
  define s0 where "s0 = s\<lparr>taskQueues := (taskQueues s)(c \<mapsto> [])\<rparr>"
  have same: "processes s0 = processes s" "memory s0 = memory s" "stateSets s0 = stateSets s" "recycled s0 = recycled s"
    "nextTempProcessId s0 = nextTempProcessId s" "alive s0 a = alive s a" "resources s0 = resources s"
    by (simp_all add: s0_def alive_def)
  have pw0: "proc_wf s0" by (rule proc_wf_cong [OF _ _ _ _ wf(1)]) (simp_all add: same)
  have res0: "resource_wf s0" using wf(3) by (simp add: resource_wf_def targets_of_def same)
  have "i \<noteq> c \<Longrightarrow> waiting_tasks s0 i b = waiting_tasks s i b" for i b by (simp add: waiting_tasks_def s0_def)
  then have ord0: "order_wf s0" using wf(4) c unfolding order_wf_def by (simp add: s0_def) (metis option.distinct(1))
  define s1 where "s1 = create_process c a s0"
  have pw1: "proc_wf s1" "resource_wf s1" "order_but a s1" "alive s1 a"
    unfolding s1_def
    using create_process_wf [OF pw0, of a c] create_process_resource_wf [OF pw0 res0, of a c]
      create_process_order [OF ord0, of c a] create_process_live [of s0 c a a] dead c
    by (simp_all add: same)
  define s2 where "s2 = set_process a ((memory s1 a)\<lparr>taskQueueId := Some c\<rparr>) s1"
  have m: "memory s2 a = (process_new c)\<lparr>taskQueueId := Some c\<rparr>" "processes s2 = (processes s)(c \<mapsto> a)"
    "taskQueues s2 = (taskQueues s)(c \<mapsto> [])" "nextTempProcessId s2 = nextTempProcessId s"
    by (simp_all add: s2_def s1_def create_process_eq same, simp add: s0_def)
  have mb: "b \<noteq> a \<Longrightarrow> memory s2 b = memory s b" for b by (simp add: s2_def s1_def create_process_eq same)
  have notdead: "processes s j = Some b \<Longrightarrow> b \<noteq> a" for j b using dead by (auto simp: alive_def)
  have q: "queue_wf s2"
    using wf(2) assms(2) mb notdead unfolding queue_wf_def m(2,3,4)
    by (auto simp: m(1) dest: notdead split: if_splits)
  have "proc_wf s2"
    unfolding s2_def by (rule set_process_proc_wf [OF pw1(1)]) (simp_all)
  moreover have "resource_wf s2" using pw1(2) by (simp add: s2_def resource_wf_def targets_of_def)
  moreover have "order_but a s2"
  proof -
    have "b \<noteq> a \<Longrightarrow> waiting_tasks s2 i b = waiting_tasks s1 i b" for i b by (simp add: waiting_tasks_def s2_def)
    then show ?thesis using pw1(3) unfolding order_but_def by (simp add: s2_def)
  qed
  moreover have "alive s2 a" using pw1(4) by (simp add: alive_def s2_def)
  moreover have "accepted_tasks s2 c = []" "started_tasks s2 c = []" "waiting_tasks s2 c a = []"
    "processId (memory s2 a) = c"
    by (simp_all add: waiting_tasks_def m(1,3) process_new_def) (simp_all add: s2_def s1_def create_process_eq)
  ultimately have "sched_inv s2" using q by (intro sched_invI [of s2 a]) simp_all
  then show ?thesis by (simp add: add_controller_def None s2_def s1_def s0_def Let_def)
qed (simp add: add_controller_def assms(1))


lemma remove_controller_inv:
  assumes "sched_inv s"
  shows "sched_inv (remove_controller c s)"
proof (cases "processes s c")
  case (Some a)
  have alive: "alive s a" using Some by (auto simp: alive_def)
  have "same_but_reserved s (set_process a ((memory s a)\<lparr>terminateReserved := True\<rparr>) s)"
    by (simp add: same_but_reserved_def)
  from same_but_reserved_inv [OF assms this] exit_process_inv [OF assms alive] Some
  show ?thesis by (simp add: remove_controller_def holds_nothing_def)
qed (simp add: remove_controller_def assms)

lemma entities_inv:
  assumes "sched_inv s" and "\<And>i r. m i = Some r \<Longrightarrow>
      resources s i = Some r \<or> r = resource_new \<and> list_all (\<lambda>a. i \<notin> set (targets_of a s)) (stateSets s Running)"
  shows "sched_inv (s\<lparr>resources := m\<rparr>)"
proof -
  let ?s = "s\<lparr>resources := m\<rparr>"
  have "resource_wf ?s"
    unfolding resource_wf_def
  proof (intro allI impI)
    fix i r assume "resources ?s i = Some r"
    then consider "resources s i = Some r"
      | "r = resource_new" "list_all (\<lambda>a. i \<notin> set (targets_of a s)) (stateSets s Running)"
      using assms(2) [of i r] by auto
    then show "(assigned r \<longleftrightarrow> acquired r \<noteq> None)
      \<and> (\<forall>a. acquired r = Some a \<longleftrightarrow> a \<in> set (stateSets ?s Running) \<and> i \<in> set (targets_of a ?s))"
    proof cases
      case 1
      have "resource_wf s" using assms(1) by (simp add: sched_inv_def)
      from resource_wfD [OF this 1] show ?thesis by (simp add: targets_of_def)
    next
      case 2
      then show ?thesis by (auto simp: resource_new_def list_all_iff targets_of_def)
    qed
  qed
  moreover have "proc_wf ?s" "queue_wf ?s" "order_wf ?s"
    using assms(1) by (simp_all add: sched_inv_def proc_wf_def alive_def queue_wf_def order_wf_def waiting_tasks_def)
  ultimately show ?thesis by (simp add: sched_inv_def)
qed

lemma add_entity_inv:
  assumes "sched_inv s" and "list_all (\<lambda>a. i \<notin> set (targets_of a s)) (stateSets s Running)"
  shows "sched_inv (add_entity i s)"
proof (cases "resources s i")
  case None
  have "sched_inv (s\<lparr>resources := (resources s)(i \<mapsto> resource_new)\<rparr>)"
    by (rule entities_inv [OF assms(1)]) (use assms(2) in \<open>auto split: if_splits\<close>)
  with None show ?thesis by (simp add: add_entity_def)
qed (simp add: add_entity_def assms(1))

lemma remove_entity_inv: "sched_inv s \<Longrightarrow> sched_inv (remove_entity i s)"
  unfolding remove_entity_def by (rule entities_inv) (auto split: if_splits)

text \<open>Scheduling on a process that waits: the task becomes ready, or starts at once.\<close>

definition accept_task :: "int \<Rightarrow> game_task \<Rightarrow> scheduler \<Rightarrow> scheduler" where
  "accept_task i t s =
     s\<lparr>totalTaskCount := totalTaskCount s + 1,
       accepted_tasks := (accepted_tasks s)(i := accepted_tasks s i @ [t])\<rparr>"

lemma schedule_on_eq:
  "schedule_on a t s =
     (let i = processId (memory s a); s1 = accept_task i t s
      in if proc_state (memory s a) = Waiting then Inr (schedule_ready a t s1)
         else case taskQueues s i of
             None \<Rightarrow> Inl UseAfterFree
           | Some q \<Rightarrow> Inr (s1\<lparr>taskQueues := (taskQueues s)(i \<mapsto> q @ [t])\<rparr>))"
  by (cases "proc_state (memory s a)") (simp_all add: schedule_on_def accept_task_def Let_def split: option.splits)

lemma accept_task_wf:
  assumes "proc_wf s" and "queue_wf s" and "resource_wf s" and "order_but a s" and "alive s a"
    and "i = processId (memory s a)"
  shows "proc_wf (accept_task i t s)" and "queue_wf (accept_task i t s)" and "resource_wf (accept_task i t s)"
    and "order_but a (accept_task i t s)" and "alive (accept_task i t s) a"
proof -
  show "proc_wf (accept_task i t s)" by (rule proc_wf_cong [OF _ _ _ _ assms(1)]) (simp_all add: accept_task_def)
  show "queue_wf (accept_task i t s)" by (rule queue_wf_cong [OF _ _ _ _ assms(2)]) (simp_all add: accept_task_def)
  show "resource_wf (accept_task i t s)" using assms(3) by (simp add: resource_wf_def targets_of_def accept_task_def)
  show "order_but a (accept_task i t s)"
    by (rule order_butI [OF assms(4) _ _ assms(1,5)]) (simp_all add: accept_task_def assms(6))
  show "alive (accept_task i t s) a" using assms(5) by (simp add: alive_def accept_task_def)
qed

lemma ready_process:
  assumes "sched_inv s" and "alive s a" and "proc_state (memory s a) = Ready"
  shows "a \<in> set (stateSets s Ready)"
proof -
  have "proc_wf s" using assms(1) by (simp add: sched_inv_def)
  from proc_wfD(3) [OF this] assms(2,3) show ?thesis by simp
qed

subsection \<open>The functions in flight\<close>

text \<open>
  Each function that was posted has a process that exists, runs and has its task, and each that completes one whose task
  was taken out. Nothing but the function itself ends either.
\<close>

definition in_flight :: "scheduler \<Rightarrow> bool" where
  "in_flight s \<longleftrightarrow> distinct (posted s) \<and> distinct (completing s)
     \<and> (\<forall>a \<in> set (posted s). alive s a \<and> proc_state (memory s a) = Running \<and> proc_task (memory s a) \<noteq> None)
     \<and> (\<forall>a \<in> set (completing s). alive s a \<and> proc_state (memory s a) = Running \<and> proc_task (memory s a) = None)"

lemma in_flightD:
  assumes "in_flight s"
  shows "a \<in> set (posted s) \<Longrightarrow> alive s a \<and> proc_state (memory s a) = Running \<and> proc_task (memory s a) \<noteq> None"
    and "a \<in> set (completing s) \<Longrightarrow> alive s a \<and> proc_state (memory s a) = Running \<and> proc_task (memory s a) = None"
    and "distinct (posted s)" and "distinct (completing s)"
  using assms unfolding in_flight_def by blast+

text \<open>What an operation does to a process that has no function in flight does not matter.\<close>

lemma in_flight_frame:
  assumes "in_flight s" and "posted s' = posted s" and "completing s' = completing s"
    and "\<And>b. b \<in> set (posted s) \<union> set (completing s) \<Longrightarrow> alive s' b
      \<and> proc_state (memory s' b) = proc_state (memory s b) \<and> proc_task (memory s' b) = proc_task (memory s b)"
  shows "in_flight s'"
  using assms unfolding in_flight_def by auto

definition grounded :: "nat \<Rightarrow> scheduler \<Rightarrow> bool" where
  "grounded a s \<longleftrightarrow> a \<notin> set (posted s) \<and> a \<notin> set (completing s)"

lemma groundedI: "in_flight s \<Longrightarrow> \<not> alive s a \<or> proc_state (memory s a) \<noteq> Running \<Longrightarrow> grounded a s"
  by (auto simp: grounded_def in_flight_def)

lemma in_flight_but:
  assumes "in_flight s" and "grounded a s" and "posted s' = posted s" and "completing s' = completing s"
    and "\<And>b. b \<noteq> a \<Longrightarrow> alive s b \<Longrightarrow> alive s' b \<and> memory s' b = memory s b"
  shows "in_flight s'"
proof (rule in_flight_frame [OF assms(1,3,4)])
  fix b assume b: "b \<in> set (posted s) \<union> set (completing s)"
  with assms(2) have "b \<noteq> a" by (auto simp: grounded_def)
  moreover have "alive s b" using b in_flightD(1,2) [OF assms(1), of b] by auto
  ultimately show "alive s' b \<and> proc_state (memory s' b) = proc_state (memory s b) \<and> proc_task (memory s' b) = proc_task (memory s b)"
    using assms(5) [of b] by simp
qed

lemma flight_fields [simp]:
  "posted (change_process_state a st setTask t s) = posted s"
  "completing (change_process_state a st setTask t s) = completing s"
  "posted (create_process i a s) = posted s" "completing (create_process i a s) = completing s"
  "posted (exit_process a s) = posted s" "completing (exit_process a s) = completing s"
  "posted (passed_over a s) = posted s" "completing (passed_over a s) = completing s"
  "posted (accept_task i x s) = posted s" "completing (accept_task i x s) = completing s"
  "posted (start_process a s) = posted s @ [a]" "completing (start_process a s) = completing s"
  by (simp_all add: change_process_state_def state_extract_def state_insert_def create_process_def exit_process_def
      passed_over_def reserve_resource_def accept_task_def start_process_def allocate_resource_def Let_def
      split: option.split)

lemma in_flight_change:
  assumes "in_flight s" and "grounded a s"
  shows "in_flight (change_process_state a st setTask t s)"
  by (rule in_flight_but [OF assms]) simp_all

lemma in_flight_exit:
  assumes "in_flight s" and "grounded a s" and "proc_wf s" and "alive s a"
  shows "in_flight (exit_process a s)"
  by (rule in_flight_but [OF assms(1,2)]) (simp_all add: exit_process_live [OF assms(3,4)] exit_process_eq(2))

lemma in_flight_create:
  assumes "in_flight s" and "\<not> alive s a" and "processes s i = None"
  shows "in_flight (create_process i a s)"
  by (rule in_flight_but [where a = a, OF assms(1) groundedI [OF assms(1)]])
    (simp_all add: assms create_process_live create_process_eq(2))

lemma in_flight_started:
  assumes "in_flight s" and "sched_inv s" and "a \<in> set (stateSets s Ready)"
  shows "in_flight (started a s)"
proof -
  have wf: "proc_wf s" using assms(2) by (simp add: sched_inv_def)
  have a: "alive s a" "proc_state (memory s a) = Ready" using assms(3) proc_wfD(3) [OF wf] by auto
  then have ground: "grounded a s" by (intro groundedI [OF assms(1)]) simp
  have f: "in_flight (change_process_state a Running False None s)" by (rule in_flight_change [OF assms(1) ground])
  have "alive (started a s) b \<longleftrightarrow> alive s b" for b by (simp add: alive_def)
  then show ?thesis
    using f a ground proc_wfD(4) [OF wf a] by (auto simp: in_flight_def grounded_def)
qed

lemma in_flight_try_start_loop:
  "in_flight s \<Longrightarrow> sched_inv s \<Longrightarrow> distinct as \<Longrightarrow> set as \<subseteq> set (stateSets s Ready)
    \<Longrightarrow> in_flight (try_start_loop maxConcurrency concurrency as s)"
proof (induction as arbitrary: concurrency s)
  case (Cons a as)
  then have a: "a \<in> set (stateSets s Ready)" "distinct as" "a \<notin> set as" "set as \<subseteq> set (stateSets s Ready)" by auto
  have "in_flight (try_start_loop maxConcurrency (concurrency + 1) as (started a s))" if "can_start a s"
  proof (rule Cons.IH)
    show "in_flight (started a s)" by (rule in_flight_started [OF Cons.prems(1,2) a(1)])
    show "sched_inv (started a s)" by (rule started_inv [OF Cons.prems(2) a(1) that])
    show "set as \<subseteq> set (stateSets (started a s) Ready)" using started_sets(1) [OF Cons.prems(2) a(1)] a by auto
  qed (rule a(2))
  moreover have "in_flight (try_start_loop maxConcurrency concurrency as (passed_over a s))"
  proof (rule Cons.IH)
    note same = passed_over_same [of s a]
    show "in_flight (passed_over a s)"
      by (rule in_flight_frame [OF Cons.prems(1)])
        (use Cons.prems(1) same in \<open>auto simp: same_but_reserved_def alive_def dest: in_flightD\<close>)
    show "sched_inv (passed_over a s)" by (rule same_but_reserved_inv [OF Cons.prems(2) same])
    show "set as \<subseteq> set (stateSets (passed_over a s) Ready)" using a(4) same_but_reserved_sets [OF same] by simp
  qed (rule a(2))
  ultimately show ?case
    using Cons.prems(1) by (cases "can_start a s") (simp_all only: try_start_loop_Cons if_True if_False split: if_split, simp_all)
qed simp

lemma in_flight_try_start_all: "in_flight s \<Longrightarrow> sched_inv s \<Longrightarrow> in_flight (try_start_all executors s)"
  unfolding try_start_all_def by (rule in_flight_try_start_loop) (auto simp: sched_inv_def dest: proc_wfD(2))

lemma in_flight_cong:
  assumes "in_flight s" and "posted s' = posted s" and "completing s' = completing s"
    and "processes s' = processes s" and "memory s' = memory s"
  shows "in_flight s'"
  using assms by (simp add: in_flight_def alive_def)

lemma in_flight_set_process:
  assumes "in_flight s" and "proc_state p = proc_state (memory s a)" and "proc_task p = proc_task (memory s a)"
  shows "in_flight (set_process a p s)"
proof (rule in_flight_frame [OF assms(1)])
  fix b assume "b \<in> set (posted s) \<union> set (completing s)"
  then have "alive s b" using in_flightD(1,2) [OF assms(1), of b] by auto
  then show "alive (set_process a p s) b \<and> proc_state (memory (set_process a p s) b) = proc_state (memory s b)
      \<and> proc_task (memory (set_process a p s) b) = proc_task (memory s b)"
    using assms(2,3) by (simp add: alive_def)
qed simp_all

lemma in_flight_settle:
  assumes "in_flight s" and "grounded a s" and "proc_wf s" and "alive s a"
  shows "in_flight (settle_process a s)"
proof -
  define s1 where "s1 = s\<lparr>totalTaskCount := totalTaskCount s - 1, completeTaskCount := completeTaskCount s + 1\<rparr>"
  have s1: "in_flight s1" "grounded a s1" "alive s1 a"
    using assms by (simp_all add: s1_def in_flight_def grounded_def alive_def)
  have "proc_wf s1" by (rule proc_wf_cong [OF _ _ _ _ assms(3)]) (simp_all add: s1_def)
  note exit = in_flight_exit [OF s1(1,2) this s1(3)]
  have q: "in_flight (s1\<lparr>taskQueues := m\<rparr>)" "grounded a (s1\<lparr>taskQueues := m\<rparr>)" for m
    using s1 by (simp_all add: in_flight_def grounded_def alive_def)
  show ?thesis
    using exit in_flight_change [OF s1(1,2)] in_flight_change [OF q]
    unfolding settle_process_def Let_def s1_def [symmetric]
    by (auto split: option.split list.split bool.split)
qed

lemma in_flight_on_complete:
  assumes "in_flight s" and "sched_inv s" and "a \<in> set (stateSets s Running)" and "proc_task (memory s a) = None"
    and "a \<notin> set (completing s)"
  shows "in_flight (on_complete executors a s)"
proof -
  have wf: "proc_wf s" "alive s a" using assms(2,3) proc_wfD(3) [of s a Running] by (simp_all add: sched_inv_def)
  have "grounded a s" using assms(4,5) in_flightD(1) [OF assms(1), of a] by (auto simp: grounded_def)
  from in_flight_settle [OF assms(1) this wf] have f: "in_flight (settle_process a s)" .
  then have "in_flight ((settle_process a s)\<lparr>joinPromise := Some True\<rparr>)" by (rule in_flight_cong) simp_all
  with f in_flight_try_start_all [OF f settle_process_inv [OF assms(2-4)]] show ?thesis
    by (simp add: on_complete_settle Let_def)
qed

lemma in_flight_finish:
  assumes "in_flight s" and "a \<in> set (posted s)"
    and "finish_task a (s\<lparr>posted := remove1 a (posted s), completing := a # completing s\<rparr>) = Inr s'"
  shows "in_flight s'"
proof -
  have s': "posted s' = remove1 a (posted s)" "completing s' = a # completing s" "processes s' = processes s"
    "memory s' = (memory s)(a := (memory s a)\<lparr>proc_task := None\<rparr>)"
    using assms(3) by (auto simp: finish_task_def deallocate_resource_def split: option.splits)
  note a = in_flightD(1) [OF assms(1,2)]
  have "a \<notin> set (completing s)" using a in_flightD(2) [OF assms(1), of a] by auto
  moreover have "a \<notin> set (remove1 a (posted s))" using in_flightD(3) [OF assms(1)] by simp
  ultimately show ?thesis
    using assms(1) a unfolding in_flight_def by (auto simp: s' alive_def distinct_remove1)
qed

lemma in_flight_schedule_ready:
  assumes "in_flight s" and "alive s a" and "proc_state (memory s a) = Waiting"
    and "sched_inv (change_process_state a Ready True (Some t) s)"
  shows "in_flight (schedule_ready a t s)"
proof -
  let ?s = "change_process_state a Ready True (Some t) s"
  have "grounded a s" by (rule groundedI [OF assms(1)]) (simp add: assms(3))
  from in_flight_change [OF assms(1) this] have f: "in_flight ?s" .
  have "a \<in> set (stateSets ?s Ready)" by (rule ready_process [OF assms(4)]) (simp_all add: assms(2))
  from in_flight_started [OF f assms(4) this] f show ?thesis by (simp add: schedule_ready_def Let_def)
qed

subsection \<open>Scheduling\<close>

lemma schedule_ready_inv:
  assumes "proc_wf s" and "queue_wf s" and "resource_wf s" and "order_but a s" and "alive s a"
    and "proc_state (memory s a) = Waiting" and "i = processId (memory s a)"
    and "accepted_tasks s i = started_tasks s i" and "taskQueues s i = None \<or> taskQueues s i = Some []"
  shows "sched_inv (schedule_ready a t (accept_task i t s))
    \<and> (in_flight s \<longrightarrow> in_flight (schedule_ready a t (accept_task i t s)))"
proof -
  let ?s1 = "change_process_state a Ready True (Some t) (accept_task i t s)"
  have f: "memory (accept_task i t s) = memory s" "taskQueues (accept_task i t s) = taskQueues s"
    "started_tasks (accept_task i t s) = started_tasks s" "accepted_tasks (accept_task i t s) i = accepted_tasks s i @ [t]"
    by (simp_all add: accept_task_def)
  note wf = accept_task_wf [OF assms(1-5,7), of t]
  have i: "processId (memory s a) = i" and q: "(case taskQueues s i of None \<Rightarrow> [] | Some q \<Rightarrow> q) = []"
    using assms(7,9) by auto
  have inv: "sched_inv ?s1"
    by (rule change_process_inv [OF wf(1-5), where q = "[]"])
      (simp_all add: f i q assms(6,8) holds_nothing_def)
  have "in_flight (schedule_ready a t (accept_task i t s))" if "in_flight s"
  proof (rule in_flight_schedule_ready [OF _ wf(5) _ inv])
    show "in_flight (accept_task i t s)" by (rule in_flight_cong [OF that]) (simp_all add: accept_task_def)
  qed (simp add: f assms(6))
  moreover note inv
  moreover from this have "a \<in> set (stateSets ?s1 Ready)" by (rule ready_process) (simp_all add: wf)
  ultimately show ?thesis using started_inv [of ?s1 a] by (simp add: schedule_ready_def Let_def)
qed

lemma schedule_on_inv:
  assumes "sched_inv s" and "processes s c = Some a" and "0 \<le> c"
  shows "\<exists>s'. schedule_on a t s = Inr s' \<and> sched_inv s' \<and> (in_flight s \<longrightarrow> in_flight s')"
proof -
  have wf: "proc_wf s" "queue_wf s" "resource_wf s" "order_wf s" using assms(1) by (simp_all add: sched_inv_def)
  have alive: "alive s a" using assms(2) by (auto simp: alive_def)
  have c: "processId (memory s a) = c" using proc_wfD(1) [OF wf(1) assms(2)] .
  obtain q where q: "taskQueues s c = Some q" using queue_wfD(1) [OF wf(2) assms(2,3)] by blast
  note o = order_wfD [OF wf(4) assms(2)]
  have ob: "order_but a s" using wf(4) by (auto simp: order_wf_def order_but_def)
  show ?thesis
  proof (cases "proc_state (memory s a) = Waiting")
    case True
    with o q have "q = []" "accepted_tasks s c = started_tasks s c" by (simp_all add: waiting_tasks_def)
    with schedule_ready_inv [OF wf(1-3) ob alive True c [symmetric], of t] q True c
    show ?thesis by (simp add: schedule_on_eq Let_def)
  next
    case False
    let ?s = "(accept_task c t s)\<lparr>taskQueues := (taskQueues s)(c \<mapsto> q @ [t])\<rparr>"
    note awf = accept_task_wf [OF wf(1-3) ob alive c [symmetric], of t]
    have "sched_inv ?s"
    proof (rule sched_invI [of _ a])
      show "proc_wf ?s" by (rule proc_wf_cong [OF _ _ _ _ awf(1)]) simp_all
      show "queue_wf ?s" using awf(2) q assms(2,3) by (auto simp: queue_wf_def accept_task_def)
      show "resource_wf ?s" using awf(3) by (simp add: resource_wf_def targets_of_def)
      show "order_but a ?s"
        by (rule order_butI [OF awf(4) _ _ awf(1,5)]) (simp_all add: accept_task_def c)
      show "alive ?s a" using awf(5) by (simp add: alive_def)
      show "accepted_tasks ?s (processId (memory ?s a)) =
          started_tasks ?s (processId (memory ?s a)) @ waiting_tasks ?s (processId (memory ?s a)) a"
        using o(1) q c by (simp add: accept_task_def waiting_tasks_def)
      show "waiting_tasks ?s (processId (memory ?s a)) a = []" if "proc_state (memory ?s a) = Waiting"
        using that False by (simp add: accept_task_def)
    qed
    moreover have "in_flight ?s" if "in_flight s" by (rule in_flight_cong [OF that]) (simp_all add: accept_task_def)
    ultimately show ?thesis using False q c by (simp add: schedule_on_eq Let_def)
  qed
qed


lemma schedule_temporary_inv:
  assumes "sched_inv s" and "address_ok a s" and "i = nextTempProcessId s - 1"
  shows "\<exists>s'. schedule_on a t (create_process i a (s\<lparr>nextTempProcessId := i\<rparr>)) = Inr s' \<and> sched_inv s'
    \<and> (in_flight s \<longrightarrow> in_flight s')"
proof -
  have wf: "proc_wf s" "queue_wf s" "resource_wf s" "order_wf s" using assms(1) by (simp_all add: sched_inv_def)
  have dead: "\<not> alive s a" by (rule address_ok_not_live [OF wf(1) assms(2)])
  have neg: "i < 0" using wf(2) assms(3) by (simp add: queue_wf_def)
  have i: "processes s i = None"
    using queue_wfD(2) [OF wf(2), of i] neg assms(3) by (cases "processes s i") auto
  have tq: "taskQueues s i = None" using wf(2) neg unfolding queue_wf_def by force
  define s0 where "s0 = s\<lparr>nextTempProcessId := i\<rparr>"
  have same: "processes s0 = processes s" "memory s0 = memory s" "taskQueues s0 = taskQueues s"
    "alive s0 a = alive s a" by (simp_all add: s0_def alive_def)
  have pw0: "proc_wf s0" by (rule proc_wf_cong [OF _ _ _ _ wf(1)]) (simp_all add: s0_def)
  have res0: "resource_wf s0" using wf(3) by (simp add: resource_wf_def targets_of_def s0_def)
  have ord0: "order_wf s0" using wf(4) by (simp add: order_wf_def waiting_tasks_def s0_def)
  define s1 where "s1 = create_process i a s0"
  have m: "memory s1 a = process_new i" "taskQueues s1 = taskQueues s" "accepted_tasks s1 i = []"
    "started_tasks s1 i = []" "processes s1 = (processes s)(i \<mapsto> a)" "nextTempProcessId s1 = i"
    by (simp_all add: s1_def create_process_eq same) (simp add: s0_def)
  have mb: "b \<noteq> a \<Longrightarrow> memory s1 b = memory s b" for b by (simp add: s1_def create_process_eq same)
  have notdead: "processes s j = Some b \<Longrightarrow> b \<noteq> a" for j b using dead by (auto simp: alive_def)
  have "queue_wf s1"
    unfolding queue_wf_def m(2,5,6)
  proof (intro conjI allI impI)
    fix j b assume b: "((processes s)(i \<mapsto> a)) j = Some b"
    show "taskQueueId (memory s1 b) = Some j" "taskQueues s j \<noteq> None" if "0 \<le> j"
      using that neg b queue_wfD(1) [OF wf(2), of j b] mb [of b] notdead [of j b] by (auto split: if_splits)
    show "taskQueueId (memory s1 b) = None" "i \<le> j" if "j < 0"
      using that b queue_wfD(2) [OF wf(2), of j b] mb [of b] notdead [of j b] assms(3) m(1)
      by (auto simp: process_new_def split: if_splits)
  next
    fix q assume "taskQueues s q \<noteq> None"
    with wf(2) show "0 \<le> q" "((processes s)(i \<mapsto> a)) q \<noteq> None" by (auto simp: queue_wf_def)
  qed (rule neg)
  moreover have "proc_wf s1" "resource_wf s1" "order_but a s1" "alive s1 a"
    unfolding s1_def
    using create_process_wf [OF pw0, of a i] create_process_resource_wf [OF pw0 res0, of a i]
      create_process_order [OF ord0, of i a] create_process_live [of s0 i a a] dead i
    by (simp_all add: same)
  ultimately have "sched_inv (schedule_ready a t (accept_task i t s1))
      \<and> (in_flight s1 \<longrightarrow> in_flight (schedule_ready a t (accept_task i t s1)))"
    by (intro schedule_ready_inv) (simp_all add: m tq process_new_def)
  moreover have "in_flight s1" if "in_flight s"
    unfolding s1_def
  proof (rule in_flight_create)
    show "in_flight s0" by (rule in_flight_cong [OF that]) (simp_all add: s0_def)
  qed (simp_all add: same dead i)
  ultimately show ?thesis
    unfolding s0_def [symmetric] s1_def [symmetric]
    by (simp add: schedule_on_eq Let_def m process_new_def)
qed

lemma schedule_task_inv:
  assumes "sched_inv s" and "sched_allowed (Schedule t c prepared a) s"
  shows "\<exists>s'. schedule_task t c prepared a s = Inr s' \<and> sched_inv s' \<and> (in_flight s \<longrightarrow> in_flight s')"
proof (cases "sched_shutdown s \<or> \<not> prepared")
  case False
  show ?thesis
  proof (cases c)
    case None
    with assms(2) have "address_ok a s" by simp
    from schedule_temporary_inv [OF assms(1) this refl] False None
    show ?thesis by (simp add: schedule_task_def Let_def)
  next
    case (Some k)
    with assms(2) have "0 \<le> k" by simp
    with schedule_on_inv [OF assms(1), of k _ t] False Some assms(1)
    show ?thesis by (cases "processes s k") (auto simp: schedule_task_def)
  qed
qed (simp add: schedule_task_def assms(1))

lemma in_flight_add_controller:
  assumes "in_flight s" and "sched_inv s" and "0 \<le> c" and "address_ok a s"
  shows "in_flight (add_controller c a s)"
proof (cases "taskQueues s c")
  case None
  have wf: "proc_wf s" "queue_wf s" using assms(2) by (simp_all add: sched_inv_def)
  have c: "processes s c = None" using queue_wfD(1) [OF wf(2), of c] None assms(3) by (cases "processes s c") auto
  let ?s0 = "s\<lparr>taskQueues := (taskQueues s)(c \<mapsto> [])\<rparr>"
  have "in_flight ?s0" by (rule in_flight_cong [OF assms(1)]) simp_all
  then have "in_flight (create_process c a ?s0)"
    by (rule in_flight_create) (use c address_ok_not_live [OF wf(1) assms(4)] in \<open>simp_all add: alive_def\<close>)
  then have "in_flight (set_process a ((memory (create_process c a ?s0) a)\<lparr>taskQueueId := Some c\<rparr>) (create_process c a ?s0))"
    by (rule in_flight_set_process) simp_all
  then show ?thesis by (simp add: add_controller_def None Let_def)
qed (simp add: add_controller_def assms(1))

lemma in_flight_remove_controller:
  assumes "in_flight s" and "sched_inv s"
  shows "in_flight (remove_controller c s)"
proof (cases "processes s c")
  case (Some a)
  have "in_flight (set_process a ((memory s a)\<lparr>terminateReserved := True\<rparr>) s)"
    by (rule in_flight_set_process [OF assms(1)]) simp_all
  moreover have "in_flight (exit_process a s)" if "proc_state (memory s a) \<noteq> Running"
    using that assms Some
    by (intro in_flight_exit [OF assms(1) groundedI [OF assms(1)]]) (auto simp: sched_inv_def alive_def)
  ultimately show ?thesis using Some by (simp add: remove_controller_def)
qed (simp add: remove_controller_def assms(1))

text \<open>Whatever the surroundings do, no step fails and the invariants stay.\<close>

lemma sched_step_ok:
  assumes "sched_inv s" and "in_flight s" and "sched_allowed e s"
  shows "\<exists>s'. sched_step executors e s = Inr s' \<and> sched_inv s' \<and> in_flight s'"
proof (cases e)
  case (AddController c a)
  then show ?thesis using add_controller_inv [OF assms(1)] in_flight_add_controller [OF assms(2,1)] assms(3) by simp
next
  case (RemoveController c)
  then show ?thesis using remove_controller_inv [OF assms(1)] in_flight_remove_controller [OF assms(2,1)] by simp
next
  case (AddEntity i)
  have "in_flight (add_entity i s)"
    by (rule in_flight_cong [OF assms(2)]) (simp_all add: add_entity_def split: option.split)
  then show ?thesis using AddEntity add_entity_inv [OF assms(1)] assms(3) by simp
next
  case (RemoveEntity i)
  have "in_flight (remove_entity i s)" by (rule in_flight_cong [OF assms(2)]) (simp_all add: remove_entity_def)
  then show ?thesis using RemoveEntity remove_entity_inv [OF assms(1)] by simp
next
  case (Schedule t c prepared a)
  then show ?thesis using schedule_task_inv [OF assms(1), of t c prepared a] assms(2,3) by auto
next
  case (Finish a)
  let ?s = "s\<lparr>posted := remove1 a (posted s), completing := a # completing s\<rparr>"
  have a: "a \<in> set (posted s)" using Finish assms(3) by simp
  note run = in_flightD(1) [OF assms(2) this]
  then obtain s' where s': "finish_task a ?s = Inr s'" by (cases "finish_task a ?s") (auto simp: finish_task_def)
  have "sched_inv ?s" by (rule same_but_reserved_inv [OF assms(1)]) (simp add: same_but_reserved_def)
  from finish_task_inv [OF this _ s'] have "sched_inv s'"
    using run proc_wfD(3) [of s a Running] assms(1) by (simp add: sched_inv_def)
  with s' Finish in_flight_finish [OF assms(2) a s'] show ?thesis by simp
next
  case (Completed a)
  let ?s = "s\<lparr>completing := remove1 a (completing s)\<rparr>"
  have a: "a \<in> set (completing s)" using Completed assms(3) by simp
  note run = in_flightD(2) [OF assms(2) this]
  have inv: "sched_inv ?s" by (rule same_but_reserved_inv [OF assms(1)]) (simp add: same_but_reserved_def)
  have a': "a \<in> set (stateSets ?s Running)" "proc_task (memory ?s a) = None" "a \<notin> set (completing ?s)"
    using run proc_wfD(3) [of s a Running] assms(1) in_flightD(4) [OF assms(2)] by (simp_all add: sched_inv_def)
  have "in_flight ?s" using assms(2) unfolding in_flight_def by (simp add: alive_def distinct_remove1 set_remove1_eq)
  from in_flight_on_complete [OF this inv a'] on_complete_inv [OF inv a'(1,2)] run Completed show ?thesis
    by (simp add: complete_task_def)
next
  case ShutdownScheduler
  have "sched_inv (s\<lparr>sched_shutdown := True\<rparr>)"
    by (rule same_but_reserved_inv [OF assms(1)]) (simp add: same_but_reserved_def)
  moreover have "in_flight (s\<lparr>sched_shutdown := True\<rparr>)" by (rule in_flight_cong [OF assms(2)]) simp_all
  ultimately show ?thesis using ShutdownScheduler by simp
next
  case JoinScheduler
  have "sched_inv (s\<lparr>joinPromise := Some False\<rparr>)"
    by (rule same_but_reserved_inv [OF assms(1)]) (simp add: same_but_reserved_def)
  moreover have "in_flight (s\<lparr>joinPromise := Some False\<rparr>)" by (rule in_flight_cong [OF assms(2)]) simp_all
  ultimately show ?thesis using JoinScheduler assms(1,2) by (simp add: join_scheduler_def)
qed

lemma scheduler_new_inv: "sched_inv scheduler_new" "in_flight scheduler_new"
  by (simp_all add: sched_inv_def proc_wf_def queue_wf_def resource_wf_def order_wf_def scheduler_new_def alive_def
      in_flight_def)

lemma sched_reach_ok: "sched_reach executors s \<Longrightarrow> sched_inv s \<and> in_flight s"
proof (induction rule: sched_reach.induct)
  case init
  show ?case by (simp add: scheduler_new_inv)
next
  case (step s e s')
  from sched_step_ok [of s e executors] step.IH step.hyps(2,3) show ?case by auto
qed

lemmas sched_reach_inv = conjunct1 [OF sched_reach_ok]

lemma sched_run_reach: "sched_reach executors s \<Longrightarrow> sched_run executors es s = Inr s' \<Longrightarrow> sched_reach executors s'"
proof (induction es arbitrary: s)
  case (Cons e es)
  from Cons.prems(2) obtain s1 where "sched_allowed e s" "sched_step executors e s = Inr s1"
    "sched_run executors es s1 = Inr s'"
    by (auto simp: and_then_def split: if_splits sum.splits)
  with Cons.IH sched_reach.step [OF Cons.prems(1)] show ?case by blast
qed simp

subsection \<open>What the scheduler promises\<close>

lemma distinct_single: "set xs = {a} \<Longrightarrow> distinct xs \<Longrightarrow> xs = [a]"
  by (cases xs) (auto simp: subset_singleton_iff)

text \<open>
  C5: An entity that a running task names is locked by that task, and no other running task names it, in every
  state that the scheduler reaches.
\<close>

theorem running_task_locks_its_entities:
  assumes "sched_reach executors s" and "a \<in> set (stateSets s Running)" and "i \<in> set (targets_of a s)"
    and "resources s i = Some r"
  shows "assigned r \<and> acquired r = Some a \<and> filter (\<lambda>b. i \<in> set (targets_of b s)) (stateSets s Running) = [a]"
proof -
  from sched_reach_inv [OF assms(1)] have wf: "proc_wf s" "resource_wf s" by (simp_all add: sched_inv_def)
  note r = resource_wfD [OF wf(2) assms(4)]
  have a: "acquired r = Some a" using r(2) assms(2,3) by simp
  let ?l = "filter (\<lambda>b. i \<in> set (targets_of b s)) (stateSets s Running)"
  have "b \<in> set ?l \<longleftrightarrow> acquired r = Some b" for b using r(2) by simp
  with a have "set ?l = {a}" by auto
  moreover have "distinct ?l" using proc_wfD(2) [OF wf(1)] by simp
  ultimately have "?l = [a]" by (rule distinct_single)
  with a r(1) show ?thesis by simp
qed

definition sample_task :: "nat \<Rightarrow> int list \<Rightarrow> game_task" where
  "sample_task n ids = \<lparr>taskName = n, creationTime = int n, targetIds = ids\<rparr>"

text \<open>Two controllers and an entity; the task of the first runs, that of the second waits for the entity.\<close>

definition sample_contest :: "sched_event list" where
  "sample_contest =
     [AddEntity 5, AddController 1 0, AddController 2 1,
      Schedule (sample_task 1 [5]) (Some 1) True 0, Schedule (sample_task 2 [5]) (Some 2) True 0,
      Schedule (sample_task 3 [5]) (Some 1) True 0]"

definition sample_contested :: scheduler where
  "sample_contested = projr (sched_run 4 sample_contest scheduler_new)"

lemma sample_contested_facts:
  "isl (sched_run 4 sample_contest scheduler_new) = False"
  "stateSets sample_contested Running = [0]" "stateSets sample_contested Ready = [1]"
  "targets_of 0 sample_contested = [5]"
  "map_option assigned (resources sample_contested 5) = Some True"
  "processes sample_contested 1 = Some 0"
  "started_tasks sample_contested 1 = [sample_task 1 [5]]"
  "accepted_tasks sample_contested 1 = [sample_task 1 [5], sample_task 3 [5]]"
  by code_simp+

lemma sample_contested_posted: "posted sample_contested = [0]"
  by code_simp

lemma sample_contested_reach: "sched_reach 4 sample_contested"
proof (rule sched_run_reach [OF sched_reach.init])
  show "sched_run 4 sample_contest scheduler_new = Inr sample_contested"
    using sample_contested_facts(1) unfolding sample_contested_def by (cases "sched_run 4 sample_contest scheduler_new") auto
qed


theorem running_task_locks_its_entities_witness:
  "\<exists>r. resources sample_contested 5 = Some r \<and> assigned r \<and> acquired r = Some 0
    \<and> filter (\<lambda>b. 5 \<in> set (targets_of b sample_contested)) (stateSets sample_contested Running) = [0]"
proof -
  obtain r where "resources sample_contested 5 = Some r" using sample_contested_facts(5) by auto
  with running_task_locks_its_entities [OF sample_contested_reach, of 0 5 r] sample_contested_facts(2,4)
  show ?thesis by simp
qed

text \<open>
  C6: What is scheduled for a controller starts in the order in which it was scheduled and nothing is lost: the tasks
  accepted so far are those started, then the one that is ready, then those in the queue.
\<close>

theorem tasks_start_in_order:
  assumes "sched_reach executors s" and "processes s i = Some a"
  shows "accepted_tasks s i = started_tasks s i @ waiting_tasks s i a"
  using sched_reach_inv [OF assms(1)] order_wfD(1) [of s i a] assms(2) by (simp add: sched_inv_def)

theorem tasks_start_in_order_witness:
  "[sample_task 1 [5], sample_task 3 [5]] = [sample_task 1 [5]] @ waiting_tasks sample_contested 1 0"
  using tasks_start_in_order [OF sample_contested_reach, of 1 0] sample_contested_facts(6-8) by simp

text \<open>
  C7: Whatever is scheduled, added, removed and shut down in whatever order, no operation fails: a process that has a task
  and gets another has a queue for it, and when a function that \<^verbatim>\<open>Start\<close> posted is back on the strand, at any later time,
  the process it has captured exists, runs and still has its task, which \<^verbatim>\<open>ReleaseTask\<close> takes; when it comes to \<^verbatim>\<open>OnComplete\<close>,
  the process still runs and has no task, as asserted there. No process has two functions that were posted.
\<close>

theorem scheduler_never_fails:
  assumes "sched_reach executors s" and "sched_allowed e s"
  shows "\<not> isl (sched_step executors e s) \<and> distinct (posted s @ completing s)
    \<and> (\<forall>a \<in> set (posted s). alive s a \<and> proc_state (memory s a) = Running \<and> proc_task (memory s a) \<noteq> None)"
proof -
  have inv: "sched_inv s" "in_flight s" using sched_reach_ok [OF assms(1)] by simp_all
  from in_flightD [OF this(2)] have "set (posted s) \<inter> set (completing s) = {}" by blast
  with in_flightD [OF inv(2)] sched_step_ok [OF inv assms(2), of executors] show ?thesis by auto
qed

theorem scheduler_never_fails_witness:
  "\<not> isl (sched_step 4 (Finish 0) sample_contested) \<and> posted sample_contested = [0]"
  using scheduler_never_fails [OF sample_contested_reach, of "Finish 0"] sample_contested_posted by simp

text \<open>
  C8: When \<^verbatim>\<open>TryStartAll\<close> returns, as many tasks run as there are executors, or no process that is ready could be
  started, but for those that reserved their entities in this very pass.
\<close>

theorem try_start_all_leaves_nothing:
  assumes "sched_reach executors s"
  shows "max 1 executors \<le> int (length (stateSets (try_start_all executors s) Running))
    \<or> list_all (\<lambda>d. \<not> left_behind d (try_start_all executors s)) (stateSets (try_start_all executors s) Ready)"
proof -
  have inv: "sched_inv s" by (rule sched_reach_inv [OF assms])
  then have "proc_wf s" by (simp add: sched_inv_def)
  from proc_wfD(2) [OF this, of Ready] show ?thesis
    by (intro try_start_loop_leaves_nothing [OF inv]) (simp_all add: try_start_all_def)
qed

theorem try_start_all_leaves_nothing_witness:
  "max 1 4 \<le> int (length (stateSets (try_start_all 4 sample_contested) Running))
    \<or> list_all (\<lambda>d. \<not> left_behind d (try_start_all 4 sample_contested))
         (stateSets (try_start_all 4 sample_contested) Ready)"
  by (rule try_start_all_leaves_nothing [OF sample_contested_reach])

text \<open>
  A process of a controller that is removed while it has a reservation keeps it: here the task of controller 2
  starves until it reserves entity 5, controller 2 is removed, the task of controller 1 ends, and then a task that
  names the entity cannot start although no task runs, no other waits and the process that has the reservation is gone.
\<close>

definition sample_removal :: "sched_event list" where
  "sample_removal =
     [AddEntity 5, AddController 1 0, AddController 2 1,
      Schedule (sample_task 1 [5]) (Some 1) True 0, Schedule (sample_task 2 [5]) (Some 2) True 0]
     @ concat (replicate 11 [Schedule (sample_task 3 []) None True 2, Finish 2, Completed 2])
     @ [RemoveController 2, Finish 0, Completed 0, Schedule (sample_task 4 [5]) (Some 1) True 0]"

theorem reservation_outlives_its_process:
  "map_sum id (\<lambda>s. (stateSets s Running, stateSets s Ready, processes s 2,
       map_option (\<lambda>r. (assigned r, reserved r)) (resources s 5), can_start 0 (try_start_all 4 s)))
     (sched_run 4 sample_removal scheduler_new)
   = Inr ([], [0], None, Some (False, {1}), False)"
  by code_simp

end
