(* ===== verification/BehaviorTree.thy ===== *)
theory BehaviorTree
  imports Prelude
begin

text \<open>
  \<^verbatim>\<open>shared/ai/behavior_tree\<close>: the behaviour trees that drive monsters and bots. A tree is run with an explicit
  stack and a set of visited nodes, because a leaf is a coroutine that may suspend until an event arrives: the run
  stops in the middle, and goes on when the event is notified.

  The theory proves that what comes out of this, over any sequence of events, is what the recursive reading of the
  tree says: a sequence runs its children up to the first that fails, a selector up to the first that succeeds, a
  decorator changes the result of its child, and a suspended leaf takes the events it waits for and ignores the others.
\<close>

subsection \<open>Nodes\<close>

datatype node_state = Success | Failure | Running

datatype branch_kind = Sequence | Selector

datatype decorator_kind = Inverter | ForceSuccess | ForceFailure

text \<open>
  A node with its address, the way a \<^verbatim>\<open>NodePtr\<close> reaches it; \<open>'k\<close> are the leaves of the program. A decorator whose
  \<^verbatim>\<open>SetChild\<close> was never called has no child.
\<close>

datatype 'k bt_node =
    Branch nat branch_kind "'k bt_node list"
  | Decorator nat decorator_kind "'k bt_node option"
  | Leaf nat 'k

fun address :: "'k bt_node \<Rightarrow> nat" where
  "address (Branch a _ _) = a"
| "address (Decorator a _ _) = a"
| "address (Leaf a _) = a"

fun should_continue :: "branch_kind \<Rightarrow> node_state \<Rightarrow> bool" where
  "should_continue Sequence childState = (case childState of Success \<Rightarrow> True | Failure \<Rightarrow> False | Running \<Rightarrow> False)"
| "should_continue Selector childState = (case childState of Success \<Rightarrow> False | Failure \<Rightarrow> True | Running \<Rightarrow> False)"

fun decorate :: "decorator_kind \<Rightarrow> node_state \<Rightarrow> node_state" where
  "decorate Inverter st = (if st = Success then Failure else Success)"
| "decorate ForceSuccess st = Success"
| "decorate ForceFailure st = Failure"

text \<open>
  What a leaf is to the tree: code that starts on the blackboard and finishes or suspends, the events a suspended
  coroutine waits for, and its resumption; without an event the variant it gets is the default one.
\<close>

datatype 'l outcome = Finished bool | Suspended 'l

record ('k, 'l, 'e, 's) leaf_code =
  leaf_start :: "'k \<Rightarrow> 's \<Rightarrow> 'l outcome \<times> 's"
  leaf_awaits :: "'l \<Rightarrow> 'e \<Rightarrow> bool"
  leaf_resume :: "'l \<Rightarrow> 'e option \<Rightarrow> 's \<Rightarrow> 'l outcome \<times> 's"

definition return_value :: "bool \<Rightarrow> node_state" where
  "return_value success = (if success then Success else Failure)"

subsection \<open>The state of a run\<close>

text \<open>\<^verbatim>\<open>Result::promise_type\<close>; \<open>eventChecker\<close> is whether \<^verbatim>\<open>_eventChecker\<close> is set.\<close>

record ('l, 'e) promise =
  frame :: 'l
  promise_state :: node_state
  event :: "'e option"
  eventChecker :: bool

datatype 'e bt_log =
    TreeStart
  | NodeStart nat
  | NodeSuspend nat
  | NodeResume nat 'e
  | NodeEnd nat bool
  | TreeEnd bool
  | TreeFinalize

text \<open>\<open>indices\<close> are the \<^verbatim>\<open>_index\<close> of the branches, \<open>signals\<close> counts the calls of signal handlers.\<close>

record ('k, 'l, 'e, 's) behavior_tree =
  blackBoard :: 's
  finalized :: bool
  rootNode :: "'k bt_node"
  currentState :: node_state
  stack :: "'k bt_node list"
  visited :: "nat set"
  indices :: "nat \<Rightarrow> nat"
  runningNodeCoroutine :: "('l, 'e) promise option"
  stopRequested :: bool
  signalHandler :: bool
  signals :: nat
  bt_logs :: "'e bt_log list"

definition behavior_tree_new :: "'s \<Rightarrow> 'k bt_node \<Rightarrow> ('k, 'l, 'e, 's) behavior_tree" where
  "behavior_tree_new s root =
     \<lparr>blackBoard = s, finalized = False, rootNode = root, currentState = Success, stack = [], visited = {},
      indices = (\<lambda>_. 0), runningNodeCoroutine = None, stopRequested = False, signalHandler = False, signals = 0,
      bt_logs = []\<rparr>"

definition bt_log :: "'e bt_log \<Rightarrow> ('k, 'l, 'e, 's) behavior_tree \<Rightarrow> ('k, 'l, 'e, 's) behavior_tree" where
  "bt_log e t = t\<lparr>bt_logs := bt_logs t @ [e]\<rparr>"

subsection \<open>Traversal\<close>

text \<open>One round of the loop of \<^verbatim>\<open>Traverse\<close>: it goes on with the next round or breaks off.\<close>

definition visit :: "nat \<Rightarrow> ('k, 'l, 'e, 's) behavior_tree \<Rightarrow> ('k, 'l, 'e, 's) behavior_tree" where
  "visit a t = bt_log (NodeStart a) (t\<lparr>visited := insert a (visited t)\<rparr>)"

definition node_end :: "nat \<Rightarrow> ('k, 'l, 'e, 's) behavior_tree \<Rightarrow> ('k, 'l, 'e, 's) behavior_tree" where
  "node_end a t = (bt_log (NodeEnd a (currentState t = Success)) t)\<lparr>stack := tl (stack t)\<rparr>"

definition push_next ::
  "nat \<Rightarrow> 'k bt_node list \<Rightarrow> ('k, 'l, 'e, 's) behavior_tree \<Rightarrow> fault + ('k, 'l, 'e, 's) behavior_tree" where
  "push_next a children t =
     (if indices t a < length children
      then Inr (t\<lparr>stack := children ! indices t a # stack t, indices := (indices t)(a := indices t a + 1)\<rparr>)
      else Inl OutOfBounds)"

datatype 'a progress = Continue 'a | Break 'a

definition traverse_branch ::
  "nat \<Rightarrow> branch_kind \<Rightarrow> 'k bt_node list \<Rightarrow> ('k, 'l, 'e, 's) behavior_tree
     \<Rightarrow> fault + ('k, 'l, 'e, 's) behavior_tree progress" where
  "traverse_branch a kind children t =
     (if a \<in> visited t
      then if should_continue kind (currentState t) \<and> indices t a < length children
           then and_then (push_next a children t) (\<lambda>t1. Inr (Continue t1))
           else Inr (Continue (node_end a t))
      else and_then (push_next a children (visit a t)) (\<lambda>t1. Inr (Continue t1)))"

definition traverse_decorator ::
  "nat \<Rightarrow> decorator_kind \<Rightarrow> 'k bt_node option \<Rightarrow> ('k, 'l, 'e, 's) behavior_tree
     \<Rightarrow> fault + ('k, 'l, 'e, 's) behavior_tree progress" where
  "traverse_decorator a kind child t =
     (if a \<in> visited t
      then Inr (Continue (node_end a (t\<lparr>currentState := decorate kind (currentState t)\<rparr>)))
      else case child of
          None \<Rightarrow> Inl NullDeref
        | Some c \<Rightarrow> (let t1 = visit a t in Inr (Continue (t1\<lparr>stack := c # stack t1\<rparr>))))"

text \<open>\<^verbatim>\<open>Leaf::Execute\<close>, and what the coroutine leaves in its promise when it suspends.\<close>

definition suspended_promise :: "'l \<Rightarrow> ('l, 'e) promise" where
  "suspended_promise l = \<lparr>frame = l, promise_state = Running, event = None, eventChecker = True\<rparr>"

definition traverse_leaf ::
  "('k, 'l, 'e, 's) leaf_code \<Rightarrow> nat \<Rightarrow> 'k \<Rightarrow> ('k, 'l, 'e, 's) behavior_tree
     \<Rightarrow> fault + ('k, 'l, 'e, 's) behavior_tree progress" where
  "traverse_leaf code a k t =
     (if a \<in> visited t
      then (case runningNodeCoroutine t of
          None \<Rightarrow> Inl NullDeref
        | Some p \<Rightarrow>
            let t1 = t\<lparr>currentState := promise_state p\<rparr>
            in if currentState t1 = Running then Inr (Break t1)
               else Inr (Continue (node_end a (t1\<lparr>runningNodeCoroutine := None\<rparr>))))
      else let t1 = visit a t
           in case leaf_start code k (blackBoard t1) of
                (Finished success, s) \<Rightarrow>
                  Inr (Continue (node_end a (t1\<lparr>blackBoard := s, currentState := return_value success\<rparr>)))
              | (Suspended l, s) \<Rightarrow>
                  Inr (Break (bt_log (NodeSuspend a)
                    (t1\<lparr>blackBoard := s, currentState := Running,
                        runningNodeCoroutine := Some (suspended_promise l)\<rparr>))))"

definition traverse_round ::
  "('k, 'l, 'e, 's) leaf_code \<Rightarrow> ('k, 'l, 'e, 's) behavior_tree
     \<Rightarrow> fault + ('k, 'l, 'e, 's) behavior_tree progress" where
  "traverse_round code t =
     (case stack t of
        [] \<Rightarrow> Inr (Break t)
      | Branch a kind children # _ \<Rightarrow> traverse_branch a kind children t
      | Decorator a kind child # _ \<Rightarrow> traverse_decorator a kind child t
      | Leaf a k # _ \<Rightarrow> traverse_leaf code a k t)"

text \<open>The loop; \<open>None\<close> would be a traversal that never comes back.\<close>

partial_function (option) traverse_loop ::
  "('k, 'l, 'e, 's) leaf_code \<Rightarrow> ('k, 'l, 'e, 's) behavior_tree
     \<Rightarrow> (fault + ('k, 'l, 'e, 's) behavior_tree) option" where
  [code]: "traverse_loop code t =
     (case traverse_round code t of
        Inl e \<Rightarrow> Some (Inl e)
      | Inr p \<Rightarrow> (case p of Continue t1 \<Rightarrow> traverse_loop code t1 | Break t1 \<Rightarrow> Some (Inr t1)))"

text \<open>\<^verbatim>\<open>FinalizeTraverse\<close> resets the visited nodes, a branch its index.\<close>

definition finalize_traverse :: "('k, 'l, 'e, 's) behavior_tree \<Rightarrow> ('k, 'l, 'e, 's) behavior_tree" where
  "finalize_traverse t =
     t\<lparr>indices := (\<lambda>a. if a \<in> visited t then 0 else indices t a), visited := {}, currentState := Success\<rparr>"

definition traverse_end :: "('k, 'l, 'e, 's) behavior_tree \<Rightarrow> ('k, 'l, 'e, 's) behavior_tree" where
  "traverse_end t =
     (if stack t = [] then finalize_traverse (bt_log (TreeEnd (currentState t = Success)) t) else t)"

definition traverse ::
  "('k, 'l, 'e, 's) leaf_code \<Rightarrow> ('k, 'l, 'e, 's) behavior_tree
     \<Rightarrow> (fault + ('k, 'l, 'e, 's) behavior_tree) option" where
  "traverse code t = map_option (\<lambda>r. and_then r (\<lambda>t1. Inr (traverse_end t1))) (traverse_loop code t)"


subsection \<open>Operations of a tree\<close>

definition is_awaiting :: "('k, 'l, 'e, 's) behavior_tree \<Rightarrow> bool" where
  "is_awaiting t \<longleftrightarrow> stack t \<noteq> []"

definition can_resume :: "('k, 'l, 'e, 's) behavior_tree \<Rightarrow> bool" where
  "can_resume t \<longleftrightarrow> is_awaiting t \<and> (case runningNodeCoroutine t of None \<Rightarrow> False | Some p \<Rightarrow> event p \<noteq> None)"

definition run_once ::
  "('k, 'l, 'e, 's) leaf_code \<Rightarrow> ('k, 'l, 'e, 's) behavior_tree
     \<Rightarrow> (fault + ('k, 'l, 'e, 's) behavior_tree) option" where
  "run_once code t = (let t1 = bt_log TreeStart t in traverse code (t1\<lparr>stack := rootNode t1 # stack t1\<rparr>))"

text \<open>\<^verbatim>\<open>_runningNodeCoroutine.resume()\<close>: the awaitable takes the event and the coroutine runs on.\<close>

definition resume_coroutine ::
  "('k, 'l, 'e, 's) leaf_code \<Rightarrow> ('l, 'e) promise \<Rightarrow> ('k, 'l, 'e, 's) behavior_tree \<Rightarrow> ('k, 'l, 'e, 's) behavior_tree" where
  "resume_coroutine code p t =
     (case leaf_resume code (frame p) (event p) (blackBoard t) of
        (Finished success, s) \<Rightarrow>
          t\<lparr>blackBoard := s,
            runningNodeCoroutine :=
              Some (p\<lparr>promise_state := return_value success, event := None, eventChecker := False\<rparr>)\<rparr>
      | (Suspended l, s) \<Rightarrow> t\<lparr>blackBoard := s, runningNodeCoroutine := Some (suspended_promise l)\<rparr>)"

definition resume ::
  "('k, 'l, 'e, 's) leaf_code \<Rightarrow> ('k, 'l, 'e, 's) behavior_tree
     \<Rightarrow> (fault + ('k, 'l, 'e, 's) behavior_tree) option" where
  "resume code t =
     (case runningNodeCoroutine t of
        None \<Rightarrow> Some (Inl NullDeref)
      | Some p \<Rightarrow> traverse code (resume_coroutine code p t))"

definition signal :: "('k, 'l, 'e, 's) behavior_tree \<Rightarrow> ('k, 'l, 'e, 's) behavior_tree" where
  "signal t = (if signalHandler t then t\<lparr>signalHandler := False, signals := signals t + 1\<rparr> else t)"

definition request_stop :: "('k, 'l, 'e, 's) behavior_tree \<Rightarrow> ('k, 'l, 'e, 's) behavior_tree" where
  "request_stop t = signal (t\<lparr>stopRequested := True\<rparr>)"

definition set_or_execute_signal_handler :: "('k, 'l, 'e, 's) behavior_tree \<Rightarrow> ('k, 'l, 'e, 's) behavior_tree" where
  "set_or_execute_signal_handler t =
     (if can_resume t \<or> stopRequested t then t\<lparr>signals := signals t + 1\<rparr> else t\<lparr>signalHandler := True\<rparr>)"

text \<open>\<^verbatim>\<open>IsWaitFor\<close> of the type of an event; a tree whose state is \<^verbatim>\<open>Running\<close> has a coroutine.\<close>

definition is_wait_for :: "('k, 'l, 'e, 's) leaf_code \<Rightarrow> 'e \<Rightarrow> ('k, 'l, 'e, 's) behavior_tree \<Rightarrow> fault + bool" where
  "is_wait_for code e t =
     (if currentState t \<noteq> Running then Inr False
      else case runningNodeCoroutine t of
          None \<Rightarrow> Inl NullDeref
        | Some p \<Rightarrow> Inr (eventChecker p \<and> leaf_awaits code (frame p) e))"

definition current_address :: "('k, 'l, 'e, 's) behavior_tree \<Rightarrow> nat" where
  "current_address t = (case stack t of [] \<Rightarrow> 0 | n # _ \<Rightarrow> address n)"

definition set_event :: "'e \<Rightarrow> ('k, 'l, 'e, 's) behavior_tree \<Rightarrow> ('k, 'l, 'e, 's) behavior_tree" where
  "set_event e t =
     (bt_log (NodeResume (current_address t) e) t)
       \<lparr>runningNodeCoroutine := map_option (\<lambda>p. p\<lparr>event := Some e\<rparr>) (runningNodeCoroutine t)\<rparr>"

definition bt_notify ::
  "('k, 'l, 'e, 's) leaf_code \<Rightarrow> 'e \<Rightarrow> ('k, 'l, 'e, 's) behavior_tree \<Rightarrow> fault + ('k, 'l, 'e, 's) behavior_tree" where
  "bt_notify code e t =
     and_then (is_wait_for code e t) (\<lambda>waits. Inr (if waits then signal (set_event e t) else t))"

definition notify_and_resume ::
  "('k, 'l, 'e, 's) leaf_code \<Rightarrow> 'e \<Rightarrow> ('k, 'l, 'e, 's) behavior_tree
     \<Rightarrow> (fault + ('k, 'l, 'e, 's) behavior_tree) option" where
  "notify_and_resume code e t =
     (case is_wait_for code e t of
        Inl f \<Rightarrow> Some (Inl f)
      | Inr waits \<Rightarrow> if waits then resume code (set_event e t) else Some (Inr t))"

definition finalize_tree :: "('k, 'l, 'e, 's) behavior_tree \<Rightarrow> ('k, 'l, 'e, 's) behavior_tree" where
  "finalize_tree t =
     (if finalized t then t
      else bt_log TreeFinalize
        ((finalize_traverse (t\<lparr>finalized := True\<rparr>))\<lparr>stack := [], runningNodeCoroutine := None\<rparr>))"

text \<open>Events that arrive one after the other.\<close>

fun bt_notify_all ::
  "('k, 'l, 'e, 's) leaf_code \<Rightarrow> 'e list \<Rightarrow> ('k, 'l, 'e, 's) behavior_tree
     \<Rightarrow> (fault + ('k, 'l, 'e, 's) behavior_tree) option" where
  "bt_notify_all code [] t = Some (Inr t)"
| "bt_notify_all code (e # es) t =
     (case notify_and_resume code e t of
        Some (Inr t1) \<Rightarrow> bt_notify_all code es t1
      | r \<Rightarrow> r)"

subsection \<open>The recursive reading of a tree\<close>

text \<open>
  A reading gives what is logged, the blackboard, and the result with the events that are left, or \<open>None\<close> when the
  events do not suffice to finish.
\<close>

type_synonym ('e, 's) reading = "'e bt_log list \<times> 's \<times> (bool \<times> 'e list) option"

fun read_events :: "('k, 'l, 'e, 's) leaf_code \<Rightarrow> nat \<Rightarrow> 'l \<Rightarrow> 's \<Rightarrow> 'e list \<Rightarrow> ('e, 's) reading" where
  "read_events code a l s [] = ([], s, None)"
| "read_events code a l s (e # es) =
     (if leaf_awaits code l e
      then case leaf_resume code l (Some e) s of
          (Finished b, s1) \<Rightarrow> ([NodeResume a e, NodeEnd a b], s1, Some (b, es))
        | (Suspended l1, s1) \<Rightarrow>
            (case read_events code a l1 s1 es of (lg, s2, r) \<Rightarrow> (NodeResume a e # lg, s2, r))
      else read_events code a l s es)"

text \<open>The end of a node of a branch: the branch goes on with the others, or it ends with the same result.\<close>

definition goes_on :: "branch_kind \<Rightarrow> bool \<Rightarrow> bool" where
  "goes_on kind b = (case kind of Sequence \<Rightarrow> b | Selector \<Rightarrow> \<not> b)"

definition decorated :: "decorator_kind \<Rightarrow> bool \<Rightarrow> bool" where
  "decorated kind b = (case kind of Inverter \<Rightarrow> \<not> b | ForceSuccess \<Rightarrow> True | ForceFailure \<Rightarrow> False)"

fun read_node :: "('k, 'l, 'e, 's) leaf_code \<Rightarrow> 'k bt_node \<Rightarrow> 's \<Rightarrow> 'e list \<Rightarrow> ('e, 's) reading"
  and read_children :: "('k, 'l, 'e, 's) leaf_code \<Rightarrow> nat \<Rightarrow> branch_kind \<Rightarrow> 'k bt_node list \<Rightarrow> 's \<Rightarrow> 'e list \<Rightarrow> ('e, 's) reading"
where
  "read_node code (Leaf a k) s es =
     (case leaf_start code k s of
        (Finished b, s1) \<Rightarrow> ([NodeStart a, NodeEnd a b], s1, Some (b, es))
      | (Suspended l, s1) \<Rightarrow>
          (case read_events code a l s1 es of (lg, s2, r) \<Rightarrow> (NodeStart a # NodeSuspend a # lg, s2, r)))"
| "read_node code (Decorator a kind None) s es = ([NodeStart a], s, None)"
| "read_node code (Decorator a kind (Some n)) s es =
     (case read_node code n s es of
        (lg, s1, None) \<Rightarrow> (NodeStart a # lg, s1, None)
      | (lg, s1, Some (b, es1)) \<Rightarrow>
          (NodeStart a # lg @ [NodeEnd a (decorated kind b)], s1, Some (decorated kind b, es1)))"
| "read_node code (Branch a kind ns) s es =
     (case read_children code a kind ns s es of (lg, s1, r) \<Rightarrow> (NodeStart a # lg, s1, r))"
| "read_children code a kind [] s es = ([], s, None)"
| "read_children code a kind (n # ns) s es =
     (case read_node code n s es of
        (lg, s1, None) \<Rightarrow> (lg, s1, None)
      | (lg, s1, Some (b, es1)) \<Rightarrow>
          if goes_on kind b \<and> ns \<noteq> []
          then (case read_children code a kind ns s1 es1 of (lg1, s2, r) \<Rightarrow> (lg @ lg1, s2, r))
          else (lg @ [NodeEnd a b], s1, Some (b, es1)))"

text \<open>The nodes of a tree, and a tree without a branch or a decorator that lacks its children.\<close>

fun addresses :: "'k bt_node \<Rightarrow> nat list" where
  "addresses (Leaf a k) = [a]"
| "addresses (Decorator a kind n) = a # (case n of None \<Rightarrow> [] | Some c \<Rightarrow> addresses c)"
| "addresses (Branch a kind ns) = a # concat (map addresses ns)"

fun filled :: "'k bt_node \<Rightarrow> bool" where
  "filled (Leaf a k) \<longleftrightarrow> True"
| "filled (Decorator a kind n) \<longleftrightarrow> (case n of None \<Rightarrow> False | Some c \<Rightarrow> filled c)"
| "filled (Branch a kind ns) \<longleftrightarrow> ns \<noteq> [] \<and> list_all filled ns"


subsection \<open>The traversal follows the reading\<close>

text \<open>A traversal and the events that come after it.\<close>

definition traverse_with ::
  "('k, 'l, 'e, 's) leaf_code \<Rightarrow> ('k, 'l, 'e, 's) behavior_tree \<Rightarrow> 'e list
     \<Rightarrow> (fault + ('k, 'l, 'e, 's) behavior_tree) option" where
  "traverse_with code t es =
     (case traverse code t of Some (Inr t1) \<Rightarrow> bt_notify_all code es t1 | r \<Rightarrow> r)"

lemma traverse_with_continue:
  assumes "traverse_round code t = Inr (Continue t1)"
  shows "traverse_with code t es = traverse_with code t1 es"
  by (simp add: traverse_with_def traverse_def traverse_loop.simps [of code t] assms)

lemma traverse_with_break:
  assumes "traverse_round code t = Inr (Break t1)" and "stack t1 \<noteq> []"
  shows "traverse_with code t es = bt_notify_all code es t1"
  by (simp add: traverse_with_def traverse_def traverse_loop.simps [of code t] assms traverse_end_def)

lemma bt_notify_all_idle: "currentState t \<noteq> Running \<Longrightarrow> bt_notify_all code es t = Some (Inr t)"
  by (induction es) (simp_all add: notify_and_resume_def is_wait_for_def)

lemma traverse_with_end:
  assumes "stack t = []"
  shows "traverse_with code t es =
    Some (Inr (finalize_traverse (bt_log (TreeEnd (currentState t = Success)) t)))"
proof -
  have "traverse code t = Some (Inr (traverse_end t))"
    by (simp add: traverse_def traverse_loop.simps [of code t] traverse_round_def assms)
  then show ?thesis
    by (simp add: traverse_with_def traverse_end_def assms bt_notify_all_idle finalize_traverse_def)
qed

text \<open>The state after a node has run to its end.\<close>

definition node_done ::
  "'k bt_node list \<Rightarrow> nat set \<Rightarrow> (nat \<Rightarrow> nat) \<Rightarrow> bool \<Rightarrow> 'e bt_log list \<Rightarrow> 's
     \<Rightarrow> ('k, 'l, 'e, 's) behavior_tree \<Rightarrow> ('k, 'l, 'e, 's) behavior_tree" where
  "node_done rest as ix b lg s t =
     t\<lparr>blackBoard := s, currentState := return_value b, stack := rest, visited := as \<union> visited t, indices := ix,
       runningNodeCoroutine := None, bt_logs := bt_logs t @ lg\<rparr>"

lemma node_done_fields [simp]:
  "blackBoard (node_done rest as ix b lg s t) = s" "currentState (node_done rest as ix b lg s t) = return_value b"
  "stack (node_done rest as ix b lg s t) = rest" "visited (node_done rest as ix b lg s t) = as \<union> visited t"
  "indices (node_done rest as ix b lg s t) = ix" "runningNodeCoroutine (node_done rest as ix b lg s t) = None"
  "bt_logs (node_done rest as ix b lg s t) = bt_logs t @ lg" "rootNode (node_done rest as ix b lg s t) = rootNode t"
  by (simp_all add: node_done_def)

lemma return_value_simps [simp]:
  "return_value b = Success \<longleftrightarrow> b" "return_value b \<noteq> Running"
  "should_continue kind (return_value b) \<longleftrightarrow> goes_on kind b"
  "decorate dk (return_value b) = return_value (decorated dk b)"
  by (cases kind; cases dk; simp add: return_value_def goes_on_def decorated_def)+

text \<open>Whether the events sufficed or not, the traversal agrees with a reading.\<close>

definition follows ::
  "('k, 'l, 'e, 's) leaf_code \<Rightarrow> (fault + ('k, 'l, 'e, 's) behavior_tree) option \<Rightarrow> ('k, 'l, 'e, 's) behavior_tree
     \<Rightarrow> 'k bt_node list \<Rightarrow> nat set \<Rightarrow> ('e, 's) reading \<Rightarrow> bool" where
  "follows code m t rest as rd =
     (case rd of
        (lg, s, Some (b, es)) \<Rightarrow>
          (\<exists>vs ix. vs \<subseteq> as \<and> (\<forall>x. x \<notin> vs \<longrightarrow> ix x = indices t x)
             \<and> m = traverse_with code (node_done rest vs ix b lg s t) es)
      | (lg, s, None) \<Rightarrow>
          (\<exists>t1. m = Some (Inr t1) \<and> blackBoard t1 = s \<and> bt_logs t1 = bt_logs t @ lg \<and> stack t1 \<noteq> []))"

lemma follows_some:
  "follows code m t rest as (lg, s, Some (b, es)) \<longleftrightarrow>
     (\<exists>vs ix. vs \<subseteq> as \<and> (\<forall>x. x \<notin> vs \<longrightarrow> ix x = indices t x)
        \<and> m = traverse_with code (node_done rest vs ix b lg s t) es)"
  by (simp add: follows_def)

lemma follows_none:
  "follows code m t rest as (lg, s, None) \<longleftrightarrow>
     (\<exists>t1. m = Some (Inr t1) \<and> blackBoard t1 = s \<and> bt_logs t1 = bt_logs t @ lg \<and> stack t1 \<noteq> [])"
  by (simp add: follows_def)

lemma follows_someI:
  "m = traverse_with code (node_done rest vs ix b lg s t) es \<Longrightarrow> vs \<subseteq> as
    \<Longrightarrow> (\<And>x. x \<notin> vs \<Longrightarrow> ix x = indices t x) \<Longrightarrow> follows code m t rest as (lg, s, Some (b, es))"
  by (auto simp: follows_some)

text \<open>A leaf that waits for events.\<close>

definition leaf_waits :: "nat \<Rightarrow> 'k \<Rightarrow> 'k bt_node list \<Rightarrow> 'l \<Rightarrow> ('k, 'l, 'e, 's) behavior_tree \<Rightarrow> bool" where
  "leaf_waits a k rest l t \<longleftrightarrow>
     stack t = Leaf a k # rest \<and> a \<in> visited t \<and> currentState t = Running
     \<and> runningNodeCoroutine t = Some (suspended_promise l)"

lemma resume_step:
  assumes "leaf_waits a k rest l t" and "leaf_awaits code l e"
  shows "bt_notify_all code (e # es) t =
    traverse_with code (resume_coroutine code ((suspended_promise l)\<lparr>event := Some e\<rparr>) (set_event e t)) es"
  using assms
  by (simp add: leaf_waits_def notify_and_resume_def is_wait_for_def suspended_promise_def resume_def set_event_def
      traverse_with_def bt_log_def)

lemma leaf_events:
  "leaf_waits a k rest l t
    \<Longrightarrow> follows code (bt_notify_all code es t) t rest {a} (read_events code a l (blackBoard t) es)"
proof (induction es arbitrary: l t)
  case Nil
  then show ?case by (simp add: follows_def leaf_waits_def)
next
  case (Cons e es)
  note w = Cons.prems
  then have w': "stack t = Leaf a k # rest" "a \<in> visited t" "currentState t = Running"
    "runningNodeCoroutine t = Some (suspended_promise l)" by (simp_all add: leaf_waits_def)
  show ?case
  proof (cases "leaf_awaits code l e")
    case False
    then have "bt_notify_all code (e # es) t = bt_notify_all code es t"
      using w' by (simp add: notify_and_resume_def is_wait_for_def suspended_promise_def)
    with Cons.IH [OF w] False show ?thesis by simp
  next
    case True
    let ?p = "(suspended_promise l)\<lparr>event := Some e\<rparr>"
    define t1 where "t1 = resume_coroutine code ?p (set_event e t)"
    have m: "bt_notify_all code (e # es) t = traverse_with code t1 es"
      unfolding t1_def by (rule resume_step [OF w True])
    obtain o1 s1 where r: "leaf_resume code l (Some e) (blackBoard t) = (o1, s1)" by fastforce
    show ?thesis
    proof (cases o1)
      case (Finished b)
      have "traverse_round code t1 = Inr (Continue
          (node_done rest {a} (indices t) b [NodeResume a e, NodeEnd a b] s1 t))"
        using w' r Finished
        by (simp add: t1_def resume_coroutine_def set_event_def bt_log_def current_address_def suspended_promise_def
            traverse_round_def traverse_leaf_def Let_def node_end_def node_done_def insert_absorb)
      from traverse_with_continue [OF this] show ?thesis
        unfolding m using True r Finished by (auto simp: follows_def)
    next
      case (Suspended l1)
      have w1: "leaf_waits a k rest l1 (t1\<lparr>currentState := Running\<rparr>)" "blackBoard t1 = s1" "indices t1 = indices t"
        "visited t1 = visited t" "bt_logs t1 = bt_logs t @ [NodeResume a e]"
        "runningNodeCoroutine t1 = Some (suspended_promise l1)" "stack t1 = stack t"
        using w' r Suspended
        by (simp_all add: t1_def resume_coroutine_def set_event_def bt_log_def current_address_def
            suspended_promise_def leaf_waits_def)
      have "traverse_round code t1 = Inr (Break (t1\<lparr>currentState := Running\<rparr>))"
        using w' w1 by (simp add: traverse_round_def traverse_leaf_def suspended_promise_def)
      from traverse_with_break [OF this] w' w1
      have m1: "bt_notify_all code (e # es) t = bt_notify_all code es (t1\<lparr>currentState := Running\<rparr>)"
        unfolding m by simp
      obtain lg s2 rs where rd: "read_events code a l1 s1 es = (lg, s2, rs)" by (metis prod_cases3)
      have d: "node_done rest vs ix b lg s2 (t1\<lparr>currentState := Running\<rparr>)
          = node_done rest vs ix b (NodeResume a e # lg) s2 t" for vs ix b
        using w' w1 r Suspended
        by (simp add: node_done_def t1_def resume_coroutine_def set_event_def bt_log_def suspended_promise_def)
      show ?thesis
      proof (cases rs)
        case None
        with Cons.IH [OF w1(1)] True r Suspended rd show ?thesis
          unfolding m1 by (auto simp: follows_none w1)
      next
        case (Some rs1)
        with Cons.IH [OF w1(1)] rd obtain b es1 vs ix where rs: "rs = Some (b, es1)"
          and v: "vs \<subseteq> {a}" "\<And>x. x \<notin> vs \<Longrightarrow> ix x = indices t x"
          and m2: "bt_notify_all code es (t1\<lparr>currentState := Running\<rparr>) =
            traverse_with code (node_done rest vs ix b lg s2 (t1\<lparr>currentState := Running\<rparr>)) es1"
          by (cases rs1) (auto simp: follows_some w1)
        have "read_events code a l (blackBoard t) (e # es) = (NodeResume a e # lg, s2, Some (b, es1))"
          using True r Suspended rd rs by simp
        moreover have "follows code (bt_notify_all code (e # es) t) t rest {a} (NodeResume a e # lg, s2, Some (b, es1))"
          unfolding m1 m2 d by (rule follows_someI [OF refl v])
        ultimately show ?thesis by simp
      qed
    qed
  qed
qed

text \<open>What a node and the children of a branch need to start: none of their nodes was visited before.\<close>

definition fresh :: "nat list \<Rightarrow> ('k, 'l, 'e, 's) behavior_tree \<Rightarrow> bool" where
  "fresh as t \<longleftrightarrow> distinct as \<and> set as \<inter> visited t = {} \<and> list_all (\<lambda>a. indices t a = 0) as
     \<and> runningNodeCoroutine t = None"

lemma follows_leaf:
  assumes "stack t = Leaf a k # rest" and "fresh [a] t"
  shows "follows code (traverse_with code t es) t rest {a} (read_node code (Leaf a k) (blackBoard t) es)"
proof -
  have a: "a \<notin> visited t" "runningNodeCoroutine t = None" using assms(2) by (simp_all add: fresh_def)
  obtain o1 s1 where r: "leaf_start code k (blackBoard t) = (o1, s1)" by fastforce
  show ?thesis
  proof (cases o1)
    case (Finished b)
    have "traverse_round code t =
        Inr (Continue (node_done rest {a} (indices t) b [NodeStart a, NodeEnd a b] s1 t))"
      using assms(1) a r Finished
      by (simp add: traverse_round_def traverse_leaf_def Let_def visit_def bt_log_def node_end_def node_done_def)
    from traverse_with_continue [OF this] show ?thesis using r Finished by (auto simp: follows_def)
  next
    case (Suspended l)
    define t1 where "t1 = bt_log (NodeSuspend a) ((visit a t)\<lparr>blackBoard := s1, currentState := Running,
        runningNodeCoroutine := Some (suspended_promise l)\<rparr>)"
    have "traverse_round code t = Inr (Break t1)"
      using assms(1) a r Suspended
      by (simp add: traverse_round_def traverse_leaf_def Let_def visit_def bt_log_def t1_def)
    moreover have w: "leaf_waits a k rest l t1" "blackBoard t1 = s1" "indices t1 = indices t"
      "bt_logs t1 = bt_logs t @ [NodeStart a, NodeSuspend a]"
      using assms(1) by (simp_all add: leaf_waits_def t1_def visit_def bt_log_def)
    ultimately have m: "traverse_with code t es = bt_notify_all code es t1"
      by (intro traverse_with_break) (simp_all add: leaf_waits_def)
    obtain lg s2 rs where rd: "read_events code a l s1 es = (lg, s2, rs)" by (metis prod_cases3)
    have d: "node_done rest vs ix b lg s2 t1 = node_done rest (insert a vs) ix b (NodeStart a # NodeSuspend a # lg) s2 t"
      for vs ix b by (simp add: node_done_def t1_def visit_def bt_log_def)
    show ?thesis
    proof (cases rs)
      case None
      with leaf_events [OF w(1), of code es] r Suspended rd show ?thesis
        unfolding m by (auto simp: follows_none w)
    next
      case (Some rs1)
      with leaf_events [OF w(1), of code es] rd obtain b es1 vs ix where rs: "rs = Some (b, es1)"
        and v: "vs \<subseteq> {a}" "\<And>x. x \<notin> vs \<Longrightarrow> ix x = indices t x"
        and m2: "bt_notify_all code es t1 = traverse_with code (node_done rest vs ix b lg s2 t1) es1"
        by (cases rs1) (auto simp: follows_some w)
      have "read_node code (Leaf a k) (blackBoard t) es = (NodeStart a # NodeSuspend a # lg, s2, Some (b, es1))"
        using r Suspended rd rs by simp
      moreover have "follows code (traverse_with code t es) t rest {a}
          (NodeStart a # NodeSuspend a # lg, s2, Some (b, es1))"
        unfolding m m2 d by (rule follows_someI [OF refl]) (use v in auto)
      ultimately show ?thesis by simp
    qed
  qed
qed

text \<open>What the induction shows of a node and of the children that a branch still has.\<close>

definition node_follows :: "('k, 'l, 'e, 's) leaf_code \<Rightarrow> 'k bt_node \<Rightarrow> bool" where
  "node_follows code n \<longleftrightarrow>
     (\<forall>t rest es. stack t = n # rest \<longrightarrow> fresh (addresses n) t
        \<longrightarrow> follows code (traverse_with code t es) t rest (set (addresses n)) (read_node code n (blackBoard t) es))"

lemma node_followsD:
  "node_follows code n \<Longrightarrow> stack t = n # rest \<Longrightarrow> fresh (addresses n) t
    \<Longrightarrow> follows code (traverse_with code t es) t rest (set (addresses n)) (read_node code n (blackBoard t) es)"
  by (simp add: node_follows_def)

lemma follows_decorator:
  assumes "node_follows code c" and "stack t = Decorator a kind (Some c) # rest" and "fresh (a # addresses c) t"
  shows "follows code (traverse_with code t es) t rest (insert a (set (addresses c)))
    (read_node code (Decorator a kind (Some c)) (blackBoard t) es)"
proof -
  define t1 where "t1 = (visit a t)\<lparr>stack := c # stack (visit a t)\<rparr>"
  have a: "a \<notin> visited t" using assms(3) by (simp add: fresh_def)
  have f: "bt_logs t1 = bt_logs t @ [NodeStart a]" "blackBoard t1 = blackBoard t" "indices t1 = indices t"
    by (simp_all add: t1_def visit_def bt_log_def)
  have m: "traverse_with code t es = traverse_with code t1 es"
    by (rule traverse_with_continue)
      (simp add: assms(2) traverse_round_def traverse_decorator_def a t1_def visit_def bt_log_def)
  have "stack t1 = c # Decorator a kind (Some c) # rest" by (simp add: t1_def visit_def bt_log_def assms(2))
  moreover have "fresh (addresses c) t1"
    using assms(3) by (auto simp: fresh_def t1_def visit_def bt_log_def)
  ultimately have c: "follows code (traverse_with code t1 es) t1 (Decorator a kind (Some c) # rest)
      (set (addresses c)) (read_node code c (blackBoard t) es)"
    using node_followsD [OF assms(1), of t1 _ es] by (simp add: f)
  obtain lg s rs where rd: "read_node code c (blackBoard t) es = (lg, s, rs)" by (metis prod_cases3)
  show ?thesis
  proof (cases rs)
    case None
    with c rd show ?thesis unfolding m by (auto simp: follows_none f)
  next
    case (Some r)
    obtain b es1 where r: "rs = Some (b, es1)" using Some by (cases r) auto
    with c rd obtain vs ix where vs: "vs \<subseteq> set (addresses c)" and ix: "\<forall>x. x \<notin> vs \<longrightarrow> ix x = indices t x"
      and m1: "traverse_with code t1 es =
        traverse_with code (node_done (Decorator a kind (Some c) # rest) vs ix b lg s t1) es1"
      by (auto simp: follows_some f)
    let ?t2 = "node_done (Decorator a kind (Some c) # rest) vs ix b lg s t1"
    let ?b = "decorated kind b" and ?lg = "NodeStart a # lg @ [NodeEnd a (decorated kind b)]"
    have v: "vs \<union> visited t1 = insert a vs \<union> visited t" by (simp add: t1_def visit_def bt_log_def)
    have "traverse_round code ?t2 = Inr (Continue (node_done rest (insert a vs) ix ?b ?lg s t))"
      using v by (simp add: traverse_round_def traverse_decorator_def node_end_def bt_log_def)
        (simp add: node_done_def t1_def visit_def bt_log_def)
    from traverse_with_continue [OF this] m m1
    have "traverse_with code t es = traverse_with code (node_done rest (insert a vs) ix ?b ?lg s t) es1" by simp
    with rd r vs ix show ?thesis by (auto intro!: follows_someI)
  qed
qed

lemma follows_children:
  assumes "list_all (node_follows code) ns" and "ns \<noteq> []" and "children = pre @ ns"
    and "stack t = hd ns # Branch a kind children # rest" and "a \<in> visited t" and "indices t a = Suc (length pre)"
    and "fresh (concat (map addresses ns)) t"
  shows "follows code (traverse_with code t es) t rest (insert a (set (concat (map addresses ns))))
    (read_children code a kind ns (blackBoard t) es)"
  using assms
proof (induction ns arbitrary: pre t es)
  case (Cons n ns)
  let ?node = "Branch a kind children"
  have n: "node_follows code n" and ns: "list_all (node_follows code) ns" using Cons.prems(1) by simp_all
  have fresh: "fresh (addresses n) t" "fresh (concat (map addresses ns)) t"
    "set (addresses n) \<inter> set (concat (map addresses ns)) = {}"
    using Cons.prems(7) by (auto simp: fresh_def)
  have notin: "a \<notin> set (addresses n)" using Cons.prems(5) fresh(1) by (auto simp: fresh_def)
  have c: "follows code (traverse_with code t es) t (?node # rest) (set (addresses n))
      (read_node code n (blackBoard t) es)"
    by (rule node_followsD [OF n _ fresh(1)]) (simp add: Cons.prems(4))
  obtain lg s rs where rd: "read_node code n (blackBoard t) es = (lg, s, rs)" by (metis prod_cases3)
  show ?case
  proof (cases rs)
    case None
    with c rd show ?thesis by (auto simp: follows_none)
  next
    case (Some r)
    obtain b es1 where r: "rs = Some (b, es1)" using Some by (cases r) auto
    with c rd obtain vs ix where vs: "vs \<subseteq> set (addresses n)" and ix: "\<forall>x. x \<notin> vs \<longrightarrow> ix x = indices t x"
      and m1: "traverse_with code t es = traverse_with code (node_done (?node # rest) vs ix b lg s t) es1"
      by (auto simp: follows_some)
    let ?t2 = "node_done (?node # rest) vs ix b lg s t"
    have ia: "ix a = Suc (length pre)" using ix vs notin Cons.prems(6) by (metis subsetD)
    show ?thesis
    proof (cases "goes_on kind b \<and> ns \<noteq> []")
      case False
      have "traverse_round code ?t2 = Inr (Continue (node_done rest (insert a vs) ix b (lg @ [NodeEnd a b]) s t))"
        using False ia Cons.prems(3,5)
        by (auto simp: traverse_round_def traverse_branch_def node_end_def bt_log_def node_done_def insert_absorb
            return_value_simps(1))
      from traverse_with_continue [OF this] m1
      have m2: "traverse_with code t es =
        traverse_with code (node_done rest (insert a vs) ix b (lg @ [NodeEnd a b]) s t) es1" by simp
      have rd2: "read_children code a kind (n # ns) (blackBoard t) es = (lg @ [NodeEnd a b], s, Some (b, es1))"
        using False rd r by auto
      show ?thesis unfolding rd2 by (rule follows_someI [OF m2]) (use vs ix in auto)
    next
      case True
      define t3 where "t3 = ?t2\<lparr>stack := hd ns # ?node # rest, indices := ix(a := Suc (Suc (length pre)))\<rparr>"
      have f: "blackBoard t3 = s" "visited t3 = vs \<union> visited t" "indices t3 = ix(a := Suc (Suc (length pre)))"
        "bt_logs t3 = bt_logs t @ lg" "stack t3 = hd ns # ?node # rest" "runningNodeCoroutine t3 = None"
        by (simp_all add: t3_def)
      have nth: "children ! Suc (length pre) = hd ns" using True Cons.prems(3) by (cases ns) (simp_all add: nth_append)
      have "traverse_round code ?t2 = Inr (Continue t3)"
        using True ia Cons.prems(3,5) nth
        by (simp add: traverse_round_def traverse_branch_def push_next_def t3_def)
      from traverse_with_continue [OF this] m1 have m2: "traverse_with code t es = traverse_with code t3 es1" by simp
      have "fresh (concat (map addresses ns)) t3"
      proof -
        have "x \<noteq> a \<and> x \<notin> vs" if "x \<in> set (concat (map addresses ns))" for x
          using that fresh(2,3) vs Cons.prems(5) by (auto simp: fresh_def)
        with fresh(2) ix show ?thesis by (auto simp: fresh_def f list_all_iff)
      qed
      then have i: "follows code (traverse_with code t3 es1) t3 rest (insert a (set (concat (map addresses ns))))
          (read_children code a kind ns s es1)"
        using Cons.IH [OF ns, of "pre @ [n]" t3 es1] True Cons.prems(3,5) by (simp add: f)
      obtain lg1 s1 rs1 where rd1: "read_children code a kind ns s es1 = (lg1, s1, rs1)" by (metis prod_cases3)
      show ?thesis
      proof (cases rs1)
        case None
        with i True rd r rd1 show ?thesis unfolding m2 by (auto simp: follows_none f)
      next
        case (Some r1)
        obtain b1 es2 where r1: "rs1 = Some (b1, es2)" using Some by (cases r1) auto
        with i rd1 obtain vs1 ix1 where vs1: "vs1 \<subseteq> insert a (set (concat (map addresses ns)))"
          and ix1: "\<forall>x. x \<notin> vs1 \<longrightarrow> ix1 x = indices t3 x"
          and m3: "traverse_with code t3 es1 = traverse_with code (node_done rest vs1 ix1 b1 lg1 s1 t3) es2"
          by (auto simp: follows_some)
        let ?vs = "insert a (vs1 \<union> vs)"
        have "node_done rest vs1 ix1 b1 lg1 s1 t3 = node_done rest ?vs ix1 b1 (lg @ lg1) s1 t"
          using Cons.prems(5) insert_absorb [of a "vs1 \<union> vs \<union> visited t"]
          by (simp add: node_done_def t3_def Un_assoc)
        with m2 m3 have "traverse_with code t es =
          traverse_with code (node_done rest ?vs ix1 b1 (lg @ lg1) s1 t) es2" by simp
        moreover have "read_children code a kind (n # ns) (blackBoard t) es = (lg @ lg1, s1, Some (b1, es2))"
          using True rd r rd1 r1 by auto
        ultimately show ?thesis by (auto intro!: follows_someI) (use vs vs1 ix ix1 in \<open>auto simp: f\<close>)
      qed
    qed
  qed
qed simp


lemma follows_branch:
  assumes "list_all (node_follows code) ns" and "ns \<noteq> []" and "stack t = Branch a kind ns # rest"
    and "fresh (a # concat (map addresses ns)) t"
  shows "follows code (traverse_with code t es) t rest (insert a (set (concat (map addresses ns))))
    (read_node code (Branch a kind ns) (blackBoard t) es)"
proof -
  define t1 where "t1 = (visit a t)\<lparr>stack := hd ns # stack t, indices := (indices t)(a := 1)\<rparr>"
  have a: "a \<notin> visited t" "indices t a = 0" using assms(4) by (simp_all add: fresh_def)
  have f: "blackBoard t1 = blackBoard t" "visited t1 = insert a (visited t)" "indices t1 = (indices t)(a := 1)"
    "bt_logs t1 = bt_logs t @ [NodeStart a]" "stack t1 = hd ns # Branch a kind ns # rest"
    "runningNodeCoroutine t1 = runningNodeCoroutine t"
    by (simp_all add: t1_def visit_def bt_log_def assms(3))
  have "traverse_round code t = Inr (Continue t1)"
    using a assms(2,3) hd_conv_nth [OF assms(2)]
    by (simp add: traverse_round_def traverse_branch_def push_next_def visit_def bt_log_def t1_def)
  then have m: "traverse_with code t es = traverse_with code t1 es" by (rule traverse_with_continue)
  have "fresh (concat (map addresses ns)) t1"
    using assms(4) by (auto simp: fresh_def f list_all_iff)
  then have c: "follows code (traverse_with code t1 es) t1 rest (insert a (set (concat (map addresses ns))))
      (read_children code a kind ns (blackBoard t) es)"
    using follows_children [OF assms(1,2), of ns "[]" t1 a kind rest es] by (simp add: f)
  obtain lg s rs where rd: "read_children code a kind ns (blackBoard t) es = (lg, s, rs)" by (metis prod_cases3)
  then have rd': "read_node code (Branch a kind ns) (blackBoard t) es = (NodeStart a # lg, s, rs)" by simp
  show ?thesis
  proof (cases rs)
    case None
    with c rd rd' show ?thesis unfolding m by (auto simp: follows_none f)
  next
    case (Some r)
    obtain b es1 where r: "rs = Some (b, es1)" using Some by (cases r) auto
    with c rd obtain vs ix where vs: "vs \<subseteq> insert a (set (concat (map addresses ns)))"
      and ix: "\<And>x. x \<notin> vs \<Longrightarrow> ix x = indices t1 x"
      and m1: "traverse_with code t1 es = traverse_with code (node_done rest vs ix b lg s t1) es1"
      by (auto simp: follows_some)
    have "node_done rest vs ix b lg s t1 = node_done rest (insert a vs) ix b (NodeStart a # lg) s t"
      by (simp add: node_done_def t1_def visit_def bt_log_def)
    with m m1 have "traverse_with code t es =
      traverse_with code (node_done rest (insert a vs) ix b (NodeStart a # lg) s t) es1" by simp
    then show ?thesis unfolding rd' r by (rule follows_someI) (use vs ix in \<open>auto simp: f\<close>)
  qed
qed

lemma every_node_follows: "filled n \<Longrightarrow> node_follows code n"
proof (induction n)
  case (Branch a kind ns)
  then have "list_all (node_follows code) ns" "ns \<noteq> []" by (auto simp: list_all_iff)
  with follows_branch [OF this] show ?case unfolding node_follows_def by simp
next
  case (Decorator a kind n)
  then obtain c where "n = Some c" "node_follows code c" by (cases n) auto
  with follows_decorator [OF this(2)] show ?case unfolding node_follows_def by simp
next
  case (Leaf a k)
  show ?case
    unfolding node_follows_def addresses.simps list.set by (intro allI impI follows_leaf)
qed

subsection \<open>Trees from documents\<close>

text \<open>An XML element: its name, its attributes, its children.\<close>

datatype xml = Element string "(string \<times> int) list" "xml list"

fun xml_name :: "xml \<Rightarrow> string" where
  "xml_name (Element name _ _) = name"

datatype 'k bt_shape = BranchShape branch_kind | DecoratorShape decorator_kind | LeafShape 'k

text \<open>\<^verbatim>\<open>NodeSerializer::Deserialize\<close>: the nodes that are always registered, then those of the program.\<close>

definition deserialize_element :: "(xml \<Rightarrow> 'k option) \<Rightarrow> xml \<Rightarrow> fault + 'k bt_shape" where
  "deserialize_element registered x =
     (if xml_name x = ''selector'' then Inr (BranchShape Selector)
      else if xml_name x = ''sequence'' then Inr (BranchShape Sequence)
      else if xml_name x = ''inverter'' then Inr (DecoratorShape Inverter)
      else if xml_name x = ''force_success'' then Inr (DecoratorShape ForceSuccess)
      else if xml_name x = ''force_failure'' then Inr (DecoratorShape ForceFailure)
      else case registered x of
          Some k \<Rightarrow> Inr (LeafShape k)
        | None \<Rightarrow> Inl (RuntimeError ''[bt node deserializer] fail to find node adl function''))"

text \<open>
  \<^verbatim>\<open>NodeDataSetXML::Deserialize\<close>: the number is the size of the storage, at which the next node is put. Every child
  of a decorator is built, and the last one is the one it keeps; what is below a leaf is not read.
\<close>

fun deserialize :: "(xml \<Rightarrow> 'k option) \<Rightarrow> xml \<Rightarrow> nat \<Rightarrow> fault + ('k bt_node \<times> nat)"
  and deserialize_all :: "(xml \<Rightarrow> 'k option) \<Rightarrow> xml list \<Rightarrow> nat \<Rightarrow> fault + ('k bt_node list \<times> nat)"
where
  "deserialize registered (Element name attributes xs) a =
     and_then (deserialize_element registered (Element name attributes xs)) (\<lambda>shape.
       case shape of
         BranchShape kind \<Rightarrow>
           and_then (deserialize_all registered xs (Suc a)) (\<lambda>(ns, b). Inr (Branch a kind ns, b))
       | DecoratorShape kind \<Rightarrow>
           and_then (deserialize_all registered xs (Suc a))
             (\<lambda>(ns, b). Inr (Decorator a kind (if ns = [] then None else Some (last ns)), b))
       | LeafShape k \<Rightarrow> Inr (Leaf a k, Suc a))"
| "deserialize_all registered [] a = Inr ([], a)"
| "deserialize_all registered (x # xs) a =
     and_then (deserialize registered x a) (\<lambda>(n, b).
       and_then (deserialize_all registered xs b) (\<lambda>(ns, c). Inr (n # ns, c)))"

text \<open>Every node has an address of its own, whatever the document.\<close>

definition within :: "nat \<Rightarrow> nat \<Rightarrow> nat list \<Rightarrow> bool" where
  "within a b as \<longleftrightarrow> a \<le> b \<and> distinct as \<and> list_all (\<lambda>x. a \<le> x \<and> x < b) as"

lemma within_Cons: "within (Suc a) b as \<Longrightarrow> within a b (a # as)"
  by (auto simp: within_def list_all_iff)

lemma within_append: "within a b as \<Longrightarrow> within b c bs \<Longrightarrow> within a c (as @ bs)"
  by (auto simp: within_def list_all_iff) force+

lemma within_sub: "within a b as \<Longrightarrow> distinct bs \<Longrightarrow> set bs \<subseteq> set as \<Longrightarrow> within a b bs"
  by (auto simp: within_def list_all_iff)

lemma deserialize_addresses:
  "deserialize registered x a = Inr (n, b) \<Longrightarrow> within a b (addresses n)"
  "deserialize_all registered xs a = Inr (ns, b) \<Longrightarrow> within a b (concat (map addresses ns))"
proof (induction registered x a and registered xs a arbitrary: n b and ns b
    rule: deserialize_deserialize_all.induct)
  case (1 registered name attributes xs a)
  from "1.prems" obtain shape where shape: "deserialize_element registered (Element name attributes xs) = Inr shape"
    by (auto simp: and_then_Inr_iff)
  show ?case
  proof (cases shape)
    case (BranchShape kind)
    with "1.prems" shape obtain ns where ns: "deserialize_all registered xs (Suc a) = Inr (ns, b)" "n = Branch a kind ns"
      by (auto simp: and_then_Inr_iff)
    with "1.IH"(1) [OF ns(1)] show ?thesis by (simp add: within_Cons)
  next
    case (DecoratorShape kind)
    with "1.prems" shape obtain ns where ns: "deserialize_all registered xs (Suc a) = Inr (ns, b)"
      "n = Decorator a kind (if ns = [] then None else Some (last ns))"
      by (auto simp: and_then_Inr_iff)
    have w: "within (Suc a) b (concat (map addresses ns))" by (rule "1.IH"(2) [OF ns(1)])
    have "within (Suc a) b (case (if ns = [] then None else Some (last ns)) of None \<Rightarrow> [] | Some c \<Rightarrow> addresses c)"
    proof (cases ns rule: rev_cases)
      case (snoc ms m)
      with w show ?thesis by (auto intro: within_sub simp: within_def)
    qed (use w in \<open>simp add: within_def\<close>)
    then show ?thesis by (simp add: ns(2) within_Cons)
  next
    case (LeafShape k)
    with "1.prems" shape show ?thesis by (auto simp: within_def)
  qed
next
  case (2 registered a)
  then show ?case by (simp add: within_def)
next
  case (3 registered x xs a)
  from "3.prems" obtain n c ms where d: "deserialize registered x a = Inr (n, c)"
    "deserialize_all registered xs c = Inr (ms, b)" "ns = n # ms" by (auto simp: and_then_Inr_iff)
  from within_append [OF "3.IH"(1) [OF d(1)] "3.IH"(2) [OF d(2)]] d(3) show ?case by simp
qed

subsection \<open>Leaves that every program has\<close>

text \<open>
  \<^verbatim>\<open>DiceRoll\<close> with its attributes and \<^verbatim>\<open>SuspendForever\<close>, whose event carries nothing. The rolls of the dice are what the
  distribution hands out, one after the other: a stream and how much of it was used.
\<close>

datatype shared_leaf = DiceRoll int int | SuspendForever

definition dice_roll :: "int \<Rightarrow> int \<Rightarrow> bool" where
  "dice_roll weight rand \<longleftrightarrow> rand \<le> max 1 weight"

definition shared_leaf_code :: "(shared_leaf, unit, unit, (nat \<Rightarrow> int) \<times> nat) leaf_code" where
  "shared_leaf_code =
     \<lparr>leaf_start = (\<lambda>k (rolls, i). case k of
          DiceRoll _ weight \<Rightarrow> (Finished (dice_roll weight (rolls i)), rolls, Suc i)
        | SuspendForever \<Rightarrow> (Suspended (), rolls, i)),
      leaf_awaits = (\<lambda>_ _. True),
      leaf_resume = (\<lambda>_ _ s. (Finished False, s))\<rparr>"

definition xml_attribute :: "string \<Rightarrow> int \<Rightarrow> xml \<Rightarrow> int" where
  "xml_attribute name absent x =
     (case x of Element _ attributes _ \<Rightarrow>
        (case map_of attributes name of Some v \<Rightarrow> v | None \<Rightarrow> absent))"

definition registered_shared :: "xml \<Rightarrow> shared_leaf option" where
  "registered_shared x =
     (if xml_name x = ''dice_roll''
      then Some (DiceRoll (xml_attribute ''total'' 0 x) (xml_attribute ''weight'' 1 x))
      else if xml_name x = ''suspend_forever'' then Some SuspendForever
      else None)"

subsection \<open>What a tree promises\<close>

text \<open>A tree between two runs.\<close>

definition idle :: "('k, 'l, 'e, 's) behavior_tree \<Rightarrow> bool" where
  "idle t \<longleftrightarrow> stack t = [] \<and> visited t = {} \<and> indices t = (\<lambda>_. 0) \<and> runningNodeCoroutine t = None
     \<and> currentState t = Success"

text \<open>A run and the events that arrive during and after it.\<close>

definition run_with ::
  "('k, 'l, 'e, 's) leaf_code \<Rightarrow> ('k, 'l, 'e, 's) behavior_tree \<Rightarrow> 'e list
     \<Rightarrow> (fault + ('k, 'l, 'e, 's) behavior_tree) option" where
  "run_with code t es = (case run_once code t of Some (Inr t1) \<Rightarrow> bt_notify_all code es t1 | r \<Rightarrow> r)"

definition run_agrees ::
  "(fault + ('k, 'l, 'e, 's) behavior_tree) option \<Rightarrow> ('k, 'l, 'e, 's) behavior_tree \<Rightarrow> ('e, 's) reading \<Rightarrow> bool" where
  "run_agrees m t rd =
     (case (m, rd) of
        (Some (Inr t1), lg, s, Some (b, _)) \<Rightarrow>
          blackBoard t1 = s \<and> bt_logs t1 = bt_logs t @ TreeStart # lg @ [TreeEnd b] \<and> rootNode t1 = rootNode t
      | (Some (Inr t1), lg, s, None) \<Rightarrow>
          blackBoard t1 = s \<and> bt_logs t1 = bt_logs t @ TreeStart # lg \<and> is_awaiting t1
      | _ \<Rightarrow> False)"

lemma run_follows:
  assumes "idle t" and "filled (rootNode t)" and "distinct (addresses (rootNode t))"
    and "read_node code (rootNode t) (blackBoard t) es = (lg, s, r)"
  shows "(case r of
      Some (b, es1) \<Rightarrow>
        (\<exists>t1. run_with code t es = Some (Inr t1) \<and> idle t1 \<and> rootNode t1 = rootNode t \<and> blackBoard t1 = s
           \<and> bt_logs t1 = bt_logs t @ TreeStart # lg @ [TreeEnd b])
    | None \<Rightarrow>
        (\<exists>t1. run_with code t es = Some (Inr t1) \<and> is_awaiting t1 \<and> blackBoard t1 = s
           \<and> bt_logs t1 = bt_logs t @ TreeStart # lg))"
proof -
  define t0 where "t0 = (bt_log TreeStart t)\<lparr>stack := [rootNode t]\<rparr>"
  have f: "visited t0 = {}" "indices t0 = (\<lambda>_. 0)" "runningNodeCoroutine t0 = None" "blackBoard t0 = blackBoard t"
    "stack t0 = [rootNode t]" "bt_logs t0 = bt_logs t @ [TreeStart]" "rootNode t0 = rootNode t"
    using assms(1) by (simp_all add: t0_def bt_log_def idle_def)
  have run: "run_with code t es = traverse_with code t0 es"
    using assms(1) by (simp add: run_with_def run_once_def traverse_with_def t0_def Let_def bt_log_def idle_def)
  have "fresh (addresses (rootNode t)) t0" using assms(3) by (simp add: fresh_def f list_all_iff)
  from node_followsD [OF every_node_follows [OF assms(2)] f(5) this, of code es] assms(4)
  have fo: "follows code (run_with code t es) t0 [] (set (addresses (rootNode t))) (lg, s, r)"
    by (simp add: f run)
  show ?thesis
  proof (cases r)
    case None
    with fo show ?thesis by (auto simp: follows_none f is_awaiting_def)
  next
    case (Some r1)
    obtain b es1 where r: "r = Some (b, es1)" using Some by (cases r1) auto
    with fo obtain vs ix where ix: "\<forall>x. x \<notin> vs \<longrightarrow> ix x = 0"
      and m: "run_with code t es = traverse_with code (node_done [] vs ix b lg s t0) es1"
      by (auto simp: follows_some f)
    let ?t1 = "node_done [] vs ix b lg s t0"
    let ?t2 = "finalize_traverse (bt_log (TreeEnd b) ?t1)"
    have "run_with code t es = Some (Inr ?t2)"
      unfolding m by (subst traverse_with_end) simp_all
    moreover have "idle ?t2" using ix by (auto simp: idle_def finalize_traverse_def bt_log_def f)
    moreover have "rootNode ?t2 = rootNode t" "blackBoard ?t2 = s"
      "bt_logs ?t2 = bt_logs t @ TreeStart # lg @ [TreeEnd b]"
      by (simp_all add: finalize_traverse_def bt_log_def f)
    ultimately show ?thesis using r by auto
  qed
qed

text \<open>
  C9: However often a leaf suspends and whatever events arrive, a tree read from a document runs as the recursive
  reading of its nodes says: the nodes start and end in the order, with the results and with the effects on the
  blackboard that the sequences, selectors, decorators and leaves have when each is read as a function, the run comes
  back, and it is over exactly when the events suffice. A run that is over leaves the tree as before the run.
\<close>

theorem tree_runs_as_read:
  assumes "deserialize registered x 0 = Inr (rootNode t, n)" and "filled (rootNode t)" and "idle t"
  shows "run_agrees (run_with code t es) t (read_node code (rootNode t) (blackBoard t) es)
    \<and> (case run_with code t es of
         Some (Inr t1) \<Rightarrow> is_awaiting t1 \<noteq> idle t1
           \<and> is_awaiting t1 = (snd (snd (read_node code (rootNode t) (blackBoard t) es)) = None)
       | _ \<Rightarrow> False)"
proof -
  have "distinct (addresses (rootNode t))"
    using deserialize_addresses(1) [OF assms(1)] by (simp add: within_def)
  note run = run_follows [OF assms(3,2) this]
  obtain lg s r where rd: "read_node code (rootNode t) (blackBoard t) es = (lg, s, r)" by (metis prod_cases3)
  from run [OF rd] show ?thesis
    by (cases r) (auto simp: run_agrees_def rd idle_def is_awaiting_def)
qed

definition sample_document :: xml where
  "sample_document =
     Element ''selector'' []
       [Element ''sequence'' []
          [Element ''dice_roll'' [(''total'', 10), (''weight'', 3)] [], Element ''suspend_forever'' [] []],
        Element ''inverter'' [] [Element ''dice_roll'' [(''total'', 10)] []]]"

definition sample_root :: "shared_leaf bt_node" where
  "sample_root =
     Branch 0 Selector
       [Branch 1 Sequence [Leaf 2 (DiceRoll 10 3), Leaf 3 SuspendForever],
        Decorator 4 Inverter (Some (Leaf 5 (DiceRoll 10 1)))]"

lemma sample_document_root: "deserialize registered_shared sample_document 0 = Inr (sample_root, 6)"
  by code_simp

definition sample_tree :: "(shared_leaf, unit, unit, (nat \<Rightarrow> int) \<times> nat) behavior_tree" where
  "sample_tree = behavior_tree_new (\<lambda>i. if i = 0 then 2 else 7, 0) sample_root"

lemma sample_reading:
  "read_node shared_leaf_code sample_root (rolls, 0) [()] =
     ([NodeStart 0, NodeStart 1, NodeStart 2, NodeEnd 2 (rolls 0 \<le> 3)] @
      (if rolls 0 \<le> 3 then [NodeStart 3, NodeSuspend 3, NodeResume 3 (), NodeEnd 3 False] else []) @
      [NodeEnd 1 False, NodeStart 4, NodeStart 5, NodeEnd 5 (rolls 1 \<le> 1), NodeEnd 4 (\<not> rolls 1 \<le> 1),
       NodeEnd 0 (\<not> rolls 1 \<le> 1)],
      (rolls, 2), Some (\<not> rolls 1 \<le> 1, if rolls 0 \<le> 3 then [] else [()]))"
  by (simp add: sample_root_def shared_leaf_code_def dice_roll_def goes_on_def decorated_def numeral_2_eq_2)

theorem tree_runs_as_read_witness:
  "run_agrees (run_with shared_leaf_code sample_tree [()]) sample_tree
     (read_node shared_leaf_code sample_root (\<lambda>i. if i = 0 then 2 else 7, 0) [()])
   \<and> snd (snd (read_node shared_leaf_code sample_root (\<lambda>i. if i = 0 then 2 else 7, 0) [()])) = Some (True, [])"
proof -
  have root: "rootNode sample_tree = sample_root" and bb: "blackBoard sample_tree = (\<lambda>i. if i = 0 then 2 else 7, 0)"
    by (simp_all add: sample_tree_def behavior_tree_new_def)
  have "filled sample_root" "idle sample_tree"
    by (simp_all add: sample_root_def sample_tree_def behavior_tree_new_def idle_def)
  with tree_runs_as_read [of registered_shared sample_document sample_tree 6 shared_leaf_code "[()]"]
  show ?thesis by (simp add: root bb sample_document_root sample_reading)
qed

end
