(* ===== verification/AiController.thy ===== *)
theory AiController
  imports BehaviorTree
begin













subsection \<open>What a traversal leaves behind\<close>








subsection \<open>The invariant of the coroutine\<close>














end
