(* ===== verification/LoadBalancer.thy ===== *)
theory LoadBalancer
  imports Prelude "HOL-Library.Multiset"
begin

text \<open>
  \<^verbatim>\<open>xr/service/coordination/load_balance/load_balancer.cpp\<close>: the game servers by how busy they are, and the choice of
  a server for a new player or a new instance.

  The theory proves that the lists of the categories are exactly the registered servers, each under its
  category, and that the choices are shared out evenly among the servers of the best category there is.
\<close>

subsection \<open>Status and category\<close>

text \<open>\<^verbatim>\<open>freePhysicalMemoryGB\<close> is a \<^verbatim>\<open>double\<close> that is only compared with zero; it is kept as its 64 bits.\<close>

record server_status =
  loadCPUPercentage :: int
  freePhysicalMemoryGB :: "64 word"

text \<open>\<^verbatim>\<open>x < 0\<close>: the sign is set, and what remains is neither zero nor a NaN.\<close>

definition double_negative :: "64 word \<Rightarrow> bool" where
  "double_negative x \<longleftrightarrow>
     bit x 63 \<and> 0 < unat (take_bit 63 x) \<and> unat (take_bit 63 x) \<le> 0x7FF0000000000000"

datatype status_category = Healthy | Moderate | Busy | Invalid

fun category_index :: "status_category \<Rightarrow> nat" where
  "category_index Healthy = 0"
| "category_index Moderate = 1"
| "category_index Busy = 2"
| "category_index Invalid = 3"

definition is_invalid :: "server_status \<Rightarrow> bool" where
  "is_invalid st \<longleftrightarrow> loadCPUPercentage st < 0 \<or> double_negative (freePhysicalMemoryGB st)"

definition get_category :: "server_status \<Rightarrow> status_category" where
  "get_category st =
     (if is_invalid st then Invalid
      else if loadCPUPercentage st < 20 then Healthy
      else if loadCPUPercentage st < 40 then Moderate
      else Busy)"

text \<open>\<^verbatim>\<open>numeric_limits<int32_t>::min()\<close> and \<^verbatim>\<open>numeric_limits<double>::min()\<close>, which is positive.\<close>

definition default_status :: server_status where
  "default_status = \<lparr>loadCPUPercentage = - (2 ^ 31), freePhysicalMemoryGB = 0x0010000000000000\<rparr>"

subsection \<open>The balancer\<close>

text \<open>\<open>categorized\<close> is the array of the servers of each category with the counter of the round robin.\<close>

record load_balancer =
  statuses :: "int \<rightharpoonup> server_status"
  categorized :: "(int list \<times> int) list"

definition balancer_new :: load_balancer where
  "balancer_new = \<lparr>statuses = Map.empty, categorized = replicate 4 ([], 0)\<rparr>"

definition category_add :: "status_category \<Rightarrow> int \<Rightarrow> (int list \<times> int) list \<Rightarrow> (int list \<times> int) list" where
  "category_add c i cs =
     (let k = category_index c in cs[k := (fst (cs ! k) @ [i], snd (cs ! k))])"

definition category_remove :: "status_category \<Rightarrow> int \<Rightarrow> (int list \<times> int) list \<Rightarrow> (int list \<times> int) list" where
  "category_remove c i cs =
     (let k = category_index c in cs[k := (remove1 i (fst (cs ! k)), snd (cs ! k))])"

definition balancer_add :: "int \<Rightarrow> load_balancer \<Rightarrow> bool \<times> load_balancer" where
  "balancer_add i s =
     (case statuses s i of
        Some _ \<Rightarrow> (False, s)
      | None \<Rightarrow>
          (True, s\<lparr>statuses := (statuses s)(i \<mapsto> default_status),
                   categorized := category_add (get_category default_status) i (categorized s)\<rparr>))"

definition balancer_update :: "int \<Rightarrow> server_status \<Rightarrow> load_balancer \<Rightarrow> bool \<times> load_balancer" where
  "balancer_update i st s =
     (case statuses s i of
        None \<Rightarrow> (False, s)
      | Some old \<Rightarrow>
          let oldCategory = get_category old; newCategory = get_category st;
              cs = (if oldCategory \<noteq> newCategory
                    then category_add newCategory i (category_remove oldCategory i (categorized s))
                    else categorized s)
          in (True, s\<lparr>statuses := (statuses s)(i \<mapsto> st), categorized := cs\<rparr>))"

definition balancer_remove :: "int \<Rightarrow> load_balancer \<Rightarrow> bool \<times> load_balancer" where
  "balancer_remove i s =
     (case statuses s i of
        None \<Rightarrow> (False, s)
      | Some st \<Rightarrow>
          (True, s\<lparr>statuses := (statuses s)(i := None),
                   categorized := category_remove (get_category st) i (categorized s)\<rparr>))"

text \<open>The loop of \<^verbatim>\<open>Select\<close> over the categories, up to the lookup of the chosen id in the node container.\<close>

fun select_loop :: "(int list \<times> int) list \<Rightarrow> int option \<times> (int list \<times> int) list" where
  "select_loop [] = (None, [])"
| "select_loop ((v, rrCount) # cs) =
     (if v = [] then map_prod id ((#) (v, rrCount)) (select_loop cs)
      else (Some (v ! nat (rrCount mod int (length v))), (v, rrCount + 1) # cs))"

definition select :: "load_balancer \<Rightarrow> int option \<times> load_balancer" where
  "select s = map_prod id (\<lambda>cs. s\<lparr>categorized := cs\<rparr>) (select_loop (categorized s))"

subsection \<open>Runs\<close>

datatype balancer_event = BalancerAdd int | BalancerUpdate int server_status | BalancerRemove int | BalancerSelect

fun balancer_step :: "balancer_event \<Rightarrow> load_balancer \<Rightarrow> load_balancer" where
  "balancer_step (BalancerAdd i) s = snd (balancer_add i s)"
| "balancer_step (BalancerUpdate i st) s = snd (balancer_update i st s)"
| "balancer_step (BalancerRemove i) s = snd (balancer_remove i s)"
| "balancer_step BalancerSelect s = snd (select s)"

definition balancer_run :: "balancer_event list \<Rightarrow> load_balancer" where
  "balancer_run es = fold balancer_step es balancer_new"

fun select_many :: "nat \<Rightarrow> load_balancer \<Rightarrow> int option list \<times> load_balancer" where
  "select_many 0 s = ([], s)"
| "select_many (Suc n) s = (let (x, s1) = select s in map_prod ((#) x) id (select_many n s1))"

subsection \<open>The invariant\<close>

lemma category_index_less [simp]: "category_index c < 4"
  by (cases c) simp_all

lemma category_index_inject [simp]: "category_index c = category_index d \<longleftrightarrow> c = d"
  by (cases c; cases d) simp_all

definition in_category :: "status_category \<Rightarrow> load_balancer \<Rightarrow> int set" where
  "in_category c s = {i. \<exists>st. statuses s i = Some st \<and> get_category st = c}"

definition balancer_wf :: "load_balancer \<Rightarrow> bool" where
  "balancer_wf s \<longleftrightarrow> length (categorized s) = 4
     \<and> (\<forall>c. distinct (fst (categorized s ! category_index c))
          \<and> set (fst (categorized s ! category_index c)) = in_category c s
          \<and> 0 \<le> snd (categorized s ! category_index c))"

lemma length_category [simp]:
  "length (category_add c i cs) = length cs" "length (category_remove c i cs) = length cs"
  by (simp_all add: category_add_def category_remove_def Let_def)

lemma category_add_nth:
  assumes "length cs = 4"
  shows "category_add c i cs ! category_index d =
    (if c = d then (fst (cs ! category_index d) @ [i], snd (cs ! category_index d)) else cs ! category_index d)"
  using assms by (simp add: category_add_def Let_def nth_list_update)

lemma category_remove_nth:
  assumes "length cs = 4"
  shows "category_remove c i cs ! category_index d =
    (if c = d then (remove1 i (fst (cs ! category_index d)), snd (cs ! category_index d)) else cs ! category_index d)"
  using assms by (simp add: category_remove_def Let_def nth_list_update)

lemmas category_nth = category_add_nth category_remove_nth

lemma balancer_new_wf: "balancer_wf balancer_new"
  by (simp add: balancer_wf_def balancer_new_def in_category_def)

lemma balancer_add_wf:
  assumes "balancer_wf s"
  shows "balancer_wf (snd (balancer_add i s))"
proof (cases "statuses s i")
  case None
  with assms show ?thesis
    by (auto simp: balancer_add_def balancer_wf_def category_nth in_category_def)
qed (use assms in \<open>simp add: balancer_add_def\<close>)

lemma balancer_remove_wf:
  assumes "balancer_wf s"
  shows "balancer_wf (snd (balancer_remove i s))"
proof (cases "statuses s i")
  case (Some st)
  with assms show ?thesis
    by (auto simp: balancer_remove_def balancer_wf_def category_nth in_category_def)
qed (use assms in \<open>simp add: balancer_remove_def\<close>)

lemma balancer_update_wf:
  assumes "balancer_wf s"
  shows "balancer_wf (snd (balancer_update i st s))"
proof (cases "statuses s i")
  case (Some old)
  with assms show ?thesis
    by (auto simp: balancer_update_def balancer_wf_def category_nth in_category_def Let_def)
qed (use assms in \<open>simp add: balancer_update_def\<close>)

subsection \<open>The choice\<close>

definition first_nonempty :: "(int list \<times> int) list \<Rightarrow> nat \<Rightarrow> bool" where
  "first_nonempty cs k \<longleftrightarrow> k < length cs \<and> fst (cs ! k) \<noteq> [] \<and> (\<forall>j < k. fst (cs ! j) = [])"

lemma select_loop_first:
  "first_nonempty cs k \<Longrightarrow>
    select_loop cs = (Some (fst (cs ! k) ! nat (snd (cs ! k) mod int (length (fst (cs ! k))))),
                      cs[k := (fst (cs ! k), snd (cs ! k) + 1)])"
proof (induction cs arbitrary: k)
  case (Cons c cs)
  obtain v rr where c: "c = (v, rr)" by (cases c)
  show ?case
  proof (cases k)
    case 0
    with Cons.prems c show ?thesis by (simp add: first_nonempty_def)
  next
    case (Suc j)
    with Cons.prems have "v = []" "first_nonempty cs j" by (auto simp: first_nonempty_def c)
    with Cons.IH [of j] Suc c show ?thesis by simp
  qed
qed (simp add: first_nonempty_def)

lemma first_nonempty_exists:
  assumes "j < length cs" and "fst (cs ! j) \<noteq> []"
  shows "\<exists>k. first_nonempty cs k"
proof -
  let ?P = "\<lambda>k. k < length cs \<and> fst (cs ! k) \<noteq> []"
  have "\<exists>k. ?P k" using assms by blast
  then obtain k where k: "?P k" "\<forall>i < k. \<not> ?P i" using exists_least_iff [of ?P] by blast
  then have "fst (cs ! i) = []" if "i < k" for i using that less_trans [of i k "length cs"] by blast
  with k(1) have "first_nonempty cs k" by (simp add: first_nonempty_def)
  then show ?thesis ..
qed

lemma first_nonempty_update:
  "first_nonempty cs k \<Longrightarrow> first_nonempty (cs[k := (fst (cs ! k), r)]) k"
  by (auto simp: first_nonempty_def nth_list_update)

lemma select_loop_none: "list_all (\<lambda>c. fst c = []) cs \<Longrightarrow> select_loop cs = (None, cs)"
  by (induction cs rule: select_loop.induct) simp_all

lemma select_statuses [simp]: "statuses (snd (select s)) = statuses s"
  by (simp add: select_def split: prod.splits)

lemma balancer_select_wf:
  assumes "balancer_wf s"
  shows "balancer_wf (snd (select s))"
proof (cases "\<exists>j < 4. fst (categorized s ! j) \<noteq> []")
  case False
  with assms have "select_loop (categorized s) = (None, categorized s)"
    by (intro select_loop_none) (auto simp: list_all_length balancer_wf_def)
  then have "select s = (None, s)" by (simp add: select_def)
  with assms show ?thesis by simp
next
  case True
  then obtain j where "j < length (categorized s)" "fst (categorized s ! j) \<noteq> []"
    using assms by (auto simp: balancer_wf_def)
  then obtain k where k: "first_nonempty (categorized s) k" using first_nonempty_exists by blast
  let ?s1 = "snd (select s)"
  have cs: "categorized ?s1 = (categorized s)[k := (fst (categorized s ! k), snd (categorized s ! k) + 1)]"
    using k by (simp add: select_def select_loop_first)
  then have "categorized ?s1 ! category_index c =
      (fst (categorized s ! category_index c), snd (categorized s ! category_index c) + (if k = category_index c then 1 else 0))" for c
    using assms by (simp add: nth_list_update balancer_wf_def)
  moreover have "in_category c ?s1 = in_category c s" for c by (simp add: in_category_def)
  ultimately show ?thesis using assms cs by (simp add: balancer_wf_def)
qed

lemma balancer_step_wf: "balancer_wf s \<Longrightarrow> balancer_wf (balancer_step e s)"
  by (cases e) (simp_all add: balancer_add_wf balancer_update_wf balancer_remove_wf balancer_select_wf)

lemma balancer_run_wf: "balancer_wf (balancer_run es)"
  unfolding balancer_run_def
  by (rule fold_invariant [where P = balancer_wf and Q = "\<lambda>_. True"])
    (simp_all add: balancer_new_wf balancer_step_wf)

lemma select_many_first:
  assumes "first_nonempty (categorized s) k"
  shows "fst (select_many n s) =
    map (\<lambda>j. Some (fst (categorized s ! k) !
      nat ((snd (categorized s ! k) + int j) mod int (length (fst (categorized s ! k)))))) [0..<n]"
  using assms
proof (induction n arbitrary: s)
  case (Suc n)
  let ?v = "fst (categorized s ! k)" and ?r = "snd (categorized s ! k)"
  let ?s1 = "s\<lparr>categorized := (categorized s)[k := (?v, ?r + 1)]\<rparr>"
  have k: "k < length (categorized s)" using Suc.prems by (simp add: first_nonempty_def)
  have s: "select s = (Some (?v ! nat (?r mod int (length ?v))), ?s1)"
    using Suc.prems by (simp add: select_def select_loop_first)
  have first: "first_nonempty (categorized ?s1) k" using first_nonempty_update [OF Suc.prems] by simp
  have "fst (select_many n ?s1) = map (\<lambda>j. Some (?v ! nat ((?r + 1 + int j) mod int (length ?v)))) [0..<n]"
    using Suc.IH [OF first] k by simp
  with s show ?case by (simp add: upt_conv_Cons map_Suc_upt [symmetric] algebra_simps del: upt_Suc)
qed simp

text \<open>One round of the counter visits every server once, from wherever it starts.\<close>

lemma round_is_rotation:
  assumes "0 \<le> r" and "v \<noteq> []"
  shows "map (\<lambda>j. v ! nat ((r + int j) mod int (length v))) [0..<length v] = rotate (nat r) v"
proof (rule nth_equalityI)
  fix j assume "j < length (map (\<lambda>j. v ! nat ((r + int j) mod int (length v))) [0..<length v])"
  then have j: "j < length v" by simp
  have "nat ((r + int j) mod int (length v)) = (nat r + j) mod length v"
    using assms(1) by (simp add: nat_mod_distrib nat_add_distrib)
  with j show "map (\<lambda>j. v ! nat ((r + int j) mod int (length v))) [0..<length v] ! j = rotate (nat r) v ! j"
    by (simp add: nth_rotate)
qed simp

lemma rounds_visit_all:
  assumes "0 \<le> r" and "v \<noteq> []"
  shows "mset (map (\<lambda>j. v ! nat ((r + int j) mod int (length v))) [0..<n * length v]) = repeat_mset n (mset v)"
proof (induction n)
  case (Suc n)
  have "[0..<Suc n * length v] = [0..<n * length v] @ map (\<lambda>j. j + n * length v) [0..<length v]"
    using upt_add_eq_append [of 0 "n * length v" "length v"] by (simp add: map_add_upt add.commute)
  moreover have "(r + int (j + n * length v)) mod int (length v) = (r + int j) mod int (length v)" for j
    by (simp add: algebra_simps flip: add.assoc)
  ultimately have "mset (map (\<lambda>j. v ! nat ((r + int j) mod int (length v))) [0..<Suc n * length v])
      = repeat_mset n (mset v) + mset (rotate (nat r) v)"
    using Suc.IH round_is_rotation [OF assms] by (simp add: comp_def del: mset_upt)
  moreover have "mset (rotate (nat r) v) = mset v"
    by (simp add: rotate_drop_take flip: mset_append) (metis append_take_drop_id mset_append union_commute)
  ultimately show ?case by simp
qed simp

definition best_servers :: "load_balancer \<Rightarrow> int set" where
  "best_servers s = {i. \<exists>st. statuses s i = Some st
     \<and> (\<forall>j st'. statuses s j = Some st' \<longrightarrow> category_index (get_category st) \<le> category_index (get_category st'))}"

lemma category_of_index: "k < 4 \<Longrightarrow> \<exists>c. k = category_index c"
  by (cases "k = 0"; cases "k = 1"; cases "k = 2")
    (auto intro: exI [of _ Healthy] exI [of _ Moderate] exI [of _ Busy] exI [of _ Invalid])

lemma best_servers_first:
  assumes "balancer_wf s" and "first_nonempty (categorized s) k"
  shows "best_servers s = set (fst (categorized s ! k))" and "distinct (fst (categorized s ! k))"
    and "0 \<le> snd (categorized s ! k)"
proof -
  from assms obtain c where c: "k = category_index c"
    using category_of_index by (auto simp: balancer_wf_def first_nonempty_def)
  show "distinct (fst (categorized s ! k))" "0 \<le> snd (categorized s ! k)"
    using assms(1) by (simp_all add: balancer_wf_def c)
  have cat: "set (fst (categorized s ! category_index d)) = in_category d s" for d
    using assms(1) by (simp add: balancer_wf_def)
  have "in_category c s \<noteq> {}" using assms(2) cat [of c] c by (auto simp: first_nonempty_def)
  then obtain i0 where i0: "i0 \<in> in_category c s" by blast
  have le: "k \<le> category_index (get_category st)" if "statuses s j = Some st" for j st
  proof (rule ccontr)
    assume "\<not> k \<le> category_index (get_category st)"
    then have "in_category (get_category st) s = {}"
      using assms(2) cat [of "get_category st"] by (auto simp: first_nonempty_def)
    with that show False by (auto simp: in_category_def)
  qed
  show "best_servers s = set (fst (categorized s ! k))"
    using i0 le by (auto simp: best_servers_def cat c in_category_def intro!: le_antisym) (metis category_index_inject le_antisym)
qed

lemma best_servers_exist:
  assumes "balancer_wf s" and "best_servers s \<noteq> {}"
  shows "\<exists>k. first_nonempty (categorized s) k"
proof -
  from assms(2) obtain i st where "statuses s i = Some st" by (auto simp: best_servers_def)
  then have "i \<in> in_category (get_category st) s" by (simp add: in_category_def)
  with assms(1) have "fst (categorized s ! category_index (get_category st)) \<noteq> []" by (force simp: balancer_wf_def)
  with assms(1) show ?thesis by (intro first_nonempty_exists) (auto simp: balancer_wf_def)
qed

lemma count_image_Some: "count (image_mset Some M) (Some x) = count M x"
  by (induction M) auto

lemma count_mset_distinct: "distinct xs \<Longrightarrow> count (mset xs) x = (if x \<in> set xs then 1 else 0)"
  by (simp add: distinct_count_atmost_1)

text \<open>
  C22: The load balancer shares its choices out evenly among the best servers there are: after any registrations,
  updates, removals and choices, in \<open>n\<close> times as many choices in a row as the best category has
  servers every one of these is chosen exactly \<open>n\<close> times and no other is.
\<close>

theorem select_shares_out:
  "count (mset (fst (select_many (n * card (best_servers (balancer_run es))) (balancer_run es)))) x
    = (case x of Some i \<Rightarrow> if i \<in> best_servers (balancer_run es) then n else 0 | None \<Rightarrow> 0)"
proof (cases "best_servers (balancer_run es) = {}")
  case True
  then show ?thesis by (simp split: option.split)
next
  case False
  let ?s = "balancer_run es"
  have wf: "balancer_wf ?s" by (rule balancer_run_wf)
  from False obtain k where k: "first_nonempty (categorized ?s) k" using best_servers_exist [OF wf] by blast
  let ?v = "fst (categorized ?s ! k)"
  note first = best_servers_first [OF wf k]
  have "card (best_servers ?s) = length ?v" by (simp add: first distinct_card)
  moreover have "?v \<noteq> []" using k by (simp add: first_nonempty_def)
  moreover have "fst (select_many m ?s) = map Some
      (map (\<lambda>j. ?v ! nat ((snd (categorized ?s ! k) + int j) mod int (length ?v))) [0..<m])" for m
    by (simp add: select_many_first [OF k])
  ultimately have "mset (fst (select_many (n * card (best_servers ?s)) ?s)) = image_mset Some (repeat_mset n (mset ?v))"
    by (simp only: mset_map [of Some] rounds_visit_all [OF first(3) \<open>?v \<noteq> []\<close>])
  then show ?thesis
    by (cases x) (simp_all add: count_image_Some count_mset_distinct [OF first(2)] first(1) count_eq_zero_iff)
qed

end
