(* ===== verification/DungeonMatch.thy ===== *)
theory DungeonMatch
  imports Prelude
begin

text \<open>
  \<^verbatim>\<open>xr/service/coordination/contents/match\<close>: the coordinator that makes groups of users who want the same dungeon. A
  user waits in the queue of the dungeon; a tick of the coordinator makes groups of the first users of a queue; each
  member approves or rejects; a group that everybody approved is handed to a server, which launches the dungeon.

  The theory proves that users, queues and groups stay consistent, that groups are made in the order of arrival and
  launched only when everybody approved, that the only operation that fails is a decision of a member whose group is
  being launched, and that the members of a group whose launch failed are never matched again.
\<close>

subsection \<open>State\<close>

datatype user_state = Waiting | Grouped

record match_user =
  user_dungeon :: int
  user_state :: user_state
  user_group :: "int option"

datatype decision = Null | Approve | Reject

text \<open>The members of a group with their decisions, in the order in which the container is walked.\<close>

record match_group =
  group_id :: int
  group_dungeon :: int
  group_users :: "(int \<times> decision) list"

datatype match_command =
    GroupCreation int int
  | GroupRejected int int
  | LaunchInstance int int
  | GroupApproved int int

text \<open>
  \<open>match_queues\<close> is \<^verbatim>\<open>_matchQueues\<close> in the order in which it is walked; a queue holds pointers to the users of
  \<^verbatim>\<open>_matchUsers\<close>, here their ids. \<open>launching\<close> are the coroutines of \<^verbatim>\<open>HandleMatchGroupApproved\<close> that wait for the server,
  \<open>failed\<close> (not in the program) the groups whose launch ended with an exception. \<open>located\<close> is the part of the node
  container that the coordinator looks at: the server of every user that is connected.
\<close>

record match_coordinator =
  match_users :: "int \<rightharpoonup> match_user"
  match_queues :: "(int \<times> int list) list"
  match_groups :: "int \<rightharpoonup> match_group"
  nextGroupId :: int
  launching :: "match_group list"
  failed :: "match_group list"
  located :: "int \<rightharpoonup> int"
  commands :: "match_command list"

definition match_new :: match_coordinator where
  "match_new = \<lparr>match_users = Map.empty, match_queues = [], match_groups = Map.empty, nextGroupId = 0, launching = [],
     failed = [], located = Map.empty, commands = []\<rparr>"

subsection \<open>Users and queues\<close>

text \<open>\<^verbatim>\<open>_matchQueues[dungeonId]\<close> makes the queue if there is none.\<close>

fun queue_at :: "int \<Rightarrow> (int \<times> int list) list \<Rightarrow> int list" where
  "queue_at d [] = []"
| "queue_at d ((d', q) # qs) = (if d' = d then q else queue_at d qs)"

fun queue_put :: "int \<Rightarrow> int list \<Rightarrow> (int \<times> int list) list \<Rightarrow> (int \<times> int list) list" where
  "queue_put d q [] = [(d, q)]"
| "queue_put d q ((d', q') # qs) = (if d' = d then (d, q) # qs else (d', q') # queue_put d q qs)"

definition add_user :: "int \<Rightarrow> int \<Rightarrow> match_coordinator \<Rightarrow> bool \<times> match_coordinator" where
  "add_user i d s =
     (case match_users s i of
        Some _ \<Rightarrow> (False, s)
      | None \<Rightarrow>
          (True, s\<lparr>match_users := (match_users s)(i \<mapsto> \<lparr>user_dungeon = d, user_state = Waiting, user_group = None\<rparr>),
                   match_queues := queue_put d (queue_at d (match_queues s) @ [i]) (match_queues s)\<rparr>))"

definition cancel_user_match :: "int \<Rightarrow> match_coordinator \<Rightarrow> bool \<times> match_coordinator" where
  "cancel_user_match i s =
     (case match_users s i of
        None \<Rightarrow> (False, s)
      | Some u \<Rightarrow>
          if user_state u = Grouped then (False, s)
          else
            let d = user_dungeon u; q = queue_at d (match_queues s)
            in if i \<notin> set q then (False, s\<lparr>match_queues := queue_put d q (match_queues s)\<rparr>)
               else (True, s\<lparr>match_queues := queue_put d (remove1 i q) (match_queues s),
                             match_users := (match_users s)(i := None)\<rparr>))"

subsection \<open>Groups\<close>

definition is_approval :: "match_group \<Rightarrow> bool" where
  "is_approval g \<longleftrightarrow> list_all (\<lambda>(_, d). d = Approve) (group_users g)"

definition is_rejected :: "match_group \<Rightarrow> bool" where
  "is_rejected g \<longleftrightarrow> list_ex (\<lambda>(_, d). d = Reject) (group_users g)"

definition group_add_user :: "int \<Rightarrow> match_group \<Rightarrow> match_group" where
  "group_add_user i g =
     (if i \<in> fst ` set (group_users g) then g else g\<lparr>group_users := group_users g @ [(i, Null)]\<rparr>)"

definition set_user_decision :: "int \<Rightarrow> decision \<Rightarrow> match_group \<Rightarrow> bool \<times> match_group" where
  "set_user_decision i d g =
     (case map_of (group_users g) i of
        None \<Rightarrow> (False, g)
      | Some old \<Rightarrow>
          if old \<noteq> Null then (False, g)
          else (True, g\<lparr>group_users := map (\<lambda>(j, e). (j, if j = i then d else e)) (group_users g)\<rparr>))"

text \<open>A command to the server of a user, through the node container; \<^verbatim>\<open>FindServerWith\<close> may be null.\<close>

definition send_to ::
  "(int \<Rightarrow> int \<Rightarrow> match_command) \<Rightarrow> int \<Rightarrow> match_coordinator \<Rightarrow> fault + match_coordinator" where
  "send_to command i s =
     (case located s i of
        None \<Rightarrow> Inl NullDeref
      | Some server \<Rightarrow> Inr (s\<lparr>commands := commands s @ [command server i]\<rparr>))"

fun handle_group_creation :: "int list \<Rightarrow> match_coordinator \<Rightarrow> fault + match_coordinator" where
  "handle_group_creation [] s = Inr s"
| "handle_group_creation (i # is) s = and_then (send_to GroupCreation i s) (handle_group_creation is)"

fun handle_group_rejected :: "int list \<Rightarrow> match_coordinator \<Rightarrow> fault + match_coordinator" where
  "handle_group_rejected [] s = Inr s"
| "handle_group_rejected (i # is) s =
     and_then (send_to GroupRejected i (s\<lparr>match_users := (match_users s)(i := None)\<rparr>)) (handle_group_rejected is)"

text \<open>The inner loop of \<^verbatim>\<open>CreateMatchingGroup\<close>: the users are read through the pointers of the queue.\<close>

fun group_users_of :: "int list \<Rightarrow> match_group \<Rightarrow> match_coordinator \<Rightarrow> fault + (match_group \<times> match_coordinator)" where
  "group_users_of [] g s = Inr (g, s)"
| "group_users_of (i # is) g s =
     (case match_users s i of
        None \<Rightarrow> Inl UseAfterFree
      | Some u \<Rightarrow>
          group_users_of is (group_add_user i g)
            (s\<lparr>match_users := (match_users s)(i \<mapsto> u\<lparr>user_state := Grouped, user_group := Some (group_id g)\<rparr>)\<rparr>))"

definition make_group :: "int \<Rightarrow> int list \<Rightarrow> match_coordinator \<Rightarrow> fault + match_coordinator" where
  "make_group d is s =
     (let i = nextGroupId s + 1
      in and_then (group_users_of is \<lparr>group_id = i, group_dungeon = d, group_users = []\<rparr> (s\<lparr>nextGroupId := i\<rparr>))
           (\<lambda>(g, s1). handle_group_creation (map fst (group_users g))
              (s1\<lparr>match_groups := (match_groups s1)(i \<mapsto> g)\<rparr>)))"

text \<open>The loop over one queue; \<open>n\<close> is \<^verbatim>\<open>matchOrganizeSize\<close>, a positive constant.\<close>

function make_groups :: "nat \<Rightarrow> int \<Rightarrow> int list \<Rightarrow> match_coordinator \<Rightarrow> fault + (int list \<times> match_coordinator)" where
  "make_groups n d q s =
     (if 0 < n \<and> n \<le> length q
      then and_then (make_group d (take n q) s) (make_groups n d (drop n q))
      else Inr (q, s))"
  by auto
termination by (relation "measure (\<lambda>(n, d, q, s). length q)") auto

declare make_groups.simps [simp del]

text \<open>The first loop over the queues erases those that are empty, the second does not.\<close>

fun match_queues_loop ::
  "nat \<Rightarrow> bool \<Rightarrow> (int \<times> int list) list \<Rightarrow> match_coordinator \<Rightarrow> fault + match_coordinator" where
  "match_queues_loop n erase [] s = Inr s"
| "match_queues_loop n erase ((d, q) # qs) s =
     and_then (make_groups n d q s) (\<lambda>(q', s1).
       and_then (match_queues_loop n erase qs s1) (\<lambda>s2.
         Inr (s2\<lparr>match_queues :=
           (if erase \<and> q' = [] then match_queues s2 else (d, q') # match_queues s2)\<rparr>)))"

definition match_all :: "nat \<Rightarrow> bool \<Rightarrow> match_coordinator \<Rightarrow> fault + match_coordinator" where
  "match_all n erase s = match_queues_loop n erase (match_queues s) (s\<lparr>match_queues := []\<rparr>)"

definition matchOrganizeSize :: nat where "matchOrganizeSize = 400"
definition matchOrganizeSize2 :: nat where "matchOrganizeSize2 = 600"

definition create_matching_group :: "nat \<Rightarrow> nat \<Rightarrow> match_coordinator \<Rightarrow> fault + match_coordinator" where
  "create_matching_group n m s = and_then (match_all n True s) (match_all m False)"

subsection \<open>Decisions\<close>

text \<open>\<^verbatim>\<open>HandleMatchGroupApproved\<close> up to where it waits; \<open>server\<close> is the choice of the load balancer.\<close>

definition handle_group_approved ::
  "int option \<Rightarrow> match_group \<Rightarrow> match_coordinator \<Rightarrow> fault + match_coordinator" where
  "handle_group_approved server g s =
     (case server of
        None \<Rightarrow> Inl NullDeref
      | Some k \<Rightarrow>
          Inr (s\<lparr>commands := commands s @ [LaunchInstance k (group_dungeon g)], launching := launching s @ [g]\<rparr>))"

definition user_group_of :: "int \<Rightarrow> match_coordinator \<Rightarrow> fault + match_group option" where
  "user_group_of i s =
     (case match_users s i of
        None \<Rightarrow> Inr None
      | Some u \<Rightarrow>
          if user_state u \<noteq> Grouped then Inr None
          else case user_group u of
              None \<Rightarrow> Inl BadOptional
            | Some gid \<Rightarrow>
                (case match_groups s gid of
                   None \<Rightarrow> Inl NullDeref
                 | Some g \<Rightarrow> Inr (Some g)))"

definition approve_user_match :: "int option \<Rightarrow> int \<Rightarrow> match_coordinator \<Rightarrow> fault + (bool \<times> match_coordinator)" where
  "approve_user_match server i s =
     and_then (user_group_of i s) (\<lambda>found.
       case found of
         None \<Rightarrow> Inr (False, s)
       | Some g \<Rightarrow>
           (case set_user_decision i Approve g of
              (False, _) \<Rightarrow> Inr (False, s)
            | (True, g1) \<Rightarrow>
                (let s1 = s\<lparr>match_groups := (match_groups s)(group_id g \<mapsto> g1)\<rparr>
                 in if is_approval g1
                    then and_then (handle_group_approved server g1 s1)
                           (\<lambda>s2. Inr (True, s2\<lparr>match_groups := (match_groups s2)(group_id g := None)\<rparr>))
                    else Inr (True, s1))))"

definition reject_user_match :: "int \<Rightarrow> match_coordinator \<Rightarrow> fault + (bool \<times> match_coordinator)" where
  "reject_user_match i s =
     and_then (user_group_of i s) (\<lambda>found.
       case found of
         None \<Rightarrow> Inr (False, s)
       | Some g \<Rightarrow>
           (case set_user_decision i Reject g of
              (False, _) \<Rightarrow> Inr (False, s)
            | (True, g1) \<Rightarrow>
                (let s1 = s\<lparr>match_groups := (match_groups s)(group_id g \<mapsto> g1)\<rparr>
                 in if is_rejected g1
                    then and_then (handle_group_rejected (map fst (group_users g1)) s1)
                           (\<lambda>s2. Inr (True, s2\<lparr>match_groups := (match_groups s2)(group_id g := None)\<rparr>))
                    else Inr (True, s1))))"

text \<open>The rest of \<^verbatim>\<open>HandleMatchGroupApproved\<close>: the dungeon runs on \<open>server\<close>, or the launch ended with an exception.\<close>

fun migrate_users :: "int \<Rightarrow> int list \<Rightarrow> match_coordinator \<Rightarrow> match_coordinator" where
  "migrate_users server [] s = s"
| "migrate_users server (i # is) s =
     (let s1 = s\<lparr>match_users := (match_users s)(i := None)\<rparr>
      in migrate_users server is
           (case located s1 i of
              None \<Rightarrow> s1
            | Some old \<Rightarrow>
                s1\<lparr>located := (located s1)(i \<mapsto> server), commands := commands s1 @ [GroupApproved old i]\<rparr>))"

definition launch_completed :: "int option \<Rightarrow> nat \<Rightarrow> match_coordinator \<Rightarrow> match_coordinator" where
  "launch_completed server k s =
     (let g = launching s ! k;
          s1 = s\<lparr>launching := take k (launching s) @ drop (Suc k) (launching s)\<rparr>
      in case server of
           Some n \<Rightarrow> migrate_users n (map fst (group_users g)) s1
         | None \<Rightarrow> s1\<lparr>failed := failed s1 @ [g]\<rparr>)"

subsection \<open>Runs\<close>

datatype match_event =
    AddUser int int
  | CancelUserMatch int
  | ApproveUserMatch int "int option"
  | RejectUserMatch int
  | CreateMatchingGroup
  | LaunchCompleted nat "int option"
  | Connected int int
  | Disconnected int

fun match_step :: "nat \<Rightarrow> nat \<Rightarrow> match_event \<Rightarrow> match_coordinator \<Rightarrow> fault + match_coordinator" where
  "match_step n m (AddUser i d) s = Inr (snd (add_user i d s))"
| "match_step n m (CancelUserMatch i) s = Inr (snd (cancel_user_match i s))"
| "match_step n m (ApproveUserMatch i server) s =
     and_then (approve_user_match server i s) (\<lambda>(_, s1). Inr s1)"
| "match_step n m (RejectUserMatch i) s = and_then (reject_user_match i s) (\<lambda>(_, s1). Inr s1)"
| "match_step n m CreateMatchingGroup s = create_matching_group n m s"
| "match_step n m (LaunchCompleted k server) s =
     Inr (if k < length (launching s) then launch_completed server k s else s)"
| "match_step n m (Connected i server) s = Inr (s\<lparr>located := (located s)(i \<mapsto> server)\<rparr>)"
| "match_step n m (Disconnected i) s = Inr (s\<lparr>located := (located s)(i := None)\<rparr>)"

inductive match_reach :: "nat \<Rightarrow> nat \<Rightarrow> match_coordinator \<Rightarrow> bool" for n m where
  init: "match_reach n m match_new"
| step: "match_reach n m s \<Longrightarrow> match_step n m e s = Inr s1 \<Longrightarrow> match_reach n m s1"

fun match_run :: "nat \<Rightarrow> nat \<Rightarrow> match_event list \<Rightarrow> match_coordinator \<Rightarrow> fault + match_coordinator" where
  "match_run n m [] s = Inr s"
| "match_run n m (e # es) s = and_then (match_step n m e s) (match_run n m es)"


subsection \<open>The invariant\<close>

definition waiting_user :: "int \<Rightarrow> match_user" where
  "waiting_user d = \<lparr>user_dungeon = d, user_state = Waiting, user_group = None\<rparr>"

definition grouped_user :: "int \<Rightarrow> int \<Rightarrow> match_user" where
  "grouped_user d g = \<lparr>user_dungeon = d, user_state = Grouped, user_group = Some g\<rparr>"

definition members :: "match_group \<Rightarrow> int list" where
  "members g = map fst (group_users g)"

definition launched :: "match_coordinator \<Rightarrow> match_group list" where
  "launched s = launching s @ failed s"

definition all_groups :: "match_coordinator \<Rightarrow> match_group set" where
  "all_groups s = ran (match_groups s) \<union> set (launched s)"

text \<open>
  Every user is either in the queue of the dungeon and nowhere else, or a member of one group. The queues are given
  on their own, because they are being rebuilt while groups are made.
\<close>

definition queues_wf :: "(int \<times> int list) list \<Rightarrow> match_coordinator \<Rightarrow> bool" where
  "queues_wf Q s \<longleftrightarrow> distinct (map fst Q) \<and> (\<forall>d. distinct (queue_at d Q))
     \<and> (\<forall>d i. i \<in> set (queue_at d Q) \<longleftrightarrow> match_users s i = Some (waiting_user d))"

definition groups_wf :: "nat \<Rightarrow> match_coordinator \<Rightarrow> bool" where
  "groups_wf n s \<longleftrightarrow>
     (\<forall>g \<in> all_groups s. distinct (members g) \<and> length (members g) = n \<and> group_id g \<le> nextGroupId s
        \<and> (\<forall>i \<in> set (members g). \<exists>d. match_users s i = Some (grouped_user d (group_id g))))
     \<and> (\<forall>k g. match_groups s k = Some g \<longrightarrow> group_id g = k \<and> \<not> is_approval g \<and> \<not> is_rejected g)
     \<and> (\<forall>g \<in> set (launched s). is_approval g \<and> match_groups s (group_id g) = None)
     \<and> distinct (map group_id (launched s))"

definition users_wf :: "match_coordinator \<Rightarrow> bool" where
  "users_wf s \<longleftrightarrow> (\<forall>i u. match_users s i = Some u \<longrightarrow>
     u = waiting_user (user_dungeon u)
     \<or> (\<exists>g \<in> all_groups s. i \<in> set (members g) \<and> u = grouped_user (user_dungeon u) (group_id g)))"

definition match_wf :: "nat \<Rightarrow> (int \<times> int list) list \<Rightarrow> match_coordinator \<Rightarrow> bool" where
  "match_wf n Q s \<longleftrightarrow> queues_wf Q s \<and> groups_wf n s \<and> users_wf s"

lemma user_simps [simp]:
  "user_state (waiting_user d) = Waiting" "user_dungeon (waiting_user d) = d" "user_group (waiting_user d) = None"
  "user_state (grouped_user d g) = Grouped" "user_dungeon (grouped_user d g) = d" "user_group (grouped_user d g) = Some g"
  "waiting_user d \<noteq> grouped_user e g" "grouped_user e g \<noteq> waiting_user d" "waiting_user d = waiting_user e \<longleftrightarrow> d = e"
  "grouped_user d g = grouped_user e h \<longleftrightarrow> d = e \<and> g = h"
  by (auto simp: waiting_user_def grouped_user_def)

lemma queue_at_put [simp]: "queue_at d (queue_put e q Q) = (if d = e then q else queue_at d Q)"
  by (induction Q) auto

lemma queue_put_keys: "set (map fst (queue_put e q Q)) = insert e (set (map fst Q))"
  by (induction e q Q rule: queue_put.induct) auto

lemma queue_put_distinct: "distinct (map fst Q) \<Longrightarrow> distinct (map fst (queue_put e q Q))"
proof (induction Q)
  case (Cons p Q)
  obtain d q' where p: "p = (d, q')" by (cases p)
  with Cons queue_put_keys [of e q Q] show ?case by auto
qed simp

lemma match_wfD:
  assumes "match_wf n Q s"
  shows "distinct (map fst Q)" and "distinct (queue_at d Q)"
    and "i \<in> set (queue_at d Q) \<longleftrightarrow> match_users s i = Some (waiting_user d)"
    and "g \<in> all_groups s \<Longrightarrow> distinct (members g) \<and> length (members g) = n \<and> group_id g \<le> nextGroupId s"
    and "g \<in> all_groups s \<Longrightarrow> i \<in> set (members g) \<Longrightarrow> \<exists>d. match_users s i = Some (grouped_user d (group_id g))"
    and "match_groups s k = Some g \<Longrightarrow> group_id g = k \<and> \<not> is_approval g \<and> \<not> is_rejected g"
    and "g \<in> set (launched s) \<Longrightarrow> is_approval g \<and> match_groups s (group_id g) = None"
    and "distinct (map group_id (launched s))"
    and "match_users s i = Some u \<Longrightarrow> u = waiting_user (user_dungeon u)
      \<or> (\<exists>g \<in> all_groups s. i \<in> set (members g) \<and> u = grouped_user (user_dungeon u) (group_id g))"
  using assms unfolding match_wf_def queues_wf_def groups_wf_def users_wf_def by blast+

text \<open>Two groups with a common id are the same, and so are two groups with a common member.\<close>

lemma group_ids_unique:
  assumes "match_wf n Q s" and "g \<in> all_groups s" and "h \<in> all_groups s" and "group_id g = group_id h"
  shows "g = h"
proof -
  have inj: "inj_on group_id (set (launched s))"
    using match_wfD(8) [OF assms(1)] by (simp add: distinct_map)
  have live: "match_groups s (group_id x) = Some x" if "x \<in> ran (match_groups s)" for x
    using that match_wfD(6) [OF assms(1)] by (force simp: ran_def)
  from assms(2,3) show ?thesis
    unfolding all_groups_def
    using assms(4) live match_wfD(7) [OF assms(1)] inj_onD [OF inj] by (metis UnE option.distinct(1) option.inject)
qed

lemma group_of_member:
  assumes "match_wf n Q s" and "g \<in> all_groups s" and "h \<in> all_groups s" and "i \<in> set (members g)"
    and "i \<in> set (members h)"
  shows "g = h"
  using match_wfD(5) [OF assms(1,2,4)] match_wfD(5) [OF assms(1,3,5)] group_ids_unique [OF assms(1-3)] by auto

lemma all_groups_iff:
  assumes "match_wf n Q s"
  shows "g \<in> all_groups s \<longleftrightarrow> match_groups s (group_id g) = Some g \<or> g \<in> set (launched s)"
proof -
  have "g \<in> ran (match_groups s) \<longleftrightarrow> match_groups s (group_id g) = Some g"
    using match_wfD(6) [OF assms, of _ g] by (auto simp: ran_def)
  then show ?thesis by (simp add: all_groups_def)
qed

lemma match_wfI:
  assumes "distinct (map fst Q)" and "\<And>d. distinct (queue_at d Q)"
    and "\<And>d i. i \<in> set (queue_at d Q) \<longleftrightarrow> match_users s i = Some (waiting_user d)"
    and "\<And>g. g \<in> all_groups s \<Longrightarrow> distinct (members g) \<and> length (members g) = n \<and> group_id g \<le> nextGroupId s"
    and "\<And>g i. g \<in> all_groups s \<Longrightarrow> i \<in> set (members g) \<Longrightarrow> \<exists>d. match_users s i = Some (grouped_user d (group_id g))"
    and "\<And>k g. match_groups s k = Some g \<Longrightarrow> group_id g = k \<and> \<not> is_approval g \<and> \<not> is_rejected g"
    and "\<And>g. g \<in> set (launched s) \<Longrightarrow> is_approval g \<and> match_groups s (group_id g) = None"
    and "distinct (map group_id (launched s))"
    and "\<And>i u. match_users s i = Some u \<Longrightarrow> u = waiting_user (user_dungeon u)
      \<or> (\<exists>g \<in> all_groups s. i \<in> set (members g) \<and> u = grouped_user (user_dungeon u) (group_id g))"
  shows "match_wf n Q s"
  using assms unfolding match_wf_def queues_wf_def groups_wf_def users_wf_def by blast

lemma match_new_wf: "match_wf n [] match_new"
  by (rule match_wfI) (simp_all add: match_new_def all_groups_def launched_def)

lemma match_wf_cong:
  "match_wf n Q s \<Longrightarrow> match_users s' = match_users s \<Longrightarrow> match_groups s' = match_groups s
    \<Longrightarrow> launched s' = launched s \<Longrightarrow> nextGroupId s' = nextGroupId s \<Longrightarrow> match_wf n Q s'"
  by (simp add: match_wf_def queues_wf_def groups_wf_def users_wf_def all_groups_def)

subsection \<open>Users come and go\<close>

lemma add_user_wf:
  assumes "match_wf n (match_queues s) s"
  shows "match_wf n (match_queues (snd (add_user i d s))) (snd (add_user i d s))"
proof (cases "match_users s i")
  case None
  let ?Q = "queue_put d (queue_at d (match_queues s) @ [i]) (match_queues s)"
  let ?s = "s\<lparr>match_users := (match_users s)(i \<mapsto> waiting_user d), match_queues := ?Q\<rparr>"
  note wf = match_wfD [OF assms]
  have groups: "all_groups ?s = all_groups s" "launched ?s = launched s" by (simp_all add: all_groups_def launched_def)
  have notin: "i \<notin> set (queue_at e (match_queues s))" for e using wf(3) None by simp
  have "match_wf n ?Q ?s"
  proof (rule match_wfI)
    show "distinct (map fst ?Q)" by (rule queue_put_distinct [OF wf(1)])
    show "distinct (queue_at e ?Q)" for e using wf(2) notin by simp
    show "j \<in> set (queue_at e ?Q) \<longleftrightarrow> match_users ?s j = Some (waiting_user e)" for e j
      using wf(3) notin None by auto
    show "\<exists>e. match_users ?s j = Some (grouped_user e (group_id g))" if "g \<in> all_groups ?s" "j \<in> set (members g)" for g j
      using wf(5) [of g j] that None groups by auto
    show "u = waiting_user (user_dungeon u)
      \<or> (\<exists>g \<in> all_groups ?s. j \<in> set (members g) \<and> u = grouped_user (user_dungeon u) (group_id g))"
      if "match_users ?s j = Some u" for j u
      using wf(9) [of j u] that groups by (cases "j = i") auto
  qed (use wf(4,6-8) groups in simp_all)
  with None show ?thesis by (simp add: add_user_def waiting_user_def)
qed (simp add: add_user_def assms)

lemma cancel_user_wf:
  assumes "match_wf n (match_queues s) s"
  shows "match_wf n (match_queues (snd (cancel_user_match i s))) (snd (cancel_user_match i s))"
proof (cases "\<exists>d. match_users s i = Some (waiting_user d)")
  case True
  then obtain d where d: "match_users s i = Some (waiting_user d)" by blast
  note wf = match_wfD [OF assms]
  let ?q = "queue_at d (match_queues s)"
  let ?Q = "queue_put d (remove1 i ?q) (match_queues s)"
  let ?s = "s\<lparr>match_queues := ?Q, match_users := (match_users s)(i := None)\<rparr>"
  have q: "i \<in> set ?q" "distinct ?q" using wf(2,3) d by simp_all
  have groups: "all_groups ?s = all_groups s" "launched ?s = launched s" by (simp_all add: all_groups_def launched_def)
  have "match_wf n ?Q ?s"
  proof (rule match_wfI)
    show "distinct (map fst ?Q)" by (rule queue_put_distinct [OF wf(1)])
    show "distinct (queue_at e ?Q)" for e using wf(2) by (simp add: distinct_remove1)
    show "j \<in> set (queue_at e ?Q) \<longleftrightarrow> match_users ?s j = Some (waiting_user e)" for e j
      using wf(3) q(2) d by auto
    show "\<exists>e. match_users ?s j = Some (grouped_user e (group_id g))" if "g \<in> all_groups ?s" "j \<in> set (members g)" for g j
      using wf(5) [of g j] that d groups by auto
    show "u = waiting_user (user_dungeon u)
      \<or> (\<exists>g \<in> all_groups ?s. j \<in> set (members g) \<and> u = grouped_user (user_dungeon u) (group_id g))"
      if "match_users ?s j = Some u" for j u
      using wf(9) [of j u] that groups by (cases "j = i") auto
  qed (use wf(4,6-8) groups in simp_all)
  with d q(1) show ?thesis by (simp add: cancel_user_match_def)
next
  case False
  then have "cancel_user_match i s = (False, s)"
    using match_wfD(9) [OF assms, of i] by (auto simp: cancel_user_match_def split: option.splits) (metis user_simps(4))
  then show ?thesis by (simp add: assms)
qed


subsection \<open>Groups are made\<close>

definition set_users :: "int list \<Rightarrow> match_user option \<Rightarrow> (int \<rightharpoonup> match_user) \<Rightarrow> (int \<rightharpoonup> match_user)" where
  "set_users is u m = (\<lambda>i. if i \<in> set is then u else m i)"

lemma set_users_simps [simp]:
  "set_users [] u m = m" "set_users (i # is) u m = set_users is u (m(i := u))"
  by (auto simp: set_users_def fun_eq_iff)

lemma set_users_apply: "set_users is u m i = (if i \<in> set is then u else m i)"
  by (simp add: set_users_def)

lemma group_users_of_waiting:
  "distinct is \<Longrightarrow> list_all (\<lambda>i. match_users s i = Some (waiting_user d)) is
    \<Longrightarrow> set is \<inter> fst ` set (group_users g) = {}
    \<Longrightarrow> group_users_of is g s =
      Inr (g\<lparr>group_users := group_users g @ map (\<lambda>i. (i, Null)) is\<rparr>,
           s\<lparr>match_users := set_users is (Some (grouped_user d (group_id g))) (match_users s)\<rparr>)"
proof (induction "is" arbitrary: g s)
  case (Cons i "is")
  let ?g = "g\<lparr>group_users := group_users g @ [(i, Null)]\<rparr>"
  let ?s = "s\<lparr>match_users := (match_users s)(i \<mapsto> grouped_user d (group_id g))\<rparr>"
  have "group_users_of (i # is) g s = group_users_of is ?g ?s"
    using Cons.prems by (simp add: group_add_user_def waiting_user_def grouped_user_def)
  also have "\<dots> = Inr (?g\<lparr>group_users := group_users ?g @ map (\<lambda>i. (i, Null)) is\<rparr>,
      ?s\<lparr>match_users := set_users is (Some (grouped_user d (group_id g))) (match_users ?s)\<rparr>)"
  proof -
    have "list_all (\<lambda>i. match_users ?s i = Some (waiting_user d)) is" "set is \<inter> fst ` set (group_users ?g) = {}"
      using Cons.prems by (auto simp: list_all_iff)
    with Cons.IH [of ?s ?g] Cons.prems(1) show ?thesis by (simp del: fun_upd_apply)
  qed
  finally show ?case by (simp del: fun_upd_apply)
qed simp

lemma handle_group_creation_eq:
  "handle_group_creation is s =
    (if list_all (\<lambda>i. located s i \<noteq> None) is
     then Inr (s\<lparr>commands := commands s @ map (\<lambda>i. GroupCreation (the (located s i)) i) is\<rparr>)
     else Inl NullDeref)"
  by (induction "is" arbitrary: s) (auto simp: send_to_def split: option.splits)

lemma handle_group_rejected_eq:
  "handle_group_rejected is s =
    (if list_all (\<lambda>i. located s i \<noteq> None) is
     then Inr (s\<lparr>match_users := set_users is None (match_users s),
                  commands := commands s @ map (\<lambda>i. GroupRejected (the (located s i)) i) is\<rparr>)
     else Inl NullDeref)"
  by (induction "is" arbitrary: s) (auto simp: send_to_def split: option.splits)

definition new_group :: "int \<Rightarrow> int list \<Rightarrow> int \<Rightarrow> match_group" where
  "new_group d is k = \<lparr>group_id = k, group_dungeon = d, group_users = map (\<lambda>i. (i, Null)) is\<rparr>"

definition grouped :: "int \<Rightarrow> int list \<Rightarrow> match_coordinator \<Rightarrow> match_coordinator" where
  "grouped d is s =
     (let k = nextGroupId s + 1
      in s\<lparr>match_users := set_users is (Some (grouped_user d k)) (match_users s),
           match_groups := (match_groups s)(k \<mapsto> new_group d is k), nextGroupId := k,
           commands := commands s @ map (\<lambda>i. GroupCreation (the (located s i)) i) is\<rparr>)"

lemma grouped_fields [simp]:
  "match_users (grouped d is s) = set_users is (Some (grouped_user d (nextGroupId s + 1))) (match_users s)"
  "match_groups (grouped d is s) = (match_groups s)(nextGroupId s + 1 \<mapsto> new_group d is (nextGroupId s + 1))"
  "nextGroupId (grouped d is s) = nextGroupId s + 1" "located (grouped d is s) = located s"
  "launched (grouped d is s) = launched s" "match_queues (grouped d is s) = match_queues s"
  "launching (grouped d is s) = launching s" "failed (grouped d is s) = failed s"
  by (simp_all add: grouped_def Let_def launched_def)

lemma new_group_fields [simp]:
  "group_id (new_group d is k) = k" "members (new_group d is k) = is" "group_dungeon (new_group d is k) = d"
  "group_users (new_group d is k) = map (\<lambda>i. (i, Null)) is"
  by (simp_all add: new_group_def members_def comp_def)

lemma make_group_eq:
  assumes "distinct is" and "list_all (\<lambda>i. match_users s i = Some (waiting_user d)) is"
  shows "make_group d is s =
    (if list_all (\<lambda>i. located s i \<noteq> None) is then Inr (grouped d is s) else Inl NullDeref)"
proof -
  let ?k = "nextGroupId s + 1"
  let ?g = "\<lparr>group_id = ?k, group_dungeon = d, group_users = []\<rparr>"
  have "group_users_of is ?g (s\<lparr>nextGroupId := ?k\<rparr>) = Inr (?g\<lparr>group_users := map (\<lambda>i. (i, Null)) is\<rparr>,
      s\<lparr>nextGroupId := ?k, match_users := set_users is (Some (grouped_user d ?k)) (match_users s)\<rparr>)"
    using group_users_of_waiting [of "is" "s\<lparr>nextGroupId := ?k\<rparr>" d ?g] assms by simp
  then show ?thesis
    by (simp add: make_group_def Let_def handle_group_creation_eq comp_def grouped_def new_group_def)
qed

lemma all_groups_fresh:
  assumes "match_wf n Q s"
  shows "all_groups (grouped d is s) = insert (new_group d is (nextGroupId s + 1)) (all_groups s)"
proof -
  have "match_groups s (nextGroupId s + 1) = None"
  proof (cases "match_groups s (nextGroupId s + 1)")
    case (Some g)
    then have "g \<in> all_groups s" by (auto simp: all_groups_def ran_def)
    with match_wfD(4) [OF assms this] match_wfD(6) [OF assms Some] show ?thesis by simp
  qed
  then show ?thesis by (auto simp: all_groups_def)
qed

lemma grouped_wf:
  assumes "match_wf n Q s" and "queue_at d Q = is @ rest" and "length is = n" and "0 < n"
  shows "match_wf n (queue_put d rest Q) (grouped d is s)"
proof (rule match_wfI)
  note wf = match_wfD [OF assms(1)]
  let ?k = "nextGroupId s + 1" and ?s = "grouped d is s"
  note groups = all_groups_fresh [OF assms(1), of d "is"]
  have dis: "distinct is" "set is \<inter> set rest = {}" using wf(2) [of d] by (auto simp: assms(2))
  have waiting: "match_users s i = Some (waiting_user d)" if "i \<in> set is" for i
    using wf(3) [of i d] that by (simp add: assms(2))
  have k: "match_groups s ?k = None"
    using wf(4,6) by (cases "match_groups s ?k") (force simp: all_groups_def ran_def)+
  show "distinct (map fst (queue_put d rest Q))" by (rule queue_put_distinct [OF wf(1)])
  show "distinct (queue_at e (queue_put d rest Q))" for e using wf(2) [of e] by (auto simp: assms(2))
  show "i \<in> set (queue_at e (queue_put d rest Q)) \<longleftrightarrow> match_users ?s i = Some (waiting_user e)" for e i
    using wf(3) [of i e] wf(3) [of i d] dis waiting by (auto simp: assms(2) set_users_apply)
  show "distinct (members g) \<and> length (members g) = n \<and> group_id g \<le> nextGroupId ?s" if "g \<in> all_groups ?s" for g
    using that wf(4) [of g] dis assms(3) groups by (auto simp: set_users_apply)
  show "\<exists>e. match_users ?s i = Some (grouped_user e (group_id g))" if "g \<in> all_groups ?s" "i \<in> set (members g)" for g i
    using that wf(5) [of g i] waiting groups by (auto simp: set_users_apply)
  show "group_id g = j \<and> \<not> is_approval g \<and> \<not> is_rejected g" if "match_groups ?s j = Some g" for j g
    using that wf(6) assms(3,4)
    by (cases "is") (auto simp: is_approval_def is_rejected_def list_ex_iff split: if_splits)
  show "is_approval g \<and> match_groups ?s (group_id g) = None" if "g \<in> set (launched ?s)" for g
    using that wf(7) [of g] wf(4) [of g] by (auto simp: all_groups_def)
  show "distinct (map group_id (launched ?s))" using wf(8) by simp
  show "u = waiting_user (user_dungeon u)
      \<or> (\<exists>g \<in> all_groups ?s. i \<in> set (members g) \<and> u = grouped_user (user_dungeon u) (group_id g))"
    if "match_users ?s i = Some u" for i u
  proof (cases "i \<in> set is")
    case True
    with that groups show ?thesis by (auto simp: set_users_apply)
  next
    case False
    with that wf(9) [of i u] groups show ?thesis by (auto simp: set_users_apply)
  qed
qed


text \<open>A user of the coordinator who is not connected any more.\<close>

definition lost_user :: "match_coordinator \<Rightarrow> bool" where
  "lost_user s \<longleftrightarrow> (\<exists>i. match_users s i \<noteq> None \<and> located s i = None)"

definition same_users :: "match_coordinator \<Rightarrow> match_coordinator \<Rightarrow> bool" where
  "same_users s s1 \<longleftrightarrow> located s1 = located s \<and> (\<forall>i. match_users s1 i = None \<longleftrightarrow> match_users s i = None)
     \<and> launching s1 = launching s \<and> failed s1 = failed s"

lemma lost_user_same: "same_users s s1 \<Longrightarrow> lost_user s1 \<longleftrightarrow> lost_user s"
  by (simp add: lost_user_def same_users_def)

lemma same_users_trans: "same_users s s1 \<Longrightarrow> same_users s1 s2 \<Longrightarrow> same_users s s2"
  by (simp add: same_users_def)

text \<open>The groups made of a queue: their members, in the order of the groups, and what is left are the queue.\<close>

definition groups_made :: "nat \<Rightarrow> int list \<Rightarrow> int list \<Rightarrow> match_coordinator \<Rightarrow> match_coordinator \<Rightarrow> bool" where
  "groups_made n q rest s s1 \<longleftrightarrow>
     (\<exists>mss. concat mss @ rest = q \<and> list_all (\<lambda>ms. length ms = n) mss
        \<and> nextGroupId s1 = nextGroupId s + int (length mss)
        \<and> (\<forall>k < length mss. map_option members (match_groups s1 (nextGroupId s + 1 + int k)) = Some (mss ! k)))"

lemma make_groups_wf:
  assumes "match_wf n Q s" and "queue_at d Q = q" and "0 < n"
  shows "case make_groups n d q s of
      Inl f \<Rightarrow> f = NullDeref \<and> lost_user s
    | Inr (rest, s1) \<Rightarrow> match_wf n (queue_put d rest Q) s1 \<and> length rest < n \<and> same_users s s1
        \<and> match_queues s1 = match_queues s \<and> groups_made n q rest s s1
        \<and> (\<forall>k \<le> nextGroupId s. match_groups s1 k = match_groups s k)"
  using assms
proof (induction n d q s arbitrary: Q rule: make_groups.induct)
  case (1 n d q s)
  note wf = match_wfD [OF "1.prems"(1)]
  show ?case
  proof (cases "n \<le> length q")
    case False
    have "queue_at e (queue_put d q Q) = queue_at e Q" for e using "1.prems"(2) by simp
    then have "match_wf n (queue_put d q Q) s"
      using "1.prems"(1) queue_put_distinct [OF wf(1), of d q] unfolding match_wf_def queues_wf_def by simp
    with False "1.prems"(3) show ?thesis
      by (simp add: make_groups.simps [of n d q s] same_users_def groups_made_def)
  next
    case True
    let ?is = "take n q"
    have dis: "distinct ?is" using wf(2) [of d] "1.prems"(2) by simp
    have w: "list_all (\<lambda>i. match_users s i = Some (waiting_user d)) ?is"
      using wf(3) [of _ d] "1.prems"(2) by (auto simp: list_all_iff dest: in_set_takeD)
    note mg = make_group_eq [OF dis w]
    have step: "make_groups n d q s = and_then (make_group d ?is s) (make_groups n d (drop n q))"
      using True "1.prems"(3) by (simp add: make_groups.simps [of n d q s])
    show ?thesis
    proof (cases "list_all (\<lambda>i. located s i \<noteq> None) ?is")
      case False
      then have "lost_user s" using w by (force simp: lost_user_def list_all_iff)
      with False mg step show ?thesis by simp
    next
      case located: True
      let ?s = "grouped d ?is s"
      have mg': "make_group d ?is s = Inr ?s" using located mg by simp
      have wf1: "match_wf n (queue_put d (drop n q) Q) ?s"
        using True "1.prems" by (intro grouped_wf) simp_all
      have su: "same_users s ?s"
        using w by (auto simp: same_users_def set_users_apply list_all_iff)
      have IH: "case make_groups n d (drop n q) ?s of
          Inl f \<Rightarrow> f = NullDeref \<and> lost_user ?s
        | Inr (rest, s1) \<Rightarrow> match_wf n (queue_put d rest (queue_put d (drop n q) Q)) s1 \<and> length rest < n
            \<and> same_users ?s s1 \<and> match_queues s1 = match_queues ?s \<and> groups_made n (drop n q) rest ?s s1
            \<and> (\<forall>k \<le> nextGroupId ?s. match_groups s1 k = match_groups ?s k)"
        by (rule "1.IH" [OF _ wf1]) (use True "1.prems"(3) in simp_all)
      have put: "queue_put d rest (queue_put d x Q) = queue_put d rest Q" for rest x
        by (induction d x Q rule: queue_put.induct) auto
      show ?thesis
      proof (cases "make_groups n d (drop n q) ?s")
        case (Inl f)
        with IH step mg' lost_user_same [OF su] show ?thesis by simp
      next
        case (Inr p)
        obtain rest s1 where p: "p = (rest, s1)" by fastforce
        from IH Inr p have i: "match_wf n (queue_put d rest Q) s1" "length rest < n" "same_users ?s s1"
          "match_queues s1 = match_queues s" "groups_made n (drop n q) rest ?s s1"
          "\<forall>k \<le> nextGroupId s + 1. match_groups s1 k = match_groups ?s k"
          by (simp_all add: put)
        from i(5) obtain mss where mss: "concat mss @ rest = drop n q" "list_all (\<lambda>ms. length ms = n) mss"
          "nextGroupId s1 = nextGroupId s + 1 + int (length mss)"
          "\<forall>k < length mss. map_option members (match_groups s1 (nextGroupId s + 1 + 1 + int k)) = Some (mss ! k)"
          by (auto simp: groups_made_def)
        have "groups_made n q rest s s1"
          unfolding groups_made_def
        proof (intro exI [of _ "?is # mss"] conjI allI impI)
          show "concat (?is # mss) @ rest = q" using mss(1) by simp
          show "list_all (\<lambda>ms. length ms = n) (?is # mss)" using mss(2) True by simp
          show "nextGroupId s1 = nextGroupId s + int (length (?is # mss))" using mss(3) by simp
          fix k assume k: "k < length (?is # mss)"
          show "map_option members (match_groups s1 (nextGroupId s + 1 + int k)) = Some ((?is # mss) ! k)"
          proof (cases k)
            case 0
            with i(6) show ?thesis by simp
          next
            case (Suc j)
            with k mss(4) show ?thesis by (simp add: algebra_simps)
          qed
        qed
        with i p Inr step mg' same_users_trans [OF su i(3)] show ?thesis by simp
      qed
    qed
  qed
qed


text \<open>The walk over the queues; those before it are done.\<close>

lemma queue_at_append: "queue_at d (P @ Q) = (if d \<in> set (map fst P) then queue_at d P else queue_at d Q)"
  by (induction d P rule: queue_at.induct) simp_all

lemma queue_at_absent: "d \<notin> set (map fst Q) \<Longrightarrow> queue_at d Q = []"
  by (induction Q) auto

lemma queue_put_middle: "d \<notin> set (map fst P) \<Longrightarrow> queue_put d q (P @ (d, q') # Q) = P @ (d, q) # Q"
  by (induction P) auto

lemma drop_empty_queue:
  assumes "match_wf n (P @ (d, []) # Q) s"
  shows "match_wf n (P @ Q) s"
proof -
  have dis: "distinct (map fst (P @ (d, []) # Q))" using match_wfD(1) [OF assms] .
  have "queue_at e (P @ (d, []) # Q) = queue_at e (P @ Q)" for e
    using dis queue_at_absent [of d Q] by (auto simp: queue_at_append)
  with assms dis show ?thesis by (auto simp: match_wf_def queues_wf_def)
qed

lemma match_queues_loop_wf:
  assumes "match_wf n (P @ Q) s" and "0 < n"
  shows "case match_queues_loop n erase Q s of
      Inl f \<Rightarrow> f = NullDeref \<and> lost_user s
    | Inr s1 \<Rightarrow> (\<exists>Q1. match_queues s1 = Q1 @ match_queues s \<and> match_wf n (P @ Q1) s1
        \<and> list_all (\<lambda>(_, q). length q < n) Q1 \<and> same_users s s1)"
  using assms(1)
proof (induction Q arbitrary: P s)
  case Nil
  then show ?case by (simp add: same_users_def)
next
  case (Cons p Q)
  obtain d q where p: "p = (d, q)" by fastforce
  have dis: "d \<notin> set (map fst P)" using match_wfD(1) [OF Cons.prems] p by auto
  have q: "queue_at d (P @ p # Q) = q" using dis by (simp add: queue_at_append p)
  note mg = make_groups_wf [OF Cons.prems q assms(2)]
  show ?case
  proof (cases "make_groups n d q s")
    case (Inl f)
    with mg p show ?thesis by simp
  next
    case (Inr r)
    obtain q' s1 where r: "r = (q', s1)" by fastforce
    from mg Inr r p dis have s1: "match_wf n ((P @ [(d, q')]) @ Q) s1" "length q' < n" "same_users s s1"
      "match_queues s1 = match_queues s" by (simp_all add: queue_put_middle)
    note IH = Cons.IH [OF s1(1)]
    show ?thesis
    proof (cases "match_queues_loop n erase Q s1")
      case (Inl f)
      with IH Inr r p lost_user_same [OF s1(3)] show ?thesis by simp
    next
      case inr: (Inr s2)
      from IH inr obtain Q1 where s2: "match_queues s2 = Q1 @ match_queues s1" "match_wf n (P @ (d, q') # Q1) s2"
        "list_all (\<lambda>(_, q). length q < n) Q1" "same_users s1 s2" by auto
      define Q2 where "Q2 = (if erase \<and> q' = [] then Q1 else (d, q') # Q1)"
      define s3 where "s3 = s2\<lparr>match_queues := Q2 @ match_queues s\<rparr>"
      have loop: "match_queues_loop n erase (p # Q) s = Inr s3"
        using p Inr r inr s2(1) s1(4) by (simp add: s3_def Q2_def)
      have "match_wf n (P @ Q2) s2"
        using s2(2) drop_empty_queue [of n P d Q1 s2] by (auto simp: Q2_def)
      then have "match_wf n (P @ Q2) s3"
        by (rule match_wf_cong) (simp_all add: s3_def launched_def)
      moreover have "list_all (\<lambda>(_, q). length q < n) Q2" using s2(3) s1(2) by (simp add: Q2_def)
      moreover have "same_users s s3"
        using same_users_trans [OF s1(3) s2(4)] by (simp add: s3_def same_users_def)
      moreover have "match_queues s3 = Q2 @ match_queues s" by (simp add: s3_def)
      ultimately show ?thesis unfolding loop by auto
    qed
  qed
qed

lemma match_all_wf:
  assumes "match_wf n (match_queues s) s" and "0 < n"
  shows "case match_all n erase s of
      Inl f \<Rightarrow> f = NullDeref \<and> lost_user s
    | Inr s1 \<Rightarrow> match_wf n (match_queues s1) s1 \<and> list_all (\<lambda>(_, q). length q < n) (match_queues s1) \<and> same_users s s1"
proof -
  let ?s = "s\<lparr>match_queues := []\<rparr>"
  have "match_wf n ([] @ match_queues s) ?s"
    using match_wf_cong [OF assms(1), of ?s] by (simp add: launched_def)
  from match_queues_loop_wf [OF this assms(2), of erase] show ?thesis
    by (auto simp: match_all_def lost_user_def same_users_def split: sum.splits)
qed

text \<open>The second loop, over queues that have too few users, changes nothing.\<close>

lemma match_queues_loop_short:
  "list_all (\<lambda>(_, q). length q < n) Q \<Longrightarrow> n \<le> m
    \<Longrightarrow> match_queues_loop m False Q s = Inr (s\<lparr>match_queues := Q @ match_queues s\<rparr>)"
  by (induction Q arbitrary: s) (auto simp: make_groups.simps)

lemma second_loop_makes_nothing:
  assumes "match_wf n (match_queues s) s" and "0 < n" and "n \<le> m"
  shows "create_matching_group n m s = match_all n True s"
proof (cases "match_all n True s")
  case (Inr s1)
  with match_all_wf [OF assms(1,2), of True] have "list_all (\<lambda>(_, q). length q < n) (match_queues s1)" by simp
  from match_queues_loop_short [OF this assms(3), of "s1\<lparr>match_queues := []\<rparr>"] Inr show ?thesis
    by (simp add: create_matching_group_def match_all_def)
qed (simp add: create_matching_group_def)


subsection \<open>Groups decide\<close>

lemma set_user_decision_members:
  assumes "set_user_decision i d g = (ok, g1)"
  shows "members g1 = members g" and "group_id g1 = group_id g"
  using assms by (auto simp: set_user_decision_def members_def case_prod_beta split: option.splits if_splits)

lemma set_decision_in:
  "(j, e) \<in> set (map (\<lambda>(j, e). (j, if j = i then d else e)) us)
    \<longleftrightarrow> (\<exists>e0. (j, e0) \<in> set us \<and> e = (if j = i then d else e0))"
  by (induction us) auto

lemma is_rejected_iff: "is_rejected g \<longleftrightarrow> (\<exists>j. (j, Reject) \<in> set (group_users g))"
  by (auto simp: is_rejected_def list_ex_iff)

lemma set_user_decision_rejected:
  assumes "set_user_decision i d g = (True, g1)" and "distinct (members g)"
  shows "d = Approve \<Longrightarrow> is_rejected g1 = is_rejected g" and "d = Reject \<Longrightarrow> is_rejected g1"
proof -
  from assms(1) have old: "map_of (group_users g) i = Some Null"
    and g1: "g1 = g\<lparr>group_users := map (\<lambda>(j, e). (j, if j = i then d else e)) (group_users g)\<rparr>"
    by (auto simp: set_user_decision_def split: option.splits if_splits)
  have i: "(i, e) \<in> set (group_users g) \<longleftrightarrow> e = Null" for e
    using old map_of_eq_Some_iff [of "group_users g" i e] assms(2) by (auto simp: members_def)
  have g1_in: "(j, e) \<in> set (group_users g1) \<longleftrightarrow> (if j = i then e = d else (j, e) \<in> set (group_users g))" for j e
  proof -
    have "(j, e) \<in> set (group_users g1) \<longleftrightarrow> (\<exists>e0. (j, e0) \<in> set (group_users g) \<and> e = (if j = i then d else e0))"
      unfolding g1 by (subst set_decision_in [symmetric]) simp
    with i show ?thesis by (cases "j = i") simp_all
  qed
  show "is_rejected g1 = is_rejected g" if "d = Approve"
    using that i [of Reject] by (auto simp: is_rejected_iff g1_in)
  show "is_rejected g1" if "d = Reject" using that by (auto simp: is_rejected_iff g1_in)
qed

lemma user_group_of_cases:
  assumes "match_wf n Q s"
  obtains (none) "user_group_of i s = Inr None" "\<And>g. g \<in> all_groups s \<Longrightarrow> i \<notin> set (members g)"
  | (table) g where "user_group_of i s = Inr (Some g)" "match_groups s (group_id g) = Some g" "i \<in> set (members g)"
  | (launched) g where "user_group_of i s = Inl NullDeref" "g \<in> set (launched s)" "i \<in> set (members g)"
proof (cases "match_users s i")
  case None
  have "i \<notin> set (members g)" if "g \<in> all_groups s" for g using match_wfD(5) [OF assms that, of i] None by auto
  with None show thesis by (intro none) (simp_all add: user_group_of_def)
next
  case (Some u)
  from match_wfD(9) [OF assms Some] show thesis
  proof (elim disjE bexE conjE)
    assume u: "u = waiting_user (user_dungeon u)"
    have "i \<notin> set (members g)" if "g \<in> all_groups s" for g
      using match_wfD(5) [OF assms that, of i] Some u by (metis option.inject user_simps(8))
    moreover have "user_state u = Waiting" using u by (metis user_simps(1))
    ultimately show thesis using Some by (intro none) (simp_all add: user_group_of_def)
  next
    fix g assume g: "g \<in> all_groups s" "i \<in> set (members g)" "u = grouped_user (user_dungeon u) (group_id g)"
    then have u: "user_state u = Grouped" "user_group u = Some (group_id g)" by (metis user_simps(4), metis user_simps(6))
    show thesis
    proof (cases "match_groups s (group_id g)")
      case None
      then have "g \<in> set (launched s)" using g(1) match_wfD(6) [OF assms] by (fastforce simp: all_groups_def ran_def)
      with None Some u g(2) show thesis by (intro launched) (simp_all add: user_group_of_def)
    next
      case h: (Some h)
      then have "h \<in> all_groups s" "group_id h = group_id g"
        using match_wfD(6) [OF assms] by (auto simp: all_groups_def ran_def)
      then have "h = g" using group_ids_unique [OF assms _ g(1)] by simp
      with h Some u g(2) show thesis by (intro table) (simp_all add: user_group_of_def)
    qed
  qed
qed

text \<open>A group of the table changes its decisions, leaves for the servers, or is dissolved.\<close>

lemma replace_group_wf:
  assumes "match_wf n Q s" and "match_groups s (group_id g) = Some g"
    and "members g1 = members g" and "group_id g1 = group_id g" and "\<not> is_approval g1" and "\<not> is_rejected g1"
  shows "match_wf n Q (s\<lparr>match_groups := (match_groups s)(group_id g \<mapsto> g1)\<rparr>)"
proof (rule match_wfI)
  let ?s = "s\<lparr>match_groups := (match_groups s)(group_id g \<mapsto> g1)\<rparr>"
  note wf = match_wfD [OF assms(1)]
  have g: "g \<in> all_groups s" using assms(2) by (auto simp: all_groups_def ran_def)
  have launched: "launched ?s = launched s" by (simp add: launched_def)
  have all: "x = g1 \<or> x \<in> all_groups s" if "x \<in> all_groups ?s" for x
    using that launched by (auto simp: all_groups_def ran_def split: if_splits)
  have kept: "x = g \<or> x \<in> all_groups ?s" if "x \<in> all_groups s" for x
    using that all_groups_iff [OF assms(1), of x] assms(2) launched
    by (cases "group_id x = group_id g") (auto simp: all_groups_def ran_def)
  have g1: "g1 \<in> all_groups ?s" by (auto simp: all_groups_def ran_def)
  show "distinct (members x) \<and> length (members x) = n \<and> group_id x \<le> nextGroupId ?s" if "x \<in> all_groups ?s" for x
    using all [OF that] wf(4) [of x] wf(4) [OF g] assms(3,4) by auto
  show "\<exists>d. match_users ?s i = Some (grouped_user d (group_id x))" if "x \<in> all_groups ?s" "i \<in> set (members x)" for x i
    using all [OF that(1)] that(2) wf(5) [of x i] wf(5) [OF g, of i] assms(3,4) by auto
  show "group_id x = k \<and> \<not> is_approval x \<and> \<not> is_rejected x" if "match_groups ?s k = Some x" for k x
    using that wf(6) assms(4-6) by (auto split: if_splits)
  show "is_approval x \<and> match_groups ?s (group_id x) = None" if "x \<in> set (launched ?s)" for x
    using that wf(7) [of x] assms(2) launched by auto
  show "u = waiting_user (user_dungeon u)
      \<or> (\<exists>x \<in> all_groups ?s. i \<in> set (members x) \<and> u = grouped_user (user_dungeon u) (group_id x))"
    if "match_users ?s i = Some u" for i u
    using that wf(9) [of i u] kept g1 assms(3,4) by auto metis
qed (use match_wfD(1-3,8) [OF assms(1)] in \<open>simp_all add: launched_def\<close>)


lemma remove_group_wf:
  assumes "match_wf n Q s" and "match_groups s (group_id g) = Some g"
    and "launched s1 = launched s" and "nextGroupId s1 = nextGroupId s"
    and "match_groups s1 = (match_groups s)(group_id g := None)"
    and "match_users s1 = set_users (members g) None (match_users s)"
  shows "match_wf n Q s1"
proof (rule match_wfI)
  note wf = match_wfD [OF assms(1)]
  have g: "g \<in> all_groups s" using assms(2) by (auto simp: all_groups_def ran_def)
  have all: "x \<in> all_groups s \<and> group_id x \<noteq> group_id g" if "x \<in> all_groups s1" for x
    using that all_groups_iff [OF assms(1), of x] wf(6) [of _ x] wf(7) [of x] assms(2,3,5)
    by (auto simp: all_groups_def ran_def split: if_splits)
  have kept: "x = g \<or> x \<in> all_groups s1" if "x \<in> all_groups s" for x
    using that all_groups_iff [OF assms(1), of x] assms(2,3,5)
    by (cases "group_id x = group_id g") (auto simp: all_groups_def ran_def)
  have member: "\<exists>d. match_users s i = Some (grouped_user d (group_id g))" if "i \<in> set (members g)" for i
    using wf(5) [OF g that] .
  show "i \<in> set (queue_at d Q) \<longleftrightarrow> match_users s1 i = Some (waiting_user d)" for d i
    using wf(3) [of i d] member [of i] by (auto simp: assms(6) set_users_apply)
  show "distinct (members x) \<and> length (members x) = n \<and> group_id x \<le> nextGroupId s1" if "x \<in> all_groups s1" for x
    using all [OF that] wf(4) [of x] assms(4) by auto
  show "\<exists>d. match_users s1 i = Some (grouped_user d (group_id x))" if "x \<in> all_groups s1" "i \<in> set (members x)" for x i
    using all [OF that(1)] that(2) wf(5) [of x i] member [of i] by (auto simp: assms(6) set_users_apply)
  show "group_id x = k \<and> \<not> is_approval x \<and> \<not> is_rejected x" if "match_groups s1 k = Some x" for k x
    using that wf(6) assms(5) by (auto split: if_splits)
  show "is_approval x \<and> match_groups s1 (group_id x) = None" if "x \<in> set (launched s1)" for x
    using that wf(7) [of x] assms(3,5) by auto
  show "u = waiting_user (user_dungeon u)
      \<or> (\<exists>x \<in> all_groups s1. i \<in> set (members x) \<and> u = grouped_user (user_dungeon u) (group_id x))"
    if "match_users s1 i = Some u" for i u
    using that wf(9) [of i u] kept by (auto simp: assms(6) set_users_apply split: if_splits)
qed (use match_wfD(1,2,8) [OF assms(1)] in \<open>simp_all add: assms(3)\<close>)

lemma launch_group_wf:
  assumes "match_wf n Q s" and "match_groups s (group_id g) = Some g"
    and "members g1 = members g" and "group_id g1 = group_id g" and "is_approval g1"
    and "launching s1 = launching s @ [g1]" and "failed s1 = failed s" and "nextGroupId s1 = nextGroupId s"
    and "match_groups s1 = (match_groups s)(group_id g := None)" and "match_users s1 = match_users s"
  shows "match_wf n Q s1"
proof (rule match_wfI)
  note wf = match_wfD [OF assms(1)]
  have g: "g \<in> all_groups s" using assms(2) by (auto simp: all_groups_def ran_def)
  have launched: "set (launched s1) = insert g1 (set (launched s))"
    "distinct (map group_id (launched s1)) \<longleftrightarrow> distinct (map group_id (launched s)) \<and> group_id g1 \<notin> group_id ` set (launched s)"
    by (auto simp: launched_def assms(6,7))
  have all: "x = g1 \<or> x \<in> all_groups s" if "x \<in> all_groups s1" for x
    using that launched(1) assms(9) by (auto simp: all_groups_def ran_def split: if_splits)
  have kept: "x = g \<or> x \<in> all_groups s1" if "x \<in> all_groups s" for x
    using that all_groups_iff [OF assms(1), of x] assms(2,9) launched(1)
    by (cases "group_id x = group_id g") (auto simp: all_groups_def ran_def)
  have g1: "g1 \<in> all_groups s1" using launched(1) by (simp add: all_groups_def)
  show "distinct (members x) \<and> length (members x) = n \<and> group_id x \<le> nextGroupId s1" if "x \<in> all_groups s1" for x
    using all [OF that] wf(4) [of x] wf(4) [OF g] assms(3,4,8) by auto
  show "\<exists>d. match_users s1 i = Some (grouped_user d (group_id x))" if "x \<in> all_groups s1" "i \<in> set (members x)" for x i
    using all [OF that(1)] that(2) wf(5) [of x i] wf(5) [OF g, of i] assms(3,4,10) by auto
  show "group_id x = k \<and> \<not> is_approval x \<and> \<not> is_rejected x" if "match_groups s1 k = Some x" for k x
    using that wf(6) assms(9) by (auto split: if_splits)
  show "is_approval x \<and> match_groups s1 (group_id x) = None" if "x \<in> set (launched s1)" for x
    using that wf(7) [of x] assms(4,5,9) launched(1) by auto
  have "group_id g1 \<notin> group_id ` set (launched s)"
    using wf(7) assms(2,4) by fastforce
  with wf(8) launched(2) show "distinct (map group_id (launched s1))" by simp
  show "u = waiting_user (user_dungeon u)
      \<or> (\<exists>x \<in> all_groups s1. i \<in> set (members x) \<and> u = grouped_user (user_dungeon u) (group_id x))"
    if "match_users s1 i = Some u" for i u
    using that wf(9) [of i u] kept g1 assms(3,4,10) by auto metis
qed (use match_wfD(1-3) [OF assms(1)] in \<open>simp_all add: assms(10)\<close>)

text \<open>The steps of a decision, and when they fail.\<close>

definition in_launch :: "int \<Rightarrow> match_coordinator \<Rightarrow> bool" where
  "in_launch i s \<longleftrightarrow> list_ex (\<lambda>g. i \<in> set (members g)) (launched s)"

lemma approve_wf:
  assumes "match_wf n Q s"
  shows "case approve_user_match server i s of
      Inl f \<Rightarrow> f = NullDeref \<and> (in_launch i s \<or> server = None)
    | Inr (_, s1) \<Rightarrow> match_wf n Q s1 \<and> match_queues s1 = match_queues s \<and> failed s1 = failed s"
  using assms
proof (cases rule: user_group_of_cases [where i = i])
  case none
  then show ?thesis by (simp add: approve_user_match_def assms)
next
  case (launched g)
  then show ?thesis by (auto simp: approve_user_match_def in_launch_def list_ex_iff)
next
  case (table g)
  obtain ok g1 where d: "set_user_decision i Approve g = (ok, g1)" by fastforce
  note m = set_user_decision_members [OF d]
  have g: "g \<in> all_groups s" using table(2) by (auto simp: all_groups_def ran_def)
  show ?thesis
  proof (cases ok)
    case False
    with table(1) d assms show ?thesis by (simp add: approve_user_match_def)
  next
    case True
    have rej: "\<not> is_rejected g1"
      using set_user_decision_rejected(1) [of i Approve g g1] d True match_wfD(4) [OF assms g]
        match_wfD(6) [OF assms table(2)] by simp
    show ?thesis
    proof (cases "is_approval g1")
      case False
      from replace_group_wf [OF assms table(2) m False rej] table(1) d True False
      show ?thesis by (simp add: approve_user_match_def)
    next
      case appr: True
      show ?thesis
      proof (cases server)
        case None
        with table(1) d True appr show ?thesis by (simp add: approve_user_match_def handle_group_approved_def)
      next
        case (Some k)
        let ?s1 = "s\<lparr>commands := commands s @ [LaunchInstance k (group_dungeon g1)], launching := launching s @ [g1],
          match_groups := (match_groups s)(group_id g := None)\<rparr>"
        have "match_wf n Q ?s1"
          by (rule launch_group_wf [OF assms table(2) m appr]) simp_all
        with table(1) d True appr Some show ?thesis
          by (simp add: approve_user_match_def handle_group_approved_def)
      qed
    qed
  qed
qed

lemma reject_wf:
  assumes "match_wf n Q s"
  shows "case reject_user_match i s of
      Inl f \<Rightarrow> f = NullDeref \<and> (in_launch i s \<or> lost_user s)
    | Inr (_, s1) \<Rightarrow> match_wf n Q s1 \<and> match_queues s1 = match_queues s \<and> failed s1 = failed s"
  using assms
proof (cases rule: user_group_of_cases [where i = i])
  case none
  then show ?thesis by (simp add: reject_user_match_def assms)
next
  case (launched g)
  then show ?thesis by (auto simp: reject_user_match_def in_launch_def list_ex_iff)
next
  case (table g)
  obtain ok g1 where d: "set_user_decision i Reject g = (ok, g1)" by fastforce
  note m = set_user_decision_members [OF d]
  have g: "g \<in> all_groups s" using table(2) by (auto simp: all_groups_def ran_def)
  show ?thesis
  proof (cases ok)
    case False
    with table(1) d assms show ?thesis by (simp add: reject_user_match_def)
  next
    case True
    have rej: "is_rejected g1"
      using set_user_decision_rejected(2) [of i Reject g g1] d True match_wfD(4) [OF assms g] by simp
    let ?s = "s\<lparr>match_groups := (match_groups s)(group_id g \<mapsto> g1)\<rparr>"
    have r: "reject_user_match i s = and_then (handle_group_rejected (members g1) ?s)
        (\<lambda>s2. Inr (True, s2\<lparr>match_groups := (match_groups s2)(group_id g := None)\<rparr>))"
      using table(1) d True rej by (simp add: reject_user_match_def members_def)
    show ?thesis
    proof (cases "list_all (\<lambda>i. located s i \<noteq> None) (members g)")
      case False
      then obtain j where "j \<in> set (members g)" "located s j = None" by (auto simp: list_all_iff)
      with match_wfD(5) [OF assms g, of j] have "lost_user s" by (auto simp: lost_user_def)
      with False m show ?thesis by (simp add: r handle_group_rejected_eq)
    next
      case located: True
      let ?s1 = "?s\<lparr>match_users := set_users (members g) None (match_users s),
        commands := commands s @ map (\<lambda>i. GroupRejected (the (located s i)) i) (members g)\<rparr>"
      have "match_wf n Q (?s1\<lparr>match_groups := (match_groups ?s1)(group_id g := None)\<rparr>)"
        by (rule remove_group_wf [OF assms table(2)]) (simp_all add: launched_def)
      with located m show ?thesis by (simp add: r handle_group_rejected_eq)
    qed
  qed
qed


subsection \<open>Launches end\<close>

lemma migrate_users_eq:
  "match_users (migrate_users server is s) = set_users is None (match_users s)"
  "match_groups (migrate_users server is s) = match_groups s"
  "match_queues (migrate_users server is s) = match_queues s"
  "launching (migrate_users server is s) = launching s" "failed (migrate_users server is s) = failed s"
  "nextGroupId (migrate_users server is s) = nextGroupId s"
  by (induction server "is" s rule: migrate_users.induct) (simp_all add: Let_def split: option.splits)

lemma nth_split: "k < length xs \<Longrightarrow> xs = take k xs @ xs ! k # drop (Suc k) xs"
  by (simp add: id_take_nth_drop)

text \<open>A launched group is taken off the list, with its users or to the failed ones.\<close>

lemma launch_done_wf:
  assumes "match_wf n Q s" and "launching s = xs @ g # ys" and "launching s1 = xs @ ys" and "failed s1 = failed s"
    and "nextGroupId s1 = nextGroupId s" and "match_groups s1 = match_groups s"
    and "match_users s1 = set_users (members g) None (match_users s)"
  shows "match_wf n Q s1"
proof (rule match_wfI)
  note wf = match_wfD [OF assms(1)]
  have launched: "set (launched s) = insert g (set (launched s1))"
    "distinct (map group_id (launched s)) \<longleftrightarrow>
      distinct (map group_id (launched s1)) \<and> group_id g \<notin> group_id ` set (launched s1)"
    by (auto simp: launched_def assms(2-4))
  have g: "g \<in> all_groups s" using launched(1) by (simp add: all_groups_def)
  have ids: "group_id x \<noteq> group_id g" if "x \<in> all_groups s1" for x
  proof -
    have none: "match_groups s (group_id g) = None" using wf(7) [of g] launched(1) by simp
    have notin: "group_id g \<notin> group_id ` set (launched s1)" using wf(8) launched(2) by simp
    from that consider "match_groups s (group_id x) = Some x" | "x \<in> set (launched s1)"
      using wf(6) assms(6) by (fastforce simp: all_groups_def ran_def)
    then show ?thesis
    proof cases
      case 1
      with none show ?thesis by auto
    next
      case 2
      with notin show ?thesis by (metis imageI)
    qed
  qed
  have all: "x \<in> all_groups s" if "x \<in> all_groups s1" for x
    using that launched(1) assms(6) by (auto simp: all_groups_def)
  have kept: "x = g \<or> x \<in> all_groups s1" if "x \<in> all_groups s" for x
    using that launched(1) assms(6) by (auto simp: all_groups_def)
  have member: "\<exists>d. match_users s i = Some (grouped_user d (group_id g))" if "i \<in> set (members g)" for i
    using wf(5) [OF g that] .
  show "i \<in> set (queue_at d Q) \<longleftrightarrow> match_users s1 i = Some (waiting_user d)" for d i
    using wf(3) [of i d] member [of i] by (auto simp: assms(7) set_users_apply)
  show "distinct (members x) \<and> length (members x) = n \<and> group_id x \<le> nextGroupId s1" if "x \<in> all_groups s1" for x
    using wf(4) [OF all [OF that]] assms(5) by simp
  show "\<exists>d. match_users s1 i = Some (grouped_user d (group_id x))" if "x \<in> all_groups s1" "i \<in> set (members x)" for x i
    using wf(5) [OF all [OF that(1)] that(2)] ids [OF that(1)] member [of i] by (auto simp: assms(7) set_users_apply)
  show "group_id x = k \<and> \<not> is_approval x \<and> \<not> is_rejected x" if "match_groups s1 k = Some x" for k x
    using that wf(6) assms(6) by auto
  show "is_approval x \<and> match_groups s1 (group_id x) = None" if "x \<in> set (launched s1)" for x
    using that wf(7) [of x] launched(1) assms(6) by auto
  show "distinct (map group_id (launched s1))" using wf(8) launched(2) by simp
  show "u = waiting_user (user_dungeon u)
      \<or> (\<exists>x \<in> all_groups s1. i \<in> set (members x) \<and> u = grouped_user (user_dungeon u) (group_id x))"
    if "match_users s1 i = Some u" for i u
    using that wf(9) [of i u] kept by (auto simp: assms(7) set_users_apply split: if_splits)
qed (use match_wfD(1,2) [OF assms(1)] in simp_all)

lemma launch_completed_wf:
  assumes "match_wf n Q s" and "k < length (launching s)"
  shows "match_wf n Q (launch_completed server k s)"
    and "match_queues (launch_completed server k s) = match_queues s"
    and "set (failed s) \<subseteq> set (failed (launch_completed server k s))"
proof -
  let ?xs = "take k (launching s)" and ?g = "launching s ! k" and ?ys = "drop (Suc k) (launching s)"
  note split = nth_split [OF assms(2)]
  show "match_queues (launch_completed server k s) = match_queues s"
    "set (failed s) \<subseteq> set (failed (launch_completed server k s))"
    by (auto simp: launch_completed_def Let_def migrate_users_eq split: option.splits)
  show "match_wf n Q (launch_completed server k s)"
  proof (cases server)
    case (Some m)
    then have eq: "launch_completed server k s = migrate_users m (members ?g) (s\<lparr>launching := ?xs @ ?ys\<rparr>)"
      by (simp add: launch_completed_def Let_def members_def)
    show ?thesis
      unfolding eq by (rule launch_done_wf [OF assms(1) split]) (simp_all add: migrate_users_eq)
  next
    case None
    let ?s1 = "s\<lparr>launching := ?xs @ ?ys, failed := failed s @ [?g]\<rparr>"
    have eq: "launch_completed server k s = ?s1" using None by (simp add: launch_completed_def Let_def)
    have set: "set (launched ?s1) = set (launched s)"
      using arg_cong [OF split, of set] by (auto simp: launched_def)
    have "distinct (map group_id (?xs @ ?g # ?ys @ failed s))"
      using match_wfD(8) [OF assms(1)] split by (metis append.assoc append_Cons launched_def)
    then have dist: "distinct (map group_id (launched ?s1))" by (auto simp: launched_def)
    have all: "all_groups ?s1 = all_groups s" using set by (simp add: all_groups_def)
    show ?thesis
      using assms(1) match_wfD(8) [OF assms(1)] dist
      by (simp add: eq match_wf_def queues_wf_def groups_wf_def users_wf_def all set)
  qed
qed

subsection \<open>Every state that is reached\<close>

definition match_ok :: "nat \<Rightarrow> match_coordinator \<Rightarrow> bool" where
  "match_ok n s \<longleftrightarrow> match_wf n (match_queues s) s"

text \<open>Why a step may fail: nothing else can.\<close>

fun excused :: "match_event \<Rightarrow> match_coordinator \<Rightarrow> bool" where
  "excused (ApproveUserMatch i server) s \<longleftrightarrow> in_launch i s \<or> server = None"
| "excused (RejectUserMatch i) s \<longleftrightarrow> in_launch i s \<or> lost_user s"
| "excused CreateMatchingGroup s \<longleftrightarrow> lost_user s"
| "excused _ s \<longleftrightarrow> False"

lemma match_step_ok:
  assumes "match_ok n s" and "0 < n" and "n \<le> m"
  shows "case match_step n m e s of
      Inl f \<Rightarrow> f = NullDeref \<and> excused e s
    | Inr s1 \<Rightarrow> match_ok n s1 \<and> set (failed s) \<subseteq> set (failed s1)"
proof (cases e)
  case (AddUser i d)
  with add_user_wf [of n s i d] assms(1) show ?thesis
    by (simp add: match_ok_def) (simp add: add_user_def split: option.splits)
next
  case (CancelUserMatch i)
  with cancel_user_wf [of n s i] assms(1) show ?thesis
    by (simp add: match_ok_def) (simp add: cancel_user_match_def Let_def split: option.splits)
next
  case (ApproveUserMatch i server)
  with approve_wf [of n "match_queues s" s i server] assms(1) show ?thesis
    by (auto simp: match_ok_def and_then_def split: sum.splits)
next
  case (RejectUserMatch i)
  with reject_wf [of n "match_queues s" s i] assms(1) show ?thesis
    by (auto simp: match_ok_def and_then_def split: sum.splits)
next
  case CreateMatchingGroup
  with match_all_wf [of n s True] second_loop_makes_nothing [of n s m] assms show ?thesis
    by (auto simp: match_ok_def same_users_def split: sum.splits)
next
  case (LaunchCompleted k server)
  with launch_completed_wf [of n "match_queues s" s k server] assms(1) show ?thesis
    by (simp add: match_ok_def)
next
  case (Connected i server)
  with assms(1) match_wf_cong [of n "match_queues s" s "s\<lparr>located := (located s)(i \<mapsto> server)\<rparr>"]
  show ?thesis by (simp add: match_ok_def launched_def)
next
  case (Disconnected i)
  with assms(1) match_wf_cong [of n "match_queues s" s "s\<lparr>located := (located s)(i := None)\<rparr>"]
  show ?thesis by (simp add: match_ok_def launched_def)
qed

lemma match_reach_ok: "match_reach n m s \<Longrightarrow> 0 < n \<Longrightarrow> n \<le> m \<Longrightarrow> match_ok n s"
proof (induction rule: match_reach.induct)
  case init
  show ?case using match_new_wf by (simp add: match_ok_def match_new_def)
next
  case (step s e s1)
  with match_step_ok [of n s m e] show ?case by simp
qed


lemma match_run_reach: "match_reach n m s \<Longrightarrow> match_run n m es s = Inr s1 \<Longrightarrow> match_reach n m s1"
proof (induction es arbitrary: s)
  case (Cons e es)
  from Cons.prems(2) obtain s2 where "match_step n m e s = Inr s2" "match_run n m es s2 = Inr s1"
    by (auto simp: and_then_Inr_iff)
  with Cons.IH match_reach.step [OF Cons.prems(1)] show ?case by blast
qed simp

subsection \<open>What the coordinator promises\<close>


text \<open>Three users, groups of two; the group of the first two is approved, and its launch fails.\<close>

definition sample_matching :: "match_event list" where
  "sample_matching =
     [Connected 1 8, Connected 2 8, Connected 3 8, AddUser 1 5, AddUser 2 5, AddUser 3 5, CreateMatchingGroup,
      ApproveUserMatch 1 (Some 9), ApproveUserMatch 2 (Some 9)]"

definition sample_launching :: match_coordinator where
  "sample_launching = projr (match_run 2 3 sample_matching match_new)"

definition sample_failed :: match_coordinator where
  "sample_failed = projr (match_step 2 3 (LaunchCompleted 0 None) sample_launching)"

lemma sample_launching_facts:
  "isl (match_run 2 3 sample_matching match_new) = False"
  "map members (launching sample_launching) = [[1, 2]]"
  "match_queues sample_launching = [(5, [3])]"
  "map members (failed sample_failed) = [[1, 2]]"
  by code_simp+

lemma sample_launching_reach: "match_reach 2 3 sample_launching"
proof (rule match_run_reach [OF match_reach.init])
  show "match_run 2 3 sample_matching match_new = Inr sample_launching"
    using sample_launching_facts(1) unfolding sample_launching_def
    by (cases "match_run 2 3 sample_matching match_new") auto
qed

lemma sample_failed_reach: "match_reach 2 3 sample_failed"
  using match_reach.step [OF sample_launching_reach, of "LaunchCompleted 0 None" sample_failed]
  by (simp add: sample_failed_def)


text \<open>
  A member who decides while the group is being launched, or after the launch failed, crashes the service: the user
  is still grouped, the group has left the table, and the pointer that \<^verbatim>\<open>FindGroup\<close> returns is null; the check that
  follows it looks at the id instead.
\<close>

theorem decision_during_launch_fails:
  assumes "match_reach n m s" and "0 < n" and "n \<le> m" and "in_launch i s"
  shows "match_step n m (ApproveUserMatch i server) s = Inl NullDeref
    \<and> match_step n m (RejectUserMatch i) s = Inl NullDeref"
proof -
  have wf: "match_wf n (match_queues s) s" using match_reach_ok [OF assms(1-3)] by (simp add: match_ok_def)
  obtain g where g: "g \<in> set (launched s)" "i \<in> set (members g)"
    using assms(4) by (auto simp: in_launch_def list_ex_iff)
  then have all: "g \<in> all_groups s" by (simp add: all_groups_def)
  from wf have "user_group_of i s = Inl NullDeref"
  proof (cases rule: user_group_of_cases [where i = i])
    case none
    with all g(2) show ?thesis by blast
  next
    case (table h)
    then have "h \<in> all_groups s" by (auto simp: all_groups_def ran_def)
    from group_of_member [OF wf this all table(3) g(2)] table(2) match_wfD(7) [OF wf g(1)] show ?thesis by simp
  qed
  then show ?thesis by (simp add: approve_user_match_def reject_user_match_def)
qed

theorem decision_during_launch_fails_witness:
  "match_step 2 3 (ApproveUserMatch 2 (Some 9)) sample_launching = Inl NullDeref
    \<and> match_step 2 3 (RejectUserMatch 2) sample_launching = Inl NullDeref"
  using sample_launching_facts(2)
  by (intro decision_during_launch_fails [OF sample_launching_reach]) (auto simp: in_launch_def launched_def)

definition blocked_user :: "int \<Rightarrow> match_coordinator \<Rightarrow> bool" where
  "blocked_user i s \<longleftrightarrow> (\<forall>d. add_user i d s = (False, s)) \<and> cancel_user_match i s = (False, s)"

lemma failed_user_blocked:
  assumes "match_ok n s" and "g \<in> set (failed s)" and "i \<in> set (members g)"
  shows "blocked_user i s"
proof -
  have "g \<in> all_groups s" using assms(2) by (simp add: all_groups_def launched_def)
  from match_wfD(5) [OF assms(1) [unfolded match_ok_def] this assms(3)]
  show ?thesis by (auto simp: blocked_user_def add_user_def cancel_user_match_def)
qed

text \<open>
  C40: The members of a group whose launch failed are never matched again: whatever happens later, they stay grouped, a
  new request of theirs is refused and so is its cancellation.
\<close>

theorem failed_launch_blocks_user:
  assumes "match_reach n m s" and "0 < n" and "n \<le> m" and "list_ex (\<lambda>g. i \<in> set (members g)) (failed s)"
    and "match_run n m es s = Inr s1"
  shows "blocked_user i s1"
proof -
  have "match_ok n s1 \<and> set (failed s) \<subseteq> set (failed s1)"
    using match_reach_ok [OF assms(1-3)] assms(5)
  proof (induction es arbitrary: s)
    case (Cons e es)
    then obtain s2 where s2: "match_step n m e s = Inr s2" "match_run n m es s2 = Inr s1"
      by (auto simp: and_then_Inr_iff)
    with match_step_ok [OF Cons.prems(1) assms(2,3), of e] have "match_ok n s2" "set (failed s) \<subseteq> set (failed s2)"
      by simp_all
    with Cons.IH [OF this(1) s2(2)] show ?case by blast
  qed simp
  moreover obtain g where "g \<in> set (failed s)" "i \<in> set (members g)" using assms(4) by (auto simp: list_ex_iff)
  ultimately show ?thesis using failed_user_blocked by blast
qed

theorem failed_launch_blocks_user_witness: "blocked_user 2 sample_failed"
proof -
  have "list_ex (\<lambda>g. 2 \<in> set (members g)) (failed sample_failed)" using sample_launching_facts(4) by auto
  from failed_launch_blocks_user [OF sample_failed_reach _ _ this, of "[]" sample_failed] show ?thesis by simp
qed

text \<open>
  Groups are made in the order of arrival: the members of the groups that a tick makes of a queue, one group after
  the other, and then the users that stay behind, are the queue, every group has exactly the size it is to have, and
  what stays behind is too little for another.
\<close>

theorem groups_in_arrival_order:
  assumes "match_reach n m s" and "0 < n" and "n \<le> m" and "\<not> lost_user s"
  shows "case make_groups n d (queue_at d (match_queues s)) s of
      Inl _ \<Rightarrow> False
    | Inr (rest, s1) \<Rightarrow> groups_made n (queue_at d (match_queues s)) rest s s1 \<and> length rest < n"
proof -
  have "match_wf n (match_queues s) s" using match_reach_ok [OF assms(1-3)] by (simp add: match_ok_def)
  from make_groups_wf [OF this refl assms(2), of d] assms(4) show ?thesis by (auto split: sum.splits)
qed

definition sample_queue :: match_coordinator where
  "sample_queue =
     projr (match_run 2 3 [Connected 1 8, Connected 2 8, Connected 3 8, AddUser 1 5, AddUser 2 5, AddUser 3 5] match_new)"

lemma sample_queue_reach: "match_reach 2 3 sample_queue" and sample_queue_located: "\<not> lost_user sample_queue"
proof -
  have "match_run 2 3 [Connected 1 8, Connected 2 8, Connected 3 8, AddUser 1 5, AddUser 2 5, AddUser 3 5] match_new
      = Inr sample_queue" by (simp add: sample_queue_def)
  from match_run_reach [OF match_reach.init this] show "match_reach 2 3 sample_queue" .
  show "\<not> lost_user sample_queue"
    by (auto simp: sample_queue_def lost_user_def add_user_def match_new_def split: if_splits)
qed

theorem groups_in_arrival_order_witness:
  "case make_groups 2 5 (queue_at 5 (match_queues sample_queue)) sample_queue of
      Inl _ \<Rightarrow> False
    | Inr (rest, s1) \<Rightarrow> groups_made 2 (queue_at 5 (match_queues sample_queue)) rest sample_queue s1 \<and> length rest < 2"
  by (rule groups_in_arrival_order [OF sample_queue_reach _ _ sample_queue_located]) simp_all

end
