(* ===== verification/Coordination.thy ===== *)
theory Coordination
  imports LoadBalancer DungeonMatch Snowflake
begin

text \<open>
  \<^verbatim>\<open>xr/service/coordination\<close>: the service that knows the game servers, the game instances they run and the users in
  them. The lobby adds a player, for whom an instance is launched when the chosen server has none for the zone; the
  game server authenticates the player by the token; instances report their end. The service also hands out the
  keys of the id generators and forwards the requests of the matching. Everything runs on one strand; a coroutine that
  waits for a game server is resumed by a later step.

  The theory proves that keys in use are distinct and that one of them exceeds the pool, that a player is let in
  once per admission and as the account and character that the admission names, whatever account the login service answers
  with, and that an instance is removed under the users who were admitted to it.
\<close>

subsection \<open>Nodes\<close>

text \<open>
  A \<^verbatim>\<open>GameInstance\<close> is held by the node container and pointed to by its server and its users; the pointers are addresses,
  and one whose object is gone dangles. Servers are never removed, and the pointers to users other than those of the
  token index are never followed, so for these the pointer is the id.
\<close>

record game_instance =
  instanceId :: int
  zoneId :: int
  instanceParent :: "int option"
  instanceChildren :: "int list"

definition game_instance_new :: "int \<Rightarrow> int \<Rightarrow> game_instance" where
  "game_instance_new iid zone = \<lparr>instanceId = iid, zoneId = zone, instanceParent = None, instanceChildren = []\<rparr>"

record game_user =
  authToken :: string
  accountId :: int
  characterId :: int
  userZoneId :: int
  migrating :: bool
  userParent :: "nat option"

definition game_user_new :: "string \<Rightarrow> int \<Rightarrow> int \<Rightarrow> int \<Rightarrow> game_user" where
  "game_user_new token account character zone =
     \<lparr>authToken = token, accountId = account, characterId = character, userZoneId = zone, migrating = False,
      userParent = None\<rparr>"

record add_player_param =
  p_token :: string
  p_accountId :: int
  p_characterId :: int
  p_zoneId :: int

text \<open>\<^verbatim>\<open>AuthenticateResult\<close>, the answer of the login service for a token; no error is \<open>None\<close>.\<close>

datatype login_error = LoginErrorFailInvalid | LoginErrorInternalError | AuthenticateErrorFail | RemoveAuthErrorTokenNotFound

record authenticate_result =
  auth_errorCode :: "login_error option"
  auth_accountId :: int

text \<open>The commands to game servers, and the coroutines that wait for a response with what they hold.\<close>

datatype game_command =
    LaunchGameInstance int int
  | BroadcastChatting string
  | NotifyGroupCreation int
  | NotifyGroupRejected int
  | NotifyGroupApproved int string int

datatype waiter =
    AddPlayerWaits add_player_param int int
  | DungeonWaits match_group int

record game_server =
  serverName :: string
  serverIp :: string
  serverPort :: int
  serverChannel :: "nat option"
  nextCommandResponseId :: int
  responseWaits :: "int \<rightharpoonup> waiter"
  serverChildren :: "(int \<times> nat) list"

definition game_server_new :: "string \<Rightarrow> string \<Rightarrow> int \<Rightarrow> game_server" where
  "game_server_new name ip port =
     \<lparr>serverName = name, serverIp = ip, serverPort = port, serverChannel = None, nextCommandResponseId = 0,
      responseWaits = Map.empty, serverChildren = []\<rparr>"

text \<open>
  A \<^verbatim>\<open>CommandResponseChannelRunner\<close> with the channel of its commands; \<open>channel_sent\<close> is what was put in it, with the response
  ids.
\<close>

record channel_runner =
  runner_server :: "int option"
  runner_running :: bool
  channel_open :: bool
  channel_sent :: "(int option \<times> game_command) list"

subsection \<open>The service\<close>

text \<open>
  \<open>instances\<close>, \<open>users\<close>, \<open>servers\<close>, \<open>serversForIteration\<close>, \<open>serverAddressIndex\<close> and \<open>userAuthTokenIndex\<close> are the
  node container, \<open>instanceMemory\<close> the memory of the instances. \<open>resumable\<close> are the coroutines whose response has come, with its success.
\<close>

record coordination =
  nextSnowflake :: int
  publishedSnowflakeKeys :: "(string \<times> int) list"
  returnedSnowflakeKeys :: "int list"
  nextServerId :: int
  nextGameInstanceId :: int
  nextGameUserId :: int
  servers :: "int \<rightharpoonup> game_server"
  serverAddressIndex :: "(int \<times> int) list"
  serversForIteration :: "int list"
  instances :: "int \<rightharpoonup> nat"
  instanceMemory :: "nat \<rightharpoonup> game_instance"
  nextAddress :: nat
  users :: "int \<rightharpoonup> game_user"
  userAuthTokenIndex :: "string \<rightharpoonup> int"
  loadBalancer :: load_balancer
  runners :: "channel_runner list"
  resumable :: "(waiter \<times> bool) list"
  dungeonMatch :: match_coordinator

definition coordination_new :: coordination where
  "coordination_new =
     \<lparr>nextSnowflake = 0, publishedSnowflakeKeys = [], returnedSnowflakeKeys = [], nextServerId = 0,
      nextGameInstanceId = 0, nextGameUserId = 0, servers = Map.empty, serverAddressIndex = [], serversForIteration = [],
      instances = Map.empty, instanceMemory = Map.empty, nextAddress = 0, users = Map.empty,
      userAuthTokenIndex = Map.empty, loadBalancer = balancer_new, runners = [], resumable = [],
      dungeonMatch = match_new\<rparr>"

datatype coordination_error =
    RegisterErrorDuplicatedAddress
  | RequestSnowflakeKeyErrorOutOfPool
  | ReturnSnowflakeKeyErrorInvalidKey
  | CoordinationErrorFailAuthentication
  | CoordinationErrorInternalError
  | AuthenticatePlayerErrorUserNotFound
  | AuthenticatePlayerErrorUserIsNotMigrating
  | AuthenticatePlayerErrorRequestToInvalidServer
  | RemovePlayerErrorInvalidServer
  | RemoveGameInstanceErrorInstanceNotFound
  | RemoveGameInstanceErrorInstanceNotEmpty

text \<open>
  What a step answers. \<open>Suspended\<close> is a coroutine that waits; \<open>PlayerAdded\<close> has the id of the user besides the address;
  \<open>UsersMoved\<close> (not in the program) the users that were moved to a dungeon.
\<close>

datatype coordination_result =
    Finished
  | Suspended
  | Refused coordination_error
  | ServerRegistered int
  | SnowflakeKey int
  | PlayerAdded int string int
  | PlayerAuthenticated int int int int
  | UsersMoved "int list"

subsection \<open>The node container\<close>

text \<open>\<^verbatim>\<open>char\<close> is signed on the platforms of the program.\<close>

definition char_value :: "char \<Rightarrow> int" where
  "char_value c = (let n = (of_char c :: int) in if n < 128 then n else n - 256)"

definition make_server_address_key :: "string \<Rightarrow> int \<Rightarrow> int" where
  "make_server_address_key ip port = fold (\<lambda>c result. result + char_value c) ip port"

definition has_server_address :: "string \<Rightarrow> int \<Rightarrow> coordination \<Rightarrow> bool" where
  "has_server_address ip port s \<longleftrightarrow>
     list_ex (\<lambda>(key, i). key = make_server_address_key ip port
       \<and> (case servers s i of None \<Rightarrow> False | Some g \<Rightarrow> serverIp g = ip \<and> serverPort g = port))
       (serverAddressIndex s)"

definition container_add_server :: "int \<Rightarrow> game_server \<Rightarrow> coordination \<Rightarrow> coordination" where
  "container_add_server i g s =
     (case servers s i of
        Some _ \<Rightarrow> s
      | None \<Rightarrow>
          s\<lparr>servers := (servers s)(i \<mapsto> g),
            serverAddressIndex :=
              serverAddressIndex s @ [(make_server_address_key (serverIp g) (serverPort g), i)],
            serversForIteration := serversForIteration s @ [i]\<rparr>)"

definition container_add_user :: "int \<Rightarrow> game_user \<Rightarrow> coordination \<Rightarrow> coordination" where
  "container_add_user i u s =
     (case users s i of
        Some _ \<Rightarrow> s
      | None \<Rightarrow>
          s\<lparr>users := (users s)(i \<mapsto> u),
            userAuthTokenIndex :=
              (case userAuthTokenIndex s (authToken u) of
                 None \<Rightarrow> (userAuthTokenIndex s)(authToken u \<mapsto> i)
               | Some _ \<Rightarrow> userAuthTokenIndex s)\<rparr>)"

definition container_remove_user :: "int \<Rightarrow> coordination \<Rightarrow> coordination" where
  "container_remove_user i s =
     (case users s i of
        None \<Rightarrow> s
      | Some u \<Rightarrow>
          s\<lparr>users := (users s)(i := None),
            userAuthTokenIndex := (userAuthTokenIndex s)(authToken u := None)\<rparr>)"

definition container_remove_instance :: "int \<Rightarrow> coordination \<Rightarrow> coordination" where
  "container_remove_instance iid s =
     (case instances s iid of
        None \<Rightarrow> s
      | Some a \<Rightarrow>
          s\<lparr>instances := (instances s)(iid := None), instanceMemory := (instanceMemory s)(a := None)\<rparr>)"

subsection \<open>Servers and their channels\<close>

definition update_server :: "int \<Rightarrow> (game_server \<Rightarrow> game_server) \<Rightarrow> coordination \<Rightarrow> coordination" where
  "update_server i f s = s\<lparr>servers := (servers s)(i := map_option f (servers s i))\<rparr>"

definition update_runner :: "nat \<Rightarrow> (channel_runner \<Rightarrow> channel_runner) \<Rightarrow> coordination \<Rightarrow> coordination" where
  "update_runner k f s = s\<lparr>runners := (runners s)[k := f (runners s ! k)]\<rparr>"

definition channel_send :: "nat \<Rightarrow> int option \<times> game_command \<Rightarrow> coordination \<Rightarrow> coordination" where
  "channel_send k item = update_runner k (\<lambda>r. r\<lparr>channel_sent := channel_sent r @ [item]\<rparr>)"

text \<open>\<^verbatim>\<open>SendCommand\<close>. A server that was registered and has not opened its channel has a null channel.\<close>

definition send_command :: "int \<Rightarrow> game_command \<Rightarrow> coordination \<Rightarrow> fault + coordination" where
  "send_command i c s =
     and_then (deref (servers s) (Some i)) (\<lambda>g.
       case serverChannel g of
         None \<Rightarrow> Inl NullDeref
       | Some k \<Rightarrow> Inr (if channel_open (runners s ! k) then channel_send k (None, c) s else s))"

text \<open>
  \<^verbatim>\<open>SendCommand\<close> with a completion token, and the \<^verbatim>\<open>co_await\<close> of the token. When the channel is closed the token stays
  empty, and awaiting it follows its null context.
\<close>

definition send_and_await :: "int \<Rightarrow> game_command \<Rightarrow> waiter \<Rightarrow> coordination \<Rightarrow> fault + coordination" where
  "send_and_await i c w s =
     and_then (deref (servers s) (Some i)) (\<lambda>g.
       let rid = nextCommandResponseId g + 1
       in case serverChannel g of
            None \<Rightarrow> Inl NullDeref
          | Some k \<Rightarrow>
              if channel_open (runners s ! k)
              then Inr (channel_send k (Some rid, c)
                     (update_server i (\<lambda>g. g\<lparr>nextCommandResponseId := rid,
                        responseWaits := (responseWaits g)(rid \<mapsto> w)\<rparr>) s))
              else Inl NullDeref)"

text \<open>\<^verbatim>\<open>MarkCommandResponseAsSuccess\<close> and \<^verbatim>\<open>AsFailure\<close>: the promise posts the coroutine that waits on it.\<close>

definition mark_response :: "bool \<Rightarrow> int \<Rightarrow> int \<Rightarrow> coordination \<Rightarrow> coordination" where
  "mark_response success rid i s =
     (case servers s i of
        None \<Rightarrow> s
      | Some g \<Rightarrow>
          (case responseWaits g rid of
             None \<Rightarrow> s
           | Some w \<Rightarrow>
               (update_server i (\<lambda>g. g\<lparr>responseWaits := (responseWaits g)(rid := None)\<rparr>) s)
                 \<lparr>resumable := resumable s @ [(w, success)]\<rparr>))"

text \<open>\<^verbatim>\<open>LaunchGameInstanceResponseHandler::HandleResponse\<close>; \<open>None\<close> is its exception.\<close>

definition handle_launch_response :: "int \<Rightarrow> int \<Rightarrow> int \<Rightarrow> coordination \<Rightarrow> coordination option" where
  "handle_launch_response i iid zone s =
     (case instances s iid of
        Some _ \<Rightarrow> None
      | None \<Rightarrow>
          let a = nextAddress s
          in Some (update_server i (\<lambda>g. g\<lparr>serverChildren :=
                 (if iid \<in> fst ` set (serverChildren g) then serverChildren g else serverChildren g @ [(iid, a)])\<rparr>)
               (s\<lparr>nextAddress := a + 1, instances := (instances s)(iid \<mapsto> a),
                  instanceMemory :=
                    (instanceMemory s)(a \<mapsto> (game_instance_new iid zone)\<lparr>instanceParent := Some i\<rparr>)\<rparr>)))"

text \<open>
  The responses that a runner takes from its channel; \<open>None\<close> stands for contents that cannot be parsed, \<open>RespOther\<close> for
  an opcode without a handler.
\<close>

datatype command_response =
    RespException "string option"
  | RespAuthenticate "int option"
  | RespLaunch "(int \<times> int) option"
  | RespOther

definition stop_runner :: "nat \<Rightarrow> coordination \<Rightarrow> coordination" where
  "stop_runner k = update_runner k (\<lambda>r. r\<lparr>runner_running := False\<rparr>)"

fun run_response :: "nat \<Rightarrow> int \<Rightarrow> command_response \<Rightarrow> coordination \<Rightarrow> fault + coordination" where
  "run_response k rid (RespException m) s =
     (case runner_server (runners s ! k) of
        None \<Rightarrow> Inr s
      | Some i \<Rightarrow> (case m of None \<Rightarrow> Inr (stop_runner k s) | Some _ \<Rightarrow> Inr (mark_response False rid i s)))"
| "run_response k rid (RespAuthenticate m) s =
     (case m of
        None \<Rightarrow> Inr (stop_runner k s)
      | Some i \<Rightarrow>
          (case servers s i of
             None \<Rightarrow> Inl NullDeref
           | Some _ \<Rightarrow>
               Inr (update_runner k (\<lambda>r. r\<lparr>runner_server := Some i\<rparr>)
                     (update_server i (\<lambda>g. g\<lparr>serverChannel := Some k\<rparr>) s))))"
| "run_response k rid (RespLaunch m) s =
     (case runner_server (runners s ! k) of
        None \<Rightarrow> Inr (stop_runner k s)
      | Some i \<Rightarrow>
          (case m of
             None \<Rightarrow> Inr (mark_response False rid i s)
           | Some (iid, zone) \<Rightarrow>
               (case handle_launch_response i iid zone s of
                  None \<Rightarrow> Inr (mark_response False rid i s)
                | Some s1 \<Rightarrow> Inr (mark_response True rid i s1))))"
| "run_response k rid RespOther s =
     (case runner_server (runners s ! k) of None \<Rightarrow> Inr (stop_runner k s) | Some _ \<Rightarrow> Inr s)"

subsection \<open>Registration and keys\<close>

text \<open>The port is cut to 16 bits.\<close>

definition register_server ::
  "string \<Rightarrow> string \<Rightarrow> int \<Rightarrow> coordination \<Rightarrow> coordination_result \<times> coordination" where
  "register_server name ip port s =
     (let port16 = port mod 2 ^ 16
      in if has_server_address ip port16 s then (Refused RegisterErrorDuplicatedAddress, s)
         else
           let i = nextServerId s + 1;
               s1 = container_add_server i (game_server_new name ip port16) (s\<lparr>nextServerId := i\<rparr>)
           in (ServerRegistered i, s1\<lparr>loadBalancer := snd (balancer_add i (loadBalancer s1))\<rparr>))"

definition update_server_status :: "int \<Rightarrow> server_status \<Rightarrow> coordination \<Rightarrow> coordination_result \<times> coordination" where
  "update_server_status i st s = (Finished, s\<lparr>loadBalancer := snd (balancer_update i st (loadBalancer s))\<rparr>)"

definition open_channel :: "coordination \<Rightarrow> coordination" where
  "open_channel s =
     s\<lparr>runners := runners s @ [\<lparr>runner_server = None, runner_running = True, channel_open = True, channel_sent = []\<rparr>]\<rparr>"

definition max_snowflake_key :: int where
  "max_snowflake_key = 2 ^ (MACHINE_BIT + DATACENTER_BIT)"

definition publish_snowflake_key :: "string \<Rightarrow> coordination \<Rightarrow> int option \<times> coordination" where
  "publish_snowflake_key requester s =
     (let next_key = nextSnowflake s;
          s1 = s\<lparr>nextSnowflake := next_key + 1\<rparr>
      in if next_key \<le> max_snowflake_key
         then (Some next_key, s1\<lparr>publishedSnowflakeKeys := publishedSnowflakeKeys s @ [(requester, next_key)]\<rparr>)
         else case returnedSnowflakeKeys s of
                [] \<Rightarrow> (None, s1)
              | key # keys \<Rightarrow>
                  (Some key, s1\<lparr>returnedSnowflakeKeys := keys,
                     publishedSnowflakeKeys := publishedSnowflakeKeys s @ [(requester, key)]\<rparr>))"

definition request_snowflake_key :: "string \<Rightarrow> coordination \<Rightarrow> coordination_result \<times> coordination" where
  "request_snowflake_key requester s =
     (case publish_snowflake_key requester s of
        (Some key, s1) \<Rightarrow> (SnowflakeKey key, s1)
      | (None, s1) \<Rightarrow> (Refused RequestSnowflakeKeyErrorOutOfPool, s1))"

definition return_snowflake_key :: "string \<Rightarrow> int \<Rightarrow> coordination \<Rightarrow> coordination_result \<times> coordination" where
  "return_snowflake_key requester key s =
     (if (requester, key) \<in> set (publishedSnowflakeKeys s)
      then (Finished, s\<lparr>returnedSnowflakeKeys := returnedSnowflakeKeys s @ [key],
              publishedSnowflakeKeys := remove1 (requester, key) (publishedSnowflakeKeys s)\<rparr>)
      else (Refused ReturnSnowflakeKeyErrorInvalidKey, s))"

subsection \<open>Players\<close>

text \<open>
  \<^verbatim>\<open>GameServer::FindGameInstance\<close> reads the children through their pointers, in the order of a hash map, which is
  here the order in which they were added.
\<close>

fun find_game_instance :: "int \<Rightarrow> (int \<times> nat) list \<Rightarrow> (nat \<rightharpoonup> game_instance) \<Rightarrow> fault + nat option" where
  "find_game_instance zone [] mem = Inr None"
| "find_game_instance zone ((_, a) # cs) mem =
     and_then (deref mem (Some a)) (\<lambda>inst.
       if zoneId inst = zone then Inr (Some a) else find_game_instance zone cs mem)"

text \<open>The end of \<^verbatim>\<open>AddPlayerAsync\<close>, with the server and the instance.\<close>

definition admit_player ::
  "add_player_param \<Rightarrow> int \<Rightarrow> nat \<Rightarrow> coordination \<Rightarrow> fault + (coordination_result \<times> coordination)" where
  "admit_player p i a s =
     and_then (deref (servers s) (Some i)) (\<lambda>g.
       let uid = nextGameUserId s + 1;
           user = (game_user_new (p_token p) (p_accountId p) (p_characterId p) (p_zoneId p))
                    \<lparr>migrating := True, userParent := Some a\<rparr>
       in Inr (PlayerAdded uid (serverIp g) (serverPort g), container_add_user uid user (s\<lparr>nextGameUserId := uid\<rparr>)))"

text \<open>
  \<^verbatim>\<open>AddPlayerAsync\<close> once the login service has answered for the token, up to where it waits for the launch. The account
  in the answer is not used.
\<close>

definition add_player ::
  "add_player_param \<Rightarrow> authenticate_result \<Rightarrow> coordination \<Rightarrow> fault + (coordination_result \<times> coordination)" where
  "add_player p authResult s =
     (if auth_errorCode authResult \<noteq> None then Inr (Refused CoordinationErrorFailAuthentication, s)
      else case select (loadBalancer s) of
          (None, _) \<Rightarrow> Inl NullDeref
        | (Some i, lb) \<Rightarrow>
            (case servers s i of
               None \<Rightarrow> Inl NullDeref
             | Some g \<Rightarrow>
                 let s1 = s\<lparr>loadBalancer := lb\<rparr>
                 in and_then (find_game_instance (p_zoneId p) (serverChildren g) (instanceMemory s1)) (\<lambda>found.
                      case found of
                        Some a \<Rightarrow> admit_player p i a s1
                      | None \<Rightarrow>
                          let iid = nextGameInstanceId s1 + 1
                          in and_then (send_and_await i (LaunchGameInstance (p_zoneId p) iid) (AddPlayerWaits p i iid)
                                (s1\<lparr>nextGameInstanceId := iid\<rparr>))
                               (\<lambda>s2. Inr (Suspended, s2)))))"

definition resume_add_player ::
  "add_player_param \<Rightarrow> int \<Rightarrow> int \<Rightarrow> bool \<Rightarrow> coordination \<Rightarrow> fault + (coordination_result \<times> coordination)" where
  "resume_add_player p i iid success s =
     (if \<not> success then Inr (Refused CoordinationErrorInternalError, s)
      else and_then (deref (servers s) (Some i)) (\<lambda>g.
        case map_of (serverChildren g) iid of
          None \<Rightarrow> Inr (Refused CoordinationErrorInternalError, s)
        | Some a \<Rightarrow> admit_player p i a s))"

definition authenticate_player ::
  "string \<Rightarrow> int \<Rightarrow> coordination \<Rightarrow> fault + (coordination_result \<times> coordination)" where
  "authenticate_player token i s =
     (case userAuthTokenIndex s token of
        None \<Rightarrow> Inr (Refused AuthenticatePlayerErrorUserNotFound, s)
      | Some uid \<Rightarrow>
          and_then (deref (users s) (Some uid)) (\<lambda>u.
            if \<not> migrating u then Inr (Refused AuthenticatePlayerErrorUserIsNotMigrating, s)
            else and_then (deref (instanceMemory s) (userParent u)) (\<lambda>inst.
              case instanceParent inst of
                None \<Rightarrow> Inl NullDeref
              | Some j \<Rightarrow>
                  if j \<noteq> i then Inr (Refused AuthenticatePlayerErrorRequestToInvalidServer, s)
                  else Inr (PlayerAuthenticated (accountId u) (characterId u) (instanceId inst) uid,
                            s\<lparr>users := (users s)(uid \<mapsto> u\<lparr>migrating := False\<rparr>)\<rparr>))))"

definition remove_player :: "string \<Rightarrow> int \<Rightarrow> coordination \<Rightarrow> fault + (coordination_result \<times> coordination)" where
  "remove_player token i s =
     (case userAuthTokenIndex s token of
        None \<Rightarrow> Inr (Refused AuthenticatePlayerErrorUserNotFound, s)
      | Some uid \<Rightarrow>
          and_then (deref (users s) (Some uid)) (\<lambda>u.
            case userParent u of
              None \<Rightarrow> Inr (Refused RemovePlayerErrorInvalidServer, s)
            | Some a \<Rightarrow>
                and_then (deref (instanceMemory s) (Some a)) (\<lambda>inst.
                  if instanceParent inst \<noteq> Some i then Inr (Refused RemovePlayerErrorInvalidServer, s)
                  else Inr (Finished, container_remove_user uid
                    (s\<lparr>instanceMemory := (instanceMemory s)
                         (a \<mapsto> inst\<lparr>instanceChildren := removeAll uid (instanceChildren inst)\<rparr>)\<rparr>)))))"

definition remove_game_instance :: "int \<Rightarrow> coordination \<Rightarrow> fault + (coordination_result \<times> coordination)" where
  "remove_game_instance iid s =
     (case instances s iid of
        None \<Rightarrow> Inr (Refused RemoveGameInstanceErrorInstanceNotFound, s)
      | Some a \<Rightarrow>
          and_then (deref (instanceMemory s) (Some a)) (\<lambda>inst.
            if instanceChildren inst \<noteq> [] then Inr (Refused RemoveGameInstanceErrorInstanceNotEmpty, s)
            else and_then (deref (servers s) (instanceParent inst)) (\<lambda>_.
              Inr (Finished, container_remove_instance iid
                (update_server (the (instanceParent inst)) (\<lambda>g. g\<lparr>serverChildren :=
                   filter (\<lambda>(j, _). j \<noteq> iid) (serverChildren g)\<rparr>) s)))))"

definition find_game_user :: "string \<Rightarrow> int \<Rightarrow> int \<Rightarrow> coordination \<Rightarrow> fault + int option" where
  "find_game_user token iid i s =
     (case userAuthTokenIndex s token of
        None \<Rightarrow> Inr None
      | Some uid \<Rightarrow>
          and_then (deref (users s) (Some uid)) (\<lambda>u.
            case userParent u of
              None \<Rightarrow> Inr None
            | Some a \<Rightarrow>
                and_then (deref (instanceMemory s) (Some a)) (\<lambda>inst.
                  Inr (if instanceId inst \<noteq> iid \<or> instanceParent inst \<noteq> Some i then None else Some uid))))"

text \<open>The requests that begin with \<^verbatim>\<open>FindGameUser\<close>; \<open>act\<close> tells whether it succeeded.\<close>

definition for_game_user ::
  "(int \<Rightarrow> coordination \<Rightarrow> fault + (bool \<times> coordination)) \<Rightarrow> string \<Rightarrow> int \<Rightarrow> int \<Rightarrow> coordination
     \<Rightarrow> fault + (coordination_result \<times> coordination)" where
  "for_game_user act token iid i s =
     and_then (find_game_user token iid i s) (\<lambda>user.
       case user of
         None \<Rightarrow> Inr (Refused CoordinationErrorInternalError, s)
       | Some uid \<Rightarrow>
           and_then (act uid s) (\<lambda>(success, s1).
             Inr (if success then Finished else Refused CoordinationErrorInternalError, s1)))"

fun send_to_all :: "int list \<Rightarrow> game_command \<Rightarrow> coordination \<Rightarrow> fault + coordination" where
  "send_to_all [] c s = Inr s"
| "send_to_all (i # is) c s = and_then (send_command i c s) (send_to_all is c)"

definition broadcast_chatting ::
  "string \<Rightarrow> string \<Rightarrow> int \<Rightarrow> int \<Rightarrow> coordination \<Rightarrow> fault + (coordination_result \<times> coordination)" where
  "broadcast_chatting message =
     for_game_user (\<lambda>_ s.
       and_then (send_to_all (serversForIteration s) (BroadcastChatting message) s) (\<lambda>s1. Inr (True, s1)))"

subsection \<open>Matching\<close>

text \<open>What the coordinator of the matching sees of the nodes: \<^verbatim>\<open>FindServerWith\<close>.\<close>

definition located_of :: "coordination \<Rightarrow> int \<Rightarrow> int option" where
  "located_of s uid =
     Option.bind (users s uid) (\<lambda>u.
       Option.bind (Option.bind (userParent u) (instanceMemory s)) instanceParent)"

text \<open>
  The commands of the coordinator on their way to the servers. A launch is sent to the server that \<^verbatim>\<open>Select\<close> has chosen, with
  the group that was approved last; \<open>GroupApproved\<close> is sent when the users are moved.
\<close>

fun deliver :: "match_command list \<Rightarrow> coordination \<Rightarrow> fault + coordination" where
  "deliver [] s = Inr s"
| "deliver (GroupCreation i uid # cs) s = and_then (send_command i (NotifyGroupCreation uid) s) (deliver cs)"
| "deliver (GroupRejected i uid # cs) s = and_then (send_command i (NotifyGroupRejected uid) s) (deliver cs)"
| "deliver (GroupApproved i uid # cs) s = deliver cs s"
| "deliver (LaunchInstance i zone # cs) s =
     (let iid = nextGameInstanceId s + 1
      in and_then (send_and_await i (LaunchGameInstance zone iid) (DungeonWaits (last (launching (dungeonMatch s))) iid)
            (s\<lparr>nextGameInstanceId := iid, loadBalancer := snd (select (loadBalancer s))\<rparr>))
          (deliver cs))"

definition via_match ::
  "(match_coordinator \<Rightarrow> fault + (bool \<times> match_coordinator)) \<Rightarrow> coordination \<Rightarrow> fault + (bool \<times> coordination)" where
  "via_match act s =
     and_then (act ((dungeonMatch s)\<lparr>located := located_of s\<rparr>)) (\<lambda>(success, m).
       and_then (deliver (drop (length (commands (dungeonMatch s))) (commands m)) (s\<lparr>dungeonMatch := m\<rparr>)) (\<lambda>s1.
         Inr (success, s1)))"

definition request_dungeon_match ::
  "int \<Rightarrow> string \<Rightarrow> int \<Rightarrow> int \<Rightarrow> coordination \<Rightarrow> fault + (coordination_result \<times> coordination)" where
  "request_dungeon_match dungeon = for_game_user (\<lambda>uid. via_match (\<lambda>m. Inr (add_user uid dungeon m)))"

definition cancel_dungeon_match ::
  "string \<Rightarrow> int \<Rightarrow> int \<Rightarrow> coordination \<Rightarrow> fault + (coordination_result \<times> coordination)" where
  "cancel_dungeon_match = for_game_user (\<lambda>uid. via_match (\<lambda>m. Inr (cancel_user_match uid m)))"

definition approve_dungeon_match ::
  "string \<Rightarrow> int \<Rightarrow> int \<Rightarrow> coordination \<Rightarrow> fault + (coordination_result \<times> coordination)" where
  "approve_dungeon_match =
     for_game_user (\<lambda>uid s. via_match (approve_user_match (fst (select (loadBalancer s))) uid) s)"

definition reject_dungeon_match ::
  "string \<Rightarrow> int \<Rightarrow> int \<Rightarrow> coordination \<Rightarrow> fault + (coordination_result \<times> coordination)" where
  "reject_dungeon_match = for_game_user (\<lambda>uid. via_match (reject_user_match uid))"

definition match_tick :: "coordination \<Rightarrow> fault + (coordination_result \<times> coordination)" where
  "match_tick s =
     and_then (via_match (\<lambda>m.
         and_then (create_matching_group matchOrganizeSize matchOrganizeSize2 m) (\<lambda>m1. Inr (True, m1))) s)
       (\<lambda>(_, s1). Inr (Finished, s1))"

text \<open>
  The loop at the end of \<^verbatim>\<open>HandleMatchGroupApproved\<close>: every user who is still there is moved to the dungeon at \<open>d\<close>,
  which is null when the container has no instance of that id.
\<close>

definition update_children :: "nat \<Rightarrow> (int list \<Rightarrow> int list) \<Rightarrow> coordination \<Rightarrow> coordination" where
  "update_children a f s =
     s\<lparr>instanceMemory := (instanceMemory s)
       (a := map_option (\<lambda>inst. inst\<lparr>instanceChildren := f (instanceChildren inst)\<rparr>) (instanceMemory s a))\<rparr>"

definition move_user :: "nat option \<Rightarrow> int \<Rightarrow> game_user \<Rightarrow> coordination \<Rightarrow> fault + coordination" where
  "move_user d uid u s =
     and_then (deref (instanceMemory s) (userParent u)) (\<lambda>old.
     and_then (deref (instanceMemory s) d) (\<lambda>dungeon.
       let s1 = update_children (the d) (\<lambda>cs. if uid \<in> set cs then cs else cs @ [uid])
                  (update_children (the (userParent u)) (removeAll uid) s);
           s2 = s1\<lparr>users := (users s1)(uid \<mapsto> u\<lparr>userParent := d, migrating := True\<rparr>)\<rparr>
       in and_then (deref (servers s2) (instanceParent dungeon)) (\<lambda>g.
            case instanceParent old of
              None \<Rightarrow> Inl NullDeref
            | Some i \<Rightarrow> send_command i (NotifyGroupApproved uid (serverIp g) (serverPort g)) s2)))"

fun move_users :: "nat option \<Rightarrow> int list \<Rightarrow> coordination \<Rightarrow> fault + (int list \<times> coordination)" where
  "move_users d [] s = Inr ([], s)"
| "move_users d (uid # uids) s =
     (case users s uid of
        None \<Rightarrow> move_users d uids s
      | Some u \<Rightarrow>
          and_then (move_user d uid u s) (\<lambda>s1.
            and_then (move_users d uids s1) (\<lambda>(moved, s2). Inr (uid # moved, s2))))"

definition launching_index :: "match_group \<Rightarrow> match_coordinator \<Rightarrow> nat" where
  "launching_index g m = length (takeWhile (\<lambda>h. group_id h \<noteq> group_id g) (launching m))"

definition resume_dungeon ::
  "match_group \<Rightarrow> int \<Rightarrow> bool \<Rightarrow> coordination \<Rightarrow> fault + (coordination_result \<times> coordination)" where
  "resume_dungeon g iid success s =
     (let m = (dungeonMatch s)\<lparr>located := located_of s\<rparr>; k = launching_index g m
      in if \<not> success then Inr (Finished, s\<lparr>dungeonMatch := launch_completed None k m\<rparr>)
         else and_then (move_users (instances s iid) (map fst (group_users g)) s) (\<lambda>(moved, s1).
           Inr (UsersMoved moved, s1\<lparr>dungeonMatch := launch_completed (Some iid) k m\<rparr>)))"

subsection \<open>Runs\<close>

datatype coordination_event =
    RegisterServer string string int
  | UpdateServerStatus int server_status
  | OpenChannel
  | CloseChannel nat
  | ChannelResponse nat int command_response
  | RequestSnowflakeKey string
  | ReturnSnowflakeKey string int
  | AddPlayer add_player_param authenticate_result
  | AuthenticatePlayer string int
  | RemovePlayer string int
  | RemoveGameInstance int
  | BroadcastChat string string int int
  | RequestDungeonMatch int string int int
  | CancelDungeonMatch string int int
  | ApproveDungeonMatch string int int
  | RejectDungeonMatch string int int
  | MatchTick
  | ResumeWaiter nat

text \<open>
  An event that names a channel, a runner or a waiter that is not there changes nothing; a runner that has ended reads
  no more.
\<close>

definition resume_waiter :: "nat \<Rightarrow> coordination \<Rightarrow> fault + (coordination_result \<times> coordination)" where
  "resume_waiter k s =
     (if k < length (resumable s)
      then let s1 = s\<lparr>resumable := take k (resumable s) @ drop (Suc k) (resumable s)\<rparr>
           in case resumable s ! k of
                (AddPlayerWaits p i iid, success) \<Rightarrow> resume_add_player p i iid success s1
              | (DungeonWaits g iid, success) \<Rightarrow> resume_dungeon g iid success s1
      else Inr (Finished, s))"

definition channel_response ::
  "nat \<Rightarrow> int \<Rightarrow> command_response \<Rightarrow> coordination \<Rightarrow> fault + (coordination_result \<times> coordination)" where
  "channel_response k rid r s =
     (if k < length (runners s) \<and> runner_running (runners s ! k)
      then and_then (run_response k rid r s) (\<lambda>s1. Inr (Finished, s1))
      else Inr (Finished, s))"

fun coordination_step ::
  "coordination_event \<Rightarrow> coordination \<Rightarrow> fault + (coordination_result \<times> coordination)" where
  "coordination_step (RegisterServer name ip port) s = Inr (register_server name ip port s)"
| "coordination_step (UpdateServerStatus i st) s = Inr (update_server_status i st s)"
| "coordination_step OpenChannel s = Inr (Finished, open_channel s)"
| "coordination_step (CloseChannel k) s =
     Inr (Finished, if k < length (runners s) then update_runner k (\<lambda>r. r\<lparr>channel_open := False\<rparr>) s else s)"
| "coordination_step (ChannelResponse k rid r) s = channel_response k rid r s"
| "coordination_step (RequestSnowflakeKey r) s = Inr (request_snowflake_key r s)"
| "coordination_step (ReturnSnowflakeKey r key) s = Inr (return_snowflake_key r key s)"
| "coordination_step (AddPlayer p authResult) s = add_player p authResult s"
| "coordination_step (AuthenticatePlayer token i) s = authenticate_player token i s"
| "coordination_step (RemovePlayer token i) s = remove_player token i s"
| "coordination_step (RemoveGameInstance iid) s = remove_game_instance iid s"
| "coordination_step (BroadcastChat message token iid i) s = broadcast_chatting message token iid i s"
| "coordination_step (RequestDungeonMatch d token iid i) s = request_dungeon_match d token iid i s"
| "coordination_step (CancelDungeonMatch token iid i) s = cancel_dungeon_match token iid i s"
| "coordination_step (ApproveDungeonMatch token iid i) s = approve_dungeon_match token iid i s"
| "coordination_step (RejectDungeonMatch token iid i) s = reject_dungeon_match token iid i s"
| "coordination_step MatchTick s = match_tick s"
| "coordination_step (ResumeWaiter k) s = resume_waiter k s"

fun coordination_run ::
  "coordination_event list \<Rightarrow> coordination \<Rightarrow> fault + ((coordination_event \<times> coordination_result) list \<times> coordination)"
where
  "coordination_run [] s = Inr ([], s)"
| "coordination_run (e # es) s =
     and_then (coordination_step e s) (\<lambda>(r, s1).
       and_then (coordination_run es s1) (\<lambda>(tr, s2). Inr ((e, r) # tr, s2)))"

subsection \<open>What most operations leave alone\<close>

definition keys_of :: "coordination \<Rightarrow> int \<times> (string \<times> int) list \<times> int list" where
  "keys_of s = (nextSnowflake s, publishedSnowflakeKeys s, returnedSnowflakeKeys s)"

definition nodes_of :: "coordination \<Rightarrow> (int \<rightharpoonup> nat) \<times> (nat \<rightharpoonup> game_instance) \<times> nat" where
  "nodes_of s = (instances s, instanceMemory s, nextAddress s)"

definition players_of :: "coordination \<Rightarrow> (int \<rightharpoonup> game_user) \<times> (string \<rightharpoonup> int) \<times> int" where
  "players_of s = (users s, userAuthTokenIndex s, nextGameUserId s)"

text \<open>The players whose \<^verbatim>\<open>AddPlayerAsync\<close> waits for a game server.\<close>

definition waiters_of :: "coordination \<Rightarrow> waiter set" where
  "waiters_of s = (\<Union>g \<in> ran (servers s). ran (responseWaits g)) \<union> fst ` set (resumable s)"

definition waiting_players :: "coordination \<Rightarrow> add_player_param set" where
  "waiting_players s = {p. \<exists>i iid. AddPlayerWaits p i iid \<in> waiters_of s}"

text \<open>A runner that knows its server knows one that is registered.\<close>

definition runners_wf :: "coordination \<Rightarrow> bool" where
  "runners_wf s \<longleftrightarrow> runner_server ` set (runners s) \<subseteq> insert None (Some ` dom (servers s))"

definition grows :: "coordination \<Rightarrow> coordination \<Rightarrow> bool" where
  "grows s s1 \<longleftrightarrow> dom (servers s) \<subseteq> dom (servers s1) \<and> waiting_players s1 \<subseteq> waiting_players s
     \<and> runner_server ` set (runners s1) \<subseteq> runner_server ` set (runners s) \<union> insert None (Some ` dom (servers s1))"

definition keeps :: "coordination \<Rightarrow> coordination \<Rightarrow> bool" where
  "keeps s s1 \<longleftrightarrow> keys_of s1 = keys_of s \<and> nodes_of s1 = nodes_of s \<and> players_of s1 = players_of s \<and> grows s s1"

lemmas views = keys_of_def nodes_of_def players_of_def

lemma grows_refl [simp]: "grows s s"
  by (auto simp: grows_def)

lemma covered_trans: "A1 \<subseteq> A \<union> insert x D1 \<Longrightarrow> A2 \<subseteq> A1 \<union> insert x D2 \<Longrightarrow> D1 \<subseteq> D2 \<Longrightarrow> A2 \<subseteq> A \<union> insert x D2"
  by blast

lemma covered_all: "A1 \<subseteq> A \<union> insert x D1 \<Longrightarrow> A \<subseteq> insert x D \<Longrightarrow> D \<subseteq> D1 \<Longrightarrow> A1 \<subseteq> insert x D1"
  by blast

lemma grows_trans:
  assumes "grows s s1" and "grows s1 s2"
  shows "grows s s2"
proof -
  from assms have d: "dom (servers s) \<subseteq> dom (servers s1)" "dom (servers s1) \<subseteq> dom (servers s2)"
    and w: "waiting_players s1 \<subseteq> waiting_players s" "waiting_players s2 \<subseteq> waiting_players s1"
    and r: "runner_server ` set (runners s1) \<subseteq> runner_server ` set (runners s) \<union> insert None (Some ` dom (servers s1))"
      "runner_server ` set (runners s2) \<subseteq> runner_server ` set (runners s1) \<union> insert None (Some ` dom (servers s2))"
    by (simp_all add: grows_def)
  have "Some ` dom (servers s1) \<subseteq> Some ` dom (servers s2)" by (rule image_mono [OF d(2)])
  from r this have "runner_server ` set (runners s2) \<subseteq> runner_server ` set (runners s) \<union> insert None (Some ` dom (servers s2))"
    by (rule covered_trans)
  with subset_trans [OF d] subset_trans [OF w(2,1)] show ?thesis by (simp add: grows_def)
qed

lemma frame_refl [simp]: "keeps s s"
  by (simp add: keeps_def)

lemma frame_trans: "keeps s s1 \<Longrightarrow> keeps s1 s2 \<Longrightarrow> keeps s s2"
  unfolding keeps_def by (auto intro: grows_trans)

lemma grows_same_runners:
  assumes "runners s1 = runners s" "dom (servers s) \<subseteq> dom (servers s1)" "waiting_players s1 \<subseteq> waiting_players s"
  shows "grows s s1"
  using assms by (auto simp: grows_def)

lemma waiting_players_mono:
  "waiters_of s1 \<subseteq> waiters_of s \<union> range (case_prod DungeonWaits) \<Longrightarrow> waiting_players s1 \<subseteq> waiting_players s"
  by (auto simp: waiting_players_def dest!: subsetD)

lemma waiting_players_cong:
  "servers s1 = servers s \<Longrightarrow> resumable s1 = resumable s \<Longrightarrow> waiting_players s1 = waiting_players s"
  by (simp add: waiting_players_def waiters_of_def)

lemma frame_other_fields:
  assumes "keys_of s1 = keys_of s" "nodes_of s1 = nodes_of s" "players_of s1 = players_of s"
    "servers s1 = servers s" "resumable s1 = resumable s" "runners s1 = runners s"
  shows "keeps s s1"
  using assms waiting_players_cong [OF assms(4,5)] by (simp add: keeps_def grows_same_runners)

lemma update_runner_grows:
  assumes "k < length (runners s) \<Longrightarrow> runner_server (f (runners s ! k))
    \<in> runner_server ` set (runners s) \<union> insert None (Some ` dom (servers s))"
  shows "keeps s (update_runner k f s)"
proof (cases "k < length (runners s)")
  case True
  then have "set (runners (update_runner k f s)) \<subseteq> insert (f (runners s ! k)) (set (runners s))"
    by (simp add: update_runner_def set_update_subset_insert)
  from image_mono [OF this, of runner_server] assms [OF True]
  have "runner_server ` set (runners (update_runner k f s))
      \<subseteq> runner_server ` set (runners s) \<union> insert None (Some ` dom (servers s))"
    unfolding image_insert by (meson Un_upper1 insert_subsetI order_trans)
  moreover have "waiting_players (update_runner k f s) = waiting_players s"
    by (rule waiting_players_cong) (simp_all add: update_runner_def)
  ultimately show ?thesis by (simp add: keeps_def grows_def views) (simp add: update_runner_def)
next
  case False
  then show ?thesis by (intro frame_other_fields) (simp_all add: update_runner_def views list_update_beyond)
qed

lemma update_runner_frame:
  assumes "\<And>r. runner_server (f r) = runner_server r \<or> runner_server (f r) = None"
  shows "keeps s (update_runner k f s)"
proof (rule update_runner_grows)
  assume "k < length (runners s)"
  then have "runner_server (runners s ! k) \<in> runner_server ` set (runners s)" by simp
  with assms [of "runners s ! k"] show "runner_server (f (runners s ! k))
    \<in> runner_server ` set (runners s) \<union> insert None (Some ` dom (servers s))" by (elim disjE) simp_all
qed

lemma channel_send_frame: "keeps s (channel_send k item s)"
  unfolding channel_send_def by (rule update_runner_frame) simp

lemma update_server_frame:
  assumes "\<And>g. servers s i = Some g \<Longrightarrow> ran (responseWaits (f g)) \<subseteq> ran (responseWaits g) \<union> range (case_prod DungeonWaits)"
  shows "keeps s (update_server i f s)"
proof -
  have "waiters_of (update_server i f s) \<subseteq> waiters_of s \<union> range (case_prod DungeonWaits)"
    using assms by (force simp: waiters_of_def update_server_def ran_def split: if_splits)
  then have "waiting_players (update_server i f s) \<subseteq> waiting_players s" by (rule waiting_players_mono)
  moreover have "dom (servers s) \<subseteq> dom (servers (update_server i f s))" by (auto simp: update_server_def)
  moreover have "runners (update_server i f s) = runners s" by (simp add: update_server_def)
  ultimately have "grows s (update_server i f s)" by (intro grows_same_runners)
  then show ?thesis by (simp add: keeps_def views) (simp add: update_server_def)
qed

lemma send_command_frame: "send_command i c s = Inr s1 \<Longrightarrow> keeps s s1"
  by (auto simp: send_command_def and_then_Inr_iff channel_send_frame split: option.splits if_splits)

lemma send_to_all_frame: "send_to_all is c s = Inr s1 \<Longrightarrow> keeps s s1"
  by (induction "is" arbitrary: s) (auto simp: and_then_Inr_iff intro: frame_trans send_command_frame)

lemma send_and_await_cases:
  assumes "send_and_await i c w s = Inr s1"
  obtains k rid where
    "s1 = channel_send k (Some rid, c)
       (update_server i (\<lambda>g. g\<lparr>nextCommandResponseId := rid, responseWaits := (responseWaits g)(rid \<mapsto> w)\<rparr>) s)"
  using assms by (auto simp: send_and_await_def and_then_Inr_iff Let_def split: option.splits if_splits)

lemma send_and_await_dungeon_frame:
  assumes "send_and_await i c (DungeonWaits g iid) s = Inr s1"
  shows "keeps s s1"
proof -
  from assms obtain k rid where s1: "s1 = channel_send k (Some rid, c) (update_server i (\<lambda>h. h\<lparr>nextCommandResponseId := rid,
      responseWaits := (responseWaits h)(rid \<mapsto> DungeonWaits g iid)\<rparr>) s)"
    by (rule send_and_await_cases)
  have "keeps s (update_server i (\<lambda>h. h\<lparr>nextCommandResponseId := rid,
      responseWaits := (responseWaits h)(rid \<mapsto> DungeonWaits g iid)\<rparr>) s)"
    by (rule update_server_frame) (auto simp: ran_def split: if_splits)
  then show ?thesis unfolding s1 by (rule frame_trans [OF _ channel_send_frame])
qed

lemma deliver_frame: "deliver cs s = Inr s1 \<Longrightarrow> keeps s s1"
proof (induction cs s arbitrary: s1 rule: deliver.induct)
  case (5 i zone cs s)
  let ?iid = "nextGameInstanceId s + 1"
  let ?s = "s\<lparr>nextGameInstanceId := ?iid, loadBalancer := snd (select (loadBalancer s))\<rparr>"
  from 5(2) obtain s2 where s2: "send_and_await i (LaunchGameInstance zone ?iid)
      (DungeonWaits (last (launching (dungeonMatch s))) ?iid) ?s = Inr s2" "deliver cs s2 = Inr s1"
    by (auto simp: and_then_Inr_iff Let_def)
  have "keeps s ?s" by (rule frame_other_fields) (simp_all add: views)
  moreover have "keeps s2 s1" using 5(1) [OF refl] s2 by blast
  ultimately show ?case using send_and_await_dungeon_frame [OF s2(1)] frame_trans by blast
qed (auto simp: and_then_Inr_iff intro: frame_trans send_command_frame)

lemma via_match_frame:
  assumes "via_match act s = Inr (b, s1)"
  shows "keeps s s1"
proof -
  from assms obtain m where "deliver (drop (length (commands (dungeonMatch s))) (commands m)) (s\<lparr>dungeonMatch := m\<rparr>) = Inr s1"
    by (auto simp: via_match_def and_then_Inr_iff)
  then have "keeps (s\<lparr>dungeonMatch := m\<rparr>) s1" by (rule deliver_frame)
  moreover have "keeps s (s\<lparr>dungeonMatch := m\<rparr>)" by (rule frame_other_fields) (simp_all add: views)
  ultimately show ?thesis using frame_trans by blast
qed

lemma for_game_user_frame:
  assumes "for_game_user act token iid i s = Inr (r, s1)" and "\<And>uid b s2. act uid s = Inr (b, s2) \<Longrightarrow> keeps s s2"
  shows "keeps s s1" and "r = Finished \<or> r = Refused CoordinationErrorInternalError"
  using assms by (auto simp: for_game_user_def and_then_Inr_iff split: option.splits if_splits)

lemma mark_response_frame: "keeps s (mark_response b rid i s)"
proof (cases "Option.bind (servers s i) (\<lambda>g. responseWaits g rid)")
  case None
  then show ?thesis by (auto simp: mark_response_def split: option.splits)
next
  case (Some w)
  then obtain g where g: "servers s i = Some g" "responseWaits g rid = Some w" by (auto simp: bind_eq_Some_conv)
  then have "waiters_of (mark_response b rid i s) \<subseteq> waiters_of s"
    by (auto simp: mark_response_def waiters_of_def update_server_def ran_def split: if_splits) blast+
  then have "waiting_players (mark_response b rid i s) \<subseteq> waiting_players s" by (intro waiting_players_mono) blast
  moreover have "dom (servers s) \<subseteq> dom (servers (mark_response b rid i s))" using g by (auto simp: mark_response_def update_server_def)
  moreover have "runners (mark_response b rid i s) = runners s" using g by (simp add: mark_response_def update_server_def)
  ultimately have "grows s (mark_response b rid i s)" by (intro grows_same_runners)
  then show ?thesis using g by (simp add: keeps_def views mark_response_def) (simp add: update_server_def)
qed

subsection \<open>Keys\<close>

definition keys_wf :: "int \<times> (string \<times> int) list \<times> int list \<Rightarrow> bool" where
  "keys_wf = (\<lambda>(next_key, published, returned).
     0 \<le> next_key \<and> distinct (map snd published @ returned)
     \<and> set (map snd published @ returned) \<subseteq> {0..<next_key} \<inter> {..max_snowflake_key})"

lemma mset_keys_remove1:
  assumes "(r, k) \<in> set ps"
  shows "mset (map snd (remove1 (r, k) ps) @ ks @ [k]) = mset (map snd ps @ ks)"
proof -
  from assms have "mset ps = add_mset (r, k) (mset (remove1 (r, k) ps))" by simp
  then have "image_mset snd (mset ps) = add_mset k (image_mset snd (mset (remove1 (r, k) ps)))"
    by (metis image_mset_add_mset snd_conv)
  then show ?thesis by simp
qed

lemma request_key_wf:
  assumes "keys_wf (keys_of s)"
  shows "keys_wf (keys_of (snd (request_snowflake_key r s)))"
proof -
  have "keys_of (snd (request_snowflake_key r s)) = keys_of (snd (publish_snowflake_key r s))"
    by (auto simp: request_snowflake_key_def split: prod.splits option.splits)
  moreover have "keys_wf (keys_of (snd (publish_snowflake_key r s)))"
  proof -
    let ?n = "nextSnowflake s"
    have sub: "{0..<?n} \<inter> {..max_snowflake_key} \<subseteq> {0..<?n + 1} \<inter> {..max_snowflake_key}" by auto
    from assms have n: "0 \<le> ?n" "distinct (map snd (publishedSnowflakeKeys s) @ returnedSnowflakeKeys s)"
      and ks: "set (map snd (publishedSnowflakeKeys s) @ returnedSnowflakeKeys s) \<subseteq> {0..<?n} \<inter> {..max_snowflake_key}"
      by (simp_all add: keys_wf_def keys_of_def)
    from ks have "?n \<notin> set (map snd (publishedSnowflakeKeys s) @ returnedSnowflakeKeys s)" by auto
    with n subset_trans [OF ks sub] show ?thesis
      by (cases "returnedSnowflakeKeys s")
        (simp_all add: publish_snowflake_key_def keys_wf_def keys_of_def Let_def)
  qed
  ultimately show ?thesis by simp
qed

lemma return_key_wf:
  assumes "keys_wf (keys_of s)"
  shows "keys_wf (keys_of (snd (return_snowflake_key r k s)))"
proof (cases "(r, k) \<in> set (publishedSnowflakeKeys s)")
  case True
  let ?ps = "publishedSnowflakeKeys s" and ?ks = "returnedSnowflakeKeys s"
  note m = mset_keys_remove1 [OF True, of ?ks]
  have "set (map snd (remove1 (r, k) ?ps) @ ?ks @ [k]) = set (map snd ?ps @ ?ks)"
    "distinct (map snd (remove1 (r, k) ?ps) @ ?ks @ [k]) = distinct (map snd ?ps @ ?ks)"
    using mset_eq_setD [OF m] mset_eq_imp_distinct_iff [OF m] by blast+
  with True assms show ?thesis by (simp add: return_snowflake_key_def keys_wf_def keys_of_def del: set_append)
qed (use assms in \<open>simp add: return_snowflake_key_def\<close>)

subsection \<open>The invariant\<close>

definition nodes_wf :: "coordination \<Rightarrow> bool" where
  "nodes_wf s \<longleftrightarrow>
     (\<forall>iid a. instances s iid = Some a \<longrightarrow> (\<exists>inst. instanceMemory s a = Some inst \<and> instanceId inst = iid))
     \<and> (\<forall>a inst. instanceMemory s a = Some inst \<longrightarrow>
          a < nextAddress s \<and> instances s (instanceId inst) = Some a
          \<and> (\<exists>i. instanceParent inst = Some i \<and> i \<in> dom (servers s)))"

definition describes :: "add_player_param \<Rightarrow> game_user \<Rightarrow> bool" where
  "describes p u \<longleftrightarrow> authToken u = p_token p \<and> accountId u = p_accountId p \<and> characterId u = p_characterId p"

text \<open>\<open>P\<close> are the players that the login service has authenticated.\<close>

definition players_wf :: "add_player_param set \<Rightarrow> coordination \<Rightarrow> bool" where
  "players_wf P s \<longleftrightarrow>
     (\<forall>t uid. userAuthTokenIndex s t = Some uid \<longrightarrow> (\<exists>u. users s uid = Some u \<and> authToken u = t))
     \<and> (\<forall>uid u. users s uid = Some u \<longrightarrow> uid \<le> nextGameUserId s \<and> (\<exists>p \<in> P. describes p u))
     \<and> waiting_players s \<subseteq> P"

definition coordination_wf :: "add_player_param set \<Rightarrow> coordination \<Rightarrow> bool" where
  "coordination_wf P s \<longleftrightarrow> keys_wf (keys_of s) \<and> runners_wf s \<and> nodes_wf s \<and> players_wf P s"

lemma coordination_new_wf: "coordination_wf {} coordination_new"
  by (simp add: coordination_wf_def keys_wf_def keys_of_def runners_wf_def nodes_wf_def players_wf_def coordination_new_def
      waiting_players_def waiters_of_def)

lemma grows_runners: "grows s s1 \<Longrightarrow> runners_wf s \<Longrightarrow> runners_wf s1"
proof -
  assume "grows s s1" "runners_wf s"
  then have "runner_server ` set (runners s1) \<subseteq> runner_server ` set (runners s) \<union> insert None (Some ` dom (servers s1))"
    "runner_server ` set (runners s) \<subseteq> insert None (Some ` dom (servers s))"
    "Some ` dom (servers s) \<subseteq> Some ` dom (servers s1)"
    by (simp_all add: grows_def runners_wf_def image_mono)
  then show ?thesis unfolding runners_wf_def by (rule covered_all)
qed

lemma grows_nodes:
  assumes "grows s s1" and "nodes_of s1 = nodes_of s" and "nodes_wf s"
  shows "nodes_wf s1"
proof -
  from assms(1) have "dom (servers s) \<subseteq> dom (servers s1)" by (simp add: grows_def)
  with assms(2,3) show ?thesis by (simp add: nodes_wf_def nodes_of_def) blast
qed

lemma grows_players:
  assumes "grows s s1" and "players_of s1 = players_of s" and "players_wf P s"
  shows "players_wf P s1"
  using assms by (auto simp: players_wf_def players_of_def grows_def)

lemma players_wf_mono: "players_wf P s \<Longrightarrow> P \<subseteq> Q \<Longrightarrow> players_wf Q s"
  unfolding players_wf_def by blast

lemma coordination_wfI:
  assumes "coordination_wf P s" and "grows s s1" and "keys_of s1 = keys_of s" and "nodes_wf s1" and "players_wf Q s1"
  shows "coordination_wf Q s1"
  using assms grows_runners [OF assms(2)] by (simp add: coordination_wf_def)

lemma frame_wf:
  assumes "keeps s s1" and "coordination_wf P s" and "P \<subseteq> Q"
  shows "coordination_wf Q s1"
proof -
  from assms(1) have f: "keys_of s1 = keys_of s" "nodes_of s1 = nodes_of s" "players_of s1 = players_of s" "grows s s1"
    by (simp_all add: keeps_def)
  from f assms(2) players_wf_mono [OF _ assms(3)] grows_runners [OF f(4)] grows_nodes [OF f(4,2)] grows_players [OF f(4,3)]
  show ?thesis by (simp add: coordination_wf_def)
qed

subsection \<open>What a step does to the players\<close>

fun let_in :: "coordination_result \<Rightarrow> int set" where
  "let_in (PlayerAuthenticated _ _ _ uid) = {uid}"
| "let_in _ = {}"

fun admitted :: "coordination_result \<Rightarrow> int set" where
  "admitted (PlayerAdded uid _ _) = {uid}"
| "admitted (UsersMoved uids) = set uids"
| "admitted _ = {}"

definition pending :: "coordination \<Rightarrow> int set" where
  "pending s = {uid. \<exists>u. users s uid = Some u \<and> migrating u}"

text \<open>Until users are moved to a dungeon no instance has a child: the lobby only sets the parent of a user.\<close>

fun moved :: "coordination_result \<Rightarrow> int set" where
  "moved (UsersMoved uids) = set uids"
| "moved _ = {}"

definition childless :: "coordination \<Rightarrow> bool" where
  "childless s \<longleftrightarrow> (\<forall>inst \<in> ran (instanceMemory s). instanceChildren inst = [])"

lemma childless_nodes: "nodes_of s1 = nodes_of s \<Longrightarrow> childless s1 = childless s"
  by (simp add: childless_def nodes_of_def)

lemma frame_childless: "keeps s s1 \<Longrightarrow> childless s1 = childless s"
  unfolding keeps_def by (intro childless_nodes) blast

text \<open>What every step is shown to do; \<open>P\<close> are the players authenticated before it, \<open>Q\<close> those after it.\<close>

definition step_ok ::
  "add_player_param set \<Rightarrow> coordination \<Rightarrow> coordination_result \<Rightarrow> add_player_param set \<Rightarrow> coordination \<Rightarrow> bool" where
  "step_ok P s r Q s1 \<longleftrightarrow> coordination_wf Q s1 \<and> let_in r \<subseteq> pending s \<and> pending s1 \<subseteq> pending s - let_in r \<union> admitted r
     \<and> (childless s \<and> moved r = {} \<longrightarrow> childless s1)"

lemma frame_step_ok:
  assumes "keeps s s1" and "coordination_wf P s" and "P \<subseteq> Q" and "let_in r = {}" and "admitted r = {}"
  shows "step_ok P s r Q s1"
proof -
  have "pending s1 = pending s" using assms(1) by (simp add: keeps_def players_of_def pending_def)
  moreover have "childless s1 = childless s" by (rule frame_childless [OF assms(1)])
  ultimately show ?thesis using assms frame_wf [OF assms(1-3)] by (simp add: step_ok_def)
qed

subsection \<open>Every step keeps the invariant\<close>

lemma register_server_frame: "keeps s (snd (register_server name ip port s))"
proof (cases "has_server_address ip (port mod 2 ^ 16) s")
  case False
  let ?i = "nextServerId s + 1"
  let ?s0 = "s\<lparr>nextServerId := ?i\<rparr>"
  let ?s1 = "container_add_server ?i (game_server_new name ip (port mod 2 ^ 16)) ?s0"
  have "waiters_of ?s1 \<subseteq> waiters_of s"
    by (auto simp: container_add_server_def waiters_of_def game_server_new_def ran_def split: option.splits if_splits)
  then have "grows s ?s1"
    by (intro grows_same_runners waiting_players_mono) (auto simp: container_add_server_def split: option.splits)
  then have "keeps s ?s1" by (simp add: keeps_def views container_add_server_def split: option.splits)
  moreover have "keeps ?s1 (?s1\<lparr>loadBalancer := snd (balancer_add ?i (loadBalancer ?s1))\<rparr>)"
    by (rule frame_other_fields) (simp_all add: views)
  ultimately have "keeps s (?s1\<lparr>loadBalancer := snd (balancer_add ?i (loadBalancer ?s1))\<rparr>)" by (rule frame_trans)
  with False show ?thesis by (simp add: register_server_def Let_def)
qed (simp add: register_server_def Let_def)

lemma handle_launch_response_wf:
  assumes "handle_launch_response i iid zone s = Some s1" and "i \<in> dom (servers s)" and "nodes_wf s"
  shows "nodes_wf s1" and "grows s s1" and "keys_of s1 = keys_of s" and "players_of s1 = players_of s"
    and "childless s \<Longrightarrow> childless s1"
proof -
  let ?a = "nextAddress s"
  let ?s0 = "s\<lparr>nextAddress := ?a + 1, instances := (instances s)(iid \<mapsto> ?a),
     instanceMemory := (instanceMemory s)(?a \<mapsto> (game_instance_new iid zone)\<lparr>instanceParent := Some i\<rparr>)\<rparr>"
  let ?f = "\<lambda>g. g\<lparr>serverChildren :=
     (if iid \<in> fst ` set (serverChildren g) then serverChildren g else serverChildren g @ [(iid, ?a)])\<rparr>"
  from assms(1) have new: "instances s iid = None" and s1: "s1 = update_server i ?f ?s0"
    by (simp_all add: handle_launch_response_def Let_def split: option.splits)
  have fresh: "instanceMemory s ?a = None"
    using assms(3) unfolding nodes_wf_def by (metis less_irrefl not_None_eq)
  have nodes: "nodes_wf ?s0"
    using assms(2,3) new fresh by (auto simp: nodes_wf_def game_instance_new_def less_Suc_eq)
  have "keeps ?s0 (update_server i ?f ?s0)" by (rule update_server_frame) auto
  then have f: "grows ?s0 s1" "nodes_of s1 = nodes_of ?s0" "keys_of s1 = keys_of ?s0" "players_of s1 = players_of ?s0"
    unfolding keeps_def s1 by blast+
  show "nodes_wf s1" by (rule grows_nodes [OF f(1,2) nodes])
  show "childless s1" if "childless s"
    using that unfolding childless_nodes [OF f(2)]
    by (auto simp: childless_def game_instance_new_def ran_def split: if_splits)
  have "grows s ?s0" by (rule grows_same_runners) (auto simp: waiting_players_def waiters_of_def)
  then show "grows s s1" using f(1) by (rule grows_trans)
  show "keys_of s1 = keys_of s" "players_of s1 = players_of s" using f(3,4) by (simp_all add: views)
qed

lemma runner_server_dom:
  assumes "runners_wf s" and "k < length (runners s)" and "runner_server (runners s ! k) = Some i"
  shows "i \<in> dom (servers s)"
proof -
  have "Some i \<in> runner_server ` set (runners s)" using assms(2,3) by (metis image_eqI nth_mem)
  with assms(1) show ?thesis unfolding runners_wf_def by auto
qed

lemma stop_runner_frame: "keeps s (stop_runner k s)"
  unfolding stop_runner_def by (rule update_runner_frame) simp

lemma run_response_wf:
  assumes "run_response k rid resp s = Inr s1" and "k < length (runners s)" and "coordination_wf P s"
  shows "coordination_wf P s1 \<and> players_of s1 = players_of s \<and> (childless s \<longrightarrow> childless s1)"
proof (cases "keeps s s1")
  case True
  with frame_wf [OF True assms(3) order_refl] frame_childless [OF True] show ?thesis by (simp add: keeps_def)
next
  case False
  show ?thesis
  proof (cases resp)
    case (RespException m)
    with False assms(1) show ?thesis by (auto simp: stop_runner_frame mark_response_frame split: option.splits)
  next
    case (RespAuthenticate m)
    show ?thesis
    proof (cases m)
      case None
      with RespAuthenticate False assms(1) show ?thesis by (auto simp: stop_runner_frame)
    next
      case (Some i)
      let ?s0 = "update_server i (\<lambda>g. g\<lparr>serverChannel := Some k\<rparr>) s"
      from RespAuthenticate Some assms(1) have i: "i \<in> dom (servers s)"
        and s1: "s1 = update_runner k (\<lambda>r. r\<lparr>runner_server := Some i\<rparr>) ?s0"
        by (auto split: option.splits)
      have "keeps s ?s0" by (rule update_server_frame) simp
      moreover have "keeps ?s0 s1" unfolding s1 using i by (intro update_runner_grows) (auto simp: update_server_def)
      ultimately show ?thesis using False frame_trans by blast
    qed
  next
    case (RespLaunch m)
    with False assms(1) obtain i iid zone where i: "runner_server (runners s ! k) = Some i" and m: "m = Some (iid, zone)"
      by (auto simp: stop_runner_frame mark_response_frame split: option.splits)
    with RespLaunch False assms(1) obtain s2 where s2: "handle_launch_response i iid zone s = Some s2"
      and s1: "s1 = mark_response True rid i s2"
      by (auto simp: mark_response_frame split: option.splits)
    have wf: "keys_wf (keys_of s)" "runners_wf s" "nodes_wf s" "players_wf P s"
      using assms(3) by (simp_all add: coordination_wf_def)
    note h = handle_launch_response_wf [OF s2 runner_server_dom [OF wf(2) assms(2) i] wf(3)]
    have "coordination_wf P s2"
      using wf h grows_runners [OF h(2)] grows_players [OF h(2,4)] by (simp add: coordination_wf_def)
    moreover have f: "keeps s2 s1" unfolding s1 by (rule mark_response_frame)
    moreover have "childless s1 = childless s2" by (rule frame_childless [OF f])
    ultimately show ?thesis using frame_wf [OF f _ order_refl] h(4,5) f by (simp add: keeps_def)
  next
    case RespOther
    with False assms(1) show ?thesis by (auto simp: stop_runner_frame split: option.splits)
  qed
qed

lemma find_game_instance_found:
  "find_game_instance zone cs mem = Inr (Some a) \<Longrightarrow> \<exists>inst. mem a = Some inst"
  by (induction cs) (auto simp: and_then_Inr_iff deref_Inr_iff split: if_splits)

lemma admit_user_wf:
  assumes "players_wf P s" and "p \<in> P" and "uid = nextGameUserId s + 1" and "describes p u" and "migrating u"
  defines "s1 \<equiv> container_add_user uid u (s\<lparr>nextGameUserId := uid\<rparr>)"
  shows "players_wf P s1" and "pending s1 = insert uid (pending s)"
proof -
  have new: "users s uid = None"
  proof (rule ccontr)
    assume "users s uid \<noteq> None"
    then obtain v where "users s uid = Some v" by blast
    with assms(1) have "uid \<le> nextGameUserId s" unfolding players_wf_def by blast
    with assms(3) show False by simp
  qed
  have w: "waiting_players s1 = waiting_players s"
    by (rule waiting_players_cong) (simp_all add: s1_def container_add_user_def new)
  have old: "users s i = Some v \<Longrightarrow> i \<noteq> uid \<and> i \<le> uid \<and> (\<exists>p \<in> P. describes p v)"
    "userAuthTokenIndex s t = Some i \<Longrightarrow> i \<noteq> uid \<and> (\<exists>v. users s i = Some v \<and> authToken v = t)" for i v t
    using assms(1,3) new unfolding players_wf_def by force+
  show "players_wf P s1"
    using assms(1,2,4) old w new unfolding players_wf_def
    by (auto simp: s1_def container_add_user_def split: option.splits)
  show "pending s1 = insert uid (pending s)"
    using assms(5) by (auto simp: pending_def s1_def container_add_user_def new)
qed

lemma admit_player_ok:
  assumes "admit_player p i a s = Inr (r, s1)" and "coordination_wf P s" and "p \<in> P"
  shows "step_ok P s r P s1"
proof -
  let ?uid = "nextGameUserId s + 1"
  let ?u = "(game_user_new (p_token p) (p_accountId p) (p_characterId p) (p_zoneId p))\<lparr>migrating := True, userParent := Some a\<rparr>"
  from assms(1) obtain ip port where r: "r = PlayerAdded ?uid ip port"
    and s1: "s1 = container_add_user ?uid ?u (s\<lparr>nextGameUserId := ?uid\<rparr>)"
    by (auto simp: admit_player_def and_then_Inr_iff Let_def)
  have wf: "keys_wf (keys_of s)" "runners_wf s" "nodes_wf s" "players_wf P s"
    using assms(2) by (simp_all add: coordination_wf_def)
  have "describes p ?u" "migrating ?u" by (simp_all add: describes_def game_user_new_def)
  note added = admit_user_wf [OF wf(4) assms(3) refl this, folded s1]
  have "keys_of s1 = keys_of s" "nodes_of s1 = nodes_of s" "servers s1 = servers s" "runners s1 = runners s"
    by (simp_all add: s1 container_add_user_def views split: option.splits)
  moreover have "runners_wf s1" using wf(2) calculation by (simp add: runners_wf_def)
  moreover have "nodes_wf s1" using wf(3) calculation by (simp add: nodes_wf_def nodes_of_def)
  ultimately have "coordination_wf P s1" using wf(1) added(1) by (simp add: coordination_wf_def)
  with added(2) r show ?thesis using childless_nodes [OF \<open>nodes_of s1 = nodes_of s\<close>] by (simp add: step_ok_def)
qed

lemma add_player_ok:
  assumes "add_player p auth s = Inr (r, s1)" and "coordination_wf P s"
  shows "step_ok P s r (P \<union> (if auth_errorCode auth = None then {p} else {})) s1"
proof (cases "auth_errorCode auth = None")
  case False
  with assms show ?thesis by (auto simp: add_player_def intro: frame_step_ok [OF frame_refl])
next
  case True
  let ?Q = "insert p P"
  obtain c lb where sel: "select (loadBalancer s) = (c, lb)" by fastforce
  let ?s0 = "s\<lparr>loadBalancer := lb\<rparr>"
  have f0: "keeps s ?s0" by (rule frame_other_fields) (simp_all add: views)
  from assms(1) True sel obtain i g found where i: "c = Some i" "servers s i = Some g"
    and found: "find_game_instance (p_zoneId p) (serverChildren g) (instanceMemory ?s0) = Inr found"
    by (auto simp: add_player_def Let_def and_then_Inr_iff split: option.splits)
  show ?thesis
  proof (cases found)
    case (Some a)
    with assms(1) True sel i found have "admit_player p i a ?s0 = Inr (r, s1)" by (simp add: add_player_def Let_def)
    moreover have "coordination_wf ?Q ?s0" by (rule frame_wf [OF f0 assms(2)]) blast
    ultimately have "step_ok ?Q ?s0 r ?Q s1" by (rule admit_player_ok) simp
    moreover have "pending ?s0 = pending s" "childless ?s0 = childless s" by (simp_all add: pending_def childless_def)
    ultimately show ?thesis using True by (simp add: step_ok_def)
  next
    case None
    let ?iid = "nextGameInstanceId s + 1"
    let ?s2 = "?s0\<lparr>nextGameInstanceId := ?iid\<rparr>"
    from None assms(1) True sel i found
    have send: "send_and_await i (LaunchGameInstance (p_zoneId p) ?iid) (AddPlayerWaits p i ?iid) ?s2 = Inr s1"
      and r: "r = Suspended" by (auto simp: add_player_def Let_def and_then_Inr_iff)
    from send obtain k rid where s1: "s1 = channel_send k (Some rid, LaunchGameInstance (p_zoneId p) ?iid)
        (update_server i (\<lambda>g. g\<lparr>nextCommandResponseId := rid,
           responseWaits := (responseWaits g)(rid \<mapsto> AddPlayerWaits p i ?iid)\<rparr>) ?s2)" (is "_ = channel_send k _ ?s3")
      by (rule send_and_await_cases)
    have same: "keys_of ?s3 = keys_of s" "nodes_of ?s3 = nodes_of s" "players_of ?s3 = players_of s"
      "runners ?s3 = runners s" by (simp_all add: views update_server_def)
    have dom: "dom (servers s) = dom (servers ?s3)" using i(2) by (auto simp: update_server_def)
    have "waiters_of ?s3 \<subseteq> insert (AddPlayerWaits p i ?iid) (waiters_of s)"
      using i(2) by (auto simp: waiters_of_def update_server_def ran_def split: if_splits) blast+
    then have "waiting_players ?s3 \<subseteq> insert p (waiting_players s)" by (auto simp: waiting_players_def)
    with assms(2) same dom have wf: "coordination_wf ?Q ?s3"
      by (auto simp: coordination_wf_def players_wf_def nodes_wf_def nodes_of_def players_of_def runners_wf_def)
    have "keeps ?s3 s1" unfolding s1 by (rule channel_send_frame)
    from frame_step_ok [OF this wf order_refl] have "step_ok ?Q ?s3 r ?Q s1" using r by simp
    moreover have "pending ?s3 = pending s" "childless ?s3 = childless s"
      by (simp_all add: pending_def childless_def update_server_def)
    ultimately show ?thesis using True by (simp add: step_ok_def)
  qed
qed

lemma resume_add_player_ok:
  assumes "resume_add_player p i iid success s = Inr (r, s1)" and "coordination_wf P s" and "p \<in> P"
  shows "step_ok P s r P s1"
proof (cases "keeps s s1 \<and> r = Refused CoordinationErrorInternalError")
  case True
  then show ?thesis using frame_step_ok [OF _ assms(2) order_refl] by simp
next
  case False
  with assms(1) obtain a where "admit_player p i a s = Inr (r, s1)"
    by (auto simp: resume_add_player_def and_then_Inr_iff split: if_splits option.splits)
  then show ?thesis by (rule admit_player_ok [OF _ assms(2,3)])
qed

lemma update_user_wf:
  assumes "players_wf P s" and "users s uid = Some u" and "\<And>p. describes p u = describes p u'"
    and "authToken u' = authToken u"
  shows "players_wf P (s\<lparr>users := (users s)(uid \<mapsto> u')\<rparr>)"
proof -
  have "waiting_players (s\<lparr>users := (users s)(uid \<mapsto> u')\<rparr>) = waiting_players s"
    by (rule waiting_players_cong) simp_all
  moreover have "authToken u = t" if "userAuthTokenIndex s t = Some uid" for t
    using assms(1,2) that unfolding players_wf_def by (metis option.inject)
  moreover have "uid \<le> nextGameUserId s" "\<exists>p \<in> P. describes p u'"
    using assms(1-3) unfolding players_wf_def by blast+
  ultimately show ?thesis using assms(1,4) unfolding players_wf_def by simp
qed

lemma authenticate_player_cases:
  assumes "authenticate_player token i s = Inr (r, s1)"
  obtains (refused) e where "r = Refused e" "s1 = s"
  | (let_in) uid u and inst :: game_instance where
      "userAuthTokenIndex s token = Some uid" "users s uid = Some u" "migrating u"
      "deref (instanceMemory s) (userParent u) = Inr inst" "instanceParent inst = Some i"
      "r = PlayerAuthenticated (accountId u) (characterId u) (instanceId inst) uid"
      "s1 = s\<lparr>users := (users s)(uid \<mapsto> u\<lparr>migrating := False\<rparr>)\<rparr>"
proof (cases "userAuthTokenIndex s token")
  case None
  with assms show ?thesis by (intro refused) (auto simp: authenticate_player_def)
next
  case uid: (Some uid)
  with assms obtain u where u: "users s uid = Some u" by (auto simp: authenticate_player_def and_then_Inr_iff deref_Inr_iff)
  then have d: "deref (users s) (Some uid) = Inr u" by (simp add: deref_def)
  show ?thesis
  proof (cases "migrating u")
    case False
    with assms uid d show ?thesis by (intro refused) (auto simp: authenticate_player_def)
  next
    case True
    with assms uid d obtain inst where inst: "deref (instanceMemory s) (userParent u) = Inr inst"
      by (auto simp: authenticate_player_def and_then_Inr_iff)
    then show ?thesis
    proof (cases "instanceParent inst = Some i")
      case False
      with assms uid d True inst show ?thesis
        by (intro refused) (auto simp: authenticate_player_def split: option.splits)
    next
      case parent: True
      with assms uid d True inst show ?thesis
        by (intro let_in [OF uid u True inst parent]) (auto simp: authenticate_player_def)
    qed
  qed
qed

lemma remove_player_cases:
  assumes "remove_player token i s = Inr (r, s1)"
  obtains (refused) e where "r = Refused e" "s1 = s"
  | (removed) uid u a where
      "userAuthTokenIndex s token = Some uid" "users s uid = Some u" "userParent u = Some a" "r = Finished"
      "s1 = container_remove_user uid (update_children a (removeAll uid) s)"
proof (cases "userAuthTokenIndex s token")
  case None
  with assms show ?thesis by (intro refused) (auto simp: remove_player_def)
next
  case uid: (Some uid)
  with assms obtain u where u: "users s uid = Some u" by (auto simp: remove_player_def and_then_Inr_iff deref_Inr_iff)
  then have d: "deref (users s) (Some uid) = Inr u" by (simp add: deref_def)
  show ?thesis
  proof (cases "userParent u")
    case None
    with assms uid d show ?thesis by (intro refused) (auto simp: remove_player_def)
  next
    case a: (Some a)
    with assms uid d obtain inst where inst: "instanceMemory s a = Some inst"
      by (auto simp: remove_player_def and_then_Inr_iff deref_Inr_iff)
    then have e: "deref (instanceMemory s) (Some a) = Inr inst" by (simp add: deref_def)
    show ?thesis
    proof (cases "instanceParent inst = Some i")
      case False
      with assms uid d a e show ?thesis by (intro refused) (auto simp: remove_player_def)
    next
      case True
      with assms uid d a e inst show ?thesis
        by (intro removed [OF uid u a]) (auto simp: remove_player_def update_children_def)
    qed
  qed
qed

lemma remove_game_instance_cases:
  assumes "remove_game_instance iid s = Inr (r, s1)"
  obtains (refused) e where "r = Refused e" "s1 = s"
  | (removed) a i where "instances s iid = Some a" "r = Finished"
      "s1 = container_remove_instance iid (update_server i (\<lambda>g. g\<lparr>serverChildren :=
         filter (\<lambda>(j, _). j \<noteq> iid) (serverChildren g)\<rparr>) s)"
proof (cases "instances s iid")
  case None
  with assms show ?thesis by (intro refused) (auto simp: remove_game_instance_def)
next
  case a: (Some a)
  with assms obtain inst where inst: "instanceMemory s a = Some inst"
    by (auto simp: remove_game_instance_def and_then_Inr_iff deref_Inr_iff)
  then have e: "deref (instanceMemory s) (Some a) = Inr inst" by (simp add: deref_def)
  show ?thesis
  proof (cases "instanceChildren inst = []")
    case False
    with assms a e show ?thesis by (intro refused) (auto simp: remove_game_instance_def)
  next
    case True
    with assms a e show ?thesis
      by (intro removed [OF a, of "the (instanceParent inst)"]) (auto simp: remove_game_instance_def and_then_Inr_iff)
  qed
qed

lemma authenticate_player_ok:
  assumes "authenticate_player token i s = Inr (r, s1)" and "coordination_wf P s"
  shows "step_ok P s r P s1"
  using assms(1)
proof (cases rule: authenticate_player_cases)
  case (refused e)
  then show ?thesis using frame_step_ok [OF frame_refl assms(2) order_refl] by simp
next
  case (let_in uid u inst)
  note u = let_in(2,3) and r = let_in(6) and s1 = let_in(7)
  have wf: "keys_wf (keys_of s)" "runners_wf s" "nodes_wf s" "players_wf P s"
    using assms(2) by (simp_all add: coordination_wf_def)
  have "players_wf P s1" unfolding s1 by (rule update_user_wf [OF wf(4) u(1)]) (simp_all add: describes_def)
  moreover have g: "grows s s1"
    by (rule grows_same_runners) (simp_all add: s1 waiting_players_def waiters_of_def)
  moreover have "keys_of s1 = keys_of s" "nodes_of s1 = nodes_of s" by (simp_all add: s1 views)
  ultimately have "coordination_wf P s1"
    using coordination_wfI [OF assms(2) g] grows_nodes [OF g _ wf(3)] by blast
  moreover have "pending s1 = pending s - {uid}" by (auto simp: pending_def s1)
  moreover have "uid \<in> pending s" using u by (simp add: pending_def)
  moreover have "childless s1 = childless s" by (simp add: childless_def s1)
  ultimately show ?thesis by (simp add: step_ok_def r)
qed

lemma update_children_wf:
  assumes "nodes_wf s"
  shows "nodes_wf (update_children a f s)" and "players_of (update_children a f s) = players_of s"
    and "keys_of (update_children a f s) = keys_of s" and "grows s (update_children a f s)"
proof -
  show "nodes_wf (update_children a f s)"
    using assms by (force simp: nodes_wf_def update_children_def)
  show "players_of (update_children a f s) = players_of s" "keys_of (update_children a f s) = keys_of s"
    by (simp_all add: update_children_def views)
  show "grows s (update_children a f s)"
    by (rule grows_same_runners) (simp_all add: update_children_def waiting_players_def waiters_of_def)
qed

lemma remove_user_wf:
  assumes "players_wf P s"
  shows "players_wf P (container_remove_user uid s)" and "pending (container_remove_user uid s) \<subseteq> pending s"
    and "keys_of (container_remove_user uid s) = keys_of s" and "nodes_of (container_remove_user uid s) = nodes_of s"
    and "grows s (container_remove_user uid s)"
proof -
  let ?s1 = "container_remove_user uid s"
  show g: "grows s ?s1"
    by (rule grows_same_runners)
      (simp_all add: container_remove_user_def waiting_players_def waiters_of_def split: option.splits)
  show "pending ?s1 \<subseteq> pending s" by (auto simp: pending_def container_remove_user_def split: option.splits if_splits)
  show "keys_of ?s1 = keys_of s" "nodes_of ?s1 = nodes_of s"
    by (simp_all add: container_remove_user_def views split: option.splits)
  from g have "waiting_players ?s1 \<subseteq> waiting_players s" by (simp add: grows_def)
  moreover have "authToken u = t" if "userAuthTokenIndex s t = Some uid" "users s uid = Some u" for t u
    using assms that unfolding players_wf_def by force
  ultimately show "players_wf P ?s1"
    using assms unfolding players_wf_def by (auto simp: container_remove_user_def split: option.splits)
qed

lemma remove_player_ok:
  assumes "remove_player token i s = Inr (r, s1)" and "coordination_wf P s"
  shows "step_ok P s r P s1"
  using assms(1)
proof (cases rule: remove_player_cases)
  case (refused e)
  then show ?thesis using frame_step_ok [OF frame_refl assms(2) order_refl] by simp
next
  case (removed uid u a)
  note r = removed(4) and s1 = removed(5)
  have wf: "nodes_wf s" "players_wf P s" using assms(2) by (simp_all add: coordination_wf_def)
  let ?s0 = "update_children a (removeAll uid) s"
  note c = update_children_wf [OF wf(1), of a "removeAll uid"]
  have "coordination_wf P ?s0" by (rule coordination_wfI [OF assms(2) c(4,3,1) grows_players [OF c(4,2) wf(2)]])
  moreover have "pending ?s0 = pending s" by (simp add: pending_def update_children_def)
  ultimately have s0: "coordination_wf P ?s0" "players_wf P ?s0" "nodes_wf ?s0" "pending ?s0 = pending s"
    by (simp_all add: coordination_wf_def)
  note u = remove_user_wf [OF s0(2), of uid]
  have "coordination_wf P s1" unfolding s1 by (rule coordination_wfI [OF s0(1) u(5,3) grows_nodes [OF u(5,4) s0(3)] u(1)])
  moreover have "pending s1 \<subseteq> pending s" using u(2) s0(4) by (simp add: s1)
  moreover have "childless s1" if "childless s"
  proof -
    from that have "childless ?s0" by (auto simp: childless_def update_children_def ran_def split: if_splits)
    then show ?thesis unfolding s1 childless_nodes [OF u(4)] .
  qed
  ultimately show ?thesis by (simp add: step_ok_def r)
qed

lemma remove_instance_nodes:
  assumes "nodes_wf s" and "instances s iid = Some a"
  shows "nodes_wf (container_remove_instance iid s)"
proof -
  from assms obtain inst where inst: "instanceMemory s a = Some inst" "instanceId inst = iid"
    unfolding nodes_wf_def by blast
  have "b \<noteq> a" if "instances s j = Some b" "j \<noteq> iid" for j b
    using assms(1) inst that unfolding nodes_wf_def by force
  moreover have "instanceId other \<noteq> iid" if "instanceMemory s b = Some other" "b \<noteq> a" for b other
    using assms that unfolding nodes_wf_def by force
  ultimately show ?thesis using assms unfolding nodes_wf_def by (auto simp: container_remove_instance_def)
qed

lemma remove_game_instance_ok:
  assumes "remove_game_instance iid s = Inr (r, s1)" and "coordination_wf P s"
  shows "step_ok P s r P s1"
  using assms(1)
proof (cases rule: remove_game_instance_cases)
  case (refused e)
  then show ?thesis using frame_step_ok [OF frame_refl assms(2) order_refl] by simp
next
  case (removed a i)
  note a = removed(1) and r = removed(2) and s1 = removed(3)
  let ?f = "\<lambda>g. g\<lparr>serverChildren := filter (\<lambda>(j, _). j \<noteq> iid) (serverChildren g)\<rparr>"
  let ?s0 = "update_server i ?f s"
  have f0: "keeps s ?s0" by (rule update_server_frame) simp
  have s0: "coordination_wf P ?s0" "pending ?s0 = pending s" "instances ?s0 iid = Some a"
    using frame_wf [OF f0 assms(2) order_refl] a by (simp_all add: pending_def update_server_def)
  have g: "grows ?s0 s1" by (rule grows_same_runners)
    (simp_all add: s1 container_remove_instance_def waiting_players_def waiters_of_def split: option.splits)
  have "keys_of s1 = keys_of ?s0" "players_of s1 = players_of ?s0"
    by (simp_all add: s1 container_remove_instance_def views split: option.splits)
  moreover from s0(1) have "nodes_wf ?s0" "players_wf P ?s0" by (simp_all add: coordination_wf_def)
  ultimately have "coordination_wf P s1"
    using coordination_wfI [OF s0(1) g] remove_instance_nodes [OF _ s0(3)] grows_players [OF g] s1 by blast
  moreover have "pending s1 = pending s"
    using s0(2) \<open>players_of s1 = players_of ?s0\<close> by (simp add: pending_def players_of_def)
  moreover have "childless s1" if "childless s"
    using that a by (auto simp: s1 childless_def container_remove_instance_def update_server_def ran_def split: if_splits)
  ultimately show ?thesis by (simp add: step_ok_def r)
qed

lemma update_children_coordination_wf:
  assumes "coordination_wf P s"
  shows "coordination_wf P (update_children a f s)"
proof -
  from assms have wf: "nodes_wf s" "players_wf P s" by (simp_all add: coordination_wf_def)
  note c = update_children_wf [OF wf(1), of a f]
  show ?thesis by (rule coordination_wfI [OF assms c(4,3,1) grows_players [OF c(4,2) wf(2)]])
qed

lemma move_user_ok:
  assumes "move_user d uid u s = Inr s1" and "users s uid = Some u" and "coordination_wf P s"
  shows "coordination_wf P s1" and "pending s1 = insert uid (pending s)"
proof -
  let ?u = "u\<lparr>userParent := d, migrating := True\<rparr>"
  from assms(1) obtain f g a b i c where send: "send_command i c ((update_children a f (update_children b g s))
      \<lparr>users := (users (update_children a f (update_children b g s)))(uid \<mapsto> ?u)\<rparr>) = Inr s1"
    by (auto simp: move_user_def and_then_Inr_iff Let_def split: option.splits)
  let ?s2 = "update_children a f (update_children b g s)"
  let ?s3 = "?s2\<lparr>users := (users ?s2)(uid \<mapsto> ?u)\<rparr>"
  have s2: "coordination_wf P ?s2" by (intro update_children_coordination_wf assms(3))
  have u2: "users ?s2 = users s" by (simp add: update_children_def)
  have g: "grows ?s2 ?s3" by (rule grows_same_runners) (simp_all add: waiting_players_def waiters_of_def)
  have same: "keys_of ?s3 = keys_of ?s2" "nodes_of ?s3 = nodes_of ?s2" by (simp_all add: views)
  have wf2: "nodes_wf ?s2" "players_wf P ?s2" using s2 by (simp_all add: coordination_wf_def)
  have "users ?s2 uid = Some u" using assms(2) u2 by simp
  then have "players_wf P ?s3" by (rule update_user_wf [OF wf2(2)]) (simp_all add: describes_def)
  then have s3: "coordination_wf P ?s3" by (rule coordination_wfI [OF s2 g same(1) grows_nodes [OF g same(2) wf2(1)]])
  have f: "keeps ?s3 s1" by (rule send_command_frame [OF send])
  show "coordination_wf P s1" by (rule frame_wf [OF f s3 order_refl])
  have "users s1 = users ?s3" using f by (simp add: keeps_def players_of_def)
  then show "pending s1 = insert uid (pending s)" by (auto simp: pending_def u2)
qed

lemma move_users_ok:
  "move_users d uids s = Inr (us, s1) \<Longrightarrow> coordination_wf P s
    \<Longrightarrow> coordination_wf P s1 \<and> pending s1 = pending s \<union> set us \<and> (us = [] \<longrightarrow> s1 = s)"
proof (induction uids arbitrary: s us s1)
  case (Cons uid uids)
  show ?case
  proof (cases "users s uid")
    case None
    with Cons.prems Cons.IH show ?thesis by simp
  next
    case (Some u)
    with Cons.prems(1) obtain s2 rest where s2: "move_user d uid u s = Inr s2"
      "move_users d uids s2 = Inr (rest, s1)" "us = uid # rest"
      by (auto simp: and_then_Inr_iff)
    note m = move_user_ok [OF s2(1) Some Cons.prems(2)]
    from Cons.IH [OF s2(2) m(1)] m(2) s2(3) show ?thesis by auto
  qed
qed simp

lemma resume_dungeon_ok:
  assumes "resume_dungeon g iid success s = Inr (r, s1)" and "coordination_wf P s"
  shows "step_ok P s r P s1"
proof (cases success)
  case False
  with assms(1) obtain m where s1: "s1 = s\<lparr>dungeonMatch := m\<rparr>" and r: "r = Finished"
    by (auto simp: resume_dungeon_def Let_def)
  have "keeps s s1" by (rule frame_other_fields) (simp_all add: s1 views)
  then show ?thesis by (rule frame_step_ok [OF _ assms(2) order_refl]) (simp_all add: r)
next
  case True
  with assms(1) obtain us s2 m where s2: "move_users (instances s iid) (map fst (group_users g)) s = Inr (us, s2)"
    and s1: "s1 = s2\<lparr>dungeonMatch := m\<rparr>" and r: "r = UsersMoved us"
    by (auto simp: resume_dungeon_def Let_def and_then_Inr_iff)
  note m = move_users_ok [OF s2 assms(2)]
  have f: "keeps s2 s1" by (rule frame_other_fields) (simp_all add: s1 views)
  have "coordination_wf P s1" using frame_wf [OF f _ order_refl] m by blast
  moreover have "pending s1 = pending s2" "childless s1 = childless s2" by (simp_all add: s1 pending_def childless_def)
  ultimately show ?thesis using m by (simp add: step_ok_def r)
qed

lemma resume_waiter_ok:
  assumes "resume_waiter k s = Inr (r, s1)" and "coordination_wf P s"
  shows "step_ok P s r P s1"
proof (cases "k < length (resumable s)")
  case False
  with assms show ?thesis using frame_step_ok [OF frame_refl assms(2) order_refl] by (simp add: resume_waiter_def)
next
  case True
  let ?s0 = "s\<lparr>resumable := take k (resumable s) @ drop (Suc k) (resumable s)\<rparr>"
  obtain w success where w: "resumable s ! k = (w, success)" by fastforce
  have "set (resumable ?s0) \<subseteq> set (resumable s)" using set_take_subset set_drop_subset by fastforce
  then have "waiters_of ?s0 \<subseteq> waiters_of s" by (auto simp: waiters_of_def)
  then have "grows s ?s0" by (intro grows_same_runners waiting_players_mono) auto
  then have f: "keeps s ?s0" by (simp add: keeps_def views)
  have s0: "coordination_wf P ?s0" by (rule frame_wf [OF f assms(2) order_refl])
  have "step_ok P ?s0 r P s1"
  proof (cases w)
    case (AddPlayerWaits p i iid)
    have "w \<in> waiters_of s" using True w by (force simp: waiters_of_def in_set_conv_nth)
    with AddPlayerWaits have "p \<in> waiting_players s" by (auto simp: waiting_players_def)
    with assms(2) have "p \<in> P" unfolding coordination_wf_def players_wf_def by blast
    with assms(1) True w AddPlayerWaits show ?thesis
      using resume_add_player_ok [OF _ s0] by (simp add: resume_waiter_def)
  next
    case (DungeonWaits g iid)
    with assms(1) True w show ?thesis using resume_dungeon_ok [OF _ s0] by (simp add: resume_waiter_def)
  qed
  moreover have "pending ?s0 = pending s" "childless ?s0 = childless s" by (simp_all add: pending_def childless_def)
  ultimately show ?thesis by (simp add: step_ok_def)
qed

fun authenticated_by :: "coordination_event \<Rightarrow> add_player_param set" where
  "authenticated_by (AddPlayer p answer) = (if auth_errorCode answer = None then {p} else {})"
| "authenticated_by _ = {}"

lemma step_ok_mono: "step_ok P s r Q s1 \<Longrightarrow> Q \<subseteq> R \<Longrightarrow> step_ok P s r R s1"
  using players_wf_mono by (auto simp: step_ok_def coordination_wf_def)

lemma match_request_ok:
  assumes "for_game_user act token iid i s = Inr (r, s1)" and "\<And>uid b s2. act uid s = Inr (b, s2) \<Longrightarrow> keeps s s2"
    and "coordination_wf P s"
  shows "step_ok P s r P s1"
proof -
  have "keeps s s1" by (rule for_game_user_frame(1) [OF assms(1)]) (rule assms(2))
  moreover have "r = Finished \<or> r = Refused CoordinationErrorInternalError"
    by (rule for_game_user_frame(2) [OF assms(1)]) (rule assms(2))
  ultimately show ?thesis using frame_step_ok [OF _ assms(3) order_refl] by auto
qed

lemma key_step_ok:
  assumes "keys_wf (keys_of s1)" and "nodes_of s1 = nodes_of s" and "players_of s1 = players_of s" and "grows s s1"
    and "coordination_wf P s" and "let_in r = {}"
  shows "step_ok P s r P s1"
proof -
  have "pending s1 = pending s" using assms(3) by (simp add: players_of_def pending_def)
  moreover have "coordination_wf P s1"
    using assms grows_runners [OF assms(4)] grows_nodes [OF assms(4,2)] grows_players [OF assms(4,3)]
    by (simp add: coordination_wf_def)
  ultimately show ?thesis using assms(6) childless_nodes [OF assms(2)] by (auto simp: step_ok_def)
qed

lemma request_key_ok:
  assumes "coordination_wf P s"
  shows "step_ok P s (fst (request_snowflake_key q s)) P (snd (request_snowflake_key q s))"
proof (rule key_step_ok)
  show "grows s (snd (request_snowflake_key q s))"
    by (rule grows_same_runners)
      (auto simp: request_snowflake_key_def publish_snowflake_key_def waiting_players_def waiters_of_def Let_def
        split: list.splits)
qed (use assms request_key_wf in \<open>auto simp: coordination_wf_def request_snowflake_key_def publish_snowflake_key_def
      nodes_of_def players_of_def Let_def split: list.splits\<close>)

lemma return_key_ok:
  assumes "coordination_wf P s"
  shows "step_ok P s (fst (return_snowflake_key q k s)) P (snd (return_snowflake_key q k s))"
proof (rule key_step_ok)
  show "grows s (snd (return_snowflake_key q k s))"
    by (rule grows_same_runners) (auto simp: return_snowflake_key_def waiting_players_def waiters_of_def)
qed (use assms return_key_wf in \<open>auto simp: coordination_wf_def return_snowflake_key_def nodes_of_def players_of_def\<close>)

lemma channel_response_ok:
  assumes "channel_response k rid resp s = Inr (r, s1)" and "coordination_wf P s"
  shows "step_ok P s r P s1"
proof (cases "s1 = s")
  case True
  with assms(1) have "r = Finished" by (auto simp: channel_response_def and_then_Inr_iff split: if_splits)
  with True show ?thesis using frame_step_ok [OF frame_refl assms(2) order_refl] by simp
next
  case False
  with assms(1) have r: "r = Finished" and k: "k < length (runners s)" and run: "run_response k rid resp s = Inr s1"
    by (auto simp: channel_response_def and_then_Inr_iff split: if_splits)
  note ok = run_response_wf [OF run k assms(2)]
  then have "pending s1 = pending s" by (simp add: players_of_def pending_def)
  with ok r show ?thesis by (simp add: step_ok_def)
qed

lemma coordination_step_ok:
  assumes "coordination_step e s = Inr (r, s1)" and "coordination_wf P s"
  shows "step_ok P s r (P \<union> authenticated_by e) s1"
proof -
  have keeps: "keeps s s1 \<Longrightarrow> let_in r = {} \<Longrightarrow> admitted r = {} \<Longrightarrow> step_ok P s r P s1"
    by (rule frame_step_ok [OF _ assms(2) order_refl])
  have "authenticated_by e = {} \<Longrightarrow> step_ok P s r P s1"
  proof (cases e)
    case (RegisterServer name ip port)
    with assms(1) register_server_frame [of s name ip port] show ?thesis
      by (intro keeps) (auto simp: register_server_def Let_def split: if_splits)
  next
    case (UpdateServerStatus i st)
    with assms(1) show ?thesis
      by (intro keeps frame_other_fields) (auto simp: update_server_status_def views)
  next
    case OpenChannel
    with assms(1) have s1: "s1 = open_channel s" and r: "r = Finished" by simp_all
    have "grows s s1" by (auto simp: grows_def s1 open_channel_def waiting_players_def waiters_of_def)
    then show ?thesis by (intro keeps) (auto simp: keeps_def s1 open_channel_def views r)
  next
    case (CloseChannel k)
    with assms(1) show ?thesis by (intro keeps) (auto simp: update_runner_frame split: if_splits)
  next
    case (RequestSnowflakeKey q)
    with assms(1) request_key_ok [OF assms(2), of q] show ?thesis by simp
  next
    case (ReturnSnowflakeKey q k)
    with assms(1) return_key_ok [OF assms(2), of q k] show ?thesis by simp
  next
    case (BroadcastChat message token iid i)
    with assms(1) show ?thesis
      by (auto simp: broadcast_chatting_def and_then_Inr_iff intro!: match_request_ok [OF _ _ assms(2)] dest: send_to_all_frame)
  next
    case MatchTick
    with assms(1) show ?thesis
      by (intro keeps) (auto simp: match_tick_def and_then_Inr_iff dest: via_match_frame)
  next
    case (AddPlayer p auth)
    moreover assume "authenticated_by e = {}"
    ultimately show ?thesis using assms(1) add_player_ok [OF _ assms(2), of p auth] by (simp split: if_splits)
  qed (use assms in \<open>auto simp: request_dungeon_match_def cancel_dungeon_match_def approve_dungeon_match_def
        reject_dungeon_match_def intro: match_request_ok via_match_frame authenticate_player_ok remove_player_ok
        remove_game_instance_ok resume_waiter_ok channel_response_ok\<close>)
  then show ?thesis
  proof (cases "authenticated_by e = {}")
    case False
    then obtain p answer where "e = AddPlayer p answer" by (cases e rule: authenticated_by.cases) simp_all
    with assms add_player_ok [of p answer s r s1 P] show ?thesis by simp
  qed simp
qed

lemma coordination_run_wf:
  "coordination_run es s = Inr (tr, s1) \<Longrightarrow> coordination_wf P s
    \<Longrightarrow> coordination_wf (P \<union> (\<Union>e \<in> set es. authenticated_by e)) s1"
proof (induction es arbitrary: s tr P)
  case (Cons e es)
  from Cons.prems(1) obtain r s2 tr2 where s2: "coordination_step e s = Inr (r, s2)" "coordination_run es s2 = Inr (tr2, s1)"
    by (auto simp: and_then_Inr_iff)
  have "coordination_wf (P \<union> authenticated_by e) s2"
    using coordination_step_ok [OF s2(1) Cons.prems(2)] by (simp add: step_ok_def)
  from Cons.IH [OF s2(2) this] show ?case by (simp add: Un_assoc)
qed simp


subsection \<open>Properties\<close>

lemma coordination_run_new:
  "coordination_run es coordination_new = Inr (tr, s)
    \<Longrightarrow> coordination_wf (\<Union>e \<in> set es. authenticated_by e) s"
  using coordination_run_wf [OF _ coordination_new_wf] by simp

text \<open>
  C23: The service never has a key of the id generators out twice: in every run the keys that are out and those that
  were returned are all distinct, and none is above the number of keys.
\<close>

theorem snowflake_keys_out_once:
  assumes "coordination_run es coordination_new = Inr (tr, s)"
  shows "distinct (map snd (publishedSnowflakeKeys s) @ returnedSnowflakeKeys s)
    \<and> list_all (\<lambda>k. 0 \<le> k \<and> k \<le> 1024) (map snd (publishedSnowflakeKeys s) @ returnedSnowflakeKeys s)"
proof -
  have "keys_wf (keys_of s)" using coordination_run_new [OF assms] by (simp add: coordination_wf_def)
  moreover have "max_snowflake_key = 1024" by (simp add: max_snowflake_key_def bit_widths)
  ultimately show ?thesis by (auto simp: keys_wf_def keys_of_def list_all_iff)
qed

text \<open>Keys that are requested, returned, and requested again.\<close>

theorem snowflake_keys_out_once_witness:
  "\<exists>tr s. coordination_run [RequestSnowflakeKey ''a'', RequestSnowflakeKey ''b'', ReturnSnowflakeKey ''a'' 0]
      coordination_new = Inr (tr, s) \<and> publishedSnowflakeKeys s = [(''b'', 1)] \<and> returnedSnowflakeKeys s = [0]
      \<and> distinct (map snd (publishedSnowflakeKeys s) @ returnedSnowflakeKeys s)"
proof -
  have "\<exists>tr s. coordination_run [RequestSnowflakeKey ''a'', RequestSnowflakeKey ''b'', ReturnSnowflakeKey ''a'' 0]
      coordination_new = Inr (tr, s) \<and> publishedSnowflakeKeys s = [(''b'', 1)] \<and> returnedSnowflakeKeys s = [0]"
    by (simp add: request_snowflake_key_def publish_snowflake_key_def return_snowflake_key_def coordination_new_def
        max_snowflake_key_def bit_widths)
  with snowflake_keys_out_once show ?thesis by blast
qed

lemma coordination_run_append:
  "coordination_run (es @ fs) s =
    and_then (coordination_run es s) (\<lambda>(tr, s1). and_then (coordination_run fs s1) (\<lambda>(tr2, s2). Inr (tr @ tr2, s2)))"
  by (induction es arbitrary: s) (auto simp: and_then_def split: sum.splits)

lemma first_keys:
  "n \<le> 1025 \<Longrightarrow> \<exists>tr s. coordination_run (replicate n (RequestSnowflakeKey q)) coordination_new = Inr (tr, s)
    \<and> nextSnowflake s = int n \<and> publishedSnowflakeKeys s = map (\<lambda>k. (q, int k)) [0..<n]"
proof (induction n)
  case 0
  then show ?case by (simp add: coordination_new_def)
next
  case (Suc n)
  then obtain tr s where s: "coordination_run (replicate n (RequestSnowflakeKey q)) coordination_new = Inr (tr, s)"
    "nextSnowflake s = int n" "publishedSnowflakeKeys s = map (\<lambda>k. (q, int k)) [0..<n]" by auto
  have "replicate (Suc n) (RequestSnowflakeKey q) = replicate n (RequestSnowflakeKey q) @ [RequestSnowflakeKey q]"
    by (simp add: replicate_append_same)
  moreover from Suc.prems have "int n \<le> max_snowflake_key" by (simp add: max_snowflake_key_def bit_widths)
  ultimately show ?case using s
    by (simp add: coordination_run_append request_snowflake_key_def publish_snowflake_key_def Let_def del: replicate.simps)
qed

text \<open>
  The pool has one key too many. The server that is given the last of the 1025 keys generates exactly the ids of
  the one that was given the first: for any epoch and any readings of the clock their runs are the same.
\<close>

theorem last_key_repeats_first:
  "\<exists>tr s. coordination_run (replicate 1025 (RequestSnowflakeKey q)) coordination_new = Inr (tr, s)
     \<and> {(q, 0), (q, 1024)} \<subseteq> set (publishedSnowflakeKeys s)
     \<and> generate_many n (generate epoch) (snowflake_of_key 1024) clock
       = generate_many n (generate epoch) (snowflake_of_key 0) clock"
proof -
  obtain tr s where "coordination_run (replicate 1025 (RequestSnowflakeKey q)) coordination_new = Inr (tr, s)"
    and keys: "publishedSnowflakeKeys s = map (\<lambda>k. (q, int k)) [0..<1025]"
    using first_keys [of 1025 q] by auto
  moreover have "{(q, 0), (q, 1024)} \<subseteq> set (publishedSnowflakeKeys s)"
    unfolding keys by (auto simp: image_iff intro: bexI [of _ 0] bexI [of _ 1024])
  moreover have "snowflake_of_key 1024 = snowflake_of_key 0"
    by (simp add: snowflake_of_key_def bit_widths)
  ultimately show ?thesis by auto
qed

text \<open>The run in which the login service answers with another account every time.\<close>

definition with_account :: "int \<Rightarrow> coordination_event \<Rightarrow> coordination_event" where
  "with_account n e = (case e of AddPlayer p answer \<Rightarrow> AddPlayer p (answer\<lparr>auth_accountId := n\<rparr>) | _ \<Rightarrow> e)"

lemma with_account_step: "coordination_step (with_account n e) s = coordination_step e s"
  by (cases e) (simp_all add: with_account_def add_player_def)

lemma with_account_run:
  "coordination_run es s = Inr (tr, s1) \<Longrightarrow>
    coordination_run (map (with_account n) es) s = Inr (map (\<lambda>(e, r). (with_account n e, r)) tr, s1)"
proof (induction es arbitrary: s tr)
  case (Cons e es)
  from Cons.prems obtain r s2 tr2 where s2: "coordination_step e s = Inr (r, s2)"
    "coordination_run es s2 = Inr (tr2, s1)" and tr: "tr = (e, r) # tr2"
    by (auto simp: and_then_Inr_iff)
  from Cons.IH [OF s2(2)] s2(1) show ?case by (simp add: tr with_account_step)
qed simp

text \<open>
  C20: A game server is told to let a player in only as the account and the character that an earlier \<^verbatim>\<open>AddPlayerAsync\<close>
  named with the same token, which the login service accepted then. Nothing else speaks for the account: the service does
  not look at the account that the login service answers with, so that every run goes the same way, and the same player is
  let in, when that account is any other one.
\<close>

theorem player_let_in_as_admitted:
  assumes "coordination_run es coordination_new = Inr (tr, s)"
    and "authenticate_player token i s = Inr (PlayerAuthenticated account character iid uid, s1)"
  shows "(\<exists>p answer. AddPlayer p answer \<in> set es \<and> auth_errorCode answer = None
      \<and> p_token p = token \<and> p_accountId p = account \<and> p_characterId p = character)
    \<and> coordination_run (map (with_account n) es) coordination_new = Inr (map (\<lambda>(e, r). (with_account n e, r)) tr, s)"
  using assms(2)
proof (cases rule: authenticate_player_cases)
  case (let_in uid' u inst)
  have "players_wf (\<Union>e \<in> set es. authenticated_by e) s"
    using coordination_run_new [OF assms(1)] by (simp add: coordination_wf_def)
  with let_in(1,2) obtain e p where e: "e \<in> set es" "p \<in> authenticated_by e" "describes p u" "authToken u = token"
    unfolding players_wf_def by (metis UN_E option.inject)
  then obtain answer where "e = AddPlayer p answer" "auth_errorCode answer = None"
    by (cases e rule: authenticated_by.cases) (auto split: if_splits)
  with e let_in(6) with_account_run [OF assms(1)] show ?thesis by (auto simp: describes_def)
qed simp

lemma let_in_counts:
  "coordination_run es s = Inr (tr, s1) \<Longrightarrow> coordination_wf P s \<Longrightarrow>
    length (filter (\<lambda>(e, r). uid \<in> let_in r) tr) + of_bool (uid \<in> pending s1)
      \<le> of_bool (uid \<in> pending s) + length (filter (\<lambda>(e, r). uid \<in> admitted r) tr)"
proof (induction es arbitrary: s tr P)
  case (Cons e es)
  from Cons.prems(1) obtain r s2 tr2 where s2: "coordination_step e s = Inr (r, s2)"
    "coordination_run es s2 = Inr (tr2, s1)" and tr: "tr = (e, r) # tr2"
    by (auto simp: and_then_Inr_iff)
  note ok = coordination_step_ok [OF s2(1) Cons.prems(2)]
  then have "coordination_wf (P \<union> authenticated_by e) s2" by (simp add: step_ok_def)
  note IH = Cons.IH [OF s2(2) this]
  from ok have "let_in r \<subseteq> pending s" "pending s2 \<subseteq> pending s - let_in r \<union> admitted r"
    by (simp_all add: step_ok_def)
  then have "of_bool (uid \<in> let_in r) + of_bool (uid \<in> pending s2)
      \<le> (of_bool (uid \<in> pending s) :: nat) + of_bool (uid \<in> admitted r)"
    by (auto split: if_splits)
  with IH show ?case by (auto simp: tr of_bool_def split: if_splits)
qed simp

text \<open>
  C19: A player is let in at most once per admission: in every run a user is authenticated at most as often as it was
  added by the lobby or moved to a dungeon.
\<close>

theorem player_let_in_once_per_admission:
  assumes "coordination_run es coordination_new = Inr (tr, s)"
  shows "length (filter (\<lambda>(e, r). uid \<in> let_in r) tr) \<le> length (filter (\<lambda>(e, r). uid \<in> admitted r) tr)"
proof -
  have "uid \<notin> pending coordination_new" by (simp add: pending_def coordination_new_def)
  with let_in_counts [OF assms coordination_new_wf, of uid] show ?thesis by simp
qed




text \<open>A player is added to a server that has to launch an instance first, and then let in: as account 7, which the
  request names, although the login service has answered with account 9.\<close>

definition sample_param :: add_player_param where
  "sample_param = \<lparr>p_token = ''t'', p_accountId = 7, p_characterId = 8, p_zoneId = 3\<rparr>"

definition sample_answer :: "int \<Rightarrow> authenticate_result" where
  "sample_answer n = \<lparr>auth_errorCode = None, auth_accountId = n\<rparr>"

definition sample_admission :: "coordination_event list" where
  "sample_admission =
     [RegisterServer ''game'' ''h'' 9000, OpenChannel, ChannelResponse 0 0 (RespAuthenticate (Some 1)),
      AddPlayer sample_param (sample_answer 9), ChannelResponse 0 1 (RespLaunch (Some (1, 3))), ResumeWaiter 0]"

lemma sample_admission_run:
  "case coordination_run sample_admission coordination_new of Inl _ \<Rightarrow> False
    | Inr (tr, s) \<Rightarrow>
        list_all (\<lambda>(e, r). moved r = {}) tr \<and> userAuthTokenIndex s ''t'' = Some 1
        \<and> (case users s 1 of None \<Rightarrow> False | Some u \<Rightarrow> userParent u = Some 0 \<and> migrating u) \<and> instances s 1 = Some 0"
  by code_simp

lemma sample_admission_let_in:
  "case coordination_run sample_admission coordination_new of Inl _ \<Rightarrow> False
    | Inr (tr, s) \<Rightarrow>
        (case authenticate_player ''t'' 1 s of Inl _ \<Rightarrow> False | Inr (r, _) \<Rightarrow> r = PlayerAuthenticated 7 8 1 1)"
  by code_simp


theorem player_let_in_as_admitted_witness:
  "(\<exists>p answer. AddPlayer p answer \<in> set sample_admission \<and> auth_errorCode answer = None
      \<and> p_token p = ''t'' \<and> p_accountId p = 7 \<and> p_characterId p = 8)
    \<and> (\<exists>tr s s1. coordination_run (map (with_account 10) sample_admission) coordination_new = Inr (tr, s)
      \<and> authenticate_player ''t'' 1 s = Inr (PlayerAuthenticated 7 8 1 1, s1))"
proof -
  obtain tr s where s: "coordination_run sample_admission coordination_new = Inr (tr, s)"
    using sample_admission_run by (cases "coordination_run sample_admission coordination_new") auto
  with sample_admission_let_in obtain s1 where s1: "authenticate_player ''t'' 1 s = Inr (PlayerAuthenticated 7 8 1 1, s1)"
    by (cases "authenticate_player ''t'' 1 s") auto
  from player_let_in_as_admitted [OF s s1, of 10] s1 show ?thesis by blast
qed

text \<open>The player is let in, and refused the second time.\<close>

lemma sample_twice_run:
  "case coordination_run (sample_admission @ [AuthenticatePlayer ''t'' 1, AuthenticatePlayer ''t'' 1]) coordination_new of
     Inl _ \<Rightarrow> False
   | Inr (tr, s) \<Rightarrow> length (filter (\<lambda>(e, r). 1 \<in> let_in r) tr) = 1"
  by code_simp

theorem player_let_in_once_per_admission_witness:
  "\<exists>tr s. coordination_run (sample_admission @ [AuthenticatePlayer ''t'' 1, AuthenticatePlayer ''t'' 1]) coordination_new
       = Inr (tr, s)
     \<and> 1 \<le> length (filter (\<lambda>(e, r). 1 \<in> admitted r) tr)"
proof -
  from sample_twice_run obtain tr s where s: "coordination_run (sample_admission @
      [AuthenticatePlayer ''t'' 1, AuthenticatePlayer ''t'' 1]) coordination_new = Inr (tr, s)"
    "length (filter (\<lambda>(e, r). 1 \<in> let_in r) tr) = 1"
    by (auto simp del: coordination_run.simps split: sum.splits)
  from player_let_in_once_per_admission [OF s(1), of 1] s show ?thesis by auto
qed

end
