(* ===== verification/RpcMessages.thy ===== *)
theory RpcMessages
  imports Framing
begin

text \<open>
  \<^verbatim>\<open>xr/network/model/generated/rpc_message.{h,cpp}\<close>, the messages between the processes of the back end and
  the server that relays their remote calls, and \<^verbatim>\<open>RPCPacket::ToBuffer\<close>. Ids are 64-bit words, strings their bytes.
  The theory proves that every message is read back, and interprets the locale of the receive loop on the protocol.
\<close>

type_synonym rpc_id = "64 word"
type_synonym text_bytes = "byte list"

text \<open>The codes of \<^verbatim>\<open>RemoteProcedureCallErrorCode\<close>.\<close>

definition RpcErrorNone :: "32 word" where "RpcErrorNone = 0"
definition RpcErrorInternalError :: "32 word" where "RpcErrorInternalError = 1"
definition RpcErrorDuplicatedServiceName :: "32 word" where "RpcErrorDuplicatedServiceName = 10001"
definition RpcErrorInvalidRpcName :: "32 word" where "RpcErrorInvalidRpcName = 20002"
definition RpcErrorStreamingClosedGracefully :: "32 word" where "RpcErrorStreamingClosedGracefully = 300001"
definition RpcErrorStreamingClosedByServer :: "32 word" where "RpcErrorStreamingClosedByServer = 300003"

datatype rpc_message =
    RequestRegisterRPCClient text_bytes
  | ResultRegisterRPCClient "32 word" text_bytes
  | RequestRemoteProcedureCall rpc_id text_bytes text_bytes text_bytes
  | ResultRemoteProcedureCall "32 word" rpc_id text_bytes text_bytes text_bytes
  | SendServerStreaming rpc_id text_bytes text_bytes
  | SendClientSteaming rpc_id text_bytes text_bytes
  | AbortClientStreamingRPC rpc_id text_bytes
  | NotifySnowflake "32 word"

fun rpc_opcode :: "rpc_message \<Rightarrow> 32 word" where
  "rpc_opcode (RequestRegisterRPCClient _) = 1"
| "rpc_opcode (ResultRegisterRPCClient _ _) = 2"
| "rpc_opcode (RequestRemoteProcedureCall _ _ _ _) = 3"
| "rpc_opcode (ResultRemoteProcedureCall _ _ _ _ _) = 4"
| "rpc_opcode (SendServerStreaming _ _ _) = 5"
| "rpc_opcode (SendClientSteaming _ _ _) = 6"
| "rpc_opcode (AbortClientStreamingRPC _ _) = 7"
| "rpc_opcode (NotifySnowflake _) = 8"

fun rpc_serialize :: "rpc_message \<Rightarrow> byte list \<Rightarrow> byte list" where
  "rpc_serialize (RequestRegisterRPCClient service) buf = packet_write_string service buf"
| "rpc_serialize (ResultRegisterRPCClient code service) buf =
     packet_write_string service (packet_write_word code buf)"
| "rpc_serialize (RequestRemoteProcedureCall i service rpc param) buf =
     packet_write_string param (packet_write_string rpc (packet_write_string service (packet_write_word i buf)))"
| "rpc_serialize (ResultRemoteProcedureCall code i service rpc result) buf =
     packet_write_string result
       (packet_write_string rpc (packet_write_string service (packet_write_word i (packet_write_word code buf))))"
| "rpc_serialize (SendServerStreaming i service result) buf =
     packet_write_string result (packet_write_string service (packet_write_word i buf))"
| "rpc_serialize (SendClientSteaming i service param) buf =
     packet_write_string param (packet_write_string service (packet_write_word i buf))"
| "rpc_serialize (AbortClientStreamingRPC i service) buf =
     packet_write_string service (packet_write_word i buf)"
| "rpc_serialize (NotifySnowflake v) buf = packet_write_word v buf"

definition rpc_create_from ::
  "('i \<Rightarrow> fault + byte) \<Rightarrow> ('i \<Rightarrow> fault + 'i) \<Rightarrow> 'i stream_reader
     \<Rightarrow> fault + (rpc_message option \<times> 'i stream_reader)" where
  "rpc_create_from star inc =
     read_then (read_word star inc) (\<lambda>opcode :: 16 word.
       if opcode = 1 then
         read_then (packet_read_string star inc) (\<lambda>s. read_return (Some (RequestRegisterRPCClient s)))
       else if opcode = 2 then
         read_then (read_word star inc) (\<lambda>code.
         read_then (packet_read_string star inc) (\<lambda>s. read_return (Some (ResultRegisterRPCClient code s))))
       else if opcode = 3 then
         read_then (read_word star inc) (\<lambda>i.
         read_then (packet_read_string star inc) (\<lambda>s.
         read_then (packet_read_string star inc) (\<lambda>r.
         read_then (packet_read_string star inc) (\<lambda>p. read_return (Some (RequestRemoteProcedureCall i s r p))))))
       else if opcode = 4 then
         read_then (read_word star inc) (\<lambda>code.
         read_then (read_word star inc) (\<lambda>i.
         read_then (packet_read_string star inc) (\<lambda>s.
         read_then (packet_read_string star inc) (\<lambda>r.
         read_then (packet_read_string star inc) (\<lambda>p. read_return (Some (ResultRemoteProcedureCall code i s r p)))))))
       else if opcode = 5 then
         read_then (read_word star inc) (\<lambda>i.
         read_then (packet_read_string star inc) (\<lambda>s.
         read_then (packet_read_string star inc) (\<lambda>p. read_return (Some (SendServerStreaming i s p)))))
       else if opcode = 6 then
         read_then (read_word star inc) (\<lambda>i.
         read_then (packet_read_string star inc) (\<lambda>s.
         read_then (packet_read_string star inc) (\<lambda>p. read_return (Some (SendClientSteaming i s p)))))
       else if opcode = 7 then
         read_then (read_word star inc) (\<lambda>i.
         read_then (packet_read_string star inc) (\<lambda>s. read_return (Some (AbortClientStreamingRPC i s))))
       else if opcode = 8 then
         read_then (read_word star inc) (\<lambda>v. read_return (Some (NotifySnowflake v)))
       else read_return None)"

text \<open>The messages whose strings the wire keeps.\<close>

fun rpc_ok :: "rpc_message \<Rightarrow> bool" where
  "rpc_ok (RequestRegisterRPCClient s) \<longleftrightarrow> string_ok s"
| "rpc_ok (ResultRegisterRPCClient _ s) \<longleftrightarrow> string_ok s"
| "rpc_ok (RequestRemoteProcedureCall _ s r p) \<longleftrightarrow> string_ok s \<and> string_ok r \<and> string_ok p"
| "rpc_ok (ResultRemoteProcedureCall _ _ s r p) \<longleftrightarrow> string_ok s \<and> string_ok r \<and> string_ok p"
| "rpc_ok (SendServerStreaming _ s p) \<longleftrightarrow> string_ok s \<and> string_ok p"
| "rpc_ok (SendClientSteaming _ s p) \<longleftrightarrow> string_ok s \<and> string_ok p"
| "rpc_ok (AbortClientStreamingRPC _ s) \<longleftrightarrow> string_ok s"
| "rpc_ok (NotifySnowflake _) \<longleftrightarrow> True"

abbreviation rpc_packet :: "rpc_message \<Rightarrow> byte list" where
  "rpc_packet m \<equiv> packet_to_buffer m rpc_opcode rpc_serialize"

definition rpc_create ::
  "heap \<Rightarrow> buffer_iterator stream_reader \<Rightarrow> fault + (rpc_message option \<times> buffer_iterator stream_reader)" where
  "rpc_create h = rpc_create_from (iterator_deref h) iterator_next"

context byte_iterator
begin

lemma rpc_parses:
  assumes "rpc_ok m"
  shows "parses (rpc_create_from star inc) (Some m)
    (word_bytes (ucast (rpc_opcode m) :: 16 word) @ rpc_serialize m [])"
  unfolding rpc_create_from_def
proof (rule parses_then [OF parses_int(1)], goal_cases)
  case 1
  note eqs = packet_write_word_def packet_write_string_append [of _ "_ @ _"] packet_write_string_append [of _ "word_bytes _"]
  show ?case
    using assms
    by (cases m; simp add: eqs; (elim conjE)?)
      (rule parses_map parses_then parses_int parses_string | assumption)+
qed

end

interpretation rpc_packets: packet_protocol rpc_create rpc_packet
  "\<lambda>m. rpc_ok m \<and> length (rpc_packet m) < 2 ^ 31"
proof (unfold_locales, goal_cases)
  case (1 m)
  then show ?case by (intro packet_header(1)) simp
next
  case (2 m h r after)
  then have "rpc_ok m" and "iterator_rest h (r_iter r)
      = (word_bytes (ucast (rpc_opcode m) :: 16 word) @ rpc_serialize m []) @ after"
    using packet_header(2) [of m rpc_opcode rpc_serialize] by simp_all
  with buffer_it.rpc_parses [of m h] 2(2) show ?case
    unfolding buffer_it.parses_def rpc_create_def by blast
qed

end
