(* ===== verification/Rpc.thy ===== *)
theory Rpc
  imports RpcMessages "HOL-Library.Multiset"
begin

text \<open>
  Remote calls, \<^verbatim>\<open>xr/network/rpc\<close>: \<^verbatim>\<open>RPCClient\<close> runs in every process of the back end and \<^verbatim>\<open>RPCServer\<close>
  relays between them. The state is the server, the clients, and the links between them, each a queue of messages; what
  a coroutine of a client holds while it is suspended is an element of \<open>uploads\<close> (a caller that forwards a stream) or
  \<open>executions\<close> (a provider that serves a request). A step is what runs on a strand between two suspensions. The rpc
  ids are chosen by the events; the callers take them from the generators of \<open>Snowflake\<close>.

  \<open>requested\<close>, \<open>provided\<close> and \<open>callbacks\<close> are histories that no step reads: the requests sent, what was made for
  each call by its provider (or by the server), and the invocations of the callbacks of each call.
\<close>

subsection \<open>The state\<close>

datatype procedure_kind = Unary | ServerStreaming | ClientStreaming | ClientServerStreaming

fun returns_stream :: "procedure_kind \<Rightarrow> bool" where
  "returns_stream ServerStreaming \<longleftrightarrow> True"
| "returns_stream ClientServerStreaming \<longleftrightarrow> True"
| "returns_stream _ \<longleftrightarrow> False"

fun takes_stream :: "procedure_kind \<Rightarrow> bool" where
  "takes_stream ClientStreaming \<longleftrightarrow> True"
| "takes_stream ClientServerStreaming \<longleftrightarrow> True"
| "takes_stream _ \<longleftrightarrow> False"

text \<open>What the two callbacks of a call change: the promise of its future, or the channel of its results.\<close>

datatype call_outcome = Resolved text_bytes | Rejected "32 word" | StreamClosed | StreamFailed "32 word"

record rpc_call =
  call_kind :: procedure_kind
  input_open :: bool
  result_open :: bool
  result_items :: "text_bytes list"
  call_outcome :: "call_outcome option"

text \<open>The pair of callbacks of a call, as far as they are set.\<close>

record remote_procedure =
  on_streaming :: bool
  on_completion :: bool

text \<open>\<open>connected\<close>: \<^verbatim>\<open>ConnectAsync\<close> has connected; \<open>receiving\<close>: \<^verbatim>\<open>Run\<close> is in its loop.\<close>

record rpc_client =
  connected :: bool
  receiving :: bool
  snowflake_value :: "32 word option"
  registers :: "text_bytes set"
  registrations :: "(text_bytes \<times> bool) list"
  procedures :: "text_bytes \<rightharpoonup> procedure_kind"
  running_streams :: "rpc_id \<rightharpoonup> nat"
  remoteProcedures :: "text_bytes \<times> rpc_id \<rightharpoonup> remote_procedure"
  calls :: "rpc_id \<rightharpoonup> rpc_call"

record rpc_server =
  sessions :: "text_bytes \<rightharpoonup> nat"
  sessionServiceLists :: "(nat \<times> text_bytes) list"
  nextSnowFlakeValue :: "32 word"
  pendingRPCs :: "rpc_id \<rightharpoonup> nat"

datatype link = Up nat | Down nat

record input_channel =
  in_items :: "text_bytes list"
  in_open :: bool

record upload =
  up_client :: nat
  up_id :: rpc_id
  up_service :: text_bytes
  up_rpc :: text_bytes
  up_first :: bool

record rpc_execution =
  ex_client :: nat
  ex_id :: rpc_id
  ex_service :: text_bytes
  ex_rpc :: text_bytes
  ex_kind :: procedure_kind
  ex_parameter :: text_bytes
  ex_channel :: "nat option"

datatype callback = OnItem text_bytes | OnComplete "32 word" text_bytes

record rpc_net =
  server :: rpc_server
  clients :: "nat \<Rightarrow> rpc_client"
  links :: "(link \<times> rpc_message) list"
  input_channels :: "input_channel list"
  uploads :: "upload list"
  executions :: "rpc_execution list"
  requested :: "(rpc_id \<times> nat \<times> text_bytes \<times> text_bytes) list"
  provided :: "(rpc_id \<times> callback) list"
  callbacks :: "(nat \<times> rpc_id \<times> callback) list"

definition rpc_client_new :: rpc_client where
  "rpc_client_new =
     \<lparr>connected = False, receiving = False, snowflake_value = None, registers = {}, registrations = [],
      procedures = Map.empty, running_streams = Map.empty, remoteProcedures = Map.empty, calls = Map.empty\<rparr>"

definition rpc_server_new :: rpc_server where
  "rpc_server_new =
     \<lparr>sessions = Map.empty, sessionServiceLists = [], nextSnowFlakeValue = 0, pendingRPCs = Map.empty\<rparr>"

definition rpc_init :: rpc_net where
  "rpc_init =
     \<lparr>server = rpc_server_new, clients = (\<lambda>_. rpc_client_new), links = [], input_channels = [], uploads = [],
      executions = [], requested = [], provided = [], callbacks = []\<rparr>"

definition with_client :: "nat \<Rightarrow> (rpc_client \<Rightarrow> rpc_client) \<Rightarrow> rpc_net \<Rightarrow> rpc_net" where
  "with_client c f n = n\<lparr>clients := (clients n)(c := f (clients n c))\<rparr>"

text \<open>\<^verbatim>\<open>_socket->SendAsync\<close> and \<^verbatim>\<open>Session::Send\<close> keep the order of what is sent.\<close>

definition transmit :: "link \<Rightarrow> rpc_message list \<Rightarrow> rpc_net \<Rightarrow> rpc_net" where
  "transmit l ms n = n\<lparr>links := links n @ map (Pair l) ms\<rparr>"

fun take_first :: "link \<Rightarrow> (link \<times> rpc_message) list \<Rightarrow> (rpc_message \<times> (link \<times> rpc_message) list) option" where
  "take_first l [] = None"
| "take_first l ((k, m) # ls) =
     (if k = l then Some (m, ls) else map_option (\<lambda>(m', ls'). (m', (k, m) # ls')) (take_first l ls))"

subsection \<open>The server\<close>

definition server_accept :: "rpc_server \<Rightarrow> rpc_message \<times> rpc_server" where
  "server_accept s =
     (NotifySnowflake (nextSnowFlakeValue s), s\<lparr>nextSnowFlakeValue := nextSnowFlakeValue s + 1\<rparr>)"

text \<open>One packet of \<^verbatim>\<open>HandleReceive\<close>, from the session of client \<open>c\<close>: what is sent to which session.\<close>

fun server_handle :: "nat \<Rightarrow> rpc_message \<Rightarrow> rpc_server \<Rightarrow> (nat \<times> rpc_message) list \<times> rpc_server" where
  "server_handle c (RequestRegisterRPCClient service) s =
     (if sessions s service = None
      then ([(c, ResultRegisterRPCClient RpcErrorNone service)],
            s\<lparr>sessions := (sessions s)(service \<mapsto> c), sessionServiceLists := sessionServiceLists s @ [(c, service)]\<rparr>)
      else ([(c, ResultRegisterRPCClient RpcErrorDuplicatedServiceName service)], s))"
| "server_handle c (RequestRemoteProcedureCall i service rpc param) s =
     (case sessions s service of
        Some target \<Rightarrow>
          ([(target, RequestRemoteProcedureCall i service rpc param)],
           if pendingRPCs s i = None then s\<lparr>pendingRPCs := (pendingRPCs s)(i \<mapsto> c)\<rparr> else s)
      | None \<Rightarrow> ([(c, ResultRemoteProcedureCall RpcErrorInternalError i service [] [])], s))"
| "server_handle c (ResultRemoteProcedureCall code i service rpc result) s =
     (case pendingRPCs s i of
        Some target \<Rightarrow>
          ([(target, ResultRemoteProcedureCall code i service rpc result)],
           s\<lparr>pendingRPCs := (pendingRPCs s)(i := None)\<rparr>)
      | None \<Rightarrow> ([], s))"
| "server_handle c (SendServerStreaming i service result) s =
     (case pendingRPCs s i of
        Some target \<Rightarrow> ([(target, SendServerStreaming i service result)], s)
      | None \<Rightarrow> ([], s))"
| "server_handle c (SendClientSteaming i service param) s =
     (case sessions s service of
        Some target \<Rightarrow> ([(target, SendClientSteaming i service param)], s)
      | None \<Rightarrow> ([], s))"
| "server_handle c (AbortClientStreamingRPC i service) s =
     (case sessions s service of
        Some target \<Rightarrow> ([(target, AbortClientStreamingRPC i service)], s)
      | None \<Rightarrow> ([], s))"
| "server_handle c _ s = ([], s)"

fun server_answers :: "rpc_message \<Rightarrow> rpc_server \<Rightarrow> (rpc_id \<times> callback) list" where
  "server_answers (RequestRemoteProcedureCall i service rpc param) s =
     (if sessions s service = None then [(i, OnComplete RpcErrorInternalError [])] else [])"
| "server_answers _ s = []"

definition server_receive :: "nat \<Rightarrow> rpc_message \<Rightarrow> rpc_net \<Rightarrow> rpc_net" where
  "server_receive c m n =
     (case server_handle c m (server n) of (outs, s) \<Rightarrow>
        n\<lparr>server := s, links := links n @ map (\<lambda>(d, m). (Down d, m)) outs,
          provided := provided n @ server_answers m (server n)\<rparr>)"

subsection \<open>The calling side of a client\<close>

definition find_remote :: "text_bytes \<Rightarrow> rpc_id \<Rightarrow> rpc_client \<Rightarrow> remote_procedure" where
  "find_remote service i cl =
     (case remoteProcedures cl (service, i) of
        None \<Rightarrow> \<lparr>on_streaming = False, on_completion = False\<rparr> | Some p \<Rightarrow> p)"

definition has_completion_callback :: "text_bytes \<Rightarrow> rpc_id \<Rightarrow> rpc_client \<Rightarrow> bool" where
  "has_completion_callback service i cl \<longleftrightarrow> remoteProcedures cl (service, i) \<noteq> None"

definition set_completion_callback :: "text_bytes \<Rightarrow> rpc_id \<Rightarrow> rpc_client \<Rightarrow> rpc_client" where
  "set_completion_callback service i cl =
     cl\<lparr>remoteProcedures := (remoteProcedures cl)((service, i) \<mapsto> (find_remote service i cl)\<lparr>on_completion := True\<rparr>)\<rparr>"

definition set_server_streaming_callback :: "text_bytes \<Rightarrow> rpc_id \<Rightarrow> rpc_client \<Rightarrow> rpc_client" where
  "set_server_streaming_callback service i cl =
     cl\<lparr>remoteProcedures := (remoteProcedures cl)((service, i) \<mapsto> (find_remote service i cl)\<lparr>on_streaming := True\<rparr>)\<rparr>"

definition rpc_send :: "nat \<Rightarrow> rpc_id \<Rightarrow> text_bytes \<Rightarrow> text_bytes \<Rightarrow> text_bytes \<Rightarrow> rpc_net \<Rightarrow> rpc_net" where
  "rpc_send c i service rpc param n =
     (transmit (Up c) [RequestRemoteProcedureCall i service rpc param] n)
       \<lparr>requested := requested n @ [(i, c, service, rpc)]\<rparr>"

definition send_client_streaming :: "nat \<Rightarrow> rpc_id \<Rightarrow> text_bytes \<Rightarrow> text_bytes \<Rightarrow> rpc_net \<Rightarrow> rpc_net" where
  "send_client_streaming c i service param n =
     (if \<not> has_completion_callback service i (clients n c) then n
      else transmit (Up c) [SendClientSteaming i service param] n)"

definition send_abort_client_streaming :: "nat \<Rightarrow> rpc_id \<Rightarrow> text_bytes \<Rightarrow> rpc_net \<Rightarrow> rpc_net" where
  "send_abort_client_streaming c i service n =
     (if \<not> has_completion_callback service i (clients n c) then n
      else transmit (Up c) [AbortClientStreamingRPC i service] n)"

definition new_call :: "procedure_kind \<Rightarrow> rpc_call" where
  "new_call k =
     \<lparr>call_kind = k, input_open = takes_stream k, result_open = returns_stream k, result_items = [], call_outcome = None\<rparr>"

definition open_call :: "procedure_kind \<Rightarrow> rpc_id \<Rightarrow> rpc_client \<Rightarrow> rpc_client" where
  "open_call k i cl = cl\<lparr>calls := (calls cl)(i \<mapsto> new_call k)\<rparr>"

definition call_remote_procedure ::
  "nat \<Rightarrow> rpc_id \<Rightarrow> text_bytes \<Rightarrow> text_bytes \<Rightarrow> text_bytes \<Rightarrow> rpc_net \<Rightarrow> rpc_net" where
  "call_remote_procedure c i service rpc param n =
     rpc_send c i service rpc param
       (with_client c (\<lambda>cl. set_completion_callback service i (open_call Unary i cl)) n)"

definition call_server_streaming ::
  "nat \<Rightarrow> rpc_id \<Rightarrow> text_bytes \<Rightarrow> text_bytes \<Rightarrow> text_bytes \<Rightarrow> rpc_net \<Rightarrow> rpc_net" where
  "call_server_streaming c i service rpc param n =
     rpc_send c i service rpc param
       (with_client c (\<lambda>cl. set_completion_callback service i
          (set_server_streaming_callback service i (open_call ServerStreaming i cl))) n)"

definition start_upload :: "nat \<Rightarrow> rpc_id \<Rightarrow> text_bytes \<Rightarrow> text_bytes \<Rightarrow> rpc_net \<Rightarrow> rpc_net" where
  "start_upload c i service rpc n =
     n\<lparr>uploads := uploads n @
        [\<lparr>up_client = c, up_id = i, up_service = service, up_rpc = rpc, up_first = True\<rparr>]\<rparr>"

definition call_client_streaming ::
  "nat \<Rightarrow> rpc_id \<Rightarrow> text_bytes \<Rightarrow> text_bytes \<Rightarrow> rpc_net \<Rightarrow> rpc_net" where
  "call_client_streaming c i service rpc n =
     start_upload c i service rpc
       (with_client c (\<lambda>cl. set_completion_callback service i (open_call ClientStreaming i cl)) n)"

definition call_client_server_streaming ::
  "nat \<Rightarrow> rpc_id \<Rightarrow> text_bytes \<Rightarrow> text_bytes \<Rightarrow> rpc_net \<Rightarrow> rpc_net" where
  "call_client_server_streaming c i service rpc n =
     start_upload c i service rpc
       (with_client c (\<lambda>cl. set_completion_callback service i
          (set_server_streaming_callback service i (open_call ClientServerStreaming i cl))) n)"

text \<open>The loop over the caller's stream: an item, or its end, by exhaustion or by an exception.\<close>

definition upload_item :: "nat \<Rightarrow> text_bytes \<Rightarrow> rpc_net \<Rightarrow> rpc_net" where
  "upload_item k item n =
     (let u = uploads n ! k
      in if up_first u
         then (rpc_send (up_client u) (up_id u) (up_service u) (up_rpc u) item n)
                \<lparr>uploads := (uploads n)[k := u\<lparr>up_first := False\<rparr>]\<rparr>
         else send_client_streaming (up_client u) (up_id u) (up_service u) item n)"

definition remove_nth :: "nat \<Rightarrow> 'a list \<Rightarrow> 'a list" where
  "remove_nth k xs = take k xs @ drop (Suc k) xs"

definition upload_end :: "nat \<Rightarrow> bool \<Rightarrow> rpc_net \<Rightarrow> rpc_net" where
  "upload_end k thrown n =
     (let u = uploads n ! k;
          n1 = n\<lparr>uploads := remove_nth k (uploads n)\<rparr>
      in if thrown then send_abort_client_streaming (up_client u) (up_id u) (up_service u) n1 else n1)"

text \<open>The lambdas given to \<^verbatim>\<open>SetCompletionCallback\<close> and \<^verbatim>\<open>SetServerStreamingCallback\<close>. A text that the provider made is
  the JSON of its result; that it does not parse, which throws, is not modelled.\<close>

definition complete_call :: "32 word \<Rightarrow> text_bytes \<Rightarrow> rpc_call \<Rightarrow> rpc_call" where
  "complete_call code result call =
     (if returns_stream (call_kind call)
      then if code = RpcErrorStreamingClosedGracefully \<or> code = RpcErrorNone
           then call\<lparr>result_open := False, call_outcome := Some StreamClosed\<rparr>
           else if result_open call then call\<lparr>call_outcome := Some (StreamFailed code)\<rparr> else call
      else call\<lparr>call_outcome := Some (if code \<noteq> RpcErrorNone then Rejected code else Resolved result),
                input_open := (if takes_stream (call_kind call) then False else input_open call)\<rparr>)"

definition stream_item :: "text_bytes \<Rightarrow> rpc_call \<Rightarrow> rpc_call" where
  "stream_item item call =
     (if result_open call then call\<lparr>result_items := result_items call @ [item]\<rparr> else call)"

definition change_call :: "rpc_id \<Rightarrow> (rpc_call \<Rightarrow> rpc_call) \<Rightarrow> rpc_client \<Rightarrow> rpc_client" where
  "change_call i f cl = cl\<lparr>calls := (calls cl)(i := map_option f (calls cl i))\<rparr>"

definition handle_result_remote_procedure_call ::
  "nat \<Rightarrow> 32 word \<Rightarrow> rpc_id \<Rightarrow> text_bytes \<Rightarrow> text_bytes \<Rightarrow> rpc_net \<Rightarrow> rpc_net" where
  "handle_result_remote_procedure_call c code i service result n =
     (case remoteProcedures (clients n c) (service, i) of
        None \<Rightarrow> n
      | Some _ \<Rightarrow>
          (with_client c (\<lambda>cl. change_call i (complete_call code result)
             (cl\<lparr>remoteProcedures := (remoteProcedures cl)((service, i) := None)\<rparr>)) n)
            \<lparr>callbacks := callbacks n @ [(c, i, OnComplete code result)]\<rparr>)"

text \<open>A callback that was not set is an empty \<^verbatim>\<open>std::function\<close>: its call throws, and the exception leaves \<^verbatim>\<open>Run\<close>.\<close>

definition handle_server_streaming ::
  "nat \<Rightarrow> rpc_id \<Rightarrow> text_bytes \<Rightarrow> text_bytes \<Rightarrow> rpc_net \<Rightarrow> rpc_net" where
  "handle_server_streaming c i service item n =
     (case remoteProcedures (clients n c) (service, i) of
        None \<Rightarrow> n
      | Some p \<Rightarrow>
          (with_client c (\<lambda>cl. if on_streaming p then change_call i (stream_item item) cl else cl\<lparr>receiving := False\<rparr>) n)
            \<lparr>callbacks := callbacks n @ [(c, i, OnItem item)]\<rparr>)"

subsection \<open>The providing side of a client\<close>

definition register_to_server :: "nat \<Rightarrow> text_bytes \<Rightarrow> rpc_net \<Rightarrow> rpc_net" where
  "register_to_server c service n =
     transmit (Up c) [RequestRegisterRPCClient service]
       (with_client c (\<lambda>cl. cl\<lparr>registers := insert service (registers cl)\<rparr>) n)"

definition make_procedure_key :: "text_bytes \<Rightarrow> text_bytes \<Rightarrow> text_bytes" where
  "make_procedure_key service rpc = service @ rpc"

definition register_procedure :: "text_bytes \<Rightarrow> text_bytes \<Rightarrow> procedure_kind \<Rightarrow> rpc_client \<Rightarrow> bool \<times> rpc_client" where
  "register_procedure service rpc k cl =
     (if procedures cl (make_procedure_key service rpc) = None
      then (True, cl\<lparr>procedures := (procedures cl)(make_procedure_key service rpc \<mapsto> k)\<rparr>)
      else (False, cl))"

definition handle_register_result :: "32 word \<Rightarrow> text_bytes \<Rightarrow> rpc_client \<Rightarrow> rpc_client" where
  "handle_register_result code service cl =
     (if service \<in> registers cl
      then cl\<lparr>registers := registers cl - {service},
              registrations := registrations cl @ [(service, code = RpcErrorNone)]\<rparr>
      else cl)"

definition send_result ::
  "nat \<Rightarrow> 32 word \<Rightarrow> rpc_id \<Rightarrow> text_bytes \<Rightarrow> text_bytes \<Rightarrow> text_bytes \<Rightarrow> rpc_net \<Rightarrow> rpc_net" where
  "send_result c code i service rpc result n =
     (transmit (Up c) [ResultRemoteProcedureCall code i service rpc result] n)
       \<lparr>provided := provided n @ [(i, OnComplete code result)]\<rparr>"

text \<open>\<^verbatim>\<open>HandleRequestRemoteProcedureCall\<close> up to the point where it awaits the procedure.\<close>

definition handle_request_remote_procedure_call ::
  "nat \<Rightarrow> rpc_id \<Rightarrow> text_bytes \<Rightarrow> text_bytes \<Rightarrow> text_bytes \<Rightarrow> rpc_net \<Rightarrow> rpc_net" where
  "handle_request_remote_procedure_call c i service rpc param n =
     (case procedures (clients n c) (make_procedure_key service rpc) of
        None \<Rightarrow> send_result c RpcErrorInvalidRpcName i service rpc [] n
      | Some k \<Rightarrow>
          if takes_stream k
          then if running_streams (clients n c) i = None
               then let a = length (input_channels n)
                    in (with_client c (\<lambda>cl. cl\<lparr>running_streams := (running_streams cl)(i \<mapsto> a)\<rparr>) n)
                         \<lparr>input_channels := input_channels n @ [\<lparr>in_items = [param], in_open = True\<rparr>],
                          executions := executions n @
                            [\<lparr>ex_client = c, ex_id = i, ex_service = service, ex_rpc = rpc, ex_kind = k,
                              ex_parameter = param, ex_channel = Some a\<rparr>]\<rparr>
               else n
          else n\<lparr>executions := executions n @
                   [\<lparr>ex_client = c, ex_id = i, ex_service = service, ex_rpc = rpc, ex_kind = k,
                     ex_parameter = param, ex_channel = None\<rparr>]\<rparr>)"

text \<open>Its rest: the procedure returned or threw, or a stream yielded an item, ended or threw.\<close>

definition end_execution :: "nat \<Rightarrow> 32 word \<Rightarrow> text_bytes \<Rightarrow> rpc_net \<Rightarrow> rpc_net" where
  "end_execution k code result n =
     (let e = executions n ! k;
          n1 = send_result (ex_client e) code (ex_id e) (ex_service e) (ex_rpc e) result
                 (n\<lparr>executions := remove_nth k (executions n)\<rparr>)
      in if takes_stream (ex_kind e)
         then with_client (ex_client e) (\<lambda>cl. cl\<lparr>running_streams := (running_streams cl)(ex_id e := None)\<rparr>) n1
         else n1)"

definition execution_returns :: "nat \<Rightarrow> text_bytes option \<Rightarrow> rpc_net \<Rightarrow> rpc_net" where
  "execution_returns k result n =
     (case result of
        Some r \<Rightarrow> end_execution k RpcErrorNone r n
      | None \<Rightarrow> end_execution k
          (if takes_stream (ex_kind (executions n ! k)) then RpcErrorStreamingClosedByServer else RpcErrorInternalError) [] n)"

definition execution_yields :: "nat \<Rightarrow> text_bytes \<Rightarrow> rpc_net \<Rightarrow> rpc_net" where
  "execution_yields k item n =
     (let e = executions n ! k
      in (transmit (Up (ex_client e)) [SendServerStreaming (ex_id e) (ex_service e) item] n)
           \<lparr>provided := provided n @ [(ex_id e, OnItem item)]\<rparr>)"

definition execution_ends :: "nat \<Rightarrow> bool \<Rightarrow> rpc_net \<Rightarrow> rpc_net" where
  "execution_ends k thrown n =
     end_execution k (if thrown then RpcErrorStreamingClosedByServer else RpcErrorStreamingClosedGracefully) [] n"

definition handle_client_streaming :: "nat \<Rightarrow> rpc_id \<Rightarrow> text_bytes \<Rightarrow> rpc_net \<Rightarrow> rpc_net" where
  "handle_client_streaming c i param n =
     (case running_streams (clients n c) i of
        None \<Rightarrow> n
      | Some a \<Rightarrow> n\<lparr>input_channels := (input_channels n)
          [a := (input_channels n ! a)\<lparr>in_items := in_items (input_channels n ! a) @ [param]\<rparr>]\<rparr>)"

definition handle_abort_client_streaming :: "nat \<Rightarrow> rpc_id \<Rightarrow> rpc_net \<Rightarrow> rpc_net" where
  "handle_abort_client_streaming c i n =
     (case running_streams (clients n c) i of
        None \<Rightarrow> n
      | Some a \<Rightarrow> (with_client c (\<lambda>cl. cl\<lparr>running_streams := (running_streams cl)(i := None)\<rparr>) n)
          \<lparr>input_channels := (input_channels n)[a := (input_channels n ! a)\<lparr>in_open := False\<rparr>]\<rparr>)"

text \<open>One packet of \<^verbatim>\<open>Run\<close>.\<close>

fun client_handle :: "nat \<Rightarrow> rpc_message \<Rightarrow> rpc_net \<Rightarrow> rpc_net" where
  "client_handle c (ResultRegisterRPCClient code service) n = with_client c (handle_register_result code service) n"
| "client_handle c (RequestRemoteProcedureCall i service rpc param) n =
     handle_request_remote_procedure_call c i service rpc param n"
| "client_handle c (ResultRemoteProcedureCall code i service rpc result) n =
     handle_result_remote_procedure_call c code i service result n"
| "client_handle c (SendServerStreaming i service item) n = handle_server_streaming c i service item n"
| "client_handle c (SendClientSteaming i service param) n = handle_client_streaming c i param n"
| "client_handle c (AbortClientStreamingRPC i service) n = handle_abort_client_streaming c i n"
| "client_handle c (NotifySnowflake v) n = with_client c (\<lambda>cl. cl\<lparr>snowflake_value := Some v\<rparr>) n"
| "client_handle c (RequestRegisterRPCClient service) n = n"

subsection \<open>The steps of the system\<close>

datatype rpc_event =
    Connect nat
  | RegisterToServer nat text_bytes
  | RegisterProcedure nat text_bytes text_bytes procedure_kind
  | CallRemote nat rpc_id procedure_kind text_bytes text_bytes text_bytes
  | UploadItem nat text_bytes
  | UploadEnd nat bool
  | CloseResults nat rpc_id
  | ServerReceives nat
  | ClientReceives nat
  | Returns nat "text_bytes option"
  | Yields nat text_bytes
  | Ends nat bool

definition connect :: "nat \<Rightarrow> rpc_net \<Rightarrow> rpc_net" where
  "connect c n =
     (case server_accept (server n) of (m, s) \<Rightarrow>
        transmit (Down c) [m] (with_client c (\<lambda>cl. cl\<lparr>connected := True, receiving := True\<rparr>) (n\<lparr>server := s\<rparr>)))"

fun rpc_call_event :: "nat \<Rightarrow> rpc_id \<Rightarrow> procedure_kind \<Rightarrow> text_bytes \<Rightarrow> text_bytes \<Rightarrow> text_bytes \<Rightarrow> rpc_net \<Rightarrow> rpc_net" where
  "rpc_call_event c i Unary service rpc param n = call_remote_procedure c i service rpc param n"
| "rpc_call_event c i ServerStreaming service rpc param n = call_server_streaming c i service rpc param n"
| "rpc_call_event c i ClientStreaming service rpc param n = call_client_streaming c i service rpc n"
| "rpc_call_event c i ClientServerStreaming service rpc param n = call_client_server_streaming c i service rpc n"

text \<open>\<open>None\<close>: the event cannot happen in this state.\<close>

fun rpc_step :: "rpc_event \<Rightarrow> rpc_net \<Rightarrow> rpc_net option" where
  "rpc_step (Connect c) n = (if connected (clients n c) then None else Some (connect c n))"
| "rpc_step (RegisterToServer c service) n =
     (if connected (clients n c) then Some (register_to_server c service n) else None)"
| "rpc_step (RegisterProcedure c service rpc k) n =
     Some (with_client c (\<lambda>cl. snd (register_procedure service rpc k cl)) n)"
| "rpc_step (CallRemote c i k service rpc param) n =
     (if snowflake_value (clients n c) = None then None else Some (rpc_call_event c i k service rpc param n))"
| "rpc_step (UploadItem k item) n = (if k < length (uploads n) then Some (upload_item k item n) else None)"
| "rpc_step (UploadEnd k thrown) n = (if k < length (uploads n) then Some (upload_end k thrown n) else None)"
| "rpc_step (CloseResults c i) n =
     Some (with_client c (change_call i (\<lambda>call. call\<lparr>result_open := False\<rparr>)) n)"
| "rpc_step (ServerReceives c) n =
     map_option (\<lambda>(m, ls). server_receive c m (n\<lparr>links := ls\<rparr>)) (take_first (Up c) (links n))"
| "rpc_step (ClientReceives c) n =
     (if receiving (clients n c)
      then map_option (\<lambda>(m, ls). client_handle c m (n\<lparr>links := ls\<rparr>)) (take_first (Down c) (links n))
      else None)"
| "rpc_step (Returns k result) n =
     (if k < length (executions n) \<and> \<not> returns_stream (ex_kind (executions n ! k))
      then Some (execution_returns k result n) else None)"
| "rpc_step (Yields k item) n =
     (if k < length (executions n) \<and> returns_stream (ex_kind (executions n ! k))
      then Some (execution_yields k item n) else None)"
| "rpc_step (Ends k thrown) n =
     (if k < length (executions n) \<and> returns_stream (ex_kind (executions n ! k))
      then Some (execution_ends k thrown n) else None)"

fun rpc_run :: "rpc_event list \<Rightarrow> rpc_net \<Rightarrow> rpc_net option" where
  "rpc_run [] n = Some n"
| "rpc_run (e # es) n = (case rpc_step e n of None \<Rightarrow> None | Some n1 \<Rightarrow> rpc_run es n1)"

fun call_ids :: "rpc_event list \<Rightarrow> rpc_id list" where
  "call_ids [] = []"
| "call_ids (CallRemote c i k service rpc param # es) = i # call_ids es"
| "call_ids (_ # es) = call_ids es"

text \<open>
  The receive loop of the server for one session: \<^verbatim>\<open>HandleReceive\<close> is the loop of \<open>Framing\<close>, called
  with every buffer that arrives. A packet it does not know is a null pointer that is dereferenced; the model stops there.
\<close>

definition rpc_server_run :: "nat \<Rightarrow> buffer list \<Rightarrow> heap \<Rightarrow> rpc_net \<Rightarrow> frame_outcome \<times> buffer \<times> heap \<times> rpc_net" where
  "rpc_server_run c chunks h n =
     receive_run rpc_create (\<lambda>m n. (True, server_receive c m n)) (\<lambda>n. n) (map (Pair False) chunks) buffer_new h n"

end
