(* ===== verification/RpcInvariant.thy ===== *)
theory RpcInvariant
  imports Rpc
begin

text \<open>
  The invariant of remote calls over \<open>Rpc\<close>: where a call is between its request and its answer, and that every
  step keeps it. One lemma for each kind of step: those that neither ask nor reply, a request sent, relayed, answered
  on the spot or started, an item or answer made, relayed, or received.
\<close>

subsection \<open>Where a call is\<close>

text \<open>The requests under way, and the replies to a call on the way to the server and behind it.\<close>

fun request_ids :: "rpc_message \<Rightarrow> rpc_id list" where
  "request_ids (RequestRemoteProcedureCall i _ _ _) = [i]"
| "request_ids _ = []"

fun reply :: "rpc_id \<Rightarrow> rpc_message \<Rightarrow> callback list" where
  "reply i (ResultRemoteProcedureCall code j _ _ result) = (if j = i then [OnComplete code result] else [])"
| "reply i (SendServerStreaming j _ item) = (if j = i then [OnItem item] else [])"
| "reply i _ = []"

fun is_up :: "link \<Rightarrow> bool" where
  "is_up (Up _) = True"
| "is_up (Down _) = False"

definition asked :: "(link \<times> rpc_message) list \<Rightarrow> rpc_id list" where
  "asked ls = concat (map (\<lambda>x. request_ids (snd x)) ls)"

definition up_replies :: "rpc_id \<Rightarrow> (link \<times> rpc_message) list \<Rightarrow> callback list" where
  "up_replies i ls = concat (map (\<lambda>x. if is_up (fst x) then reply i (snd x) else []) ls)"

definition down_replies :: "rpc_id \<Rightarrow> (link \<times> rpc_message) list \<Rightarrow> callback list" where
  "down_replies i ls = concat (map (\<lambda>x. if is_up (fst x) then [] else reply i (snd x)) ls)"

definition provided_to :: "rpc_id \<Rightarrow> rpc_net \<Rightarrow> callback list" where
  "provided_to i n = concat (map (\<lambda>x. if fst x = i then [snd x] else []) (provided n))"

definition received_by :: "rpc_id \<Rightarrow> rpc_net \<Rightarrow> callback list" where
  "received_by i n = concat (map (\<lambda>x. if fst (snd x) = i then [snd (snd x)] else []) (callbacks n))"

fun is_complete :: "callback \<Rightarrow> bool" where
  "is_complete (OnComplete _ _) = True"
| "is_complete (OnItem _) = False"

definition answered :: "(rpc_id \<times> callback) list \<Rightarrow> rpc_id list" where
  "answered ps = map fst (filter (\<lambda>x. is_complete (snd x)) ps)"

lemmas projection_defs = asked_def up_replies_def down_replies_def provided_to_def received_by_def answered_def

lemma projections_simps [simp]:
  "asked [] = []" "asked (x # ls) = request_ids (snd x) @ asked ls" "asked (ls @ ks) = asked ls @ asked ks"
  "up_replies i [] = []"
  "up_replies i (x # ls) = (if is_up (fst x) then reply i (snd x) else []) @ up_replies i ls"
  "up_replies i (ls @ ks) = up_replies i ls @ up_replies i ks"
  "down_replies i [] = []"
  "down_replies i (x # ls) = (if is_up (fst x) then [] else reply i (snd x)) @ down_replies i ls"
  "down_replies i (ls @ ks) = down_replies i ls @ down_replies i ks"
  "answered [] = []" "answered (y # ps) = (if is_complete (snd y) then [fst y] else []) @ answered ps"
  "answered (ps @ qs) = answered ps @ answered qs"
  by (simp_all add: projection_defs)

text \<open>The messages that carry a call; the others neither ask nor reply.\<close>

fun is_call :: "rpc_message \<Rightarrow> bool" where
  "is_call (RequestRemoteProcedureCall _ _ _ _) = True"
| "is_call (ResultRemoteProcedureCall _ _ _ _ _) = True"
| "is_call (SendServerStreaming _ _ _) = True"
| "is_call _ = False"

definition calls_of :: "(link \<times> rpc_message) list \<Rightarrow> (link \<times> rpc_message) list" where
  "calls_of ls = filter (\<lambda>x. is_call (snd x)) ls"

lemma not_call: "\<not> is_call m \<Longrightarrow> request_ids m = [] \<and> reply i m = []"
  by (cases m) simp_all

lemma projections_calls_of:
  "asked (calls_of ls) = asked ls" "up_replies i (calls_of ls) = up_replies i ls"
  "down_replies i (calls_of ls) = down_replies i ls"
  by (induction ls) (auto simp: calls_of_def dest: not_call)

lemma take_first_split:
  "take_first l ls = Some (m, ls') \<Longrightarrow>
     \<exists>as bs. ls = as @ (l, m) # bs \<and> ls' = as @ bs \<and> (\<forall>x \<in> set as. fst x \<noteq> l)"
proof (induction ls arbitrary: m ls')
  case (Cons x ls)
  obtain k m0 where x: "x = (k, m0)" by (cases x)
  show ?case
  proof (cases "k = l")
    case True
    with Cons.prems x show ?thesis by (intro exI [of _ "[]"] exI [of _ ls]) auto
  next
    case False
    with Cons.prems x obtain ls1 where t: "take_first l ls = Some (m, ls1)" "ls' = (k, m0) # ls1" by auto
    from Cons.IH [OF t(1)] obtain as bs where
      "ls = as @ (l, m) # bs" "ls1 = as @ bs" "\<forall>x \<in> set as. fst x \<noteq> l" by blast
    with t(2) x False show ?thesis by (intro exI [of _ "x # as"] exI [of _ bs]) auto
  qed
qed simp

text \<open>Client \<open>c\<close> requested call \<open>i\<close> of a service; and the provider \<open>d\<close> of the service has it.\<close>

definition caller :: "rpc_net \<Rightarrow> rpc_id \<Rightarrow> nat \<Rightarrow> text_bytes \<Rightarrow> bool" where
  "caller n i c service \<longleftrightarrow> (\<exists>rpc. (i, c, service, rpc) \<in> set (requested n))"

definition served :: "rpc_net \<Rightarrow> rpc_id \<Rightarrow> nat \<Rightarrow> text_bytes \<Rightarrow> text_bytes \<Rightarrow> bool" where
  "served n i d service rpc \<longleftrightarrow> sessions (server n) service = Some d
     \<and> (\<exists>c. (i, c, service, rpc) \<in> set (requested n) \<and> pendingRPCs (server n) i = Some c)"

fun message_ok :: "rpc_net \<Rightarrow> link \<times> rpc_message \<Rightarrow> bool" where
  "message_ok n (Up d, RequestRemoteProcedureCall i service rpc _) \<longleftrightarrow>
     (i, d, service, rpc) \<in> set (requested n) \<and> pendingRPCs (server n) i = None"
| "message_ok n (Down d, RequestRemoteProcedureCall i service rpc _) \<longleftrightarrow> served n i d service rpc"
| "message_ok n (Up d, ResultRemoteProcedureCall _ i service _ _) \<longleftrightarrow> (\<exists>rpc. served n i d service rpc)"
| "message_ok n (Down d, ResultRemoteProcedureCall _ i service _ _) \<longleftrightarrow> caller n i d service"
| "message_ok n (Up d, SendServerStreaming i service _) \<longleftrightarrow> (\<exists>rpc. served n i d service rpc)"
| "message_ok n (Down d, SendServerStreaming i service _) \<longleftrightarrow> caller n i d service"
| "message_ok n _ \<longleftrightarrow> True"

definition fresh_uploads :: "upload list \<Rightarrow> rpc_id list" where
  "fresh_uploads us = map up_id (filter up_first us)"

lemma fresh_uploads_simps [simp]:
  "fresh_uploads [] = []" "fresh_uploads (u # us) = (if up_first u then [up_id u] else []) @ fresh_uploads us"
  "fresh_uploads (us @ vs) = fresh_uploads us @ fresh_uploads vs"
  by (simp_all add: fresh_uploads_def)

definition completed :: "rpc_id \<Rightarrow> rpc_net \<Rightarrow> bool" where
  "completed i n \<longleftrightarrow> (\<exists>x \<in> set (received_by i n). is_complete x)"

text \<open>
  The invariant, for the ids of the calls made so far: ids are used once; a call is asked, served or answered, and
  only one of these; what its callbacks got and what is under way is what was provided, in order; an answer is
  last; and the tables of the server and the clients hold what the messages under way will look up.
\<close>

definition ids_inv :: "rpc_id list \<Rightarrow> rpc_net \<Rightarrow> bool" where
  "ids_inv ids n \<longleftrightarrow> distinct (map fst (requested n) @ fresh_uploads (uploads n))
     \<and> set (map fst (requested n) @ fresh_uploads (uploads n)) \<subseteq> set ids"

definition count_inv :: "rpc_net \<Rightarrow> bool" where
  "count_inv n \<longleftrightarrow> mset (asked (links n)) + mset (map ex_id (executions n)) + mset (answered (provided n))
     = mset (map fst (requested n))"

definition order_inv :: "rpc_net \<Rightarrow> bool" where
  "order_inv n \<longleftrightarrow>
     (\<forall>i. received_by i n @ down_replies i (links n) @ up_replies i (links n) = provided_to i n)
     \<and> (\<forall>i. \<forall>x \<in> set (butlast (provided_to i n)). \<not> is_complete x)
     \<and> (\<forall>i \<in> set (asked (links n)). provided_to i n = [])"

definition tables_inv :: "rpc_net \<Rightarrow> bool" where
  "tables_inv n \<longleftrightarrow> (\<forall>x \<in> set (calls_of (links n)). message_ok n x)
     \<and> (\<forall>e \<in> set (executions n). served n (ex_id e) (ex_client e) (ex_service e) (ex_rpc e))
     \<and> (\<forall>d i. running_streams (clients n d) i \<noteq> None
          \<longrightarrow> (\<exists>e \<in> set (executions n). ex_id e = i \<and> ex_client e = d \<and> takes_stream (ex_kind e)))
     \<and> (\<forall>x \<in> set (callbacks n). \<exists>service. caller n (fst (snd x)) (fst x) service)
     \<and> (\<forall>i. pendingRPCs (server n) i \<noteq> None \<longrightarrow> i \<in> fst ` set (requested n))"

definition waiting_inv :: "rpc_net \<Rightarrow> bool" where
  "waiting_inv n \<longleftrightarrow>
     (\<forall>(i, c, service, rpc) \<in> set (requested n). completed i n \<or> remoteProcedures (clients n c) (service, i) \<noteq> None)
     \<and> (\<forall>u \<in> set (uploads n). up_first u
          \<longrightarrow> remoteProcedures (clients n (up_client u)) (up_service u, up_id u) \<noteq> None)"

definition rpc_inv :: "rpc_id list \<Rightarrow> rpc_net \<Rightarrow> bool" where
  "rpc_inv ids n \<longleftrightarrow> ids_inv ids n \<and> count_inv n \<and> order_inv n \<and> tables_inv n \<and> waiting_inv n"

lemma rpc_inv_init: "rpc_inv [] rpc_init"
  by (simp add: rpc_inv_def ids_inv_def count_inv_def order_inv_def tables_inv_def waiting_inv_def rpc_init_def
      provided_to_def received_by_def calls_of_def rpc_client_new_def rpc_server_new_def)

text \<open>What the steps have in common that neither ask nor reply.\<close>

lemma served_mono:
  "served n i d s r \<Longrightarrow> set (requested n) \<subseteq> set (requested n') \<Longrightarrow> sessions (server n) \<subseteq>\<^sub>m sessions (server n')
     \<Longrightarrow> pendingRPCs (server n') i = pendingRPCs (server n) i \<Longrightarrow> served n' i d s r"
  by (auto simp: served_def map_le_def dom_def)

lemma caller_mono: "caller n i c s \<Longrightarrow> set (requested n) \<subseteq> set (requested n') \<Longrightarrow> caller n' i c s"
  by (auto simp: caller_def)

text \<open>The call a message carries.\<close>

fun call_id :: "rpc_message \<Rightarrow> rpc_id option" where
  "call_id (RequestRemoteProcedureCall i _ _ _) = Some i"
| "call_id (ResultRemoteProcedureCall _ i _ _ _) = Some i"
| "call_id (SendServerStreaming i _ _) = Some i"
| "call_id _ = None"

lemma message_ok_mono:
  assumes "message_ok n x" and "set (requested n) \<subseteq> set (requested n')"
    and "sessions (server n) \<subseteq>\<^sub>m sessions (server n')"
    and "\<And>i. call_id (snd x) = Some i \<Longrightarrow> is_up (fst x) \<or> request_ids (snd x) \<noteq> []
          \<Longrightarrow> pendingRPCs (server n') i = pendingRPCs (server n) i"
  shows "message_ok n' x"
proof (cases x)
  case (Pair l m)
  with assms show ?thesis
    by (cases l; cases m) (auto intro: served_mono caller_mono)
qed

lemma rpc_inv_neutral:
  assumes inv: "rpc_inv ids n"
    and same: "requested n' = requested n" "provided n' = provided n" "callbacks n' = callbacks n"
      "executions n' = executions n" "calls_of (links n') = calls_of (links n)"
      "pendingRPCs (server n') = pendingRPCs (server n)"
    and ses: "sessions (server n) \<subseteq>\<^sub>m sessions (server n')"
    and ups: "set (filter up_first (uploads n')) \<subseteq> set (filter up_first (uploads n))" "distinct (fresh_uploads (uploads n'))"
    and run: "\<And>d i. running_streams (clients n' d) i \<noteq> None \<Longrightarrow> running_streams (clients n d) i \<noteq> None"
    and rem: "\<And>d x. remoteProcedures (clients n d) x \<noteq> None \<Longrightarrow> remoteProcedures (clients n' d) x \<noteq> None"
  shows "rpc_inv ids n'"
proof -
  have fresh: "set (fresh_uploads (uploads n')) \<subseteq> set (fresh_uploads (uploads n))"
    unfolding fresh_uploads_def using ups(1) by auto
  have pro: "asked (links n') = asked (links n)" "up_replies i (links n') = up_replies i (links n)"
    "down_replies i (links n') = down_replies i (links n)" for i
    by (metis projections_calls_of same(5))+
  have "ids_inv ids n'" using inv ups fresh by (auto simp: rpc_inv_def ids_inv_def same)
  moreover have "count_inv n'" using inv by (simp add: rpc_inv_def count_inv_def same pro)
  moreover have "order_inv n'" using inv by (simp add: rpc_inv_def order_inv_def same pro provided_to_def received_by_def)
  moreover have "tables_inv n'"
  proof -
    have "message_ok n' x" if "x \<in> set (calls_of (links n))" for x
    proof (rule message_ok_mono)
      show "message_ok n x" using inv that by (auto simp: rpc_inv_def tables_inv_def)
    qed (simp_all add: same ses)
    moreover have "served n' i d s r" if "served n i d s r" for i d s r
      using that by (rule served_mono) (simp_all add: same ses)
    moreover have "\<forall>d i. running_streams (clients n' d) i \<noteq> None
        \<longrightarrow> (\<exists>e \<in> set (executions n). ex_id e = i \<and> ex_client e = d \<and> takes_stream (ex_kind e))"
      using inv run unfolding rpc_inv_def tables_inv_def by blast
    ultimately show ?thesis
      using inv unfolding rpc_inv_def tables_inv_def same caller_def by blast
  qed
  moreover have "waiting_inv n'"
  proof -
    have "u \<in> set (uploads n)" if "u \<in> set (uploads n')" "up_first u" for u
      using ups(1) that by auto
    then show ?thesis
      using inv rem unfolding rpc_inv_def waiting_inv_def same completed_def received_by_def by blast
  qed
  ultimately show ?thesis by (simp add: rpc_inv_def)
qed

text \<open>What the invariant says of one call.\<close>

lemma inv_calls_once:
  assumes "rpc_inv ids n"
  shows "distinct (asked (links n) @ map ex_id (executions n) @ answered (provided n))"
    and "set (asked (links n) @ map ex_id (executions n) @ answered (provided n)) = fst ` set (requested n)"
proof -
  have eq: "mset (asked (links n) @ map ex_id (executions n) @ answered (provided n)) = mset (map fst (requested n))"
    using assms by (simp add: rpc_inv_def count_inv_def ac_simps)
  have "distinct (map fst (requested n))" using assms by (simp add: rpc_inv_def ids_inv_def)
  then show "distinct (asked (links n) @ map ex_id (executions n) @ answered (provided n))"
    by (simp only: mset_eq_imp_distinct_iff [OF eq])
  show "set (asked (links n) @ map ex_id (executions n) @ answered (provided n)) = fst ` set (requested n)"
    using mset_eq_setD [OF eq] by (simp only: list.set_map)
qed

lemma inv_requested_unique:
  assumes "rpc_inv ids n" and "(i, c, s, r) \<in> set (requested n)" and "(i, c', s', r') \<in> set (requested n)"
  shows "c = c' \<and> s = s' \<and> r = r'"
proof -
  have "distinct (map fst (requested n))" using assms(1) by (simp add: rpc_inv_def ids_inv_def)
  with assms(2,3) show ?thesis by (auto dest: eq_key_imp_eq_value)
qed

lemma answered_iff: "i \<in> set (answered (provided n)) \<longleftrightarrow> (\<exists>x \<in> set (provided_to i n). is_complete x)"
  by (auto simp: answered_def provided_to_def)

lemma inv_order:
  assumes "rpc_inv ids n"
  shows "received_by i n @ down_replies i (links n) @ up_replies i (links n) = provided_to i n"
    and "x \<in> set (butlast (provided_to i n)) \<Longrightarrow> \<not> is_complete x"
    and "i \<in> set (asked (links n)) \<Longrightarrow> provided_to i n = []"
  using assms by (auto simp: rpc_inv_def order_inv_def)

lemma complete_is_last:
  assumes "rpc_inv ids n" and "provided_to i n = xs @ x # ys" and "is_complete x"
  shows "ys = []"
proof (rule ccontr)
  assume "ys \<noteq> []"
  with assms(2) have "x \<in> set (butlast (provided_to i n))" by (simp add: butlast_append)
  with inv_order(2) [OF assms(1)] assms(3) show False by blast
qed

lemma inv_message_ok:
  assumes "rpc_inv ids n" and "x \<in> set (links n)"
  shows "message_ok n x"
proof (cases "is_call (snd x)")
  case True
  with assms(2) have "x \<in> set (calls_of (links n))" by (simp add: calls_of_def)
  with assms(1) show ?thesis unfolding rpc_inv_def tables_inv_def by blast
next
  case False
  then show ?thesis by (cases x; cases "fst x"; cases "snd x") auto
qed

lemma inv_tables:
  assumes "rpc_inv ids n"
  shows "e \<in> set (executions n) \<Longrightarrow> served n (ex_id e) (ex_client e) (ex_service e) (ex_rpc e)"
    and "running_streams (clients n d) i \<noteq> None
      \<Longrightarrow> \<exists>e \<in> set (executions n). ex_id e = i \<and> ex_client e = d \<and> takes_stream (ex_kind e)"
    and "x \<in> set (callbacks n) \<Longrightarrow> \<exists>service. caller n (fst (snd x)) (fst x) service"
    and "pendingRPCs (server n) i \<noteq> None \<Longrightarrow> i \<in> fst ` set (requested n)"
  using assms unfolding rpc_inv_def tables_inv_def by blast+

lemma tables_invI:
  assumes "\<And>x. x \<in> set (links n) \<Longrightarrow> message_ok n x"
    and "\<And>e. e \<in> set (executions n) \<Longrightarrow> served n (ex_id e) (ex_client e) (ex_service e) (ex_rpc e)"
    and "\<And>d i. running_streams (clients n d) i \<noteq> None
      \<Longrightarrow> \<exists>e \<in> set (executions n). ex_id e = i \<and> ex_client e = d \<and> takes_stream (ex_kind e)"
    and "\<And>x. x \<in> set (callbacks n) \<Longrightarrow> \<exists>service. caller n (fst (snd x)) (fst x) service"
    and "\<And>i. pendingRPCs (server n) i \<noteq> None \<Longrightarrow> i \<in> fst ` set (requested n)"
  shows "tables_inv n"
  unfolding tables_inv_def calls_of_def using assms by auto

lemma inv_waiting:
  assumes "rpc_inv ids n"
  shows "(i, c, s, r) \<in> set (requested n) \<Longrightarrow> \<not> completed i n \<Longrightarrow> remoteProcedures (clients n c) (s, i) \<noteq> None"
    and "u \<in> set (uploads n) \<Longrightarrow> up_first u
      \<Longrightarrow> remoteProcedures (clients n (up_client u)) (up_service u, up_id u) \<noteq> None"
  using assms unfolding rpc_inv_def waiting_inv_def by blast+

lemma waiting_invI:
  assumes "\<And>i c s r. (i, c, s, r) \<in> set (requested n) \<Longrightarrow> \<not> completed i n
      \<Longrightarrow> remoteProcedures (clients n c) (s, i) \<noteq> None"
    and "\<And>u. u \<in> set (uploads n) \<Longrightarrow> up_first u
      \<Longrightarrow> remoteProcedures (clients n (up_client u)) (up_service u, up_id u) \<noteq> None"
  shows "waiting_inv n"
  unfolding waiting_inv_def using assms by blast

lemma inv_served_unique:
  assumes "rpc_inv ids n" and "served n i d s r" and "served n i d' s' r'"
  shows "d = d' \<and> s = s' \<and> r = r'"
proof -
  from assms(2,3) obtain c c' where "(i, c, s, r) \<in> set (requested n)" "(i, c', s', r') \<in> set (requested n)"
    "sessions (server n) s = Some d" "sessions (server n) s' = Some d'"
    by (auto simp: served_def)
  with inv_requested_unique [OF assms(1)] show ?thesis by (metis option.inject)
qed

lemma up_reply_served:
  "message_ok n (Up d, m) \<Longrightarrow> reply i m \<noteq> [] \<Longrightarrow> \<exists>s r. served n i d s r"
  by (cases m) (auto split: if_splits)

lemma down_reply_caller:
  "message_ok n (Down d, m) \<Longrightarrow> reply i m \<noteq> [] \<Longrightarrow> \<exists>s. caller n i d s"
  by (cases m) (auto split: if_splits)

lemma up_replies_empty_iff: "up_replies i ls = [] \<longleftrightarrow> (\<forall>d m. (Up d, m) \<in> set ls \<longrightarrow> reply i m = [])"
proof (induction ls)
  case (Cons x ls)
  then show ?case by (cases x; cases "fst x") auto
qed simp

lemma down_replies_empty_iff: "down_replies i ls = [] \<longleftrightarrow> (\<forall>d m. (Down d, m) \<in> set ls \<longrightarrow> reply i m = [])"
proof (induction ls)
  case (Cons x ls)
  then show ?case by (cases x; cases "fst x") auto
qed simp

text \<open>The first reply on its link is the first reply to its call.\<close>

lemma first_up_reply:
  assumes inv: "rpc_inv ids n" and ls: "links n = as @ (Up d, m) # bs" and first: "\<forall>x \<in> set as. fst x \<noteq> Up d"
    and r: "reply i m \<noteq> []"
  shows "up_replies i as = []"
  unfolding up_replies_empty_iff
proof (intro allI impI, rule ccontr)
  fix d' m'
  assume in_as: "(Up d', m') \<in> set as" and r': "reply i m' \<noteq> []"
  have "message_ok n (Up d', m')" "message_ok n (Up d, m)" using inv_message_ok [OF inv] in_as ls by auto
  with up_reply_served [OF _ r'] up_reply_served [OF _ r] obtain s t s' t'
    where "served n i d' s' t'" "served n i d s t" by blast
  from inv_served_unique [OF inv this] in_as first show False by fastforce
qed

lemma first_down_reply:
  assumes inv: "rpc_inv ids n" and ls: "links n = as @ (Down d, m) # bs" and first: "\<forall>x \<in> set as. fst x \<noteq> Down d"
    and r: "reply i m \<noteq> []"
  shows "down_replies i as = []"
  unfolding down_replies_empty_iff
proof (intro allI impI, rule ccontr)
  fix d' m'
  assume in_as: "(Down d', m') \<in> set as" and r': "reply i m' \<noteq> []"
  have "message_ok n (Down d', m')" "message_ok n (Down d, m)" using inv_message_ok [OF inv] in_as ls by auto
  with down_reply_caller [OF _ r'] down_reply_caller [OF _ r] obtain s s'
    where "caller n i d' s'" "caller n i d s" by blast
  with inv_requested_unique [OF inv] have "d' = d" unfolding caller_def by blast
  with in_as first show False by fastforce
qed

lemma inv_provided_requested:
  assumes inv: "rpc_inv ids n" and "provided_to i n \<noteq> []"
  shows "i \<in> fst ` set (requested n)"
proof -
  from assms(2) inv_order(1) [OF inv, of i] consider "received_by i n \<noteq> []" | "down_replies i (links n) \<noteq> []"
    | "up_replies i (links n) \<noteq> []"
    by fastforce
  then show ?thesis
  proof cases
    case 1
    then obtain x where "x \<in> set (callbacks n)" "fst (snd x) = i" by (auto simp: received_by_def split: if_splits)
    moreover have "\<forall>x \<in> set (callbacks n). \<exists>s. caller n (fst (snd x)) (fst x) s"
      using inv by (simp add: rpc_inv_def tables_inv_def)
    ultimately show ?thesis unfolding caller_def by force
  next
    case 2
    with inv_message_ok [OF inv] down_reply_caller show ?thesis
      unfolding down_replies_empty_iff caller_def by (metis image_eqI fst_conv)
  next
    case 3
    with inv_message_ok [OF inv] up_reply_served show ?thesis
      unfolding up_replies_empty_iff served_def by (metis image_eqI fst_conv)
  qed
qed


text \<open>A request that is sent.\<close>

lemma rpc_inv_request:
  assumes inv: "rpc_inv ids n" and ids: "ids_inv ids' n'" and new: "i \<notin> fst ` set (requested n)"
    and upd: "requested n' = requested n @ [(i, c, service, rpc)]"
      "links n' = links n @ [(Up c, RequestRemoteProcedureCall i service rpc param)]"
    and same: "provided n' = provided n" "callbacks n' = callbacks n" "executions n' = executions n" "server n' = server n"
    and ups: "set (filter up_first (uploads n')) \<subseteq> set (filter up_first (uploads n))"
    and run: "\<And>d i. running_streams (clients n' d) i = running_streams (clients n d) i"
    and rem: "\<And>d x. remoteProcedures (clients n d) x \<noteq> None \<Longrightarrow> remoteProcedures (clients n' d) x \<noteq> None"
      "remoteProcedures (clients n' c) (service, i) \<noteq> None"
  shows "rpc_inv ids' n'"
proof -
  have "provided_to i n = []" using inv_provided_requested [OF inv, of i] new by blast
  moreover have "pendingRPCs (server n) i = None" using inv_tables(4) [OF inv] new by blast
  ultimately have none: "provided_to i n = []" "pendingRPCs (server n) i = None" by simp_all
  have hist: "provided_to j n' = provided_to j n" "received_by j n' = received_by j n" for j
    by (simp_all add: provided_to_def received_by_def same)
  have sub: "set (requested n) \<subseteq> set (requested n')" by (auto simp: upd)
  have "count_inv n'" using inv by (simp add: rpc_inv_def count_inv_def upd same)
  moreover have "order_inv n'"
    using inv none(1) by (simp add: rpc_inv_def order_inv_def upd hist)
  moreover have "tables_inv n'"
  proof (rule tables_invI)
    fix x
    assume "x \<in> set (links n')"
    then consider "x \<in> set (links n)" | "x = (Up c, RequestRemoteProcedureCall i service rpc param)"
      by (auto simp: upd)
    then show "message_ok n' x"
    proof cases
      case 1
      show ?thesis
        by (rule message_ok_mono [OF inv_message_ok [OF inv 1] sub]) (simp_all add: same)
    qed (simp add: upd same none)
  next
    fix e
    assume "e \<in> set (executions n')"
    then have "served n (ex_id e) (ex_client e) (ex_service e) (ex_rpc e)" using inv_tables(1) [OF inv] same by simp
    then show "served n' (ex_id e) (ex_client e) (ex_service e) (ex_rpc e)"
      by (rule served_mono) (simp_all add: sub same)
  next
    fix x
    assume "x \<in> set (callbacks n')"
    with inv_tables(3) [OF inv] caller_mono [OF _ sub] show "\<exists>service. caller n' (fst (snd x)) (fst x) service"
      by (metis same(2))
  next
    fix j
    assume "pendingRPCs (server n') j \<noteq> None"
    with inv_tables(4) [OF inv] sub show "j \<in> fst ` set (requested n')" by (auto simp: same)
  qed (use inv_tables(2) [OF inv] in \<open>auto simp: run same\<close>)
  moreover have "waiting_inv n'"
  proof (rule waiting_invI)
    fix j d s r
    assume *: "(j, d, s, r) \<in> set (requested n')" and "\<not> completed j n'"
    then have "\<not> completed j n" by (simp add: completed_def hist)
    with * inv_waiting(1) [OF inv] rem show "remoteProcedures (clients n' d) (s, j) \<noteq> None"
      by (auto simp: upd(1))
  next
    fix u
    assume "u \<in> set (uploads n')" "up_first u"
    then have "u \<in> set (uploads n)" using ups by auto
    with inv_waiting(2) [OF inv] \<open>up_first u\<close> rem(1)
    show "remoteProcedures (clients n' (up_client u)) (up_service u, up_id u) \<noteq> None" by blast
  qed
  ultimately show ?thesis using ids by (simp add: rpc_inv_def)
qed

lemma waiting_same:
  assumes inv: "rpc_inv ids n" and "requested n' = requested n" "clients n' = clients n" "uploads n' = uploads n"
    and "\<And>j. completed j n \<Longrightarrow> completed j n'"
  shows "waiting_inv n'"
proof (rule waiting_invI)
  fix i c s r
  assume "(i, c, s, r) \<in> set (requested n')" and "\<not> completed i n'"
  with inv_waiting(1) [OF inv] assms show "remoteProcedures (clients n' c) (s, i) \<noteq> None" by metis
qed (use inv_waiting(2) [OF inv] assms in metis)

text \<open>A request that the server relays.\<close>

lemma rpc_inv_relay_request:
  assumes inv: "rpc_inv ids n" and ls: "links n = as @ (Up c, RequestRemoteProcedureCall i s r p) # bs"
    and ses: "sessions (server n) s = Some d"
    and n': "n' = n\<lparr>server := (server n)\<lparr>pendingRPCs := (pendingRPCs (server n))(i \<mapsto> c)\<rparr>,
      links := as @ bs @ [(Down d, RequestRemoteProcedureCall i s r p)]\<rparr>"
  shows "rpc_inv ids n'"
proof -
  have msg: "(i, c, s, r) \<in> set (requested n)" "pendingRPCs (server n) i = None"
    using inv_message_ok [OF inv, of "(Up c, RequestRemoteProcedureCall i s r p)"] ls by simp_all
  have hist: "provided_to j n' = provided_to j n" "received_by j n' = received_by j n" for j
    by (simp_all add: provided_to_def received_by_def n')
  have once: "i \<notin> set (asked as)" "i \<notin> set (asked bs)" "i \<notin> set (map ex_id (executions n))"
    using inv_calls_once(1) [OF inv] by (auto simp: ls)
  have "ids_inv ids n'" using inv by (simp add: rpc_inv_def ids_inv_def n')
  moreover have "count_inv n'" using inv by (simp add: rpc_inv_def count_inv_def n' ls ac_simps)
  moreover have "order_inv n'"
    unfolding order_inv_def hist using inv_order [OF inv] by (auto simp: n' ls)
  moreover have "tables_inv n'"
  proof (rule tables_invI)
    fix x
    assume "x \<in> set (links n')"
    then consider "x \<in> set as \<union> set bs" | "x = (Down d, RequestRemoteProcedureCall i s r p)"
      by (auto simp: n')
    then show "message_ok n' x"
    proof cases
      case 1
      then have ok: "message_ok n x" using inv_message_ok [OF inv] by (auto simp: ls)
      show ?thesis
      proof (rule message_ok_mono [OF ok])
        fix j
        assume j: "call_id (snd x) = Some j" "is_up (fst x) \<or> request_ids (snd x) \<noteq> []"
        have "j \<noteq> i"
        proof
          assume "j = i"
          moreover have "j \<in> set (asked as) \<union> set (asked bs)" if "request_ids (snd x) \<noteq> []"
            using 1 that j(1) by (cases "snd x") (force simp: asked_def)+
          ultimately have "request_ids (snd x) = []" using once by auto
          with j \<open>j = i\<close> ok msg(2) show False
            by (cases x; cases "fst x"; cases "snd x") (auto simp: served_def)
        qed
        then show "pendingRPCs (server n') j = pendingRPCs (server n) j" by (simp add: n')
      qed (simp_all add: n')
    qed (use msg ses in \<open>auto simp: n' served_def\<close>)
  next
    fix e
    assume "e \<in> set (executions n')"
    then have e: "e \<in> set (executions n)" by (simp add: n')
    with once(3) have "ex_id e \<noteq> i" by auto
    with inv_tables(1) [OF inv e] show "served n' (ex_id e) (ex_client e) (ex_service e) (ex_rpc e)"
      by (simp add: served_def n')
  next
    fix j
    assume "pendingRPCs (server n') j \<noteq> None"
    with inv_tables(4) [OF inv, of j] msg(1) show "j \<in> fst ` set (requested n')"
      by (force simp: n' split: if_splits)
  qed (use inv_tables(2,3) [OF inv] in \<open>auto simp: n' caller_def\<close>)
  moreover have "waiting_inv n'"
    by (rule waiting_same [OF inv]) (simp_all add: completed_def hist, simp_all add: n')
  ultimately show ?thesis by (simp add: rpc_inv_def)
qed

text \<open>A request that is answered where it arrived.\<close>

lemma rpc_inv_answer:
  assumes inv: "rpc_inv ids n" and ls: "links n = as @ (l, RequestRemoteProcedureCall i s r p) # bs"
    and ok: "message_ok n (l', ResultRemoteProcedureCall code i s r' res)"
    and n': "n' = n\<lparr>links := as @ bs @ [(l', ResultRemoteProcedureCall code i s r' res)],
      provided := provided n @ [(i, OnComplete code res)]\<rparr>"
  shows "rpc_inv ids n'"
proof -
  have once: "i \<notin> set (asked as)" "i \<notin> set (asked bs)"
    using inv_calls_once(1) [OF inv] by (auto simp: ls)
  have none: "provided_to i n = []" using inv_order(3) [OF inv, of i] by (simp add: ls)
  have hist: "provided_to j n' = (if j = i then [OnComplete code res] else provided_to j n)"
    "received_by j n' = received_by j n" for j
    using none by (auto simp: provided_to_def received_by_def n')
  have same: "requested n' = requested n" "server n' = server n" "executions n' = executions n"
    "callbacks n' = callbacks n" "clients n' = clients n" "uploads n' = uploads n"
    by (simp_all add: n')
  have ok': "message_ok n' x" if "message_ok n x" for x
    by (rule message_ok_mono [OF that]) (simp_all add: same)
  have "ids_inv ids n'" using inv by (simp add: rpc_inv_def ids_inv_def same)
  moreover have "count_inv n'" using inv by (simp add: rpc_inv_def count_inv_def n' ls ac_simps)
  moreover have "order_inv n'"
  proof -
    have "received_by j n @ down_replies j (links n') @ up_replies j (links n') = provided_to j n'" for j
      using inv_order(1) [OF inv, of j] none unfolding hist by (cases l; cases l') (auto simp: n' ls)
    moreover have "provided_to j n' = []" if "j \<in> set (asked (links n'))" for j
      using inv_order(3) [OF inv, of j] that once unfolding hist by (auto simp: n' ls)
    ultimately show ?thesis
      unfolding order_inv_def hist(2) using inv_order(2) [OF inv] by (auto simp: hist(1))
  qed
  moreover have "tables_inv n'"
  proof (rule tables_invI)
    fix x
    assume "x \<in> set (links n')"
    then show "message_ok n' x"
      using inv_message_ok [OF inv, of x] ok by (intro ok') (auto simp: n' ls)
  qed (use inv_tables [OF inv] in \<open>auto simp: same served_def caller_def\<close>)
  moreover have "waiting_inv n'"
    by (rule waiting_same [OF inv]) (simp_all add: completed_def hist same)
  ultimately show ?thesis by (simp add: rpc_inv_def)
qed

text \<open>A request that starts to be served.\<close>

lemma rpc_inv_execute:
  assumes inv: "rpc_inv ids n" and ls: "links n = as @ (Down d, RequestRemoteProcedureCall i s r p) # bs"
    and e: "ex_client e = d" "ex_id e = i" "ex_service e = s" "ex_rpc e = r"
    and upd: "links n' = as @ bs" "executions n' = executions n @ [e]"
    and same: "requested n' = requested n" "provided n' = provided n" "callbacks n' = callbacks n"
      "server n' = server n" "uploads n' = uploads n"
    and run: "\<And>c j. running_streams (clients n' c) j \<noteq> None
      \<Longrightarrow> running_streams (clients n c) j \<noteq> None \<or> (c = d \<and> j = i \<and> takes_stream (ex_kind e))"
    and rem: "\<And>c. remoteProcedures (clients n' c) = remoteProcedures (clients n c)"
  shows "rpc_inv ids n'"
proof -
  have hist: "provided_to j n' = provided_to j n" "received_by j n' = received_by j n" for j
    by (simp_all add: provided_to_def received_by_def same)
  have ok': "message_ok n' x" if "message_ok n x" for x
    by (rule message_ok_mono [OF that]) (simp_all add: same)
  have "message_ok n (Down d, RequestRemoteProcedureCall i s r p)"
    by (rule inv_message_ok [OF inv]) (simp add: ls)
  then have "served n i d s r" by simp
  then have srv: "served n' i d s r" by (simp add: served_def same)
  have "ids_inv ids n'" using inv by (simp add: rpc_inv_def ids_inv_def same)
  moreover have "count_inv n'" using inv by (simp add: rpc_inv_def count_inv_def upd same ls e ac_simps)
  moreover have "order_inv n'"
    unfolding order_inv_def hist using inv_order [OF inv] by (auto simp: upd ls)
  moreover have "tables_inv n'"
  proof (rule tables_invI)
    fix x
    assume "x \<in> set (links n')"
    then show "message_ok n' x" using inv_message_ok [OF inv, of x] by (intro ok') (auto simp: upd ls)
  next
    fix c j
    assume "running_streams (clients n' c) j \<noteq> None"
    from run [OF this] inv_tables(2) [OF inv, of c j] e
    show "\<exists>e \<in> set (executions n'). ex_id e = j \<and> ex_client e = c \<and> takes_stream (ex_kind e)"
      by (auto simp: upd)
  next
    fix f
    assume "f \<in> set (executions n')"
    with inv_tables(1) [OF inv, of f] srv e show "served n' (ex_id f) (ex_client f) (ex_service f) (ex_rpc f)"
      by (auto simp: upd served_def same)
  qed (use inv_tables(3,4) [OF inv] in \<open>auto simp: same caller_def\<close>)
  moreover have "waiting_inv n'"
    using inv unfolding rpc_inv_def waiting_inv_def by (simp add: same rem completed_def hist)
  ultimately show ?thesis by (simp add: rpc_inv_def)
qed

text \<open>An execution that makes an item, or its answer.\<close>

lemma executing_unanswered:
  assumes inv: "rpc_inv ids n" and "e \<in> set (executions n)" and "x \<in> set (provided_to (ex_id e) n)"
  shows "\<not> is_complete x"
proof
  assume "is_complete x"
  with assms(3) have "ex_id e \<in> set (answered (provided n))" unfolding answered_iff by blast
  moreover have "ex_id e \<in> set (map ex_id (executions n))" using assms(2) by simp
  ultimately show False using inv_calls_once(1) [OF inv] by auto
qed

lemma butlast_ok: "\<forall>x \<in> set xs. \<not> is_complete x \<Longrightarrow> \<forall>x \<in> set (butlast (xs @ [y])). \<not> is_complete x"
  by simp

lemma rpc_inv_yield:
  assumes inv: "rpc_inv ids n" and e: "e \<in> set (executions n)"
    and n': "n' = n\<lparr>links := links n @ [(Up (ex_client e), SendServerStreaming (ex_id e) (ex_service e) item)],
      provided := provided n @ [(ex_id e, OnItem item)]\<rparr>"
  shows "rpc_inv ids n'"
proof -
  have hist: "provided_to j n' = provided_to j n @ (if j = ex_id e then [OnItem item] else [])"
    "received_by j n' = received_by j n" for j
    by (auto simp: provided_to_def received_by_def n')
  have same: "requested n' = requested n" "server n' = server n" "executions n' = executions n"
    "callbacks n' = callbacks n" "clients n' = clients n" "uploads n' = uploads n"
    by (simp_all add: n')
  have ok': "message_ok n' x" if "message_ok n x" for x
    by (rule message_ok_mono [OF that]) (simp_all add: same)
  have "ids_inv ids n'" using inv by (simp add: rpc_inv_def ids_inv_def same)
  moreover have "count_inv n'" using inv by (simp add: rpc_inv_def count_inv_def n')
  moreover have "order_inv n'"
  proof -
    have "received_by j n @ down_replies j (links n') @ up_replies j (links n') = provided_to j n'" for j
      using inv_order(1) [OF inv, of j] unfolding hist by (auto simp: n' simp flip: append_assoc)
    moreover have "\<not> is_complete x" if "x \<in> set (butlast (provided_to j n'))" for j x
      using that inv_order(2) [OF inv, of x j] butlast_ok executing_unanswered [OF inv e]
      unfolding hist by (auto split: if_splits)
    moreover have "provided_to j n' = []" if "j \<in> set (asked (links n'))" for j
    proof -
      have "j \<in> set (asked (links n))" using that by (simp add: n')
      moreover have "ex_id e \<notin> set (asked (links n))" using inv_calls_once(1) [OF inv] e by auto
      ultimately show ?thesis unfolding hist using inv_order(3) [OF inv, of j] by auto
    qed
    ultimately show ?thesis unfolding order_inv_def hist(2) by blast
  qed
  moreover have "tables_inv n'"
  proof (rule tables_invI)
    fix x
    assume "x \<in> set (links n')"
    then consider "x \<in> set (links n)" | "x = (Up (ex_client e), SendServerStreaming (ex_id e) (ex_service e) item)"
      by (auto simp: n')
    then show "message_ok n' x"
    proof cases
      case 2
      with inv_tables(1) [OF inv e] show ?thesis by (auto simp: served_def same)
    qed (simp add: ok' inv_message_ok [OF inv])
  qed (use inv_tables [OF inv] in \<open>auto simp: same served_def caller_def\<close>)
  moreover have "waiting_inv n'"
    by (rule waiting_same [OF inv]) (simp_all add: completed_def hist same)
  ultimately show ?thesis by (simp add: rpc_inv_def)
qed

lemma rpc_inv_end:
  assumes inv: "rpc_inv ids n" and ex: "executions n = as @ e # bs"
    and upd: "executions n' = as @ bs"
      "links n' = links n @ [(Up (ex_client e), ResultRemoteProcedureCall code (ex_id e) (ex_service e) (ex_rpc e) res)]"
      "provided n' = provided n @ [(ex_id e, OnComplete code res)]"
    and same: "requested n' = requested n" "callbacks n' = callbacks n" "server n' = server n" "uploads n' = uploads n"
    and run: "\<And>c j. running_streams (clients n' c) j =
      (if takes_stream (ex_kind e) \<and> c = ex_client e \<and> j = ex_id e then None else running_streams (clients n c) j)"
    and rem: "\<And>c. remoteProcedures (clients n' c) = remoteProcedures (clients n c)"
  shows "rpc_inv ids n'"
proof -
  have e: "e \<in> set (executions n)" by (simp add: ex)
  have hist: "provided_to j n' = provided_to j n @ (if j = ex_id e then [OnComplete code res] else [])"
    "received_by j n' = received_by j n" for j
    by (auto simp: provided_to_def received_by_def upd same)
  have ok': "message_ok n' x" if "message_ok n x" for x
    by (rule message_ok_mono [OF that]) (simp_all add: same)
  have "ids_inv ids n'" using inv by (simp add: rpc_inv_def ids_inv_def same)
  moreover have "count_inv n'" using inv by (simp add: rpc_inv_def count_inv_def upd same ex ac_simps)
  moreover have "order_inv n'"
  proof -
    have "received_by j n @ down_replies j (links n') @ up_replies j (links n') = provided_to j n'" for j
      using inv_order(1) [OF inv, of j] unfolding hist by (auto simp: upd simp flip: append_assoc)
    moreover have "\<not> is_complete x" if "x \<in> set (butlast (provided_to j n'))" for j x
      using that inv_order(2) [OF inv, of x j] butlast_ok executing_unanswered [OF inv e]
      unfolding hist by (auto split: if_splits)
    moreover have "provided_to j n' = []" if "j \<in> set (asked (links n'))" for j
    proof -
      have "j \<in> set (asked (links n))" using that by (simp add: upd)
      moreover have "ex_id e \<notin> set (asked (links n))" using inv_calls_once(1) [OF inv] e by auto
      ultimately show ?thesis unfolding hist using inv_order(3) [OF inv, of j] by auto
    qed
    ultimately show ?thesis unfolding order_inv_def hist(2) by blast
  qed
  moreover have "tables_inv n'"
  proof (rule tables_invI)
    fix x
    assume "x \<in> set (links n')"
    then consider "x \<in> set (links n)"
      | "x = (Up (ex_client e), ResultRemoteProcedureCall code (ex_id e) (ex_service e) (ex_rpc e) res)"
      by (auto simp: upd)
    then show "message_ok n' x"
    proof cases
      case 2
      with inv_tables(1) [OF inv e] show ?thesis by (auto simp: served_def same)
    qed (simp add: ok' inv_message_ok [OF inv])
  next
    fix c j
    assume r: "running_streams (clients n' c) j \<noteq> None"
    then have "running_streams (clients n c) j \<noteq> None" by (simp add: run split: if_splits)
    from inv_tables(2) [OF inv this] obtain f where
      f: "f \<in> set (executions n)" "ex_id f = j" "ex_client f = c" "takes_stream (ex_kind f)" by blast
    with r have "f \<noteq> e" by (auto simp: run)
    with f show "\<exists>f \<in> set (executions n'). ex_id f = j \<and> ex_client f = c \<and> takes_stream (ex_kind f)"
      by (auto simp: upd ex)
  next
    fix f
    assume "f \<in> set (executions n')"
    then have "f \<in> set (executions n)" by (auto simp: upd ex)
    with inv_tables(1) [OF inv, of f] show "served n' (ex_id f) (ex_client f) (ex_service f) (ex_rpc f)"
      by (simp add: served_def same)
  qed (use inv_tables(3,4) [OF inv] in \<open>auto simp: same caller_def\<close>)
  moreover have "waiting_inv n'"
    using inv unfolding rpc_inv_def waiting_inv_def by (simp add: same rem completed_def hist)
  ultimately show ?thesis by (simp add: rpc_inv_def)
qed

text \<open>A reply that the server relays, and a reply that reaches its caller.\<close>

lemma reply_not_request: "reply i m \<noteq> [] \<Longrightarrow> request_ids m = []"
  by (cases m) simp_all

lemma reply_of_call: "reply i m \<noteq> [] \<Longrightarrow> call_id m = Some i \<and> (\<forall>j. j \<noteq> i \<longrightarrow> reply j m = [])"
  by (cases m) (auto split: if_splits)

lemma rpc_inv_relay_reply:
  assumes inv: "rpc_inv ids n" and ls: "links n = as @ (Up d, m) # bs" and first: "\<forall>x \<in> set as. fst x \<noteq> Up d"
    and r: "reply i m = [cb]" and pend: "pendingRPCs (server n) i = Some c"
    and n': "n' = n\<lparr>server := (if is_complete cb then (server n)\<lparr>pendingRPCs := (pendingRPCs (server n))(i := None)\<rparr> else server n),
      links := as @ bs @ [(Down c, m)]\<rparr>"
  shows "rpc_inv ids n'"
proof -
  note m = reply_not_request [of i m] reply_of_call [of i m]
  have hist: "provided_to j n' = provided_to j n" "received_by j n' = received_by j n" for j
    by (simp_all add: provided_to_def received_by_def n')
  have same: "requested n' = requested n" "executions n' = executions n"
    "callbacks n' = callbacks n" "clients n' = clients n" "uploads n' = uploads n" "provided n' = provided n"
    "sessions (server n') = sessions (server n)"
    by (simp_all add: n')
  have none: "up_replies i as = []" using first_up_reply [OF inv ls first] r by simp
  have at: "received_by i n @ down_replies i (as @ bs) @ cb # up_replies i bs = provided_to i n"
    using inv_order(1) [OF inv, of i] none r by (simp add: ls)
  have alone: "up_replies i bs = [] \<and> i \<notin> set (asked (as @ bs)) \<and> i \<notin> ex_id ` set (executions n)" if "is_complete cb"
  proof -
    have "provided_to i n = (received_by i n @ down_replies i (as @ bs)) @ cb # up_replies i bs" using at by simp
    from complete_is_last [OF inv this that] have "up_replies i bs = []" .
    moreover have "i \<in> set (answered (provided n))" unfolding answered_iff using at [symmetric] that by auto
    ultimately show ?thesis using inv_calls_once(1) [OF inv] by (auto simp: ls)
  qed
  have pend': "pendingRPCs (server n') j = pendingRPCs (server n) j" if "j = i \<Longrightarrow> \<not> is_complete cb" for j
    using that by (auto simp: n')
  have "ids_inv ids n'" using inv by (simp add: rpc_inv_def ids_inv_def same)
  moreover have "count_inv n'"
    using inv r m by (simp add: rpc_inv_def count_inv_def n' ls ac_simps)
  moreover have "order_inv n'"
  proof -
    have "received_by j n' @ down_replies j (links n') @ up_replies j (links n') = provided_to j n'" for j
      using inv_order(1) [OF inv, of j] m r none unfolding hist by (cases "j = i") (simp_all add: n' ls)
    then show ?thesis
      unfolding order_inv_def hist using inv_order(2,3) [OF inv] m r by (auto simp: n' ls)
  qed
  moreover have "tables_inv n'"
  proof (rule tables_invI)
    fix x
    assume "x \<in> set (links n')"
    then consider "x \<in> set as \<union> set bs" | "x = (Down c, m)" by (auto simp: n')
    then show "message_ok n' x"
    proof cases
      case 1
      then have ok: "message_ok n x" using inv_message_ok [OF inv] by (auto simp: ls)
      show ?thesis
      proof (rule message_ok_mono [OF ok])
        fix j
        assume j: "call_id (snd x) = Some j" "is_up (fst x) \<or> request_ids (snd x) \<noteq> []"
        show "pendingRPCs (server n') j = pendingRPCs (server n) j"
        proof (rule pend', rule notI)
          assume "j = i" "is_complete cb"
          with alone none have "up_replies i (as @ bs) = []" "i \<notin> set (asked (as @ bs))" by simp_all
          moreover have "j \<in> set (asked (as @ bs))" if "request_ids (snd x) \<noteq> []"
            using 1 that j(1) by (cases "snd x") (force simp: asked_def)+
          moreover have "reply j (snd x) \<noteq> []" if "request_ids (snd x) = []"
            using that j(1) by (cases "snd x") simp_all
          ultimately show False
            using j(2) 1 \<open>j = i\<close> unfolding up_replies_empty_iff by (cases x; cases "fst x") auto
        qed
      qed (simp_all add: same)
    next
      case 2
      have "message_ok n (Up d, m)" by (rule inv_message_ok [OF inv]) (simp add: ls)
      with pend r 2 show ?thesis
        by (cases m) (auto simp: served_def caller_def same split: if_splits)
    qed
  next
    fix e
    assume e: "e \<in> set (executions n')"
    then have "pendingRPCs (server n') (ex_id e) = pendingRPCs (server n) (ex_id e)"
      by (intro pend' notI) (use alone in \<open>auto simp: same\<close>)
    with inv_tables(1) [OF inv, of e] e show "served n' (ex_id e) (ex_client e) (ex_service e) (ex_rpc e)"
      by (simp add: served_def same)
  next
    fix j
    assume "pendingRPCs (server n') j \<noteq> None"
    then have "pendingRPCs (server n) j \<noteq> None" by (auto simp: n' split: if_splits)
    with inv_tables(4) [OF inv, of j] show "j \<in> fst ` set (requested n')" by (simp add: same)
  qed (use inv_tables(2,3) [OF inv] in \<open>auto simp: same caller_def\<close>)
  moreover have "waiting_inv n'"
    by (rule waiting_same [OF inv]) (simp_all add: completed_def hist same)
  ultimately show ?thesis by (simp add: rpc_inv_def)
qed

lemma reply_awaited:
  assumes inv: "rpc_inv ids n" and ls: "links n = as @ (Down c, m) # bs" and r: "reply i m = [cb]"
    and s: "caller n i c s"
  shows "remoteProcedures (clients n c) (s, i) \<noteq> None" and "\<not> completed i n"
proof -
  have "received_by i n @ (down_replies i as @ cb # down_replies i bs) @ up_replies i (links n) = provided_to i n"
    using inv_order(1) [OF inv, of i] r by (simp add: ls)
  then have at: "provided_to i n = received_by i n @ (down_replies i as @ cb # down_replies i bs @ up_replies i (links n))"
    by simp
  have "\<not> is_complete x" if "x \<in> set (received_by i n)" for x
  proof -
    from that have "x \<in> set (butlast (provided_to i n))" unfolding at by (simp add: butlast_append)
    with inv_order(2) [OF inv] show ?thesis by blast
  qed
  then show "\<not> completed i n" unfolding completed_def by blast
  with s inv_waiting(1) [OF inv] show "remoteProcedures (clients n c) (s, i) \<noteq> None"
    unfolding caller_def by blast
qed

lemma rpc_inv_receive_reply:
  assumes inv: "rpc_inv ids n" and ls: "links n = as @ (Down c, m) # bs" and first: "\<forall>x \<in> set as. fst x \<noteq> Down c"
    and r: "reply i m = [cb]" and s: "caller n i c s"
    and upd: "links n' = as @ bs" "callbacks n' = callbacks n @ [(c, i, cb)]"
    and same: "requested n' = requested n" "provided n' = provided n" "executions n' = executions n"
      "server n' = server n" "uploads n' = uploads n"
    and run: "\<And>d. running_streams (clients n' d) = running_streams (clients n d)"
    and rem: "\<And>d x. remoteProcedures (clients n d) x \<noteq> None \<Longrightarrow> \<not> (is_complete cb \<and> d = c \<and> x = (s, i))
      \<Longrightarrow> remoteProcedures (clients n' d) x \<noteq> None"
  shows "rpc_inv ids n'"
proof -
  note m = reply_not_request [of i m] reply_of_call [of i m]
  have hist: "provided_to j n' = provided_to j n"
    "received_by j n' = received_by j n @ (if j = i then [cb] else [])" for j
    by (auto simp: provided_to_def received_by_def same upd)
  have none: "down_replies i as = []" using first_down_reply [OF inv ls first] r by simp
  have ok': "message_ok n' x" if "message_ok n x" for x
    by (rule message_ok_mono [OF that]) (simp_all add: same)
  have req: "i \<in> fst ` set (requested n)" using s unfolding caller_def by force
  have "ids_inv ids n'" using inv by (simp add: rpc_inv_def ids_inv_def same)
  moreover have "count_inv n'"
    using inv r m by (simp add: rpc_inv_def count_inv_def upd same ls)
  moreover have "order_inv n'"
  proof -
    have "received_by j n' @ down_replies j (links n') @ up_replies j (links n') = provided_to j n'" for j
      using inv_order(1) [OF inv, of j] m r none unfolding hist by (cases "j = i") (simp_all add: upd ls)
    then show ?thesis
      unfolding order_inv_def hist(1) using inv_order(2,3) [OF inv] m r by (auto simp: upd ls)
  qed
  moreover have "tables_inv n'"
  proof (rule tables_invI)
    fix x
    assume "x \<in> set (links n')"
    then show "message_ok n' x" using inv_message_ok [OF inv, of x] by (intro ok') (auto simp: upd ls)
  next
    fix x
    assume "x \<in> set (callbacks n')"
    then consider "x \<in> set (callbacks n)" | "x = (c, i, cb)" by (auto simp: upd)
    then have "\<exists>t. caller n (fst (snd x)) (fst x) t"
      using inv_tables(3) [OF inv, of x] s by cases auto
    then show "\<exists>service. caller n' (fst (snd x)) (fst x) service" by (simp add: caller_def same)
  qed (use inv_tables(1,2,4) [OF inv] in \<open>auto simp: same run served_def\<close>)
  moreover have "waiting_inv n'"
  proof (rule waiting_invI)
    fix j d t q
    assume *: "(j, d, t, q) \<in> set (requested n')" and nc: "\<not> completed j n'"
    then have "\<not> completed j n" by (auto simp: completed_def hist)
    with * inv_waiting(1) [OF inv] have "remoteProcedures (clients n d) (t, j) \<noteq> None" by (simp add: same)
    moreover have "\<not> (is_complete cb \<and> d = c \<and> (t, j) = (s, i))" using nc by (auto simp: completed_def hist)
    ultimately show "remoteProcedures (clients n' d) (t, j) \<noteq> None" by (rule rem)
  next
    fix u
    assume u: "u \<in> set (uploads n')" "up_first u"
    then have "remoteProcedures (clients n (up_client u)) (up_service u, up_id u) \<noteq> None"
      using inv_waiting(2) [OF inv] by (simp add: same)
    moreover have "up_id u \<noteq> i"
    proof -
      have "up_id u \<in> set (fresh_uploads (uploads n))" using u by (auto simp: fresh_uploads_def same)
      with req inv show ?thesis by (auto simp: rpc_inv_def ids_inv_def)
    qed
    ultimately show "remoteProcedures (clients n' (up_client u)) (up_service u, up_id u) \<noteq> None"
      by (intro rem) auto
  qed
  ultimately show ?thesis by (simp add: rpc_inv_def)
qed

subsection \<open>Every step keeps the invariant\<close>

lemma with_client_simps [simp]:
  "server (with_client c f n) = server n" "links (with_client c f n) = links n"
  "input_channels (with_client c f n) = input_channels n" "uploads (with_client c f n) = uploads n"
  "executions (with_client c f n) = executions n" "requested (with_client c f n) = requested n"
  "provided (with_client c f n) = provided n" "callbacks (with_client c f n) = callbacks n"
  "clients (with_client c f n) = (clients n)(c := f (clients n c))"
  by (simp_all add: with_client_def)

lemma transmit_simps [simp]:
  "server (transmit l ms n) = server n" "links (transmit l ms n) = links n @ map (Pair l) ms"
  "input_channels (transmit l ms n) = input_channels n" "uploads (transmit l ms n) = uploads n"
  "executions (transmit l ms n) = executions n" "requested (transmit l ms n) = requested n"
  "provided (transmit l ms n) = provided n" "callbacks (transmit l ms n) = callbacks n"
  "clients (transmit l ms n) = clients n"
  by (simp_all add: transmit_def)

lemma calls_of_simps [simp]:
  "calls_of [] = []" "calls_of (x # ls) = (if is_call (snd x) then [x] else []) @ calls_of ls"
  "calls_of (ls @ ks) = calls_of ls @ calls_of ks"
  by (simp_all add: calls_of_def)

lemma fresh_distinct: "rpc_inv ids n \<Longrightarrow> distinct (fresh_uploads (uploads n))"
  by (simp add: rpc_inv_def ids_inv_def)

text \<open>Steps that change only clients, and there no table that a call under way needs.\<close>

lemma rpc_inv_client:
  assumes "rpc_inv ids n"
    and "\<And>cl. running_streams (f cl) = running_streams cl"
    and "\<And>cl x. remoteProcedures cl x \<noteq> None \<Longrightarrow> remoteProcedures (f cl) x \<noteq> None"
  shows "rpc_inv ids (with_client c f n)"
proof (rule rpc_inv_neutral [OF assms(1)])
  show "running_streams (clients n d) i \<noteq> None" if "running_streams (clients (with_client c f n) d) i \<noteq> None" for d i
    using that assms(2) by (cases "d = c") simp_all
  show "remoteProcedures (clients (with_client c f n) d) x \<noteq> None" if "remoteProcedures (clients n d) x \<noteq> None" for d x
    using assms(3) [OF that] that by (cases "d = c") simp_all
qed (use fresh_distinct [OF assms(1)] in simp_all)

lemma rpc_inv_transmit:
  assumes "rpc_inv ids n" and "\<forall>m \<in> set ms. \<not> is_call m"
  shows "rpc_inv ids (transmit l ms n)"
proof (rule rpc_inv_neutral [OF assms(1)])
  show "calls_of (links (transmit l ms n)) = calls_of (links n)"
    using assms(2) by (auto simp: calls_of_def filter_empty_conv)
qed (use fresh_distinct [OF assms(1)] in auto)

lemma rpc_inv_start_upload:
  assumes inv: "rpc_inv ids n" and new: "i \<notin> set ids" and rem: "remoteProcedures (clients n c) (s, i) \<noteq> None"
  shows "rpc_inv (ids @ [i]) (start_upload c i s r n)"
proof -
  let ?n = "start_upload c i s r n"
  have same: "requested ?n = requested n" "provided ?n = provided n" "callbacks ?n = callbacks n"
    "executions ?n = executions n" "server ?n = server n" "clients ?n = clients n" "links ?n = links n"
    by (simp_all add: start_upload_def)
  have hist: "provided_to j ?n = provided_to j n" "received_by j ?n = received_by j n" for j
    by (simp_all add: provided_to_def received_by_def same)
  have ok': "message_ok ?n x" if "message_ok n x" for x
    by (rule message_ok_mono [OF that]) (simp_all add: same)
  have "ids_inv (ids @ [i]) ?n"
    using inv new by (auto simp: rpc_inv_def ids_inv_def start_upload_def)
  moreover have "count_inv ?n" using inv by (simp add: rpc_inv_def count_inv_def same)
  moreover have "order_inv ?n" using inv by (simp add: rpc_inv_def order_inv_def same hist)
  moreover have "tables_inv ?n"
    by (rule tables_invI)
      (use inv_tables [OF inv] inv_message_ok [OF inv] ok' in \<open>auto simp: same served_def caller_def\<close>)
  moreover have "waiting_inv ?n"
    using inv rem unfolding rpc_inv_def waiting_inv_def
    by (auto simp: same completed_def hist) (auto simp: start_upload_def)
  ultimately show ?thesis by (simp add: rpc_inv_def)
qed

lemma open_call_simps [simp]:
  "running_streams (open_call k i cl) = running_streams cl"
  "remoteProcedures (open_call k i cl) = remoteProcedures cl"
  "running_streams (set_completion_callback s i cl) = running_streams cl"
  "running_streams (set_server_streaming_callback s i cl) = running_streams cl"
  by (simp_all add: open_call_def set_completion_callback_def set_server_streaming_callback_def)

lemma callback_set [simp]:
  "remoteProcedures (set_completion_callback s i cl) (s, i) \<noteq> None"
  by (simp add: set_completion_callback_def)

lemma callback_kept [simp]:
  "remoteProcedures cl x = Some y \<Longrightarrow> \<exists>z. remoteProcedures (set_completion_callback s i cl) x = Some z"
  "remoteProcedures cl x = Some y \<Longrightarrow> \<exists>z. remoteProcedures (set_server_streaming_callback s i cl) x = Some z"
  by (auto simp: set_completion_callback_def set_server_streaming_callback_def)

lemma callback_kept_both [simp]:
  "remoteProcedures cl x = Some y
    \<Longrightarrow> \<exists>z. remoteProcedures (set_completion_callback s i (set_server_streaming_callback s i (open_call k i cl))) x = Some z"
  by (auto simp: set_completion_callback_def set_server_streaming_callback_def open_call_def)

lemma rpc_send_simps [simp]:
  "requested (rpc_send c i s r p n) = requested n @ [(i, c, s, r)]"
  "links (rpc_send c i s r p n) = links n @ [(Up c, RequestRemoteProcedureCall i s r p)]"
  "provided (rpc_send c i s r p n) = provided n" "callbacks (rpc_send c i s r p n) = callbacks n"
  "executions (rpc_send c i s r p n) = executions n" "server (rpc_send c i s r p n) = server n"
  "uploads (rpc_send c i s r p n) = uploads n" "clients (rpc_send c i s r p n) = clients n"
  "input_channels (rpc_send c i s r p n) = input_channels n"
  by (simp_all add: rpc_send_def)

lemma rpc_inv_call_sent:
  assumes inv: "rpc_inv ids n" and new: "i \<notin> set ids" and rem: "remoteProcedures (clients n c) (s, i) \<noteq> None"
  shows "rpc_inv (ids @ [i]) (rpc_send c i s r p n)"
proof (rule rpc_inv_request [OF inv])
  have sub: "set (map fst (requested n)) \<subseteq> set ids" "set (fresh_uploads (uploads n)) \<subseteq> set ids"
    using inv by (auto simp: rpc_inv_def ids_inv_def)
  show "i \<notin> fst ` set (requested n)" using sub(1) new by auto
  show "ids_inv (ids @ [i]) (rpc_send c i s r p n)"
    using inv new sub by (auto simp: rpc_inv_def ids_inv_def)
qed (use rem in simp_all)

lemma rpc_inv_call:
  assumes inv: "rpc_inv ids n" and new: "i \<notin> set ids"
  shows "rpc_inv (ids @ [i]) (rpc_call_event c i k s r p n)"
proof -
  let ?one = "with_client c (\<lambda>cl. set_completion_callback s i (open_call k i cl)) n"
  let ?two = "with_client c (\<lambda>cl. set_completion_callback s i
      (set_server_streaming_callback s i (open_call k i cl))) n"
  have "rpc_inv ids ?one" and "rpc_inv ids ?two"
    by (rule rpc_inv_client [OF inv]; simp; fastforce)+
  moreover have "remoteProcedures (clients ?one c) (s, i) \<noteq> None" "remoteProcedures (clients ?two c) (s, i) \<noteq> None"
    by simp_all
  ultimately show ?thesis
    using rpc_inv_call_sent [OF _ new] rpc_inv_start_upload [OF _ new]
    by (cases k) (simp_all only: rpc_call_event.simps call_remote_procedure_def call_server_streaming_def
        call_client_streaming_def call_client_server_streaming_def)
qed

text \<open>Uploads.\<close>

lemma filter_nth_split:
  assumes "k < length xs"
  shows "filter P xs = filter P (take k xs) @ filter P [xs ! k] @ filter P (drop (Suc k) xs)"
  by (subst id_take_nth_drop [OF assms]) simp

lemma rpc_inv_upload_item:
  assumes inv: "rpc_inv ids n" and k: "k < length (uploads n)"
  shows "rpc_inv ids (upload_item k item n)"
proof -
  let ?u = "uploads n ! k"
  have u: "?u \<in> set (uploads n)" using k by simp
  show ?thesis
  proof (cases "up_first ?u")
    case True
    let ?us = "(uploads n)[k := ?u\<lparr>up_first := False\<rparr>]"
    let ?n = "(rpc_send (up_client ?u) (up_id ?u) (up_service ?u) (up_rpc ?u) item n)\<lparr>uploads := ?us\<rparr>"
    let ?a = "fresh_uploads (take k (uploads n))" and ?b = "fresh_uploads (drop (Suc k) (uploads n))"
    have split: "fresh_uploads (uploads n) = ?a @ up_id ?u # ?b"
      using True by (simp add: fresh_uploads_def filter_nth_split [OF k])
    have split': "fresh_uploads ?us = ?a @ ?b"
      using k by (simp add: upd_conv_take_nth_drop)
    have ids: "distinct (map fst (requested n) @ ?a @ up_id ?u # ?b)"
      "set (map fst (requested n) @ ?a @ up_id ?u # ?b) \<subseteq> set ids"
      using inv unfolding rpc_inv_def ids_inv_def split by auto
    have "rpc_inv ids ?n"
    proof (rule rpc_inv_request [OF inv])
      show "up_id ?u \<notin> fst ` set (requested n)" using ids(1) by auto
      show "ids_inv ids ?n" using ids unfolding ids_inv_def by (auto simp: split')
      show "set (filter up_first (uploads ?n)) \<subseteq> set (filter up_first (uploads n))"
        by (auto dest: set_update_subset_insert [THEN subsetD])
      show "remoteProcedures (clients ?n (up_client ?u)) (up_service ?u, up_id ?u) \<noteq> None"
        using inv_waiting(2) [OF inv u True] by simp
    qed simp_all
    then show ?thesis using True by (simp add: upload_item_def Let_def)
  next
    case False
    then show ?thesis
      using inv rpc_inv_transmit [OF inv, of "[SendClientSteaming _ _ _]"]
      by (simp add: upload_item_def send_client_streaming_def Let_def)
  qed
qed

lemma remove_nth_subset: "set (remove_nth k xs) \<subseteq> set xs"
  by (auto simp: remove_nth_def dest: in_set_takeD in_set_dropD)

lemma rpc_inv_upload_end:
  assumes inv: "rpc_inv ids n" and k: "k < length (uploads n)"
  shows "rpc_inv ids (upload_end k thrown n)"
proof -
  let ?n = "n\<lparr>uploads := remove_nth k (uploads n)\<rparr>"
  have d: "distinct (fresh_uploads (remove_nth k (uploads n)))"
    using fresh_distinct [OF inv] unfolding fresh_uploads_def filter_nth_split [OF k]
    by (auto simp: remove_nth_def)
  have "rpc_inv ids ?n"
    by (intro rpc_inv_neutral [OF inv]) (use d remove_nth_subset [of k "uploads n"] in auto)
  moreover from this have "rpc_inv ids (transmit (Up (up_client (uploads n ! k)))
      [AbortClientStreamingRPC (up_id (uploads n ! k)) (up_service (uploads n ! k))] ?n)"
    by (rule rpc_inv_transmit) simp
  ultimately show ?thesis by (simp add: upload_end_def send_abort_client_streaming_def Let_def)
qed

lemma rpc_inv_server_receive:
  assumes inv: "rpc_inv ids n" and take: "take_first (Up c) (links n) = Some (m, ls)"
  shows "rpc_inv ids (server_receive c m (n\<lparr>links := ls\<rparr>))"
proof -
  from take_first_split [OF take] obtain as bs where
    at: "links n = as @ (Up c, m) # bs" "ls = as @ bs" "\<forall>x \<in> set as. fst x \<noteq> Up c" by blast
  note msg = inv_message_ok [OF inv, of "(Up c, m)"]
  have neutral: "rpc_inv ids (server_receive c m (n\<lparr>links := as @ bs\<rparr>))"
    if "\<not> is_call m" "\<forall>x \<in> set (fst (server_handle c m (server n))). \<not> is_call (snd x)"
      "pendingRPCs (snd (server_handle c m (server n))) = pendingRPCs (server n)"
      "sessions (server n) \<subseteq>\<^sub>m sessions (snd (server_handle c m (server n)))"
  proof (rule rpc_inv_neutral [OF inv])
    have "server_answers m (server n) = []" using that(1) by (cases m) simp_all
    then show "provided (server_receive c m (n\<lparr>links := as @ bs\<rparr>)) = provided n"
      by (simp add: server_receive_def split_beta)
    show "calls_of (links (server_receive c m (n\<lparr>links := as @ bs\<rparr>))) = calls_of (links n)"
      using that(1,2) by (auto simp: server_receive_def at calls_of_def filter_empty_conv split_beta)
  qed (use that fresh_distinct [OF inv] in \<open>simp_all add: server_receive_def split_beta\<close>)
  show ?thesis
  proof (cases m)
    case (RequestRegisterRPCClient s)
    have "sessions (server n) \<subseteq>\<^sub>m (sessions (server n))(s \<mapsto> c)" if "sessions (server n) s = None"
      using that by (auto simp: map_le_def)
    then show ?thesis unfolding at(2)
      by (intro neutral) (auto simp: RequestRegisterRPCClient)
  next
    case (RequestRemoteProcedureCall i s r p)
    have ok: "(i, c, s, r) \<in> set (requested n)" "pendingRPCs (server n) i = None"
      using msg by (simp_all add: at(1) RequestRemoteProcedureCall)
    show ?thesis
    proof (cases "sessions (server n) s")
      case None
      have "rpc_inv ids (n\<lparr>links := as @ bs @ [(Down c, ResultRemoteProcedureCall RpcErrorInternalError i s [] [])],
          provided := provided n @ [(i, OnComplete RpcErrorInternalError [])]\<rparr>)"
        by (rule rpc_inv_answer [OF inv at(1) [unfolded RequestRemoteProcedureCall] _ refl])
          (use ok in \<open>auto simp: caller_def\<close>)
      with None show ?thesis by (simp add: RequestRemoteProcedureCall server_receive_def at(2))
    next
      case (Some d)
      from rpc_inv_relay_request [OF inv at(1) [unfolded RequestRemoteProcedureCall] Some refl] ok(2) Some
      show ?thesis by (simp add: RequestRemoteProcedureCall server_receive_def at(2))
    qed
  next
    case (ResultRemoteProcedureCall code i s r res)
    from msg obtain d where d: "pendingRPCs (server n) i = Some d"
      by (auto simp: at(1) ResultRemoteProcedureCall served_def)
    from rpc_inv_relay_reply [OF inv at(1,3) _ d refl, of "OnComplete code res"] d
    show ?thesis by (simp add: ResultRemoteProcedureCall server_receive_def at(2))
  next
    case (SendServerStreaming i s item)
    from msg obtain d where d: "pendingRPCs (server n) i = Some d"
      by (auto simp: at(1) SendServerStreaming served_def)
    from rpc_inv_relay_reply [OF inv at(1,3) _ d refl, of "OnItem item"] d
    show ?thesis by (simp add: SendServerStreaming server_receive_def at(2))
  next
    case (SendClientSteaming i s p)
    then show ?thesis unfolding at(2) by (intro neutral) (simp_all split: option.split)
  next
    case (AbortClientStreamingRPC i s)
    then show ?thesis unfolding at(2) by (intro neutral) (simp_all split: option.split)
  qed (unfold at(2), (rule neutral; simp)+)
qed

lemma rpc_inv_drop:
  assumes inv: "rpc_inv ids n" and "links n = as @ (l, m) # bs" and "\<not> is_call m"
  shows "rpc_inv ids (n\<lparr>links := as @ bs\<rparr>)"
  by (rule rpc_inv_neutral [OF inv]) (use assms fresh_distinct [OF inv] in simp_all)

lemma rpc_inv_channels:
  assumes "rpc_inv ids n"
  shows "rpc_inv ids (n\<lparr>input_channels := xs\<rparr>)"
  by (rule rpc_inv_neutral [OF assms]) (use fresh_distinct [OF assms] in simp_all)

lemma rpc_inv_handle_request:
  assumes inv: "rpc_inv ids n" and at: "links n = as @ (Down c, RequestRemoteProcedureCall i s r p) # bs"
  shows "rpc_inv ids (handle_request_remote_procedure_call c i s r p (n\<lparr>links := as @ bs\<rparr>))"
proof (cases "procedures (clients n c) (make_procedure_key s r)")
  case None
  have "served n i c s r" using inv_message_ok [OF inv, of "(Down c, RequestRemoteProcedureCall i s r p)"] by (simp add: at)
  then have "message_ok n (Up c, ResultRemoteProcedureCall RpcErrorInvalidRpcName i s r [])" by auto
  from rpc_inv_answer [OF inv at this refl] None show ?thesis
    by (simp add: handle_request_remote_procedure_call_def send_result_def transmit_def)
next
  case (Some k)
  have idle: "running_streams (clients n c) i = None"
  proof (rule ccontr)
    assume "running_streams (clients n c) i \<noteq> None"
    with inv_tables(2) [OF inv] have "i \<in> set (map ex_id (executions n))" by fastforce
    with inv_calls_once(1) [OF inv] show False by (auto simp: at)
  qed
  show ?thesis
    unfolding handle_request_remote_procedure_call_def using Some idle
    by (auto simp: Let_def intro!: rpc_inv_execute [OF inv at] split: if_splits)
qed

lemma rpc_inv_client_handle:
  assumes inv: "rpc_inv ids n" and take: "take_first (Down c) (links n) = Some (m, ls)"
  shows "rpc_inv ids (client_handle c m (n\<lparr>links := ls\<rparr>))"
proof -
  from take_first_split [OF take] obtain as bs where
    at: "links n = as @ (Down c, m) # bs" "ls = as @ bs" "\<forall>x \<in> set as. fst x \<noteq> Down c" by blast
  note msg = inv_message_ok [OF inv, of "(Down c, m)"]
  note rest = rpc_inv_drop [OF inv at(1)]
  show ?thesis
  proof (cases m)
    case (ResultRegisterRPCClient code s)
    with rest show ?thesis by (simp add: at(2)) (rule rpc_inv_client; auto simp: handle_register_result_def)
  next
    case (RequestRemoteProcedureCall i s r p)
    with rpc_inv_handle_request [OF inv] at show ?thesis by simp
  next
    case (ResultRemoteProcedureCall code i s r res)
    with msg have c: "caller n i c s" by (simp add: at(1))
    have r: "reply i m = [OnComplete code res]" by (simp add: ResultRemoteProcedureCall)
    from reply_awaited(1) [OF inv at(1) r c] obtain p where p: "remoteProcedures (clients n c) (s, i) = Some p" by auto
    have "rpc_inv ids (handle_result_remote_procedure_call c code i s res (n\<lparr>links := as @ bs\<rparr>))"
      by (rule rpc_inv_receive_reply [OF inv at(1,3) r c])
        (use p in \<open>auto simp: handle_result_remote_procedure_call_def change_call_def\<close>)
    then show ?thesis by (simp add: ResultRemoteProcedureCall at(2))
  next
    case (SendServerStreaming i s item)
    with msg have c: "caller n i c s" by (simp add: at(1))
    have r: "reply i m = [OnItem item]" by (simp add: SendServerStreaming)
    from reply_awaited(1) [OF inv at(1) r c] obtain p where p: "remoteProcedures (clients n c) (s, i) = Some p" by auto
    have "rpc_inv ids (handle_server_streaming c i s item (n\<lparr>links := as @ bs\<rparr>))"
      by (rule rpc_inv_receive_reply [OF inv at(1,3) r c])
        (use p in \<open>auto simp: handle_server_streaming_def change_call_def\<close>)
    then show ?thesis by (simp add: SendServerStreaming at(2))
  next
    case (SendClientSteaming i s p)
    with rest rpc_inv_channels show ?thesis by (simp add: at(2) handle_client_streaming_def split: option.split)
  next
    case (AbortClientStreamingRPC i s)
    have "rpc_inv ids (with_client c (\<lambda>cl. cl\<lparr>running_streams := (running_streams cl)(i := None)\<rparr>) (n\<lparr>links := as @ bs\<rparr>))"
      by (rule rpc_inv_neutral [OF rest])
        (use AbortClientStreamingRPC fresh_distinct [OF inv] in \<open>auto split: if_splits\<close>)
    with rest rpc_inv_channels AbortClientStreamingRPC show ?thesis
      by (simp add: at(2) handle_abort_client_streaming_def split: option.split)
  next
    case (NotifySnowflake v)
    with rest show ?thesis by (simp add: at(2)) (rule rpc_inv_client; simp)
  qed (use rest in \<open>simp add: at(2)\<close>)
qed

lemma remove_nth_split:
  assumes "k < length xs"
  obtains as bs where "xs = as @ (xs ! k) # bs" "remove_nth k xs = as @ bs"
  using assms id_take_nth_drop [OF assms] by (simp add: remove_nth_def)

lemma rpc_inv_end_execution:
  assumes inv: "rpc_inv ids n" and k: "k < length (executions n)"
  shows "rpc_inv ids (end_execution k code res n)"
proof -
  obtain as bs where ex: "executions n = as @ (executions n ! k) # bs" "remove_nth k (executions n) = as @ bs"
    by (rule remove_nth_split [OF k])
  show ?thesis
    by (rule rpc_inv_end [OF inv ex(1)]) (simp_all add: end_execution_def send_result_def Let_def ex(2))
qed

lemma rpc_inv_step:
  assumes inv: "rpc_inv ids n" and step: "rpc_step e n = Some n'" and new: "distinct (ids @ call_ids [e])"
  shows "rpc_inv (ids @ call_ids [e]) n'"
proof (cases e)
  case (Connect c)
  have "rpc_inv ids (n\<lparr>server := snd (server_accept (server n))\<rparr>)"
    by (rule rpc_inv_neutral [OF inv]) (use fresh_distinct [OF inv] in \<open>simp_all add: server_accept_def\<close>)
  then have "rpc_inv ids (with_client c (\<lambda>cl. cl\<lparr>connected := True, receiving := True\<rparr>)
      (n\<lparr>server := snd (server_accept (server n))\<rparr>))"
    by (rule rpc_inv_client) simp_all
  then have "rpc_inv ids (connect c n)"
    unfolding connect_def split_beta by (rule rpc_inv_transmit) (simp add: server_accept_def)
  with Connect step show ?thesis by (simp split: if_splits)
next
  case (RegisterToServer c s)
  have "rpc_inv ids (register_to_server c s n)"
    unfolding register_to_server_def by (rule rpc_inv_transmit, rule rpc_inv_client [OF inv]) simp_all
  with RegisterToServer step show ?thesis by (simp split: if_splits)
next
  case (RegisterProcedure c s r k)
  have "rpc_inv ids (with_client c (\<lambda>cl. snd (register_procedure s r k cl)) n)"
    by (rule rpc_inv_client [OF inv]) (simp_all add: register_procedure_def)
  with RegisterProcedure step show ?thesis by simp
next
  case (CallRemote c i k s r p)
  with rpc_inv_call [OF inv] step new show ?thesis by (auto split: if_splits)
next
  case (UploadItem k item)
  with rpc_inv_upload_item [OF inv] step show ?thesis by (auto split: if_splits)
next
  case (UploadEnd k thrown)
  with rpc_inv_upload_end [OF inv] step show ?thesis by (auto split: if_splits)
next
  case (CloseResults c i)
  have "rpc_inv ids (with_client c (change_call i (\<lambda>call. call\<lparr>result_open := False\<rparr>)) n)"
    by (rule rpc_inv_client [OF inv]) (simp_all add: change_call_def)
  with CloseResults step show ?thesis by simp
next
  case (ServerReceives c)
  with rpc_inv_server_receive [OF inv] step show ?thesis by auto
next
  case (ClientReceives c)
  with rpc_inv_client_handle [OF inv] step show ?thesis by (auto split: if_splits)
next
  case (Returns k result)
  with rpc_inv_end_execution [OF inv] step show ?thesis
    by (auto simp: execution_returns_def split: if_splits option.splits)
next
  case (Yields k item)
  then have "k < length (executions n)" "n' = execution_yields k item n" using step by (auto split: if_splits)
  with rpc_inv_yield [OF inv _ refl, of "executions n ! k" item] Yields show ?thesis
    by (simp add: execution_yields_def transmit_def Let_def)
next
  case (Ends k thrown)
  with rpc_inv_end_execution [OF inv] step show ?thesis by (auto simp: execution_ends_def split: if_splits)
qed

lemma call_ids_Cons: "call_ids (e # es) = call_ids [e] @ call_ids es"
  by (cases e) simp_all

lemma call_ids_append: "call_ids (es @ fs) = call_ids es @ call_ids fs"
proof (induction es)
  case (Cons e es)
  then show ?case using call_ids_Cons [of e "es @ fs"] call_ids_Cons [of e es] by simp
qed simp

lemma rpc_inv_run:
  "rpc_inv ids n \<Longrightarrow> rpc_run es n = Some n' \<Longrightarrow> distinct (ids @ call_ids es) \<Longrightarrow> rpc_inv (ids @ call_ids es) n'"
proof (induction es arbitrary: ids n)
  case (Cons e es)
  from Cons.prems(2) obtain n1 where n1: "rpc_step e n = Some n1" "rpc_run es n1 = Some n'"
    by (auto split: option.splits)
  have ids: "distinct (ids @ call_ids [e])" "distinct ((ids @ call_ids [e]) @ call_ids es)"
    using Cons.prems(3) call_ids_Cons [of e es] by auto
  from Cons.IH [OF rpc_inv_step [OF Cons.prems(1) n1(1) ids(1)] n1(2) ids(2)]
  show ?case by (simp add: call_ids_Cons [of e es])
qed simp

end
