(* ===== verification/RpcProperties.thy ===== *)
theory RpcProperties
  imports RpcInvariant
begin

text \<open>
  What holds of remote calls: who agrees on streaming, who is connected, where calls come from, and from these and
  \<open>RpcInvariant\<close> the properties: order and agreement, completion, type soundness, the call that is never sent.
\<close>

subsection \<open>Calls and procedures that agree on whether results are streamed\<close>

fun agrees :: "(text_bytes \<Rightarrow> bool) \<Rightarrow> rpc_event \<Rightarrow> bool" where
  "agrees streams (RegisterProcedure c s r k) \<longleftrightarrow> returns_stream k = streams (make_procedure_key s r)"
| "agrees streams (CallRemote c i k s r p) \<longleftrightarrow> returns_stream k = streams (make_procedure_key s r)"
| "agrees streams _ \<longleftrightarrow> True"

definition ready_for :: "(text_bytes \<Rightarrow> bool) \<Rightarrow> rpc_net \<Rightarrow> nat \<Rightarrow> rpc_id \<Rightarrow> text_bytes \<Rightarrow> text_bytes \<Rightarrow> bool" where
  "ready_for streams n c i s r \<longleftrightarrow> (\<forall>p. remoteProcedures (clients n c) (s, i) = Some p
     \<longrightarrow> streams (make_procedure_key s r) \<longrightarrow> on_streaming p)"

definition typed_inv :: "(text_bytes \<Rightarrow> bool) \<Rightarrow> rpc_net \<Rightarrow> bool" where
  "typed_inv streams n \<longleftrightarrow>
     (\<forall>d key k. procedures (clients n d) key = Some k \<longrightarrow> returns_stream k = streams key)
     \<and> (\<forall>i c s r. (i, c, s, r) \<in> set (requested n) \<longrightarrow> ready_for streams n c i s r)
     \<and> (\<forall>u \<in> set (uploads n). up_first u \<longrightarrow> ready_for streams n (up_client u) (up_id u) (up_service u) (up_rpc u))
     \<and> (\<forall>e \<in> set (executions n). returns_stream (ex_kind e) = streams (make_procedure_key (ex_service e) (ex_rpc e)))
     \<and> (\<forall>i item. (i, OnItem item) \<in> set (provided n)
          \<longrightarrow> (\<exists>c s r. (i, c, s, r) \<in> set (requested n) \<and> streams (make_procedure_key s r)))
     \<and> (\<forall>d. connected (clients n d) \<longrightarrow> receiving (clients n d))"

lemma typed_inv_init: "typed_inv streams rpc_init"
  by (simp add: typed_inv_def rpc_init_def rpc_client_new_def)

lemma typed_invD:
  assumes "typed_inv streams n"
  shows "procedures (clients n d) key = Some k \<Longrightarrow> returns_stream k = streams key"
    and "(i, c, s, r) \<in> set (requested n) \<Longrightarrow> ready_for streams n c i s r"
    and "u \<in> set (uploads n) \<Longrightarrow> up_first u \<Longrightarrow> ready_for streams n (up_client u) (up_id u) (up_service u) (up_rpc u)"
    and "e \<in> set (executions n) \<Longrightarrow> returns_stream (ex_kind e) = streams (make_procedure_key (ex_service e) (ex_rpc e))"
    and "(i, OnItem item) \<in> set (provided n)
      \<Longrightarrow> \<exists>c s r. (i, c, s, r) \<in> set (requested n) \<and> streams (make_procedure_key s r)"
    and "connected (clients n d) \<Longrightarrow> receiving (clients n d)"
  using assms unfolding typed_inv_def by blast+

lemma typed_invI:
  assumes "\<And>d key k. procedures (clients n d) key = Some k \<Longrightarrow> returns_stream k = streams key"
    and "\<And>i c s r. (i, c, s, r) \<in> set (requested n) \<Longrightarrow> ready_for streams n c i s r"
    and "\<And>u. u \<in> set (uploads n) \<Longrightarrow> up_first u
      \<Longrightarrow> ready_for streams n (up_client u) (up_id u) (up_service u) (up_rpc u)"
    and "\<And>e. e \<in> set (executions n)
      \<Longrightarrow> returns_stream (ex_kind e) = streams (make_procedure_key (ex_service e) (ex_rpc e))"
    and "\<And>i item. (i, OnItem item) \<in> set (provided n)
      \<Longrightarrow> \<exists>c s r. (i, c, s, r) \<in> set (requested n) \<and> streams (make_procedure_key s r)"
    and "\<And>d. connected (clients n d) \<Longrightarrow> receiving (clients n d)"
  shows "typed_inv streams n"
  unfolding typed_inv_def using assms by blast

text \<open>Steps that remove entries and add answers only.\<close>

lemma typed_inv_shrink:
  assumes inv: "typed_inv streams n" and req: "requested n' = requested n"
    and ups: "set (filter up_first (uploads n')) \<subseteq> set (uploads n)"
    and ex: "set (executions n') \<subseteq> set (executions n)"
    and prov: "\<And>i item. (i, OnItem item) \<in> set (provided n') \<Longrightarrow> (i, OnItem item) \<in> set (provided n)"
    and cl: "\<And>d. procedures (clients n' d) = procedures (clients n d)"
      "\<And>d. remoteProcedures (clients n' d) \<subseteq>\<^sub>m remoteProcedures (clients n d)"
      "\<And>d. connected (clients n' d) \<Longrightarrow> receiving (clients n' d)"
  shows "typed_inv streams n'"
proof -
  have r: "ready_for streams n' c i s r" if "ready_for streams n c i s r" for c i s r
  proof -
    have "remoteProcedures (clients n c) (s, i) = Some p" if "remoteProcedures (clients n' c) (s, i) = Some p" for p
      using that cl(2) [of c] unfolding map_le_def by (metis domI)
    with that show ?thesis unfolding ready_for_def by blast
  qed
  show ?thesis
  proof (rule typed_invI)
    show "ready_for streams n' (up_client u) (up_id u) (up_service u) (up_rpc u)"
      if "u \<in> set (uploads n')" "up_first u" for u
      using that ups typed_invD(3) [OF inv, of u] by (intro r) auto
    show "\<exists>c s r. (i, c, s, r) \<in> set (requested n') \<and> streams (make_procedure_key s r)"
      if "(i, OnItem item) \<in> set (provided n')" for i item
      using typed_invD(5) [OF inv prov [OF that]] by (simp only: req)
    show "ready_for streams n' c i s r" if "(i, c, s, r) \<in> set (requested n')" for i c s r
      using that typed_invD(2) [OF inv] by (intro r) (simp only: req)
    show "returns_stream (ex_kind e) = streams (make_procedure_key (ex_service e) (ex_rpc e))"
      if "e \<in> set (executions n')" for e
      using that ex typed_invD(4) [OF inv] by blast
    show "returns_stream k = streams key" if "procedures (clients n' d) key = Some k" for d key k
      using that typed_invD(1) [OF inv, of d key k] by (simp only: cl(1))
  qed (rule cl(3))
qed

lemma ready_with_client:
  assumes "ready_for streams n c i s r" and "remoteProcedures (f (clients n d)) (s, i) = remoteProcedures (clients n d) (s, i)"
  shows "ready_for streams (with_client d f n) c i s r"
  using assms by (auto simp: ready_for_def)

lemma typed_inv_call:
  assumes inv: "typed_inv streams n" and rpc: "rpc_inv ids n" and new: "i \<notin> set ids"
    and agree: "returns_stream k = streams (make_procedure_key s r)"
  shows "typed_inv streams (rpc_call_event c i k s r p n)"
proof -
  define f where "f = (\<lambda>cl. set_completion_callback s i
     ((if returns_stream k then set_server_streaming_callback s i else id) (open_call k i cl)))"
  have eq: "rpc_call_event c i k s r p n =
      (if takes_stream k then start_upload c i s r (with_client c f n) else rpc_send c i s r p (with_client c f n))"
    by (cases k) (simp_all add: f_def call_remote_procedure_def call_server_streaming_def
        call_client_streaming_def call_client_server_streaming_def)
  have f: "procedures (f cl) = procedures cl" "connected (f cl) = connected cl" "receiving (f cl) = receiving cl"
    "j \<noteq> i \<Longrightarrow> remoteProcedures (f cl) (t, j) = remoteProcedures cl (t, j)" for cl t j
    by (auto simp: f_def set_completion_callback_def set_server_streaming_callback_def open_call_def)
  have here: "ready_for streams (with_client c f n) c i s r"
    using agree by (auto simp: ready_for_def f_def set_completion_callback_def set_server_streaming_callback_def
        find_remote_def open_call_def)
  have other: "ready_for streams (with_client c f n) d j t q" if "ready_for streams n d j t q" "j \<in> set ids" for d j t q
    using that new by (intro ready_with_client f) auto
  have ids: "j \<in> set ids" if "(j, d, t, q) \<in> set (requested n)" for j d t q
    using rpc that by (force simp: rpc_inv_def ids_inv_def)
  have ids': "up_id u \<in> set ids" if "u \<in> set (uploads n)" "up_first u" for u
    using rpc that by (force simp: rpc_inv_def ids_inv_def fresh_uploads_def)
  let ?m = "rpc_call_event c i k s r p n"
  have cl: "clients ?m = (clients n)(c := f (clients n c))" by (simp add: eq start_upload_def)
  have rd: "ready_for streams ?m d j t q \<longleftrightarrow> ready_for streams (with_client c f n) d j t q" for d j t q
    by (simp add: ready_for_def cl)
  have req: "set (requested ?m) \<subseteq> insert (i, c, s, r) (set (requested n))" "set (requested n) \<subseteq> set (requested ?m)"
    by (auto simp: eq start_upload_def)
  have ups: "u \<in> set (uploads n) \<or> (up_client u = c \<and> up_id u = i \<and> up_service u = s \<and> up_rpc u = r)"
    if "u \<in> set (uploads ?m)" for u
    using that by (auto simp: eq start_upload_def split: if_splits)
  have "provided ?m = provided n" "executions ?m = executions n" by (simp_all add: eq start_upload_def)
  moreover have "ready_for streams ?m d j t q" if "(j, d, t, q) \<in> set (requested ?m)" for j d t q
    using that req(1) other [OF typed_invD(2) [OF inv]] ids here unfolding rd by blast
  moreover have "ready_for streams ?m (up_client u) (up_id u) (up_service u) (up_rpc u)"
    if "u \<in> set (uploads ?m)" "up_first u" for u
    using ups [OF that(1)] other [OF typed_invD(3) [OF inv]] ids' that(2) here unfolding rd by auto
  moreover have "\<exists>d t q. (j, d, t, q) \<in> set (requested ?m) \<and> streams (make_procedure_key t q)"
    if "(j, OnItem item) \<in> set (provided n)" for j item
    using typed_invD(5) [OF inv that] req(2) by blast
  moreover have "returns_stream k' = streams key" if "procedures (clients ?m d) key = Some k'" for d key k'
    using that typed_invD(1) [OF inv, of d key k'] f(1) by (auto simp: cl split: if_splits)
  moreover have "receiving (clients ?m d)" if "connected (clients ?m d)" for d
    using that typed_invD(6) [OF inv, of d] f(2,3) by (auto simp: cl split: if_splits)
  ultimately show ?thesis using typed_invD(4) [OF inv] by (intro typed_invI) simp_all
qed

lemma shrink_facts:
  assumes "typed_inv streams n"
  shows "set (filter up_first (uploads n)) \<subseteq> set (uploads n)" "set (executions n) \<subseteq> set (executions n)"
    "remoteProcedures (clients n d) \<subseteq>\<^sub>m remoteProcedures (clients n d)"
    "connected (clients n d) \<Longrightarrow> receiving (clients n d)"
  using typed_invD(6) [OF assms] by auto

text \<open>A step of one client whose callbacks and procedures stay or go.\<close>

lemma typed_inv_client:
  assumes inv: "typed_inv streams n"
    and "procedures (f (clients n c)) = procedures (clients n c)"
      "remoteProcedures (f (clients n c)) \<subseteq>\<^sub>m remoteProcedures (clients n c)"
      "connected (f (clients n c)) \<Longrightarrow> receiving (f (clients n c))"
  shows "typed_inv streams (with_client c f n)"
  by (rule typed_inv_shrink [OF inv]) (use assms shrink_facts [OF inv] in auto)

lemma typed_inv_frame:
  assumes inv: "typed_inv streams n"
  shows typed_inv_transmit: "typed_inv streams (transmit l ms n)"
    and typed_inv_links: "typed_inv streams (n\<lparr>links := ls\<rparr>)"
    and typed_inv_channels: "typed_inv streams (n\<lparr>input_channels := xs\<rparr>)"
    and typed_inv_callbacks: "typed_inv streams (n\<lparr>callbacks := cs\<rparr>)"
    and typed_inv_answered: "typed_inv streams (n\<lparr>provided := provided n @ [(i, OnComplete code res)]\<rparr>)"
  by (rule typed_inv_shrink [OF inv]; use shrink_facts [OF inv] in auto)+

lemma typed_inv_send_result: "typed_inv streams n \<Longrightarrow> typed_inv streams (send_result c code i s r res n)"
  using typed_inv_answered [OF typed_inv_transmit] by (simp add: send_result_def)

lemma typed_inv_execution:
  assumes inv: "typed_inv streams n"
    and e: "returns_stream (ex_kind e) = streams (make_procedure_key (ex_service e) (ex_rpc e))"
  shows "typed_inv streams (n\<lparr>executions := executions n @ [e]\<rparr>)"
proof (rule typed_invI)
  fix f
  assume "f \<in> set (executions (n\<lparr>executions := executions n @ [e]\<rparr>))"
  with e typed_invD(4) [OF inv, of f]
  show "returns_stream (ex_kind f) = streams (make_procedure_key (ex_service f) (ex_rpc f))" by auto
qed (use typed_invD [OF inv] in \<open>simp_all add: ready_for_def\<close>)

lemma typed_inv_upload_item:
  assumes inv: "typed_inv streams n" and k: "k < length (uploads n)"
  shows "typed_inv streams (upload_item k item n)"
proof (cases "up_first (uploads n ! k)")
  case True
  let ?u = "uploads n ! k" and ?n = "upload_item k item n"
  have eq: "?n = (rpc_send (up_client ?u) (up_id ?u) (up_service ?u) (up_rpc ?u) item n)
      \<lparr>uploads := (uploads n)[k := ?u\<lparr>up_first := False\<rparr>]\<rparr>"
    using True by (simp add: upload_item_def Let_def)
  have rd: "ready_for streams ?n c i s r \<longleftrightarrow> ready_for streams n c i s r" for c i s r
    by (simp add: ready_for_def eq)
  have u: "ready_for streams n (up_client ?u) (up_id ?u) (up_service ?u) (up_rpc ?u)"
    using typed_invD(3) [OF inv] k True by simp
  show ?thesis
  proof (rule typed_invI, goal_cases)
    case (2 i c s r)
    with typed_invD(2) [OF inv] u show ?case unfolding rd by (auto simp: eq)
  next
    case (3 v)
    then have "v \<in> set (uploads n)" by (auto simp: eq dest: set_update_subset_insert [THEN subsetD])
    with 3 typed_invD(3) [OF inv] show ?case unfolding rd by blast
  next
    case (5 i item)
    then have "(i, OnItem item) \<in> set (provided n)" by (simp add: eq)
    from typed_invD(5) [OF inv this] show ?case by (auto simp: eq)
  qed (use typed_invD(1,4,6) [OF inv] in \<open>simp_all add: eq\<close>)
next
  case False
  with inv typed_inv_transmit show ?thesis by (simp add: upload_item_def send_client_streaming_def Let_def)
qed

lemma typed_inv_client_handle:
  assumes inv: "typed_inv streams n" and rpc: "rpc_inv ids n" and take: "take_first (Down c) (links n) = Some (m, ls)"
    and live: "receiving (clients n c)"
  shows "typed_inv streams (client_handle c m (n\<lparr>links := ls\<rparr>))"
proof -
  from take_first_split [OF take] obtain as bs where at: "links n = as @ (Down c, m) # bs" "ls = as @ bs" by blast
  note msg = inv_message_ok [OF rpc, of "(Down c, m)"]
  note rest = typed_inv_links [OF inv, of ls]
  show ?thesis
  proof (cases m)
    case (ResultRegisterRPCClient code s)
    with typed_inv_client [OF rest] live show ?thesis by (simp add: handle_register_result_def)
  next
    case (RequestRemoteProcedureCall i s r p)
    let ?run = "with_client c (\<lambda>cl. cl\<lparr>running_streams := (running_streams cl)(i \<mapsto> length (input_channels n))\<rparr>) (n\<lparr>links := ls\<rparr>)"
    have "typed_inv streams (?run\<lparr>input_channels := xs\<rparr>)" for xs
      using live by (intro typed_inv_channels typed_inv_client [OF rest]) simp_all
    then show ?thesis
      using rest typed_invD(1) [OF inv, of c] RequestRemoteProcedureCall
        typed_inv_execution [OF rest] typed_inv_execution [of streams "?run\<lparr>input_channels := _\<rparr>"]
      by (simp add: handle_request_remote_procedure_call_def typed_inv_send_result Let_def split: option.split)
  next
    case (ResultRemoteProcedureCall code i s r res)
    have "(remoteProcedures (clients n c))((s, i) := None) \<subseteq>\<^sub>m remoteProcedures (clients n c)"
      by (auto simp: map_le_def)
    with ResultRemoteProcedureCall rest live show ?thesis
      by (auto simp: handle_result_remote_procedure_call_def change_call_def
          intro!: typed_inv_callbacks typed_inv_client split: option.split)
  next
    case (SendServerStreaming i s item)
    with msg have c: "caller n i c s" by (simp add: at(1))
    have r: "reply i m = [OnItem item]" by (simp add: SendServerStreaming)
    from reply_awaited(1) [OF rpc at(1) r c] obtain p where p: "remoteProcedures (clients n c) (s, i) = Some p" by auto
    have "OnItem item \<in> set (provided_to i n)"
      using inv_order(1) [OF rpc, of i, symmetric] by (simp add: at(1) SendServerStreaming)
    then have "(i, OnItem item) \<in> set (provided n)" by (auto simp: provided_to_def split: if_splits)
    from typed_invD(5) [OF inv this] obtain d t q where
      q: "(i, d, t, q) \<in> set (requested n)" "streams (make_procedure_key t q)" by blast
    from c obtain q' where "(i, c, s, q') \<in> set (requested n)" by (auto simp: caller_def)
    with inv_requested_unique [OF rpc q(1)] q have "(i, c, s, q') \<in> set (requested n)" "streams (make_procedure_key s q')"
      by blast+
    with typed_invD(2) [OF inv] p have "on_streaming p" unfolding ready_for_def by blast
    with SendServerStreaming rest live p show ?thesis
      by (auto simp: handle_server_streaming_def change_call_def intro!: typed_inv_callbacks typed_inv_client)
  next
    case (SendClientSteaming i s p)
    with rest typed_inv_channels show ?thesis by (simp add: handle_client_streaming_def split: option.split)
  next
    case (AbortClientStreamingRPC i s)
    with rest live show ?thesis
      by (auto simp: handle_abort_client_streaming_def intro!: typed_inv_channels typed_inv_client split: option.split)
  next
    case (NotifySnowflake v)
    with typed_inv_client [OF rest] live show ?thesis by simp
  qed (use rest in simp)
qed

lemma typed_inv_end_execution:
  assumes inv: "typed_inv streams n" and k: "k < length (executions n)"
  shows "typed_inv streams (end_execution k code res n)"
proof -
  have "typed_inv streams (n\<lparr>executions := remove_nth k (executions n)\<rparr>)"
    by (intro typed_inv_shrink [OF inv]) (use shrink_facts [OF inv] remove_nth_subset [of k "executions n"] in auto)
  note sent = typed_inv_send_result [OF this, of "ex_client (executions n ! k)" code "ex_id (executions n ! k)"
      "ex_service (executions n ! k)" "ex_rpc (executions n ! k)" res]
  have "typed_inv streams (with_client (ex_client (executions n ! k))
      (\<lambda>cl. cl\<lparr>running_streams := (running_streams cl)(ex_id (executions n ! k) := None)\<rparr>)
      (send_result (ex_client (executions n ! k)) code (ex_id (executions n ! k)) (ex_service (executions n ! k))
        (ex_rpc (executions n ! k)) res (n\<lparr>executions := remove_nth k (executions n)\<rparr>)))"
    by (rule typed_inv_client [OF sent]) (use typed_invD(6) [OF sent] in simp_all)
  with sent show ?thesis by (simp add: end_execution_def Let_def)
qed

lemma typed_inv_step:
  assumes inv: "typed_inv streams n" and rpc: "rpc_inv ids n" and step: "rpc_step e n = Some n'"
    and new: "distinct (ids @ call_ids [e])" and agree: "agrees streams e"
  shows "typed_inv streams n'"
proof (cases e)
  case (Connect c)
  have "typed_inv streams (n\<lparr>server := s\<rparr>)" for s
    by (rule typed_inv_shrink [OF inv]) (use shrink_facts [OF inv] in auto)
  then have "typed_inv streams (connect c n)"
    unfolding connect_def split_beta by (intro typed_inv_transmit typed_inv_client) simp_all
  with Connect step show ?thesis by (simp split: if_splits)
next
  case (RegisterToServer c s)
  have "typed_inv streams (register_to_server c s n)"
    unfolding register_to_server_def
    by (intro typed_inv_transmit typed_inv_client [OF inv]) (use typed_invD(6) [OF inv] in simp_all)
  with RegisterToServer step show ?thesis by (simp split: if_splits)
next
  case (RegisterProcedure c s r k)
  let ?n = "with_client c (\<lambda>cl. snd (register_procedure s r k cl)) n"
  have "typed_inv streams ?n"
  proof (rule typed_invI, goal_cases)
    case (1 d key k')
    with typed_invD(1) [OF inv, of d key k'] agree RegisterProcedure show ?case
      by (auto simp: register_procedure_def split: if_splits)
  qed (use typed_invD(2-6) [OF inv] in \<open>auto simp: register_procedure_def ready_for_def split: if_splits\<close>)
  with RegisterProcedure step show ?thesis by simp
next
  case (CallRemote c i k s r p)
  with typed_inv_call [OF inv rpc] step new agree show ?thesis by (auto split: if_splits)
next
  case (UploadItem k item)
  with typed_inv_upload_item [OF inv] step show ?thesis by (auto split: if_splits)
next
  case (UploadEnd k thrown)
  have "typed_inv streams (n\<lparr>uploads := remove_nth k (uploads n)\<rparr>)"
    by (intro typed_inv_shrink [OF inv]) (use shrink_facts [OF inv] remove_nth_subset [of k "uploads n"] in auto)
  with typed_inv_transmit UploadEnd step show ?thesis
    by (auto simp: upload_end_def send_abort_client_streaming_def Let_def split: if_splits)
next
  case (CloseResults c i)
  have "typed_inv streams (with_client c (change_call i (\<lambda>call. call\<lparr>result_open := False\<rparr>)) n)"
    by (rule typed_inv_client [OF inv]) (use typed_invD(6) [OF inv] in \<open>simp_all add: change_call_def\<close>)
  with CloseResults step show ?thesis by simp
next
  case (ServerReceives c)
  then obtain m ls where n': "n' = server_receive c m (n\<lparr>links := ls\<rparr>)" using step by auto
  have "(i, OnItem item) \<in> set (server_answers m s) \<Longrightarrow> False" for i item s by (cases m) (auto split: if_splits)
  then show ?thesis unfolding n'
    by (intro typed_inv_shrink [OF inv])
      (use shrink_facts [OF inv] in \<open>auto simp: server_receive_def split: prod.splits\<close>)
next
  case (ClientReceives c)
  with typed_inv_client_handle [OF inv rpc] step show ?thesis by (auto split: if_splits)
next
  case (Returns k result)
  with typed_inv_end_execution [OF inv] step show ?thesis
    by (auto simp: execution_returns_def split: if_splits option.splits)
next
  case (Yields k item)
  let ?e = "executions n ! k"
  have k: "?e \<in> set (executions n)" "returns_stream (ex_kind ?e)" "n' = execution_yields k item n"
    using step Yields by (auto split: if_splits)
  have "\<exists>c. (ex_id ?e, c, ex_service ?e, ex_rpc ?e) \<in> set (requested n)"
    using inv_tables(1) [OF rpc k(1)] by (auto simp: served_def)
  then have q: "\<exists>c s r. (ex_id ?e, c, s, r) \<in> set (requested n) \<and> streams (make_procedure_key s r)"
    using typed_invD(4) [OF inv k(1)] k(2) by blast
  show ?thesis
  proof (rule typed_invI, goal_cases)
    case (5 i item')
    with q typed_invD(5) [OF inv, of i item'] show ?case
      by (auto simp: k(3) execution_yields_def Let_def)
  qed (use typed_invD(1-4,6) [OF inv] in \<open>simp_all add: k(3) execution_yields_def Let_def ready_for_def\<close>)
next
  case (Ends k thrown)
  with typed_inv_end_execution [OF inv] step show ?thesis by (auto simp: execution_ends_def split: if_splits)
qed

lemma typed_inv_run:
  "typed_inv streams n \<Longrightarrow> rpc_inv ids n \<Longrightarrow> rpc_run es n = Some n' \<Longrightarrow> distinct (ids @ call_ids es)
     \<Longrightarrow> \<forall>e \<in> set es. agrees streams e \<Longrightarrow> typed_inv streams n'"
proof (induction es arbitrary: ids n)
  case (Cons e es)
  from Cons.prems(3) obtain n1 where n1: "rpc_step e n = Some n1" "rpc_run es n1 = Some n'"
    by (auto split: option.splits)
  have ids: "distinct (ids @ call_ids [e])" "distinct ((ids @ call_ids [e]) @ call_ids es)"
    using Cons.prems(4) call_ids_Cons [of e es] by auto
  from Cons.IH [OF typed_inv_step [OF Cons.prems(1,2) n1(1) ids(1)] rpc_inv_step [OF Cons.prems(2) n1(1) ids(1)] n1(2) ids(2)]
    Cons.prems(5)
  show ?case by simp
qed simp

subsection \<open>Who is connected, and what ends a call\<close>

fun link_client :: "link \<Rightarrow> nat" where
  "link_client (Up c) = c"
| "link_client (Down c) = c"

definition linked_inv :: "rpc_net \<Rightarrow> bool" where
  "linked_inv n \<longleftrightarrow>
     (\<forall>x \<in> set (links n). connected (clients n (link_client (fst x))))
     \<and> (\<forall>s d. sessions (server n) s = Some d \<longrightarrow> connected (clients n d))
     \<and> (\<forall>i d. pendingRPCs (server n) i = Some d \<longrightarrow> connected (clients n d))
     \<and> (\<forall>d. snowflake_value (clients n d) \<noteq> None \<longrightarrow> connected (clients n d))
     \<and> (\<forall>u \<in> set (uploads n). connected (clients n (up_client u)))
     \<and> (\<forall>e \<in> set (executions n). connected (clients n (ex_client e)))"

lemma linked_inv_init: "linked_inv rpc_init"
  by (simp add: linked_inv_def rpc_init_def rpc_client_new_def rpc_server_new_def)

lemma linked_invD:
  assumes "linked_inv n"
  shows "x \<in> set (links n) \<Longrightarrow> connected (clients n (link_client (fst x)))"
    and "sessions (server n) s = Some d \<Longrightarrow> connected (clients n d)"
    and "pendingRPCs (server n) i = Some d \<Longrightarrow> connected (clients n d)"
    and "snowflake_value (clients n d) \<noteq> None \<Longrightarrow> connected (clients n d)"
    and "u \<in> set (uploads n) \<Longrightarrow> connected (clients n (up_client u))"
    and "e \<in> set (executions n) \<Longrightarrow> connected (clients n (ex_client e))"
  using assms unfolding linked_inv_def by blast+

lemma linked_invI:
  assumes "\<And>x. x \<in> set (links n) \<Longrightarrow> connected (clients n (link_client (fst x)))"
    and "\<And>s d. sessions (server n) s = Some d \<Longrightarrow> connected (clients n d)"
    and "\<And>i d. pendingRPCs (server n) i = Some d \<Longrightarrow> connected (clients n d)"
    and "\<And>d. snowflake_value (clients n d) \<noteq> None \<Longrightarrow> connected (clients n d)"
    and "\<And>u. u \<in> set (uploads n) \<Longrightarrow> connected (clients n (up_client u))"
    and "\<And>e. e \<in> set (executions n) \<Longrightarrow> connected (clients n (ex_client e))"
  shows "linked_inv n"
  unfolding linked_inv_def using assms by blast

text \<open>A step adds only what concerns clients that are connected, and disconnects none.\<close>

lemma linked_inv_grow:
  assumes inv: "linked_inv n" and con: "\<And>d. connected (clients n d) \<Longrightarrow> connected (clients n' d)"
    and "\<And>x. x \<in> set (links n') \<Longrightarrow> x \<in> set (links n) \<or> connected (clients n' (link_client (fst x)))"
    and "\<And>s d. sessions (server n') s = Some d \<Longrightarrow> sessions (server n) s = Some d \<or> connected (clients n' d)"
    and "\<And>i d. pendingRPCs (server n') i = Some d \<Longrightarrow> pendingRPCs (server n) i = Some d \<or> connected (clients n' d)"
    and "\<And>d. snowflake_value (clients n' d) \<noteq> None \<Longrightarrow> snowflake_value (clients n d) \<noteq> None \<or> connected (clients n' d)"
    and "\<And>u. u \<in> set (uploads n') \<Longrightarrow> up_client u \<in> up_client ` set (uploads n) \<or> connected (clients n' (up_client u))"
    and "\<And>e. e \<in> set (executions n') \<Longrightarrow> e \<in> set (executions n) \<or> connected (clients n' (ex_client e))"
  shows "linked_inv n'"
proof (rule linked_invI)
  show "connected (clients n' (link_client (fst x)))" if "x \<in> set (links n')" for x
    using assms(3) [OF that] linked_invD(1) [OF inv] con by blast
  show "connected (clients n' d)" if "sessions (server n') s = Some d" for s d
    using assms(4) [OF that] linked_invD(2) [OF inv] con by blast
  show "connected (clients n' d)" if "pendingRPCs (server n') i = Some d" for i d
    using assms(5) [OF that] linked_invD(3) [OF inv] con by blast
  show "connected (clients n' d)" if "snowflake_value (clients n' d) \<noteq> None" for d
    using assms(6) [OF that] linked_invD(4) [OF inv] con by blast
  show "connected (clients n' (up_client u))" if "u \<in> set (uploads n')" for u
    using assms(7) [OF that] linked_invD(5) [OF inv] con by fastforce
  show "connected (clients n' (ex_client e))" if "e \<in> set (executions n')" for e
    using assms(8) [OF that] linked_invD(6) [OF inv] con by blast
qed

lemma server_outs_connected:
  assumes "linked_inv n" and "connected (clients n c)" and "(d, m') \<in> set (fst (server_handle c m (server n)))"
  shows "connected (clients n d)"
  using assms(2,3) linked_invD(2,3) [OF assms(1)]
  by (cases m) (auto split: option.splits if_splits)

lemma server_tables_connected:
  assumes "linked_inv n" and "connected (clients n c)"
  shows "sessions (snd (server_handle c m (server n))) t = Some d \<Longrightarrow> connected (clients n d)"
    and "pendingRPCs (snd (server_handle c m (server n))) i = Some d \<Longrightarrow> connected (clients n d)"
  using assms(2) linked_invD(2,3) [OF assms(1)] by (cases m; auto split: option.splits if_splits)+

lemma linked_inv_step:
  assumes inv: "linked_inv n" and step: "rpc_step e n = Some n'"
  shows "linked_inv n'"
proof (cases e)
  case (Connect c)
  then show ?thesis using step
    by (intro linked_inv_grow [OF inv]) (auto simp: connect_def server_accept_def split: if_splits)
next
  case (RegisterToServer c s)
  then show ?thesis using step
    by (intro linked_inv_grow [OF inv]) (auto simp: register_to_server_def split: if_splits)
next
  case (RegisterProcedure c s r k)
  then show ?thesis using step
    by (intro linked_inv_grow [OF inv]) (auto simp: register_procedure_def split: if_splits)
next
  case (CallRemote c i k s r p)
  then have c: "connected (clients n c)" "n' = rpc_call_event c i k s r p n"
    using step linked_invD(4) [OF inv] by (auto split: if_splits)
  then show ?thesis
    by (intro linked_inv_grow [OF inv]; cases k)
      (auto simp: call_remote_procedure_def call_server_streaming_def call_client_streaming_def
        call_client_server_streaming_def start_upload_def open_call_def set_completion_callback_def
        set_server_streaming_callback_def split: if_splits)
next
  case (UploadItem k item)
  then have k: "uploads n ! k \<in> set (uploads n)" "n' = upload_item k item n" using step by (auto split: if_splits)
  with linked_invD(5) [OF inv k(1)] show ?thesis
    by (intro linked_inv_grow [OF inv])
      (auto simp: upload_item_def send_client_streaming_def Let_def dest!: set_update_subset_insert [THEN subsetD]
        split: if_splits)
next
  case (UploadEnd k thrown)
  then have k: "uploads n ! k \<in> set (uploads n)" "n' = upload_end k thrown n" using step by (auto split: if_splits)
  with linked_invD(5) [OF inv k(1)] show ?thesis
    by (intro linked_inv_grow [OF inv])
      (auto simp: upload_end_def send_abort_client_streaming_def remove_nth_def Let_def
        dest: in_set_takeD in_set_dropD split: if_splits)
next
  case (CloseResults c i)
  then show ?thesis using step
    by (intro linked_inv_grow [OF inv]) (auto simp: change_call_def split: if_splits)
next
  case (ServerReceives c)
  then obtain m ls where m: "take_first (Up c) (links n) = Some (m, ls)" "n' = server_receive c m (n\<lparr>links := ls\<rparr>)"
    using step by auto
  from take_first_split [OF m(1)] obtain as bs where at: "links n = as @ (Up c, m) # bs" "ls = as @ bs" by blast
  have c: "connected (clients n c)" using linked_invD(1) [OF inv, of "(Up c, m)"] by (simp add: at)
  show ?thesis
    by (rule linked_inv_grow [OF inv])
      (use c server_outs_connected [OF inv c] server_tables_connected [OF inv c]
        in \<open>auto simp: m(2) at server_receive_def split_beta\<close>)
next
  case (ClientReceives c)
  then obtain m ls where m: "take_first (Down c) (links n) = Some (m, ls)" "n' = client_handle c m (n\<lparr>links := ls\<rparr>)"
    using step by (auto split: if_splits)
  from take_first_split [OF m(1)] obtain as bs where at: "links n = as @ (Down c, m) # bs" "ls = as @ bs" by blast
  have c: "connected (clients n c)" using linked_invD(1) [OF inv, of "(Down c, m)"] by (simp add: at)
  show ?thesis
    by (rule linked_inv_grow [OF inv]; cases m)
      (use c in \<open>auto simp: m(2) at handle_register_result_def handle_request_remote_procedure_call_def send_result_def
        handle_result_remote_procedure_call_def handle_server_streaming_def handle_client_streaming_def
        handle_abort_client_streaming_def change_call_def Let_def split: option.splits if_splits\<close>)
next
  case (Returns k result)
  then have k: "executions n ! k \<in> set (executions n)" "\<exists>code res. n' = end_execution k code res n"
    using step by (auto simp: execution_returns_def split: if_splits option.splits)
  with linked_invD(6) [OF inv k(1)] show ?thesis
    by (intro linked_inv_grow [OF inv])
      (auto simp: end_execution_def send_result_def remove_nth_def Let_def dest: in_set_takeD in_set_dropD split: if_splits)
next
  case (Yields k item)
  then have k: "executions n ! k \<in> set (executions n)" "n' = execution_yields k item n"
    using step by (auto split: if_splits)
  with linked_invD(6) [OF inv k(1)] show ?thesis
    by (intro linked_inv_grow [OF inv]) (auto simp: execution_yields_def Let_def)
next
  case (Ends k thrown)
  then have k: "executions n ! k \<in> set (executions n)" "\<exists>code res. n' = end_execution k code res n"
    using step by (auto simp: execution_ends_def split: if_splits)
  with linked_invD(6) [OF inv k(1)] show ?thesis
    by (intro linked_inv_grow [OF inv])
      (auto simp: end_execution_def send_result_def remove_nth_def Let_def dest: in_set_takeD in_set_dropD split: if_splits)
qed

lemma rpc_run_append:
  "rpc_run (es @ fs) n = (case rpc_run es n of None \<Rightarrow> None | Some n1 \<Rightarrow> rpc_run fs n1)"
  by (induction es arbitrary: n) (auto split: option.splits)

lemma linked_inv_run: "linked_inv n \<Longrightarrow> rpc_run es n = Some n' \<Longrightarrow> linked_inv n'"
  by (induction es arbitrary: n) (auto split: option.splits dest: linked_inv_step)

lemma rpc_run_invs:
  assumes "rpc_run es rpc_init = Some n" and "distinct (call_ids es)"
  shows "rpc_inv (call_ids es) n" and "linked_inv n"
  using rpc_inv_run [OF rpc_inv_init assms(1)] linked_inv_run [OF linked_inv_init assms(1)] assms(2) by simp_all

text \<open>A message at the front of its link can be delivered.\<close>

lemma take_first_head: "take_first (fst x) (x # ls) = Some (snd x, ls)"
  by (cases x) simp

lemma links_quiet:
  assumes "linked_inv n" and "\<And>d. connected (clients n d) \<Longrightarrow> receiving (clients n d)"
    and "\<And>c. rpc_step (ServerReceives c) n = None" and "\<And>c. rpc_step (ClientReceives c) n = None"
  shows "links n = []"
proof (cases "links n")
  case (Cons x ls)
  then have head: "take_first (fst x) (links n) = Some (snd x, ls)" by (simp add: take_first_head)
  show ?thesis
  proof (cases "fst x")
    case (Up c)
    with head assms(3) [of c] show ?thesis by simp
  next
    case (Down c)
    have "connected (clients n c)" using linked_invD(1) [OF assms(1), of x] Cons Down by simp
    with assms(2) head assms(4) [of c] Down show ?thesis by simp
  qed
qed simp

lemma items_then_complete:
  assumes "\<forall>x \<in> set (butlast xs). \<not> is_complete x" and "\<exists>x \<in> set xs. is_complete x"
  shows "\<exists>items code res. xs = map OnItem items @ [OnComplete code res]"
proof (cases xs rule: rev_cases)
  case (snoc ys y)
  with assms have ys: "\<forall>x \<in> set ys. \<not> is_complete x" and "is_complete y" by auto
  have "\<exists>items. ys = map OnItem items"
    using ys
  proof (induction ys)
    case (Cons z zs)
    then obtain items where "zs = map OnItem items" by auto
    moreover from Cons.prems obtain it where "z = OnItem it" by (cases z) auto
    ultimately show ?case by (intro exI [of _ "it # items"]) simp
  qed simp
  with snoc \<open>is_complete y\<close> show ?thesis by (cases y) auto
qed (use assms in simp)

text \<open>Calls come from call events.\<close>

definition stems_from :: "rpc_event set \<Rightarrow> rpc_id \<Rightarrow> nat \<Rightarrow> text_bytes \<Rightarrow> text_bytes \<Rightarrow> bool" where
  "stems_from E i c s r \<longleftrightarrow> (\<exists>k p. CallRemote c i k s r p \<in> E)"

definition origin_inv :: "rpc_event set \<Rightarrow> rpc_net \<Rightarrow> bool" where
  "origin_inv E n \<longleftrightarrow> (\<forall>(i, c, s, r) \<in> set (requested n). stems_from E i c s r)
     \<and> (\<forall>u \<in> set (uploads n). stems_from E (up_id u) (up_client u) (up_service u) (up_rpc u))"

lemma client_handle_keeps [simp]:
  "requested (client_handle c m n) = requested n \<and> uploads (client_handle c m n) = uploads n"
  by (cases m) (simp_all add: handle_request_remote_procedure_call_def handle_result_remote_procedure_call_def
      handle_server_streaming_def handle_client_streaming_def handle_abort_client_streaming_def send_result_def
      Let_def split: option.split)

lemma server_receive_keeps [simp]:
  "requested (server_receive c m n) = requested n" "uploads (server_receive c m n) = uploads n"
  "clients (server_receive c m n) = clients n"
  by (simp_all add: server_receive_def split_beta)

lemma end_execution_keeps [simp]:
  "requested (end_execution k code res n) = requested n" "uploads (end_execution k code res n) = uploads n"
  "remoteProcedures (clients (end_execution k code res n) d) = remoteProcedures (clients n d)"
  by (simp_all add: end_execution_def send_result_def Let_def)

lemma origin_inv_step:
  assumes inv: "origin_inv E n" and step: "rpc_step e n = Some n'" and e: "e \<in> E"
  shows "origin_inv E n'"
proof (cases e)
  case (CallRemote c i k s r p)
  then have "stems_from E i c s r" using e by (auto simp: stems_from_def)
  moreover have "n' = rpc_call_event c i k s r p n" using step CallRemote by (simp split: if_splits)
  ultimately show ?thesis using inv
    by (cases k) (auto simp: origin_inv_def call_remote_procedure_def call_server_streaming_def
        call_client_streaming_def call_client_server_streaming_def start_upload_def)
next
  case (UploadItem k item)
  then have k: "uploads n ! k \<in> set (uploads n)" "n' = upload_item k item n" using step by (auto split: if_splits)
  then show ?thesis using inv
    by (fastforce simp: origin_inv_def upload_item_def send_client_streaming_def Let_def
        dest!: set_update_subset_insert [THEN subsetD])
next
  case (UploadEnd k thrown)
  then have "requested n' = requested n" "uploads n' = remove_nth k (uploads n)"
    using step by (auto simp: upload_end_def send_abort_client_streaming_def Let_def split: if_splits)
  with inv remove_nth_subset [of k "uploads n"] show ?thesis unfolding origin_inv_def by auto
qed (use inv step in \<open>auto simp: origin_inv_def connect_def server_accept_def register_to_server_def
    execution_returns_def execution_yields_def execution_ends_def Let_def split: if_splits option.splits\<close>)

lemma origin_inv_run:
  "origin_inv E n \<Longrightarrow> rpc_run es n = Some n' \<Longrightarrow> set es \<subseteq> E \<Longrightarrow> origin_inv E n'"
  by (induction es arbitrary: n) (auto split: option.splits dest: origin_inv_step)

text \<open>A call whose stream ended before its first item.\<close>

definition abandoned :: "rpc_id \<Rightarrow> nat \<Rightarrow> text_bytes \<Rightarrow> rpc_net \<Rightarrow> bool" where
  "abandoned i c s n \<longleftrightarrow> i \<notin> fst ` set (requested n) \<and> i \<notin> set (fresh_uploads (uploads n))
     \<and> remoteProcedures (clients n c) (s, i) \<noteq> None"

lemma abandoned_keep:
  assumes "abandoned i c s n" and "fst ` set (requested n') \<subseteq> fst ` set (requested n)"
    and "set (fresh_uploads (uploads n')) \<subseteq> set (fresh_uploads (uploads n))"
    and "\<And>d. remoteProcedures (clients n' d) = remoteProcedures (clients n d)"
  shows "abandoned i c s n'"
  using assms by (auto simp: abandoned_def)

lemma abandoned_step:
  assumes ab: "abandoned i c s n" and rpc: "rpc_inv ids n" and i: "i \<in> set ids"
    and step: "rpc_step e n = Some n'" and new: "distinct (ids @ call_ids [e])"
  shows "abandoned i c s n'"
proof (cases e)
  case (CallRemote d j k t r p)
  then have "j \<noteq> i" using new i by auto
  moreover have "n' = rpc_call_event d j k t r p n" using step CallRemote by (simp split: if_splits)
  ultimately show ?thesis using ab
    by (cases k) (auto simp: abandoned_def call_remote_procedure_def call_server_streaming_def
        call_client_streaming_def call_client_server_streaming_def start_upload_def open_call_def
        set_completion_callback_def set_server_streaming_callback_def)
next
  case (UploadItem k item)
  let ?u = "uploads n ! k"
  have k: "k < length (uploads n)" "n' = upload_item k item n" using step UploadItem by (auto split: if_splits)
  have sub: "set (fresh_uploads ((uploads n)[k := ?u\<lparr>up_first := False\<rparr>])) \<subseteq> set (fresh_uploads (uploads n))"
    using filter_nth_split [OF k(1), of up_first] by (auto simp: fresh_uploads_def upd_conv_take_nth_drop [OF k(1)])
  have "up_id ?u \<noteq> i" if "up_first ?u"
    using ab that k(1) by (auto simp: abandoned_def fresh_uploads_def)
  then show ?thesis using ab sub
    by (auto simp: k(2) abandoned_def upload_item_def send_client_streaming_def Let_def)
next
  case (UploadEnd k thrown)
  have k: "k < length (uploads n)" "n' = upload_end k thrown n" using step UploadEnd by (auto split: if_splits)
  have "set (fresh_uploads (remove_nth k (uploads n))) \<subseteq> set (fresh_uploads (uploads n))"
    using remove_nth_subset [of k "uploads n"] by (auto simp: fresh_uploads_def)
  then show ?thesis
    by (intro abandoned_keep [OF ab]) (simp_all add: k(2) upload_end_def send_abort_client_streaming_def Let_def)
next
  case (ClientReceives d)
  then obtain m ls where m: "take_first (Down d) (links n) = Some (m, ls)" "n' = client_handle d m (n\<lparr>links := ls\<rparr>)"
    using step by (auto split: if_splits)
  from take_first_split [OF m(1)] obtain as bs where at: "links n = as @ (Down d, m) # bs" by blast
  have "remoteProcedures (clients n' c) (s, i) = remoteProcedures (clients n c) (s, i)"
  proof (cases m)
    case (ResultRemoteProcedureCall code j t r res)
    with inv_message_ok [OF rpc, of "(Down d, m)"] have "caller n j d t" by (simp add: at)
    with ab have "j \<noteq> i" by (force simp: abandoned_def caller_def)
    with ResultRemoteProcedureCall show ?thesis
      by (simp add: m(2) handle_result_remote_procedure_call_def change_call_def split: option.split)
  qed (simp_all add: m(2) handle_register_result_def handle_request_remote_procedure_call_def send_result_def
      handle_server_streaming_def handle_client_streaming_def handle_abort_client_streaming_def change_call_def
      Let_def split: option.split)
  with ab show ?thesis by (simp add: abandoned_def m(2))
qed (use step in \<open>auto simp: connect_def server_accept_def register_to_server_def register_procedure_def change_call_def
    execution_returns_def execution_yields_def execution_ends_def end_execution_def send_result_def
    Let_def intro!: abandoned_keep [OF ab] split: if_splits option.splits\<close>)

lemma abandoned_run:
  "abandoned i c s n \<Longrightarrow> rpc_inv ids n \<Longrightarrow> i \<in> set ids \<Longrightarrow> rpc_run es n = Some n'
     \<Longrightarrow> distinct (ids @ call_ids es) \<Longrightarrow> abandoned i c s n'"
proof (induction es arbitrary: ids n)
  case (Cons e es)
  from Cons.prems(4) obtain n1 where n1: "rpc_step e n = Some n1" "rpc_run es n1 = Some n'"
    by (auto split: option.splits)
  have ids: "distinct (ids @ call_ids [e])" "distinct ((ids @ call_ids [e]) @ call_ids es)"
    using Cons.prems(5) call_ids_Cons [of e es] by auto
  show ?case
    by (rule Cons.IH [OF abandoned_step [OF Cons.prems(1-3) n1(1) ids(1)]
          rpc_inv_step [OF Cons.prems(2) n1(1) ids(1)] _ n1(2) ids(2)]) (use Cons.prems(3) in simp)
qed simp

subsection \<open>Properties\<close>

text \<open>
  C14: the callbacks of a call are invoked at the client that made the call, and with a prefix of what was
  provided for that call, in the order in which it was provided; and what is provided ends at the first answer: no
  call is answered twice and nothing follows its answer. The ids are assumed to be used once, as the generators of
  \<open>Snowflake\<close> guarantee.
\<close>

theorem rpc_delivers_in_order:
  assumes "rpc_run es rpc_init = Some n" and "distinct (call_ids es)"
  shows "(\<exists>rest. provided_to i n = received_by i n @ rest)
    \<and> (\<forall>x \<in> set (butlast (provided_to i n)). \<not> is_complete x)
    \<and> (\<forall>c cb. (c, i, cb) \<in> set (callbacks n) \<longrightarrow> (\<exists>k s r p. CallRemote c i k s r p \<in> set es))"
proof (intro conjI allI impI)
  note inv = rpc_run_invs(1) [OF assms]
  show "\<exists>rest. provided_to i n = received_by i n @ rest" using inv_order(1) [OF inv, of i] by metis
  show "\<forall>x \<in> set (butlast (provided_to i n)). \<not> is_complete x" using inv_order(2) [OF inv] by blast
  fix c cb
  assume "(c, i, cb) \<in> set (callbacks n)"
  then obtain s r where "(i, c, s, r) \<in> set (requested n)" using inv_tables(3) [OF inv] by (force simp: caller_def)
  moreover have "origin_inv (set es) n"
    by (rule origin_inv_run [OF _ assms(1)]) (simp_all add: origin_inv_def rpc_init_def)
  ultimately show "\<exists>k s r p. CallRemote c i k s r p \<in> set es" by (fastforce simp: origin_inv_def stems_from_def)
qed

text \<open>
  C15: if registrations and calls agree on which procedures stream their results, then whenever no message can be
  delivered and no procedure is running, nothing is left on the links, and every call that was sent has been completed:
  its callbacks got all the items that its provider made, and then one answer.
\<close>

theorem rpc_calls_complete:
  assumes "rpc_run es rpc_init = Some n" and "distinct (call_ids es)" and "\<forall>e \<in> set es. agrees streams e"
    and "\<forall>c. rpc_step (ServerReceives c) n = None \<and> rpc_step (ClientReceives c) n = None" and "executions n = []"
    and "(i, c, s, r) \<in> set (requested n)"
  shows "links n = [] \<and> received_by i n = provided_to i n
    \<and> (\<exists>items code res. received_by i n = map OnItem items @ [OnComplete code res])"
proof -
  note inv = rpc_run_invs [OF assms(1,2)]
  have "typed_inv streams n"
    by (rule typed_inv_run [OF typed_inv_init rpc_inv_init assms(1)]) (use assms(2,3) in simp_all)
  from links_quiet [OF inv(2) typed_invD(6) [OF this]] assms(4) have links: "links n = []" by blast
  then have all: "received_by i n = provided_to i n" using inv_order(1) [OF inv(1), of i] by simp
  have "i \<in> set (answered (provided n))"
    using inv_calls_once(2) [OF inv(1)] assms(5,6) links by force
  then have "\<exists>x \<in> set (provided_to i n). is_complete x" by (simp only: answered_iff)
  from items_then_complete [OF _ this] inv_order(2) [OF inv(1)] all links show ?thesis by auto
qed

text \<open>
  C16: soundness of the typing of procedures. If registrations and calls agree on which procedures stream their
  results, no client is ever sent an item for which it has no callback, so no exception leaves the receive loop of a
  client that has connected.
\<close>

theorem rpc_clients_stay_alive:
  assumes "rpc_run es rpc_init = Some n" and "distinct (call_ids es)" and "\<forall>e \<in> set es. agrees streams e"
    and "connected (clients n c)"
  shows "receiving (clients n c)"
proof -
  have "typed_inv streams n"
    by (rule typed_inv_run [OF typed_inv_init rpc_inv_init assms(1)]) (use assms(2,3) in simp_all)
  from typed_invD(6) [OF this assms(4)] show ?thesis .
qed

text \<open>
  A call that streams its parameters is only sent with its first item. If the stream of the caller ends before
  it, by exhaustion or by an exception, nothing is ever sent but an abort for a call nobody knows: no callback is
  invoked, the entry stays, and the caller waits for ever.
\<close>

theorem empty_stream_never_completes:
  assumes "rpc_run es rpc_init = Some n" and "k < length (uploads n)" and "up_first (uploads n ! k)"
    and "rpc_run (UploadEnd k thrown # fs) n = Some n'" and "distinct (call_ids (es @ fs))"
  shows "received_by (up_id (uploads n ! k)) n' = []
    \<and> has_completion_callback (up_service (uploads n ! k)) (up_id (uploads n ! k)) (clients n' (up_client (uploads n ! k)))"
proof -
  let ?u = "uploads n ! k"
  have ids: "distinct (call_ids es)" "distinct (call_ids es @ call_ids fs)" using assms(5) by (simp_all add: call_ids_append)
  note inv = rpc_run_invs(1) [OF assms(1) ids(1)]
  obtain n1 where n1: "rpc_step (UploadEnd k thrown) n = Some n1" "rpc_run fs n1 = Some n'"
    using assms(2,4) by auto
  have split: "fresh_uploads (uploads n) = fresh_uploads (take k (uploads n)) @ up_id ?u # fresh_uploads (drop (Suc k) (uploads n))"
    using assms(3) by (simp add: fresh_uploads_def filter_nth_split [OF assms(2)])
  have dist: "distinct (map fst (requested n) @ fresh_uploads (uploads n))" "up_id ?u \<in> set (call_ids es)"
    using inv split by (auto simp: rpc_inv_def ids_inv_def)
  have "requested n1 = requested n" "uploads n1 = remove_nth k (uploads n)" "clients n1 = clients n"
    using n1(1) assms(2) by (auto simp: upload_end_def send_abort_client_streaming_def Let_def)
  then have "abandoned (up_id ?u) (up_client ?u) (up_service ?u) n1"
    using dist(1) inv_waiting(2) [OF inv _ assms(3)] assms(2) unfolding split
    by (auto simp: abandoned_def remove_nth_def)
  moreover have inv1: "rpc_inv (call_ids es) n1" using rpc_inv_step [OF inv n1(1)] ids(1) by simp
  ultimately have ab: "abandoned (up_id ?u) (up_client ?u) (up_service ?u) n'"
    using abandoned_run [OF _ _ dist(2) n1(2) ids(2)] by blast
  have inv': "rpc_inv (call_ids es @ call_ids fs) n'" by (rule rpc_inv_run [OF inv1 n1(2) ids(2)])
  have "provided_to (up_id ?u) n' = []"
    using inv_provided_requested [OF inv'] ab unfolding abandoned_def by blast
  with inv_order(1) [OF inv', of "up_id ?u"] ab show ?thesis by (simp add: abandoned_def has_completion_callback_def)
qed

text \<open>
  C17: however the bytes that a client sends are divided on their way, the server handles every message of them once
  and in the order sent, so that the links of \<open>Rpc\<close> may be queues of messages; no byte and no block of memory is left.
\<close>

theorem rpc_server_handles_every_packet:
  assumes "\<forall>m \<in> set ms. rpc_ok m \<and> length (rpc_packet m) < 2 ^ 31"
    and "concat (map (buffer_contents h) chunks) = concat (map rpc_packet ms)"
    and "\<forall>b \<in> set chunks. buffer_ok h b" and "owned h (concat (map fragments chunks))"
  shows "\<exists>h'. rpc_server_run c chunks h n = (AwaitMore, buffer_new, h', fold (server_receive c) ms n)
    \<and> blocks h' = Map.empty"
  using rpc_packets.run_stream [OF _ assms, of "\<lambda>m n. (True, server_receive c m n)" "\<lambda>n. n" n]
  by (simp add: rpc_server_run_def)

text \<open>A service with a procedure that streams two items to its caller.\<close>

definition sample_calls :: "rpc_event list" where
  "sample_calls =
     [Connect 0, ClientReceives 0, Connect 1, ClientReceives 1, RegisterToServer 1 [1], ServerReceives 1, ClientReceives 1,
      RegisterProcedure 1 [1] [2] ServerStreaming, CallRemote 0 7 ServerStreaming [1] [2] [9], ServerReceives 0,
      ClientReceives 1, Yields 0 [5], ServerReceives 1, Yields 0 [6], Ends 0 False, ClientReceives 0, ServerReceives 1,
      ServerReceives 1, ClientReceives 0, ClientReceives 0]"

definition sample_upload :: "rpc_event list" where
  "sample_upload = [Connect 0, ClientReceives 0, CallRemote 0 7 ClientStreaming [1] [2] []]"

lemmas rpc_eval = rpc_init_def rpc_client_new_def rpc_server_new_def connect_def server_accept_def register_to_server_def
  register_procedure_def make_procedure_key_def call_server_streaming_def call_client_streaming_def start_upload_def
  set_completion_callback_def set_server_streaming_callback_def find_remote_def open_call_def new_call_def
  rpc_send_def transmit_def with_client_def server_receive_def handle_request_remote_procedure_call_def
  execution_yields_def execution_ends_def end_execution_def send_result_def handle_server_streaming_def
  handle_result_remote_procedure_call_def handle_register_result_def change_call_def stream_item_def complete_call_def
  remove_nth_def upload_end_def send_abort_client_streaming_def has_completion_callback_def

lemma sample_calls_run:
  obtains n where "rpc_run sample_calls rpc_init = Some n" "links n = []" "executions n = []"
    "requested n = [(7, 0, [1], [2])]" "received_by 7 n = [OnItem [5], OnItem [6], OnComplete RpcErrorStreamingClosedGracefully []]"
    "callbacks n \<noteq> []" "connected (clients n 0)" "fst (hd (callbacks n)) = 0" "fst (snd (hd (callbacks n))) = 7"
  by (simp add: sample_calls_def rpc_eval Let_def received_by_def)

lemma sample_calls_ok:
  "distinct (call_ids sample_calls)" "\<forall>e \<in> set sample_calls. agrees (\<lambda>key. key = [1, 2]) e"
  by (simp_all add: sample_calls_def make_procedure_key_def)

lemma sample_upload_run:
  obtains n n' where "rpc_run sample_upload rpc_init = Some n" "length (uploads n) = 1" "up_first (uploads n ! 0)"
    "up_id (uploads n ! 0) = 7" "up_client (uploads n ! 0) = 0" "up_service (uploads n ! 0) = [1]"
    "rpc_run [UploadEnd 0 True, ServerReceives 0] n = Some n'"
  by (simp add: sample_upload_def rpc_eval Let_def)

theorem rpc_delivers_in_order_witness:
  "\<exists>n rest. rpc_run sample_calls rpc_init = Some n \<and> received_by 7 n \<noteq> [] \<and> provided_to 7 n = received_by 7 n @ rest
    \<and> (\<exists>k s r p. CallRemote 0 7 k s r p \<in> set sample_calls)"
proof -
  obtain n where n: "rpc_run sample_calls rpc_init = Some n" "received_by 7 n \<noteq> []" "callbacks n \<noteq> []"
    "fst (hd (callbacks n)) = 0" "fst (snd (hd (callbacks n))) = 7"
    by (rule sample_calls_run) simp
  then have "(0, 7, snd (snd (hd (callbacks n)))) \<in> set (callbacks n)" by (cases "callbacks n") auto
  with rpc_delivers_in_order [OF n(1) sample_calls_ok(1), of 7] n show ?thesis by blast
qed

theorem rpc_calls_complete_witness:
  "\<exists>n items code res. rpc_run sample_calls rpc_init = Some n \<and> links n = []
    \<and> received_by 7 n = map OnItem items @ [OnComplete code res] \<and> length items = 2"
proof -
  obtain n where n: "rpc_run sample_calls rpc_init = Some n" "links n = []" "executions n = []"
    "requested n = [(7, 0, [1], [2])]" "received_by 7 n = [OnItem [5], OnItem [6], OnComplete RpcErrorStreamingClosedGracefully []]"
    by (rule sample_calls_run)
  have "\<forall>c. rpc_step (ServerReceives c) n = None \<and> rpc_step (ClientReceives c) n = None" using n(2) by simp
  moreover have "(7, 0, [1], [2]) \<in> set (requested n)" using n(4) by simp
  ultimately obtain items code res where r: "received_by 7 n = map OnItem items @ [OnComplete code res]"
    using rpc_calls_complete [OF n(1) sample_calls_ok _ n(3)] by blast
  with n(5) have "length (map OnItem items @ [OnComplete code res]) = 3" by simp
  then have "length items = 2" by simp
  with n r show ?thesis by blast
qed

theorem rpc_clients_stay_alive_witness:
  "\<exists>n. rpc_run sample_calls rpc_init = Some n \<and> connected (clients n 0) \<and> receiving (clients n 0)"
proof -
  obtain n where n: "rpc_run sample_calls rpc_init = Some n" "connected (clients n 0)" by (rule sample_calls_run)
  from rpc_clients_stay_alive [OF n(1) sample_calls_ok n(2)] n show ?thesis by blast
qed

theorem empty_stream_never_completes_witness:
  "\<exists>n n'. rpc_run sample_upload rpc_init = Some n \<and> rpc_run [UploadEnd 0 True, ServerReceives 0] n = Some n'
    \<and> received_by 7 n' = [] \<and> has_completion_callback [1] 7 (clients n' 0)"
proof -
  obtain n n' where n: "rpc_run sample_upload rpc_init = Some n" "length (uploads n) = 1" "up_first (uploads n ! 0)"
    "up_id (uploads n ! 0) = 7" "up_client (uploads n ! 0) = 0" "up_service (uploads n ! 0) = [1]"
    "rpc_run [UploadEnd 0 True, ServerReceives 0] n = Some n'"
    by (rule sample_upload_run)
  have "distinct (call_ids (sample_upload @ [ServerReceives 0]))" by (simp add: sample_upload_def)
  with empty_stream_never_completes [OF n(1) _ n(3) n(7)] n(2) have
    "received_by 7 n' = [] \<and> has_completion_callback [1] 7 (clients n' 0)" by (simp add: n(4-6))
  with n show ?thesis by blast
qed

text \<open>A registration that arrives in two buffers.\<close>

definition sample_packet_heap :: heap where
  "sample_packet_heap =
     \<lparr>blocks = [0 \<mapsto> \<lparr>refCount = 1, bytes = [9, 0, 0, 0, 1]\<rparr>, 1 \<mapsto> \<lparr>refCount = 1, bytes = [0, 1, 0, 65]\<rparr>],
      next_block = 2\<rparr>"

definition sample_packet_chunks :: "buffer list" where
  "sample_packet_chunks =
     [\<lparr>buf_size = 5, fragments = [\<lparr>impl = Some 0, startOffset = 0, frag_size = 5\<rparr>]\<rparr>,
      \<lparr>buf_size = 4, fragments = [\<lparr>impl = Some 1, startOffset = 0, frag_size = 4\<rparr>]\<rparr>]"

lemma sample_packet_facts:
  "\<forall>b \<in> set sample_packet_chunks. buffer_ok sample_packet_heap b"
  "owned sample_packet_heap (concat (map fragments sample_packet_chunks))"
  "concat (map (buffer_contents sample_packet_heap) sample_packet_chunks) = [9, 0, 0, 0, 1, 0, 1, 0, 65]"
  "rpc_packet (RequestRegisterRPCClient [65]) = [9, 0, 0, 0, 1, 0, 1, 0, 65]"
  by (simp_all add: sample_packet_heap_def sample_packet_chunks_def handle_ok_def buffer_ok_def owned_def
      calculate_size_def fragment_valid_def buffer_contents_def fragment_span_def)
    code_simp

theorem rpc_server_handles_every_packet_witness:
  "\<exists>h'. rpc_server_run 0 sample_packet_chunks sample_packet_heap rpc_init
      = (AwaitMore, buffer_new, h', server_receive 0 (RequestRegisterRPCClient [65]) rpc_init)
    \<and> blocks h' = Map.empty"
proof -
  have "rpc_ok (RequestRegisterRPCClient [65])" by (simp add: string_ok_def drop_last_nul_def)
  with rpc_server_handles_every_packet [of "[RequestRegisterRPCClient [65]]" sample_packet_heap sample_packet_chunks 0 rpc_init]
  show ?thesis by (simp add: sample_packet_facts)
qed

end
