(* ===== verification/Session.thy ===== *)
theory Session
  imports Buffer
begin

text \<open>
  \<^verbatim>\<open>shared/network/session/session.cpp\<close>: the two ends of a connection. Everything a session does runs on
  its strand, one task or one completion of the socket at a time, so a step is one of them. The socket is
  the two streams of bytes it has passed on, and whether an operation of it is outstanding.

  The memory of the receive buffer is shared: the front of it is sliced off for the server while the socket
  goes on writing into the rest of the same block. The theory proves that what the server is given are the
  bytes that were read, whatever is read later; that what was given to \<^verbatim>\<open>Send\<close> is what the socket takes, in order;
  and that no step fails. What becomes of an event is the business of a server: the locale \<open>event_sink\<close> states what
  the session relies on.
\<close>

datatype session_event =
    ReceiveEvent buffer
  | IoErrorEvent
  | DestructEvent

text \<open>The tasks that are posted to the strand of a session.\<close>

datatype session_task =
    StartReceiveTask
  | SendTask buffer
  | CloseTask

text \<open>
  \<open>socket_in\<close> and \<open>socket_out\<close> are the bytes the socket has delivered and taken; \<open>reading\<close> and \<open>writing\<close> tell
  whether \<^verbatim>\<open>async_read_some\<close> and \<^verbatim>\<open>async_write\<close> are outstanding. A \<^verbatim>\<open>mutable_buffer\<close> or \<^verbatim>\<open>const_buffer\<close> is
  the place a fragment points to. \<open>event_channel_open\<close> is the status of the channel to the server: \<^verbatim>\<open>MpmcChannel::Send\<close> does
  not look at it and takes events also after \<^verbatim>\<open>Close\<close>. \<open>asked\<close> is auxiliary: the bytes given to \<^verbatim>\<open>Send\<close>.
\<close>

record session =
  session_id :: "64 word"
  socket_open :: bool
  event_channel_open :: bool
  socket_in :: "byte list"
  socket_out :: "byte list"
  reading :: bool
  writing :: bool
  strand_tasks :: "session_task list"
  receiveBuffer :: buffer
  mutableBuffers :: "fragment list"
  sendPending :: bool
  sendBuffer :: buffer
  sendWaitQueue :: "buffer list"
  constBuffers :: "fragment list"
  asked :: "byte list"

subsection \<open>Operations\<close>

fun task_bytes :: "heap \<Rightarrow> session_task \<Rightarrow> byte list" where
  "task_bytes h (SendTask b) = buffer_contents h b"
| "task_bytes h _ = []"

text \<open>\<^verbatim>\<open>StartReceive\<close>, \<^verbatim>\<open>Send\<close> and \<^verbatim>\<open>Close\<close> post a task and return.\<close>

definition post_task :: "heap \<Rightarrow> session_task \<Rightarrow> session \<Rightarrow> session" where
  "post_task h task s = s\<lparr>strand_tasks := strand_tasks s @ [task], asked := asked s @ task_bytes h task\<rparr>"

definition close_session :: "heap \<Rightarrow> session \<Rightarrow> session" where
  "close_session h s = post_task h CloseTask s"

text \<open>The memory of the new fragment is not initialised: its bytes are the argument \<open>junk\<close>.\<close>

definition expand_receive_buffer :: "byte list \<Rightarrow> session \<Rightarrow> heap \<Rightarrow> fault + (session \<times> heap)" where
  "expand_receive_buffer junk s h =
     (if buf_size (receiveBuffer s) \<ge> 1024 then Inr (s, h)
      else let (f, h1) = fragment_create 2048 junk h
           in and_then (buffer_add f (receiveBuffer s) h1) (\<lambda>(b, h2). Inr (s\<lparr>receiveBuffer := b\<rparr>, h2)))"

definition session_new :: "64 word \<Rightarrow> byte list \<Rightarrow> heap \<Rightarrow> fault + (session \<times> heap)" where
  "session_new sid junk h =
     expand_receive_buffer junk
       \<lparr>session_id = sid, socket_open = True, event_channel_open = True, socket_in = [], socket_out = [], reading = False, writing = False,
        strand_tasks = [], receiveBuffer = buffer_new, mutableBuffers = [], sendPending = False,
        sendBuffer = buffer_new, sendWaitQueue = [], constBuffers = [], asked = []\<rparr> h"

definition receive_async :: "session \<Rightarrow> session" where
  "receive_async s =
     s\<lparr>mutableBuffers := mutableBuffers s @ fragments (receiveBuffer s), reading := True\<rparr>"

text \<open>
  \<^verbatim>\<open>HandleReceive\<close>. What sending an event does, to the session among others, is an argument; \<open>'t\<close> is the
  state of the server.
\<close>

definition handle_receive ::
  "(session_event \<Rightarrow> session \<Rightarrow> 't \<Rightarrow> heap \<Rightarrow> fault + (session \<times> 't \<times> heap))
     \<Rightarrow> int \<Rightarrow> byte list \<Rightarrow> session \<Rightarrow> 't \<Rightarrow> heap \<Rightarrow> fault + (session \<times> 't \<times> heap)" where
  "handle_receive send_event n junk s0 t h =
     (let s = s0\<lparr>mutableBuffers := []\<rparr>
      in and_then (buffer_slice_front buffer_new n (receiveBuffer s) h) (\<lambda>(sliced, buffer, rest, h1).
        let s1 = s\<lparr>receiveBuffer := rest\<rparr>
        in if \<not> sliced then
             and_then (destroy_all (fragments buffer) h1) (\<lambda>h2. Inr (close_session h2 s1, t, h2))
           else
             and_then (send_event (ReceiveEvent buffer) s1 t h1) (\<lambda>(s2, t1, h2).
             and_then (expand_receive_buffer junk s2 h2) (\<lambda>(s3, h3).
             Inr (receive_async s3, t1, h3)))))"

definition configure_const_buffer :: "buffer \<Rightarrow> session \<Rightarrow> session" where
  "configure_const_buffer b s = s\<lparr>constBuffers := constBuffers s @ fragments b\<rparr>"

definition write_async :: "session \<Rightarrow> session" where
  "write_async s = s\<lparr>writing := True\<rparr>"

definition send_async :: "buffer \<Rightarrow> session \<Rightarrow> heap \<Rightarrow> fault + (session \<times> heap)" where
  "send_async b s h =
     (if sendPending s then Inr (s\<lparr>sendWaitQueue := sendWaitQueue s @ [b]\<rparr>, h)
      else
        let s1 = s\<lparr>sendPending := True, sendBuffer := fst (buffer_merge_back b (sendBuffer s))\<rparr>
        in and_then
             (if buf_size (sendBuffer s1) > 1460
              then and_then (buffer_slice_front buffer_new 1460 (sendBuffer s1) h) (\<lambda>(sliced, temp, rest, h1).
                Inr (s1\<lparr>sendBuffer := temp, sendWaitQueue := rest # sendWaitQueue s1\<rparr>, h1))
              else Inr (s1, h))
             (\<lambda>(s2, h2). Inr (write_async (configure_const_buffer (sendBuffer s2) s2), h2)))"

definition flush_send_wait_queue :: "session \<Rightarrow> buffer \<times> session" where
  "flush_send_wait_queue s =
     (fold (\<lambda>b acc. fst (buffer_merge_back b acc)) (sendWaitQueue s) buffer_new, s\<lparr>sendWaitQueue := []\<rparr>)"

text \<open>The local \<^verbatim>\<open>buffer\<close> that takes what was sent lives to the end of \<^verbatim>\<open>OnWriteAsync\<close>.\<close>

definition on_write_async :: "int \<Rightarrow> session \<Rightarrow> heap \<Rightarrow> fault + (session \<times> heap)" where
  "on_write_async n s0 h =
     (let s = s0\<lparr>constBuffers := []\<rparr>
      in if \<not> sendPending s then Inr (close_session h s, h)
         else and_then (buffer_slice_front buffer_new n (sendBuffer s) h) (\<lambda>(sliced, local, rest, h1).
           let s1 = s\<lparr>sendBuffer := rest\<rparr>
           in and_then
                (if \<not> sliced then Inr (close_session h1 s1, h1)
                 else if buf_size (sendBuffer s1) > 0 then
                   Inr (write_async (configure_const_buffer (sendBuffer s1) s1), h1)
                 else and_then (buffer_clear (sendBuffer s1) h1) (\<lambda>(b, h2).
                   let s2 = s1\<lparr>sendPending := False, sendBuffer := b\<rparr>
                   in if sendWaitQueue s2 \<noteq> []
                      then case flush_send_wait_queue s2 of (b1, s3) \<Rightarrow> send_async b1 s3 h2
                      else Inr (s2, h2)))
                (\<lambda>(s4, h4). and_then (destroy_all (fragments local) h4) (\<lambda>h5. Inr (s4, h5)))))"

subsection \<open>The tasks and the completions\<close>

text \<open>What the socket reads goes where the fragments point to, one after another.\<close>

fun scatter :: "fragment list \<Rightarrow> byte list \<Rightarrow> heap \<Rightarrow> fault + heap" where
  "scatter fs [] h = Inr h"
| "scatter [] (c # cs) h = Inl OutOfBounds"
| "scatter (f # fs) (c # cs) h =
     and_then (fragment_write f (take (nat (frag_size f)) (c # cs)) h)
       (scatter fs (drop (nat (frag_size f)) (c # cs)))"

definition gather :: "heap \<Rightarrow> fragment list \<Rightarrow> byte list" where
  "gather h fs = concat (map (fragment_span h) fs)"

datatype session_action =
    RunTask
  | ReadDone "byte list" "byte list"
  | ReadError
  | WriteDone int
  | WriteError

text \<open>
  One step on the strand; \<open>None\<close>: there is nothing of the kind to do. \<^verbatim>\<open>async_read_some\<close> completes with
  some bytes, at least one and no more than there is room for, \<^verbatim>\<open>async_write\<close> with a number of those it was
  given, none only if it was given none. (That \<^verbatim>\<open>async_write\<close> without an error takes all is not relied on: the path of
  \<^verbatim>\<open>OnWriteAsync\<close> for the rest, which asserts that it is not taken, is modelled as it continues without assertions.)
\<close>

fun session_step ::
  "(session_event \<Rightarrow> session \<Rightarrow> 't \<Rightarrow> heap \<Rightarrow> fault + (session \<times> 't \<times> heap))
     \<Rightarrow> session_action \<Rightarrow> session \<Rightarrow> 't \<Rightarrow> heap \<Rightarrow> (fault + (session \<times> 't \<times> heap)) option" where
  "session_step send_event RunTask s t h =
     (case strand_tasks s of
        [] \<Rightarrow> None
      | StartReceiveTask # ts \<Rightarrow> Some (Inr (receive_async (s\<lparr>strand_tasks := ts\<rparr>), t, h))
      | SendTask b # ts \<Rightarrow>
          Some (and_then (send_async b (s\<lparr>strand_tasks := ts\<rparr>) h) (\<lambda>(s1, h1). Inr (s1, t, h1)))
      | CloseTask # ts \<Rightarrow> Some (Inr (s\<lparr>strand_tasks := ts, socket_open := False, event_channel_open := False\<rparr>, t, h)))"
| "session_step send_event (ReadDone bs junk) s t h =
     (if \<not> reading s \<or> bs = [] \<or> length (gather h (mutableBuffers s)) < length bs \<or> length junk \<noteq> 2048 then None
      else Some (and_then (scatter (mutableBuffers s) bs h) (\<lambda>h1.
        handle_receive send_event (int (length bs)) junk
          (s\<lparr>reading := False, socket_in := socket_in s @ bs\<rparr>) t h1)))"
| "session_step send_event ReadError s t h =
     (if reading s then Some (send_event IoErrorEvent (s\<lparr>reading := False\<rparr>) t h) else None)"
| "session_step send_event (WriteDone n) s t h =
     (if \<not> writing s \<or> n < min 1 (int (length (gather h (constBuffers s))))
         \<or> int (length (gather h (constBuffers s))) < n then None
      else Some (and_then
        (on_write_async n
          (s\<lparr>writing := False, socket_out := socket_out s @ take (nat n) (gather h (constBuffers s))\<rparr>) h)
        (\<lambda>(s1, h1). Inr (s1, t, h1))))"
| "session_step send_event WriteError s t h =
     (if writing s then Some (send_event IoErrorEvent (s\<lparr>writing := False\<rparr>) t h) else None)"

subsection \<open>Places in memory\<close>

definition apart :: "fragment \<Rightarrow> fragment \<Rightarrow> bool" where
  "apart f g \<longleftrightarrow> impl f \<noteq> impl g \<or> startOffset f + frag_size f \<le> startOffset g
     \<or> startOffset g + frag_size g \<le> startOffset f"

definition within :: "fragment \<Rightarrow> fragment \<Rightarrow> bool" where
  "within f g \<longleftrightarrow> impl f = impl g \<and> startOffset f \<le> startOffset g
     \<and> startOffset g + frag_size g \<le> startOffset f + frag_size f"

text \<open>A handle that was made from others, or for new memory.\<close>

definition made_from :: "heap \<Rightarrow> fragment list \<Rightarrow> fragment \<Rightarrow> bool" where
  "made_from h fs g \<longleftrightarrow>
     (case impl g of None \<Rightarrow> True | Some b \<Rightarrow> blocks h b = None \<or> (\<exists>f \<in> set fs. within f g))"

lemma made_from_same [intro]: "g \<in> set fs \<Longrightarrow> made_from h fs g"
  by (auto simp: made_from_def within_def split: option.splits)

lemma made_from_mono: "made_from h fs g \<Longrightarrow> set fs \<subseteq> set gs \<Longrightarrow> made_from h gs g"
  by (auto simp: made_from_def split: option.splits)

lemma apart_sym: "apart f g \<Longrightarrow> apart g f"
  by (auto simp: apart_def)

lemma apart_within: "apart f g \<Longrightarrow> within g k \<Longrightarrow> apart f k"
  by (auto simp: apart_def within_def)

lemma apart_made_from:
  assumes "made_from h fs g" and "\<forall>f \<in> set fs. apart r f" and "handle_ok h r" and "fragment_valid r"
  shows "apart r g"
proof (cases "impl g")
  case (Some b)
  with assms(1) consider "blocks h b = None" | f where "f \<in> set fs" "within f g"
    by (auto simp: made_from_def)
  then show ?thesis
  proof cases
    case 1
    with assms(3,4) Some have "impl r \<noteq> impl g" by (auto simp: handle_ok_def fragment_valid_def)
    then show ?thesis by (simp add: apart_def)
  next
    case 2
    with assms(2) show ?thesis by (blast intro: apart_within)
  qed
qed (use assms(4) in \<open>simp add: apart_def fragment_valid_def\<close>)

text \<open>What \<^verbatim>\<open>SliceFront\<close> does to the handles: at most one is split.\<close>

definition split_of :: "fragment \<Rightarrow> fragment \<Rightarrow> fragment \<Rightarrow> bool" where
  "split_of f g f' \<longleftrightarrow> impl g = impl f \<and> impl f' = impl f \<and> startOffset g = startOffset f
     \<and> startOffset f' = startOffset f + frag_size g \<and> frag_size f' = frag_size f - frag_size g
     \<and> 0 \<le> frag_size g \<and> frag_size g \<le> frag_size f"

lemma slice_loop_shape:
  "slice_loop fs acc sz h = Inr (n, taken, rest, h') \<Longrightarrow> acc \<le> sz \<Longrightarrow>
     taken @ rest = fs
     \<or> (\<exists>a f b g f'. fs = a @ f # b \<and> taken = a @ [g] \<and> rest = f' # b \<and> split_of f g f')"
proof (induction fs arbitrary: acc n taken rest h')
  case (Cons f fs)
  consider "acc + frag_size f > sz" | "acc + frag_size f = sz" | "acc + frag_size f < sz" by linarith
  then show ?case
  proof cases
    case 1
    with Cons.prems obtain g f' where
      g: "fragment_slice_front (sz - acc) f h = Inr (Some g, f', h')" "taken = [g]" "rest = f' # fs"
      by (auto simp: and_then_Inr_iff split: option.splits)
    then have "split_of f g f'"
      using 1 Cons.prems(2)
      by (auto simp: fragment_slice_front_def split_of_def and_then_Inr_iff split: if_splits)
    with g show ?thesis by blast
  next
    case 2
    with Cons.prems show ?thesis by auto
  next
    case 3
    with Cons.prems obtain n' taken' rest' h'' where
      r: "slice_loop fs (acc + frag_size f) sz h = Inr (n', taken', rest', h'')"
      and n: "(n' = None \<and> taken = [] \<and> rest = f # rest') \<or> (n' \<noteq> None \<and> taken = f # taken' \<and> rest = rest')"
      by (auto simp: and_then_Inr_iff split: option.splits)
    have "taken' = []" if "n' = None"
      using r that
      by (cases fs) (auto simp: Let_def and_then_Inr_iff split: if_splits option.splits)
    with Cons.IH [OF r] 3 n show ?thesis by (force simp: Cons_eq_append_conv)
  qed
qed auto

lemma split_of_within: "split_of f g f' \<Longrightarrow> within f g \<and> within f f' \<and> apart g f'"
  by (auto simp: split_of_def within_def apart_def)

lemma sliced_handles:
  assumes "slice_loop fs acc sz h = Inr (n, taken, rest, h')" and "acc \<le> sz"
  shows "g \<in> set (taken @ rest) \<Longrightarrow> \<exists>f \<in> set fs. within f g"
    and "sorted_wrt apart fs \<Longrightarrow> sorted_wrt apart (taken @ rest)"
proof -
  have same: "within f f" for f by (simp add: within_def)
  from slice_loop_shape [OF assms] consider "taken @ rest = fs"
    | a f b k f' where "fs = a @ f # b" "taken = a @ [k]" "rest = f' # b" "split_of f k f'" by blast
  then have "(g \<in> set (taken @ rest) \<longrightarrow> (\<exists>f \<in> set fs. within f g))
      \<and> (sorted_wrt apart fs \<longrightarrow> sorted_wrt apart (taken @ rest))"
  proof cases
    case 1
    with same show ?thesis by auto
  next
    case 2
    with split_of_within [OF 2(4)] same have "g \<in> set (taken @ rest) \<longrightarrow> (\<exists>f \<in> set fs. within f g)" by auto
    moreover have "apart x k" "apart x f'" if "apart x f" for x
      using that split_of_within [OF 2(4)] by (auto intro: apart_within)
    moreover have "apart k x" "apart f' x" if "apart f x" for x
      using that split_of_within [OF 2(4)] by (meson apart_sym apart_within)+
    ultimately show ?thesis using 2 split_of_within [OF 2(4)] by (auto simp: sorted_wrt_append)
  qed
  then show "g \<in> set (taken @ rest) \<Longrightarrow> \<exists>f \<in> set fs. within f g"
    and "sorted_wrt apart fs \<Longrightarrow> sorted_wrt apart (taken @ rest)" by blast+
qed

lemma slice_front_handles:
  assumes "owned h (fragments b @ others)" and "buffer_ok h b" and "0 < sz" and "sz \<le> buf_size b"
  obtains b1 b2 h' where "buffer_slice_front buffer_new sz b h = Inr (True, b1, b2, h')"
    and "buffer_contents h' b1 = take (nat sz) (buffer_contents h b)"
    and "buffer_contents h' b2 = drop (nat sz) (buffer_contents h b)"
    and "buf_size b1 = sz" and "buf_size b2 = buf_size b - sz" and "buffer_ok h' b1" and "buffer_ok h' b2"
    and "owned h' (fragments b1 @ fragments b2 @ others)" and "same_bytes h h'"
    and "\<forall>g \<in> set (fragments b1 @ fragments b2). \<exists>f \<in> set (fragments b). within f g"
    and "sorted_wrt apart (fragments b) \<Longrightarrow> sorted_wrt apart (fragments b1 @ fragments b2)"
proof -
  from assms(1) have "owned h (fragments buffer_new @ fragments b @ others)" by (simp add: buffer_new_def)
  from buffer_slice_front_owned [OF this assms(2-4)] obtain b1 b2 h' where
    r: "buffer_slice_front buffer_new sz b h = Inr (True, b1, b2, h')"
      "buffer_contents h' b1 = take (nat sz) (buffer_contents h b)"
      "buffer_contents h' b2 = drop (nat sz) (buffer_contents h b)"
      "buf_size b1 = sz" "buffer_ok h' b1" "buffer_ok h' b2" "owned h' (fragments b1 @ fragments b2 @ others)"
      "same_bytes h h'"
    by blast
  then obtain n taken rest h1 where l: "slice_loop (fragments b) 0 sz h = Inr (n, taken, rest, h1)"
    "fragments b1 = taken" "fragments b2 = rest" "buf_size b2 = buf_size b - sz"
    by (auto simp: buffer_slice_front_def and_then_Inr_iff split: if_splits)
  have "0 \<le> sz" using assms(3) by simp
  from sliced_handles [OF l(1) this] l r show thesis by (intro that [of b1 b2 h']) auto
qed

subsection \<open>Writing into memory\<close>

lemma fragment_write_apart:
  assumes ok: "handle_ok h f" and v: "fragment_valid f" and len: "int (length bs) \<le> frag_size f"
  obtains h' where "fragment_write f bs h = Inr h'" and "\<And>g. handle_ok h g \<Longrightarrow> handle_ok h' g"
    and "\<And>fs. owned h fs \<Longrightarrow> owned h' fs" and "\<And>b. blocks h' b = None \<longleftrightarrow> blocks h b = None"
    and "fragment_span h' f = bs @ drop (length bs) (fragment_span h f)"
    and "\<And>g. handle_ok h g \<Longrightarrow> apart f g \<Longrightarrow> fragment_span h' g = fragment_span h g"
proof -
  from ok v obtain b blk where b: "impl f = Some b" "blocks h b = Some blk" "0 \<le> startOffset f" "0 \<le> frag_size f"
    "startOffset f + frag_size f \<le> int (length (bytes blk))"
    by (cases "impl f") (auto simp: handle_ok_def fragment_valid_def)
  let ?n = "nat (startOffset f)"
  let ?bs = "overwrite ?n bs (bytes blk)"
  let ?h = "set_block b (Some (blk\<lparr>bytes := ?bs\<rparr>)) h"
  have fits: "?n + length bs \<le> length (bytes blk)" using b len by linarith
  then have same: "length ?bs = length (bytes blk)" by (simp add: overwrite_def)
  have handle: "handle_ok ?h g" if "handle_ok h g" for g
    using that b(2) same by (auto simp: handle_ok_def set_block_def split: option.splits)
  have "owned ?h fs" if "owned h fs" for fs
  proof (rule ownedI)
    fix c assume "blocks ?h c = None"
    then show "handles_of c fs = 0"
      using ownedD(1) [OF that, of c] by (auto simp: set_block_def split: if_splits)
  next
    fix c blk' assume "blocks ?h c = Some blk'"
    then show "c < next_block ?h \<and> refCount blk' = int (handles_of c fs) \<and> 0 < handles_of c fs"
      using ownedD(2) [OF that, of c] b(2) by (cases "c = b") (auto simp: set_block_def)
  next
    fix g assume "g \<in> set fs"
    with ownedD(3) [OF that] show "handle_ok ?h g" by (blast intro: handle)
  qed
  moreover have "fragment_write f bs h = Inr ?h"
    using b fits by (simp add: fragment_write_def deref_def)
  moreover have "fragment_span ?h f = bs @ drop (length bs) (fragment_span h f)"
  proof -
    have "drop ?n ?bs = bs @ drop (?n + length bs) (bytes blk)" using fits by (simp add: overwrite_def)
    moreover have "length bs \<le> nat (frag_size f)" using len by simp
    ultimately show ?thesis
      using b by (simp add: fragment_span_def set_block_def drop_take add.commute)
  qed
  moreover have "fragment_span ?h g = fragment_span h g" if g: "handle_ok h g" "apart f g" for g
  proof (cases "impl g = Some b")
    case True
    with g b(2) have gb: "0 \<le> startOffset g" "0 \<le> frag_size g" by (auto simp: handle_ok_def)
    let ?m = "nat (startOffset g)" and ?k = "nat (frag_size g)"
    from g(2) True b(1) consider "startOffset f + frag_size f \<le> startOffset g"
      | "startOffset g + frag_size g \<le> startOffset f" by (auto simp: apart_def)
    then have "take ?k (drop ?m ?bs) = take ?k (drop ?m (bytes blk))"
    proof cases
      case 1
      then have "?n + length bs \<le> ?m" using len b(3) by linarith
      then have "drop ?m ?bs = drop ?m (bytes blk)" using fits by (simp add: overwrite_def)
      then show ?thesis by simp
    next
      case 2
      then have "?m + ?k \<le> ?n" using gb by linarith
      then have "take (?m + ?k) ?bs = take (?m + ?k) (bytes blk)" using fits by (simp add: overwrite_def)
      then show ?thesis by (metis drop_take add.commute add_diff_cancel_left')
    qed
    with True b(2) show ?thesis by (simp add: fragment_span_def set_block_def)
  next
    case False
    then show ?thesis by (auto simp: fragment_span_def set_block_def split: option.splits)
  qed
  moreover have "blocks ?h c = None \<longleftrightarrow> blocks h c = None" for c using b(2) by (auto simp: set_block_def)
  ultimately show thesis using handle by (intro that [of ?h]) auto
qed

lemma gather_length: "\<forall>f \<in> set fs. handle_ok h f \<Longrightarrow> int (length (gather h fs)) = (\<Sum>f\<leftarrow>fs. frag_size f)"
  unfolding gather_def by (rule spans_length)

text \<open>Memory written front to back, as far as the bytes go; the memory of others is not touched.\<close>

lemma scatter_apart:
  "sorted_wrt apart fs \<Longrightarrow> \<forall>f \<in> set fs. fragment_valid f \<and> handle_ok h f \<Longrightarrow> length bs \<le> length (gather h fs)
     \<Longrightarrow> \<exists>h'. scatter fs bs h = Inr h' \<and> (\<forall>g. handle_ok h g \<longrightarrow> handle_ok h' g)
       \<and> (\<forall>gs. owned h gs \<longrightarrow> owned h' gs) \<and> (\<forall>b. blocks h' b = None \<longleftrightarrow> blocks h b = None)
       \<and> gather h' fs = bs @ drop (length bs) (gather h fs)
       \<and> (\<forall>g. handle_ok h g \<longrightarrow> (\<forall>f \<in> set fs. apart f g) \<longrightarrow> fragment_span h' g = fragment_span h g)"
proof (induction fs arbitrary: bs h)
  case (Cons f fs)
  show ?case
  proof (cases bs)
    case (Cons c cs)
    let ?k = "nat (frag_size f)"
    have f: "handle_ok h f" "fragment_valid f" using Cons.prems(2) by auto
    have "int (length (take ?k bs)) \<le> frag_size f" using f(2) by (auto simp: fragment_valid_def)
    from fragment_write_apart [OF f this] obtain h1 where
      w: "fragment_write f (take ?k bs) h = Inr h1" "\<And>g. handle_ok h g \<Longrightarrow> handle_ok h1 g"
        "\<And>gs. owned h gs \<Longrightarrow> owned h1 gs" "\<And>b. blocks h1 b = None \<longleftrightarrow> blocks h b = None"
        "fragment_span h1 f = take ?k bs @ drop (length (take ?k bs)) (fragment_span h f)"
        "\<And>g. handle_ok h g \<Longrightarrow> apart f g \<Longrightarrow> fragment_span h1 g = fragment_span h g"
      by blast
    have len: "length (fragment_span h f) = ?k" using span_length [OF f(1)] by linarith
    have others: "fragment_span h1 g = fragment_span h g" if "g \<in> set fs" for g
      using that Cons.prems(1,2) by (intro w(6)) auto
    then have g1: "gather h1 fs = gather h fs" by (simp add: gather_def cong: map_cong)
    have "length (drop ?k bs) \<le> length (gather h1 fs)"
      using Cons.prems(3) len g1 by (simp add: gather_def)
    with Cons.IH [of h1 "drop ?k bs"] Cons.prems(1,2) w(2) obtain h' where
      r: "scatter fs (drop ?k bs) h1 = Inr h'" "\<forall>g. handle_ok h1 g \<longrightarrow> handle_ok h' g"
        "\<forall>gs. owned h1 gs \<longrightarrow> owned h' gs" "\<forall>b. blocks h' b = None \<longleftrightarrow> blocks h1 b = None"
        "gather h' fs = drop ?k bs @ drop (length (drop ?k bs)) (gather h1 fs)"
        "\<forall>g. handle_ok h1 g \<longrightarrow> (\<forall>f \<in> set fs. apart f g) \<longrightarrow> fragment_span h' g = fragment_span h1 g"
      by auto
    have "fragment_span h' f = fragment_span h1 f"
      using r(6) w(2) f(1) Cons.prems(1) by (auto intro: apart_sym)
    then have "gather h' (f # fs) = (take ?k bs @ drop (length (take ?k bs)) (fragment_span h f))
        @ drop ?k bs @ drop (length (drop ?k bs)) (gather h fs)"
      using w(5) r(5) g1 by (simp add: gather_def)
    also have "\<dots> = bs @ drop (length bs) (gather h (f # fs))"
      using len by (cases "length bs \<le> ?k") (simp_all add: gather_def)
    finally have eq: "gather h' (f # fs) = bs @ drop (length bs) (gather h (f # fs))" .
    have "\<forall>g. handle_ok h g \<longrightarrow> (\<forall>k \<in> set (f # fs). apart k g) \<longrightarrow> fragment_span h' g = fragment_span h g"
      using r(6) w(2,6) by simp
    moreover have "scatter (f # fs) bs h = Inr h'" using Cons w(1) r(1) by simp
    ultimately show ?thesis using eq r(2-4) w(2-4) by blast
  qed simp
qed (simp add: gather_def)

subsection \<open>The queue of what is to be sent\<close>

text \<open>The handles and the bytes between \<^verbatim>\<open>SendAsync\<close> and the socket.\<close>

definition queue_fragments :: "session \<Rightarrow> fragment list" where
  "queue_fragments s = fragments (sendBuffer s) @ concat (map fragments (sendWaitQueue s))"

definition unsent :: "heap \<Rightarrow> session \<Rightarrow> byte list" where
  "unsent h s = buffer_contents h (sendBuffer s) @ concat (map (buffer_contents h) (sendWaitQueue s))"

definition sendable :: "heap \<Rightarrow> buffer \<Rightarrow> bool" where
  "sendable h b \<longleftrightarrow> buffer_ok h b \<and> 0 < buf_size b"

definition queue_ok :: "heap \<Rightarrow> session \<Rightarrow> bool" where
  "queue_ok h s \<longleftrightarrow>
     (\<forall>b \<in> set (sendWaitQueue s). sendable h b)
     \<and> (if sendPending s then sendable h (sendBuffer s) \<and> constBuffers s = fragments (sendBuffer s)
        else sendBuffer s = buffer_new \<and> sendWaitQueue s = [] \<and> constBuffers s = [] \<and> \<not> writing s)"

text \<open>The fields \<^verbatim>\<open>SendAsync\<close> and \<^verbatim>\<open>OnWriteAsync\<close> have no business with.\<close>

definition same_but_queue :: "session \<Rightarrow> session \<Rightarrow> bool" where
  "same_but_queue s s' \<longleftrightarrow>
     session_id s' = session_id s \<and> socket_open s' = socket_open s \<and> socket_in s' = socket_in s
     \<and> socket_out s' = socket_out s \<and> reading s' = reading s \<and> strand_tasks s' = strand_tasks s
     \<and> receiveBuffer s' = receiveBuffer s \<and> mutableBuffers s' = mutableBuffers s \<and> asked s' = asked s"

lemma buffer_new_simps [simp]:
  "fragments buffer_new = []" "buf_size buffer_new = 0" "buffer_contents h buffer_new = []" "buffer_ok h buffer_new"
  by (simp_all add: buffer_new_def buffer_contents_def buffer_ok_def calculate_size_def)

lemma merge_new [simp]: "fst (buffer_merge_back b buffer_new) = b"
  by (simp add: buffer_merge_back_def buffer_new_def)

lemma same_contents:
  "same_bytes h h' \<Longrightarrow> \<forall>f \<in> set (fragments b). handle_ok h' f \<Longrightarrow> buffer_contents h' b = buffer_contents h b"
  unfolding buffer_contents_def by (rule spans_same_bytes)

lemma sendable_owned:
  "sendable h b \<Longrightarrow> owned h' (fragments b @ others) \<Longrightarrow> sendable h' b"
  using ownedD(3) by (fastforce simp: sendable_def buffer_ok_def)

lemma sendables_owned:
  "\<forall>b \<in> set bs. sendable h b \<Longrightarrow> owned h' (concat (map fragments bs) @ others) \<Longrightarrow> \<forall>b \<in> set bs. sendable h' b"
  using ownedD(3) by (fastforce simp: sendable_def buffer_ok_def)

lemma contents_owned:
  assumes "same_bytes h h'" and "owned h' (concat (map fragments bs) @ others)"
  shows "map (buffer_contents h') bs = map (buffer_contents h) bs"
  using ownedD(3) [OF assms(2)] by (auto intro!: same_contents [OF assms(1)])

lemma within_refl [simp]: "within f f"
  by (simp add: within_def)

lemma within_trans: "within f g \<Longrightarrow> within g k \<Longrightarrow> within f k"
  by (simp add: within_def)

lemma send_async_ok:
  assumes own: "owned h (fragments b @ queue_fragments s @ others)" and b: "sendable h b" and q: "queue_ok h s"
  obtains s' h' where "send_async b s h = Inr (s', h')" and "queue_ok h' s'" and "sendPending s'"
    and "owned h' (queue_fragments s' @ others)" and "same_bytes h h'"
    and "unsent h' s' = unsent h s @ buffer_contents h b" and "same_but_queue s s'"
    and "\<forall>g \<in> set (queue_fragments s'). \<exists>f \<in> set (fragments b @ queue_fragments s). within f g"
    and "writing s' \<or> sendPending s"
proof (cases "sendPending s")
  case True
  let ?s = "s\<lparr>sendWaitQueue := sendWaitQueue s @ [b]\<rparr>"
  have "owned h (queue_fragments ?s @ others)"
    by (rule owned_permute [OF own]) (auto simp: queue_fragments_def)
  with True q b show thesis
    by (intro that [of ?s h])
      (auto simp: send_async_def queue_ok_def unsent_def same_but_queue_def queue_fragments_def intro: within_refl)
next
  case idle: False
  with q have s: "sendBuffer s = buffer_new" "sendWaitQueue s = []" "constBuffers s = []" "\<not> writing s"
    by (auto simp: queue_ok_def)
  show thesis
  proof (cases "buf_size b > 1460")
    case False
    let ?s = "s\<lparr>sendPending := True, sendBuffer := b, constBuffers := fragments b, writing := True\<rparr>"
    have "send_async b s h = Inr (?s, h)"
      using idle s False by (simp add: send_async_def configure_const_buffer_def write_async_def)
    with s b own show thesis
      by (intro that [of ?s h])
        (auto simp: queue_ok_def queue_fragments_def unsent_def same_but_queue_def intro: within_refl)
  next
    case True
    have own': "owned h (fragments b @ others)" using own s by (simp add: queue_fragments_def)
    have ok: "buffer_ok h b" using b by (simp add: sendable_def)
    have "0 < (1460 :: int)" "1460 \<le> buf_size b" using True by simp_all
    from slice_front_handles [OF own' ok this] obtain b1 b2 h' where sl: "buffer_slice_front buffer_new 1460 b h = Inr (True, b1, b2, h')"
      "buffer_contents h' b1 = take (nat 1460) (buffer_contents h b)"
      "buffer_contents h' b2 = drop (nat 1460) (buffer_contents h b)"
      "buf_size b1 = 1460" "buf_size b2 = buf_size b - 1460" "buffer_ok h' b1" "buffer_ok h' b2"
      "owned h' (fragments b1 @ fragments b2 @ others)" "same_bytes h h'"
      "\<forall>g \<in> set (fragments b1 @ fragments b2). \<exists>f \<in> set (fragments b). within f g"
      by metis
    let ?s = "s\<lparr>sendPending := True, sendBuffer := b1, sendWaitQueue := [b2], constBuffers := fragments b1, writing := True\<rparr>"
    have "send_async b s h = Inr (?s, h')"
      using idle s True sl(1) by (simp add: send_async_def configure_const_buffer_def write_async_def)
    moreover have "queue_ok h' ?s" using sl(4-7) True by (simp add: queue_ok_def sendable_def)
    moreover have "owned h' (queue_fragments ?s @ others)" using sl(8) by (simp add: queue_fragments_def)
    moreover have "unsent h' ?s = unsent h s @ buffer_contents h b" using sl(2,3) s by (simp add: unsent_def)
    moreover have "\<forall>g \<in> set (queue_fragments ?s). \<exists>f \<in> set (fragments b @ queue_fragments s). within f g"
    proof
      fix g assume "g \<in> set (queue_fragments ?s)"
      then have "g \<in> set (fragments b1 @ fragments b2)" by (simp add: queue_fragments_def)
      with sl(10) obtain f where "f \<in> set (fragments b)" "within f g" by blast
      then show "\<exists>f \<in> set (fragments b @ queue_fragments s). within f g" by auto
    qed
    ultimately show thesis using sl(9) by (intro that [of ?s h']) (simp_all add: same_but_queue_def)
  qed
qed

lemma flush_eq:
  "fold (\<lambda>b acc. fst (buffer_merge_back b acc)) bs b0
     = \<lparr>buf_size = buf_size b0 + (\<Sum>b\<leftarrow>bs. buf_size b), fragments = fragments b0 @ concat (map fragments bs)\<rparr>"
  by (induction bs arbitrary: b0) (auto simp: buffer_merge_back_def)

lemma flush_sendable:
  assumes "\<forall>b \<in> set bs. sendable h b" and "bs \<noteq> []"
  shows "sendable h \<lparr>buf_size = (\<Sum>b\<leftarrow>bs. buf_size b), fragments = concat (map fragments bs)\<rparr>"
proof -
  have "map buf_size bs = map (\<lambda>b. \<Sum>f\<leftarrow>fragments b. frag_size f) bs"
    using assms(1) by (intro map_cong) (simp_all add: sendable_def buffer_ok_def calculate_size_eq)
  moreover have "(\<Sum>b\<leftarrow>bs. \<Sum>f\<leftarrow>fragments b. frag_size f) = (\<Sum>f\<leftarrow>concat (map fragments bs). frag_size f)"
    by (induction bs) simp_all
  ultimately have "(\<Sum>b\<leftarrow>bs. buf_size b) = (\<Sum>f\<leftarrow>concat (map fragments bs). frag_size f)" by (simp only:)
  moreover have "0 < (\<Sum>b\<leftarrow>bs. buf_size b)"
  proof -
    have "\<forall>b \<in> set bs. 0 < buf_size b \<Longrightarrow> 0 \<le> (\<Sum>b\<leftarrow>bs. buf_size b)" for bs :: "buffer list"
      by (induction bs) auto
    with assms show ?thesis by (cases bs) (auto simp: sendable_def add_pos_nonneg)
  qed
  ultimately show ?thesis using assms(1) by (auto simp: sendable_def buffer_ok_def calculate_size_eq)
qed

lemma no_size_no_fragments:
  assumes "buffer_ok h b" and "buf_size b = 0"
  shows "b = buffer_new"
proof -
  have "\<forall>f \<in> set fs. 0 < frag_size f \<Longrightarrow> (\<Sum>f\<leftarrow>fs. frag_size f) = 0 \<Longrightarrow> fs = []" for fs
  proof (cases fs)
    case (Cons f gs)
    assume pos: "\<forall>f \<in> set fs. 0 < frag_size f" and sum: "(\<Sum>f\<leftarrow>fs. frag_size f) = 0"
    from pos have "0 \<le> (\<Sum>f\<leftarrow>gs. frag_size f)" unfolding Cons by (intro sum_list_nonneg) auto
    with pos sum Cons show "fs = []" by simp
  qed
  with assms have "fragments b = []" by (auto simp: buffer_ok_def calculate_size_eq fragment_valid_def)
  with assms(2) show ?thesis by (simp add: buffer_new_def)
qed

lemma queue_handles:
  assumes "owned h' (queue_fragments s @ others)" and "same_bytes h h'"
  shows "queue_ok h s \<Longrightarrow> queue_ok h' s" and "unsent h' s = unsent h s"
proof -
  have own: "owned h' (concat (map fragments (sendWaitQueue s)) @ fragments (sendBuffer s) @ others)"
    and own': "owned h' (fragments (sendBuffer s) @ concat (map fragments (sendWaitQueue s)) @ others)"
    by (rule owned_permute [OF assms(1)]; auto simp: queue_fragments_def)+
  show "queue_ok h s \<Longrightarrow> queue_ok h' s"
    using sendables_owned [OF _ own] sendable_owned [OF _ own'] by (auto simp: queue_ok_def)
  show "unsent h' s = unsent h s"
    using contents_owned [OF assms(2) own] same_contents [OF assms(2), of "sendBuffer s"] ownedD(3) [OF own']
    by (simp add: unsent_def cong: map_cong)
qed

lemma concat_map_concat: "concat (map f (concat (map g xs))) = concat (map (\<lambda>x. concat (map f (g x))) xs)"
  by (induction xs) simp_all

lemma on_write_async_ok:
  assumes own: "owned h (queue_fragments s @ others)" and q: "queue_ok h s" and pending: "sendPending s"
    and n: "0 < n" "n \<le> buf_size (sendBuffer s)" and idle: "\<not> writing s"
  obtains s' h' where "on_write_async n s h = Inr (s', h')" and "queue_ok h' s'"
    and "owned h' (queue_fragments s' @ others)" and "same_bytes h h'"
    and "unsent h' s' = drop (nat n) (unsent h s)" and "same_but_queue s s'"
    and "\<forall>g \<in> set (queue_fragments s'). \<exists>f \<in> set (queue_fragments s). within f g"
    and "sendPending s' \<longrightarrow> writing s'"
proof -
  let ?w = "concat (map fragments (sendWaitQueue s))"
  have sb: "buffer_ok h (sendBuffer s)" using q pending by (simp add: queue_ok_def sendable_def)
  have wait: "\<forall>b \<in> set (sendWaitQueue s). sendable h b" using q by (simp add: queue_ok_def)
  have own': "owned h (fragments (sendBuffer s) @ ?w @ others)" using own by (simp add: queue_fragments_def)
  from slice_front_handles [OF own' sb n] obtain local rest h1 where
    sl: "buffer_slice_front buffer_new n (sendBuffer s) h = Inr (True, local, rest, h1)"
    "buffer_contents h1 rest = drop (nat n) (buffer_contents h (sendBuffer s))"
    "buf_size rest = buf_size (sendBuffer s) - n" "buffer_ok h1 rest"
    "owned h1 (fragments local @ fragments rest @ ?w @ others)" "same_bytes h h1"
    "\<forall>g \<in> set (fragments local @ fragments rest). \<exists>f \<in> set (fragments (sendBuffer s)). within f g"
    by metis
  have own1: "owned h1 (?w @ fragments local @ fragments rest @ others)"
    by (rule owned_permute [OF sl(5)]) auto
  have wait1: "\<forall>b \<in> set (sendWaitQueue s). sendable h1 b" by (rule sendables_owned [OF wait own1])
  have w1: "map (buffer_contents h1) (sendWaitQueue s) = map (buffer_contents h) (sendWaitQueue s)"
    by (rule contents_owned [OF sl(6) own1])
  have len: "length (buffer_contents h (sendBuffer s)) = nat (buf_size (sendBuffer s))"
    using buffer_contents_length [OF sb] by linarith
  let ?s1 = "s\<lparr>constBuffers := [], sendBuffer := rest\<rparr>"
  have unsent1: "buffer_contents h1 rest @ concat (map (buffer_contents h1) (sendWaitQueue s)) = drop (nat n) (unsent h s)"
    using sl(2) w1 n len by (simp add: unsent_def cong: map_cong)
  show thesis
  proof (cases "buf_size rest > 0")
    case True
    let ?s = "?s1\<lparr>constBuffers := fragments rest, writing := True\<rparr>"
    from destroy_all_owned [OF sl(5)] obtain h2 where d: "destroy_all (fragments local) h1 = Inr h2"
      "owned h2 (fragments rest @ ?w @ others)" "same_bytes h1 h2" by blast
    have own2: "owned h2 (?w @ fragments rest @ others)" by (rule owned_permute [OF d(2)]) auto
    have "on_write_async n s h = Inr (?s, h2)"
      using pending sl(1) True d(1) by (simp add: on_write_async_def configure_const_buffer_def write_async_def)
    moreover have "queue_ok h2 ?s"
      using pending sendables_owned [OF wait1 own2] sendable_owned [OF _ d(2), of h1] sl(4) True
      by (simp add: queue_ok_def sendable_def)
    moreover have "unsent h2 ?s = drop (nat n) (unsent h s)"
      using unsent1 contents_owned [OF d(3) own2] same_contents [OF d(3), of rest] ownedD(3) [OF d(2)]
      by (simp add: unsent_def cong: map_cong)
    moreover have "\<forall>g \<in> set (queue_fragments ?s). \<exists>f \<in> set (queue_fragments s). within f g"
    proof
      fix g assume "g \<in> set (queue_fragments ?s)"
      then have "g \<in> set (fragments rest) \<or> g \<in> set ?w" by (simp add: queue_fragments_def)
      with sl(7) show "\<exists>f \<in> set (queue_fragments s). within f g"
        by (auto simp: queue_fragments_def intro: within_refl)
    qed
    moreover have "owned h2 (queue_fragments ?s @ others)" using d(2) by (simp add: queue_fragments_def)
    moreover have "same_bytes h h2" by (rule same_bytes_trans [OF sl(6) d(3)])
    ultimately show thesis by (intro that [of ?s h2]) (simp_all add: same_but_queue_def)
  next
    case False
    with sl(3) n have "buf_size rest = 0" by simp
    from no_size_no_fragments [OF sl(4) this] have rest: "rest = buffer_new" .
    have clear: "buffer_clear buffer_new h1 = Inr (buffer_new, h1)" by (simp add: buffer_clear_def)
    have drop: "concat (map (buffer_contents h1) (sendWaitQueue s)) = drop (nat n) (unsent h s)"
      using unsent1 rest by simp
    let ?s2 = "s\<lparr>constBuffers := [], sendPending := False, sendBuffer := buffer_new\<rparr>"
    show thesis
    proof (cases "sendWaitQueue s = []")
      case True
      from destroy_all_owned [OF sl(5)] rest True obtain h2 where d: "destroy_all (fragments local) h1 = Inr h2"
        "owned h2 others" "same_bytes h1 h2" by auto
      have "on_write_async n s h = Inr (?s2, h2)"
        using pending sl(1) rest d(1) clear True by (simp add: on_write_async_def)
      with d True drop idle same_bytes_trans [OF sl(6) d(3)] show thesis
        by (intro that [of ?s2 h2]) (simp_all add: queue_ok_def queue_fragments_def unsent_def same_but_queue_def)
    next
      case False
      let ?b = "\<lparr>buf_size = (\<Sum>b\<leftarrow>sendWaitQueue s. buf_size b), fragments = ?w\<rparr>"
      let ?s3 = "?s2\<lparr>sendWaitQueue := []\<rparr>"
      have flush: "flush_send_wait_queue ?s2 = (?b, ?s3)"
        by (simp add: flush_send_wait_queue_def flush_eq)
      have own3: "owned h1 (fragments ?b @ queue_fragments ?s3 @ fragments local @ others)"
        by (rule owned_permute [OF sl(5)]) (auto simp: queue_fragments_def rest)
      have "queue_ok h1 ?s3" using idle by (simp add: queue_ok_def)
      from send_async_ok [OF own3 flush_sendable [OF wait1 False] this] obtain s' h2 where
        sd: "send_async ?b ?s3 h1 = Inr (s', h2)" "queue_ok h2 s'" "sendPending s'"
          "owned h2 (queue_fragments s' @ fragments local @ others)" "same_bytes h1 h2"
          "unsent h2 s' = unsent h1 ?s3 @ buffer_contents h1 ?b" "same_but_queue ?s3 s'"
          "\<forall>g \<in> set (queue_fragments s'). \<exists>f \<in> set (fragments ?b @ queue_fragments ?s3). within f g"
          "writing s' \<or> sendPending ?s3"
        by metis
      have own4: "owned h2 (fragments local @ queue_fragments s' @ others)"
        by (rule owned_permute [OF sd(4)]) auto
      from destroy_all_owned [OF own4] obtain h3 where d: "destroy_all (fragments local) h2 = Inr h3"
        "owned h3 (queue_fragments s' @ others)" "same_bytes h2 h3" by blast
      have "on_write_async n s h = Inr (s', h3)"
        using pending sl(1) rest clear False flush sd(1) d(1) by (simp add: on_write_async_def)
      moreover have "queue_ok h3 s'" and "unsent h3 s' = unsent h2 s'"
        using queue_handles [OF d(2,3)] sd(2) by simp_all
      moreover have "unsent h2 s' = drop (nat n) (unsent h s)"
      proof -
        have "unsent h1 ?s3 = []" by (simp add: unsent_def)
        moreover have "buffer_contents h1 ?b = concat (map (buffer_contents h1) (sendWaitQueue s))"
          by (simp add: buffer_contents_def [abs_def] concat_map_concat)
        ultimately show ?thesis using sd(6) drop by simp
      qed
      moreover have "\<forall>g \<in> set (queue_fragments s'). \<exists>f \<in> set (queue_fragments s). within f g"
        using sd(8) by (fastforce simp: queue_fragments_def)
      moreover have "same_but_queue s s'" using sd(7) by (simp add: same_but_queue_def)
      ultimately show thesis
        using d(2) sd(9) same_bytes_trans [OF same_bytes_trans [OF sl(6) sd(5)] d(3)] by (intro that [of s' h3]) simp_all
    qed
  qed
qed

subsection \<open>What a session needs of its server\<close>

fun event_fragments :: "session_event \<Rightarrow> fragment list" where
  "event_fragments (ReceiveEvent b) = fragments b"
| "event_fragments _ = []"

fun event_bytes :: "heap \<Rightarrow> session_event \<Rightarrow> byte list" where
  "event_bytes h (ReceiveEvent b) = buffer_contents h b"
| "event_bytes h _ = []"

fun event_ok :: "heap \<Rightarrow> session_event \<Rightarrow> bool" where
  "event_ok h (ReceiveEvent b) \<longleftrightarrow> buffer_ok h b"
| "event_ok h _ \<longleftrightarrow> True"

fun task_fragments :: "session_task \<Rightarrow> fragment list" where
  "task_fragments (SendTask b) = fragments b"
| "task_fragments _ = []"

fun task_ok :: "heap \<Rightarrow> session_task \<Rightarrow> bool" where
  "task_ok h (SendTask b) \<longleftrightarrow> sendable h b"
| "task_ok h _ \<longleftrightarrow> True"

abbreviation tasks_fragments :: "session_task list \<Rightarrow> fragment list" where
  "tasks_fragments ts \<equiv> concat (map task_fragments ts)"

abbreviation tasks_bytes :: "heap \<Rightarrow> session_task list \<Rightarrow> byte list" where
  "tasks_bytes h ts \<equiv> concat (map (task_bytes h) ts)"

text \<open>
  The server may keep what an event holds, post tasks to the session and allocate memory; it fails at nothing
  and writes to no memory of others. \<open>result h t bs\<close> is what the server makes of a stream of bytes: the state \<open>t\<close>
  may be the outcome of \<open>bs\<close>.
\<close>

locale event_sink =
  fixes send_event :: "session_event \<Rightarrow> session \<Rightarrow> 't \<Rightarrow> heap \<Rightarrow> fault + (session \<times> 't \<times> heap)"
    and held :: "'t \<Rightarrow> fragment list"
    and result :: "heap \<Rightarrow> 't \<Rightarrow> byte list \<Rightarrow> bool"
  assumes deliver: "owned h (event_fragments ev @ held t @ others) \<Longrightarrow> event_ok h ev \<Longrightarrow> result h t bs \<Longrightarrow>
      \<exists>ts t' h'. send_event ev s t h = Inr (fold (post_task h') ts s, t', h')
        \<and> owned h' (tasks_fragments ts @ held t' @ others)
        \<and> (\<forall>f \<in> set others. fragment_span h' f = fragment_span h f)
        \<and> (\<forall>f \<in> set (tasks_fragments ts @ held t'). made_from h (event_fragments ev @ held t) f)
        \<and> (\<forall>x \<in> set ts. task_ok h' x \<and> x \<noteq> StartReceiveTask)
        \<and> result h' t' (bs @ event_bytes h ev)"
    and stable: "result h t bs \<Longrightarrow> (\<forall>f \<in> set (held t). handle_ok h' f \<and> fragment_span h' f = fragment_span h f)
      \<Longrightarrow> result h' t bs"

definition sending :: "session \<Rightarrow> fragment list" where
  "sending s = queue_fragments s @ tasks_fragments (strand_tasks s)"

definition apart_all :: "fragment list \<Rightarrow> fragment list \<Rightarrow> bool" where
  "apart_all fs gs \<longleftrightarrow> (\<forall>f \<in> set fs. \<forall>g \<in> set gs. apart f g)"

text \<open>
  The life of a session: it is accepted and its first task is posted; its steps; what other threads give it to
  send; and what they do meanwhile, which is not to write into memory of the session or its server and not to hold a
  piece of the receive buffer.
\<close>

inductive session_reach ::
  "(session_event \<Rightarrow> session \<Rightarrow> 't \<Rightarrow> heap \<Rightarrow> fault + (session \<times> 't \<times> heap)) \<Rightarrow> ('t \<Rightarrow> fragment list)
     \<Rightarrow> 't \<Rightarrow> heap \<Rightarrow> session \<Rightarrow> 't \<Rightarrow> fragment list \<Rightarrow> bool" for send_event held t0 where
  accept: "owned h (held t0 @ others) \<Longrightarrow> length junk = 2048 \<Longrightarrow> session_new sid junk h = Inr (s, h')
    \<Longrightarrow> session_reach send_event held t0 h' (post_task h' StartReceiveTask s) t0 others"
| strand: "session_reach send_event held t0 h s t others
    \<Longrightarrow> session_step send_event a s t h = Some (Inr (s', t', h'))
    \<Longrightarrow> session_reach send_event held t0 h' s' t' others"
| send: "session_reach send_event held t0 h s t (fragments b @ others) \<Longrightarrow> sendable h b
    \<Longrightarrow> session_reach send_event held t0 h (post_task h (SendTask b) s) t others"
| close: "session_reach send_event held t0 h s t others
    \<Longrightarrow> session_reach send_event held t0 h (close_session h s) t others"
| others: "session_reach send_event held t0 h s t others
    \<Longrightarrow> owned h' (fragments (receiveBuffer s) @ sending s @ held t @ others')
    \<Longrightarrow> \<forall>f \<in> set (sending s @ held t). fragment_span h' f = fragment_span h f
    \<Longrightarrow> apart_all (fragments (receiveBuffer s)) others'
    \<Longrightarrow> session_reach send_event held t0 h' s t others'"

subsection \<open>The invariant\<close>

text \<open>What holds of a session in a world with the handles \<open>gs\<close>, also in the middle of a step.\<close>

definition session_core :: "heap \<Rightarrow> session \<Rightarrow> fragment list \<Rightarrow> bool" where
  "session_core h s gs \<longleftrightarrow>
     owned h (fragments (receiveBuffer s) @ sending s @ gs)
     \<and> buffer_ok h (receiveBuffer s) \<and> sorted_wrt apart (fragments (receiveBuffer s))
     \<and> apart_all (fragments (receiveBuffer s)) (sending s @ gs)
     \<and> queue_ok h s \<and> (\<forall>x \<in> set (strand_tasks s). task_ok h x)
     \<and> asked s = socket_out s @ unsent h s @ tasks_bytes h (strand_tasks s)"

lemma apart_all_simps [simp]:
  "apart_all fs (gs @ ks) \<longleftrightarrow> apart_all fs gs \<and> apart_all fs ks"
  "apart_all (fs @ gs) ks \<longleftrightarrow> apart_all fs ks \<and> apart_all gs ks"
  "apart_all fs []" "apart_all [] gs"
  by (auto simp: apart_all_def)

lemma apart_all_within:
  "apart_all fs gs \<Longrightarrow> \<forall>k \<in> set ks. \<exists>g \<in> set gs. within g k \<Longrightarrow> apart_all fs ks"
  unfolding apart_all_def by (meson apart_within)

lemma apart_all_sym: "apart_all fs gs \<Longrightarrow> apart_all gs fs"
  by (auto simp: apart_all_def intro: apart_sym)

lemma apart_all_made_from:
  assumes "apart_all rs fs" and "\<forall>g \<in> set gs. made_from h fs g" and "\<forall>r \<in> set rs. handle_ok h r \<and> fragment_valid r"
  shows "apart_all rs gs"
  unfolding apart_all_def
proof (intro ballI)
  fix r g assume "r \<in> set rs" and "g \<in> set gs"
  with assms show "apart r g" by (intro apart_made_from [of h fs g r]) (auto simp: apart_all_def)
qed

lemma session_coreD:
  assumes "session_core h s gs"
  shows "owned h (fragments (receiveBuffer s) @ sending s @ gs)" "buffer_ok h (receiveBuffer s)"
    "sorted_wrt apart (fragments (receiveBuffer s))" "apart_all (fragments (receiveBuffer s)) (sending s @ gs)"
    "queue_ok h s" "x \<in> set (strand_tasks s) \<Longrightarrow> task_ok h x"
    "asked s = socket_out s @ unsent h s @ tasks_bytes h (strand_tasks s)"
  using assms by (simp_all add: session_core_def)

lemma spans_eq_contents:
  "\<forall>f \<in> set (fragments b). fragment_span h' f = fragment_span h f \<Longrightarrow> buffer_contents h' b = buffer_contents h b"
  by (simp add: buffer_contents_def cong: map_cong)

lemma spans_eq_sending:
  assumes "\<forall>f \<in> set (sending s). fragment_span h' f = fragment_span h f"
  shows "unsent h' s = unsent h s" and "tasks_bytes h' (strand_tasks s) = tasks_bytes h (strand_tasks s)"
proof -
  have q: "\<forall>f \<in> set (queue_fragments s). fragment_span h' f = fragment_span h f"
    and t: "\<forall>f \<in> set (tasks_fragments (strand_tasks s)). fragment_span h' f = fragment_span h f"
    using assms by (simp_all add: sending_def)
  have "buffer_contents h' b = buffer_contents h b" if "b \<in> set (sendBuffer s # sendWaitQueue s)" for b
    using q that by (intro spans_eq_contents) (auto simp: queue_fragments_def)
  then show "unsent h' s = unsent h s" by (simp add: unsent_def cong: map_cong)
  have "task_bytes h' x = task_bytes h x" if "x \<in> set (strand_tasks s)" for x
  proof (cases x)
    case (SendTask b)
    with t that have "\<forall>f \<in> set (fragments b). fragment_span h' f = fragment_span h f" by force
    with SendTask show ?thesis by (simp add: spans_eq_contents)
  qed simp_all
  then show "tasks_bytes h' (strand_tasks s) = tasks_bytes h (strand_tasks s)" by (simp cong: map_cong)
qed

lemma tasks_ok_owned:
  assumes "\<forall>x \<in> set ts. task_ok h x" and "owned h' (tasks_fragments ts @ others)"
  shows "\<forall>x \<in> set ts. task_ok h' x"
proof
  fix x assume x: "x \<in> set ts"
  show "task_ok h' x"
  proof (cases x)
    case (SendTask b)
    with x have "set (fragments b) \<subseteq> set (tasks_fragments ts @ others)" by force
    with ownedD(3) [OF assms(2)] have "\<forall>f \<in> set (fragments b). handle_ok h' f" by blast
    with assms(1) x SendTask show ?thesis by (auto simp: sendable_def buffer_ok_def)
  qed simp_all
qed

text \<open>The heap, the receive buffer and the handles of others change.\<close>

lemma session_core_receive:
  assumes c: "session_core h s gs" and own: "owned h' (fragments b @ sending s @ gs')"
    and b: "buffer_ok h' b" "sorted_wrt apart (fragments b)"
    and spans: "\<forall>f \<in> set (sending s). fragment_span h' f = fragment_span h f"
    and apart: "apart_all (fragments b) (sending s @ gs')"
  shows "session_core h' (s\<lparr>receiveBuffer := b\<rparr>) gs'"
proof -
  have ok: "handle_ok h' f" if "f \<in> set (sending s)" for f
    using ownedD(3) [OF own] that by simp
  have "owned h' (tasks_fragments (strand_tasks s) @ queue_fragments s @ fragments b @ gs')"
    by (rule owned_permute [OF own]) (auto simp: sending_def)
  from tasks_ok_owned [OF _ this] session_coreD(6) [OF c] have "\<forall>x \<in> set (strand_tasks s). task_ok h' x" by blast
  moreover have "queue_ok h' s"
    using session_coreD(5) [OF c] ok
    by (fastforce simp: queue_ok_def sendable_def buffer_ok_def sending_def queue_fragments_def)
  ultimately show ?thesis
    using c own b apart spans_eq_sending [OF spans]
    by (simp add: session_core_def sending_def queue_fragments_def queue_ok_def unsent_def)
qed

lemma session_core_change:
  assumes c: "session_core h s gs" and own: "owned h' (fragments (receiveBuffer s) @ sending s @ gs')"
    and spans: "\<forall>f \<in> set (sending s). fragment_span h' f = fragment_span h f"
    and apart: "apart_all (fragments (receiveBuffer s)) gs'"
  shows "session_core h' s gs'"
proof -
  have "buffer_ok h' (receiveBuffer s)"
    using session_coreD(2) [OF c] ownedD(3) [OF own] by (simp add: buffer_ok_def)
  with session_core_receive [OF c own this session_coreD(3) [OF c] spans] session_coreD(4) [OF c] apart
  show ?thesis by simp
qed

lemma post_task_simps [simp]:
  "receiveBuffer (post_task h x s) = receiveBuffer s" "mutableBuffers (post_task h x s) = mutableBuffers s"
  "reading (post_task h x s) = reading s" "socket_in (post_task h x s) = socket_in s"
  "strand_tasks (post_task h x s) = strand_tasks s @ [x]" "queue_fragments (post_task h x s) = queue_fragments s"
  "socket_out (post_task h x s) = socket_out s"
  by (simp_all add: post_task_def queue_fragments_def)

lemma session_core_post:
  assumes c: "session_core h s (task_fragments x @ gs)" and x: "task_ok h x"
  shows "session_core h (post_task h x s) gs"
proof -
  have eq: "sending (post_task h x s) = sending s @ task_fragments x" by (simp add: sending_def)
  have "queue_ok h (post_task h x s)" using session_coreD(5) [OF c] by (simp add: queue_ok_def post_task_def)
  moreover have "asked (post_task h x s) = socket_out s @ unsent h s @ tasks_bytes h (strand_tasks s @ [x])"
    using session_coreD(7) [OF c] by (simp add: post_task_def)
  moreover have "unsent h (post_task h x s) = unsent h s" by (simp add: unsent_def post_task_def)
  ultimately show ?thesis using c x by (simp add: session_core_def eq)
qed

lemma session_core_posts:
  "session_core h s (tasks_fragments ts @ gs) \<Longrightarrow> \<forall>x \<in> set ts. task_ok h x
     \<Longrightarrow> session_core h (fold (post_task h) ts s) gs"
proof (induction ts arbitrary: s)
  case (Cons x ts)
  then have "session_core h s (task_fragments x @ tasks_fragments ts @ gs)" "task_ok h x" by simp_all
  from session_core_post [OF this] Cons show ?case by simp
qed simp

lemma fold_post_simps [simp]:
  "receiveBuffer (fold (post_task h) ts s) = receiveBuffer s"
  "mutableBuffers (fold (post_task h) ts s) = mutableBuffers s" "reading (fold (post_task h) ts s) = reading s"
  "socket_in (fold (post_task h) ts s) = socket_in s"
  "strand_tasks (fold (post_task h) ts s) = strand_tasks s @ ts"
  by (induction ts arbitrary: s) simp_all

subsection \<open>The steps keep it\<close>

lemma same_bytes_spans:
  "same_bytes h h' \<Longrightarrow> owned h' fs \<Longrightarrow> f \<in> set fs \<Longrightarrow> fragment_span h' f = fragment_span h f"
  using span_same_bytes ownedD(3) by blast

text \<open>The heart of a step of the queue: only the queue changes, and its handles lie in places of the old ones.\<close>

lemma session_core_queue:
  assumes c: "session_core h s gs"
    and own: "owned h' (queue_fragments s' @ fragments (receiveBuffer s) @ tasks_fragments ts @ gs)"
    and same: "same_bytes h h'" and q: "queue_ok h' s'"
    and ts: "strand_tasks s' = ts" "set ts \<subseteq> set (strand_tasks s)" and rb: "receiveBuffer s' = receiveBuffer s"
    and within: "\<forall>g \<in> set (queue_fragments s'). \<exists>f \<in> set (sending s). within f g"
    and asked: "asked s' = socket_out s' @ unsent h' s' @ tasks_bytes h ts"
  shows "session_core h' s' gs"
proof -
  have tasks: "owned h' (tasks_fragments ts @ queue_fragments s' @ fragments (receiveBuffer s) @ gs)"
    and all: "owned h' (fragments (receiveBuffer s') @ sending s' @ gs)"
    by (rule owned_permute [OF own]; auto simp: sending_def ts rb)+
  have "apart_all (fragments (receiveBuffer s)) (sending s)" using session_coreD(4) [OF c] by simp
  from apart_all_within [OF this within]
  have "apart_all (fragments (receiveBuffer s)) (queue_fragments s')" .
  moreover have "apart_all (fragments (receiveBuffer s)) (tasks_fragments ts)"
    using session_coreD(4) [OF c] ts(2) by (auto simp: apart_all_def sending_def)
  ultimately have "apart_all (fragments (receiveBuffer s')) (sending s' @ gs)"
    using session_coreD(4) [OF c] by (simp add: sending_def rb ts)
  moreover have "tasks_bytes h' ts = tasks_bytes h ts"
  proof -
    have "task_bytes h' x = task_bytes h x" if "x \<in> set ts" for x
    proof (cases x)
      case (SendTask b)
      with that have "set (fragments b) \<subseteq> set (tasks_fragments ts @ queue_fragments s' @ fragments (receiveBuffer s) @ gs)"
        by force
      with ownedD(3) [OF tasks] have "\<forall>f \<in> set (fragments b). handle_ok h' f" by blast
      with SendTask show ?thesis by (simp add: same_contents [OF same])
    qed simp_all
    then show ?thesis by (simp cong: map_cong)
  qed
  moreover have "\<forall>x \<in> set ts. task_ok h' x"
    using session_coreD(6) [OF c] ts(2) by (intro tasks_ok_owned [OF _ tasks]) auto
  moreover have "buffer_ok h' (receiveBuffer s')"
    using session_coreD(2) [OF c] ownedD(3) [OF own] by (simp add: buffer_ok_def rb)
  ultimately show ?thesis
    using all q session_coreD(3) [OF c] asked by (simp add: session_core_def ts(1) rb)
qed

lemma send_task_core:
  assumes c: "session_core h s gs" and t: "strand_tasks s = SendTask b # ts"
  shows "\<exists>s' h'. send_async b (s\<lparr>strand_tasks := ts\<rparr>) h = Inr (s', h') \<and> session_core h' s' gs
    \<and> same_bytes h h' \<and> same_but_queue (s\<lparr>strand_tasks := ts\<rparr>) s'"
proof -
  let ?s = "s\<lparr>strand_tasks := ts\<rparr>"
  have q: "queue_fragments ?s = queue_fragments s" by (simp add: queue_fragments_def)
  have own: "owned h (fragments b @ queue_fragments ?s @ fragments (receiveBuffer s) @ tasks_fragments ts @ gs)"
    by (rule owned_permute [OF session_coreD(1) [OF c]]) (auto simp: sending_def t q)
  have "sendable h b" using session_coreD(6) [OF c, of "SendTask b"] t by simp
  moreover have "queue_ok h ?s" using session_coreD(5) [OF c] by (simp add: queue_ok_def)
  ultimately obtain s' h' where r: "send_async b ?s h = Inr (s', h')" "queue_ok h' s'"
    "owned h' (queue_fragments s' @ fragments (receiveBuffer s) @ tasks_fragments ts @ gs)" "same_bytes h h'"
    "unsent h' s' = unsent h ?s @ buffer_contents h b" "same_but_queue ?s s'"
    "\<forall>g \<in> set (queue_fragments s'). \<exists>f \<in> set (fragments b @ queue_fragments ?s). within f g"
    by (metis send_async_ok [OF own])
  have same: "strand_tasks s' = ts" "receiveBuffer s' = receiveBuffer s" "asked s' = asked s"
    "socket_out s' = socket_out s"
    using r(6) by (simp_all add: same_but_queue_def)
  have "\<forall>g \<in> set (queue_fragments s'). \<exists>f \<in> set (sending s). within f g"
    using r(7) by (fastforce simp: sending_def t q)
  moreover have "asked s' = socket_out s' @ unsent h' s' @ tasks_bytes h ts"
    using session_coreD(7) [OF c] r(5) same t by (simp add: unsent_def)
  ultimately have "session_core h' s' gs"
    using t by (intro session_core_queue [OF c r(3,4,2) same(1) _ same(2)]) auto
  with r(1,4,6) show ?thesis by blast
qed

lemma gather_contents: "gather h (fragments b) = buffer_contents h b"
  by (simp add: gather_def buffer_contents_def)

lemma write_done_core:
  assumes c: "session_core h s gs" and w: "writing s"
    and n: "min 1 (int (length (gather h (constBuffers s)))) \<le> n" "n \<le> int (length (gather h (constBuffers s)))"
  shows "\<exists>s' h'. on_write_async n
      (s\<lparr>writing := False, socket_out := socket_out s @ take (nat n) (gather h (constBuffers s))\<rparr>) h = Inr (s', h')
    \<and> session_core h' s' gs \<and> same_bytes h h'
    \<and> same_but_queue (s\<lparr>socket_out := socket_out s @ take (nat n) (gather h (constBuffers s))\<rparr>) s'"
proof -
  have pending: "sendPending s" and cb: "constBuffers s = fragments (sendBuffer s)" and sb: "sendable h (sendBuffer s)"
    using session_coreD(5) [OF c] w by (auto simp: queue_ok_def split: if_splits)
  have len: "int (length (buffer_contents h (sendBuffer s))) = buf_size (sendBuffer s)"
    using sb by (simp add: sendable_def buffer_contents_length)
  let ?out = "take (nat n) (buffer_contents h (sendBuffer s))"
  let ?s = "s\<lparr>writing := False, socket_out := socket_out s @ ?out\<rparr>"
  have n': "0 < n" "n \<le> buf_size (sendBuffer ?s)"
    using n sb unfolding cb gather_contents len by (simp_all add: sendable_def)
  have q: "queue_fragments ?s = queue_fragments s" by (simp add: queue_fragments_def)
  have own: "owned h (queue_fragments ?s @ fragments (receiveBuffer s) @ tasks_fragments (strand_tasks s) @ gs)"
    by (rule owned_permute [OF session_coreD(1) [OF c]]) (auto simp: sending_def q)
  have "queue_ok h ?s" "sendPending ?s" "\<not> writing ?s"
    using session_coreD(5) [OF c] pending by (simp_all add: queue_ok_def)
  from on_write_async_ok [OF own this(1,2) n' this(3)] obtain s' h' where
    r: "on_write_async n ?s h = Inr (s', h')" "queue_ok h' s'"
      "owned h' (queue_fragments s' @ fragments (receiveBuffer s) @ tasks_fragments (strand_tasks s) @ gs)"
      "same_bytes h h'" "unsent h' s' = drop (nat n) (unsent h ?s)" "same_but_queue ?s s'"
      "\<forall>g \<in> set (queue_fragments s'). \<exists>f \<in> set (queue_fragments ?s). within f g"
    by metis
  have same: "strand_tasks s' = strand_tasks s" "receiveBuffer s' = receiveBuffer s" "asked s' = asked s"
    "socket_out s' = socket_out s @ ?out"
    using r(6) by (simp_all add: same_but_queue_def)
  have "nat n \<le> length (buffer_contents h (sendBuffer s))" using n' len by simp
  then have "?out @ drop (nat n) (unsent h s) = unsent h s" by (simp add: unsent_def)
  moreover have "unsent h ?s = unsent h s" by (simp add: unsent_def)
  ultimately have "asked s' = socket_out s' @ unsent h' s' @ tasks_bytes h (strand_tasks s)"
    using session_coreD(7) [OF c] r(5) same by simp
  moreover have "\<forall>g \<in> set (queue_fragments s'). \<exists>f \<in> set (sending s). within f g"
    using r(7) by (fastforce simp: sending_def q)
  ultimately have "session_core h' s' gs"
    by (intro session_core_queue [OF c r(3,4,2) same(1) _ same(2)]) auto
  with r(1,4,6) show ?thesis unfolding cb gather_contents by (auto simp: same_but_queue_def)
qed

lemma sending_receive [simp]: "sending (s\<lparr>receiveBuffer := b\<rparr>) = sending s"
  by (simp add: sending_def queue_fragments_def)

lemma session_core_fields [simp]:
  "session_core h (s\<lparr>reading := r\<rparr>) gs = session_core h s gs"
  "session_core h (s\<lparr>socket_in := bs\<rparr>) gs = session_core h s gs"
  "session_core h (s\<lparr>socket_open := r\<rparr>) gs = session_core h s gs"
  "session_core h (s\<lparr>mutableBuffers := fs\<rparr>) gs = session_core h s gs"
  "session_core h (receive_async s) gs = session_core h s gs"
  by (simp_all add: session_core_def sending_def queue_fragments_def queue_ok_def unsent_def receive_async_def
      cong: if_cong)

lemma expand_core:
  assumes c: "session_core h s gs" and junk: "length junk = 2048"
  shows "\<exists>b h'. expand_receive_buffer junk s h = Inr (s\<lparr>receiveBuffer := b\<rparr>, h')
    \<and> session_core h' (s\<lparr>receiveBuffer := b\<rparr>) gs \<and> 1024 \<le> buf_size b
    \<and> (\<forall>f \<in> set (sending s @ gs). handle_ok h' f \<and> fragment_span h' f = fragment_span h f)"
proof (cases "buf_size (receiveBuffer s) \<ge> 1024")
  case True
  then have "expand_receive_buffer junk s h = Inr (s\<lparr>receiveBuffer := receiveBuffer s\<rparr>, h)"
    by (simp add: expand_receive_buffer_def)
  with c True ownedD(3) [OF session_coreD(1) [OF c]] show ?thesis by fastforce
next
  case False
  obtain f h' where f: "fragment_create 2048 junk h = (f, h')" by fastforce
  let ?rb = "receiveBuffer s"
  let ?b = "\<lparr>buf_size = buf_size ?rb + 2048, fragments = fragments ?rb @ [f]\<rparr>"
  note own = session_coreD(1) [OF c]
  from fragment_create_owned [OF own f] junk have
    n: "owned h' (f # fragments ?rb @ sending s @ gs)" "frag_size f = 2048"
      "\<And>g. g \<in> set (fragments ?rb @ sending s @ gs) \<Longrightarrow> fragment_span h' g = fragment_span h g"
    by simp_all
  from f have impl: "impl f = Some (next_block h)" by (auto simp: fragment_create_def)
  have new: "apart g f" if "g \<in> set (fragments ?rb @ sending s @ gs)" for g
  proof -
    have "blocks h (next_block h) = None"
      using ownedD(2) [OF own, of "next_block h"] by (cases "blocks h (next_block h)") auto
    then have "impl g \<noteq> impl f" using ownedD(3) [OF own that] impl by (auto simp: handle_ok_def)
    then show ?thesis by (simp add: apart_def)
  qed
  have valid: "fragment_valid f" using n(2) impl by (simp add: fragment_valid_def)
  then have e: "expand_receive_buffer junk s h = Inr (s\<lparr>receiveBuffer := ?b\<rparr>, h')"
    using False f n(2) by (simp add: expand_receive_buffer_def buffer_add_def)
  have own': "owned h' (fragments ?b @ sending s @ gs)" by (rule owned_permute [OF n(1)]) auto
  have "buffer_ok h' ?b"
    using session_coreD(2) [OF c] ownedD(3) [OF own'] n(2) valid by (simp add: buffer_ok_def calculate_size_eq)
  moreover have "sorted_wrt apart (fragments ?b)"
    using session_coreD(3) [OF c] new by (simp add: sorted_wrt_append)
  moreover have "apart_all (fragments ?b) (sending s @ gs)"
    using session_coreD(4) [OF c] new by (auto simp: apart_all_def intro: apart_sym)
  moreover have "\<forall>f \<in> set (sending s). fragment_span h' f = fragment_span h f" using n(3) by simp
  ultimately have "session_core h' (s\<lparr>receiveBuffer := ?b\<rparr>) gs"
    by (intro session_core_receive [OF c own'])
  moreover have "0 \<le> buf_size ?rb" using buffer_contents_length [OF session_coreD(2) [OF c]] by linarith
  ultimately show ?thesis using e n(3) ownedD(3) [OF own']
    by (intro exI [of _ ?b] exI [of _ h']) auto
qed

text \<open>What was read is cut off the receive buffer; it belongs to \<open>gs\<close> then.\<close>

lemma slice_core:
  assumes c: "session_core h s gs" and n: "0 < n" "n \<le> buf_size (receiveBuffer s)"
  obtains ev rest h' where "buffer_slice_front buffer_new n (receiveBuffer s) h = Inr (True, ev, rest, h')"
    and "buffer_ok h' ev" and "buffer_contents h' ev = take (nat n) (buffer_contents h (receiveBuffer s))"
    and "session_core h' (s\<lparr>receiveBuffer := rest\<rparr>) (fragments ev @ gs)"
    and "\<forall>f \<in> set (sending s @ gs). handle_ok h' f \<and> fragment_span h' f = fragment_span h f"
proof -
  from slice_front_handles [OF session_coreD(1,2) [OF c] n] obtain ev rest h' where
    sl: "buffer_slice_front buffer_new n (receiveBuffer s) h = Inr (True, ev, rest, h')"
      "buffer_contents h' ev = take (nat n) (buffer_contents h (receiveBuffer s))"
      "buffer_ok h' ev" "buffer_ok h' rest" "owned h' (fragments ev @ fragments rest @ sending s @ gs)" "same_bytes h h'"
      "\<forall>g \<in> set (fragments ev @ fragments rest). \<exists>f \<in> set (fragments (receiveBuffer s)). within f g"
      "sorted_wrt apart (fragments ev @ fragments rest)"
    using session_coreD(3) [OF c] by metis
  have own: "owned h' (fragments rest @ sending s @ fragments ev @ gs)" by (rule owned_permute [OF sl(5)]) auto
  have spans: "handle_ok h' f \<and> fragment_span h' f = fragment_span h f" if "f \<in> set (sending s @ gs)" for f
    using same_bytes_spans [OF sl(6) own] ownedD(3) [OF own] that by auto
  have "apart_all (sending s @ gs) (fragments (receiveBuffer s))"
    by (rule apart_all_sym [OF session_coreD(4) [OF c]])
  from apart_all_within [OF this sl(7)] have "apart_all (fragments rest) (sending s @ gs)"
    by (auto intro: apart_all_sym)
  moreover have "apart_all (fragments rest) (fragments ev)" and "sorted_wrt apart (fragments rest)"
    using sl(8) by (auto simp: sorted_wrt_append apart_all_def intro: apart_sym)
  ultimately have "session_core h' (s\<lparr>receiveBuffer := rest\<rparr>) (fragments ev @ gs)"
    using spans by (intro session_core_receive [OF c own sl(4)]) auto
  with sl spans show thesis by (intro that) auto
qed

context event_sink
begin

definition session_ok :: "heap \<Rightarrow> session \<Rightarrow> 't \<Rightarrow> fragment list \<Rightarrow> bool" where
  "session_ok h s t others \<longleftrightarrow>
     session_core h s (held t @ others) \<and> 1024 \<le> buf_size (receiveBuffer s)
     \<and> (reading s \<longrightarrow> mutableBuffers s = fragments (receiveBuffer s))
     \<and> count_list (strand_tasks s) StartReceiveTask \<le> 1
     \<and> (StartReceiveTask \<in> set (strand_tasks s) \<longrightarrow> \<not> reading s \<and> mutableBuffers s = [])
     \<and> result h t (socket_in s)"

lemma session_okD:
  assumes "session_ok h s t others"
  shows "session_core h s (held t @ others)" "1024 \<le> buf_size (receiveBuffer s)"
    "reading s \<Longrightarrow> mutableBuffers s = fragments (receiveBuffer s)"
    "count_list (strand_tasks s) StartReceiveTask \<le> 1"
    "StartReceiveTask \<in> set (strand_tasks s) \<Longrightarrow> \<not> reading s \<and> mutableBuffers s = []"
    "result h t (socket_in s)"
  using assms by (simp_all add: session_ok_def)

lemma event_core:
  assumes c: "session_core h s (event_fragments ev @ held t @ others)" and ev: "event_ok h ev"
    and r: "result h t bs"
  obtains ts t' h' where "send_event ev s t h = Inr (fold (post_task h') ts s, t', h')"
    and "session_core h' (fold (post_task h') ts s) (held t' @ others)"
    and "StartReceiveTask \<notin> set ts" and "result h' t' (bs @ event_bytes h ev)"
proof -
  let ?rb = "fragments (receiveBuffer s)"
  note own = session_coreD(1) [OF c] and apart = session_coreD(4) [OF c]
  have "owned h (event_fragments ev @ held t @ ?rb @ sending s @ others)"
    by (rule owned_permute [OF own]) auto
  from deliver [OF this ev r, of s] obtain ts t' h' where
    d: "send_event ev s t h = Inr (fold (post_task h') ts s, t', h')"
      "owned h' (tasks_fragments ts @ held t' @ ?rb @ sending s @ others)"
      "\<forall>f \<in> set (?rb @ sending s @ others). fragment_span h' f = fragment_span h f"
      "\<forall>f \<in> set (tasks_fragments ts @ held t'). made_from h (event_fragments ev @ held t) f"
      "\<forall>x \<in> set ts. task_ok h' x \<and> x \<noteq> StartReceiveTask" "result h' t' (bs @ event_bytes h ev)"
    by blast
  have own': "owned h' (?rb @ sending s @ tasks_fragments ts @ held t' @ others)"
    by (rule owned_permute [OF d(2)]) auto
  have "\<forall>r \<in> set ?rb. handle_ok h r \<and> fragment_valid r"
    using session_coreD(2) [OF c] by (simp add: buffer_ok_def)
  moreover have "apart_all ?rb (event_fragments ev @ held t)" using apart by simp
  ultimately have "apart_all ?rb (tasks_fragments ts @ held t')"
    using d(4) by (intro apart_all_made_from [where gs = "tasks_fragments ts @ held t'"])
  with apart have "apart_all ?rb (tasks_fragments ts @ held t' @ others)" by simp
  with d(3) have "session_core h' s (tasks_fragments ts @ held t' @ others)"
    by (intro session_core_change [OF c own']) auto
  from session_core_posts [OF this] d(5) have "session_core h' (fold (post_task h') ts s) (held t' @ others)" by blast
  with d(1,5,6) show thesis by (intro that) auto
qed

lemma post_ok:
  assumes ok: "session_ok h s t (task_fragments x @ others)" and x: "task_ok h x" "x \<noteq> StartReceiveTask"
  shows "session_ok h (post_task h x s) t others"
proof -
  note c = session_okD(1) [OF ok]
  have "session_core h s (task_fragments x @ held t @ others)"
  proof (rule session_core_change [OF c])
    show "owned h (fragments (receiveBuffer s) @ sending s @ task_fragments x @ held t @ others)"
      by (rule owned_permute [OF session_coreD(1) [OF c]]) auto
  qed (use session_coreD(4) [OF c] in auto)
  from session_core_post [OF this x(1)] ok x(2) show ?thesis by (auto simp: session_ok_def)
qed

lemma others_ok:
  assumes ok: "session_ok h s t others"
    and own: "owned h' (fragments (receiveBuffer s) @ sending s @ held t @ others')"
    and spans: "\<forall>f \<in> set (sending s @ held t). fragment_span h' f = fragment_span h f"
    and apart: "apart_all (fragments (receiveBuffer s)) others'"
  shows "session_ok h' s t others'"
proof -
  note c = session_okD(1) [OF ok]
  have "session_core h' s (held t @ others')"
    using session_coreD(4) [OF c] spans apart by (intro session_core_change [OF c own]) auto
  moreover have "result h' t (socket_in s)"
    using spans ownedD(3) [OF own] by (intro stable [OF session_okD(6) [OF ok]]) simp
  ultimately show ?thesis using ok by (simp add: session_ok_def)
qed

lemma read_done_ok:
  assumes ok: "session_ok h s t others" and r: "reading s" and bs: "bs \<noteq> []"
    and len: "length bs \<le> length (gather h (mutableBuffers s))" and junk: "length junk = 2048"
  shows "\<exists>s' t' h'. and_then (scatter (mutableBuffers s) bs h) (\<lambda>h1.
      handle_receive send_event (int (length bs)) junk (s\<lparr>reading := False, socket_in := socket_in s @ bs\<rparr>) t h1)
        = Inr (s', t', h') \<and> session_ok h' s' t' others"
proof -
  let ?rb = "receiveBuffer s"
  note c = session_okD(1) [OF ok]
  have mb: "mutableBuffers s = fragments ?rb" using session_okD(3) [OF ok r] .
  have idle: "StartReceiveTask \<notin> set (strand_tasks s)" using session_okD(5) [OF ok] r by blast
  have valid: "\<forall>f \<in> set (fragments ?rb). fragment_valid f \<and> handle_ok h f"
    using session_coreD(2) [OF c] by (simp add: buffer_ok_def)
  from scatter_apart [OF session_coreD(3) [OF c] valid, of bs] len obtain h1 where
    w: "scatter (fragments ?rb) bs h = Inr h1" "\<forall>g. handle_ok h g \<longrightarrow> handle_ok h1 g"
      "\<forall>gs. owned h gs \<longrightarrow> owned h1 gs" "gather h1 (fragments ?rb) = bs @ drop (length bs) (gather h (fragments ?rb))"
      "\<forall>g. handle_ok h g \<longrightarrow> (\<forall>f \<in> set (fragments ?rb). apart f g) \<longrightarrow> fragment_span h1 g = fragment_span h g"
    unfolding mb by blast
  have spans1: "\<forall>f \<in> set (sending s @ held t @ others). fragment_span h1 f = fragment_span h f"
    using w(5) session_coreD(4) [OF c] ownedD(3) [OF session_coreD(1) [OF c]] by (auto simp: apart_all_def)
  let ?s = "s\<lparr>reading := False, socket_in := socket_in s @ bs, mutableBuffers := []\<rparr>"
  have same: "sending ?s = sending s" "queue_fragments ?s = queue_fragments s" "unsent k ?s = unsent k s" for k
    by (simp_all add: sending_def queue_fragments_def unsent_def)
  have "session_core h1 s (held t @ others)"
    using w(3) spans1 session_coreD(1,4) [OF c] by (intro session_core_change [OF c]) auto
  then have c1: "session_core h1 ?s (held t @ others)" by simp
  have full: "buffer_contents h1 ?rb = bs @ drop (length bs) (buffer_contents h ?rb)"
    using w(4) by (simp add: gather_contents)
  have "length bs \<le> length (buffer_contents h ?rb)" using len by (simp add: mb gather_contents)
  then have n: "0 < int (length bs)" "int (length bs) \<le> buf_size (receiveBuffer ?s)"
    using bs buffer_contents_length [OF session_coreD(2) [OF c]] by simp_all
  from slice_core [OF c1 n] obtain ev rest h2 where
    sl: "buffer_slice_front buffer_new (int (length bs)) ?rb h1 = Inr (True, ev, rest, h2)"
      "buffer_ok h2 ev" "buffer_contents h2 ev = take (nat (int (length bs))) (buffer_contents h1 ?rb)"
      "session_core h2 (?s\<lparr>receiveBuffer := rest\<rparr>) (fragments ev @ held t @ others)"
      "\<forall>f \<in> set (sending ?s @ held t @ others). handle_ok h2 f \<and> fragment_span h2 f = fragment_span h1 f"
    by auto
  have ev: "event_bytes h2 (ReceiveEvent ev) = bs" using sl(3) full by simp
  have r2: "result h2 t (socket_in s)"
    using sl(5) spans1 by (intro stable [OF session_okD(6) [OF ok]]) simp
  have c2: "session_core h2 (?s\<lparr>receiveBuffer := rest\<rparr>) (event_fragments (ReceiveEvent ev) @ held t @ others)"
    and ok2: "event_ok h2 (ReceiveEvent ev)"
    using sl(2,4) by simp_all
  obtain ts t' h3 where
    e0: "send_event (ReceiveEvent ev) (?s\<lparr>receiveBuffer := rest\<rparr>) t h2
        = Inr (fold (post_task h3) ts (?s\<lparr>receiveBuffer := rest\<rparr>), t', h3)"
      "session_core h3 (fold (post_task h3) ts (?s\<lparr>receiveBuffer := rest\<rparr>)) (held t' @ others)"
      "StartReceiveTask \<notin> set ts" "result h3 t' (socket_in s @ event_bytes h2 (ReceiveEvent ev))"
    by (rule event_core [OF c2 ok2 r2])
  note e = e0(1-3) e0(4) [unfolded ev]
  let ?s3 = "fold (post_task h3) ts (?s\<lparr>receiveBuffer := rest\<rparr>)"
  from expand_core [OF e(2) junk] obtain b h4 where
    x: "expand_receive_buffer junk ?s3 h3 = Inr (?s3\<lparr>receiveBuffer := b\<rparr>, h4)"
      "session_core h4 (?s3\<lparr>receiveBuffer := b\<rparr>) (held t' @ others)" "1024 \<le> buf_size b"
      "\<forall>f \<in> set (sending ?s3 @ held t' @ others). handle_ok h4 f \<and> fragment_span h4 f = fragment_span h3 f"
    by blast
  let ?s4 = "receive_async (?s3\<lparr>receiveBuffer := b\<rparr>)"
  have "session_core h4 ?s4 (held t' @ others)" using x(2) by simp
  moreover have "result h4 t' (socket_in s @ bs)" using x(4) by (intro stable [OF e(4)]) simp
  ultimately have "session_ok h4 ?s4 t' others"
    using x(3) e(3) idle by (simp add: session_ok_def receive_async_def)
  moreover have "handle_receive send_event (int (length bs)) junk (s\<lparr>reading := False, socket_in := socket_in s @ bs\<rparr>) t h1
      = Inr (?s4, t', h4)"
    using sl(1) e(1) x(1) by (simp add: handle_receive_def)
  ultimately show ?thesis using w(1) by (simp add: mb)
qed

lemma error_ok:
  assumes ok: "session_ok h s t others"
  shows "\<exists>s' t' h'. send_event IoErrorEvent s t h = Inr (s', t', h') \<and> session_ok h' s' t' others"
proof -
  have c: "session_core h s (event_fragments IoErrorEvent @ held t @ others)" and e: "event_ok h IoErrorEvent"
    using session_okD(1) [OF ok] by simp_all
  obtain ts t' h' where
    e: "send_event IoErrorEvent s t h = Inr (fold (post_task h') ts s, t', h')"
      "session_core h' (fold (post_task h') ts s) (held t' @ others)" "StartReceiveTask \<notin> set ts"
      "result h' t' (socket_in s @ event_bytes h IoErrorEvent)"
    by (rule event_core [OF c e session_okD(6) [OF ok]])
  then have "session_ok h' (fold (post_task h') ts s) t' others" using ok by (simp add: session_ok_def)
  with e(1) show ?thesis by blast
qed

lemma step_ok:
  assumes ok: "session_ok h s t others" and step: "session_step send_event a s t h = Some r"
  shows "\<exists>s' t' h'. r = Inr (s', t', h') \<and> session_ok h' s' t' others"
proof (cases a)
  case RunTask
  note c = session_okD(1) [OF ok]
  show ?thesis
  proof (cases "strand_tasks s")
    case (Cons x ts)
    have ts: "count_list ts StartReceiveTask \<le> 1" "StartReceiveTask \<in> set ts \<Longrightarrow> \<not> reading s \<and> mutableBuffers s = []"
      using session_okD(4,5) [OF ok] Cons by (auto split: if_splits)
    show ?thesis
    proof (cases x)
      case StartReceiveTask
      with ok Cons have "StartReceiveTask \<notin> set ts" and "\<not> reading s" and "mutableBuffers s = []"
        by (auto simp: session_ok_def count_list_0_iff)
      moreover have "sending (receive_async (s\<lparr>strand_tasks := ts\<rparr>)) = sending s"
        using Cons StartReceiveTask by (simp add: sending_def queue_fragments_def receive_async_def)
      ultimately have "session_ok h (receive_async (s\<lparr>strand_tasks := ts\<rparr>)) t others"
        using ok Cons StartReceiveTask
        by (simp add: session_ok_def session_core_def receive_async_def queue_ok_def unsent_def)
      with step RunTask Cons StartReceiveTask show ?thesis by auto
    next
      case (SendTask b)
      from send_task_core [OF c, of b ts] Cons SendTask obtain s' h' where
        r: "send_async b (s\<lparr>strand_tasks := ts\<rparr>) h = Inr (s', h')" "session_core h' s' (held t @ others)"
          "same_bytes h h'" "same_but_queue (s\<lparr>strand_tasks := ts\<rparr>) s'"
        by blast
      have "\<forall>f \<in> set (held t). handle_ok h' f \<and> fragment_span h' f = fragment_span h f"
        using same_bytes_spans [OF r(3) session_coreD(1) [OF r(2)]] ownedD(3) [OF session_coreD(1) [OF r(2)]] by auto
      from stable [OF session_okD(6) [OF ok] this] have "session_ok h' s' t others"
        using r(2,4) ok ts by (auto simp: session_ok_def same_but_queue_def)
      with step RunTask Cons SendTask r(1) show ?thesis by auto
    next
      case CloseTask
      have "session_ok h (s\<lparr>strand_tasks := ts, socket_open := False, event_channel_open := False\<rparr>) t others"
        using ok Cons CloseTask ts
        by (auto simp: session_ok_def session_core_def sending_def queue_fragments_def queue_ok_def unsent_def)
      with step RunTask Cons CloseTask show ?thesis by auto
    qed
  qed (use step RunTask in simp)
next
  case (ReadDone bs junk)
  with step read_done_ok [OF ok, of bs junk] show ?thesis by (auto split: if_splits)
next
  case ReadError
  have "session_ok h (s\<lparr>reading := False\<rparr>) t others"
    using ok
    by (simp add: session_ok_def session_core_def sending_def queue_fragments_def queue_ok_def unsent_def)
  moreover from step ReadError have "r = send_event IoErrorEvent (s\<lparr>reading := False\<rparr>) t h"
    by (simp split: if_splits)
  ultimately show ?thesis using error_ok by simp
next
  case (WriteDone n)
  note c = session_okD(1) [OF ok]
  from step WriteDone have "writing s" "min 1 (int (length (gather h (constBuffers s)))) \<le> n"
    "n \<le> int (length (gather h (constBuffers s)))"
    by (auto split: if_splits)
  from write_done_core [OF c this] obtain s' h' where r: "on_write_async n
      (s\<lparr>writing := False, socket_out := socket_out s @ take (nat n) (gather h (constBuffers s))\<rparr>) h = Inr (s', h')"
    "session_core h' s' (held t @ others)" "same_bytes h h'"
    "same_but_queue (s\<lparr>socket_out := socket_out s @ take (nat n) (gather h (constBuffers s))\<rparr>) s'"
    by blast
  have "\<forall>f \<in> set (held t). handle_ok h' f \<and> fragment_span h' f = fragment_span h f"
    using same_bytes_spans [OF r(3) session_coreD(1) [OF r(2)]] ownedD(3) [OF session_coreD(1) [OF r(2)]] by auto
  from stable [OF session_okD(6) [OF ok] this] have "session_ok h' s' t others"
    using r(2,4) ok by (auto simp: session_ok_def same_but_queue_def)
  with step WriteDone r(1) show ?thesis by (auto split: if_splits)
next
  case WriteError
  have "session_ok h (s\<lparr>writing := False\<rparr>) t others"
    using ok
    by (simp add: session_ok_def session_core_def sending_def queue_fragments_def queue_ok_def unsent_def)
  moreover from step WriteError have "r = send_event IoErrorEvent (s\<lparr>writing := False\<rparr>) t h"
    by (simp split: if_splits)
  ultimately show ?thesis using error_ok by simp
qed

lemma accept_ok:
  assumes own: "owned h (held t @ others)" and junk: "length junk = 2048"
    and new: "session_new sid junk h = Inr (s, h')" and start: "\<And>h. result h t []"
  shows "session_ok h' (post_task h' StartReceiveTask s) t others"
proof -
  define s0 :: session where "s0 = \<lparr>session_id = sid, socket_open = True, event_channel_open = True, socket_in = [], socket_out = [], reading = False, writing = False,
        strand_tasks = [], receiveBuffer = buffer_new, mutableBuffers = [], sendPending = False,
        sendBuffer = buffer_new, sendWaitQueue = [], constBuffers = [], asked = []\<rparr>"
  have "session_core h s0 (held t @ others)"
    using own by (simp add: s0_def session_core_def sending_def queue_fragments_def queue_ok_def unsent_def)
  from expand_core [OF this junk] obtain b h2 where
    x: "expand_receive_buffer junk s0 h = Inr (s0\<lparr>receiveBuffer := b\<rparr>, h2)"
      "session_core h2 (s0\<lparr>receiveBuffer := b\<rparr>) (held t @ others)" "1024 \<le> buf_size b"
    by blast
  from new x(1) have s: "s = s0\<lparr>receiveBuffer := b\<rparr>" "h' = h2" by (simp_all add: session_new_def s0_def)
  with x(2) have "session_core h' s (task_fragments StartReceiveTask @ held t @ others)" by simp
  from session_core_post [OF this] have "session_core h' (post_task h' StartReceiveTask s) (held t @ others)" by simp
  with s x(3) start show ?thesis by (simp add: session_ok_def) (simp add: s0_def)
qed

lemma reach_ok:
  assumes "session_reach send_event held t0 h s t others" and "\<And>h. result h t0 []"
  shows "session_ok h s t others"
  using assms(1)
proof induction
  case (accept h others junk sid s h')
  then show ?case by (intro accept_ok [OF _ _ _ assms(2)])
next
  case (strand h s t others a s' t' h')
  with step_ok [OF strand.IH strand.hyps(2)] show ?case by simp
next
  case (send h s t b others)
  then show ?case by - (rule post_ok, simp_all)
next
  case (close h s t others)
  then show ?case unfolding close_session_def by - (rule post_ok, simp_all)
next
  case (others h s t others h' others')
  then show ?case by - (rule others_ok)
qed

text \<open>
  No step of a session fails. What the server got is what the socket delivered; what the socket took is a front
  of what was given to \<^verbatim>\<open>Send\<close>, and all of it once the session has nothing more to do.
\<close>

lemma reach_streams:
  assumes "session_reach send_event held t0 h s t others" and "\<And>h. result h t0 []"
  shows "session_step send_event a s t h \<noteq> Some (Inl e)"
    and "result h t (socket_in s)"
    and "\<exists>rest. asked s = socket_out s @ rest"
    and "strand_tasks s = [] \<Longrightarrow> \<not> sendPending s \<Longrightarrow> socket_out s = asked s"
proof -
  note ok = reach_ok [OF assms]
  note c = session_okD(1) [OF ok]
  show "session_step send_event a s t h \<noteq> Some (Inl e)" using step_ok [OF ok] by blast
  show "result h t (socket_in s)" by (rule session_okD(6) [OF ok])
  show "\<exists>rest. asked s = socket_out s @ rest" using session_coreD(7) [OF c] by blast
  assume "strand_tasks s = []" "\<not> sendPending s"
  with session_coreD(5,7) [OF c] show "socket_out s = asked s" by (simp add: queue_ok_def unsent_def)
qed

end

subsection \<open>A server that keeps what it gets\<close>

definition record_event ::
  "session_event \<Rightarrow> session \<Rightarrow> session_event list \<Rightarrow> heap \<Rightarrow> fault + (session \<times> session_event list \<times> heap)" where
  "record_event ev s evs h = Inr (s, evs @ [ev], h)"

abbreviation events_fragments :: "session_event list \<Rightarrow> fragment list" where
  "events_fragments evs \<equiv> concat (map event_fragments evs)"

abbreviation events_bytes :: "heap \<Rightarrow> session_event list \<Rightarrow> byte list" where
  "events_bytes h evs \<equiv> concat (map (event_bytes h) evs)"

lemma events_bytes_eq:
  assumes "\<forall>f \<in> set (events_fragments evs). fragment_span h' f = fragment_span h f"
  shows "events_bytes h' evs = events_bytes h evs"
proof -
  have "event_bytes h' ev = event_bytes h ev" if "ev \<in> set evs" for ev
  proof (cases ev)
    case (ReceiveEvent b)
    with that have "set (fragments b) \<subseteq> set (events_fragments evs)" by force
    with assms have "\<forall>f \<in> set (fragments b). fragment_span h' f = fragment_span h f" by blast
    with ReceiveEvent show ?thesis by (simp add: spans_eq_contents)
  qed simp_all
  then show ?thesis by (simp cong: map_cong)
qed

interpretation recorder: event_sink record_event events_fragments "\<lambda>h evs bs. events_bytes h evs = bs"
proof (unfold_locales, goal_cases)
  case (1 h ev evs others bs s)
  have "owned h (events_fragments (evs @ [ev]) @ others)" by (rule owned_permute [OF 1(1)]) auto
  moreover have "\<forall>f \<in> set (events_fragments (evs @ [ev])). made_from h (event_fragments ev @ events_fragments evs) f"
    by (intro ballI made_from_same) auto
  ultimately show ?case
    using 1(3) by (intro exI [of _ "[]"] exI [of _ "evs @ [ev]"] exI [of _ h]) (simp add: record_event_def)
next
  case (2 h evs bs h')
  with events_bytes_eq [of evs h' h] show ?case by blast
qed

fun session_run ::
  "(session_event \<Rightarrow> session \<Rightarrow> 't \<Rightarrow> heap \<Rightarrow> fault + (session \<times> 't \<times> heap))
     \<Rightarrow> session_action list \<Rightarrow> session \<Rightarrow> 't \<Rightarrow> heap \<Rightarrow> (fault + (session \<times> 't \<times> heap)) option" where
  "session_run send_event [] s t h = Some (Inr (s, t, h))"
| "session_run send_event (a # as) s t h =
     Option.bind (session_step send_event a s t h) (\<lambda>r.
       case r of Inl e \<Rightarrow> Some (Inl e) | Inr (s', t', h') \<Rightarrow> session_run send_event as s' t' h')"

lemma session_run_reach:
  "session_run send_event as s t h = Some (Inr (s', t', h')) \<Longrightarrow> session_reach send_event held t0 h s t others
     \<Longrightarrow> session_reach send_event held t0 h' s' t' others"
proof (induction as arbitrary: s t h)
  case (Cons a as)
  then obtain r where r: "session_step send_event a s t h = Some r"
    "(case r of Inl e \<Rightarrow> Some (Inl e) | Inr (s', t', h') \<Rightarrow> session_run send_event as s' t' h') = Some (Inr (s', t', h'))"
    by (auto simp: Option.bind_eq_Some_conv)
  then obtain s1 t1 h1 where s1: "r = Inr (s1, t1, h1)" by (cases r) auto
  with r have "session_run send_event as s1 t1 h1 = Some (Inr (s', t', h'))" by simp
  from Cons.IH [OF this session_reach.strand [OF Cons.prems(2) r(1) [unfolded s1]]] show ?case .
qed simp

text \<open>
  C28: Whatever the order in which a session reads, sends, is told to close and is told of errors, no step of it
  fails, and the buffers it gave to its server show, all together and now, exactly the bytes the socket has
  delivered, in their order, although the socket goes on writing into blocks they share.
\<close>

theorem session_receives_what_was_read:
  assumes "session_reach record_event events_fragments [] h s evs others"
  shows "events_bytes h evs = socket_in s \<and> session_step record_event a s evs h \<noteq> Some (Inl e)"
  using recorder.reach_streams(1,2) [OF assms] by simp

text \<open>
  C29: What the socket has taken is the beginning of what was given to \<^verbatim>\<open>Send\<close>, buffer after buffer, however it is
  cut at the size of a packet and merged again; and it is all of it once no task is left and no write is pending.
\<close>

theorem session_sends_in_order:
  assumes "session_reach record_event events_fragments [] h s evs others"
  shows "(\<exists>rest. asked s = socket_out s @ rest)
    \<and> (strand_tasks s = [] \<longrightarrow> \<not> sendPending s \<longrightarrow> socket_out s = asked s)"
  using recorder.reach_streams(3,4) [OF assms] by simp

subsection \<open>Examples\<close>

text \<open>A session that reads two bytes and one, and one that sends three bytes to a socket that takes them one and two at a time.\<close>

definition sample_junk :: "byte list" where
  "sample_junk = replicate 2048 0"

definition sample_session :: "(session \<times> heap) option" where
  "sample_session =
     (case session_new 7 sample_junk sample_heap of
        Inl e \<Rightarrow> None
      | Inr (s, h) \<Rightarrow> Some (post_task h (SendTask sample_buffer) (post_task h StartReceiveTask s), h))"

definition sample_actions :: "session_action list" where
  "sample_actions = [RunTask, ReadDone [1, 2] sample_junk, RunTask, WriteDone 1, ReadDone [3] sample_junk, WriteDone 4]"

definition sample_outcome :: "(fault + (session \<times> session_event list \<times> heap)) option" where
  "sample_outcome =
     Option.bind sample_session (\<lambda>(s, h). session_run record_event sample_actions s [] h)"

lemma sample_outcome_value:
  "map_option (map_sum id (\<lambda>(s, evs, h). (socket_in s, events_bytes h evs, socket_out s, asked s, sendPending s)))
     sample_outcome = Some (Inr ([1, 2, 3], [1, 2, 3], [1, 2, 3, 4, 5], [1, 2, 3, 4, 5], False))"
  by code_simp

lemma sample_outcome_reach:
  assumes "sample_outcome = Some (Inr (s, evs, h))"
  shows "session_reach record_event events_fragments [] h s evs []"
proof -
  from assms obtain s0 h0 where n: "session_new 7 sample_junk sample_heap = Inr (s0, h0)"
    and r: "session_run record_event sample_actions
      (post_task h0 (SendTask sample_buffer) (post_task h0 StartReceiveTask s0)) [] h0 = Some (Inr (s, evs, h))"
    by (auto simp: sample_outcome_def sample_session_def Option.bind_eq_Some_conv split: sum.splits)
  have "owned sample_heap (events_fragments [] @ fragments sample_buffer)" using sample_buffer_facts(1) by simp
  from session_reach.accept [where held = events_fragments, OF this _ n, of record_event]
  have a: "session_reach record_event events_fragments [] h0 (post_task h0 StartReceiveTask s0) [] (fragments sample_buffer @ [])"
    by (simp add: sample_junk_def)
  have "sendable h0 sample_buffer"
  proof -
    have "session_core h0 (post_task h0 StartReceiveTask s0) (fragments sample_buffer)"
      using recorder.session_okD(1) [OF recorder.reach_ok [OF a]] by simp
    from ownedD(3) [OF session_coreD(1) [OF this]] sample_buffer_facts(2) show ?thesis
      by (simp add: sendable_def buffer_ok_def) (simp add: sample_buffer_def)
  qed
  from session_run_reach [OF r session_reach.send [OF a this]] show ?thesis .
qed

lemma sample_outcome_state:
  obtains s evs h where "session_reach record_event events_fragments [] h s evs []"
    and "sample_outcome = Some (Inr (s, evs, h))" and "socket_in s = [1, 2, 3]" and "events_bytes h evs = [1, 2, 3]"
    and "socket_out s = [1, 2, 3, 4, 5]" and "asked s = [1, 2, 3, 4, 5]"
proof -
  from sample_outcome_value obtain r where r: "sample_outcome = Some r" "map_sum id (\<lambda>(s, evs, h).
      (socket_in s, events_bytes h evs, socket_out s, asked s, sendPending s)) r
    = Inr ([1, 2, 3], [1, 2, 3], [1, 2, 3, 4, 5], [1, 2, 3, 4, 5], False)"
    by (auto simp: map_option_eq_Some)
  then obtain s evs h where "r = Inr (s, evs, h)" by (cases r) auto
  with r sample_outcome_reach [of s evs h] show thesis by (intro that [of h s evs]) simp_all
qed

theorem session_receives_what_was_read_witness:
  "\<exists>h s evs. session_reach record_event events_fragments [] h s evs [] \<and> socket_in s = [1, 2, 3]
     \<and> events_bytes h evs = [1, 2, 3]"
proof -
  obtain s evs h where r: "session_reach record_event events_fragments [] h s evs []" "socket_in s = [1, 2, 3]"
    by (rule sample_outcome_state)
  from session_receives_what_was_read [OF r(1), of RunTask NullDeref] r show ?thesis by metis
qed

theorem session_sends_in_order_witness:
  "\<exists>h s evs. session_reach record_event events_fragments [] h s evs [] \<and> asked s = [1, 2, 3, 4, 5]
     \<and> (\<exists>rest. asked s = socket_out s @ rest)"
proof -
  obtain s evs h where r: "session_reach record_event events_fragments [] h s evs []" "asked s = [1, 2, 3, 4, 5]"
    by (rule sample_outcome_state)
  from session_sends_in_order [OF r(1)] r show ?thesis by blast
qed

end
