(* ===== verification/SpatialGrid.thy ===== *)
theory SpatialGrid
  imports Prelude Complex_Main
begin

text \<open>
  The grid of a game instance, \<^verbatim>\<open>xr/server/game/instance/grid\<close>: cells that list the entities in them, and a
  sector for each cell, which is the cell and those around it. Pointers to cells and sectors are indices into
  the vectors that own them, which are reserved at their full size. A \<^verbatim>\<open>double\<close> is a rational number: what
  rounding does to a coordinate is not modelled.

  The theory proves what the constructor builds, and that the differences and intersections of sectors are those
  of the sets of their cells.
\<close>

subsection \<open>Loops that may fault\<close>

fun each :: "('a \<Rightarrow> 's \<Rightarrow> 'e + 's) \<Rightarrow> 'a list \<Rightarrow> 's \<Rightarrow> 'e + 's" where
  "each f [] s = Inr s"
| "each f (x # xs) s = and_then (f x s) (each f xs)"

lemma each_append: "each f (xs @ ys) s = and_then (each f xs s) (each f ys)"
  by (induction xs arbitrary: s) (auto simp: and_then_def split: sum.split)

subsection \<open>Entities and places\<close>

datatype entity_type = PlayerEntity | MonsterEntity | SpawnerEntity

text \<open>\<^verbatim>\<open>game_entity_id.cpp\<close>: the type is the low half of the number a client sees, the value the high one.\<close>

datatype entity_id = EntityId (entity_type: entity_type) (entity_value: "32 word")

primrec type_index :: "entity_type \<Rightarrow> nat" where
  "type_index PlayerEntity = 0"
| "type_index MonsterEntity = 1"
| "type_index SpawnerEntity = 2"

definition unwrap :: "entity_id \<Rightarrow> 64 word" where
  "unwrap e = push_bit 32 (ucast (entity_value e)) OR of_nat (type_index (entity_type e))"

definition from_int64 :: "64 word \<Rightarrow> entity_id option" where
  "from_int64 w =
     (let t = take_bit 32 w; v = ucast (drop_bit 32 w)
      in if t = 0 then Some (EntityId PlayerEntity v)
         else if t = 1 then Some (EntityId MonsterEntity v)
         else if t = 2 then Some (EntityId SpawnerEntity v)
         else None)"

lemma from_int64_unwrap: "from_int64 (unwrap e) = Some e"
proof -
  have low: "take_bit 32 (unwrap e) = of_nat (type_index (entity_type e))"
    by (cases "entity_type e") (simp_all add: unwrap_def take_bit_or take_bit_push_bit)
  have "drop_bit 32 (of_nat (type_index t) :: 64 word) = 0" for t
    by (cases t) simp_all
  moreover have "drop_bit 32 (push_bit 32 (ucast v)) = (ucast v :: 64 word)" for v :: "32 word"
    by (rule bit_eqI) (auto simp: bit_simps dest: bit_imp_le_length)
  ultimately have "drop_bit 32 (unwrap e) = ucast (entity_value e)"
    by (simp add: unwrap_def)
  moreover have "ucast (ucast v :: 64 word) = v" for v :: "32 word"
    by (rule bit_eqI) (simp add: bit_simps)
  ultimately have "ucast (drop_bit 32 (unwrap e)) = entity_value e" by simp
  with low show ?thesis by (cases e; cases "entity_type e") (simp_all add: from_int64_def Let_def)
qed

lemma unwrap_eq_iff [simp]: "unwrap a = unwrap b \<longleftrightarrow> a = b"
  by (metis from_int64_unwrap option.inject)

type_synonym position = "rat \<times> rat \<times> rat"

text \<open>\<^verbatim>\<open>game_spatial_mbr.cpp\<close>; a default-constructed box is empty.\<close>

datatype mbr = EmptyBox | Box rat rat rat rat

definition mbr_around :: "rat \<times> rat \<Rightarrow> rat \<Rightarrow> mbr" where
  "mbr_around p r = Box (fst p - r) (snd p - r) (fst p + r) (snd p + r)"

fun mbr_extend :: "mbr \<Rightarrow> mbr \<Rightarrow> mbr" where
  "mbr_extend EmptyBox b = b"
| "mbr_extend b EmptyBox = b"
| "mbr_extend (Box x0 y0 x1 y1) (Box u0 v0 u1 v1) = Box (min x0 u0) (min y0 v0) (max x1 u1) (max y1 v1)"

fun mbr_intersect :: "mbr \<Rightarrow> mbr \<Rightarrow> bool" where
  "mbr_intersect (Box x0 y0 x1 y1) (Box u0 v0 u1 v1) \<longleftrightarrow> x0 \<le> u1 \<and> y0 \<le> v1 \<and> u0 \<le> x1 \<and> v0 \<le> y1"
| "mbr_intersect _ _ \<longleftrightarrow> False"

text \<open>\<^verbatim>\<open>game_spatial_cell.cpp\<close>\<close>

record spatial_cell =
  cell_id :: "int \<times> int"
  cell_mbr :: mbr
  halfX :: rat
  halfY :: rat
  cell_entities :: "entity_type \<Rightarrow> entity_id list"

fun cell_new :: "int \<times> int \<Rightarrow> mbr \<Rightarrow> spatial_cell" where
  "cell_new i (Box x0 y0 x1 y1) =
     \<lparr>cell_id = i, cell_mbr = Box x0 y0 x1 y1, halfX = (x0 + x1) / 2, halfY = (y0 + y1) / 2, cell_entities = (\<lambda>_. [])\<rparr>"
| "cell_new i EmptyBox = \<lparr>cell_id = i, cell_mbr = EmptyBox, halfX = 0, halfY = 0, cell_entities = (\<lambda>_. [])\<rparr>"

definition cell_has_type :: "entity_type \<Rightarrow> spatial_cell \<Rightarrow> bool" where
  "cell_has_type t c \<longleftrightarrow> cell_entities c t \<noteq> []"

definition cell_has_entity :: "entity_id \<Rightarrow> spatial_cell \<Rightarrow> bool" where
  "cell_has_entity e c \<longleftrightarrow> e \<in> set (cell_entities c (entity_type e))"

definition cell_add :: "entity_id \<Rightarrow> spatial_cell \<Rightarrow> spatial_cell" where
  "cell_add e c =
     c\<lparr>cell_entities := (cell_entities c)(entity_type e := cell_entities c (entity_type e) @ [e])\<rparr>"

definition cell_remove :: "entity_id \<Rightarrow> spatial_cell \<Rightarrow> spatial_cell" where
  "cell_remove e c =
     c\<lparr>cell_entities := (cell_entities c)(entity_type e := remove1 e (cell_entities c (entity_type e)))\<rparr>"

definition quad_index :: "rat \<times> rat \<Rightarrow> spatial_cell \<Rightarrow> nat" where
  "quad_index p c = (if snd p \<le> halfY c then 0 else 2) + (if fst p \<le> halfX c then 0 else 1)"

text \<open>\<^verbatim>\<open>GetEntities()\<close>: the vectors of the types one after another.\<close>

definition cell_all :: "spatial_cell \<Rightarrow> entity_id list" where
  "cell_all c = cell_entities c PlayerEntity @ cell_entities c MonsterEntity @ cell_entities c SpawnerEntity"

definition cell_size :: "spatial_cell \<Rightarrow> int" where
  "cell_size c = int (length (cell_all c))"

subsection \<open>Sectors\<close>

text \<open>\<^verbatim>\<open>operator<\<close> of \<^verbatim>\<open>GameSpatialId\<close>\<close>

definition spatial_id_less :: "int \<times> int \<Rightarrow> int \<times> int \<Rightarrow> bool" where
  "spatial_id_less a b \<longleftrightarrow> (if snd a = snd b then fst a < fst b else snd a < snd b)"

record sector =
  sector_id :: "int \<times> int"
  sector_cells :: "nat list"
  center :: "nat option"

definition sector_new :: "int \<times> int \<Rightarrow> sector" where
  "sector_new i = \<lparr>sector_id = i, sector_cells = [], center = None\<rparr>"

text \<open>
  \<^verbatim>\<open>GameSpatialSet::AddCell\<close>: the cell \<open>k\<close> goes before the first that does not precede it; a
  \<^verbatim>\<open>static_vector\<close> has room for nine.
\<close>

definition insert_cell :: "spatial_cell list \<Rightarrow> nat \<Rightarrow> nat list \<Rightarrow> fault + nat list" where
  "insert_cell cs k ks =
     (let before = (\<lambda>j. spatial_id_less (cell_id (cs ! j)) (cell_id (cs ! k)))
      in if length ks \<ge> 9 then Inl (RuntimeError ''static_vector'')
         else Inr (takeWhile before ks @ k # dropWhile before ks))"

definition sector_add_cell :: "spatial_cell list \<Rightarrow> nat \<Rightarrow> sector \<Rightarrow> fault + sector" where
  "sector_add_cell cs k s =
     and_then (insert_cell cs k (sector_cells s)) (\<lambda>ks.
       let s1 = s\<lparr>sector_cells := ks\<rparr>
       in Inr (if center s1 \<noteq> None then s1
               else if cell_id (cs ! k) = sector_id s1 then s1\<lparr>center := Some k\<rparr> else s1))"

text \<open>\<^verbatim>\<open>std::set_difference\<close> and \<^verbatim>\<open>std::set_intersection\<close> by the order of the cells.\<close>

fun set_difference :: "('k \<Rightarrow> 'k \<Rightarrow> bool) \<Rightarrow> 'k list \<Rightarrow> 'k list \<Rightarrow> 'k list" where
  "set_difference lt [] ys = []"
| "set_difference lt (x # xs) [] = x # xs"
| "set_difference lt (x # xs) (y # ys) =
     (if lt x y then x # set_difference lt xs (y # ys)
      else if lt y x then set_difference lt (x # xs) ys
      else set_difference lt xs ys)"

fun set_intersection :: "('k \<Rightarrow> 'k \<Rightarrow> bool) \<Rightarrow> 'k list \<Rightarrow> 'k list \<Rightarrow> 'k list" where
  "set_intersection lt [] ys = []"
| "set_intersection lt (x # xs) [] = []"
| "set_intersection lt (x # xs) (y # ys) =
     (if lt x y then set_intersection lt xs (y # ys)
      else if lt y x then set_intersection lt (x # xs) ys
      else x # set_intersection lt xs ys)"

subsection \<open>The container\<close>

record spatial_container =
  area_width :: int
  area_height :: int
  lengthPerGrid :: int
  xSize :: int
  ySize :: int
  cells :: "spatial_cell list"
  sectors :: "sector list"

definition positionOffset :: rat where
  "positionOffset = 10000"

text \<open>
  \<^verbatim>\<open>static_cast<int32_t>\<close> of a \<^verbatim>\<open>double\<close> drops the fraction. The conversion of a number that does not fit is
  undefined in C++; here it gives what x86 does.
\<close>

definition truncate32 :: "rat \<Rightarrow> int" where
  "truncate32 r =
     (let i = (if r < 0 then ceiling r else floor r) in if - (2 ^ 31) \<le> i \<and> i < 2 ^ 31 then i else - (2 ^ 31))"

definition clamp :: "int \<Rightarrow> int \<Rightarrow> int \<Rightarrow> int" where
  "clamp v lo hi = (if v < lo then lo else if hi < v then hi else v)"

definition calculate_x_index :: "rat \<Rightarrow> spatial_container \<Rightarrow> int" where
  "calculate_x_index x c = clamp (truncate32 (x + positionOffset)) 0 (area_width c) div lengthPerGrid c"

definition calculate_y_index :: "rat \<Rightarrow> spatial_container \<Rightarrow> int" where
  "calculate_y_index y c = clamp (truncate32 (y + positionOffset)) 0 (area_height c) div lengthPerGrid c"

definition calculate_index :: "int \<Rightarrow> int \<Rightarrow> spatial_container \<Rightarrow> int" where
  "calculate_index x y c = x + y * ySize c"

text \<open>A sector by its coordinates in the grid: its index in \<^verbatim>\<open>_sectors\<close>.\<close>

definition sector_at :: "int \<Rightarrow> int \<Rightarrow> spatial_container \<Rightarrow> fault + nat" where
  "sector_at x y c =
     (let i = calculate_index x y c
      in if i < 0 \<or> int (length (sectors c)) \<le> i then Inl OutOfBounds else Inr (nat i))"

definition get_sector :: "position \<Rightarrow> spatial_container \<Rightarrow> fault + nat" where
  "get_sector p c = (case p of (x, y, z) \<Rightarrow> sector_at (calculate_x_index x c) (calculate_y_index y c) c)"

text \<open>The loops of \<^verbatim>\<open>getAdjacentSectors\<close>: the rows outside, in each of them the columns.\<close>

definition places_around :: "int \<Rightarrow> int \<Rightarrow> spatial_container \<Rightarrow> (int \<times> int) list" where
  "places_around x y c =
     map (\<lambda>(j, i). (i, j))
       (List.product (filter (\<lambda>j. \<not> (j < 0 \<or> j \<ge> ySize c)) [y - 1..y + 1])
                     (filter (\<lambda>i. \<not> (i < 0 \<or> i \<ge> xSize c)) [x - 1..x + 1]))"

fun sectors_at :: "(int \<times> int) list \<Rightarrow> spatial_container \<Rightarrow> fault + nat list" where
  "sectors_at [] c = Inr []"
| "sectors_at ((i, j) # ps) c = and_then (sector_at i j c) (\<lambda>s. and_then (sectors_at ps c) (\<lambda>ss. Inr (s # ss)))"

definition adjacent_sectors :: "int \<Rightarrow> int \<Rightarrow> spatial_container \<Rightarrow> fault + nat list" where
  "adjacent_sectors x y c = sectors_at (places_around x y c) c"

fun add_to_sectors :: "nat \<Rightarrow> nat list \<Rightarrow> spatial_container \<Rightarrow> fault + spatial_container" where
  "add_to_sectors k [] c = Inr c"
| "add_to_sectors k (s # ss) c =
     and_then (sector_add_cell (cells c) k (sectors c ! s)) (\<lambda>s'.
       add_to_sectors k ss (c\<lparr>sectors := (sectors c)[s := s']\<rparr>))"

definition grid_box :: "int \<Rightarrow> int \<Rightarrow> int \<Rightarrow> mbr" where
  "grid_box len x y =
     (let minX = of_int (x * len) - positionOffset; minY = of_int (y * len) - positionOffset
      in Box minX minY (minX + of_int len) (minY + of_int len))"

definition add_cell :: "int \<Rightarrow> int \<Rightarrow> spatial_container \<Rightarrow> fault + spatial_container" where
  "add_cell x y c0 =
     (let c = c0\<lparr>cells := cells c0 @ [cell_new (x, y) (grid_box (lengthPerGrid c0) x y)]\<rparr>
      in and_then (adjacent_sectors x y c) (\<lambda>ss. add_to_sectors (length (cells c0)) ss c))"

fun add_cells :: "(int \<times> int) list \<Rightarrow> spatial_container \<Rightarrow> fault + spatial_container" where
  "add_cells [] c = Inr c"
| "add_cells ((x, y) # ps) c = and_then (add_cell x y c) (add_cells ps)"

definition grid_points :: "int \<Rightarrow> int \<Rightarrow> (int \<times> int) list" where
  "grid_points xs ys = [(x, y). y \<leftarrow> [0..ys - 1], x \<leftarrow> [0..xs - 1]]"

definition container_new :: "int \<Rightarrow> int \<Rightarrow> int \<Rightarrow> fault + spatial_container" where
  "container_new w h len =
     (let xs = w div len + 1; ys = h div len + 1
      in add_cells (grid_points xs ys)
           \<lparr>area_width = w, area_height = h, lengthPerGrid = len, xSize = xs, ySize = ys, cells = [],
            sectors = map sector_new (grid_points xs ys)\<rparr>)"

subsection \<open>Sets of cells and their entities\<close>

definition cell_less :: "spatial_container \<Rightarrow> nat \<Rightarrow> nat \<Rightarrow> bool" where
  "cell_less c j k \<longleftrightarrow> spatial_id_less (cell_id (cells c ! j)) (cell_id (cells c ! k))"

definition sector_difference :: "nat \<Rightarrow> nat \<Rightarrow> spatial_container \<Rightarrow> nat list" where
  "sector_difference a b c =
     set_difference (cell_less c) (sector_cells (sectors c ! a)) (sector_cells (sectors c ! b))"

definition sector_intersect :: "nat \<Rightarrow> nat \<Rightarrow> spatial_container \<Rightarrow> nat list" where
  "sector_intersect a b c =
     set_intersection (cell_less c) (sector_cells (sectors c ! a)) (sector_cells (sectors c ! b))"

definition cells_entities :: "nat list \<Rightarrow> spatial_container \<Rightarrow> entity_id list" where
  "cells_entities ks c = concat (map (\<lambda>k. cell_all (cells c ! k)) ks)"

definition cells_entities_of :: "entity_type \<Rightarrow> nat list \<Rightarrow> spatial_container \<Rightarrow> entity_id list" where
  "cells_entities_of t ks c = concat (map (\<lambda>k. cell_entities (cells c ! k) t) ks)"

text \<open>The loop of \<^verbatim>\<open>HasEntitiesAtLeast\<close>: the sum so far.\<close>

fun has_at_least :: "int \<Rightarrow> int \<Rightarrow> nat list \<Rightarrow> spatial_container \<Rightarrow> bool" where
  "has_at_least n acc [] c \<longleftrightarrow> False"
| "has_at_least n acc (k # ks) c \<longleftrightarrow>
     (let acc' = acc + cell_size (cells c ! k) in acc' \<ge> n \<or> has_at_least n acc' ks c)"

definition sector_add_entity :: "entity_id \<Rightarrow> nat \<Rightarrow> spatial_container \<Rightarrow> fault + spatial_container" where
  "sector_add_entity e s c =
     (case center (sectors c ! s) of
        None \<Rightarrow> Inl NullDeref
      | Some k \<Rightarrow> Inr (c\<lparr>cells := (cells c)[k := cell_add e (cells c ! k)]\<rparr>))"

definition sector_remove_entity :: "entity_id \<Rightarrow> nat \<Rightarrow> spatial_container \<Rightarrow> fault + spatial_container" where
  "sector_remove_entity e s c =
     (case center (sectors c ! s) of
        None \<Rightarrow> Inl NullDeref
      | Some k \<Rightarrow> Inr (c\<lparr>cells := (cells c)[k := cell_remove e (cells c ! k)]\<rparr>))"

subsection \<open>What the constructor builds\<close>

text \<open>In a square grid of \<open>n * n\<close> cells, the place of the cell \<open>k\<close> and the cells next to it.\<close>

definition place_of :: "nat \<Rightarrow> nat \<Rightarrow> int \<times> int" where
  "place_of n k = (int (k mod n), int (k div n))"

definition next_to :: "nat \<Rightarrow> nat \<Rightarrow> nat \<Rightarrow> bool" where
  "next_to n j k \<longleftrightarrow>
     \<bar>int (j mod n) - int (k mod n)\<bar> \<le> 1 \<and> \<bar>int (j div n) - int (k div n)\<bar> \<le> 1"

definition near :: "nat \<Rightarrow> nat \<Rightarrow> nat list" where
  "near n k = filter (next_to n k) [0..<n * n]"

lemma next_to_sym: "next_to n j k \<longleftrightarrow> next_to n k j"
  by (auto simp: next_to_def)

lemma next_to_refl [simp]: "next_to n k k"
  by (simp add: next_to_def)

lemma place_less:
  assumes "0 < n"
  shows "spatial_id_less (place_of n j) (place_of n k) \<longleftrightarrow> j < k"
proof -
  have jk: "j = j div n * n + j mod n" "k = k div n * n + k mod n" by simp_all
  have m: "j mod n < n" "k mod n < n" using assms by simp_all
  have "j < k" if "j div n < k div n" using that by (meson div_le_mono leI not_less)
  moreover have "j div n \<le> k div n" if "j < k" using that by (simp add: div_le_mono)
  moreover have "j < k \<longleftrightarrow> j mod n < k mod n" if "j div n = k div n" using jk that by (metis add_less_cancel_left)
  ultimately show ?thesis by (auto simp: spatial_id_less_def place_of_def)
qed

lemma place_inj: "0 < n \<Longrightarrow> place_of n j = place_of n k \<longleftrightarrow> j = k"
  by (metis place_less less_irrefl linorder_neqE_nat)

lemma few_near:
  assumes "0 < n"
  shows "length (filter (next_to n k) [0..<m]) \<le> 9"
proof -
  let ?f = "\<lambda>j. (fst (place_of n j) - fst (place_of n k), snd (place_of n j) - snd (place_of n k))"
  let ?A = "set (filter (next_to n k) [0..<m])"
  have "inj_on ?f ?A"
  proof (rule inj_onI)
    fix i j assume "?f i = ?f j"
    then have "place_of n i = place_of n j" by (metis add_right_cancel diff_add_cancel prod.expand prod.inject)
    then show "i = j" using place_inj [OF assms] by blast
  qed
  moreover have "?f ` ?A \<subseteq> {- 1..1} \<times> {- 1..1}" by (auto simp: place_of_def next_to_def)
  ultimately have "card ?A \<le> card ({- 1..1 :: int} \<times> {- 1..1 :: int})" by (intro card_inj_on_le) auto
  also have "\<dots> = 9" by (simp add: card_cartesian_product)
  finally show ?thesis using distinct_card [of "filter (next_to n k) [0..<m]"] by simp
qed

lemma place_point:
  assumes "0 \<le> x" "x < int n" "0 \<le> y"
  shows "place_of n (nat (x + y * int n)) = (x, y)"
proof -
  have "nat (x + y * int n) = nat x + nat y * n" using assms by (simp add: nat_add_distrib nat_mult_distrib)
  moreover have "nat x < n" using assms by linarith
  ultimately show ?thesis using assms by (simp add: place_of_def)
qed

text \<open>The container after \<open>m\<close> cells.\<close>

definition partial_container :: "int \<Rightarrow> int \<Rightarrow> int \<Rightarrow> nat \<Rightarrow> nat \<Rightarrow> spatial_container" where
  "partial_container w h len n m =
     \<lparr>area_width = w, area_height = h, lengthPerGrid = len, xSize = int n, ySize = int n,
      cells = map (\<lambda>k. cell_new (place_of n k) (grid_box len (fst (place_of n k)) (snd (place_of n k)))) [0..<m],
      sectors = map (\<lambda>s. \<lparr>sector_id = place_of n s, sector_cells = filter (next_to n s) [0..<m],
                        center = (if s < m then Some s else None)\<rparr>) [0..<n * n]\<rparr>"

lemma grid_points_places:
  assumes "0 < n"
  shows "grid_points (int n) (int n) = map (place_of n) [0..<n * n]"
proof -
  have row: "map (\<lambda>x. (x, int y)) [0..int n - 1] = map (place_of n) [y * n..<y * n + n]" for y
  proof (rule nth_equalityI)
    fix i assume "i < length (map (\<lambda>x. (x, int y)) [0..int n - 1])"
    then have "i < n" by simp
    then show "map (\<lambda>x. (x, int y)) [0..int n - 1] ! i = map (place_of n) [y * n..<y * n + n] ! i"
      by (simp add: place_of_def)
  qed simp
  have "concat (map (\<lambda>y. map (\<lambda>x. (x, y)) [0..int n - 1]) [0..int m - 1]) = map (place_of n) [0..<m * n]" for m
  proof (induction m)
    case (Suc m)
    have "[0..int (Suc m) - 1] = [0..int m - 1] @ [int m]" by (simp add: upto_rec2)
    moreover have "[0..<Suc m * n] = [0..<m * n] @ [m * n..<m * n + n]"
      by (metis add.commute le_add1 mult_Suc upt_add_eq_append zero_le)
    ultimately show ?case using Suc.IH row [of m] by simp
  qed simp
  then show ?thesis by (simp add: grid_points_def)
qed

lemma set_places_around:
  "set (places_around x y c) = {(i, j). 0 \<le> i \<and> i < xSize c \<and> 0 \<le> j \<and> j < ySize c \<and> \<bar>i - x\<bar> \<le> 1 \<and> \<bar>j - y\<bar> \<le> 1}"
  by (auto simp: places_around_def image_iff)

lemma distinct_places_around: "distinct (places_around x y c)"
  by (auto simp: places_around_def distinct_map distinct_product inj_on_def)

lemma sectors_at_inside:
  assumes "xSize c = int n" "ySize c = int n" "length (sectors c) = n * n"
    and "\<forall>(i, j) \<in> set ps. 0 \<le> i \<and> i < int n \<and> 0 \<le> j \<and> j < int n"
  shows "sectors_at ps c = Inr (map (\<lambda>(i, j). nat (i + j * int n)) ps)"
  using assms(4)
proof (induction ps)
  case (Cons p ps)
  obtain i j where p: "p = (i, j)" by fastforce
  with Cons.prems have ij: "0 \<le> i" "i < int n" "0 \<le> j" "j < int n" by auto
  have "0 \<le> i + j * int n" using ij by simp
  have "i + j * int n < int n + j * int n" using ij by simp
  also have "\<dots> = (1 + j) * int n" by (simp add: algebra_simps)
  also have "\<dots> \<le> int n * int n" using ij by (intro mult_right_mono) auto
  finally have "sector_at i j c = Inr (nat (i + j * int n))"
    using \<open>0 \<le> i + j * int n\<close> by (simp add: sector_at_def calculate_index_def Let_def assms(1-3))
  with Cons p show ?case by simp
qed simp

lemma adjacent_sectors_ok:
  assumes n: "0 < n" and c: "xSize c = int n" "ySize c = int n" "length (sectors c) = n * n" and k: "k < n * n"
  shows "\<exists>ss. adjacent_sectors (fst (place_of n k)) (snd (place_of n k)) c = Inr ss \<and> distinct ss
    \<and> set ss = {s. s < n * n \<and> next_to n s k}"
proof -
  let ?ps = "places_around (fst (place_of n k)) (snd (place_of n k)) c"
  let ?f = "\<lambda>(i, j). nat (i + j * int n)"
  have inside: "0 \<le> i \<and> i < int n \<and> 0 \<le> j \<and> j < int n" if "(i, j) \<in> set ?ps" for i j
    using that by (simp add: set_places_around c)
  have pl: "place_of n (?f p) = p" if "p \<in> set ?ps" for p
  proof -
    obtain i j where "p = (i, j)" by fastforce
    with inside [of i j] that show ?thesis by (simp add: place_point)
  qed
  have "sectors_at ?ps c = Inr (map ?f ?ps)" using inside by (intro sectors_at_inside [OF c]) auto
  moreover have "distinct (map ?f ?ps)"
    unfolding distinct_map using distinct_places_around pl by (metis inj_on_inverseI)
  moreover have "s \<in> ?f ` set ?ps \<longleftrightarrow> s < n * n \<and> next_to n s k" for s
  proof -
    have "s < n * n" if "place_of n s \<in> set ?ps"
    proof -
      from that have "s div n < n" by (simp add: set_places_around c place_of_def)
      then show ?thesis using n by (simp add: div_less_iff_less_mult)
    qed
    moreover have "s div n < n" if "s < n * n" using that by (simp add: less_mult_imp_div_less)
    ultimately have "place_of n s \<in> set ?ps \<longleftrightarrow> s < n * n \<and> next_to n s k"
      using n by (auto simp: set_places_around c place_of_def next_to_def)
    moreover have "s \<in> ?f ` set ?ps \<longleftrightarrow> place_of n s \<in> set ?ps"
    proof
      assume "s \<in> ?f ` set ?ps"
      then show "place_of n s \<in> set ?ps" using pl by auto
    next
      assume "place_of n s \<in> set ?ps"
      moreover have "?f (place_of n s) = s" by (simp add: place_of_def flip: of_nat_mult of_nat_add)
      ultimately show "s \<in> ?f ` set ?ps" by (metis image_eqI)
    qed
    ultimately show ?thesis by blast
  qed
  ultimately show ?thesis unfolding adjacent_sectors_def by (metis (no_types, lifting) Collect_cong Collect_mem_eq list.set_map)
qed

lemma insert_last:
  assumes n: "0 < n" and cs: "\<And>j. j \<le> k \<Longrightarrow> cell_id (cs ! j) = place_of n j"
    and ks: "length ks < 9" "\<forall>j \<in> set ks. j < k"
  shows "insert_cell cs k ks = Inr (ks @ [k])"
proof -
  have "\<forall>j \<in> set ks. spatial_id_less (cell_id (cs ! j)) (cell_id (cs ! k))"
    using ks(2) cs place_less [OF n] by (metis less_imp_le order_refl)
  then have "takeWhile (\<lambda>j. spatial_id_less (cell_id (cs ! j)) (cell_id (cs ! k))) ks = ks"
    "dropWhile (\<lambda>j. spatial_id_less (cell_id (cs ! j)) (cell_id (cs ! k))) ks = []" by simp_all
  with ks(1) show ?thesis by (simp add: insert_cell_def Let_def)
qed

lemma cell_id_new [simp]: "cell_id (cell_new i b) = i"
  by (cases b) simp_all

text \<open>The cell \<open>m\<close> is added to the sectors \<open>ss\<close>, one after another.\<close>

lemma add_to_sectors_ok:
  assumes n: "0 < n" and cs: "\<And>j. j \<le> m \<Longrightarrow> cell_id (cells c ! j) = place_of n j"
    and ss: "distinct ss" "\<forall>s \<in> set ss. s < n * n \<and> next_to n s m"
    and len: "length (sectors c) = n * n"
    and old: "\<forall>s \<in> set ss. sectors c ! s = \<lparr>sector_id = place_of n s, sector_cells = filter (next_to n s) [0..<m],
                center = (if s < m then Some s else None)\<rparr>"
  shows "add_to_sectors m ss c = Inr (c\<lparr>sectors :=
    map (\<lambda>s. if s \<in> set ss then \<lparr>sector_id = place_of n s, sector_cells = filter (next_to n s) [0..<Suc m],
                center = (if s < Suc m then Some s else None)\<rparr> else sectors c ! s) [0..<n * n]\<rparr>)"
  using cs ss len old
proof (induction ss arbitrary: c)
  case Nil
  then have "map ((!) (sectors c)) [0..<n * n] = sectors c" by (metis map_nth)
  then show ?case by simp
next
  case (Cons s ss)
  let ?new = "\<lambda>s. \<lparr>sector_id = place_of n s, sector_cells = filter (next_to n s) [0..<Suc m],
                center = (if s < Suc m then Some s else None)\<rparr>"
  have s: "s < n * n" "next_to n s m" "s \<notin> set ss" using Cons.prems(2,3) by auto
  have few: "length (filter (next_to n s) [0..<m]) < 9" using few_near [OF n, of s "Suc m"] s(2) by simp
  have "insert_cell (cells c) m (filter (next_to n s) [0..<m]) = Inr (filter (next_to n s) [0..<m] @ [m])"
    by (rule insert_last [OF n Cons.prems(1) few]) auto
  moreover have "place_of n m = place_of n s \<longleftrightarrow> m = s" by (rule place_inj [OF n])
  ultimately have "sector_add_cell (cells c) m (sectors c ! s) = Inr (?new s)"
    using Cons.prems(1) [of m] Cons.prems(5) s(2)
    by (auto simp: sector_add_cell_def Let_def less_Suc_eq)
  moreover have "add_to_sectors m ss (c\<lparr>sectors := (sectors c)[s := ?new s]\<rparr>) =
    Inr (c\<lparr>sectors := map (\<lambda>i. if i \<in> set ss then ?new i else (sectors c)[s := ?new s] ! i) [0..<n * n]\<rparr>)"
    using Cons.prems s by (subst Cons.IH) (auto simp: nth_list_update)
  moreover have "map (\<lambda>i. if i \<in> set ss then ?new i else (sectors c)[s := ?new s] ! i) [0..<n * n]
    = map (\<lambda>i. if i \<in> set (s # ss) then ?new i else sectors c ! i) [0..<n * n]"
    using Cons.prems(4) by (auto simp: nth_list_update)
  ultimately show ?case by simp
qed

lemma add_cell_next:
  assumes n: "0 < n" and m: "m < n * n"
  shows "add_cell (fst (place_of n m)) (snd (place_of n m)) (partial_container w h len n m) = Inr (partial_container w h len n (Suc m))"
proof -
  let ?c = "(partial_container w h len n m)\<lparr>cells := cells (partial_container w h len n (Suc m))\<rparr>"
  obtain ss where ss: "adjacent_sectors (fst (place_of n m)) (snd (place_of n m)) ?c = Inr ss" "distinct ss"
      "set ss = {s. s < n * n \<and> next_to n s m}"
    using adjacent_sectors_ok [OF n _ _ _ m, of ?c] by (auto simp: partial_container_def)
  have "cell_id (cells ?c ! j) = place_of n j" if "j \<le> m" for j
    using that by (simp add: partial_container_def del: upt_Suc)
  then have "add_to_sectors m ss ?c = Inr (?c\<lparr>sectors :=
    map (\<lambda>s. if s \<in> set ss then \<lparr>sector_id = place_of n s, sector_cells = filter (next_to n s) [0..<Suc m],
                center = (if s < Suc m then Some s else None)\<rparr> else sectors ?c ! s) [0..<n * n]\<rparr>)"
    using ss(2,3) by (intro add_to_sectors_ok [OF n]) (auto simp: partial_container_def)
  also have "\<dots> = Inr (partial_container w h len n (Suc m))"
    using next_to_refl [of n m] by (auto simp: partial_container_def ss(3) less_Suc_eq simp del: next_to_refl)
  finally show ?thesis using ss(1)
    by (simp add: add_cell_def Let_def partial_container_def)
qed

lemma add_cells_from:
  assumes n: "0 < n"
  shows "m \<le> n * n \<Longrightarrow> add_cells (map (place_of n) [m..<n * n]) (partial_container w h len n m)
    = Inr (partial_container w h len n (n * n))"
proof (induction "n * n - m" arbitrary: m)
  case (Suc d)
  then have m: "m < n * n" by simp
  then have "map (place_of n) [m..<n * n] = place_of n m # map (place_of n) [Suc m..<n * n]" by (simp add: upt_conv_Cons)
  moreover have "add_cells (map (place_of n) [Suc m..<n * n]) (partial_container w h len n (Suc m))
    = Inr (partial_container w h len n (n * n))" using Suc by (intro Suc.hyps) auto
  moreover obtain x y where "place_of n m = (x, y)" by fastforce
  ultimately show ?case using add_cell_next [OF n m, of w h len] by simp
qed simp

lemma container_new_square:
  assumes "w div len + 1 = int n" "h div len + 1 = int n" "0 < n"
  shows "container_new w h len = Inr (partial_container w h len n (n * n))"
proof -
  have "sector_new \<circ> place_of n = (\<lambda>s. \<lparr>sector_id = place_of n s, sector_cells = [], center = None\<rparr>)"
    by (auto simp: sector_new_def)
  then have "container_new w h len = add_cells (map (place_of n) [0..<n * n]) (partial_container w h len n 0)"
    using assms by (simp add: container_new_def Let_def grid_points_places partial_container_def)
  then show ?thesis using add_cells_from [OF assms(3), of 0] by simp
qed

subsection \<open>A square grid in use\<close>

text \<open>What the constructor establishes and what adding and removing entities keeps.\<close>

definition square_grid :: "nat \<Rightarrow> spatial_container \<Rightarrow> bool" where
  "square_grid n c \<longleftrightarrow> 0 < n \<and> 0 < lengthPerGrid c \<and> 0 \<le> area_width c \<and> 0 \<le> area_height c
     \<and> area_width c div lengthPerGrid c + 1 = int n \<and> area_height c div lengthPerGrid c + 1 = int n
     \<and> xSize c = int n \<and> ySize c = int n \<and> length (cells c) = n * n
     \<and> sectors c = map (\<lambda>s. \<lparr>sector_id = place_of n s, sector_cells = near n s, center = Some s\<rparr>) [0..<n * n]
     \<and> (\<forall>k < n * n. cell_id (cells c ! k) = place_of n k
          \<and> cell_mbr (cells c ! k) = grid_box (lengthPerGrid c) (fst (place_of n k)) (snd (place_of n k)))"

lemma cell_mbr_new [simp]: "cell_mbr (cell_new i b) = b"
  by (cases b) simp_all

lemma cell_entities_new [simp]: "cell_entities (cell_new i b) t = []"
  by (cases b) simp_all

lemma square_grid_new:
  assumes "0 < len" "0 \<le> w" "0 \<le> h" "w div len = h div len" "n = nat (w div len + 1)"
  shows "\<exists>c. container_new w h len = Inr c \<and> square_grid n c \<and> area_width c = w \<and> area_height c = h
    \<and> lengthPerGrid c = len \<and> (\<forall>k < n * n. \<forall>t. cell_entities (cells c ! k) t = [])"
proof -
  have "0 \<le> w div len" using assms(1,2) by (simp add: pos_imp_zdiv_nonneg_iff)
  then have n: "w div len + 1 = int n" "0 < n" using assms(5) by simp_all
  have "container_new w h len = Inr (partial_container w h len n (n * n))"
    using n assms(4) by (intro container_new_square) auto
  moreover have "square_grid n (partial_container w h len n (n * n))"
    using n assms by (simp add: square_grid_def partial_container_def near_def)
  ultimately show ?thesis using n by (simp add: partial_container_def)
qed

text \<open>The index of the sector of a position.\<close>

definition sector_of :: "position \<Rightarrow> spatial_container \<Rightarrow> nat" where
  "sector_of p c = nat (calculate_index (calculate_x_index (fst p) c) (calculate_y_index (fst (snd p)) c) c)"

lemma clamp_bounds: "lo \<le> hi \<Longrightarrow> lo \<le> clamp v lo hi \<and> clamp v lo hi \<le> hi"
  by (simp add: clamp_def)

lemma clamp_div_bounds:
  assumes "0 \<le> w" "0 < len" "w div len + 1 = int n"
  shows "0 \<le> clamp v 0 w div len \<and> clamp v 0 w div len < int n"
  using clamp_bounds [OF assms(1), of v] zdiv_mono1 [of "clamp v 0 w" w len] assms
  by (auto simp: pos_imp_zdiv_nonneg_iff)

lemma index_bounds:
  assumes "square_grid n c"
  shows "0 \<le> calculate_x_index x c" "calculate_x_index x c < int n"
    "0 \<le> calculate_y_index y c" "calculate_y_index y c < int n"
  using clamp_div_bounds [of "area_width c" "lengthPerGrid c" n] clamp_div_bounds [of "area_height c" "lengthPerGrid c" n] assms
  by (simp_all add: square_grid_def calculate_x_index_def calculate_y_index_def)

lemma place_sector_of:
  assumes "square_grid n c"
  shows "place_of n (sector_of p c) = (calculate_x_index (fst p) c, calculate_y_index (fst (snd p)) c)"
  using index_bounds [OF assms] assms
  by (simp add: sector_of_def calculate_index_def square_grid_def place_point)

lemma sector_of_less:
  assumes "square_grid n c"
  shows "sector_of p c < n * n"
proof -
  have "int (sector_of p c div n) < int n"
    using place_sector_of [OF assms, of p] index_bounds(4) [OF assms] by (simp add: place_of_def)
  moreover have "0 < n" using assms by (simp add: square_grid_def)
  ultimately show ?thesis by (metis div_less_iff_less_mult of_nat_less_iff)
qed

lemma get_sector_ok:
  assumes "square_grid n c"
  shows "get_sector p c = Inr (sector_of p c)"
proof -
  have "0 \<le> calculate_index (calculate_x_index (fst p) c) (calculate_y_index (fst (snd p)) c) c"
    using index_bounds [OF assms] assms by (simp add: calculate_index_def square_grid_def)
  moreover have "length (sectors c) = n * n" using assms by (simp add: square_grid_def)
  ultimately show ?thesis using sector_of_less [OF assms, of p]
    by (auto simp: get_sector_def sector_at_def Let_def sector_of_def not_le nat_less_iff split: prod.split)
qed

lemma sector_at_index:
  assumes "square_grid n c" "k < n * n"
  shows "sectors c ! k = \<lparr>sector_id = place_of n k, sector_cells = near n k, center = Some k\<rparr>"
  using assms by (simp add: square_grid_def)

lemma near_less: "k \<in> set (near n s) \<Longrightarrow> k < n * n"
  by (simp add: near_def)

lemma in_near: "k \<in> set (near n s) \<longleftrightarrow> k < n * n \<and> next_to n s k"
  by (auto simp: near_def)

lemma distinct_near [simp]: "distinct (near n s)"
  by (simp add: near_def)

lemma near_itself: "s < n * n \<Longrightarrow> s \<in> set (near n s)"
  by (simp add: in_near)

text \<open>The entities of a type in a cell, and all of them.\<close>

definition listed :: "nat \<Rightarrow> spatial_container \<Rightarrow> entity_type \<Rightarrow> entity_id list" where
  "listed k c = cell_entities (cells c ! k)"

lemma sector_add_ok:
  assumes "square_grid n c" "k < n * n"
  obtains c' where "sector_add_entity e k c = Inr c'" "square_grid n c'" "lengthPerGrid c' = lengthPerGrid c"
    "area_width c' = area_width c" "area_height c' = area_height c"
    "\<And>j t. listed j c' t = (if j = k \<and> t = entity_type e then listed j c t @ [e] else listed j c t)"
proof
  let ?c = "c\<lparr>cells := (cells c)[k := cell_add e (cells c ! k)]\<rparr>"
  show "sector_add_entity e k c = Inr ?c"
    by (simp add: sector_add_entity_def sector_at_index [OF assms])
  show "square_grid n ?c" using assms by (auto simp: square_grid_def nth_list_update cell_add_def)
  show "listed j ?c t = (if j = k \<and> t = entity_type e then listed j c t @ [e] else listed j c t)" for j t
    using assms by (auto simp: listed_def nth_list_update cell_add_def square_grid_def)
qed simp_all

lemma sector_remove_ok:
  assumes "square_grid n c" "k < n * n"
  obtains c' where "sector_remove_entity e k c = Inr c'" "square_grid n c'" "lengthPerGrid c' = lengthPerGrid c"
    "area_width c' = area_width c" "area_height c' = area_height c"
    "\<And>j t. listed j c' t = (if j = k \<and> t = entity_type e then remove1 e (listed j c t) else listed j c t)"
proof
  let ?c = "c\<lparr>cells := (cells c)[k := cell_remove e (cells c ! k)]\<rparr>"
  show "sector_remove_entity e k c = Inr ?c"
    by (simp add: sector_remove_entity_def sector_at_index [OF assms])
  show "square_grid n ?c" using assms by (auto simp: square_grid_def nth_list_update cell_remove_def)
  show "listed j ?c t = (if j = k \<and> t = entity_type e then remove1 e (listed j c t) else listed j c t)" for j t
    using assms by (auto simp: listed_def nth_list_update cell_remove_def square_grid_def)
qed simp_all

text \<open>Differences and intersections of sorted sets of cells.\<close>

lemma set_difference_sorted:
  assumes "sorted_wrt (<) xs" "sorted_wrt (<) ys" "\<And>x y. x \<in> set xs \<union> set ys \<Longrightarrow> y \<in> set xs \<union> set ys \<Longrightarrow> lt x y \<longleftrightarrow> x < y"
  shows "set_difference lt xs ys = filter (\<lambda>x. x \<notin> set ys) (xs :: nat list)"
  using assms
proof (induction lt xs ys rule: set_difference.induct)
  case (3 lt x xs y ys)
  have lt: "lt x y \<longleftrightarrow> x < y" "lt y x \<longleftrightarrow> y < x" using "3.prems"(3) by simp_all
  consider "x < y" | "y < x" | "x = y" by linarith
  then show ?case
  proof cases
    case 1
    then have "\<forall>z \<in> set (y # ys). x < z" using "3.prems"(2) by auto
    with 1 lt "3.IH"(1) "3.prems" show ?thesis by (auto simp: less_le)
  next
    case 2
    then have "\<forall>z \<in> set (x # xs). y < z" using "3.prems"(1) by auto
    with 2 lt "3.IH"(2) "3.prems" show ?thesis by (auto simp: less_le intro!: filter_cong)
  next
    case 3
    with lt "3.IH"(3) "3.prems" show ?thesis by (auto intro!: filter_cong)
  qed
qed auto

lemma set_intersection_sorted:
  assumes "sorted_wrt (<) xs" "sorted_wrt (<) ys" "\<And>x y. x \<in> set xs \<union> set ys \<Longrightarrow> y \<in> set xs \<union> set ys \<Longrightarrow> lt x y \<longleftrightarrow> x < y"
  shows "set_intersection lt xs ys = filter (\<lambda>x. x \<in> set ys) (xs :: nat list)"
  using assms
proof (induction lt xs ys rule: set_intersection.induct)
  case (3 lt x xs y ys)
  have lt: "lt x y \<longleftrightarrow> x < y" "lt y x \<longleftrightarrow> y < x" using "3.prems"(3) by simp_all
  consider "x < y" | "y < x" | "x = y" by linarith
  then show ?case
  proof cases
    case 1
    then have "\<forall>z \<in> set (y # ys). x < z" using "3.prems"(2) by auto
    with 1 lt "3.IH"(1) "3.prems" show ?thesis by (auto simp: less_le)
  next
    case 2
    then have "\<forall>z \<in> set (x # xs). y < z" using "3.prems"(1) by auto
    with 2 lt "3.IH"(2) "3.prems" show ?thesis by (auto simp: less_le intro!: filter_cong)
  next
    case 3
    with lt "3.IH"(3) "3.prems" show ?thesis by (auto intro!: filter_cong)
  qed
qed auto

lemma sorted_near: "sorted_wrt (<) (near n s)"
  by (simp add: near_def sorted_wrt_filter)

lemma cell_less_iff:
  assumes "square_grid n c" "j < n * n" "k < n * n"
  shows "cell_less c j k \<longleftrightarrow> j < k"
  using assms by (simp add: cell_less_def square_grid_def place_less)

lemma sector_difference_ok:
  assumes "square_grid n c" "a < n * n" "b < n * n"
  shows "sector_difference a b c = filter (\<lambda>k. \<not> next_to n b k) (near n a)"
proof -
  have "set_difference (cell_less c) (near n a) (near n b) = filter (\<lambda>k. k \<notin> set (near n b)) (near n a)"
    by (rule set_difference_sorted [OF sorted_near sorted_near]) (auto simp: in_near cell_less_iff [OF assms(1)])
  also have "\<dots> = filter (\<lambda>k. \<not> next_to n b k) (near n a)" by (auto simp: in_near intro!: filter_cong)
  finally show ?thesis using assms by (simp add: sector_difference_def sector_at_index)
qed

lemma sector_intersect_ok:
  assumes "square_grid n c" "a < n * n" "b < n * n"
  shows "sector_intersect a b c = filter (next_to n b) (near n a)"
proof -
  have "set_intersection (cell_less c) (near n a) (near n b) = filter (\<lambda>k. k \<in> set (near n b)) (near n a)"
    by (rule set_intersection_sorted [OF sorted_near sorted_near]) (auto simp: in_near cell_less_iff [OF assms(1)])
  also have "\<dots> = filter (next_to n b) (near n a)" by (auto simp: in_near intro!: filter_cong)
  finally show ?thesis using assms by (simp add: sector_intersect_def sector_at_index)
qed

text \<open>
  C32: The grid of an area whose sides have as many cells is built without a fault, and whatever the position, also
  one outside the area, its sector is found: its center is the cell with the coordinates of the position, and its
  cells are those of the grid whose coordinates differ from these by at most one.
\<close>

theorem grid_is_built:
  assumes "0 < len" "0 \<le> w" "0 \<le> h" "w div len = h div len"
  shows "\<exists>c. container_new w h len = Inr c \<and> (\<forall>x y z. \<exists>s. get_sector (x, y, z) c = Inr s
    \<and> center (sectors c ! s) = Some s \<and> s < length (cells c)
    \<and> cell_id (cells c ! s) = (calculate_x_index x c, calculate_y_index y c)
    \<and> (\<forall>k. k \<in> set (sector_cells (sectors c ! s)) \<longleftrightarrow> k < length (cells c)
          \<and> \<bar>fst (cell_id (cells c ! k)) - calculate_x_index x c\<bar> \<le> 1
          \<and> \<bar>snd (cell_id (cells c ! k)) - calculate_y_index y c\<bar> \<le> 1))"
proof -
  define n where "n = nat (w div len + 1)"
  obtain c where c: "container_new w h len = Inr c" "square_grid n c"
    using square_grid_new [OF assms n_def] by blast
  have cells: "length (cells c) = n * n" "\<And>k. k < n * n \<Longrightarrow> cell_id (cells c ! k) = place_of n k"
    using c(2) by (simp_all add: square_grid_def)
  have "\<exists>s. get_sector (x, y, z) c = Inr s \<and> center (sectors c ! s) = Some s \<and> s < length (cells c)
    \<and> cell_id (cells c ! s) = (calculate_x_index x c, calculate_y_index y c)
    \<and> (\<forall>k. k \<in> set (sector_cells (sectors c ! s)) \<longleftrightarrow> k < length (cells c)
          \<and> \<bar>fst (cell_id (cells c ! k)) - calculate_x_index x c\<bar> \<le> 1
          \<and> \<bar>snd (cell_id (cells c ! k)) - calculate_y_index y c\<bar> \<le> 1)" for x y z
  proof -
    define s where "s = sector_of (x, y, z) c"
    have s: "s < n * n" unfolding s_def by (rule sector_of_less [OF c(2)])
    have p: "place_of n s = (calculate_x_index x c, calculate_y_index y c)"
      using place_sector_of [OF c(2), of "(x, y, z)"] by (simp add: s_def)
    have "k \<in> set (near n s) \<longleftrightarrow> k < n * n \<and> \<bar>fst (place_of n k) - fst (place_of n s)\<bar> \<le> 1
        \<and> \<bar>snd (place_of n k) - snd (place_of n s)\<bar> \<le> 1" for k
      by (auto simp: in_near next_to_def place_of_def)
    then have "k \<in> set (sector_cells (sectors c ! s)) \<longleftrightarrow> k < length (cells c)
        \<and> \<bar>fst (cell_id (cells c ! k)) - calculate_x_index x c\<bar> \<le> 1
        \<and> \<bar>snd (cell_id (cells c ! k)) - calculate_y_index y c\<bar> \<le> 1" for k
      using cells by (simp add: sector_at_index [OF c(2) s] p) metis
    moreover have "get_sector (x, y, z) c = Inr s" unfolding s_def by (rule get_sector_ok [OF c(2)])
    moreover have "cell_id (cells c ! s) = (calculate_x_index x c, calculate_y_index y c)" using cells(2) [OF s] p by simp
    ultimately show ?thesis using s cells(1) sector_at_index [OF c(2) s] by auto
  qed
  with c(1) show ?thesis by blast
qed

theorem grid_is_built_witness:
  "\<exists>c. container_new 100000 100000 2000 = Inr c \<and> (\<forall>x y z. \<exists>s. get_sector (x, y, z) c = Inr s
    \<and> center (sectors c ! s) = Some s \<and> s < length (cells c)
    \<and> cell_id (cells c ! s) = (calculate_x_index x c, calculate_y_index y c)
    \<and> (\<forall>k. k \<in> set (sector_cells (sectors c ! s)) \<longleftrightarrow> k < length (cells c)
          \<and> \<bar>fst (cell_id (cells c ! k)) - calculate_x_index x c\<bar> \<le> 1
          \<and> \<bar>snd (cell_id (cells c ! k)) - calculate_y_index y c\<bar> \<le> 1))"
  by (rule grid_is_built) simp_all

text \<open>
  The index of a sector multiplies the row by the number of rows, not by that of columns. In an area that is higher
  than wide the sector of the far corner is past the end of the vector.
\<close>

lemma high_area_out_of_bounds:
  assumes "1 \<le> xSize c" "xSize c < ySize c" "int (length (sectors c)) = xSize c * ySize c"
  shows "sector_at (xSize c - 1) (ySize c - 1) c = Inl OutOfBounds"
proof -
  have "ySize c - 1 \<le> (ySize c - xSize c) * (ySize c - 1)"
    using assms(1,2) mult_right_mono [of 1 "ySize c - xSize c" "ySize c - 1"] by simp
  then have "xSize c * ySize c \<le> xSize c - 1 + (ySize c - 1) * ySize c"
    using assms by (simp add: algebra_simps)
  with assms show ?thesis by (simp add: sector_at_def calculate_index_def Let_def)
qed

end
