(* ===== verification/SpatialScan.thy ===== *)
theory SpatialScan
  imports SpatialGrid "HOL-Library.AList"
begin

text \<open>
  The scanner of a game instance, \<^verbatim>\<open>game_spatial_scanner.cpp\<close>, which looks around the entities that asked for it:
  \<open>scan\<close> is the body of \<^verbatim>\<open>Scan()\<close>, with the tasks in the order of the hash map and \<open>loc\<close> for
  \<^verbatim>\<open>FindPosition\<close>, and \<open>scanner_reach\<close> is the life of the scanner. It proves that the scan, which batches the tasks by
  sector and quarter of a cell and skips cells by their boxes, finds what a search through all entities finds.
  Recycled buffers are empty and are left out.
\<close>

declare split_paired_All [simp del] split_paired_Ex [simp del]

subsection \<open>The batches\<close>

record scan_task =
  task_radius :: rat
  target_types :: "entity_type list"
  task_result :: "entity_id set"

record quad_batch =
  quad_mbr :: mbr
  quad_items :: "(entity_id \<times> rat \<times> rat) list"

record batch_task =
  batch_sector :: nat
  quad_partition :: "quad_batch option list"

type_synonym scan_tasks = "(entity_id \<times> scan_task) list"
type_synonym batches = "((int \<times> int) \<times> batch_task) list"

definition batch_new :: batch_task where
  "batch_new = \<lparr>batch_sector = 0, quad_partition = [None, None, None, None]\<rparr>"

text \<open>\<^verbatim>\<open>_batchTasks[id]\<close> of a \<^verbatim>\<open>flat_map\<close>, and what is then done to the batch.\<close>

fun batch_update :: "int \<times> int \<Rightarrow> (batch_task \<Rightarrow> batch_task) \<Rightarrow> batches \<Rightarrow> batches" where
  "batch_update i f [] = [(i, f batch_new)]"
| "batch_update i f ((j, b) # bs) =
     (if i = j then (j, f b) # bs
      else if spatial_id_less i j then (i, f batch_new) # (j, b) # bs
      else (j, b) # batch_update i f bs)"

definition plane :: "position \<Rightarrow> rat \<times> rat" where
  "plane p = (fst p, fst (snd p))"

definition add_batch_item :: "entity_id \<Rightarrow> rat \<times> rat \<Rightarrow> rat \<Rightarrow> nat \<Rightarrow> nat \<Rightarrow> batch_task \<Rightarrow> batch_task" where
  "add_batch_item i p r s q b =
     (let v = (case quad_partition b ! q of None \<Rightarrow> \<lparr>quad_mbr = EmptyBox, quad_items = []\<rparr> | Some v \<Rightarrow> v);
          v' = \<lparr>quad_mbr = mbr_extend (quad_mbr v) (mbr_around p r), quad_items = quad_items v @ [(i, p)]\<rparr>
      in b\<lparr>batch_sector := s, quad_partition := (quad_partition b)[q := Some v']\<rparr>)"

text \<open>The first loop of \<^verbatim>\<open>Scan()\<close>: a task without a position is erased.\<close>

fun collect ::
  "(entity_id \<Rightarrow> position option) \<Rightarrow> spatial_container \<Rightarrow> scan_tasks \<Rightarrow> batches \<Rightarrow> fault + scan_tasks \<times> batches" where
  "collect loc c [] bs = Inr ([], bs)"
| "collect loc c ((i, t) # ts) bs =
     (case loc i of
        None \<Rightarrow> collect loc c ts bs
      | Some pos \<Rightarrow>
          and_then (get_sector pos c) (\<lambda>s.
          case center (sectors c ! s) of
            None \<Rightarrow> Inl NullDeref
          | Some k \<Rightarrow>
              let p = plane pos;
                  bs' = batch_update (sector_id (sectors c ! s))
                          (add_batch_item i p (task_radius t) s (quad_index p (cells c ! k))) bs
              in and_then (collect loc c ts bs') (\<lambda>(ts', bs''). Inr ((i, t\<lparr>task_result := {}\<rparr>) # ts', bs''))))"

subsection \<open>The search\<close>

definition distance_sq :: "rat \<times> rat \<Rightarrow> rat \<times> rat \<Rightarrow> rat" where
  "distance_sq p q = (fst p - fst q) * (fst p - fst q) + (snd p - snd q) * (snd p - snd q)"

definition scan_entity ::
  "(entity_id \<Rightarrow> position option) \<Rightarrow> rat \<times> rat \<Rightarrow> rat \<Rightarrow> entity_id \<Rightarrow> entity_id set \<Rightarrow> fault + entity_id set" where
  "scan_entity loc p rr e found =
     (case loc e of
        None \<Rightarrow> Inl NullDeref
      | Some q \<Rightarrow> Inr (if distance_sq p (plane q) \<le> rr then insert e found else found))"

definition scan_type ::
  "(entity_id \<Rightarrow> position option) \<Rightarrow> spatial_cell \<Rightarrow> rat \<times> rat \<Rightarrow> rat \<Rightarrow> entity_type \<Rightarrow> entity_id set \<Rightarrow> fault + entity_id set" where
  "scan_type loc cell p r ty found =
     (if \<not> cell_has_type ty cell then Inr found
      else each (scan_entity loc p (r * r)) (cell_entities cell ty) found)"

definition set_result :: "entity_id \<Rightarrow> entity_id set \<Rightarrow> scan_tasks \<Rightarrow> scan_tasks" where
  "set_result i found ts = map (\<lambda>(j, t). (j, if j = i then t\<lparr>task_result := found\<rparr> else t)) ts"

definition scan_item ::
  "(entity_id \<Rightarrow> position option) \<Rightarrow> spatial_cell \<Rightarrow> entity_id \<times> rat \<times> rat \<Rightarrow> scan_tasks \<Rightarrow> fault + scan_tasks" where
  "scan_item loc cell item ts =
     (case item of (i, p) \<Rightarrow>
        case map_of ts i of
          None \<Rightarrow> Inl UseAfterFree
        | Some t \<Rightarrow>
            if \<not> mbr_intersect (mbr_around p (task_radius t)) (cell_mbr cell) then Inr ts
            else and_then (each (scan_type loc cell p (task_radius t)) (target_types t) (task_result t))
                   (\<lambda>found. Inr (set_result i found ts)))"

definition scan_cell ::
  "(entity_id \<Rightarrow> position option) \<Rightarrow> quad_batch \<Rightarrow> spatial_cell \<Rightarrow> scan_tasks \<Rightarrow> fault + scan_tasks" where
  "scan_cell loc v cell ts =
     (if \<not> mbr_intersect (quad_mbr v) (cell_mbr cell) then Inr ts
      else each (scan_item loc cell) (quad_items v) ts)"

definition scan_quad ::
  "(entity_id \<Rightarrow> position option) \<Rightarrow> spatial_container \<Rightarrow> nat \<Rightarrow> quad_batch \<Rightarrow> scan_tasks \<Rightarrow> fault + scan_tasks" where
  "scan_quad loc c s v = each (\<lambda>k. scan_cell loc v (cells c ! k)) (sector_cells (sectors c ! s))"

definition scan_batch ::
  "(entity_id \<Rightarrow> position option) \<Rightarrow> spatial_container \<Rightarrow> batch_task \<Rightarrow> scan_tasks \<Rightarrow> fault + scan_tasks" where
  "scan_batch loc c b =
     each (scan_quad loc c (batch_sector b)) (map the (filter (\<lambda>v. v \<noteq> None) (quad_partition b)))"

definition scan :: "(entity_id \<Rightarrow> position option) \<Rightarrow> spatial_container \<Rightarrow> scan_tasks \<Rightarrow> fault + scan_tasks" where
  "scan loc c ts =
     and_then (collect loc c ts []) (\<lambda>(ts', bs). each (scan_batch loc c) (map snd bs) ts')"

subsection \<open>The search it stands for\<close>

text \<open>All entities within the radius, whatever the grid.\<close>

definition in_radius :: "(entity_id \<Rightarrow> position option) \<Rightarrow> rat \<times> rat \<Rightarrow> rat \<Rightarrow> entity_id \<Rightarrow> bool" where
  "in_radius loc p r e \<longleftrightarrow> (case loc e of None \<Rightarrow> False | Some q \<Rightarrow> distance_sq p (plane q) \<le> r * r)"

definition search_all ::
  "(entity_id \<Rightarrow> position option) \<Rightarrow> entity_id list \<Rightarrow> entity_id \<times> scan_task \<Rightarrow> entity_id \<times> scan_task" where
  "search_all loc es = (\<lambda>(i, t). (i, t\<lparr>task_result :=
     (case loc i of None \<Rightarrow> {} | Some p \<Rightarrow>
        set (filter (\<lambda>e. entity_type e \<in> set (target_types t) \<and> in_radius loc (plane p) (task_radius t) e) es))\<rparr>))"

text \<open>The grid lists exactly the entities \<open>es\<close>, each in the cell of its position, and they are inside the area.\<close>

definition in_area :: "spatial_container \<Rightarrow> position \<Rightarrow> bool" where
  "in_area c p \<longleftrightarrow> 0 \<le> fst p + positionOffset \<and> fst p + positionOffset \<le> of_int (area_width c)
     \<and> 0 \<le> fst (snd p) + positionOffset \<and> fst (snd p) + positionOffset \<le> of_int (area_height c)"

definition registered_at :: "(entity_id \<Rightarrow> position option) \<Rightarrow> entity_id list \<Rightarrow> spatial_container \<Rightarrow> bool" where
  "registered_at loc es c \<longleftrightarrow>
     (\<forall>e \<in> set es. case loc e of None \<Rightarrow> False
        | Some p \<Rightarrow> in_area c p \<and> e \<in> set (listed (sector_of p c) c (entity_type e)))
     \<and> (\<forall>k \<in> set [0..<length (cells c)]. \<forall>ty \<in> set [PlayerEntity, MonsterEntity, SpawnerEntity]. \<forall>e \<in> set (listed k c ty).
          e \<in> set es \<and> entity_type e = ty \<and> (case loc e of None \<Rightarrow> False | Some p \<Rightarrow> sector_of p c = k))"

subsection \<open>What the loops add to the results\<close>

definition shape :: "scan_tasks \<Rightarrow> (entity_id \<times> rat \<times> entity_type list) list" where
  "shape ts = map (\<lambda>(i, t). (i, task_radius t, target_types t)) ts"

definition gain :: "(entity_id \<Rightarrow> entity_id set) \<Rightarrow> scan_tasks \<Rightarrow> scan_tasks" where
  "gain g ts = map (\<lambda>(i, t). (i, t\<lparr>task_result := task_result t \<union> g i\<rparr>)) ts"

lemma shape_gain [simp]: "shape (gain g ts) = shape ts"
  by (auto simp: shape_def gain_def)

lemma gain_gain [simp]: "gain g (gain h ts) = gain (\<lambda>i. h i \<union> g i) ts"
  by (auto simp: gain_def Un_assoc)

lemma gain_none [simp]: "gain (\<lambda>_. {}) ts = ts"
  by (auto simp: gain_def intro!: map_idI)

lemma gain_eq: "(\<And>i. i \<in> fst ` set ts \<Longrightarrow> g i = h i) \<Longrightarrow> gain g ts = gain h ts"
  by (force simp: gain_def)

lemma map_fst_shape: "map fst (shape ts) = map fst ts"
  by (auto simp: shape_def)

lemma map_of_shape: "map_of (shape ts) i = map_option (\<lambda>t. (task_radius t, target_types t)) (map_of ts i)"
  by (induction ts) (auto simp: shape_def)

lemma each_gain:
  assumes "\<And>x ts. x \<in> set xs \<Longrightarrow> shape ts = sh \<Longrightarrow> f x ts = Inr (gain (g x) ts)" "shape ts = sh"
  shows "each f xs ts = Inr (gain (\<lambda>j. \<Union>x \<in> set xs. g x j) ts)"
  using assms by (induction xs arbitrary: ts) simp_all

lemma each_union:
  assumes "\<And>x s. x \<in> set xs \<Longrightarrow> f x s = Inr (s \<union> g x)"
  shows "each f xs s = Inr (s \<union> (\<Union>x \<in> set xs. g x))"
  using assms by (induction xs arbitrary: s) (simp_all add: Un_assoc)

definition hits :: "(entity_id \<Rightarrow> position option) \<Rightarrow> spatial_cell \<Rightarrow> rat \<times> rat \<Rightarrow> rat \<Rightarrow> entity_type list \<Rightarrow> entity_id set" where
  "hits loc cell p r tys =
     (\<Union>ty \<in> set tys. {e. e \<in> set (cell_entities cell ty) \<and> in_radius loc p r e})"

definition cell_known :: "(entity_id \<Rightarrow> position option) \<Rightarrow> spatial_cell \<Rightarrow> bool" where
  "cell_known loc cell \<longleftrightarrow> (\<forall>ty. \<forall>e \<in> set (cell_entities cell ty). loc e \<noteq> None)"

lemma scan_type_eq:
  assumes "cell_known loc cell"
  shows "scan_type loc cell p r ty found = Inr (found \<union> {e. e \<in> set (cell_entities cell ty) \<and> in_radius loc p r e})"
proof -
  have "each (scan_entity loc p (r * r)) (cell_entities cell ty) found
    = Inr (found \<union> (\<Union>e \<in> set (cell_entities cell ty). if in_radius loc p r e then {e} else {}))"
    using assms by (intro each_union) (auto simp: cell_known_def scan_entity_def in_radius_def split: option.split)
  moreover have "(\<Union>e \<in> set (cell_entities cell ty). if in_radius loc p r e then {e} else {})
    = {e. e \<in> set (cell_entities cell ty) \<and> in_radius loc p r e}" by auto
  ultimately show ?thesis by (simp add: scan_type_def cell_has_type_def)
qed

definition item_gain ::
  "(entity_id \<Rightarrow> position option) \<Rightarrow> spatial_cell \<Rightarrow> (entity_id \<times> rat \<times> entity_type list) list
     \<Rightarrow> entity_id \<times> rat \<times> rat \<Rightarrow> entity_id \<Rightarrow> entity_id set" where
  "item_gain loc cell sh item j =
     (case item of (i, p) \<Rightarrow> case map_of sh i of
        Some (r, tys) \<Rightarrow> if j = i \<and> mbr_intersect (mbr_around p r) (cell_mbr cell) then hits loc cell p r tys else {}
      | None \<Rightarrow> {})"

lemma set_result_gain:
  assumes "distinct (map fst ts)" "map_of ts i = Some t"
  shows "set_result i (task_result t \<union> H) ts = gain (\<lambda>j. if j = i then H else {}) ts"
  using assms by (auto simp: set_result_def gain_def dest: map_of_SomeD eq_key_imp_eq_value)

lemma scan_item_eq:
  assumes "cell_known loc cell" "shape ts = sh" "distinct (map fst sh)" "fst item \<in> fst ` set sh"
  shows "scan_item loc cell item ts = Inr (gain (item_gain loc cell sh item) ts)"
proof -
  obtain i p where item: "item = (i, p)" by (cases item)
  have d: "distinct (map fst ts)" "i \<in> fst ` set ts"
    using assms(2-4) item map_fst_shape [of ts] by (simp, metis fst_conv set_map)
  then obtain t where t: "map_of ts i = Some t" by (metis map_of_eq_None_iff not_None_eq)
  have m: "map_of sh i = Some (task_radius t, target_types t)"
    using map_of_shape [of ts i] t assms(2) by simp
  have "each (scan_type loc cell p (task_radius t)) (target_types t) (task_result t)
    = Inr (task_result t \<union> hits loc cell p (task_radius t) (target_types t))"
    unfolding hits_def by (rule each_union) (rule scan_type_eq [OF assms(1)])
  moreover have "gain (item_gain loc cell sh item) ts
    = gain (\<lambda>j. if j = i then (if mbr_intersect (mbr_around p (task_radius t)) (cell_mbr cell)
        then hits loc cell p (task_radius t) (target_types t) else {}) else {}) ts"
    by (rule gain_eq) (simp add: item_gain_def item m)
  moreover have "gain (\<lambda>j. if j = i then {} else {}) ts = ts" by simp
  ultimately show ?thesis
    by (auto simp: scan_item_def item t set_result_gain [OF d(1) t])
qed

definition cell_gain ::
  "(entity_id \<Rightarrow> position option) \<Rightarrow> (entity_id \<times> rat \<times> entity_type list) list \<Rightarrow> quad_batch \<Rightarrow> spatial_cell
     \<Rightarrow> entity_id \<Rightarrow> entity_id set" where
  "cell_gain loc sh v cell j =
     (if mbr_intersect (quad_mbr v) (cell_mbr cell) then \<Union>item \<in> set (quad_items v). item_gain loc cell sh item j else {})"

lemma scan_cell_eq:
  assumes "cell_known loc cell" "shape ts = sh" "distinct (map fst sh)" "\<forall>item \<in> set (quad_items v). fst item \<in> fst ` set sh"
  shows "scan_cell loc v cell ts = Inr (gain (cell_gain loc sh v cell) ts)"
proof -
  have "each (scan_item loc cell) (quad_items v) ts
    = Inr (gain (\<lambda>j. \<Union>item \<in> set (quad_items v). item_gain loc cell sh item j) ts)"
    using assms by (intro each_gain [where sh = sh] scan_item_eq) auto
  moreover have "gain (cell_gain loc sh v cell) ts = gain (if mbr_intersect (quad_mbr v) (cell_mbr cell)
      then \<lambda>j. \<Union>item \<in> set (quad_items v). item_gain loc cell sh item j else (\<lambda>_. {})) ts"
    by (rule gain_eq) (simp add: cell_gain_def)
  ultimately show ?thesis by (simp add: scan_cell_def)
qed

subsection \<open>What the batches hold\<close>

definition has_item :: "batches \<Rightarrow> entity_id \<times> rat \<times> rat \<Rightarrow> bool" where
  "has_item bs item \<longleftrightarrow> (\<exists>(i, b) \<in> set bs. \<exists>v. Some v \<in> set (quad_partition b) \<and> item \<in> set (quad_items v))"

definition item_ok ::
  "(entity_id \<Rightarrow> position option) \<Rightarrow> spatial_container \<Rightarrow> (entity_id \<times> rat \<times> entity_type list) list \<Rightarrow> nat \<Rightarrow> mbr
     \<Rightarrow> entity_id \<times> rat \<times> rat \<Rightarrow> bool" where
  "item_ok loc c sh s m item \<longleftrightarrow> (\<exists>r tys pos. map_of sh (fst item) = Some (r, tys) \<and> loc (fst item) = Some pos
     \<and> snd item = plane pos \<and> sector_of pos c = s
     \<and> (\<forall>box. mbr_intersect (mbr_around (snd item) r) box \<longrightarrow> mbr_intersect m box))"

definition quad_ok ::
  "(entity_id \<Rightarrow> position option) \<Rightarrow> spatial_container \<Rightarrow> (entity_id \<times> rat \<times> entity_type list) list \<Rightarrow> nat \<Rightarrow> quad_batch \<Rightarrow> bool" where
  "quad_ok loc c sh s v \<longleftrightarrow> (\<forall>item \<in> set (quad_items v). item_ok loc c sh s (quad_mbr v) item)"

definition batch_ok ::
  "(entity_id \<Rightarrow> position option) \<Rightarrow> spatial_container \<Rightarrow> (entity_id \<times> rat \<times> entity_type list) list
     \<Rightarrow> nat \<Rightarrow> (int \<times> int) \<times> batch_task \<Rightarrow> bool" where
  "batch_ok loc c sh n = (\<lambda>(i, b). length (quad_partition b) = 4 \<and> batch_sector b < n * n \<and> i = place_of n (batch_sector b)
     \<and> (\<forall>v. Some v \<in> set (quad_partition b) \<longrightarrow> quad_ok loc c sh (batch_sector b) v))"

lemma extend_intersect:
  "mbr_intersect a box \<Longrightarrow> mbr_intersect (mbr_extend a b) box"
  "mbr_intersect b box \<Longrightarrow> mbr_intersect (mbr_extend a b) box"
  by (cases a; cases b; cases box; auto simp: min_le_iff_disj le_max_iff_disj)+

lemma quad_index_less: "quad_index p cell < 4"
  by (simp add: quad_index_def)

lemma batch_update_all:
  assumes "\<forall>x \<in> set bs. P x" "P (i, f batch_new)" "\<And>b. P (i, b) \<Longrightarrow> P (i, f b)"
  shows "\<forall>x \<in> set (batch_update i f bs). P x"
  using assms by (induction i f bs rule: batch_update.induct) auto

lemma batch_update_keeps:
  "(j, b) \<in> set bs \<Longrightarrow> (j, b) \<in> set (batch_update i f bs) \<or> j = i \<and> (j, f b) \<in> set (batch_update i f bs)"
  by (induction i f bs rule: batch_update.induct) auto

lemma batch_update_new: "(i, f batch_new) \<in> set (batch_update i f bs) \<or> (\<exists>b. (i, b) \<in> set bs \<and> (i, f b) \<in> set (batch_update i f bs))"
  by (induction i f bs rule: batch_update.induct) auto

lemma add_item_quads:
  assumes "q < length (quad_partition b)"
  shows "Some v \<in> set (quad_partition b) \<Longrightarrow> item \<in> set (quad_items v)
      \<Longrightarrow> \<exists>v'. Some v' \<in> set (quad_partition (add_batch_item i p r s q b)) \<and> item \<in> set (quad_items v')"
    and "\<exists>v'. Some v' \<in> set (quad_partition (add_batch_item i p r s q b)) \<and> (i, p) \<in> set (quad_items v')"
proof -
  let ?v = "case quad_partition b ! q of None \<Rightarrow> \<lparr>quad_mbr = EmptyBox, quad_items = []\<rparr> | Some v \<Rightarrow> v"
  let ?v' = "\<lparr>quad_mbr = mbr_extend (quad_mbr ?v) (mbr_around p r), quad_items = quad_items ?v @ [(i, p)]\<rparr>"
  have q: "quad_partition (add_batch_item i p r s q b) = (quad_partition b)[q := Some ?v']"
    by (simp add: add_batch_item_def Let_def)
  have new: "Some ?v' \<in> set (quad_partition (add_batch_item i p r s q b))"
    using assms q by (simp add: set_update_memI)
  then show "\<exists>v'. Some v' \<in> set (quad_partition (add_batch_item i p r s q b)) \<and> (i, p) \<in> set (quad_items v')"
    by (intro exI [of _ ?v']) simp
  assume v: "Some v \<in> set (quad_partition b)" "item \<in> set (quad_items v)"
  then obtain m where m: "m < length (quad_partition b)" "quad_partition b ! m = Some v" by (auto simp: in_set_conv_nth)
  show "\<exists>v'. Some v' \<in> set (quad_partition (add_batch_item i p r s q b)) \<and> item \<in> set (quad_items v')"
  proof (cases "m = q")
    case True
    with new v(2) m show ?thesis by (intro exI [of _ ?v']) simp
  next
    case False
    with m q have "quad_partition (add_batch_item i p r s q b) ! m = Some v" by simp
    with m(1) v(2) q show ?thesis by (metis length_list_update nth_mem)
  qed
qed

lemma quad_ok_extend:
  assumes v: "quad_ok loc c sh s v" and i: "map_of sh i = Some (r, tys)" "loc i = Some pos" "sector_of pos c = s"
  shows "quad_ok loc c sh s \<lparr>quad_mbr = mbr_extend (quad_mbr v) (mbr_around (plane pos) r),
    quad_items = quad_items v @ [(i, plane pos)]\<rparr>"
proof -
  have "item_ok loc c sh s (mbr_extend (quad_mbr v) m) item" if "item_ok loc c sh s (quad_mbr v) item" for m item
    using that extend_intersect(1) unfolding item_ok_def by blast
  moreover have "item_ok loc c sh s (mbr_extend (quad_mbr v) (mbr_around (plane pos) r)) (i, plane pos)"
    unfolding item_ok_def using i extend_intersect(2) by auto
  ultimately show ?thesis using v by (auto simp: quad_ok_def)
qed

lemma add_item_ok:
  assumes ok: "\<forall>v. Some v \<in> set (quad_partition b) \<longrightarrow> quad_ok loc c sh s v"
    and q: "q < length (quad_partition b)"
    and i: "map_of sh i = Some (r, tys)" "loc i = Some pos" "sector_of pos c = s"
    and v': "Some v' \<in> set (quad_partition (add_batch_item i (plane pos) r s q b))"
  shows "quad_ok loc c sh s v'"
proof (cases "Some v' \<in> set (quad_partition b)")
  case False
  let ?v = "case quad_partition b ! q of None \<Rightarrow> \<lparr>quad_mbr = EmptyBox, quad_items = []\<rparr> | Some v \<Rightarrow> v"
  from False v' have e: "v' = \<lparr>quad_mbr = mbr_extend (quad_mbr ?v) (mbr_around (plane pos) r), quad_items = quad_items ?v @ [(i, plane pos)]\<rparr>"
    using set_update_subset_insert by (fastforce simp: add_batch_item_def Let_def)
  have "quad_ok loc c sh s ?v"
  proof (cases "quad_partition b ! q")
    case (Some v)
    then show ?thesis using ok q nth_mem [OF q] by simp
  qed (simp add: quad_ok_def)
  then show ?thesis unfolding e by (rule quad_ok_extend) (rule i)+
qed (use ok in blast)

lemma batch_step_ok:
  assumes n: "0 < n" and s: "s < n * n" and ok: "\<forall>x \<in> set bs. batch_ok loc c sh n x"
    and i: "map_of sh i = Some (r, tys)" "loc i = Some pos" "sector_of pos c = s" and q: "q < 4"
  shows "\<forall>x \<in> set (batch_update (place_of n s) (add_batch_item i (plane pos) r s q) bs). batch_ok loc c sh n x"
proof (rule batch_update_all [OF ok])
  have len: "length (quad_partition (add_batch_item i (plane pos) r s q b)) = length (quad_partition b)"
    "batch_sector (add_batch_item i (plane pos) r s q b) = s" for b
    by (simp_all add: add_batch_item_def Let_def)
  show "batch_ok loc c sh n (place_of n s, add_batch_item i (plane pos) r s q batch_new)"
    using add_item_ok [of batch_new loc c sh s q i r tys pos] i q s by (auto simp: batch_ok_def len batch_new_def)
  fix b assume b: "batch_ok loc c sh n (place_of n s, b)"
  then have "batch_sector b = s" using place_inj [OF n] by (auto simp: batch_ok_def)
  with b show "batch_ok loc c sh n (place_of n s, add_batch_item i (plane pos) r s q b)"
    using add_item_ok [of b loc c sh s q i r tys pos] i q s by (auto simp: batch_ok_def len)
qed

lemma batch_step_items:
  assumes "\<forall>x \<in> set bs. batch_ok loc c sh n x" "q < 4"
  shows "has_item bs item \<Longrightarrow> has_item (batch_update j (add_batch_item i p r s q) bs) item"
    and "has_item (batch_update j (add_batch_item i p r s q) bs) (i, p)"
proof -
  have len: "length (quad_partition b) = 4" if "(k, b) \<in> set bs" for k b using assms(1) that by (auto simp: batch_ok_def)
  obtain b where b: "(j, add_batch_item i p r s q b) \<in> set (batch_update j (add_batch_item i p r s q) bs)" "q < length (quad_partition b)"
    using batch_update_new [of j "add_batch_item i p r s q" bs] len [of j] assms(2)
    by (cases "(j, add_batch_item i p r s q batch_new) \<in> set (batch_update j (add_batch_item i p r s q) bs)")
      (auto simp: batch_new_def dest: that)
  with add_item_quads(2) [OF b(2)] show "has_item (batch_update j (add_batch_item i p r s q) bs) (i, p)"
    unfolding has_item_def by (metis (no_types, lifting) case_prodI)
  assume "has_item bs item"
  then obtain k b v where "(k, b) \<in> set bs" "Some v \<in> set (quad_partition b)" "item \<in> set (quad_items v)"
    by (auto simp: has_item_def)
  then show "has_item (batch_update j (add_batch_item i p r s q) bs) item"
    using batch_update_keeps [of k b bs j "add_batch_item i p r s q"] add_item_quads(1) [of q b v item i p r s] len [of k b] assms(2)
    unfolding has_item_def by (metis (no_types, lifting) case_prodI)
qed

definition cleared :: "(entity_id \<Rightarrow> position option) \<Rightarrow> scan_tasks \<Rightarrow> scan_tasks" where
  "cleared loc ts = map (\<lambda>(i, t). (i, t\<lparr>task_result := {}\<rparr>)) (filter (\<lambda>(i, t). loc i \<noteq> None) ts)"

lemma collect_ok:
  assumes c: "square_grid n c"
  shows "\<forall>(i, t) \<in> set ts. loc i \<noteq> None \<longrightarrow> map_of sh i = Some (task_radius t, target_types t)
    \<Longrightarrow> \<forall>x \<in> set bs. batch_ok loc c sh n x
    \<Longrightarrow> \<exists>bs'. collect loc c ts bs = Inr (cleared loc ts, bs') \<and> (\<forall>x \<in> set bs'. batch_ok loc c sh n x)
      \<and> (\<forall>item. has_item bs item \<longrightarrow> has_item bs' item)
      \<and> (\<forall>(i, t) \<in> set ts. \<forall>pos. loc i = Some pos \<longrightarrow> has_item bs' (i, plane pos))"
proof (induction ts arbitrary: bs)
  case Nil
  then show ?case by (simp add: cleared_def)
next
  case (Cons it ts)
  obtain i t where it: "it = (i, t)" by (cases it)
  show ?case
  proof (cases "loc i")
    case None
    with Cons.IH [of bs] Cons.prems show ?thesis by (auto simp: it cleared_def)
  next
    case (Some pos)
    let ?s = "sector_of pos c"
    let ?q = "quad_index (plane pos) (cells c ! ?s)"
    let ?bs = "batch_update (place_of n ?s) (add_batch_item i (plane pos) (task_radius t) ?s ?q) bs"
    have s: "?s < n * n" and n: "0 < n" using sector_of_less [OF c] c by (simp_all add: square_grid_def)
    have i: "map_of sh i = Some (task_radius t, target_types t)" using Cons.prems(1) Some by (simp add: it)
    have ok: "\<forall>x \<in> set ?bs. batch_ok loc c sh n x"
      by (rule batch_step_ok [OF n s Cons.prems(2) i Some refl quad_index_less])
    obtain bs' where bs': "collect loc c ts ?bs = Inr (cleared loc ts, bs')" "\<forall>x \<in> set bs'. batch_ok loc c sh n x"
        "\<forall>item. has_item ?bs item \<longrightarrow> has_item bs' item"
        "\<forall>(i, t) \<in> set ts. \<forall>pos. loc i = Some pos \<longrightarrow> has_item bs' (i, plane pos)"
      using Cons.IH [OF _ ok] Cons.prems(1) by auto
    have "collect loc c (it # ts) bs = Inr (cleared loc (it # ts), bs')"
      using bs'(1) Some by (simp add: it get_sector_ok [OF c] sector_at_index [OF c s] Let_def cleared_def)
    moreover have "has_item bs' (i, plane pos)"
      using bs'(3) batch_step_items(2) [OF Cons.prems(2) quad_index_less] by blast
    moreover have "\<forall>item. has_item bs item \<longrightarrow> has_item bs' item"
      using bs'(3) batch_step_items(1) [OF Cons.prems(2) quad_index_less] by blast
    ultimately show ?thesis using bs'(2,4) Some by (intro exI [of _ bs']) (auto simp: it)
  qed
qed

text \<open>What all batches together add to the result of \<open>j\<close>.\<close>

definition all_gain ::
  "(entity_id \<Rightarrow> position option) \<Rightarrow> spatial_container \<Rightarrow> nat \<Rightarrow> (entity_id \<times> rat \<times> entity_type list) list \<Rightarrow> batches
     \<Rightarrow> entity_id \<Rightarrow> entity_id set" where
  "all_gain loc c n sh bs j = (\<Union>b \<in> set (map snd bs). \<Union>v \<in> set (map the (filter (\<lambda>v. v \<noteq> None) (quad_partition b))).
     \<Union>k \<in> set (near n (batch_sector b)). cell_gain loc sh v (cells c ! k) j)"

lemma quads_of: "set (map the (filter (\<lambda>v. v \<noteq> None) vs)) = {v. Some v \<in> set vs}"
  by force

lemma scan_batches_eq:
  assumes c: "square_grid n c" and known: "\<forall>k < n * n. cell_known loc (cells c ! k)"
    and sh: "shape ts = sh" "distinct (map fst sh)" and ok: "\<forall>x \<in> set bs. batch_ok loc c sh n x"
  shows "each (scan_batch loc c) (map snd bs) ts = Inr (gain (all_gain loc c n sh bs) ts)"
  unfolding all_gain_def
proof (rule each_gain [OF _ sh(1)])
  fix b and ts :: scan_tasks assume b: "b \<in> set (map snd bs)" and ts: "shape ts = sh"
  then obtain i where "(i, b) \<in> set bs" by auto
  with ok have s: "batch_sector b < n * n"
    and quads: "\<And>v. Some v \<in> set (quad_partition b) \<Longrightarrow> quad_ok loc c sh (batch_sector b) v"
    by (auto simp: batch_ok_def)
  show "scan_batch loc c b ts = Inr (gain (\<lambda>j. \<Union>v \<in> set (map the (filter (\<lambda>v. v \<noteq> None) (quad_partition b))).
     \<Union>k \<in> set (near n (batch_sector b)). cell_gain loc sh v (cells c ! k) j) ts)"
    unfolding scan_batch_def
  proof (rule each_gain [OF _ ts])
    fix v and ts :: scan_tasks assume v: "v \<in> set (map the (filter (\<lambda>v. v \<noteq> None) (quad_partition b)))" and ts: "shape ts = sh"
    then have "\<forall>item \<in> set (quad_items v). fst item \<in> fst ` set sh"
      using quads unfolding quads_of quad_ok_def item_ok_def by (metis (no_types, lifting) fst_conv image_eqI map_of_SomeD mem_Collect_eq)
    then show "scan_quad loc c (batch_sector b) v ts =
        Inr (gain (\<lambda>j. \<Union>k \<in> set (near n (batch_sector b)). cell_gain loc sh v (cells c ! k) j) ts)"
      unfolding scan_quad_def using known
      by (simp add: sector_at_index [OF c s] each_gain [OF _ ts] scan_cell_eq sh(2) near_less)
  qed
qed

lemma all_gain_eq:
  assumes ok: "\<forall>x \<in> set bs. batch_ok loc c sh n x"
    and j: "map_of sh j = Some (r, tys)" "loc j = Some pos" "has_item bs (j, plane pos)"
  shows "all_gain loc c n sh bs j = (\<Union>k \<in> set (near n (sector_of pos c)).
    if mbr_intersect (mbr_around (plane pos) r) (cell_mbr (cells c ! k)) then hits loc (cells c ! k) (plane pos) r tys else {})"
    (is "_ = (\<Union>k \<in> _. ?h k)")
proof (intro equalityI subsetI)
  fix e assume "e \<in> all_gain loc c n sh bs j"
  then obtain i b v k item where b: "(i, b) \<in> set bs" "Some v \<in> set (quad_partition b)" "k \<in> set (near n (batch_sector b))"
      and item: "item \<in> set (quad_items v)" "e \<in> item_gain loc (cells c ! k) sh item j"
    unfolding all_gain_def quads_of by (auto simp: cell_gain_def split: if_splits)
  from item(2) have "fst item = j" by (auto simp: item_gain_def split: prod.splits option.splits if_splits)
  moreover have "item_ok loc c sh (batch_sector b) (quad_mbr v) item"
    using ok b item(1) by (fastforce simp: batch_ok_def quad_ok_def)
  ultimately have "item = (j, plane pos)" "sector_of pos c = batch_sector b" using j by (auto simp: item_ok_def prod_eq_iff)
  with b(3) item(2) j(1) show "e \<in> (\<Union>k \<in> set (near n (sector_of pos c)). ?h k)" by (auto simp: item_gain_def split: if_splits)
next
  fix e assume "e \<in> (\<Union>k \<in> set (near n (sector_of pos c)). ?h k)"
  then obtain k where k: "k \<in> set (near n (sector_of pos c))" "mbr_intersect (mbr_around (plane pos) r) (cell_mbr (cells c ! k))"
      "e \<in> hits loc (cells c ! k) (plane pos) r tys" by (auto split: if_splits)
  obtain i b v where b: "(i, b) \<in> set bs" "Some v \<in> set (quad_partition b)" "(j, plane pos) \<in> set (quad_items v)"
    using j(3) by (auto simp: has_item_def)
  then have "item_ok loc c sh (batch_sector b) (quad_mbr v) (j, plane pos)"
    using ok by (fastforce simp: batch_ok_def quad_ok_def)
  then have "sector_of pos c = batch_sector b" "mbr_intersect (quad_mbr v) (cell_mbr (cells c ! k))"
    using j k(2) by (auto simp: item_ok_def)
  then have "e \<in> cell_gain loc sh v (cells c ! k) j"
    using b(3) k(2,3) j(1) by (auto simp: cell_gain_def item_gain_def intro!: bexI [of _ "(j, plane pos)"])
  then show "e \<in> all_gain loc c n sh bs j"
    using b(1,2) k(1) \<open>sector_of pos c = batch_sector b\<close> unfolding all_gain_def quads_of by force
qed

subsection \<open>Where an entity within the radius is listed\<close>

lemma truncate32_inside:
  assumes "0 \<le> r" "r \<le> of_int w" "w < 2 ^ 31"
  shows "clamp (truncate32 r) 0 w = floor r"
proof -
  have "0 \<le> floor r" "floor r \<le> w" using assms by (simp_all add: floor_le_iff)
  with assms show ?thesis by (simp add: truncate32_def Let_def clamp_def)
qed

lemma floor_div_bounds:
  assumes "0 < len"
  shows "of_int (floor r div len * len) \<le> r \<and> r \<le> of_int (floor r div len * len) + (of_int len :: rat)"
proof -
  have "floor r div len * len \<le> floor r" using div_mult_mod_eq [of "floor r" len] pos_mod_sign [OF assms, of "floor r"] by linarith
  moreover have "floor r + 1 \<le> floor r div len * len + len"
    using div_mult_mod_eq [of "floor r" len] pos_mod_bound [OF assms, of "floor r"] by linarith
  then have "r \<le> of_int (floor r div len * len + len)" by (meson floor_less_iff less_imp_le zle_add1_eq_le add1_zle_eq)
  ultimately show ?thesis by (metis le_floor_iff of_int_add)
qed

lemma floor_div_near:
  fixes r s :: rat
  assumes "0 < len" "\<bar>r - s\<bar> \<le> of_int len"
  shows "\<bar>floor r div len - floor s div len\<bar> \<le> 1"
proof -
  have step: "floor a div len \<le> floor b div len + 1" if "a \<le> b + of_int len" for a b :: rat
  proof -
    have "floor a \<le> floor b + len" using floor_mono [OF that] by simp
    then have "floor a div len \<le> (floor b + len) div len" using assms(1) by (rule zdiv_mono1)
    with assms(1) show ?thesis by simp
  qed
  from assms(2) have "r \<le> s + of_int len" "s \<le> r + of_int len" by linarith+
  from step [OF this(1)] step [OF this(2)] show ?thesis by linarith
qed

lemma distance_bounds:
  assumes "distance_sq p q \<le> r * r" "0 \<le> r"
  shows "\<bar>fst p - fst q\<bar> \<le> r \<and> \<bar>snd p - snd q\<bar> \<le> r"
proof -
  have "(fst p - fst q) * (fst p - fst q) \<le> r * r" "(snd p - snd q) * (snd p - snd q) \<le> r * r"
    using assms(1) zero_le_square [of "fst p - fst q"] zero_le_square [of "snd p - snd q"]
    unfolding distance_sq_def by linarith+
  then show ?thesis using assms(2) abs_le_square_iff [of _ r] by (simp add: power2_eq_square)
qed

lemma index_inside:
  assumes "in_area c p" "area_width c < 2 ^ 31" "area_height c < 2 ^ 31"
  shows "calculate_x_index (fst p) c = floor (fst p + positionOffset) div lengthPerGrid c"
    "calculate_y_index (fst (snd p)) c = floor (fst (snd p) + positionOffset) div lengthPerGrid c"
  using assms by (simp_all add: in_area_def calculate_x_index_def calculate_y_index_def truncate32_inside)

lemma within_is_near:
  assumes c: "square_grid n c" "area_width c < 2 ^ 31" "area_height c < 2 ^ 31"
    and p: "in_area c p" and q: "in_area c q"
    and r: "distance_sq (plane p) (plane q) \<le> r * r" "0 \<le> r" "r \<le> of_int (lengthPerGrid c)"
  shows "sector_of q c \<in> set (near n (sector_of p c))"
    and "mbr_intersect (mbr_around (plane p) r) (cell_mbr (cells c ! sector_of q c))"
proof -
  have len: "0 < lengthPerGrid c" using c(1) by (simp add: square_grid_def)
  have d: "\<bar>fst p - fst q\<bar> \<le> r" "\<bar>fst (snd p) - fst (snd q)\<bar> \<le> r"
    using distance_bounds [OF r(1,2)] by (simp_all add: plane_def)
  have places: "place_of n (sector_of x c) = (floor (fst x + positionOffset) div lengthPerGrid c,
      floor (fst (snd x) + positionOffset) div lengthPerGrid c)" if "in_area c x" for x
    using place_sector_of [OF c(1)] index_inside [OF that c(2,3)] by simp
  have "\<bar>fst (place_of n (sector_of p c)) - fst (place_of n (sector_of q c))\<bar> \<le> 1"
    "\<bar>snd (place_of n (sector_of p c)) - snd (place_of n (sector_of q c))\<bar> \<le> 1"
    unfolding places [OF p] places [OF q] using d r(3) by (simp_all add: floor_div_near [OF len])
  then show "sector_of q c \<in> set (near n (sector_of p c))"
    using sector_of_less [OF c(1), of q] by (simp add: in_near next_to_def place_of_def)
  have "cell_mbr (cells c ! sector_of q c) = grid_box (lengthPerGrid c) (fst (place_of n (sector_of q c))) (snd (place_of n (sector_of q c)))"
    using c(1) sector_of_less [OF c(1), of q] by (simp add: square_grid_def)
  then show "mbr_intersect (mbr_around (plane p) r) (cell_mbr (cells c ! sector_of q c))"
    using d floor_div_bounds [OF len, of "fst q + positionOffset"] floor_div_bounds [OF len, of "fst (snd q) + positionOffset"]
    by (simp add: places [OF q] grid_box_def Let_def mbr_around_def plane_def abs_le_iff)
qed

lemma registered_known:
  assumes "registered_at loc es c" "square_grid n c" "k < n * n"
  shows "cell_known loc (cells c ! k)"
    and "e \<in> set (cell_entities (cells c ! k) ty) \<Longrightarrow> e \<in> set es \<and> entity_type e = ty"
proof -
  have "ty \<in> set [PlayerEntity, MonsterEntity, SpawnerEntity]" for ty by (cases ty) simp_all
  then have *: "e \<in> set es \<and> entity_type e = ty \<and> loc e \<noteq> None" if "e \<in> set (cell_entities (cells c ! k) ty)" for e ty
    using assms that unfolding registered_at_def listed_def square_grid_def
    by (metis (no_types, lifting) atLeastLessThan_iff atLeastLessThan_upt option.case_eq_if zero_le)
  then show "cell_known loc (cells c ! k)" "e \<in> set (cell_entities (cells c ! k) ty) \<Longrightarrow> e \<in> set es \<and> entity_type e = ty"
    by (auto simp: cell_known_def)
qed

text \<open>So the cells that the boxes leave to be searched have every entity within the radius.\<close>

lemma cells_have_all:
  assumes c: "square_grid n c" "area_width c < 2 ^ 31" "area_height c < 2 ^ 31" and reg: "registered_at loc es c"
    and p: "in_area c p" and r: "0 \<le> r" "r \<le> of_int (lengthPerGrid c)"
  shows "(\<Union>k \<in> set (near n (sector_of p c)).
      if mbr_intersect (mbr_around (plane p) r) (cell_mbr (cells c ! k)) then hits loc (cells c ! k) (plane p) r tys else {})
    = set (filter (\<lambda>e. entity_type e \<in> set tys \<and> in_radius loc (plane p) r e) es)"
proof (intro equalityI subsetI)
  fix e assume "e \<in> (\<Union>k \<in> set (near n (sector_of p c)).
      if mbr_intersect (mbr_around (plane p) r) (cell_mbr (cells c ! k)) then hits loc (cells c ! k) (plane p) r tys else {})"
  then obtain k ty where "k < n * n" "ty \<in> set tys" "e \<in> set (cell_entities (cells c ! k) ty)" "in_radius loc (plane p) r e"
    by (auto simp: hits_def split: if_splits dest: near_less)
  with registered_known(2) [OF reg c(1)] show "e \<in> set (filter (\<lambda>e. entity_type e \<in> set tys \<and> in_radius loc (plane p) r e) es)"
    by auto
next
  fix e assume "e \<in> set (filter (\<lambda>e. entity_type e \<in> set tys \<and> in_radius loc (plane p) r e) es)"
  then have e: "e \<in> set es" "entity_type e \<in> set tys" "in_radius loc (plane p) r e" by auto
  from e(3) obtain q where q: "loc e = Some q" "distance_sq (plane p) (plane q) \<le> r * r"
    by (auto simp: in_radius_def split: option.splits)
  with reg e(1) have q': "in_area c q" "e \<in> set (listed (sector_of q c) c (entity_type e))"
    by (auto simp: registered_at_def)
  from within_is_near [OF c p q'(1) q(2) r] e q'(2)
  show "e \<in> (\<Union>k \<in> set (near n (sector_of p c)).
      if mbr_intersect (mbr_around (plane p) r) (cell_mbr (cells c ! k)) then hits loc (cells c ! k) (plane p) r tys else {})"
    by (intro UN_I [of "sector_of q c"]) (auto simp: hits_def listed_def)
qed

lemma map_of_tasks:
  assumes "distinct (map fst ts)" "(i, t) \<in> set ts" "loc i \<noteq> None"
  shows "map_of (shape (cleared loc ts)) i = Some (task_radius t, target_types t)"
proof -
  have "map fst (cleared loc ts) = map fst (filter (\<lambda>(i, t). loc i \<noteq> None) ts)"
    by (auto simp: cleared_def)
  then have "distinct (map fst (shape (cleared loc ts)))"
    using assms(1) by (metis distinct_map_filter map_fst_shape)
  moreover have "(i, task_radius t, target_types t) \<in> set (shape (cleared loc ts))"
    using assms(2,3) by (force simp: shape_def cleared_def)
  ultimately show ?thesis by simp
qed

text \<open>
  C13: For entities listed in the cells of their positions, inside the area, and radii up to the length of a cell, the
  scan never faults, erases the tasks of entities that have no position any more, and gives every other task exactly
  the entities of its types within its radius, as a search through all entities would: neither the batching by
  sector and quarter nor the boxes lose or add one.
\<close>

theorem scan_equals_search:
  assumes "square_grid n c" "area_width c < 2 ^ 31" "area_height c < 2 ^ 31" "registered_at loc es c" "distinct (map fst ts)"
    and "\<forall>(i, t) \<in> set ts. 0 \<le> task_radius t \<and> task_radius t \<le> of_int (lengthPerGrid c)
        \<and> (case loc i of None \<Rightarrow> True | Some p \<Rightarrow> in_area c p)"
  shows "scan loc c ts = Inr (map (search_all loc es) (filter (\<lambda>(i, t). loc i \<noteq> None) ts))"
proof -
  let ?sh = "shape (cleared loc ts)"
  have keys: "map fst (cleared loc ts) = map fst (filter (\<lambda>(i, t). loc i \<noteq> None) ts)" by (auto simp: cleared_def)
  have d: "distinct (map fst ?sh)" using assms(5) keys by (metis distinct_map_filter map_fst_shape)
  have sh: "\<forall>(i, t) \<in> set ts. loc i \<noteq> None \<longrightarrow> map_of ?sh i = Some (task_radius t, target_types t)"
    using map_of_tasks [OF assms(5), of _ _ loc] by auto
  obtain bs where bs: "collect loc c ts [] = Inr (cleared loc ts, bs)" "\<forall>x \<in> set bs. batch_ok loc c ?sh n x"
      "\<forall>(i, t) \<in> set ts. \<forall>pos. loc i = Some pos \<longrightarrow> has_item bs (i, plane pos)"
    using collect_ok [OF assms(1) sh, of "[]"] by auto
  have "\<forall>k < n * n. cell_known loc (cells c ! k)" using registered_known(1) [OF assms(4,1)] by blast
  from scan_batches_eq [OF assms(1) this refl d bs(2)] bs(1)
  have "scan loc c ts = Inr (gain (all_gain loc c n ?sh bs) (cleared loc ts))" by (simp add: scan_def)
  also have "gain (all_gain loc c n ?sh bs) (cleared loc ts) = map (search_all loc es) (filter (\<lambda>(i, t). loc i \<noteq> None) ts)"
  proof -
    have "all_gain loc c n ?sh bs i = set (filter (\<lambda>e. entity_type e \<in> set (target_types t) \<and> in_radius loc (plane p) (task_radius t) e) es)"
      if "(i, t) \<in> set ts" "loc i = Some p" for i t p
    proof -
      have "has_item bs (i, plane p)" using bs(3) that by blast
      moreover have "map_of ?sh i = Some (task_radius t, target_types t)" using map_of_tasks [OF assms(5) that(1)] that(2) by simp
      moreover have "in_area c p" "0 \<le> task_radius t" "task_radius t \<le> of_int (lengthPerGrid c)" using assms(6) that by force+
      ultimately show ?thesis using all_gain_eq [OF bs(2)] that(2) cells_have_all [OF assms(1-4)] by simp
    qed
    then show ?thesis by (auto simp: gain_def cleared_def search_all_def split: option.split)
  qed
  finally show ?thesis .
qed

text \<open>A player next to a monster and far from another player in a grid of nine cells; a third player has left.\<close>

definition example_loc :: "entity_id \<Rightarrow> position option" where
  "example_loc e =
     (if e = EntityId PlayerEntity 1 then Some (- 9999, - 9999, 0)
      else if e = EntityId PlayerEntity 2 then Some (- 9995, - 9995, 0)
      else if e = EntityId MonsterEntity 7 then Some (- 9998, - 9998, 0) else None)"

definition example_grid :: spatial_container where
  "example_grid =
     (case and_then (container_new 5 5 2) (\<lambda>c.
        and_then (sector_add_entity (EntityId PlayerEntity 1) 0 c) (\<lambda>c.
        and_then (sector_add_entity (EntityId MonsterEntity 7) 4 c) (\<lambda>c.
        sector_add_entity (EntityId PlayerEntity 2) 8 c))) of Inr c \<Rightarrow> c)"

lemma example_grid_ok:
  "square_grid 3 example_grid \<and> area_width example_grid = 5 \<and> area_height example_grid = 5 \<and> lengthPerGrid example_grid = 2
   \<and> (\<forall>j < 9. \<forall>t. listed j example_grid t =
        (if j = 0 \<and> t = PlayerEntity then [EntityId PlayerEntity 1]
         else if j = 4 \<and> t = MonsterEntity then [EntityId MonsterEntity 7]
         else if j = 8 \<and> t = PlayerEntity then [EntityId PlayerEntity 2] else []))"
proof -
  obtain c where c: "container_new 5 5 2 = Inr c" "square_grid 3 c" "area_width c = 5" "area_height c = 5" "lengthPerGrid c = 2"
      "\<forall>j < 9. \<forall>t. listed j c t = []"
    using square_grid_new [of 2 5 5 3] by (auto simp: listed_def)
  obtain c1 where c1: "sector_add_entity (EntityId PlayerEntity 1) 0 c = Inr c1" "square_grid 3 c1" "lengthPerGrid c1 = 2"
      "area_width c1 = 5" "area_height c1 = 5"
      "\<And>j t. listed j c1 t = (if j = 0 \<and> t = PlayerEntity then listed j c t @ [EntityId PlayerEntity 1] else listed j c t)"
    using sector_add_ok [OF c(2), of 0 "EntityId PlayerEntity 1"] c by auto
  obtain c2 where c2: "sector_add_entity (EntityId MonsterEntity 7) 4 c1 = Inr c2" "square_grid 3 c2" "lengthPerGrid c2 = 2"
      "area_width c2 = 5" "area_height c2 = 5"
      "\<And>j t. listed j c2 t = (if j = 4 \<and> t = MonsterEntity then listed j c1 t @ [EntityId MonsterEntity 7] else listed j c1 t)"
    using sector_add_ok [OF c1(2), of 4 "EntityId MonsterEntity 7"] c1 by auto
  obtain c3 where c3: "sector_add_entity (EntityId PlayerEntity 2) 8 c2 = Inr c3" "square_grid 3 c3" "lengthPerGrid c3 = 2"
      "area_width c3 = 5" "area_height c3 = 5"
      "\<And>j t. listed j c3 t = (if j = 8 \<and> t = PlayerEntity then listed j c2 t @ [EntityId PlayerEntity 2] else listed j c2 t)"
    using sector_add_ok [OF c2(2), of 8 "EntityId PlayerEntity 2"] c2 by auto
  have e: "example_grid = c3" by (simp add: example_grid_def c(1) c1(1) c2(1) c3(1))
  show ?thesis unfolding e using c3(2-5) c(6) by (auto simp: c3(6) c2(6) c1(6))
qed

lemmas example_eqs = example_loc_def in_area_def positionOffset_def sector_of_def calculate_index_def
  calculate_x_index_def calculate_y_index_def truncate32_def clamp_def Let_def

lemma example_registered:
  "registered_at example_loc [EntityId PlayerEntity 1, EntityId MonsterEntity 7, EntityId PlayerEntity 2] example_grid"
proof -
  have g: "ySize example_grid = 3" "length (cells example_grid) = 9" "area_width example_grid = 5" "area_height example_grid = 5"
    "lengthPerGrid example_grid = 2" using example_grid_ok by (auto simp: square_grid_def)
  have "[0..<9] = [0, 1, 2, 3, 4, 5, 6, 7, 8]" by (simp add: upt_rec)
  then show ?thesis using example_grid_ok by (simp add: registered_at_def g example_eqs)
qed

theorem scan_equals_search_witness:
  "scan example_loc example_grid
     [(EntityId PlayerEntity 1, \<lparr>task_radius = 2, target_types = [PlayerEntity, MonsterEntity], task_result = {}\<rparr>),
      (EntityId PlayerEntity 3, \<lparr>task_radius = 1, target_types = [PlayerEntity], task_result = {}\<rparr>)]
   = Inr [(EntityId PlayerEntity 1, \<lparr>task_radius = 2, target_types = [PlayerEntity, MonsterEntity],
             task_result = {EntityId PlayerEntity 1, EntityId MonsterEntity 7}\<rparr>)]"
proof -
  have g: "square_grid 3 example_grid" "area_width example_grid = 5" "area_height example_grid = 5" "lengthPerGrid example_grid = 2"
    using example_grid_ok by blast+
  show ?thesis
    using scan_equals_search [of 3 example_grid example_loc _
        "[(EntityId PlayerEntity 1, \<lparr>task_radius = 2, target_types = [PlayerEntity, MonsterEntity], task_result = {}\<rparr>),
          (EntityId PlayerEntity 3, \<lparr>task_radius = 1, target_types = [PlayerEntity], task_result = {}\<rparr>)]",
        OF g(1) _ _ example_registered] g
    by (simp add: search_all_def example_loc_def in_area_def positionOffset_def plane_def in_radius_def distance_sq_def)
qed

subsection \<open>The life of the scanner\<close>

text \<open>
  \<open>posted\<close> counts the calls of \<^verbatim>\<open>Run()\<close> that are posted to the strand, \<open>waiting\<close> the loops that are in their
  \<^verbatim>\<open>Delay\<close>. The handlers of the signals are of any type; a step returns those it calls.
\<close>

record 'h scanner =
  shut_down :: bool
  is_running :: bool
  posted :: nat
  waiting :: nat
  tasks :: scan_tasks
  handlers :: "(entity_id \<times> 'h) list"

definition scanner_new :: "'h scanner" where
  "scanner_new = \<lparr>shut_down = False, is_running = False, posted = 0, waiting = 0, tasks = [], handlers = []\<rparr>"

definition scanner_schedule :: "entity_id \<Rightarrow> rat \<Rightarrow> entity_type list \<Rightarrow> 'h scanner \<Rightarrow> 'h scanner" where
  "scanner_schedule i r tys a =
     (if map_of (tasks a) i \<noteq> None then a
      else let b = a\<lparr>tasks := tasks a @ [(i, \<lparr>task_radius = r, target_types = tys, task_result = {}\<rparr>)]\<rparr>
           in if \<not> is_running b then b\<lparr>posted := posted b + 1\<rparr> else b)"

definition set_signal_handler :: "entity_id \<Rightarrow> 'h \<Rightarrow> 'h scanner \<Rightarrow> 'h scanner" where
  "set_signal_handler i h a = a\<lparr>handlers := AList.update i h (handlers a)\<rparr>"

definition cancel_scheduled :: "entity_id \<Rightarrow> 'h scanner \<Rightarrow> 'h scanner" where
  "cancel_scheduled i a = a\<lparr>tasks := filter (\<lambda>(j, t). j \<noteq> i) (tasks a)\<rparr>"

definition last_scan_result :: "entity_id \<Rightarrow> 'h scanner \<Rightarrow> entity_id set" where
  "last_scan_result i a = (case map_of (tasks a) i of None \<Rightarrow> {} | Some t \<Rightarrow> task_result t)"

text \<open>A moved-from \<^verbatim>\<open>flat_set\<close> is empty.\<close>

definition take_scan_result :: "entity_id \<Rightarrow> 'h scanner \<Rightarrow> entity_id set \<times> 'h scanner" where
  "take_scan_result i a = (last_scan_result i a, a\<lparr>tasks := set_result i {} (tasks a)\<rparr>)"

definition scanner_scan ::
  "(entity_id \<Rightarrow> position option) \<Rightarrow> spatial_container \<Rightarrow> 'h scanner \<Rightarrow> fault + 'h list \<times> 'h scanner" where
  "scanner_scan loc c a =
     and_then (scan loc c (tasks a)) (\<lambda>ts. Inr (map snd (handlers a), a\<lparr>tasks := ts, handlers := []\<rparr>))"

text \<open>\<^verbatim>\<open>Run()\<close> up to its first suspension, and from there to the next.\<close>

definition run_start ::
  "(entity_id \<Rightarrow> position option) \<Rightarrow> spatial_container \<Rightarrow> 'h scanner \<Rightarrow> fault + 'h list \<times> 'h scanner" where
  "run_start loc c a = scanner_scan loc c (a\<lparr>posted := posted a - 1, waiting := waiting a + 1\<rparr>)"

definition run_resume ::
  "(entity_id \<Rightarrow> position option) \<Rightarrow> spatial_container \<Rightarrow> 'h scanner \<Rightarrow> fault + 'h list \<times> 'h scanner" where
  "run_resume loc c a =
     (if shut_down a \<or> tasks a = [] then Inr ([], a\<lparr>waiting := waiting a - 1, is_running := False\<rparr>)
      else scanner_scan loc c a)"

definition scanner_shutdown :: "'h scanner \<Rightarrow> 'h scanner" where
  "scanner_shutdown a = a\<lparr>shut_down := True\<rparr>"

text \<open>Whether \<^verbatim>\<open>Join()\<close> returns without waiting for a loop.\<close>

definition join_returns_at_once :: "'h scanner \<Rightarrow> bool" where
  "join_returns_at_once a \<longleftrightarrow> \<not> is_running a"

inductive scanner_reach :: "nat \<Rightarrow> 'h scanner \<Rightarrow> bool" where
  reach_new: "scanner_reach 0 scanner_new"
| reach_schedule: "scanner_reach k a \<Longrightarrow> map_of (tasks a) i = None \<Longrightarrow> scanner_reach (Suc k) (scanner_schedule i r tys a)"
| reach_schedule_again: "scanner_reach k a \<Longrightarrow> map_of (tasks a) i \<noteq> None \<Longrightarrow> scanner_reach k (scanner_schedule i r tys a)"
| reach_signal: "scanner_reach k a \<Longrightarrow> scanner_reach k (set_signal_handler i h a)"
| reach_cancel: "scanner_reach k a \<Longrightarrow> scanner_reach k (cancel_scheduled i a)"
| reach_take: "scanner_reach k a \<Longrightarrow> scanner_reach k (snd (take_scan_result i a))"
| reach_start: "scanner_reach k a \<Longrightarrow> 0 < posted a \<Longrightarrow> run_start loc c a = Inr (hs, b) \<Longrightarrow> scanner_reach k b"
| reach_resume: "scanner_reach k a \<Longrightarrow> 0 < waiting a \<Longrightarrow> \<not> shut_down a \<Longrightarrow> tasks a \<noteq> [] \<Longrightarrow> run_resume loc c a = Inr (hs, b)
    \<Longrightarrow> scanner_reach k b"

lemma scanner_scan_frame:
  assumes "scanner_scan loc c a = Inr (hs, b)"
  shows "posted b = posted a" "waiting b = waiting a" "is_running b = is_running a" "shut_down b = shut_down a"
  using assms by (auto simp: scanner_scan_def and_then_Inr_iff)

text \<open>
  \<^verbatim>\<open>_running\<close> is never set: as long as the scanner is not shut down and does not run out of tasks, every task
  that was scheduled, cancelled or not, has started a loop of its own that is still alive, so the tasks are scanned
  that many times in every interval, and a \<^verbatim>\<open>Join()\<close> would return at once and leave them running.
\<close>

theorem every_schedule_runs_a_loop:
  assumes "scanner_reach k a"
  shows "posted a + waiting a = k \<and> join_returns_at_once a"
  using assms
proof (induction rule: scanner_reach.induct)
  case (reach_start k a loc c hs b)
  then show ?case using scanner_scan_frame [of loc c _ hs b] by (auto simp: run_start_def join_returns_at_once_def)
next
  case (reach_resume k a loc c hs b)
  then show ?case using scanner_scan_frame [of loc c a hs b] by (auto simp: run_resume_def join_returns_at_once_def)
qed (auto simp: scanner_new_def scanner_schedule_def set_signal_handler_def cancel_scheduled_def take_scan_result_def
    join_returns_at_once_def Let_def)

theorem every_schedule_runs_a_loop_witness:
  "let a = cancel_scheduled (EntityId MonsterEntity 1)
             (scanner_schedule (EntityId MonsterEntity 2) 1 [PlayerEntity]
               (scanner_schedule (EntityId MonsterEntity 1) 1 [PlayerEntity] (scanner_new :: nat scanner)))
   in scanner_reach 2 a \<and> posted a + waiting a = 2 \<and> join_returns_at_once a"
proof -
  let ?a = "scanner_schedule (EntityId MonsterEntity 1) 1 [PlayerEntity] (scanner_new :: nat scanner)"
  have "scanner_reach 1 ?a" using reach_schedule [OF reach_new] by (simp add: scanner_new_def)
  then have "scanner_reach 2 (scanner_schedule (EntityId MonsterEntity 2) 1 [PlayerEntity] ?a)"
    using reach_schedule [of 1 ?a "EntityId MonsterEntity 2"]
    by (simp add: scanner_schedule_def scanner_new_def Let_def numeral_2_eq_2)
  then have "scanner_reach 2 (cancel_scheduled (EntityId MonsterEntity 1)
      (scanner_schedule (EntityId MonsterEntity 2) 1 [PlayerEntity] ?a))" by (rule reach_cancel)
  from this every_schedule_runs_a_loop [OF this] show ?thesis by (simp add: Let_def)
qed

end
