(* ===== verification/Aggro.thy ===== *)
theory Aggro
  imports SpatialGrid "HOL-Library.Multiset"
begin

text \<open>
  Whom a monster attacks, \<^verbatim>\<open>xr/server/game/instance/ai/aggro\<close>: a list of players with values that is kept in descending
  order while values grow. It proves that growing keeps the order and that shrinking does not. \<open>present\<close> stands for
  \<^verbatim>\<open>FindPlayer(id) != nullptr\<close>. Values are integers: overflow of \<^verbatim>\<open>int64_t\<close> is undefined and not modelled.
\<close>

type_synonym aggro = "entity_id \<times> int"

definition max_aggro_manage_count :: nat where
  "max_aggro_manage_count = 16"

definition compare_aggro :: "aggro \<Rightarrow> aggro \<Rightarrow> bool" where
  "compare_aggro a b \<longleftrightarrow> snd a > snd b"

definition aggro_update :: "(entity_id \<Rightarrow> bool) \<Rightarrow> aggro list \<Rightarrow> aggro list" where
  "aggro_update present xs = filter (\<lambda>a. \<not> \<not> present (fst a)) xs"

definition aggro_empty :: "aggro list \<Rightarrow> bool" where
  "aggro_empty xs \<longleftrightarrow> xs = []"

text \<open>The position of the entry of \<open>i\<close>: \<^verbatim>\<open>find_if\<close>.\<close>

fun position_of :: "entity_id \<Rightarrow> aggro list \<Rightarrow> nat option" where
  "position_of i [] = None"
| "position_of i (a # xs) = (if i = fst a then Some 0 else map_option Suc (position_of i xs))"

definition swap :: "nat \<Rightarrow> nat \<Rightarrow> aggro list \<Rightarrow> aggro list" where
  "swap i j xs = xs[i := xs ! j, j := xs ! i]"

text \<open>The loop that moves an entry whose value grew, \<open>k\<close> its position.\<close>

fun move_forward :: "nat \<Rightarrow> aggro list \<Rightarrow> aggro list" where
  "move_forward 0 xs = xs"
| "move_forward (Suc k) xs =
     (if compare_aggro (xs ! Suc k) (xs ! k) then move_forward k (swap (Suc k) k xs) else xs)"

text \<open>The loop that moves one whose value shrank.\<close>

function move_back :: "nat \<Rightarrow> aggro list \<Rightarrow> aggro list" where
  "move_back k xs =
     (if Suc k < length xs
      then if compare_aggro (xs ! k) (xs ! Suc k) then move_back (Suc k) (swap k (Suc k) xs) else xs
      else xs)"
  by pat_completeness auto
termination by (relation "measure (\<lambda>(k, xs). length xs - k)") (auto simp: swap_def)

declare move_back.simps [simp del]

text \<open>
  \<^verbatim>\<open>lower_bound\<close> in a list that is in order; in any other its result is unspecified, and the model takes the first
  place that does not come before the new entry.
\<close>

definition aggro_add :: "entity_id \<Rightarrow> int \<Rightarrow> aggro list \<Rightarrow> aggro list" where
  "aggro_add i v xs =
     (if v = 0 then xs
      else case position_of i xs of
        Some k \<Rightarrow>
          let ys = xs[k := (i, snd (xs ! k) + v)]
          in if v > 0 then move_forward k ys else move_back k ys
      | None \<Rightarrow>
          let ys = (if length xs = max_aggro_manage_count then butlast xs else xs);
              before = (\<lambda>a. compare_aggro a (i, v))
          in takeWhile before ys @ (i, v) # dropWhile before ys)"

definition aggro_remove :: "entity_id \<Rightarrow> aggro list \<Rightarrow> aggro list" where
  "aggro_remove i xs =
     (case position_of i xs of None \<Rightarrow> xs | Some k \<Rightarrow> take k xs @ drop (Suc k) xs)"

definition primary_target :: "(entity_id \<Rightarrow> bool) \<Rightarrow> aggro list \<Rightarrow> entity_id option" where
  "primary_target present xs =
     (case xs of [] \<Rightarrow> None | a # _ \<Rightarrow> if present (fst a) then Some (fst a) else None)"

fun select_primary_target :: "(entity_id \<Rightarrow> bool) \<Rightarrow> aggro list \<Rightarrow> entity_id option \<times> aggro list" where
  "select_primary_target present [] = (None, [])"
| "select_primary_target present (a # xs) =
     (if present (fst a) then (Some (fst a), a # xs) else select_primary_target present xs)"

subsection \<open>The order of the entries\<close>

definition aggro_ok :: "aggro list \<Rightarrow> bool" where
  "aggro_ok xs \<longleftrightarrow> sorted_wrt (\<lambda>a b. snd b \<le> snd a) xs \<and> distinct (map fst xs) \<and> length xs \<le> max_aggro_manage_count"

lemma position_of_Some:
  "position_of i xs = Some k \<Longrightarrow> k < length xs \<and> fst (xs ! k) = i"
  by (induction xs arbitrary: k) (auto split: if_splits)

lemma position_of_None: "position_of i xs = None \<longleftrightarrow> i \<notin> fst ` set xs"
  by (induction xs) auto

lemma swap_adjacent: "swap (length xs) (Suc (length xs)) (xs @ a # b # ys) = xs @ b # a # ys"
  "swap (Suc (length xs)) (length xs) (xs @ a # b # ys) = xs @ b # a # ys"
  by (simp_all add: swap_def list_update_append nth_append)

text \<open>Moving forward is an insertion before the first entry that is not larger.\<close>

lemma move_forward_insert:
  assumes "sorted_wrt (\<lambda>a b. snd b \<le> snd a) xs"
  shows "move_forward (length xs) (xs @ a # ys) = takeWhile (\<lambda>b. snd a \<le> snd b) xs @ a # dropWhile (\<lambda>b. snd a \<le> snd b) xs @ ys"
  using assms
proof (induction xs arbitrary: ys rule: rev_induct)
  case (snoc x xs)
  show ?case
  proof (cases "snd x < snd a")
    case True
    then have "move_forward (length (xs @ [x])) ((xs @ [x]) @ a # ys) = move_forward (length xs) (xs @ a # x # ys)"
      using swap_adjacent(2) [of xs x a ys] by (simp add: compare_aggro_def nth_append)
    with snoc True show ?thesis by (simp add: sorted_wrt_append takeWhile_append dropWhile_append)
  next
    case False
    then have "\<forall>b \<in> set (xs @ [x]). snd a \<le> snd b" using snoc.prems by (auto simp: sorted_wrt_append)
    then have "takeWhile (\<lambda>b. snd a \<le> snd b) (xs @ [x]) = xs @ [x]" "dropWhile (\<lambda>b. snd a \<le> snd b) (xs @ [x]) = []"
      by (metis takeWhile_eq_all_conv, metis dropWhile_eq_Nil_conv)
    with False show ?thesis by (simp add: compare_aggro_def nth_append)
  qed
qed simp

lemma sorted_insert:
  assumes "sorted_wrt (\<lambda>a b. snd b \<le> snd a) (xs @ ys)" "\<forall>b \<in> set ys. snd b \<le> snd a" "\<forall>b \<in> set xs. snd a \<le> snd b"
  shows "sorted_wrt (\<lambda>a b. snd b \<le> snd a) (xs @ a # (ys :: aggro list))"
  using assms by (auto simp: sorted_wrt_append)

lemma sorted_insert_while:
  assumes "sorted_wrt (\<lambda>a b. snd b \<le> snd a) xs" and P: "\<And>b. P b \<Longrightarrow> snd a \<le> snd b" "\<And>b. \<not> P b \<Longrightarrow> snd b \<le> snd a"
  shows "sorted_wrt (\<lambda>a b. snd b \<le> snd a) (takeWhile P xs @ a # dropWhile P (xs :: aggro list))"
proof (rule sorted_insert)
  show "sorted_wrt (\<lambda>a b. snd b \<le> snd a) (takeWhile P xs @ dropWhile P xs)" using assms(1) by simp
  show "\<forall>b \<in> set (takeWhile P xs). snd a \<le> snd b" using P(1) set_takeWhileD by fast
  show "\<forall>b \<in> set (dropWhile P xs). snd b \<le> snd a"
  proof (cases "dropWhile P xs")
    case (Cons c cs)
    then have "\<not> P c" using hd_dropWhile [of P xs] by (metis list.distinct(1) list.sel(1))
    moreover have "sorted_wrt (\<lambda>a b. snd b \<le> snd a) (dropWhile P xs)"
      using assms(1) by (metis sorted_wrt_append takeWhile_dropWhile_id)
    ultimately show ?thesis using Cons P(2) [of c] by (auto intro: order_trans)
  qed (simp only: list.set ball_empty)
qed

lemma mset_insert_while: "mset (takeWhile P ys @ a # dropWhile P ys) = mset (a # ys)"
  by (induction ys) auto

lemma aggro_grow:
  assumes "position_of i xs = Some k" "sorted_wrt (\<lambda>a b. snd b \<le> snd a) xs" "0 < v"
  defines "a \<equiv> (i, snd (xs ! k) + v)"
  shows "move_forward k (xs[k := a]) = takeWhile (\<lambda>b. snd a \<le> snd b) (take k xs) @ a # dropWhile (\<lambda>b. snd a \<le> snd b) (take k xs) @ drop (Suc k) xs"
    and "sorted_wrt (\<lambda>a b. snd b \<le> snd a) (move_forward k (xs[k := a]))"
    and "mset (move_forward k (xs[k := a])) = mset (xs[k := a])"
proof -
  have k: "k < length xs" "fst (xs ! k) = i" using position_of_Some [OF assms(1)] by auto
  have s: "sorted_wrt (\<lambda>a b. snd b \<le> snd a) (take k xs)" "sorted_wrt (\<lambda>a b. snd b \<le> snd a) (take k xs @ drop (Suc k) xs)"
    "\<forall>b \<in> set (drop (Suc k) xs). snd b \<le> snd (xs ! k)"
  proof -
    have "sorted_wrt (\<lambda>a b. snd b \<le> snd a) (take k xs @ xs ! k # drop (Suc k) xs)"
      using assms(2) by (simp only: id_take_nth_drop [OF k(1), symmetric])
    then show "sorted_wrt (\<lambda>a b. snd b \<le> snd a) (take k xs)" "sorted_wrt (\<lambda>a b. snd b \<le> snd a) (take k xs @ drop (Suc k) xs)"
      "\<forall>b \<in> set (drop (Suc k) xs). snd b \<le> snd (xs ! k)" by (simp_all add: sorted_wrt_append)
  qed
  have "xs[k := a] = take k xs @ a # drop (Suc k) xs" using k(1) by (simp add: upd_conv_take_nth_drop)
  then show eq: "move_forward k (xs[k := a]) = takeWhile (\<lambda>b. snd a \<le> snd b) (take k xs) @ a # dropWhile (\<lambda>b. snd a \<le> snd b) (take k xs) @ drop (Suc k) xs"
    using move_forward_insert [OF s(1), of a "drop (Suc k) xs"] k(1) by simp
  have larger: "snd b \<le> snd a" if "b \<in> set (drop (Suc k) xs)" for b using s(3) that assms(3) by (force simp: a_def)
  let ?t = "takeWhile (\<lambda>b. snd a \<le> snd b) (take k xs) @ a # dropWhile (\<lambda>b. snd a \<le> snd b) (take k xs)"
  have t: "sorted_wrt (\<lambda>a b. snd b \<le> snd a) ?t" by (rule sorted_insert_while [OF s(1)]) auto
  have "\<forall>b \<in> set ?t. \<forall>d \<in> set (drop (Suc k) xs). snd d \<le> snd b"
  proof (intro ballI)
    fix b d assume bd: "b \<in> set ?t" "d \<in> set (drop (Suc k) xs)"
    then have "b = a \<or> b \<in> set (take k xs)" using set_takeWhileD set_dropWhileD by fastforce
    moreover have "snd d \<le> snd a" by (rule larger [OF bd(2)])
    moreover have "b \<in> set (take k xs) \<Longrightarrow> snd d \<le> snd b" using bd(2) s(2) unfolding sorted_wrt_append by blast
    ultimately show "snd d \<le> snd b" by blast
  qed
  moreover have "sorted_wrt (\<lambda>a b. snd b \<le> snd a) (drop (Suc k) xs)" using s(2) unfolding sorted_wrt_append by blast
  ultimately have "sorted_wrt (\<lambda>a b. snd b \<le> snd a) (?t @ drop (Suc k) xs)"
    using t by (subst sorted_wrt_append) (intro conjI)
  then show "sorted_wrt (\<lambda>a b. snd b \<le> snd a) (move_forward k (xs[k := a]))" unfolding eq by simp
  have "move_forward k (xs[k := a]) = ?t @ drop (Suc k) xs" unfolding eq append.assoc append_Cons by (rule refl)
  then have "mset (move_forward k (xs[k := a])) = mset ?t + mset (drop (Suc k) xs)" by (metis mset_append)
  then have "mset (move_forward k (xs[k := a])) = mset (a # take k xs) + mset (drop (Suc k) xs)"
    by (simp only: mset_insert_while)
  moreover have "mset (xs[k := a]) = mset (a # take k xs) + mset (drop (Suc k) xs)"
    unfolding upd_conv_take_nth_drop [OF k(1)] by simp
  ultimately show "mset (move_forward k (xs[k := a])) = mset (xs[k := a])" by (simp only:)
qed

lemma aggro_add_new:
  assumes "aggro_ok xs" "i \<notin> fst ` set xs"
  shows "aggro_ok (aggro_add i v xs)"
proof (cases "v = 0")
  case False
  let ?ys = "if length xs = max_aggro_manage_count then butlast xs else xs"
  let ?P = "\<lambda>a. compare_aggro a (i, v)"
  have ys: "sorted_wrt (\<lambda>a b. snd b \<le> snd a) ?ys" "distinct (map fst ?ys)" "length ?ys < max_aggro_manage_count" "i \<notin> fst ` set ?ys"
    using assms by (auto simp: aggro_ok_def max_aggro_manage_count_def butlast_conv_take sorted_wrt_take distinct_map
        dest: in_set_takeD intro: inj_on_subset)
  have "mset (takeWhile ?P ?ys @ (i, v) # dropWhile ?P ?ys) = mset ((i, v) # ?ys)"
    by (rule mset_insert_while)
  then have "mset (map fst (takeWhile ?P ?ys @ (i, v) # dropWhile ?P ?ys)) = mset (map fst ((i, v) # ?ys))"
    "length (takeWhile ?P ?ys @ (i, v) # dropWhile ?P ?ys) = Suc (length ?ys)"
    by (metis mset_map, metis length_Cons size_mset)
  moreover have "distinct (map fst ((i, v) # ?ys))" using ys(2,4) by simp
  moreover have "sorted_wrt (\<lambda>a b. snd b \<le> snd a) (takeWhile ?P ?ys @ (i, v) # dropWhile ?P ?ys)"
    by (rule sorted_insert_while [OF ys(1)]) (auto simp: compare_aggro_def)
  ultimately have "aggro_ok (takeWhile ?P ?ys @ (i, v) # dropWhile ?P ?ys)"
    unfolding aggro_ok_def using ys(3) mset_eq_imp_distinct_iff by (metis Suc_leI)
  then show ?thesis using False assms(2) by (simp add: aggro_add_def position_of_None [THEN iffD2] Let_def)
qed (use assms(1) in \<open>simp add: aggro_add_def\<close>)

lemma map_fst_update: "position_of i xs = Some k \<Longrightarrow> map fst (xs[k := (i, w)]) = map fst xs"
  using position_of_Some [of i xs k] by (metis fst_conv list_update_id map_update nth_map)

lemma aggro_add_grow:
  assumes "aggro_ok xs" "i \<in> fst ` set xs" "0 < v"
  shows "aggro_ok (aggro_add i v xs)" "map_of (aggro_add i v xs) = (map_of xs)(i \<mapsto> the (map_of xs i) + v)"
proof -
  obtain k where k: "position_of i xs = Some k" using assms(2) by (metis not_None_eq position_of_None)
  let ?a = "(i, snd (xs ! k) + v)"
  let ?r = "move_forward k (xs[k := ?a])"
  have s: "sorted_wrt (\<lambda>a b. snd b \<le> snd a) xs" "distinct (map fst xs)" using assms(1) by (simp_all add: aggro_ok_def)
  have m: "mset ?r = mset (xs[k := ?a])" by (rule aggro_grow(3) [OF k s(1) assms(3)])
  then have "mset (map fst ?r) = mset (map fst xs)" using map_fst_update [OF k] by (metis mset_map)
  then have d: "distinct (map fst ?r)" using s(2) mset_eq_imp_distinct_iff by metis
  have eq: "aggro_add i v xs = ?r" using assms(3) k by (simp add: aggro_add_def)
  have "length ?r = length xs" using m by (metis length_list_update size_mset)
  then show "aggro_ok (aggro_add i v xs)"
    unfolding eq using aggro_grow(2) [OF k s(1) assms(3)] d assms(1) by (simp add: aggro_ok_def)
  have "set ?r = set (xs[k := ?a])" using m by (metis set_mset_mset)
  then have "map_of ?r = map_of (xs[k := ?a])" using d s(2) map_fst_update [OF k] by (metis map_of_eqI set_map map_of_inject_set)
  moreover have "map_of (xs[k := ?a]) = (map_of xs)(i \<mapsto> snd (xs ! k) + v)"
    using k s(2)
  proof (induction xs arbitrary: k)
    case (Cons b xs)
    then show ?case by (cases k) (auto split: if_splits)
  qed simp
  moreover have "map_of xs i = Some (snd (xs ! k))"
    using position_of_Some [OF k] s(2) by (metis map_of_eq_Some_iff nth_mem prod.collapse)
  ultimately show "map_of (aggro_add i v xs) = (map_of xs)(i \<mapsto> the (map_of xs i) + v)" by (simp add: eq)
qed

lemma aggro_remove_filter:
  "distinct (map fst xs) \<Longrightarrow> aggro_remove i xs = filter (\<lambda>a. fst a \<noteq> i) xs"
proof (induction xs)
  case (Cons a xs)
  then have "i = fst a \<Longrightarrow> filter (\<lambda>a. fst a \<noteq> i) xs = xs" by (auto intro!: filter_True simp: rev_image_eqI)
  with Cons show ?case by (auto simp: aggro_remove_def split: option.splits if_splits)
qed (simp add: aggro_remove_def)

lemma aggro_ok_filter: "aggro_ok xs \<Longrightarrow> aggro_ok (filter P xs)"
  by (auto simp: aggro_ok_def sorted_wrt_filter distinct_map_filter intro: order_trans [OF length_filter_le])

lemma select_drops: "snd (select_primary_target present xs) = dropWhile (\<lambda>a. \<not> present (fst a)) xs"
  by (induction xs) auto

lemma aggro_ok_dropWhile: "aggro_ok xs \<Longrightarrow> aggro_ok (dropWhile P xs)"
  unfolding aggro_ok_def
  by (metis (no_types, lifting) distinct_append dual_order.trans length_dropWhile_le map_append sorted_wrt_append takeWhile_dropWhile_id)

text \<open>
  C33: As long as values grow, the list of aggro stays in descending order, without duplicates and with at most sixteen
  entries, also under removal, the update and the selection of a target; growth adds to the value of an entry that
  is there and changes no other.
\<close>

theorem aggro_stays_sorted:
  assumes "aggro_ok xs" "0 < v"
  shows "aggro_ok (aggro_add i v xs) \<and> aggro_ok (aggro_remove i xs) \<and> aggro_ok (aggro_update present xs)
    \<and> aggro_ok (snd (select_primary_target present xs))
    \<and> (i \<in> fst ` set xs \<longrightarrow> map_of (aggro_add i v xs) = (map_of xs)(i \<mapsto> the (map_of xs i) + v))"
  using aggro_add_new [OF assms(1), of i v] aggro_add_grow [OF assms(1) _ assms(2), of i] assms(1)
    aggro_remove_filter [of xs i] aggro_ok_filter [OF assms(1)] aggro_ok_dropWhile [OF assms(1)]
  unfolding aggro_update_def select_drops by (metis aggro_ok_def)

theorem aggro_stays_sorted_witness:
  "aggro_ok (aggro_add (EntityId PlayerEntity 2) 3 [(EntityId PlayerEntity 1, 4), (EntityId PlayerEntity 2, 2)])
   \<and> aggro_add (EntityId PlayerEntity 2) 3 [(EntityId PlayerEntity 1, 4), (EntityId PlayerEntity 2, 2)]
     = [(EntityId PlayerEntity 2, 5), (EntityId PlayerEntity 1, 4)]"
proof -
  have "aggro_ok [(EntityId PlayerEntity 1, 4), (EntityId PlayerEntity 2, 2)]" by (simp add: aggro_ok_def max_aggro_manage_count_def)
  from aggro_stays_sorted [OF this, of 3 "EntityId PlayerEntity 2"] show ?thesis
    by (simp add: aggro_add_def compare_aggro_def swap_def numeral_nat)
qed

subsection \<open>A value that shrinks\<close>

lemma move_back_past:
  "move_back (length ys) (ys @ a # zs) = ys @ takeWhile (\<lambda>b. snd b < snd a) zs @ a # dropWhile (\<lambda>b. snd b < snd a) zs"
proof (induction zs arbitrary: ys)
  case (Cons z zs)
  have "move_back (length ys) (ys @ a # z # zs) =
      (if snd z < snd a then move_back (length (ys @ [z])) ((ys @ [z]) @ a # zs) else ys @ a # z # zs)"
    using swap_adjacent(1) [of ys a z zs] by (subst move_back.simps) (simp add: compare_aggro_def nth_append)
  with Cons.IH [of "ys @ [z]"] show ?case by simp
qed (simp add: move_back.simps)

text \<open>
  The loop for a value that shrinks compares the wrong way round: when the value of an entry is reduced and still
  larger than the next one, the entry moves behind it, so the list is no longer in descending order.
\<close>

theorem shrinking_breaks_the_order:
  assumes "aggro_ok (ys @ (i, u) # (j, w) # zs)" "v < 0" "w < u + v"
  shows "\<not> aggro_ok (aggro_add i v (ys @ (i, u) # (j, w) # zs))"
proof -
  have "i \<notin> fst ` set ys" using assms(1) by (auto simp: aggro_ok_def)
  then have "position_of i (ys @ (i, u) # (j, w) # zs) = Some (length ys)"
    by (induction ys) auto
  then have "aggro_add i v (ys @ (i, u) # (j, w) # zs) = move_back (length ys) (ys @ (i, u + v) # (j, w) # zs)"
    using assms(2) by (simp add: aggro_add_def nth_append list_update_append)
  also have "\<dots> = ys @ (j, w) # takeWhile (\<lambda>b. snd b < u + v) zs @ (i, u + v) # dropWhile (\<lambda>b. snd b < u + v) zs"
    using move_back_past [of ys "(i, u + v)" "(j, w) # zs"] assms(3) by simp
  finally show ?thesis using assms(3) by (auto simp: aggro_ok_def sorted_wrt_append)
qed

theorem shrinking_breaks_the_order_witness:
  "\<not> aggro_ok (aggro_add (EntityId PlayerEntity 1) (- 1) [(EntityId PlayerEntity 1, 9), (EntityId PlayerEntity 2, 2)])"
  using shrinking_breaks_the_order [of "[]" "EntityId PlayerEntity 1" 9 "EntityId PlayerEntity 2" 2 "[]" "- 1"]
  by (simp add: aggro_ok_def max_aggro_manage_count_def)

end
