(* ===== verification/GameMessages.thy ===== *)
theory GameMessages
  imports Framing
begin

text \<open>
  The protocol of the game server: the objects of \<^verbatim>\<open>xr/network/model/generated/game_message.cpp\<close> and the
  messages of \<^verbatim>\<open>game_cs_message.cpp\<close> (from the client) and \<^verbatim>\<open>game_sc_message.cpp\<close> (to the client). The conventions are
  those of \<open>Packets\<close>; for every object \<open>x\<close>, \<open>x_bytes\<close> is its layout on the wire. The theory proves that the
  writers produce the layout, that the readers read it back, and so that every message is read back from any buffer.
\<close>

subsection \<open>Reading and writing sequences\<close>

text \<open>The loops \<^verbatim>\<open>for (int32_t i = 0; i < count; ++i)\<close> of the messages, \<open>n\<close> rounds.\<close>

fun read_times :: "nat \<Rightarrow> ('r \<Rightarrow> fault + ('a \<times> 'r)) \<Rightarrow> 'r \<Rightarrow> fault + ('a list \<times> 'r)" where
  "read_times 0 P = read_return []"
| "read_times (Suc n) P = read_then P (\<lambda>x. read_then (read_times n P) (\<lambda>xs. read_return (x # xs)))"

text \<open>\<^verbatim>\<open>BufferReader::Read(value, count)\<close>: \<^verbatim>\<open>reserve\<close> throws when the count is negative.\<close>

definition read_reserved :: "int \<Rightarrow> ('r \<Rightarrow> fault + ('a \<times> 'r)) \<Rightarrow> 'r \<Rightarrow> fault + ('a list \<times> 'r)" where
  "read_reserved count P r =
     (if count < 0 then Inl (RuntimeError ''vector too long'') else read_times (nat count) P r)"

definition read_float64 ::
  "('i \<Rightarrow> fault + byte) \<Rightarrow> ('i \<Rightarrow> fault + 'i) \<Rightarrow> 'i stream_reader \<Rightarrow> fault + (64 word \<times> 'i stream_reader)" where
  "read_float64 star inc = read_then (read_float star inc 8) (\<lambda>bs. read_return (bytes_value 0 bs))"

definition flag_byte :: "bool \<Rightarrow> byte list" where
  "flag_byte b = [if b then 1 else 0]"

subsection \<open>The objects\<close>

record game_position =
  pos_x :: "32 word"
  pos_y :: "32 word"
  pos_z :: "32 word"

definition write_game_position :: "game_position \<Rightarrow> stream_writer \<Rightarrow> stream_writer" where
  "write_game_position x w =
     (let w = write_word (pos_x x) w;
          w = write_word (pos_y x) w
      in write_word (pos_z x) w)"

definition read_game_position ::
  "('i \<Rightarrow> fault + byte) \<Rightarrow> ('i \<Rightarrow> fault + 'i) \<Rightarrow> 'i stream_reader
     \<Rightarrow> fault + (game_position \<times> 'i stream_reader)" where
  "read_game_position star inc =
     read_then (read_float32 star inc) (\<lambda>x.
     read_then (read_float32 star inc) (\<lambda>y.
     read_then (read_float32 star inc) (\<lambda>z.
     read_return \<lparr>pos_x = x, pos_y = y, pos_z = z\<rparr>)))"

definition game_position_bytes :: "game_position \<Rightarrow> byte list" where
  "game_position_bytes x = word_bytes (pos_x x) @ word_bytes (pos_y x) @ word_bytes (pos_z x)"

record game_rotation =
  rot_pitch :: "32 word"
  rot_yaw :: "32 word"
  rot_roll :: "32 word"

definition write_game_rotation :: "game_rotation \<Rightarrow> stream_writer \<Rightarrow> stream_writer" where
  "write_game_rotation x w =
     (let w = write_word (rot_pitch x) w;
          w = write_word (rot_yaw x) w
      in write_word (rot_roll x) w)"

definition read_game_rotation ::
  "('i \<Rightarrow> fault + byte) \<Rightarrow> ('i \<Rightarrow> fault + 'i) \<Rightarrow> 'i stream_reader
     \<Rightarrow> fault + (game_rotation \<times> 'i stream_reader)" where
  "read_game_rotation star inc =
     read_then (read_float32 star inc) (\<lambda>pitch.
     read_then (read_float32 star inc) (\<lambda>yaw.
     read_then (read_float32 star inc) (\<lambda>roll.
     read_return \<lparr>rot_pitch = pitch, rot_yaw = yaw, rot_roll = roll\<rparr>)))"

definition game_rotation_bytes :: "game_rotation \<Rightarrow> byte list" where
  "game_rotation_bytes x = word_bytes (rot_pitch x) @ word_bytes (rot_yaw x) @ word_bytes (rot_roll x)"

record game_transform =
  tf_position :: game_position
  tf_rotation :: game_rotation

definition write_game_transform :: "game_transform \<Rightarrow> stream_writer \<Rightarrow> stream_writer" where
  "write_game_transform x w =
     (let w = write_game_position (tf_position x) w
      in write_game_rotation (tf_rotation x) w)"

definition read_game_transform ::
  "('i \<Rightarrow> fault + byte) \<Rightarrow> ('i \<Rightarrow> fault + 'i) \<Rightarrow> 'i stream_reader
     \<Rightarrow> fault + (game_transform \<times> 'i stream_reader)" where
  "read_game_transform star inc =
     read_then (read_game_position star inc) (\<lambda>position.
     read_then (read_game_rotation star inc) (\<lambda>rotation.
     read_return \<lparr>tf_position = position, tf_rotation = rotation\<rparr>))"

definition game_transform_bytes :: "game_transform \<Rightarrow> byte list" where
  "game_transform_bytes x = game_position_bytes (tf_position x) @ game_rotation_bytes (tf_rotation x)"

record game_player_base =
  pb_hp :: "32 word"
  pb_maxHp :: "32 word"
  pb_attackMin :: "32 word"
  pb_attackMax :: "32 word"
  pb_attackRange :: "32 word"
  pb_attackSpeed :: "32 word"
  pb_speed :: "32 word"
  pb_defence :: "32 word"
  pb_name :: "byte list"
  pb_level :: "32 word"
  pb_gender :: "32 word"
  pb_face :: "32 word"
  pb_hair :: "32 word"
  pb_str :: "32 word"
  pb_dex :: "32 word"
  pb_intell :: "32 word"
  pb_stamina :: "32 word"
  pb_staminaMax :: "32 word"

definition write_game_player_base :: "game_player_base \<Rightarrow> stream_writer \<Rightarrow> stream_writer" where
  "write_game_player_base x w =
     (let w = write_word (pb_hp x) w;
          w = write_word (pb_maxHp x) w;
          w = write_word (pb_attackMin x) w;
          w = write_word (pb_attackMax x) w;
          w = write_word (pb_attackRange x) w;
          w = write_word (pb_attackSpeed x) w;
          w = write_word (pb_speed x) w;
          w = write_word (pb_defence x) w;
          w = write_name (pb_name x) w;
          w = write_word (pb_level x) w;
          w = write_word (pb_gender x) w;
          w = write_word (pb_face x) w;
          w = write_word (pb_hair x) w;
          w = write_word (pb_str x) w;
          w = write_word (pb_dex x) w;
          w = write_word (pb_intell x) w;
          w = write_word (pb_stamina x) w
      in write_word (pb_staminaMax x) w)"

definition read_game_player_base ::
  "('i \<Rightarrow> fault + byte) \<Rightarrow> ('i \<Rightarrow> fault + 'i) \<Rightarrow> 'i stream_reader
     \<Rightarrow> fault + (game_player_base \<times> 'i stream_reader)" where
  "read_game_player_base star inc =
     read_then (read_float32 star inc) (\<lambda>hp.
     read_then (read_float32 star inc) (\<lambda>maxHp.
     read_then (read_float32 star inc) (\<lambda>attackMin.
     read_then (read_float32 star inc) (\<lambda>attackMax.
     read_then (read_float32 star inc) (\<lambda>attackRange.
     read_then (read_float32 star inc) (\<lambda>attackSpeed.
     read_then (read_float32 star inc) (\<lambda>speed.
     read_then (read_float32 star inc) (\<lambda>defence.
     read_then (read_name star inc) (\<lambda>name.
     read_then (read_word star inc) (\<lambda>level.
     read_then (read_word star inc) (\<lambda>gender.
     read_then (read_word star inc) (\<lambda>face.
     read_then (read_word star inc) (\<lambda>hair.
     read_then (read_word star inc) (\<lambda>str.
     read_then (read_word star inc) (\<lambda>dex.
     read_then (read_word star inc) (\<lambda>intell.
     read_then (read_float32 star inc) (\<lambda>stamina.
     read_then (read_float32 star inc) (\<lambda>staminaMax.
     read_return \<lparr>pb_hp = hp, pb_maxHp = maxHp, pb_attackMin = attackMin, pb_attackMax = attackMax,
        pb_attackRange = attackRange, pb_attackSpeed = attackSpeed, pb_speed = speed,
        pb_defence = defence, pb_name = name, pb_level = level, pb_gender = gender,
        pb_face = face, pb_hair = hair, pb_str = str, pb_dex = dex, pb_intell = intell,
        pb_stamina = stamina, pb_staminaMax = staminaMax\<rparr>))))))))))))))))))"

definition game_player_base_bytes :: "game_player_base \<Rightarrow> byte list" where
  "game_player_base_bytes x = word_bytes (pb_hp x) @ word_bytes (pb_maxHp x) @ word_bytes (pb_attackMin x) @
        word_bytes (pb_attackMax x) @ word_bytes (pb_attackRange x) @
        word_bytes (pb_attackSpeed x) @ word_bytes (pb_speed x) @ word_bytes (pb_defence x) @
        (word_bytes (word_of_nat (length (pb_name x)) + 1 :: 16 word) @ pb_name x @ [0]) @
        word_bytes (pb_level x) @ word_bytes (pb_gender x) @ word_bytes (pb_face x) @
        word_bytes (pb_hair x) @ word_bytes (pb_str x) @ word_bytes (pb_dex x) @
        word_bytes (pb_intell x) @ word_bytes (pb_stamina x) @ word_bytes (pb_staminaMax x)"

definition game_player_base_ok :: "game_player_base \<Rightarrow> bool" where
  "game_player_base_ok x \<longleftrightarrow> length (pb_name x) + 1 < 2 ^ 15"

record game_equipment =
  eq_id :: "32 word"
  eq_type :: "32 word"
  eq_count :: "32 word"
  eq_attack :: "32 word"
  eq_defence :: "32 word"
  eq_str :: "32 word"
  eq_dex :: "32 word"
  eq_intell :: "32 word"

definition write_game_equipment :: "game_equipment \<Rightarrow> stream_writer \<Rightarrow> stream_writer" where
  "write_game_equipment x w =
     (let w = write_word (eq_id x) w;
          w = write_word (eq_type x) w;
          w = write_word (eq_count x) w;
          w = write_word (eq_attack x) w;
          w = write_word (eq_defence x) w;
          w = write_word (eq_str x) w;
          w = write_word (eq_dex x) w
      in write_word (eq_intell x) w)"

definition read_game_equipment ::
  "('i \<Rightarrow> fault + byte) \<Rightarrow> ('i \<Rightarrow> fault + 'i) \<Rightarrow> 'i stream_reader
     \<Rightarrow> fault + (game_equipment \<times> 'i stream_reader)" where
  "read_game_equipment star inc =
     read_then (read_word star inc) (\<lambda>i.
     read_then (read_word star inc) (\<lambda>typ.
     read_then (read_word star inc) (\<lambda>cnt.
     read_then (read_word star inc) (\<lambda>attack.
     read_then (read_word star inc) (\<lambda>defence.
     read_then (read_word star inc) (\<lambda>str.
     read_then (read_word star inc) (\<lambda>dex.
     read_then (read_word star inc) (\<lambda>intell.
     read_return \<lparr>eq_id = i, eq_type = typ, eq_count = cnt, eq_attack = attack, eq_defence = defence,
        eq_str = str, eq_dex = dex, eq_intell = intell\<rparr>))))))))"

definition game_equipment_bytes :: "game_equipment \<Rightarrow> byte list" where
  "game_equipment_bytes x = word_bytes (eq_id x) @ word_bytes (eq_type x) @ word_bytes (eq_count x) @
        word_bytes (eq_attack x) @ word_bytes (eq_defence x) @ word_bytes (eq_str x) @
        word_bytes (eq_dex x) @ word_bytes (eq_intell x)"

record game_player_equipment =
  pe_armor :: game_equipment
  pe_gloves :: game_equipment
  pe_shoes :: game_equipment
  pe_weapon :: game_equipment

definition write_game_player_equipment :: "game_player_equipment \<Rightarrow> stream_writer \<Rightarrow> stream_writer" where
  "write_game_player_equipment x w =
     (let w = write_game_equipment (pe_armor x) w;
          w = write_game_equipment (pe_gloves x) w;
          w = write_game_equipment (pe_shoes x) w
      in write_game_equipment (pe_weapon x) w)"

definition read_game_player_equipment ::
  "('i \<Rightarrow> fault + byte) \<Rightarrow> ('i \<Rightarrow> fault + 'i) \<Rightarrow> 'i stream_reader
     \<Rightarrow> fault + (game_player_equipment \<times> 'i stream_reader)" where
  "read_game_player_equipment star inc =
     read_then (read_game_equipment star inc) (\<lambda>armor.
     read_then (read_game_equipment star inc) (\<lambda>gloves.
     read_then (read_game_equipment star inc) (\<lambda>shoes.
     read_then (read_game_equipment star inc) (\<lambda>weapon.
     read_return \<lparr>pe_armor = armor, pe_gloves = gloves, pe_shoes = shoes, pe_weapon = weapon\<rparr>))))"

definition game_player_equipment_bytes :: "game_player_equipment \<Rightarrow> byte list" where
  "game_player_equipment_bytes x = game_equipment_bytes (pe_armor x) @ game_equipment_bytes (pe_gloves x) @
        game_equipment_bytes (pe_shoes x) @ game_equipment_bytes (pe_weapon x)"

record game_player_quick_slot =
  qs_index :: "32 word"
  qs_type :: "32 word"
  qs_id :: "32 word"

definition write_game_player_quick_slot :: "game_player_quick_slot \<Rightarrow> stream_writer \<Rightarrow> stream_writer" where
  "write_game_player_quick_slot x w =
     (let w = write_word (qs_index x) w;
          w = write_word (qs_type x) w
      in write_word (qs_id x) w)"

definition read_game_player_quick_slot ::
  "('i \<Rightarrow> fault + byte) \<Rightarrow> ('i \<Rightarrow> fault + 'i) \<Rightarrow> 'i stream_reader
     \<Rightarrow> fault + (game_player_quick_slot \<times> 'i stream_reader)" where
  "read_game_player_quick_slot star inc =
     read_then (read_word star inc) (\<lambda>idx.
     read_then (read_word star inc) (\<lambda>typ.
     read_then (read_word star inc) (\<lambda>i.
     read_return \<lparr>qs_index = idx, qs_type = typ, qs_id = i\<rparr>)))"

definition game_player_quick_slot_bytes :: "game_player_quick_slot \<Rightarrow> byte list" where
  "game_player_quick_slot_bytes x = word_bytes (qs_index x) @ word_bytes (qs_type x) @ word_bytes (qs_id x)"

record game_player_skill =
  sk_id :: "32 word"

definition write_game_player_skill :: "game_player_skill \<Rightarrow> stream_writer \<Rightarrow> stream_writer" where
  "write_game_player_skill x w = write_word (sk_id x) w"

definition read_game_player_skill ::
  "('i \<Rightarrow> fault + byte) \<Rightarrow> ('i \<Rightarrow> fault + 'i) \<Rightarrow> 'i stream_reader
     \<Rightarrow> fault + (game_player_skill \<times> 'i stream_reader)" where
  "read_game_player_skill star inc =
     read_then (read_word star inc) (\<lambda>i.
     read_return \<lparr>sk_id = i\<rparr>)"

definition game_player_skill_bytes :: "game_player_skill \<Rightarrow> byte list" where
  "game_player_skill_bytes x = word_bytes (sk_id x)"

record game_player_inventory_item =
  it_slot :: "32 word"
  it_id :: "32 word"
  it_count :: "32 word"
  it_attack :: "32 word"
  it_defence :: "32 word"
  it_str :: "32 word"
  it_dex :: "32 word"
  it_intell :: "32 word"

definition write_game_player_inventory_item :: "game_player_inventory_item \<Rightarrow> stream_writer \<Rightarrow> stream_writer" where
  "write_game_player_inventory_item x w =
     (let w = write_word (it_slot x) w;
          w = write_word (it_id x) w;
          w = write_word (it_count x) w;
          w = write_word (it_attack x) w;
          w = write_word (it_defence x) w;
          w = write_word (it_str x) w;
          w = write_word (it_dex x) w
      in write_word (it_intell x) w)"

definition read_game_player_inventory_item ::
  "('i \<Rightarrow> fault + byte) \<Rightarrow> ('i \<Rightarrow> fault + 'i) \<Rightarrow> 'i stream_reader
     \<Rightarrow> fault + (game_player_inventory_item \<times> 'i stream_reader)" where
  "read_game_player_inventory_item star inc =
     read_then (read_word star inc) (\<lambda>slot.
     read_then (read_word star inc) (\<lambda>i.
     read_then (read_word star inc) (\<lambda>cnt.
     read_then (read_word star inc) (\<lambda>attack.
     read_then (read_word star inc) (\<lambda>defence.
     read_then (read_word star inc) (\<lambda>str.
     read_then (read_word star inc) (\<lambda>dex.
     read_then (read_word star inc) (\<lambda>intell.
     read_return \<lparr>it_slot = slot, it_id = i, it_count = cnt, it_attack = attack, it_defence = defence,
        it_str = str, it_dex = dex, it_intell = intell\<rparr>))))))))"

definition game_player_inventory_item_bytes :: "game_player_inventory_item \<Rightarrow> byte list" where
  "game_player_inventory_item_bytes x = word_bytes (it_slot x) @ word_bytes (it_id x) @ word_bytes (it_count x) @
        word_bytes (it_attack x) @ word_bytes (it_defence x) @ word_bytes (it_str x) @
        word_bytes (it_dex x) @ word_bytes (it_intell x)"

record game_remote_player =
  rp_id :: "64 word"
  rp_transform :: game_transform
  rp_base :: game_player_base
  rp_equipment :: game_player_equipment

definition write_game_remote_player :: "game_remote_player \<Rightarrow> stream_writer \<Rightarrow> stream_writer" where
  "write_game_remote_player x w =
     (let w = write_word (rp_id x) w;
          w = write_game_transform (rp_transform x) w;
          w = write_game_player_base (rp_base x) w
      in write_game_player_equipment (rp_equipment x) w)"

definition read_game_remote_player ::
  "('i \<Rightarrow> fault + byte) \<Rightarrow> ('i \<Rightarrow> fault + 'i) \<Rightarrow> 'i stream_reader
     \<Rightarrow> fault + (game_remote_player \<times> 'i stream_reader)" where
  "read_game_remote_player star inc =
     read_then (read_word star inc) (\<lambda>i.
     read_then (read_game_transform star inc) (\<lambda>transform.
     read_then (read_game_player_base star inc) (\<lambda>base.
     read_then (read_game_player_equipment star inc) (\<lambda>equipment.
     read_return \<lparr>rp_id = i, rp_transform = transform, rp_base = base, rp_equipment = equipment\<rparr>))))"

definition game_remote_player_bytes :: "game_remote_player \<Rightarrow> byte list" where
  "game_remote_player_bytes x = word_bytes (rp_id x) @ game_transform_bytes (rp_transform x) @
        game_player_base_bytes (rp_base x) @ game_player_equipment_bytes (rp_equipment x)"

definition game_remote_player_ok :: "game_remote_player \<Rightarrow> bool" where
  "game_remote_player_ok x \<longleftrightarrow> game_player_base_ok (rp_base x)"

record game_player =
  pl_id :: "64 word"
  pl_transform :: game_transform
  pl_base :: game_player_base
  pl_equipment :: game_player_equipment
  pl_gold :: "32 word"
  pl_itemsCount :: "32 word"
  pl_items :: "game_player_inventory_item list"
  pl_quickSlotCount :: "32 word"
  pl_quickSlots :: "game_player_quick_slot list"
  pl_skillsCount :: "32 word"
  pl_skills :: "game_player_skill list"
  pl_exp :: "32 word"
  pl_expMax :: "32 word"

definition write_game_player :: "game_player \<Rightarrow> stream_writer \<Rightarrow> stream_writer" where
  "write_game_player x w =
     (let w = write_word (pl_id x) w;
          w = write_game_transform (pl_transform x) w;
          w = write_game_player_base (pl_base x) w;
          w = write_game_player_equipment (pl_equipment x) w;
          w = write_word (pl_gold x) w;
          w = write_word (pl_itemsCount x) w;
          w = fold write_game_player_inventory_item (pl_items x) w;
          w = write_word (pl_quickSlotCount x) w;
          w = fold write_game_player_quick_slot (pl_quickSlots x) w;
          w = write_word (pl_skillsCount x) w;
          w = fold write_game_player_skill (pl_skills x) w;
          w = write_word (pl_exp x) w
      in write_word (pl_expMax x) w)"

definition read_game_player ::
  "('i \<Rightarrow> fault + byte) \<Rightarrow> ('i \<Rightarrow> fault + 'i) \<Rightarrow> 'i stream_reader
     \<Rightarrow> fault + (game_player \<times> 'i stream_reader)" where
  "read_game_player star inc =
     read_then (read_word star inc) (\<lambda>i.
     read_then (read_game_transform star inc) (\<lambda>transform.
     read_then (read_game_player_base star inc) (\<lambda>base.
     read_then (read_game_player_equipment star inc) (\<lambda>equipment.
     read_then (read_word star inc) (\<lambda>gold.
     read_then (read_word star inc) (\<lambda>itemsCount.
     read_then (read_reserved (sint itemsCount) (read_game_player_inventory_item star inc)) (\<lambda>items.
     read_then (read_word star inc) (\<lambda>quickSlotCount.
     read_then (read_reserved (sint quickSlotCount) (read_game_player_quick_slot star inc)) (\<lambda>quickSlots.
     read_then (read_word star inc) (\<lambda>skillsCount.
     read_then (read_reserved (sint skillsCount) (read_game_player_skill star inc)) (\<lambda>skills.
     read_then (read_word star inc) (\<lambda>expv.
     read_then (read_word star inc) (\<lambda>expMax.
     read_return \<lparr>pl_id = i, pl_transform = transform, pl_base = base, pl_equipment = equipment, pl_gold = gold,
        pl_itemsCount = itemsCount, pl_items = items, pl_quickSlotCount = quickSlotCount,
        pl_quickSlots = quickSlots, pl_skillsCount = skillsCount, pl_skills = skills,
        pl_exp = expv, pl_expMax = expMax\<rparr>)))))))))))))"

definition game_player_bytes :: "game_player \<Rightarrow> byte list" where
  "game_player_bytes x = word_bytes (pl_id x) @ game_transform_bytes (pl_transform x) @
        game_player_base_bytes (pl_base x) @ game_player_equipment_bytes (pl_equipment x) @
        word_bytes (pl_gold x) @ word_bytes (pl_itemsCount x) @
        concat (map game_player_inventory_item_bytes (pl_items x)) @
        word_bytes (pl_quickSlotCount x) @
        concat (map game_player_quick_slot_bytes (pl_quickSlots x)) @
        word_bytes (pl_skillsCount x) @ concat (map game_player_skill_bytes (pl_skills x)) @
        word_bytes (pl_exp x) @ word_bytes (pl_expMax x)"

definition game_player_ok :: "game_player \<Rightarrow> bool" where
  "game_player_ok x \<longleftrightarrow> game_player_base_ok (pl_base x) \<and> sint (pl_itemsCount x) = int (length (pl_items x)) \<and> sint (pl_quickSlotCount x) = int (length (pl_quickSlots x)) \<and> sint (pl_skillsCount x) = int (length (pl_skills x))"

record game_monster =
  mo_dataId :: "32 word"
  mo_id :: "64 word"
  mo_transform :: game_transform
  mo_hp :: "32 word"
  mo_maxHp :: "32 word"
  mo_attackMin :: "32 word"
  mo_attackMax :: "32 word"
  mo_attackRange :: "32 word"
  mo_attackSpeed :: "32 word"
  mo_speed :: "32 word"
  mo_defence :: "32 word"

definition write_game_monster :: "game_monster \<Rightarrow> stream_writer \<Rightarrow> stream_writer" where
  "write_game_monster x w =
     (let w = write_word (mo_dataId x) w;
          w = write_word (mo_id x) w;
          w = write_game_transform (mo_transform x) w;
          w = write_word (mo_hp x) w;
          w = write_word (mo_maxHp x) w;
          w = write_word (mo_attackMin x) w;
          w = write_word (mo_attackMax x) w;
          w = write_word (mo_attackRange x) w;
          w = write_word (mo_attackSpeed x) w;
          w = write_word (mo_speed x) w
      in write_word (mo_defence x) w)"

definition read_game_monster ::
  "('i \<Rightarrow> fault + byte) \<Rightarrow> ('i \<Rightarrow> fault + 'i) \<Rightarrow> 'i stream_reader
     \<Rightarrow> fault + (game_monster \<times> 'i stream_reader)" where
  "read_game_monster star inc =
     read_then (read_word star inc) (\<lambda>dataId.
     read_then (read_word star inc) (\<lambda>i.
     read_then (read_game_transform star inc) (\<lambda>transform.
     read_then (read_float32 star inc) (\<lambda>hp.
     read_then (read_float32 star inc) (\<lambda>maxHp.
     read_then (read_float32 star inc) (\<lambda>attackMin.
     read_then (read_float32 star inc) (\<lambda>attackMax.
     read_then (read_float32 star inc) (\<lambda>attackRange.
     read_then (read_float32 star inc) (\<lambda>attackSpeed.
     read_then (read_float32 star inc) (\<lambda>speed.
     read_then (read_float32 star inc) (\<lambda>defence.
     read_return \<lparr>mo_dataId = dataId, mo_id = i, mo_transform = transform, mo_hp = hp, mo_maxHp = maxHp,
        mo_attackMin = attackMin, mo_attackMax = attackMax, mo_attackRange = attackRange,
        mo_attackSpeed = attackSpeed, mo_speed = speed, mo_defence = defence\<rparr>)))))))))))"

definition game_monster_bytes :: "game_monster \<Rightarrow> byte list" where
  "game_monster_bytes x = word_bytes (mo_dataId x) @ word_bytes (mo_id x) @ game_transform_bytes (mo_transform x) @
        word_bytes (mo_hp x) @ word_bytes (mo_maxHp x) @ word_bytes (mo_attackMin x) @
        word_bytes (mo_attackMax x) @ word_bytes (mo_attackRange x) @
        word_bytes (mo_attackSpeed x) @ word_bytes (mo_speed x) @ word_bytes (mo_defence x)"

lemma put_bytes_put_bytes [simp]: "put_bytes cs (put_bytes bs w) = put_bytes (bs @ cs) w"
  by (simp add: put_bytes_def)

lemma fold_put_bytes [simp]: "fold (\<lambda>x. put_bytes (f x)) xs w = put_bytes (concat (map f xs)) w"
  by (induction xs arbitrary: w) (simp_all add: put_bytes_def)

lemma write_game_position_eq [simp]: "write_game_position x = put_bytes (game_position_bytes x)"
  by (rule ext) (simp add: write_game_position_def game_position_bytes_def write_word_def write_name_def write_string_def Let_def)

lemma write_game_rotation_eq [simp]: "write_game_rotation x = put_bytes (game_rotation_bytes x)"
  by (rule ext) (simp add: write_game_rotation_def game_rotation_bytes_def write_word_def write_name_def write_string_def Let_def)

lemma write_game_transform_eq [simp]: "write_game_transform x = put_bytes (game_transform_bytes x)"
  by (rule ext) (simp add: write_game_transform_def game_transform_bytes_def write_word_def write_name_def write_string_def Let_def)

lemma write_game_player_base_eq [simp]: "write_game_player_base x = put_bytes (game_player_base_bytes x)"
  by (rule ext) (simp add: write_game_player_base_def game_player_base_bytes_def write_word_def write_name_def write_string_def Let_def)

lemma write_game_equipment_eq [simp]: "write_game_equipment x = put_bytes (game_equipment_bytes x)"
  by (rule ext) (simp add: write_game_equipment_def game_equipment_bytes_def write_word_def write_name_def write_string_def Let_def)

lemma write_game_player_equipment_eq [simp]: "write_game_player_equipment x = put_bytes (game_player_equipment_bytes x)"
  by (rule ext) (simp add: write_game_player_equipment_def game_player_equipment_bytes_def write_word_def write_name_def write_string_def Let_def)

lemma write_game_player_quick_slot_eq [simp]: "write_game_player_quick_slot x = put_bytes (game_player_quick_slot_bytes x)"
  by (rule ext) (simp add: write_game_player_quick_slot_def game_player_quick_slot_bytes_def write_word_def write_name_def write_string_def Let_def)

lemma fold_write_game_player_quick_slot [simp]: "fold write_game_player_quick_slot xs w = put_bytes (concat (map game_player_quick_slot_bytes xs)) w"
  using fold_put_bytes [of game_player_quick_slot_bytes xs w] by (simp cong: fold_cong)

lemma write_game_player_skill_eq [simp]: "write_game_player_skill x = put_bytes (game_player_skill_bytes x)"
  by (rule ext) (simp add: write_game_player_skill_def game_player_skill_bytes_def write_word_def write_name_def write_string_def Let_def)

lemma fold_write_game_player_skill [simp]: "fold write_game_player_skill xs w = put_bytes (concat (map game_player_skill_bytes xs)) w"
  using fold_put_bytes [of game_player_skill_bytes xs w] by (simp cong: fold_cong)

lemma write_game_player_inventory_item_eq [simp]: "write_game_player_inventory_item x = put_bytes (game_player_inventory_item_bytes x)"
  by (rule ext) (simp add: write_game_player_inventory_item_def game_player_inventory_item_bytes_def write_word_def write_name_def write_string_def Let_def)

lemma fold_write_game_player_inventory_item [simp]: "fold write_game_player_inventory_item xs w = put_bytes (concat (map game_player_inventory_item_bytes xs)) w"
  using fold_put_bytes [of game_player_inventory_item_bytes xs w] by (simp cong: fold_cong)

lemma write_game_remote_player_eq [simp]: "write_game_remote_player x = put_bytes (game_remote_player_bytes x)"
  by (rule ext) (simp add: write_game_remote_player_def game_remote_player_bytes_def write_word_def write_name_def write_string_def Let_def)

lemma write_game_player_eq [simp]: "write_game_player x = put_bytes (game_player_bytes x)"
  by (rule ext) (simp add: write_game_player_def game_player_bytes_def write_word_def write_name_def write_string_def Let_def)

lemma write_game_monster_eq [simp]: "write_game_monster x = put_bytes (game_monster_bytes x)"
  by (rule ext) (simp add: write_game_monster_def game_monster_bytes_def write_word_def write_name_def write_string_def Let_def)

lemma packet_write_put_bytes [simp]: "packet_write_object (put_bytes bs) buf = buf @ bs"
  by (simp add: packet_write_object_def put_bytes_def stream_writer_new_def Let_def)

lemma fold_write_words: "fold packet_write_word xs buf = buf @ concat (map word_bytes xs)"
  by (induction xs arbitrary: buf) (simp_all add: packet_write_word_def)

lemma fold_write_objects:
  "fold (\<lambda>x. packet_write_object (put_bytes (f x))) xs buf = buf @ concat (map f xs)"
  by (induction xs arbitrary: buf) simp_all

lemma packet_write_flag: "packet_write_bool b buf = buf @ flag_byte b"
  by (simp add: packet_write_bool_def flag_byte_def)

lemmas write_eqs = packet_write_word_def packet_write_flag fold_write_words fold_write_objects
  packet_write_string_append [of _ "_ @ _"] packet_write_string_append [of _ "word_bytes _"]

subsection \<open>The messages of the client\<close>

datatype game_cs =
    CsPing "64 word" "64 word" "64 word"
  | CsAuthenticate "byte list"
  | CsLoadLevelComplete
  | CsStartPlayerAttack "32 word" game_position game_rotation
  | CsApplyPlayerAttack "64 word" "32 word" "64 word list" "32 word" game_position game_rotation
  | CsMovePlayer game_position game_rotation
  | CsStopPlayer "64 word" game_position
  | CsSprintPlayer "64 word"
  | CsRollDodgePlayer "64 word" game_rotation
  | CsChat "byte list"
  | CsSwapItem bool "32 word" bool "32 word"
  | CsStartDungeonMatch "32 word"
  | CsCancelDungeonMatch
  | CsApproveDungeonMatch
  | CsRejectDungeonMatch

fun game_cs_opcode :: "game_cs \<Rightarrow> 32 word" where
  "game_cs_opcode (CsPing _ _ _) = 999"
| "game_cs_opcode (CsAuthenticate _) = 1000"
| "game_cs_opcode CsLoadLevelComplete = 1012"
| "game_cs_opcode (CsStartPlayerAttack _ _ _) = 1008"
| "game_cs_opcode (CsApplyPlayerAttack _ _ _ _ _ _) = 1009"
| "game_cs_opcode (CsMovePlayer _ _) = 1001"
| "game_cs_opcode (CsStopPlayer _ _) = 1020"
| "game_cs_opcode (CsSprintPlayer _) = 1021"
| "game_cs_opcode (CsRollDodgePlayer _ _) = 1023"
| "game_cs_opcode (CsChat _) = 1011"
| "game_cs_opcode (CsSwapItem _ _ _ _) = 1003"
| "game_cs_opcode (CsStartDungeonMatch _) = 3001"
| "game_cs_opcode CsCancelDungeonMatch = 3002"
| "game_cs_opcode CsApproveDungeonMatch = 3003"
| "game_cs_opcode CsRejectDungeonMatch = 3004"

definition cs_ping_serialize :: "64 word \<Rightarrow> 64 word \<Rightarrow> 64 word \<Rightarrow> byte list \<Rightarrow> byte list" where
  "cs_ping_serialize sequence clientTimePoint serverTimePoint buf =
     (let buf = packet_write_word sequence buf;
          buf = packet_write_word clientTimePoint buf
      in packet_write_word serverTimePoint buf)"

definition cs_ping_deserialize ::
  "('i \<Rightarrow> fault + byte) \<Rightarrow> ('i \<Rightarrow> fault + 'i) \<Rightarrow> 'i stream_reader
     \<Rightarrow> fault + (game_cs \<times> 'i stream_reader)" where
  "cs_ping_deserialize star inc =
     read_then (read_word star inc) (\<lambda>sequence.
     read_then (read_word star inc) (\<lambda>clientTimePoint.
     read_then (read_word star inc) (\<lambda>serverTimePoint.
     read_return (CsPing sequence clientTimePoint serverTimePoint))))"

definition cs_authenticate_serialize :: "byte list \<Rightarrow> byte list \<Rightarrow> byte list" where
  "cs_authenticate_serialize authenticationToken buf =
     packet_write_string authenticationToken buf"

definition cs_authenticate_deserialize ::
  "('i \<Rightarrow> fault + byte) \<Rightarrow> ('i \<Rightarrow> fault + 'i) \<Rightarrow> 'i stream_reader
     \<Rightarrow> fault + (game_cs \<times> 'i stream_reader)" where
  "cs_authenticate_deserialize star inc =
     read_then (packet_read_string star inc) (\<lambda>authenticationToken.
     read_return (CsAuthenticate authenticationToken))"

definition cs_start_player_attack_serialize :: "32 word \<Rightarrow> game_position \<Rightarrow> game_rotation \<Rightarrow> byte list \<Rightarrow> byte list" where
  "cs_start_player_attack_serialize skillId position rotation buf =
     (let buf = packet_write_word skillId buf;
          buf = packet_write_object (write_game_position position) buf
      in packet_write_object (write_game_rotation rotation) buf)"

definition cs_start_player_attack_deserialize ::
  "('i \<Rightarrow> fault + byte) \<Rightarrow> ('i \<Rightarrow> fault + 'i) \<Rightarrow> 'i stream_reader
     \<Rightarrow> fault + (game_cs \<times> 'i stream_reader)" where
  "cs_start_player_attack_deserialize star inc =
     read_then (read_word star inc) (\<lambda>skillId.
     read_then (read_game_position star inc) (\<lambda>position.
     read_then (read_game_rotation star inc) (\<lambda>rotation.
     read_return (CsStartPlayerAttack skillId position rotation))))"

definition cs_apply_player_attack_serialize :: "64 word \<Rightarrow> 32 word \<Rightarrow> 64 word list \<Rightarrow> 32 word \<Rightarrow> game_position \<Rightarrow> game_rotation \<Rightarrow> byte list \<Rightarrow> byte list" where
  "cs_apply_player_attack_serialize i targetCount targets skillId position rotation buf =
     (let buf = packet_write_word i buf;
          buf = packet_write_word targetCount buf;
          buf = fold packet_write_word targets buf;
          buf = packet_write_word skillId buf;
          buf = packet_write_object (write_game_position position) buf
      in packet_write_object (write_game_rotation rotation) buf)"

definition cs_apply_player_attack_deserialize ::
  "('i \<Rightarrow> fault + byte) \<Rightarrow> ('i \<Rightarrow> fault + 'i) \<Rightarrow> 'i stream_reader
     \<Rightarrow> fault + (game_cs \<times> 'i stream_reader)" where
  "cs_apply_player_attack_deserialize star inc =
     read_then (read_word star inc) (\<lambda>i.
     read_then (read_word star inc) (\<lambda>targetCount.
     read_then (read_times (nat (sint targetCount)) (read_word star inc)) (\<lambda>targets.
     read_then (read_word star inc) (\<lambda>skillId.
     read_then (read_game_position star inc) (\<lambda>position.
     read_then (read_game_rotation star inc) (\<lambda>rotation.
     read_return (CsApplyPlayerAttack i targetCount targets skillId position rotation)))))))"

definition cs_move_player_serialize :: "game_position \<Rightarrow> game_rotation \<Rightarrow> byte list \<Rightarrow> byte list" where
  "cs_move_player_serialize position rotation buf =
     (let buf = packet_write_object (write_game_position position) buf
      in packet_write_object (write_game_rotation rotation) buf)"

definition cs_move_player_deserialize ::
  "('i \<Rightarrow> fault + byte) \<Rightarrow> ('i \<Rightarrow> fault + 'i) \<Rightarrow> 'i stream_reader
     \<Rightarrow> fault + (game_cs \<times> 'i stream_reader)" where
  "cs_move_player_deserialize star inc =
     read_then (read_game_position star inc) (\<lambda>position.
     read_then (read_game_rotation star inc) (\<lambda>rotation.
     read_return (CsMovePlayer position rotation)))"

definition cs_stop_player_serialize :: "64 word \<Rightarrow> game_position \<Rightarrow> byte list \<Rightarrow> byte list" where
  "cs_stop_player_serialize i position buf =
     (let buf = packet_write_word i buf
      in packet_write_object (write_game_position position) buf)"

definition cs_stop_player_deserialize ::
  "('i \<Rightarrow> fault + byte) \<Rightarrow> ('i \<Rightarrow> fault + 'i) \<Rightarrow> 'i stream_reader
     \<Rightarrow> fault + (game_cs \<times> 'i stream_reader)" where
  "cs_stop_player_deserialize star inc =
     read_then (read_word star inc) (\<lambda>i.
     read_then (read_game_position star inc) (\<lambda>position.
     read_return (CsStopPlayer i position)))"

definition cs_sprint_player_serialize :: "64 word \<Rightarrow> byte list \<Rightarrow> byte list" where
  "cs_sprint_player_serialize i buf =
     packet_write_word i buf"

definition cs_sprint_player_deserialize ::
  "('i \<Rightarrow> fault + byte) \<Rightarrow> ('i \<Rightarrow> fault + 'i) \<Rightarrow> 'i stream_reader
     \<Rightarrow> fault + (game_cs \<times> 'i stream_reader)" where
  "cs_sprint_player_deserialize star inc =
     read_then (read_word star inc) (\<lambda>i.
     read_return (CsSprintPlayer i))"

definition cs_roll_dodge_player_serialize :: "64 word \<Rightarrow> game_rotation \<Rightarrow> byte list \<Rightarrow> byte list" where
  "cs_roll_dodge_player_serialize i rotation buf =
     (let buf = packet_write_word i buf
      in packet_write_object (write_game_rotation rotation) buf)"

definition cs_roll_dodge_player_deserialize ::
  "('i \<Rightarrow> fault + byte) \<Rightarrow> ('i \<Rightarrow> fault + 'i) \<Rightarrow> 'i stream_reader
     \<Rightarrow> fault + (game_cs \<times> 'i stream_reader)" where
  "cs_roll_dodge_player_deserialize star inc =
     read_then (read_word star inc) (\<lambda>i.
     read_then (read_game_rotation star inc) (\<lambda>rotation.
     read_return (CsRollDodgePlayer i rotation)))"

definition cs_chat_serialize :: "byte list \<Rightarrow> byte list \<Rightarrow> byte list" where
  "cs_chat_serialize message buf =
     packet_write_string message buf"

definition cs_chat_deserialize ::
  "('i \<Rightarrow> fault + byte) \<Rightarrow> ('i \<Rightarrow> fault + 'i) \<Rightarrow> 'i stream_reader
     \<Rightarrow> fault + (game_cs \<times> 'i stream_reader)" where
  "cs_chat_deserialize star inc =
     read_then (packet_read_string star inc) (\<lambda>message.
     read_return (CsChat message))"

definition cs_swap_item_serialize :: "bool \<Rightarrow> 32 word \<Rightarrow> bool \<Rightarrow> 32 word \<Rightarrow> byte list \<Rightarrow> byte list" where
  "cs_swap_item_serialize destEquipped destPosition srcEquipped srcPosition buf =
     (let buf = packet_write_bool destEquipped buf;
          buf = packet_write_word destPosition buf;
          buf = packet_write_bool srcEquipped buf
      in packet_write_word srcPosition buf)"

definition cs_swap_item_deserialize ::
  "('i \<Rightarrow> fault + byte) \<Rightarrow> ('i \<Rightarrow> fault + 'i) \<Rightarrow> 'i stream_reader
     \<Rightarrow> fault + (game_cs \<times> 'i stream_reader)" where
  "cs_swap_item_deserialize star inc =
     read_then (read_bool star inc) (\<lambda>destEquipped.
     read_then (read_word star inc) (\<lambda>destPosition.
     read_then (read_bool star inc) (\<lambda>srcEquipped.
     read_then (read_word star inc) (\<lambda>srcPosition.
     read_return (CsSwapItem destEquipped destPosition srcEquipped srcPosition)))))"

definition cs_start_dungeon_match_serialize :: "32 word \<Rightarrow> byte list \<Rightarrow> byte list" where
  "cs_start_dungeon_match_serialize deugeonId buf =
     packet_write_word deugeonId buf"

definition cs_start_dungeon_match_deserialize ::
  "('i \<Rightarrow> fault + byte) \<Rightarrow> ('i \<Rightarrow> fault + 'i) \<Rightarrow> 'i stream_reader
     \<Rightarrow> fault + (game_cs \<times> 'i stream_reader)" where
  "cs_start_dungeon_match_deserialize star inc =
     read_then (read_word star inc) (\<lambda>deugeonId.
     read_return (CsStartDungeonMatch deugeonId))"

fun game_cs_serialize :: "game_cs \<Rightarrow> byte list \<Rightarrow> byte list" where
  "game_cs_serialize (CsPing sequence clientTimePoint serverTimePoint) buf = cs_ping_serialize sequence clientTimePoint serverTimePoint buf"
| "game_cs_serialize (CsAuthenticate authenticationToken) buf = cs_authenticate_serialize authenticationToken buf"
| "game_cs_serialize CsLoadLevelComplete buf = buf"
| "game_cs_serialize (CsStartPlayerAttack skillId position rotation) buf = cs_start_player_attack_serialize skillId position rotation buf"
| "game_cs_serialize (CsApplyPlayerAttack i targetCount targets skillId position rotation) buf = cs_apply_player_attack_serialize i targetCount targets skillId position rotation buf"
| "game_cs_serialize (CsMovePlayer position rotation) buf = cs_move_player_serialize position rotation buf"
| "game_cs_serialize (CsStopPlayer i position) buf = cs_stop_player_serialize i position buf"
| "game_cs_serialize (CsSprintPlayer i) buf = cs_sprint_player_serialize i buf"
| "game_cs_serialize (CsRollDodgePlayer i rotation) buf = cs_roll_dodge_player_serialize i rotation buf"
| "game_cs_serialize (CsChat message) buf = cs_chat_serialize message buf"
| "game_cs_serialize (CsSwapItem destEquipped destPosition srcEquipped srcPosition) buf = cs_swap_item_serialize destEquipped destPosition srcEquipped srcPosition buf"
| "game_cs_serialize (CsStartDungeonMatch deugeonId) buf = cs_start_dungeon_match_serialize deugeonId buf"
| "game_cs_serialize CsCancelDungeonMatch buf = buf"
| "game_cs_serialize CsApproveDungeonMatch buf = buf"
| "game_cs_serialize CsRejectDungeonMatch buf = buf"

definition game_cs_create_from ::
  "('i \<Rightarrow> fault + byte) \<Rightarrow> ('i \<Rightarrow> fault + 'i) \<Rightarrow> 'i stream_reader
     \<Rightarrow> fault + (game_cs option \<times> 'i stream_reader)" where
  "game_cs_create_from star inc =
     read_then (read_word star inc) (\<lambda>opcode :: 16 word.
       if opcode = 999 then read_then (cs_ping_deserialize star inc) (\<lambda>m. read_return (Some m))
       else if opcode = 1000 then read_then (cs_authenticate_deserialize star inc) (\<lambda>m. read_return (Some m))
       else if opcode = 1012 then read_return (Some CsLoadLevelComplete)
       else if opcode = 1008 then read_then (cs_start_player_attack_deserialize star inc) (\<lambda>m. read_return (Some m))
       else if opcode = 1009 then read_then (cs_apply_player_attack_deserialize star inc) (\<lambda>m. read_return (Some m))
       else if opcode = 1001 then read_then (cs_move_player_deserialize star inc) (\<lambda>m. read_return (Some m))
       else if opcode = 1020 then read_then (cs_stop_player_deserialize star inc) (\<lambda>m. read_return (Some m))
       else if opcode = 1021 then read_then (cs_sprint_player_deserialize star inc) (\<lambda>m. read_return (Some m))
       else if opcode = 1023 then read_then (cs_roll_dodge_player_deserialize star inc) (\<lambda>m. read_return (Some m))
       else if opcode = 1011 then read_then (cs_chat_deserialize star inc) (\<lambda>m. read_return (Some m))
       else if opcode = 1003 then read_then (cs_swap_item_deserialize star inc) (\<lambda>m. read_return (Some m))
       else if opcode = 3001 then read_then (cs_start_dungeon_match_deserialize star inc) (\<lambda>m. read_return (Some m))
       else if opcode = 3002 then read_return (Some CsCancelDungeonMatch)
       else if opcode = 3003 then read_return (Some CsApproveDungeonMatch)
       else if opcode = 3004 then read_return (Some CsRejectDungeonMatch)
       else read_return None)"

fun game_cs_ok :: "game_cs \<Rightarrow> bool" where
  "game_cs_ok (CsAuthenticate authenticationToken) \<longleftrightarrow>
     string_ok authenticationToken"
| "game_cs_ok (CsApplyPlayerAttack i targetCount targets skillId position rotation) \<longleftrightarrow>
     sint targetCount = int (length targets)"
| "game_cs_ok (CsChat message) \<longleftrightarrow>
     string_ok message"
| "game_cs_ok _ \<longleftrightarrow> True"

subsection \<open>The messages to the client\<close>

text \<open>The opcode is read as 16 bits and compared as an integer.\<close>

datatype game_sc =
    ScPong "64 word" "64 word" "64 word"
  | ScEnterGame "32 word" "32 word" "game_remote_player list" "32 word" "game_monster list" game_player
  | ScNotifyPlayerActivated
  | ScSpawnRemotePlayer "32 word" "game_remote_player list"
  | ScAddRemotePlayer "32 word" "game_remote_player list"
  | ScRemoveRemotePlayer "32 word" "64 word list"
  | ScRemotePlayerAttack "64 word" "32 word" game_position game_rotation
  | ScBeAttackedPlayer "64 word" "64 word" "32 word" "32 word"
  | ScSpawnMonster "32 word" "game_monster list"
  | ScAddMonster "32 word" "game_monster list"
  | ScRemoveMonster "32 word" "64 word list"
  | ScDespawnMonster "32 word" "64 word list"
  | ScMoveMonster "64 word" game_position game_rotation
  | ScAttackMonster "64 word" "32 word" game_position game_rotation game_position "64 word"
  | ScBeAttackedMonster "64 word" "64 word" "32 word"
  | ScMoveRemotePlayer "64 word" game_position game_rotation
  | ScStopRemotePlayer "64 word" game_position
  | ScSprintRemotePlayer "64 word"
  | ScRollDodgeRemotePlayer "64 word" game_rotation
  | ScNotifyChattingMessage "32 word" "byte list"
  | ScAddInventory "32 word" "game_player_inventory_item list"
  | ScRemoveInventory "32 word" "32 word list"
  | ScNotifySwapItemResult bool bool game_player_inventory_item bool bool game_player_inventory_item
  | ScChangeRemotePlayerEquipItem "64 word" "32 word" "32 word"
  | ScNotifyDungeonMatchGroupCreation
  | ScNotifyDungeonMatchFailure
  | ScNotifyDungeonMatchGroupApproved "byte list" "32 word"
  | ScSpawnerMonsterDead

fun game_sc_opcode :: "game_sc \<Rightarrow> 32 word" where
  "game_sc_opcode (ScPong _ _ _) = 999"
| "game_sc_opcode (ScEnterGame _ _ _ _ _ _) = 1000"
| "game_sc_opcode ScNotifyPlayerActivated = 1015"
| "game_sc_opcode (ScSpawnRemotePlayer _ _) = 1001"
| "game_sc_opcode (ScAddRemotePlayer _ _) = 5001"
| "game_sc_opcode (ScRemoveRemotePlayer _ _) = 1016"
| "game_sc_opcode (ScRemotePlayerAttack _ _ _ _) = 1003"
| "game_sc_opcode (ScBeAttackedPlayer _ _ _ _) = 5002"
| "game_sc_opcode (ScSpawnMonster _ _) = 4001"
| "game_sc_opcode (ScAddMonster _ _) = 4002"
| "game_sc_opcode (ScRemoveMonster _ _) = 4003"
| "game_sc_opcode (ScDespawnMonster _ _) = 4004"
| "game_sc_opcode (ScMoveMonster _ _ _) = 4005"
| "game_sc_opcode (ScAttackMonster _ _ _ _ _ _) = 4006"
| "game_sc_opcode (ScBeAttackedMonster _ _ _) = 5003"
| "game_sc_opcode (ScMoveRemotePlayer _ _ _) = 1007"
| "game_sc_opcode (ScStopRemotePlayer _ _) = 1020"
| "game_sc_opcode (ScSprintRemotePlayer _) = 1021"
| "game_sc_opcode (ScRollDodgeRemotePlayer _ _) = 1004"
| "game_sc_opcode (ScNotifyChattingMessage _ _) = 1014"
| "game_sc_opcode (ScAddInventory _ _) = 2001"
| "game_sc_opcode (ScRemoveInventory _ _) = 2002"
| "game_sc_opcode (ScNotifySwapItemResult _ _ _ _ _ _) = 2003"
| "game_sc_opcode (ScChangeRemotePlayerEquipItem _ _ _) = 1026"
| "game_sc_opcode ScNotifyDungeonMatchGroupCreation = 1012"
| "game_sc_opcode ScNotifyDungeonMatchFailure = 1013"
| "game_sc_opcode (ScNotifyDungeonMatchGroupApproved _ _) = 3001"
| "game_sc_opcode ScSpawnerMonsterDead = 100001"

definition sc_pong_serialize :: "64 word \<Rightarrow> 64 word \<Rightarrow> 64 word \<Rightarrow> byte list \<Rightarrow> byte list" where
  "sc_pong_serialize sequence clientTimePoint serverTimePoint buf =
     (let buf = packet_write_word sequence buf;
          buf = packet_write_word clientTimePoint buf
      in packet_write_word serverTimePoint buf)"

definition sc_pong_deserialize ::
  "('i \<Rightarrow> fault + byte) \<Rightarrow> ('i \<Rightarrow> fault + 'i) \<Rightarrow> 'i stream_reader
     \<Rightarrow> fault + (game_sc \<times> 'i stream_reader)" where
  "sc_pong_deserialize star inc =
     read_then (read_word star inc) (\<lambda>sequence.
     read_then (read_word star inc) (\<lambda>clientTimePoint.
     read_then (read_word star inc) (\<lambda>serverTimePoint.
     read_return (ScPong sequence clientTimePoint serverTimePoint))))"

definition sc_enter_game_serialize :: "32 word \<Rightarrow> 32 word \<Rightarrow> game_remote_player list \<Rightarrow> 32 word \<Rightarrow> game_monster list \<Rightarrow> game_player \<Rightarrow> byte list \<Rightarrow> byte list" where
  "sc_enter_game_serialize zoneId remotePlayersCount remotePlayers monstersCount monsters localPlayer buf =
     (let buf = packet_write_word zoneId buf;
          buf = packet_write_word remotePlayersCount buf;
          buf = fold (\<lambda>item. packet_write_object (write_game_remote_player item)) remotePlayers buf;
          buf = packet_write_word monstersCount buf;
          buf = fold (\<lambda>item. packet_write_object (write_game_monster item)) monsters buf
      in packet_write_object (write_game_player localPlayer) buf)"

definition sc_enter_game_deserialize ::
  "('i \<Rightarrow> fault + byte) \<Rightarrow> ('i \<Rightarrow> fault + 'i) \<Rightarrow> 'i stream_reader
     \<Rightarrow> fault + (game_sc \<times> 'i stream_reader)" where
  "sc_enter_game_deserialize star inc =
     read_then (read_word star inc) (\<lambda>zoneId.
     read_then (read_word star inc) (\<lambda>remotePlayersCount.
     read_then (read_times (nat (sint remotePlayersCount)) (read_game_remote_player star inc)) (\<lambda>remotePlayers.
     read_then (read_word star inc) (\<lambda>monstersCount.
     read_then (read_times (nat (sint monstersCount)) (read_game_monster star inc)) (\<lambda>monsters.
     read_then (read_game_player star inc) (\<lambda>localPlayer.
     read_return (ScEnterGame zoneId remotePlayersCount remotePlayers monstersCount monsters localPlayer)))))))"

definition sc_spawn_remote_player_serialize :: "32 word \<Rightarrow> game_remote_player list \<Rightarrow> byte list \<Rightarrow> byte list" where
  "sc_spawn_remote_player_serialize playersCount players buf =
     (let buf = packet_write_word playersCount buf
      in fold (\<lambda>item. packet_write_object (write_game_remote_player item)) players buf)"

definition sc_spawn_remote_player_deserialize ::
  "('i \<Rightarrow> fault + byte) \<Rightarrow> ('i \<Rightarrow> fault + 'i) \<Rightarrow> 'i stream_reader
     \<Rightarrow> fault + (game_sc \<times> 'i stream_reader)" where
  "sc_spawn_remote_player_deserialize star inc =
     read_then (read_word star inc) (\<lambda>playersCount.
     read_then (read_times (nat (sint playersCount)) (read_game_remote_player star inc)) (\<lambda>players.
     read_return (ScSpawnRemotePlayer playersCount players)))"

definition sc_add_remote_player_serialize :: "32 word \<Rightarrow> game_remote_player list \<Rightarrow> byte list \<Rightarrow> byte list" where
  "sc_add_remote_player_serialize playersCount players buf =
     (let buf = packet_write_word playersCount buf
      in fold (\<lambda>item. packet_write_object (write_game_remote_player item)) players buf)"

definition sc_add_remote_player_deserialize ::
  "('i \<Rightarrow> fault + byte) \<Rightarrow> ('i \<Rightarrow> fault + 'i) \<Rightarrow> 'i stream_reader
     \<Rightarrow> fault + (game_sc \<times> 'i stream_reader)" where
  "sc_add_remote_player_deserialize star inc =
     read_then (read_word star inc) (\<lambda>playersCount.
     read_then (read_times (nat (sint playersCount)) (read_game_remote_player star inc)) (\<lambda>players.
     read_return (ScAddRemotePlayer playersCount players)))"

definition sc_remove_remote_player_serialize :: "32 word \<Rightarrow> 64 word list \<Rightarrow> byte list \<Rightarrow> byte list" where
  "sc_remove_remote_player_serialize playersCount players buf =
     (let buf = packet_write_word playersCount buf
      in fold packet_write_word players buf)"

definition sc_remove_remote_player_deserialize ::
  "('i \<Rightarrow> fault + byte) \<Rightarrow> ('i \<Rightarrow> fault + 'i) \<Rightarrow> 'i stream_reader
     \<Rightarrow> fault + (game_sc \<times> 'i stream_reader)" where
  "sc_remove_remote_player_deserialize star inc =
     read_then (read_word star inc) (\<lambda>playersCount.
     read_then (read_times (nat (sint playersCount)) (read_word star inc)) (\<lambda>players.
     read_return (ScRemoveRemotePlayer playersCount players)))"

definition sc_remote_player_attack_serialize :: "64 word \<Rightarrow> 32 word \<Rightarrow> game_position \<Rightarrow> game_rotation \<Rightarrow> byte list \<Rightarrow> byte list" where
  "sc_remote_player_attack_serialize i motionId position rotation buf =
     (let buf = packet_write_word i buf;
          buf = packet_write_word motionId buf;
          buf = packet_write_object (write_game_position position) buf
      in packet_write_object (write_game_rotation rotation) buf)"

definition sc_remote_player_attack_deserialize ::
  "('i \<Rightarrow> fault + byte) \<Rightarrow> ('i \<Rightarrow> fault + 'i) \<Rightarrow> 'i stream_reader
     \<Rightarrow> fault + (game_sc \<times> 'i stream_reader)" where
  "sc_remote_player_attack_deserialize star inc =
     read_then (read_word star inc) (\<lambda>i.
     read_then (read_word star inc) (\<lambda>motionId.
     read_then (read_game_position star inc) (\<lambda>position.
     read_then (read_game_rotation star inc) (\<lambda>rotation.
     read_return (ScRemotePlayerAttack i motionId position rotation)))))"

definition sc_be_attacked_player_serialize :: "64 word \<Rightarrow> 64 word \<Rightarrow> 32 word \<Rightarrow> 32 word \<Rightarrow> byte list \<Rightarrow> byte list" where
  "sc_be_attacked_player_serialize attackerId attackedId monsterActionIndex attackedHp buf =
     (let buf = packet_write_word attackerId buf;
          buf = packet_write_word attackedId buf;
          buf = packet_write_word monsterActionIndex buf
      in packet_write_word attackedHp buf)"

definition sc_be_attacked_player_deserialize ::
  "('i \<Rightarrow> fault + byte) \<Rightarrow> ('i \<Rightarrow> fault + 'i) \<Rightarrow> 'i stream_reader
     \<Rightarrow> fault + (game_sc \<times> 'i stream_reader)" where
  "sc_be_attacked_player_deserialize star inc =
     read_then (read_word star inc) (\<lambda>attackerId.
     read_then (read_word star inc) (\<lambda>attackedId.
     read_then (read_word star inc) (\<lambda>monsterActionIndex.
     read_then (read_float32 star inc) (\<lambda>attackedHp.
     read_return (ScBeAttackedPlayer attackerId attackedId monsterActionIndex attackedHp)))))"

definition sc_spawn_monster_serialize :: "32 word \<Rightarrow> game_monster list \<Rightarrow> byte list \<Rightarrow> byte list" where
  "sc_spawn_monster_serialize monstersCount monsters buf =
     (let buf = packet_write_word monstersCount buf
      in fold (\<lambda>item. packet_write_object (write_game_monster item)) monsters buf)"

definition sc_spawn_monster_deserialize ::
  "('i \<Rightarrow> fault + byte) \<Rightarrow> ('i \<Rightarrow> fault + 'i) \<Rightarrow> 'i stream_reader
     \<Rightarrow> fault + (game_sc \<times> 'i stream_reader)" where
  "sc_spawn_monster_deserialize star inc =
     read_then (read_word star inc) (\<lambda>monstersCount.
     read_then (read_times (nat (sint monstersCount)) (read_game_monster star inc)) (\<lambda>monsters.
     read_return (ScSpawnMonster monstersCount monsters)))"

definition sc_add_monster_serialize :: "32 word \<Rightarrow> game_monster list \<Rightarrow> byte list \<Rightarrow> byte list" where
  "sc_add_monster_serialize monstersCount monsters buf =
     (let buf = packet_write_word monstersCount buf
      in fold (\<lambda>item. packet_write_object (write_game_monster item)) monsters buf)"

definition sc_add_monster_deserialize ::
  "('i \<Rightarrow> fault + byte) \<Rightarrow> ('i \<Rightarrow> fault + 'i) \<Rightarrow> 'i stream_reader
     \<Rightarrow> fault + (game_sc \<times> 'i stream_reader)" where
  "sc_add_monster_deserialize star inc =
     read_then (read_word star inc) (\<lambda>monstersCount.
     read_then (read_times (nat (sint monstersCount)) (read_game_monster star inc)) (\<lambda>monsters.
     read_return (ScAddMonster monstersCount monsters)))"

definition sc_remove_monster_serialize :: "32 word \<Rightarrow> 64 word list \<Rightarrow> byte list \<Rightarrow> byte list" where
  "sc_remove_monster_serialize monstersCount monsters buf =
     (let buf = packet_write_word monstersCount buf
      in fold packet_write_word monsters buf)"

definition sc_remove_monster_deserialize ::
  "('i \<Rightarrow> fault + byte) \<Rightarrow> ('i \<Rightarrow> fault + 'i) \<Rightarrow> 'i stream_reader
     \<Rightarrow> fault + (game_sc \<times> 'i stream_reader)" where
  "sc_remove_monster_deserialize star inc =
     read_then (read_word star inc) (\<lambda>monstersCount.
     read_then (read_times (nat (sint monstersCount)) (read_word star inc)) (\<lambda>monsters.
     read_return (ScRemoveMonster monstersCount monsters)))"

definition sc_despawn_monster_serialize :: "32 word \<Rightarrow> 64 word list \<Rightarrow> byte list \<Rightarrow> byte list" where
  "sc_despawn_monster_serialize monstersCount monsters buf =
     (let buf = packet_write_word monstersCount buf
      in fold packet_write_word monsters buf)"

definition sc_despawn_monster_deserialize ::
  "('i \<Rightarrow> fault + byte) \<Rightarrow> ('i \<Rightarrow> fault + 'i) \<Rightarrow> 'i stream_reader
     \<Rightarrow> fault + (game_sc \<times> 'i stream_reader)" where
  "sc_despawn_monster_deserialize star inc =
     read_then (read_word star inc) (\<lambda>monstersCount.
     read_then (read_times (nat (sint monstersCount)) (read_word star inc)) (\<lambda>monsters.
     read_return (ScDespawnMonster monstersCount monsters)))"

definition sc_move_monster_serialize :: "64 word \<Rightarrow> game_position \<Rightarrow> game_rotation \<Rightarrow> byte list \<Rightarrow> byte list" where
  "sc_move_monster_serialize i position rotation buf =
     (let buf = packet_write_word i buf;
          buf = packet_write_object (write_game_position position) buf
      in packet_write_object (write_game_rotation rotation) buf)"

definition sc_move_monster_deserialize ::
  "('i \<Rightarrow> fault + byte) \<Rightarrow> ('i \<Rightarrow> fault + 'i) \<Rightarrow> 'i stream_reader
     \<Rightarrow> fault + (game_sc \<times> 'i stream_reader)" where
  "sc_move_monster_deserialize star inc =
     read_then (read_word star inc) (\<lambda>i.
     read_then (read_game_position star inc) (\<lambda>position.
     read_then (read_game_rotation star inc) (\<lambda>rotation.
     read_return (ScMoveMonster i position rotation))))"

definition sc_attack_monster_serialize :: "64 word \<Rightarrow> 32 word \<Rightarrow> game_position \<Rightarrow> game_rotation \<Rightarrow> game_position \<Rightarrow> 64 word \<Rightarrow> byte list \<Rightarrow> byte list" where
  "sc_attack_monster_serialize i actionIndex position rotation destPosition destMovementDuration buf =
     (let buf = packet_write_word i buf;
          buf = packet_write_word actionIndex buf;
          buf = packet_write_object (write_game_position position) buf;
          buf = packet_write_object (write_game_rotation rotation) buf;
          buf = packet_write_object (write_game_position destPosition) buf
      in packet_write_word destMovementDuration buf)"

definition sc_attack_monster_deserialize ::
  "('i \<Rightarrow> fault + byte) \<Rightarrow> ('i \<Rightarrow> fault + 'i) \<Rightarrow> 'i stream_reader
     \<Rightarrow> fault + (game_sc \<times> 'i stream_reader)" where
  "sc_attack_monster_deserialize star inc =
     read_then (read_word star inc) (\<lambda>i.
     read_then (read_word star inc) (\<lambda>actionIndex.
     read_then (read_game_position star inc) (\<lambda>position.
     read_then (read_game_rotation star inc) (\<lambda>rotation.
     read_then (read_game_position star inc) (\<lambda>destPosition.
     read_then (read_float64 star inc) (\<lambda>destMovementDuration.
     read_return (ScAttackMonster i actionIndex position rotation destPosition destMovementDuration)))))))"

definition sc_be_attacked_monster_serialize :: "64 word \<Rightarrow> 64 word \<Rightarrow> 32 word \<Rightarrow> byte list \<Rightarrow> byte list" where
  "sc_be_attacked_monster_serialize attackerId attackedId attackedHp buf =
     (let buf = packet_write_word attackerId buf;
          buf = packet_write_word attackedId buf
      in packet_write_word attackedHp buf)"

definition sc_be_attacked_monster_deserialize ::
  "('i \<Rightarrow> fault + byte) \<Rightarrow> ('i \<Rightarrow> fault + 'i) \<Rightarrow> 'i stream_reader
     \<Rightarrow> fault + (game_sc \<times> 'i stream_reader)" where
  "sc_be_attacked_monster_deserialize star inc =
     read_then (read_word star inc) (\<lambda>attackerId.
     read_then (read_word star inc) (\<lambda>attackedId.
     read_then (read_float32 star inc) (\<lambda>attackedHp.
     read_return (ScBeAttackedMonster attackerId attackedId attackedHp))))"

definition sc_move_remote_player_serialize :: "64 word \<Rightarrow> game_position \<Rightarrow> game_rotation \<Rightarrow> byte list \<Rightarrow> byte list" where
  "sc_move_remote_player_serialize i position rotation buf =
     (let buf = packet_write_word i buf;
          buf = packet_write_object (write_game_position position) buf
      in packet_write_object (write_game_rotation rotation) buf)"

definition sc_move_remote_player_deserialize ::
  "('i \<Rightarrow> fault + byte) \<Rightarrow> ('i \<Rightarrow> fault + 'i) \<Rightarrow> 'i stream_reader
     \<Rightarrow> fault + (game_sc \<times> 'i stream_reader)" where
  "sc_move_remote_player_deserialize star inc =
     read_then (read_word star inc) (\<lambda>i.
     read_then (read_game_position star inc) (\<lambda>position.
     read_then (read_game_rotation star inc) (\<lambda>rotation.
     read_return (ScMoveRemotePlayer i position rotation))))"

definition sc_stop_remote_player_serialize :: "64 word \<Rightarrow> game_position \<Rightarrow> byte list \<Rightarrow> byte list" where
  "sc_stop_remote_player_serialize i position buf =
     (let buf = packet_write_word i buf
      in packet_write_object (write_game_position position) buf)"

definition sc_stop_remote_player_deserialize ::
  "('i \<Rightarrow> fault + byte) \<Rightarrow> ('i \<Rightarrow> fault + 'i) \<Rightarrow> 'i stream_reader
     \<Rightarrow> fault + (game_sc \<times> 'i stream_reader)" where
  "sc_stop_remote_player_deserialize star inc =
     read_then (read_word star inc) (\<lambda>i.
     read_then (read_game_position star inc) (\<lambda>position.
     read_return (ScStopRemotePlayer i position)))"

definition sc_sprint_remote_player_serialize :: "64 word \<Rightarrow> byte list \<Rightarrow> byte list" where
  "sc_sprint_remote_player_serialize i buf =
     packet_write_word i buf"

definition sc_sprint_remote_player_deserialize ::
  "('i \<Rightarrow> fault + byte) \<Rightarrow> ('i \<Rightarrow> fault + 'i) \<Rightarrow> 'i stream_reader
     \<Rightarrow> fault + (game_sc \<times> 'i stream_reader)" where
  "sc_sprint_remote_player_deserialize star inc =
     read_then (read_word star inc) (\<lambda>i.
     read_return (ScSprintRemotePlayer i))"

definition sc_roll_dodge_remote_player_serialize :: "64 word \<Rightarrow> game_rotation \<Rightarrow> byte list \<Rightarrow> byte list" where
  "sc_roll_dodge_remote_player_serialize i rotation buf =
     (let buf = packet_write_word i buf
      in packet_write_object (write_game_rotation rotation) buf)"

definition sc_roll_dodge_remote_player_deserialize ::
  "('i \<Rightarrow> fault + byte) \<Rightarrow> ('i \<Rightarrow> fault + 'i) \<Rightarrow> 'i stream_reader
     \<Rightarrow> fault + (game_sc \<times> 'i stream_reader)" where
  "sc_roll_dodge_remote_player_deserialize star inc =
     read_then (read_word star inc) (\<lambda>i.
     read_then (read_game_rotation star inc) (\<lambda>rotation.
     read_return (ScRollDodgeRemotePlayer i rotation)))"

definition sc_notify_chatting_message_serialize :: "32 word \<Rightarrow> byte list \<Rightarrow> byte list \<Rightarrow> byte list" where
  "sc_notify_chatting_message_serialize typ message buf =
     (let buf = packet_write_word typ buf
      in packet_write_string message buf)"

definition sc_notify_chatting_message_deserialize ::
  "('i \<Rightarrow> fault + byte) \<Rightarrow> ('i \<Rightarrow> fault + 'i) \<Rightarrow> 'i stream_reader
     \<Rightarrow> fault + (game_sc \<times> 'i stream_reader)" where
  "sc_notify_chatting_message_deserialize star inc =
     read_then (read_word star inc) (\<lambda>typ.
     read_then (packet_read_string star inc) (\<lambda>message.
     read_return (ScNotifyChattingMessage typ message)))"

definition sc_add_inventory_serialize :: "32 word \<Rightarrow> game_player_inventory_item list \<Rightarrow> byte list \<Rightarrow> byte list" where
  "sc_add_inventory_serialize itemsCount items buf =
     (let buf = packet_write_word itemsCount buf
      in fold (\<lambda>item. packet_write_object (write_game_player_inventory_item item)) items buf)"

definition sc_add_inventory_deserialize ::
  "('i \<Rightarrow> fault + byte) \<Rightarrow> ('i \<Rightarrow> fault + 'i) \<Rightarrow> 'i stream_reader
     \<Rightarrow> fault + (game_sc \<times> 'i stream_reader)" where
  "sc_add_inventory_deserialize star inc =
     read_then (read_word star inc) (\<lambda>itemsCount.
     read_then (read_times (nat (sint itemsCount)) (read_game_player_inventory_item star inc)) (\<lambda>items.
     read_return (ScAddInventory itemsCount items)))"

definition sc_remove_inventory_serialize :: "32 word \<Rightarrow> 32 word list \<Rightarrow> byte list \<Rightarrow> byte list" where
  "sc_remove_inventory_serialize slotsCount slots buf =
     (let buf = packet_write_word slotsCount buf
      in fold packet_write_word slots buf)"

definition sc_remove_inventory_deserialize ::
  "('i \<Rightarrow> fault + byte) \<Rightarrow> ('i \<Rightarrow> fault + 'i) \<Rightarrow> 'i stream_reader
     \<Rightarrow> fault + (game_sc \<times> 'i stream_reader)" where
  "sc_remove_inventory_deserialize star inc =
     read_then (read_word star inc) (\<lambda>slotsCount.
     read_then (read_times (nat (sint slotsCount)) (read_word star inc)) (\<lambda>slots.
     read_return (ScRemoveInventory slotsCount slots)))"

definition sc_notify_swap_item_result_serialize :: "bool \<Rightarrow> bool \<Rightarrow> game_player_inventory_item \<Rightarrow> bool \<Rightarrow> bool \<Rightarrow> game_player_inventory_item \<Rightarrow> byte list \<Rightarrow> byte list" where
  "sc_notify_swap_item_result_serialize srcEquipment srcHasItem srcItem destEquipment destHasItem destItem buf =
     (let buf = packet_write_bool srcEquipment buf;
          buf = packet_write_bool srcHasItem buf;
          buf = packet_write_object (write_game_player_inventory_item srcItem) buf;
          buf = packet_write_bool destEquipment buf;
          buf = packet_write_bool destHasItem buf
      in packet_write_object (write_game_player_inventory_item destItem) buf)"

definition sc_notify_swap_item_result_deserialize ::
  "('i \<Rightarrow> fault + byte) \<Rightarrow> ('i \<Rightarrow> fault + 'i) \<Rightarrow> 'i stream_reader
     \<Rightarrow> fault + (game_sc \<times> 'i stream_reader)" where
  "sc_notify_swap_item_result_deserialize star inc =
     read_then (read_bool star inc) (\<lambda>srcEquipment.
     read_then (read_bool star inc) (\<lambda>srcHasItem.
     read_then (read_game_player_inventory_item star inc) (\<lambda>srcItem.
     read_then (read_bool star inc) (\<lambda>destEquipment.
     read_then (read_bool star inc) (\<lambda>destHasItem.
     read_then (read_game_player_inventory_item star inc) (\<lambda>destItem.
     read_return (ScNotifySwapItemResult srcEquipment srcHasItem srcItem destEquipment destHasItem destItem)))))))"

definition sc_change_remote_player_equip_item_serialize :: "64 word \<Rightarrow> 32 word \<Rightarrow> 32 word \<Rightarrow> byte list \<Rightarrow> byte list" where
  "sc_change_remote_player_equip_item_serialize i equipPosition itemId buf =
     (let buf = packet_write_word i buf;
          buf = packet_write_word equipPosition buf
      in packet_write_word itemId buf)"

definition sc_change_remote_player_equip_item_deserialize ::
  "('i \<Rightarrow> fault + byte) \<Rightarrow> ('i \<Rightarrow> fault + 'i) \<Rightarrow> 'i stream_reader
     \<Rightarrow> fault + (game_sc \<times> 'i stream_reader)" where
  "sc_change_remote_player_equip_item_deserialize star inc =
     read_then (read_word star inc) (\<lambda>i.
     read_then (read_word star inc) (\<lambda>equipPosition.
     read_then (read_word star inc) (\<lambda>itemId.
     read_return (ScChangeRemotePlayerEquipItem i equipPosition itemId))))"

definition sc_notify_dungeon_match_group_approved_serialize :: "byte list \<Rightarrow> 32 word \<Rightarrow> byte list \<Rightarrow> byte list" where
  "sc_notify_dungeon_match_group_approved_serialize ip port buf =
     (let buf = packet_write_string ip buf
      in packet_write_word port buf)"

definition sc_notify_dungeon_match_group_approved_deserialize ::
  "('i \<Rightarrow> fault + byte) \<Rightarrow> ('i \<Rightarrow> fault + 'i) \<Rightarrow> 'i stream_reader
     \<Rightarrow> fault + (game_sc \<times> 'i stream_reader)" where
  "sc_notify_dungeon_match_group_approved_deserialize star inc =
     read_then (packet_read_string star inc) (\<lambda>ip.
     read_then (read_word star inc) (\<lambda>port.
     read_return (ScNotifyDungeonMatchGroupApproved ip port)))"

fun game_sc_serialize :: "game_sc \<Rightarrow> byte list \<Rightarrow> byte list" where
  "game_sc_serialize (ScPong sequence clientTimePoint serverTimePoint) buf = sc_pong_serialize sequence clientTimePoint serverTimePoint buf"
| "game_sc_serialize (ScEnterGame zoneId remotePlayersCount remotePlayers monstersCount monsters localPlayer) buf = sc_enter_game_serialize zoneId remotePlayersCount remotePlayers monstersCount monsters localPlayer buf"
| "game_sc_serialize ScNotifyPlayerActivated buf = buf"
| "game_sc_serialize (ScSpawnRemotePlayer playersCount players) buf = sc_spawn_remote_player_serialize playersCount players buf"
| "game_sc_serialize (ScAddRemotePlayer playersCount players) buf = sc_add_remote_player_serialize playersCount players buf"
| "game_sc_serialize (ScRemoveRemotePlayer playersCount players) buf = sc_remove_remote_player_serialize playersCount players buf"
| "game_sc_serialize (ScRemotePlayerAttack i motionId position rotation) buf = sc_remote_player_attack_serialize i motionId position rotation buf"
| "game_sc_serialize (ScBeAttackedPlayer attackerId attackedId monsterActionIndex attackedHp) buf = sc_be_attacked_player_serialize attackerId attackedId monsterActionIndex attackedHp buf"
| "game_sc_serialize (ScSpawnMonster monstersCount monsters) buf = sc_spawn_monster_serialize monstersCount monsters buf"
| "game_sc_serialize (ScAddMonster monstersCount monsters) buf = sc_add_monster_serialize monstersCount monsters buf"
| "game_sc_serialize (ScRemoveMonster monstersCount monsters) buf = sc_remove_monster_serialize monstersCount monsters buf"
| "game_sc_serialize (ScDespawnMonster monstersCount monsters) buf = sc_despawn_monster_serialize monstersCount monsters buf"
| "game_sc_serialize (ScMoveMonster i position rotation) buf = sc_move_monster_serialize i position rotation buf"
| "game_sc_serialize (ScAttackMonster i actionIndex position rotation destPosition destMovementDuration) buf = sc_attack_monster_serialize i actionIndex position rotation destPosition destMovementDuration buf"
| "game_sc_serialize (ScBeAttackedMonster attackerId attackedId attackedHp) buf = sc_be_attacked_monster_serialize attackerId attackedId attackedHp buf"
| "game_sc_serialize (ScMoveRemotePlayer i position rotation) buf = sc_move_remote_player_serialize i position rotation buf"
| "game_sc_serialize (ScStopRemotePlayer i position) buf = sc_stop_remote_player_serialize i position buf"
| "game_sc_serialize (ScSprintRemotePlayer i) buf = sc_sprint_remote_player_serialize i buf"
| "game_sc_serialize (ScRollDodgeRemotePlayer i rotation) buf = sc_roll_dodge_remote_player_serialize i rotation buf"
| "game_sc_serialize (ScNotifyChattingMessage typ message) buf = sc_notify_chatting_message_serialize typ message buf"
| "game_sc_serialize (ScAddInventory itemsCount items) buf = sc_add_inventory_serialize itemsCount items buf"
| "game_sc_serialize (ScRemoveInventory slotsCount slots) buf = sc_remove_inventory_serialize slotsCount slots buf"
| "game_sc_serialize (ScNotifySwapItemResult srcEquipment srcHasItem srcItem destEquipment destHasItem destItem) buf = sc_notify_swap_item_result_serialize srcEquipment srcHasItem srcItem destEquipment destHasItem destItem buf"
| "game_sc_serialize (ScChangeRemotePlayerEquipItem i equipPosition itemId) buf = sc_change_remote_player_equip_item_serialize i equipPosition itemId buf"
| "game_sc_serialize ScNotifyDungeonMatchGroupCreation buf = buf"
| "game_sc_serialize ScNotifyDungeonMatchFailure buf = buf"
| "game_sc_serialize (ScNotifyDungeonMatchGroupApproved ip port) buf = sc_notify_dungeon_match_group_approved_serialize ip port buf"
| "game_sc_serialize ScSpawnerMonsterDead buf = buf"

definition game_sc_create_from ::
  "('i \<Rightarrow> fault + byte) \<Rightarrow> ('i \<Rightarrow> fault + 'i) \<Rightarrow> 'i stream_reader
     \<Rightarrow> fault + (game_sc option \<times> 'i stream_reader)" where
  "game_sc_create_from star inc =
     read_then (read_word star inc) (\<lambda>opcode :: 16 word.
       let opcode = sint opcode in
       if opcode = 999 then read_then (sc_pong_deserialize star inc) (\<lambda>m. read_return (Some m))
       else if opcode = 1000 then read_then (sc_enter_game_deserialize star inc) (\<lambda>m. read_return (Some m))
       else if opcode = 1015 then read_return (Some ScNotifyPlayerActivated)
       else if opcode = 1001 then read_then (sc_spawn_remote_player_deserialize star inc) (\<lambda>m. read_return (Some m))
       else if opcode = 5001 then read_then (sc_add_remote_player_deserialize star inc) (\<lambda>m. read_return (Some m))
       else if opcode = 1016 then read_then (sc_remove_remote_player_deserialize star inc) (\<lambda>m. read_return (Some m))
       else if opcode = 1003 then read_then (sc_remote_player_attack_deserialize star inc) (\<lambda>m. read_return (Some m))
       else if opcode = 5002 then read_then (sc_be_attacked_player_deserialize star inc) (\<lambda>m. read_return (Some m))
       else if opcode = 4001 then read_then (sc_spawn_monster_deserialize star inc) (\<lambda>m. read_return (Some m))
       else if opcode = 4002 then read_then (sc_add_monster_deserialize star inc) (\<lambda>m. read_return (Some m))
       else if opcode = 4003 then read_then (sc_remove_monster_deserialize star inc) (\<lambda>m. read_return (Some m))
       else if opcode = 4004 then read_then (sc_despawn_monster_deserialize star inc) (\<lambda>m. read_return (Some m))
       else if opcode = 4005 then read_then (sc_move_monster_deserialize star inc) (\<lambda>m. read_return (Some m))
       else if opcode = 4006 then read_then (sc_attack_monster_deserialize star inc) (\<lambda>m. read_return (Some m))
       else if opcode = 5003 then read_then (sc_be_attacked_monster_deserialize star inc) (\<lambda>m. read_return (Some m))
       else if opcode = 1007 then read_then (sc_move_remote_player_deserialize star inc) (\<lambda>m. read_return (Some m))
       else if opcode = 1020 then read_then (sc_stop_remote_player_deserialize star inc) (\<lambda>m. read_return (Some m))
       else if opcode = 1021 then read_then (sc_sprint_remote_player_deserialize star inc) (\<lambda>m. read_return (Some m))
       else if opcode = 1004 then read_then (sc_roll_dodge_remote_player_deserialize star inc) (\<lambda>m. read_return (Some m))
       else if opcode = 1014 then read_then (sc_notify_chatting_message_deserialize star inc) (\<lambda>m. read_return (Some m))
       else if opcode = 2001 then read_then (sc_add_inventory_deserialize star inc) (\<lambda>m. read_return (Some m))
       else if opcode = 2002 then read_then (sc_remove_inventory_deserialize star inc) (\<lambda>m. read_return (Some m))
       else if opcode = 2003 then read_then (sc_notify_swap_item_result_deserialize star inc) (\<lambda>m. read_return (Some m))
       else if opcode = 1026 then read_then (sc_change_remote_player_equip_item_deserialize star inc) (\<lambda>m. read_return (Some m))
       else if opcode = 1012 then read_return (Some ScNotifyDungeonMatchGroupCreation)
       else if opcode = 1013 then read_return (Some ScNotifyDungeonMatchFailure)
       else if opcode = 3001 then read_then (sc_notify_dungeon_match_group_approved_deserialize star inc) (\<lambda>m. read_return (Some m))
       else if opcode = 100001 then read_return (Some ScSpawnerMonsterDead)
       else read_return None)"

fun game_sc_ok :: "game_sc \<Rightarrow> bool" where
  "game_sc_ok (ScEnterGame zoneId remotePlayersCount remotePlayers monstersCount monsters localPlayer) \<longleftrightarrow>
     sint remotePlayersCount = int (length remotePlayers) \<and> (\<forall>y \<in> set remotePlayers. game_remote_player_ok y) \<and> sint monstersCount = int (length monsters) \<and> game_player_ok localPlayer"
| "game_sc_ok (ScSpawnRemotePlayer playersCount players) \<longleftrightarrow>
     sint playersCount = int (length players) \<and> (\<forall>y \<in> set players. game_remote_player_ok y)"
| "game_sc_ok (ScAddRemotePlayer playersCount players) \<longleftrightarrow>
     sint playersCount = int (length players) \<and> (\<forall>y \<in> set players. game_remote_player_ok y)"
| "game_sc_ok (ScRemoveRemotePlayer playersCount players) \<longleftrightarrow>
     sint playersCount = int (length players)"
| "game_sc_ok (ScSpawnMonster monstersCount monsters) \<longleftrightarrow>
     sint monstersCount = int (length monsters)"
| "game_sc_ok (ScAddMonster monstersCount monsters) \<longleftrightarrow>
     sint monstersCount = int (length monsters)"
| "game_sc_ok (ScRemoveMonster monstersCount monsters) \<longleftrightarrow>
     sint monstersCount = int (length monsters)"
| "game_sc_ok (ScDespawnMonster monstersCount monsters) \<longleftrightarrow>
     sint monstersCount = int (length monsters)"
| "game_sc_ok (ScNotifyChattingMessage typ message) \<longleftrightarrow>
     string_ok message"
| "game_sc_ok (ScAddInventory itemsCount items) \<longleftrightarrow>
     sint itemsCount = int (length items)"
| "game_sc_ok (ScRemoveInventory slotsCount slots) \<longleftrightarrow>
     sint slotsCount = int (length slots)"
| "game_sc_ok (ScNotifyDungeonMatchGroupApproved ip port) \<longleftrightarrow>
     string_ok ip"
| "game_sc_ok _ \<longleftrightarrow> True"

subsection \<open>Reading back\<close>

context byte_iterator
begin

lemma parses_times:
  "(\<And>x. x \<in> set xs \<Longrightarrow> parses P x (f x)) \<Longrightarrow> parses (read_times (length xs) P) xs (concat (map f xs))"
proof (induction xs)
  case (Cons x xs)
  then have "parses P x (f x)" "parses (read_times (length xs) P) xs (concat (map f xs))" by simp_all
  from parses_then [OF this(1) parses_map [OF this(2)], of "(#)"] show ?case by simp
qed (simp add: parses_return)

lemma parses_counted:
  assumes "n = int (length xs)" and "\<And>x. x \<in> set xs \<Longrightarrow> parses P x (f x)"
  shows "parses (read_times (nat n) P) xs (concat (map f xs))"
    and "parses (read_reserved n P) xs (concat (map f xs))"
proof -
  from parses_times [OF assms(2)] show "parses (read_times (nat n) P) xs (concat (map f xs))"
    by (simp add: assms(1))
  then show "parses (read_reserved n P) xs (concat (map f xs))"
    using assms(1) by (simp add: read_reserved_def [abs_def] parses_def)
qed

lemma parses_double: "parses (read_float64 star inc) v (word_bytes (v :: 64 word))"
proof -
  have "parses (read_float star inc 8) (word_bytes v) (word_bytes v)"
    using read_float_rest [of _ "word_bytes v"] by (auto simp: parses_def byte_width_def)
  from parses_map [OF this, of "\<lambda>bs. bytes_value 0 bs :: 64 word"] show ?thesis
    by (simp add: read_float64_def bytes_value_word_bytes)
qed

lemma parses_flag: "parses (read_bool star inc) b (flag_byte b)"
  using parses_bool by (simp add: flag_byte_def)

lemma parses_int64s:
  "sint n = int (length xs) \<Longrightarrow> parses (read_times (nat (sint n)) (read_word star inc)) xs
     (concat (map (word_bytes :: 64 word \<Rightarrow> byte list) xs))"
  by (rule parses_counted(1)) (auto intro: parses_int)

lemma parses_int32s:
  "sint n = int (length xs) \<Longrightarrow> parses (read_times (nat (sint n)) (read_word star inc)) xs
     (concat (map (word_bytes :: 32 word \<Rightarrow> byte list) xs))"
  by (rule parses_counted(1)) (auto intro: parses_int)

lemma parses_game_position:
  shows "parses (read_game_position star inc) x (game_position_bytes x)"
proof -
  have "parses (read_game_position star inc)
      \<lparr>pos_x = pos_x x, pos_y = pos_y x, pos_z = pos_z x\<rparr>
      (game_position_bytes x)"
    unfolding read_game_position_def game_position_bytes_def
    by (rule parses_map parses_then parses_int parses_float)+
  then show ?thesis by (cases x) simp
qed

lemma parses_game_rotation:
  shows "parses (read_game_rotation star inc) x (game_rotation_bytes x)"
proof -
  have "parses (read_game_rotation star inc)
      \<lparr>rot_pitch = rot_pitch x, rot_yaw = rot_yaw x, rot_roll = rot_roll x\<rparr>
      (game_rotation_bytes x)"
    unfolding read_game_rotation_def game_rotation_bytes_def
    by (rule parses_map parses_then parses_int parses_float)+
  then show ?thesis by (cases x) simp
qed

lemma parses_game_transform:
  shows "parses (read_game_transform star inc) x (game_transform_bytes x)"
proof -
  have "parses (read_game_transform star inc)
      \<lparr>tf_position = tf_position x, tf_rotation = tf_rotation x\<rparr>
      (game_transform_bytes x)"
    unfolding read_game_transform_def game_transform_bytes_def
    by (rule parses_map parses_then parses_int parses_float parses_game_position parses_game_rotation)+
  then show ?thesis by (cases x) simp
qed

lemma parses_game_player_base:
  assumes "game_player_base_ok x"
  shows "parses (read_game_player_base star inc) x (game_player_base_bytes x)"
proof -
  have "parses (read_game_player_base star inc)
      \<lparr>pb_hp = pb_hp x, pb_maxHp = pb_maxHp x, pb_attackMin = pb_attackMin x,
        pb_attackMax = pb_attackMax x, pb_attackRange = pb_attackRange x,
        pb_attackSpeed = pb_attackSpeed x, pb_speed = pb_speed x, pb_defence = pb_defence x,
        pb_name = pb_name x, pb_level = pb_level x, pb_gender = pb_gender x,
        pb_face = pb_face x, pb_hair = pb_hair x, pb_str = pb_str x, pb_dex = pb_dex x,
        pb_intell = pb_intell x, pb_stamina = pb_stamina x, pb_staminaMax = pb_staminaMax x\<rparr>
      (game_player_base_bytes x)"
    unfolding read_game_player_base_def game_player_base_bytes_def
    using assms unfolding game_player_base_ok_def
    by - (rule parses_map parses_then parses_int parses_float parses_name | assumption | elim conjE)+
  then show ?thesis by (cases x) simp
qed

lemma parses_game_equipment:
  shows "parses (read_game_equipment star inc) x (game_equipment_bytes x)"
proof -
  have "parses (read_game_equipment star inc)
      \<lparr>eq_id = eq_id x, eq_type = eq_type x, eq_count = eq_count x, eq_attack = eq_attack x,
        eq_defence = eq_defence x, eq_str = eq_str x, eq_dex = eq_dex x, eq_intell = eq_intell x\<rparr>
      (game_equipment_bytes x)"
    unfolding read_game_equipment_def game_equipment_bytes_def
    by (rule parses_map parses_then parses_int parses_float)+
  then show ?thesis by (cases x) simp
qed

lemma parses_game_player_equipment:
  shows "parses (read_game_player_equipment star inc) x (game_player_equipment_bytes x)"
proof -
  have "parses (read_game_player_equipment star inc)
      \<lparr>pe_armor = pe_armor x, pe_gloves = pe_gloves x, pe_shoes = pe_shoes x, pe_weapon = pe_weapon x\<rparr>
      (game_player_equipment_bytes x)"
    unfolding read_game_player_equipment_def game_player_equipment_bytes_def
    by (rule parses_map parses_then parses_int parses_float parses_game_equipment)+
  then show ?thesis by (cases x) simp
qed

lemma parses_game_player_quick_slot:
  shows "parses (read_game_player_quick_slot star inc) x (game_player_quick_slot_bytes x)"
proof -
  have "parses (read_game_player_quick_slot star inc)
      \<lparr>qs_index = qs_index x, qs_type = qs_type x, qs_id = qs_id x\<rparr>
      (game_player_quick_slot_bytes x)"
    unfolding read_game_player_quick_slot_def game_player_quick_slot_bytes_def
    by (rule parses_map parses_then parses_int parses_float)+
  then show ?thesis by (cases x) simp
qed

lemma parses_game_player_quick_slot_vector:
  "sint n = int (length xs) \<Longrightarrow> parses (read_reserved (sint n) (read_game_player_quick_slot star inc)) xs
     (concat (map game_player_quick_slot_bytes xs))"
  by (rule parses_counted) (simp_all add: parses_game_player_quick_slot)

lemma parses_game_player_skill:
  shows "parses (read_game_player_skill star inc) x (game_player_skill_bytes x)"
proof -
  have "parses (read_game_player_skill star inc)
      \<lparr>sk_id = sk_id x\<rparr>
      (game_player_skill_bytes x)"
    unfolding read_game_player_skill_def game_player_skill_bytes_def
    by (rule parses_map parses_then parses_int parses_float)+
  then show ?thesis by (cases x) simp
qed

lemma parses_game_player_skill_vector:
  "sint n = int (length xs) \<Longrightarrow> parses (read_reserved (sint n) (read_game_player_skill star inc)) xs
     (concat (map game_player_skill_bytes xs))"
  by (rule parses_counted) (simp_all add: parses_game_player_skill)

lemma parses_game_player_inventory_item:
  shows "parses (read_game_player_inventory_item star inc) x (game_player_inventory_item_bytes x)"
proof -
  have "parses (read_game_player_inventory_item star inc)
      \<lparr>it_slot = it_slot x, it_id = it_id x, it_count = it_count x, it_attack = it_attack x,
        it_defence = it_defence x, it_str = it_str x, it_dex = it_dex x, it_intell = it_intell x\<rparr>
      (game_player_inventory_item_bytes x)"
    unfolding read_game_player_inventory_item_def game_player_inventory_item_bytes_def
    by (rule parses_map parses_then parses_int parses_float)+
  then show ?thesis by (cases x) simp
qed

lemma parses_game_player_inventory_items:
  "sint n = int (length xs) \<Longrightarrow> parses (read_times (nat (sint n)) (read_game_player_inventory_item star inc)) xs
     (concat (map game_player_inventory_item_bytes xs))"
  by (rule parses_counted) (simp_all add: parses_game_player_inventory_item)

lemma parses_game_player_inventory_item_vector:
  "sint n = int (length xs) \<Longrightarrow> parses (read_reserved (sint n) (read_game_player_inventory_item star inc)) xs
     (concat (map game_player_inventory_item_bytes xs))"
  by (rule parses_counted) (simp_all add: parses_game_player_inventory_item)

lemma parses_game_remote_player:
  assumes "game_remote_player_ok x"
  shows "parses (read_game_remote_player star inc) x (game_remote_player_bytes x)"
proof -
  have "parses (read_game_remote_player star inc)
      \<lparr>rp_id = rp_id x, rp_transform = rp_transform x, rp_base = rp_base x,
        rp_equipment = rp_equipment x\<rparr>
      (game_remote_player_bytes x)"
    unfolding read_game_remote_player_def game_remote_player_bytes_def
    using assms unfolding game_remote_player_ok_def
    by - (rule parses_map parses_then parses_int parses_float parses_game_player_base parses_game_player_equipment parses_game_transform | assumption | elim conjE)+
  then show ?thesis by (cases x) simp
qed

lemma parses_game_remote_players:
  "sint n = int (length xs) \<Longrightarrow> \<forall>x \<in> set xs. game_remote_player_ok x \<Longrightarrow> parses (read_times (nat (sint n)) (read_game_remote_player star inc)) xs
     (concat (map game_remote_player_bytes xs))"
  by (rule parses_counted) (simp_all add: parses_game_remote_player)

lemma parses_game_player:
  assumes "game_player_ok x"
  shows "parses (read_game_player star inc) x (game_player_bytes x)"
proof -
  have "parses (read_game_player star inc)
      \<lparr>pl_id = pl_id x, pl_transform = pl_transform x, pl_base = pl_base x,
        pl_equipment = pl_equipment x, pl_gold = pl_gold x, pl_itemsCount = pl_itemsCount x,
        pl_items = pl_items x, pl_quickSlotCount = pl_quickSlotCount x,
        pl_quickSlots = pl_quickSlots x, pl_skillsCount = pl_skillsCount x,
        pl_skills = pl_skills x, pl_exp = pl_exp x, pl_expMax = pl_expMax x\<rparr>
      (game_player_bytes x)"
    unfolding read_game_player_def game_player_bytes_def
    using assms unfolding game_player_ok_def
    by - (rule parses_map parses_then parses_int parses_float parses_game_player_base parses_game_player_equipment parses_game_transform parses_game_player_inventory_item_vector parses_game_player_quick_slot_vector parses_game_player_skill_vector | assumption | elim conjE)+
  then show ?thesis by (cases x) simp
qed

lemma parses_game_monster:
  shows "parses (read_game_monster star inc) x (game_monster_bytes x)"
proof -
  have "parses (read_game_monster star inc)
      \<lparr>mo_dataId = mo_dataId x, mo_id = mo_id x, mo_transform = mo_transform x, mo_hp = mo_hp x,
        mo_maxHp = mo_maxHp x, mo_attackMin = mo_attackMin x, mo_attackMax = mo_attackMax x,
        mo_attackRange = mo_attackRange x, mo_attackSpeed = mo_attackSpeed x,
        mo_speed = mo_speed x, mo_defence = mo_defence x\<rparr>
      (game_monster_bytes x)"
    unfolding read_game_monster_def game_monster_bytes_def
    by (rule parses_map parses_then parses_int parses_float parses_game_transform)+
  then show ?thesis by (cases x) simp
qed

lemma parses_game_monsters:
  "sint n = int (length xs) \<Longrightarrow> parses (read_times (nat (sint n)) (read_game_monster star inc)) xs
     (concat (map game_monster_bytes xs))"
  by (rule parses_counted) (simp_all add: parses_game_monster)

lemma parses_cs_ping:
  shows "parses (cs_ping_deserialize star inc) (CsPing sequence clientTimePoint serverTimePoint)
    (cs_ping_serialize sequence clientTimePoint serverTimePoint [])"
  unfolding cs_ping_deserialize_def
  by (simp add: cs_ping_serialize_def write_eqs Let_def)
    (rule parses_map parses_then parses_int parses_float)+

lemma parses_cs_authenticate:
  assumes "string_ok authenticationToken"
  shows "parses (cs_authenticate_deserialize star inc) (CsAuthenticate authenticationToken)
    (cs_authenticate_serialize authenticationToken [])"
  unfolding cs_authenticate_deserialize_def
  using assms
  by (simp add: cs_authenticate_serialize_def write_eqs Let_def)
    (rule parses_map parses_then parses_int parses_float parses_string | assumption)+

lemma parses_cs_start_player_attack:
  shows "parses (cs_start_player_attack_deserialize star inc) (CsStartPlayerAttack skillId position rotation)
    (cs_start_player_attack_serialize skillId position rotation [])"
  unfolding cs_start_player_attack_deserialize_def
  by (simp add: cs_start_player_attack_serialize_def write_eqs Let_def)
    (rule parses_map parses_then parses_int parses_float parses_game_position parses_game_rotation)+

lemma parses_cs_apply_player_attack:
  assumes "sint targetCount = int (length targets)"
  shows "parses (cs_apply_player_attack_deserialize star inc) (CsApplyPlayerAttack i targetCount targets skillId position rotation)
    (cs_apply_player_attack_serialize i targetCount targets skillId position rotation [])"
  unfolding cs_apply_player_attack_deserialize_def
  using assms
  by (simp add: cs_apply_player_attack_serialize_def write_eqs Let_def)
    (rule parses_map parses_then parses_int parses_float parses_game_position parses_game_rotation parses_int64s | assumption)+

lemma parses_cs_move_player:
  shows "parses (cs_move_player_deserialize star inc) (CsMovePlayer position rotation)
    (cs_move_player_serialize position rotation [])"
  unfolding cs_move_player_deserialize_def
  by (simp add: cs_move_player_serialize_def write_eqs Let_def)
    (rule parses_map parses_then parses_int parses_float parses_game_position parses_game_rotation)+

lemma parses_cs_stop_player:
  shows "parses (cs_stop_player_deserialize star inc) (CsStopPlayer i position)
    (cs_stop_player_serialize i position [])"
  unfolding cs_stop_player_deserialize_def
  by (simp add: cs_stop_player_serialize_def write_eqs Let_def)
    (rule parses_map parses_then parses_int parses_float parses_game_position)+

lemma parses_cs_sprint_player:
  shows "parses (cs_sprint_player_deserialize star inc) (CsSprintPlayer i)
    (cs_sprint_player_serialize i [])"
  unfolding cs_sprint_player_deserialize_def
  by (simp add: cs_sprint_player_serialize_def write_eqs Let_def)
    (rule parses_map parses_then parses_int parses_float)+

lemma parses_cs_roll_dodge_player:
  shows "parses (cs_roll_dodge_player_deserialize star inc) (CsRollDodgePlayer i rotation)
    (cs_roll_dodge_player_serialize i rotation [])"
  unfolding cs_roll_dodge_player_deserialize_def
  by (simp add: cs_roll_dodge_player_serialize_def write_eqs Let_def)
    (rule parses_map parses_then parses_int parses_float parses_game_rotation)+

lemma parses_cs_chat:
  assumes "string_ok message"
  shows "parses (cs_chat_deserialize star inc) (CsChat message)
    (cs_chat_serialize message [])"
  unfolding cs_chat_deserialize_def
  using assms
  by (simp add: cs_chat_serialize_def write_eqs Let_def)
    (rule parses_map parses_then parses_int parses_float parses_string | assumption)+

lemma parses_cs_swap_item:
  shows "parses (cs_swap_item_deserialize star inc) (CsSwapItem destEquipped destPosition srcEquipped srcPosition)
    (cs_swap_item_serialize destEquipped destPosition srcEquipped srcPosition [])"
  unfolding cs_swap_item_deserialize_def
  by (simp add: cs_swap_item_serialize_def write_eqs Let_def)
    (rule parses_map parses_then parses_int parses_float parses_flag)+

lemma parses_cs_start_dungeon_match:
  shows "parses (cs_start_dungeon_match_deserialize star inc) (CsStartDungeonMatch deugeonId)
    (cs_start_dungeon_match_serialize deugeonId [])"
  unfolding cs_start_dungeon_match_deserialize_def
  by (simp add: cs_start_dungeon_match_serialize_def write_eqs Let_def)
    (rule parses_map parses_then parses_int parses_float)+

lemma game_cs_parses:
  assumes "game_cs_ok m"
  shows "parses (game_cs_create_from star inc) (Some m)
    (word_bytes (ucast (game_cs_opcode m) :: 16 word) @ game_cs_serialize m [])"
  unfolding game_cs_create_from_def
proof (rule parses_then [OF parses_int(1)], goal_cases)
  case 1
  note parts = parses_cs_ping parses_cs_authenticate parses_cs_start_player_attack parses_cs_apply_player_attack parses_cs_move_player parses_cs_stop_player parses_cs_sprint_player parses_cs_roll_dodge_player parses_cs_chat parses_cs_swap_item parses_cs_start_dungeon_match
  show ?case
    using assms
    by (cases m; simp; (elim conjE)?) (rule parses_map parses_return parts | assumption)+
qed

lemma parses_sc_pong:
  shows "parses (sc_pong_deserialize star inc) (ScPong sequence clientTimePoint serverTimePoint)
    (sc_pong_serialize sequence clientTimePoint serverTimePoint [])"
  unfolding sc_pong_deserialize_def
  by (simp add: sc_pong_serialize_def write_eqs Let_def)
    (rule parses_map parses_then parses_int parses_float)+

lemma parses_sc_enter_game:
  assumes "sint remotePlayersCount = int (length remotePlayers)"
    and "(\<forall>y \<in> set remotePlayers. game_remote_player_ok y)"
    and "sint monstersCount = int (length monsters)"
    and "game_player_ok localPlayer"
  shows "parses (sc_enter_game_deserialize star inc) (ScEnterGame zoneId remotePlayersCount remotePlayers monstersCount monsters localPlayer)
    (sc_enter_game_serialize zoneId remotePlayersCount remotePlayers monstersCount monsters localPlayer [])"
  unfolding sc_enter_game_deserialize_def
  using assms
  by (simp add: sc_enter_game_serialize_def write_eqs Let_def)
    (rule parses_map parses_then parses_int parses_float parses_game_player parses_game_monsters parses_game_remote_players | assumption)+

lemma parses_sc_spawn_remote_player:
  assumes "sint playersCount = int (length players)"
    and "(\<forall>y \<in> set players. game_remote_player_ok y)"
  shows "parses (sc_spawn_remote_player_deserialize star inc) (ScSpawnRemotePlayer playersCount players)
    (sc_spawn_remote_player_serialize playersCount players [])"
  unfolding sc_spawn_remote_player_deserialize_def
  using assms
  by (simp add: sc_spawn_remote_player_serialize_def write_eqs Let_def)
    (rule parses_map parses_then parses_int parses_float parses_game_remote_players | assumption)+

lemma parses_sc_add_remote_player:
  assumes "sint playersCount = int (length players)"
    and "(\<forall>y \<in> set players. game_remote_player_ok y)"
  shows "parses (sc_add_remote_player_deserialize star inc) (ScAddRemotePlayer playersCount players)
    (sc_add_remote_player_serialize playersCount players [])"
  unfolding sc_add_remote_player_deserialize_def
  using assms
  by (simp add: sc_add_remote_player_serialize_def write_eqs Let_def)
    (rule parses_map parses_then parses_int parses_float parses_game_remote_players | assumption)+

lemma parses_sc_remove_remote_player:
  assumes "sint playersCount = int (length players)"
  shows "parses (sc_remove_remote_player_deserialize star inc) (ScRemoveRemotePlayer playersCount players)
    (sc_remove_remote_player_serialize playersCount players [])"
  unfolding sc_remove_remote_player_deserialize_def
  using assms
  by (simp add: sc_remove_remote_player_serialize_def write_eqs Let_def)
    (rule parses_map parses_then parses_int parses_float parses_int64s | assumption)+

lemma parses_sc_remote_player_attack:
  shows "parses (sc_remote_player_attack_deserialize star inc) (ScRemotePlayerAttack i motionId position rotation)
    (sc_remote_player_attack_serialize i motionId position rotation [])"
  unfolding sc_remote_player_attack_deserialize_def
  by (simp add: sc_remote_player_attack_serialize_def write_eqs Let_def)
    (rule parses_map parses_then parses_int parses_float parses_game_position parses_game_rotation)+

lemma parses_sc_be_attacked_player:
  shows "parses (sc_be_attacked_player_deserialize star inc) (ScBeAttackedPlayer attackerId attackedId monsterActionIndex attackedHp)
    (sc_be_attacked_player_serialize attackerId attackedId monsterActionIndex attackedHp [])"
  unfolding sc_be_attacked_player_deserialize_def
  by (simp add: sc_be_attacked_player_serialize_def write_eqs Let_def)
    (rule parses_map parses_then parses_int parses_float)+

lemma parses_sc_spawn_monster:
  assumes "sint monstersCount = int (length monsters)"
  shows "parses (sc_spawn_monster_deserialize star inc) (ScSpawnMonster monstersCount monsters)
    (sc_spawn_monster_serialize monstersCount monsters [])"
  unfolding sc_spawn_monster_deserialize_def
  using assms
  by (simp add: sc_spawn_monster_serialize_def write_eqs Let_def)
    (rule parses_map parses_then parses_int parses_float parses_game_monsters | assumption)+

lemma parses_sc_add_monster:
  assumes "sint monstersCount = int (length monsters)"
  shows "parses (sc_add_monster_deserialize star inc) (ScAddMonster monstersCount monsters)
    (sc_add_monster_serialize monstersCount monsters [])"
  unfolding sc_add_monster_deserialize_def
  using assms
  by (simp add: sc_add_monster_serialize_def write_eqs Let_def)
    (rule parses_map parses_then parses_int parses_float parses_game_monsters | assumption)+

lemma parses_sc_remove_monster:
  assumes "sint monstersCount = int (length monsters)"
  shows "parses (sc_remove_monster_deserialize star inc) (ScRemoveMonster monstersCount monsters)
    (sc_remove_monster_serialize monstersCount monsters [])"
  unfolding sc_remove_monster_deserialize_def
  using assms
  by (simp add: sc_remove_monster_serialize_def write_eqs Let_def)
    (rule parses_map parses_then parses_int parses_float parses_int64s | assumption)+

lemma parses_sc_despawn_monster:
  assumes "sint monstersCount = int (length monsters)"
  shows "parses (sc_despawn_monster_deserialize star inc) (ScDespawnMonster monstersCount monsters)
    (sc_despawn_monster_serialize monstersCount monsters [])"
  unfolding sc_despawn_monster_deserialize_def
  using assms
  by (simp add: sc_despawn_monster_serialize_def write_eqs Let_def)
    (rule parses_map parses_then parses_int parses_float parses_int64s | assumption)+

lemma parses_sc_move_monster:
  shows "parses (sc_move_monster_deserialize star inc) (ScMoveMonster i position rotation)
    (sc_move_monster_serialize i position rotation [])"
  unfolding sc_move_monster_deserialize_def
  by (simp add: sc_move_monster_serialize_def write_eqs Let_def)
    (rule parses_map parses_then parses_int parses_float parses_game_position parses_game_rotation)+

lemma parses_sc_attack_monster:
  shows "parses (sc_attack_monster_deserialize star inc) (ScAttackMonster i actionIndex position rotation destPosition destMovementDuration)
    (sc_attack_monster_serialize i actionIndex position rotation destPosition destMovementDuration [])"
  unfolding sc_attack_monster_deserialize_def
  by (simp add: sc_attack_monster_serialize_def write_eqs Let_def)
    (rule parses_map parses_then parses_int parses_float parses_double parses_game_position parses_game_rotation)+

lemma parses_sc_be_attacked_monster:
  shows "parses (sc_be_attacked_monster_deserialize star inc) (ScBeAttackedMonster attackerId attackedId attackedHp)
    (sc_be_attacked_monster_serialize attackerId attackedId attackedHp [])"
  unfolding sc_be_attacked_monster_deserialize_def
  by (simp add: sc_be_attacked_monster_serialize_def write_eqs Let_def)
    (rule parses_map parses_then parses_int parses_float)+

lemma parses_sc_move_remote_player:
  shows "parses (sc_move_remote_player_deserialize star inc) (ScMoveRemotePlayer i position rotation)
    (sc_move_remote_player_serialize i position rotation [])"
  unfolding sc_move_remote_player_deserialize_def
  by (simp add: sc_move_remote_player_serialize_def write_eqs Let_def)
    (rule parses_map parses_then parses_int parses_float parses_game_position parses_game_rotation)+

lemma parses_sc_stop_remote_player:
  shows "parses (sc_stop_remote_player_deserialize star inc) (ScStopRemotePlayer i position)
    (sc_stop_remote_player_serialize i position [])"
  unfolding sc_stop_remote_player_deserialize_def
  by (simp add: sc_stop_remote_player_serialize_def write_eqs Let_def)
    (rule parses_map parses_then parses_int parses_float parses_game_position)+

lemma parses_sc_sprint_remote_player:
  shows "parses (sc_sprint_remote_player_deserialize star inc) (ScSprintRemotePlayer i)
    (sc_sprint_remote_player_serialize i [])"
  unfolding sc_sprint_remote_player_deserialize_def
  by (simp add: sc_sprint_remote_player_serialize_def write_eqs Let_def)
    (rule parses_map parses_then parses_int parses_float)+

lemma parses_sc_roll_dodge_remote_player:
  shows "parses (sc_roll_dodge_remote_player_deserialize star inc) (ScRollDodgeRemotePlayer i rotation)
    (sc_roll_dodge_remote_player_serialize i rotation [])"
  unfolding sc_roll_dodge_remote_player_deserialize_def
  by (simp add: sc_roll_dodge_remote_player_serialize_def write_eqs Let_def)
    (rule parses_map parses_then parses_int parses_float parses_game_rotation)+

lemma parses_sc_notify_chatting_message:
  assumes "string_ok message"
  shows "parses (sc_notify_chatting_message_deserialize star inc) (ScNotifyChattingMessage typ message)
    (sc_notify_chatting_message_serialize typ message [])"
  unfolding sc_notify_chatting_message_deserialize_def
  using assms
  by (simp add: sc_notify_chatting_message_serialize_def write_eqs Let_def)
    (rule parses_map parses_then parses_int parses_float parses_string | assumption)+

lemma parses_sc_add_inventory:
  assumes "sint itemsCount = int (length items)"
  shows "parses (sc_add_inventory_deserialize star inc) (ScAddInventory itemsCount items)
    (sc_add_inventory_serialize itemsCount items [])"
  unfolding sc_add_inventory_deserialize_def
  using assms
  by (simp add: sc_add_inventory_serialize_def write_eqs Let_def)
    (rule parses_map parses_then parses_int parses_float parses_game_player_inventory_items | assumption)+

lemma parses_sc_remove_inventory:
  assumes "sint slotsCount = int (length slots)"
  shows "parses (sc_remove_inventory_deserialize star inc) (ScRemoveInventory slotsCount slots)
    (sc_remove_inventory_serialize slotsCount slots [])"
  unfolding sc_remove_inventory_deserialize_def
  using assms
  by (simp add: sc_remove_inventory_serialize_def write_eqs Let_def)
    (rule parses_map parses_then parses_int parses_float parses_int32s | assumption)+

lemma parses_sc_notify_swap_item_result:
  shows "parses (sc_notify_swap_item_result_deserialize star inc) (ScNotifySwapItemResult srcEquipment srcHasItem srcItem destEquipment destHasItem destItem)
    (sc_notify_swap_item_result_serialize srcEquipment srcHasItem srcItem destEquipment destHasItem destItem [])"
  unfolding sc_notify_swap_item_result_deserialize_def
  by (simp add: sc_notify_swap_item_result_serialize_def write_eqs Let_def)
    (rule parses_map parses_then parses_int parses_float parses_flag parses_game_player_inventory_item)+

lemma parses_sc_change_remote_player_equip_item:
  shows "parses (sc_change_remote_player_equip_item_deserialize star inc) (ScChangeRemotePlayerEquipItem i equipPosition itemId)
    (sc_change_remote_player_equip_item_serialize i equipPosition itemId [])"
  unfolding sc_change_remote_player_equip_item_deserialize_def
  by (simp add: sc_change_remote_player_equip_item_serialize_def write_eqs Let_def)
    (rule parses_map parses_then parses_int parses_float)+

lemma parses_sc_notify_dungeon_match_group_approved:
  assumes "string_ok ip"
  shows "parses (sc_notify_dungeon_match_group_approved_deserialize star inc) (ScNotifyDungeonMatchGroupApproved ip port)
    (sc_notify_dungeon_match_group_approved_serialize ip port [])"
  unfolding sc_notify_dungeon_match_group_approved_deserialize_def
  using assms
  by (simp add: sc_notify_dungeon_match_group_approved_serialize_def write_eqs Let_def)
    (rule parses_map parses_then parses_int parses_float parses_string | assumption)+

text \<open>What a client reads: \<^verbatim>\<open>SpawnerMonsterDead\<close> has the opcode 100001, which does not fit the 16 bits a packet has for it.\<close>

lemma game_sc_parses:
  assumes "game_sc_ok m"
  shows "parses (game_sc_create_from star inc) (if m = ScSpawnerMonsterDead then None else Some m)
    (word_bytes (ucast (game_sc_opcode m) :: 16 word) @ game_sc_serialize m [])"
  unfolding game_sc_create_from_def
proof (rule parses_then [OF parses_int(1)], goal_cases)
  case 1
  note parts = parses_sc_pong parses_sc_enter_game parses_sc_spawn_remote_player parses_sc_add_remote_player parses_sc_remove_remote_player parses_sc_remote_player_attack parses_sc_be_attacked_player parses_sc_spawn_monster parses_sc_add_monster parses_sc_remove_monster parses_sc_despawn_monster parses_sc_move_monster parses_sc_attack_monster parses_sc_be_attacked_monster parses_sc_move_remote_player parses_sc_stop_remote_player parses_sc_sprint_remote_player parses_sc_roll_dodge_remote_player parses_sc_notify_chatting_message parses_sc_add_inventory parses_sc_remove_inventory parses_sc_notify_swap_item_result parses_sc_change_remote_player_equip_item parses_sc_notify_dungeon_match_group_approved
  show ?case
    using assms
    by (cases m; simp; (elim conjE)?) (rule parses_map parses_return parts | assumption)+
qed

end

subsection \<open>Whole packets\<close>

abbreviation game_request :: "game_cs \<Rightarrow> byte list" where
  "game_request m \<equiv> packet_to_buffer m game_cs_opcode game_cs_serialize"

abbreviation game_response :: "game_sc \<Rightarrow> byte list" where
  "game_response m \<equiv> packet_to_buffer m game_sc_opcode game_sc_serialize"

text \<open>\<^verbatim>\<open>CreateFrom\<close> over the iterators of a buffer.\<close>

definition game_create ::
  "heap \<Rightarrow> buffer_iterator stream_reader \<Rightarrow> fault + (game_cs option \<times> buffer_iterator stream_reader)" where
  "game_create h = game_cs_create_from (iterator_deref h) iterator_next"

interpretation game_packets: packet_protocol game_create game_request
  "\<lambda>m. game_cs_ok m \<and> length (game_request m) < 2 ^ 31"
proof (unfold_locales, goal_cases)
  case (1 m)
  then show ?case by (intro packet_header(1)) simp
next
  case (2 m h r after)
  then have "game_cs_ok m" and "iterator_rest h (r_iter r)
      = (word_bytes (ucast (game_cs_opcode m) :: 16 word) @ game_cs_serialize m []) @ after"
    using packet_header(2) [of m game_cs_opcode game_cs_serialize] by simp_all
  with buffer_it.game_cs_parses [of m h] 2(2) show ?case
    unfolding buffer_it.parses_def game_create_def by blast
qed

text \<open>
  C26: The round trip of what the game server sends, worlds with their players, monsters and inventories among
  them: from a buffer that begins with the packet of a message, however it is cut into fragments, the reader
  takes the size, and \<^verbatim>\<open>CreateFrom\<close> gives back the message and has read the packet and nothing behind it. The one
  exception is \<^verbatim>\<open>SpawnerMonsterDead\<close>: \<^verbatim>\<open>CreateFrom\<close> knows no message of the 16 bits of its opcode 100001 and gives none.
  The counts in a message are the lengths of its lists, its strings are shorter than \<open>2 ^ 15\<close> and do not end in a nul
  character, and its packet is shorter than \<open>2 ^ 31\<close> bytes.
\<close>

theorem game_response_read_back:
  assumes "buffer_ok h b" and "game_sc_ok m" and "buffer_contents h b = game_response m @ after"
    and "length (game_response m) < 2 ^ 31"
  shows "\<exists>r (n :: 32 word) r1 r2. buffer_reader_new b = Inr r
    \<and> read_word (iterator_deref h) iterator_next r = Inr (n, r1) \<and> sint n = int (length (game_response m))
    \<and> game_sc_create_from (iterator_deref h) iterator_next r1
        = Inr (if m = ScSpawnerMonsterDead then None else Some m, r2)
    \<and> readSize r2 = sint n"
proof -
  from buffer_reader_new_ok [OF assms(1)] obtain r where r: "buffer_reader_new b = Inr r"
    "buffer_it.reader_ok h r" "iterator_rest h (r_iter r) = buffer_contents h b" "readSize r = 0"
    by blast
  from buffer_it.framed_packet_read [OF buffer_it.game_sc_parses [OF assms(2)] assms(4) r(2), of after] r assms(3)
  show ?thesis by auto
qed

subsection \<open>Examples\<close>

text \<open>A change of slots whose second slot lies across two fragments, and a packet of the spawner.\<close>

definition sample_game_response :: game_sc where
  "sample_game_response = ScRemoveInventory 2 [4, 9]"

definition sample_game_heap :: heap where
  "sample_game_heap =
     \<lparr>blocks =
        [0 \<mapsto> \<lparr>refCount = 1, bytes = [18, 0, 0, 0, 210, 7, 2, 0, 0, 0, 4, 0, 0, 0, 9, 0]\<rparr>,
         1 \<mapsto> \<lparr>refCount = 1, bytes = [0, 0]\<rparr>,
         2 \<mapsto> \<lparr>refCount = 1, bytes = [6, 0, 0, 0, 161, 134]\<rparr>],
      next_block = 3\<rparr>"

definition sample_game_buffer :: buffer where
  "sample_game_buffer =
     \<lparr>buf_size = 18,
      fragments = [\<lparr>impl = Some 0, startOffset = 0, frag_size = 16\<rparr>, \<lparr>impl = Some 1, startOffset = 0, frag_size = 2\<rparr>]\<rparr>"

definition sample_spawner_buffer :: buffer where
  "sample_spawner_buffer =
     \<lparr>buf_size = 6, fragments = [\<lparr>impl = Some 2, startOffset = 0, frag_size = 6\<rparr>]\<rparr>"

lemma sample_game_facts:
  "buffer_ok sample_game_heap sample_game_buffer"
  "buffer_contents sample_game_heap sample_game_buffer = [18, 0, 0, 0, 210, 7, 2, 0, 0, 0, 4, 0, 0, 0, 9, 0, 0, 0]"
  "buffer_ok sample_game_heap sample_spawner_buffer"
  "buffer_contents sample_game_heap sample_spawner_buffer = [6, 0, 0, 0, 161, 134]"
  by (simp_all add: sample_game_heap_def sample_game_buffer_def sample_spawner_buffer_def handle_ok_def buffer_ok_def
      calculate_size_def fragment_valid_def buffer_contents_def fragment_span_def)

lemma sample_game_response_bytes:
  "game_response sample_game_response = [18, 0, 0, 0, 210, 7, 2, 0, 0, 0, 4, 0, 0, 0, 9, 0, 0, 0]"
  "game_response ScSpawnerMonsterDead = [6, 0, 0, 0, 161, 134]"
  by code_simp+

theorem game_response_read_back_witness:
  "(\<exists>r (n :: 32 word) r1 r2. buffer_reader_new sample_game_buffer = Inr r
    \<and> read_word (iterator_deref sample_game_heap) iterator_next r = Inr (n, r1) \<and> sint n = 18
    \<and> game_sc_create_from (iterator_deref sample_game_heap) iterator_next r1 = Inr (Some sample_game_response, r2)
    \<and> readSize r2 = sint n)
   \<and> (\<exists>r (n :: 32 word) r1 r2. buffer_reader_new sample_spawner_buffer = Inr r
    \<and> read_word (iterator_deref sample_game_heap) iterator_next r = Inr (n, r1) \<and> sint n = 6
    \<and> game_sc_create_from (iterator_deref sample_game_heap) iterator_next r1 = Inr (None, r2)
    \<and> readSize r2 = sint n)"
proof -
  have "game_sc_ok sample_game_response" "game_sc_ok ScSpawnerMonsterDead" "sample_game_response \<noteq> ScSpawnerMonsterDead"
    by (simp_all add: sample_game_response_def)
  with game_response_read_back [OF sample_game_facts(1), of sample_game_response "[]"]
    game_response_read_back [OF sample_game_facts(3), of ScSpawnerMonsterDead "[]"] show ?thesis
    by (simp add: sample_game_facts sample_game_response_bytes)
qed

end
