(* ===== verification/Stats.thy ===== *)
theory Stats
  imports Prelude Complex_Main
begin

text \<open>
  The stats of an entity, \<^verbatim>\<open>xr/server/game/instance/contents/stat\<close> and \<^verbatim>\<open>entity/component/stat_component.cpp\<close>: stats
  that are summed up from a base and items when they are read first, and health, mana and stamina that regenerate
  with time. A \<^verbatim>\<open>StatValue\<close>, a \<^verbatim>\<open>double\<close>, is a rational number (rounding and NaN are not modelled), a time is an
  integer of nanoseconds (that it is not before the last update is only asserted, and nothing here needs it), and the state a \<^verbatim>\<open>const\<close> function changes through \<^verbatim>\<open>mutable\<close> or \<^verbatim>\<open>const_cast\<close> is returned.
\<close>

subsection \<open>Regenerating stats\<close>

record regen_stat =
  rs_value :: rat
  rs_regen_value :: rat
  rs_min :: rat
  rs_max :: rat
  rs_regen :: bool
  rs_last_update :: "int option"

text \<open>\<^verbatim>\<open>null_time_point\<close> is \<open>None\<close>.\<close>

definition regen_stat_new :: "rat \<Rightarrow> rat \<Rightarrow> rat \<Rightarrow> rat \<Rightarrow> regen_stat" where
  "regen_stat_new v r lo hi =
     \<lparr>rs_value = v, rs_regen_value = r, rs_min = lo, rs_max = hi, rs_regen = True, rs_last_update = None\<rparr>"

definition rat_clamp :: "rat \<Rightarrow> rat \<Rightarrow> rat \<Rightarrow> rat" where
  "rat_clamp v lo hi = (if v < lo then lo else if hi < v then hi else v)"

text \<open>\<^verbatim>\<open>duration_cast<milliseconds>\<close> cuts towards zero. When no update was made the last one is the smallest time
  point; that the difference then overflows is not modelled.\<close>

definition time_min :: int where
  "time_min = - (2 ^ 63)"

definition to_milliseconds :: "int \<Rightarrow> int" where
  "to_milliseconds d = (if d < 0 then - (- d div 1000000) else d div 1000000)"

definition regen_update :: "int \<Rightarrow> regen_stat \<Rightarrow> regen_stat" where
  "regen_update now s =
     (let interval = to_milliseconds (now - (case rs_last_update s of None \<Rightarrow> time_min | Some t \<Rightarrow> t));
          expected = rs_value s + of_int interval * rs_regen_value s
      in s\<lparr>rs_last_update := Some now, rs_value := rat_clamp expected (rs_min s) (rs_max s)\<rparr>)"

definition regen_get_value :: "int \<Rightarrow> regen_stat \<Rightarrow> rat \<times> regen_stat" where
  "regen_get_value now s =
     (if rs_last_update s = None then (rs_value s, s\<lparr>rs_last_update := Some now\<rparr>)
      else if rs_last_update s = Some now then (rs_value s, s)
      else if rs_value s \<ge> rs_max s then (rs_value s, s\<lparr>rs_last_update := Some now\<rparr>)
      else let s' = (if rs_regen s then regen_update now s else s) in (rs_value s', s'))"


definition regen_set_value :: "rat \<Rightarrow> int \<Rightarrow> regen_stat \<Rightarrow> regen_stat" where
  "regen_set_value v now s = s\<lparr>rs_last_update := Some now, rs_value := v\<rparr>"

definition regen_set_max :: "rat \<Rightarrow> regen_stat \<Rightarrow> regen_stat" where
  "regen_set_max v s = s\<lparr>rs_max := v\<rparr>"

definition regen_set_regen :: "bool \<Rightarrow> int \<Rightarrow> regen_stat \<Rightarrow> regen_stat" where
  "regen_set_regen on now s =
     (let s' = s\<lparr>rs_regen := on\<rparr> in if \<not> rs_regen s \<and> on then s'\<lparr>rs_last_update := Some now\<rparr> else s')"

subsection \<open>Summed stats\<close>

datatype stat_type = Attack | Defence | Str | Dex | Intell

record stable_stat =
  ss_base :: rat
  ss_item :: rat
  ss_final :: rat
  ss_invalidated :: bool

definition stable_stat_new :: stable_stat where
  "stable_stat_new = \<lparr>ss_base = 0, ss_item = 0, ss_final = 0, ss_invalidated = False\<rparr>"

definition add_base_stat :: "rat \<Rightarrow> stable_stat \<Rightarrow> stable_stat" where
  "add_base_stat v s = s\<lparr>ss_base := ss_base s + v, ss_invalidated := True\<rparr>"

definition stable_add_item_stat :: "rat \<Rightarrow> stable_stat \<Rightarrow> stable_stat" where
  "stable_add_item_stat v s = s\<lparr>ss_item := ss_item s + v, ss_invalidated := True\<rparr>"

definition stat_sum :: "stable_stat \<Rightarrow> rat" where
  "stat_sum s = ss_base s + ss_item s"

definition set_final_stat :: "rat \<Rightarrow> stable_stat \<Rightarrow> stable_stat" where
  "set_final_stat v s = s\<lparr>ss_invalidated := False, ss_final := v\<rparr>"

subsection \<open>The component\<close>

record stat_component =
  st_hp :: regen_stat
  st_mp :: regen_stat
  st_stamina :: regen_stat
  st_stats :: "stat_type \<Rightarrow> stable_stat"

definition stat_component_new :: stat_component where
  "stat_component_new =
     \<lparr>st_hp = regen_stat_new 0 0 0 0, st_mp = regen_stat_new 0 0 0 0, st_stamina = regen_stat_new 0 0 0 0,
      st_stats = (\<lambda>_. stable_stat_new)\<rparr>"

definition add_item_stat :: "stat_type \<Rightarrow> rat \<Rightarrow> stat_component \<Rightarrow> stat_component" where
  "add_item_stat t v c = c\<lparr>st_stats := (st_stats c)(t := stable_add_item_stat v (st_stats c t))\<rparr>"

definition sub_item_stat :: "stat_type \<Rightarrow> rat \<Rightarrow> stat_component \<Rightarrow> stat_component" where
  "sub_item_stat t v c = add_item_stat t (- v) c"

text \<open>
  \<^verbatim>\<open>Get\<close> and \<^verbatim>\<open>CalculateFinalStat\<close>: attack needs strength and defence dexterity, these need no other. The first
  function is \<^verbatim>\<open>Get\<close> for a stat that needs no other.
\<close>

definition get_plain :: "stat_type \<Rightarrow> stat_component \<Rightarrow> rat \<times> stat_component" where
  "get_plain t c =
     (let s = st_stats c t
      in if ss_invalidated s
         then let v = stat_sum s in (v, c\<lparr>st_stats := (st_stats c)(t := set_final_stat v s)\<rparr>)
         else (ss_final s, c))"

definition get_derived :: "stat_type \<Rightarrow> stat_type \<Rightarrow> stat_component \<Rightarrow> rat \<times> stat_component" where
  "get_derived t from c =
     (let s = st_stats c t
      in if ss_invalidated s
         then (case get_plain from c of (u, c') \<Rightarrow>
                 let v = stat_sum s + u * 5 in (v, c'\<lparr>st_stats := (st_stats c')(t := set_final_stat v s)\<rparr>))
         else (ss_final s, c))"

fun get_stat :: "stat_type \<Rightarrow> stat_component \<Rightarrow> rat \<times> stat_component" where
  "get_stat Attack c = get_derived Attack Str c"
| "get_stat Defence c = get_derived Defence Dex c"
| "get_stat t c = get_plain t c"

definition get_hp :: "int \<Rightarrow> stat_component \<Rightarrow> rat \<times> stat_component" where
  "get_hp now c = (case regen_get_value now (st_hp c) of (v, s) \<Rightarrow> (v, c\<lparr>st_hp := s\<rparr>))"

definition get_mp :: "int \<Rightarrow> stat_component \<Rightarrow> rat \<times> stat_component" where
  "get_mp now c = (case regen_get_value now (st_mp c) of (v, s) \<Rightarrow> (v, c\<lparr>st_mp := s\<rparr>))"

definition get_stamina :: "int \<Rightarrow> stat_component \<Rightarrow> rat \<times> stat_component" where
  "get_stamina now c = (case regen_get_value now (st_stamina c) of (v, s) \<Rightarrow> (v, c\<lparr>st_stamina := s\<rparr>))"

definition set_hp :: "rat \<Rightarrow> int \<Rightarrow> stat_component \<Rightarrow> stat_component" where
  "set_hp v now c = c\<lparr>st_hp := regen_set_value v now (st_hp c)\<rparr>"

definition set_mp :: "rat \<Rightarrow> int \<Rightarrow> stat_component \<Rightarrow> stat_component" where
  "set_mp v now c = c\<lparr>st_mp := regen_set_value v now (st_mp c)\<rparr>"

definition set_stamina :: "rat \<Rightarrow> int \<Rightarrow> stat_component \<Rightarrow> stat_component" where
  "set_stamina v now c = c\<lparr>st_stamina := regen_set_value v now (st_stamina c)\<rparr>"

definition set_hp_regen :: "bool \<Rightarrow> int \<Rightarrow> stat_component \<Rightarrow> stat_component" where
  "set_hp_regen on now c = c\<lparr>st_hp := regen_set_regen on now (st_hp c)\<rparr>"

definition set_max_hp :: "rat \<Rightarrow> stat_component \<Rightarrow> stat_component" where
  "set_max_hp v c = c\<lparr>st_hp := regen_set_max v (st_hp c)\<rparr>"

definition set_max_mp :: "rat \<Rightarrow> stat_component \<Rightarrow> stat_component" where
  "set_max_mp v c = c\<lparr>st_mp := regen_set_max v (st_mp c)\<rparr>"

definition set_max_stamina :: "rat \<Rightarrow> stat_component \<Rightarrow> stat_component" where
  "set_max_stamina v c = c\<lparr>st_stamina := regen_set_max v (st_stamina c)\<rparr>"

subsection \<open>What is read\<close>

text \<open>Without caching: what the stats are defined to be.\<close>

definition stat_value :: "stat_type \<Rightarrow> stat_component \<Rightarrow> rat" where
  "stat_value t c = stat_sum (st_stats c t) +
     (if t = Attack then 5 * stat_sum (st_stats c Str) else if t = Defence then 5 * stat_sum (st_stats c Dex) else 0)"

definition plain_cached :: "stat_component \<Rightarrow> bool" where
  "plain_cached c \<longleftrightarrow> (\<forall>t \<in> {Str, Dex, Intell}. \<not> ss_invalidated (st_stats c t) \<longrightarrow> ss_final (st_stats c t) = stat_sum (st_stats c t))"

lemmas stat_defs = plain_cached_def stat_component_new_def stable_stat_new_def stat_sum_def add_item_stat_def
  stable_add_item_stat_def set_final_stat_def get_plain_def get_derived_def Let_def

lemma plain_cached_new: "plain_cached stat_component_new"
  by (simp add: stat_defs)

lemma plain_cached_add: "plain_cached c \<Longrightarrow> plain_cached (add_item_stat t v c)"
  by (auto simp: stat_defs)

lemma plain_cached_get: "plain_cached c \<Longrightarrow> plain_cached (snd (get_stat t c))"
  by (cases t) (auto simp: stat_defs)

text \<open>The values of the stats after a sequence of additions and reads.\<close>

datatype stat_op = AddItem stat_type rat | SubItem stat_type rat | Read stat_type

primrec stat_step :: "stat_op \<Rightarrow> stat_component \<Rightarrow> stat_component" where
  "stat_step (AddItem t v) c = add_item_stat t v c"
| "stat_step (SubItem t v) c = sub_item_stat t v c"
| "stat_step (Read t) c = snd (get_stat t c)"

lemma plain_cached_steps: "plain_cached (fold stat_step ops stat_component_new)"
proof (induction ops rule: rev_induct)
  case Nil
  then show ?case by (simp add: plain_cached_new)
next
  case (snoc op ops)
  then show ?case by (cases op) (simp_all add: plain_cached_add plain_cached_get sub_item_stat_def)
qed

text \<open>
  C34: After any additions, subtractions and reads, strength, dexterity and intellect are read as the sums of their
  parts, as if nothing was cached, and reading changes the value of no stat.
\<close>

theorem plain_stats_are_current:
  "let c = fold stat_step ops stat_component_new
   in fst (get_stat Str c) = stat_value Str c \<and> fst (get_stat Dex c) = stat_value Dex c
      \<and> fst (get_stat Intell c) = stat_value Intell c \<and> (\<lambda>u. stat_value u (snd (get_stat t c))) = (\<lambda>u. stat_value u c)"
proof -
  define c where "c = fold stat_step ops stat_component_new"
  have "plain_cached c" unfolding c_def by (rule plain_cached_steps)
  moreover have "stat_value u (snd (get_stat t c)) = stat_value u c" for u
    by (cases t) (auto simp: stat_defs stat_value_def)
  ultimately show ?thesis unfolding c_def [symmetric] by (simp add: stat_defs stat_value_def)
qed

text \<open>
  Attack is not read again when strength changes: after it was read once, or when no attack was ever added, any
  amount of strength leaves it as it was (and so with defence and dexterity), while its value grows fivefold.
\<close>

theorem attack_misses_strength:
  "fst (get_stat Attack (add_item_stat Str v (snd (get_stat Attack c)))) = fst (get_stat Attack c)
   \<and> fst (get_stat Attack (add_item_stat Str v stat_component_new)) = 0
   \<and> fst (get_stat Defence (add_item_stat Dex v (snd (get_stat Defence c)))) = fst (get_stat Defence c)
   \<and> stat_value Attack (add_item_stat Str v c) = stat_value Attack c + 5 * v"
  by (auto simp: stat_defs stat_value_def algebra_simps)

subsection \<open>Bounds\<close>


















end
