(* ===== verification/GamePackets.thy ===== *)
theory GamePackets
  imports GameMessages Inventory Stats SpatialGrid
begin

text \<open>
  What players are told of entities: the snapshots of \<^verbatim>\<open>xr/server/game/instance/snapshot\<close> and the messages that
  \<^verbatim>\<open>xr/server/game/packet/packet_builder.cpp\<close> fills in from them. The messages carry the bits of floating-point
  numbers of 32 bits; \<open>flt\<close> is the conversion of a number to them, \<^verbatim>\<open>static_cast<float>\<close>.
\<close>

subsection \<open>Entities\<close>

text \<open>The components of a player's entity that the messages read.\<close>

record player_entity =
  pn_id :: entity_id
  pn_name :: "byte list"
  pn_level :: int
  pn_face :: int
  pn_hair :: int
  pn_stats :: stat_component
  pn_inventory :: inventory
  pn_position :: position
  pn_yaw :: rat

text \<open>\<^verbatim>\<open>MovementComponent::GetX\<close>, \<^verbatim>\<open>GetY\<close>, \<^verbatim>\<open>GetZ\<close> of an entity that does not move by itself.\<close>

definition get_x :: "position \<Rightarrow> rat" where "get_x p = fst p"
definition get_y :: "position \<Rightarrow> rat" where "get_y p = snd (snd p)"
definition get_z :: "position \<Rightarrow> rat" where "get_z p = snd (snd p)"

text \<open>\<^verbatim>\<open>GetEquipments()\<close> with the items its pointers point to.\<close>

definition get_equipments :: "inventory \<Rightarrow> inventory_item option list" where
  "get_equipments v = map (\<lambda>p. case p of None \<Rightarrow> None | Some k \<Rightarrow> items v k) (equipments v)"

definition get_inventory_items :: "inventory \<Rightarrow> inventory_item list" where
  "get_inventory_items v = List.map_filter (\<lambda>p. case p of None \<Rightarrow> None | Some k \<Rightarrow> items v k) (inventory_slots v)"

definition as_int32 :: "rat \<Rightarrow> 32 word" where
  "as_int32 v = word_of_int (truncate32 v)"

text \<open>What \<^verbatim>\<open>Build(PlayerBase, GameEntity)\<close> and \<^verbatim>\<open>GamePlayerSnapshot::Initialize\<close> both read of the stats.\<close>

definition base_default :: game_player_base where
  "base_default =
     \<lparr>pb_hp = 0, pb_maxHp = 0, pb_attackMin = 0, pb_attackMax = 0, pb_attackRange = 0, pb_attackSpeed = 0, pb_speed = 0,
      pb_defence = 0, pb_name = [], pb_level = 0, pb_gender = 0, pb_face = 0, pb_hair = 0, pb_str = 0, pb_dex = 0,
      pb_intell = 0, pb_stamina = 0, pb_staminaMax = 0\<rparr>"

definition base_of_entity :: "(rat \<Rightarrow> 32 word) \<Rightarrow> int \<Rightarrow> player_entity \<Rightarrow> game_player_base \<times> player_entity" where
  "base_of_entity flt now e =
     (case get_hp now (pn_stats e) of (hp, st) \<Rightarrow>
      let maxHp = rs_max (st_hp st) in
      case get_stat Attack st of (attackMin, st) \<Rightarrow>
      case get_stat Attack st of (attackMax, st) \<Rightarrow>
      case get_stat Str st of (s, st) \<Rightarrow>
      case get_stat Dex st of (d, st) \<Rightarrow>
      case get_stat Intell st of (i, st) \<Rightarrow>
      case get_stamina now st of (stamina, st) \<Rightarrow>
        (base_default\<lparr>pb_hp := flt hp, pb_maxHp := flt maxHp, pb_attackMin := flt attackMin, pb_attackMax := flt attackMax,
           pb_speed := flt 10, pb_name := pn_name e, pb_level := word_of_int (pn_level e), pb_gender := 0,
           pb_face := word_of_int (pn_face e), pb_hair := word_of_int (pn_hair e), pb_str := as_int32 s, pb_dex := as_int32 d,
           pb_intell := as_int32 i, pb_stamina := flt stamina, pb_staminaMax := flt (rs_max (st_stamina st))\<rparr>,
         e\<lparr>pn_stats := st\<rparr>))"

subsection \<open>Snapshots\<close>

text \<open>
  \<^verbatim>\<open>ps_remote\<close> tells whether the controller is that of a client; the attributes that a \<^verbatim>\<open>PlayerBase\<close> repeats are kept
  as one.
\<close>

record player_snapshot =
  ps_id :: entity_id
  ps_remote :: bool
  ps_position :: position
  ps_yaw :: "32 word"
  ps_base :: game_player_base
  ps_equipments :: "inventory_item option list"

definition player_snapshot_new :: "(rat \<Rightarrow> 32 word) \<Rightarrow> int \<Rightarrow> bool \<Rightarrow> player_entity \<Rightarrow> player_snapshot \<times> player_entity" where
  "player_snapshot_new flt now remote e =
     (case base_of_entity flt now e of (base, e') \<Rightarrow>
        (\<lparr>ps_id = pn_id e, ps_remote = remote, ps_position = pn_position e, ps_yaw = 0, ps_base = base,
          ps_equipments = get_equipments (pn_inventory e)\<rparr>, e'))"

definition set_equipment :: "nat \<Rightarrow> inventory_item option \<Rightarrow> player_snapshot \<Rightarrow> player_snapshot" where
  "set_equipment p it s = s\<lparr>ps_equipments := (ps_equipments s)[p := it]\<rparr>"

record monster_data =
  md_id :: "32 word"
  md_attackMin :: "32 word"
  md_attackMax :: "32 word"
  md_attackRange :: "32 word"
  md_attackSpeed :: "32 word"

record monster_snapshot =
  ms_id :: entity_id
  ms_remote :: bool
  ms_data :: monster_data
  ms_position :: position
  ms_yaw :: "32 word"
  ms_hp :: "32 word"
  ms_maxHp :: "32 word"

record spawner_snapshot =
  sp_id :: entity_id
  sp_remote :: bool
  sp_position :: position

subsection \<open>Parts of messages\<close>

definition value_or_0 :: "int option \<Rightarrow> 32 word" where
  "value_or_0 v = (case v of None \<Rightarrow> 0 | Some i \<Rightarrow> word_of_int i)"

definition build_inventory_item :: "inventory_item \<Rightarrow> game_player_inventory_item" where
  "build_inventory_item it =
     \<lparr>it_slot = word_of_int (slot it), it_id = word_of_int (itemDataId it), it_count = word_of_int (quantity it),
      it_attack = value_or_0 (attack it), it_defence = value_or_0 (attack it), it_str = value_or_0 (attack it),
      it_dex = value_or_0 (attack it), it_intell = value_or_0 (attack it)\<rparr>"

definition build_equipment :: "inventory_item \<Rightarrow> nat \<Rightarrow> game_equipment" where
  "build_equipment it ty =
     \<lparr>eq_id = word_of_int (itemDataId it), eq_type = of_nat ty, eq_count = 0, eq_attack = value_or_0 (attack it),
      eq_defence = value_or_0 (attack it), eq_str = value_or_0 (attack it), eq_dex = value_or_0 (attack it),
      eq_intell = value_or_0 (attack it)\<rparr>"

definition equipment_default :: game_equipment where
  "equipment_default =
     \<lparr>eq_id = 0, eq_type = 0, eq_count = 0, eq_attack = 0, eq_defence = 0, eq_str = 0, eq_dex = 0, eq_intell = 0\<rparr>"

text \<open>The loop over the positions, armour to weapon.\<close>

definition build_equipment_at :: "inventory_item option list \<Rightarrow> nat \<Rightarrow> game_equipment" where
  "build_equipment_at its i =
     (if i < length its then (case its ! i of None \<Rightarrow> equipment_default | Some it \<Rightarrow> build_equipment it i)
      else equipment_default)"

definition build_player_equipment :: "inventory_item option list \<Rightarrow> game_player_equipment" where
  "build_player_equipment its =
     \<lparr>pe_armor = build_equipment_at its 0, pe_gloves = build_equipment_at its 1, pe_shoes = build_equipment_at its 2,
      pe_weapon = build_equipment_at its 3\<rparr>"

definition build_position :: "(rat \<Rightarrow> 32 word) \<Rightarrow> position \<Rightarrow> game_position" where
  "build_position flt p = (case p of (x, y, z) \<Rightarrow> \<lparr>pos_x = flt x, pos_y = flt y, pos_z = flt z\<rparr>)"

definition rotation_of_yaw :: "32 word \<Rightarrow> game_rotation" where
  "rotation_of_yaw y = \<lparr>rot_pitch = 0, rot_yaw = y, rot_roll = 0\<rparr>"

definition build_remote_player :: "(rat \<Rightarrow> 32 word) \<Rightarrow> player_snapshot \<Rightarrow> game_remote_player" where
  "build_remote_player flt p =
     \<lparr>rp_id = unwrap (ps_id p),
      rp_transform = \<lparr>tf_position = build_position flt (ps_position p), tf_rotation = rotation_of_yaw (ps_yaw p)\<rparr>,
      rp_base = (ps_base p)\<lparr>pb_attackRange := 0, pb_attackSpeed := 0, pb_defence := 0\<rparr>,
      rp_equipment = build_player_equipment (ps_equipments p)\<rparr>"

definition build_monster :: "(rat \<Rightarrow> 32 word) \<Rightarrow> monster_snapshot \<Rightarrow> game_monster" where
  "build_monster flt m =
     \<lparr>mo_dataId = md_id (ms_data m), mo_id = unwrap (ms_id m),
      mo_transform = \<lparr>tf_position = build_position flt (ms_position m), tf_rotation = rotation_of_yaw (ms_yaw m)\<rparr>,
      mo_hp = ms_hp m, mo_maxHp = md_attackMax (ms_data m), mo_attackMin = md_attackMin (ms_data m),
      mo_attackMax = md_attackMax (ms_data m), mo_attackRange = md_attackRange (ms_data m),
      mo_attackSpeed = md_attackSpeed (ms_data m), mo_speed = flt 50, mo_defence = flt 0\<rparr>"

definition build_player :: "(rat \<Rightarrow> 32 word) \<Rightarrow> int \<Rightarrow> player_entity \<Rightarrow> game_player \<times> player_entity" where
  "build_player flt now e =
     (case base_of_entity flt now e of (base, e') \<Rightarrow>
        let its = map build_inventory_item (get_inventory_items (pn_inventory e))
        in (\<lparr>pl_id = unwrap (pn_id e),
             pl_transform =
               \<lparr>tf_position = \<lparr>pos_x = flt (get_x (pn_position e)), pos_y = flt (get_y (pn_position e)),
                               pos_z = flt (get_z (pn_position e))\<rparr>,
                tf_rotation = rotation_of_yaw (flt (pn_yaw e))\<rparr>,
             pl_base = base, pl_equipment = build_player_equipment (get_equipments (pn_inventory e)), pl_gold = 123123,
             pl_itemsCount = of_nat (length its), pl_items = its, pl_quickSlotCount = 0, pl_quickSlots = [],
             pl_skillsCount = 0, pl_skills = [], pl_exp = 0, pl_expMax = 0\<rparr>, e'))"

subsection \<open>Messages\<close>

definition build_enter_game :: "(rat \<Rightarrow> 32 word) \<Rightarrow> int \<Rightarrow> player_entity \<Rightarrow> 32 word \<Rightarrow> game_sc \<times> player_entity" where
  "build_enter_game flt now e zone =
     (case build_player flt now e of (p, e') \<Rightarrow> (ScEnterGame zone 0 [] 0 [] p, e'))"

definition build_add_remote_player :: "(rat \<Rightarrow> 32 word) \<Rightarrow> player_snapshot \<Rightarrow> game_sc" where
  "build_add_remote_player flt p = ScAddRemotePlayer 1 [build_remote_player flt p]"

definition build_remove_remote_player :: "player_snapshot \<Rightarrow> game_sc" where
  "build_remove_remote_player p = ScRemoveRemotePlayer 1 [unwrap (ps_id p)]"

definition build_move_remote_player :: "(rat \<Rightarrow> 32 word) \<Rightarrow> player_snapshot \<Rightarrow> game_sc" where
  "build_move_remote_player flt p =
     ScMoveRemotePlayer (unwrap (ps_id p)) (build_position flt (ps_position p)) (rotation_of_yaw (ps_yaw p))"

text \<open>
  A player who enters is told the height of its position twice, and not where it is in the second direction; a monster
  is announced with its attack as its health; every attribute of an item is told to be its attack.
\<close>

lemma entering_player_misses_y:
  "\<exists>player. fst (build_enter_game flt now e zone) = ScEnterGame zone 0 [] 0 [] player
     \<and> pos_y (tf_position (pl_transform player)) = flt (snd (snd (pn_position e)))"
  by (auto simp: build_enter_game_def build_player_def get_y_def Let_def split: prod.split)

lemma monster_announced_with_attack: "mo_maxHp (build_monster flt (m\<lparr>ms_maxHp := h\<rparr>)) = md_attackMax (ms_data m)"
  by (simp add: build_monster_def)

lemma item_told_by_its_attack:
  "build_inventory_item (it\<lparr>defence := d, str := s, dex := x, intell := i\<rparr>) = build_inventory_item it"
  by (simp add: build_inventory_item_def)

text \<open>The numbers of the entities that a message adds to those its receiver knows, or removes from them.\<close>

fun learn :: "game_sc \<Rightarrow> 64 word set \<Rightarrow> 64 word set" where
  "learn (ScAddRemotePlayer n ps) known = known \<union> set (map rp_id ps)"
| "learn (ScSpawnRemotePlayer n ps) known = known \<union> set (map rp_id ps)"
| "learn (ScRemoveRemotePlayer n ids) known = known - set ids"
| "learn (ScSpawnMonster n ms) known = known \<union> set (map mo_id ms)"
| "learn (ScAddMonster n ms) known = known \<union> set (map mo_id ms)"
| "learn (ScRemoveMonster n ids) known = known - set ids"
| "learn (ScDespawnMonster n ids) known = known - set ids"
| "learn _ known = known"

end
