(* ===== verification/Snapshots.thy ===== *)
theory Snapshots
  imports GamePackets
begin

text \<open>
  Who is told what in a game instance: the containers of \<^verbatim>\<open>game_snapshot_container.cpp\<close>, the broadcasts of
  \<^verbatim>\<open>game_snapshot_view.cpp\<close> and the operations of \<^verbatim>\<open>game_snapshot_controller.cpp\<close> on them and on the grid. \<open>notices\<close>
  is what was passed to \<^verbatim>\<open>Notify\<close> of the controllers, in order; \<open>delayed\<close> what a timer will pass to them. The hash maps
  are association lists. The observers of the view, which only the visualiser of a field uses, are left out, and so is
  the controller of the artificial intelligence but for \<open>ai_deleted\<close>, the entities whose controller was to be deleted.
\<close>

declare split_paired_All [simp del] split_paired_Ex [simp del]

subsection \<open>The containers\<close>

record world =
  world_grid :: spatial_container
  players :: "(entity_id \<times> player_snapshot) list"
  monsters :: "(entity_id \<times> monster_snapshot) list"
  spawners :: "(entity_id \<times> spawner_snapshot) list"
  notices :: "(entity_id \<times> game_sc) list"
  delayed :: "(entity_id \<times> game_sc) list"
  ai_deleted :: "entity_id list"

text \<open>\<^verbatim>\<open>try_emplace\<close> keeps what is there.\<close>

definition insert_new :: "'k \<Rightarrow> 'v \<Rightarrow> ('k \<times> 'v) list \<Rightarrow> ('k \<times> 'v) list" where
  "insert_new k v xs = (if map_of xs k = None then xs @ [(k, v)] else xs)"

definition erase_key :: "'k \<Rightarrow> ('k \<times> 'v) list \<Rightarrow> ('k \<times> 'v) list" where
  "erase_key k xs = filter (\<lambda>x. fst x \<noteq> k) xs"

text \<open>A change of an object through the pointer that \<^verbatim>\<open>Find\<close> returned.\<close>

definition change_at :: "'k \<Rightarrow> ('v \<Rightarrow> 'v) \<Rightarrow> ('k \<times> 'v) list \<Rightarrow> ('k \<times> 'v) list" where
  "change_at k f xs = map (\<lambda>(j, v). (j, if j = k then f v else v)) xs"

definition snapshots_add_player :: "player_snapshot \<Rightarrow> world \<Rightarrow> world" where
  "snapshots_add_player p w = w\<lparr>players := insert_new (ps_id p) p (players w)\<rparr>"

definition snapshots_add_monster :: "monster_snapshot \<Rightarrow> world \<Rightarrow> world" where
  "snapshots_add_monster m w = w\<lparr>monsters := insert_new (ms_id m) m (monsters w)\<rparr>"

definition snapshots_add_spawner :: "spawner_snapshot \<Rightarrow> world \<Rightarrow> world" where
  "snapshots_add_spawner s w = w\<lparr>spawners := insert_new (sp_id s) s (spawners w)\<rparr>"

definition snapshots_remove :: "entity_id \<Rightarrow> world \<Rightarrow> world" where
  "snapshots_remove i w =
     (case entity_type i of
        PlayerEntity \<Rightarrow> w\<lparr>players := erase_key i (players w)\<rparr>
      | MonsterEntity \<Rightarrow> w\<lparr>monsters := erase_key i (monsters w)\<rparr>
      | SpawnerEntity \<Rightarrow> w\<lparr>spawners := erase_key i (spawners w)\<rparr>)"

definition snapshots_has :: "entity_id \<Rightarrow> world \<Rightarrow> bool" where
  "snapshots_has i w =
     (case entity_type i of
        PlayerEntity \<Rightarrow> map_of (players w) i \<noteq> None
      | MonsterEntity \<Rightarrow> map_of (monsters w) i \<noteq> None
      | SpawnerEntity \<Rightarrow> False)"

text \<open>\<^verbatim>\<open>FindController\<close>: whether there is one, and whether it is that of a client.\<close>

definition find_controller :: "entity_id \<Rightarrow> world \<Rightarrow> bool option" where
  "find_controller i w =
     (case entity_type i of
        PlayerEntity \<Rightarrow> map_option ps_remote (map_of (players w) i)
      | MonsterEntity \<Rightarrow> map_option ms_remote (map_of (monsters w) i)
      | SpawnerEntity \<Rightarrow> map_option sp_remote (map_of (spawners w) i))"

definition find_position :: "entity_id \<Rightarrow> world \<Rightarrow> position option" where
  "find_position i w =
     (case entity_type i of
        PlayerEntity \<Rightarrow> map_option ps_position (map_of (players w) i)
      | MonsterEntity \<Rightarrow> map_option ms_position (map_of (monsters w) i)
      | SpawnerEntity \<Rightarrow> map_option sp_position (map_of (spawners w) i))"

subsection \<open>The view\<close>

definition sync_client :: "entity_id \<Rightarrow> game_sc \<Rightarrow> world \<Rightarrow> world" where
  "sync_client i p w = w\<lparr>notices := notices w @ [(i, p)]\<rparr>"

text \<open>\<^verbatim>\<open>Sync(*FindController(id), packet)\<close>\<close>

definition tell :: "game_sc \<Rightarrow> entity_id \<Rightarrow> world \<Rightarrow> fault + world" where
  "tell p i w = (case find_controller i w of None \<Rightarrow> Inl NullDeref | Some _ \<Rightarrow> Inr (sync_client i p w))"

definition tell_later :: "game_sc \<Rightarrow> entity_id \<Rightarrow> world \<Rightarrow> fault + world" where
  "tell_later p i w =
     (case find_controller i w of
        None \<Rightarrow> Inl NullDeref
      | Some remote \<Rightarrow> Inr (if remote then w\<lparr>delayed := delayed w @ [(i, p)]\<rparr> else sync_client i p w))"

definition unless :: "bool \<Rightarrow> ('w \<Rightarrow> 'e + 'w) \<Rightarrow> 'w \<Rightarrow> 'e + 'w" where
  "unless b f w = (if b then Inr w else f w)"

definition broadcast_cells :: "game_sc \<Rightarrow> nat list \<Rightarrow> entity_id option \<Rightarrow> world \<Rightarrow> fault + world" where
  "broadcast_cells p ks excluded w =
     each (\<lambda>i. unless (excluded = Some i) (tell p i)) (cells_entities ks (world_grid w)) w"

definition broadcast_type :: "entity_type \<Rightarrow> game_sc \<Rightarrow> nat list \<Rightarrow> world \<Rightarrow> fault + world" where
  "broadcast_type ty p ks w = each (tell p) (cells_entities_of ty ks (world_grid w)) w"

definition broadcast_players :: "game_sc \<Rightarrow> entity_id option \<Rightarrow> world \<Rightarrow> world" where
  "broadcast_players p excluded w =
     fold (\<lambda>i w. if excluded = Some i then w else sync_client i p w) (map fst (players w)) w"

definition broadcast_delayed :: "game_sc \<Rightarrow> nat list \<Rightarrow> entity_id option \<Rightarrow> world \<Rightarrow> fault + world" where
  "broadcast_delayed p ks excluded w =
     each (\<lambda>i. unless (excluded = Some i) (tell_later p i)) (cells_entities ks (world_grid w)) w"

text \<open>The timer of the delayed message number \<open>n\<close>. Its continuation runs on the executor and not on the strand, where it
  races with the tasks; the model delivers a message in one step between them.\<close>

definition deliver_delayed :: "nat \<Rightarrow> world \<Rightarrow> world" where
  "deliver_delayed n w =
     (case delayed w ! n of (i, p) \<Rightarrow>
        let w' = w\<lparr>delayed := take n (delayed w) @ drop (Suc n) (delayed w)\<rparr>
        in case find_controller i w' of None \<Rightarrow> w' | Some _ \<Rightarrow> sync_client i p w')"

definition sector_of_position :: "position \<Rightarrow> (nat \<Rightarrow> nat list \<Rightarrow> world \<Rightarrow> fault + world) \<Rightarrow> world \<Rightarrow> fault + world" where
  "sector_of_position pos f w =
     and_then (get_sector pos (world_grid w)) (\<lambda>s. f s (sector_cells (sectors (world_grid w) ! s)) w)"

definition broadcast_around :: "game_sc \<Rightarrow> player_snapshot \<Rightarrow> entity_id option \<Rightarrow> world \<Rightarrow> fault + world" where
  "broadcast_around packet p excluded = sector_of_position (ps_position p) (\<lambda>s ks. broadcast_cells packet ks excluded)"

definition display_system_message :: "entity_id \<Rightarrow> byte list \<Rightarrow> world \<Rightarrow> world" where
  "display_system_message i msg w =
     (if entity_type i \<noteq> PlayerEntity then w
      else case find_controller i w of None \<Rightarrow> w | Some _ \<Rightarrow> sync_client i (ScNotifyChattingMessage 1 msg) w)"

definition enter_sector :: "entity_id \<Rightarrow> nat \<Rightarrow> world \<Rightarrow> fault + world" where
  "enter_sector i s w = and_then (sector_add_entity i s (world_grid w)) (\<lambda>g. Inr (w\<lparr>world_grid := g\<rparr>))"

definition leave_sector :: "entity_id \<Rightarrow> nat \<Rightarrow> world \<Rightarrow> fault + world" where
  "leave_sector i s w = and_then (sector_remove_entity i s (world_grid w)) (\<lambda>g. Inr (w\<lparr>world_grid := g\<rparr>))"

subsection \<open>Coming into view and out of it\<close>

text \<open>
  The loop over entities that come into view of a player: each is told of the player, and the players and monsters
  among them are collected for it.
\<close>

definition meet_one ::
  "(rat \<Rightarrow> 32 word) \<Rightarrow> game_sc \<Rightarrow> entity_id \<Rightarrow> world \<times> game_remote_player list \<times> game_monster list
     \<Rightarrow> fault + world \<times> game_remote_player list \<times> game_monster list" where
  "meet_one flt add i st =
     (case st of (w, ps, ms) \<Rightarrow>
        and_then
          (case entity_type i of
             PlayerEntity \<Rightarrow>
               (case map_of (players w) i of None \<Rightarrow> Inl NullDeref | Some p \<Rightarrow> Inr (ps @ [build_remote_player flt p], ms))
           | MonsterEntity \<Rightarrow>
               (case map_of (monsters w) i of None \<Rightarrow> Inl NullDeref | Some m \<Rightarrow> Inr (ps, ms @ [build_monster flt m]))
           | SpawnerEntity \<Rightarrow> Inr (ps, ms))
          (\<lambda>(ps, ms). and_then (tell add i w) (\<lambda>w. Inr (w, ps, ms))))"

definition tell_new :: "entity_id \<Rightarrow> game_remote_player list \<Rightarrow> game_monster list \<Rightarrow> world \<Rightarrow> world" where
  "tell_new i ps ms w =
     (let w = (if ps \<noteq> [] then sync_client i (ScAddRemotePlayer (of_nat (length ps)) ps) w else w)
      in if ms \<noteq> [] then sync_client i (ScAddMonster (of_nat (length ms)) ms) w else w)"

definition meet :: "(rat \<Rightarrow> 32 word) \<Rightarrow> player_snapshot \<Rightarrow> entity_id list \<Rightarrow> world \<Rightarrow> fault + world" where
  "meet flt p is w =
     and_then (each (meet_one flt (build_add_remote_player flt p)) is (w, [], []))
       (\<lambda>(w, ps, ms). Inr (tell_new (ps_id p) ps ms w))"

definition tell_old :: "entity_id \<Rightarrow> entity_id list \<Rightarrow> world \<Rightarrow> world" where
  "tell_old i is w =
     (let ps = map unwrap (filter (\<lambda>j. entity_type j = PlayerEntity) is);
          ms = map unwrap (filter (\<lambda>j. entity_type j = MonsterEntity) is);
          w = (if ps \<noteq> [] then sync_client i (ScRemoveRemotePlayer (of_nat (length ps)) ps) w else w)
      in if ms \<noteq> [] then sync_client i (ScRemoveMonster (of_nat (length ms)) ms) w else w)"

definition part :: "player_snapshot \<Rightarrow> entity_id list \<Rightarrow> world \<Rightarrow> fault + world" where
  "part p is w =
     and_then (each (tell (build_remove_remote_player p)) is w) (\<lambda>w. Inr (tell_old (ps_id p) is w))"

definition handle_player_position_change ::
  "(rat \<Rightarrow> 32 word) \<Rightarrow> player_snapshot \<Rightarrow> position \<Rightarrow> position \<Rightarrow> bool \<Rightarrow> world \<Rightarrow> fault + world" where
  "handle_player_position_change flt p0 oldPos newPos syncMovement w0 =
     (let p = p0\<lparr>ps_position := newPos\<rparr>;
          i = ps_id p;
          w = w0\<lparr>players := change_at i (\<lambda>q. q\<lparr>ps_position := newPos\<rparr>) (players w0)\<rparr>
      in and_then (get_sector oldPos (world_grid w)) (\<lambda>a.
         and_then (get_sector newPos (world_grid w)) (\<lambda>b.
         if sector_id (sectors (world_grid w) ! a) = sector_id (sectors (world_grid w) ! b)
         then broadcast_cells (build_move_remote_player flt p) (sector_cells (sectors (world_grid w) ! a)) (Some i) w
         else
           and_then (leave_sector i a w) (\<lambda>w.
           and_then (let outs = cells_entities (sector_difference a b (world_grid w)) (world_grid w)
                     in if outs \<noteq> [] then part p outs w else Inr w) (\<lambda>w.
           and_then (let same = sector_intersect b a (world_grid w)
                     in if syncMovement \<and> same \<noteq> [] then broadcast_cells (build_move_remote_player flt p) same (Some i) w
                        else Inr w) (\<lambda>w.
           and_then (let ins = cells_entities (sector_difference b a (world_grid w)) (world_grid w)
                     in if ins \<noteq> [] then meet flt p ins w else Inr w) (\<lambda>w.
           enter_sector i b w)))))))"

definition move_monster_packet :: "(rat \<Rightarrow> 32 word) \<Rightarrow> monster_snapshot \<Rightarrow> game_sc" where
  "move_monster_packet flt m = ScMoveMonster (unwrap (ms_id m)) (build_position flt (ms_position m)) (rotation_of_yaw (ms_yaw m))"

definition handle_monster_position_change ::
  "(rat \<Rightarrow> 32 word) \<Rightarrow> monster_snapshot \<Rightarrow> position \<Rightarrow> position \<Rightarrow> bool \<Rightarrow> world \<Rightarrow> fault + world" where
  "handle_monster_position_change flt m0 oldPos newPos syncMovement w0 =
     (let m = m0\<lparr>ms_position := newPos\<rparr>;
          i = ms_id m;
          w = w0\<lparr>monsters := change_at i (\<lambda>q. q\<lparr>ms_position := newPos\<rparr>) (monsters w0)\<rparr>
      in and_then (get_sector oldPos (world_grid w)) (\<lambda>a.
         and_then (get_sector newPos (world_grid w)) (\<lambda>b.
         if sector_id (sectors (world_grid w) ! a) = sector_id (sectors (world_grid w) ! b)
         then (if syncMovement
               then broadcast_cells (move_monster_packet flt m) (sector_cells (sectors (world_grid w) ! a)) None w
               else Inr w)
         else
           and_then (leave_sector i a w) (\<lambda>w.
           and_then (let outs = sector_difference a b (world_grid w)
                     in if outs \<noteq> [] then broadcast_type PlayerEntity (ScRemoveMonster 1 [unwrap i]) outs w else Inr w) (\<lambda>w.
           and_then (let same = sector_intersect b a (world_grid w)
                     in if syncMovement \<and> same \<noteq> [] then broadcast_cells (move_monster_packet flt m) same (Some i) w
                        else Inr w) (\<lambda>w.
           and_then (let ins = sector_difference b a (world_grid w)
                     in if ins \<noteq> [] then broadcast_type PlayerEntity (ScAddMonster 1 [build_monster flt m]) ins w else Inr w) (\<lambda>w.
           enter_sector i b w)))))))"

subsection \<open>The operations on players\<close>

text \<open>\<open>packet\<close> is the \<^verbatim>\<open>EnterGame\<close> built from the entity.\<close>

definition process_player_spawn :: "entity_id \<Rightarrow> game_sc \<Rightarrow> world \<Rightarrow> fault + world" where
  "process_player_spawn i packet w =
     (case map_of (players w) i of None \<Rightarrow> Inl NullDeref | Some _ \<Rightarrow> Inr (sync_client i packet w))"

definition process_player_activate :: "(rat \<Rightarrow> 32 word) \<Rightarrow> entity_id \<Rightarrow> world \<Rightarrow> fault + world" where
  "process_player_activate flt i w =
     (case map_of (players w) i of
        None \<Rightarrow> Inl NullDeref
      | Some p \<Rightarrow>
          sector_of_position (ps_position p) (\<lambda>s ks w.
            and_then (if ks \<noteq> [] \<and> has_at_least 0 0 ks (world_grid w)
                      then meet flt p (cells_entities ks (world_grid w)) w else Inr w) (\<lambda>w.
            enter_sector i s (sync_client i ScNotifyPlayerActivated w))) w)"

definition process_player_despawn :: "entity_id \<Rightarrow> world \<Rightarrow> fault + world" where
  "process_player_despawn i w =
     (case map_of (players w) i of
        None \<Rightarrow> Inl NullDeref
      | Some p \<Rightarrow>
          sector_of_position (ps_position p) (\<lambda>s ks w.
            and_then (leave_sector i s w) (\<lambda>w.
            and_then (broadcast_cells (build_remove_remote_player p) ks None w) (\<lambda>w.
            Inr (snapshots_remove i w)))) w)"

definition process_movement :: "(rat \<Rightarrow> 32 word) \<Rightarrow> entity_id \<Rightarrow> position \<Rightarrow> 32 word \<Rightarrow> world \<Rightarrow> fault + world" where
  "process_movement flt i pos yaw w =
     (case map_of (players w) i of
        None \<Rightarrow> Inr w
      | Some p \<Rightarrow>
          handle_player_position_change flt (p\<lparr>ps_yaw := yaw\<rparr>) (ps_position p) pos True
            (w\<lparr>players := change_at i (\<lambda>q. q\<lparr>ps_yaw := yaw\<rparr>) (players w)\<rparr>))"

definition process_stop :: "(rat \<Rightarrow> 32 word) \<Rightarrow> entity_id \<Rightarrow> position \<Rightarrow> world \<Rightarrow> fault + world" where
  "process_stop flt i pos w =
     (case map_of (players w) i of
        None \<Rightarrow> Inr w
      | Some p \<Rightarrow> handle_player_position_change flt p (ps_position p) pos True w)"

definition process_sprint :: "entity_id \<Rightarrow> world \<Rightarrow> fault + world" where
  "process_sprint i w =
     (case map_of (players w) i of
        None \<Rightarrow> Inl NullDeref
      | Some p \<Rightarrow> broadcast_around (ScSprintRemotePlayer (unwrap i)) p (Some i) w)"

definition process_roll_dodge :: "entity_id \<Rightarrow> game_rotation \<Rightarrow> world \<Rightarrow> fault + world" where
  "process_roll_dodge i rot w =
     (case map_of (players w) i of
        None \<Rightarrow> Inl NullDeref
      | Some p \<Rightarrow> broadcast_around (ScRollDodgeRemotePlayer (unwrap i) rot) p (Some i) w)"

definition process_player_attack ::
  "(rat \<Rightarrow> 32 word) \<Rightarrow> entity_id \<Rightarrow> 32 word \<Rightarrow> position \<Rightarrow> rat \<Rightarrow> world \<Rightarrow> fault + world" where
  "process_player_attack flt i attackId pos yaw w =
     (case map_of (players w) i of
        None \<Rightarrow> Inl NullDeref
      | Some p \<Rightarrow>
          and_then (if ps_position p \<noteq> pos then handle_player_position_change flt p (ps_position p) pos False w else Inr w)
            (\<lambda>w. Inr (broadcast_players
               (ScRemotePlayerAttack (unwrap i) attackId (build_position flt pos) (rotation_of_yaw (flt yaw))) (Some i) w)))"

definition attack_one :: "entity_id \<Rightarrow> entity_id \<times> 32 word \<Rightarrow> world \<Rightarrow> fault + world" where
  "attack_one attacker = (\<lambda>(i, hp) w.
     case map_of (monsters w) i of
       None \<Rightarrow> Inl NullDeref
     | Some m \<Rightarrow>
         sector_of_position (ms_position m) (\<lambda>s ks. broadcast_cells (ScBeAttackedMonster (unwrap attacker) (unwrap i) hp) ks None)
           (w\<lparr>monsters := change_at i (\<lambda>m. m\<lparr>ms_hp := hp\<rparr>) (monsters w)\<rparr>))"

definition process_player_attack_effect :: "entity_id \<Rightarrow> (entity_id \<times> 32 word) list \<Rightarrow> world \<Rightarrow> fault + world" where
  "process_player_attack_effect i results w = each (attack_one i) results w"

definition process_player_equip_item_change :: "entity_id \<Rightarrow> int \<Rightarrow> inventory_item option \<Rightarrow> world \<Rightarrow> fault + world" where
  "process_player_equip_item_change i pos it w =
     (case map_of (players w) i of
        None \<Rightarrow> Inl NullDeref
      | Some p \<Rightarrow>
          if pos < 0 \<or> int (length (ps_equipments p)) \<le> pos then Inl OutOfBounds
          else
            Inr (broadcast_players
              (ScChangeRemotePlayerEquipItem (unwrap i) (word_of_int pos)
                 (case it of None \<Rightarrow> - 1 | Some it \<Rightarrow> word_of_int (itemDataId it)))
              (Some i)
              (w\<lparr>players := change_at i (set_equipment (nat pos) it) (players w)\<rparr>)))"

subsection \<open>The operations on monsters and spawners\<close>

definition process_monster_spawn :: "(rat \<Rightarrow> 32 word) \<Rightarrow> monster_snapshot \<Rightarrow> world \<Rightarrow> fault + world" where
  "process_monster_spawn flt m =
     sector_of_position (ms_position m) (\<lambda>s ks w.
       and_then (broadcast_cells (ScSpawnMonster 1 [build_monster flt m]) ks None w) (enter_sector (ms_id m) s))"

definition process_monster_despawn :: "entity_id \<Rightarrow> world \<Rightarrow> fault + world" where
  "process_monster_despawn i w =
     (case map_of (monsters w) i of
        None \<Rightarrow> Inl NullDeref
      | Some m \<Rightarrow>
          sector_of_position (ms_position m) (\<lambda>s ks w.
            and_then (leave_sector i s w) (\<lambda>w.
            and_then (broadcast_cells (ScDespawnMonster 1 [unwrap i]) ks None w) (\<lambda>w.
            Inr (snapshots_remove i w)))) w)"

text \<open>The monster that was killed; \<open>has_ai\<close> is whether \<^verbatim>\<open>FindAIController\<close> finds one.\<close>

definition process_monster_death :: "entity_id \<Rightarrow> bool \<Rightarrow> entity_id option \<Rightarrow> world \<Rightarrow> fault + world" where
  "process_monster_death i has_ai spawner w =
     (case map_of (monsters w) i of
        None \<Rightarrow> Inl NullDeref
      | Some m \<Rightarrow>
          sector_of_position (ms_position m) (\<lambda>s ks w.
            and_then (leave_sector i s w) (\<lambda>w.
            and_then (broadcast_delayed (ScDespawnMonster 1 [unwrap i]) ks None w) (\<lambda>w.
            let w = (if has_ai then w\<lparr>ai_deleted := ai_deleted w @ [i]\<rparr> else w);
                w = (case spawner of
                       None \<Rightarrow> w
                     | Some j \<Rightarrow> (case find_controller j w of None \<Rightarrow> w | Some _ \<Rightarrow> sync_client j ScSpawnerMonsterDead w))
            in Inr (snapshots_remove i w)))) w)"

definition process_monster_move :: "(rat \<Rightarrow> 32 word) \<Rightarrow> entity_id \<Rightarrow> position \<Rightarrow> 32 word \<Rightarrow> world \<Rightarrow> fault + world" where
  "process_monster_move flt i pos yaw w =
     (case map_of (monsters w) i of
        None \<Rightarrow> Inl NullDeref
      | Some m \<Rightarrow>
          handle_monster_position_change flt (m\<lparr>ms_yaw := yaw\<rparr>) (ms_position m) pos True
            (w\<lparr>monsters := change_at i (\<lambda>m. m\<lparr>ms_yaw := yaw\<rparr>) (monsters w)\<rparr>))"

text \<open>\<open>double\<close> is the conversion of a duration to the bits of a number of 64 bits.\<close>

definition process_monster_attack ::
  "(rat \<Rightarrow> 32 word) \<Rightarrow> (rat \<Rightarrow> 64 word) \<Rightarrow> entity_id \<Rightarrow> 32 word \<Rightarrow> position option \<Rightarrow> position \<Rightarrow> rat \<Rightarrow> world \<Rightarrow> fault + world" where
  "process_monster_attack flt double i attackIndex destPos rot duration w =
     (case map_of (monsters w) i of
        None \<Rightarrow> Inl NullDeref
      | Some m \<Rightarrow>
          let r = build_position flt rot;
              rotation = \<lparr>rot_pitch = pos_x r, rot_yaw = pos_y r, rot_roll = pos_z r\<rparr>;
              packet = (case destPos of
                 None \<Rightarrow> ScAttackMonster (unwrap i) attackIndex (build_position flt (ms_position m)) rotation
                           \<lparr>pos_x = 0, pos_y = 0, pos_z = 0\<rparr> 0
               | Some d \<Rightarrow> ScAttackMonster (unwrap i) attackIndex (build_position flt (ms_position m)) rotation
                           (build_position flt d) (double duration))
          in and_then (sector_of_position (ms_position m) (\<lambda>s ks. broadcast_cells packet ks None) w) (\<lambda>w.
             case destPos of
               None \<Rightarrow> Inr w
             | Some d \<Rightarrow> handle_monster_position_change flt m (ms_position m) d False w))"

definition process_monster_attack_effect :: "entity_id \<Rightarrow> 32 word \<Rightarrow> entity_id \<Rightarrow> 32 word \<Rightarrow> world \<Rightarrow> fault + world" where
  "process_monster_attack_effect attacker attackId target hp w =
     (case map_of (players w) target of
        None \<Rightarrow> Inl NullDeref
      | Some p \<Rightarrow>
          sector_of_position (ps_position p)
            (\<lambda>s ks. broadcast_cells (ScBeAttackedPlayer (unwrap attacker) (unwrap target) attackId hp) ks None) w)"

definition process_spawner_add :: "spawner_snapshot \<Rightarrow> world \<Rightarrow> fault + world" where
  "process_spawner_add s = sector_of_position (sp_position s) (\<lambda>k ks. enter_sector (sp_id s) k)"

end
