(* ===== verification/Interest.thy ===== *)
theory Interest
  imports Snapshots
begin

text \<open>
  What the players of a game instance know of each other. The theory follows the messages each player was sent, and
  proves that a player knows exactly the players and monsters in the cells around its own, up to monsters that are
  dying, as long as every player is activated once, and that no operation dereferences a null controller then.
\<close>

subsection \<open>What a player was told\<close>

definition addressed :: "entity_id \<Rightarrow> (entity_id \<times> game_sc) list \<Rightarrow> game_sc list" where
  "addressed i l = map snd (filter (\<lambda>x. fst x = i) l)"

definition known :: "entity_id \<Rightarrow> world \<Rightarrow> 64 word set" where
  "known i w = fold learn (addressed i (notices w)) {}"

definition says :: "(entity_id \<times> game_sc) list \<Rightarrow> world \<Rightarrow> world" where
  "says l w = w\<lparr>notices := notices w @ l\<rparr>"

lemma addressed_simps [simp]:
  "addressed i [] = []"
  "addressed i ((j, p) # l) = (if j = i then p # addressed i l else addressed i l)"
  "addressed i (l @ m) = addressed i l @ addressed i m"
  by (simp_all add: addressed_def)

lemma says_simps [simp]:
  "world_grid (says l w) = world_grid w" "players (says l w) = players w" "monsters (says l w) = monsters w"
  "spawners (says l w) = spawners w" "notices (says l w) = notices w @ l" "delayed (says l w) = delayed w" "ai_deleted (says l w) = ai_deleted w"
  "says [] w = w" "says m (says l w) = says (l @ m) w"
  "find_controller i (says l w) = find_controller i w" "find_position i (says l w) = find_position i w"
  by (simp_all add: says_def find_controller_def find_position_def split: entity_type.split)

lemma sync_says: "sync_client i p w = says [(i, p)] w"
  by (simp add: sync_client_def says_def)

lemma known_says [simp]: "known j (says l w) = fold learn (addressed j l) (known j w)"
  by (simp add: known_def says_def)

lemma learn_again [simp]: "learn p (learn p k) = learn p k"
  by (cases p) auto

lemma learn_everyone: "fold learn (addressed j (map (\<lambda>i. (i, p)) is)) k = (if j \<in> set is then learn p k else k)"
  by (induction "is" arbitrary: k) auto

definition quiet :: "game_sc \<Rightarrow> bool" where
  "quiet p \<longleftrightarrow> (\<forall>k. learn p k = k)"

lemma learn_quiet: "\<forall>x \<in> set l. quiet (snd x) \<Longrightarrow> fold learn (addressed j l) k = k"
  by (induction l arbitrary: k) (auto simp: quiet_def addressed_def)

lemma unless_False [simp]: "unless False f = f"
  by (simp add: unless_def fun_eq_iff)

lemma each_tells:
  assumes "\<forall>i \<in> set is. ex \<noteq> Some i \<longrightarrow> find_controller i w \<noteq> None"
  shows "each (\<lambda>i. unless (ex = Some i) (tell p i)) is w = Inr (says (map (\<lambda>i. (i, p)) (filter (\<lambda>i. ex \<noteq> Some i) is)) w)"
  using assms
proof (induction "is" arbitrary: w)
  case (Cons i "is")
  then show ?case by (auto simp: unless_def tell_def sync_says)
qed simp

lemma each_tell:
  assumes "\<forall>i \<in> set is. find_controller i w \<noteq> None"
  shows "each (tell p) is w = Inr (says (map (\<lambda>i. (i, p)) is) w)"
  using each_tells [of "is" None w p] assms by simp

subsection \<open>The entities of the grid\<close>

text \<open>
  The grid lists every entity at most once, in the cell of the position of its snapshot; monsters and spawners have to
  be listed, players only once they are active.
\<close>

definition snapshots_ok :: "world \<Rightarrow> bool" where
  "snapshots_ok w \<longleftrightarrow> distinct (map fst (players w)) \<and> distinct (map fst (monsters w)) \<and> distinct (map fst (spawners w))
     \<and> (\<forall>(i, p) \<in> set (players w). ps_id p = i \<and> entity_type i = PlayerEntity)
     \<and> (\<forall>(i, m) \<in> set (monsters w). ms_id m = i \<and> entity_type i = MonsterEntity)
     \<and> (\<forall>(i, s) \<in> set (spawners w). sp_id s = i \<and> entity_type i = SpawnerEntity)"

definition grid_ok :: "nat \<Rightarrow> world \<Rightarrow> bool" where
  "grid_ok n w \<longleftrightarrow> square_grid n (world_grid w) \<and> snapshots_ok w
     \<and> (\<forall>k < n * n. \<forall>t. distinct (listed k (world_grid w) t)
          \<and> (\<forall>e \<in> set (listed k (world_grid w) t). entity_type e = t
               \<and> (\<exists>p. find_position e w = Some p \<and> sector_of p (world_grid w) = k)))"

definition here :: "entity_id \<Rightarrow> nat \<Rightarrow> world \<Rightarrow> bool" where
  "here e k w \<longleftrightarrow> e \<in> set (listed k (world_grid w) (entity_type e))"

lemma here_says [simp]: "here e k (says l w) = here e k w"
  by (simp add: here_def)

lemma snapshots_ok_says [simp]: "snapshots_ok (says l w) = snapshots_ok w"
  by (simp add: snapshots_ok_def)

lemma grid_ok_says [simp]: "grid_ok n (says l w) = grid_ok n w"
  by (simp add: grid_ok_def)

lemma find_controller_iff: "find_controller e w = None \<longleftrightarrow> find_position e w = None"
  by (simp add: find_controller_def find_position_def split: entity_type.split)

lemma here_position:
  assumes "grid_ok n w" "k < n * n" "here e k w"
  obtains p where "find_position e w = Some p" "sector_of p (world_grid w) = k"
proof -
  have "\<exists>p. find_position e w = Some p \<and> sector_of p (world_grid w) = k"
    using assms unfolding grid_ok_def here_def by blast
  then show ?thesis using that by blast
qed

lemma here_unique:
  assumes "grid_ok n w" "k < n * n" "here e k w" "j < n * n" "here e j w"
  shows "j = k"
  using assms by (metis here_position option.inject)

lemma here_controller:
  assumes "grid_ok n w" "k < n * n" "here e k w"
  shows "find_controller e w \<noteq> None"
  using here_position [OF assms] by (metis find_controller_iff option.distinct(1))

lemma in_listed:
  assumes "grid_ok n w" "k < n * n"
  shows "e \<in> set (listed k (world_grid w) t) \<longleftrightarrow> entity_type e = t \<and> here e k w"
  using assms by (auto simp: grid_ok_def here_def)

lemma set_cells_entities:
  assumes "grid_ok n w" "\<forall>k \<in> set ks. k < n * n"
  shows "set (cells_entities ks (world_grid w)) = {e. \<exists>k \<in> set ks. here e k w}"
proof -
  have "set (cell_all (cells (world_grid w) ! k)) = {e. here e k w}" if "k < n * n" for k
  proof -
    have "set (cell_all (cells (world_grid w) ! k)) = (\<Union>t. set (listed k (world_grid w) t))"
      unfolding cell_all_def listed_def by (auto, metis (full_types) entity_type.exhaust)
    then show ?thesis by (auto simp: in_listed [OF assms(1) that])
  qed
  with assms(2) show ?thesis by (auto simp: cells_entities_def)
qed

lemma set_cells_entities_of:
  assumes "grid_ok n w" "\<forall>k \<in> set ks. k < n * n"
  shows "set (cells_entities_of t ks (world_grid w)) = {e. entity_type e = t \<and> (\<exists>k \<in> set ks. here e k w)}"
  using assms(2) in_listed [OF assms(1)] by (auto simp: cells_entities_of_def listed_def)

lemma broadcast_cells_eq:
  assumes "grid_ok n w" "\<forall>k \<in> set ks. k < n * n"
  shows "broadcast_cells p ks ex w
    = Inr (says (map (\<lambda>i. (i, p)) (filter (\<lambda>i. ex \<noteq> Some i) (cells_entities ks (world_grid w)))) w)"
  unfolding broadcast_cells_def using assms here_controller [OF assms(1)]
  by (intro each_tells) (auto simp: set_cells_entities)

lemma broadcast_type_eq:
  assumes "grid_ok n w" "\<forall>k \<in> set ks. k < n * n"
  shows "broadcast_type t p ks w = Inr (says (map (\<lambda>i. (i, p)) (cells_entities_of t ks (world_grid w))) w)"
  unfolding broadcast_type_def using assms here_controller [OF assms(1)]
  by (intro each_tell) (auto simp: set_cells_entities_of)

lemma sector_of_position_eq:
  assumes "grid_ok n w"
  shows "sector_of_position pos f w = f (sector_of pos (world_grid w)) (near n (sector_of pos (world_grid w))) w"
proof -
  have sq: "square_grid n (world_grid w)" using assms by (simp add: grid_ok_def)
  show ?thesis by (simp add: sector_of_position_def get_sector_ok [OF sq] sector_at_index [OF sq sector_of_less [OF sq]])
qed

lemma broadcast_players_eq:
  "broadcast_players p ex w = says (map (\<lambda>i. (i, p)) (filter (\<lambda>i. ex \<noteq> Some i) (map fst (players w)))) w"
proof -
  have "fold (\<lambda>i w. if ex = Some i then w else sync_client i p w) is w = says (map (\<lambda>i. (i, p)) (filter (\<lambda>i. ex \<noteq> Some i) is)) w" for "is"
    by (induction "is" arbitrary: w) (auto simp: sync_says)
  then show ?thesis by (simp add: broadcast_players_def)
qed

subsection \<open>Entering and leaving a cell\<close>

lemma find_position_grid [simp]:
  "find_position i (w\<lparr>world_grid := g\<rparr>) = find_position i w" "find_controller i (w\<lparr>world_grid := g\<rparr>) = find_controller i w"
  by (simp_all add: find_position_def find_controller_def split: entity_type.split)

lemma sector_of_same:
  "lengthPerGrid g = lengthPerGrid h \<Longrightarrow> area_width g = area_width h \<Longrightarrow> area_height g = area_height h \<Longrightarrow> ySize g = ySize h
   \<Longrightarrow> sector_of p g = sector_of p h"
  by (simp add: sector_of_def calculate_index_def calculate_x_index_def calculate_y_index_def)

text \<open>Two worlds that differ in what they list, as told by \<open>f\<close>, and in nothing else that matters to the grid.\<close>

lemma leave_sector_eq:
  assumes w: "grid_ok n w" and k: "k < n * n" and alone: "\<And>j. j < n * n \<Longrightarrow> here i j w \<Longrightarrow> j = k"
  obtains g where "sector_remove_entity i k (world_grid w) = Inr g" "grid_ok n (w\<lparr>world_grid := g\<rparr>)"
    "\<And>p. sector_of p g = sector_of p (world_grid w)"
    "\<And>e j. j < n * n \<Longrightarrow> here e j (w\<lparr>world_grid := g\<rparr>) \<longleftrightarrow> e \<noteq> i \<and> here e j w"
proof -
  have sq: "square_grid n (world_grid w)" using w by (simp add: grid_ok_def)
  obtain g where g: "sector_remove_entity i k (world_grid w) = Inr g" "square_grid n g" "lengthPerGrid g = lengthPerGrid (world_grid w)"
      "area_width g = area_width (world_grid w)" "area_height g = area_height (world_grid w)"
      "\<And>j t. listed j g t = (if j = k \<and> t = entity_type i then remove1 i (listed j (world_grid w) t) else listed j (world_grid w) t)"
    using sector_remove_ok [OF sq k] by metis
  have same: "sector_of p g = sector_of p (world_grid w)" for p
    using g(2) sq by (intro sector_of_same g) (simp add: square_grid_def)
  have d: "distinct (listed j (world_grid w) t)" if "j < n * n" for j t using w that by (simp add: grid_ok_def)
  have "here e j (w\<lparr>world_grid := g\<rparr>) \<longleftrightarrow> e \<noteq> i \<and> here e j w" if "j < n * n" for e j
    using alone [OF that] d [OF that] by (auto simp: here_def g(6) set_remove1_eq)
  moreover have "grid_ok n (w\<lparr>world_grid := g\<rparr>)"
    using w g(2,6) by (auto simp: grid_ok_def same snapshots_ok_def dest: notin_set_remove1)
  ultimately show ?thesis using g(1) same by (intro that [of g]) simp_all
qed

lemma enter_sector_eq:
  assumes w: "grid_ok n w" and i: "find_position i w = Some pos" "sector_of pos (world_grid w) = k"
    and new: "\<not> here i k w"
  obtains g where "enter_sector i k w = Inr (w\<lparr>world_grid := g\<rparr>)" "grid_ok n (w\<lparr>world_grid := g\<rparr>)"
    "\<And>p. sector_of p g = sector_of p (world_grid w)"
    "\<And>e j. here e j (w\<lparr>world_grid := g\<rparr>) \<longleftrightarrow> e = i \<and> j = k \<or> here e j w"
proof -
  have sq: "square_grid n (world_grid w)" using w by (simp add: grid_ok_def)
  have k: "k < n * n" using sector_of_less [OF sq] i(2) by metis
  obtain g where g: "sector_add_entity i k (world_grid w) = Inr g" "square_grid n g" "lengthPerGrid g = lengthPerGrid (world_grid w)"
      "area_width g = area_width (world_grid w)" "area_height g = area_height (world_grid w)"
      "\<And>j t. listed j g t = (if j = k \<and> t = entity_type i then listed j (world_grid w) t @ [i] else listed j (world_grid w) t)"
    using sector_add_ok [OF sq k] by metis
  have same: "sector_of p g = sector_of p (world_grid w)" for p
    using g(2) sq by (intro sector_of_same g) (simp add: square_grid_def)
  have "here e j (w\<lparr>world_grid := g\<rparr>) \<longleftrightarrow> e = i \<and> j = k \<or> here e j w" for e j
    by (auto simp: here_def g(6))
  moreover have "grid_ok n (w\<lparr>world_grid := g\<rparr>)"
    using w g(2,6) i new by (auto simp: grid_ok_def same snapshots_ok_def here_def)
  ultimately show ?thesis using g(1) same by (intro that [of g]) (simp_all add: enter_sector_def)
qed

subsection \<open>Meeting and parting\<close>

definition met_players :: "(rat \<Rightarrow> 32 word) \<Rightarrow> world \<Rightarrow> entity_id list \<Rightarrow> game_remote_player list" where
  "met_players flt w is = map (\<lambda>i. build_remote_player flt (the (map_of (players w) i))) (filter (\<lambda>i. entity_type i = PlayerEntity) is)"

definition met_monsters :: "(rat \<Rightarrow> 32 word) \<Rightarrow> world \<Rightarrow> entity_id list \<Rightarrow> game_monster list" where
  "met_monsters flt w is = map (\<lambda>i. build_monster flt (the (map_of (monsters w) i))) (filter (\<lambda>i. entity_type i = MonsterEntity) is)"

definition meet_log :: "(rat \<Rightarrow> 32 word) \<Rightarrow> world \<Rightarrow> player_snapshot \<Rightarrow> entity_id list \<Rightarrow> (entity_id \<times> game_sc) list" where
  "meet_log flt w p is = map (\<lambda>i. (i, build_add_remote_player flt p)) is
     @ (let ps = met_players flt w is in if ps \<noteq> [] then [(ps_id p, ScAddRemotePlayer (of_nat (length ps)) ps)] else [])
     @ (let ms = met_monsters flt w is in if ms \<noteq> [] then [(ps_id p, ScAddMonster (of_nat (length ms)) ms)] else [])"

definition part_log :: "player_snapshot \<Rightarrow> entity_id list \<Rightarrow> (entity_id \<times> game_sc) list" where
  "part_log p is = map (\<lambda>i. (i, build_remove_remote_player p)) is
     @ (let ps = map unwrap (filter (\<lambda>j. entity_type j = PlayerEntity) is)
        in if ps \<noteq> [] then [(ps_id p, ScRemoveRemotePlayer (of_nat (length ps)) ps)] else [])
     @ (let ms = map unwrap (filter (\<lambda>j. entity_type j = MonsterEntity) is)
        in if ms \<noteq> [] then [(ps_id p, ScRemoveMonster (of_nat (length ms)) ms)] else [])"

lemma each_meet_one:
  assumes "\<forall>i \<in> set is. find_controller i w \<noteq> None"
  shows "each (meet_one flt add) is (w, ps, ms) = Inr (says (map (\<lambda>i. (i, add)) is) w, ps @ met_players flt w is, ms @ met_monsters flt w is)"
  using assms
proof (induction "is" arbitrary: w ps ms)
  case (Cons i "is")
  obtain r where r: "find_controller i w = Some r" using Cons.prems by auto
  let ?w = "says [(i, add)] w"
  have met: "met_players flt ?w is = met_players flt w is" "met_monsters flt ?w is = met_monsters flt w is"
    by (simp_all add: met_players_def met_monsters_def)
  have ih: "each (meet_one flt add) is (?w, ps, ms) = Inr (says (map (\<lambda>i. (i, add)) is) ?w, ps @ met_players flt w is, ms @ met_monsters flt w is)" for ps ms
    using Cons.IH [of ?w] Cons.prems met by simp
  have "meet_one flt add i (w, ps, ms) = Inr (?w, ps @ met_players flt w [i], ms @ met_monsters flt w [i])"
    using r by (cases "entity_type i") (auto simp: meet_one_def tell_def sync_says find_controller_def met_players_def met_monsters_def)
  then show ?case using ih by (simp add: met_players_def met_monsters_def)
qed (simp add: met_players_def met_monsters_def)

lemma meet_eq:
  assumes "\<forall>i \<in> set is. find_controller i w \<noteq> None"
  shows "meet flt p is w = Inr (says (meet_log flt w p is) w)"
  by (simp add: meet_def each_meet_one [OF assms] tell_new_def sync_says meet_log_def Let_def)

lemma part_eq:
  assumes "\<forall>i \<in> set is. find_controller i w \<noteq> None"
  shows "part p is w = Inr (says (part_log p is) w)"
  by (simp add: part_def each_tell [OF assms] tell_old_def sync_says part_log_def Let_def)

lemma met_ids:
  assumes "snapshots_ok w" "\<forall>i \<in> set is. find_controller i w \<noteq> None"
  shows "rp_id ` set (met_players flt w is) = unwrap ` {e \<in> set is. entity_type e = PlayerEntity}"
    and "mo_id ` set (met_monsters flt w is) = unwrap ` {e \<in> set is. entity_type e = MonsterEntity}"
proof -
  have "ps_id (the (map_of (players w) e)) = e" if "e \<in> set is" "entity_type e = PlayerEntity" for e
    using assms that by (fastforce simp: snapshots_ok_def find_controller_def dest: map_of_SomeD)
  then show "rp_id ` set (met_players flt w is) = unwrap ` {e \<in> set is. entity_type e = PlayerEntity}"
    by (force simp: met_players_def build_remote_player_def)
  have "ms_id (the (map_of (monsters w) e)) = e" if "e \<in> set is" "entity_type e = MonsterEntity" for e
    using assms that by (fastforce simp: snapshots_ok_def find_controller_def dest: map_of_SomeD)
  then show "mo_id ` set (met_monsters flt w is) = unwrap ` {e \<in> set is. entity_type e = MonsterEntity}"
    by (force simp: met_monsters_def build_monster_def)
qed

definition visible :: "entity_id \<Rightarrow> bool" where
  "visible e \<longleftrightarrow> entity_type e \<noteq> SpawnerEntity"

lemma visible_iff: "visible e \<longleftrightarrow> entity_type e = PlayerEntity \<or> entity_type e = MonsterEntity"
  by (cases "entity_type e") (auto simp: visible_def)

lemma learn_meet:
  assumes "snapshots_ok w" "\<forall>i \<in> set is. find_controller i w \<noteq> None" "ps_id p \<notin> set is"
  shows "fold learn (addressed j (meet_log flt w p is)) k =
    (if j = ps_id p then k \<union> unwrap ` {e \<in> set is. visible e} else if j \<in> set is then k \<union> {unwrap (ps_id p)} else k)"
proof -
  have new: "learn (build_add_remote_player flt p) k = k \<union> {unwrap (ps_id p)}" for k
    by (simp add: build_add_remote_player_def build_remote_player_def)
  have "fold learn (addressed j (meet_log flt w p is)) k = (if j = ps_id p
      then k \<union> rp_id ` set (met_players flt w is) \<union> mo_id ` set (met_monsters flt w is)
      else if j \<in> set is then k \<union> {unwrap (ps_id p)} else k)"
    using assms(3) by (auto simp: meet_log_def Let_def learn_everyone new)
  also have "k \<union> rp_id ` set (met_players flt w is) \<union> mo_id ` set (met_monsters flt w is) = k \<union> unwrap ` {e \<in> set is. visible e}"
    unfolding met_ids [OF assms(1,2)] visible_iff by blast
  finally show ?thesis .
qed

lemma learn_part:
  assumes "ps_id p \<notin> set is"
  shows "fold learn (addressed j (part_log p is)) k =
    (if j = ps_id p then k - unwrap ` {e \<in> set is. visible e} else if j \<in> set is then k - {unwrap (ps_id p)} else k)"
proof -
  have "fold learn (addressed j (part_log p is)) k = (if j = ps_id p
      then k - unwrap ` {e \<in> set is. entity_type e = PlayerEntity} - unwrap ` {e \<in> set is. entity_type e = MonsterEntity}
      else if j \<in> set is then k - {unwrap (ps_id p)} else k)"
    using assms by (auto simp: part_log_def Let_def learn_everyone build_remove_remote_player_def filter_empty_conv)
  also have "k - unwrap ` {e \<in> set is. entity_type e = PlayerEntity} - unwrap ` {e \<in> set is. entity_type e = MonsterEntity}
      = k - unwrap ` {e \<in> set is. visible e}"
    unfolding visible_iff by blast
  finally show ?thesis .
qed

subsection \<open>The invariant\<close>

definition active :: "nat \<Rightarrow> entity_id \<Rightarrow> world \<Rightarrow> bool" where
  "active n i w \<longleftrightarrow> (\<exists>k < n * n. here i k w)"

text \<open>What is around the cell \<open>s\<close>, and the monsters of which a player is told only later that they are gone.\<close>

definition around :: "nat \<Rightarrow> nat \<Rightarrow> world \<Rightarrow> entity_id set" where
  "around n s w = {e. visible e \<and> (\<exists>k < n * n. next_to n s k \<and> here e k w)}"

definition sees :: "nat \<Rightarrow> entity_id \<Rightarrow> world \<Rightarrow> entity_id set" where
  "sees n i w = (case find_position i w of None \<Rightarrow> {} | Some p \<Rightarrow> around n (sector_of p (world_grid w)) w - {i})"

definition dying :: "entity_id \<Rightarrow> world \<Rightarrow> entity_id set" where
  "dying i w = {e. (i, ScDespawnMonster 1 [unwrap e]) \<in> set (delayed w)}"

definition informed :: "nat \<Rightarrow> entity_id \<Rightarrow> world \<Rightarrow> bool" where
  "informed n i w \<longleftrightarrow>
     (if active n i w then unwrap ` sees n i w \<subseteq> known i w \<and> known i w \<subseteq> unwrap ` (sees n i w \<union> dying i w) else known i w = {})"

definition world_ok :: "nat \<Rightarrow> world \<Rightarrow> bool" where
  "world_ok n w \<longleftrightarrow> grid_ok n w
     \<and> (\<forall>e. entity_type e \<noteq> PlayerEntity \<longrightarrow> find_position e w \<noteq> None \<longrightarrow> active n e w)
     \<and> (\<forall>(i, p) \<in> set (delayed w). \<exists>e. p = ScDespawnMonster 1 [unwrap e] \<and> entity_type e = MonsterEntity \<and> find_position e w = None)
     \<and> (\<forall>i. entity_type i = PlayerEntity \<longrightarrow> find_position i w \<noteq> None \<longrightarrow> informed n i w)"

text \<open>The ids outside \<open>used\<close> were never given to an entity.\<close>

definition unused :: "entity_id set \<Rightarrow> world \<Rightarrow> bool" where
  "unused used w \<longleftrightarrow> (\<forall>i. i \<notin> used \<longrightarrow> find_position i w = None \<and> addressed i (notices w) = []
     \<and> (\<forall>j. (j, ScDespawnMonster 1 [unwrap i]) \<notin> set (delayed w)))"

lemma world_ok_grid: "world_ok n w \<Longrightarrow> grid_ok n w"
  by (simp add: world_ok_def)

text \<open>Messages that teach nothing.\<close>

lemma world_ok_quiet:
  assumes "world_ok n w" "\<forall>x \<in> set l. quiet (snd x)"
  shows "world_ok n (says l w)"
proof -
  have "active n i (says l w) = active n i w" "sees n i (says l w) = sees n i w" "dying i (says l w) = dying i w" for i
    by (simp_all add: active_def sees_def around_def dying_def split: option.split)
  with assms show ?thesis unfolding world_ok_def informed_def by (simp add: learn_quiet)
qed

lemma unused_says:
  assumes "unused used w" "\<forall>x \<in> set l. find_position (fst x) w \<noteq> None"
  shows "unused used (says l w)"
  using assms by (auto simp: unused_def addressed_def filter_empty_conv)

text \<open>Changes of snapshots that move nothing.\<close>

lemma same_places:
  assumes same: "world_grid w' = world_grid w" "notices w' = notices w" "delayed w' = delayed w" and snaps: "snapshots_ok w'"
    and pos: "\<And>i. map_option (\<lambda>p. sector_of p (world_grid w)) (find_position i w') = map_option (\<lambda>p. sector_of p (world_grid w)) (find_position i w)"
  shows "world_ok n w \<Longrightarrow> world_ok n w'" "unused used w \<Longrightarrow> unused used w'"
proof -
  have none: "find_position i w' = None \<longleftrightarrow> find_position i w = None" for i
    using pos [of i] by (cases "find_position i w'"; cases "find_position i w") simp_all
  have at: "(\<exists>p. find_position i w' = Some p \<and> sector_of p (world_grid w) = k) \<longleftrightarrow> (\<exists>p. find_position i w = Some p \<and> sector_of p (world_grid w) = k)" for i k
    using pos [of i] by (cases "find_position i w'"; cases "find_position i w") simp_all
  have "around n s w' = around n s w" "active n i w' = active n i w" "dying i w' = dying i w" "known i w' = known i w" for i s
    using same by (simp_all add: active_def here_def around_def dying_def known_def)
  moreover from this(1) have "sees n i w' = sees n i w" for i
    using pos [of i] same(1) by (auto simp: sees_def split: option.splits)
  ultimately show "world_ok n w \<Longrightarrow> world_ok n w'"
    using same snaps unfolding world_ok_def informed_def grid_ok_def by (simp add: at none)
  show "unused used w \<Longrightarrow> unused used w'" using same unfolding unused_def by (simp add: none)
qed

subsection \<open>Moving\<close>

text \<open>
  What has to be said when \<open>i\<close> goes from the cell \<open>a\<close> to \<open>b\<close>: those around \<open>a\<close> and not around \<open>b\<close> forget it, those around \<open>b\<close>
  and not \<open>a\<close> learn of it, and so does \<open>i\<close> of them if it is a player.
\<close>

definition leaves :: "nat \<Rightarrow> nat \<Rightarrow> nat \<Rightarrow> world \<Rightarrow> entity_id \<Rightarrow> entity_id \<Rightarrow> bool" where
  "leaves n a b w i e \<longleftrightarrow> e \<noteq> i \<and> (\<exists>k < n * n. next_to n a k \<and> \<not> next_to n b k \<and> here e k w)"

lemma known_bounds:
  assumes "unwrap ` s \<subseteq> k" "k \<subseteq> unwrap ` (s \<union> d)"
  shows "unwrap ` (s - out \<union> new) \<subseteq> k - unwrap ` out \<union> unwrap ` new"
    and "k - unwrap ` out \<union> unwrap ` new \<subseteq> unwrap ` (s - out \<union> new \<union> d)"
  using assms by (auto simp: image_iff)

lemma around_moved:
  assumes "\<And>e k. k < n * n \<Longrightarrow> here e k w' \<longleftrightarrow> e = i \<and> k = b \<or> e \<noteq> i \<and> here e k w" "visible i" "b < n * n"
  shows "around n s w' = around n s w - {i} \<union> (if next_to n s b then {i} else {})"
proof (rule set_eqI)
  fix e show "e \<in> around n s w' \<longleftrightarrow> e \<in> around n s w - {i} \<union> (if next_to n s b then {i} else {})"
    using assms by (cases "e = i") (auto simp: around_def)
qed

lemma moved_informed:
  assumes w: "world_ok n w" and n: "a < n * n" "b < n * n" and i: "here i a w" "visible i"
    and pos: "find_position i w = Some old" "sector_of old (world_grid w) = a"
      "find_position i w' = Some new" "sector_of new (world_grid w') = b"
      "\<And>j. j \<noteq> i \<Longrightarrow> find_position j w' = find_position j w" "\<And>p. sector_of p (world_grid w') = sector_of p (world_grid w)"
    and moved: "\<And>e k. k < n * n \<Longrightarrow> here e k w' \<longleftrightarrow> e = i \<and> k = b \<or> e \<noteq> i \<and> here e k w"
    and del: "delayed w' = delayed w"
    and others: "\<And>j. j \<noteq> i \<Longrightarrow> entity_type j = PlayerEntity \<Longrightarrow> known j w' =
      known j w - (if leaves n a b w i j then {unwrap i} else {}) \<union> (if leaves n b a w i j then {unwrap i} else {})"
    and own: "entity_type i = PlayerEntity \<Longrightarrow> known i w' =
      known i w - unwrap ` {e. visible e \<and> leaves n a b w i e} \<union> unwrap ` {e. visible e \<and> leaves n b a w i e}"
    and j: "entity_type j = PlayerEntity" "find_position j w' \<noteq> None"
  shows "informed n j w'"
proof -
  have grid: "grid_ok n w" using w by (rule world_ok_grid)
  have dying: "dying e w' = dying e w" for e using del by (simp add: dying_def)
  have only: "k = a" if "k < n * n" "here i k w" for k using here_unique [OF grid n(1) i(1) that] by simp
  show ?thesis
  proof (cases "j = i")
    case True
    have "active n i w" using i(1) n(1) by (auto simp: active_def)
    moreover have "informed n i w" using w j(1) True pos(1) by (simp add: world_ok_def)
    ultimately have k: "unwrap ` sees n i w \<subseteq> known i w" "known i w \<subseteq> unwrap ` (sees n i w \<union> dying i w)"
      by (simp_all add: informed_def)
    have "sees n i w' = (sees n i w - {e. visible e \<and> leaves n a b w i e}) \<union> {e. visible e \<and> leaves n b a w i e}"
    proof (rule set_eqI)
      fix e
      show "e \<in> sees n i w' \<longleftrightarrow> e \<in> (sees n i w - {e. visible e \<and> leaves n a b w i e}) \<union> {e. visible e \<and> leaves n b a w i e}"
      proof (cases "\<exists>k < n * n. here e k w")
        case True
        then obtain k where k: "k < n * n" "here e k w" by blast
        then have at: "here e l w \<longleftrightarrow> l = k" if "l < n * n" for l using here_unique [OF grid k that] k that by blast
        have "e \<in> sees n i w \<longleftrightarrow> visible e \<and> e \<noteq> i \<and> next_to n a k"
          using k(1) at by (auto simp: sees_def around_def pos(1,2))
        moreover have "e \<in> sees n i w' \<longleftrightarrow> visible e \<and> e \<noteq> i \<and> next_to n b k"
          using k(1) at moved by (auto simp: sees_def around_def pos(3,4))
        moreover have "leaves n x y w i e \<longleftrightarrow> e \<noteq> i \<and> next_to n x k \<and> \<not> next_to n y k" for x y
          using k(1) at by (auto simp: leaves_def)
        ultimately show ?thesis by auto
      next
        case False
        then have "e \<notin> sees n i w" "\<not> leaves n x y w i e" for x y
          by (auto simp: sees_def around_def leaves_def split: option.split)
        moreover have "e \<notin> sees n i w'" using False moved by (auto simp: sees_def around_def split: option.split)
        ultimately show ?thesis by blast
      qed
    qed
    moreover have "active n i w'" using moved n(2) by (auto simp: active_def)
    moreover have "entity_type i = PlayerEntity" using True j(1) by simp
    ultimately show ?thesis using known_bounds [OF k] True by (simp add: informed_def own dying)
  next
    case False
    have pj: "find_position j w' = find_position j w" using pos(5) False by blast
    obtain p where p: "find_position j w = Some p" using j(2) pj by auto
    let ?s = "sector_of p (world_grid w)"
    have act: "active n j w' = active n j w" using moved False by (auto simp: active_def)
    have inf: "informed n j w" using w j(1) p by (simp add: world_ok_def)
    have at: "here j k w \<Longrightarrow> k < n * n \<Longrightarrow> k = ?s" for k using here_position [OF grid, of k j] p by (metis option.inject)
    show ?thesis
    proof (cases "active n j w")
      case True
      then have js: "here j ?s w" "?s < n * n" using at by (auto simp: active_def)
      have only_at: "here j k w \<longleftrightarrow> k = ?s" if "k < n * n" for k using js at that by blast
      have lv: "leaves n x y w i j \<longleftrightarrow> next_to n x ?s \<and> \<not> next_to n y ?s" for x y
        using False js(2) only_at by (auto simp: leaves_def)
      have only_i: "here i k w \<longleftrightarrow> k = a" if "k < n * n" for k using only i(1) that by blast
      have sym: "next_to n ?s a = next_to n a ?s" "next_to n ?s b = next_to n b ?s" by (rule next_to_sym)+
      have se: "sees n j w' = (sees n j w - {i}) \<union> (if next_to n b ?s then {i} else {})"
        using False around_moved [OF moved i(2) n(2)] by (auto simp: sees_def pj p pos(6) sym)
      have ii: "i \<in> sees n j w \<longleftrightarrow> next_to n a ?s"
        using False i(2) n(1) only_i by (auto simp: sees_def around_def p sym)
      have k: "unwrap ` sees n j w \<subseteq> known j w" "known j w \<subseteq> unwrap ` (sees n j w \<union> dying j w)"
        using inf True by (simp_all add: informed_def)
      define out where "out = (if next_to n a ?s \<and> \<not> next_to n b ?s then {i} else {})"
      define new where "new = (if next_to n b ?s \<and> \<not> next_to n a ?s then {i} else {})"
      have "sees n j w' = sees n j w - out \<union> new" using ii by (auto simp: se out_def new_def)
      moreover have "known j w' = known j w - unwrap ` out \<union> unwrap ` new"
        by (simp add: others [OF False j(1)] lv out_def new_def)
      ultimately show ?thesis using known_bounds [OF k, of out new] True by (simp add: informed_def act dying)
    next
      case no: False
      then have "\<not> leaves n x y w i j" for x y by (auto simp: leaves_def active_def)
      with no inf show ?thesis by (simp add: informed_def act others [OF False j(1)])
    qed
  qed
qed

lemma map_of_change_at: "map_of (change_at k f xs) j = (if j = k then map_option f (map_of xs k) else map_of xs j)"
  by (induction xs) (auto simp: change_at_def)

lemma map_fst_change_at [simp]: "map fst (change_at k f xs) = map fst xs"
  by (auto simp: change_at_def)

lemma in_change_at: "(j, v) \<in> set (change_at k f xs) \<Longrightarrow> \<exists>u. (j, u) \<in> set xs \<and> (v = u \<or> v = f u)"
  by (auto simp: change_at_def split: if_splits)

lemma snapshots_ok_player:
  assumes "snapshots_ok w" "\<And>q. ps_id (f q) = ps_id q"
  shows "snapshots_ok (w\<lparr>players := change_at i f (players w)\<rparr>)"
  using assms by (fastforce simp: snapshots_ok_def dest!: in_change_at)

lemma snapshots_ok_monster:
  assumes "snapshots_ok w" "\<And>q. ms_id (f q) = ms_id q"
  shows "snapshots_ok (w\<lparr>monsters := change_at i f (monsters w)\<rparr>)"
  using assms by (fastforce simp: snapshots_ok_def dest!: in_change_at)

lemma player_position:
  assumes "snapshots_ok w" "map_of (players w) i = Some p"
  shows "entity_type i = PlayerEntity" "ps_id p = i" "find_position i w = Some (ps_position p)"
  using assms by (fastforce simp: snapshots_ok_def find_position_def dest: map_of_SomeD)+

lemma monster_position:
  assumes "snapshots_ok w" "map_of (monsters w) i = Some m"
  shows "entity_type i = MonsterEntity" "ms_id m = i" "find_position i w = Some (ms_position m)"
  using assms by (fastforce simp: snapshots_ok_def find_position_def dest: map_of_SomeD)+

lemma find_position_player:
  assumes "snapshots_ok w" "map_of (players w) i = Some p"
  shows "find_position e (w\<lparr>players := change_at i f (players w)\<rparr>) = (if e = i then Some (ps_position (f p)) else find_position e w)"
  using assms player_position(1) [OF assms] by (simp add: find_position_def map_of_change_at split: entity_type.split)

lemma find_position_monster:
  assumes "snapshots_ok w" "map_of (monsters w) i = Some m"
  shows "find_position e (w\<lparr>monsters := change_at i f (monsters w)\<rparr>) = (if e = i then Some (ms_position (f m)) else find_position e w)"
  using assms monster_position(1) [OF assms] by (simp add: find_position_def map_of_change_at split: entity_type.split)

lemma grid_ok_unlisted:
  assumes "grid_ok n w" "\<And>k. k < n * n \<Longrightarrow> \<not> here i k w" "world_grid w' = world_grid w" "snapshots_ok w'"
    and "\<And>e. e \<noteq> i \<Longrightarrow> find_position e w' = find_position e w"
  shows "grid_ok n w'"
proof -
  have "e \<noteq> i" if "k < n * n" "e \<in> set (listed k (world_grid w) t)" for e k t
    using assms(2) [OF that(1)] that in_listed [OF assms(1) that(1)] by blast
  then show ?thesis using assms(1,3,4,5) by (auto simp: grid_ok_def)
qed

lemma has_position_here: "grid_ok n w \<Longrightarrow> k < n * n \<Longrightarrow> here e k w \<Longrightarrow> find_position e w \<noteq> None"
  by (metis here_position option.distinct(1))

text \<open>The sets of cells a mover leaves behind, keeps and comes to.\<close>

lemma set_of_difference:
  assumes "grid_ok n w" "a < n * n" "b < n * n"
  shows "set (cells_entities (sector_difference a b (world_grid w)) (world_grid w))
      = {e. \<exists>k < n * n. next_to n a k \<and> \<not> next_to n b k \<and> here e k w}"
    and "set (cells_entities_of t (sector_difference a b (world_grid w)) (world_grid w))
      = {e. entity_type e = t \<and> (\<exists>k < n * n. next_to n a k \<and> \<not> next_to n b k \<and> here e k w)}"
    and "\<forall>k \<in> set (sector_difference a b (world_grid w)). k < n * n"
proof -
  have sq: "square_grid n (world_grid w)" using assms(1) by (simp add: grid_ok_def)
  have d: "set (sector_difference a b (world_grid w)) = {k. k < n * n \<and> next_to n a k \<and> \<not> next_to n b k}"
    by (auto simp: sector_difference_ok [OF sq assms(2,3)] in_near)
  then show "\<forall>k \<in> set (sector_difference a b (world_grid w)). k < n * n" by simp
  with d show "set (cells_entities (sector_difference a b (world_grid w)) (world_grid w))
      = {e. \<exists>k < n * n. next_to n a k \<and> \<not> next_to n b k \<and> here e k w}"
    "set (cells_entities_of t (sector_difference a b (world_grid w)) (world_grid w))
      = {e. entity_type e = t \<and> (\<exists>k < n * n. next_to n a k \<and> \<not> next_to n b k \<and> here e k w)}"
    by (auto simp: set_cells_entities [OF assms(1)] set_cells_entities_of [OF assms(1)])
qed

lemma intersection_cells:
  assumes "grid_ok n w" "a < n * n" "b < n * n"
  shows "\<forall>k \<in> set (sector_intersect a b (world_grid w)). k < n * n"
proof -
  have "square_grid n (world_grid w)" using assms(1) by (simp add: grid_ok_def)
  then show ?thesis by (simp add: sector_intersect_ok [OF _ assms(2,3)] in_near)
qed

text \<open>A broadcast to cells of a message that teaches nothing.\<close>

lemma quiet_broadcast:
  assumes "grid_ok n w" "\<forall>k \<in> set ks. k < n * n" "quiet p"
  obtains l where "broadcast_cells p ks ex w = Inr (says l w)" "\<forall>x \<in> set l. quiet (snd x)" "\<forall>x \<in> set l. find_position (fst x) w \<noteq> None"
  using assms has_position_here [OF assms(1)]
  by (intro that [OF broadcast_cells_eq [OF assms(1,2)]]) (auto simp: set_cells_entities [OF assms(1,2)])

text \<open>A state that keeps the invariant and gives out no new id.\<close>

definition steps_to :: "nat \<Rightarrow> world \<Rightarrow> world \<Rightarrow> bool" where
  "steps_to n w w' \<longleftrightarrow> world_ok n w' \<and> (\<forall>used. unused used w \<longrightarrow> unused used w')"

lemma steps_to_trans: "steps_to n w w' \<Longrightarrow> steps_to n w' w'' \<Longrightarrow> steps_to n w w''"
  by (auto simp: steps_to_def)

lemma steps_to_quiet:
  assumes "world_ok n w" "\<forall>x \<in> set l. quiet (snd x)" "\<forall>x \<in> set l. find_position (fst x) w \<noteq> None"
  shows "steps_to n w (says l w)"
  using assms by (simp add: steps_to_def world_ok_quiet unused_says)

lemma quiet_move [simp]: "quiet (ScMoveRemotePlayer i p r)" "quiet (ScMoveMonster i p r)"
  by (simp_all add: quiet_def)

lemma part_none [simp]: "part_log p [] = []"
  by (simp add: part_log_def)

lemma meet_none [simp]: "meet_log flt w p [] = []"
  by (simp add: meet_log_def met_players_def met_monsters_def)

lemma meet_log_says [simp]: "meet_log flt (says l w) p is = meet_log flt w p is"
  by (simp add: meet_log_def met_players_def met_monsters_def)

lemma log_receivers:
  "x \<in> set (part_log p is) \<Longrightarrow> fst x = ps_id p \<or> fst x \<in> set is"
  "x \<in> set (meet_log flt w p is) \<Longrightarrow> fst x = ps_id p \<or> fst x \<in> set is"
  by (auto simp: part_log_def meet_log_def Let_def split: if_splits)

text \<open>The new state after \<open>i\<close> has left \<open>a\<close>, messages were sent and \<open>i\<close> has entered \<open>b\<close>.\<close>

lemma moved_steps_to:
  assumes w: "world_ok n w" and n: "a < n * n" "b < n * n" and i: "here i a w" "visible i"
    and pos: "find_position i w = Some old" "sector_of old (world_grid w) = a"
      "find_position i w' = Some new" "sector_of new (world_grid w') = b"
      "\<And>j. j \<noteq> i \<Longrightarrow> find_position j w' = find_position j w" "\<And>p. sector_of p (world_grid w') = sector_of p (world_grid w)"
    and moved: "\<And>e k. k < n * n \<Longrightarrow> here e k w' \<longleftrightarrow> e = i \<and> k = b \<or> e \<noteq> i \<and> here e k w"
    and del: "delayed w' = delayed w" and grid: "grid_ok n w'"
    and said: "notices w' = notices w @ l" "\<forall>x \<in> set l. find_position (fst x) w \<noteq> None"
    and others: "\<And>j k. j \<noteq> i \<Longrightarrow> entity_type j = PlayerEntity \<Longrightarrow> fold learn (addressed j l) k =
      k - (if leaves n a b w i j then {unwrap i} else {}) \<union> (if leaves n b a w i j then {unwrap i} else {})"
    and own: "\<And>k. entity_type i = PlayerEntity \<Longrightarrow> fold learn (addressed i l) k =
      k - unwrap ` {e. visible e \<and> leaves n a b w i e} \<union> unwrap ` {e. visible e \<and> leaves n b a w i e}"
  shows "steps_to n w w'"
proof -
  have known: "known j w' = fold learn (addressed j l) (known j w)" for j by (simp add: known_def said(1))
  have none: "find_position j w' = None \<longleftrightarrow> find_position j w = None" for j using pos by (cases "j = i") simp_all
  have "informed n j w'" if "entity_type j = PlayerEntity" "find_position j w' \<noteq> None" for j
    by (rule moved_informed [OF w n i pos moved del _ _ that]) (simp_all add: known others own)
  moreover have "active n e w'" if "entity_type e \<noteq> PlayerEntity" "find_position e w' \<noteq> None" for e
  proof -
    have "active n e w" using w that none by (simp add: world_ok_def)
    then show ?thesis using moved n(2) by (cases "e = i") (auto simp: active_def)
  qed
  ultimately have "world_ok n w'" using w grid del none by (simp add: world_ok_def)
  moreover have "unused used w'" if u: "unused used w" for used
  proof -
    have "addressed j (notices w') = []" if "j \<notin> used" for j
    proof -
      have "find_position j w = None" "addressed j (notices w) = []" using u that by (simp_all add: unused_def)
      moreover from this(1) said(2) have "addressed j l = []" by (auto simp: addressed_def filter_empty_conv)
      ultimately show ?thesis by (simp add: said(1))
    qed
    with u none del show ?thesis by (simp add: unused_def)
  qed
  ultimately show ?thesis by (simp add: steps_to_def)
qed

lemma sector_id_iff:
  assumes "grid_ok n w" "a < n * n" "b < n * n"
  shows "sector_id (sectors (world_grid w) ! a) = sector_id (sectors (world_grid w) ! b) \<longleftrightarrow> a = b"
  using assms place_inj [of n a b] by (simp add: grid_ok_def square_grid_def)

text \<open>A player moves: the invariant holds again, and no controller is missing.\<close>

lemma player_moves:
  assumes w: "world_ok n w" and p: "map_of (players w) i = Some p" and act: "active n i w" and p0: "ps_id p0 = i"
  shows "\<exists>w'. handle_player_position_change flt p0 (ps_position p) newPos sync w = Inr w' \<and> steps_to n w w'"
proof -
  have grid: "grid_ok n w" and snaps: "snapshots_ok w" and sq: "square_grid n (world_grid w)"
    using w by (simp_all add: world_ok_def grid_ok_def)
  note pl = player_position [OF snaps p]
  define a where "a = sector_of (ps_position p) (world_grid w)"
  define b where "b = sector_of newPos (world_grid w)"
  define w1 where "w1 = w\<lparr>players := change_at i (\<lambda>q. q\<lparr>ps_position := newPos\<rparr>) (players w)\<rparr>"
  have n: "a < n * n" "b < n * n" using sector_of_less [OF sq] by (simp_all add: a_def b_def)
  have here_a: "here i a w" using act here_position [OF grid] pl(3) by (metis a_def active_def option.inject)
  have alone: "j = a" if "j < n * n" "here i j w" for j using here_unique [OF grid n(1) here_a that] .
  have pos1: "find_position e w1 = (if e = i then Some newPos else find_position e w)" for e
    unfolding w1_def by (simp add: find_position_player [OF snaps p])
  have snaps1: "snapshots_ok w1" unfolding w1_def by (rule snapshots_ok_player [OF snaps]) simp
  have g1: "world_grid w1 = world_grid w" "notices w1 = notices w" "delayed w1 = delayed w" by (simp_all add: w1_def)
  have start: "handle_player_position_change flt p0 (ps_position p) newPos sync w =
    (let q = p0\<lparr>ps_position := newPos\<rparr> in
      if a = b then broadcast_cells (build_move_remote_player flt q) (near n a) (Some i) w1
      else and_then (leave_sector i a w1) (\<lambda>w.
           and_then (let outs = cells_entities (sector_difference a b (world_grid w)) (world_grid w)
                     in if outs \<noteq> [] then part q outs w else Inr w) (\<lambda>w.
           and_then (let same = sector_intersect b a (world_grid w)
                     in if sync \<and> same \<noteq> [] then broadcast_cells (build_move_remote_player flt q) same (Some (ps_id q)) w
                        else Inr w) (\<lambda>w.
           and_then (let ins = cells_entities (sector_difference b a (world_grid w)) (world_grid w)
                     in if ins \<noteq> [] then meet flt q ins w else Inr w) (\<lambda>w.
           enter_sector i b w)))))"
    using sector_id_iff [OF grid n] sq n
    by (simp add: handle_player_position_change_def Let_def p0 w1_def [symmetric] g1 get_sector_ok a_def [symmetric] b_def [symmetric]
        sector_at_index)
  define q where "q = p0\<lparr>ps_position := newPos\<rparr>"
  have q: "ps_id q = i" "quiet (build_move_remote_player flt q)" by (simp_all add: q_def p0 build_move_remote_player_def)
  show ?thesis
  proof (cases "a = b")
    case True
    have same: "map_option (\<lambda>p. sector_of p (world_grid w)) (find_position e w1) = map_option (\<lambda>p. sector_of p (world_grid w)) (find_position e w)" for e
      using True pl(3) by (simp add: pos1 a_def b_def)
    have w1: "world_ok n w1" "\<And>used. unused used w \<Longrightarrow> unused used w1"
      using same_places [OF g1 snaps1 same] w by blast+
    obtain l where l: "broadcast_cells (build_move_remote_player flt q) (near n a) (Some i) w1 = Inr (says l w1)"
        "\<forall>x \<in> set l. quiet (snd x)" "\<forall>x \<in> set l. find_position (fst x) w1 \<noteq> None"
      by (rule quiet_broadcast [OF world_ok_grid [OF w1(1)] _ q(2)]) (auto dest: near_less)
    have "steps_to n w (says l w1)" using steps_to_quiet [OF w1(1) l(2,3)] w1 by (auto simp: steps_to_def)
    with l(1) True show ?thesis unfolding start by (simp add: Let_def q_def)
  next
    case False
    obtain g where g: "sector_remove_entity i a (world_grid w) = Inr g" "grid_ok n (w\<lparr>world_grid := g\<rparr>)"
        "\<And>p. sector_of p g = sector_of p (world_grid w)"
        "\<And>e j. j < n * n \<Longrightarrow> here e j (w\<lparr>world_grid := g\<rparr>) \<longleftrightarrow> e \<noteq> i \<and> here e j w"
      using leave_sector_eq [OF grid n(1) alone] by blast
    define w2 where "w2 = w1\<lparr>world_grid := g\<rparr>"
    have leave: "leave_sector i a w1 = Inr w2" by (simp add: leave_sector_def g1 g(1) w2_def)
    have pos2: "find_position e w2 = (if e = i then Some newPos else find_position e w)" for e by (simp add: w2_def pos1)
    have snaps2: "snapshots_ok w2" using snaps1 by (simp add: w2_def snapshots_ok_def)
    have gr2: "world_grid w2 = g" "notices w2 = notices w" "delayed w2 = delayed w" by (simp_all add: w2_def g1)
    have grid2: "grid_ok n w2"
      by (rule grid_ok_unlisted [OF g(2), of i]) (use g(4) snaps2 gr2 pos2 in auto)
    have here2: "here e j w2 \<longleftrightarrow> e \<noteq> i \<and> here e j w" if "j < n * n" for e j
      using g(4) [OF that] by (simp add: here_def gr2)
    have leaves2: "{e. \<exists>k < n * n. next_to n x k \<and> \<not> next_to n y k \<and> here e k w2} = {e. leaves n x y w i e}" for x y
      using here2 by (auto simp: leaves_def)
    define outs where "outs = cells_entities (sector_difference a b g) g"
    define ins where "ins = cells_entities (sector_difference b a g) g"
    have outs: "set outs = {e. leaves n a b w i e}" and ins: "set ins = {e. leaves n b a w i e}"
      using set_of_difference(1) [OF grid2 n(1,2)] set_of_difference(1) [OF grid2 n(2,1)] by (simp_all add: outs_def ins_def gr2 leaves2)
    have ctrl: "\<forall>e \<in> set outs. find_controller e w2 \<noteq> None" "\<forall>e \<in> set ins. find_controller e w2 \<noteq> None"
      unfolding outs ins using here_controller [OF grid2] here2 by (auto simp: leaves_def simp del: not_None_eq)
    have parts: "(if outs \<noteq> [] then part q outs w2 else Inr w2) = Inr (says (part_log q outs) w2)"
      using part_eq [OF ctrl(1), of q] by auto
    let ?w3 = "says (part_log q outs) w2"
    obtain l where l: "(if sync \<and> sector_intersect b a g \<noteq> [] then broadcast_cells (build_move_remote_player flt q) (sector_intersect b a g) (Some (ps_id q)) ?w3
          else Inr ?w3) = Inr (says l ?w3)" "\<forall>x \<in> set l. quiet (snd x)" "\<forall>x \<in> set l. find_position (fst x) w2 \<noteq> None"
    proof (cases "sync \<and> sector_intersect b a g \<noteq> []")
      case True
      have "\<forall>k \<in> set (sector_intersect b a g). k < n * n" using intersection_cells [OF grid2 n(2,1)] by (simp add: gr2)
      with quiet_broadcast [of n ?w3 "sector_intersect b a g" "build_move_remote_player flt q" "Some (ps_id q)"] grid2 q(2)
      obtain l where "broadcast_cells (build_move_remote_player flt q) (sector_intersect b a g) (Some (ps_id q)) ?w3 = Inr (says l ?w3)"
          "\<forall>x \<in> set l. quiet (snd x)" "\<forall>x \<in> set l. find_position (fst x) ?w3 \<noteq> None" by auto
      with True that [of l] show ?thesis by simp
    qed (use that [of "[]"] in auto)
    let ?w4 = "says (part_log q outs @ l) w2"
    have meets: "(if ins \<noteq> [] then meet flt q ins ?w4 else Inr ?w4) = Inr (says (part_log q outs @ l @ meet_log flt w2 q ins) w2)"
      using meet_eq [of ins ?w4 flt q] ctrl(2) by auto
    define log where "log = part_log q outs @ l @ meet_log flt w2 q ins"
    let ?w5 = "says log w2"
    have "find_position i ?w5 = Some newPos" "sector_of newPos (world_grid ?w5) = b" "\<not> here i b ?w5"
      using pos2 here2 [OF n(2)] g(3) by (simp_all add: gr2 b_def)
    then obtain g' where g': "enter_sector i b ?w5 = Inr (?w5\<lparr>world_grid := g'\<rparr>)" "grid_ok n (?w5\<lparr>world_grid := g'\<rparr>)"
        "\<And>p. sector_of p g' = sector_of p (world_grid ?w5)"
        "\<And>e j. here e j (?w5\<lparr>world_grid := g'\<rparr>) \<longleftrightarrow> e = i \<and> j = b \<or> here e j ?w5"
      using enter_sector_eq [of n ?w5 i newPos b] grid2 by auto
    let ?w' = "?w5\<lparr>world_grid := g'\<rparr>"
    have "handle_player_position_change flt p0 (ps_position p) newPos sync w = Inr ?w'"
      unfolding start using False g'(1)
      by (simp only: if_False Let_def q_def [symmetric] leave and_then_simps gr2 says_simps outs_def [symmetric]
          ins_def [symmetric] parts l(1) meets log_def)
    moreover have "steps_to n w ?w'"
    proof (rule moved_steps_to [OF w n here_a _ pl(3) a_def [symmetric], where new = newPos and l = log])
      show "visible i" by (simp add: visible_def pl(1))
      show "find_position i ?w' = Some newPos" by (simp add: pos2)
      show "sector_of newPos (world_grid ?w') = b" using g'(3) g(3) by (simp add: gr2 b_def)
      show "find_position j ?w' = find_position j w" if "j \<noteq> i" for j using that by (simp add: pos2)
      show "sector_of p (world_grid ?w') = sector_of p (world_grid w)" for p using g'(3) g(3) by (simp add: gr2)
      show "here e k ?w' \<longleftrightarrow> e = i \<and> k = b \<or> e \<noteq> i \<and> here e k w" if "k < n * n" for e k
        using g'(4) here2 [OF that] by auto
      show "delayed ?w' = delayed w" "grid_ok n ?w'" "notices ?w' = notices w @ log" using g'(2) by (simp_all add: gr2)
      have "leaves n x y w i e \<Longrightarrow> find_position e w \<noteq> None" for x y e
        using has_position_here [OF grid] by (auto simp: leaves_def)
      then have "x \<in> set (part_log q outs) \<or> x \<in> set (meet_log flt w2 q ins) \<Longrightarrow> find_position (fst x) w \<noteq> None" for x
        using log_receivers(1) [of x q outs] log_receivers(2) [of x flt w2 q ins] q(1) pl(3) outs ins by fastforce
      moreover have "x \<in> set l \<Longrightarrow> find_position (fst x) w \<noteq> None" for x using l(3) pos2 pl(3) by (auto split: if_splits)
      ultimately show "\<forall>x \<in> set log. find_position (fst x) w \<noteq> None" unfolding log_def by auto
      have no: "ps_id q \<notin> set outs" "ps_id q \<notin> set ins" by (simp_all add: q(1) outs ins leaves_def)
      have learned: "fold learn (addressed j log) k = (if j = i
          then k - unwrap ` {e. visible e \<and> leaves n a b w i e} \<union> unwrap ` {e. visible e \<and> leaves n b a w i e}
          else k - (if leaves n a b w i j then {unwrap i} else {}) \<union> (if leaves n b a w i j then {unwrap i} else {}))" for j k
      proof -
        have "{e \<in> set outs. visible e} = {e. visible e \<and> leaves n a b w i e}" "{e \<in> set ins. visible e} = {e. visible e \<and> leaves n b a w i e}"
          by (auto simp: outs ins)
        then show ?thesis
          using learn_part [OF no(1), where j = j] learn_meet [OF snaps2 ctrl(2) no(2), where j = j and flt = flt] learn_quiet [OF l(2)]
          by (simp add: log_def q(1) outs ins)
      qed
      show "fold learn (addressed j log) k = k - (if leaves n a b w i j then {unwrap i} else {}) \<union> (if leaves n b a w i j then {unwrap i} else {})"
        if "j \<noteq> i" for j k using that by (simp add: learned)
      show "fold learn (addressed i log) k = k - unwrap ` {e. visible e \<and> leaves n a b w i e} \<union> unwrap ` {e. visible e \<and> leaves n b a w i e}" for k
        by (simp add: learned)
    qed
    ultimately show ?thesis by blast
  qed
qed

text \<open>A monster moves.\<close>

lemma monster_moves:
  assumes w: "world_ok n w" and m: "map_of (monsters w) i = Some m" and m0: "ms_id m0 = i"
  shows "\<exists>w'. handle_monster_position_change flt m0 (ms_position m) newPos sync w = Inr w' \<and> steps_to n w w'"
proof -
  have grid: "grid_ok n w" and snaps: "snapshots_ok w" and sq: "square_grid n (world_grid w)"
    using w by (simp_all add: world_ok_def grid_ok_def)
  note mo = monster_position [OF snaps m]
  have act: "active n i w" using w mo(1,3) by (simp add: world_ok_def)
  define a where "a = sector_of (ms_position m) (world_grid w)"
  define b where "b = sector_of newPos (world_grid w)"
  define w1 where "w1 = w\<lparr>monsters := change_at i (\<lambda>q. q\<lparr>ms_position := newPos\<rparr>) (monsters w)\<rparr>"
  define q where "q = m0\<lparr>ms_position := newPos\<rparr>"
  have q: "ms_id q = i" "quiet (move_monster_packet flt q)" by (simp_all add: q_def m0 move_monster_packet_def)
  have n: "a < n * n" "b < n * n" using sector_of_less [OF sq] by (simp_all add: a_def b_def)
  have here_a: "here i a w" using act here_position [OF grid] mo(3) by (metis a_def active_def option.inject)
  have alone: "j = a" if "j < n * n" "here i j w" for j using here_unique [OF grid n(1) here_a that] .
  have pos1: "find_position e w1 = (if e = i then Some newPos else find_position e w)" for e
    unfolding w1_def by (simp add: find_position_monster [OF snaps m])
  have snaps1: "snapshots_ok w1" unfolding w1_def by (rule snapshots_ok_monster [OF snaps]) simp
  have g1: "world_grid w1 = world_grid w" "notices w1 = notices w" "delayed w1 = delayed w" by (simp_all add: w1_def)
  have start: "handle_monster_position_change flt m0 (ms_position m) newPos sync w =
    (if a = b then (if sync then broadcast_cells (move_monster_packet flt q) (near n a) None w1 else Inr w1)
      else and_then (leave_sector i a w1) (\<lambda>w.
           and_then (let outs = sector_difference a b (world_grid w)
                     in if outs \<noteq> [] then broadcast_type PlayerEntity (ScRemoveMonster 1 [unwrap (ms_id q)]) outs w else Inr w) (\<lambda>w.
           and_then (let same = sector_intersect b a (world_grid w)
                     in if sync \<and> same \<noteq> [] then broadcast_cells (move_monster_packet flt q) same (Some (ms_id q)) w
                        else Inr w) (\<lambda>w.
           and_then (let ins = sector_difference b a (world_grid w)
                     in if ins \<noteq> [] then broadcast_type PlayerEntity (ScAddMonster 1 [build_monster flt q]) ins w else Inr w) (\<lambda>w.
           enter_sector i b w)))))"
    using sector_id_iff [OF grid n] sq n unfolding q_def
    by (simp add: handle_monster_position_change_def Let_def m0 w1_def [symmetric] g1 get_sector_ok a_def [symmetric] b_def [symmetric]
        sector_at_index)
  show ?thesis
  proof (cases "a = b")
    case True
    have same: "map_option (\<lambda>p. sector_of p (world_grid w)) (find_position e w1) = map_option (\<lambda>p. sector_of p (world_grid w)) (find_position e w)" for e
      using True mo(3) by (simp add: pos1 a_def b_def)
    have w1: "world_ok n w1" "\<And>used. unused used w \<Longrightarrow> unused used w1"
      using same_places [OF g1 snaps1 same] w by blast+
    obtain l where l: "broadcast_cells (move_monster_packet flt q) (near n a) None w1 = Inr (says l w1)"
        "\<forall>x \<in> set l. quiet (snd x)" "\<forall>x \<in> set l. find_position (fst x) w1 \<noteq> None"
      by (rule quiet_broadcast [OF world_ok_grid [OF w1(1)] _ q(2)]) (auto dest: near_less)
    have "steps_to n w (says l w1)" "steps_to n w w1"
      using steps_to_quiet [OF w1(1) l(2,3)] w1 by (auto simp: steps_to_def)
    with l(1) True show ?thesis unfolding start by simp
  next
    case False
    obtain g where g: "sector_remove_entity i a (world_grid w) = Inr g" "grid_ok n (w\<lparr>world_grid := g\<rparr>)"
        "\<And>p. sector_of p g = sector_of p (world_grid w)"
        "\<And>e j. j < n * n \<Longrightarrow> here e j (w\<lparr>world_grid := g\<rparr>) \<longleftrightarrow> e \<noteq> i \<and> here e j w"
      using leave_sector_eq [OF grid n(1) alone] by blast
    define w2 where "w2 = w1\<lparr>world_grid := g\<rparr>"
    have leave: "leave_sector i a w1 = Inr w2" by (simp add: leave_sector_def g1 g(1) w2_def)
    have pos2: "find_position e w2 = (if e = i then Some newPos else find_position e w)" for e by (simp add: w2_def pos1)
    have snaps2: "snapshots_ok w2" using snaps1 by (simp add: w2_def snapshots_ok_def)
    have gr2: "world_grid w2 = g" "notices w2 = notices w" "delayed w2 = delayed w" by (simp_all add: w2_def g1)
    have grid2: "grid_ok n w2"
      by (rule grid_ok_unlisted [OF g(2), of i]) (use g(4) snaps2 gr2 pos2 in auto)
    have here2: "here e j w2 \<longleftrightarrow> e \<noteq> i \<and> here e j w" if "j < n * n" for e j
      using g(4) [OF that] by (simp add: here_def gr2)
    have leaves2: "{e. entity_type e = t \<and> (\<exists>k < n * n. next_to n x k \<and> \<not> next_to n y k \<and> here e k w2)} = {e. entity_type e = t \<and> leaves n x y w i e}" for x y t
      using here2 by (auto simp: leaves_def)
    define outs where "outs = cells_entities_of PlayerEntity (sector_difference a b g) g"
    define ins where "ins = cells_entities_of PlayerEntity (sector_difference b a g) g"
    have outs: "set outs = {e. entity_type e = PlayerEntity \<and> leaves n a b w i e}" and ins: "set ins = {e. entity_type e = PlayerEntity \<and> leaves n b a w i e}"
      using set_of_difference(2) [OF grid2 n(1,2), of PlayerEntity] set_of_difference(2) [OF grid2 n(2,1), of PlayerEntity]
      by (simp_all add: outs_def ins_def gr2 leaves2)
    let ?out = "map (\<lambda>i. (i, ScRemoveMonster 1 [unwrap (ms_id q)])) outs"
    let ?in = "map (\<lambda>i. (i, ScAddMonster 1 [build_monster flt q])) ins"
    have parts: "(if sector_difference a b g \<noteq> [] then broadcast_type PlayerEntity (ScRemoveMonster 1 [unwrap (ms_id q)]) (sector_difference a b g) w2
        else Inr w2) = Inr (says ?out w2)"
      using broadcast_type_eq [OF grid2, of "sector_difference a b g" PlayerEntity] set_of_difference(3) [OF grid2 n(1,2)]
      by (simp add: gr2 outs_def cells_entities_of_def)
    obtain l where l: "(if sync \<and> sector_intersect b a g \<noteq> [] then broadcast_cells (move_monster_packet flt q) (sector_intersect b a g) (Some (ms_id q)) (says ?out w2)
          else Inr (says ?out w2)) = Inr (says (?out @ l) w2)" "\<forall>x \<in> set l. quiet (snd x)" "\<forall>x \<in> set l. find_position (fst x) w2 \<noteq> None"
    proof (cases "sync \<and> sector_intersect b a g \<noteq> []")
      case True
      have "\<forall>k \<in> set (sector_intersect b a g). k < n * n" using intersection_cells [OF grid2 n(2,1)] by (simp add: gr2)
      with quiet_broadcast [of n "says ?out w2" "sector_intersect b a g" "move_monster_packet flt q" "Some (ms_id q)"] grid2 q(2)
      obtain l where "broadcast_cells (move_monster_packet flt q) (sector_intersect b a g) (Some (ms_id q)) (says ?out w2) = Inr (says l (says ?out w2))"
          "\<forall>x \<in> set l. quiet (snd x)" "\<forall>x \<in> set l. find_position (fst x) (says ?out w2) \<noteq> None" by auto
      with True that [of l] show ?thesis by simp
    qed (use that [of "[]"] in auto)
    define log where "log = ?out @ l @ ?in"
    have meets: "(if sector_difference b a g \<noteq> [] then broadcast_type PlayerEntity (ScAddMonster 1 [build_monster flt q]) (sector_difference b a g) (says (?out @ l) w2)
        else Inr (says (?out @ l) w2)) = Inr (says log w2)"
      using broadcast_type_eq [of n "says (?out @ l) w2" "sector_difference b a g" PlayerEntity] grid2 set_of_difference(3) [OF grid2 n(2,1)]
      by (simp add: gr2 ins_def cells_entities_of_def log_def)
    let ?w5 = "says log w2"
    have "find_position i ?w5 = Some newPos" "sector_of newPos (world_grid ?w5) = b" "\<not> here i b ?w5"
      using pos2 here2 [OF n(2)] g(3) by (simp_all add: gr2 b_def)
    then obtain g' where g': "enter_sector i b ?w5 = Inr (?w5\<lparr>world_grid := g'\<rparr>)" "grid_ok n (?w5\<lparr>world_grid := g'\<rparr>)"
        "\<And>p. sector_of p g' = sector_of p (world_grid ?w5)"
        "\<And>e j. here e j (?w5\<lparr>world_grid := g'\<rparr>) \<longleftrightarrow> e = i \<and> j = b \<or> here e j ?w5"
      using enter_sector_eq [of n ?w5 i newPos b] grid2 by auto
    let ?w' = "?w5\<lparr>world_grid := g'\<rparr>"
    have "handle_monster_position_change flt m0 (ms_position m) newPos sync w = Inr ?w'"
      unfolding start using False g'(1)
      by (simp only: if_False Let_def leave and_then_simps gr2 says_simps parts l(1) meets)
    moreover have "steps_to n w ?w'"
    proof (rule moved_steps_to [OF w n here_a _ mo(3) a_def [symmetric], where new = newPos and l = log])
      show "visible i" by (simp add: visible_def mo(1))
      show "find_position i ?w' = Some newPos" by (simp add: pos2)
      show "sector_of newPos (world_grid ?w') = b" using g'(3) g(3) by (simp add: gr2 b_def)
      show "find_position j ?w' = find_position j w" if "j \<noteq> i" for j using that by (simp add: pos2)
      show "sector_of p (world_grid ?w') = sector_of p (world_grid w)" for p using g'(3) g(3) by (simp add: gr2)
      show "here e k ?w' \<longleftrightarrow> e = i \<and> k = b \<or> e \<noteq> i \<and> here e k w" if "k < n * n" for e k
        using g'(4) here2 [OF that] by auto
      show "delayed ?w' = delayed w" "grid_ok n ?w'" "notices ?w' = notices w @ log" using g'(2) by (simp_all add: gr2)
      have "leaves n x y w i e \<Longrightarrow> find_position e w \<noteq> None" for x y e
        using has_position_here [OF grid] by (auto simp: leaves_def)
      moreover have "x \<in> set l \<Longrightarrow> find_position (fst x) w \<noteq> None" for x using l(3) pos2 mo(3) by (auto split: if_splits)
      ultimately show "\<forall>x \<in> set log. find_position (fst x) w \<noteq> None" unfolding log_def using outs ins by fastforce
      show "fold learn (addressed j log) k = k - (if leaves n a b w i j then {unwrap i} else {}) \<union> (if leaves n b a w i j then {unwrap i} else {})"
        if "j \<noteq> i" "entity_type j = PlayerEntity" for j k
        using that learn_quiet [OF l(2)] by (simp add: log_def learn_everyone outs ins q(1) build_monster_def)
    qed (simp add: mo(1))
    ultimately show ?thesis by blast
  qed
qed

end
