(* ===== verification/InterestOps.thy ===== *)
theory InterestOps
  imports Interest
begin

text \<open>
  The remaining operations of the snapshot controller keep what \<open>Interest\<close> states of the players, and the tasks of a
  game instance as they complete one after another on its strand.
\<close>

subsection \<open>Coming and going\<close>

lemma around_entered:
  assumes "\<And>e k. k < n * n \<Longrightarrow> here e k w' \<longleftrightarrow> e = i \<and> k = b \<or> here e k w" "b < n * n"
  shows "around n s w' = around n s w \<union> (if visible i \<and> next_to n s b then {i} else {})"
  using assms by (auto simp: around_def)

lemma not_dying:
  assumes "world_ok n w" "find_position i w \<noteq> None"
  shows "i \<notin> dying j w"
  using assms by (auto simp: world_ok_def dying_def)

lemma entered_world_ok:
  assumes w: "world_ok n w" and b: "b < n * n" and out: "\<not> active n i w"
    and pos: "find_position i w' = Some new" "sector_of new (world_grid w') = b"
      "\<And>j. j \<noteq> i \<Longrightarrow> find_position j w' = find_position j w" "\<And>p. sector_of p (world_grid w') = sector_of p (world_grid w)"
    and moved: "\<And>e k. k < n * n \<Longrightarrow> here e k w' \<longleftrightarrow> e = i \<and> k = b \<or> here e k w"
    and del: "delayed w' = delayed w" "\<And>j. (j, ScDespawnMonster 1 [unwrap i]) \<notin> set (delayed w)" and grid: "grid_ok n w'"
    and said: "notices w' = notices w @ l" "\<forall>x \<in> set l. find_position (fst x) w' \<noteq> None"
    and others: "\<And>j k. j \<noteq> i \<Longrightarrow> entity_type j = PlayerEntity \<Longrightarrow> fold learn (addressed j l) k =
      k \<union> (if visible i \<and> (\<exists>m < n * n. next_to n b m \<and> here j m w) then {unwrap i} else {})"
    and own: "entity_type i = PlayerEntity \<Longrightarrow> known i w = {}"
      "entity_type i = PlayerEntity \<Longrightarrow> fold learn (addressed i l) {} = unwrap ` around n b w"
  shows "world_ok n w'" "unused used w \<Longrightarrow> unused (insert i used) w'"
proof -
  have grid0: "grid_ok n w" using w by (rule world_ok_grid)
  have known: "known j w' = fold learn (addressed j l) (known j w)" for j by (simp add: known_def said(1))
  have dying: "dying e w' = dying e w" for e using del by (simp add: dying_def)
  have "informed n j w'" if j: "entity_type j = PlayerEntity" "find_position j w' \<noteq> None" for j
  proof (cases "j = i")
    case True
    have "i \<notin> around n b w" using out by (auto simp: around_def active_def)
    then have "sees n i w' = around n b w"
      using around_entered [OF moved b, of b] by (auto simp: sees_def pos(1,2))
    moreover have "active n i w'" using moved b by (auto simp: active_def)
    ultimately show ?thesis using True j(1) by (auto simp: informed_def known own dying)
  next
    case False
    have pj: "find_position j w' = find_position j w" using pos(3) False by blast
    obtain p where p: "find_position j w = Some p" using j(2) pj by auto
    let ?s = "sector_of p (world_grid w)"
    have act: "active n j w' = active n j w" using moved False by (auto simp: active_def)
    have inf: "informed n j w" using w j(1) p by (simp add: world_ok_def)
    show ?thesis
    proof (cases "active n j w")
      case True
      then have "here j ?s w" "?s < n * n" using here_position [OF grid0, of _ j] p by (auto simp: active_def)
      then have at: "here j m w \<longleftrightarrow> m = ?s" if "m < n * n" for m using here_unique [OF grid0, of ?s j m] that by blast
      define new where "new = (if visible i \<and> next_to n b ?s then {i} else {})"
      have "i \<noteq> j" "i \<notin> sees n j w" using False out by (auto simp: sees_def around_def active_def p)
      then have "sees n j w' = sees n j w - {} \<union> new"
        using around_entered [OF moved b, of ?s] next_to_sym [of n ?s b] by (auto simp: sees_def pj p pos(4) new_def)
      moreover have "known j w' = known j w - unwrap ` {} \<union> unwrap ` new"
        using \<open>?s < n * n\<close> at by (auto simp: known others [OF False j(1)] new_def)
      ultimately show ?thesis using known_bounds [of "sees n j w" "known j w" "dying j w" "{}" new] inf True
        by (simp add: informed_def act dying)
    next
      case no: False
      then have "\<not> (\<exists>m < n * n. next_to n b m \<and> here j m w)" by (auto simp: active_def)
      with no inf show ?thesis by (simp add: informed_def act known others [OF False j(1)])
    qed
  qed
  moreover have "active n e w'" if "entity_type e \<noteq> PlayerEntity" "find_position e w' \<noteq> None" for e
  proof (cases "e = i")
    case False
    then have "active n e w" using w that pos(3) by (simp add: world_ok_def)
    then show ?thesis using moved by (auto simp: active_def)
  qed (use moved b in \<open>auto simp: active_def\<close>)
  moreover have "find_position e w' = None" if "(j, ScDespawnMonster 1 [unwrap e]) \<in> set (delayed w)" for e j
  proof -
    have "e \<noteq> i" using del(2) that by blast
    with w that pos(3) show ?thesis by (fastforce simp: world_ok_def)
  qed
  ultimately show "world_ok n w'" using w grid unfolding world_ok_def by (fastforce simp: del(1))
  assume u: "unused used w"
  have "addressed j l = []" if "j \<notin> insert i used" for j
    using u that said(2) pos(3) by (auto simp: unused_def addressed_def filter_empty_conv)
  with u show "unused (insert i used) w'" by (auto simp: unused_def said(1) del pos(3))
qed

text \<open>An entity that leaves; those who saw it are told at once or later.\<close>

lemma left_world_ok:
  assumes w: "world_ok n w" and had: "find_position i w \<noteq> None"
    and pos: "find_position i w' = None" "\<And>j. j \<noteq> i \<Longrightarrow> find_position j w' = find_position j w"
      "\<And>p. sector_of p (world_grid w') = sector_of p (world_grid w)"
    and left: "\<And>e k. k < n * n \<Longrightarrow> here e k w' \<longleftrightarrow> e \<noteq> i \<and> here e k w"
    and grid: "grid_ok n w'"
    and del: "delayed w' = delayed w @ map (\<lambda>j. (j, ScDespawnMonster 1 [unwrap i])) later" "later \<noteq> [] \<Longrightarrow> entity_type i = MonsterEntity"
    and said: "notices w' = notices w @ l" "\<forall>x \<in> set l. find_position (fst x) w \<noteq> None"
    and told: "\<And>j k. j \<noteq> i \<Longrightarrow> entity_type j = PlayerEntity \<Longrightarrow> fold learn (addressed j l) k = k - (if now j then {unwrap i} else {})"
      "\<And>j. j \<noteq> i \<Longrightarrow> entity_type j = PlayerEntity \<Longrightarrow> active n j w \<Longrightarrow> i \<in> sees n j w \<Longrightarrow> now j \<or> j \<in> set later"
  shows "steps_to n w w'"
proof -
  have grid0: "grid_ok n w" using w by (rule world_ok_grid)
  have known: "known j w' = fold learn (addressed j l) (known j w)" for j by (simp add: known_def said(1))
  have dying: "dying j w' = dying j w \<union> (if j \<in> set later then {i} else {})" for j by (auto simp: dying_def del)
  have "informed n j w'" if j: "entity_type j = PlayerEntity" "find_position j w' \<noteq> None" for j
  proof -
    have ji: "j \<noteq> i" using pos(1) j(2) by auto
    have pj: "find_position j w' = find_position j w" using pos(2) ji by blast
    have act: "active n j w' = active n j w" using left ji by (auto simp: active_def)
    have inf: "informed n j w" using w j pj by (simp add: world_ok_def)
    have k': "known j w' = known j w - (if now j then {unwrap i} else {})" by (simp add: known told(1) [OF ji j(1)])
    have "around n s w' = around n s w - {i}" for s using left by (auto simp: around_def)
    then have sees: "sees n j w' = sees n j w - {i}" by (auto simp: sees_def pj pos(3) split: option.split)
    show ?thesis
    proof (cases "active n j w")
      case True
      then have k: "unwrap ` sees n j w \<subseteq> known j w" "known j w \<subseteq> unwrap ` (sees n j w \<union> dying j w)"
        using inf by (simp_all add: informed_def)
      have "known j w' \<subseteq> unwrap ` (sees n j w' \<union> dying j w')"
      proof
        fix x assume x: "x \<in> known j w'"
        then obtain e where e: "x = unwrap e" "e \<in> sees n j w \<union> dying j w" using k(2) k' by auto
        show "x \<in> unwrap ` (sees n j w' \<union> dying j w')"
        proof (cases "e = i")
          case True
          then have "i \<in> sees n j w" using e(2) not_dying [OF w had] by blast
          then have "j \<in> set later" using told(2) [OF ji j(1) \<open>active n j w\<close>] x e(1) True k' by auto
          then show ?thesis using e(1) True by (simp add: dying)
        qed (use e in \<open>auto simp: sees dying\<close>)
      qed
      moreover have "unwrap ` sees n j w' \<subseteq> known j w'" using k(1) by (auto simp: sees k')
      ultimately show ?thesis using True by (simp add: informed_def act)
    qed (use inf in \<open>simp add: informed_def act k'\<close>)
  qed
  moreover have "active n e w'" if "entity_type e \<noteq> PlayerEntity" "find_position e w' \<noteq> None" for e
  proof -
    have "e \<noteq> i" using that(2) pos(1) by auto
    moreover from this have "active n e w" using w that pos(2) by (simp add: world_ok_def)
    ultimately show ?thesis using left by (auto simp: active_def)
  qed
  moreover have none: "find_position e w = None \<Longrightarrow> find_position e w' = None" for e using pos by (cases "e = i") auto
  ultimately have "world_ok n w'"
    using w grid del(2) pos(1) unfolding world_ok_def del(1) by (fastforce simp: del(1))
  moreover have "unused used w'" if u: "unused used w" for used
  proof -
    have "i \<in> used" using u had by (auto simp: unused_def)
    moreover have "addressed j l = []" if "j \<notin> used" for j
      using u that said(2) by (auto simp: unused_def addressed_def filter_empty_conv)
    ultimately show ?thesis using u none by (auto simp: unused_def said(1) del(1))
  qed
  ultimately show ?thesis by (simp add: steps_to_def)
qed

text \<open>A delayed message is delivered.\<close>

lemma delivered_steps_to:
  assumes w: "world_ok n w" and k: "k < length (delayed w)"
  shows "steps_to n w (deliver_delayed k w)"
proof -
  obtain i p where ip: "delayed w ! k = (i, p)" by fastforce
  then have "(i, p) \<in> set (delayed w)" using k by (metis nth_mem)
  then obtain e where e: "p = ScDespawnMonster 1 [unwrap e]" "entity_type e = MonsterEntity" "find_position e w = None"
    using w by (fastforce simp: world_ok_def)
  define w1 where "w1 = w\<lparr>delayed := take k (delayed w) @ drop (Suc k) (delayed w)\<rparr>"
  define l where "l = (if find_controller i w = None then [] else [(i, p)])"
  have fp: "find_position j w1 = find_position j w" "find_controller j w1 = find_controller j w" for j
    by (simp_all add: w1_def find_position_def find_controller_def split: entity_type.split)
  have w': "deliver_delayed k w = says l w1"
    by (auto simp: deliver_delayed_def ip w1_def [symmetric] Let_def fp l_def sync_says split: option.split)
  have del: "set (delayed w) = insert (i, p) (set (delayed w1))"
    using k ip by (simp add: w1_def) (metis id_take_nth_drop list.simps(15) set_append Un_insert_right)
  have same: "world_grid w1 = world_grid w" "notices w1 = notices w" "snapshots_ok w1 = snapshots_ok w" by (simp_all add: w1_def snapshots_ok_def)
  have sees: "sees n j (says l w1) = sees n j w" and act: "active n j (says l w1) = active n j w" for j
    by (simp_all add: sees_def around_def active_def here_def same fp split: option.split)
  have gone: "e \<notin> sees n j w" for j
  proof -
    have "\<not> here e m w" if "m < n * n" for m using has_position_here [OF world_ok_grid [OF w] that] e(3) by blast
    then show ?thesis by (auto simp: sees_def around_def split: option.split)
  qed
  have "informed n j (says l w1)" if j: "entity_type j = PlayerEntity" "find_position j w \<noteq> None" for j
  proof -
    have inf: "informed n j w" using w j by (simp add: world_ok_def)
    show ?thesis
    proof (cases "active n j w")
      case True
      then have kn: "unwrap ` sees n j w \<subseteq> known j w" "known j w \<subseteq> unwrap ` (sees n j w \<union> dying j w)"
        using inf by (simp_all add: informed_def)
      have "known j (says l w1) = (if j = i then known j w - {unwrap e} else known j w)"
        using j(2) by (auto simp: l_def e(1) known_def same find_controller_iff)
      moreover have "dying j w = (if j = i then insert e (dying j w1) else dying j w1)"
        using e(1) by (auto simp: dying_def del)
      moreover have "dying j (says l w1) = dying j w1" by (simp add: dying_def)
      ultimately show ?thesis using kn gone [of j] True unfolding informed_def act sees by (auto simp: image_iff split: if_splits)
    next
      case False
      then have "known j w = {}" using inf by (simp add: informed_def)
      then have "known j (says l w1) = {}" using e(1) by (simp add: l_def known_def same)
      with False show ?thesis by (simp add: informed_def act)
    qed
  qed
  moreover have "active n j (says l w1)" if "entity_type j \<noteq> PlayerEntity" "find_position j w \<noteq> None" for j
    using w that by (simp add: act world_ok_def)
  moreover have "grid_ok n w1" using w by (simp add: world_ok_def grid_ok_def same fp)
  ultimately have "world_ok n (says l w1)"
    using w unfolding world_ok_def by (auto simp: fp del)
  moreover have "unused used (says l w1)" if "unused used w" for used
    using that by (auto simp: unused_def same fp del l_def addressed_def find_controller_iff split: if_splits)
  ultimately show ?thesis by (simp add: steps_to_def w')
qed

subsection \<open>The operations\<close>

lemma has_at_least_0: "ks \<noteq> [] \<Longrightarrow> has_at_least 0 0 ks c"
  by (cases ks) (simp_all add: Let_def cell_size_def)

lemma grid_facts:
  assumes "world_ok n w"
  shows "grid_ok n w" "snapshots_ok w" "square_grid n (world_grid w)"
  using assms by (simp_all add: world_ok_def grid_ok_def)

lemma near_cells: "\<forall>k \<in> set (near n s). k < n * n"
  by (auto dest: near_less)

lemma set_near_entities:
  assumes "grid_ok n w"
  shows "set (cells_entities (near n s) (world_grid w)) = {e. \<exists>k < n * n. next_to n s k \<and> here e k w}"
  by (auto simp: set_cells_entities [OF assms near_cells] in_near)

text \<open>An active player is listed in the cell of its position.\<close>

lemma active_at:
  assumes "grid_ok n w" "find_position i w = Some p"
  shows "active n i w \<longleftrightarrow> here i (sector_of p (world_grid w)) w"
  using assms here_position [OF assms(1), of _ i] sector_of_less [of n "world_grid w" p]
  by (auto simp: active_def grid_ok_def)

lemma activate_ok:
  assumes w: "world_ok n w" and p: "map_of (players w) i = Some p" and out: "\<not> active n i w"
  shows "\<exists>w'. process_player_activate flt i w = Inr w' \<and> steps_to n w w' \<and> active n i w'"
proof -
  note grid = grid_facts [OF w]
  note pl = player_position [OF grid(2) p]
  define b where "b = sector_of (ps_position p) (world_grid w)"
  have b: "b < n * n" using sector_of_less [OF grid(3)] by (simp add: b_def)
  define seen where "seen = cells_entities (near n b) (world_grid w)"
  have is_set: "set seen = {e. \<exists>k < n * n. next_to n b k \<and> here e k w}" by (simp add: seen_def set_near_entities [OF grid(1)])
  have ctrl: "\<forall>e \<in> set seen. find_controller e w \<noteq> None" unfolding is_set using here_controller [OF grid(1)] by blast
  have no: "ps_id p \<notin> set seen" using out by (auto simp: is_set pl(2) active_def)
  have ne: "near n b \<noteq> []" using near_itself [OF b] by auto
  define l where "l = meet_log flt w p seen @ [(i, ScNotifyPlayerActivated)]"
  have eq: "process_player_activate flt i w = enter_sector i b (says l w)"
    using meet_eq [OF ctrl, of flt p] ne has_at_least_0 [OF ne, of "world_grid w"]
    by (simp add: process_player_activate_def p sector_of_position_eq [OF grid(1)] b_def [symmetric] seen_def [symmetric] sync_says l_def)
  obtain g where g: "enter_sector i b (says l w) = Inr ((says l w)\<lparr>world_grid := g\<rparr>)" "grid_ok n ((says l w)\<lparr>world_grid := g\<rparr>)"
      "\<And>p. sector_of p g = sector_of p (world_grid (says l w))"
      "\<And>e j. here e j ((says l w)\<lparr>world_grid := g\<rparr>) \<longleftrightarrow> e = i \<and> j = b \<or> here e j (says l w)"
    using enter_sector_eq [of n "says l w" i "ps_position p" b] grid(1) pl(3) out b by (auto simp: b_def active_def)
  let ?w = "(says l w)\<lparr>world_grid := g\<rparr>"
  have learned: "fold learn (addressed j l) k = (if j = i then k \<union> unwrap ` {e \<in> set seen. visible e} else if j \<in> set seen then k \<union> {unwrap i} else k)" for j k
    using learn_meet [OF grid(2) ctrl no, of j flt k] by (auto simp: l_def pl(2))
  have del: "(j, ScDespawnMonster 1 [unwrap i]) \<notin> set (delayed w)" for j
    using w pl(1) by (fastforce simp: world_ok_def)
  have inactive: "known i w = {}" using w out pl(1,3) by (simp add: world_ok_def informed_def)
  have ok: "world_ok n ?w" "unused used w \<Longrightarrow> unused (insert i used) ?w" for used
  proof -
    have visible: "visible i" by (simp add: visible_def pl(1))
    have "x \<in> set l \<Longrightarrow> fst x = i \<or> fst x \<in> set seen" for x
      using log_receivers(2) [of x flt w p seen] by (auto simp: l_def pl(2))
    then have recv: "\<forall>x \<in> set l. find_position (fst x) ?w \<noteq> None" using ctrl pl(3) by (fastforce simp: find_controller_iff)
    have own: "fold learn (addressed i l) {} = unwrap ` around n b w" by (simp add: learned is_set around_def) (metis (lifting) Collect_cong)
    have others: "fold learn (addressed j l) k = k \<union> (if visible i \<and> (\<exists>m < n * n. next_to n b m \<and> here j m w) then {unwrap i} else {})" if "j \<noteq> i" for j k
      using that by (auto simp: learned is_set visible)
    have w': "find_position i ?w = Some (ps_position p)" "sector_of (ps_position p) (world_grid ?w) = b"
      "j \<noteq> i \<Longrightarrow> find_position j ?w = find_position j w" "sector_of p' (world_grid ?w) = sector_of p' (world_grid w)"
      "k < n * n \<Longrightarrow> here e k ?w \<longleftrightarrow> e = i \<and> k = b \<or> here e k w"
      "delayed ?w = delayed w" "grid_ok n ?w" "notices ?w = notices w @ l" for j p' e k
      using g(2,3,4) pl(3) by (simp_all add: b_def)
    note enter = entered_world_ok [where i = i and w = w and b = b and w' = ?w and l = l and new = "ps_position p" and n = n]
    show "world_ok n ?w"
      by (rule enter(1)) (rule w b out w' del recv others inactive own | assumption)+
    show "unused used w \<Longrightarrow> unused (insert i used) ?w" for used
      by (rule enter(2)) (rule w b out w' del recv others inactive own | assumption)+
  qed
  have used: "insert i used = used" if "unused used w" for used using that pl(3) by (auto simp: unused_def)
  have "unused used ?w" if "unused used w" for used using ok(2) [OF that] unfolding used [OF that] .
  moreover have "active n i ?w" using g(4) b by (auto simp: active_def)
  ultimately show ?thesis using eq g(1) ok(1) by (simp add: steps_to_def)
qed

text \<open>Broadcasts that teach nothing.\<close>

lemma quiet_around:
  assumes w: "world_ok n w" and p: "quiet p"
  obtains l where "sector_of_position pos (\<lambda>s ks. broadcast_cells p ks ex) w = Inr (says l w)" "steps_to n w (says l w)"
proof -
  obtain l where "broadcast_cells p (near n (sector_of pos (world_grid w))) ex w = Inr (says l w)"
      "\<forall>x \<in> set l. quiet (snd x)" "\<forall>x \<in> set l. find_position (fst x) w \<noteq> None"
    by (rule quiet_broadcast [OF world_ok_grid [OF w] near_cells p])
  with steps_to_quiet [OF w] that show ?thesis by (simp add: sector_of_position_eq [OF world_ok_grid [OF w]])
qed

lemma quiet_players:
  assumes w: "world_ok n w" and p: "quiet p"
  shows "steps_to n w (broadcast_players p ex w)"
proof -
  have "find_position i w \<noteq> None" if "i \<in> fst ` set (players w)" for i
  proof -
    from that obtain q where "(i, q) \<in> set (players w)" by auto
    then show ?thesis using grid_facts(2) [OF w] by (force simp: find_position_def snapshots_ok_def weak_map_of_SomeI)
  qed
  then show ?thesis unfolding broadcast_players_eq using p by (intro steps_to_quiet [OF w]) auto
qed

lemma steps_to_refl: "world_ok n w \<Longrightarrow> steps_to n w w"
  by (simp add: steps_to_def)

lemma steps_to_ok: "steps_to n w w' \<Longrightarrow> world_ok n w'"
  by (simp add: steps_to_def)

text \<open>A player changes and stays where it is.\<close>

lemma player_changes:
  assumes w: "world_ok n w" and p: "map_of (players w) i = Some p"
    and f: "\<And>q. ps_id (f q) = ps_id q" "\<And>q. ps_position (f q) = ps_position q"
  shows "steps_to n w (w\<lparr>players := change_at i f (players w)\<rparr>)"
    and "active n e (w\<lparr>players := change_at i f (players w)\<rparr>) = active n e w"
proof -
  note grid = grid_facts [OF w]
  have "find_position e (w\<lparr>players := change_at i f (players w)\<rparr>) = find_position e w" for e
    using find_position_player [OF grid(2) p] player_position(3) [OF grid(2) p] f(2) by simp
  with same_places [of "w\<lparr>players := change_at i f (players w)\<rparr>" w] snapshots_ok_player [OF grid(2) f(1)] w
  show "steps_to n w (w\<lparr>players := change_at i f (players w)\<rparr>)" by (simp add: steps_to_def)
  show "active n e (w\<lparr>players := change_at i f (players w)\<rparr>) = active n e w" by (simp add: active_def here_def)
qed

lemma monster_changes:
  assumes w: "world_ok n w" and m: "map_of (monsters w) i = Some m"
    and f: "\<And>q. ms_id (f q) = ms_id q" "\<And>q. ms_position (f q) = ms_position q"
  shows "steps_to n w (w\<lparr>monsters := change_at i f (monsters w)\<rparr>)"
proof -
  note grid = grid_facts [OF w]
  have "find_position e (w\<lparr>monsters := change_at i f (monsters w)\<rparr>) = find_position e w" for e
    using find_position_monster [OF grid(2) m] monster_position(3) [OF grid(2) m] f(2) by simp
  with same_places [of "w\<lparr>monsters := change_at i f (monsters w)\<rparr>" w] snapshots_ok_monster [OF grid(2) f(1)] w
  show ?thesis by (simp add: steps_to_def)
qed

lemma movement_ok:
  assumes w: "world_ok n w" and i: "map_of (players w) i \<noteq> None \<longrightarrow> active n i w"
  shows "\<exists>w'. process_movement flt i pos yaw w = Inr w' \<and> steps_to n w w'"
proof (cases "map_of (players w) i")
  case (Some p)
  let ?w = "w\<lparr>players := change_at i (\<lambda>q. q\<lparr>ps_yaw := yaw\<rparr>) (players w)\<rparr>"
  have w1: "steps_to n w ?w" "active n i ?w" using player_changes [OF w Some, of "\<lambda>q. q\<lparr>ps_yaw := yaw\<rparr>"] i Some by auto
  have "map_of (players ?w) i = Some (p\<lparr>ps_yaw := yaw\<rparr>)" using Some by (simp add: map_of_change_at)
  moreover have "ps_id (p\<lparr>ps_yaw := yaw\<rparr>) = i" using player_position(2) [OF grid_facts(2) [OF w] Some] by simp
  ultimately obtain w' where "handle_player_position_change flt (p\<lparr>ps_yaw := yaw\<rparr>) (ps_position (p\<lparr>ps_yaw := yaw\<rparr>)) pos True ?w = Inr w'"
      "steps_to n ?w w'"
    using player_moves [OF steps_to_ok [OF w1(1)] _ w1(2)] by blast
  with w1(1) Some show ?thesis by (auto simp: process_movement_def intro: steps_to_trans)
qed (use w in \<open>simp add: process_movement_def steps_to_refl\<close>)

lemma stop_ok:
  assumes w: "world_ok n w" and i: "map_of (players w) i \<noteq> None \<longrightarrow> active n i w"
  shows "\<exists>w'. process_stop flt i pos w = Inr w' \<and> steps_to n w w'"
proof (cases "map_of (players w) i")
  case (Some p)
  with player_moves [OF w Some _ player_position(2) [OF grid_facts(2) [OF w] Some]] i show ?thesis
    by (simp add: process_stop_def)
qed (use w in \<open>simp add: process_stop_def steps_to_refl\<close>)

lemma attack_ok:
  assumes w: "world_ok n w" and i: "map_of (players w) i = Some p" "active n i w"
  shows "\<exists>w'. process_player_attack flt i attackId pos yaw w = Inr w' \<and> steps_to n w w'"
proof -
  have q: "quiet (ScRemotePlayerAttack a b c d)" for a b c d by (simp add: quiet_def)
  obtain w1 where w1: "(if ps_position p \<noteq> pos then handle_player_position_change flt p (ps_position p) pos False w else Inr w) = Inr w1"
      "steps_to n w w1"
  proof (cases "ps_position p = pos")
    case False
    with player_moves [OF w i player_position(2) [OF grid_facts(2) [OF w] i(1)], of flt pos False] that show ?thesis by auto
  qed (use that [of w] steps_to_refl [OF w] in simp)
  then show ?thesis using i(1) steps_to_trans [OF w1(2) quiet_players [OF steps_to_ok [OF w1(2)] q]]
    by (simp add: process_player_attack_def)
qed

lemma attack_one_ok:
  assumes w: "world_ok n w" and m: "find_position i w \<noteq> None" "entity_type i = MonsterEntity"
  shows "\<exists>w'. attack_one a (i, hp) w = Inr w' \<and> steps_to n w w' \<and> (\<forall>e. find_position e w' = find_position e w)"
proof -
  obtain mo where mo: "map_of (monsters w) i = Some mo" using m by (auto simp: find_position_def)
  let ?w = "w\<lparr>monsters := change_at i (\<lambda>m. m\<lparr>ms_hp := hp\<rparr>) (monsters w)\<rparr>"
  have w1: "steps_to n w ?w" by (rule monster_changes [OF w mo]) simp_all
  have "quiet (ScBeAttackedMonster (unwrap a) (unwrap i) hp)" by (simp add: quiet_def)
  then obtain l where "sector_of_position (ms_position mo) (\<lambda>s ks. broadcast_cells (ScBeAttackedMonster (unwrap a) (unwrap i) hp) ks None) ?w
      = Inr (says l ?w)" "steps_to n ?w (says l ?w)"
    by (rule quiet_around [OF steps_to_ok [OF w1]])
  moreover have "find_position e ?w = find_position e w" for e
    using find_position_monster [OF grid_facts(2) [OF w] mo] monster_position(3) [OF grid_facts(2) [OF w] mo] by simp
  ultimately show ?thesis using mo w1 by (auto simp: attack_one_def intro: steps_to_trans)
qed

lemma attack_effect_ok:
  assumes "world_ok n w" "\<forall>(i, hp) \<in> set results. find_position i w \<noteq> None \<and> entity_type i = MonsterEntity"
  shows "\<exists>w'. process_player_attack_effect a results w = Inr w' \<and> steps_to n w w'"
  using assms
proof (induction results arbitrary: w)
  case Nil
  then show ?case by (simp add: process_player_attack_effect_def steps_to_refl)
next
  case (Cons r rs)
  obtain i hp where r: "r = (i, hp)" by (cases r)
  obtain w1 where w1: "attack_one a r w = Inr w1" "steps_to n w w1" "\<forall>e. find_position e w1 = find_position e w"
    using attack_one_ok [OF Cons.prems(1), of i a hp] Cons.prems(2) by (auto simp: r)
  have "\<forall>(i, hp) \<in> set rs. find_position i w1 \<noteq> None \<and> entity_type i = MonsterEntity" using Cons.prems(2) w1(3) by auto
  from Cons.IH [OF steps_to_ok [OF w1(2)] this] w1(1,2) show ?case
    by (auto simp: process_player_attack_effect_def intro: steps_to_trans)
qed

lemma equip_ok:
  assumes w: "world_ok n w" and p: "map_of (players w) i = Some p" "0 \<le> pos" "pos < int (length (ps_equipments p))"
  shows "\<exists>w'. process_player_equip_item_change i pos it w = Inr w' \<and> steps_to n w w'"
proof -
  have "quiet (ScChangeRemotePlayerEquipItem a b c)" for a b c by (simp add: quiet_def)
  moreover have "steps_to n w (w\<lparr>players := change_at i (set_equipment (nat pos) it) (players w)\<rparr>)"
    by (rule player_changes(1) [OF w p(1)]) (simp_all add: set_equipment_def)
  ultimately show ?thesis using p quiet_players steps_to_ok steps_to_trans
    by (simp add: process_player_equip_item_change_def)
qed

lemma monster_move_ok:
  assumes w: "world_ok n w" and m: "map_of (monsters w) i = Some m"
  shows "\<exists>w'. process_monster_move flt i pos yaw w = Inr w' \<and> steps_to n w w'"
proof -
  let ?w = "w\<lparr>monsters := change_at i (\<lambda>m. m\<lparr>ms_yaw := yaw\<rparr>) (monsters w)\<rparr>"
  have w1: "steps_to n w ?w" by (rule monster_changes [OF w m]) simp_all
  have "map_of (monsters ?w) i = Some (m\<lparr>ms_yaw := yaw\<rparr>)" using m by (simp add: map_of_change_at)
  moreover have "ms_id (m\<lparr>ms_yaw := yaw\<rparr>) = i" using monster_position(2) [OF grid_facts(2) [OF w] m] by simp
  ultimately obtain w' where "handle_monster_position_change flt (m\<lparr>ms_yaw := yaw\<rparr>) (ms_position (m\<lparr>ms_yaw := yaw\<rparr>)) pos True ?w = Inr w'"
      "steps_to n ?w w'"
    using monster_moves [OF steps_to_ok [OF w1]] by blast
  with w1 m show ?thesis by (auto simp: process_monster_move_def intro: steps_to_trans)
qed

lemma monster_attack_ok:
  assumes w: "world_ok n w" and m: "map_of (monsters w) i = Some m"
  shows "\<exists>w'. process_monster_attack flt double i k dest rot duration w = Inr w' \<and> steps_to n w w'"
proof -
  have q: "quiet (ScAttackMonster a b c d e f)" for a b c d e f by (simp add: quiet_def)
  note id = monster_position(2) [OF grid_facts(2) [OF w] m]
  show ?thesis
  proof (cases dest)
    case None
    from quiet_around [OF w q] obtain l where
      "sector_of_position (ms_position m) (\<lambda>s ks. broadcast_cells (ScAttackMonster (unwrap i) k (build_position flt (ms_position m))
          \<lparr>rot_pitch = pos_x (build_position flt rot), rot_yaw = pos_y (build_position flt rot), rot_roll = pos_z (build_position flt rot)\<rparr>
          \<lparr>pos_x = 0, pos_y = 0, pos_z = 0\<rparr> 0) ks None) w = Inr (says l w)" "steps_to n w (says l w)" by blast
    then show ?thesis using m None by (simp add: process_monster_attack_def Let_def)
  next
    case (Some d)
    from quiet_around [OF w q] obtain l where l:
      "sector_of_position (ms_position m) (\<lambda>s ks. broadcast_cells (ScAttackMonster (unwrap i) k (build_position flt (ms_position m))
          \<lparr>rot_pitch = pos_x (build_position flt rot), rot_yaw = pos_y (build_position flt rot), rot_roll = pos_z (build_position flt rot)\<rparr>
          (build_position flt d) (double duration)) ks None) w = Inr (says l w)" "steps_to n w (says l w)" by blast
    obtain w' where "handle_monster_position_change flt m (ms_position m) d False (says l w) = Inr w'" "steps_to n (says l w) w'"
      using monster_moves [OF steps_to_ok [OF l(2)] _ id, where m = m and newPos = d and sync = False and flt = flt] m by auto
    with l show ?thesis using m Some by (auto simp: process_monster_attack_def Let_def intro: steps_to_trans)
  qed
qed

end
