(* ===== verification/Presence.thy ===== *)
theory Presence
  imports InterestOps
begin

text \<open>
  Snapshots that come and go: what the tasks of \<^verbatim>\<open>xr/server/game/instance/task/impl\<close> that spawn and remove entities do to
  what the players know.
\<close>

subsection \<open>Other operations\<close>

lemma said_around:
  assumes "world_ok n w" "quiet p"
  shows "\<exists>w'. sector_of_position pos (\<lambda>s ks. broadcast_cells p ks ex) w = Inr w' \<and> steps_to n w w' \<and> players w' = players w"
proof -
  obtain l where "sector_of_position pos (\<lambda>s ks. broadcast_cells p ks ex) w = Inr (says l w)" "steps_to n w (says l w)"
    by (rule quiet_around [OF assms])
  then show ?thesis by simp
qed

lemma sprint_ok:
  assumes w: "world_ok n w" and p: "map_of (players w) i \<noteq> None"
  shows "\<exists>w'. process_sprint i w = Inr w' \<and> steps_to n w w'"
    and "\<exists>w'. process_roll_dodge i rot w = Inr w' \<and> steps_to n w w'"
    and "\<exists>w'. process_monster_attack_effect a k i hp w = Inr w' \<and> steps_to n w w' \<and> players w' = players w"
proof -
  obtain q where q: "map_of (players w) i = Some q" using p by blast
  have quiet: "quiet (ScSprintRemotePlayer (unwrap i))" "quiet (ScRollDodgeRemotePlayer (unwrap i) rot)"
    "quiet (ScBeAttackedPlayer (unwrap a) (unwrap i) k hp)" by (simp_all add: quiet_def)
  show "\<exists>w'. process_sprint i w = Inr w' \<and> steps_to n w w'"
    using said_around [OF w quiet(1), of "ps_position q" "Some i"] by (auto simp: process_sprint_def broadcast_around_def q)
  show "\<exists>w'. process_roll_dodge i rot w = Inr w' \<and> steps_to n w w'"
    using said_around [OF w quiet(2), of "ps_position q" "Some i"] by (auto simp: process_roll_dodge_def broadcast_around_def q)
  show "\<exists>w'. process_monster_attack_effect a k i hp w = Inr w' \<and> steps_to n w w' \<and> players w' = players w"
    using said_around [OF w quiet(3), of "ps_position q" None] by (auto simp: process_monster_attack_effect_def q)
qed

lemma one_notified:
  assumes "world_ok n w" "quiet p" "find_controller i w \<noteq> None"
  shows "steps_to n w (sync_client i p w)"
  unfolding sync_says using assms by (intro steps_to_quiet) (auto simp: find_controller_iff)

subsection \<open>New snapshots\<close>

lemma map_of_insert_new: "map_of xs k = None \<Longrightarrow> map_of (insert_new k v xs) j = (if j = k then Some v else map_of xs j)"
  by (auto simp: insert_new_def map_add_def split: option.split)

lemma map_of_erase_key: "map_of (erase_key k xs) j = (if j = k then None else map_of xs j)"
  by (induction xs) (auto simp: erase_key_def)

lemma find_position_added:
  "entity_type (ps_id p) = PlayerEntity \<Longrightarrow> find_position (ps_id p) w = None \<Longrightarrow>
    find_position e (snapshots_add_player p w) = (if e = ps_id p then Some (ps_position p) else find_position e w)"
  "entity_type (ms_id m) = MonsterEntity \<Longrightarrow> find_position (ms_id m) w = None \<Longrightarrow>
    find_position e (snapshots_add_monster m w) = (if e = ms_id m then Some (ms_position m) else find_position e w)"
  "entity_type (sp_id s) = SpawnerEntity \<Longrightarrow> find_position (sp_id s) w = None \<Longrightarrow>
    find_position e (snapshots_add_spawner s w) = (if e = sp_id s then Some (sp_position s) else find_position e w)"
  by (auto simp: find_position_def snapshots_add_player_def snapshots_add_monster_def snapshots_add_spawner_def map_of_insert_new
      split: entity_type.split)

lemma find_position_removed:
  "find_position e (snapshots_remove i w) = (if e = i then None else find_position e w)"
  by (auto simp: find_position_def snapshots_remove_def map_of_erase_key split: entity_type.splits)

lemma in_insert_new: "(j, v) \<in> set (insert_new k u xs) \<Longrightarrow> (j, v) = (k, u) \<or> (j, v) \<in> set xs"
  by (auto simp: insert_new_def split: if_splits)

lemma distinct_insert_new: "distinct (map fst xs) \<Longrightarrow> distinct (map fst (insert_new k v xs))"
  by (auto simp: insert_new_def map_of_eq_None_iff)

lemma erase_key_subset: "set (erase_key k xs) \<subseteq> set xs"
  by (auto simp: erase_key_def)

lemma distinct_erase_key: "distinct (map fst xs) \<Longrightarrow> distinct (map fst (erase_key k xs))"
  by (simp add: erase_key_def distinct_map_filter)

lemma snapshots_ok_added:
  "snapshots_ok w \<Longrightarrow> entity_type (ps_id p) = PlayerEntity \<Longrightarrow> snapshots_ok (snapshots_add_player p w)"
  "snapshots_ok w \<Longrightarrow> entity_type (ms_id m) = MonsterEntity \<Longrightarrow> snapshots_ok (snapshots_add_monster m w)"
  "snapshots_ok w \<Longrightarrow> entity_type (sp_id s) = SpawnerEntity \<Longrightarrow> snapshots_ok (snapshots_add_spawner s w)"
  by (auto simp: snapshots_ok_def snapshots_add_player_def snapshots_add_monster_def snapshots_add_spawner_def distinct_insert_new
      dest!: in_insert_new)

lemma snapshots_ok_removed: "snapshots_ok w \<Longrightarrow> snapshots_ok (snapshots_remove i w)"
  using erase_key_subset [of i "players w"] erase_key_subset [of i "monsters w"] erase_key_subset [of i "spawners w"]
  by (auto simp: snapshots_ok_def snapshots_remove_def distinct_erase_key split: entity_type.split)

lemma snapshots_add_simps [simp]:
  "world_grid (snapshots_add_player p w) = world_grid w" "notices (snapshots_add_player p w) = notices w"
  "delayed (snapshots_add_player p w) = delayed w"
  "world_grid (snapshots_add_monster m w) = world_grid w" "notices (snapshots_add_monster m w) = notices w"
  "delayed (snapshots_add_monster m w) = delayed w"
  "world_grid (snapshots_add_spawner s w) = world_grid w" "notices (snapshots_add_spawner s w) = notices w"
  "delayed (snapshots_add_spawner s w) = delayed w"
  "world_grid (snapshots_remove i w) = world_grid w" "notices (snapshots_remove i w) = notices w"
  "delayed (snapshots_remove i w) = delayed w"
  by (simp_all add: snapshots_add_player_def snapshots_add_monster_def snapshots_add_spawner_def snapshots_remove_def
      split: entity_type.split)

text \<open>A player that is spawned is not in the grid yet, and is only told of itself.\<close>

lemma player_added_ok:
  assumes w: "world_ok n w" and u: "unused used w" and i: "ps_id p \<notin> used" "entity_type (ps_id p) = PlayerEntity"
  shows "world_ok n (snapshots_add_player p w)" "unused (insert (ps_id p) used) (snapshots_add_player p w)"
    "\<not> active n (ps_id p) (snapshots_add_player p w)" "map_of (players (snapshots_add_player p w)) (ps_id p) = Some p"
proof -
  let ?w = "snapshots_add_player p w"
  have none: "find_position (ps_id p) w = None" using u i(1) by (simp add: unused_def)
  note pos = find_position_added(1) [OF i(2) none]
  show new: "map_of (players ?w) (ps_id p) = Some p"
    using none i(2) by (auto simp: snapshots_add_player_def insert_new_def find_position_def map_add_def)
  have here: "here e k ?w = here e k w" for e k by (simp add: here_def)
  have act: "active n e ?w = active n e w" for e by (simp add: active_def here)
  have no: "\<not> here (ps_id p) k w" if "k < n * n" for k using has_position_here [OF world_ok_grid [OF w] that] none by blast
  then have "\<not> active n (ps_id p) w" by (auto simp: active_def)
  then show out: "\<not> active n (ps_id p) ?w" by (simp add: act)
  have grid: "grid_ok n ?w"
    using grid_ok_unlisted [OF world_ok_grid [OF w] no] pos snapshots_ok_added(1) [OF grid_facts(2) [OF w] i(2)] by simp
  have "known j ?w = known j w" "dying j ?w = dying j w" "around n s ?w = around n s w" for j s
    by (simp_all add: known_def dying_def around_def here)
  moreover from this(3) have "sees n j ?w = sees n j w" if "j \<noteq> ps_id p" for j using that by (simp add: sees_def pos split: option.split)
  moreover have "known (ps_id p) w = {}" using u i(1) by (simp add: unused_def known_def)
  ultimately have "informed n j ?w" if "entity_type j = PlayerEntity" "find_position j ?w \<noteq> None" for j
    using w that out by (cases "j = ps_id p") (auto simp: informed_def act world_ok_def pos)
  moreover have "(j, ScDespawnMonster 1 [unwrap (ps_id p)]) \<notin> set (delayed w)" for j using u i(1) by (simp add: unused_def)
  then have "find_position e ?w = None" if "(j, ScDespawnMonster 1 [unwrap e]) \<in> set (delayed w)" for e j
    using w that by (cases "e = ps_id p") (fastforce simp: world_ok_def pos)+
  moreover have "active n e ?w" if "entity_type e \<noteq> PlayerEntity" "find_position e ?w \<noteq> None" for e
    using w that i(2) by (auto simp: world_ok_def act pos split: if_splits)
  ultimately show "world_ok n ?w" using w grid unfolding world_ok_def by fastforce
  show "unused (insert (ps_id p) used) ?w" using u by (auto simp: unused_def pos)
qed

text \<open>A monster or a spawner enters the grid together with its snapshot.\<close>

lemma other_added_ok:
  assumes w: "world_ok n w" and u: "unused used w" and i: "i \<notin> used" "entity_type i \<noteq> PlayerEntity"
    and add: "world_grid w1 = world_grid w" "notices w1 = notices w" "delayed w1 = delayed w" "snapshots_ok w1"
      "\<And>e. find_position e w1 = (if e = i then Some pos else find_position e w)"
    and b: "b = sector_of pos (world_grid w)"
    and l: "\<forall>x \<in> set l. find_position (fst x) w \<noteq> None"
      "\<And>j k. entity_type j = PlayerEntity \<Longrightarrow> fold learn (addressed j l) k =
        k \<union> (if visible i \<and> (\<exists>m < n * n. next_to n b m \<and> here j m w) then {unwrap i} else {})"
  shows "\<exists>w'. enter_sector i b (says l w1) = Inr w' \<and> world_ok n w' \<and> unused (insert i used) w'"
proof -
  have none: "find_position i w = None" "\<And>j. (j, ScDespawnMonster 1 [unwrap i]) \<notin> set (delayed w)" using u i(1) by (simp_all add: unused_def)
  have no: "\<not> here i k w" if "k < n * n" for k using has_position_here [OF world_ok_grid [OF w] that] none by blast
  then have out: "\<not> active n i w" by (auto simp: active_def)
  have here1: "here e k w1 = here e k w" for e k by (simp add: here_def add(1))
  have grid: "grid_ok n w1" by (rule grid_ok_unlisted [OF world_ok_grid [OF w] no add(1,4)]) (simp_all add: add(5))
  have bn: "b < n * n" using sector_of_less [OF grid_facts(3) [OF w]] b by simp
  obtain g where g: "enter_sector i b (says l w1) = Inr ((says l w1)\<lparr>world_grid := g\<rparr>)" "grid_ok n ((says l w1)\<lparr>world_grid := g\<rparr>)"
      "\<And>p. sector_of p g = sector_of p (world_grid (says l w1))"
      "\<And>e j. here e j ((says l w1)\<lparr>world_grid := g\<rparr>) \<longleftrightarrow> e = i \<and> j = b \<or> here e j (says l w1)"
    using enter_sector_eq [of n "says l w1" i pos b] grid no [OF bn] b by (auto simp: add here1)
  let ?w = "(says l w1)\<lparr>world_grid := g\<rparr>"
  have w': "find_position i ?w = Some pos" "sector_of pos (world_grid ?w) = b"
    "j \<noteq> i \<Longrightarrow> find_position j ?w = find_position j w" "sector_of p' (world_grid ?w) = sector_of p' (world_grid w)"
    "k < n * n \<Longrightarrow> here e k ?w \<longleftrightarrow> e = i \<and> k = b \<or> here e k w"
    "delayed ?w = delayed w" "grid_ok n ?w" "notices ?w = notices w @ l" for j p' e k
    using g(2,3,4) b by (simp_all add: add here1)
  have recv: "\<forall>x \<in> set l. find_position (fst x) ?w \<noteq> None" using l(1) by (auto simp: add(5))
  note enter = entered_world_ok [where i = i and w = w and b = b and w' = ?w and l = l and new = pos and n = n]
  have own: "entity_type i = PlayerEntity \<Longrightarrow> known i w = {}"
    "entity_type i = PlayerEntity \<Longrightarrow> fold learn (addressed i l) {} = unwrap ` around n b w" using i(2) by simp_all
  have "world_ok n ?w" by (rule enter(1)) (rule w bn out w' none(2) recv l(2) own | assumption)+
  moreover have "unused (insert i used) ?w" by (rule enter(2)) (rule w bn out w' none(2) recv l(2) own u | assumption)+
  ultimately show ?thesis using g(1) by blast
qed

subsection \<open>Removed snapshots\<close>

lemma each_tells_later:
  assumes "\<forall>i \<in> set is. find_controller i w \<noteq> None"
  shows "each (tell_later p) is w = Inr ((says (map (\<lambda>i. (i, p)) (filter (\<lambda>i. find_controller i w \<noteq> Some True) is)) w)
    \<lparr>delayed := delayed w @ map (\<lambda>i. (i, p)) (filter (\<lambda>i. find_controller i w = Some True) is)\<rparr>)"
  using assms
proof (induction "is" arbitrary: w)
  case Nil
  then show ?case by (simp add: says_def)
next
  case (Cons i "is")
  have same: "find_controller j (w\<lparr>delayed := d\<rparr>) = find_controller j w" for j d
    by (simp add: find_controller_def split: entity_type.split)
  show ?case
  proof (cases "find_controller i w = Some True")
    case True
    then show ?thesis using Cons.IH [of "w\<lparr>delayed := delayed w @ [(i, p)]\<rparr>"] Cons.prems
      by (simp add: tell_later_def same says_def)
  next
    case False
    then have "tell_later p i w = Inr (says [(i, p)] w)" using Cons.prems by (auto simp: tell_later_def sync_says)
    with False show ?thesis using Cons.IH [of "says [(i, p)] w"] Cons.prems by simp
  qed
qed

text \<open>The entity \<open>i\<close> leaves the grid; the list of entities that are told does not hold it any more.\<close>

lemma departed:
  assumes w: "world_ok n w" and pos: "find_position i w = Some pos" and s: "s = sector_of pos (world_grid w)"
  obtains g where "leave_sector i s w = Inr (w\<lparr>world_grid := g\<rparr>)" "grid_ok n (w\<lparr>world_grid := g\<rparr>)"
    "\<And>p. sector_of p g = sector_of p (world_grid w)"
    "\<And>e k. k < n * n \<Longrightarrow> here e k (w\<lparr>world_grid := g\<rparr>) \<longleftrightarrow> e \<noteq> i \<and> here e k w"
    "set (cells_entities (near n s) g) = {e. e \<noteq> i \<and> (\<exists>k < n * n. next_to n s k \<and> here e k w)}"
    "\<And>j. j \<noteq> i \<Longrightarrow> active n j w \<Longrightarrow> i \<in> sees n j w \<Longrightarrow> j \<in> set (cells_entities (near n s) g)"
proof -
  note grid = grid_facts [OF w]
  have sn: "s < n * n" using sector_of_less [OF grid(3)] s by simp
  have only: "k = s" if "k < n * n" "here i k w" for k using here_position [OF grid(1) that] pos s by (metis option.inject)
  obtain g where g: "sector_remove_entity i s (world_grid w) = Inr g" "grid_ok n (w\<lparr>world_grid := g\<rparr>)"
      "\<And>p. sector_of p g = sector_of p (world_grid w)"
      "\<And>e j. j < n * n \<Longrightarrow> here e j (w\<lparr>world_grid := g\<rparr>) \<longleftrightarrow> e \<noteq> i \<and> here e j w"
    using leave_sector_eq [OF grid(1) sn only] by blast
  have told: "set (cells_entities (near n s) g) = {e. e \<noteq> i \<and> (\<exists>k < n * n. next_to n s k \<and> here e k w)}"
    using set_near_entities [OF g(2), of s] g(4) by auto
  moreover have "j \<in> set (cells_entities (near n s) g)" if j: "j \<noteq> i" "active n j w" "i \<in> sees n j w" for j
  proof -
    obtain p where p: "find_position j w = Some p" "i \<in> around n (sector_of p (world_grid w)) w"
      using j(3) by (auto simp: sees_def split: option.splits)
    have "here j (sector_of p (world_grid w)) w" using active_at [OF grid(1) p(1)] j(2) by simp
    moreover have "next_to n (sector_of p (world_grid w)) s" using p(2) only by (auto simp: around_def)
    moreover have "sector_of p (world_grid w) < n * n" using sector_of_less [OF grid(3)] by simp
    ultimately show ?thesis using j(1) unfolding told next_to_sym [of n s] by blast
  qed
  ultimately show ?thesis using g by (intro that [of g]) (simp_all add: leave_sector_def)
qed

text \<open>It is forgotten by those who were told at once, and by the others when the delayed message comes.\<close>

lemma removed_steps_to:
  assumes w: "world_ok n w" and had: "find_position i w \<noteq> None"
    and g: "grid_ok n (w\<lparr>world_grid := g\<rparr>)" "\<And>p. sector_of p g = sector_of p (world_grid w)"
      "\<And>e k. k < n * n \<Longrightarrow> here e k (w\<lparr>world_grid := g\<rparr>) \<longleftrightarrow> e \<noteq> i \<and> here e k w"
    and w1: "world_grid w1 = g" "players w1 = players w" "monsters w1 = monsters w" "spawners w1 = spawners w"
      "notices w1 = notices w @ map (\<lambda>j. (j, p)) now @ q" "delayed w1 = delayed w @ map (\<lambda>j. (j, ScDespawnMonster 1 [unwrap i])) later"
    and q: "\<forall>x \<in> set q. quiet (snd x) \<and> find_position (fst x) w \<noteq> None" and p: "\<And>k. learn p k = k - {unwrap i}"
    and told: "\<forall>j \<in> set now. find_position j w \<noteq> None" "later \<noteq> [] \<Longrightarrow> entity_type i = MonsterEntity"
      "\<And>j. j \<noteq> i \<Longrightarrow> active n j w \<Longrightarrow> i \<in> sees n j w \<Longrightarrow> j \<in> set now \<union> set later"
  shows "steps_to n w (snapshots_remove i w1)"
proof -
  have pos: "find_position e w1 = find_position e w" for e by (simp add: find_position_def w1 split: entity_type.split)
  let ?w = "snapshots_remove i w1"
  have snaps: "snapshots_ok ?w"
    using grid_facts(2) [OF w] by (intro snapshots_ok_removed) (simp add: snapshots_ok_def w1)
  have here: "here e k ?w = here e k (w\<lparr>world_grid := g\<rparr>)" for e k by (simp add: here_def w1)
  have no: "\<not> here i k (w\<lparr>world_grid := g\<rparr>)" if "k < n * n" for k using g(3) [OF that] by simp
  have grid: "grid_ok n ?w"
    by (rule grid_ok_unlisted [OF g(1) no _ snaps]) (simp_all add: w1 pos find_position_removed)
  show ?thesis
  proof (rule left_world_ok [OF w had, where l = "map (\<lambda>j. (j, p)) now @ q" and later = later and now = "\<lambda>j. j \<in> set now"])
    show "\<forall>x \<in> set (map (\<lambda>j. (j, p)) now @ q). find_position (fst x) w \<noteq> None" using told(1) q by auto
    show "fold learn (addressed j (map (\<lambda>j. (j, p)) now @ q)) k = k - (if j \<in> set now then {unwrap i} else {})" for j k
      using learn_quiet [of q] q p by (simp add: learn_everyone)
  qed (use grid told(2,3) g(2,3) in \<open>auto simp: pos find_position_removed w1 here\<close>)
qed

text \<open>What those around the entity are told of the removal.\<close>

lemma departure_told:
  assumes w: "world_ok n w" and pos: "find_position i w = Some pos" and p: "\<And>k. learn p k = k - {unwrap i}"
  shows "\<exists>w'. sector_of_position pos (\<lambda>s ks w. and_then (leave_sector i s w) (\<lambda>w. and_then (broadcast_cells p ks None w) (\<lambda>w.
      Inr (snapshots_remove i w)))) w = Inr w' \<and> steps_to n w w'"
proof -
  define s where "s = sector_of pos (world_grid w)"
  obtain g where g: "leave_sector i s w = Inr (w\<lparr>world_grid := g\<rparr>)" "grid_ok n (w\<lparr>world_grid := g\<rparr>)"
    "\<And>p. sector_of p g = sector_of p (world_grid w)"
    "\<And>e k. k < n * n \<Longrightarrow> here e k (w\<lparr>world_grid := g\<rparr>) \<longleftrightarrow> e \<noteq> i \<and> here e k w"
    "set (cells_entities (near n s) g) = {e. e \<noteq> i \<and> (\<exists>k < n * n. next_to n s k \<and> here e k w)}"
    "\<And>j. j \<noteq> i \<Longrightarrow> active n j w \<Longrightarrow> i \<in> sees n j w \<Longrightarrow> j \<in> set (cells_entities (near n s) g)"
    using departed [OF w pos s_def] by blast
  let ?l = "map (\<lambda>j. (j, p)) (cells_entities (near n s) g)"
  have eq: "sector_of_position pos (\<lambda>s ks w. and_then (leave_sector i s w) (\<lambda>w. and_then (broadcast_cells p ks None w) (\<lambda>w.
      Inr (snapshots_remove i w)))) w = Inr (snapshots_remove i (says ?l (w\<lparr>world_grid := g\<rparr>)))"
    by (simp add: sector_of_position_eq [OF world_ok_grid [OF w]] s_def [symmetric] g(1) broadcast_cells_eq [OF g(2) near_cells])
  have "steps_to n w (snapshots_remove i (says ?l (w\<lparr>world_grid := g\<rparr>)))"
  proof (rule removed_steps_to [OF w _ g(2-4), where p = p and now = "cells_entities (near n s) g" and later = "[]" and q = "[]"])
    show "\<forall>j \<in> set (cells_entities (near n s) g). find_position j w \<noteq> None"
      using has_position_here [OF world_ok_grid [OF w]] by (auto simp: g(5) simp del: not_None_eq)
  qed (use pos p g(6) in simp_all)
  with eq show ?thesis by simp
qed

lemma player_despawn_ok:
  assumes "world_ok n w" "map_of (players w) i = Some p"
  shows "\<exists>w'. process_player_despawn i w = Inr w' \<and> steps_to n w w'"
  using departure_told [OF assms(1), of i "ps_position p" "build_remove_remote_player p"]
    player_position [OF grid_facts(2) [OF assms(1)] assms(2)] assms(2)
  by (simp add: process_player_despawn_def build_remove_remote_player_def)

lemma monster_despawn_ok:
  assumes "world_ok n w" "map_of (monsters w) i = Some m"
  shows "\<exists>w'. process_monster_despawn i w = Inr w' \<and> steps_to n w w'"
  using departure_told [OF assms(1), of i "ms_position m" "ScDespawnMonster 1 [unwrap i]"]
    monster_position [OF grid_facts(2) [OF assms(1)] assms(2)] assms(2)
  by (simp add: process_monster_despawn_def)

lemma monster_death_ok:
  assumes w: "world_ok n w" and m: "map_of (monsters w) i = Some m"
  shows "\<exists>w'. process_monster_death i ai spawner w = Inr w' \<and> steps_to n w w' \<and> (\<forall>e. e \<noteq> i \<longrightarrow> find_position e w' = find_position e w)"
proof -
  define s where "s = sector_of (ms_position m) (world_grid w)"
  note mo = monster_position [OF grid_facts(2) [OF w] m]
  let ?p = "ScDespawnMonster 1 [unwrap i]"
  obtain g where g: "leave_sector i s w = Inr (w\<lparr>world_grid := g\<rparr>)" "grid_ok n (w\<lparr>world_grid := g\<rparr>)"
    "\<And>p. sector_of p g = sector_of p (world_grid w)"
    "\<And>e k. k < n * n \<Longrightarrow> here e k (w\<lparr>world_grid := g\<rparr>) \<longleftrightarrow> e \<noteq> i \<and> here e k w"
    "set (cells_entities (near n s) g) = {e. e \<noteq> i \<and> (\<exists>k < n * n. next_to n s k \<and> here e k w)}"
    "\<And>j. j \<noteq> i \<Longrightarrow> active n j w \<Longrightarrow> i \<in> sees n j w \<Longrightarrow> j \<in> set (cells_entities (near n s) g)"
    using departed [OF w mo(3) s_def] by blast
  define es where "es = cells_entities (near n s) g"
  have known: "\<forall>e \<in> set es. find_position e w \<noteq> None"
    using has_position_here [OF world_ok_grid [OF w]] by (auto simp: es_def g(5) simp del: not_None_eq)
  define now where "now = filter (\<lambda>e. find_controller e w \<noteq> Some True) es"
  define later where "later = filter (\<lambda>e. find_controller e w = Some True) es"
  define w1 where "w1 = (says (map (\<lambda>e. (e, ?p)) now) (w\<lparr>world_grid := g\<rparr>))\<lparr>delayed := delayed w @ map (\<lambda>e. (e, ?p)) later\<rparr>"
  have told: "broadcast_delayed ?p (near n s) None (w\<lparr>world_grid := g\<rparr>) = Inr w1"
    using each_tells_later [of es "w\<lparr>world_grid := g\<rparr>" ?p] known
    by (simp add: broadcast_delayed_def es_def find_controller_iff now_def later_def w1_def)
  define q where "q = (case spawner of None \<Rightarrow> [] | Some j \<Rightarrow> if find_controller j w = None then [] else [(j, ScSpawnerMonsterDead)])"
  define w2 where "w2 = says q (if ai then w1\<lparr>ai_deleted := ai_deleted w1 @ [i]\<rparr> else w1)"
  have fc: "find_controller e (w1\<lparr>ai_deleted := a\<rparr>) = find_controller e w" "find_controller e w1 = find_controller e w" for e a
    by (simp_all add: w1_def says_def find_controller_def split: entity_type.split)
  have eq: "process_monster_death i ai spawner w = Inr (snapshots_remove i w2)"
    by (auto simp: process_monster_death_def m sector_of_position_eq [OF world_ok_grid [OF w]] s_def [symmetric] g(1) told fc q_def w2_def
        sync_says Let_def split: option.split)
  have w2: "world_grid w2 = g" "players w2 = players w" "monsters w2 = monsters w" "spawners w2 = spawners w"
    "notices w2 = notices w @ map (\<lambda>e. (e, ?p)) now @ q" "delayed w2 = delayed w @ map (\<lambda>e. (e, ?p)) later"
    by (simp_all add: w2_def w1_def says_def)
  have "steps_to n w (snapshots_remove i w2)"
  proof (rule removed_steps_to [OF w _ g(2-4) w2])
    show "\<forall>x \<in> set q. quiet (snd x) \<and> find_position (fst x) w \<noteq> None"
      by (auto simp: q_def quiet_def find_controller_iff split: option.splits)
    show "\<And>j. j \<noteq> i \<Longrightarrow> active n j w \<Longrightarrow> i \<in> sees n j w \<Longrightarrow> j \<in> set now \<union> set later"
      using g(6) by (auto simp: now_def later_def es_def)
  qed (use mo known in \<open>auto simp: now_def\<close>)
  moreover have "find_position e w2 = find_position e w" for e by (simp add: find_position_def w2 split: entity_type.split)
  ultimately show ?thesis by (simp add: eq find_position_removed)
qed

end
