(* ===== verification/InstanceTasks.thy ===== *)
theory InstanceTasks
  imports ItemTasks Presence
begin

text \<open>
  The tasks of a game instance, \<^verbatim>\<open>xr/server/game/instance/task/impl\<close>, as far as the strand of the instance runs them: their
  \<^verbatim>\<open>OnComplete\<close>, and \<^verbatim>\<open>Prepare\<close> of those that quit there. A task carries what its \<^verbatim>\<open>Execute\<close> left in it. The properties say
  that the players of an instance know of each other and of the monsters what they should, and when they do not.
\<close>

declare split_paired_All [simp del] split_paired_Ex [simp del]

subsection \<open>Tasks\<close>

text \<open>The parameters of an instance: conversions of numbers, its number and whether its map is a village.\<close>

record instance_config =
  to_float :: "rat \<Rightarrow> 32 word"
  to_double :: "rat \<Rightarrow> 64 word"
  zone_id :: "32 word"
  is_village :: bool

text \<open>
  The dead of an attack come with whether they had a controller of artificial intelligence and with their spawner;
  \<^verbatim>\<open>Moved\<close> and \<^verbatim>\<open>MonsterMove\<close> carry the numbers as read from the message or the component.
\<close>

datatype instance_task =
    PlayerSpawn int bool player_entity
  | PlayerActivate entity_id
  | PlayerDespawn entity_id
  | PlayerMove entity_id position "32 word"
  | PlayerStop entity_id position
  | PlayerSprint entity_id
  | PlayerRollDodge entity_id game_rotation
  | PlayerAttack entity_id "32 word" position rat
  | PlayerAttackEffectApply entity_id "(entity_id \<times> bool \<times> entity_id option) list" "(entity_id \<times> 32 word) list"
  | PlayerItemSwap entity_id swap_param swap_task bool
  | PlayerGlobalChat "32 word" "byte list"
  | PlayerLocalChat entity_id "byte list"
  | GMCommandRefused entity_id "byte list"
  | MonsterSpawn monster_snapshot
  | MonsterMove entity_id "(position \<times> 32 word) option"
  | MonsterAttack entity_id "32 word" "position option" rat rat
  | MonsterAttackEffect entity_id "32 word option" "(entity_id \<times> 32 word) list"
  | MonsterDespawn entity_id "entity_id option"
  | SpawnerInstall spawner_snapshot
  | DelayOver nat

definition player_spawn_complete :: "instance_config \<Rightarrow> int \<Rightarrow> bool \<Rightarrow> player_entity \<Rightarrow> world \<Rightarrow> fault + world" where
  "player_spawn_complete c now remote e w =
     (case player_snapshot_new (to_float c) now remote e of (s, e') \<Rightarrow>
        and_then
          (process_player_spawn (pn_id e) (fst (build_enter_game (to_float c) now e' (zone_id c))) (snapshots_add_player s w))
          (\<lambda>w. if is_village c then process_player_activate (to_float c) (ps_id s) w else Inr w))"

definition player_attack_effect_complete ::
  "entity_id \<Rightarrow> (entity_id \<times> bool \<times> entity_id option) list \<Rightarrow> (entity_id \<times> 32 word) list \<Rightarrow> world \<Rightarrow> fault + world" where
  "player_attack_effect_complete i dead alive w =
     and_then (each (\<lambda>(j, ai, spawner). process_monster_death j ai spawner) dead w) (process_player_attack_effect i alive)"

text \<open>The message \<^verbatim>\<open>_sync\<close> as \<^verbatim>\<open>Execute\<close> left it; the slots are set only when the move was done.\<close>

definition item_default :: game_player_inventory_item where
  "item_default = \<lparr>it_slot = 0, it_id = 0, it_count = 0, it_attack = 0, it_defence = 0, it_str = 0, it_dex = 0, it_intell = 0\<rparr>"

definition swap_item_part :: "bool \<Rightarrow> int \<Rightarrow> inventory_item option \<Rightarrow> game_player_inventory_item" where
  "swap_item_part moved pos it =
     (let p = (case it of None \<Rightarrow> item_default | Some it \<Rightarrow> build_inventory_item it)
      in if moved then p\<lparr>it_slot := word_of_int pos\<rparr> else p)"

definition swap_result :: "swap_param \<Rightarrow> swap_task \<Rightarrow> bool \<Rightarrow> game_sc" where
  "swap_result p t moved =
     ScNotifySwapItemResult (sync_srcEquipment t) (sync_srcItem t \<noteq> None) (swap_item_part moved (srcPosition p) (sync_srcItem t))
       (sync_destEquipment t) (sync_destItem t \<noteq> None) (swap_item_part moved (destPosition p) (sync_destItem t))"

definition player_item_swap_complete :: "entity_id \<Rightarrow> swap_param \<Rightarrow> swap_task \<Rightarrow> bool \<Rightarrow> world \<Rightarrow> fault + world" where
  "player_item_swap_complete i p t moved w =
     (case map_of (players w) i of
        None \<Rightarrow> Inl NullDeref
      | Some _ \<Rightarrow>
          let w = sync_client i (swap_result p t moved) w
          in case swap_announced t of None \<Rightarrow> Inr w | Some (pos, it) \<Rightarrow> process_player_equip_item_change i pos it w)"

definition chatting_local :: "32 word" where "chatting_local = 1"

text \<open>\<^verbatim>\<open>"[{}] : {}"\<close>\<close>

definition local_chat_message :: "byte list \<Rightarrow> byte list \<Rightarrow> byte list" where
  "local_chat_message name msg = 91 # name @ [93, 32, 58, 32] @ msg"

definition player_local_chat :: "entity_id \<Rightarrow> byte list \<Rightarrow> world \<Rightarrow> fault + world" where
  "player_local_chat i msg w =
     (case map_of (players w) i of
        None \<Rightarrow> Inl NullDeref
      | Some p \<Rightarrow>
          broadcast_around (ScNotifyChattingMessage chatting_local (local_chat_message (pb_name (ps_base p)) msg)) p None w)"

definition monster_attack_effect_complete ::
  "entity_id \<Rightarrow> 32 word option \<Rightarrow> (entity_id \<times> 32 word) list \<Rightarrow> world \<Rightarrow> fault + world" where
  "monster_attack_effect_complete i attackId results w =
     (case attackId of
        None \<Rightarrow> Inr w
      | Some k \<Rightarrow> each (\<lambda>(j, hp). process_monster_attack_effect i k j hp) results w)"

definition monster_despawn_complete :: "entity_id \<Rightarrow> entity_id option \<Rightarrow> world \<Rightarrow> fault + world" where
  "monster_despawn_complete i spawner w =
     and_then (process_monster_despawn i w) (\<lambda>w.
       Inr (case spawner of
              None \<Rightarrow> w
            | Some j \<Rightarrow> (case find_controller j w of None \<Rightarrow> w | Some _ \<Rightarrow> sync_client j ScSpawnerMonsterDead w)))"

fun run_on_complete :: "instance_config \<Rightarrow> instance_task \<Rightarrow> world \<Rightarrow> fault + world" where
  "run_on_complete c (PlayerSpawn now remote e) w = player_spawn_complete c now remote e w"
| "run_on_complete c (PlayerActivate i) w = process_player_activate (to_float c) i w"
| "run_on_complete c (PlayerDespawn i) w = process_player_despawn i w"
| "run_on_complete c (PlayerMove i pos yaw) w = process_movement (to_float c) i pos yaw w"
| "run_on_complete c (PlayerStop i pos) w = process_stop (to_float c) i pos w"
| "run_on_complete c (PlayerSprint i) w = process_sprint i w"
| "run_on_complete c (PlayerRollDodge i rot) w = process_roll_dodge i rot w"
| "run_on_complete c (PlayerAttack i skill pos yaw) w = process_player_attack (to_float c) i skill pos yaw w"
| "run_on_complete c (PlayerAttackEffectApply i dead alive) w = player_attack_effect_complete i dead alive w"
| "run_on_complete c (PlayerItemSwap i p t moved) w = player_item_swap_complete i p t moved w"
| "run_on_complete c (PlayerGlobalChat ty msg) w = Inr (broadcast_players (ScNotifyChattingMessage ty msg) None w)"
| "run_on_complete c (PlayerLocalChat i msg) w = player_local_chat i msg w"
| "run_on_complete c (GMCommandRefused i msg) w = Inr (display_system_message i msg w)"
| "run_on_complete c (MonsterSpawn m) w = process_monster_spawn (to_float c) m (snapshots_add_monster m w)"
| "run_on_complete c (MonsterMove i m) w =
     (case m of None \<Rightarrow> Inr w | Some (pos, yaw) \<Rightarrow> process_monster_move (to_float c) i pos yaw w)"
| "run_on_complete c (MonsterAttack i k dest yaw duration) w =
     process_monster_attack (to_float c) (to_double c) i k dest (0, yaw, 0) duration w"
| "run_on_complete c (MonsterAttackEffect i k results) w = monster_attack_effect_complete i k results w"
| "run_on_complete c (MonsterDespawn i spawner) w = monster_despawn_complete i spawner w"
| "run_on_complete c (SpawnerInstall s) w = process_spawner_add s (snapshots_add_spawner s w)"
| "run_on_complete c (DelayOver k) w = Inr (deliver_delayed k w)"

subsection \<open>When a task may complete\<close>

text \<open>
  The scheduler and the ids it gives out see to it that the entities a task is about exist, are reserved for it, and
  that new ones are new; an attack has each monster it hits once. That a player is activated exactly once, and moves, stops
  and attacks only when it is, is left to the clients. The server checks none of it.
\<close>

definition exists_monster :: "world \<Rightarrow> entity_id \<Rightarrow> bool" where
  "exists_monster w i \<longleftrightarrow> map_of (monsters w) i \<noteq> None"

definition exists_player :: "world \<Rightarrow> entity_id \<Rightarrow> bool" where
  "exists_player w i \<longleftrightarrow> map_of (players w) i \<noteq> None"

fun may :: "nat \<Rightarrow> entity_id set \<Rightarrow> instance_task \<Rightarrow> world \<Rightarrow> bool" where
  "may n used (PlayerSpawn now remote e) w \<longleftrightarrow> pn_id e \<notin> used \<and> entity_type (pn_id e) = PlayerEntity"
| "may n used (PlayerActivate i) w \<longleftrightarrow> exists_player w i \<and> \<not> active n i w"
| "may n used (PlayerDespawn i) w \<longleftrightarrow> exists_player w i"
| "may n used (PlayerMove i pos yaw) w \<longleftrightarrow> (exists_player w i \<longrightarrow> active n i w)"
| "may n used (PlayerStop i pos) w \<longleftrightarrow> (exists_player w i \<longrightarrow> active n i w)"
| "may n used (PlayerSprint i) w \<longleftrightarrow> exists_player w i"
| "may n used (PlayerRollDodge i rot) w \<longleftrightarrow> exists_player w i"
| "may n used (PlayerAttack i skill pos yaw) w \<longleftrightarrow> exists_player w i \<and> active n i w"
| "may n used (PlayerAttackEffectApply i dead alive) w \<longleftrightarrow>
     distinct (map fst dead @ map fst alive) \<and> (\<forall>j \<in> fst ` set dead \<union> fst ` set alive. exists_monster w j)"
| "may n used (PlayerItemSwap i p t moved) w \<longleftrightarrow> exists_player w i"
| "may n used (PlayerGlobalChat ty msg) w \<longleftrightarrow> True"
| "may n used (PlayerLocalChat i msg) w \<longleftrightarrow> exists_player w i"
| "may n used (GMCommandRefused i msg) w \<longleftrightarrow> True"
| "may n used (MonsterSpawn m) w \<longleftrightarrow> ms_id m \<notin> used \<and> entity_type (ms_id m) = MonsterEntity"
| "may n used (MonsterMove i m) w \<longleftrightarrow> exists_monster w i"
| "may n used (MonsterAttack i k dest yaw duration) w \<longleftrightarrow> exists_monster w i"
| "may n used (MonsterAttackEffect i k results) w \<longleftrightarrow> (\<forall>j \<in> fst ` set results. exists_player w j)"
| "may n used (MonsterDespawn i spawner) w \<longleftrightarrow> exists_monster w i"
| "may n used (SpawnerInstall s) w \<longleftrightarrow> sp_id s \<notin> used \<and> entity_type (sp_id s) = SpawnerEntity"
| "may n used (DelayOver k) w \<longleftrightarrow> k < length (delayed w)"

text \<open>A swap that remembers a position of the equipment which the array of the snapshot does not have.\<close>

fun past_equipment :: "instance_task \<Rightarrow> world \<Rightarrow> bool" where
  "past_equipment (PlayerItemSwap i p t moved) w \<longleftrightarrow>
     (case (map_of (players w) i, equip_position t) of
        (Some q, Some pos) \<Rightarrow> pos < 0 \<or> int (length (ps_equipments q)) \<le> pos
      | _ \<Rightarrow> False)"
| "past_equipment _ w \<longleftrightarrow> False"

fun new_ids :: "instance_task \<Rightarrow> entity_id set" where
  "new_ids (PlayerSpawn now remote e) = {pn_id e}"
| "new_ids (MonsterSpawn m) = {ms_id m}"
| "new_ids (SpawnerInstall s) = {sp_id s}"
| "new_ids _ = {}"

definition empty_world :: "spatial_container \<Rightarrow> world" where
  "empty_world g = \<lparr>world_grid = g, players = [], monsters = [], spawners = [], notices = [], delayed = [], ai_deleted = []\<rparr>"

inductive instance_reach :: "instance_config \<Rightarrow> int \<Rightarrow> int \<Rightarrow> int \<Rightarrow> entity_id set \<Rightarrow> world \<Rightarrow> bool" for c width height len where
  instance_start: "container_new width height len = Inr g \<Longrightarrow> instance_reach c width height len {} (empty_world g)"
| instance_step: "instance_reach c width height len used w \<Longrightarrow> may (nat (width div len + 1)) used t w \<Longrightarrow> run_on_complete c t w = Inr w'
    \<Longrightarrow> instance_reach c width height len (used \<union> new_ids t) w'"

subsection \<open>Every task that may complete does\<close>

definition completes :: "nat \<Rightarrow> entity_id set \<Rightarrow> entity_id set \<Rightarrow> (fault + world) \<Rightarrow> bool" where
  "completes n used new r \<longleftrightarrow> (\<exists>w'. r = Inr w' \<and> world_ok n w' \<and> unused (used \<union> new) w')"

lemma completes_steps: "\<exists>w'. r = Inr w' \<and> steps_to n w w' \<Longrightarrow> unused used w \<Longrightarrow> completes n used {} r"
  by (auto simp: completes_def steps_to_def)

lemma exists_player_position:
  assumes "exists_player w i" "world_ok n w"
  obtains p where "map_of (players w) i = Some p" "find_controller i w \<noteq> None"
proof -
  obtain p where p: "map_of (players w) i = Some p" using assms(1) by (auto simp: exists_player_def)
  then show ?thesis using player_position [OF grid_facts(2) [OF assms(2)] p] by (intro that [OF p]) (simp add: find_controller_iff)
qed

lemma exists_monster_position:
  assumes "world_ok n w"
  shows "exists_monster w i \<longleftrightarrow> find_position i w \<noteq> None \<and> entity_type i = MonsterEntity"
  using monster_position [OF grid_facts(2) [OF assms]] by (auto simp: exists_monster_def find_position_def)

lemma spawn_completes:
  assumes w: "world_ok n w" "unused used w" and e: "pn_id e \<notin> used" "entity_type (pn_id e) = PlayerEntity"
  shows "completes n used {pn_id e} (player_spawn_complete c now remote e w)"
proof -
  obtain s e' where s: "player_snapshot_new (to_float c) now remote e = (s, e')" "ps_id s = pn_id e"
    by (cases "player_snapshot_new (to_float c) now remote e") (auto simp: player_snapshot_new_def split: prod.splits)
  let ?w = "snapshots_add_player s w"
  obtain z p where packet: "fst (build_enter_game (to_float c) now e' (zone_id c)) = ScEnterGame z 0 [] 0 [] p"
    by (cases "build_player (to_float c) now e'") (simp add: build_enter_game_def)
  have add: "world_ok n ?w" "unused (insert (pn_id e) used) ?w" "\<not> active n (pn_id e) ?w" "map_of (players ?w) (pn_id e) = Some s"
    using player_added_ok [OF w, of s] e s(2) by simp_all
  have "find_controller (pn_id e) ?w \<noteq> None" using add(4) e(2) by (simp add: find_controller_def)
  then have one: "steps_to n ?w (sync_client (pn_id e) (ScEnterGame z 0 [] 0 [] p) ?w)"
    by (intro one_notified [OF add(1)]) (simp_all add: quiet_def)
  let ?w1 = "sync_client (pn_id e) (ScEnterGame z 0 [] 0 [] p) ?w"
  have "\<exists>w'. process_player_activate (to_float c) (pn_id e) ?w1 = Inr w' \<and> steps_to n ?w1 w'"
    using activate_ok [OF steps_to_ok [OF one], of "pn_id e" s] add(3,4) by (auto simp: sync_client_def active_def here_def)
  with one have "\<exists>w'. player_spawn_complete c now remote e w = Inr w' \<and> steps_to n ?w w'"
    by (auto simp: player_spawn_complete_def s packet process_player_spawn_def add(4) intro: steps_to_trans)
  then show ?thesis using add(2) by (auto simp: completes_def steps_to_def)
qed

lemma death_list_ok:
  assumes "world_ok n w" "\<forall>j \<in> fst ` set dead. exists_monster w j" "distinct (map fst dead)"
  shows "\<exists>w'. each (\<lambda>(j, ai, spawner). process_monster_death j ai spawner) dead w = Inr w' \<and> steps_to n w w'
    \<and> (\<forall>e. e \<notin> fst ` set dead \<longrightarrow> find_position e w' = find_position e w)"
  using assms
proof (induction dead arbitrary: w)
  case Nil
  then show ?case by (simp add: steps_to_refl)
next
  case (Cons d ds)
  obtain j ai sp where d: "d = (j, ai, sp)" by (cases d)
  obtain m where "map_of (monsters w) j = Some m" using Cons.prems(2) by (auto simp: d exists_monster_def)
  then obtain w1 where w1: "process_monster_death j ai sp w = Inr w1" "steps_to n w w1"
      "\<forall>e. e \<noteq> j \<longrightarrow> find_position e w1 = find_position e w"
    using monster_death_ok [OF Cons.prems(1)] by blast
  have "\<forall>i \<in> fst ` set ds. exists_monster w1 i"
  proof
    fix i assume i: "i \<in> fst ` set ds"
    then have "i \<noteq> j" using Cons.prems(3) by (auto simp: d)
    moreover have "exists_monster w i" using Cons.prems(2) i by auto
    ultimately show "exists_monster w1 i"
      using w1(3) exists_monster_position [OF Cons.prems(1)] exists_monster_position [OF steps_to_ok [OF w1(2)]] by simp
  qed
  with Cons.IH [OF steps_to_ok [OF w1(2)]] Cons.prems(3) obtain w2 where
    "each (\<lambda>(j, ai, spawner). process_monster_death j ai spawner) ds w1 = Inr w2" "steps_to n w1 w2"
    "\<forall>e. e \<notin> fst ` set ds \<longrightarrow> find_position e w2 = find_position e w1" by auto
  with w1 show ?case by (auto simp: d intro: steps_to_trans)
qed

lemma attack_effect_completes:
  assumes w: "world_ok n w" and d: "distinct (map fst dead @ map fst alive)" "\<forall>j \<in> fst ` set dead \<union> fst ` set alive. exists_monster w j"
  shows "\<exists>w'. player_attack_effect_complete i dead alive w = Inr w' \<and> steps_to n w w'"
proof -
  obtain w1 where w1: "each (\<lambda>(j, ai, spawner). process_monster_death j ai spawner) dead w = Inr w1" "steps_to n w w1"
      "\<forall>e. e \<notin> fst ` set dead \<longrightarrow> find_position e w1 = find_position e w"
    using death_list_ok [OF w, of dead] d by auto
  have "\<forall>(j, hp) \<in> set alive. find_position j w1 \<noteq> None \<and> entity_type j = MonsterEntity"
  proof (clarsimp simp del: not_None_eq)
    fix j hp assume j: "(j, hp) \<in> set alive"
    then have "j \<in> fst ` set alive" by force
    moreover from this have "j \<notin> fst ` set dead" using d(1) by auto
    ultimately show "find_position j w1 \<noteq> None \<and> entity_type j = MonsterEntity"
      using d(2) w1(3) exists_monster_position [OF w] by simp
  qed
  with attack_effect_ok [OF steps_to_ok [OF w1(2)], of alive i] w1 show ?thesis
    by (auto simp: player_attack_effect_complete_def intro: steps_to_trans)
qed

lemma monster_attack_effects_ok:
  assumes "world_ok n w" "\<forall>j \<in> fst ` set results. exists_player w j"
  shows "\<exists>w'. each (\<lambda>(j, hp). process_monster_attack_effect i k j hp) results w = Inr w' \<and> steps_to n w w'"
  using assms
proof (induction results arbitrary: w)
  case Nil
  then show ?case by (simp add: steps_to_refl)
next
  case (Cons r rs)
  obtain j hp where r: "r = (j, hp)" by (cases r)
  obtain w1 where w1: "process_monster_attack_effect i k j hp w = Inr w1" "steps_to n w w1" "players w1 = players w"
    using sprint_ok(3) [OF Cons.prems(1), of j i k hp] Cons.prems(2) by (auto simp: r exists_player_def)
  moreover have "\<forall>j \<in> fst ` set rs. exists_player w1 j" using Cons.prems(2) w1(3) by (simp add: exists_player_def)
  ultimately show ?case using Cons.IH [OF steps_to_ok [OF w1(2)]] by (auto simp: r intro: steps_to_trans)
qed

lemma swap_completes:
  assumes w: "world_ok n w" and i: "exists_player w i" and b: "\<not> past_equipment (PlayerItemSwap i p t moved) w"
  shows "\<exists>w'. player_item_swap_complete i p t moved w = Inr w' \<and> steps_to n w w'"
proof -
  obtain q where q: "map_of (players w) i = Some q" using i by (auto simp: exists_player_def)
  let ?w = "sync_client i (swap_result p t moved) w"
  have "find_controller i w \<noteq> None"
    using q player_position(3) [OF grid_facts(2) [OF w] q] by (simp add: find_controller_iff)
  then have one: "steps_to n w ?w" by (intro one_notified [OF w]) (simp_all add: swap_result_def quiet_def)
  have same: "map_of (players ?w) i = Some q" by (simp add: sync_client_def q)
  show ?thesis
  proof (cases "equip_position t")
    case None
    then show ?thesis using one q by (simp add: player_item_swap_complete_def Let_def swap_announced_def)
  next
    case (Some pos)
    then have "0 \<le> pos" "pos < int (length (ps_equipments q))" using b q by simp_all
    from equip_ok [OF steps_to_ok [OF one] same this] one Some q show ?thesis
      by (auto simp: player_item_swap_complete_def Let_def swap_announced_def intro: steps_to_trans)
  qed
qed

lemma swap_past_equipment:
  assumes "past_equipment t w"
  shows "run_on_complete c t w = Inl OutOfBounds"
proof (cases t)
  case (PlayerItemSwap i p st moved)
  with assms obtain q pos where "map_of (players w) i = Some q" "equip_position st = Some pos"
      "pos < 0 \<or> int (length (ps_equipments q)) \<le> pos"
    by (auto split: option.splits)
  then show ?thesis
    by (simp add: PlayerItemSwap player_item_swap_complete_def swap_announced_def process_player_equip_item_change_def
        sync_client_def)
qed (use assms in simp_all)

lemma local_chat_completes:
  assumes w: "world_ok n w" and i: "exists_player w i"
  shows "\<exists>w'. player_local_chat i msg w = Inr w' \<and> steps_to n w w'"
proof -
  obtain q where "map_of (players w) i = Some q" using i by (auto simp: exists_player_def)
  then show ?thesis
    using said_around [OF w, of "ScNotifyChattingMessage chatting_local (local_chat_message (pb_name (ps_base q)) msg)" "ps_position q" None]
    by (auto simp: player_local_chat_def broadcast_around_def quiet_def)
qed

lemma monster_despawn_completes:
  assumes w: "world_ok n w" and i: "exists_monster w i"
  shows "\<exists>w'. monster_despawn_complete i spawner w = Inr w' \<and> steps_to n w w'"
proof -
  obtain m where "map_of (monsters w) i = Some m" using i by (auto simp: exists_monster_def)
  then obtain w1 where w1: "process_monster_despawn i w = Inr w1" "steps_to n w w1" using monster_despawn_ok [OF w] by blast
  have "steps_to n w1 (sync_client j ScSpawnerMonsterDead w1)" if "find_controller j w1 \<noteq> None" for j
    by (rule one_notified [OF steps_to_ok [OF w1(2)] _ that]) (simp add: quiet_def)
  with w1 show ?thesis
    by (auto simp: monster_despawn_complete_def intro: steps_to_trans split: option.split)
qed

lemma monster_spawn_completes:
  assumes w: "world_ok n w" "unused used w" and m: "ms_id m \<notin> used" "entity_type (ms_id m) = MonsterEntity"
  shows "completes n used {ms_id m} (process_monster_spawn flt m (snapshots_add_monster m w))"
proof -
  let ?w = "snapshots_add_monster m w" and ?b = "sector_of (ms_position m) (world_grid w)"
  have none: "find_position (ms_id m) w = None" using w(2) m(1) by (simp add: unused_def)
  note pos = find_position_added(2) [OF m(2) none]
  let ?es = "cells_entities (near n ?b) (world_grid w)"
  let ?l = "map (\<lambda>i. (i, ScSpawnMonster 1 [build_monster flt m])) ?es"
  have es: "set ?es = {e. \<exists>k < n * n. next_to n ?b k \<and> here e k w}" by (rule set_near_entities [OF world_ok_grid [OF w(1)]])
  have known: "find_position e w \<noteq> None" if "e \<in> set ?es" for e
    using that has_position_here [OF world_ok_grid [OF w(1)]] unfolding es by blast
  have grid: "grid_ok n ?w"
    using grid_ok_unlisted [OF world_ok_grid [OF w(1)], of "ms_id m" ?w] pos snapshots_ok_added(2) [OF grid_facts(2) [OF w(1)] m(2)]
      has_position_here [OF world_ok_grid [OF w(1)]] none by fastforce
  have "process_monster_spawn flt m ?w = enter_sector (ms_id m) ?b (says ?l ?w)"
    by (simp add: process_monster_spawn_def sector_of_position_eq [OF grid] broadcast_cells_eq [OF grid near_cells])
  moreover have "\<exists>w'. enter_sector (ms_id m) ?b (says ?l ?w) = Inr w' \<and> world_ok n w' \<and> unused (insert (ms_id m) used) w'"
  proof (rule other_added_ok [OF w m(1) _ _ _ _ snapshots_ok_added(2) [OF grid_facts(2) [OF w(1)] m(2)] pos refl])
    show "\<forall>x \<in> set ?l. find_position (fst x) w \<noteq> None" using known by auto
    show "fold learn (addressed j ?l) k = k \<union> (if visible (ms_id m) \<and> (\<exists>m < n * n. next_to n ?b m \<and> here j m w) then {unwrap (ms_id m)} else {})"
      for j k by (auto simp: learn_everyone es build_monster_def visible_def m(2))
  qed (simp_all add: m(2))
  ultimately show ?thesis by (simp add: completes_def)
qed

lemma spawner_install_completes:
  assumes w: "world_ok n w" "unused used w" and s: "sp_id s \<notin> used" "entity_type (sp_id s) = SpawnerEntity"
  shows "completes n used {sp_id s} (process_spawner_add s (snapshots_add_spawner s w))"
proof -
  let ?w = "snapshots_add_spawner s w" and ?b = "sector_of (sp_position s) (world_grid w)"
  have none: "find_position (sp_id s) w = None" using w(2) s(1) by (simp add: unused_def)
  note pos = find_position_added(3) [OF s(2) none]
  have grid: "grid_ok n ?w"
    using grid_ok_unlisted [OF world_ok_grid [OF w(1)], of "sp_id s" ?w] pos snapshots_ok_added(3) [OF grid_facts(2) [OF w(1)] s(2)]
      has_position_here [OF world_ok_grid [OF w(1)]] none by fastforce
  have "\<exists>w'. enter_sector (sp_id s) ?b (says [] ?w) = Inr w' \<and> world_ok n w' \<and> unused (insert (sp_id s) used) w'"
    by (rule other_added_ok [OF w s(1) _ _ _ _ snapshots_ok_added(3) [OF grid_facts(2) [OF w(1)] s(2)] pos refl])
      (simp_all add: s(2) visible_def)
  then show ?thesis by (simp add: completes_def process_spawner_add_def sector_of_position_eq [OF grid])
qed

lemma task_completes:
  assumes w: "world_ok n w" "unused used w" and m: "may n used t w" and b: "\<not> past_equipment t w"
  shows "completes n used (new_ids t) (run_on_complete c t w)"
proof (cases t)
  case (PlayerSpawn now remote e)
  then show ?thesis using spawn_completes [OF w] m by simp
next
  case (PlayerActivate i)
  then show ?thesis using m activate_ok [OF w(1)] w(2)
    by (auto simp: exists_player_def intro!: completes_steps [where w = w]) blast
next
  case (PlayerDespawn i)
  then show ?thesis using m player_despawn_ok [OF w(1)] w(2)
    by (auto simp: exists_player_def intro!: completes_steps [where w = w])
next
  case (PlayerMove i pos yaw)
  then show ?thesis using m movement_ok [OF w(1), where i = i and pos = pos and yaw = yaw] w(2)
    by (simp add: exists_player_def completes_steps [where w = w])
next
  case (PlayerStop i pos)
  then show ?thesis using m stop_ok [OF w(1), where i = i and pos = pos] w(2)
    by (simp add: exists_player_def completes_steps [where w = w])
next
  case (PlayerSprint i)
  then show ?thesis using m sprint_ok(1) [OF w(1)] w(2)
    by (auto simp: exists_player_def intro!: completes_steps [where w = w])
next
  case (PlayerRollDodge i rot)
  then show ?thesis using m sprint_ok(2) [OF w(1)] w(2)
    by (auto simp: exists_player_def intro!: completes_steps [where w = w])
next
  case (PlayerAttack i k pos yaw)
  then show ?thesis using m attack_ok [OF w(1), where i = i and pos = pos] w(2)
    by (auto simp: exists_player_def intro!: completes_steps [where w = w])
next
  case (PlayerAttackEffectApply i dead alive)
  then show ?thesis using m attack_effect_completes [OF w(1), of dead alive i] w(2)
    by (auto intro!: completes_steps [where w = w])
next
  case (PlayerItemSwap i p t' moved)
  then show ?thesis using m b swap_completes [OF w(1), of i p t' moved] w(2)
    by (auto intro!: completes_steps [where w = w])
next
  case (PlayerGlobalChat ty msg)
  then show ?thesis using quiet_players [OF w(1), of "ScNotifyChattingMessage ty msg" None] w(2)
    by (auto simp: quiet_def intro!: completes_steps [where w = w])
next
  case (PlayerLocalChat i msg)
  then show ?thesis using m local_chat_completes [OF w(1)] w(2) by (auto intro!: completes_steps [where w = w])
next
  case (GMCommandRefused i msg)
  have "steps_to n w (display_system_message i msg w)"
    using one_notified [OF w(1), of "ScNotifyChattingMessage 1 msg" i] steps_to_refl [OF w(1)]
    by (simp add: display_system_message_def quiet_def split: option.split)
  with GMCommandRefused show ?thesis using w(2) by (auto intro!: completes_steps [where w = w])
next
  case (MonsterSpawn m')
  then show ?thesis using monster_spawn_completes [OF w] m by simp
next
  case (MonsterMove i m')
  then show ?thesis using m w(2) monster_move_ok [OF w(1), where i = i and pos = "fst (the m')"] steps_to_refl [OF w(1)]
    by (cases m') (auto simp: exists_monster_def intro!: completes_steps [where w = w])
next
  case (MonsterAttack i k dest yaw duration)
  then show ?thesis using m monster_attack_ok [OF w(1), of i] w(2)
    by (auto simp: exists_monster_def intro!: completes_steps [where w = w])
next
  case (MonsterAttackEffect i k results)
  then show ?thesis using m monster_attack_effects_ok [OF w(1), of results i] w(2) steps_to_refl [OF w(1)]
    by (auto simp: monster_attack_effect_complete_def intro!: completes_steps [where w = w] split: option.split)
next
  case (MonsterDespawn i spawner)
  then show ?thesis using m monster_despawn_completes [OF w(1)] w(2) by (auto intro!: completes_steps [where w = w])
next
  case (SpawnerInstall s)
  then show ?thesis using spawner_install_completes [OF w] m by simp
next
  case (DelayOver k)
  then show ?thesis using m delivered_steps_to [OF w(1)] w(2) by (auto intro!: completes_steps [where w = w])
qed

end
