(* ===== verification/InstanceProperties.thy ===== *)
theory InstanceProperties
  imports InstanceTasks
begin

text \<open>
  What is true of a game instance as long as its tasks are about entities that exist and players are activated once and
  before they act, whatever tasks these are and in whatever order: they complete, but for one, and the players know who is
  around them. Two things that clients can do and the server does not check: a second activation breaks this, and a
  swap of an item at a position that is none writes out of bounds.
\<close>

subsection \<open>What is true of an instance at all times\<close>

text \<open>The areas of the game are square up to the length of a cell.\<close>

definition good_area :: "int \<Rightarrow> int \<Rightarrow> int \<Rightarrow> bool" where
  "good_area width height len \<longleftrightarrow> 0 < len \<and> 0 \<le> width \<and> 0 \<le> height \<and> width div len = height div len"

lemma empty_world_ok:
  assumes "square_grid n g" "\<forall>k < n * n. \<forall>t. cell_entities (cells g ! k) t = []"
  shows "world_ok n (empty_world g)" "unused {} (empty_world g)"
proof -
  have none: "find_position e (empty_world g) = None" for e
    by (simp add: empty_world_def find_position_def split: entity_type.split)
  have "grid_ok n (empty_world g)"
    using assms by (simp add: grid_ok_def empty_world_def snapshots_ok_def listed_def)
  then show "world_ok n (empty_world g)" by (simp add: world_ok_def none) (simp add: empty_world_def)
  show "unused {} (empty_world g)" by (simp add: unused_def none) (simp add: empty_world_def)
qed

lemma instance_reach_ok:
  assumes "instance_reach c width height len used w" "good_area width height len"
  shows "world_ok (nat (width div len + 1)) w" "unused used w"
proof -
  let ?n = "nat (width div len + 1)"
  have "world_ok ?n w \<and> unused used w" using assms(1)
  proof induction
    case (instance_start g)
    obtain g' where "container_new width height len = Inr g'" "square_grid ?n g'"
        "\<forall>k < ?n * ?n. \<forall>t. cell_entities (cells g' ! k) t = []"
      using square_grid_new [of len width height ?n] assms(2) unfolding good_area_def by blast
    with instance_start empty_world_ok show ?case by simp
  next
    case (instance_step used w t w')
    then show ?case using task_completes [of ?n w used t c] swap_past_equipment [of t w c] by (auto simp: completes_def)
  qed
  then show "world_ok ?n w" "unused used w" by simp_all
qed

text \<open>
  C12: Every task of a game instance completes, without a null controller and within the bounds of all arrays, in every
  state that such tasks lead to, with one exception: a swap of items that remembers a position which is none of an
  equipment, refused or not, always faults there. The tasks (\<open>may\<close>) are about players and monsters that exist and bring
  entities with new ids, no attack hits a monster twice, no player is activated twice, and only an active one moves,
  stops or attacks.
\<close>

theorem allowed_tasks_complete:
  assumes "instance_reach c width height len used w" "good_area width height len" "may (nat (width div len + 1)) used t w"
  shows "if past_equipment t w then run_on_complete c t w = Inl OutOfBounds else \<exists>w'. run_on_complete c t w = Inr w'"
  using task_completes [OF instance_reach_ok [OF assms(1,2)] assms(3), of c] swap_past_equipment [of t w c]
  by (auto simp: completes_def)

text \<open>
  C11: After any tasks that complete, as long as no player is activated a second time and only active players move, stop
  and attack (\<open>may\<close>, see C12; a second activation breaks it, see C36): an active player was told of another active player or
  a monster of the instance, and not told to forget it again, just when that entity is in a cell at most one away from the
  player's own. What else it was told of is dying monsters: those it is to forget when a message that is on its way comes.
\<close>

theorem players_know_their_surroundings:
  assumes "instance_reach c width height len used w" "good_area width height len" "n = nat (width div len + 1)"
    and "map_of (players w) i = Some p" "active n i w"
  shows "(\<forall>e q. find_position e w = Some q \<and> e \<noteq> i \<and> visible e \<and> active n e w \<longrightarrow>
      (unwrap e \<in> known i w \<longleftrightarrow> next_to n (sector_of (ps_position p) (world_grid w)) (sector_of q (world_grid w))))
    \<and> (\<forall>k \<in> known i w. \<exists>e. k = unwrap e \<and> (find_position e w \<noteq> None \<or> e \<in> dying i w))"
proof -
  have w: "world_ok n w" using instance_reach_ok(1) [OF assms(1,2)] assms(3) by simp
  note grid = grid_facts [OF w]
  note pl = player_position [OF grid(2) assms(4)]
  have known: "unwrap ` sees n i w \<subseteq> known i w" "known i w \<subseteq> unwrap ` (sees n i w \<union> dying i w)"
    using w pl(1,3) assms(5) by (simp_all add: world_ok_def informed_def)
  have sees: "e \<in> sees n i w \<longleftrightarrow> e \<noteq> i \<and> visible e \<and> next_to n (sector_of (ps_position p) (world_grid w)) (sector_of q (world_grid w))"
    if "find_position e w = Some q" "active n e w" for e q
  proof -
    have e: "here e (sector_of q (world_grid w)) w" "sector_of q (world_grid w) < n * n"
      using active_at [OF grid(1) that(1)] that(2) sector_of_less [OF grid(3)] by simp_all
    have "here e k w \<longleftrightarrow> k = sector_of q (world_grid w)" if "k < n * n" for k
      using here_unique [OF grid(1) e(2,1) that] e(1) by blast
    then have "(\<exists>k < n * n. next_to n x k \<and> here e k w) \<longleftrightarrow> next_to n x (sector_of q (world_grid w))" for x
      using e(2) by blast
    then show ?thesis by (auto simp: sees_def pl(3) around_def)
  qed
  have alive: "e \<notin> dying i w" if "find_position e w = Some q" for e q using not_dying [OF w] that by auto
  have "unwrap e \<in> known i w \<longleftrightarrow> e \<in> sees n i w" if "find_position e w = Some q" for e q
    using known alive [OF that] by auto
  moreover have "find_position e w \<noteq> None" if "e \<in> sees n i w" for e
    using that has_position_here [OF grid(1)] by (fastforce simp: sees_def around_def split: option.splits)
  ultimately show ?thesis using sees known(2) by blast
qed

subsection \<open>Players that are activated twice\<close>

lemma each_tell_missing:
  "i \<in> set is \<Longrightarrow> find_controller i w = None \<Longrightarrow> each (tell p) is w = Inl NullDeref"
proof (induction "is" arbitrary: w)
  case (Cons j "is")
  have "each (tell p) is (sync_client j p w) = Inl NullDeref" if "i \<in> set is"
    using Cons.IH [OF that, of "sync_client j p w"] Cons.prems(2) by (simp add: sync_says)
  moreover have "tell p j w = (if find_controller j w = None then Inl NullDeref else Inr (sync_client j p w))"
    by (simp add: tell_def split: option.split)
  ultimately show ?case using Cons.prems by auto
qed simp

text \<open>
  C36: A player that is activated a second time, which \<^verbatim>\<open>LoadLevelComplete\<close> in a village does, is listed twice in its cell. When it
  leaves, one of the entries stays, without a snapshot: the next message to the cells around, a chat of any player who
  is near, dereferences a null controller.
\<close>

theorem second_activation_leaves_an_entry:
  assumes "instance_reach c width height len used w" "good_area width height len" "n = nat (width div len + 1)"
    and "map_of (players w) i = Some p" "active n i w"
    and "map_of (players w) j = Some q" "j \<noteq> i"
      "next_to n (sector_of (ps_position q) (world_grid w)) (sector_of (ps_position p) (world_grid w))"
  shows "\<exists>w1 w2. run_on_complete c (PlayerActivate i) w = Inr w1 \<and> run_on_complete c (PlayerDespawn i) w1 = Inr w2
    \<and> run_on_complete c (PlayerLocalChat j msg) w2 = Inl NullDeref"
proof -
  have w: "world_ok n w" using instance_reach_ok(1) [OF assms(1,2)] assms(3) by simp
  note grid = grid_facts [OF w]
  note pl = player_position [OF grid(2) assms(4)]
  define s where "s = sector_of (ps_position p) (world_grid w)"
  have s: "s < n * n" "near n s \<noteq> []" using sector_of_less [OF grid(3)] near_itself [of s n] by (auto simp: s_def)
  have here: "here i s w" using active_at [OF grid(1) pl(3)] assms(5) by (simp add: s_def)
  define es where "es = cells_entities (near n s) (world_grid w)"
  have ctrl: "\<forall>e \<in> set es. find_controller e w \<noteq> None"
    unfolding es_def set_near_entities [OF grid(1)] using here_controller [OF grid(1)] by blast
  define l where "l = meet_log (to_float c) w p es @ [(i, ScNotifyPlayerActivated)]"
  obtain g where g: "sector_add_entity i s (world_grid w) = Inr g" "square_grid n g" "lengthPerGrid g = lengthPerGrid (world_grid w)"
      "area_width g = area_width (world_grid w)" "area_height g = area_height (world_grid w)"
      "\<And>k t. listed k g t = (if k = s \<and> t = entity_type i then listed k (world_grid w) t @ [i] else listed k (world_grid w) t)"
    using sector_add_ok [OF grid(3) s(1)] by metis
  define w1 where "w1 = (says l w)\<lparr>world_grid := g\<rparr>"
  have act: "run_on_complete c (PlayerActivate i) w = Inr w1"
    using meet_eq [OF ctrl, of "to_float c" p] has_at_least_0 [OF s(2), of "world_grid w"] s(2) g(1)
    by (simp add: process_player_activate_def assms(4) sector_of_position_eq [OF grid(1)] s_def [symmetric] es_def [symmetric]
        sync_says l_def enter_sector_def w1_def)
  obtain h where h: "sector_remove_entity i s g = Inr h" "square_grid n h" "lengthPerGrid h = lengthPerGrid g"
      "area_width h = area_width g" "area_height h = area_height g"
      "\<And>k t. listed k h t = (if k = s \<and> t = entity_type i then remove1 i (listed k g t) else listed k g t)"
    using sector_remove_ok [OF g(2) s(1)] by metis
  have y: "ySize h = ySize (world_grid w)" "ySize g = ySize (world_grid w)"
    using g(2) h(2) grid(3) by (simp_all add: square_grid_def)
  have same: "sector_of x h = sector_of x (world_grid w)" "sector_of x g = sector_of x (world_grid w)" for x
    by (rule sector_of_same; simp add: g(3-5) h(3-5) y)+
  have list: "set (listed k h t) \<subseteq> set (listed k (world_grid w) t)" for k t
    using here set_remove1_subset [of i "listed k g t"] by (auto simp: h(6) g(6) here_def split: if_splits)
  have stays: "i \<in> set (listed s h (entity_type i))"
    using here by (simp add: h(6) g(6) here_def remove1_append)
  define hs where "hs = cells_entities (near n s) h"
  have hs: "set hs \<subseteq> set es"
    using list by (force simp: hs_def es_def cells_entities_def cell_all_def listed_def)
  have ctrl1: "\<forall>e \<in> set hs. find_controller e (w1\<lparr>world_grid := h\<rparr>) \<noteq> None" using hs ctrl by (auto simp: w1_def)
  let ?out = "map (\<lambda>e. (e, build_remove_remote_player p)) hs"
  define w2 where "w2 = snapshots_remove i (says ?out (w1\<lparr>world_grid := h\<rparr>))"
  have get: "sector_of_position x f v = f (sector_of x (world_grid w)) (near n (sector_of x (world_grid w))) v"
    if "square_grid n (world_grid v)" "sector_of x (world_grid v) = sector_of x (world_grid w)" for x f v
    using that sector_of_less [OF that(1), of x] by (simp add: sector_of_position_def get_sector_ok [OF that(1)] sector_at_index)
  have desp: "run_on_complete c (PlayerDespawn i) w1 = Inr w2"
    using assms(4) g(2) same(2) each_tell [OF ctrl1, of "build_remove_remote_player p"] h(1)
    by (simp add: process_player_despawn_def get w1_def s_def [symmetric] leave_sector_def broadcast_cells_def hs_def [symmetric] w2_def)
  have q2: "map_of (players w2) j = Some q" using assms(6,7) pl(1) by (simp add: w2_def w1_def snapshots_remove_def map_of_erase_key)
  have gone: "find_controller i w2 = None" using find_position_removed [of i i] by (simp add: find_controller_iff w2_def)
  have w2: "world_grid w2 = h" by (simp add: w2_def)
  let ?t = "sector_of (ps_position q) (world_grid w)"
  have "s \<in> set (near n ?t)" using assms(8) s(1) by (simp add: in_near s_def)
  then have "i \<in> set (cells_entities (near n ?t) h)"
    using stays by (cases "entity_type i") (auto simp: cells_entities_def cell_all_def listed_def)
  from each_tell_missing [OF this gone] have "run_on_complete c (PlayerLocalChat j msg) w2 = Inl NullDeref"
    using h(2) same(1) by (simp add: player_local_chat_def q2 broadcast_around_def get w2 broadcast_cells_def)
  with act desp show ?thesis by blast
qed

subsection \<open>Requests for an equipment that does not exist\<close>

text \<open>
  C37: A client that asks to take off what it wears at a position that is not one is refused by the inventory, and nothing
  is saved. But the task remembers the position, and its completion stores an empty equipment at it in the snapshot of
  the player, past the end of the array.
\<close>

theorem refused_swap_writes_out_of_bounds:
  assumes "srcEquipped p" "\<not> destEquipped p" "srcPosition p < 0 \<or> 4 < srcPosition p"
    and "map_of (players w) i = Some q" "length (ps_equipments q) = 4"
  shows "\<exists>t. swap_execute p v = Inr (t, v, None) \<and> run_on_complete c (PlayerItemSwap i p t False) w = Inl OutOfBounds"
proof -
  have "unequip (srcPosition p) (destPosition p) v = Inr (False, v)"
    using assms(3) by (auto simp: unequip_def is_valid_equip_position_def EquipPosition_Count_def)
  then show ?thesis using assms
    by (auto simp: swap_execute_def swap_move_def Let_def swap_announced_def player_item_swap_complete_def
        process_player_equip_item_change_def sync_client_def)
qed

subsection \<open>An instance to look at\<close>

definition run_tasks :: "instance_config \<Rightarrow> instance_task list \<Rightarrow> world \<Rightarrow> fault + world" where
  "run_tasks c ts w = each (run_on_complete c) ts w"

fun may_run :: "instance_config \<Rightarrow> nat \<Rightarrow> entity_id set \<Rightarrow> instance_task list \<Rightarrow> world \<Rightarrow> bool" where
  "may_run c n used [] w \<longleftrightarrow> True"
| "may_run c n used (t # ts) w \<longleftrightarrow> may n used t w
     \<and> (case run_on_complete c t w of Inl e \<Rightarrow> False | Inr w' \<Rightarrow> may_run c n (used \<union> new_ids t) ts w')"

lemma instance_run:
  assumes "instance_reach c width height len used w" "may_run c (nat (width div len + 1)) used ts w"
  shows "\<exists>w' used'. run_tasks c ts w = Inr w' \<and> instance_reach c width height len used' w' \<and> used' = fold (\<lambda>t u. u \<union> new_ids t) ts used"
  using assms
proof (induction ts arbitrary: used w)
  case (Cons t ts)
  obtain w1 where w1: "run_on_complete c t w = Inr w1" "may_run c (nat (width div len + 1)) (used \<union> new_ids t) ts w1"
    using Cons.prems(2) by (auto split: sum.splits)
  have "instance_reach c width height len (used \<union> new_ids t) w1"
    using instance_step [OF Cons.prems(1) _ w1(1)] Cons.prems(2) by simp
  from Cons.IH [OF this w1(2)] w1(1) show ?case by (auto simp: run_tasks_def)
qed (simp add: run_tasks_def)

definition village_config :: instance_config where
  "village_config = \<lparr>to_float = (\<lambda>_. 0), to_double = (\<lambda>_. 0), zone_id = 1, is_village = True\<rparr>"

definition player_number :: "32 word \<Rightarrow> player_entity" where
  "player_number k =
     \<lparr>pn_id = EntityId PlayerEntity k, pn_name = [], pn_level = 1, pn_face = 0, pn_hair = 0, pn_stats = stat_component_new,
      pn_inventory = inventory_new, pn_position = (0, 0, 0), pn_yaw = 0\<rparr>"

definition monster_number :: "32 word \<Rightarrow> monster_snapshot" where
  "monster_number k =
     \<lparr>ms_id = EntityId MonsterEntity k, ms_remote = False,
      ms_data = \<lparr>md_id = 1, md_attackMin = 0, md_attackMax = 0, md_attackRange = 0, md_attackSpeed = 0\<rparr>,
      ms_position = (0, 0, 0), ms_yaw = 0, ms_hp = 1, ms_maxHp = 1\<rparr>"

definition village_tasks :: "instance_task list" where
  "village_tasks = [PlayerSpawn 0 True (player_number 1), MonsterSpawn (monster_number 1), PlayerSpawn 0 True (player_number 2)]"

definition village_start :: world where
  "village_start = (case container_new 0 0 1 of Inl _ \<Rightarrow> empty_world undefined | Inr g \<Rightarrow> empty_world g)"

definition village :: world where
  "village = (case run_tasks village_config village_tasks village_start of Inl _ \<Rightarrow> village_start | Inr w \<Rightarrow> w)"

definition village_ids :: "entity_id set" where
  "village_ids = {EntityId PlayerEntity 2, EntityId MonsterEntity 1, EntityId PlayerEntity 1}"

lemma village_reached: "instance_reach village_config 0 0 1 village_ids village"
proof -
  obtain g where g: "container_new 0 0 1 = Inr g" using square_grid_new [of 1 0 0 1] by auto
  have "instance_reach village_config 0 0 1 {} village_start"
    using instance_start [OF g] by (simp add: village_start_def g)
  moreover have "may_run village_config 1 {} village_tasks village_start" by code_simp
  ultimately obtain w where w: "run_tasks village_config village_tasks village_start = Inr w"
      "instance_reach village_config 0 0 1 (fold (\<lambda>t u. u \<union> new_ids t) village_tasks {}) w"
    using instance_run [of village_config 0 0 1 "{}" village_start village_tasks] by auto
  have "fold (\<lambda>t u. u \<union> new_ids t) village_tasks {} = village_ids"
    by (simp add: village_tasks_def player_number_def monster_number_def village_ids_def)
  with w show ?thesis by (simp add: village_def)
qed

lemma village_area: "good_area 0 0 1"
  by (simp add: good_area_def)

lemma village_players:
  "map_option ps_position (map_of (players village) (EntityId PlayerEntity 1)) = Some (0, 0, 0)"
  "map_option ps_position (map_of (players village) (EntityId PlayerEntity 2)) = Some (0, 0, 0)"
  "map_option (\<lambda>p. length (ps_equipments p)) (map_of (players village) (EntityId PlayerEntity 1)) = Some 4"
  "active 1 (EntityId PlayerEntity 1) village"
  "may 1 village_ids (PlayerAttackEffectApply (EntityId PlayerEntity 1) [(EntityId MonsterEntity 1, True, None)] []) village"
  "next_to 1 (sector_of (0, 0, 0) (world_grid village)) (sector_of (0, 0, 0) (world_grid village))"
  by code_simp+

text \<open>The swap task of a client that asks to take off what it wears at a position 7.\<close>

definition bad_swap :: instance_task where
  "bad_swap = PlayerItemSwap (EntityId PlayerEntity 1)
     \<lparr>destEquipped = False, destPosition = 0, srcEquipped = True, srcPosition = 7\<rparr>
     (case swap_execute \<lparr>destEquipped = False, destPosition = 0, srcEquipped = True, srcPosition = 7\<rparr> inventory_new of
        Inl _ \<Rightarrow> undefined | Inr (t, _, _) \<Rightarrow> t) False"

lemma bad_swap_may: "may 1 village_ids bad_swap village" "past_equipment bad_swap village"
  by code_simp+

theorem allowed_tasks_complete_witness:
  "(\<exists>w'. run_on_complete village_config
     (PlayerAttackEffectApply (EntityId PlayerEntity 1) [(EntityId MonsterEntity 1, True, None)] []) village = Inr w')
   \<and> run_on_complete village_config bad_swap village = Inl OutOfBounds"
proof -
  have n: "nat (0 div 1 + 1) = (1 :: nat)" by simp
  note ok = allowed_tasks_complete [OF village_reached village_area, unfolded n]
  from ok [OF village_players(5)] ok [OF bad_swap_may(1)] bad_swap_may(2) show ?thesis by simp
qed

theorem players_know_their_surroundings_witness:
  "\<exists>p. map_of (players village) (EntityId PlayerEntity 1) = Some p
    \<and> (\<forall>e q. find_position e village = Some q \<and> e \<noteq> EntityId PlayerEntity 1 \<and> visible e \<and> active 1 e village \<longrightarrow>
         (unwrap e \<in> known (EntityId PlayerEntity 1) village
            \<longleftrightarrow> next_to 1 (sector_of (ps_position p) (world_grid village)) (sector_of q (world_grid village))))
    \<and> (\<forall>k \<in> known (EntityId PlayerEntity 1) village. \<exists>e. k = unwrap e
         \<and> (find_position e village \<noteq> None \<or> e \<in> dying (EntityId PlayerEntity 1) village))"
proof -
  obtain p where p: "map_of (players village) (EntityId PlayerEntity 1) = Some p" using village_players(1) by auto
  from players_know_their_surroundings [OF village_reached village_area _ p village_players(4)] p show ?thesis by simp
qed

theorem second_activation_leaves_an_entry_witness:
  "\<exists>w1 w2. run_on_complete village_config (PlayerActivate (EntityId PlayerEntity 1)) village = Inr w1
    \<and> run_on_complete village_config (PlayerDespawn (EntityId PlayerEntity 1)) w1 = Inr w2
    \<and> run_on_complete village_config (PlayerLocalChat (EntityId PlayerEntity 2) []) w2 = Inl NullDeref"
proof -
  obtain p q where p: "map_of (players village) (EntityId PlayerEntity 1) = Some p" "ps_position p = (0, 0, 0)"
      "map_of (players village) (EntityId PlayerEntity 2) = Some q" "ps_position q = (0, 0, 0)"
    using village_players(1,2) by auto
  show ?thesis
    by (rule second_activation_leaves_an_entry [OF village_reached village_area _ p(1) village_players(4) p(3)])
      (use p village_players(6) in simp_all)
qed

theorem refused_swap_writes_out_of_bounds_witness:
  "\<exists>t. swap_execute \<lparr>destEquipped = False, destPosition = 0, srcEquipped = True, srcPosition = 1000\<rparr> inventory_new = Inr (t, inventory_new, None)
    \<and> run_on_complete village_config (PlayerItemSwap (EntityId PlayerEntity 1)
        \<lparr>destEquipped = False, destPosition = 0, srcEquipped = True, srcPosition = 1000\<rparr> t False) village = Inl OutOfBounds"
proof -
  obtain q where "map_of (players village) (EntityId PlayerEntity 1) = Some q" "length (ps_equipments q) = 4"
    using village_players(3) by auto
  then show ?thesis by (intro refused_swap_writes_out_of_bounds) simp_all
qed

end
