(* ===== verification/Spec2Isabelle.thy ===== *)
theory Spec2Isabelle
  imports Snowflake Repository Strand Future Channel LoginSession Scheduler AiController Coordination RpcProperties Session
    SpatialScan Aggro InstanceProperties
begin

text \<open>
  A verification development for \<^verbatim>\<open>zerosugar\<close>, the server of an online role-playing game in C++20. All paths
  below are relative to \<^verbatim>\<open>src/zerosugar\<close>.

  \<^bold>\<open>The program.\<close> Clients connect over TCP, first to a login server, then to a lobby server, then to a game
  server. Each connection is a \<^verbatim>\<open>Session\<close> that puts the buffers it receives in a channel; a coroutine takes them out,
  cuts packets off and hands each to the state machine of the session, whose states ask the back-end services (login,
  gateway, coordination, database) by remote calls. A game server runs game instances; everything an instance does is
  a task for its scheduler, which locks the entities a task names and runs tasks on a pool of threads. What a task leaves to be
  seen is done when it completes, on the strand of the instance: it changes snapshots of the entities and a grid of cells, and
  tells the players around. Monsters are driven by behaviour
  trees in coroutines. What a task changes in an inventory is logged, and the repository of the game
  server sends the logs, per character and in order, to the database service, where a stored procedure replays them. All of
  this runs on the executors, strands, futures and channels of \<^verbatim>\<open>shared/execution\<close>.

  \<^bold>\<open>The theories\<close>, in the order of their dependence:

  \<^item> \<open>Prelude\<close>: the faults a statement can end in, the sequencing of fallible steps, lemmas on lists and maps.
  \<^item> \<open>Snowflake\<close>: \<^verbatim>\<open>shared/snowflake\<close>, unique ids as 64-bit words. The record \<open>snowflake\<close> is the class,
    \<open>generate\<close> and \<open>wait_next_tick\<close> its methods; the readings of the clock are a list that calls consume. The locale
    \<open>unique_id_generator\<close> states what users of ids rely on.
  \<^item> \<open>Inventory\<close>, \<open>InventoryStacking\<close>: \<^verbatim>\<open>inventory_component.cpp\<close>, each method under its name in the
    record \<open>inventory_component\<close>. \<^verbatim>\<open>_items\<close> is the store the slots point into by key.
  \<^item> \<open>ItemDatabase\<close>: the tables and the procedures \<^verbatim>\<open>items_update.sql\<close> and \<^verbatim>\<open>characters_get.sql\<close>, one definition
    per statement. The locale \<open>journaled_store\<close> is the contract between an inventory and its log; it is interpreted on the two.
  \<^item> \<open>ItemTasks\<close>, \<open>Repository\<close>: the tasks that change inventories and the queue of saves of \<^verbatim>\<open>game_repository.cpp\<close>.
  \<^item> \<open>Strand\<close>, \<open>Future\<close>, \<open>Channel\<close>: \<^verbatim>\<open>shared/execution\<close>. Steps are critical sections and atomic
    operations, and threads interleave between them; \<open>strand_step\<close> and \<open>stream_step\<close> are inductive relations.
  \<^item> \<open>Fragment\<close>, \<open>Buffer\<close>, \<open>ByteStream\<close>: \<^verbatim>\<open>shared/network/buffer\<close> and \<^verbatim>\<open>shared/io\<close>. Blocks of memory live on an explicit
    heap with their reference counts. The locale \<open>byte_iterator\<close> is what the template \<^verbatim>\<open>StreamReader\<close> needs of an iterator; it is
    interpreted on the iterators of buffers.
  \<^item> \<open>Packets\<close>: the packet writer and reader and every message of the login and lobby protocols.
  \<^item> \<open>Framing\<close>, \<open>LobbySession\<close>, \<open>LoginSession\<close>: the receive loop of a session for any protocol (locale
    \<open>packet_protocol\<close>, interpreted on both protocols), the generic state machine, the states of both sessions.
  \<^item> \<open>Scheduler\<close>: \<^verbatim>\<open>game_task_scheduler.cpp\<close>, with processes and resources on an explicit memory, all its operations, and the
    relation of its reachable states.
  \<^item> \<open>BehaviorTree\<close>, \<open>AiController\<close>: \<^verbatim>\<open>shared/ai/behavior_tree\<close> and \<^verbatim>\<open>AIController::RunAI\<close>.
  \<^item> \<open>DungeonMatch\<close>, \<open>LoadBalancer\<close>, \<open>Coordination\<close>: \<^verbatim>\<open>xr/service/coordination\<close>, the matching of dungeon groups, the choice
    of a server, and the service with its nodes, users and commands; \<open>Coordination\<close> composes the three and the id generators.
  \<^item> \<open>RpcMessages\<close>, \<open>Rpc\<close>, \<open>RpcInvariant\<close>, \<open>RpcProperties\<close>: \<^verbatim>\<open>xr/network/rpc\<close>, the server and its clients as a network of
    queues of messages, all four kinds of call.
  \<^item> \<open>GameMessages\<close>: every object and message of the game protocol.
  \<^item> \<open>Session\<close>: \<^verbatim>\<open>shared/network/session\<close>, sending and receiving of one connection over the heap of blocks; the socket is two
    streams of bytes and its completions. The locale \<open>event_sink\<close> is what a session needs of its owner.
  \<^item> \<open>SpatialGrid\<close>, \<open>SpatialScan\<close>: \<^verbatim>\<open>xr/server/game/instance/grid\<close>, the cells and sectors, and the scanner that looks around entities.
  \<^item> \<open>Aggro\<close>, \<open>Stats\<close>: whom a monster attacks, and the stats of entities.
  \<^item> \<open>GamePackets\<close>, \<open>Snapshots\<close>: \<^verbatim>\<open>packet_builder.cpp\<close> and \<^verbatim>\<open>xr/server/game/instance/snapshot\<close>: the record \<open>world\<close> is the grid and the
    container of snapshots, with what was passed to the controllers of entities; one definition per operation.
  \<^item> \<open>Interest\<close>, \<open>InterestOps\<close>, \<open>Presence\<close>: that each of these operations keeps players informed of who is around them.
  \<^item> \<open>InstanceTasks\<close>, \<open>InstanceProperties\<close>: what the tasks of \<^verbatim>\<open>xr/server/game/instance/task/impl\<close> do on the strand, as \<open>run_on_complete\<close>, and
    the relation \<open>instance_reach\<close> of the states of an instance.

  \<^bold>\<open>What the lemmas show.\<close> Of the data path: a log replayed by the database gives the inventory the program holds, in any
  sequence of operations; a saved inventory is loaded again; the repository sends logs in order. Of the
  wire: bytes written are read back, messages are recovered from any division of the stream into buffers, slicing and merging
  keep every byte and leak no block, a session hands on what was read and sends what it was given. Remote calls: an answer is given
  once, to the caller, after all that was streamed. Of concurrency: mutual exclusion and progress of strands, single settlement of futures, order
  of channels, exclusive entities and order of tasks in the scheduler. Of control: the interleaved traversal of a
  behaviour tree equals its recursive reading; the lobby touches only characters the database named; matching keeps
  users, queues and groups consistent; a player is let in once per admission and as admitted. Of the game: the batched scan of the grid
  finds what a search through all entities finds; a player knows exactly who is at most one cell away, as long as no player is
  activated twice and only active ones act; lists of aggro stay sorted while they grow; cached stats are current. Where the code does something else than it means to, the theorem that shows
  it is a property too (a loop that never ends when an inventory is full, a failed launch that blocks its
  users, an instance removed under its players, a player activated twice, a refused request that writes past an array) or a lemma.

  \<^bold>\<open>Conventions.\<close> The model is of the release build, so an assertion has no branch (but those of \<^verbatim>\<open>OnComplete\<close> of the scheduler, in
  \<open>complete_task\<close>, which are shown to hold); what it protects is a \<open>fault\<close>: an exception, a null pointer, an index out of range, a use after free, an empty optional. A fallible operation
  returns \<open>fault + 'a\<close>. Integers are words where they can wrap or are laid out in bytes (ids, packets, sizes on the wire)
  and \<open>int\<close> where the code stays within range. Answers of other processes are arguments of the steps that wait for
  them.

  \<^bold>\<open>Bounds and fuel.\<close> \<open>receive_loop\<close> is given one more round than the buffer has bytes: each request that announces a
  positive size takes at least one, and for the others a property shows that no fuel is enough. The search for the end of a string and the distance of two
  iterators are given the bytes left. \<open>item_add_loop\<close> and \<open>traverse_loop\<close> are partial functions in \<open>option\<close>: that they return, or never do, is proved.
  \<open>make_groups\<close> takes the size of a group as an argument; the program uses \<open>matchOrganizeSize\<close>.

  \<^bold>\<open>Not modelled.\<close> The sockets themselves and the adapters to \<^verbatim>\<open>boost::asio\<close> are I/O. The answers of the login, gateway and
  database services are arguments. Positions and stats are rational numbers; rounding, NaN and what needs angles (rotated boxes, movement of monsters,
  the query of the grid) is left out, as are collision and navigation, which is third-party (Recast, Detour). JSON is third-party too: that a text
  given to a callback of a remote call does not parse is left out. A delayed broadcast is delivered in one step, although the code
  does so outside the strand of the instance. Of the game
  server the dispatch of packets and commands to tasks and to the coordination service is left out, of an instance its
  start and its end. Tools, bots, start-up code, logging and the visualiser have no logic of the server.
\<close>

end
